(* ===== verification/Prelude.thy ===== *)
theory Prelude
  imports
    Main
    "HOL-Library.Word"
    "HOL-Library.List_Lexorder"
    "HOL-Library.Product_Lexorder"
    "HOL-Library.Sublist"
begin

text \<open>
  Shared vocabulary of the development: machine integers and byte strings with the
  big-endian encodings the storage layer uses (\<open>to_be_bytes\<close>/\<open>from_be_bytes\<close>), the reversed
  order \<open>std::cmp::Reverse\<close>, the error taxonomy of \<open>error.rs\<close>, the state-passing view of
  fallible operations on a transaction, and \<open>BTreeMap\<close> as a strictly sorted association list.

  Integers of the source keep their width: \<open>u8\<close>, \<open>u32\<close>, \<open>u64\<close> are \<open>8/32/64 word\<close>, so
  arithmetic wraps as it does in a release build. A Rust \<open>String\<close> is the list of its UTF-8 bytes.
\<close>

unbundle bit_operations_syntax

named_theorems key_defs \<open>definitions of the key encoders\<close>
named_theorems tx_simps \<open>rewrites of transaction programs\<close>

section \<open>Machine integers and byte strings\<close>

type_synonym byte = "8 word"
type_synonym u16 = "16 word"
type_synonym u32 = "32 word"
type_synonym u64 = "64 word"
type_synonym bytes = "byte list"
type_synonym str = "byte list"

text \<open>A byte-string literal such as \<open>b"magic"\<close>.\<close>

definition bstr :: "string \<Rightarrow> bytes" where
  "bstr s = map of_char s"

text \<open>\<open>uN::to_be_bytes\<close>, most significant byte first.\<close>

definition be16 :: "u16 \<Rightarrow> bytes" where
  "be16 w = [ucast (drop_bit 8 w), ucast w]"

definition be32 :: "u32 \<Rightarrow> bytes" where
  "be32 w = be16 (ucast (drop_bit 16 w)) @ be16 (ucast w)"

definition be64 :: "u64 \<Rightarrow> bytes" where
  "be64 w = be32 (ucast (drop_bit 32 w)) @ be32 (ucast w)"

text \<open>
  \<open>try_into().map(uN::from_be_bytes)\<close> on a slice: \<open>None\<close> when the slice does not have
  exactly the width of the integer.
\<close>

definition word_join :: "'b::len word \<Rightarrow> 'b word \<Rightarrow> 'a::len word" where
  "word_join h l = push_bit LENGTH('b) (ucast h) OR ucast l"

fun from_be16 :: "bytes \<Rightarrow> u16 option" where
  "from_be16 [a, b] = Some (word_join a b)"
| "from_be16 _ = None"

definition from_be32 :: "bytes \<Rightarrow> u32 option" where
  "from_be32 bs =
     (case from_be16 (take 2 bs) of
        None \<Rightarrow> None
      | Some h \<Rightarrow> map_option (word_join h) (from_be16 (drop 2 bs)))"

definition from_be64 :: "bytes \<Rightarrow> u64 option" where
  "from_be64 bs =
     (case from_be32 (take 4 bs) of
        None \<Rightarrow> None
      | Some h \<Rightarrow> map_option (word_join h) (from_be32 (drop 4 bs)))"

lemma word_join_split:
  fixes w :: "'a::len word"
  assumes "LENGTH('a) = 2 * LENGTH('b::len)"
  shows "word_join (ucast (drop_bit LENGTH('b) w) :: 'b word) (ucast w) = w"
  using assms by (intro bit_word_eqI) (auto simp: word_join_def bit_simps)

lemma word_join_hi:
  fixes h l :: "'b::len word"
  assumes "LENGTH('a::len) = 2 * LENGTH('b)"
  shows "ucast (drop_bit LENGTH('b) (word_join h l :: 'a word)) = h"
  using assms by (intro bit_word_eqI) (auto simp: word_join_def bit_simps bit_imp_le_length dest: bit_imp_le_length)

lemma word_join_lo:
  fixes h l :: "'b::len word"
  assumes "LENGTH('a::len) = 2 * LENGTH('b)"
  shows "ucast (word_join h l :: 'a word) = l"
  using assms by (intro bit_word_eqI) (auto simp: word_join_def bit_simps)

lemma length_be16 [simp]: "length (be16 w) = 2"
  by (simp add: be16_def)

lemma length_be32 [simp]: "length (be32 w) = 4"
  by (simp add: be32_def)

lemma length_be64 [simp]: "length (be64 w) = 8"
  by (simp add: be64_def)

lemma from_be16_be16 [simp]: "from_be16 (be16 w) = Some w"
  using word_join_split [where 'b = 8, of w] by (simp add: be16_def)

lemma from_be32_be32 [simp]: "from_be32 (be32 w) = Some w"
  using word_join_split [where 'b = 16, of w] by (simp add: be32_def from_be32_def)

lemma from_be64_be64 [simp]: "from_be64 (be64 w) = Some w"
  using word_join_split [where 'b = 32, of w] by (simp add: be64_def from_be64_def)

lemma be16_from_be16: "from_be16 bs = Some w \<Longrightarrow> be16 w = bs"
  using word_join_hi [where 'a = 16 and 'b = 8] word_join_lo [where 'a = 16 and 'b = 8]
  by (cases bs rule: from_be16.cases) (auto simp: be16_def)

lemma be32_from_be32: "from_be32 bs = Some w \<Longrightarrow> be32 w = bs"
  using word_join_hi [where 'a = 32 and 'b = 16] word_join_lo [where 'a = 32 and 'b = 16]
  by (auto simp: be32_def from_be32_def be16_from_be16 split: option.splits)

lemma be64_from_be64: "from_be64 bs = Some w \<Longrightarrow> be64 w = bs"
  using word_join_hi [where 'a = 64 and 'b = 32] word_join_lo [where 'a = 64 and 'b = 32]
  by (auto simp: be64_def from_be64_def be32_from_be32 split: option.splits)

lemma from_be32_iff: "from_be32 bs = Some w \<longleftrightarrow> bs = be32 w"
  using be32_from_be32 by auto

lemma from_be64_iff: "from_be64 bs = Some w \<longleftrightarrow> bs = be64 w"
  using be64_from_be64 by auto

lemma be32_inj [simp]: "be32 a = be32 b \<longleftrightarrow> a = b"
  by (metis from_be32_be32 option.inject)

lemma be64_inj [simp]: "be64 a = be64 b \<longleftrightarrow> a = b"
  by (metis from_be64_be64 option.inject)

lemma lex_append_less:
  fixes a b x y :: "'a::linorder list"
  assumes "length a = length b"
  shows "a @ x < b @ y \<longleftrightarrow> a < b \<or> (a = b \<and> x < y)"
  using assms by (induction a b rule: list_induct2) auto

lemma word_split_less:
  fixes w v :: "'a::len word"
  assumes len: "LENGTH('a) = 2 * LENGTH('b::len)"
  shows "w < v \<longleftrightarrow>
    (ucast (drop_bit LENGTH('b) w) :: 'b word) < ucast (drop_bit LENGTH('b) v) \<or>
    (ucast (drop_bit LENGTH('b) w) :: 'b word) = ucast (drop_bit LENGTH('b) v) \<and>
    (ucast w :: 'b word) < ucast v"
proof -
  let ?n = "LENGTH('b)"
  have hi: "unat (ucast (drop_bit ?n x) :: 'b word) = unat x div 2 ^ ?n" for x :: "'a word"
  proof -
    have "unat x < 2 ^ LENGTH('a)" by (rule unsigned_less)
    then have "unat x < 2 ^ ?n * 2 ^ ?n" by (simp add: len mult_2 power_add)
    then have "unat x div 2 ^ ?n < 2 ^ ?n"
      by (simp add: less_mult_imp_div_less)
    then show ?thesis
      unfolding unsigned_ucast_eq unsigned_drop_bit_eq
      by (simp add: drop_bit_eq_div take_bit_nat_eq_self)
  qed
  have lo: "unat (ucast x :: 'b word) = unat x mod 2 ^ ?n" for x :: "'a word"
    by (simp add: unsigned_ucast_eq take_bit_eq_mod)
  have split: "(a < b) = (a div m < b div m \<or> a div m = b div m \<and> a mod m < b mod m)"
    for a b m :: nat
    by (metis div_le_mono div_mult_mod_eq leD le_neq_implies_less less_or_eq_imp_le
        linorder_neqE_nat nat_add_left_cancel_less)
  show ?thesis
    unfolding word_less_nat_alt word_unat_eq_iff hi
    unfolding lo by (rule split)
qed

lemma word_less_succ:
  fixes a x :: "'a::len word"
  assumes "a \<noteq> - 1"
  shows "x < a + 1 \<longleftrightarrow> x \<le> a"
proof -
  have "1 + a \<noteq> 0" using assms by (metis add.commute eq_neg_iff_add_eq_0)
  then have "unat (a + 1) = Suc (unat a)" by (simp add: unatSuc add.commute)
  then show ?thesis by (simp add: word_less_nat_alt word_le_nat_alt less_Suc_eq_le)
qed

lemma word_self_less_succ:
  "(a::'a::len word) \<noteq> - 1 \<Longrightarrow> a < a + 1"
  by (simp add: word_less_succ)

lemma be16_less: "be16 a < be16 b \<longleftrightarrow> a < b"
  using word_split_less [where 'b = 8, of a b] by (simp add: be16_def)

lemma be16_inj [simp]: "be16 a = be16 b \<longleftrightarrow> a = b"
  by (metis be16_less linorder_neq_iff)

lemma be32_less [simp]: "be32 a < be32 b \<longleftrightarrow> a < b"
  using word_split_less [where 'b = 16, of a b]
  by (simp add: be32_def lex_append_less be16_less)

lemma be64_less [simp]: "be64 a < be64 b \<longleftrightarrow> a < b"
  using word_split_less [where 'b = 32, of a b]
  by (simp add: be64_def lex_append_less)


section \<open>Reversed order\<close>

text \<open>\<open>std::cmp::Reverse\<close>, with which the memtable sorts the versions of a key newest first.\<close>

datatype 'a Reverse = Reverse (un_reverse: 'a)

instantiation Reverse :: (linorder) linorder
begin

definition less_eq_Reverse :: "'a Reverse \<Rightarrow> 'a Reverse \<Rightarrow> bool" where
  "a \<le> b \<longleftrightarrow> un_reverse b \<le> un_reverse a"

definition less_Reverse :: "'a Reverse \<Rightarrow> 'a Reverse \<Rightarrow> bool" where
  "a < b \<longleftrightarrow> un_reverse b < un_reverse a"

instance
  by standard (auto simp: less_eq_Reverse_def less_Reverse_def Reverse.expand)

end

lemma Reverse_less [simp]: "Reverse a < Reverse b \<longleftrightarrow> b < a"
  by (simp add: less_Reverse_def)

lemma Reverse_le [simp]: "Reverse a \<le> Reverse b \<longleftrightarrow> b \<le> a"
  by (simp add: less_eq_Reverse_def)

section \<open>Errors and fallible state passing\<close>

text \<open>
  The variants of \<open>crate::error::Error\<close>; message texts and boxed sources are not modelled.
  \<open>Panic\<close> stands for the places where the code would panic (\<open>expect\<close>, an inverted
  \<open>BTreeMap::range\<close>).

  An operation on \<open>&mut dyn WriteTransaction\<close> returns its result together with the transaction
  it leaves behind: what was staged before an error stays staged, as in the source.
\<close>

datatype err =
    NotFound | PlaneMismatch | PlaneExists | Conflict | InvalidArgument | Timeout
  | Corrupt | ReadOnly | Unsupported | Backend | Io | Panic

type_synonym 'a res = "err + 'a"
type_synonym ('t, 'a) act = "'t \<Rightarrow> 'a res \<times> 't"

definition ret :: "'a \<Rightarrow> ('t, 'a) act" where
  "ret x t = (Inr x, t)"

definition fail :: "err \<Rightarrow> ('t, 'a) act" where
  "fail e t = (Inl e, t)"

definition act_bind :: "('t, 'a) act \<Rightarrow> ('a \<Rightarrow> ('t, 'b) act) \<Rightarrow> ('t, 'b) act" where
  "act_bind m f t = (case m t of (Inl e, t') \<Rightarrow> (Inl e, t') | (Inr x, t') \<Rightarrow> f x t')"

definition reading :: "('t \<Rightarrow> 'a res) \<Rightarrow> ('t, 'a) act" where
  "reading f t = (f t, t)"

fun act_iter :: "('a \<Rightarrow> ('t, unit) act) \<Rightarrow> 'a list \<Rightarrow> ('t, unit) act" where
  "act_iter f [] = ret ()"
| "act_iter f (x # xs) = act_bind (f x) (\<lambda>_. act_iter f xs)"

fun act_map :: "('a \<Rightarrow> ('t, 'b) act) \<Rightarrow> 'a list \<Rightarrow> ('t, 'b list) act" where
  "act_map f [] = ret []"
| "act_map f (x # xs) = act_bind (f x) (\<lambda>y. act_bind (act_map f xs) (\<lambda>ys. ret (y # ys)))"

definition res_bind :: "'a res \<Rightarrow> ('a \<Rightarrow> 'b res) \<Rightarrow> 'b res" where
  "res_bind r f = (case r of Inl e \<Rightarrow> Inl e | Inr x \<Rightarrow> f x)"

fun res_map :: "('a \<Rightarrow> 'b res) \<Rightarrow> 'a list \<Rightarrow> 'b list res" where
  "res_map f [] = Inr []"
| "res_map f (x # xs) = res_bind (f x) (\<lambda>y. res_bind (res_map f xs) (\<lambda>ys. Inr (y # ys)))"

definition ok_or :: "err \<Rightarrow> 'a option \<Rightarrow> 'a res" where
  "ok_or e x = (case x of None \<Rightarrow> Inl e | Some v \<Rightarrow> Inr v)"

lemma act_bind_ret [simp]: "act_bind (ret x) f = f x"
  by (simp add: act_bind_def ret_def fun_eq_iff)

lemma act_bind_fail [simp]: "act_bind (fail e) f = fail e"
  by (simp add: act_bind_def fail_def fun_eq_iff)

lemma act_bind_reading: "act_bind (reading r) f t = (case r t of Inl e \<Rightarrow> (Inl e, t) | Inr x \<Rightarrow> f x t)"
  by (simp add: act_bind_def reading_def split: sum.splits)

lemma act_bind_Inr: "m t = (Inr x, t') \<Longrightarrow> act_bind m f t = f x t'"
  by (simp add: act_bind_def)

lemma act_bind_Inl: "m t = (Inl e, t') \<Longrightarrow> act_bind m f t = (Inl e, t')"
  by (simp add: act_bind_def)

lemma act_bind_eq_Inr:
  "act_bind m f t = (Inr y, t'') \<longleftrightarrow> (\<exists>x t'. m t = (Inr x, t') \<and> f x t' = (Inr y, t''))"
  by (auto simp: act_bind_def split: prod.splits sum.splits)

lemma ret_apply [simp]: "ret x t = (Inr x, t)"
  by (simp add: ret_def)

lemma fail_apply [simp]: "fail e t = (Inl e, t)"
  by (simp add: fail_def)

lemma reading_apply [simp]: "reading r t = (r t, t)"
  by (simp add: reading_def)

lemma res_bind_Inr [simp]: "res_bind (Inr x) f = f x"
  by (simp add: res_bind_def)

lemma res_bind_Inl [simp]: "res_bind (Inl e) f = Inl e"
  by (simp add: res_bind_def)

lemma res_bind_eq_Inr: "res_bind r f = Inr y \<longleftrightarrow> (\<exists>x. r = Inr x \<and> f x = Inr y)"
  by (cases r) auto

lemma ok_or_simps [simp]: "ok_or e None = Inl e" "ok_or e (Some x) = Inr x"
  by (simp_all add: ok_or_def)

lemma res_map_Inr: "(\<And>x. x \<in> set xs \<Longrightarrow> f x = Inr (g x)) \<Longrightarrow> res_map f xs = Inr (map g xs)"
  by (induction xs) auto

section \<open>Ordered maps\<close>

text \<open>
  \<open>BTreeMap\<close> as an association list that is strictly sorted by key (\<open>bt_ok\<close>). \<open>bt_range\<close>
  is \<open>BTreeMap::range\<close> from an included lower to an excluded (or absent) upper bound, which panics
  when the bounds are inverted.
\<close>

type_synonym ('k, 'v) btree = "('k \<times> 'v) list"

abbreviation bt_ok :: "('k::linorder, 'v) btree \<Rightarrow> bool" where
  "bt_ok m \<equiv> sorted_wrt (<) (map fst m)"

fun bt_insert :: "'k::linorder \<Rightarrow> 'v \<Rightarrow> ('k, 'v) btree \<Rightarrow> ('k, 'v) btree" where
  "bt_insert k v [] = [(k, v)]"
| "bt_insert k v ((a, b) # m) =
     (if k < a then (k, v) # (a, b) # m
      else if k = a then (k, v) # m
      else (a, b) # bt_insert k v m)"

fun bt_remove :: "'k::linorder \<Rightarrow> ('k, 'v) btree \<Rightarrow> ('k, 'v) btree" where
  "bt_remove k [] = []"
| "bt_remove k ((a, b) # m) = (if k = a then m else (a, b) # bt_remove k m)"

definition in_range :: "'k::linorder \<Rightarrow> 'k option \<Rightarrow> 'k \<Rightarrow> bool" where
  "in_range lo hi k \<longleftrightarrow> lo \<le> k \<and> (case hi of None \<Rightarrow> True | Some h \<Rightarrow> k < h)"

definition bt_range :: "('k::linorder, 'v) btree \<Rightarrow> 'k \<Rightarrow> 'k option \<Rightarrow> ('k \<times> 'v) list res" where
  "bt_range m lo hi =
     (if (case hi of None \<Rightarrow> False | Some h \<Rightarrow> h < lo) then Inl Panic
      else Inr (filter (\<lambda>(k, v). in_range lo hi k) m))"

definition bt_of_list :: "('k::linorder \<times> 'v) list \<Rightarrow> ('k, 'v) btree" where
  "bt_of_list xs = foldl (\<lambda>m (k, v). bt_insert k v m) [] xs"

lemma set_fst_bt_insert: "set (map fst (bt_insert k v m)) = insert k (set (map fst m))"
  by (induction m rule: bt_insert.induct) auto

lemma bt_ok_insert [simp]: "bt_ok m \<Longrightarrow> bt_ok (bt_insert k v m)"
proof (induction k v m rule: bt_insert.induct)
  case (2 k v a b m)
  then show ?case using set_fst_bt_insert [of k v m] by auto
qed simp

lemma map_of_bt_insert [simp]: "map_of (bt_insert k v m) = (map_of m)(k \<mapsto> v)"
  by (induction k v m rule: bt_insert.induct) (auto simp: fun_eq_iff)

lemma map_of_below:
  "\<forall>x \<in> set (map fst m). k < (x::'k::linorder) \<Longrightarrow> map_of m k = None"
  by (induction m) auto

lemma bt_ok_remove [simp]: "bt_ok m \<Longrightarrow> bt_ok (bt_remove k m)"
proof (induction m rule: bt_remove.induct)
  case (2 k a b m)
  have "set (bt_remove k m) \<subseteq> set m" by (induction k m rule: bt_remove.induct) auto
  with 2 show ?case by auto
qed simp

lemma map_of_bt_remove [simp]: "bt_ok m \<Longrightarrow> map_of (bt_remove k m) = (map_of m)(k := None)"
proof (induction m rule: bt_remove.induct)
  case (2 k a b m)
  then show ?case using map_of_below [of m k] by (auto simp: fun_eq_iff)
qed simp

lemma bt_ok_fold_remove [simp]: "bt_ok m \<Longrightarrow> bt_ok (fold bt_remove ks m)"
  by (induction ks arbitrary: m) auto

lemma map_of_fold_remove:
  "bt_ok m \<Longrightarrow> map_of (fold bt_remove ks m) = (\<lambda>k. if k \<in> set ks then None else map_of m k)"
  by (induction ks arbitrary: m) (auto simp: fun_eq_iff)

lemma bt_ok_distinct: "bt_ok m \<Longrightarrow> distinct (map fst m)"
  by (auto simp: strict_sorted_iff)

lemma bt_ok_filter [simp]: "bt_ok m \<Longrightarrow> bt_ok (filter P m)"
  by (induction m) auto

lemma bt_in_set: "bt_ok m \<Longrightarrow> (k, v) \<in> set m \<longleftrightarrow> map_of m k = Some v"
  by (simp add: bt_ok_distinct)

lemma bt_ext:
  assumes "bt_ok m" "bt_ok m'" "map_of m = map_of m'"
  shows "m = m'"
proof (rule map_sorted_distinct_set_unique [where f = fst])
  have s: "set m = set m'"
    using assms by (simp add: set_eq_iff bt_in_set split_paired_All)
  then show "set m = set m'" .
  have "inj_on fst (set m)"
    using bt_ok_distinct [OF assms(1)] by (simp add: distinct_map)
  then show "inj_on fst (set m \<union> set m')" using s by simp
qed (use assms in \<open>auto simp: strict_sorted_iff\<close>)

lemma map_of_filter_key: "map_of (filter (\<lambda>(k, v). P k) m) = (\<lambda>k. if P k then map_of m k else None)"
  by (induction m) (auto simp: fun_eq_iff)

lemma bt_ok_foldl_insert: "bt_ok m \<Longrightarrow> bt_ok (foldl (\<lambda>m (k, v). bt_insert k v m) m xs)"
  by (induction xs arbitrary: m) auto

lemma bt_ok_of_list [simp]: "bt_ok (bt_of_list xs)"
  by (simp add: bt_of_list_def bt_ok_foldl_insert)

lemma map_of_foldl_insert:
  "map_of (foldl (\<lambda>m (k, v). bt_insert k v m) m xs) = map_of m ++ map_of (rev xs)"
  by (induction xs arbitrary: m) (auto simp: map_add_def fun_eq_iff split: option.splits)

lemma bt_of_list_map_of: "map_of (bt_of_list xs) = map_of (rev xs)"
  by (simp add: bt_of_list_def map_of_foldl_insert)

lemma map_of_const: "map_of (map (\<lambda>x. (f x, b)) xs) k = (if k \<in> f ` set xs then Some b else None)"
  by (induction xs) auto

end
