(* ===== verification/Keys.thy ===== *)
theory Keys
  imports Prelude
begin

text \<open>
  Key encodings of the logical tables (\<open>storage/keys.rs\<close>), the table enumeration and
  \<open>prefix_successor\<close> (\<open>storage/engine.rs\<close>), and the UTF-8 check \<open>String::from_utf8\<close> that the
  parsers of stored names run. All integers in keys are big-endian, so the byte order of the keys is
  the numeric order of their fields and every per-plane or per-node scan is a contiguous range.
\<close>

section \<open>Identifiers\<close>

text \<open>The \<open>serde(transparent)\<close> newtypes of \<open>types.rs\<close>.\<close>

type_synonym node_id = u64
type_synonym edge_id = u64
type_synonym plane_id = u32

definition STARTUP :: plane_id where
  "STARTUP = 0"

section \<open>Tables\<close>

datatype table_id =
    Meta | Planes | PlaneNames | Nodes | Edges | AdjFwd | AdjRev | LabelIdx | ExtKeys
  | PropIdx | NodePlane

definition ALL_TABLES :: "table_id list" where
  "ALL_TABLES = [Meta, Planes, PlaneNames, Nodes, Edges, AdjFwd, AdjRev, LabelIdx, ExtKeys,
                 PropIdx, NodePlane]"

text \<open>\<open>Self::ALL.iter().position(|t| *t == self)\<close>.\<close>

fun position :: "('a \<Rightarrow> bool) \<Rightarrow> 'a list \<Rightarrow> nat option" where
  "position P [] = None"
| "position P (x # xs) = (if P x then Some 0 else map_option Suc (position P xs))"

definition table_index :: "table_id \<Rightarrow> nat res" where
  "table_index t = ok_or Panic (position (\<lambda>x. x = t) ALL_TABLES)"

definition table_from_index :: "byte \<Rightarrow> table_id option" where
  "table_from_index i = (if unat i < length ALL_TABLES then Some (ALL_TABLES ! unat i) else None)"

section \<open>UTF-8\<close>

abbreviation utf8_cont :: "byte \<Rightarrow> bool" where
  "utf8_cont b \<equiv> 0x80 \<le> b \<and> b \<le> 0xBF"

text \<open>
  The well-formed byte sequences that \<open>String::from_utf8\<close> accepts: no overlong forms, no
  surrogates, nothing above U+10FFFF.
\<close>

fun utf8_ok :: "bytes \<Rightarrow> bool" where
  "utf8_ok [] = True"
| "utf8_ok (b # bs) =
     (if b < 0x80 then utf8_ok bs
      else if 0xC2 \<le> b \<and> b \<le> 0xDF then
        (case bs of c # r \<Rightarrow> utf8_cont c \<and> utf8_ok r | _ \<Rightarrow> False)
      else if 0xE0 \<le> b \<and> b \<le> 0xEF then
        (case bs of c # d # r \<Rightarrow>
           (if b = 0xE0 then 0xA0 \<le> c \<and> c \<le> 0xBF
            else if b = 0xED then 0x80 \<le> c \<and> c \<le> 0x9F
            else utf8_cont c) \<and> utf8_cont d \<and> utf8_ok r
         | _ \<Rightarrow> False)
      else if 0xF0 \<le> b \<and> b \<le> 0xF4 then
        (case bs of c # d # e # r \<Rightarrow>
           (if b = 0xF0 then 0x90 \<le> c \<and> c \<le> 0xBF
            else if b = 0xF4 then 0x80 \<le> c \<and> c \<le> 0x8F
            else utf8_cont c) \<and> utf8_cont d \<and> utf8_cont e \<and> utf8_ok r
         | _ \<Rightarrow> False)
      else False)"

definition from_utf8 :: "bytes \<Rightarrow> str res" where
  "from_utf8 bs = (if utf8_ok bs then Inr bs else Inl Corrupt)"

section \<open>Scan bounds\<close>

text \<open>
  \<open>prefix_successor\<close>: drop trailing \<open>0xFF\<close> bytes, then add one to the last byte that is
  left; \<open>None\<close> when nothing is left. The loop works on the end of the vector, so the model works on
  the reversed list.
\<close>

fun bump_last :: "bytes \<Rightarrow> bytes option" where
  "bump_last [] = None"
| "bump_last (b # rb) = (if b = 255 then bump_last rb else Some (rev ((b + 1) # rb)))"

definition prefix_successor :: "bytes \<Rightarrow> bytes option" where
  "prefix_successor p = bump_last (rev p)"

section \<open>Meta keys\<close>

definition u32be :: "bytes \<Rightarrow> u32 res" where
  "u32be b = ok_or Panic (from_be32 b)"

definition u64be :: "bytes \<Rightarrow> u64 res" where
  "u64be b = ok_or Panic (from_be64 b)"

definition MAGIC :: bytes where "MAGIC = bstr ''DRSG''"
definition META_MAGIC :: bytes where "META_MAGIC = bstr ''magic''"
definition META_FORMAT_VERSION :: bytes where "META_FORMAT_VERSION = bstr ''format_version''"
definition META_NEXT_NODE_ID :: bytes where "META_NEXT_NODE_ID = bstr ''next_node_id''"
definition META_NEXT_EDGE_ID :: bytes where "META_NEXT_EDGE_ID = bstr ''next_edge_id''"
definition META_NEXT_PLANE_ID :: bytes where "META_NEXT_PLANE_ID = bstr ''next_plane_id''"
definition META_NEXT_LABEL_ID :: bytes where "META_NEXT_LABEL_ID = bstr ''next_label_id''"
definition META_NEXT_EDGE_TYPE_ID :: bytes where
  "META_NEXT_EDGE_TYPE_ID = bstr ''next_edge_type_id''"
definition META_COMMIT_SEQ :: bytes where "META_COMMIT_SEQ = bstr ''commit_seq''"
definition META_COMMIT_TIME :: bytes where "META_COMMIT_TIME = bstr ''commit_time''"
definition HISTORY_PREFIX :: bytes where "HISTORY_PREFIX = bstr ''hist:''"
definition VINDEX_PREFIX :: bytes where "VINDEX_PREFIX = bstr ''vidx:''"
definition KINDEX_PREFIX :: bytes where "KINDEX_PREFIX = bstr ''kidx:''"

definition counters_key :: "plane_id \<Rightarrow> bytes" where
  "counters_key plane = bstr ''counters/'' @ be32 plane"

definition history_key :: "u64 \<Rightarrow> bytes" where
  "history_key i = HISTORY_PREFIX @ be64 i"

text \<open>\<open>slice::strip_prefix\<close>.\<close>

definition strip_pre :: "bytes \<Rightarrow> bytes \<Rightarrow> bytes option" where
  "strip_pre p k = (if prefix p k then Some (drop (length p) k) else None)"

definition parse_history_key :: "bytes \<Rightarrow> u64 option" where
  "parse_history_key k =
     (case strip_pre HISTORY_PREFIX k of None \<Rightarrow> None | Some rest \<Rightarrow> from_be64 rest)"

definition vindex_decl_key :: "plane_id \<Rightarrow> str \<Rightarrow> str \<Rightarrow> bytes" where
  "vindex_decl_key plane label property = VINDEX_PREFIX @ be32 plane @ label @ [0] @ property"

definition kindex_decl_key :: "plane_id \<Rightarrow> str \<Rightarrow> str \<Rightarrow> bytes" where
  "kindex_decl_key plane label property = KINDEX_PREFIX @ be32 plane @ label @ [0] @ property"

definition parse_index_decl_key :: "bytes \<Rightarrow> bytes \<Rightarrow> (plane_id \<times> str \<times> str) res" where
  "parse_index_decl_key p k =
     res_bind (ok_or Corrupt (strip_pre p k)) (\<lambda>rest.
     if length rest < 4 then Inl Corrupt
     else res_bind (u32be (take 4 rest)) (\<lambda>plane.
       let tail = drop 4 rest in
       res_bind (ok_or Corrupt (position (\<lambda>b. b = 0) tail)) (\<lambda>sep.
       res_bind (from_utf8 (take sep tail)) (\<lambda>label.
       res_bind (from_utf8 (drop (sep + 1) tail)) (\<lambda>property.
       Inr (plane, label, property))))))"

definition parse_vindex_decl_key :: "bytes \<Rightarrow> (plane_id \<times> str \<times> str) res" where
  "parse_vindex_decl_key k = parse_index_decl_key VINDEX_PREFIX k"

definition parse_kindex_decl_key :: "bytes \<Rightarrow> (plane_id \<times> str \<times> str) res" where
  "parse_kindex_decl_key k = parse_index_decl_key KINDEX_PREFIX k"

definition dict_label_key :: "str \<Rightarrow> bytes" where
  "dict_label_key name = bstr ''dl:'' @ name"

definition dict_label_rev_key :: "u32 \<Rightarrow> bytes" where
  "dict_label_rev_key i = bstr ''dlr:'' @ be32 i"

definition dict_edge_type_key :: "str \<Rightarrow> bytes" where
  "dict_edge_type_key name = bstr ''dt:'' @ name"

definition dict_edge_type_rev_key :: "u32 \<Rightarrow> bytes" where
  "dict_edge_type_rev_key i = bstr ''dtr:'' @ be32 i"

section \<open>Record keys\<close>

definition plane_key :: "plane_id \<Rightarrow> bytes" where
  "plane_key plane = be32 plane"

definition plane_name_key :: "str \<Rightarrow> bytes" where
  "plane_name_key name = name"

definition node_key :: "plane_id \<Rightarrow> node_id \<Rightarrow> bytes" where
  "node_key plane node = be32 plane @ be64 node"

definition parse_node_key :: "bytes \<Rightarrow> (plane_id \<times> node_id) res" where
  "parse_node_key k =
     (if length k \<noteq> 12 then Inl Corrupt
      else res_bind (u32be (take 4 k)) (\<lambda>p. res_bind (u64be (drop 4 k)) (\<lambda>n. Inr (p, n))))"

definition edge_key :: "plane_id \<Rightarrow> edge_id \<Rightarrow> bytes" where
  "edge_key plane edge = be32 plane @ be64 edge"

definition node_plane_key :: "node_id \<Rightarrow> bytes" where
  "node_plane_key node = be64 node"

definition ext_key_key :: "plane_id \<Rightarrow> str \<Rightarrow> bytes" where
  "ext_key_key plane external_key = be32 plane @ external_key"

definition label_idx_key :: "plane_id \<Rightarrow> u32 \<Rightarrow> node_id \<Rightarrow> bytes" where
  "label_idx_key plane label node = be32 plane @ be32 label @ be64 node"

definition label_idx_prefix :: "plane_id \<Rightarrow> u32 \<Rightarrow> bytes" where
  "label_idx_prefix plane label = be32 plane @ be32 label"

definition label_idx_node :: "bytes \<Rightarrow> node_id res" where
  "label_idx_node k = (if length k \<noteq> 16 then Inl Corrupt else u64be (drop 8 k))"

section \<open>Adjacency keys\<close>

definition ADJ_KEY_LEN :: nat where
  "ADJ_KEY_LEN = 4 + 8 + 4 + 8 + 8"

definition adj_key :: "plane_id \<Rightarrow> node_id \<Rightarrow> u32 \<Rightarrow> node_id \<Rightarrow> edge_id \<Rightarrow> bytes" where
  "adj_key plane from ty to edge = be32 plane @ be64 from @ be32 ty @ be64 to @ be64 edge"

definition adj_prefix :: "plane_id \<Rightarrow> node_id \<Rightarrow> bytes" where
  "adj_prefix plane from = be32 plane @ be64 from"

definition adj_prefix_typed :: "plane_id \<Rightarrow> node_id \<Rightarrow> u32 \<Rightarrow> bytes" where
  "adj_prefix_typed plane from ty = be32 plane @ be64 from @ be32 ty"

record adj_entry =
  ae_plane :: plane_id
  ae_from :: node_id
  ae_ty :: u32
  ae_to :: node_id
  ae_edge :: edge_id

definition slice :: "nat \<Rightarrow> nat \<Rightarrow> 'a list \<Rightarrow> 'a list" where
  "slice i j xs = take (j - i) (drop i xs)"

definition parse_adj_key :: "bytes \<Rightarrow> adj_entry res" where
  "parse_adj_key k =
     (if length k \<noteq> ADJ_KEY_LEN then Inl Corrupt
      else res_bind (u32be (slice 0 4 k)) (\<lambda>p.
           res_bind (u64be (slice 4 12 k)) (\<lambda>f.
           res_bind (u32be (slice 12 16 k)) (\<lambda>y.
           res_bind (u64be (slice 16 24 k)) (\<lambda>t.
           res_bind (u64be (drop 24 k)) (\<lambda>e.
           Inr \<lparr>ae_plane = p, ae_from = f, ae_ty = y, ae_to = t, ae_edge = e\<rparr>))))))"

section \<open>Properties of the scan bounds\<close>

lemma prefix_successor_Nil [simp]: "prefix_successor [] = None"
  by (simp add: prefix_successor_def)

lemma bump_last_snoc:
  "bump_last (rb @ [b]) =
     (case bump_last rb of
        Some s \<Rightarrow> Some (b # s)
      | None \<Rightarrow> if b = 255 then None else Some [b + 1])"
  by (induction rb) auto

lemma prefix_successor_Cons:
  "prefix_successor (b # p) =
     (case prefix_successor p of
        Some s \<Rightarrow> Some (b # s)
      | None \<Rightarrow> if b = 255 then None else Some [b + 1])"
  by (simp add: prefix_successor_def bump_last_snoc)

lemma byte_max_eq: "(- 1 :: byte) = 255"
  by simp

lemma byte_less_succ: "b \<noteq> 255 \<Longrightarrow> (x::byte) < b + 1 \<longleftrightarrow> x \<le> b"
  using word_less_succ [of b x] unfolding byte_max_eq by blast

lemma byte_max: "(x::byte) \<le> 255"
  using word_order.extremum [of x] unfolding byte_max_eq .

lemma prefix_in_range: "prefix p k \<longleftrightarrow> in_range p (prefix_successor p) k"
proof (induction p arbitrary: k)
  case Nil
  then show ?case by (simp add: in_range_def)
next
  case (Cons b p)
  show ?case
  proof (cases k)
    case Nil
    then show ?thesis by (simp add: in_range_def)
  next
    case (Cons c k')
    then show ?thesis
      using Cons.IH [of k'] byte_max [of c] byte_less_succ [of b c]
      by (auto simp: in_range_def prefix_successor_Cons split: option.splits if_splits)
  qed
qed

lemma prefix_successor_greater: "prefix_successor p = Some s \<Longrightarrow> p < s"
  using prefix_in_range [of p p] by (simp add: in_range_def)

section \<open>Properties of the key encodings\<close>

lemma be32_app_inj [simp]: "be32 a @ x = be32 b @ y \<longleftrightarrow> a = b \<and> x = y"
  by simp

lemma be64_app_inj [simp]: "be64 a @ x = be64 b @ y \<longleftrightarrow> a = b \<and> x = y"
  by simp

lemma be32_app_less [simp]: "be32 a @ x < be32 b @ y \<longleftrightarrow> (a, x) < (b, y)"
  by (auto simp: lex_append_less)

lemma be64_app_less [simp]: "be64 a @ x < be64 b @ y \<longleftrightarrow> (a, x) < (b, y)"
  by (auto simp: lex_append_less)

lemma u32be_be32 [simp]: "u32be (be32 w) = Inr w"
  by (simp add: u32be_def)

lemma u64be_be64 [simp]: "u64be (be64 w) = Inr w"
  by (simp add: u64be_def)

lemma node_key_inj [simp]: "node_key p n = node_key p' n' \<longleftrightarrow> p = p' \<and> n = n'"
  by (simp add: node_key_def)

lemma edge_key_inj [simp]: "edge_key p e = edge_key p' e' \<longleftrightarrow> p = p' \<and> e = e'"
  by (simp add: edge_key_def)

lemma node_plane_key_inj [simp]: "node_plane_key n = node_plane_key n' \<longleftrightarrow> n = n'"
  by (simp add: node_plane_key_def)

lemma ext_key_key_inj [simp]: "ext_key_key p k = ext_key_key p' k' \<longleftrightarrow> p = p' \<and> k = k'"
  by (simp add: ext_key_key_def)

lemma label_idx_key_inj [simp]:
  "label_idx_key p l n = label_idx_key p' l' n' \<longleftrightarrow> p = p' \<and> l = l' \<and> n = n'"
  by (simp add: label_idx_key_def)

lemma adj_key_inj [simp]:
  "adj_key p f y t e = adj_key p' f' y' t' e' \<longleftrightarrow>
     p = p' \<and> f = f' \<and> y = y' \<and> t = t' \<and> e = e'"
  by (simp add: adj_key_def)

lemma parse_node_key_node_key [simp]: "parse_node_key (node_key p n) = Inr (p, n)"
  by (simp add: parse_node_key_def node_key_def)

lemma parse_node_key_iff: "parse_node_key k = Inr (p, n) \<longleftrightarrow> k = node_key p n"
  by (auto simp: parse_node_key_def node_key_def u32be_def u64be_def ok_or_def res_bind_eq_Inr
        from_be32_iff from_be64_iff split: option.splits if_splits)
     (metis append_take_drop_id)

lemma label_idx_node_key [simp]: "label_idx_node (label_idx_key p l n) = Inr n"
  by (simp add: label_idx_node_def label_idx_key_def)

lemma length_adj_key [simp]: "length (adj_key p f y t e) = ADJ_KEY_LEN"
  by (simp add: adj_key_def ADJ_KEY_LEN_def)

lemma parse_adj_key_adj_key [simp]:
  "parse_adj_key (adj_key p f y t e) =
     Inr \<lparr>ae_plane = p, ae_from = f, ae_ty = y, ae_to = t, ae_edge = e\<rparr>"
  by (simp add: parse_adj_key_def slice_def) (simp add: adj_key_def)

lemma prefix_be32_app [simp]: "prefix (be32 a @ x) (be32 b @ y) \<longleftrightarrow> a = b \<and> prefix x y"
  by (auto simp: prefix_def)

lemma prefix_be64_app [simp]: "prefix (be64 a @ x) (be64 b @ y) \<longleftrightarrow> a = b \<and> prefix x y"
  by (auto simp: prefix_def)

lemma parse_adj_key_iff:
  "parse_adj_key k = Inr a \<longleftrightarrow>
     k = adj_key (ae_plane a) (ae_from a) (ae_ty a) (ae_to a) (ae_edge a)" (is "?l \<longleftrightarrow> ?r")
proof
  assume ?l
  then have len: "length k = 32"
    and p: "be32 (ae_plane a) = slice 0 4 k" "be64 (ae_from a) = slice 4 12 k"
      "be32 (ae_ty a) = slice 12 16 k" "be64 (ae_to a) = slice 16 24 k"
      "be64 (ae_edge a) = drop 24 k"
    by (auto simp: parse_adj_key_def ADJ_KEY_LEN_def u32be_def u64be_def ok_or_def res_bind_eq_Inr
        from_be32_iff from_be64_iff split: option.splits if_splits)
  have app: "slice m n k @ drop n k = drop m k" if "m \<le> n" for m n
    unfolding slice_def using that by (metis append_take_drop_id drop_drop le_add_diff_inverse2)
  show ?r unfolding adj_key_def p by (simp add: app)
next
  assume ?r
  then show ?l by (metis (full_types) adj_entry.surjective old.unit.exhaust parse_adj_key_adj_key)
qed

lemma parse_history_key_iff: "parse_history_key k = Some i \<longleftrightarrow> k = history_key i"
  by (auto simp: parse_history_key_def history_key_def strip_pre_def from_be64_iff prefix_def
      split: option.splits if_splits)

section \<open>Correctness of the key layout\<close>

text \<open>
  C23: Scanning from a prefix (inclusive) to its computed successor (exclusive, unbounded when every
  byte is 0xff) selects exactly the keys that start with the prefix: no key of another plane,
  label or node is returned and none of the prefix's own keys is missed.
\<close>

theorem prefix_scan_bounds_exact:
  "in_range p (prefix_successor p) k \<longleftrightarrow> (\<exists>suffix. k = p @ suffix)"
  by (simp add: prefix_in_range [symmetric] prefix_def)

text \<open>
  Byte order of the stored keys is the numeric lexicographic order of their components, for
  node keys, edge keys, label-index keys and adjacency keys, so an ordered scan enumerates ids in
  ascending order and the rows of one (plane, node, type) are contiguous.
\<close>

theorem key_order_numeric:
  "(node_key p n < node_key p' n') = ((p, n) < (p', n')) \<and>
   (edge_key p e < edge_key p' e') = ((p, e) < (p', e')) \<and>
   (label_idx_key p l n < label_idx_key p' l' n') = ((p, l, n) < (p', l', n')) \<and>
   (adj_key p f y t e < adj_key p' f' y' t' e') = ((p, f, y, t, e) < (p', f', y', t', e'))"
  by (simp add: node_key_def edge_key_def label_idx_key_def adj_key_def)

text \<open>
  The key parsers are exact inverses of the key builders: a node key or adjacency key parses to
  the components it was built from, and whatever byte string a parser accepts is the encoding of
  what it returned.
\<close>

theorem key_parse_roundtrip:
  "(parse_node_key k = Inr (p, n)) = (k = node_key p n) \<and>
   (parse_adj_key k = Inr a) =
     (k = adj_key (ae_plane a) (ae_from a) (ae_ty a) (ae_to a) (ae_edge a)) \<and>
   (parse_history_key k = Some i) = (k = history_key i)"
  by (simp add: parse_node_key_iff parse_adj_key_iff parse_history_key_iff)

end
