(* ===== verification/Engine.thy ===== *)
theory Engine
  imports Keys
begin

text \<open>
  The backend seam of \<open>storage/engine.rs\<close>: a read/write transaction as a table of operations
  (the vtable behind \<open>&mut dyn WriteTransaction\<close>), the defaulted trait methods, and the contract
  \<open>kv_txn\<close> every backend fulfils towards the graph layer. A transaction has an abstract content, its
  view: for every table a finite map from keys to values. Reads return what the view holds, ordered
  scans enumerate it, writes update it.
\<close>

named_theorems kv_apply \<open>lookup in an updated content\<close>

type_synonym kvpair = "bytes \<times> bytes"
type_synonym kv = "table_id \<Rightarrow> bytes \<Rightarrow> bytes option"

record 't vtable =
  v_get :: "'t \<Rightarrow> table_id \<Rightarrow> bytes \<Rightarrow> bytes option res"
  v_range :: "'t \<Rightarrow> table_id \<Rightarrow> bytes \<Rightarrow> bytes option \<Rightarrow> kvpair list res"
  v_put :: "table_id \<Rightarrow> bytes \<Rightarrow> bytes \<Rightarrow> ('t, unit) act"
  v_delete :: "table_id \<Rightarrow> bytes \<Rightarrow> ('t, unit) act"
  v_delete_prefix :: "table_id \<Rightarrow> bytes \<Rightarrow> ('t, unit) act"

text \<open>The defaulted methods of \<open>WriteTransaction\<close>.\<close>

definition put_owned :: "'t vtable \<Rightarrow> table_id \<Rightarrow> bytes \<Rightarrow> bytes \<Rightarrow> ('t, unit) act" where
  "put_owned V tb k v = v_put V tb k v"

definition put_batch :: "'t vtable \<Rightarrow> table_id \<Rightarrow> kvpair list \<Rightarrow> ('t, unit) act" where
  "put_batch V tb items = act_iter (\<lambda>(k, v). put_owned V tb k v) items"

text \<open>The scan idiom of the graph layer: \<open>txn.range(table, &prefix, prefix_successor(&prefix))\<close>.\<close>

definition prefix_range :: "'t vtable \<Rightarrow> 't \<Rightarrow> table_id \<Rightarrow> bytes \<Rightarrow> kvpair list res" where
  "prefix_range V t tb p = v_range V t tb p (prefix_successor p)"

section \<open>Abstract contents\<close>

definition kv_put :: "table_id \<Rightarrow> bytes \<Rightarrow> bytes \<Rightarrow> kv \<Rightarrow> kv" where
  "kv_put tb k v m = m(tb := (m tb)(k \<mapsto> v))"

definition kv_del :: "table_id \<Rightarrow> bytes \<Rightarrow> kv \<Rightarrow> kv" where
  "kv_del tb k m = m(tb := (m tb)(k := None))"

definition kv_delp :: "table_id \<Rightarrow> bytes \<Rightarrow> kv \<Rightarrow> kv" where
  "kv_delp tb p m = m(tb := (\<lambda>k. if prefix p k then None else m tb k))"

fun kv_puts :: "table_id \<Rightarrow> kvpair list \<Rightarrow> kv \<Rightarrow> kv" where
  "kv_puts tb [] m = m"
| "kv_puts tb ((k, v) # xs) m = kv_puts tb xs (kv_put tb k v m)"

fun kv_dels :: "table_id \<Rightarrow> bytes list \<Rightarrow> kv \<Rightarrow> kv" where
  "kv_dels tb [] m = m"
| "kv_dels tb (k # ks) m = kv_dels tb ks (kv_del tb k m)"

lemma kv_put_apply [kv_apply]:
  "kv_put tb k v m tb' k' = (if tb' = tb \<and> k' = k then Some v else m tb' k')"
  by (simp add: kv_put_def)

lemma kv_del_apply [kv_apply]:
  "kv_del tb k m tb' k' = (if tb' = tb \<and> k' = k then None else m tb' k')"
  by (simp add: kv_del_def)

lemma kv_delp_apply [kv_apply]:
  "kv_delp tb p m tb' k' = (if tb' = tb \<and> prefix p k' then None else m tb' k')"
  by (simp add: kv_delp_def)

lemma kv_puts_apply [kv_apply]:
  "kv_puts tb xs m tb' k' =
     (if tb' = tb then (case map_of (rev xs) k' of None \<Rightarrow> m tb k' | Some v \<Rightarrow> Some v) else m tb' k')"
  by (induction xs arbitrary: m) (auto simp: map_add_def kv_put_def split: option.splits)

lemma kv_dels_apply [kv_apply]:
  "kv_dels tb ks m tb' k' = (if tb' = tb \<and> k' \<in> set ks then None else m tb' k')"
  by (induction ks arbitrary: m) (auto simp: kv_del_def)

section \<open>The contract of a transaction\<close>

text \<open>The state after a write, and the pairs of a scan, as functions of the state before.\<close>

definition put1 :: "'t vtable \<Rightarrow> table_id \<Rightarrow> bytes \<Rightarrow> bytes \<Rightarrow> 't \<Rightarrow> 't" where
  "put1 V tb k v t = snd (v_put V tb k v t)"

definition del1 :: "'t vtable \<Rightarrow> table_id \<Rightarrow> bytes \<Rightarrow> 't \<Rightarrow> 't" where
  "del1 V tb k t = snd (v_delete V tb k t)"

definition delp1 :: "'t vtable \<Rightarrow> table_id \<Rightarrow> bytes \<Rightarrow> 't \<Rightarrow> 't" where
  "delp1 V tb p t = snd (v_delete_prefix V tb p t)"

definition scan1 :: "'t vtable \<Rightarrow> 't \<Rightarrow> table_id \<Rightarrow> bytes \<Rightarrow> kvpair list" where
  "scan1 V t tb p = (case prefix_range V t tb p of Inl _ \<Rightarrow> [] | Inr xs \<Rightarrow> xs)"

locale kv_txn =
  fixes V :: "'t vtable"
    and inv :: "'t \<Rightarrow> bool"
    and view :: "'t \<Rightarrow> kv"
  assumes get_law: "inv t \<Longrightarrow> v_get V t tb k = Inr (view t tb k)"
    and range_law: "inv t \<Longrightarrow> (case hi of None \<Rightarrow> True | Some h \<Rightarrow> lo \<le> h) \<Longrightarrow>
          \<exists>xs. v_range V t tb lo hi = Inr xs \<and> bt_ok xs \<and>
               map_of xs = (\<lambda>k. if in_range lo hi k then view t tb k else None)"
    and put_law: "inv t \<Longrightarrow>
          \<exists>t'. v_put V tb k v t = (Inr (), t') \<and> inv t' \<and> view t' = kv_put tb k v (view t)"
    and delete_law: "inv t \<Longrightarrow>
          \<exists>t'. v_delete V tb k t = (Inr (), t') \<and> inv t' \<and> view t' = kv_del tb k (view t)"
    and delete_prefix_law: "inv t \<Longrightarrow>
          \<exists>t'. v_delete_prefix V tb p t = (Inr (), t') \<and> inv t' \<and> view t' = kv_delp tb p (view t)"
begin

lemma get_simp [tx_simps]: "inv t \<Longrightarrow> v_get V t tb k = Inr (view t tb k)"
  by (rule get_law)

lemma put_simp [tx_simps]: "inv t \<Longrightarrow> v_put V tb k v t = (Inr (), put1 V tb k v t)"
  and inv_put1 [tx_simps]: "inv t \<Longrightarrow> inv (put1 V tb k v t)"
  and view_put1 [tx_simps]: "inv t \<Longrightarrow> view (put1 V tb k v t) = kv_put tb k v (view t)"
  using put_law [of t tb k v] by (auto simp: put1_def)

lemma delete_simp [tx_simps]: "inv t \<Longrightarrow> v_delete V tb k t = (Inr (), del1 V tb k t)"
  and inv_del1 [tx_simps]: "inv t \<Longrightarrow> inv (del1 V tb k t)"
  and view_del1 [tx_simps]: "inv t \<Longrightarrow> view (del1 V tb k t) = kv_del tb k (view t)"
  using delete_law [of t tb k] by (auto simp: del1_def)

lemma delete_prefix_simp [tx_simps]:
    "inv t \<Longrightarrow> v_delete_prefix V tb p t = (Inr (), delp1 V tb p t)"
  and inv_delp1 [tx_simps]: "inv t \<Longrightarrow> inv (delp1 V tb p t)"
  and view_delp1 [tx_simps]: "inv t \<Longrightarrow> view (delp1 V tb p t) = kv_delp tb p (view t)"
  using delete_prefix_law [of t tb p] by (auto simp: delp1_def)

lemma prefix_range_ex:
  assumes "inv t"
  shows "\<exists>xs. prefix_range V t tb p = Inr xs \<and> bt_ok xs \<and>
              map_of xs = (\<lambda>k. if prefix p k then view t tb k else None)"
proof -
  have "case prefix_successor p of None \<Rightarrow> True | Some h \<Rightarrow> p \<le> h"
    using prefix_successor_greater [of p] by (auto split: option.splits)
  from range_law [OF assms this, of tb] show ?thesis
    by (simp add: prefix_range_def prefix_in_range)
qed

lemma prefix_range_simp [tx_simps]: "inv t \<Longrightarrow> prefix_range V t tb p = Inr (scan1 V t tb p)"
  and bt_ok_scan1: "inv t \<Longrightarrow> bt_ok (scan1 V t tb p)"
  and map_of_scan1: "inv t \<Longrightarrow>
        map_of (scan1 V t tb p) = (\<lambda>k. if prefix p k then view t tb k else None)"
  using prefix_range_ex [of t tb p] by (auto simp: scan1_def)

lemma set_scan1:
  "inv t \<Longrightarrow> (k, v) \<in> set (scan1 V t tb p) \<longleftrightarrow> prefix p k \<and> view t tb k = Some v"
  by (simp add: bt_in_set bt_ok_scan1 map_of_scan1)

lemma scan1_cong:
  assumes "inv t" "inv t'" "\<And>k. prefix p k \<Longrightarrow> view t tb k = view t' tb k"
  shows "scan1 V t tb p = scan1 V t' tb p"
  by (rule bt_ext) (use assms in \<open>auto simp: bt_ok_scan1 map_of_scan1 fun_eq_iff\<close>)

text \<open>A loop of puts or deletes over one table.\<close>

lemma put_iter:
  assumes "inv t"
  shows "\<exists>t'. act_iter (\<lambda>x. v_put V tb (kf x) (vf x)) xs t = (Inr (), t') \<and> inv t' \<and>
              view t' = kv_puts tb (map (\<lambda>x. (kf x, vf x)) xs) (view t)"
  using assms
proof (induction xs arbitrary: t)
  case (Cons x xs)
  from Cons.IH [OF inv_put1 [OF Cons.prems]] Cons.prems
  show ?case by (simp add: tx_simps act_bind_def)
qed simp

lemma delete_iter:
  assumes "inv t"
  shows "\<exists>t'. act_iter (\<lambda>x. v_delete V tb (kf x)) xs t = (Inr (), t') \<and> inv t' \<and>
              view t' = kv_dels tb (map kf xs) (view t)"
  using assms
proof (induction xs arbitrary: t)
  case (Cons x xs)
  from Cons.IH [OF inv_del1 [OF Cons.prems]] Cons.prems
  show ?case by (simp add: tx_simps act_bind_def)
qed simp

lemma delete_prefix_iter:
  assumes "inv t"
  shows "\<exists>t'. act_iter (\<lambda>tb. v_delete_prefix V tb p) tbs t = (Inr (), t') \<and> inv t' \<and>
              view t' = (\<lambda>tb k. if tb \<in> set tbs \<and> prefix p k then None else view t tb k)"
  using assms
proof (induction tbs arbitrary: t)
  case (Cons tb tbs)
  from Cons.IH [OF inv_delp1 [OF Cons.prems, of tb p]] Cons.prems
  show ?case by (auto simp: tx_simps act_bind_def fun_eq_iff kv_apply)
qed auto

lemma put_batch_view:
  assumes "inv t"
  shows "\<exists>t'. put_batch V tb xs t = (Inr (), t') \<and> inv t' \<and> view t' = kv_puts tb xs (view t)"
proof -
  have "put_batch V tb xs = act_iter (\<lambda>x. v_put V tb (fst x) (snd x)) xs"
    by (simp add: put_batch_def put_owned_def split_def)
  then show ?thesis using put_iter [OF assms, of tb fst snd xs] by simp
qed

end

end
