(* ===== verification/Memory.thy ===== *)
theory Memory
  imports Engine
begin

text \<open>
  The in-memory backend (\<open>storage/memory.rs\<close>): the committed tables, a single writer that stages
  a copy and publishes it whole at commit, and readers that keep the tables they opened with. The
  interpretation \<open>mem\<close> shows that its write transaction fulfils the contract \<open>kv_txn\<close>.
\<close>

section \<open>Tables\<close>

type_synonym table = "(bytes, bytes) btree"
type_synonym tables = "table_id \<Rightarrow> table"

definition tables_new :: tables where
  "tables_new = (\<lambda>_. [])"

definition tables_get :: "tables \<Rightarrow> table_id \<Rightarrow> bytes \<Rightarrow> bytes option" where
  "tables_get t tb k = map_of (t tb) k"

definition tables_range ::
    "tables \<Rightarrow> table_id \<Rightarrow> bytes \<Rightarrow> bytes option \<Rightarrow> kvpair list res" where
  "tables_range t tb start end = bt_range (t tb) start end"

section \<open>Write transactions\<close>

definition mem_get :: "tables \<Rightarrow> table_id \<Rightarrow> bytes \<Rightarrow> bytes option res" where
  "mem_get t tb k = Inr (tables_get t tb k)"

definition mem_put :: "table_id \<Rightarrow> bytes \<Rightarrow> bytes \<Rightarrow> (tables, unit) act" where
  "mem_put tb k v t = (Inr (), t(tb := bt_insert k v (t tb)))"

definition mem_delete :: "table_id \<Rightarrow> bytes \<Rightarrow> (tables, unit) act" where
  "mem_delete tb k t = (Inr (), t(tb := bt_remove k (t tb)))"

definition mem_delete_prefix :: "table_id \<Rightarrow> bytes \<Rightarrow> (tables, unit) act" where
  "mem_delete_prefix tb p t =
     (let doomed = map fst (takeWhile (\<lambda>(k, v). prefix p k) (filter (\<lambda>(k, v). p \<le> k) (t tb)))
      in (Inr (), t(tb := fold bt_remove doomed (t tb))))"

definition mem_vtable :: "tables vtable" where
  "mem_vtable = \<lparr>v_get = mem_get, v_range = tables_range, v_put = mem_put,
                 v_delete = mem_delete, v_delete_prefix = mem_delete_prefix\<rparr>"

section \<open>The engine\<close>

text \<open>
  \<open>writer\<close> is the single-writer mutex: \<open>begin_write\<close> blocks (no step is possible) while it is
  held. Dropping a write transaction without a commit only releases it.
\<close>

record mem_engine =
  me_data :: tables
  me_writer :: bool

definition mem_engine_new :: mem_engine where
  "mem_engine_new = \<lparr>me_data = tables_new, me_writer = False\<rparr>"

definition mem_begin_read :: "mem_engine \<Rightarrow> tables res" where
  "mem_begin_read e = Inr (me_data e)"

definition mem_begin_write :: "mem_engine \<Rightarrow> (tables \<times> mem_engine) option" where
  "mem_begin_write e = (if me_writer e then None else Some (me_data e, e\<lparr>me_writer := True\<rparr>))"

definition mem_commit :: "tables \<Rightarrow> mem_engine \<Rightarrow> mem_engine" where
  "mem_commit staged e = e\<lparr>me_data := staged, me_writer := False\<rparr>"

definition mem_abort :: "mem_engine \<Rightarrow> mem_engine" where
  "mem_abort e = e\<lparr>me_writer := False\<rparr>"

section \<open>The contract holds\<close>

definition mem_inv :: "tables \<Rightarrow> bool" where
  "mem_inv t \<longleftrightarrow> (\<forall>tb. bt_ok (t tb))"

definition mem_view :: "tables \<Rightarrow> kv" where
  "mem_view t = (\<lambda>tb k. map_of (t tb) k)"

lemma takeWhile_prefix:
  fixes p :: bytes
  assumes "bt_ok m" "\<forall>(k, v) \<in> set m. p \<le> k"
  shows "takeWhile (\<lambda>(k, v). prefix p k) m = filter (\<lambda>(k, v). prefix p k) m"
  using assms
proof (induction m)
  case (Cons kv m)
  obtain k v where kv: "kv = (k, v)" by fastforce
  have "\<not> prefix p k'" if "\<not> prefix p k" "(k', v') \<in> set m" for k' v'
  proof -
    have "k < k'" "p \<le> k" "p \<le> k'" using Cons.prems that(2) kv by auto
    with that(1) show ?thesis
      by (auto simp: prefix_in_range in_range_def split: option.splits)
  qed
  then have "filter (\<lambda>(k, v). prefix p k) m = []" if "\<not> prefix p k"
    using that by (auto simp: filter_empty_conv)
  with Cons kv show ?case by auto
qed simp

lemma mem_delete_prefix_map_of:
  fixes p :: bytes
  assumes "bt_ok m"
  shows "map_of (fold bt_remove (map fst (takeWhile (\<lambda>(k, v). prefix p k)
           (filter (\<lambda>(k, v). p \<le> k) m))) m) = (\<lambda>k. if prefix p k then None else map_of m k)"
proof -
  have le: "prefix p k \<Longrightarrow> p \<le> k" for k :: bytes by (simp add: prefix_in_range in_range_def)
  have doomed: "takeWhile (\<lambda>(k, v). prefix p k) (filter (\<lambda>(k, v). p \<le> k) m)
      = filter (\<lambda>(k, v). prefix p k) m"
    using assms le
    by (subst takeWhile_prefix) (auto simp: case_prod_unfold intro: filter_cong)
  have "set (map fst (filter (\<lambda>(k, v). prefix p k) m)) = {k. prefix p k \<and> k \<in> dom (map_of m)}"
    by (force simp: dom_map_of_conv_image_fst)
  with assms show ?thesis
    by (simp add: doomed map_of_fold_remove fun_eq_iff domIff del: set_map set_filter)
qed

interpretation mem: kv_txn mem_vtable mem_inv mem_view
proof
  fix t :: tables and tb :: table_id and k v p lo :: bytes and hi :: "bytes option"
  assume inv: "mem_inv t"
  show "v_get mem_vtable t tb k = Inr (mem_view t tb k)"
    by (simp add: mem_vtable_def mem_get_def tables_get_def mem_view_def)
  show "\<exists>t'. v_put mem_vtable tb k v t = (Inr (), t') \<and> mem_inv t' \<and>
             mem_view t' = kv_put tb k v (mem_view t)"
    using inv by (auto simp: mem_vtable_def mem_put_def mem_inv_def mem_view_def kv_put_def)
  show "\<exists>t'. v_delete mem_vtable tb k t = (Inr (), t') \<and> mem_inv t' \<and>
             mem_view t' = kv_del tb k (mem_view t)"
    using inv by (auto simp: mem_vtable_def mem_delete_def mem_inv_def mem_view_def kv_del_def)
  show "\<exists>t'. v_delete_prefix mem_vtable tb p t = (Inr (), t') \<and> mem_inv t' \<and>
             mem_view t' = kv_delp tb p (mem_view t)"
    using inv mem_delete_prefix_map_of [of "t tb" p]
    by (auto simp: mem_vtable_def mem_delete_prefix_def mem_inv_def mem_view_def kv_delp_def
          Let_def)
  show "case hi of None \<Rightarrow> True | Some h \<Rightarrow> lo \<le> h \<Longrightarrow>
        \<exists>xs. v_range mem_vtable t tb lo hi = Inr xs \<and> bt_ok xs \<and>
             map_of xs = (\<lambda>k. if in_range lo hi k then mem_view t tb k else None)"
    using inv
    by (auto simp: mem_vtable_def tables_range_def bt_range_def mem_inv_def mem_view_def
          map_of_filter_key not_less split: option.splits)
qed

end
