(* ===== verification/Types.thy ===== *)
theory Types
  imports Keys
begin

text \<open>
  The data model of \<open>types.rs\<close> and the record codec of \<open>storage/codec.rs\<close>. The wire format
  itself is the third-party crate \<open>postcard\<close>: a record of functions, one serializer and one
  prefix-deserializer per stored type, is a parameter of every definition that stores or loads a
  record, and \<open>postcard_ok\<close> states what the code relies on: decoding the bytes written for a value
  gives that value back and leaves the bytes behind it.
\<close>

section \<open>Property values\<close>

text \<open>Floats are kept as their bit patterns; \<open>i64\<close> is a 64-bit word read as two's complement.\<close>

type_synonym i64 = "64 word"
type_synonym f64 = "64 word"
type_synonym f32 = "32 word"

datatype prop_value =
    PNull
  | PBool bool
  | PInt i64
  | PFloat f64
  | PStr str
  | PBytes bytes
  | PVector "f32 list"
  | PList "prop_value list"
  | PMap "(str \<times> prop_desc) list"
and prop_desc = PropDesc (pd_description: "str option") (pd_value: prop_value)

type_synonym props = "(str, prop_desc) btree"

definition propdesc_new :: "prop_value \<Rightarrow> prop_desc" where
  "propdesc_new v = PropDesc None v"

definition propdesc_described :: "str \<Rightarrow> prop_value \<Rightarrow> prop_desc" where
  "propdesc_described d v = PropDesc (Some d) v"

text \<open>
  What holds of every Rust value of these types: strings are UTF-8, a \<open>BTreeMap\<close> is strictly
  sorted by key.
\<close>

fun value_ok :: "prop_value \<Rightarrow> bool" and desc_ok :: "prop_desc \<Rightarrow> bool" where
  "value_ok (PStr s) = utf8_ok s"
| "value_ok (PList vs) = (\<forall>v \<in> set vs. value_ok v)"
| "value_ok (PMap m) = (bt_ok m \<and> (\<forall>kd \<in> set m. utf8_ok (fst kd) \<and> desc_ok (snd kd)))"
| "value_ok PNull = True"
| "value_ok (PBool b) = True"
| "value_ok (PInt i) = True"
| "value_ok (PFloat f) = True"
| "value_ok (PBytes b) = True"
| "value_ok (PVector v) = True"
| "desc_ok (PropDesc d v) = ((case d of None \<Rightarrow> True | Some s \<Rightarrow> utf8_ok s) \<and> value_ok v)"

definition props_ok :: "props \<Rightarrow> bool" where
  "props_ok ps \<longleftrightarrow> bt_ok ps \<and> (\<forall>kd \<in> set ps. utf8_ok (fst kd) \<and> desc_ok (snd kd))"

section \<open>Records\<close>

datatype dir = Out | In | Both

record node_record =
  nr_id :: node_id
  nr_plane :: plane_id
  nr_external_key :: "str option"
  nr_labels :: "str list"
  nr_properties :: props

record neighbor =
  nb_node :: node_id
  nb_edge :: edge_id

record edge_record =
  er_id :: edge_id
  er_plane :: plane_id
  er_src :: node_id
  er_dst :: node_id
  er_ty :: str
  er_properties :: props

record query_record =
  qr_id :: u64
  qr_at :: i64
  qr_plane :: str
  qr_query :: str

section \<open>The codec\<close>

record node_raw =
  n_external_key :: "str option"
  n_labels :: "u32 list"
  n_props :: props

record edge_raw =
  e_src :: u64
  e_dst :: u64
  e_ty :: u32
  e_props :: props

record stored_query =
  sq_at :: i64
  sq_plane :: str
  sq_query :: str

text \<open>\<open>postcard::to_stdvec\<close> and \<open>postcard::take_from_bytes\<close> at the stored types.\<close>

record postcard =
  ser_props :: "props \<Rightarrow> bytes"
  de_props :: "bytes \<Rightarrow> (props \<times> bytes) option"
  ser_node :: "node_raw \<Rightarrow> bytes"
  de_node :: "bytes \<Rightarrow> (node_raw \<times> bytes) option"
  ser_edge :: "edge_raw \<Rightarrow> bytes"
  de_edge :: "bytes \<Rightarrow> (edge_raw \<times> bytes) option"
  ser_query :: "stored_query \<Rightarrow> bytes"
  de_query :: "bytes \<Rightarrow> (stored_query \<times> bytes) option"

text \<open>Decodes exactly the buffer: trailing bytes are corruption.\<close>

definition decode :: "(bytes \<Rightarrow> ('a \<times> bytes) option) \<Rightarrow> bytes \<Rightarrow> 'a res" where
  "decode de buf =
     (case de buf of
        None \<Rightarrow> Inl Corrupt
      | Some (v, rest) \<Rightarrow> if rest = [] then Inr v else Inl Corrupt)"

definition encode_props :: "postcard \<Rightarrow> props \<Rightarrow> bytes" where
  "encode_props pc ps = ser_props pc ps"

definition decode_props :: "postcard \<Rightarrow> bytes \<Rightarrow> props res" where
  "decode_props pc buf = decode (de_props pc) buf"

definition encode_node_record :: "postcard \<Rightarrow> str option \<Rightarrow> u32 list \<Rightarrow> props \<Rightarrow> bytes" where
  "encode_node_record pc external_key labels ps =
     ser_node pc \<lparr>n_external_key = external_key, n_labels = labels, n_props = ps\<rparr>"

definition decode_node_record ::
    "postcard \<Rightarrow> bytes \<Rightarrow> (str option \<times> u32 list \<times> props) res" where
  "decode_node_record pc buf =
     res_bind (decode (de_node pc) buf) (\<lambda>raw.
       Inr (n_external_key raw, n_labels raw, n_props raw))"

definition encode_edge_record ::
    "postcard \<Rightarrow> node_id \<Rightarrow> node_id \<Rightarrow> u32 \<Rightarrow> props \<Rightarrow> bytes" where
  "encode_edge_record pc src dst ty ps =
     ser_edge pc \<lparr>e_src = src, e_dst = dst, e_ty = ty, e_props = ps\<rparr>"

definition decode_edge_record ::
    "postcard \<Rightarrow> bytes \<Rightarrow> (node_id \<times> node_id \<times> u32 \<times> props) res" where
  "decode_edge_record pc buf =
     res_bind (decode (de_edge pc) buf) (\<lambda>raw.
       Inr (e_src raw, e_dst raw, e_ty raw, e_props raw))"

section \<open>What the code relies on\<close>

definition str_opt_ok :: "str option \<Rightarrow> bool" where
  "str_opt_ok s \<longleftrightarrow> (case s of None \<Rightarrow> True | Some s \<Rightarrow> utf8_ok s)"

definition postcard_ok :: "postcard \<Rightarrow> bool" where
  "postcard_ok pc \<longleftrightarrow>
     (\<forall>ps r. props_ok ps \<longrightarrow> de_props pc (ser_props pc ps @ r) = Some (ps, r)) \<and>
     (\<forall>n r. str_opt_ok (n_external_key n) \<and> props_ok (n_props n) \<longrightarrow>
        de_node pc (ser_node pc n @ r) = Some (n, r)) \<and>
     (\<forall>e r. props_ok (e_props e) \<longrightarrow> de_edge pc (ser_edge pc e @ r) = Some (e, r)) \<and>
     (\<forall>q r. utf8_ok (sq_plane q) \<and> utf8_ok (sq_query q) \<longrightarrow>
        de_query pc (ser_query pc q @ r) = Some (q, r))"

lemma decode_props_encode [simp]:
  assumes "postcard_ok pc" "props_ok ps"
  shows "decode_props pc (encode_props pc ps) = Inr ps"
proof -
  from assms have "de_props pc (ser_props pc ps @ []) = Some (ps, [])"
    unfolding postcard_ok_def by blast
  then show ?thesis by (simp add: decode_props_def encode_props_def decode_def)
qed

lemma decode_node_encode [simp]:
  assumes "postcard_ok pc" "str_opt_ok ek" "props_ok ps"
  shows "decode_node_record pc (encode_node_record pc ek ls ps) = Inr (ek, ls, ps)"
proof -
  let ?n = "\<lparr>n_external_key = ek, n_labels = ls, n_props = ps\<rparr>"
  from assms have "str_opt_ok (n_external_key ?n) \<and> props_ok (n_props ?n)" by simp
  with assms(1) have "de_node pc (ser_node pc ?n @ []) = Some (?n, [])"
    unfolding postcard_ok_def by blast
  then show ?thesis by (simp add: decode_node_record_def encode_node_record_def decode_def)
qed

lemma decode_edge_encode [simp]:
  assumes "postcard_ok pc" "props_ok ps"
  shows "decode_edge_record pc (encode_edge_record pc s d y ps) = Inr (s, d, y, ps)"
proof -
  let ?e = "\<lparr>e_src = s, e_dst = d, e_ty = y, e_props = ps\<rparr>"
  from assms have "props_ok (e_props ?e)" by simp
  with assms(1) have "de_edge pc (ser_edge pc ?e @ []) = Some (?e, [])"
    unfolding postcard_ok_def by blast
  then show ?thesis by (simp add: decode_edge_record_def encode_edge_record_def decode_def)
qed

lemma props_ok_Nil [simp]: "props_ok []"
  by (simp add: props_ok_def)

lemma set_bt_insert: "set (bt_insert k v m) \<subseteq> insert (k, v) (set m)"
  by (induction k v m rule: bt_insert.induct) auto

lemma set_bt_remove: "set (bt_remove k m) \<subseteq> set m"
  by (induction k m rule: bt_remove.induct) auto

lemma props_ok_insert: "props_ok ps \<Longrightarrow> utf8_ok k \<Longrightarrow> desc_ok d \<Longrightarrow> props_ok (bt_insert k d ps)"
  using set_bt_insert [of k d ps] by (auto simp: props_ok_def)

lemma props_ok_remove: "props_ok ps \<Longrightarrow> props_ok (bt_remove k ps)"
  using set_bt_remove [of k ps] by (auto simp: props_ok_def)

end
