(* ===== verification/Graph_Meta.thy ===== *)
theory Graph_Meta
  imports Memory Types
begin

text \<open>
  Database metadata and containers (\<open>storage/graph/meta.rs\<close>): format and first-open
  initialisation, id counters and batched allocation, the label and edge-type dictionaries, plane
  lifecycle, index declarations and the query history. Every operation takes the vtable of a
  transaction (\<open>V\<close>) as the source takes \<open>&mut dyn WriteTransaction\<close>, and the record codec (\<open>pc\<close>)
  where it stores or loads a record.
\<close>

section \<open>Format and counters\<close>

definition FORMAT_VERSION :: u32 where "FORMAT_VERSION = 2"
definition MIN_SUPPORTED_VERSION :: u32 where "MIN_SUPPORTED_VERSION = 2"
definition DEFAULT_PLANE_NAME :: str where "DEFAULT_PLANE_NAME = bstr ''startup''"

text \<open>\<open>Option::map(f).transpose()\<close> for a fallible \<open>f\<close>.\<close>

definition map_transpose :: "('a \<Rightarrow> 'b res) \<Rightarrow> 'a option \<Rightarrow> 'b option res" where
  "map_transpose f x = (case x of None \<Rightarrow> Inr None | Some v \<Rightarrow> res_bind (f v) (\<lambda>y. Inr (Some y)))"

definition decode_u32 :: "bytes \<Rightarrow> u32 res" where
  "decode_u32 b = ok_or Corrupt (from_be32 b)"

definition decode_u64 :: "bytes \<Rightarrow> u64 res" where
  "decode_u64 b = ok_or Corrupt (from_be64 b)"

definition get_u32 :: "'t vtable \<Rightarrow> 't \<Rightarrow> bytes \<Rightarrow> u32 option res" where
  "get_u32 V t k = res_bind (v_get V t Meta k) (map_transpose decode_u32)"

definition put_u32 :: "'t vtable \<Rightarrow> bytes \<Rightarrow> u32 \<Rightarrow> ('t, unit) act" where
  "put_u32 V k v = v_put V Meta k (be32 v)"

definition get_u64 :: "'t vtable \<Rightarrow> 't \<Rightarrow> bytes \<Rightarrow> u64 option res" where
  "get_u64 V t k = res_bind (v_get V t Meta k) (map_transpose decode_u64)"

definition put_u64 :: "'t vtable \<Rightarrow> bytes \<Rightarrow> u64 \<Rightarrow> ('t, unit) act" where
  "put_u64 V k v = v_put V Meta k (be64 v)"

definition read_commit_seq :: "'t vtable \<Rightarrow> 't \<Rightarrow> u64 res" where
  "read_commit_seq V t =
     res_bind (get_u64 V t META_COMMIT_SEQ) (\<lambda>s. Inr (case s of None \<Rightarrow> 0 | Some v \<Rightarrow> v))"

definition bump_commit_seq :: "'t vtable \<Rightarrow> ('t, u64) act" where
  "bump_commit_seq V =
     act_bind (reading (read_commit_seq V)) (\<lambda>s.
       let next = s + 1 in
       act_bind (put_u64 V META_COMMIT_SEQ next) (\<lambda>_. ret next))"

definition counter_or_one :: "'t vtable \<Rightarrow> 't \<Rightarrow> bytes \<Rightarrow> u64 res" where
  "counter_or_one V t k =
     res_bind (get_u64 V t k) (\<lambda>s. Inr (case s of None \<Rightarrow> 1 | Some v \<Rightarrow> v))"

definition ID_COUNTERS :: "bytes list" where
  "ID_COUNTERS = [META_NEXT_NODE_ID, META_NEXT_EDGE_ID, META_NEXT_PLANE_ID, META_NEXT_LABEL_ID,
                  META_NEXT_EDGE_TYPE_ID]"

definition read_id_counters :: "'t vtable \<Rightarrow> 't \<Rightarrow> u64 list res" where
  "read_id_counters V t = res_map (counter_or_one V t) ID_COUNTERS"

definition set_id_counters :: "'t vtable \<Rightarrow> u64 list \<Rightarrow> ('t, unit) act" where
  "set_id_counters V counters = act_iter (\<lambda>(k, v). put_u64 V k v) (zip ID_COUNTERS counters)"

definition set_commit_seq :: "'t vtable \<Rightarrow> u64 \<Rightarrow> ('t, unit) act" where
  "set_commit_seq V s = put_u64 V META_COMMIT_SEQ s"

definition read_commit_time :: "'t vtable \<Rightarrow> 't \<Rightarrow> i64 option res" where
  "read_commit_time V t = res_bind (v_get V t Meta META_COMMIT_TIME) (map_transpose decode_u64)"

definition write_commit_time :: "'t vtable \<Rightarrow> i64 \<Rightarrow> ('t, unit) act" where
  "write_commit_time V millis = v_put V Meta META_COMMIT_TIME (be64 millis)"

section \<open>Id allocation\<close>

definition next_id :: "'t vtable \<Rightarrow> bytes \<Rightarrow> ('t, u64) act" where
  "next_id V counter =
     act_bind (reading (\<lambda>t. res_bind (get_u64 V t counter) (ok_or Corrupt))) (\<lambda>i.
     act_bind (put_u64 V counter (i + 1)) (\<lambda>_. ret i))"

definition reserve_id_batch :: "'t vtable \<Rightarrow> bytes \<Rightarrow> u64 \<Rightarrow> ('t, u64) act" where
  "reserve_id_batch V counter count =
     act_bind (reading (\<lambda>t. res_bind (get_u64 V t counter) (ok_or Corrupt))) (\<lambda>start.
     act_bind (put_u64 V counter (start + count)) (\<lambda>_. ret start))"

definition ID_BATCH_SIZE :: u64 where "ID_BATCH_SIZE = 64"

record id_batch =
  ib_next :: u64
  ib_remaining :: u64

definition id_batch_take :: "'t vtable \<Rightarrow> bytes \<Rightarrow> id_batch \<Rightarrow> ('t, u64 \<times> id_batch) act" where
  "id_batch_take V counter b =
     act_bind
       (if ib_remaining b = 0
        then act_bind (reserve_id_batch V counter ID_BATCH_SIZE) (\<lambda>n.
               ret \<lparr>ib_next = n, ib_remaining = ID_BATCH_SIZE\<rparr>)
        else ret b)
       (\<lambda>b. ret (ib_next b, \<lparr>ib_next = ib_next b + 1, ib_remaining = ib_remaining b - 1\<rparr>))"

record id_allocator =
  ia_node :: id_batch
  ia_edge :: id_batch

definition id_allocator_new :: id_allocator where
  "id_allocator_new = \<lparr>ia_node = \<lparr>ib_next = 0, ib_remaining = 0\<rparr>,
                       ia_edge = \<lparr>ib_next = 0, ib_remaining = 0\<rparr>\<rparr>"

definition next_node_id :: "'t vtable \<Rightarrow> id_allocator \<Rightarrow> ('t, node_id \<times> id_allocator) act" where
  "next_node_id V a =
     act_bind (id_batch_take V META_NEXT_NODE_ID (ia_node a)) (\<lambda>(i, b). ret (i, a\<lparr>ia_node := b\<rparr>))"

definition next_edge_id :: "'t vtable \<Rightarrow> id_allocator \<Rightarrow> ('t, edge_id \<times> id_allocator) act" where
  "next_edge_id V a =
     act_bind (id_batch_take V META_NEXT_EDGE_ID (ia_edge a)) (\<lambda>(i, b). ret (i, a\<lparr>ia_edge := b\<rparr>))"

section \<open>Dictionaries\<close>

text \<open>\<open>u32::try_from(u64)\<close>.\<close>

definition u32_try_from :: "u64 \<Rightarrow> u32 option" where
  "u32_try_from x = (if x < 0x100000000 then Some (ucast x) else None)"

lemma u32_try_from_ucast:
  assumes "u32_try_from c = Some i"
  shows "ucast i = c"
proof -
  from assms have "c < 0x100000000" and i: "i = ucast c"
    by (auto simp: u32_try_from_def split: if_splits)
  then have "unat c < 2 ^ 32" by (simp add: word_less_nat_alt)
  then have "take_bit 32 (unat c) = unat c" by (rule take_bit_nat_eq_self)
  then have "unat (ucast (ucast c :: u32) :: u64) = unat c"
    by (simp add: unsigned_ucast_eq unsigned_take_bit_eq)
  then show ?thesis unfolding i by (simp only: word_unat_eq_iff)
qed

definition intern ::
    "'t vtable \<Rightarrow> bytes \<Rightarrow> (u32 \<Rightarrow> bytes) \<Rightarrow> bytes \<Rightarrow> str \<Rightarrow> ('t, u32) act" where
  "intern V fwd_key rev_key counter name =
     act_bind (reading (\<lambda>t. v_get V t Meta fwd_key)) (\<lambda>found.
     case found of
       Some v \<Rightarrow> reading (\<lambda>_. decode_u32 v)
     | None \<Rightarrow>
         act_bind (next_id V counter) (\<lambda>n.
         case u32_try_from n of
           None \<Rightarrow> fail InvalidArgument
         | Some i \<Rightarrow>
             act_bind (v_put V Meta fwd_key (be32 i)) (\<lambda>_.
             act_bind (v_put V Meta (rev_key i) name) (\<lambda>_. ret i))))"

definition intern_label :: "'t vtable \<Rightarrow> str \<Rightarrow> ('t, u32) act" where
  "intern_label V name =
     intern V (dict_label_key name) dict_label_rev_key META_NEXT_LABEL_ID name"

definition intern_edge_type :: "'t vtable \<Rightarrow> str \<Rightarrow> ('t, u32) act" where
  "intern_edge_type V name =
     intern V (dict_edge_type_key name) dict_edge_type_rev_key META_NEXT_EDGE_TYPE_ID name"

definition lookup_edge_type :: "'t vtable \<Rightarrow> 't \<Rightarrow> str \<Rightarrow> u32 option res" where
  "lookup_edge_type V t name =
     res_bind (v_get V t Meta (dict_edge_type_key name)) (map_transpose decode_u32)"

definition lookup_label :: "'t vtable \<Rightarrow> 't \<Rightarrow> str \<Rightarrow> u32 option res" where
  "lookup_label V t name =
     res_bind (v_get V t Meta (dict_label_key name)) (map_transpose decode_u32)"

definition resolve_label :: "'t vtable \<Rightarrow> 't \<Rightarrow> u32 \<Rightarrow> str res" where
  "resolve_label V t i =
     res_bind (v_get V t Meta (dict_label_rev_key i)) (\<lambda>b.
     res_bind (ok_or Corrupt b) from_utf8)"

section \<open>Planes\<close>

definition write_plane ::
    "'t vtable \<Rightarrow> postcard \<Rightarrow> plane_id \<Rightarrow> str \<Rightarrow> props \<Rightarrow> ('t, unit) act" where
  "write_plane V pc i name ps =
     (if 2 ^ 32 \<le> length name then fail InvalidArgument
      else
        act_bind (v_put V Planes (plane_key i)
          (be32 (of_nat (length name)) @ name @ encode_props pc ps)) (\<lambda>_.
        v_put V PlaneNames (plane_name_key name) (be32 i)))"

definition plane_id_by_name :: "'t vtable \<Rightarrow> 't \<Rightarrow> str \<Rightarrow> plane_id option res" where
  "plane_id_by_name V t name =
     res_bind (v_get V t PlaneNames (plane_name_key name)) (map_transpose decode_u32)"

definition create_plane ::
    "'t vtable \<Rightarrow> postcard \<Rightarrow> str \<Rightarrow> props \<Rightarrow> ('t, plane_id) act" where
  "create_plane V pc name ps =
     act_bind (reading (\<lambda>t. plane_id_by_name V t name)) (\<lambda>found.
     if found \<noteq> None then fail PlaneExists
     else
       act_bind (next_id V META_NEXT_PLANE_ID) (\<lambda>n.
       case u32_try_from n of
         None \<Rightarrow> fail InvalidArgument
       | Some i \<Rightarrow> act_bind (write_plane V pc i name ps) (\<lambda>_. ret i)))"

definition read_plane ::
    "'t vtable \<Rightarrow> postcard \<Rightarrow> 't \<Rightarrow> plane_id \<Rightarrow> (str \<times> props) option res" where
  "read_plane V pc t i =
     res_bind (v_get V t Planes (plane_key i)) (map_transpose (\<lambda>buf.
       if length buf < 4 then Inl Corrupt
       else
         res_bind (u32be (take 4 buf)) (\<lambda>name_len.
         let name_end = 4 + unat name_len in
         if length buf < name_end then Inl Corrupt
         else
           res_bind (from_utf8 (slice 4 name_end buf)) (\<lambda>name.
           res_bind (decode_props pc (drop name_end buf)) (\<lambda>ps.
           Inr (name, ps))))))"

definition set_plane_properties ::
    "'t vtable \<Rightarrow> postcard \<Rightarrow> plane_id \<Rightarrow> props \<Rightarrow> ('t, unit) act" where
  "set_plane_properties V pc i ps =
     act_bind (reading (\<lambda>t. res_bind (read_plane V pc t i) (ok_or NotFound))) (\<lambda>(name, _).
     write_plane V pc i name ps)"

definition rename_plane ::
    "'t vtable \<Rightarrow> postcard \<Rightarrow> plane_id \<Rightarrow> str \<Rightarrow> ('t, unit) act" where
  "rename_plane V pc i new_name =
     (if i = STARTUP then fail InvalidArgument
      else
        act_bind (reading (\<lambda>t. res_bind (read_plane V pc t i) (ok_or NotFound))) (\<lambda>(old_name, ps).
        if old_name = new_name then ret ()
        else
          act_bind (reading (\<lambda>t. plane_id_by_name V t new_name)) (\<lambda>found.
          if found \<noteq> None then fail PlaneExists
          else
            act_bind (v_delete V PlaneNames (plane_name_key old_name)) (\<lambda>_.
            write_plane V pc i new_name ps))))"

definition PLANE_TABLES :: "table_id list" where
  "PLANE_TABLES = [Nodes, Edges, AdjFwd, AdjRev, LabelIdx, ExtKeys, PropIdx]"

definition drop_plane :: "'t vtable \<Rightarrow> postcard \<Rightarrow> plane_id \<Rightarrow> ('t, unit) act" where
  "drop_plane V pc i =
     (if i = STARTUP then fail InvalidArgument
      else
        act_bind (reading (\<lambda>t. read_plane V pc t i)) (\<lambda>found.
        case found of
          None \<Rightarrow> ret ()
        | Some (name, _) \<Rightarrow>
            act_bind (reading (\<lambda>t.
              res_bind (prefix_range V t Nodes (plane_key i)) (\<lambda>items.
              res_map (\<lambda>(k, _). res_bind (parse_node_key k) (\<lambda>(_, node). Inr node)) items)))
              (\<lambda>node_ids.
            act_bind (act_iter (\<lambda>node. v_delete V NodePlane (node_plane_key node)) node_ids) (\<lambda>_.
            act_bind (act_iter (\<lambda>tb. v_delete_prefix V tb (plane_key i)) PLANE_TABLES) (\<lambda>_.
            act_bind (v_delete V Planes (plane_key i)) (\<lambda>_.
            v_delete V PlaneNames (plane_name_key name)))))))"

definition list_planes :: "'t vtable \<Rightarrow> 't \<Rightarrow> (plane_id \<times> str) list res" where
  "list_planes V t =
     res_bind (v_range V t PlaneNames [] None) (\<lambda>items.
     res_bind (res_map (\<lambda>(k, v).
       res_bind (from_utf8 k) (\<lambda>name.
       res_bind (decode_u32 v) (\<lambda>i. Inr (i, name)))) items) (\<lambda>out.
     Inr (sort_key fst out)))"

section \<open>Initialisation\<close>

definition migrate_step :: "'t vtable \<Rightarrow> u32 \<Rightarrow> ('t, unit) act" where
  "migrate_step V from = fail Corrupt"

definition init_db :: "'t vtable \<Rightarrow> postcard \<Rightarrow> ('t, unit) act" where
  "init_db V pc =
     act_bind (reading (\<lambda>t. v_get V t Meta META_MAGIC)) (\<lambda>found.
     case found of
       Some magic \<Rightarrow>
         if magic = MAGIC then
           act_bind (reading (\<lambda>t. res_bind (get_u32 V t META_FORMAT_VERSION) (ok_or Corrupt)))
             (\<lambda>version.
           if FORMAT_VERSION < version then fail Corrupt
           else if version < MIN_SUPPORTED_VERSION then fail Corrupt
           else
             act_bind (act_iter (\<lambda>from. migrate_step V (of_nat from))
               [unat version ..< unat FORMAT_VERSION]) (\<lambda>_.
             if version \<noteq> FORMAT_VERSION then put_u32 V META_FORMAT_VERSION FORMAT_VERSION
             else ret ()))
         else fail Corrupt
     | None \<Rightarrow>
         act_bind (v_put V Meta META_MAGIC MAGIC) (\<lambda>_.
         act_bind (put_u32 V META_FORMAT_VERSION FORMAT_VERSION) (\<lambda>_.
         act_bind (put_u64 V META_NEXT_NODE_ID 1) (\<lambda>_.
         act_bind (put_u64 V META_NEXT_EDGE_ID 1) (\<lambda>_.
         act_bind (put_u64 V META_NEXT_PLANE_ID 1) (\<lambda>_.
         act_bind (put_u64 V META_NEXT_LABEL_ID 1) (\<lambda>_.
         act_bind (put_u64 V META_NEXT_EDGE_TYPE_ID 1) (\<lambda>_.
         act_bind (put_u64 V META_COMMIT_SEQ 0) (\<lambda>_.
         write_plane V pc STARTUP DEFAULT_PLANE_NAME [])))))))))"

section \<open>Index declarations\<close>

datatype metric = Cosine | Dot | L2

fun metric_tag :: "metric \<Rightarrow> byte" where
  "metric_tag Cosine = 0"
| "metric_tag Dot = 1"
| "metric_tag L2 = 2"

definition metric_from_tag :: "byte \<Rightarrow> metric option" where
  "metric_from_tag tag =
     (if tag = 0 then Some Cosine else if tag = 1 then Some Dot
      else if tag = 2 then Some L2 else None)"

datatype language =
    English | Arabic | Danish | Dutch | Finnish | French | German | Greek | Hungarian | Italian
  | Norwegian | Portuguese | Romanian | Russian | Spanish | Swedish | Tamil | Turkish | Chinese

definition LANGUAGES :: "language list" where
  "LANGUAGES = [English, Arabic, Danish, Dutch, Finnish, French, German, Greek, Hungarian, Italian,
     Norwegian, Portuguese, Romanian, Russian, Spanish, Swedish, Tamil, Turkish, Chinese]"

fun language_tag :: "language \<Rightarrow> byte" where
  "language_tag English = 0"
| "language_tag Arabic = 1"
| "language_tag Danish = 2"
| "language_tag Dutch = 3"
| "language_tag Finnish = 4"
| "language_tag French = 5"
| "language_tag German = 6"
| "language_tag Greek = 7"
| "language_tag Hungarian = 8"
| "language_tag Italian = 9"
| "language_tag Norwegian = 10"
| "language_tag Portuguese = 11"
| "language_tag Romanian = 12"
| "language_tag Russian = 13"
| "language_tag Spanish = 14"
| "language_tag Swedish = 15"
| "language_tag Tamil = 16"
| "language_tag Turkish = 17"
| "language_tag Chinese = 18"

definition language_from_tag :: "byte \<Rightarrow> language option" where
  "language_from_tag tag = (if tag \<le> 18 then Some (LANGUAGES ! unat tag) else None)"

text \<open>\<open>value.first().and_then(from_tag).ok_or(Corrupt)\<close>.\<close>

definition first_tag :: "(byte \<Rightarrow> 'a option) \<Rightarrow> bytes \<Rightarrow> 'a res" where
  "first_tag from_tag v = (case v of [] \<Rightarrow> Inl Corrupt | b # _ \<Rightarrow> ok_or Corrupt (from_tag b))"

definition declare_index ::
    "'t vtable \<Rightarrow> (byte \<Rightarrow> 'a option) \<Rightarrow> ('a \<Rightarrow> byte) \<Rightarrow> bytes \<Rightarrow> 'a \<Rightarrow> ('t, bool) act" where
  "declare_index V from_tag tag key x =
     act_bind (reading (\<lambda>t. v_get V t Meta key)) (\<lambda>found.
     case found of
       Some existing \<Rightarrow>
         act_bind (reading (\<lambda>_. first_tag from_tag existing)) (\<lambda>current.
         if current \<noteq> x then fail InvalidArgument else ret False)
     | None \<Rightarrow> act_bind (v_put V Meta key [tag x]) (\<lambda>_. ret True))"

definition declare_vector_index ::
    "'t vtable \<Rightarrow> plane_id \<Rightarrow> str \<Rightarrow> str \<Rightarrow> metric \<Rightarrow> ('t, bool) act" where
  "declare_vector_index V plane label property m =
     declare_index V metric_from_tag metric_tag (vindex_decl_key plane label property) m"

definition declare_keyword_index ::
    "'t vtable \<Rightarrow> plane_id \<Rightarrow> str \<Rightarrow> str \<Rightarrow> language \<Rightarrow> ('t, bool) act" where
  "declare_keyword_index V plane label property l =
     declare_index V language_from_tag language_tag (kindex_decl_key plane label property) l"

definition list_vector_indexes :: "'t vtable \<Rightarrow> 't \<Rightarrow> (plane_id \<times> str \<times> str \<times> metric) list res" where
  "list_vector_indexes V t =
     res_bind (prefix_range V t Meta VINDEX_PREFIX) (res_map (\<lambda>(k, v).
       res_bind (parse_vindex_decl_key k) (\<lambda>(plane, label, property).
       res_bind (first_tag metric_from_tag v) (\<lambda>m. Inr (plane, label, property, m)))))"

definition list_keyword_indexes ::
    "'t vtable \<Rightarrow> 't \<Rightarrow> (plane_id \<times> str \<times> str \<times> language) list res" where
  "list_keyword_indexes V t =
     res_bind (prefix_range V t Meta KINDEX_PREFIX) (res_map (\<lambda>(k, v).
       res_bind (parse_kindex_decl_key k) (\<lambda>(plane, label, property).
       res_bind (first_tag language_from_tag v) (\<lambda>l. Inr (plane, label, property, l)))))"

section \<open>Query history\<close>

text \<open>\<open>postcard::from_bytes\<close>: trailing bytes are not looked at.\<close>

definition query_from_bytes :: "postcard \<Rightarrow> bytes \<Rightarrow> stored_query res" where
  "query_from_bytes pc b = ok_or Corrupt (map_option fst (de_query pc b))"

fun history_collect :: "postcard \<Rightarrow> kvpair list \<Rightarrow> (u64 \<times> stored_query) list res" where
  "history_collect pc [] = Inr []"
| "history_collect pc ((k, v) # items) =
     (case parse_history_key k of
        None \<Rightarrow> history_collect pc items
      | Some i \<Rightarrow>
          res_bind (query_from_bytes pc v) (\<lambda>s.
          res_bind (history_collect pc items) (\<lambda>out. Inr ((i, s) # out))))"

definition history_entries :: "'t vtable \<Rightarrow> postcard \<Rightarrow> 't \<Rightarrow> (u64 \<times> stored_query) list res" where
  "history_entries V pc t =
     res_bind (prefix_range V t Meta HISTORY_PREFIX) (history_collect pc)"

definition write_history ::
    "'t vtable \<Rightarrow> postcard \<Rightarrow> u64 \<Rightarrow> i64 \<Rightarrow> str \<Rightarrow> str \<Rightarrow> ('t, unit) act" where
  "write_history V pc i at plane query =
     v_put V Meta (history_key i)
       (ser_query pc \<lparr>sq_at = at, sq_plane = plane, sq_query = query\<rparr>)"

definition record_query ::
    "'t vtable \<Rightarrow> postcard \<Rightarrow> str \<Rightarrow> str \<Rightarrow> i64 \<Rightarrow> nat \<Rightarrow> ('t, u64) act" where
  "record_query V pc plane query at keep =
     act_bind (reading (history_entries V pc)) (\<lambda>entries.
     if entries \<noteq> [] \<and> sq_plane (snd (last entries)) = plane \<and> sq_query (snd (last entries)) = query
     then
       act_bind (write_history V pc (fst (last entries)) at plane query) (\<lambda>_.
       ret (fst (last entries)))
     else
       let i = (if entries = [] then 1 else fst (last entries) + 1) in
       act_bind (write_history V pc i at plane query) (\<lambda>_.
       let over = (length entries + 1) - max keep 1 in
       act_bind (act_iter (\<lambda>e. v_delete V Meta (history_key (fst e))) (take over entries)) (\<lambda>_.
       ret i)))"

definition to_query_record :: "u64 \<times> stored_query \<Rightarrow> query_record" where
  "to_query_record e =
     \<lparr>qr_id = fst e, qr_at = sq_at (snd e), qr_plane = sq_plane (snd e), qr_query = sq_query (snd e)\<rparr>"

definition list_history :: "'t vtable \<Rightarrow> postcard \<Rightarrow> 't \<Rightarrow> nat \<Rightarrow> query_record list res" where
  "list_history V pc t limit =
     res_bind (history_entries V pc t) (\<lambda>all. Inr (map to_query_record (take limit (rev all))))"

definition get_history :: "'t vtable \<Rightarrow> postcard \<Rightarrow> 't \<Rightarrow> u64 \<Rightarrow> query_record option res" where
  "get_history V pc t i =
     res_bind (v_get V t Meta (history_key i)) (map_transpose (\<lambda>v.
       res_bind (query_from_bytes pc v) (\<lambda>s. Inr (to_query_record (i, s)))))"

end
