(* ===== verification/Graph.thy ===== *)
theory Graph
  imports Graph_Meta
begin

text \<open>
  Node and edge operations (\<open>storage/graph/node.rs\<close>, \<open>storage/graph/edge.rs\<close>): create, read,
  mutate and delete records together with the index tables that mirror them (labels, external keys,
  node-to-plane, both adjacency directions), ordered scans and one-hop expansion.
\<close>

section \<open>Nodes: creation and reads\<close>

definition node_id_by_external_key ::
    "'t vtable \<Rightarrow> 't \<Rightarrow> plane_id \<Rightarrow> str \<Rightarrow> node_id option res" where
  "node_id_by_external_key V t plane external_key =
     res_bind (v_get V t ExtKeys (ext_key_key plane external_key)) (map_transpose decode_u64)"

definition insert_node ::
    "'t vtable \<Rightarrow> postcard \<Rightarrow> plane_id \<Rightarrow> node_id \<Rightarrow> str option \<Rightarrow> str list \<Rightarrow> props \<Rightarrow>
     ('t, unit) act" where
  "insert_node V pc plane i external_key labels ps =
     act_bind (reading (\<lambda>t. case external_key of
         None \<Rightarrow> Inr None
       | Some key \<Rightarrow> node_id_by_external_key V t plane key)) (\<lambda>taken.
     if taken \<noteq> None then fail Conflict
     else
       act_bind (act_map (intern_label V) labels) (\<lambda>label_ids.
       act_bind (v_put V Nodes (node_key plane i)
         (encode_node_record pc external_key label_ids ps)) (\<lambda>_.
       act_bind (v_put V NodePlane (node_plane_key i) (be32 plane)) (\<lambda>_.
       act_bind (act_iter (\<lambda>lid. v_put V LabelIdx (label_idx_key plane lid i) []) label_ids) (\<lambda>_.
       case external_key of
         None \<Rightarrow> ret ()
       | Some key \<Rightarrow> v_put V ExtKeys (ext_key_key plane key) (be64 i))))))"

definition create_node_impl ::
    "'t vtable \<Rightarrow> postcard \<Rightarrow> plane_id \<Rightarrow> str option \<Rightarrow> str list \<Rightarrow> props \<Rightarrow> ('t, node_id) act" where
  "create_node_impl V pc plane external_key labels ps =
     act_bind (next_id V META_NEXT_NODE_ID) (\<lambda>i.
     act_bind (insert_node V pc plane i external_key labels ps) (\<lambda>_. ret i))"

definition create_node ::
    "'t vtable \<Rightarrow> postcard \<Rightarrow> plane_id \<Rightarrow> str list \<Rightarrow> props \<Rightarrow> ('t, node_id) act" where
  "create_node V pc plane labels ps = create_node_impl V pc plane None labels ps"

definition create_node_with_key ::
    "'t vtable \<Rightarrow> postcard \<Rightarrow> plane_id \<Rightarrow> str \<Rightarrow> str list \<Rightarrow> props \<Rightarrow> ('t, node_id) act" where
  "create_node_with_key V pc plane external_key labels ps =
     create_node_impl V pc plane (Some external_key) labels ps"

definition get_node ::
    "'t vtable \<Rightarrow> postcard \<Rightarrow> 't \<Rightarrow> plane_id \<Rightarrow> node_id \<Rightarrow> node_record option res" where
  "get_node V pc t plane i =
     res_bind (v_get V t Nodes (node_key plane i)) (map_transpose (\<lambda>buf.
       res_bind (decode_node_record pc buf) (\<lambda>(external_key, label_ids, properties).
       res_bind (res_map (resolve_label V t) label_ids) (\<lambda>labels.
       Inr \<lparr>nr_id = i, nr_plane = plane, nr_external_key = external_key, nr_labels = labels,
            nr_properties = properties\<rparr>))))"

definition get_node_by_external_key ::
    "'t vtable \<Rightarrow> postcard \<Rightarrow> 't \<Rightarrow> plane_id \<Rightarrow> str \<Rightarrow> node_record option res" where
  "get_node_by_external_key V pc t plane external_key =
     res_bind (node_id_by_external_key V t plane external_key) (\<lambda>found.
     case found of None \<Rightarrow> Inr None | Some i \<Rightarrow> get_node V pc t plane i)"

definition node_exists :: "'t vtable \<Rightarrow> 't \<Rightarrow> plane_id \<Rightarrow> node_id \<Rightarrow> bool res" where
  "node_exists V t plane i =
     res_bind (v_get V t Nodes (node_key plane i)) (\<lambda>b. Inr (b \<noteq> None))"

definition node_vector ::
    "'t vtable \<Rightarrow> postcard \<Rightarrow> 't \<Rightarrow> plane_id \<Rightarrow> node_id \<Rightarrow> str \<Rightarrow> f32 list option res" where
  "node_vector V pc t plane i property =
     res_bind (get_node V pc t plane i) (\<lambda>found.
     case found of
       None \<Rightarrow> Inr None
     | Some node \<Rightarrow>
         Inr (case map_option pd_value (map_of (nr_properties node) property) of
                Some (PVector v) \<Rightarrow> Some v
              | _ \<Rightarrow> None))"

definition node_text ::
    "'t vtable \<Rightarrow> postcard \<Rightarrow> 't \<Rightarrow> plane_id \<Rightarrow> node_id \<Rightarrow> str \<Rightarrow> str option res" where
  "node_text V pc t plane i property =
     res_bind (get_node V pc t plane i) (\<lambda>found.
     case found of
       None \<Rightarrow> Inr None
     | Some node \<Rightarrow>
         Inr (case map_option pd_value (map_of (nr_properties node) property) of
                Some (PStr s) \<Rightarrow> Some s
              | _ \<Rightarrow> None))"

definition scan_all :: "'t vtable \<Rightarrow> 't \<Rightarrow> plane_id \<Rightarrow> node_id list res" where
  "scan_all V t plane =
     res_bind (prefix_range V t Nodes (plane_key plane)) (res_map (\<lambda>(k, _).
       res_bind (parse_node_key k) (\<lambda>(_, node). Inr node)))"

definition scan_label :: "'t vtable \<Rightarrow> 't \<Rightarrow> plane_id \<Rightarrow> str \<Rightarrow> node_id list res" where
  "scan_label V t plane label =
     res_bind (lookup_label V t label) (\<lambda>found.
     case found of
       None \<Rightarrow> Inr []
     | Some label_id \<Rightarrow>
         res_bind (prefix_range V t LabelIdx (label_idx_prefix plane label_id))
           (res_map (\<lambda>(k, _). label_idx_node k)))"

section \<open>Nodes: mutation\<close>

text \<open>\<open>let Some(buf) = txn.get(..)? else return Err(NotFound)\<close>, then decode.\<close>

definition load_node ::
    "'t vtable \<Rightarrow> postcard \<Rightarrow> 't \<Rightarrow> plane_id \<Rightarrow> node_id \<Rightarrow> (str option \<times> u32 list \<times> props) res" where
  "load_node V pc t plane i =
     res_bind (v_get V t Nodes (node_key plane i)) (\<lambda>b.
     res_bind (ok_or NotFound b) (decode_node_record pc))"

definition set_node_prop ::
    "'t vtable \<Rightarrow> postcard \<Rightarrow> plane_id \<Rightarrow> node_id \<Rightarrow> str \<Rightarrow> prop_desc \<Rightarrow> ('t, unit) act" where
  "set_node_prop V pc plane i key prop =
     act_bind (reading (\<lambda>t. load_node V pc t plane i)) (\<lambda>(external_key, label_ids, ps).
     v_put V Nodes (node_key plane i)
       (encode_node_record pc external_key label_ids (bt_insert key prop ps)))"

definition remove_node_prop ::
    "'t vtable \<Rightarrow> postcard \<Rightarrow> plane_id \<Rightarrow> node_id \<Rightarrow> str \<Rightarrow> ('t, unit) act" where
  "remove_node_prop V pc plane i key =
     act_bind (reading (\<lambda>t. load_node V pc t plane i)) (\<lambda>(external_key, label_ids, ps).
     v_put V Nodes (node_key plane i)
       (encode_node_record pc external_key label_ids (bt_remove key ps)))"

definition set_node_labels ::
    "'t vtable \<Rightarrow> postcard \<Rightarrow> plane_id \<Rightarrow> node_id \<Rightarrow> str list \<Rightarrow> ('t, unit) act" where
  "set_node_labels V pc plane i labels =
     act_bind (reading (\<lambda>t. load_node V pc t plane i)) (\<lambda>(external_key, old_label_ids, ps).
     act_bind (act_map (intern_label V) labels) (\<lambda>new_label_ids.
     act_bind (act_iter (\<lambda>lid. v_delete V LabelIdx (label_idx_key plane lid i)) old_label_ids) (\<lambda>_.
     act_bind (act_iter (\<lambda>lid. v_put V LabelIdx (label_idx_key plane lid i) []) new_label_ids) (\<lambda>_.
     v_put V Nodes (node_key plane i) (encode_node_record pc external_key new_label_ids ps)))))"

section \<open>Edges\<close>

definition check_endpoint :: "'t vtable \<Rightarrow> plane_id \<Rightarrow> node_id \<Rightarrow> ('t, unit) act" where
  "check_endpoint V plane node =
     act_bind (reading (\<lambda>t. node_exists V t plane node)) (\<lambda>e.
     if e then ret () else fail PlaneMismatch)"

definition insert_edge ::
    "'t vtable \<Rightarrow> postcard \<Rightarrow> plane_id \<Rightarrow> edge_id \<Rightarrow> node_id \<Rightarrow> node_id \<Rightarrow> str \<Rightarrow> props \<Rightarrow>
     ('t, unit) act" where
  "insert_edge V pc plane i src dst ty ps =
     act_bind (act_iter (check_endpoint V plane) [src, dst]) (\<lambda>_.
     act_bind (intern_edge_type V ty) (\<lambda>ty_id.
     act_bind (v_put V Edges (edge_key plane i) (encode_edge_record pc src dst ty_id ps)) (\<lambda>_.
     act_bind (v_put V AdjFwd (adj_key plane src ty_id dst i) []) (\<lambda>_.
     v_put V AdjRev (adj_key plane dst ty_id src i) []))))"

definition create_edge ::
    "'t vtable \<Rightarrow> postcard \<Rightarrow> plane_id \<Rightarrow> node_id \<Rightarrow> node_id \<Rightarrow> str \<Rightarrow> props \<Rightarrow> ('t, edge_id) act" where
  "create_edge V pc plane src dst ty ps =
     act_bind (next_id V META_NEXT_EDGE_ID) (\<lambda>i.
     act_bind (insert_edge V pc plane i src dst ty ps) (\<lambda>_. ret i))"

definition get_edge ::
    "'t vtable \<Rightarrow> postcard \<Rightarrow> 't \<Rightarrow> plane_id \<Rightarrow> edge_id \<Rightarrow> edge_record option res" where
  "get_edge V pc t plane i =
     res_bind (v_get V t Edges (edge_key plane i)) (map_transpose (\<lambda>buf.
       res_bind (decode_edge_record pc buf) (\<lambda>(src, dst, ty_id, properties).
       res_bind (v_get V t Meta (dict_edge_type_rev_key ty_id)) (\<lambda>b.
       res_bind (ok_or Corrupt b) (\<lambda>bytes.
       res_bind (from_utf8 bytes) (\<lambda>ty.
       Inr \<lparr>er_id = i, er_plane = plane, er_src = src, er_dst = dst, er_ty = ty,
            er_properties = properties\<rparr>))))))"

definition delete_edge :: "'t vtable \<Rightarrow> postcard \<Rightarrow> plane_id \<Rightarrow> edge_id \<Rightarrow> ('t, unit) act" where
  "delete_edge V pc plane i =
     act_bind (reading (\<lambda>t. v_get V t Edges (edge_key plane i))) (\<lambda>found.
     case found of
       None \<Rightarrow> ret ()
     | Some buf \<Rightarrow>
         act_bind (reading (\<lambda>_. decode_edge_record pc buf)) (\<lambda>(src, dst, ty_id, _).
         act_bind (v_delete V AdjFwd (adj_key plane src ty_id dst i)) (\<lambda>_.
         act_bind (v_delete V AdjRev (adj_key plane dst ty_id src i)) (\<lambda>_.
         v_delete V Edges (edge_key plane i)))))"

definition load_edge ::
    "'t vtable \<Rightarrow> postcard \<Rightarrow> 't \<Rightarrow> plane_id \<Rightarrow> edge_id \<Rightarrow> (node_id \<times> node_id \<times> u32 \<times> props) res" where
  "load_edge V pc t plane i =
     res_bind (v_get V t Edges (edge_key plane i)) (\<lambda>b.
     res_bind (ok_or NotFound b) (decode_edge_record pc))"

definition set_edge_prop ::
    "'t vtable \<Rightarrow> postcard \<Rightarrow> plane_id \<Rightarrow> edge_id \<Rightarrow> str \<Rightarrow> prop_desc \<Rightarrow> ('t, unit) act" where
  "set_edge_prop V pc plane i key prop =
     act_bind (reading (\<lambda>t. load_edge V pc t plane i)) (\<lambda>(src, dst, ty_id, ps).
     v_put V Edges (edge_key plane i) (encode_edge_record pc src dst ty_id (bt_insert key prop ps)))"

definition remove_edge_prop ::
    "'t vtable \<Rightarrow> postcard \<Rightarrow> plane_id \<Rightarrow> edge_id \<Rightarrow> str \<Rightarrow> ('t, unit) act" where
  "remove_edge_prop V pc plane i key =
     act_bind (reading (\<lambda>t. load_edge V pc t plane i)) (\<lambda>(src, dst, ty_id, ps).
     v_put V Edges (edge_key plane i) (encode_edge_record pc src dst ty_id (bt_remove key ps)))"

definition set_edge_type ::
    "'t vtable \<Rightarrow> postcard \<Rightarrow> plane_id \<Rightarrow> edge_id \<Rightarrow> str \<Rightarrow> ('t, unit) act" where
  "set_edge_type V pc plane i ty =
     act_bind (reading (\<lambda>t. load_edge V pc t plane i)) (\<lambda>(src, dst, old_ty_id, ps).
     act_bind (intern_edge_type V ty) (\<lambda>new_ty_id.
     act_bind
       (if new_ty_id \<noteq> old_ty_id then
          act_bind (v_delete V AdjFwd (adj_key plane src old_ty_id dst i)) (\<lambda>_.
          act_bind (v_delete V AdjRev (adj_key plane dst old_ty_id src i)) (\<lambda>_.
          act_bind (v_put V AdjFwd (adj_key plane src new_ty_id dst i) []) (\<lambda>_.
          v_put V AdjRev (adj_key plane dst new_ty_id src i) [])))
        else ret ()) (\<lambda>_.
     v_put V Edges (edge_key plane i) (encode_edge_record pc src dst new_ty_id ps))))"

definition scan_edges :: "'t vtable \<Rightarrow> 't \<Rightarrow> plane_id \<Rightarrow> edge_id list res" where
  "scan_edges V t plane =
     res_bind (prefix_range V t Edges (plane_key plane)) (res_map (\<lambda>(k, _).
       res_bind (parse_node_key k) (\<lambda>(_, i). Inr i)))"

fun dir_tables :: "dir \<Rightarrow> table_id list" where
  "dir_tables Out = [AdjFwd]"
| "dir_tables In = [AdjRev]"
| "dir_tables Both = [AdjFwd, AdjRev]"

definition adj_scan :: "'t vtable \<Rightarrow> 't \<Rightarrow> bytes \<Rightarrow> table_id \<Rightarrow> neighbor list res" where
  "adj_scan V t p tb =
     res_bind (prefix_range V t tb p) (res_map (\<lambda>(k, _).
       res_bind (parse_adj_key k) (\<lambda>entry.
       Inr \<lparr>nb_node = ae_to entry, nb_edge = ae_edge entry\<rparr>)))"

definition neighbors ::
    "'t vtable \<Rightarrow> 't \<Rightarrow> plane_id \<Rightarrow> node_id \<Rightarrow> dir \<Rightarrow> str option \<Rightarrow> neighbor list res" where
  "neighbors V t plane node d ty =
     res_bind (case ty of
         None \<Rightarrow> Inr (Some None)
       | Some name \<Rightarrow> res_bind (lookup_edge_type V t name) (\<lambda>found.
           Inr (case found of Some i \<Rightarrow> Some (Some i) | None \<Rightarrow> None))) (\<lambda>ty_id.
     case ty_id of
       None \<Rightarrow> Inr []
     | Some ty_id \<Rightarrow>
         let p = (case ty_id of
                    Some y \<Rightarrow> adj_prefix_typed plane node y
                  | None \<Rightarrow> adj_prefix plane node) in
         res_bind (res_map (adj_scan V t p) (dir_tables d)) (\<lambda>outs. Inr (concat outs)))"

section \<open>Node deletion\<close>

text \<open>\<open>sort_unstable\<close> followed by \<open>dedup\<close>.\<close>

definition sort_dedup :: "'a::linorder list \<Rightarrow> 'a list" where
  "sort_dedup xs = remdups_adj (sort xs)"

definition incident_edges :: "'t vtable \<Rightarrow> 't \<Rightarrow> plane_id \<Rightarrow> node_id \<Rightarrow> edge_id list res" where
  "incident_edges V t plane i =
     res_bind (res_map (adj_scan V t (adj_prefix plane i)) [AdjFwd, AdjRev]) (\<lambda>outs.
     Inr (sort_dedup (map nb_edge (concat outs))))"

definition delete_node :: "'t vtable \<Rightarrow> postcard \<Rightarrow> plane_id \<Rightarrow> node_id \<Rightarrow> ('t, unit) act" where
  "delete_node V pc plane i =
     act_bind (reading (\<lambda>t. v_get V t Nodes (node_key plane i))) (\<lambda>found.
     case found of
       None \<Rightarrow> ret ()
     | Some buf \<Rightarrow>
         act_bind (reading (\<lambda>_. decode_node_record pc buf)) (\<lambda>(external_key, label_ids, _).
         act_bind (reading (\<lambda>t. incident_edges V t plane i)) (\<lambda>incident.
         act_bind (act_iter (delete_edge V pc plane) incident) (\<lambda>_.
         act_bind (act_iter (\<lambda>lid. v_delete V LabelIdx (label_idx_key plane lid i)) label_ids) (\<lambda>_.
         act_bind
           (case external_key of
              None \<Rightarrow> ret ()
            | Some key \<Rightarrow>
                act_bind (reading (\<lambda>t. node_id_by_external_key V t plane key)) (\<lambda>owner.
                if owner = Some i then v_delete V ExtKeys (ext_key_key plane key) else ret ())) (\<lambda>_.
         act_bind (v_delete V NodePlane (node_plane_key i)) (\<lambda>_.
         v_delete V Nodes (node_key plane i))))))))"

end
