(* ===== verification/Graph_Spec.thy ===== *)
theory Graph_Spec
  imports Graph
begin

text \<open>
  The abstract property graph a database content stands for, and the relation \<open>repr\<close> between the
  two. An abstract graph maps (plane, node) to the external key, label names and properties of the
  node, and (plane, edge) to endpoints, type name and properties. \<open>repr\<close> says that the tables of a
  content store exactly that graph: every index table (node-to-plane, labels, external keys, both
  adjacency directions) holds exactly the rows the graph implies, both dictionaries are bijections
  below their counters, and no id at or above a counter is in use. \<open>ag_ok\<close> is referential integrity:
  every edge has both endpoints on its own plane.
\<close>

section \<open>Abstract graphs\<close>

type_synonym anode = "str option \<times> str list \<times> props"
type_synonym aedge = "node_id \<times> node_id \<times> str \<times> props"

record agraph =
  ag_node :: "(plane_id \<times> node_id) \<Rightarrow> anode option"
  ag_edge :: "(plane_id \<times> edge_id) \<Rightarrow> aedge option"

definition has_label :: "((plane_id \<times> node_id) \<Rightarrow> anode option) \<Rightarrow> plane_id \<Rightarrow> node_id \<Rightarrow> str \<Rightarrow> bool" where
  "has_label N p n name \<longleftrightarrow> (case N (p, n) of None \<Rightarrow> False | Some (ek, ls, ps) \<Rightarrow> name \<in> set ls)"

definition has_key :: "((plane_id \<times> node_id) \<Rightarrow> anode option) \<Rightarrow> plane_id \<Rightarrow> node_id \<Rightarrow> str \<Rightarrow> bool" where
  "has_key N p n key \<longleftrightarrow> (case N (p, n) of None \<Rightarrow> False | Some (ek, ls, ps) \<Rightarrow> ek = Some key)"

definition has_edge ::
    "((plane_id \<times> edge_id) \<Rightarrow> aedge option) \<Rightarrow> plane_id \<Rightarrow> edge_id \<Rightarrow> node_id \<Rightarrow> node_id \<Rightarrow> str \<Rightarrow> bool" where
  "has_edge E p e s d ty \<longleftrightarrow>
     (case E (p, e) of None \<Rightarrow> False | Some (s', d', ty', ps) \<Rightarrow> s' = s \<and> d' = d \<and> ty' = ty)"

definition ag_ok :: "agraph \<Rightarrow> bool" where
  "ag_ok G \<longleftrightarrow>
     (\<forall>p e s d ty. has_edge (ag_edge G) p e s d ty \<longrightarrow>
        (p, s) \<in> dom (ag_node G) \<and> (p, d) \<in> dom (ag_node G))"

section \<open>Representation of each table\<close>

definition dict_repr ::
    "(str \<Rightarrow> bytes) \<Rightarrow> (u32 \<Rightarrow> bytes) \<Rightarrow> bytes \<Rightarrow> (u32 \<Rightarrow> str option) \<Rightarrow> (bytes \<Rightarrow> bytes option) \<Rightarrow> bool" where
  "dict_repr fwd rv ctr L tab \<longleftrightarrow>
     (\<forall>name b. tab (fwd name) = Some b \<longleftrightarrow> (\<exists>i. b = be32 i \<and> L i = Some name)) \<and>
     (\<forall>i. tab (rv i) = L i) \<and>
     (\<forall>i name. L i = Some name \<longrightarrow> utf8_ok name) \<and>
     (\<exists>c. tab ctr = Some (be64 c) \<and> (\<forall>i name. L i = Some name \<longrightarrow> ucast i < c))"

text \<open>Two ids never stand for the same name.\<close>

definition name_inj :: "(u32 \<Rightarrow> str option) \<Rightarrow> bool" where
  "name_inj L \<longleftrightarrow> (\<forall>i j x. L i = Some x \<longrightarrow> L j = Some x \<longrightarrow> i = j)"

lemma name_injD: "name_inj L \<Longrightarrow> L i = Some x \<Longrightarrow> L j = Some x \<Longrightarrow> i = j"
  by (auto simp: name_inj_def)

abbreviation label_dict :: "(u32 \<Rightarrow> str option) \<Rightarrow> (bytes \<Rightarrow> bytes option) \<Rightarrow> bool" where
  "label_dict \<equiv> dict_repr dict_label_key dict_label_rev_key META_NEXT_LABEL_ID"

abbreviation type_dict :: "(u32 \<Rightarrow> str option) \<Rightarrow> (bytes \<Rightarrow> bytes option) \<Rightarrow> bool" where
  "type_dict \<equiv> dict_repr dict_edge_type_key dict_edge_type_rev_key META_NEXT_EDGE_TYPE_ID"

definition ids_repr :: "bytes \<Rightarrow> ((plane_id \<times> u64) \<Rightarrow> 'a option) \<Rightarrow> (bytes \<Rightarrow> bytes option) \<Rightarrow> bool" where
  "ids_repr ctr N tab \<longleftrightarrow>
     (\<exists>c. tab ctr = Some (be64 c) \<and> (\<forall>p n. (p, n) \<in> dom N \<longrightarrow> n < c))"

text \<open>
  A record table: the rows are exactly the keys of the map, and each row decodes to its value.
\<close>

definition rows_repr ::
    "(plane_id \<Rightarrow> u64 \<Rightarrow> bytes) \<Rightarrow> (bytes \<Rightarrow> 'r \<Rightarrow> bool) \<Rightarrow> ((plane_id \<times> u64) \<Rightarrow> 'r option) \<Rightarrow>
     (bytes \<Rightarrow> bytes option) \<Rightarrow> bool" where
  "rows_repr key R N tab \<longleftrightarrow>
     (\<forall>k. tab k \<noteq> None \<longrightarrow> (\<exists>p n. k = key p n)) \<and>
     (\<forall>p n. rel_option R (tab (key p n)) (N (p, n)))"

definition node_row :: "postcard \<Rightarrow> (u32 \<Rightarrow> str option) \<Rightarrow> bytes \<Rightarrow> anode \<Rightarrow> bool" where
  "node_row pc L b r \<longleftrightarrow>
     (case r of (ek, ls, ps) \<Rightarrow>
        str_opt_ok ek \<and> props_ok ps \<and>
        (\<exists>lids. decode_node_record pc b = Inr (ek, lids, ps) \<and> map L lids = map Some ls))"

definition edge_row :: "postcard \<Rightarrow> (u32 \<Rightarrow> str option) \<Rightarrow> bytes \<Rightarrow> aedge \<Rightarrow> bool" where
  "edge_row pc T b r \<longleftrightarrow>
     (case r of (s, d, ty, ps) \<Rightarrow>
        props_ok ps \<and> (\<exists>y. decode_edge_record pc b = Inr (s, d, y, ps) \<and> T y = Some ty))"

abbreviation nodes_repr ::
    "postcard \<Rightarrow> (u32 \<Rightarrow> str option) \<Rightarrow> ((plane_id \<times> node_id) \<Rightarrow> anode option) \<Rightarrow>
     (bytes \<Rightarrow> bytes option) \<Rightarrow> bool" where
  "nodes_repr pc L \<equiv> rows_repr node_key (node_row pc L)"

abbreviation edges_repr ::
    "postcard \<Rightarrow> (u32 \<Rightarrow> str option) \<Rightarrow> ((plane_id \<times> edge_id) \<Rightarrow> aedge option) \<Rightarrow>
     (bytes \<Rightarrow> bytes option) \<Rightarrow> bool" where
  "edges_repr pc T \<equiv> rows_repr edge_key (edge_row pc T)"

definition np_repr :: "((plane_id \<times> node_id) \<Rightarrow> anode option) \<Rightarrow> (bytes \<Rightarrow> bytes option) \<Rightarrow> bool" where
  "np_repr N tab \<longleftrightarrow>
     (\<forall>k b. tab k = Some b \<longleftrightarrow> (\<exists>p n. k = node_plane_key n \<and> b = be32 p \<and> (p, n) \<in> dom N))"

definition li_repr ::
    "(u32 \<Rightarrow> str option) \<Rightarrow> ((plane_id \<times> node_id) \<Rightarrow> anode option) \<Rightarrow> (bytes \<Rightarrow> bytes option) \<Rightarrow> bool" where
  "li_repr L N tab \<longleftrightarrow>
     (\<forall>k b. tab k = Some b \<longleftrightarrow> b = [] \<and>
        (\<exists>p l n name. k = label_idx_key p l n \<and> L l = Some name \<and> has_label N p n name))"

definition xk_repr :: "((plane_id \<times> node_id) \<Rightarrow> anode option) \<Rightarrow> (bytes \<Rightarrow> bytes option) \<Rightarrow> bool" where
  "xk_repr N tab \<longleftrightarrow>
     (\<forall>k b. tab k = Some b \<longleftrightarrow>
        (\<exists>p key n. k = ext_key_key p key \<and> b = be64 n \<and> has_key N p n key))"

definition adj_row ::
    "(node_id \<times> node_id \<Rightarrow> node_id \<times> node_id) \<Rightarrow> (u32 \<Rightarrow> str option) \<Rightarrow>
     ((plane_id \<times> edge_id) \<Rightarrow> aedge option) \<Rightarrow> bytes \<Rightarrow> bool" where
  "adj_row flip T E k \<longleftrightarrow>
     (\<exists>p e s d y ty. k = adj_key p (fst (flip (s, d))) y (snd (flip (s, d))) e \<and>
        T y = Some ty \<and> has_edge E p e s d ty)"

definition adj_repr ::
    "(node_id \<times> node_id \<Rightarrow> node_id \<times> node_id) \<Rightarrow> (u32 \<Rightarrow> str option) \<Rightarrow>
     ((plane_id \<times> edge_id) \<Rightarrow> aedge option) \<Rightarrow> (bytes \<Rightarrow> bytes option) \<Rightarrow> bool" where
  "adj_repr flip T E tab \<longleftrightarrow> (\<forall>k b. tab k = Some b \<longleftrightarrow> b = [] \<and> adj_row flip T E k)"

definition keep_ends :: "node_id \<times> node_id \<Rightarrow> node_id \<times> node_id" where
  "keep_ends x = x"

definition swap_ends :: "node_id \<times> node_id \<Rightarrow> node_id \<times> node_id" where
  "swap_ends x = (snd x, fst x)"

lemma ends_simps [simp]: "keep_ends (s, d) = (s, d)" "swap_ends (s, d) = (d, s)"
  by (simp_all add: keep_ends_def swap_ends_def)

definition reprD ::
    "postcard \<Rightarrow> (u32 \<Rightarrow> str option) \<Rightarrow> (u32 \<Rightarrow> str option) \<Rightarrow> agraph \<Rightarrow> kv \<Rightarrow> bool" where
  "reprD pc L T G m \<longleftrightarrow>
     label_dict L (m Meta) \<and> type_dict T (m Meta) \<and>
     ids_repr META_NEXT_NODE_ID (ag_node G) (m Meta) \<and>
     ids_repr META_NEXT_EDGE_ID (ag_edge G) (m Meta) \<and>
     nodes_repr pc L (ag_node G) (m Nodes) \<and>
     edges_repr pc T (ag_edge G) (m Edges) \<and>
     np_repr (ag_node G) (m NodePlane) \<and>
     li_repr L (ag_node G) (m LabelIdx) \<and>
     xk_repr (ag_node G) (m ExtKeys) \<and>
     adj_repr keep_ends T (ag_edge G) (m AdjFwd) \<and>
     adj_repr swap_ends T (ag_edge G) (m AdjRev)"

definition repr :: "postcard \<Rightarrow> agraph \<Rightarrow> kv \<Rightarrow> bool" where
  "repr pc G m \<longleftrightarrow> (\<exists>L T. reprD pc L T G m)"

lemma reprD_D:
  assumes "reprD pc L T G m"
  shows "label_dict L (m Meta)" "type_dict T (m Meta)"
    "ids_repr META_NEXT_NODE_ID (ag_node G) (m Meta)"
    "ids_repr META_NEXT_EDGE_ID (ag_edge G) (m Meta)"
    "nodes_repr pc L (ag_node G) (m Nodes)" "edges_repr pc T (ag_edge G) (m Edges)"
    "np_repr (ag_node G) (m NodePlane)" "li_repr L (ag_node G) (m LabelIdx)"
    "xk_repr (ag_node G) (m ExtKeys)"
    "adj_repr keep_ends T (ag_edge G) (m AdjFwd)" "adj_repr swap_ends T (ag_edge G) (m AdjRev)"
  using assms by (simp_all add: reprD_def)

section \<open>Frame rules\<close>

lemma kv_put_same [simp]: "kv_put tb k v m tb = (m tb)(k \<mapsto> v)"
  by (simp add: kv_put_def)

lemma kv_put_other [simp]: "tb' \<noteq> tb \<Longrightarrow> kv_put tb k v m tb' = m tb'"
  by (simp add: kv_put_def)

lemma kv_del_same [simp]: "kv_del tb k m tb = (m tb)(k := None)"
  by (simp add: kv_del_def)

lemma kv_del_other [simp]: "tb' \<noteq> tb \<Longrightarrow> kv_del tb k m tb' = m tb'"
  by (simp add: kv_del_def)

lemma kv_puts_other [simp]: "tb' \<noteq> tb \<Longrightarrow> kv_puts tb xs m tb' = m tb'"
  by (induction xs arbitrary: m) auto

lemma kv_puts_same: "kv_puts tb xs m tb = m tb ++ map_of (rev xs)"
  by (rule ext) (simp add: kv_puts_apply map_add_def)

lemma kv_dels_other [simp]: "tb' \<noteq> tb \<Longrightarrow> kv_dels tb ks m tb' = m tb'"
  by (induction ks arbitrary: m) auto

lemma kv_dels_same: "kv_dels tb ks m tb = (\<lambda>k. if k \<in> set ks then None else m tb k)"
  by (rule ext) (simp add: kv_dels_apply)

section \<open>Keys of the meta table are apart\<close>

lemmas meta_key_defs =
  META_MAGIC_def META_FORMAT_VERSION_def META_NEXT_NODE_ID_def META_NEXT_EDGE_ID_def
  META_NEXT_PLANE_ID_def META_NEXT_LABEL_ID_def META_NEXT_EDGE_TYPE_ID_def META_COMMIT_SEQ_def
  META_COMMIT_TIME_def dict_label_key_def dict_label_rev_key_def dict_edge_type_key_def
  dict_edge_type_rev_key_def history_key_def HISTORY_PREFIX_def vindex_decl_key_def
  kindex_decl_key_def VINDEX_PREFIX_def KINDEX_PREFIX_def counters_key_def bstr_def

lemma dict_keys_apart [simp]:
  "dict_label_key a = dict_label_key b \<longleftrightarrow> a = b"
  "dict_edge_type_key a = dict_edge_type_key b \<longleftrightarrow> a = b"
  "dict_label_rev_key i = dict_label_rev_key j \<longleftrightarrow> i = j"
  "dict_edge_type_rev_key i = dict_edge_type_rev_key j \<longleftrightarrow> i = j"
  "dict_label_key a \<noteq> dict_label_rev_key j" "dict_label_rev_key j \<noteq> dict_label_key a"
  "dict_label_key a \<noteq> dict_edge_type_key b" "dict_edge_type_key b \<noteq> dict_label_key a"
  "dict_label_key a \<noteq> dict_edge_type_rev_key j" "dict_edge_type_rev_key j \<noteq> dict_label_key a"
  "dict_label_rev_key i \<noteq> dict_edge_type_key b" "dict_edge_type_key b \<noteq> dict_label_rev_key i"
  "dict_label_rev_key i \<noteq> dict_edge_type_rev_key j" "dict_edge_type_rev_key j \<noteq> dict_label_rev_key i"
  "dict_edge_type_key a \<noteq> dict_edge_type_rev_key j" "dict_edge_type_rev_key j \<noteq> dict_edge_type_key a"
  by (simp_all add: meta_key_defs)

lemma counter_keys_apart [simp]:
  "META_NEXT_NODE_ID \<noteq> META_NEXT_EDGE_ID" "META_NEXT_EDGE_ID \<noteq> META_NEXT_NODE_ID"
  "META_NEXT_NODE_ID \<noteq> META_NEXT_LABEL_ID" "META_NEXT_LABEL_ID \<noteq> META_NEXT_NODE_ID"
  "META_NEXT_NODE_ID \<noteq> META_NEXT_EDGE_TYPE_ID" "META_NEXT_EDGE_TYPE_ID \<noteq> META_NEXT_NODE_ID"
  "META_NEXT_EDGE_ID \<noteq> META_NEXT_LABEL_ID" "META_NEXT_LABEL_ID \<noteq> META_NEXT_EDGE_ID"
  "META_NEXT_EDGE_ID \<noteq> META_NEXT_EDGE_TYPE_ID" "META_NEXT_EDGE_TYPE_ID \<noteq> META_NEXT_EDGE_ID"
  "META_NEXT_LABEL_ID \<noteq> META_NEXT_EDGE_TYPE_ID" "META_NEXT_EDGE_TYPE_ID \<noteq> META_NEXT_LABEL_ID"
  by (simp_all add: meta_key_defs)

lemma dict_counter_keys_apart [simp]:
  "dict_label_key a \<noteq> META_NEXT_NODE_ID" "dict_label_key a \<noteq> META_NEXT_EDGE_ID"
  "dict_label_key a \<noteq> META_NEXT_LABEL_ID" "dict_label_key a \<noteq> META_NEXT_EDGE_TYPE_ID"
  "dict_label_rev_key i \<noteq> META_NEXT_NODE_ID" "dict_label_rev_key i \<noteq> META_NEXT_EDGE_ID"
  "dict_label_rev_key i \<noteq> META_NEXT_LABEL_ID" "dict_label_rev_key i \<noteq> META_NEXT_EDGE_TYPE_ID"
  "dict_edge_type_key a \<noteq> META_NEXT_NODE_ID" "dict_edge_type_key a \<noteq> META_NEXT_EDGE_ID"
  "dict_edge_type_key a \<noteq> META_NEXT_LABEL_ID" "dict_edge_type_key a \<noteq> META_NEXT_EDGE_TYPE_ID"
  "dict_edge_type_rev_key i \<noteq> META_NEXT_NODE_ID" "dict_edge_type_rev_key i \<noteq> META_NEXT_EDGE_ID"
  "dict_edge_type_rev_key i \<noteq> META_NEXT_LABEL_ID"
  "dict_edge_type_rev_key i \<noteq> META_NEXT_EDGE_TYPE_ID"
  by (simp_all add: meta_key_defs)

lemmas counter_dict_keys_apart [simp] = dict_counter_keys_apart [symmetric]

section \<open>Dictionaries\<close>

lemma dict_reprD:
  assumes "dict_repr fwd rv ctr L tab"
  shows "tab (fwd name) = Some b \<longleftrightarrow> (\<exists>i. b = be32 i \<and> L i = Some name)"
    and "tab (rv i) = L i"
    and "L i = Some name \<Longrightarrow> utf8_ok name"
    and "\<exists>c. tab ctr = Some (be64 c) \<and> (\<forall>i name. L i = Some name \<longrightarrow> ucast i < c)"
  using assms unfolding dict_repr_def by blast+

lemma dict_repr_inj:
  assumes "dict_repr fwd rv ctr L tab" "L i = Some name" "L j = Some name"
  shows "i = j"
proof -
  from assms have "tab (fwd name) = Some (be32 i)" "tab (fwd name) = Some (be32 j)"
    by (auto simp: dict_reprD(1) [OF assms(1)])
  then show ?thesis by simp
qed

lemma dict_repr_name_inj: "dict_repr fwd rv ctr L tab \<Longrightarrow> name_inj L"
  by (auto simp: name_inj_def intro: dict_repr_inj)

lemma dict_repr_absent:
  assumes "dict_repr fwd rv ctr L tab" "tab (fwd name) = None"
  shows "L i \<noteq> Some name"
  using assms(2) dict_reprD(1) [OF assms(1), of name "be32 i"] by auto

lemma dict_repr_other:
  assumes "dict_repr fwd rv ctr L tab"
    "\<And>name. k \<noteq> fwd name" "\<And>i. k \<noteq> rv i" "k \<noteq> ctr"
  shows "dict_repr fwd rv ctr L (tab(k := v))"
proof -
  have "fwd name \<noteq> k" "rv i \<noteq> k" "ctr \<noteq> k" for name i using assms(2-) by metis+
  with assms(1) show ?thesis unfolding dict_repr_def by simp
qed

lemma dict_repr_bump:
  assumes "dict_repr fwd rv ctr L tab" "tab ctr = Some (be64 c)" "c \<noteq> - 1"
    "\<And>name. fwd name \<noteq> ctr" "\<And>i. rv i \<noteq> ctr"
  shows "dict_repr fwd rv ctr L (tab(ctr \<mapsto> be64 (c + 1)))"
proof -
  have "ucast i < c + 1" if "L i = Some name" for i name
  proof -
    have "ucast i < c" using dict_reprD(4) [OF assms(1)] assms(2) that by auto
    also have "c < c + 1" using assms(3) by (rule word_self_less_succ)
    finally show ?thesis .
  qed
  with assms show ?thesis unfolding dict_repr_def by auto
qed

lemma dict_repr_add:
  assumes r: "dict_repr fwd rv ctr L tab" and c: "tab ctr = Some (be64 c)" "c \<noteq> - 1"
    and i: "u32_try_from c = Some i"
    and new: "tab (fwd name) = None" and utf: "utf8_ok name"
    and inj: "\<And>a b. fwd a = fwd b \<longleftrightarrow> a = b" "\<And>a b. rv a = rv b \<longleftrightarrow> a = b"
    and apart: "\<And>a. fwd a \<noteq> ctr" "\<And>a. rv a \<noteq> ctr" "\<And>a b. fwd a \<noteq> rv b"
  shows "dict_repr fwd rv ctr (L(i \<mapsto> name))
           (tab(ctr \<mapsto> be64 (c + 1), fwd name \<mapsto> be32 i, rv i \<mapsto> name))"
    and "L i = None"
proof -
  have ic: "ucast i = c" by (rule u32_try_from_ucast [OF i])
  have below: "L j = Some nm \<Longrightarrow> ucast j < c" for j nm
    using dict_reprD(4) [OF r] c(1) by auto
  then show fresh: "L i = None" using ic by fastforce
  have no_name: "L j \<noteq> Some name" for j by (rule dict_repr_absent [OF r new])
  have lt: "ucast j < c + 1" if "(L(i \<mapsto> name)) j = Some nm" for j nm
    using that below [of j nm] ic word_self_less_succ [OF c(2)]
    by (auto split: if_splits)
  have apart': "ctr \<noteq> fwd a" "ctr \<noteq> rv b" "rv b \<noteq> fwd a" for a b using apart by metis+
  let ?tab = "tab(ctr \<mapsto> be64 (c + 1), fwd name \<mapsto> be32 i, rv i \<mapsto> name)"
  have f: "?tab (fwd nm) = Some b \<longleftrightarrow> (\<exists>j. b = be32 j \<and> (L(i \<mapsto> name)) j = Some nm)" for nm b
    using dict_reprD(1) [OF r, of nm b] no_name fresh
    by (auto simp: inj apart apart') (metis option.distinct(1))
  show "dict_repr fwd rv ctr (L(i \<mapsto> name)) ?tab"
    unfolding dict_repr_def
    using f lt dict_reprD(2,3) [OF r] utf
    by (auto simp: inj apart apart')
qed

section \<open>Record tables\<close>

lemma rows_repr_rel: "rows_repr key R N tab \<Longrightarrow> rel_option R (tab (key p n)) (N (p, n))"
  by (simp add: rows_repr_def)

lemma rows_repr_key: "rows_repr key R N tab \<Longrightarrow> tab k = Some b \<Longrightarrow> \<exists>p n. k = key p n"
  by (auto simp: rows_repr_def)

lemma rows_repr_None: "rows_repr key R N tab \<Longrightarrow> tab (key p n) = None \<longleftrightarrow> N (p, n) = None"
  using rows_repr_rel [of key R N tab p n] by (auto simp: option_rel_Some1 option_rel_Some2)

lemma rows_repr_Some:
  assumes "rows_repr key R N tab" "tab (key p n) = Some b"
  obtains r where "N (p, n) = Some r" "R b r"
  using rows_repr_rel [OF assms(1), of p n] assms(2) by (auto simp: option_rel_Some1)

lemma rows_repr_row:
  assumes "rows_repr key R N tab" "N (p, n) = Some r"
  obtains b where "tab (key p n) = Some b" "R b r"
  using rows_repr_rel [OF assms(1), of p n] assms(2) by (auto simp: option_rel_Some2)

lemma rows_repr_put:
  assumes "rows_repr key R N tab" "R b r" "\<And>p n p' n'. key p n = key p' n' \<longleftrightarrow> p = p' \<and> n = n'"
  shows "rows_repr key R (N((p, n) \<mapsto> r)) (tab(key p n \<mapsto> b))"
  using assms unfolding rows_repr_def by auto

lemma rows_repr_del:
  assumes "rows_repr key R N tab" "\<And>p n p' n'. key p n = key p' n' \<longleftrightarrow> p = p' \<and> n = n'"
  shows "rows_repr key R (N((p, n) := None)) (tab(key p n := None))"
  using assms unfolding rows_repr_def by auto

lemma rows_repr_mono:
  "rows_repr key R N tab \<Longrightarrow> (\<And>b r. R b r \<Longrightarrow> R' b r) \<Longrightarrow> rows_repr key R' N tab"
  unfolding rows_repr_def by (meson option.rel_mono_strong)

lemma map_le_map:
  assumes "map L xs = map Some ys" "L \<subseteq>\<^sub>m L'"
  shows "map L' xs = map Some ys"
proof -
  have "L' x = L x" if "x \<in> set xs" for x
  proof -
    from that assms(1) have "L x \<in> Some ` set ys" by (metis image_eqI list.set_map)
    then show ?thesis using assms(2) by (auto simp: map_le_def dom_def)
  qed
  with assms(1) show ?thesis by (metis map_eq_conv)
qed

lemma nodes_repr_mono: "nodes_repr pc L N tab \<Longrightarrow> L \<subseteq>\<^sub>m L' \<Longrightarrow> nodes_repr pc L' N tab"
  by (erule rows_repr_mono) (auto simp: node_row_def intro: map_le_map)

lemma edges_repr_mono: "edges_repr pc T E tab \<Longrightarrow> T \<subseteq>\<^sub>m T' \<Longrightarrow> edges_repr pc T' E tab"
  by (erule rows_repr_mono) (fastforce simp: edge_row_def map_le_def dom_def)

lemma node_row_encode:
  "postcard_ok pc \<Longrightarrow> str_opt_ok ek \<Longrightarrow> props_ok ps \<Longrightarrow> map L lids = map Some ls \<Longrightarrow>
   node_row pc L (encode_node_record pc ek lids ps) (ek, ls, ps)"
  by (simp add: node_row_def)

lemma edge_row_encode:
  "postcard_ok pc \<Longrightarrow> props_ok ps \<Longrightarrow> T y = Some ty \<Longrightarrow>
   edge_row pc T (encode_edge_record pc s d y ps) (s, d, ty, ps)"
  by (simp add: edge_row_def)

lemma nodes_repr_names:
  assumes "nodes_repr pc L N tab" "N (p, n) = Some (ek, ls, ps)" "name \<in> set ls"
  shows "\<exists>i. L i = Some name"
proof -
  obtain b where "node_row pc L b (ek, ls, ps)" by (rule rows_repr_row [OF assms(1,2)])
  then obtain lids where "map L lids = map Some ls" by (auto simp: node_row_def)
  with assms(3) have "Some name \<in> set (map L lids)" by simp
  then show ?thesis by force
qed

lemma edges_repr_type:
  assumes "edges_repr pc T E tab" "E (p, e) = Some (s, d, ty, ps)"
  shows "\<exists>y. T y = Some ty"
  by (rule rows_repr_row [OF assms]) (auto simp: edge_row_def)

section \<open>Index tables\<close>

lemma has_simps [simp]:
  "has_label (N((p, n) \<mapsto> (ek, ls, ps))) p' n' name \<longleftrightarrow>
     (if p' = p \<and> n' = n then name \<in> set ls else has_label N p' n' name)"
  "has_label (N((p, n) := None)) p' n' name \<longleftrightarrow> \<not> (p' = p \<and> n' = n) \<and> has_label N p' n' name"
  "has_key (N((p, n) \<mapsto> (ek, ls, ps))) p' n' key \<longleftrightarrow>
     (if p' = p \<and> n' = n then ek = Some key else has_key N p' n' key)"
  "has_key (N((p, n) := None)) p' n' key \<longleftrightarrow> \<not> (p' = p \<and> n' = n) \<and> has_key N p' n' key"
  "has_edge (E((p, e) \<mapsto> (s, d, ty, ps))) p' e' s' d' ty' \<longleftrightarrow>
     (if p' = p \<and> e' = e then s' = s \<and> d' = d \<and> ty' = ty else has_edge E p' e' s' d' ty')"
  "has_edge (E((p, e) := None)) p' e' s' d' ty' \<longleftrightarrow>
     \<not> (p' = p \<and> e' = e) \<and> has_edge E p' e' s' d' ty'"
  by (auto simp: has_label_def has_key_def has_edge_def)

lemma has_imp_dom:
  "has_label N p n name \<Longrightarrow> (p, n) \<in> dom N"
  "has_key N p n key \<Longrightarrow> (p, n) \<in> dom N"
  "has_edge E p e s d ty \<Longrightarrow> (p, e) \<in> dom E"
  by (auto simp: has_label_def has_key_def has_edge_def split: option.splits)

lemma has_edge_unique:
  "has_edge E p e s d ty \<Longrightarrow> has_edge E p e s' d' ty' \<Longrightarrow> s = s' \<and> d = d' \<and> ty = ty'"
  by (auto simp: has_edge_def split: option.splits)

lemma np_repr_put:
  assumes "np_repr N tab" "\<And>q. q \<noteq> p \<Longrightarrow> (q, n) \<notin> dom N"
  shows "np_repr (N((p, n) \<mapsto> r)) (tab(node_plane_key n \<mapsto> be32 p))"
  using assms unfolding np_repr_def dom_fun_upd by (auto intro: domI) (metis domI)

lemma np_repr_update:
  assumes "np_repr N tab" "(p, n) \<in> dom N"
  shows "np_repr (N((p, n) \<mapsto> r)) tab"
  using assms by (simp add: np_repr_def insert_absorb)

lemma np_repr_unique:
  assumes "np_repr N tab" "(p, n) \<in> dom N" "(q, n) \<in> dom N"
  shows "p = q"
proof -
  from assms have "tab (node_plane_key n) = Some (be32 p)" "tab (node_plane_key n) = Some (be32 q)"
    unfolding np_repr_def by blast+
  then show ?thesis by simp
qed

lemma np_repr_del:
  assumes "np_repr N tab" "(p, n) \<in> dom N"
  shows "np_repr (N((p, n) := None)) (tab(node_plane_key n := None))"
  using assms(1) np_repr_unique [OF assms] unfolding np_repr_def dom_fun_upd by auto

lemma map_Some_mem:
  assumes "map L lids = map Some ls" "name_inj L" "L l = Some name"
  shows "l \<in> set lids \<longleftrightarrow> name \<in> set ls"
proof
  assume "l \<in> set lids"
  then have "L l \<in> set (map L lids)" by simp
  with assms(1,3) show "name \<in> set ls" by auto
next
  assume "name \<in> set ls"
  then have "Some name \<in> set (map L lids)" using assms(1) by simp
  then obtain j where "j \<in> set lids" "L j = Some name" by auto
  with name_injD [OF assms(2,3)] show "l \<in> set lids" by auto
qed

lemma li_rows_put:
  "(tab ++ map_of (rev (map (\<lambda>l. (label_idx_key p l n, [])) lids))) k = Some b \<longleftrightarrow>
     (if k \<in> (\<lambda>l. label_idx_key p l n) ` set lids then b = [] else tab k = Some b)"
  by (auto simp: map_add_def rev_map map_of_const)

lemma li_repr_relabel:
  assumes "li_repr L N tab" "map L old = map Some ols" "map L new = map Some nls"
    and rec: "N (p, n) = Some (ek, ols, ps) \<or> old = [] \<and> (p, n) \<notin> dom N"
    and inj: "name_inj L"
  shows "li_repr L (N((p, n) \<mapsto> (ek', nls, ps')))
           ((\<lambda>k. if k \<in> set (map (\<lambda>l. label_idx_key p l n) old) then None else tab k) ++
            map_of (rev (map (\<lambda>l. (label_idx_key p l n, [])) new)))"
proof -
  have new: "L l = Some x \<Longrightarrow> l \<in> set new \<longleftrightarrow> x \<in> set nls" for l x
    by (rule map_Some_mem [OF assms(3)]) (auto intro: inj)
  have old: "L l = Some x \<Longrightarrow> l \<in> set old \<longleftrightarrow> x \<in> set ols" for l x
    by (rule map_Some_mem [OF assms(2)]) (auto intro: inj)
  have newL: "l \<in> set new \<Longrightarrow> \<exists>x. L l = Some x" for l
    using assms(3) by (metis imageE image_eqI list.set_map)
  have had: "has_label N p n x \<Longrightarrow> L l = Some x \<Longrightarrow> l \<in> set old" for l x
    using rec old [of l x] by (auto simp: has_label_def domIff split: option.splits)
  have row: "tab k = Some b \<longleftrightarrow> b = [] \<and>
      (\<exists>p l n name. k = label_idx_key p l n \<and> L l = Some name \<and> has_label N p n name)" for k b
    using assms(1) by (simp add: li_repr_def)
  show ?thesis
    unfolding li_repr_def li_rows_put
  proof (intro allI)
    fix k b
    show "(if k \<in> (\<lambda>l. label_idx_key p l n) ` set new then b = []
        else (if k \<in> set (map (\<lambda>l. label_idx_key p l n) old) then None else tab k) = Some b) \<longleftrightarrow>
      b = [] \<and> (\<exists>p' l n' name. k = label_idx_key p' l n' \<and> L l = Some name \<and>
        has_label (N((p, n) \<mapsto> (ek', nls, ps'))) p' n' name)"
    proof (cases "\<exists>l. k = label_idx_key p l n")
      case True
      then obtain l where k: "k = label_idx_key p l n" by blast
      have "tab k \<noteq> Some b" if "l \<notin> set old" using that had row k by auto
      then show ?thesis using newL [of l] new [of l] by (auto simp: k)
    next
      case False
      then show ?thesis using row [of k b] by auto
    qed
  qed
qed

lemma li_repr_mono:
  assumes "li_repr L N tab" "L \<subseteq>\<^sub>m L'" "name_inj L'"
    and names: "\<And>p n x. has_label N p n x \<Longrightarrow> \<exists>i. L i = Some x"
  shows "li_repr L' N tab"
proof -
  have "L l = Some x \<longleftrightarrow> L' l = Some x" if lab: "has_label N p n x" for p n l x
  proof
    show "L l = Some x \<Longrightarrow> L' l = Some x"
      using assms(2) by (metis domI map_le_def)
    assume l: "L' l = Some x"
    obtain i where i: "L i = Some x" using names [OF lab] by blast
    then have "L' i = Some x" using assms(2) by (metis domI map_le_def)
    with name_injD [OF assms(3) l] i show "L l = Some x" by blast
  qed
  then have "L l = Some x \<and> has_label N p n x \<longleftrightarrow> L' l = Some x \<and> has_label N p n x" for p n l x
    by blast
  with assms(1) show ?thesis unfolding li_repr_def by simp
qed

lemma li_repr_del:
  assumes "li_repr L N tab" "map L old = map Some ols" "N (p, n) = Some (ek, ols, ps)"
    and inj: "name_inj L"
  shows "li_repr L (N((p, n) := None))
           (\<lambda>k. if k \<in> set (map (\<lambda>l. label_idx_key p l n) old) then None else tab k)"
proof -
  have old: "L l = Some x \<Longrightarrow> l \<in> set old \<longleftrightarrow> x \<in> set ols" for l x
    by (rule map_Some_mem [OF assms(2)]) (auto intro: inj)
  have row: "tab k = Some b \<longleftrightarrow> b = [] \<and>
      (\<exists>p l n name. k = label_idx_key p l n \<and> L l = Some name \<and> has_label N p n name)" for k b
    using assms(1) by (simp add: li_repr_def)
  have had: "has_label N p n x \<Longrightarrow> x \<in> set ols" for x
    using assms(3) by (auto simp: has_label_def)
  show ?thesis unfolding li_repr_def using row old had by (auto 0 3)
qed

lemma li_repr_same:
  assumes "li_repr L N tab" "N (p, n) = Some (ek, ls, ps)"
  shows "li_repr L (N((p, n) \<mapsto> (ek, ls, ps'))) tab"
proof -
  have "has_label (N((p, n) \<mapsto> (ek, ls, ps'))) = has_label N"
    using assms(2) by (auto simp: fun_eq_iff has_label_def)
  with assms(1) show ?thesis unfolding li_repr_def by simp
qed

lemma xk_repr_has:
  assumes "xk_repr N tab"
  shows "tab (ext_key_key p key) = Some b \<longleftrightarrow> (\<exists>n. b = be64 n \<and> has_key N p n key)"
  using assms unfolding xk_repr_def by auto

lemma xk_repr_keep:
  assumes "xk_repr N tab" "\<And>key. has_key N p n key \<longleftrightarrow> ek = Some key"
  shows "xk_repr (N((p, n) \<mapsto> (ek, ls, ps))) tab"
proof -
  have "has_key (N((p, n) \<mapsto> (ek, ls, ps))) = has_key N"
    using assms(2) by (auto simp: fun_eq_iff)
  with assms(1) show ?thesis unfolding xk_repr_def by simp
qed

lemma xk_repr_put:
  assumes "xk_repr N tab" "tab (ext_key_key p key) = None" "(p, n) \<notin> dom N"
  shows "xk_repr (N((p, n) \<mapsto> (Some key, ls, ps))) (tab(ext_key_key p key \<mapsto> be64 n))"
proof -
  have no: "\<not> has_key N p m key" for m using xk_repr_has [OF assms(1), of p key] assms(2) by auto
  have no': "\<not> has_key N p n key'" for key' using assms(3) has_imp_dom(2) by blast
  have row: "tab k = Some b \<longleftrightarrow> (\<exists>p key n. k = ext_key_key p key \<and> b = be64 n \<and> has_key N p n key)"
    for k b using assms(1) by (simp add: xk_repr_def)
  have upd: "has_key (N((p, n) \<mapsto> (Some key, ls, ps))) p' n' key' \<longleftrightarrow>
      (p' = p \<and> n' = n \<and> key' = key) \<or> has_key N p' n' key'" for p' n' key'
    using no' by auto
  have "(tab(ext_key_key p key \<mapsto> be64 n)) k = Some b \<longleftrightarrow>
      (k = ext_key_key p key \<and> b = be64 n) \<or> tab k = Some b" for k b
    using assms(2) by auto
  then show ?thesis unfolding xk_repr_def upd row by blast
qed

lemma xk_repr_del:
  assumes "xk_repr N tab" "N (p, n) = Some (Some key, ls, ps)"
  shows "xk_repr (N((p, n) := None)) (tab(ext_key_key p key := None))"
proof -
  have own: "has_key N p n key' \<longleftrightarrow> key' = key" for key' using assms(2) by (auto simp: has_key_def)
  have row: "tab k = Some b \<longleftrightarrow> (\<exists>p key n. k = ext_key_key p key \<and> b = be64 n \<and> has_key N p n key)"
    for k b using assms(1) by (simp add: xk_repr_def)
  have "tab (ext_key_key p key) = Some (be64 n)" using row own by auto
  then have uniq: "has_key N p m key \<Longrightarrow> m = n" for m
    using xk_repr_has [OF assms(1), of p key "be64 m"] by auto
  show ?thesis unfolding xk_repr_def
  proof (intro allI)
    fix k b
    show "(tab(ext_key_key p key := None)) k = Some b \<longleftrightarrow>
      (\<exists>p' key' n'. k = ext_key_key p' key' \<and> b = be64 n' \<and> has_key (N((p, n) := None)) p' n' key')"
      using row [of k b] own uniq by (cases "k = ext_key_key p key") auto
  qed
qed

lemma xk_repr_del_nokey:
  assumes "xk_repr N tab" "N (p, n) = Some (None, ls, ps)"
  shows "xk_repr (N((p, n) := None)) tab"
proof -
  have "has_key (N((p, n) := None)) = has_key N"
    using assms(2) by (auto simp: fun_eq_iff has_key_def)
  with assms(1) show ?thesis unfolding xk_repr_def by simp
qed

section \<open>Adjacency tables\<close>

abbreviation dir_key :: "(node_id \<times> node_id \<Rightarrow> node_id \<times> node_id) \<Rightarrow> plane_id \<Rightarrow> node_id \<Rightarrow> u32 \<Rightarrow>
    node_id \<Rightarrow> edge_id \<Rightarrow> bytes" where
  "dir_key flip p s y d e \<equiv> adj_key p (fst (flip (s, d))) y (snd (flip (s, d))) e"

lemma adj_repr_mono:
  assumes "adj_repr flip T E tab" "T \<subseteq>\<^sub>m T'" "name_inj T'"
    and names: "\<And>p e s d x. has_edge E p e s d x \<Longrightarrow> \<exists>i. T i = Some x"
  shows "adj_repr flip T' E tab"
proof -
  have "T l = Some x \<longleftrightarrow> T' l = Some x" if lab: "has_edge E p e s d x" for p e s d l x
  proof
    show "T l = Some x \<Longrightarrow> T' l = Some x" using assms(2) by (metis domI map_le_def)
    assume l: "T' l = Some x"
    obtain i where i: "T i = Some x" using names [OF lab] by blast
    then have "T' i = Some x" using assms(2) by (metis domI map_le_def)
    with name_injD [OF assms(3) l] i show "T l = Some x" by blast
  qed
  then have "T l = Some x \<and> has_edge E p e s d x \<longleftrightarrow> T' l = Some x \<and> has_edge E p e s d x"
    for p e s d l x by blast
  with assms(1) show ?thesis unfolding adj_repr_def adj_row_def by simp
qed

lemma adj_row_put:
  assumes "(p, e) \<notin> dom E" "T y = Some ty"
    and inj: "name_inj T"
  shows "adj_row flip T (E((p, e) \<mapsto> (s, d, ty, ps))) k \<longleftrightarrow>
    k = dir_key flip p s y d e \<or> adj_row flip T E k" (is "?l \<longleftrightarrow> ?r")
proof
  assume ?l
  then obtain p' e' s' d' y' ty' where *: "k = dir_key flip p' s' y' d' e'" "T y' = Some ty'"
    "has_edge (E((p, e) \<mapsto> (s, d, ty, ps))) p' e' s' d' ty'" unfolding adj_row_def by blast
  show ?r
  proof (cases "p' = p \<and> e' = e")
    case True
    with *(3) have "s' = s" "d' = d" "ty' = ty" by simp_all
    with True * name_injD [OF inj assms(2)] show ?thesis by simp
  next
    case False
    with *(3) have "has_edge E p' e' s' d' ty'" by auto
    with * show ?thesis unfolding adj_row_def by blast
  qed
next
  have no: "\<not> has_edge E p e s' d' ty'" for s' d' ty' using assms(1) has_imp_dom(3) by blast
  assume ?r
  then consider "k = dir_key flip p s y d e" | p' e' s' d' y' ty' where
      "k = dir_key flip p' s' y' d' e'" "T y' = Some ty'" "has_edge E p' e' s' d' ty'"
    unfolding adj_row_def by blast
  then show ?l
  proof cases
    case 1
    with assms(2) show ?thesis unfolding adj_row_def by (intro exI conjI) (assumption+, simp)
  next
    case 2
    then have "has_edge (E((p, e) \<mapsto> (s, d, ty, ps))) p' e' s' d' ty'" using no by auto
    with 2 show ?thesis unfolding adj_row_def by blast
  qed
qed

lemma adj_row_del:
  assumes "E (p, e) = Some (s, d, ty, ps)" "T y = Some ty"
    and inj: "name_inj T"
  shows "adj_row flip T (E((p, e) := None)) k \<longleftrightarrow>
    k \<noteq> dir_key flip p s y d e \<and> adj_row flip T E k" (is "?l \<longleftrightarrow> ?r")
proof
  assume ?l
  then obtain p' e' s' d' y' ty' where *: "k = dir_key flip p' s' y' d' e'" "T y' = Some ty'"
    "has_edge (E((p, e) := None)) p' e' s' d' ty'" unfolding adj_row_def by blast
  then have "\<not> (p' = p \<and> e' = e)" "has_edge E p' e' s' d' ty'" by simp_all
  with * show ?r unfolding adj_row_def by auto
next
  assume r: ?r
  then obtain p' e' s' d' y' ty' where *: "k = dir_key flip p' s' y' d' e'" "T y' = Some ty'"
    "has_edge E p' e' s' d' ty'" unfolding adj_row_def by blast
  have "\<not> (p' = p \<and> e' = e)"
  proof
    assume pe: "p' = p \<and> e' = e"
    with *(3) assms(1) have "s' = s" "d' = d" "ty' = ty" by (auto simp: has_edge_def)
    with pe r *(1) name_injD [OF inj assms(2)] *(2) show False by simp
  qed
  then have "has_edge (E((p, e) := None)) p' e' s' d' ty'" using *(3) by simp
  with * show ?l unfolding adj_row_def by blast
qed

lemma adj_repr_put:
  assumes "adj_repr flip T E tab" "(p, e) \<notin> dom E" "T y = Some ty"
    and inj: "name_inj T"
  shows "adj_repr flip T (E((p, e) \<mapsto> (s, d, ty, ps))) (tab(dir_key flip p s y d e \<mapsto> []))"
  using assms(1) by (auto simp: adj_repr_def adj_row_put [where E = E, OF assms(2,3) inj])

lemma adj_repr_keep:
  assumes "adj_repr flip T E tab" "E (p, e) = Some (s, d, ty, ps)"
  shows "adj_repr flip T (E((p, e) \<mapsto> (s, d, ty, ps'))) tab"
proof -
  have "has_edge (E((p, e) \<mapsto> (s, d, ty, ps'))) = has_edge E"
    using assms(2) by (auto simp: fun_eq_iff has_edge_def)
  with assms(1) show ?thesis unfolding adj_repr_def adj_row_def by simp
qed

lemma adj_repr_del:
  assumes "adj_repr flip T E tab" "E (p, e) = Some (s, d, ty, ps)" "T y = Some ty"
    and inj: "name_inj T"
  shows "adj_repr flip T (E((p, e) := None)) (tab(dir_key flip p s y d e := None))"
  using assms(1) by (auto simp: adj_repr_def adj_row_del [where E = E, OF assms(2,3) inj])

section \<open>Id counters\<close>

lemma ids_reprE:
  assumes "ids_repr ctr N tab"
  obtains c where "tab ctr = Some (be64 c)" "\<And>p n. (p, n) \<in> dom N \<Longrightarrow> n < c"
  using assms unfolding ids_repr_def by blast

lemma ids_repr_other: "ids_repr ctr N tab \<Longrightarrow> k \<noteq> ctr \<Longrightarrow> ids_repr ctr N (tab(k := v))"
  by (simp add: ids_repr_def)

lemma ids_repr_dom: "ids_repr ctr N tab \<Longrightarrow> dom N' \<subseteq> dom N \<Longrightarrow> ids_repr ctr N' tab"
  unfolding ids_repr_def by blast

lemma ids_repr_bump:
  assumes "ids_repr ctr N tab" "tab ctr = Some (be64 c)" "c \<noteq> - 1"
  shows "ids_repr ctr N (tab(ctr \<mapsto> be64 (c + 1)))" "(p, c) \<notin> dom N"
    "ids_repr ctr (N((p, c) \<mapsto> r)) (tab(ctr \<mapsto> be64 (c + 1)))"
proof -
  have lt: "(p, n) \<in> dom N \<Longrightarrow> n < c" for p n
    using assms(1,2) by (auto simp: ids_repr_def)
  have c1: "c < c + 1" using assms(3) by (rule word_self_less_succ)
  have lt': "(p, n) \<in> dom N \<Longrightarrow> n < c + 1" for p n
    using lt c1 by (meson less_trans)
  show "ids_repr ctr N (tab(ctr \<mapsto> be64 (c + 1)))" using lt' by (auto simp: ids_repr_def)
  show "(p, c) \<notin> dom N" using lt by blast
  show "ids_repr ctr (N((p, c) \<mapsto> r)) (tab(ctr \<mapsto> be64 (c + 1)))"
    using lt' c1 by (auto simp: ids_repr_def dom_fun_upd)
qed

end
