(* ===== verification/Graph_Dict.thy ===== *)
theory Graph_Dict
  imports Graph_Spec
begin

text \<open>
  The interning dictionaries. \<open>dict_keys\<close> is what a dictionary needs of its three key families;
  labels and edge types are its two instances. Inside \<open>kv_txn\<close>, interning a name that is known
  changes nothing, and interning a new one adds exactly one entry under a fresh id.
\<close>

section \<open>Key families\<close>

locale dict_keys =
  fixes fwd :: "str \<Rightarrow> bytes" and rv :: "u32 \<Rightarrow> bytes" and ctr :: bytes
  assumes fwd_inj: "fwd a = fwd b \<longleftrightarrow> a = b"
    and rv_inj: "rv i = rv j \<longleftrightarrow> i = j"
    and fwd_ctr: "fwd a \<noteq> ctr"
    and rv_ctr: "rv i \<noteq> ctr"
    and fwd_rv: "fwd a \<noteq> rv i"
begin

lemma repr_bump:
  "dict_repr fwd rv ctr L tab \<Longrightarrow> tab ctr = Some (be64 c) \<Longrightarrow> c \<noteq> - 1 \<Longrightarrow>
   dict_repr fwd rv ctr L (tab(ctr \<mapsto> be64 (c + 1)))"
  by (rule dict_repr_bump) (simp_all add: fwd_ctr rv_ctr)

lemma repr_add:
  assumes "dict_repr fwd rv ctr L tab" "tab ctr = Some (be64 c)" "c \<noteq> - 1"
    "u32_try_from c = Some i" "tab (fwd name) = None" "utf8_ok name"
  shows "dict_repr fwd rv ctr (L(i \<mapsto> name))
           (tab(ctr \<mapsto> be64 (c + 1), fwd name \<mapsto> be32 i, rv i \<mapsto> name))" "L i = None"
  using dict_repr_add [OF assms] fwd_inj rv_inj fwd_ctr rv_ctr fwd_rv by simp_all

end

interpretation label_keys: dict_keys dict_label_key dict_label_rev_key META_NEXT_LABEL_ID
  by unfold_locales simp_all

interpretation type_keys: dict_keys dict_edge_type_key dict_edge_type_rev_key META_NEXT_EDGE_TYPE_ID
  by unfold_locales simp_all

section \<open>What interning may touch\<close>

definition dict_frame ::
    "(str \<Rightarrow> bytes) \<Rightarrow> (u32 \<Rightarrow> bytes) \<Rightarrow> bytes \<Rightarrow> kv \<Rightarrow> kv \<Rightarrow> bool" where
  "dict_frame fwd rv ctr m m' \<longleftrightarrow>
     (\<forall>tb. tb \<noteq> Meta \<longrightarrow> m' tb = m tb) \<and>
     (\<forall>k. k \<notin> range fwd \<and> k \<notin> range rv \<and> k \<noteq> ctr \<longrightarrow> m' Meta k = m Meta k)"

abbreviation label_frame :: "kv \<Rightarrow> kv \<Rightarrow> bool" where
  "label_frame \<equiv> dict_frame dict_label_key dict_label_rev_key META_NEXT_LABEL_ID"

abbreviation type_frame :: "kv \<Rightarrow> kv \<Rightarrow> bool" where
  "type_frame \<equiv> dict_frame dict_edge_type_key dict_edge_type_rev_key META_NEXT_EDGE_TYPE_ID"

lemma dict_frame_refl [simp]: "dict_frame fwd rv ctr m m"
  by (simp add: dict_frame_def)

lemma dict_frame_trans:
  "dict_frame fwd rv ctr m m' \<Longrightarrow> dict_frame fwd rv ctr m' m'' \<Longrightarrow> dict_frame fwd rv ctr m m''"
  by (simp add: dict_frame_def)

lemma dict_frame_table: "dict_frame fwd rv ctr m m' \<Longrightarrow> tb \<noteq> Meta \<Longrightarrow> m' tb = m tb"
  by (simp add: dict_frame_def)

lemma dict_frame_key:
  "dict_frame fwd rv ctr m m' \<Longrightarrow> (\<And>a. fwd a \<noteq> k) \<Longrightarrow> (\<And>i. rv i \<noteq> k) \<Longrightarrow> ctr \<noteq> k \<Longrightarrow>
   m' Meta k = m Meta k"
  unfolding dict_frame_def by (metis imageE)

lemma label_frame_meta:
  "label_frame m m' \<Longrightarrow> m' Meta META_NEXT_NODE_ID = m Meta META_NEXT_NODE_ID"
  "label_frame m m' \<Longrightarrow> m' Meta META_NEXT_EDGE_ID = m Meta META_NEXT_EDGE_ID"
  "label_frame m m' \<Longrightarrow> m' Meta META_NEXT_EDGE_TYPE_ID = m Meta META_NEXT_EDGE_TYPE_ID"
  "label_frame m m' \<Longrightarrow> m' Meta (dict_edge_type_key ty) = m Meta (dict_edge_type_key ty)"
  "label_frame m m' \<Longrightarrow> m' Meta (dict_edge_type_rev_key y) = m Meta (dict_edge_type_rev_key y)"
  by (erule dict_frame_key; simp)+

lemma type_frame_meta:
  "type_frame m m' \<Longrightarrow> m' Meta META_NEXT_NODE_ID = m Meta META_NEXT_NODE_ID"
  "type_frame m m' \<Longrightarrow> m' Meta META_NEXT_EDGE_ID = m Meta META_NEXT_EDGE_ID"
  "type_frame m m' \<Longrightarrow> m' Meta META_NEXT_LABEL_ID = m Meta META_NEXT_LABEL_ID"
  "type_frame m m' \<Longrightarrow> m' Meta (dict_label_key ty) = m Meta (dict_label_key ty)"
  "type_frame m m' \<Longrightarrow> m' Meta (dict_label_rev_key y) = m Meta (dict_label_rev_key y)"
  by (erule dict_frame_key; simp)+

lemma ids_repr_cong: "tab' ctr = tab ctr \<Longrightarrow> ids_repr ctr N tab' = ids_repr ctr N tab"
  by (simp add: ids_repr_def)

lemma dict_repr_cong:
  "(\<And>a. tab' (fwd a) = tab (fwd a)) \<Longrightarrow> (\<And>i. tab' (rv i) = tab (rv i)) \<Longrightarrow> tab' ctr = tab ctr \<Longrightarrow>
   dict_repr fwd rv ctr L tab' = dict_repr fwd rv ctr L tab"
  by (simp add: dict_repr_def)

section \<open>Names in use are in the dictionaries\<close>

lemma reprD_label_names:
  "reprD pc L T G m \<Longrightarrow> has_label (ag_node G) p n name \<Longrightarrow> \<exists>i. L i = Some name"
  by (auto simp: reprD_def has_label_def split: option.splits dest: nodes_repr_names)

lemma reprD_type_names:
  "reprD pc L T G m \<Longrightarrow> has_edge (ag_edge G) p e s d ty \<Longrightarrow> \<exists>i. T i = Some ty"
  by (auto simp: reprD_def has_edge_def split: option.splits dest: edges_repr_type)

lemma reprD_inj: "reprD pc L T G m \<Longrightarrow> name_inj L" "reprD pc L T G m \<Longrightarrow> name_inj T"
  by (auto simp: reprD_def dict_repr_name_inj)

lemma reprD_label_grow:
  assumes r: "reprD pc L T G m" and fr: "label_frame m m'" and le: "L \<subseteq>\<^sub>m L'"
    and d: "label_dict L' (m' Meta)"
  shows "reprD pc L' T G m'"
proof -
  note tab = dict_frame_table [OF fr] and meta = label_frame_meta [OF fr]
  have "li_repr L' (ag_node G) (m' LabelIdx)"
    using r li_repr_mono [OF _ le dict_repr_name_inj [OF d] reprD_label_names [OF r]]
    by (simp add: reprD_def tab)
  moreover have "nodes_repr pc L' (ag_node G) (m' Nodes)"
    using r nodes_repr_mono [OF _ le] by (simp add: reprD_def tab)
  moreover have "type_dict T (m' Meta)"
    using r dict_repr_cong [of "m' Meta" _ "m Meta"] by (simp add: reprD_def meta)
  ultimately show ?thesis using r d
    by (simp add: reprD_def tab ids_repr_def meta)
qed

lemma reprD_type_grow:
  assumes r: "reprD pc L T G m" and fr: "type_frame m m'" and le: "T \<subseteq>\<^sub>m T'"
    and d: "type_dict T' (m' Meta)"
  shows "reprD pc L T' G m'"
proof -
  note tab = dict_frame_table [OF fr] and meta = type_frame_meta [OF fr]
  have adj: "adj_repr flip T (ag_edge G) tab \<Longrightarrow> adj_repr flip T' (ag_edge G) tab" for flip tab
    by (erule adj_repr_mono [OF _ le dict_repr_name_inj [OF d]]) (rule reprD_type_names [OF r])
  have "adj_repr keep_ends T' (ag_edge G) (m' AdjFwd)" "adj_repr swap_ends T' (ag_edge G) (m' AdjRev)"
    using reprD_D(10,11) [OF r] adj by (simp_all add: tab)
  moreover have "edges_repr pc T' (ag_edge G) (m' Edges)"
    using r edges_repr_mono [OF _ le] by (simp add: reprD_def tab)
  moreover have "label_dict L (m' Meta)"
    using r dict_repr_cong [of "m' Meta" _ "m Meta"] by (simp add: reprD_def meta)
  ultimately show ?thesis using r d
    unfolding reprD_def by (simp add: tab ids_repr_def meta)
qed

section \<open>Interning inside a transaction\<close>

text \<open>At least \<open>n\<close> more ids below \<open>bound\<close> can be drawn from a counter.\<close>

definition room :: "bytes \<Rightarrow> nat \<Rightarrow> nat \<Rightarrow> kv \<Rightarrow> bool" where
  "room ctr bound n m \<longleftrightarrow>
     (case m Meta ctr of
        None \<Rightarrow> False
      | Some b \<Rightarrow> (case from_be64 b of None \<Rightarrow> False | Some c \<Rightarrow> unat c + n \<le> bound))"

lemma room_be64: "m Meta ctr = Some (be64 c) \<Longrightarrow> room ctr bound n m \<longleftrightarrow> unat c + n \<le> bound"
  by (simp add: room_def)

lemma roomE:
  assumes "room ctr bound n m"
  obtains c where "m Meta ctr = Some (be64 c)" "unat c + n \<le> bound"
  using assms by (auto simp: room_def from_be64_iff split: option.splits)

lemma room_mono: "room ctr bound n m \<Longrightarrow> k \<le> n \<Longrightarrow> room ctr bound k m"
  by (auto simp: room_def split: option.splits)

text \<open>Room for \<open>n\<close> more ids in each counter the graph operations draw from.\<close>

definition roomy :: "nat \<Rightarrow> kv \<Rightarrow> bool" where
  "roomy n m \<longleftrightarrow>
     room META_NEXT_NODE_ID (2 ^ 64 - 1) n m \<and> room META_NEXT_EDGE_ID (2 ^ 64 - 1) n m \<and>
     room META_NEXT_LABEL_ID (2 ^ 32) n m \<and> room META_NEXT_EDGE_TYPE_ID (2 ^ 32) n m"

lemma room_cong: "m' Meta ctr = m Meta ctr \<Longrightarrow> room ctr bound n m' = room ctr bound n m"
  by (simp add: room_def)

lemma roomy_mono: "roomy n m \<Longrightarrow> k \<le> n \<Longrightarrow> roomy k m"
  unfolding roomy_def using room_mono by blast

lemma u32_try_from_Some: "unat c < 2 ^ 32 \<Longrightarrow> u32_try_from c = Some (ucast c)"
  by (simp add: u32_try_from_def word_less_nat_alt)

lemma u32_try_from_None: "2 ^ 32 \<le> unat c \<Longrightarrow> u32_try_from c = None"
  by (simp add: u32_try_from_def word_less_nat_alt)

lemma word_not_max: "unat (c :: u64) + 1 \<le> 2 ^ 64 - 1 \<Longrightarrow> c \<noteq> - 1"
  by (auto simp: unsigned_minus_1_eq_mask mask_eq_exp_minus_1)

lemma unat_succ: "(c :: u64) \<noteq> - 1 \<Longrightarrow> unat (c + 1) = unat c + 1"
  using unatSuc [of c] by (simp add: add.commute) (metis add.commute add_eq_0_iff)

lemma max_not_u32: "u32_try_from c = Some i \<Longrightarrow> c \<noteq> - 1"
  by (auto simp: u32_try_from_def)

context kv_txn begin

lemma next_id_run [tx_simps]:
  "inv t \<Longrightarrow> view t Meta ctr = Some (be64 c) \<Longrightarrow>
   next_id V ctr t = (Inr c, put1 V Meta ctr (be64 (c + 1)) t)"
  by (simp add: next_id_def get_u64_def put_u64_def map_transpose_def decode_u64_def tx_simps
      act_bind_def)

lemma intern_known:
  assumes "inv t" "dict_repr fwd rv ctr L (view t Meta)" "L i = Some name"
  shows "intern V (fwd name) rv ctr name t = (Inr i, t)"
proof -
  have "view t Meta (fwd name) = Some (be32 i)"
    using dict_reprD(1) [OF assms(2)] assms(3) by blast
  with assms(1) show ?thesis
    by (simp add: intern_def tx_simps act_bind_def decode_u32_def)
qed

lemma intern_new:
  assumes "inv t" "view t Meta fk = None" "view t Meta ctr = Some (be64 c)"
    "u32_try_from c = Some i"
  shows "intern V fk rv ctr name t =
    (Inr i, put1 V Meta (rv i) name (put1 V Meta fk (be32 i)
       (put1 V Meta ctr (be64 (c + 1)) t)))"
  using assms by (simp add: intern_def tx_simps act_bind_def)

lemma intern_exhausted:
  assumes "inv t" "view t Meta fk = None" "view t Meta ctr = Some (be64 c)"
    "2 ^ 32 \<le> unat c"
  shows "intern V fk rv ctr name t =
    (Inl InvalidArgument, put1 V Meta ctr (be64 (c + 1)) t)"
  using assms by (simp add: intern_def tx_simps act_bind_def u32_try_from_None)

lemma intern_run:
  assumes inv: "inv t" and keys: "dict_keys fwd rv ctr"
    and d: "dict_repr fwd rv ctr L (view t Meta)" and utf: "utf8_ok name"
    and room: "room ctr (2 ^ 32) (Suc n) (view t)"
  shows "\<exists>i t' L'. intern V (fwd name) rv ctr name t = (Inr i, t') \<and> inv t' \<and> L \<subseteq>\<^sub>m L' \<and>
    L' i = Some name \<and> dict_repr fwd rv ctr L' (view t' Meta) \<and>
    dict_frame fwd rv ctr (view t) (view t') \<and> room ctr (2 ^ 32) n (view t')"
proof (cases "view t Meta (fwd name)")
  case (Some b)
  then obtain i where "L i = Some name" using dict_reprD(1) [OF d] by blast
  with intern_known [OF inv d this] inv d room show ?thesis
    by (intro exI [of _ i] exI [of _ t] exI [of _ L]) (auto intro: room_mono)
next
  case None
  obtain c where c: "view t Meta ctr = Some (be64 c)" "unat c + Suc n \<le> 2 ^ 32"
    using room by (rule roomE)
  then have i: "u32_try_from c = Some (ucast c)" by (simp add: u32_try_from_Some)
  note max = max_not_u32 [OF i]
  let ?t = "put1 V Meta (rv (ucast c)) name (put1 V Meta (fwd name) (be32 (ucast c))
       (put1 V Meta ctr (be64 (c + 1)) t))"
  have apart: "rv (ucast c) \<noteq> ctr" "fwd name \<noteq> ctr"
    using keys by (simp_all add: dict_keys_def)
  have v: "view ?t = (view t)(Meta := (view t Meta)
      (ctr \<mapsto> be64 (c + 1), fwd name \<mapsto> be32 (ucast c), rv (ucast c) \<mapsto> name))"
    using inv by (simp add: tx_simps kv_put_def)
  have "dict_frame fwd rv ctr (view t) (view ?t)" unfolding v dict_frame_def by auto
  moreover have "dict_repr fwd rv ctr (L(ucast c \<mapsto> name)) (view ?t Meta)"
    unfolding v using dict_keys.repr_add(1) [OF keys d c(1) max i None utf] by simp
  moreover have "L \<subseteq>\<^sub>m L(ucast c \<mapsto> name)"
    using dict_keys.repr_add(2) [OF keys d c(1) max i None utf] by (simp add: map_le_def dom_def)
  moreover have "room ctr (2 ^ 32) n (view ?t)"
    using c(2) apart max by (simp add: room_def v unat_succ)
  moreover have "inv ?t" using inv by (simp add: tx_simps)
  ultimately show ?thesis using intern_new [OF inv None c(1) i]
    by (intro exI [of _ "ucast c"] exI [of _ ?t] exI [of _ "L(ucast c \<mapsto> name)"]) simp
qed

lemma intern_label_run:
  assumes inv: "inv t" and r: "reprD pc L T G (view t)" and utf: "utf8_ok name"
    and room: "room META_NEXT_LABEL_ID (2 ^ 32) (Suc n) (view t)"
  shows "\<exists>i t' L'. intern_label V name t = (Inr i, t') \<and> inv t' \<and> L \<subseteq>\<^sub>m L' \<and> L' i = Some name \<and>
    reprD pc L' T G (view t') \<and> label_frame (view t) (view t') \<and>
    room META_NEXT_LABEL_ID (2 ^ 32) n (view t')"
  using intern_run [OF inv label_keys.dict_keys_axioms reprD_D(1) [OF r] utf room]
    reprD_label_grow [OF r]
  unfolding intern_label_def by blast

lemma intern_edge_type_run:
  assumes inv: "inv t" and r: "reprD pc L T G (view t)" and utf: "utf8_ok name"
    and room: "room META_NEXT_EDGE_TYPE_ID (2 ^ 32) (Suc n) (view t)"
  shows "\<exists>i t' T'. intern_edge_type V name t = (Inr i, t') \<and> inv t' \<and> T \<subseteq>\<^sub>m T' \<and> T' i = Some name \<and>
    reprD pc L T' G (view t') \<and> type_frame (view t) (view t') \<and>
    room META_NEXT_EDGE_TYPE_ID (2 ^ 32) n (view t')"
  using intern_run [OF inv type_keys.dict_keys_axioms reprD_D(2) [OF r] utf room]
    reprD_type_grow [OF r]
  unfolding intern_edge_type_def by blast

lemma intern_labels_run:
  assumes "inv t" "reprD pc L T G (view t)" "\<forall>name \<in> set names. utf8_ok name"
    "room META_NEXT_LABEL_ID (2 ^ 32) (length names + k) (view t)"
  shows "\<exists>ids t' L'. act_map (intern_label V) names t = (Inr ids, t') \<and> inv t' \<and> L \<subseteq>\<^sub>m L' \<and>
    map L' ids = map Some names \<and> reprD pc L' T G (view t') \<and> label_frame (view t) (view t') \<and>
    room META_NEXT_LABEL_ID (2 ^ 32) k (view t')"
  using assms
proof (induction names arbitrary: t L)
  case Nil
  then show ?case by (auto intro!: exI [of _ L])
next
  case (Cons name names)
  from Cons.prems have "room META_NEXT_LABEL_ID (2 ^ 32) (Suc (length names + k)) (view t)"
    and "utf8_ok name" by simp_all
  with intern_label_run [OF Cons.prems(1,2)] obtain i t' L' where
    1: "intern_label V name t = (Inr i, t')" "inv t'" "L \<subseteq>\<^sub>m L'" "L' i = Some name"
      "reprD pc L' T G (view t')" "label_frame (view t) (view t')"
      "room META_NEXT_LABEL_ID (2 ^ 32) (length names + k) (view t')" by blast
  from Cons.IH [OF 1(2,5) _ 1(7)] Cons.prems(3) obtain ids t'' L'' where
    2: "act_map (intern_label V) names t' = (Inr ids, t'')" "inv t''" "L' \<subseteq>\<^sub>m L''"
      "map L'' ids = map Some names" "reprD pc L'' T G (view t'')"
      "label_frame (view t') (view t'')" "room META_NEXT_LABEL_ID (2 ^ 32) k (view t'')" by auto
  have "L'' i = Some name" using 1(4) 2(3) by (metis domI map_le_def)
  moreover have "L \<subseteq>\<^sub>m L''" using 1(3) 2(3) by (rule map_le_trans)
  ultimately show ?case using 1 2 dict_frame_trans [OF 1(6) 2(6)]
    by (intro exI [of _ "i # ids"] exI [of _ t''] exI [of _ L'']) (simp add: act_bind_def)
qed

end

end
