(* ===== verification/Graph_Nodes.thy ===== *)
theory Graph_Nodes
  imports Graph_Dict
begin

text \<open>
  Node operations implement the abstract graph: creation, reads, property and label updates, and
  ordered scans, proved for every backend that fulfils \<open>kv_txn\<close>.
\<close>

section \<open>Abstract updates\<close>

definition put_node :: "plane_id \<Rightarrow> node_id \<Rightarrow> anode \<Rightarrow> agraph \<Rightarrow> agraph" where
  "put_node p n r G = G\<lparr>ag_node := (ag_node G)((p, n) \<mapsto> r)\<rparr>"

definition put_edge :: "plane_id \<Rightarrow> edge_id \<Rightarrow> aedge \<Rightarrow> agraph \<Rightarrow> agraph" where
  "put_edge p e r G = G\<lparr>ag_edge := (ag_edge G)((p, e) \<mapsto> r)\<rparr>"

definition drop_edge :: "plane_id \<Rightarrow> edge_id \<Rightarrow> agraph \<Rightarrow> agraph" where
  "drop_edge p e G = G\<lparr>ag_edge := (ag_edge G)((p, e) := None)\<rparr>"

definition drop_node :: "plane_id \<Rightarrow> node_id \<Rightarrow> agraph \<Rightarrow> agraph" where
  "drop_node p n G = G\<lparr>ag_node := (ag_node G)((p, n) := None)\<rparr>"

lemma put_node_simps [simp]:
  "ag_node (put_node p n r G) = (ag_node G)((p, n) \<mapsto> r)" "ag_edge (put_node p n r G) = ag_edge G"
  by (simp_all add: put_node_def)

lemma put_edge_simps [simp]:
  "ag_node (put_edge p e r' G) = ag_node G" "ag_edge (put_edge p e r' G) = (ag_edge G)((p, e) \<mapsto> r')"
  by (simp_all add: put_edge_def)

lemma drop_edge_simps [simp]:
  "ag_node (drop_edge p e G) = ag_node G" "ag_edge (drop_edge p e G) = (ag_edge G)((p, e) := None)"
  by (simp_all add: drop_edge_def)

lemma drop_node_simps [simp]:
  "ag_node (drop_node p n G) = (ag_node G)((p, n) := None)" "ag_edge (drop_node p n G) = ag_edge G"
  by (simp_all add: drop_node_def)

lemma ag_ok_put_node [simp]: "ag_ok G \<Longrightarrow> ag_ok (put_node p n r G)"
  by (auto simp: ag_ok_def dom_fun_upd)

lemma ag_ok_put_edge [simp]:
  "ag_ok G \<Longrightarrow> (p, s) \<in> dom (ag_node G) \<Longrightarrow> (p, d) \<in> dom (ag_node G) \<Longrightarrow>
   ag_ok (put_edge p e (s, d, ty, ps) G)"
  unfolding ag_ok_def put_edge_simps has_simps by (metis (no_types))

lemma ag_ok_drop_edge [simp]: "ag_ok G \<Longrightarrow> ag_ok (drop_edge p e G)"
  unfolding ag_ok_def drop_edge_simps has_simps by blast

section \<open>Adding and replacing a node in the tables\<close>

definition node_rows :: "postcard \<Rightarrow> plane_id \<Rightarrow> node_id \<Rightarrow> str option \<Rightarrow> u32 list \<Rightarrow> props \<Rightarrow> kv \<Rightarrow> kv" where
  "node_rows pc p n ek lids ps m =
     (let m' = kv_puts LabelIdx (map (\<lambda>l. (label_idx_key p l n, [])) lids)
                 (kv_put NodePlane (node_plane_key n) (be32 p)
                   (kv_put Nodes (node_key p n) (encode_node_record pc ek lids ps) m))
      in case ek of None \<Rightarrow> m' | Some key \<Rightarrow> kv_put ExtKeys (ext_key_key p key) (be64 n) m')"

lemma node_rows_tables [simp]:
  "node_rows pc p n ek lids ps m Nodes = (m Nodes)(node_key p n \<mapsto> encode_node_record pc ek lids ps)"
  "node_rows pc p n ek lids ps m NodePlane = (m NodePlane)(node_plane_key n \<mapsto> be32 p)"
  "node_rows pc p n ek lids ps m LabelIdx =
     m LabelIdx ++ map_of (rev (map (\<lambda>l. (label_idx_key p l n, [])) lids))"
  "node_rows pc p n None lids ps m ExtKeys = m ExtKeys"
  "node_rows pc p n (Some key) lids ps m ExtKeys = (m ExtKeys)(ext_key_key p key \<mapsto> be64 n)"
  "tb \<notin> {Nodes, NodePlane, LabelIdx, ExtKeys} \<Longrightarrow> node_rows pc p n ek lids ps m tb = m tb"
  unfolding node_rows_def Let_def
  subgoal by (cases ek) (simp_all del: fun_upd_apply)
  subgoal by (cases ek) (simp_all del: fun_upd_apply)
  subgoal by (cases ek) (simp_all add: kv_puts_same del: fun_upd_apply)
  subgoal by (simp del: fun_upd_apply)
  subgoal by (simp del: fun_upd_apply)
  subgoal by (cases ek) (simp_all del: fun_upd_apply)
  done

lemma reprD_add_node:
  assumes r: "reprD pc L T G m" and pc: "postcard_ok pc" "str_opt_ok ek" "props_ok ps"
    and lids: "map L lids = map Some ls"
    and ctr: "m Meta META_NEXT_NODE_ID = Some (be64 c)" "n < c"
    and fresh: "\<And>q. (q, n) \<notin> dom (ag_node G)"
    and free: "\<And>key k. ek = Some key \<Longrightarrow> \<not> has_key (ag_node G) p k key"
  shows "reprD pc L T (put_node p n (ek, ls, ps) G) (node_rows pc p n ek lids ps m)"
proof -
  note D = reprD_D [OF r]
  let ?N = "(ag_node G)((p, n) \<mapsto> (ek, ls, ps))"
  let ?m = "node_rows pc p n ek lids ps m"
  have nodes: "nodes_repr pc L ?N (?m Nodes)"
    using rows_repr_put [OF D(5) node_row_encode [OF pc lids], of p n]
    by simp
  have np: "np_repr ?N (?m NodePlane)"
    using np_repr_put [OF D(7), of p n] fresh by simp
  have li: "li_repr L ?N (?m LabelIdx)"
    using li_repr_relabel [OF D(8) _ lids, of "[]" "[]" p n ek ps ek ps] reprD_inj(1) [OF r] fresh
    by simp
  have xk: "xk_repr ?N (?m ExtKeys)"
  proof (cases ek)
    case None
    have "\<not> has_key (ag_node G) p n key" for key using fresh has_imp_dom(2) by blast
    then show ?thesis using xk_repr_keep [OF D(9)] None by simp
  next
    case (Some key)
    have "m ExtKeys (ext_key_key p key) = None"
      using xk_repr_has [OF D(9), of p key] free [OF Some] by auto
    then show ?thesis using xk_repr_put [OF D(9) _ fresh] Some by simp
  qed
  have "ids_repr META_NEXT_NODE_ID ?N (m Meta)"
    using D(3) ctr by (auto simp: ids_repr_def dom_fun_upd)
  then show ?thesis
    using D nodes np li xk by (simp add: reprD_def)
qed

lemma reprD_update_node:
  assumes r: "reprD pc L T G m" and pc: "postcard_ok pc" "props_ok ps'"
    and n: "ag_node G (p, n) = Some (ek, ls, ps)" "str_opt_ok ek" and lids: "map L lids = map Some ls"
  shows "reprD pc L T (put_node p n (ek, ls, ps') G)
           (kv_put Nodes (node_key p n) (encode_node_record pc ek lids ps') m)"
proof -
  note D = reprD_D [OF r]
  have dom: "(p, n) \<in> dom (ag_node G)" using n by blast
  have "nodes_repr pc L ((ag_node G)((p, n) \<mapsto> (ek, ls, ps')))
      ((m Nodes)(node_key p n \<mapsto> encode_node_record pc ek lids ps'))"
    using rows_repr_put [OF D(5) node_row_encode [OF pc(1) n(2) pc(2) lids], of p n] by simp
  moreover have "xk_repr ((ag_node G)((p, n) \<mapsto> (ek, ls, ps'))) (m ExtKeys)"
    by (rule xk_repr_keep [OF D(9)]) (use n in \<open>auto simp: has_key_def\<close>)
  moreover have "ids_repr META_NEXT_NODE_ID ((ag_node G)((p, n) \<mapsto> (ek, ls, ps'))) (m Meta)"
    by (rule ids_repr_dom [OF D(3)]) (use dom in auto)
  ultimately show ?thesis
    using D li_repr_same [OF D(8) n(1)] np_repr_update [OF D(7) dom]
    by (simp add: reprD_def)
qed

lemma reprD_relabel_node:
  assumes r: "reprD pc L T G m" and pc: "postcard_ok pc"
    and n: "ag_node G (p, n) = Some (ek, ols, ps)" "str_opt_ok ek" "props_ok ps"
    and lids: "map L old = map Some ols" "map L new = map Some nls"
  shows "reprD pc L T (put_node p n (ek, nls, ps) G)
           (kv_put Nodes (node_key p n) (encode_node_record pc ek new ps)
             (kv_puts LabelIdx (map (\<lambda>l. (label_idx_key p l n, [])) new)
               (kv_dels LabelIdx (map (\<lambda>l. label_idx_key p l n) old) m)))"
proof -
  note D = reprD_D [OF r]
  have dom: "(p, n) \<in> dom (ag_node G)" using n by blast
  have "nodes_repr pc L ((ag_node G)((p, n) \<mapsto> (ek, nls, ps)))
      ((m Nodes)(node_key p n \<mapsto> encode_node_record pc ek new ps))"
    using rows_repr_put [OF D(5) node_row_encode [OF pc n(2,3) lids(2)], of p n] by simp
  moreover have "xk_repr ((ag_node G)((p, n) \<mapsto> (ek, nls, ps))) (m ExtKeys)"
    by (rule xk_repr_keep [OF D(9)]) (use n in \<open>auto simp: has_key_def\<close>)
  moreover have "ids_repr META_NEXT_NODE_ID ((ag_node G)((p, n) \<mapsto> (ek, nls, ps))) (m Meta)"
    by (rule ids_repr_dom [OF D(3)]) (use dom in auto)
  ultimately show ?thesis
    using D li_repr_relabel [OF D(8) lids disjI1 [OF n(1)] reprD_inj(1) [OF r], of ek ps]
      np_repr_update [OF D(7) dom]
    by (simp add: reprD_def kv_puts_same kv_dels_same)
qed

section \<open>Ordered scans return sorted ids\<close>

lemma key_less:
  "node_key p a < node_key p b \<longleftrightarrow> a < b" "edge_key p a < edge_key p b \<longleftrightarrow> a < b"
  "label_idx_key p l a < label_idx_key p l b \<longleftrightarrow> a < b"
  by (simp_all add: node_key_def edge_key_def label_idx_key_def)

lemma prefix_plane_key [simp]:
  "prefix (plane_key p) (node_key q n) \<longleftrightarrow> p = q" "prefix (plane_key p) (edge_key q n) \<longleftrightarrow> p = q"
  "prefix (plane_key p) (label_idx_key q l n) \<longleftrightarrow> p = q"
  "prefix (plane_key p) (ext_key_key q key) \<longleftrightarrow> p = q"
  "prefix (plane_key p) (adj_key q f y d e) \<longleftrightarrow> p = q"
  using prefix_be32_app [of p "[]" q]
  by (simp_all add: plane_key_def node_key_def edge_key_def label_idx_key_def ext_key_key_def
      adj_key_def)

lemma scan_ids:
  fixes key :: "u64 \<Rightarrow> bytes" and xs :: "kvpair list"
  assumes "bt_ok xs" and keys: "\<And>k v. (k, v) \<in> set xs \<Longrightarrow> \<exists>n. k = key n"
    and mono: "\<And>a b. key a < key b \<longleftrightarrow> a < b" and f: "\<And>n v. f (key n, v) = Inr n"
  shows "res_map f xs = Inr (sorted_list_of_set {n. key n \<in> fst ` set xs})"
proof -
  have inj: "key a = key b \<longleftrightarrow> a = b" for a b by (metis less_irrefl mono neqE)
  define g where "g = (\<lambda>kv :: kvpair. THE n. fst kv = key n)"
  have g: "g (key n, v) = n" for n v by (simp add: g_def inj)
  have "res_map f xs = Inr (map g xs)"
    by (rule res_map_Inr) (use keys f g in fastforce)
  moreover have "sorted_wrt (<) (map g xs)" using assms(1) keys
  proof (induction xs)
    case (Cons kv xs)
    obtain k v where kv: "kv = (k, v)" by fastforce
    with Cons.prems(2) obtain n where k: "k = key n" by auto
    have "n < g kv'" if "kv' \<in> set xs" for kv'
    proof -
      obtain k' v' where kv': "kv' = (k', v')" by fastforce
      with that Cons.prems(2) obtain n' where n': "k' = key n'" by (meson list.set_intros(2))
      have "k < k'" using Cons.prems(1) that kv kv' by auto
      then show ?thesis using k n' kv' mono g by simp
    qed
    with Cons kv k g show ?case by auto
  qed simp
  moreover have "set (map g xs) = {n. key n \<in> fst ` set xs}"
  proof (intro set_eqI iffI)
    fix n assume "n \<in> set (map g xs)"
    then obtain k v where kv: "(k, v) \<in> set xs" "n = g (k, v)" by auto
    with keys g have "k = key n" by metis
    with kv(1) show "n \<in> {n. key n \<in> fst ` set xs}" by force
  next
    fix n assume "n \<in> {n. key n \<in> fst ` set xs}"
    then obtain v where "(key n, v) \<in> set xs" by auto
    then have "g (key n, v) \<in> set (map g xs)" by (metis image_eqI list.set_map)
    then show "n \<in> set (map g xs)" by (simp add: g)
  qed
  ultimately show ?thesis
    by (metis (no_types, lifting) sorted_list_of_set.idem_if_sorted_distinct strict_sorted_iff)
qed

section \<open>Reads\<close>

definition node_rec :: "plane_id \<Rightarrow> node_id \<Rightarrow> anode \<Rightarrow> node_record" where
  "node_rec p n r =
     (case r of (ek, ls, ps) \<Rightarrow>
        \<lparr>nr_id = n, nr_plane = p, nr_external_key = ek, nr_labels = ls, nr_properties = ps\<rparr>)"

context kv_txn begin

lemma node_id_by_external_key_run:
  assumes "inv t" "xk_repr N (view t ExtKeys)"
  shows "node_id_by_external_key V t p key = Inr (Some n) \<longleftrightarrow> has_key N p n key"
    and "node_id_by_external_key V t p key = Inr None \<longleftrightarrow> (\<forall>n. \<not> has_key N p n key)"
    and "\<exists>r. node_id_by_external_key V t p key = Inr r"
proof -
  have run: "node_id_by_external_key V t p key =
      map_transpose decode_u64 (view t ExtKeys (ext_key_key p key))"
    using assms(1) by (simp add: node_id_by_external_key_def tx_simps)
  note row = xk_repr_has [OF assms(2), of p key]
  have "(node_id_by_external_key V t p key = Inr (Some n) \<longleftrightarrow> has_key N p n key) \<and>
    (node_id_by_external_key V t p key = Inr None \<longleftrightarrow> (\<forall>n. \<not> has_key N p n key)) \<and>
    (\<exists>r. node_id_by_external_key V t p key = Inr r)"
  proof (cases "view t ExtKeys (ext_key_key p key)")
    case None
    then have "\<not> has_key N p k key" for k using row by auto
    with None show ?thesis by (simp add: run map_transpose_def)
  next
    case (Some b)
    then obtain m where m: "b = be64 m" "has_key N p m key" using row by blast
    moreover have "has_key N p k key \<longleftrightarrow> k = m" for k using row [of "be64 k"] Some m by auto
    ultimately show ?thesis using Some by (auto simp: run map_transpose_def decode_u64_def)
  qed
  then show "node_id_by_external_key V t p key = Inr (Some n) \<longleftrightarrow> has_key N p n key"
    "node_id_by_external_key V t p key = Inr None \<longleftrightarrow> (\<forall>n. \<not> has_key N p n key)"
    "\<exists>r. node_id_by_external_key V t p key = Inr r"
    by blast+
qed

lemma resolve_label_run:
  "inv t \<Longrightarrow> label_dict L (view t Meta) \<Longrightarrow> L i = Some name \<Longrightarrow> resolve_label V t i = Inr name"
  by (simp add: resolve_label_def tx_simps dict_reprD(2) from_utf8_def dict_reprD(3))

lemma resolve_labels_run:
  assumes "inv t" "label_dict L (view t Meta)" "map L lids = map Some ls"
  shows "res_map (resolve_label V t) lids = Inr ls"
  using assms(3)
proof (induction lids arbitrary: ls)
  case (Cons i lids)
  then obtain x xs where "ls = x # xs" "L i = Some x" "map L lids = map Some xs" by (cases ls) auto
  with Cons.IH show ?case by (simp add: resolve_label_run [OF assms(1,2)])
qed simp

lemma get_node_run:
  assumes "inv t" "reprD pc L T G (view t)"
  shows "get_node V pc t p n = Inr (map_option (node_rec p n) (ag_node G (p, n)))"
proof (cases "view t Nodes (node_key p n)")
  case None
  with reprD_D(5) [OF assms(2)] have "ag_node G (p, n) = None" by (simp add: rows_repr_None)
  with None assms(1) show ?thesis by (simp add: get_node_def tx_simps map_transpose_def)
next
  case (Some b)
  obtain r where r: "ag_node G (p, n) = Some r" "node_row pc L b r"
    by (rule rows_repr_Some [OF reprD_D(5) [OF assms(2)] Some])
  obtain ek ls ps where "r = (ek, ls, ps)" by (cases r)
  with r Some assms(1) resolve_labels_run [OF assms(1) reprD_D(1) [OF assms(2)]] show ?thesis
    by (auto simp: get_node_def tx_simps map_transpose_def node_row_def node_rec_def)
qed

lemma node_exists_run:
  assumes "inv t" "reprD pc L T G (view t)"
  shows "node_exists V t p n = Inr ((p, n) \<in> dom (ag_node G))"
  using assms rows_repr_None [OF reprD_D(5) [OF assms(2)], of p n]
  by (simp add: node_exists_def tx_simps domIff del: not_None_eq)

lemma fst_scan1:
  "inv t \<Longrightarrow> fst ` set (scan1 V t tb p) = {k. prefix p k \<and> k \<in> dom (view t tb)}"
  by (auto simp: dom_map_of_conv_image_fst [symmetric] map_of_scan1 split: if_splits)

lemma scan_all_run:
  assumes "inv t" "reprD pc L T G (view t)"
  shows "scan_all V t p = Inr (sorted_list_of_set {n. (p, n) \<in> dom (ag_node G)})"
proof -
  note D = reprD_D(5) [OF assms(2)]
  let ?xs = "scan1 V t Nodes (plane_key p)"
  have "scan_all V t p = Inr (sorted_list_of_set {n. node_key p n \<in> fst ` set ?xs})"
    unfolding scan_all_def prefix_range_simp [OF assms(1)] res_bind_Inr
  proof (rule scan_ids [OF bt_ok_scan1 [OF assms(1)]])
    fix k v assume "(k, v) \<in> set ?xs"
    then have *: "prefix (plane_key p) k" "view t Nodes k = Some v"
      by (auto simp: set_scan1 [OF assms(1)])
    then obtain q n where "k = node_key q n" using rows_repr_key [OF D] by blast
    with * show "\<exists>n. k = node_key p n"
      by auto
  qed (simp_all add: key_less)
  also have "{n. node_key p n \<in> fst ` set ?xs} = {n. (p, n) \<in> dom (ag_node G)}"
    using rows_repr_None [OF D, of p]
    by (simp add: fst_scan1 [OF assms(1)] prefix_plane_key domIff del: not_None_eq)
  finally show ?thesis .
qed

lemma lookup_run:
  assumes "inv t" "dict_repr fwd rv ctr L (view t Meta)"
  shows "res_bind (v_get V t Meta (fwd name)) (map_transpose decode_u32) = Inr (Some i) \<longleftrightarrow>
      L i = Some name"
    and "res_bind (v_get V t Meta (fwd name)) (map_transpose decode_u32) = Inr None \<longleftrightarrow>
      (\<forall>i. L i \<noteq> Some name)"
    and "\<exists>r. res_bind (v_get V t Meta (fwd name)) (map_transpose decode_u32) = Inr r"
proof -
  note row = dict_reprD(1) [OF assms(2), of name]
  let ?r = "res_bind (v_get V t Meta (fwd name)) (map_transpose decode_u32)"
  have "(?r = Inr (Some i) \<longleftrightarrow> L i = Some name) \<and> (?r = Inr None \<longleftrightarrow> (\<forall>i. L i \<noteq> Some name)) \<and>
      (\<exists>r. ?r = Inr r)"
  proof (cases "view t Meta (fwd name)")
    case None
    then have "L i \<noteq> Some name" for i using row by auto
    with None assms(1) show ?thesis by (simp add: tx_simps map_transpose_def)
  next
    case (Some b)
    then obtain j where j: "b = be32 j" "L j = Some name" using row by blast
    moreover have "L k = Some name \<longleftrightarrow> k = j" for k
      using j(2) dict_repr_inj [OF assms(2)] by blast
    ultimately show ?thesis using Some assms(1)
      by (auto simp: tx_simps map_transpose_def decode_u32_def)
  qed
  then show "?r = Inr (Some i) \<longleftrightarrow> L i = Some name" "?r = Inr None \<longleftrightarrow> (\<forall>i. L i \<noteq> Some name)"
    "\<exists>r. ?r = Inr r" by blast+
qed

lemmas lookup_label_run = lookup_run [where fwd = dict_label_key, folded lookup_label_def]
lemmas lookup_edge_type_run = lookup_run [where fwd = dict_edge_type_key, folded lookup_edge_type_def]

lemma scan_label_run:
  assumes "inv t" "reprD pc L T G (view t)"
  shows "scan_label V t p name = Inr (sorted_list_of_set {n. has_label (ag_node G) p n name})"
proof -
  note look = lookup_label_run [OF assms(1) reprD_D(1) [OF assms(2)], of name]
  have li: "li_repr L (ag_node G) (view t LabelIdx)" by (rule reprD_D(8) [OF assms(2)])
  obtain found where found: "lookup_label V t name = Inr found" using look(3) by blast
  show ?thesis
  proof (cases found)
    case None
    then have "\<not> has_label (ag_node G) p n name" for n
      using look(2) found reprD_label_names [OF assms(2)] by blast
    with None found show ?thesis by (simp add: scan_label_def)
  next
    case (Some l)
    with look(1) [of l] found have l: "L l = Some name" by simp
    have row: "label_idx_key q i n \<in> dom (view t LabelIdx) \<longleftrightarrow>
        (\<exists>x. L i = Some x \<and> has_label (ag_node G) q n x)" for q i n
      using li unfolding li_repr_def domIff by auto
    let ?xs = "scan1 V t LabelIdx (label_idx_prefix p l)"
    have pre: "prefix (label_idx_prefix p l) (label_idx_key q i n) \<longleftrightarrow> q = p \<and> i = l" for q i n
      using prefix_be32_app [of l "[]" i "be64 n"]
      by (auto simp: label_idx_prefix_def label_idx_key_def)
    have "scan_label V t p name = res_map (\<lambda>(k, _). label_idx_node k) ?xs"
      by (simp add: scan_label_def found Some tx_simps assms(1))
    also have "\<dots> = Inr (sorted_list_of_set {n. label_idx_key p l n \<in> fst ` set ?xs})"
    proof (rule scan_ids [OF bt_ok_scan1 [OF assms(1)]])
      fix k v assume "(k, v) \<in> set ?xs"
      then have *: "prefix (label_idx_prefix p l) k" "view t LabelIdx k = Some v"
        by (auto simp: set_scan1 [OF assms(1)])
      then obtain q i n where "k = label_idx_key q i n" using li unfolding li_repr_def by blast
      with * pre show "\<exists>n. k = label_idx_key p l n" by auto
    qed (simp_all add: key_less)
    also have "{n. label_idx_key p l n \<in> fst ` set ?xs} = {n. has_label (ag_node G) p n name}"
      using l by (simp add: fst_scan1 [OF assms(1)] pre row del: domIff)
    finally show ?thesis .
  qed
qed

section \<open>Creation\<close>

lemma insert_node_run:
  assumes inv: "inv t" and r: "reprD pc L T G (view t)" and pc: "postcard_ok pc" "str_opt_ok ek"
    "props_ok ps" "\<forall>name \<in> set labels. utf8_ok name"
    and room: "room META_NEXT_LABEL_ID (2 ^ 32) (length labels + k) (view t)"
    and ctr: "view t Meta META_NEXT_NODE_ID = Some (be64 c)" "n < c"
    and fresh: "\<And>q. (q, n) \<notin> dom (ag_node G)"
    and free: "\<And>key j. ek = Some key \<Longrightarrow> \<not> has_key (ag_node G) p j key"
  shows "\<exists>t' L'. insert_node V pc p n ek labels ps t = (Inr (), t') \<and> inv t' \<and>
    reprD pc L' T (put_node p n (ek, labels, ps) G) (view t') \<and>
    label_frame (view t) (\<lambda>tb. if tb = Meta then view t' Meta else view t tb) \<and>
    room META_NEXT_LABEL_ID (2 ^ 32) k (view t')"
proof -
  have taken: "(case ek of None \<Rightarrow> Inr None | Some key \<Rightarrow> node_id_by_external_key V t p key) = Inr None"
    using node_id_by_external_key_run(2) [OF inv reprD_D(9) [OF r]] free by (simp split: option.split)
  obtain lids t1 L' where 1: "act_map (intern_label V) labels t = (Inr lids, t1)" "inv t1"
    "map L' lids = map Some labels" "reprD pc L' T G (view t1)" "label_frame (view t) (view t1)"
    "room META_NEXT_LABEL_ID (2 ^ 32) k (view t1)"
    using intern_labels_run [OF inv r pc(4) room] by blast
  let ?t2 = "put1 V NodePlane (node_plane_key n) (be32 p)
    (put1 V Nodes (node_key p n) (encode_node_record pc ek lids ps) t1)"
  have i2: "inv ?t2" using 1(2) by (simp add: tx_simps)
  obtain t3 where 3: "act_iter (\<lambda>l. v_put V LabelIdx (label_idx_key p l n) []) lids ?t2 = (Inr (), t3)"
    "inv t3" "view t3 = kv_puts LabelIdx (map (\<lambda>l. (label_idx_key p l n, [])) lids) (view ?t2)"
    using put_iter [OF i2, of LabelIdx "\<lambda>l. label_idx_key p l n" "\<lambda>_. []" lids] by blast
  let ?t' = "case ek of None \<Rightarrow> t3 | Some key \<Rightarrow> put1 V ExtKeys (ext_key_key p key) (be64 n) t3"
  have vw: "view ?t' = node_rows pc p n ek lids ps (view t1)"
    using 1(2) 3 by (cases ek) (simp_all add: node_rows_def Let_def tx_simps)
  have "insert_node V pc p n ek labels ps t = (Inr (), ?t')"
    using taken 1 3 i2
    by (cases ek) (simp_all add: insert_node_def act_bind_def tx_simps)
  moreover have "inv ?t'" using 3(2) by (simp add: tx_simps split: option.split)
  moreover have "reprD pc L' T (put_node p n (ek, labels, ps) G) (view ?t')"
    unfolding vw by (rule reprD_add_node [OF 1(4) pc(1-3) 1(3) _ ctr(2) fresh free])
       (use ctr(1) label_frame_meta(1) [OF 1(5)] in simp_all)
  moreover have "label_frame (view t) (\<lambda>tb. if tb = Meta then view ?t' Meta else view t tb)"
    using 1(5) by (simp add: dict_frame_def vw)
  moreover have "room META_NEXT_LABEL_ID (2 ^ 32) k (view ?t')" using 1(6) by (simp add: room_def vw)
  ultimately show ?thesis by blast
qed

lemma reprD_bump_node:
  assumes "reprD pc L T G m" "m Meta META_NEXT_NODE_ID = Some (be64 c)" "c \<noteq> - 1"
  shows "reprD pc L T G (kv_put Meta META_NEXT_NODE_ID (be64 (c + 1)) m)"
proof -
  note D = reprD_D [OF assms(1)]
  have "label_dict L ((m Meta)(META_NEXT_NODE_ID \<mapsto> be64 (c + 1)))"
    "type_dict T ((m Meta)(META_NEXT_NODE_ID \<mapsto> be64 (c + 1)))"
    by (rule dict_repr_other [OF D(1)], simp_all) (rule dict_repr_other [OF D(2)], simp_all)
  then show ?thesis
    using D ids_repr_bump(1) [OF D(3) assms(2,3)] ids_repr_other [OF D(4)]
    by (simp add: reprD_def del: fun_upd_apply)
qed

lemma create_node_impl_run:
  assumes inv: "inv t" and r: "reprD pc L T G (view t)" and pc: "postcard_ok pc" "str_opt_ok ek"
    "props_ok ps" "\<forall>name \<in> set labels. utf8_ok name"
    and room: "roomy (Suc (length labels) + k) (view t)"
    and free: "\<And>key j. ek = Some key \<Longrightarrow> \<not> has_key (ag_node G) p j key"
  shows "\<exists>n t' L'. create_node_impl V pc p ek labels ps t = (Inr n, t') \<and> inv t' \<and>
    (\<forall>q. (q, n) \<notin> dom (ag_node G)) \<and> reprD pc L' T (put_node p n (ek, labels, ps) G) (view t') \<and>
    roomy k (view t') \<and> view t Meta META_NEXT_NODE_ID = Some (be64 n) \<and>
    view t' Meta META_NEXT_NODE_ID = Some (be64 (n + 1)) \<and>
    view t' Meta META_NEXT_EDGE_ID = view t Meta META_NEXT_EDGE_ID"
proof -
  have rn: "room META_NEXT_NODE_ID (2 ^ 64 - 1) (Suc k) (view t)"
    and rl: "room META_NEXT_LABEL_ID (2 ^ 32) (length labels + k) (view t)"
    and rest: "room META_NEXT_EDGE_ID (2 ^ 64 - 1) k (view t)"
      "room META_NEXT_EDGE_TYPE_ID (2 ^ 32) k (view t)"
    using room unfolding roomy_def by (auto elim!: room_mono)
  obtain c where c: "view t Meta META_NEXT_NODE_ID = Some (be64 c)" "unat c + Suc k \<le> 2 ^ 64 - 1"
    using rn by (rule roomE)
  have max: "c \<noteq> - 1" using c(2) by (intro word_not_max) simp
  let ?t = "put1 V Meta META_NEXT_NODE_ID (be64 (c + 1)) t"
  have i: "inv ?t" using inv by (simp add: tx_simps)
  have v: "view ?t = kv_put Meta META_NEXT_NODE_ID (be64 (c + 1)) (view t)"
    using inv by (simp add: tx_simps)
  have r1: "reprD pc L T G (view ?t)" unfolding v by (rule reprD_bump_node [OF r c(1) max])
  have room1: "room META_NEXT_LABEL_ID (2 ^ 32) (length labels + k) (view ?t)"
    using rl by (simp add: room_def v)
  have ctr: "view ?t Meta META_NEXT_NODE_ID = Some (be64 (c + 1))" by (simp add: v)
  have fresh: "(q, c) \<notin> dom (ag_node G)" for q
    by (rule ids_repr_bump(2) [OF reprD_D(3) [OF r] c(1) max])
  from insert_node_run [OF i r1 pc room1 ctr word_self_less_succ [OF max] fresh free]
  obtain t' L' where t': "insert_node V pc p c ek labels ps ?t = (Inr (), t')" "inv t'"
    "reprD pc L' T (put_node p c (ek, labels, ps) G) (view t')"
    "label_frame (view ?t) (\<lambda>tb. if tb = Meta then view t' Meta else view ?t tb)"
    "room META_NEXT_LABEL_ID (2 ^ 32) k (view t')" by blast
  have "roomy k (view t')"
    using t'(5) rest c(2) label_frame_meta(1-3) [OF t'(4)] unat_succ [OF max]
    by (simp add: roomy_def room_def v)
  moreover have "view t' Meta META_NEXT_NODE_ID = Some (be64 (c + 1))"
    "view t' Meta META_NEXT_EDGE_ID = view t Meta META_NEXT_EDGE_ID"
    using label_frame_meta(1,2) [OF t'(4)] by (simp_all add: v)
  ultimately show ?thesis using t' fresh c(1)
    by (intro exI [of _ c] exI [of _ t'] exI [of _ L'])
       (simp add: create_node_impl_def act_bind_def next_id_run [OF inv c(1)])
qed

lemma create_node_conflict:
  assumes inv: "inv t" and r: "reprD pc L T G (view t)"
    and room: "roomy 1 (view t)" and taken: "has_key (ag_node G) p k key"
  shows "\<exists>t'. create_node_impl V pc p (Some key) labels ps t = (Inl Conflict, t') \<and> inv t' \<and>
    reprD pc L T G (view t')"
proof -
  obtain c where c: "view t Meta META_NEXT_NODE_ID = Some (be64 c)" "unat c + 1 \<le> 2 ^ 64 - 1"
    using room unfolding roomy_def by (blast elim: roomE)
  let ?t = "put1 V Meta META_NEXT_NODE_ID (be64 (c + 1)) t"
  have i: "inv ?t" using inv by (simp add: tx_simps)
  have r1: "reprD pc L T G (view ?t)"
    using reprD_bump_node [OF r c(1) word_not_max [OF c(2)]] inv by (simp add: tx_simps)
  have "node_id_by_external_key V ?t p key = Inr (Some k)"
    using node_id_by_external_key_run(1) [OF i reprD_D(9) [OF r1]] taken by simp
  then have "insert_node V pc p c (Some key) labels ps ?t = (Inl Conflict, ?t)"
    by (simp add: insert_node_def act_bind_def)
  with i r1 show ?thesis
    by (intro exI [of _ ?t]) (simp add: create_node_impl_def act_bind_def next_id_run [OF inv c(1)])
qed

section \<open>Mutation\<close>

lemma load_node_missing:
  assumes "inv t" "reprD pc L T G (view t)" "(p, n) \<notin> dom (ag_node G)"
  shows "load_node V pc t p n = Inl NotFound"
  using assms rows_repr_None [OF reprD_D(5) [OF assms(2)], of p n]
  by (simp add: load_node_def tx_simps domIff del: not_None_eq)

lemma load_node_found:
  assumes "inv t" "reprD pc L T G (view t)" "ag_node G (p, n) = Some (ek, ls, ps)"
  shows "\<exists>lids. load_node V pc t p n = Inr (ek, lids, ps) \<and> map L lids = map Some ls \<and>
    str_opt_ok ek \<and> props_ok ps"
proof -
  obtain b where "view t Nodes (node_key p n) = Some b" "node_row pc L b (ek, ls, ps)"
    by (rule rows_repr_row [OF reprD_D(5) [OF assms(2)] assms(3)])
  with assms(1) show ?thesis by (auto simp: load_node_def tx_simps node_row_def)
qed

lemma update_node_run:
  assumes inv: "inv t" and r: "reprD pc L T G (view t)" and pc: "postcard_ok pc"
    and n: "ag_node G (p, n) = Some (ek, ls, ps)" and ps': "props_ok ps \<Longrightarrow> props_ok (f ps)"
  shows "\<exists>t'. act_bind (reading (\<lambda>t. load_node V pc t p n)) (\<lambda>(ek, lids, ps).
        v_put V Nodes (node_key p n) (encode_node_record pc ek lids (f ps))) t = (Inr (), t') \<and>
    inv t' \<and> reprD pc L T (put_node p n (ek, ls, f ps) G) (view t')"
proof -
  obtain lids where l: "load_node V pc t p n = Inr (ek, lids, ps)" "map L lids = map Some ls"
    "str_opt_ok ek" "props_ok ps" using load_node_found [OF inv r n] by blast
  show ?thesis using reprD_update_node [OF r pc ps' [OF l(4)] n l(3,2)] inv l(1)
    by (simp add: act_bind_reading tx_simps)
qed

lemma set_node_prop_run:
  assumes "inv t" "reprD pc L T G (view t)" "postcard_ok pc" "ag_node G (p, n) = Some (ek, ls, ps)"
    "utf8_ok key" "desc_ok d"
  shows "\<exists>t'. set_node_prop V pc p n key d t = (Inr (), t') \<and> inv t' \<and>
    reprD pc L T (put_node p n (ek, ls, bt_insert key d ps) G) (view t')"
  unfolding set_node_prop_def
  by (rule update_node_run [OF assms(1-4)]) (use assms(5,6) in \<open>simp add: props_ok_insert\<close>)

lemma remove_node_prop_run:
  assumes "inv t" "reprD pc L T G (view t)" "postcard_ok pc" "ag_node G (p, n) = Some (ek, ls, ps)"
  shows "\<exists>t'. remove_node_prop V pc p n key t = (Inr (), t') \<and> inv t' \<and>
    reprD pc L T (put_node p n (ek, ls, bt_remove key ps) G) (view t')"
  unfolding remove_node_prop_def
  by (rule update_node_run [OF assms]) (simp add: props_ok_remove)

lemma set_node_labels_run:
  assumes inv: "inv t" and r: "reprD pc L T G (view t)" and pc: "postcard_ok pc"
    and n: "ag_node G (p, n) = Some (ek, ols, ps)" and utf: "\<forall>name \<in> set labels. utf8_ok name"
    and room: "roomy (length labels) (view t)"
  shows "\<exists>t' L'. set_node_labels V pc p n labels t = (Inr (), t') \<and> inv t' \<and>
    reprD pc L' T (put_node p n (ek, labels, ps) G) (view t')"
proof -
  obtain old where l: "load_node V pc t p n = Inr (ek, old, ps)" "map L old = map Some ols"
    "str_opt_ok ek" "props_ok ps" using load_node_found [OF inv r n] by blast
  obtain new t1 L' where 1: "act_map (intern_label V) labels t = (Inr new, t1)" "inv t1" "L \<subseteq>\<^sub>m L'"
    "map L' new = map Some labels" "reprD pc L' T G (view t1)"
    using intern_labels_run [OF inv r utf, of 0] room by (auto simp: roomy_def)
  obtain t2 where 2: "act_iter (\<lambda>l. v_delete V LabelIdx (label_idx_key p l n)) old t1 = (Inr (), t2)"
    "inv t2" "view t2 = kv_dels LabelIdx (map (\<lambda>l. label_idx_key p l n) old) (view t1)"
    using delete_iter [OF 1(2), of LabelIdx "\<lambda>l. label_idx_key p l n" old] by blast
  obtain t3 where 3: "act_iter (\<lambda>l. v_put V LabelIdx (label_idx_key p l n) []) new t2 = (Inr (), t3)"
    "inv t3" "view t3 = kv_puts LabelIdx (map (\<lambda>l. (label_idx_key p l n, [])) new) (view t2)"
    using put_iter [OF 2(2), of LabelIdx "\<lambda>l. label_idx_key p l n" "\<lambda>_. []" new] by blast
  have "reprD pc L' T (put_node p n (ek, labels, ps) G)
      (view (put1 V Nodes (node_key p n) (encode_node_record pc ek new ps) t3))"
    using reprD_relabel_node [OF 1(5) pc n l(3,4) map_le_map [OF l(2) 1(3)] 1(4)] 2 3
    by (simp add: tx_simps)
  with l(1) 1 2 3 show ?thesis
    by (intro exI [of _ "put1 V Nodes (node_key p n) (encode_node_record pc ek new ps) t3"])
       (auto simp: set_node_labels_def act_bind_def tx_simps)
qed

end

end
