(* ===== verification/Graph_Edges.thy ===== *)
theory Graph_Edges
  imports Graph_Nodes
begin

text \<open>
  Edge operations implement the abstract graph: creation with its endpoint check, reads, property
  and type updates, deletion and one-hop expansion over both adjacency tables, and the deletion of a
  node with every edge that touches it. Proved for every backend that fulfils \<open>kv_txn\<close>.
\<close>

section \<open>Edges in the tables\<close>

definition edge_rec :: "plane_id \<Rightarrow> edge_id \<Rightarrow> aedge \<Rightarrow> edge_record" where
  "edge_rec p e r =
     (case r of (s, d, ty, ps) \<Rightarrow>
        \<lparr>er_id = e, er_plane = p, er_src = s, er_dst = d, er_ty = ty, er_properties = ps\<rparr>)"

abbreviation edge_rows ::
    "postcard \<Rightarrow> plane_id \<Rightarrow> edge_id \<Rightarrow> node_id \<Rightarrow> node_id \<Rightarrow> u32 \<Rightarrow> props \<Rightarrow> kv \<Rightarrow> kv" where
  "edge_rows pc p e s d y ps m \<equiv>
     kv_put AdjRev (adj_key p d y s e) []
       (kv_put AdjFwd (adj_key p s y d e) []
         (kv_put Edges (edge_key p e) (encode_edge_record pc s d y ps) m))"

lemma reprD_add_edge:
  assumes r: "reprD pc L T G m" and pc: "postcard_ok pc" "props_ok ps" and y: "T y = Some ty"
    and ctr: "m Meta META_NEXT_EDGE_ID = Some (be64 c)" "e < c" and fresh: "(p, e) \<notin> dom (ag_edge G)"
  shows "reprD pc L T (put_edge p e (s, d, ty, ps) G) (edge_rows pc p e s d y ps m)"
proof -
  note D = reprD_D [OF r]
  have "adj_repr keep_ends T ((ag_edge G)((p, e) \<mapsto> (s, d, ty, ps)))
      ((m AdjFwd)(adj_key p s y d e \<mapsto> []))"
    using adj_repr_put [OF D(10) fresh y reprD_inj(2) [OF r], of s d ps] by simp
  moreover have "adj_repr swap_ends T ((ag_edge G)((p, e) \<mapsto> (s, d, ty, ps)))
      ((m AdjRev)(adj_key p d y s e \<mapsto> []))"
    using adj_repr_put [OF D(11) fresh y reprD_inj(2) [OF r], of s d ps] by simp
  moreover have "edges_repr pc T ((ag_edge G)((p, e) \<mapsto> (s, d, ty, ps)))
      ((m Edges)(edge_key p e \<mapsto> encode_edge_record pc s d y ps))"
    by (rule rows_repr_put [OF D(6) edge_row_encode [where T = T, OF pc y]]) simp
  moreover have "ids_repr META_NEXT_EDGE_ID ((ag_edge G)((p, e) \<mapsto> (s, d, ty, ps))) (m Meta)"
    using D(4) ctr by (auto simp: ids_repr_def dom_fun_upd)
  ultimately show ?thesis using D by (simp add: reprD_def del: fun_upd_apply)
qed

lemma reprD_update_edge:
  assumes r: "reprD pc L T G m" and pc: "postcard_ok pc" "props_ok ps'" and y: "T y = Some ty"
    and e: "ag_edge G (p, e) = Some (s, d, ty, ps)"
  shows "reprD pc L T (put_edge p e (s, d, ty, ps') G)
           (kv_put Edges (edge_key p e) (encode_edge_record pc s d y ps') m)"
proof -
  note D = reprD_D [OF r]
  have "edges_repr pc T ((ag_edge G)((p, e) \<mapsto> (s, d, ty, ps')))
      ((m Edges)(edge_key p e \<mapsto> encode_edge_record pc s d y ps'))"
    by (rule rows_repr_put [OF D(6) edge_row_encode [where T = T, OF pc y]]) simp
  moreover have "ids_repr META_NEXT_EDGE_ID ((ag_edge G)((p, e) \<mapsto> (s, d, ty, ps'))) (m Meta)"
    by (rule ids_repr_dom [OF D(4)]) (use e in auto)
  ultimately show ?thesis using D adj_repr_keep [OF D(10) e] adj_repr_keep [OF D(11) e]
    by (simp add: reprD_def del: fun_upd_apply)
qed

lemma reprD_drop_edge:
  assumes r: "reprD pc L T G m" and y: "T y = Some ty"
    and e: "ag_edge G (p, e) = Some (s, d, ty, ps)"
  shows "reprD pc L T (drop_edge p e G)
           (kv_del Edges (edge_key p e)
             (kv_del AdjRev (adj_key p d y s e) (kv_del AdjFwd (adj_key p s y d e) m)))"
proof -
  note D = reprD_D [OF r]
  have "adj_repr keep_ends T ((ag_edge G)((p, e) := None)) ((m AdjFwd)(adj_key p s y d e := None))"
    using adj_repr_del [OF D(10) e y reprD_inj(2) [OF r]] by simp
  moreover have "adj_repr swap_ends T ((ag_edge G)((p, e) := None))
      ((m AdjRev)(adj_key p d y s e := None))"
    using adj_repr_del [OF D(11) e y reprD_inj(2) [OF r]] by simp
  moreover have "edges_repr pc T ((ag_edge G)((p, e) := None)) ((m Edges)(edge_key p e := None))"
    by (rule rows_repr_del [OF D(6)]) simp
  moreover have "ids_repr META_NEXT_EDGE_ID ((ag_edge G)((p, e) := None)) (m Meta)"
    by (rule ids_repr_dom [OF D(4)]) auto
  ultimately show ?thesis using D by (simp add: reprD_def del: fun_upd_apply)
qed

lemma reprD_retype_edge:
  assumes r: "reprD pc L T G m" and pc: "postcard_ok pc" "props_ok ps"
    and y: "T old = Some oty" "T new = Some ty" and e: "ag_edge G (p, e) = Some (s, d, oty, ps)"
  shows "reprD pc L T (put_edge p e (s, d, ty, ps) G)
           (kv_put Edges (edge_key p e) (encode_edge_record pc s d new ps)
             (kv_put AdjRev (adj_key p d new s e) []
               (kv_put AdjFwd (adj_key p s new d e) []
                 (kv_del AdjRev (adj_key p d old s e) (kv_del AdjFwd (adj_key p s old d e) m)))))"
proof -
  note D = reprD_D [OF r] and inj = reprD_inj(2) [OF r]
  have upd: "((ag_edge G)((p, e) := None))((p, e) \<mapsto> x) = (ag_edge G)((p, e) \<mapsto> x)" for x by simp
  have gone: "(p, e) \<notin> dom ((ag_edge G)((p, e) := None))" by simp
  have "adj_repr keep_ends T ((ag_edge G)((p, e) \<mapsto> (s, d, ty, ps)))
      ((m AdjFwd)(adj_key p s old d e := None, adj_key p s new d e \<mapsto> []))"
    using adj_repr_put [OF adj_repr_del [OF D(10) e y(1) inj] gone y(2) inj, of s d ps]
    by (simp add: upd del: fun_upd_apply)
  moreover have "adj_repr swap_ends T ((ag_edge G)((p, e) \<mapsto> (s, d, ty, ps)))
      ((m AdjRev)(adj_key p d old s e := None, adj_key p d new s e \<mapsto> []))"
    using adj_repr_put [OF adj_repr_del [OF D(11) e y(1) inj] gone y(2) inj, of s d ps]
    by (simp add: upd del: fun_upd_apply)
  moreover have "edges_repr pc T ((ag_edge G)((p, e) \<mapsto> (s, d, ty, ps)))
      ((m Edges)(edge_key p e \<mapsto> encode_edge_record pc s d new ps))"
    by (rule rows_repr_put [OF D(6) edge_row_encode [where T = T, OF pc y(2)]]) simp
  moreover have "ids_repr META_NEXT_EDGE_ID ((ag_edge G)((p, e) \<mapsto> (s, d, ty, ps))) (m Meta)"
    by (rule ids_repr_dom [OF D(4)]) (use e in auto)
  ultimately show ?thesis using D by (simp add: reprD_def del: fun_upd_apply)
qed

lemma reprD_bump_edge:
  assumes "reprD pc L T G m" "m Meta META_NEXT_EDGE_ID = Some (be64 c)" "c \<noteq> - 1"
  shows "reprD pc L T G (kv_put Meta META_NEXT_EDGE_ID (be64 (c + 1)) m)"
proof -
  note D = reprD_D [OF assms(1)]
  have "label_dict L ((m Meta)(META_NEXT_EDGE_ID \<mapsto> be64 (c + 1)))"
    "type_dict T ((m Meta)(META_NEXT_EDGE_ID \<mapsto> be64 (c + 1)))"
    by (rule dict_repr_other [OF D(1)], simp_all) (rule dict_repr_other [OF D(2)], simp_all)
  then show ?thesis
    using D ids_repr_bump(1) [OF D(4) assms(2,3)] ids_repr_other [OF D(3)]
    by (simp add: reprD_def del: fun_upd_apply)
qed

text \<open>The edges of a node, by direction, as \<open>neighbors\<close> reports them.\<close>

definition out_nbrs ::
    "((plane_id \<times> edge_id) \<Rightarrow> aedge option) \<Rightarrow> plane_id \<Rightarrow> node_id \<Rightarrow> str option \<Rightarrow> neighbor set" where
  "out_nbrs E p n tyo =
     {nb. \<exists>ty. has_edge E p (nb_edge nb) n (nb_node nb) ty \<and> (tyo = None \<or> tyo = Some ty)}"

definition in_nbrs ::
    "((plane_id \<times> edge_id) \<Rightarrow> aedge option) \<Rightarrow> plane_id \<Rightarrow> node_id \<Rightarrow> str option \<Rightarrow> neighbor set" where
  "in_nbrs E p n tyo =
     {nb. \<exists>ty. has_edge E p (nb_edge nb) (nb_node nb) n ty \<and> (tyo = None \<or> tyo = Some ty)}"

lemma prefix_adj:
  "prefix (adj_prefix p n) (adj_key q a y b e) \<longleftrightarrow> q = p \<and> a = n \<and> True"
  "prefix (adj_prefix_typed p n z) (adj_key q a y b e) \<longleftrightarrow> q = p \<and> a = n \<and> y = z"
  using prefix_be64_app [of n "[]" a] prefix_be32_app [of z "[]" y]
  by (auto simp: adj_prefix_def adj_prefix_typed_def adj_key_def)

context kv_txn begin

section \<open>Reads\<close>

lemma get_edge_run:
  assumes "inv t" "reprD pc L T G (view t)"
  shows "get_edge V pc t p e = Inr (map_option (edge_rec p e) (ag_edge G (p, e)))"
proof (cases "view t Edges (edge_key p e)")
  case None
  with reprD_D(6) [OF assms(2)] have "ag_edge G (p, e) = None" by (simp add: rows_repr_None)
  with None assms(1) show ?thesis by (simp add: get_edge_def tx_simps map_transpose_def)
next
  case (Some b)
  obtain r where r: "ag_edge G (p, e) = Some r" "edge_row pc T b r"
    by (rule rows_repr_Some [OF reprD_D(6) [OF assms(2)] Some])
  obtain s d ty ps where sdt: "r = (s, d, ty, ps)" by (cases r)
  with r obtain y where "decode_edge_record pc b = Inr (s, d, y, ps)" "T y = Some ty"
    by (auto simp: edge_row_def)
  with r sdt Some assms(1) dict_reprD(2,3) [OF reprD_D(2) [OF assms(2)]] show ?thesis
    by (simp add: get_edge_def tx_simps map_transpose_def edge_rec_def from_utf8_def)
qed

lemma load_edge_missing:
  assumes "inv t" "reprD pc L T G (view t)" "(p, e) \<notin> dom (ag_edge G)"
  shows "load_edge V pc t p e = Inl NotFound"
  using assms rows_repr_None [OF reprD_D(6) [OF assms(2)], of p e]
  by (simp add: load_edge_def tx_simps domIff del: not_None_eq)

lemma edge_row_found:
  assumes "reprD pc L T G (view t)" "ag_edge G (p, e) = Some (s, d, ty, ps)"
  obtains b y where "view t Edges (edge_key p e) = Some b"
    "decode_edge_record pc b = Inr (s, d, y, ps)" "T y = Some ty" "props_ok ps"
  by (rule rows_repr_row [OF reprD_D(6) [OF assms(1)] assms(2)]) (use that in \<open>auto simp: edge_row_def\<close>)

lemma scan_edges_run:
  assumes "inv t" "reprD pc L T G (view t)"
  shows "scan_edges V t p = Inr (sorted_list_of_set {e. (p, e) \<in> dom (ag_edge G)})"
proof -
  note D = reprD_D(6) [OF assms(2)]
  let ?xs = "scan1 V t Edges (plane_key p)"
  have parse: "parse_node_key (edge_key q n) = Inr (q, n)" for q n
    using parse_node_key_node_key by (simp add: node_key_def edge_key_def)
  have "scan_edges V t p = Inr (sorted_list_of_set {e. edge_key p e \<in> fst ` set ?xs})"
    unfolding scan_edges_def prefix_range_simp [OF assms(1)] res_bind_Inr
  proof (rule scan_ids [OF bt_ok_scan1 [OF assms(1)]])
    fix k v assume "(k, v) \<in> set ?xs"
    then have *: "prefix (plane_key p) k" "view t Edges k = Some v"
      by (auto simp: set_scan1 [OF assms(1)])
    then obtain q n where "k = edge_key q n" using rows_repr_key [OF D] by blast
    with * show "\<exists>n. k = edge_key p n" by auto
  qed (simp_all add: key_less parse)
  also have "{e. edge_key p e \<in> fst ` set ?xs} = {e. (p, e) \<in> dom (ag_edge G)}"
    using rows_repr_None [OF D, of p]
    by (simp add: fst_scan1 [OF assms(1)] prefix_plane_key domIff del: not_None_eq)
  finally show ?thesis .
qed

section \<open>Creation, mutation, deletion\<close>

lemma insert_edge_run:
  assumes inv: "inv t" and r: "reprD pc L T G (view t)" and pc: "postcard_ok pc" "props_ok ps"
    and utf: "utf8_ok ty" and room: "room META_NEXT_EDGE_TYPE_ID (2 ^ 32) (Suc k) (view t)"
    and ends: "(p, s) \<in> dom (ag_node G)" "(p, d) \<in> dom (ag_node G)"
    and ctr: "view t Meta META_NEXT_EDGE_ID = Some (be64 c)" "e < c"
    and fresh: "(p, e) \<notin> dom (ag_edge G)"
  shows "\<exists>t' T'. insert_edge V pc p e s d ty ps t = (Inr (), t') \<and> inv t' \<and>
    reprD pc L T' (put_edge p e (s, d, ty, ps) G) (view t') \<and>
    type_frame (view t) (\<lambda>tb. if tb = Meta then view t' Meta else view t tb) \<and>
    room META_NEXT_EDGE_TYPE_ID (2 ^ 32) k (view t')"
proof -
  obtain y t1 T' where 1: "intern_edge_type V ty t = (Inr y, t1)" "inv t1" "T' y = Some ty"
    "reprD pc L T' G (view t1)" "type_frame (view t) (view t1)"
    "room META_NEXT_EDGE_TYPE_ID (2 ^ 32) k (view t1)"
    using intern_edge_type_run [OF inv r utf room] by blast
  have chk: "check_endpoint V p n t = (Inr (), t)" if "(p, n) \<in> dom (ag_node G)" for n
    using node_exists_run [OF inv r] that
    by (simp add: check_endpoint_def act_bind_reading del: domIff)
  let ?t' = "put1 V AdjRev (adj_key p d y s e) [] (put1 V AdjFwd (adj_key p s y d e) []
      (put1 V Edges (edge_key p e) (encode_edge_record pc s d y ps) t1))"
  have "insert_edge V pc p e s d ty ps t = (Inr (), ?t')"
    using 1(1,2) chk [OF ends(1)] chk [OF ends(2)]
    by (simp add: insert_edge_def act_bind_def tx_simps)
  moreover have "reprD pc L T' (put_edge p e (s, d, ty, ps) G) (view ?t')"
    using reprD_add_edge [OF 1(4) pc 1(3) _ ctr(2) fresh] ctr(1) type_frame_meta(2) [OF 1(5)] 1(2)
    by (simp add: tx_simps)
  moreover have "inv ?t'" using 1(2) by (simp add: tx_simps)
  moreover have meta: "view ?t' Meta = view t1 Meta" using 1(2) by (simp add: tx_simps)
  moreover from this have "type_frame (view t) (\<lambda>tb. if tb = Meta then view ?t' Meta else view t tb)"
    using 1(5) by (simp add: dict_frame_def)
  moreover have "room META_NEXT_EDGE_TYPE_ID (2 ^ 32) k (view ?t')" using 1(6) by (simp add: room_def meta)
  ultimately show ?thesis by (intro exI conjI) simp_all
qed

lemma insert_edge_mismatch:
  assumes inv: "inv t" and r: "reprD pc L T G (view t)"
    and ends: "(p, s) \<notin> dom (ag_node G) \<or> (p, d) \<notin> dom (ag_node G)"
  shows "insert_edge V pc p e s d ty ps t = (Inl PlaneMismatch, t)"
proof -
  have "check_endpoint V p n t = (if (p, n) \<in> dom (ag_node G) then Inr () else Inl PlaneMismatch, t)"
    for n using node_exists_run [OF inv r] by (simp add: check_endpoint_def act_bind_reading del: domIff)
  then show ?thesis using ends by (auto simp: insert_edge_def act_bind_def simp del: domIff)
qed

lemma next_edge_run:
  assumes inv: "inv t" and r: "reprD pc L T G (view t)"
    and room: "room META_NEXT_EDGE_ID (2 ^ 64 - 1) (Suc k) (view t)"
  obtains c t1 where "next_id V META_NEXT_EDGE_ID t = (Inr c, t1)" "inv t1" "reprD pc L T G (view t1)"
    "view t1 = kv_put Meta META_NEXT_EDGE_ID (be64 (c + 1)) (view t)" "c < c + 1"
    "\<And>q. (q, c) \<notin> dom (ag_edge G)" "unat (c + 1) + k \<le> 2 ^ 64 - 1"
    "view t Meta META_NEXT_EDGE_ID = Some (be64 c)"
proof -
  obtain c where c: "view t Meta META_NEXT_EDGE_ID = Some (be64 c)" "unat c + Suc k \<le> 2 ^ 64 - 1"
    using room by (rule roomE)
  have max: "c \<noteq> - 1" using c(2) by (intro word_not_max) simp
  have v: "view (put1 V Meta META_NEXT_EDGE_ID (be64 (c + 1)) t) =
      kv_put Meta META_NEXT_EDGE_ID (be64 (c + 1)) (view t)" by (rule view_put1 [OF inv])
  show thesis
  proof (rule that [OF next_id_run [OF inv c(1)] inv_put1 [OF inv] _ v word_self_less_succ [OF max]
        _ _ c(1)])
    show "reprD pc L T G (view (put1 V Meta META_NEXT_EDGE_ID (be64 (c + 1)) t))"
      unfolding v by (rule reprD_bump_edge [OF r c(1) max])
    show "(q, c) \<notin> dom (ag_edge G)" for q
      by (rule ids_repr_bump(2) [OF reprD_D(4) [OF r] c(1) max])
    show "unat (c + 1) + k \<le> 2 ^ 64 - 1" using c(2) by (simp add: unat_succ [OF max])
  qed
qed

lemma create_edge_run:
  assumes inv: "inv t" and r: "reprD pc L T G (view t)" and pc: "postcard_ok pc" "props_ok ps"
    and utf: "utf8_ok ty" and room: "roomy (Suc k) (view t)"
    and ends: "(p, s) \<in> dom (ag_node G)" "(p, d) \<in> dom (ag_node G)"
  shows "\<exists>e t' T'. create_edge V pc p s d ty ps t = (Inr e, t') \<and> inv t' \<and>
    (\<forall>q. (q, e) \<notin> dom (ag_edge G)) \<and> reprD pc L T' (put_edge p e (s, d, ty, ps) G) (view t') \<and>
    roomy k (view t') \<and> view t Meta META_NEXT_EDGE_ID = Some (be64 e)"
proof -
  have re: "room META_NEXT_EDGE_ID (2 ^ 64 - 1) (Suc k) (view t)"
    and rt: "room META_NEXT_EDGE_TYPE_ID (2 ^ 32) (Suc k) (view t)"
    and rest: "room META_NEXT_NODE_ID (2 ^ 64 - 1) k (view t)" "room META_NEXT_LABEL_ID (2 ^ 32) k (view t)"
    using room unfolding roomy_def by (auto elim!: room_mono)
  obtain c t1 where 1: "next_id V META_NEXT_EDGE_ID t = (Inr c, t1)" "inv t1" "reprD pc L T G (view t1)"
    "view t1 = kv_put Meta META_NEXT_EDGE_ID (be64 (c + 1)) (view t)" "c < c + 1"
    "\<And>q. (q, c) \<notin> dom (ag_edge G)" "unat (c + 1) + k \<le> 2 ^ 64 - 1"
    "view t Meta META_NEXT_EDGE_ID = Some (be64 c)" using next_edge_run [OF inv r re] by blast
  have room1: "room META_NEXT_EDGE_TYPE_ID (2 ^ 32) (Suc k) (view t1)"
    using rt by (simp add: room_def 1(4))
  have ctr: "view t1 Meta META_NEXT_EDGE_ID = Some (be64 (c + 1))" by (simp add: 1(4))
  obtain t' T' where t': "insert_edge V pc p c s d ty ps t1 = (Inr (), t')" "inv t'"
    "reprD pc L T' (put_edge p c (s, d, ty, ps) G) (view t')"
    "type_frame (view t1) (\<lambda>tb. if tb = Meta then view t' Meta else view t1 tb)"
    "room META_NEXT_EDGE_TYPE_ID (2 ^ 32) k (view t')"
    using insert_edge_run [OF 1(2,3) pc utf room1 ends ctr 1(5,6)] by blast
  have "roomy k (view t')"
    using t'(5) rest 1(7) type_frame_meta(1-3) [OF t'(4)]
    by (simp add: roomy_def room_def 1(4))
  with t' 1(1,6,8) show ?thesis
    by (intro exI [of _ c] exI [of _ t'] exI [of _ T'])
       (simp add: create_edge_def act_bind_def del: domIff)
qed

lemma create_edge_mismatch:
  assumes inv: "inv t" and r: "reprD pc L T G (view t)"
    and room: "roomy (Suc k) (view t)"
    and ends: "(p, s) \<notin> dom (ag_node G) \<or> (p, d) \<notin> dom (ag_node G)"
  shows "\<exists>t'. create_edge V pc p s d ty ps t = (Inl PlaneMismatch, t') \<and> inv t' \<and>
    reprD pc L T G (view t')"
proof -
  have re: "room META_NEXT_EDGE_ID (2 ^ 64 - 1) (Suc k) (view t)" using room by (simp add: roomy_def)
  obtain c t1 where 1: "next_id V META_NEXT_EDGE_ID t = (Inr c, t1)" "inv t1" "reprD pc L T G (view t1)"
    using next_edge_run [OF inv r re] by metis
  with insert_edge_mismatch [OF 1(2,3) ends] show ?thesis by (simp add: create_edge_def act_bind_def)
qed

lemma load_edge_found:
  assumes "inv t" "reprD pc L T G (view t)" "ag_edge G (p, e) = Some (s, d, ty, ps)"
  obtains y where "load_edge V pc t p e = Inr (s, d, y, ps)" "T y = Some ty" "props_ok ps"
proof -
  obtain b y where *: "view t Edges (edge_key p e) = Some b"
    "decode_edge_record pc b = Inr (s, d, y, ps)" "T y = Some ty" "props_ok ps"
    by (rule edge_row_found [OF assms(2,3)])
  show thesis by (rule that [of y]) (use * assms(1) in \<open>simp_all add: load_edge_def tx_simps\<close>)
qed

lemma update_edge_run:
  assumes inv: "inv t" and r: "reprD pc L T G (view t)" and pc: "postcard_ok pc"
    and e: "ag_edge G (p, e) = Some (s, d, ty, ps)" and ps': "props_ok ps \<Longrightarrow> props_ok (f ps)"
  shows "\<exists>t'. act_bind (reading (\<lambda>t. load_edge V pc t p e)) (\<lambda>(s, d, y, ps).
        v_put V Edges (edge_key p e) (encode_edge_record pc s d y (f ps))) t = (Inr (), t') \<and>
    inv t' \<and> reprD pc L T (put_edge p e (s, d, ty, f ps) G) (view t')"
proof -
  obtain y where l: "load_edge V pc t p e = Inr (s, d, y, ps)" "T y = Some ty" "props_ok ps"
    by (rule load_edge_found [OF inv r e])
  show ?thesis using reprD_update_edge [OF r pc ps' [OF l(3)] l(2) e] inv l(1)
    by (simp add: act_bind_reading tx_simps)
qed

lemma set_edge_prop_run:
  assumes "inv t" "reprD pc L T G (view t)" "postcard_ok pc" "ag_edge G (p, e) = Some (s, d, ty, ps)"
    "utf8_ok key" "desc_ok x"
  shows "\<exists>t'. set_edge_prop V pc p e key x t = (Inr (), t') \<and> inv t' \<and>
    reprD pc L T (put_edge p e (s, d, ty, bt_insert key x ps) G) (view t')"
  unfolding set_edge_prop_def
  by (rule update_edge_run [OF assms(1-4)]) (use assms(5,6) in \<open>simp add: props_ok_insert\<close>)

lemma remove_edge_prop_run:
  assumes "inv t" "reprD pc L T G (view t)" "postcard_ok pc" "ag_edge G (p, e) = Some (s, d, ty, ps)"
  shows "\<exists>t'. remove_edge_prop V pc p e key t = (Inr (), t') \<and> inv t' \<and>
    reprD pc L T (put_edge p e (s, d, ty, bt_remove key ps) G) (view t')"
  unfolding remove_edge_prop_def
  by (rule update_edge_run [OF assms]) (simp add: props_ok_remove)

lemma set_edge_type_run:
  assumes inv: "inv t" and r: "reprD pc L T G (view t)" and pc: "postcard_ok pc"
    and e: "ag_edge G (p, e) = Some (s, d, oty, ps)" and utf: "utf8_ok ty"
    and room: "roomy 1 (view t)"
  shows "\<exists>t' T'. set_edge_type V pc p e ty t = (Inr (), t') \<and> inv t' \<and>
    reprD pc L T' (put_edge p e (s, d, ty, ps) G) (view t')"
proof -
  have room': "room META_NEXT_EDGE_TYPE_ID (2 ^ 32) (Suc 0) (view t)" using room by (simp add: roomy_def)
  obtain old where l: "load_edge V pc t p e = Inr (s, d, old, ps)" "T old = Some oty" "props_ok ps"
    by (rule load_edge_found [OF inv r e])
  obtain new t1 T' where 1: "intern_edge_type V ty t = (Inr new, t1)" "inv t1" "T \<subseteq>\<^sub>m T'"
    "T' new = Some ty" "reprD pc L T' G (view t1)"
    using intern_edge_type_run [OF inv r utf room'] by blast
  have old: "T' old = Some oty" using l(2) 1(3) by (metis domI map_le_def)
  show ?thesis
  proof (cases "new = old")
    case True
    with old 1(4) have "oty = ty" by simp
    with True 1 l(1,3) show ?thesis using reprD_update_edge [OF 1(5) pc l(3) 1(4), of p e s d ps] e
      by (intro exI [of _ "put1 V Edges (edge_key p e) (encode_edge_record pc s d new ps) t1"]
            exI [of _ T']) (simp add: set_edge_type_def act_bind_def tx_simps)
  next
    case False
    let ?t = "put1 V Edges (edge_key p e) (encode_edge_record pc s d new ps)
      (put1 V AdjRev (adj_key p d new s e) [] (put1 V AdjFwd (adj_key p s new d e) []
        (del1 V AdjRev (adj_key p d old s e) (del1 V AdjFwd (adj_key p s old d e) t1))))"
    from False 1 l(1) show ?thesis using reprD_retype_edge [OF 1(5) pc l(3) old 1(4) e]
      by (intro exI [of _ ?t] exI [of _ T']) (simp add: set_edge_type_def act_bind_def tx_simps)
  qed
qed

lemma delete_edge_run:
  assumes inv: "inv t" and r: "reprD pc L T G (view t)"
  shows "\<exists>t'. delete_edge V pc p e t = (Inr (), t') \<and> inv t' \<and>
    reprD pc L T (drop_edge p e G) (view t')"
proof (cases "ag_edge G (p, e)")
  case None
  then have "drop_edge p e G = G" by (simp add: drop_edge_def fun_upd_idem)
  moreover have "view t Edges (edge_key p e) = None"
    using None rows_repr_None [OF reprD_D(6) [OF r]] by simp
  ultimately show ?thesis using inv r by (simp add: delete_edge_def act_bind_def tx_simps)
next
  case (Some a)
  obtain s d ty ps where e: "ag_edge G (p, e) = Some (s, d, ty, ps)" using Some by (cases a) auto
  obtain b y where *: "view t Edges (edge_key p e) = Some b"
    "decode_edge_record pc b = Inr (s, d, y, ps)" "T y = Some ty"
    by (rule edge_row_found [OF r e])
  show ?thesis using reprD_drop_edge [OF r *(3) e] * inv
    by (simp add: delete_edge_def act_bind_def tx_simps)
qed

lemma delete_edges_run:
  assumes "inv t" "reprD pc L T G (view t)"
  shows "\<exists>t'. act_iter (delete_edge V pc p) es t = (Inr (), t') \<and> inv t' \<and>
    reprD pc L T (fold (drop_edge p) es G) (view t')"
  using assms
proof (induction es arbitrary: t G)
  case (Cons e es)
  from delete_edge_run [OF Cons.prems] obtain t1 where
    "delete_edge V pc p e t = (Inr (), t1)" "inv t1" "reprD pc L T (drop_edge p e G) (view t1)"
    by blast
  with Cons.IH [of t1 "drop_edge p e G"] show ?case by (auto simp: act_bind_def)
qed auto

section \<open>Expansion\<close>

lemma adj_scan_run:
  assumes inv: "inv t" and a: "adj_repr flip T E (view t tb)" and inj: "name_inj T"
    and pre: "\<And>q a y b e. prefix pr (adj_key q a y b e) \<longleftrightarrow> q = p \<and> a = n \<and> Y y"
  shows "\<exists>ns. adj_scan V t pr tb = Inr ns \<and> distinct ns \<and>
    set ns = {nb. \<exists>s d ty y. has_edge E p (nb_edge nb) s d ty \<and> T y = Some ty \<and> Y y \<and>
                flip (s, d) = (n, nb_node nb)}"
proof -
  let ?xs = "scan1 V t tb pr"
  have row: "(k, v) \<in> set ?xs \<longleftrightarrow> prefix pr k \<and> v = [] \<and> adj_row flip T E k" for k v
    using a unfolding set_scan1 [OF inv] adj_repr_def by simp
  have rowE: "\<exists>s d ty y. k = adj_key p n y (snd (flip (s, d))) e \<and> fst (flip (s, d)) = n \<and> v = [] \<and>
      T y = Some ty \<and> Y y \<and> has_edge E p e s d ty"
    if "(k, v) \<in> set ?xs" "parse_adj_key k = Inr en" "ae_edge en = e" for k v e en
    using that unfolding row adj_row_def by (auto simp: pre) (metis surjective_pairing)
  define g where "g = (\<lambda>kv :: kvpair. case parse_adj_key (fst kv) of
      Inl _ \<Rightarrow> \<lparr>nb_node = 0, nb_edge = 0\<rparr> | Inr en \<Rightarrow> \<lparr>nb_node = ae_to en, nb_edge = ae_edge en\<rparr>)"
  have ok: "\<exists>en. parse_adj_key k = Inr en" if "(k, v) \<in> set ?xs" for k v
    using that unfolding row adj_row_def by auto
  have "adj_scan V t pr tb = Inr (map g ?xs)"
    unfolding adj_scan_def prefix_range_simp [OF inv] res_bind_Inr
    by (rule res_map_Inr) (use ok in \<open>fastforce simp: g_def\<close>)
  moreover have "inj_on g (set ?xs)"
  proof (rule inj_onI)
    fix kv kv' assume in1: "kv \<in> set ?xs" and in2: "kv' \<in> set ?xs" and eq: "g kv = g kv'"
    obtain k v k' v' where kv: "kv = (k, v)" "kv' = (k', v')" by fastforce
    obtain en en' where en: "parse_adj_key k = Inr en" "parse_adj_key k' = Inr en'"
      using ok in1 in2 kv by blast
    with eq kv have e: "ae_edge en' = ae_edge en" by (simp add: g_def)
    obtain s d ty y where 1: "k = adj_key p n y (snd (flip (s, d))) (ae_edge en)" "v = []"
      "T y = Some ty" "has_edge E p (ae_edge en) s d ty" using rowE in1 kv en(1) by blast
    obtain s' d' ty' y' where 2: "k' = adj_key p n y' (snd (flip (s', d'))) (ae_edge en)" "v' = []"
      "T y' = Some ty'" "has_edge E p (ae_edge en) s' d' ty'" using rowE in2 kv en(2) e by blast
    from has_edge_unique [OF 1(4) 2(4)] 1 2 name_injD [OF inj 1(3)] show "kv = kv'" by (simp add: kv)
  qed
  moreover have "distinct ?xs" using bt_ok_distinct [OF bt_ok_scan1 [OF inv]] by (simp add: distinct_map)
  moreover have "set (map g ?xs) = {nb. \<exists>s d ty y. has_edge E p (nb_edge nb) s d ty \<and> T y = Some ty \<and>
      Y y \<and> flip (s, d) = (n, nb_node nb)}" (is "_ = ?R")
  proof (intro set_eqI iffI)
    fix nb assume "nb \<in> set (map g ?xs)"
    then obtain k v where kv: "(k, v) \<in> set ?xs" "nb = g (k, v)" by auto
    with ok obtain en where en: "parse_adj_key k = Inr en" by blast
    obtain s d ty y where 1: "k = adj_key p n y (snd (flip (s, d))) (ae_edge en)"
      "fst (flip (s, d)) = n" "T y = Some ty" "Y y" "has_edge E p (ae_edge en) s d ty"
      using rowE kv(1) en by blast
    then have "nb = \<lparr>nb_node = snd (flip (s, d)), nb_edge = ae_edge en\<rparr>" using kv(2) by (simp add: g_def)
    with 1 show "nb \<in> ?R" by (auto simp: prod_eq_iff)
  next
    fix nb assume "nb \<in> ?R"
    then obtain s d ty y where 1: "has_edge E p (nb_edge nb) s d ty" "T y = Some ty" "Y y"
      "flip (s, d) = (n, nb_node nb)" by blast
    let ?k = "adj_key p n y (nb_node nb) (nb_edge nb)"
    have "adj_row flip T E ?k" unfolding adj_row_def
      by (rule exI [of _ p], rule exI [of _ "nb_edge nb"], rule exI [of _ s], rule exI [of _ d],
          rule exI [of _ y], rule exI [of _ ty]) (use 1 in simp)
    then have "(?k, []) \<in> set ?xs" using 1(3) by (simp add: row pre)
    moreover have "g (?k, []) = nb" by (simp add: g_def)
    ultimately show "nb \<in> set (map g ?xs)" by (metis image_eqI list.set_map)
  qed
  ultimately show ?thesis by (metis distinct_map)
qed

lemma adj_scans_run:
  assumes inv: "inv t" and r: "reprD pc L T G (view t)"
    and pre: "\<And>q a y b e. prefix pr (adj_key q a y b e) \<longleftrightarrow> q = p \<and> a = n \<and> Y y"
    and Y: "\<And>y ty. T y = Some ty \<Longrightarrow> Y y \<longleftrightarrow> tyo = None \<or> tyo = Some ty"
  obtains outs ins where "adj_scan V t pr AdjFwd = Inr outs" "adj_scan V t pr AdjRev = Inr ins"
    "distinct outs" "distinct ins" "set outs = out_nbrs (ag_edge G) p n tyo"
    "set ins = in_nbrs (ag_edge G) p n tyo"
proof -
  note D = reprD_D [OF r] and inj = reprD_inj(2) [OF r]
  have ty: "(\<exists>y. T y = Some ty \<and> Y y) \<longleftrightarrow> tyo = None \<or> tyo = Some ty"
    if "has_edge (ag_edge G) p e s d ty" for e s d ty
    using reprD_type_names [OF r that] Y by blast
  obtain outs where o: "adj_scan V t pr AdjFwd = Inr outs" "distinct outs"
    "set outs = {nb. \<exists>s d ty y. has_edge (ag_edge G) p (nb_edge nb) s d ty \<and> T y = Some ty \<and> Y y \<and>
       keep_ends (s, d) = (n, nb_node nb)}"
    using adj_scan_run [OF inv D(10) inj pre] by blast
  obtain ins where i: "adj_scan V t pr AdjRev = Inr ins" "distinct ins"
    "set ins = {nb. \<exists>s d ty y. has_edge (ag_edge G) p (nb_edge nb) s d ty \<and> T y = Some ty \<and> Y y \<and>
       swap_ends (s, d) = (n, nb_node nb)}"
    using adj_scan_run [OF inv D(11) inj pre] by blast
  have "set outs = out_nbrs (ag_edge G) p n tyo"
    unfolding o(3) out_nbrs_def ends_simps prod.inject using ty [of _ n] by blast
  moreover have "set ins = in_nbrs (ag_edge G) p n tyo"
    unfolding i(3) in_nbrs_def ends_simps prod.inject using ty [of _ _ n] by blast
  ultimately show thesis using that o i by blast
qed

lemma neighbors_run:
  assumes inv: "inv t" and r: "reprD pc L T G (view t)"
  shows "\<exists>outs ins. neighbors V t p n Out tyo = Inr outs \<and> neighbors V t p n In tyo = Inr ins \<and>
    neighbors V t p n Both tyo = Inr (outs @ ins) \<and> distinct outs \<and> distinct ins \<and>
    set outs = out_nbrs (ag_edge G) p n tyo \<and> set ins = in_nbrs (ag_edge G) p n tyo"
proof (cases tyo)
  case None
  obtain outs ins where "adj_scan V t (adj_prefix p n) AdjFwd = Inr outs"
    "adj_scan V t (adj_prefix p n) AdjRev = Inr ins" "distinct outs" "distinct ins"
    "set outs = out_nbrs (ag_edge G) p n tyo" "set ins = in_nbrs (ag_edge G) p n tyo"
    by (rule adj_scans_run [OF inv r prefix_adj(1)]) (use None in auto)
  then show ?thesis by (simp add: neighbors_def None)
next
  case (Some ty)
  note look = lookup_edge_type_run [OF inv reprD_D(2) [OF r], of ty]
  obtain found where f: "lookup_edge_type V t ty = Inr found" using look(3) by blast
  show ?thesis
  proof (cases found)
    case None
    then have "\<not> has_edge (ag_edge G) p e s d ty" for e s d
      using look(2) f reprD_type_names [OF r] by blast
    then show ?thesis using None f Some by (simp add: neighbors_def out_nbrs_def in_nbrs_def)
  next
    case (Some y)
    with look(1) [of y] f have y: "T y = Some ty" by simp
    obtain outs ins where "adj_scan V t (adj_prefix_typed p n y) AdjFwd = Inr outs"
      "adj_scan V t (adj_prefix_typed p n y) AdjRev = Inr ins" "distinct outs" "distinct ins"
      "set outs = out_nbrs (ag_edge G) p n tyo" "set ins = in_nbrs (ag_edge G) p n tyo"
      by (rule adj_scans_run [OF inv r prefix_adj(2) [of p n y], where tyo = tyo])
         (use \<open>tyo = Some ty\<close> y name_injD [OF reprD_inj(2) [OF r]] in auto)
    then show ?thesis using f Some \<open>tyo = Some ty\<close> by (simp add: neighbors_def)
  qed
qed

end

section \<open>Deleting a node and everything attached to it\<close>

definition incident :: "agraph \<Rightarrow> plane_id \<Rightarrow> node_id \<Rightarrow> edge_id \<Rightarrow> bool" where
  "incident G p n e \<longleftrightarrow>
     (\<exists>m ty. has_edge (ag_edge G) p e n m ty \<or> has_edge (ag_edge G) p e m n ty)"

definition cascade :: "plane_id \<Rightarrow> node_id \<Rightarrow> agraph \<Rightarrow> agraph" where
  "cascade p n G =
     \<lparr>ag_node = (ag_node G)((p, n) := None),
      ag_edge = (\<lambda>(q, e). if q = p \<and> incident G p n e then None else ag_edge G (q, e))\<rparr>"

lemma fold_drop_edge:
  "ag_node (fold (drop_edge p) es G) = ag_node G"
  "ag_edge (fold (drop_edge p) es G) = (\<lambda>(q, e). if q = p \<and> e \<in> set es then None else ag_edge G (q, e))"
  by (induction es arbitrary: G) (auto simp: fun_eq_iff)

lemma cascade_fold:
  assumes "set es = {e. incident G p n e}"
  shows "drop_node p n (fold (drop_edge p) es G) = cascade p n G"
  by (rule agraph.equality) (simp_all add: cascade_def fold_drop_edge assms)

lemma incident_iff: "has_edge (ag_edge G) p e s d ty \<Longrightarrow> incident G p n e \<longleftrightarrow> s = n \<or> d = n"
  by (auto simp: incident_def dest: has_edge_unique)

lemma has_edge_cascade:
  "has_edge (ag_edge (cascade p n G)) q e s d ty \<longleftrightarrow>
     has_edge (ag_edge G) q e s d ty \<and> \<not> (q = p \<and> (s = n \<or> d = n))"
proof (cases "has_edge (ag_edge G) q e s d ty")
  case True
  then show ?thesis using incident_iff [of G q e s d ty n]
    by (auto simp: cascade_def has_edge_def split: option.splits)
next
  case False
  then show ?thesis by (auto simp: cascade_def has_edge_def split: option.splits if_splits)
qed

lemma dom_cascade: "dom (ag_node (cascade p n G)) = dom (ag_node G) - {(p, n)}"
  by (simp add: cascade_def)

lemma ag_ok_cascade: "ag_ok G \<Longrightarrow> ag_ok (cascade p n G)"
  unfolding ag_ok_def has_edge_cascade dom_cascade by blast

lemma cascade_absent:
  assumes "ag_ok G" "(p, n) \<notin> dom (ag_node G)"
  shows "cascade p n G = G"
proof -
  have "\<not> incident G p n e" for e using assms unfolding ag_ok_def incident_def by blast
  then show ?thesis using assms(2) by (intro agraph.equality) (auto simp: cascade_def domIff)
qed

lemma set_sort_dedup [simp]: "set (sort_dedup xs) = set xs"
  by (simp add: sort_dedup_def)

definition node_gone :: "plane_id \<Rightarrow> node_id \<Rightarrow> str option \<Rightarrow> u32 list \<Rightarrow> kv \<Rightarrow> kv" where
  "node_gone p n ek lids m =
     (let m' = kv_dels LabelIdx (map (\<lambda>l. label_idx_key p l n) lids) m;
          m'' = (case ek of None \<Rightarrow> m' | Some key \<Rightarrow> kv_del ExtKeys (ext_key_key p key) m')
      in kv_del Nodes (node_key p n) (kv_del NodePlane (node_plane_key n) m''))"

lemma node_gone_tables:
  "node_gone p n ek lids m Nodes = (m Nodes)(node_key p n := None)"
  "node_gone p n ek lids m NodePlane = (m NodePlane)(node_plane_key n := None)"
  "node_gone p n ek lids m LabelIdx =
     (\<lambda>k. if k \<in> set (map (\<lambda>l. label_idx_key p l n) lids) then None else m LabelIdx k)"
  "node_gone p n None lids m ExtKeys = m ExtKeys"
  "node_gone p n (Some key) lids m ExtKeys = (m ExtKeys)(ext_key_key p key := None)"
  "tb \<notin> {Nodes, NodePlane, LabelIdx, ExtKeys} \<Longrightarrow> node_gone p n ek lids m tb = m tb"
  unfolding node_gone_def Let_def
  subgoal by (cases ek) (simp_all del: fun_upd_apply)
  subgoal by (cases ek) (simp_all del: fun_upd_apply)
  subgoal by (cases ek) (simp_all add: kv_dels_same del: fun_upd_apply)
  subgoal by (simp del: fun_upd_apply)
  subgoal by (simp del: fun_upd_apply)
  subgoal by (cases ek) (simp_all del: fun_upd_apply)
  done

lemma reprD_drop_node:
  assumes r: "reprD pc L T G m" and n: "ag_node G (p, n) = Some (ek, ls, ps)"
    and lids: "map L lids = map Some ls"
  shows "reprD pc L T (drop_node p n G) (node_gone p n ek lids m)"
proof -
  note D = reprD_D [OF r] and tabs = node_gone_tables
  have "nodes_repr pc L ((ag_node G)((p, n) := None)) (node_gone p n ek lids m Nodes)"
    unfolding tabs by (rule rows_repr_del [OF D(5)]) simp
  moreover have "np_repr ((ag_node G)((p, n) := None)) (node_gone p n ek lids m NodePlane)"
    unfolding tabs by (rule np_repr_del [OF D(7)]) (use n in blast)
  moreover have "li_repr L ((ag_node G)((p, n) := None)) (node_gone p n ek lids m LabelIdx)"
    unfolding tabs by (rule li_repr_del [OF D(8) lids n reprD_inj(1) [OF r]])
  moreover have "xk_repr ((ag_node G)((p, n) := None)) (node_gone p n ek lids m ExtKeys)"
    using xk_repr_del [OF D(9)] xk_repr_del_nokey [OF D(9)] n by (cases ek) (simp_all add: tabs)
  moreover have "ids_repr META_NEXT_NODE_ID ((ag_node G)((p, n) := None)) (m Meta)"
    by (rule ids_repr_dom [OF D(3)]) auto
  ultimately show ?thesis using D by (simp add: reprD_def tabs(6) del: fun_upd_apply)
qed

context kv_txn begin

lemma incident_edges_run:
  assumes inv: "inv t" and r: "reprD pc L T G (view t)"
  obtains es where "incident_edges V t p n = Inr es" "set es = {e. incident G p n e}"
proof -
  obtain outs ins where *: "adj_scan V t (adj_prefix p n) AdjFwd = Inr outs"
    "adj_scan V t (adj_prefix p n) AdjRev = Inr ins"
    "set outs = out_nbrs (ag_edge G) p n None" "set ins = in_nbrs (ag_edge G) p n None"
    by (rule adj_scans_run [OF inv r prefix_adj(1), where tyo = None]) auto
  have nb: "e \<in> nb_edge ` S \<longleftrightarrow> (\<exists>m. \<lparr>nb_node = m, nb_edge = e\<rparr> \<in> S)" for e and S :: "neighbor set"
  proof
    assume "e \<in> nb_edge ` S"
    then obtain nb where "nb \<in> S" "e = nb_edge nb" by blast
    then show "\<exists>m. \<lparr>nb_node = m, nb_edge = e\<rparr> \<in> S" by (cases nb) auto
  qed force
  have "nb_edge ` (set outs \<union> set ins) = {e. incident G p n e}"
    unfolding *(3,4) set_eq_iff nb by (auto simp: out_nbrs_def in_nbrs_def incident_def)
  with *(1,2) show thesis
    by (intro that [of "sort_dedup (map nb_edge (outs @ ins))"])
       (simp_all add: incident_edges_def image_Un)
qed

lemma delete_node_missing:
  assumes inv: "inv t" and r: "reprD pc L T G (view t)" and n: "(p, n) \<notin> dom (ag_node G)"
  shows "delete_node V pc p n t = (Inr (), t)"
proof -
  have "view t Nodes (node_key p n) = None"
    using n rows_repr_None [OF reprD_D(5) [OF r], of p n] by (simp add: domIff del: not_None_eq)
  with inv show ?thesis by (simp add: delete_node_def act_bind_def tx_simps)
qed

lemma delete_node_run:
  assumes inv: "inv t" and r: "reprD pc L T G (view t)"
    and n: "ag_node G (p, n) = Some (ek, ls, ps)"
  shows "\<exists>t'. delete_node V pc p n t = (Inr (), t') \<and> inv t' \<and> reprD pc L T (cascade p n G) (view t')"
proof -
  obtain b where b: "view t Nodes (node_key p n) = Some b" "node_row pc L b (ek, ls, ps)"
    by (rule rows_repr_row [OF reprD_D(5) [OF r] n])
  then obtain lids where l: "decode_node_record pc b = Inr (ek, lids, ps)" "map L lids = map Some ls"
    by (auto simp: node_row_def)
  obtain es where es: "incident_edges V t p n = Inr es" "set es = {e. incident G p n e}"
    by (rule incident_edges_run [OF inv r])
  let ?G = "fold (drop_edge p) es G"
  obtain t1 where 1: "act_iter (delete_edge V pc p) es t = (Inr (), t1)" "inv t1"
    "reprD pc L T ?G (view t1)" using delete_edges_run [OF inv r] by blast
  have n1: "ag_node ?G (p, n) = Some (ek, ls, ps)" using n by (simp add: fold_drop_edge)
  obtain t2 where 2: "act_iter (\<lambda>l. v_delete V LabelIdx (label_idx_key p l n)) lids t1 = (Inr (), t2)"
    "inv t2" "view t2 = kv_dels LabelIdx (map (\<lambda>l. label_idx_key p l n) lids) (view t1)"
    using delete_iter [OF 1(2), of LabelIdx "\<lambda>l. label_idx_key p l n" lids] by blast
  have xk: "xk_repr (ag_node ?G) (view t2 ExtKeys)" using reprD_D(9) [OF 1(3)] by (simp add: 2(3))
  have owner: "node_id_by_external_key V t2 p key = Inr (Some n)" if "ek = Some key" for key
    using node_id_by_external_key_run(1) [OF 2(2) xk] n1 that by (simp add: has_key_def)
  let ?t3 = "case ek of None \<Rightarrow> t2 | Some key \<Rightarrow> del1 V ExtKeys (ext_key_key p key) t2"
  let ?t' = "del1 V Nodes (node_key p n) (del1 V NodePlane (node_plane_key n) ?t3)"
  have "delete_node V pc p n t = (Inr (), ?t')"
    using inv b l es(1) 1 2 owner by (cases ek) (simp_all add: delete_node_def act_bind_def tx_simps)
  moreover have "inv ?t'" using 2(2) by (cases ek) (simp_all add: tx_simps)
  moreover have "view ?t' = node_gone p n ek lids (view t1)"
    using 2 by (cases ek) (simp_all add: tx_simps node_gone_def Let_def)
  moreover have "reprD pc L T (cascade p n G) (node_gone p n ek lids (view t1))"
    using reprD_drop_node [OF 1(3) n1 l(2)] cascade_fold [OF es(2)] by simp
  ultimately show ?thesis by (metis (no_types, lifting))
qed

end

end
