(* ===== verification/Graph_Planes.thy ===== *)
theory Graph_Planes
  imports Graph_Edges
begin

text \<open>
  Planes, the containers a node or edge belongs to: the catalogue of planes (\<open>planes_repr\<close>: id to
  name and properties, and the name index), first-open initialisation, and the removal of a whole
  plane with everything stored under it.
\<close>

section \<open>The plane catalogue\<close>

type_synonym planes = "plane_id \<Rightarrow> (str \<times> props) option"

definition plane_row :: "postcard \<Rightarrow> str \<Rightarrow> props \<Rightarrow> bytes" where
  "plane_row pc name ps = be32 (of_nat (length name)) @ name @ encode_props pc ps"

definition planes_repr :: "postcard \<Rightarrow> planes \<Rightarrow> kv \<Rightarrow> bool" where
  "planes_repr pc P m \<longleftrightarrow>
     (\<forall>k \<in> dom (m Planes). \<exists>i. k = plane_key i) \<and>
     (\<forall>i. m Planes (plane_key i) = map_option (\<lambda>(name, ps). plane_row pc name ps) (P i)) \<and>
     (\<forall>k b. m PlaneNames k = Some b \<longleftrightarrow> (\<exists>i ps. b = be32 i \<and> P i = Some (k, ps))) \<and>
     (\<forall>i name ps. P i = Some (name, ps) \<longrightarrow> utf8_ok name \<and> props_ok ps \<and> length name < 2 ^ 32) \<and>
     (\<exists>c. m Meta META_NEXT_PLANE_ID = Some (be64 c) \<and> (\<forall>i. i \<in> dom P \<longrightarrow> ucast i < c))"

lemma planes_reprD:
  assumes "planes_repr pc P m"
  shows "m Planes (plane_key i) = map_option (\<lambda>(name, ps). plane_row pc name ps) (P i)"
    "m PlaneNames k = Some b \<longleftrightarrow> (\<exists>i ps. b = be32 i \<and> P i = Some (k, ps))"
    "P i = Some (name, ps) \<Longrightarrow> utf8_ok name \<and> props_ok ps \<and> length name < 2 ^ 32"
    "\<exists>c. m Meta META_NEXT_PLANE_ID = Some (be64 c) \<and> (\<forall>i. i \<in> dom P \<longrightarrow> ucast i < c)"
    "\<forall>k \<in> dom (m Planes). \<exists>i. k = plane_key i"
  using assms unfolding planes_repr_def by blast+

lemma plane_key_inj [simp]: "plane_key a = plane_key b \<longleftrightarrow> a = b"
  by (simp add: plane_key_def)

lemma plane_names_unique:
  assumes "planes_repr pc P m" "P i = Some (name, ps)" "P j = Some (name, ps')"
  shows "i = j"
proof -
  have "m PlaneNames name = Some (be32 i)" "m PlaneNames name = Some (be32 j)"
    using planes_reprD(2) [OF assms(1)] assms(2,3) by blast+
  then show ?thesis by simp
qed

lemma planes_repr_write:
  assumes r: "planes_repr pc P m" and ok: "utf8_ok name" "props_ok ps" "length name < 2 ^ 32"
    and ctr: "m Meta META_NEXT_PLANE_ID = Some (be64 c)" "ucast i < c"
    and name: "\<And>j ps'. P j = Some (name, ps') \<Longrightarrow> j = i"
    and old: "\<And>name' ps'. P i = Some (name', ps') \<Longrightarrow> name' = name"
  shows "planes_repr pc (P(i \<mapsto> (name, ps)))
           (kv_put PlaneNames name (be32 i) (kv_put Planes (plane_key i) (plane_row pc name ps) m))"
    (is "planes_repr pc ?P ?m")
proof -
  note D = planes_reprD [OF r]
  have "?m Planes (plane_key j) = map_option (\<lambda>(name, ps). plane_row pc name ps) (?P j)" for j
    using D(1) [of j] by (simp add: kv_apply)
  moreover have "\<forall>k \<in> dom (?m Planes). \<exists>i. k = plane_key i"
    using D(5) by (auto simp: kv_apply split: if_splits)
  moreover have "?m PlaneNames k = Some b \<longleftrightarrow> (\<exists>i ps. b = be32 i \<and> ?P i = Some (k, ps))" for k b
  proof (cases "k = name")
    case True
    have "(\<exists>j ps'. b = be32 j \<and> ?P j = Some (name, ps')) \<longleftrightarrow> b = be32 i"
      using name by (auto split: if_splits)
    with True show ?thesis by (auto simp: kv_apply)
  next
    case False
    have "?P j = Some (k, ps') \<longleftrightarrow> P j = Some (k, ps')" for j ps'
      using old False by auto
    with False D(2) show ?thesis by (simp add: kv_apply)
  qed
  moreover have "?P j = Some (nm, qs) \<Longrightarrow> utf8_ok nm \<and> props_ok qs \<and> length nm < 2 ^ 32" for j nm qs
    using D(3) ok by (auto split: if_splits)
  moreover have "\<exists>c. ?m Meta META_NEXT_PLANE_ID = Some (be64 c) \<and> (\<forall>i. i \<in> dom ?P \<longrightarrow> ucast i < c)"
    using D(4) ctr by (auto simp: kv_apply)
  ultimately show ?thesis unfolding planes_repr_def by blast
qed

lemma planes_repr_drop:
  assumes r: "planes_repr pc P m" and i: "P i = Some (name, ps)"
  shows "planes_repr pc (P(i := None)) (kv_del PlaneNames name (kv_del Planes (plane_key i) m))"
    (is "planes_repr pc ?P ?m")
proof -
  note D = planes_reprD [OF r]
  have "?m Planes (plane_key j) = map_option (\<lambda>(name, ps). plane_row pc name ps) (?P j)" for j
    using D(1) [of j] by (simp add: kv_apply)
  moreover have "\<forall>k \<in> dom (?m Planes). \<exists>i. k = plane_key i"
    using D(5) by (auto simp: kv_apply split: if_splits)
  moreover have "?m PlaneNames k = Some b \<longleftrightarrow> (\<exists>i ps. b = be32 i \<and> ?P i = Some (k, ps))" for k b
  proof (cases "k = name")
    case True
    then show ?thesis using plane_names_unique [OF r i] by (auto simp: kv_apply)
  next
    case False
    then have "?P j = Some (k, ps') \<longleftrightarrow> P j = Some (k, ps')" for j ps' using i by auto
    with False D(2) show ?thesis by (simp add: kv_apply)
  qed
  moreover have "?P j = Some (nm, qs) \<Longrightarrow> utf8_ok nm \<and> props_ok qs \<and> length nm < 2 ^ 32" for j nm qs
    using D(3) by (auto split: if_splits)
  moreover have "\<exists>c. ?m Meta META_NEXT_PLANE_ID = Some (be64 c) \<and> (\<forall>i. i \<in> dom ?P \<longrightarrow> ucast i < c)"
    using D(4) by (auto simp: kv_apply)
  ultimately show ?thesis unfolding planes_repr_def by blast
qed

section \<open>Removing a plane's rows\<close>

definition ag_drop_plane :: "plane_id \<Rightarrow> agraph \<Rightarrow> agraph" where
  "ag_drop_plane p G =
     \<lparr>ag_node = (\<lambda>(q, n). if q = p then None else ag_node G (q, n)),
      ag_edge = (\<lambda>(q, e). if q = p then None else ag_edge G (q, e))\<rparr>"

lemma ag_drop_plane_has:
  "has_label (ag_node (ag_drop_plane p G)) q n x \<longleftrightarrow> q \<noteq> p \<and> has_label (ag_node G) q n x"
  "has_key (ag_node (ag_drop_plane p G)) q n x \<longleftrightarrow> q \<noteq> p \<and> has_key (ag_node G) q n x"
  "has_edge (ag_edge (ag_drop_plane p G)) q e s d ty \<longleftrightarrow> q \<noteq> p \<and> has_edge (ag_edge G) q e s d ty"
  "(q, n) \<in> dom (ag_node (ag_drop_plane p G)) \<longleftrightarrow> q \<noteq> p \<and> (q, n) \<in> dom (ag_node G)"
  "(q, e) \<in> dom (ag_edge (ag_drop_plane p G)) \<longleftrightarrow> q \<noteq> p \<and> (q, e) \<in> dom (ag_edge G)"
  by (auto simp: ag_drop_plane_def has_label_def has_key_def has_edge_def split: if_splits)

lemma ag_ok_drop_plane: "ag_ok G \<Longrightarrow> ag_ok (ag_drop_plane p G)"
  unfolding ag_ok_def ag_drop_plane_has by blast

lemma rows_repr_drop_plane:
  assumes "rows_repr key R N tab" "\<And>q n. prefix (plane_key p) (key q n) \<longleftrightarrow> p = q"
  shows "rows_repr key R (\<lambda>(q, n). if q = p then None else N (q, n))
           (\<lambda>k. if prefix (plane_key p) k then None else tab k)"
  using assms unfolding rows_repr_def by auto

lemma adj_row_drop_plane:
  "adj_row flip T (ag_edge (ag_drop_plane p G)) k \<longleftrightarrow>
     \<not> prefix (plane_key p) k \<and> adj_row flip T (ag_edge G) k"
  unfolding adj_row_def ag_drop_plane_has by (metis prefix_plane_key(5))

lemma reprD_drop_plane:
  assumes r: "reprD pc L T G m"
    and np: "\<And>k. m' NodePlane k =
      (if \<exists>n. k = node_plane_key n \<and> (p, n) \<in> dom (ag_node G) then None else m NodePlane k)"
    and del: "\<And>tb k. tb \<in> set PLANE_TABLES \<Longrightarrow>
      m' tb k = (if prefix (plane_key p) k then None else m tb k)"
    and meta: "m' Meta = m Meta"
  shows "reprD pc L T (ag_drop_plane p G) m'"
proof -
  note D = reprD_D [OF r]
  have tabs: "m' Nodes = (\<lambda>k. if prefix (plane_key p) k then None else m Nodes k)"
    "m' Edges = (\<lambda>k. if prefix (plane_key p) k then None else m Edges k)"
    using del by (auto simp: PLANE_TABLES_def)
  have "nodes_repr pc L (ag_node (ag_drop_plane p G)) (m' Nodes)"
    unfolding tabs ag_drop_plane_def agraph.simps by (rule rows_repr_drop_plane [OF D(5)]) simp
  moreover have "edges_repr pc T (ag_edge (ag_drop_plane p G)) (m' Edges)"
    unfolding tabs ag_drop_plane_def agraph.simps by (rule rows_repr_drop_plane [OF D(6)]) simp
  moreover have "np_repr (ag_node (ag_drop_plane p G)) (m' NodePlane)"
    unfolding np_repr_def ag_drop_plane_has
  proof (intro allI)
    fix k b
    have row: "m NodePlane k = Some b \<longleftrightarrow>
        (\<exists>q n. k = node_plane_key n \<and> b = be32 q \<and> (q, n) \<in> dom (ag_node G))"
      using D(7) by (simp add: np_repr_def)
    show "m' NodePlane k = Some b \<longleftrightarrow>
        (\<exists>q n. k = node_plane_key n \<and> b = be32 q \<and> q \<noteq> p \<and> (q, n) \<in> dom (ag_node G))"
    proof (cases "\<exists>n. k = node_plane_key n \<and> (p, n) \<in> dom (ag_node G)")
      case True
      then obtain n where n: "k = node_plane_key n" "(p, n) \<in> dom (ag_node G)" by blast
      have "m' NodePlane k = None" unfolding np using True by (rule if_P)
      then show ?thesis using n(1) np_repr_unique [OF D(7) n(2)] by auto
    next
      case False
      have "m' NodePlane k = m NodePlane k" unfolding np using False by (rule if_not_P)
      with row False show ?thesis by metis
    qed
  qed
  moreover have "li_repr L (ag_node (ag_drop_plane p G)) (m' LabelIdx)"
    using D(8) unfolding li_repr_def ag_drop_plane_has by (auto simp: del PLANE_TABLES_def)
  moreover have "xk_repr (ag_node (ag_drop_plane p G)) (m' ExtKeys)"
    using D(9) unfolding xk_repr_def ag_drop_plane_has by (auto simp: del PLANE_TABLES_def)
  moreover have "adj_repr flip T (ag_edge G) (m tb) \<Longrightarrow> tb \<in> set PLANE_TABLES \<Longrightarrow>
      adj_repr flip T (ag_edge (ag_drop_plane p G)) (m' tb)" for flip tb
    unfolding adj_repr_def adj_row_drop_plane by (auto simp: del)
  moreover have "ids_repr META_NEXT_NODE_ID (ag_node (ag_drop_plane p G)) (m' Meta)"
    "ids_repr META_NEXT_EDGE_ID (ag_edge (ag_drop_plane p G)) (m' Meta)"
    using D(3,4) unfolding ids_repr_def ag_drop_plane_has meta by blast+
  ultimately show ?thesis using D by (simp add: reprD_def meta PLANE_TABLES_def)
qed

section \<open>Operations\<close>

lemma reprD_planes_only:
  assumes "reprD pc L T G m" "\<And>tb. tb \<notin> {Planes, PlaneNames, Meta} \<Longrightarrow> m' tb = m tb"
    "\<And>k. k \<noteq> META_NEXT_PLANE_ID \<Longrightarrow> m' Meta k = m Meta k"
  shows "reprD pc L T G m'"
proof -
  have apart: "META_NEXT_PLANE_ID \<noteq> dict_label_key a" "META_NEXT_PLANE_ID \<noteq> dict_label_rev_key i"
    "META_NEXT_PLANE_ID \<noteq> dict_edge_type_key a" "META_NEXT_PLANE_ID \<noteq> dict_edge_type_rev_key i"
    "META_NEXT_PLANE_ID \<noteq> META_NEXT_NODE_ID" "META_NEXT_PLANE_ID \<noteq> META_NEXT_EDGE_ID"
    "META_NEXT_PLANE_ID \<noteq> META_NEXT_LABEL_ID" "META_NEXT_PLANE_ID \<noteq> META_NEXT_EDGE_TYPE_ID"
    for a i by (simp_all add: meta_key_defs)
  have "label_dict L (m' Meta)" "type_dict T (m' Meta)"
    using dict_repr_cong [of "m' Meta" _ "m Meta"] reprD_D(1,2) [OF assms(1)] assms(3) apart
    by metis+
  then show ?thesis using reprD_D [OF assms(1)] assms(2,3) apart
    by (simp add: reprD_def ids_repr_def)
qed

lemma plane_key_len: "unat (of_nat (length name) :: u32) = length name" if "length name < 2 ^ 32"
  using that by (simp add: unsigned_of_nat take_bit_nat_eq_self)

context kv_txn begin

lemma read_plane_run:
  assumes inv: "inv t" and r: "planes_repr pc P (view t)" and pc: "postcard_ok pc"
  shows "read_plane V pc t i = Inr (P i)"
proof (cases "P i")
  case None
  then show ?thesis
    using inv planes_reprD(1) [OF r, of i] by (simp add: read_plane_def tx_simps map_transpose_def)
next
  case (Some a)
  obtain name ps where a: "a = (name, ps)" by fastforce
  have ok: "utf8_ok name" "props_ok ps" "length name < 2 ^ 32"
    using planes_reprD(3) [OF r] Some a by blast+
  have len: "unat (of_nat (length name) :: u32) = length name" by (rule plane_key_len [OF ok(3)])
  have row: "view t Planes (plane_key i) = Some (plane_row pc name ps)"
    using planes_reprD(1) [OF r, of i] Some a by simp
  have "u32be (take 4 (plane_row pc name ps)) = Inr (of_nat (length name))"
    "slice 4 (4 + length name) (plane_row pc name ps) = name"
    "drop (4 + length name) (plane_row pc name ps) = encode_props pc ps"
    "4 + length name \<le> length (plane_row pc name ps)"
    by (simp_all add: plane_row_def slice_def)
  then show ?thesis using inv row ok pc Some a len
    by (simp add: read_plane_def tx_simps map_transpose_def Let_def from_utf8_def)
qed

lemma plane_id_by_name_run:
  assumes inv: "inv t" and r: "planes_repr pc P (view t)"
  shows "plane_id_by_name V t name = Inr (Some i) \<longleftrightarrow> (\<exists>ps. P i = Some (name, ps))"
    and "plane_id_by_name V t name = Inr None \<longleftrightarrow> (\<forall>i ps. P i \<noteq> Some (name, ps))"
    and "\<exists>f. plane_id_by_name V t name = Inr f"
proof -
  note row = planes_reprD(2) [OF r, of name]
  let ?r = "plane_id_by_name V t name"
  have "(?r = Inr (Some i) \<longleftrightarrow> (\<exists>ps. P i = Some (name, ps))) \<and>
      (?r = Inr None \<longleftrightarrow> (\<forall>i ps. P i \<noteq> Some (name, ps))) \<and> (\<exists>f. ?r = Inr f)"
  proof (cases "view t PlaneNames name")
    case None
    then have "P j \<noteq> Some (name, ps)" for j ps using row by auto
    with None inv show ?thesis
      by (simp add: plane_id_by_name_def plane_name_key_def tx_simps map_transpose_def)
  next
    case (Some b)
    then obtain j ps where j: "b = be32 j" "P j = Some (name, ps)" using row by blast
    then have "(\<exists>ps. P k = Some (name, ps)) \<longleftrightarrow> k = j" for k
      using plane_names_unique [OF r] by blast
    with j Some inv show ?thesis
      by (auto simp: plane_id_by_name_def plane_name_key_def tx_simps map_transpose_def decode_u32_def)
  qed
  then show "?r = Inr (Some i) \<longleftrightarrow> (\<exists>ps. P i = Some (name, ps))"
    "?r = Inr None \<longleftrightarrow> (\<forall>i ps. P i \<noteq> Some (name, ps))" "\<exists>f. ?r = Inr f" by blast+
qed

lemma create_plane_exists:
  assumes inv: "inv t" and r: "planes_repr pc P (view t)" and taken: "P i = Some (name, qs)"
  shows "create_plane V pc name ps t = (Inl PlaneExists, t)"
proof -
  have "plane_id_by_name V t name = Inr (Some i)"
    using plane_id_by_name_run(1) [OF inv r] taken by blast
  then show ?thesis by (simp add: create_plane_def act_bind_def)
qed

lemma create_plane_run:
  assumes inv: "inv t" and r: "planes_repr pc P (view t)" and g: "reprD pc L T G (view t)"
    and free: "\<And>i qs. P i \<noteq> Some (name, qs)"
    and ok: "utf8_ok name" "props_ok ps" "length name < 2 ^ 32"
    and room: "room META_NEXT_PLANE_ID (2 ^ 32) 1 (view t)"
  shows "\<exists>i t'. create_plane V pc name ps t = (Inr i, t') \<and> inv t' \<and> P i = None \<and>
    planes_repr pc (P(i \<mapsto> (name, ps))) (view t') \<and> reprD pc L T G (view t')"
proof -
  obtain c where c: "view t Meta META_NEXT_PLANE_ID = Some (be64 c)" "unat c + 1 \<le> 2 ^ 32"
    using room by (rule roomE)
  then have i: "u32_try_from c = Some (ucast c)" by (simp add: u32_try_from_Some)
  note max = max_not_u32 [OF i] and uc = u32_try_from_ucast [OF i]
  have below: "j \<in> dom P \<Longrightarrow> ucast j < c" for j using planes_reprD(4) [OF r] c(1) by auto
  then have fresh: "P (ucast c) = None" using uc by (metis domI less_irrefl option.exhaust)
  let ?t1 = "put1 V Meta META_NEXT_PLANE_ID (be64 (c + 1)) t"
  let ?t' = "put1 V PlaneNames name (be32 (ucast c))
    (put1 V Planes (plane_key (ucast c)) (plane_row pc name ps) ?t1)"
  have c1: "c < c + 1" by (rule word_self_less_succ [OF max])
  have "planes_repr pc P (view ?t1)"
    using r below c1 inv unfolding planes_repr_def by (auto simp: tx_simps kv_apply intro: less_trans)
  then have "planes_repr pc (P(ucast c \<mapsto> (name, ps))) (view ?t')"
    using planes_repr_write [of pc P "view ?t1" name ps "c + 1" "ucast c"] ok free fresh uc c1 inv
    by (simp add: tx_simps)
  moreover have "reprD pc L T G (view ?t')"
    by (rule reprD_planes_only [OF g]) (use inv in \<open>auto simp: tx_simps kv_apply\<close>)
  moreover have "create_plane V pc name ps t = (Inr (ucast c), ?t')"
    using plane_id_by_name_run(2) [OF inv r, of name] free inv c(1) i ok(3)
    by (simp add: create_plane_def act_bind_def tx_simps write_plane_def plane_row_def plane_name_key_def)
  ultimately show ?thesis using fresh inv by (metis (no_types, lifting) inv_put1)
qed

lemma set_plane_properties_run:
  assumes inv: "inv t" and r: "planes_repr pc P (view t)" and g: "reprD pc L T G (view t)"
    and pc: "postcard_ok pc" and i: "P i = Some (name, qs)" and ok: "props_ok ps"
  shows "\<exists>t'. set_plane_properties V pc i ps t = (Inr (), t') \<and> inv t' \<and>
    planes_repr pc (P(i \<mapsto> (name, ps))) (view t') \<and> reprD pc L T G (view t')"
proof -
  let ?t' = "put1 V PlaneNames name (be32 i) (put1 V Planes (plane_key i) (plane_row pc name ps) t)"
  have nm: "utf8_ok name" "length name < 2 ^ 32" using planes_reprD(3) [OF r i] by blast+
  obtain c where c: "view t Meta META_NEXT_PLANE_ID = Some (be64 c)" "ucast i < c"
    using planes_reprD(4) [OF r] i by blast
  have "planes_repr pc (P(i \<mapsto> (name, ps)))
      (kv_put PlaneNames name (be32 i) (kv_put Planes (plane_key i) (plane_row pc name ps) (view t)))"
    by (rule planes_repr_write [OF r nm(1) ok nm(2) c])
       (erule plane_names_unique [OF r _ i], use i in simp)
  then have "planes_repr pc (P(i \<mapsto> (name, ps))) (view ?t')" using inv by (simp add: tx_simps)
  moreover have "reprD pc L T G (view ?t')"
    by (rule reprD_planes_only [OF g]) (use inv in \<open>auto simp: tx_simps kv_apply\<close>)
  moreover have "set_plane_properties V pc i ps t = (Inr (), ?t')"
    using read_plane_run [OF inv r pc, of i] i inv nm(2)
    by (simp add: set_plane_properties_def act_bind_def tx_simps write_plane_def plane_row_def
        plane_name_key_def)
  ultimately show ?thesis using inv by (metis (no_types, lifting) inv_put1)
qed

lemma rename_plane_run:
  assumes inv: "inv t" and r: "planes_repr pc P (view t)" and g: "reprD pc L T G (view t)"
    and pc: "postcard_ok pc" and i: "P i = Some (old, ps)" "i \<noteq> STARTUP"
    and free: "\<And>j qs. P j \<noteq> Some (new, qs)" and ok: "utf8_ok new" "length new < 2 ^ 32"
  shows "\<exists>t'. rename_plane V pc i new t = (Inr (), t') \<and> inv t' \<and>
    planes_repr pc (P(i \<mapsto> (new, ps))) (view t') \<and> reprD pc L T G (view t')"
proof -
  let ?m = "kv_del PlaneNames old (kv_del Planes (plane_key i) (view t))"
  let ?t' = "put1 V PlaneNames new (be32 i) (put1 V Planes (plane_key i) (plane_row pc new ps)
    (del1 V PlaneNames old t))"
  have ps: "props_ok ps" using planes_reprD(3) [OF r i(1)] by blast
  have "old \<noteq> new" using free i(1) by blast
  obtain c where c: "view t Meta META_NEXT_PLANE_ID = Some (be64 c)" "ucast i < c"
    using planes_reprD(4) [OF r] i by blast
  have "planes_repr pc ((P(i := None))(i \<mapsto> (new, ps)))
      (kv_put PlaneNames new (be32 i) (kv_put Planes (plane_key i) (plane_row pc new ps) ?m))"
    by (rule planes_repr_write [OF planes_repr_drop [OF r i(1)] ok(1) ps ok(2)])
       (use c free in \<open>auto simp: kv_apply split: if_splits\<close>)
  moreover have "kv_put PlaneNames new (be32 i) (kv_put Planes (plane_key i) (plane_row pc new ps) ?m) =
      view ?t'"
    using inv by (auto simp: tx_simps fun_eq_iff kv_apply)
  moreover have "reprD pc L T G (view ?t')"
    by (rule reprD_planes_only [OF g]) (use inv in \<open>auto simp: tx_simps kv_apply\<close>)
  moreover have "rename_plane V pc i new t = (Inr (), ?t')"
    using read_plane_run [OF inv r pc, of i] plane_id_by_name_run(2) [OF inv r, of new] free i
      \<open>old \<noteq> new\<close> inv ok(2)
    by (simp add: rename_plane_def act_bind_def tx_simps write_plane_def plane_row_def
        plane_name_key_def)
  ultimately show ?thesis using inv by (metis (no_types, lifting) inv_put1 inv_del1 fun_upd_upd)
qed

lemma finite_nodes:
  assumes "inv t" "reprD pc L T G (view t)"
  shows "finite {n. (p, n) \<in> dom (ag_node G)}"
proof -
  have "node_key p n \<in> dom (view t Nodes) \<longleftrightarrow> (p, n) \<in> dom (ag_node G)" for n
    using rows_repr_None [OF reprD_D(5) [OF assms(2)], of p n] by (simp add: domIff del: not_None_eq)
  then have "node_key p ` {n. (p, n) \<in> dom (ag_node G)} \<subseteq> fst ` set (scan1 V t Nodes (plane_key p))"
    by (simp add: fst_scan1 [OF assms(1)] subset_eq)
  then have "finite (node_key p ` {n. (p, n) \<in> dom (ag_node G)})"
    by (rule finite_subset) simp
  then show ?thesis by (rule finite_imageD) (simp add: inj_on_def)
qed

lemma drop_plane_run:
  assumes inv: "inv t" and r: "planes_repr pc P (view t)" and g: "reprD pc L T G (view t)"
    and pc: "postcard_ok pc" and i: "P i = Some (name, ps)" "i \<noteq> STARTUP"
  shows "\<exists>t'. drop_plane V pc i t = (Inr (), t') \<and> inv t' \<and>
    planes_repr pc (P(i := None)) (view t') \<and> reprD pc L T (ag_drop_plane i G) (view t')"
proof -
  let ?ns = "sorted_list_of_set {n. (i, n) \<in> dom (ag_node G)}"
  have scan: "res_bind (prefix_range V t Nodes (plane_key i))
      (\<lambda>items. res_map (\<lambda>(k, _). res_bind (parse_node_key k) (\<lambda>(_, node). Inr node)) items) = Inr ?ns"
    using scan_all_run [OF inv g, of i] by (simp add: scan_all_def)
  have ns: "set ?ns = {n. (i, n) \<in> dom (ag_node G)}" using finite_nodes [OF inv g] by simp
  obtain t1 where 1: "act_iter (\<lambda>n. v_delete V NodePlane (node_plane_key n)) ?ns t = (Inr (), t1)"
    "inv t1" "view t1 = kv_dels NodePlane (map node_plane_key ?ns) (view t)"
    using delete_iter [OF inv, of NodePlane node_plane_key ?ns] by blast
  obtain t2 where 2: "act_iter (\<lambda>tb. v_delete_prefix V tb (plane_key i)) PLANE_TABLES t1 = (Inr (), t2)"
    "inv t2" "view t2 = (\<lambda>tb k. if tb \<in> set PLANE_TABLES \<and> prefix (plane_key i) k then None
      else view t1 tb k)"
    using delete_prefix_iter [OF 1(2)] by blast
  let ?t' = "del1 V PlaneNames name (del1 V Planes (plane_key i) t2)"
  have v: "view ?t' = kv_del PlaneNames name (kv_del Planes (plane_key i) (view t2))"
    using 2(2) by (simp add: tx_simps)
  have "drop_plane V pc i t = (Inr (), ?t')"
    using read_plane_run [OF inv r pc, of i] i scan 1(1) 2(1,2)
    by (simp add: drop_plane_def act_bind_def tx_simps plane_name_key_def)
  moreover have "planes_repr pc P (view t2)"
    using r unfolding planes_repr_def by (simp add: 1(3) 2(3) PLANE_TABLES_def)
  then have "planes_repr pc (P(i := None)) (view ?t')" unfolding v by (rule planes_repr_drop [where P = P, OF _ i(1)])
  moreover have "reprD pc L T (ag_drop_plane i G) (view ?t')"
  proof (rule reprD_drop_plane [OF g])
    show "view ?t' NodePlane k = (if \<exists>n. k = node_plane_key n \<and> (i, n) \<in> dom (ag_node G) then None
        else view t NodePlane k)" for k
      unfolding v 2(3) 1(3) using ns
      by (auto simp: kv_apply PLANE_TABLES_def image_iff simp del: domIff set_sorted_list_of_set)
    show "tb \<in> set PLANE_TABLES \<Longrightarrow> view ?t' tb k =
        (if prefix (plane_key i) k then None else view t tb k)" for tb k
      unfolding v 2(3) 1(3) by (auto simp: kv_apply PLANE_TABLES_def)
    show "view ?t' Meta = view t Meta" unfolding v 2(3) 1(3) by (simp add: PLANE_TABLES_def)
  qed
  ultimately show ?thesis using 2(2) by (metis (no_types, lifting) inv_del1)
qed

lemma init_db_run:
  assumes inv: "inv t" and empty: "\<And>tb k. view t tb k = None"
  shows "\<exists>t'. init_db V pc t = (Inr (), t') \<and> inv t' \<and>
    reprD pc Map.empty Map.empty \<lparr>ag_node = Map.empty, ag_edge = Map.empty\<rparr> (view t') \<and>
    planes_repr pc [STARTUP \<mapsto> (DEFAULT_PLANE_NAME, [])] (view t') \<and>
    (\<forall>ctr \<in> set ID_COUNTERS. view t' Meta ctr = Some (be64 1))"
proof -
  have len: "length DEFAULT_PLANE_NAME < 2 ^ 32" by (simp add: DEFAULT_PLANE_NAME_def bstr_def)
  have utf: "utf8_ok DEFAULT_PLANE_NAME" by (simp add: DEFAULT_PLANE_NAME_def bstr_def)
  let ?t1 = "put1 V Meta META_COMMIT_SEQ (be64 0) (put1 V Meta META_NEXT_EDGE_TYPE_ID (be64 1)
    (put1 V Meta META_NEXT_LABEL_ID (be64 1) (put1 V Meta META_NEXT_PLANE_ID (be64 1)
    (put1 V Meta META_NEXT_EDGE_ID (be64 1) (put1 V Meta META_NEXT_NODE_ID (be64 1)
    (put1 V Meta META_FORMAT_VERSION (be32 FORMAT_VERSION) (put1 V Meta META_MAGIC MAGIC t)))))))"
  let ?t' = "put1 V PlaneNames DEFAULT_PLANE_NAME (be32 STARTUP)
    (put1 V Planes (plane_key STARTUP) (plane_row pc DEFAULT_PLANE_NAME []) ?t1)"
  have run: "init_db V pc t = (Inr (), ?t')"
    using inv empty len
    by (simp add: init_db_def act_bind_def tx_simps put_u32_def put_u64_def write_plane_def
        plane_row_def plane_name_key_def)
  have apart: "META_NEXT_NODE_ID \<noteq> META_NEXT_PLANE_ID" "META_NEXT_EDGE_ID \<noteq> META_NEXT_PLANE_ID"
    "META_NEXT_LABEL_ID \<noteq> META_NEXT_PLANE_ID" "META_NEXT_EDGE_TYPE_ID \<noteq> META_NEXT_PLANE_ID"
    "META_NEXT_NODE_ID \<noteq> META_COMMIT_SEQ" "META_NEXT_EDGE_ID \<noteq> META_COMMIT_SEQ"
    "META_NEXT_LABEL_ID \<noteq> META_COMMIT_SEQ" "META_NEXT_EDGE_TYPE_ID \<noteq> META_COMMIT_SEQ"
    "META_NEXT_PLANE_ID \<noteq> META_COMMIT_SEQ"
    by (simp_all add: meta_key_defs)
  have dicts: "k \<noteq> META_COMMIT_SEQ" "k \<noteq> META_NEXT_PLANE_ID" "k \<noteq> META_MAGIC" "k \<noteq> META_FORMAT_VERSION"
    if "k \<in> range dict_label_key \<union> range dict_label_rev_key \<union> range dict_edge_type_key \<union>
      range dict_edge_type_rev_key" for k
    using that by (auto simp: meta_key_defs)
  have meta: "view ?t1 tb k = (if tb \<noteq> Meta then None else
      if k = META_COMMIT_SEQ then Some (be64 0)
      else if k \<in> {META_NEXT_NODE_ID, META_NEXT_EDGE_ID, META_NEXT_PLANE_ID, META_NEXT_LABEL_ID,
        META_NEXT_EDGE_TYPE_ID} then Some (be64 1)
      else if k = META_FORMAT_VERSION then Some (be32 FORMAT_VERSION)
      else if k = META_MAGIC then Some MAGIC else None)" for tb k
    using inv by (simp add: tx_simps kv_apply empty)
  have "reprD pc Map.empty Map.empty \<lparr>ag_node = Map.empty, ag_edge = Map.empty\<rparr> (view ?t1)"
    unfolding reprD_def dict_repr_def ids_repr_def rows_repr_def np_repr_def li_repr_def xk_repr_def
      adj_repr_def adj_row_def
    by (simp add: meta apart dicts has_label_def has_key_def has_edge_def)
  then have "reprD pc Map.empty Map.empty \<lparr>ag_node = Map.empty, ag_edge = Map.empty\<rparr> (view ?t')"
    by (rule reprD_planes_only) (use inv in \<open>auto simp: tx_simps\<close>)
  moreover have "planes_repr pc Map.empty (view ?t1)"
    unfolding planes_repr_def by (simp add: meta apart dom_def)
  then have "planes_repr pc [STARTUP \<mapsto> (DEFAULT_PLANE_NAME, [])] (view ?t')"
    using planes_repr_write [of pc Map.empty "view ?t1" DEFAULT_PLANE_NAME "[]" 1 STARTUP] len utf inv
    by (simp add: meta apart STARTUP_def tx_simps)
  moreover have "\<forall>ctr \<in> set ID_COUNTERS. view ?t' Meta ctr = Some (be64 1)"
  proof -
    have "view ?t' Meta = view ?t1 Meta" using inv by (simp add: tx_simps del: fun_upd_apply)
    then show ?thesis by (simp add: ID_COUNTERS_def meta apart)
  qed
  ultimately show ?thesis using run inv by (metis (no_types, lifting) inv_put1)
qed

end

end
