(* ===== verification/Postcard_Ref.thy ===== *)
theory Postcard_Ref
  imports Types
begin

text \<open>
  A reference instance of the record codec parameter: an executable self-delimiting byte format for
  every stored type, with the proof that it fulfils \<open>postcard_ok\<close>. It stands in for the third-party
  format where a concrete codec is needed to run the model; no property depends on its layout.
\<close>

section \<open>Sequences\<close>

definition ser_list :: "('a \<Rightarrow> bytes) \<Rightarrow> 'a list \<Rightarrow> bytes" where
  "ser_list e xs = concat (map (\<lambda>x. 1 # e x) xs) @ [0]"

primrec de_list :: "(bytes \<Rightarrow> ('a \<times> bytes) option) \<Rightarrow> nat \<Rightarrow> bytes \<Rightarrow> ('a list \<times> bytes) option" where
  "de_list d 0 b = None"
| "de_list d (Suc f) b =
     (case b of
        [] \<Rightarrow> None
      | x # r \<Rightarrow>
          if x = 0 then Some ([], r)
          else case d r of
                 None \<Rightarrow> None
               | Some (a, r') \<Rightarrow> map_option (\<lambda>(as, r''). (a # as, r'')) (de_list d f r'))"

definition de_seq :: "(bytes \<Rightarrow> ('a \<times> bytes) option) \<Rightarrow> bytes \<Rightarrow> ('a list \<times> bytes) option" where
  "de_seq d b = de_list d (length b) b"

lemma ser_list_cong [fundef_cong]:
  "xs = ys \<Longrightarrow> (\<And>x. x \<in> set ys \<Longrightarrow> e x = e' x) \<Longrightarrow> ser_list e xs = ser_list e' ys"
  by (simp add: ser_list_def cong: map_cong)

lemma ser_list_simps [simp]:
  "ser_list e [] = [0]" "ser_list e (x # xs) = 1 # e x @ ser_list e xs"
  by (simp_all add: ser_list_def)

lemma de_list_ser_list:
  "(\<And>x r. x \<in> set xs \<Longrightarrow> d (e x @ r) = Some (x, r)) \<Longrightarrow> length xs < f \<Longrightarrow>
   de_list d f (ser_list e xs @ r) = Some (xs, r)"
proof (induction xs arbitrary: f)
  case Nil
  then show ?case by (cases f) auto
next
  case (Cons x xs)
  then show ?case by (cases f) auto
qed

lemma length_ser_list: "length xs < length (ser_list e xs)"
  by (induction xs) auto

lemma length_ser_list_mem: "x \<in> set xs \<Longrightarrow> length (e x) < length (ser_list e xs)"
  by (induction xs) (auto simp: less_Suc_eq_le trans_le_add2)

lemma de_seq_ser_list:
  "(\<And>x r. x \<in> set xs \<Longrightarrow> d (e x @ r) = Some (x, r)) \<Longrightarrow> de_seq d (ser_list e xs @ r) = Some (xs, r)"
  unfolding de_seq_def
  by (rule de_list_ser_list) (auto intro: trans_less_add1 [OF length_ser_list])

section \<open>Scalars\<close>

definition de_byte :: "bytes \<Rightarrow> (byte \<times> bytes) option" where
  "de_byte b = (case b of [] \<Rightarrow> None | x # r \<Rightarrow> Some (x, r))"

definition de32 :: "bytes \<Rightarrow> (u32 \<times> bytes) option" where
  "de32 b = map_option (\<lambda>w. (w, drop 4 b)) (from_be32 (take 4 b))"

definition de64 :: "bytes \<Rightarrow> (u64 \<times> bytes) option" where
  "de64 b = map_option (\<lambda>w. (w, drop 8 b)) (from_be64 (take 8 b))"

abbreviation ser_str :: "bytes \<Rightarrow> bytes" where
  "ser_str \<equiv> ser_list (\<lambda>x. [x])"

abbreviation de_str :: "bytes \<Rightarrow> (bytes \<times> bytes) option" where
  "de_str \<equiv> de_seq de_byte"

lemma de_scalars [simp]:
  "de32 (be32 w @ r) = Some (w, r)" "de64 (be64 x @ r) = Some (x, r)" "de_str (ser_str s @ r) = Some (s, r)"
  by (simp_all add: de32_def de64_def) (rule de_seq_ser_list, simp add: de_byte_def)

definition ser_opt :: "str option \<Rightarrow> bytes" where
  "ser_opt x = (case x of None \<Rightarrow> [0] | Some s \<Rightarrow> 1 # ser_str s)"

definition de_opt :: "bytes \<Rightarrow> (str option \<times> bytes) option" where
  "de_opt b =
     (case b of
        [] \<Rightarrow> None
      | x # r \<Rightarrow> if x = 0 then Some (None, r) else map_option (\<lambda>(s, r'). (Some s, r')) (de_str r))"

lemma de_opt_ser_opt [simp]: "de_opt (ser_opt x @ r) = Some (x, r)"
  by (cases x) (simp_all add: de_opt_def ser_opt_def)

section \<open>Property values\<close>

fun ser_value :: "prop_value \<Rightarrow> bytes" and ser_desc :: "prop_desc \<Rightarrow> bytes" where
  "ser_value PNull = [0]"
| "ser_value (PBool b) = [1, if b then 1 else 0]"
| "ser_value (PInt i) = 2 # be64 i"
| "ser_value (PFloat x) = 3 # be64 x"
| "ser_value (PStr s) = 4 # ser_str s"
| "ser_value (PBytes b) = 5 # ser_str b"
| "ser_value (PVector v) = 6 # ser_list be32 v"
| "ser_value (PList vs) = 7 # ser_list ser_value vs"
| "ser_value (PMap m) = 8 # ser_list (\<lambda>kd. ser_str (fst kd) @ ser_desc (snd kd)) m"
| "ser_desc (PropDesc d v) = ser_opt d @ ser_value v"

definition de_desc ::
    "(bytes \<Rightarrow> (prop_value \<times> bytes) option) \<Rightarrow> bytes \<Rightarrow> (prop_desc \<times> bytes) option" where
  "de_desc dv b =
     (case de_opt b of
        None \<Rightarrow> None
      | Some (d, r) \<Rightarrow> map_option (\<lambda>(v, r'). (PropDesc d v, r')) (dv r))"

definition de_entry ::
    "(bytes \<Rightarrow> (prop_value \<times> bytes) option) \<Rightarrow> bytes \<Rightarrow> ((str \<times> prop_desc) \<times> bytes) option" where
  "de_entry dv b =
     (case de_str b of
        None \<Rightarrow> None
      | Some (k, r) \<Rightarrow> map_option (\<lambda>(d, r'). ((k, d), r')) (de_desc dv r))"

primrec de_value :: "nat \<Rightarrow> bytes \<Rightarrow> (prop_value \<times> bytes) option" where
  "de_value 0 b = None"
| "de_value (Suc f) b =
     (case b of
        [] \<Rightarrow> None
      | x # r \<Rightarrow>
          if x = 0 then Some (PNull, r)
          else if x = 1 then (case r of [] \<Rightarrow> None | y # r' \<Rightarrow> Some (PBool (y = 1), r'))
          else if x = 2 then map_option (\<lambda>(i, r'). (PInt i, r')) (de64 r)
          else if x = 3 then map_option (\<lambda>(i, r'). (PFloat i, r')) (de64 r)
          else if x = 4 then map_option (\<lambda>(s, r'). (PStr s, r')) (de_str r)
          else if x = 5 then map_option (\<lambda>(s, r'). (PBytes s, r')) (de_str r)
          else if x = 6 then map_option (\<lambda>(v, r'). (PVector v, r')) (de_seq de32 r)
          else if x = 7 then map_option (\<lambda>(v, r'). (PList v, r')) (de_seq (de_value f) r)
          else map_option (\<lambda>(m, r'). (PMap m, r')) (de_seq (de_entry (de_value f)) r))"

lemma de_value_ser:
  shows "length (ser_value v) \<le> f \<Longrightarrow> de_value f (ser_value v @ r) = Some (v, r)"
    and "length (ser_desc d) \<le> f \<Longrightarrow> de_desc (de_value f) (ser_desc d @ r) = Some (d, r)"
proof (induction v and d arbitrary: f r and f r rule: ser_value_ser_desc.induct)
  case (8 vs)
  then obtain g where g: "f = Suc g" by (cases f) auto
  have "de_value g (ser_value x @ r) = Some (x, r)" if "x \<in> set vs" for x r
    using 8 that length_ser_list_mem [OF that, of ser_value] by (simp add: g)
  then show ?case by (simp add: g de_seq_ser_list)
next
  case (9 m)
  then obtain g where g: "f = Suc g" by (cases f) auto
  let ?e = "\<lambda>kd. ser_str (fst kd) @ ser_desc (snd kd)"
  have "de_entry (de_value g) (?e kd @ r) = Some (kd, r)" if "kd \<in> set m" for kd r
  proof -
    have "length (ser_desc (snd kd)) \<le> g" using 9 length_ser_list_mem [OF that, of ?e] by (simp add: g)
    with 9 that have "de_desc (de_value g) (ser_desc (snd kd) @ r) = Some (snd kd, r)" by simp
    then show ?thesis by (simp add: de_entry_def)
  qed
  then show ?case by (simp add: g de_seq_ser_list)
next
  case (10 d v)
  then show ?case by (simp add: de_desc_def)
next
  case 1
  then show ?case by (cases f) (auto simp: de_seq_ser_list)
next
  case (2 b)
  then show ?case by (cases f) (auto simp: de_seq_ser_list)
next
  case (3 i)
  then show ?case by (cases f) (auto simp: de_seq_ser_list)
next
  case (4 x)
  then show ?case by (cases f) (auto simp: de_seq_ser_list)
next
  case (5 s)
  then show ?case by (cases f) (auto simp: de_seq_ser_list)
next
  case (6 b)
  then show ?case by (cases f) (auto simp: de_seq_ser_list)
next
  case (7 v)
  then show ?case by (cases f) (auto simp: de_seq_ser_list)
qed

section \<open>Records\<close>

definition ref_ser_props :: "props \<Rightarrow> bytes" where
  "ref_ser_props ps = ser_list (\<lambda>kd. ser_str (fst kd) @ ser_desc (snd kd)) ps"

definition ref_de_props :: "bytes \<Rightarrow> (props \<times> bytes) option" where
  "ref_de_props b = de_seq (de_entry (de_value (length b))) b"

lemma ref_de_props_ser [simp]: "ref_de_props (ref_ser_props ps @ r) = Some (ps, r)"
proof -
  let ?e = "\<lambda>kd. ser_str (fst kd) @ ser_desc (snd kd)"
  let ?f = "length (ref_ser_props ps @ r)"
  have "de_entry (de_value ?f) (?e kd @ r') = Some (kd, r')" if "kd \<in> set ps" for kd r'
  proof -
    have "length (ser_desc (snd kd)) \<le> ?f"
      using length_ser_list_mem [OF that, of ?e] by (simp add: ref_ser_props_def)
    then show ?thesis by (simp add: de_entry_def de_value_ser(2))
  qed
  then show ?thesis unfolding ref_de_props_def by (simp add: ref_ser_props_def de_seq_ser_list)
qed

definition ref_ser_node :: "node_raw \<Rightarrow> bytes" where
  "ref_ser_node n = ser_opt (n_external_key n) @ ser_list be32 (n_labels n) @ ref_ser_props (n_props n)"

definition ref_de_node :: "bytes \<Rightarrow> (node_raw \<times> bytes) option" where
  "ref_de_node b =
     (case de_opt b of
        None \<Rightarrow> None
      | Some (ek, r) \<Rightarrow>
          (case de_seq de32 r of
             None \<Rightarrow> None
           | Some (ls, r') \<Rightarrow>
               map_option (\<lambda>(ps, r''). (\<lparr>n_external_key = ek, n_labels = ls, n_props = ps\<rparr>, r''))
                 (ref_de_props r')))"

definition ref_ser_edge :: "edge_raw \<Rightarrow> bytes" where
  "ref_ser_edge e = be64 (e_src e) @ be64 (e_dst e) @ be32 (e_ty e) @ ref_ser_props (e_props e)"

definition ref_de_edge :: "bytes \<Rightarrow> (edge_raw \<times> bytes) option" where
  "ref_de_edge b =
     (case de64 b of
        None \<Rightarrow> None
      | Some (s, r) \<Rightarrow>
          (case de64 r of
             None \<Rightarrow> None
           | Some (d, r) \<Rightarrow>
               (case de32 r of
                  None \<Rightarrow> None
                | Some (y, r) \<Rightarrow>
                    map_option (\<lambda>(ps, r). (\<lparr>e_src = s, e_dst = d, e_ty = y, e_props = ps\<rparr>, r))
                      (ref_de_props r))))"

definition ref_ser_query :: "stored_query \<Rightarrow> bytes" where
  "ref_ser_query q = be64 (sq_at q) @ ser_str (sq_plane q) @ ser_str (sq_query q)"

definition ref_de_query :: "bytes \<Rightarrow> (stored_query \<times> bytes) option" where
  "ref_de_query b =
     (case de64 b of
        None \<Rightarrow> None
      | Some (a, r) \<Rightarrow>
          (case de_str r of
             None \<Rightarrow> None
           | Some (p, r) \<Rightarrow>
               map_option (\<lambda>(q, r). (\<lparr>sq_at = a, sq_plane = p, sq_query = q\<rparr>, r)) (de_str r)))"

definition ref_postcard :: postcard where
  "ref_postcard =
     \<lparr>ser_props = ref_ser_props, de_props = ref_de_props, ser_node = ref_ser_node,
      de_node = ref_de_node, ser_edge = ref_ser_edge, de_edge = ref_de_edge,
      ser_query = ref_ser_query, de_query = ref_de_query\<rparr>"

lemma ref_postcard_ok: "postcard_ok ref_postcard"
  by (simp add: postcard_ok_def ref_postcard_def ref_ser_node_def ref_de_node_def ref_ser_edge_def
      ref_de_edge_def ref_ser_query_def ref_de_query_def de_seq_ser_list)

end
