(* ===== verification/Graph_Demo.thy ===== *)
theory Graph_Demo
  imports Graph_Planes Postcard_Ref
begin

text \<open>
  A small database built by the operations themselves on the in-memory backend with the reference
  codec: two keyed \<open>Person\<close> nodes and one \<open>KNOWS\<close> edge between them on the startup plane. The
  instances of the graph properties run on it.
\<close>

text \<open>A transaction state that stores the graph \<open>G\<close>, which has no dangling edge.\<close>

definition db_ok :: "('t \<Rightarrow> bool) \<Rightarrow> ('t \<Rightarrow> kv) \<Rightarrow> postcard \<Rightarrow> agraph \<Rightarrow> 't \<Rightarrow> bool" where
  "db_ok valid view pc G t \<longleftrightarrow> valid t \<and> repr pc G (view t) \<and> ag_ok G"

definition empty_graph :: agraph where
  "empty_graph = \<lparr>ag_node = Map.empty, ag_edge = Map.empty\<rparr>"

definition person :: str where "person = bstr ''Person''"
definition knows :: str where "knows = bstr ''KNOWS''"
definition ann :: str where "ann = bstr ''ann''"
definition bob :: str where "bob = bstr ''bob''"

definition demo0 :: tables where
  "demo0 = snd (init_db mem_vtable ref_postcard tables_new)"
definition demo1 :: tables where
  "demo1 = snd (create_node_with_key mem_vtable ref_postcard STARTUP ann [person] [] demo0)"
definition demo2 :: tables where
  "demo2 = snd (create_node_with_key mem_vtable ref_postcard STARTUP bob [person] [] demo1)"
definition demo3 :: tables where
  "demo3 = snd (create_edge mem_vtable ref_postcard STARTUP 1 2 knows [] demo2)"

definition graph1 :: agraph where
  "graph1 = put_node STARTUP 1 (Some ann, [person], []) empty_graph"
definition graph2 :: agraph where
  "graph2 = put_node STARTUP 2 (Some bob, [person], []) graph1"
definition graph3 :: agraph where
  "graph3 = put_edge STARTUP 1 (1, 2, knows, []) graph2"

lemma ag_ok_empty: "ag_ok empty_graph"
  by (simp add: ag_ok_def empty_graph_def has_edge_def)

lemma demo0_all:
  "mem_inv demo0 \<and> reprD ref_postcard Map.empty Map.empty empty_graph (mem_view demo0) \<and>
   planes_repr ref_postcard [STARTUP \<mapsto> (DEFAULT_PLANE_NAME, [])] (mem_view demo0) \<and>
   (\<forall>ctr \<in> set ID_COUNTERS. mem_view demo0 Meta ctr = Some (be64 1))"
proof -
  have "mem_inv tables_new" "\<And>tb k. mem_view tables_new tb k = None"
    by (simp_all add: mem_inv_def mem_view_def tables_new_def)
  from mem.init_db_run [OF this, of ref_postcard] show ?thesis
    by (auto simp: demo0_def empty_graph_def)
qed

lemma demo_utf8 [simp]: "utf8_ok person" "utf8_ok knows" "utf8_ok ann" "utf8_ok bob"
  by (simp_all add: person_def knows_def ann_def bob_def bstr_def)

lemma demo0_roomy: "roomy 100 (mem_view demo0)"
  using demo0_all by (simp add: roomy_def room_def ID_COUNTERS_def)

lemma demo_node:
  assumes "mem_inv t" "repr ref_postcard G (mem_view t)" "roomy (k + 2) (mem_view t)" "ag_ok G"
    "mem_view t Meta META_NEXT_NODE_ID = Some (be64 n)" "\<And>m. \<not> has_key (ag_node G) STARTUP m key"
    "utf8_ok key"
  shows "\<exists>t'. create_node_with_key mem_vtable ref_postcard STARTUP key [person] [] t = (Inr n, t') \<and>
    mem_inv t' \<and> repr ref_postcard (put_node STARTUP n (Some key, [person], []) G) (mem_view t') \<and>
    roomy k (mem_view t') \<and> mem_view t' Meta META_NEXT_NODE_ID = Some (be64 (n + 1)) \<and>
    mem_view t' Meta META_NEXT_EDGE_ID = mem_view t Meta META_NEXT_EDGE_ID"
proof -
  obtain L T where r: "reprD ref_postcard L T G (mem_view t)" using assms(2) by (auto simp: repr_def)
  have "\<exists>n t' L'. create_node_impl mem_vtable ref_postcard STARTUP (Some key) [person] [] t = (Inr n, t') \<and>
    mem_inv t' \<and> (\<forall>q. (q, n) \<notin> dom (ag_node G)) \<and>
    reprD ref_postcard L' T (put_node STARTUP n (Some key, [person], []) G) (mem_view t') \<and>
    roomy k (mem_view t') \<and> mem_view t Meta META_NEXT_NODE_ID = Some (be64 n) \<and>
    mem_view t' Meta META_NEXT_NODE_ID = Some (be64 (n + 1)) \<and>
    mem_view t' Meta META_NEXT_EDGE_ID = mem_view t Meta META_NEXT_EDGE_ID"
    by (rule mem.create_node_impl_run [OF assms(1) r])
       (use assms in \<open>auto simp: ref_postcard_ok str_opt_ok_def elim: roomy_mono\<close>)
  then show ?thesis using assms(5)
    by (auto simp: create_node_with_key_def repr_def)
qed

lemma demo1_all:
  "mem_inv demo1" "repr ref_postcard graph1 (mem_view demo1)" "roomy 90 (mem_view demo1)"
  "mem_view demo1 Meta META_NEXT_NODE_ID = Some (be64 2)"
  "mem_view demo1 Meta META_NEXT_EDGE_ID = Some (be64 1)"
proof -
  have "repr ref_postcard empty_graph (mem_view demo0)" using demo0_all by (auto simp: repr_def)
  then have "\<exists>t'. create_node_with_key mem_vtable ref_postcard STARTUP ann [person] [] demo0 = (Inr 1, t') \<and>
    mem_inv t' \<and> repr ref_postcard (put_node STARTUP 1 (Some ann, [person], []) empty_graph) (mem_view t') \<and>
    roomy 90 (mem_view t') \<and> mem_view t' Meta META_NEXT_NODE_ID = Some (be64 (1 + 1)) \<and>
    mem_view t' Meta META_NEXT_EDGE_ID = mem_view demo0 Meta META_NEXT_EDGE_ID"
    by (intro demo_node) (use demo0_all demo0_roomy ag_ok_empty in
      \<open>auto simp: empty_graph_def has_key_def ID_COUNTERS_def elim: roomy_mono\<close>)
  then show "mem_inv demo1" "repr ref_postcard graph1 (mem_view demo1)" "roomy 90 (mem_view demo1)"
    "mem_view demo1 Meta META_NEXT_NODE_ID = Some (be64 2)"
    "mem_view demo1 Meta META_NEXT_EDGE_ID = Some (be64 1)"
    using demo0_all by (auto simp: demo1_def graph1_def ID_COUNTERS_def)
qed

lemma ag_ok_demo: "ag_ok graph1" "ag_ok graph2" "ag_ok graph3"
  by (simp_all add: graph1_def graph2_def graph3_def ag_ok_empty dom_def)

lemma ann_bob: "ann \<noteq> bob" by (simp add: ann_def bob_def bstr_def)

lemma demo2_all:
  "mem_inv demo2" "repr ref_postcard graph2 (mem_view demo2)" "roomy 80 (mem_view demo2)"
  "mem_view demo2 Meta META_NEXT_EDGE_ID = Some (be64 1)"
proof -
  have "\<exists>t'. create_node_with_key mem_vtable ref_postcard STARTUP bob [person] [] demo1 = (Inr 2, t') \<and>
    mem_inv t' \<and> repr ref_postcard (put_node STARTUP 2 (Some bob, [person], []) graph1) (mem_view t') \<and>
    roomy 80 (mem_view t') \<and> mem_view t' Meta META_NEXT_NODE_ID = Some (be64 (2 + 1)) \<and>
    mem_view t' Meta META_NEXT_EDGE_ID = mem_view demo1 Meta META_NEXT_EDGE_ID"
    by (intro demo_node) (use demo1_all ag_ok_demo ann_bob in
      \<open>auto simp: graph1_def empty_graph_def has_key_def elim: roomy_mono\<close>)
  then show "mem_inv demo2" "repr ref_postcard graph2 (mem_view demo2)" "roomy 80 (mem_view demo2)"
    "mem_view demo2 Meta META_NEXT_EDGE_ID = Some (be64 1)"
    using demo1_all by (auto simp: demo2_def graph2_def)
qed

lemma graph2_dom: "(STARTUP, 1) \<in> dom (ag_node graph2)" "(STARTUP, 2) \<in> dom (ag_node graph2)"
  by (simp_all add: graph2_def graph1_def)

lemma demo3_all:
  "mem_inv demo3" "repr ref_postcard graph3 (mem_view demo3)" "roomy 70 (mem_view demo3)"
proof -
  obtain L T where r: "reprD ref_postcard L T graph2 (mem_view demo2)"
    using demo2_all by (auto simp: repr_def)
  have "\<exists>e t' T'. create_edge mem_vtable ref_postcard STARTUP 1 2 knows [] demo2 = (Inr e, t') \<and>
    mem_inv t' \<and> (\<forall>q. (q, e) \<notin> dom (ag_edge graph2)) \<and>
    reprD ref_postcard L T' (put_edge STARTUP e (1, 2, knows, []) graph2) (mem_view t') \<and>
    roomy 70 (mem_view t') \<and> mem_view demo2 Meta META_NEXT_EDGE_ID = Some (be64 e)"
    by (rule mem.create_edge_run [OF demo2_all(1) r])
       (use demo2_all graph2_dom in \<open>auto simp: ref_postcard_ok elim: roomy_mono\<close>)
  then show "mem_inv demo3" "repr ref_postcard graph3 (mem_view demo3)" "roomy 70 (mem_view demo3)"
    using demo2_all by (auto simp: demo3_def graph3_def repr_def)
qed

lemma demo3_db: "db_ok mem_inv mem_view ref_postcard graph3 demo3"
  using demo3_all ag_ok_demo by (simp add: db_ok_def)

end
