(* ===== verification/Graph_Props.thy ===== *)
theory Graph_Props
  imports Graph_Demo
begin

text \<open>
  The graph operations implement the abstract graph, over any backend that fulfils \<open>kv_txn\<close> (the
  in-memory and the native transaction both do). \<open>db_ok valid view pc G t\<close> says that the transaction
  state \<open>t\<close> stores exactly the graph \<open>G\<close> and that no edge of \<open>G\<close> dangles; every operation is shown to
  return what the abstract graph determines and to lead to a state that stores the updated graph.
\<close>

lemma db_okE:
  assumes "db_ok valid view pc G t"
  obtains L T where "valid t" "reprD pc L T G (view t)" "ag_ok G"
  using assms by (auto simp: db_ok_def repr_def)

lemma db_okI: "valid t \<Longrightarrow> reprD pc L T G (view t) \<Longrightarrow> ag_ok G \<Longrightarrow> db_ok valid view pc G t"
  by (auto simp: db_ok_def repr_def)

lemmas demo_ctx = mem.kv_txn_axioms ref_postcard_ok demo3_db

lemmas demo_graph_defs = graph3_def graph2_def graph1_def empty_graph_def has_key_def has_label_def
  has_edge_def ann_def bob_def knows_def person_def bstr_def

section \<open>Nodes\<close>

text \<open>
  C4: Creating a node on a plane refuses exactly when its external key is already owned by a node of
  that plane (the graph is then unchanged), and otherwise returns an id no node of any plane has and
  stores the node with its key, labels and properties, leaving everything else as it was.
\<close>

theorem create_node_correct:
  assumes "kv_txn V valid view" "postcard_ok pc" "db_ok valid view pc G t"
    "str_opt_ok ek" "props_ok ps" "\<forall>name \<in> set labels. utf8_ok name"
    "roomy (Suc (length labels)) (view t)"
  shows "((\<exists>key n. ek = Some key \<and> has_key (ag_node G) p n key) \<longrightarrow>
      (\<exists>t'. create_node_impl V pc p ek labels ps t = (Inl Conflict, t') \<and> db_ok valid view pc G t')) \<and>
    ((\<nexists>key n. ek = Some key \<and> has_key (ag_node G) p n key) \<longrightarrow>
      (\<exists>n t'. create_node_impl V pc p ek labels ps t = (Inr n, t') \<and>
        (\<forall>q. (q, n) \<notin> dom (ag_node G)) \<and> db_ok valid view pc (put_node p n (ek, labels, ps) G) t'))"
proof -
  obtain L T where d: "valid t" "reprD pc L T G (view t)" "ag_ok G" using assms(3) by (rule db_okE)
  have "\<exists>t'. create_node_impl V pc p ek labels ps t = (Inl Conflict, t') \<and> db_ok valid view pc G t'"
    if k: "ek = Some key" "has_key (ag_node G) p n key" for key n
  proof -
    have "roomy 1 (view t)" using assms(7) by (rule roomy_mono) simp
    from kv_txn.create_node_conflict [OF assms(1) d(1,2) this k(2)] d(3) k(1) show ?thesis
      by (metis db_okI)
  qed
  moreover have "\<exists>n t'. create_node_impl V pc p ek labels ps t = (Inr n, t') \<and>
      (\<forall>q. (q, n) \<notin> dom (ag_node G)) \<and> db_ok valid view pc (put_node p n (ek, labels, ps) G) t'"
    if "\<nexists>key n. ek = Some key \<and> has_key (ag_node G) p n key"
  proof -
    have "roomy (Suc (length labels) + 0) (view t)" using assms(7) by simp
    from kv_txn.create_node_impl_run [OF assms(1) d(1,2) assms(2,4,5,6) this] that d(3) show ?thesis
      by (metis db_okI ag_ok_put_node)
  qed
  ultimately show ?thesis by blast
qed

theorem create_node_correct_witness:
  "(\<exists>t'. create_node_impl mem_vtable ref_postcard STARTUP (Some ann) [person] [] demo3 = (Inl Conflict, t') \<and>
      db_ok mem_inv mem_view ref_postcard graph3 t') \<and>
   (\<exists>n t'. create_node_impl mem_vtable ref_postcard STARTUP (Some knows) [person] [] demo3 = (Inr n, t') \<and>
      (\<forall>q. (q, n) \<notin> dom (ag_node graph3)) \<and>
      db_ok mem_inv mem_view ref_postcard (put_node STARTUP n (Some knows, [person], []) graph3) t')"
proof -
  have r: "roomy (Suc (length [person])) (mem_view demo3)"
    using demo3_all(3) by (rule roomy_mono) simp
  have "has_key (ag_node graph3) STARTUP 1 ann" "\<And>n. \<not> has_key (ag_node graph3) STARTUP n knows"
    by (simp_all add: demo_graph_defs)
  moreover note
    create_node_correct [OF demo_ctx, where labels = "[person]" and ps = "[]" and p = STARTUP and ek = "Some ann"]
    create_node_correct [OF demo_ctx, where labels = "[person]" and ps = "[]" and p = STARTUP and ek = "Some knows"]
  ultimately show ?thesis using r by (simp add: str_opt_ok_def) blast
qed

text \<open>
  C16: A lookup returns exactly the stored node or edge: the record of the abstract graph when the id
  (or the external key) is in use on the plane, nothing otherwise; it never fails and never returns
  a record of another plane.
\<close>

theorem reads_exact:
  assumes "kv_txn V valid view" "db_ok valid view pc G t"
  shows "get_node V pc t p n = Inr (map_option (node_rec p n) (ag_node G (p, n))) \<and>
    get_edge V pc t p e = Inr (map_option (edge_rec p e) (ag_edge G (p, e))) \<and>
    (has_key (ag_node G) p n key \<longrightarrow>
      get_node_by_external_key V pc t p key = Inr (map_option (node_rec p n) (ag_node G (p, n)))) \<and>
    ((\<forall>m. \<not> has_key (ag_node G) p m key) \<longrightarrow> get_node_by_external_key V pc t p key = Inr None)"
proof -
  obtain L T where d: "valid t" "reprD pc L T G (view t)" using assms(2) by (rule db_okE)
  note get = kv_txn.get_node_run [OF assms(1) d]
  note key = kv_txn.node_id_by_external_key_run [OF assms(1) d(1) reprD_D(9) [OF d(2)], of p key]
  have "get_node_by_external_key V pc t p key = Inr (map_option (node_rec p n) (ag_node G (p, n)))"
    if "has_key (ag_node G) p n key"
    using key(1) [of n] that get by (simp add: get_node_by_external_key_def)
  moreover have "get_node_by_external_key V pc t p key = Inr None"
    if "\<forall>m. \<not> has_key (ag_node G) p m key"
    using key(2) that by (simp add: get_node_by_external_key_def)
  ultimately show ?thesis using get kv_txn.get_edge_run [OF assms(1) d] by blast
qed

theorem reads_exact_witness:
  "get_node_by_external_key mem_vtable ref_postcard demo3 STARTUP ann =
     Inr (Some \<lparr>nr_id = 1, nr_plane = STARTUP, nr_external_key = Some ann, nr_labels = [person],
                nr_properties = []\<rparr>) \<and>
   get_edge mem_vtable ref_postcard demo3 STARTUP 1 =
     Inr (Some \<lparr>er_id = 1, er_plane = STARTUP, er_src = 1, er_dst = 2, er_ty = knows, er_properties = []\<rparr>) \<and>
   get_node_by_external_key mem_vtable ref_postcard demo3 STARTUP knows = Inr None"
proof -
  have "has_key (ag_node graph3) STARTUP 1 ann" "\<forall>m. \<not> has_key (ag_node graph3) STARTUP m knows"
    by (simp_all add: demo_graph_defs)
  with reads_exact [OF demo_ctx(1,3), of STARTUP 1 1 ann] reads_exact [OF demo_ctx(1,3), of STARTUP 1 1 knows]
  show ?thesis by (simp add: graph3_def graph2_def graph1_def node_rec_def edge_rec_def)
qed

text \<open>
  C17: The ordered scans return exactly the ids in use, ascending and without duplicates: all nodes of
  a plane, the nodes that carry a label, and all edges of a plane.
\<close>

theorem scans_exact:
  assumes "kv_txn V valid view" "db_ok valid view pc G t"
  shows "scan_all V t p = Inr (sorted_list_of_set {n. (p, n) \<in> dom (ag_node G)}) \<and>
    scan_label V t p name = Inr (sorted_list_of_set {n. has_label (ag_node G) p n name}) \<and>
    scan_edges V t p = Inr (sorted_list_of_set {e. (p, e) \<in> dom (ag_edge G)})"
proof -
  obtain L T where d: "valid t" "reprD pc L T G (view t)" using assms(2) by (rule db_okE)
  show ?thesis
    using kv_txn.scan_all_run [OF assms(1) d] kv_txn.scan_label_run [OF assms(1) d]
      kv_txn.scan_edges_run [OF assms(1) d] by blast
qed

theorem scans_exact_witness:
  "scan_label mem_vtable demo3 STARTUP person = Inr [1, 2] \<and> scan_edges mem_vtable demo3 STARTUP = Inr [1] \<and>
   scan_label mem_vtable demo3 STARTUP knows = Inr []"
proof -
  have 1: "{n. has_label (ag_node graph3) STARTUP n person} = {1, 2}"
    by (auto simp: graph3_def graph2_def graph1_def empty_graph_def has_label_def)
  have 2: "{n. has_label (ag_node graph3) STARTUP n knows} = {}"
    by (auto simp: demo_graph_defs)
  have 3: "{e. (STARTUP, e) \<in> dom (ag_edge graph3)} = {1}"
    by (auto simp: graph3_def graph2_def graph1_def empty_graph_def dom_def)
  have "sorted_list_of_set {1, 2 :: u64} = [1, 2]" by simp
  with scans_exact [OF demo_ctx(1,3), of STARTUP person] scans_exact [OF demo_ctx(1,3), of STARTUP knows] 1 2 3
  show ?thesis by simp
qed

text \<open>
  C18: Setting or removing a property and replacing the label set of an existing node change exactly
  that part of exactly that node (the label index follows), and report \<open>NotFound\<close> without touching
  anything when the node does not exist on the plane.
\<close>

theorem node_updates_correct:
  assumes "kv_txn V valid view" "postcard_ok pc" "db_ok valid view pc G t"
    "utf8_ok key" "desc_ok d" "\<forall>name \<in> set labels. utf8_ok name" "roomy (length labels) (view t)"
  shows "(ag_node G (p, n) = Some (ek, ls, ps) \<longrightarrow>
      (\<exists>t'. set_node_prop V pc p n key d t = (Inr (), t') \<and>
        db_ok valid view pc (put_node p n (ek, ls, bt_insert key d ps) G) t') \<and>
      (\<exists>t'. remove_node_prop V pc p n key t = (Inr (), t') \<and>
        db_ok valid view pc (put_node p n (ek, ls, bt_remove key ps) G) t') \<and>
      (\<exists>t'. set_node_labels V pc p n labels t = (Inr (), t') \<and>
        db_ok valid view pc (put_node p n (ek, labels, ps) G) t')) \<and>
    ((p, n) \<notin> dom (ag_node G) \<longrightarrow>
      set_node_prop V pc p n key d t = (Inl NotFound, t) \<and>
      remove_node_prop V pc p n key t = (Inl NotFound, t) \<and>
      set_node_labels V pc p n labels t = (Inl NotFound, t))"
proof -
  obtain L T where d: "valid t" "reprD pc L T G (view t)" "ag_ok G" using assms(3) by (rule db_okE)
  note run = kv_txn.set_node_prop_run [OF assms(1) d(1,2) assms(2) _ assms(4,5)]
    kv_txn.remove_node_prop_run [OF assms(1) d(1,2) assms(2)]
    kv_txn.set_node_labels_run [OF assms(1) d(1,2) assms(2) _ assms(6,7)]
  have "\<exists>t'. set_node_prop V pc p n key d t = (Inr (), t') \<and>
        db_ok valid view pc (put_node p n (ek, ls, bt_insert key d ps) G) t'"
    "\<exists>t'. remove_node_prop V pc p n key t = (Inr (), t') \<and>
        db_ok valid view pc (put_node p n (ek, ls, bt_remove key ps) G) t'"
    "\<exists>t'. set_node_labels V pc p n labels t = (Inr (), t') \<and>
        db_ok valid view pc (put_node p n (ek, labels, ps) G) t'"
    if n: "ag_node G (p, n) = Some (ek, ls, ps)"
    using run(1) [OF n] run(2) [OF n] run(3) [OF n] d(3) by (metis db_okI ag_ok_put_node)+
  moreover have "set_node_prop V pc p n key d t = (Inl NotFound, t) \<and>
      remove_node_prop V pc p n key t = (Inl NotFound, t) \<and>
      set_node_labels V pc p n labels t = (Inl NotFound, t)" if "(p, n) \<notin> dom (ag_node G)"
    using kv_txn.load_node_missing [OF assms(1) d(1,2) that]
    by (simp add: set_node_prop_def remove_node_prop_def set_node_labels_def act_bind_reading)
  ultimately show ?thesis by blast
qed

theorem node_updates_correct_witness:
  "(\<exists>t'. set_node_labels mem_vtable ref_postcard STARTUP 1 [knows] demo3 = (Inr (), t') \<and>
      db_ok mem_inv mem_view ref_postcard (put_node STARTUP 1 (Some ann, [knows], []) graph3) t') \<and>
   set_node_prop mem_vtable ref_postcard STARTUP 9 knows (PropDesc None PNull) demo3 = (Inl NotFound, demo3)"
proof -
  have "ag_node graph3 (STARTUP, 1) = Some (Some ann, [person], [])" "(STARTUP, 9) \<notin> dom (ag_node graph3)"
    by (simp_all add: graph3_def graph2_def graph1_def empty_graph_def)
  moreover have "roomy (length [knows]) (mem_view demo3)" using demo3_all(3) by (rule roomy_mono) simp
  moreover note node_updates_correct [OF demo_ctx, of knows "PropDesc None PNull" "[knows]" STARTUP 1]
    node_updates_correct [OF demo_ctx, of knows "PropDesc None PNull" "[knows]" STARTUP 9]
  ultimately show ?thesis by simp
qed

text \<open>
  C2: Deleting a node removes it together with every edge that starts or ends at it, on its own plane
  only, with all index rows; no edge is left dangling, and deleting an absent node changes nothing.
\<close>

theorem delete_node_correct:
  assumes "kv_txn V valid view" "db_ok valid view pc G t"
  shows "\<exists>t'. delete_node V pc p n t = (Inr (), t') \<and> db_ok valid view pc (cascade p n G) t'"
proof -
  obtain L T where d: "valid t" "reprD pc L T G (view t)" "ag_ok G" using assms(2) by (rule db_okE)
  show ?thesis
  proof (cases "ag_node G (p, n)")
    case None
    then have "(p, n) \<notin> dom (ag_node G)" by auto
    with kv_txn.delete_node_missing [OF assms(1) d(1,2)] cascade_absent [OF d(3)] assms(2)
    show ?thesis by auto
  next
    case (Some r)
    obtain ek ls ps where "ag_node G (p, n) = Some (ek, ls, ps)" using Some by (cases r) auto
    from kv_txn.delete_node_run [OF assms(1) d(1,2) this] ag_ok_cascade [OF d(3)]
    show ?thesis by (metis db_okI)
  qed
qed

theorem delete_node_correct_witness:
  "\<exists>t'. delete_node mem_vtable ref_postcard STARTUP 1 demo3 = (Inr (), t') \<and>
     db_ok mem_inv mem_view ref_postcard (cascade STARTUP 1 graph3) t' \<and>
     ag_edge (cascade STARTUP 1 graph3) (STARTUP, 1) = None"
proof -
  have "has_edge (ag_edge graph3) STARTUP 1 1 2 knows" by (simp add: graph3_def)
  then have "ag_edge (cascade STARTUP 1 graph3) (STARTUP, 1) = None"
    by (auto simp: cascade_def incident_def)
  with delete_node_correct [OF demo_ctx(1,3), of STARTUP 1] show ?thesis by blast
qed

section \<open>Edges\<close>

text \<open>
  C8: Creating an edge is refused with \<open>PlaneMismatch\<close> exactly when an endpoint does not exist on the
  edge's plane (the graph is then unchanged); otherwise the edge gets an id no edge of any plane has,
  and is stored with its endpoints, type and properties, so referential integrity is kept.
\<close>

theorem create_edge_correct:
  assumes "kv_txn V valid view" "postcard_ok pc" "db_ok valid view pc G t" "props_ok ps" "utf8_ok ty"
    "roomy 1 (view t)"
  shows "((p, s) \<in> dom (ag_node G) \<and> (p, d) \<in> dom (ag_node G) \<longrightarrow>
      (\<exists>e t'. create_edge V pc p s d ty ps t = (Inr e, t') \<and> (\<forall>q. (q, e) \<notin> dom (ag_edge G)) \<and>
        db_ok valid view pc (put_edge p e (s, d, ty, ps) G) t')) \<and>
    ((p, s) \<notin> dom (ag_node G) \<or> (p, d) \<notin> dom (ag_node G) \<longrightarrow>
      (\<exists>t'. create_edge V pc p s d ty ps t = (Inl PlaneMismatch, t') \<and> db_ok valid view pc G t'))"
proof -
  obtain L T where d: "valid t" "reprD pc L T G (view t)" "ag_ok G" using assms(3) by (rule db_okE)
  have r: "roomy (Suc 0) (view t)" using assms(6) by simp
  have "\<exists>e t'. create_edge V pc p s d ty ps t = (Inr e, t') \<and> (\<forall>q. (q, e) \<notin> dom (ag_edge G)) \<and>
        db_ok valid view pc (put_edge p e (s, d, ty, ps) G) t'"
    if e: "(p, s) \<in> dom (ag_node G)" "(p, d) \<in> dom (ag_node G)"
    using kv_txn.create_edge_run [OF assms(1) d(1,2) assms(2,4,5) r e] ag_ok_put_edge [OF d(3) e]
    by (metis db_okI)
  moreover have "\<exists>t'. create_edge V pc p s d ty ps t = (Inl PlaneMismatch, t') \<and> db_ok valid view pc G t'"
    if "(p, s) \<notin> dom (ag_node G) \<or> (p, d) \<notin> dom (ag_node G)"
    using kv_txn.create_edge_mismatch [OF assms(1) d(1,2) r that] d(3) by (metis db_okI)
  ultimately show ?thesis by blast
qed

theorem create_edge_correct_witness:
  "(\<exists>e t'. create_edge mem_vtable ref_postcard STARTUP 2 1 knows [] demo3 = (Inr e, t') \<and>
      (\<forall>q. (q, e) \<notin> dom (ag_edge graph3)) \<and>
      db_ok mem_inv mem_view ref_postcard (put_edge STARTUP e (2, 1, knows, []) graph3) t') \<and>
   (\<exists>t'. create_edge mem_vtable ref_postcard 7 2 1 knows [] demo3 = (Inl PlaneMismatch, t') \<and>
      db_ok mem_inv mem_view ref_postcard graph3 t')"
proof -
  have "(STARTUP, 2) \<in> dom (ag_node graph3)" "(STARTUP, 1) \<in> dom (ag_node graph3)"
    "(7, 2) \<notin> dom (ag_node graph3)"
    by (simp_all add: graph3_def graph2_def graph1_def empty_graph_def STARTUP_def)
  moreover have "roomy 1 (mem_view demo3)" using demo3_all(3) by (rule roomy_mono) simp
  moreover note create_edge_correct [OF demo_ctx, of "[]" knows STARTUP 2 1]
    create_edge_correct [OF demo_ctx, of "[]" knows 7 2 1]
  ultimately show ?thesis by (simp del: domIff)
qed

text \<open>
  C19: Setting or removing a property and changing the type of an existing edge change exactly that
  part of exactly that edge, with both adjacency tables following a type change; on an absent edge
  they report \<open>NotFound\<close> and touch nothing. Deleting an edge removes exactly it, and is a no-op on an
  absent one.
\<close>

theorem edge_updates_correct:
  assumes "kv_txn V valid view" "postcard_ok pc" "db_ok valid view pc G t"
    "utf8_ok key" "desc_ok x" "utf8_ok ty'" "roomy 1 (view t)"
  shows "(ag_edge G (p, e) = Some (s, d, ty, ps) \<longrightarrow>
      (\<exists>t'. set_edge_prop V pc p e key x t = (Inr (), t') \<and>
        db_ok valid view pc (put_edge p e (s, d, ty, bt_insert key x ps) G) t') \<and>
      (\<exists>t'. remove_edge_prop V pc p e key t = (Inr (), t') \<and>
        db_ok valid view pc (put_edge p e (s, d, ty, bt_remove key ps) G) t') \<and>
      (\<exists>t'. set_edge_type V pc p e ty' t = (Inr (), t') \<and>
        db_ok valid view pc (put_edge p e (s, d, ty', ps) G) t')) \<and>
    ((p, e) \<notin> dom (ag_edge G) \<longrightarrow>
      set_edge_prop V pc p e key x t = (Inl NotFound, t) \<and>
      remove_edge_prop V pc p e key t = (Inl NotFound, t) \<and>
      set_edge_type V pc p e ty' t = (Inl NotFound, t)) \<and>
    (\<exists>t'. delete_edge V pc p e t = (Inr (), t') \<and> db_ok valid view pc (drop_edge p e G) t')"
proof -
  obtain L T where r: "valid t" "reprD pc L T G (view t)" "ag_ok G" using assms(3) by (rule db_okE)
  note run = kv_txn.set_edge_prop_run [OF assms(1) r(1,2) assms(2) _ assms(4,5)]
    kv_txn.remove_edge_prop_run [OF assms(1) r(1,2) assms(2)]
    kv_txn.set_edge_type_run [OF assms(1) r(1,2) assms(2) _ assms(6,7)]
  have "(\<exists>t'. set_edge_prop V pc p e key x t = (Inr (), t') \<and>
        db_ok valid view pc (put_edge p e (s, d, ty, bt_insert key x ps) G) t') \<and>
    (\<exists>t'. remove_edge_prop V pc p e key t = (Inr (), t') \<and>
        db_ok valid view pc (put_edge p e (s, d, ty, bt_remove key ps) G) t') \<and>
    (\<exists>t'. set_edge_type V pc p e ty' t = (Inr (), t') \<and>
        db_ok valid view pc (put_edge p e (s, d, ty', ps) G) t')"
    if e: "ag_edge G (p, e) = Some (s, d, ty, ps)"
  proof -
    have "has_edge (ag_edge G) p e s d ty" using e by (simp add: has_edge_def)
    then have "(p, s) \<in> dom (ag_node G)" "(p, d) \<in> dom (ag_node G)"
      using r(3) unfolding ag_ok_def by blast+
    then have "ag_ok (put_edge p e (s, d, z, qs) G)" for z qs by (rule ag_ok_put_edge [OF r(3)])
    with run(1) [OF e] run(2) [OF e] run(3) [OF e] show ?thesis by (metis db_okI)
  qed
  moreover have "set_edge_prop V pc p e key x t = (Inl NotFound, t) \<and>
      remove_edge_prop V pc p e key t = (Inl NotFound, t) \<and>
      set_edge_type V pc p e ty' t = (Inl NotFound, t)" if "(p, e) \<notin> dom (ag_edge G)"
    using kv_txn.load_edge_missing [OF assms(1) r(1,2) that]
    by (simp add: set_edge_prop_def remove_edge_prop_def set_edge_type_def act_bind_reading)
  moreover have "\<exists>t'. delete_edge V pc p e t = (Inr (), t') \<and> db_ok valid view pc (drop_edge p e G) t'"
    using kv_txn.delete_edge_run [OF assms(1) r(1,2)] ag_ok_drop_edge [OF r(3)] by (metis db_okI)
  ultimately show ?thesis by blast
qed

theorem edge_updates_correct_witness:
  "(\<exists>t'. set_edge_type mem_vtable ref_postcard STARTUP 1 person demo3 = (Inr (), t') \<and>
      db_ok mem_inv mem_view ref_postcard (put_edge STARTUP 1 (1, 2, person, []) graph3) t') \<and>
   remove_edge_prop mem_vtable ref_postcard STARTUP 9 knows demo3 = (Inl NotFound, demo3)"
proof -
  have "ag_edge graph3 (STARTUP, 1) = Some (1, 2, knows, [])" "(STARTUP, 9) \<notin> dom (ag_edge graph3)"
    by (simp_all add: graph3_def graph2_def graph1_def empty_graph_def)
  moreover have "roomy 1 (mem_view demo3)" using demo3_all(3) by (rule roomy_mono) simp
  moreover note edge_updates_correct [OF demo_ctx, of knows "PropDesc None PNull" person STARTUP 1]
    edge_updates_correct [OF demo_ctx, of knows "PropDesc None PNull" person STARTUP 9]
  ultimately show ?thesis by simp
qed

text \<open>
  C9: One-hop expansion returns exactly the edges of the node: outgoing ones with their target,
  incoming ones with their source, each edge once per direction, restricted to one edge type when a
  type is given; both directions together are the outgoing list followed by the incoming one.
\<close>

theorem neighbors_exact:
  assumes "kv_txn V valid view" "db_ok valid view pc G t"
  shows "\<exists>outs ins. neighbors V t p n Out tyo = Inr outs \<and> neighbors V t p n In tyo = Inr ins \<and>
    neighbors V t p n Both tyo = Inr (outs @ ins) \<and> distinct outs \<and> distinct ins \<and>
    set outs = out_nbrs (ag_edge G) p n tyo \<and> set ins = in_nbrs (ag_edge G) p n tyo"
proof -
  obtain L T where d: "valid t" "reprD pc L T G (view t)" using assms(2) by (rule db_okE)
  show ?thesis by (rule kv_txn.neighbors_run [OF assms(1) d])
qed

theorem neighbors_exact_witness:
  "neighbors mem_vtable demo3 STARTUP 1 Out (Some knows) = Inr [\<lparr>nb_node = 2, nb_edge = 1\<rparr>] \<and>
   neighbors mem_vtable demo3 STARTUP 1 In None = Inr []"
proof -
  have o: "out_nbrs (ag_edge graph3) STARTUP 1 (Some knows) = {\<lparr>nb_node = 2, nb_edge = 1\<rparr>}"
    by (auto simp: graph3_def graph2_def graph1_def empty_graph_def out_nbrs_def has_edge_def
        split: if_splits)
  have i: "in_nbrs (ag_edge graph3) STARTUP 1 None = {}"
    by (auto simp: graph3_def graph2_def graph1_def empty_graph_def in_nbrs_def has_edge_def
        split: if_splits)
  have one: "xs = [x]" if "distinct xs" "set xs = {x}" for xs :: "neighbor list" and x
  proof -
    have "length xs = Suc 0" using distinct_card [OF that(1)] that(2) by simp
    then obtain y where "xs = [y]" by (metis length_0_conv length_Suc_conv)
    with that(2) show ?thesis by simp
  qed
  from neighbors_exact [OF demo_ctx(1,3), of STARTUP 1 "Some knows"]
    neighbors_exact [OF demo_ctx(1,3), of STARTUP 1 None]
  show ?thesis unfolding o i by (metis one set_empty)
qed

section \<open>Planes and initialisation\<close>

text \<open>
  Opening an empty store writes a database that holds the empty graph, the startup plane only and
  every id counter at 1; a store with the right magic and format version is left untouched, and a
  foreign magic or an unsupported version is refused as corrupt without a write.
\<close>

theorem init_db_correct:
  assumes "kv_txn V valid view" "valid t"
  shows "((\<forall>tb k. view t tb k = None) \<longrightarrow>
      (\<exists>t'. init_db V pc t = (Inr (), t') \<and> db_ok valid view pc empty_graph t' \<and>
        planes_repr pc [STARTUP \<mapsto> (DEFAULT_PLANE_NAME, [])] (view t') \<and>
        (\<forall>ctr \<in> set ID_COUNTERS. view t' Meta ctr = Some (be64 1)))) \<and>
    (view t Meta META_MAGIC = Some MAGIC \<and> view t Meta META_FORMAT_VERSION = Some (be32 v) \<longrightarrow>
      init_db V pc t = (if v = FORMAT_VERSION then (Inr (), t) else (Inl Corrupt, t))) \<and>
    (view t Meta META_MAGIC = Some magic \<and> magic \<noteq> MAGIC \<longrightarrow> init_db V pc t = (Inl Corrupt, t))"
proof -
  note get = kv_txn.get_law [OF assms]
  have "\<exists>t'. init_db V pc t = (Inr (), t') \<and> db_ok valid view pc empty_graph t' \<and>
        planes_repr pc [STARTUP \<mapsto> (DEFAULT_PLANE_NAME, [])] (view t') \<and>
        (\<forall>ctr \<in> set ID_COUNTERS. view t' Meta ctr = Some (be64 1))" if "\<forall>tb k. view t tb k = None"
    using kv_txn.init_db_run [OF assms, of pc] that ag_ok_empty unfolding empty_graph_def
    by (metis db_okI)
  moreover have "init_db V pc t = (if v = FORMAT_VERSION then (Inr (), t) else (Inl Corrupt, t))"
    if "view t Meta META_MAGIC = Some MAGIC" "view t Meta META_FORMAT_VERSION = Some (be32 v)"
    using that
    by (auto simp: init_db_def act_bind_def get get_u32_def map_transpose_def decode_u32_def
        FORMAT_VERSION_def MIN_SUPPORTED_VERSION_def not_less)
  moreover have "init_db V pc t = (Inl Corrupt, t)"
    if "view t Meta META_MAGIC = Some magic" "magic \<noteq> MAGIC"
    using that by (simp add: init_db_def act_bind_def get)
  ultimately show ?thesis by blast
qed

theorem init_db_correct_witness:
  "(\<exists>t'. init_db mem_vtable ref_postcard tables_new = (Inr (), t') \<and>
      db_ok mem_inv mem_view ref_postcard empty_graph t' \<and>
      planes_repr ref_postcard [STARTUP \<mapsto> (DEFAULT_PLANE_NAME, [])] (mem_view t')) \<and>
   fst (init_db mem_vtable ref_postcard (tables_new(Meta := [(META_MAGIC, [1])]))) = Inl Corrupt"
proof -
  have "mem_inv tables_new" "\<forall>tb k. mem_view tables_new tb k = None"
    by (simp_all add: mem_inv_def mem_view_def tables_new_def)
  moreover have "mem_inv (tables_new(Meta := [(META_MAGIC, [1])]))"
    "mem_view (tables_new(Meta := [(META_MAGIC, [1])])) Meta META_MAGIC = Some [1]"
    by (simp_all add: mem_inv_def mem_view_def tables_new_def)
  moreover have "[1] \<noteq> MAGIC" by (simp add: MAGIC_def bstr_def)
  ultimately show ?thesis
    using init_db_correct [OF mem.kv_txn_axioms, of tables_new ref_postcard]
      init_db_correct [OF mem.kv_txn_axioms, of "tables_new(Meta := [(META_MAGIC, [1])])" ref_postcard _ "[1]"]
    by auto
qed

text \<open>
  The plane catalogue keeps names unique: creating a plane (or renaming one other than the startup
  plane) fails with \<open>PlaneExists\<close> exactly when another plane has the name, and otherwise stores the new
  entry under a fresh id (under the same id for a rename); the graph is unaffected either way.
\<close>

theorem plane_catalogue_correct:
  assumes "kv_txn V valid view" "postcard_ok pc" "db_ok valid view pc G t" "planes_repr pc P (view t)"
    "utf8_ok name" "length name < 2 ^ 32" "props_ok ps" "room META_NEXT_PLANE_ID (2 ^ 32) 1 (view t)"
  shows "((\<exists>i qs. P i = Some (name, qs)) \<longrightarrow> create_plane V pc name ps t = (Inl PlaneExists, t)) \<and>
    ((\<nexists>i qs. P i = Some (name, qs)) \<longrightarrow>
      (\<exists>i t'. create_plane V pc name ps t = (Inr i, t') \<and> P i = None \<and>
        planes_repr pc (P(i \<mapsto> (name, ps))) (view t') \<and> db_ok valid view pc G t')) \<and>
    (P i = Some (old, qs) \<and> i \<noteq> STARTUP \<and> (\<nexists>j qs. P j = Some (name, qs)) \<longrightarrow>
      (\<exists>t'. rename_plane V pc i name t = (Inr (), t') \<and>
        planes_repr pc (P(i \<mapsto> (name, qs))) (view t') \<and> db_ok valid view pc G t')) \<and>
    (P i = Some (old, qs) \<and> i \<noteq> STARTUP \<and> old \<noteq> name \<and> (\<exists>j qs. P j = Some (name, qs)) \<longrightarrow>
      rename_plane V pc i name t = (Inl PlaneExists, t)) \<and>
    rename_plane V pc STARTUP name t = (Inl InvalidArgument, t)"
proof -
  obtain L T where d: "valid t" "reprD pc L T G (view t)" "ag_ok G" using assms(3) by (rule db_okE)
  note found = kv_txn.plane_id_by_name_run [OF assms(1) d(1) assms(4)]
  note read = kv_txn.read_plane_run [OF assms(1) d(1) assms(4,2)]
  have "create_plane V pc name ps t = (Inl PlaneExists, t)" if "P j = Some (name, rs)" for j rs
    by (rule kv_txn.create_plane_exists [OF assms(1) d(1) assms(4) that])
  moreover have "\<exists>i t'. create_plane V pc name ps t = (Inr i, t') \<and> P i = None \<and>
        planes_repr pc (P(i \<mapsto> (name, ps))) (view t') \<and> db_ok valid view pc G t'"
    if "\<nexists>i qs. P i = Some (name, qs)"
  proof -
    have "P i \<noteq> Some (name, qs)" for i qs using that by blast
    from kv_txn.create_plane_run [OF assms(1) d(1) assms(4) d(2) this assms(5,7,6,8)] d(3)
    show ?thesis by (metis db_okI)
  qed
  moreover have "\<exists>t'. rename_plane V pc i name t = (Inr (), t') \<and>
        planes_repr pc (P(i \<mapsto> (name, qs))) (view t') \<and> db_ok valid view pc G t'"
    if i: "P i = Some (old, qs)" "i \<noteq> STARTUP" and free: "\<nexists>j qs. P j = Some (name, qs)"
  proof -
    have "P j \<noteq> Some (name, rs)" for j rs using free by blast
    from kv_txn.rename_plane_run [OF assms(1) d(1) assms(4) d(2) assms(2) i this assms(5,6)] d(3)
    show ?thesis by (metis db_okI)
  qed
  moreover have "rename_plane V pc i name t = (Inl PlaneExists, t)"
    if "P i = Some (old, qs)" "i \<noteq> STARTUP" "old \<noteq> name" "P j = Some (name, rs)" for j rs
    using that read [of i] found(1) [of name j] by (auto simp: rename_plane_def act_bind_def)
  moreover have "rename_plane V pc STARTUP name t = (Inl InvalidArgument, t)"
    by (simp add: rename_plane_def)
  ultimately show ?thesis by blast
qed

theorem plane_catalogue_correct_witness:
  "create_plane mem_vtable ref_postcard DEFAULT_PLANE_NAME [] demo0 = (Inl PlaneExists, demo0) \<and>
   (\<exists>i t'. create_plane mem_vtable ref_postcard knows [] demo0 = (Inr i, t') \<and>
      planes_repr ref_postcard ([STARTUP \<mapsto> (DEFAULT_PLANE_NAME, [])](i \<mapsto> (knows, []))) (mem_view t'))"
proof -
  let ?P = "[STARTUP \<mapsto> (DEFAULT_PLANE_NAME, [])]"
  have db: "db_ok mem_inv mem_view ref_postcard empty_graph demo0"
    using demo0_all ag_ok_empty by (blast intro: db_okI)
  have P: "planes_repr ref_postcard ?P (mem_view demo0)" using demo0_all by blast
  have room: "room META_NEXT_PLANE_ID (2 ^ 32) 1 (mem_view demo0)"
    using demo0_all by (simp add: room_def ID_COUNTERS_def)
  have names: "utf8_ok DEFAULT_PLANE_NAME" "length DEFAULT_PLANE_NAME < 2 ^ 32" "utf8_ok knows"
    "length knows < 2 ^ 32" "DEFAULT_PLANE_NAME \<noteq> knows"
    by (simp_all add: DEFAULT_PLANE_NAME_def knows_def bstr_def)
  have taken: "\<exists>i qs. ?P i = Some (DEFAULT_PLANE_NAME, qs)" by auto
  have free: "\<nexists>i qs. ?P i = Some (knows, qs)" using names(5) by auto
  note c = plane_catalogue_correct [where t = demo0 and view = mem_view, OF mem.kv_txn_axioms ref_postcard_ok db P]
  note c1 = conjunct1 [OF c [OF names(1,2) props_ok_Nil room]]
    and c2 = conjunct1 [OF conjunct2 [OF c [OF names(3,4) props_ok_Nil room]]]
  from mp [OF c1 taken] mp [OF c2 free] show ?thesis by blast
qed

text \<open>
  C20: Dropping a plane removes exactly what is stored under it, nodes, edges, index rows, node-to-plane
  rows and its catalogue entry, and nothing of any other plane; the startup plane cannot be dropped, and
  dropping an unknown plane changes nothing.
\<close>

theorem drop_plane_correct:
  assumes "kv_txn V valid view" "postcard_ok pc" "db_ok valid view pc G t" "planes_repr pc P (view t)"
  shows "(i \<noteq> STARTUP \<and> i \<in> dom P \<longrightarrow>
      (\<exists>t'. drop_plane V pc i t = (Inr (), t') \<and> planes_repr pc (P(i := None)) (view t') \<and>
        db_ok valid view pc (ag_drop_plane i G) t')) \<and>
    (i \<noteq> STARTUP \<and> i \<notin> dom P \<longrightarrow> drop_plane V pc i t = (Inr (), t)) \<and>
    drop_plane V pc STARTUP t = (Inl InvalidArgument, t)"
proof -
  obtain L T where d: "valid t" "reprD pc L T G (view t)" "ag_ok G" using assms(3) by (rule db_okE)
  note read = kv_txn.read_plane_run [OF assms(1) d(1) assms(4,2), of i]
  have "\<exists>t'. drop_plane V pc i t = (Inr (), t') \<and> planes_repr pc (P(i := None)) (view t') \<and>
        db_ok valid view pc (ag_drop_plane i G) t'" if "i \<noteq> STARTUP" "P i = Some (name, ps)" for name ps
    using kv_txn.drop_plane_run [OF assms(1) d(1) assms(4) d(2) assms(2) that(2,1)] ag_ok_drop_plane [OF d(3)]
    by (metis db_okI)
  moreover have "drop_plane V pc i t = (Inr (), t)" if "i \<noteq> STARTUP" "P i = None"
    using that read by (simp add: drop_plane_def act_bind_def)
  moreover have "drop_plane V pc STARTUP t = (Inl InvalidArgument, t)" by (simp add: drop_plane_def)
  ultimately show ?thesis by (cases "P i") (auto simp: domIff)
qed

theorem drop_plane_correct_witness:
  "\<exists>i t t'. create_plane mem_vtable ref_postcard knows [] demo0 = (Inr i, t) \<and> i \<noteq> STARTUP \<and>
     drop_plane mem_vtable ref_postcard i t = (Inr (), t') \<and>
     planes_repr ref_postcard [STARTUP \<mapsto> (DEFAULT_PLANE_NAME, [])] (mem_view t') \<and>
     drop_plane mem_vtable ref_postcard STARTUP t = (Inl InvalidArgument, t)"
proof -
  let ?P = "[STARTUP \<mapsto> (DEFAULT_PLANE_NAME, [] :: props)]"
  have room: "room META_NEXT_PLANE_ID (2 ^ 32) 1 (mem_view demo0)"
    using demo0_all by (simp add: room_def ID_COUNTERS_def)
  have "utf8_ok knows" "length knows < 2 ^ 32" "\<And>i qs. ?P i \<noteq> Some (knows, qs)"
    by (simp_all add: DEFAULT_PLANE_NAME_def knows_def bstr_def)
  then obtain i t where t: "create_plane mem_vtable ref_postcard knows [] demo0 = (Inr i, t)" "mem_inv t"
    "?P i = None" "planes_repr ref_postcard (?P(i \<mapsto> (knows, []))) (mem_view t)"
    "reprD ref_postcard Map.empty Map.empty empty_graph (mem_view t)"
    using mem.create_plane_run [of demo0 ref_postcard ?P Map.empty Map.empty empty_graph knows "[]"] demo0_all room
    by (auto simp del: fun_upd_apply)
  have i: "i \<noteq> STARTUP" using t(3) by auto
  have db: "db_ok mem_inv mem_view ref_postcard empty_graph t"
    using t(2,5) ag_ok_empty by (blast intro: db_okI)
  note d = drop_plane_correct [where t = t and view = mem_view, OF mem.kv_txn_axioms ref_postcard_ok db t(4), of i]
  have "(?P(i \<mapsto> (knows, [])))(i := None) = ?P" using t(3) by (auto simp: fun_eq_iff)
  moreover have "i \<in> dom (?P(i \<mapsto> (knows, [])))" by simp
  ultimately show ?thesis using d i t(1) by auto
qed

end
