(* ===== verification/Graph_Bulk.thy ===== *)
theory Graph_Bulk
  imports Graph
begin

text \<open>
  Bulk loading (\<open>storage/graph/bulk.rs\<close>): a batch of nodes and edges is staged in memory, with ids
  from one reservation and names interned once per batch, and then written table by table as sorted
  batches.
\<close>

section \<open>Batches\<close>

record bulk_node =
  bn_external_key :: "str option"
  bn_labels :: "str list"
  bn_props :: props

record bulk_edge =
  be_src_key :: str
  be_dst_key :: str
  be_ty :: str
  be_props :: props

record bulk_edge_by_id =
  bi_src :: node_id
  bi_dst :: node_id
  bi_ty :: str
  bi_props :: props

datatype on_conflict = OcError | OcSkip | OcUpdate

record bulk_stats =
  bs_nodes :: u64
  bs_edges :: u64
  bs_node_start :: u64
  bs_node_ids :: "node_id list"
  bs_existing :: "(nat \<times> node_id) list"

type_synonym batch = "kvpair list"

text \<open>
  \<open>sort_unstable_by\<close> on the key: entries with equal keys (a label named twice on one node) are equal,
  so the order among them is immaterial.
\<close>

definition sort_batch :: "batch \<Rightarrow> batch" where
  "sort_batch b = sort_key fst b"

definition intern_cached ::
    "(str \<Rightarrow> ('t, u32) act) \<Rightarrow> str \<Rightarrow> (str \<rightharpoonup> u32) \<Rightarrow> ('t, u32 \<times> (str \<rightharpoonup> u32)) act" where
  "intern_cached f name cache =
     (case cache name of
        Some i \<Rightarrow> ret (i, cache)
      | None \<Rightarrow> act_bind (f name) (\<lambda>i. ret (i, cache(name \<mapsto> i))))"

fun intern_all ::
    "(str \<Rightarrow> ('t, u32) act) \<Rightarrow> str list \<Rightarrow> (str \<rightharpoonup> u32) \<Rightarrow> ('t, u32 list \<times> (str \<rightharpoonup> u32)) act" where
  "intern_all f [] cache = ret ([], cache)"
| "intern_all f (name # names) cache =
     act_bind (intern_cached f name cache) (\<lambda>(i, cache).
     act_bind (intern_all f names cache) (\<lambda>(is, cache). ret (i # is, cache)))"

section \<open>Staging the nodes\<close>

record staged_nodes =
  sn_key_to_id :: "str \<rightharpoonup> node_id"
  sn_nodes :: batch
  sn_node_plane :: batch
  sn_label_idx :: batch
  sn_ext_keys :: batch
  sn_node_ids :: "node_id list"
  sn_existing :: "(nat \<times> node_id) list"

definition staged_empty :: staged_nodes where
  "staged_empty =
     \<lparr>sn_key_to_id = Map.empty, sn_nodes = [], sn_node_plane = [], sn_label_idx = [], sn_ext_keys = [],
      sn_node_ids = [], sn_existing = []\<rparr>"

text \<open>The rows one created node contributes.\<close>

definition stage_record ::
    "postcard \<Rightarrow> plane_id \<Rightarrow> node_id \<Rightarrow> bulk_node \<Rightarrow> u32 list \<Rightarrow> staged_nodes \<Rightarrow> staged_nodes" where
  "stage_record pc plane i node lids s =
     s\<lparr>sn_node_ids := sn_node_ids s @ [i],
       sn_nodes := sn_nodes s @ [(node_key plane i,
         encode_node_record pc (bn_external_key node) lids (bn_props node))],
       sn_node_plane := sn_node_plane s @ [(node_plane_key i, be32 plane)],
       sn_label_idx := sn_label_idx s @ map (\<lambda>l. (label_idx_key plane l i, [])) lids\<rparr>"

text \<open>
  One turn of the loop: \<open>pos\<close> is the input position. The result is the staged batches and the label
  cache.
\<close>

definition stage_node ::
    "'t vtable \<Rightarrow> postcard \<Rightarrow> plane_id \<Rightarrow> on_conflict \<Rightarrow> u64 \<Rightarrow> nat \<Rightarrow> bulk_node \<Rightarrow>
     staged_nodes \<times> (str \<rightharpoonup> u32) \<Rightarrow> ('t, staged_nodes \<times> (str \<rightharpoonup> u32)) act" where
  "stage_node V pc plane oc start pos node sc =
     (let (s, cache) = sc; i = start + of_nat pos;
          record_it = (\<lambda>s. act_bind (intern_all (intern_label V) (bn_labels node) cache)
            (\<lambda>(lids, cache). ret (stage_record pc plane i node lids s, cache))) in
      case bn_external_key node of
        None \<Rightarrow> record_it s
      | Some key \<Rightarrow>
          if sn_key_to_id s key \<noteq> None then fail Conflict
          else
            act_bind (reading (\<lambda>t. node_id_by_external_key V t plane key)) (\<lambda>owner.
            case owner of
              Some owner \<Rightarrow>
                if oc = OcError then fail Conflict
                else ret (s\<lparr>sn_key_to_id := (sn_key_to_id s)(key \<mapsto> owner),
                            sn_node_ids := sn_node_ids s @ [owner],
                            sn_existing := sn_existing s @ [(pos, owner)]\<rparr>, cache)
            | None \<Rightarrow>
                record_it (s\<lparr>sn_key_to_id := (sn_key_to_id s)(key \<mapsto> i),
                             sn_ext_keys := sn_ext_keys s @ [(ext_key_key plane key, be64 i)]\<rparr>)))"

fun stage_loop ::
    "'t vtable \<Rightarrow> postcard \<Rightarrow> plane_id \<Rightarrow> on_conflict \<Rightarrow> u64 \<Rightarrow> nat \<Rightarrow> bulk_node list \<Rightarrow>
     staged_nodes \<times> (str \<rightharpoonup> u32) \<Rightarrow> ('t, staged_nodes) act" where
  "stage_loop V pc plane oc start pos [] sc = ret (fst sc)"
| "stage_loop V pc plane oc start pos (node # nodes) sc =
     act_bind (stage_node V pc plane oc start pos node sc) (\<lambda>sc.
     stage_loop V pc plane oc start (Suc pos) nodes sc)"

definition stage_nodes ::
    "'t vtable \<Rightarrow> postcard \<Rightarrow> plane_id \<Rightarrow> bulk_node list \<Rightarrow> on_conflict \<Rightarrow>
     ('t, u64 \<times> staged_nodes) act" where
  "stage_nodes V pc plane nodes oc =
     act_bind (reserve_id_batch V META_NEXT_NODE_ID (of_nat (length nodes))) (\<lambda>start.
     act_bind (stage_loop V pc plane oc start 0 nodes (staged_empty, Map.empty)) (\<lambda>s.
     ret (start, s)))"

definition staged_write :: "'t vtable \<Rightarrow> staged_nodes \<Rightarrow> ('t, unit) act" where
  "staged_write V s =
     act_bind (put_batch V Nodes (sn_nodes s)) (\<lambda>_.
     act_bind (put_batch V NodePlane (sn_node_plane s)) (\<lambda>_.
     act_bind (put_batch V LabelIdx (sort_batch (sn_label_idx s))) (\<lambda>_.
     put_batch V ExtKeys (sort_batch (sn_ext_keys s)))))"

section \<open>Staging the edges\<close>

record edge_batches =
  eb_edges :: batch
  eb_adj_fwd :: batch
  eb_adj_rev :: batch

definition edge_batches_empty :: edge_batches where
  "edge_batches_empty = \<lparr>eb_edges = [], eb_adj_fwd = [], eb_adj_rev = []\<rparr>"

definition edge_batches_push ::
    "postcard \<Rightarrow> plane_id \<Rightarrow> edge_id \<Rightarrow> node_id \<Rightarrow> node_id \<Rightarrow> u32 \<Rightarrow> props \<Rightarrow> edge_batches \<Rightarrow>
     edge_batches" where
  "edge_batches_push pc plane i src dst ty_id ps b =
     \<lparr>eb_edges = eb_edges b @ [(edge_key plane i, encode_edge_record pc src dst ty_id ps)],
      eb_adj_fwd = eb_adj_fwd b @ [(adj_key plane src ty_id dst i, [])],
      eb_adj_rev = eb_adj_rev b @ [(adj_key plane dst ty_id src i, [])]\<rparr>"

definition edge_batches_write :: "'t vtable \<Rightarrow> edge_batches \<Rightarrow> ('t, unit) act" where
  "edge_batches_write V b =
     act_bind (put_batch V Edges (eb_edges b)) (\<lambda>_.
     act_bind (put_batch V AdjFwd (sort_batch (eb_adj_fwd b))) (\<lambda>_.
     put_batch V AdjRev (sort_batch (eb_adj_rev b))))"

definition resolve :: "'t vtable \<Rightarrow> (str \<rightharpoonup> node_id) \<Rightarrow> 't \<Rightarrow> plane_id \<Rightarrow> str \<Rightarrow> node_id res" where
  "resolve V batch t plane key =
     (case batch key of
        Some i \<Rightarrow> Inr i
      | None \<Rightarrow> res_bind (node_id_by_external_key V t plane key) (ok_or NotFound))"

fun stage_edges ::
    "'t vtable \<Rightarrow> postcard \<Rightarrow> plane_id \<Rightarrow> (str \<rightharpoonup> node_id) \<Rightarrow> u64 \<Rightarrow> nat \<Rightarrow> bulk_edge list \<Rightarrow>
     edge_batches \<Rightarrow> (str \<rightharpoonup> u32) \<Rightarrow> ('t, edge_batches) act" where
  "stage_edges V pc plane ids start pos [] b cache = ret b"
| "stage_edges V pc plane ids start pos (e # es) b cache =
     act_bind (reading (\<lambda>t. resolve V ids t plane (be_src_key e))) (\<lambda>src.
     act_bind (reading (\<lambda>t. resolve V ids t plane (be_dst_key e))) (\<lambda>dst.
     act_bind (intern_cached (intern_edge_type V) (be_ty e) cache) (\<lambda>(ty_id, cache).
     stage_edges V pc plane ids start (Suc pos) es
       (edge_batches_push pc plane (start + of_nat pos) src dst ty_id (be_props e) b) cache)))"

definition bulk_load ::
    "'t vtable \<Rightarrow> postcard \<Rightarrow> plane_id \<Rightarrow> bulk_node list \<Rightarrow> bulk_edge list \<Rightarrow> on_conflict \<Rightarrow>
     ('t, bulk_stats) act" where
  "bulk_load V pc plane nodes edges oc =
     act_bind (stage_nodes V pc plane nodes oc) (\<lambda>(node_start, staged).
     act_bind (reserve_id_batch V META_NEXT_EDGE_ID (of_nat (length edges))) (\<lambda>edge_start.
     act_bind (stage_edges V pc plane (sn_key_to_id staged) edge_start 0 edges edge_batches_empty
       Map.empty) (\<lambda>batches.
     act_bind (staged_write V staged) (\<lambda>_.
     act_bind (edge_batches_write V batches) (\<lambda>_.
     ret \<lparr>bs_nodes = of_nat (length (sn_nodes staged)), bs_edges = of_nat (length edges),
          bs_node_start = node_start, bs_node_ids = sn_node_ids staged,
          bs_existing = sn_existing staged\<rparr>)))))"

fun stage_edges_by_id ::
    "'t vtable \<Rightarrow> postcard \<Rightarrow> plane_id \<Rightarrow> u64 \<Rightarrow> nat \<Rightarrow> bulk_edge_by_id list \<Rightarrow> edge_batches \<Rightarrow>
     (str \<rightharpoonup> u32) \<Rightarrow> ('t, edge_batches) act" where
  "stage_edges_by_id V pc plane start pos [] b cache = ret b"
| "stage_edges_by_id V pc plane start pos (e # es) b cache =
     act_bind (intern_cached (intern_edge_type V) (bi_ty e) cache) (\<lambda>(ty_id, cache).
     stage_edges_by_id V pc plane start (Suc pos) es
       (edge_batches_push pc plane (start + of_nat pos) (bi_src e) (bi_dst e) ty_id (bi_props e) b)
       cache)"

definition bulk_load_edges ::
    "'t vtable \<Rightarrow> postcard \<Rightarrow> plane_id \<Rightarrow> bulk_edge_by_id list \<Rightarrow> ('t, u64) act" where
  "bulk_load_edges V pc plane edges =
     act_bind (reserve_id_batch V META_NEXT_EDGE_ID (of_nat (length edges))) (\<lambda>edge_start.
     act_bind (stage_edges_by_id V pc plane edge_start 0 edges edge_batches_empty Map.empty) (\<lambda>b.
     act_bind (edge_batches_write V b) (\<lambda>_.
     ret (of_nat (length edges)))))"

end
