(* ===== verification/Graph_Bulk_Run.thy ===== *)
theory Graph_Bulk_Run
  imports Graph_Edges Graph_Bulk
begin

text \<open>
  The bulk loader refines the graph operations: what it stages and writes table by table stores the
  graph that creating the same nodes and edges one by one would, and a refused batch leaves the stored
  graph as it was.
\<close>

section \<open>The abstract load\<close>

text \<open>
  \<open>own\<close> maps the external keys in use on the plane to their nodes. A node whose key is owned is not
  created; every other node gets the id of its position in the reserved range.
\<close>

definition owned :: "(str \<rightharpoonup> node_id) \<Rightarrow> bulk_node \<Rightarrow> bool" where
  "owned own b \<longleftrightarrow> (case bn_external_key b of None \<Rightarrow> False | Some k \<Rightarrow> own k \<noteq> None)"

definition bulk_id :: "(str \<rightharpoonup> node_id) \<Rightarrow> u64 \<Rightarrow> nat \<Rightarrow> bulk_node \<Rightarrow> node_id" where
  "bulk_id own start pos b =
     (case Option.bind (bn_external_key b) own of None \<Rightarrow> start + of_nat pos | Some n \<Rightarrow> n)"

fun bulk_ids :: "(str \<rightharpoonup> node_id) \<Rightarrow> u64 \<Rightarrow> nat \<Rightarrow> bulk_node list \<Rightarrow> node_id list" where
  "bulk_ids own start pos [] = []"
| "bulk_ids own start pos (b # bs) = bulk_id own start pos b # bulk_ids own start (Suc pos) bs"

fun bulk_put :: "plane_id \<Rightarrow> (str \<rightharpoonup> node_id) \<Rightarrow> u64 \<Rightarrow> nat \<Rightarrow> bulk_node list \<Rightarrow> agraph \<Rightarrow> agraph" where
  "bulk_put p own start pos [] G = G"
| "bulk_put p own start pos (b # bs) G =
     bulk_put p own start (Suc pos) bs
       (if owned own b then G
        else put_node p (start + of_nat pos) (bn_external_key b, bn_labels b, bn_props b) G)"

fun bulk_put_edges :: "plane_id \<Rightarrow> (str \<rightharpoonup> node_id) \<Rightarrow> u64 \<Rightarrow> nat \<Rightarrow> bulk_edge list \<Rightarrow> agraph \<Rightarrow> agraph" where
  "bulk_put_edges p own start pos [] G = G"
| "bulk_put_edges p own start pos (e # es) G =
     bulk_put_edges p own start (Suc pos) es
       (put_edge p (start + of_nat pos) (the (own (be_src_key e)), the (own (be_dst_key e)), be_ty e, be_props e) G)"

text \<open>The keys a batch names.\<close>

definition batch_keys :: "bulk_node list \<Rightarrow> str list" where
  "batch_keys nodes = List.map_filter bn_external_key nodes"

lemma batch_keys_Cons:
  "batch_keys (b # bs) = (case bn_external_key b of None \<Rightarrow> [] | Some k \<Rightarrow> [k]) @ batch_keys bs"
  by (simp add: batch_keys_def map_filter_simps split: option.splits)

definition node_fits :: "bulk_node \<Rightarrow> bool" where
  "node_fits b \<longleftrightarrow> str_opt_ok (bn_external_key b) \<and> props_ok (bn_props b) \<and> (\<forall>l \<in> set (bn_labels b). utf8_ok l)"

section \<open>Rows of a batch\<close>

type_synonym node_item = "node_id \<times> str option \<times> u32 list \<times> props"

definition item_rows :: "postcard \<Rightarrow> plane_id \<Rightarrow> node_item \<Rightarrow> kv \<Rightarrow> kv" where
  "item_rows pc p c = (case c of (n, ek, lids, ps) \<Rightarrow> node_rows pc p n ek lids ps)"

definition batch_nodes :: "postcard \<Rightarrow> plane_id \<Rightarrow> node_item list \<Rightarrow> batch" where
  "batch_nodes pc p cs = map (\<lambda>(n, ek, lids, ps). (node_key p n, encode_node_record pc ek lids ps)) cs"

definition batch_planes :: "plane_id \<Rightarrow> node_item list \<Rightarrow> batch" where
  "batch_planes p cs = map (\<lambda>(n, ek, lids, ps). (node_plane_key n, be32 p)) cs"

definition batch_labels :: "plane_id \<Rightarrow> node_item list \<Rightarrow> batch" where
  "batch_labels p cs = concat (map (\<lambda>(n, ek, lids, ps). map (\<lambda>l. (label_idx_key p l n, [])) lids) cs)"

definition batch_ext :: "plane_id \<Rightarrow> node_item list \<Rightarrow> batch" where
  "batch_ext p cs = List.map_filter (\<lambda>(n, ek, lids, ps). map_option (\<lambda>k. (ext_key_key p k, be64 n)) ek) cs"

lemmas batch_defs = batch_nodes_def batch_planes_def batch_labels_def batch_ext_def

lemma fold_item_rows:
  "fold (item_rows pc p) cs m Nodes = m Nodes ++ map_of (rev (batch_nodes pc p cs))"
  "fold (item_rows pc p) cs m NodePlane = m NodePlane ++ map_of (rev (batch_planes p cs))"
  "fold (item_rows pc p) cs m LabelIdx = m LabelIdx ++ map_of (rev (batch_labels p cs))"
  "fold (item_rows pc p) cs m ExtKeys = m ExtKeys ++ map_of (rev (batch_ext p cs))"
  "tb \<notin> {Nodes, NodePlane, LabelIdx, ExtKeys} \<Longrightarrow> fold (item_rows pc p) cs m tb = m tb"
proof (induction cs arbitrary: m)
  case Nil
  { case 1 show ?case by (simp add: batch_defs) next
    case 2 show ?case by (simp add: batch_defs) next
    case 3 show ?case by (simp add: batch_defs) next
    case 4 show ?case by (simp add: batch_defs map_filter_simps) next
    case 5 show ?case by simp }
next
  case (Cons c cs)
  obtain n ek lids ps where c: "c = (n, ek, lids, ps)" by (metis prod_cases4)
  { case 1 show ?case using Cons(1) [of "item_rows pc p c m"] by (simp add: batch_defs c item_rows_def del: fun_upd_apply) next
    case 2 show ?case using Cons(2) [of "item_rows pc p c m"] by (simp add: batch_defs c item_rows_def del: fun_upd_apply) next
    case 3 show ?case using Cons(3) [of "item_rows pc p c m"] by (simp add: batch_defs c item_rows_def del: fun_upd_apply) next
    case 4 show ?case using Cons(4) [of "item_rows pc p c m"]
      by (cases ek) (simp_all add: batch_defs c item_rows_def map_filter_simps del: fun_upd_apply) next
    case 5 then show ?case using Cons(5) [of "item_rows pc p c m"] by (simp add: c item_rows_def del: fun_upd_apply) }
qed

text \<open>Entries with equal keys have equal values, so the order of a batch is immaterial.\<close>

lemma map_of_functional:
  assumes "\<And>k v v'. (k, v) \<in> set xs \<Longrightarrow> (k, v') \<in> set xs \<Longrightarrow> v = v'" "set ys = set xs"
  shows "map_of ys = map_of xs"
proof
  fix k
  show "map_of ys k = map_of xs k"
  proof (cases "map_of xs k")
    case None
    then show ?thesis using assms(2) by (metis map_of_eq_None_iff)
  next
    case (Some v)
    then have "(k, v) \<in> set xs" by (rule map_of_SomeD)
    moreover obtain w where w: "map_of ys k = Some w" using calculation assms(2) weak_map_of_SomeI by fastforce
    ultimately show ?thesis using assms map_of_SomeD [OF w] Some by auto
  qed
qed

lemma map_of_rev_sort:
  assumes "\<And>k v v'. (k, v) \<in> set xs \<Longrightarrow> (k, v') \<in> set xs \<Longrightarrow> v = v'"
  shows "map_of (rev (sort_batch xs)) = map_of (rev xs)"
  by (rule map_of_functional) (use assms in \<open>auto simp: sort_batch_def\<close>)

text \<open>The keys of a list of items are distinct.\<close>

definition item_keys :: "node_item list \<Rightarrow> str list" where
  "item_keys cs = List.map_filter (\<lambda>(n, ek, lids, ps). ek) cs"

lemma in_map_filter: "y \<in> set (List.map_filter f xs) \<longleftrightarrow> (\<exists>x \<in> set xs. f x = Some y)"
  by (auto simp: map_filter_def) force

lemma batch_ext_functional:
  assumes "distinct (item_keys cs)" "(k, v) \<in> set (batch_ext p cs)" "(k, v') \<in> set (batch_ext p cs)"
  shows "v = v'"
proof -
  obtain n key lids ps where a: "(n, Some key, lids, ps) \<in> set cs" "k = ext_key_key p key" "v = be64 n"
    using assms(2) by (auto simp: batch_ext_def in_map_filter)
  obtain n' key' lids' ps' where b: "(n', Some key', lids', ps') \<in> set cs" "k = ext_key_key p key'" "v' = be64 n'"
    using assms(3) by (auto simp: batch_ext_def in_map_filter)
  have "n = n'" if "(n, Some key, lids, ps) \<in> set cs" "(n', Some key, lids', ps') \<in> set cs"
    using assms(1) that
  proof (induction cs)
    case (Cons c cs)
    then show ?case by (cases c) (force simp: item_keys_def map_filter_simps in_map_filter split: option.splits)
  qed simp
  with a b show ?thesis by (simp add: ext_key_key_def)
qed

lemma batch_labels_functional:
  "(k, v) \<in> set (batch_labels p cs) \<Longrightarrow> v = []"
  by (auto simp: batch_labels_def)

context kv_txn begin

lemma staged_write_run:
  assumes inv: "inv t" and d: "distinct (item_keys cs)"
    and s: "sn_nodes s = batch_nodes pc p cs" "sn_node_plane s = batch_planes p cs"
      "sn_label_idx s = batch_labels p cs" "sn_ext_keys s = batch_ext p cs"
  shows "\<exists>t'. staged_write V s t = (Inr (), t') \<and> inv t' \<and> view t' = fold (item_rows pc p) cs (view t)"
proof -
  obtain t1 where 1: "put_batch V Nodes (sn_nodes s) t = (Inr (), t1)" "inv t1"
    "view t1 = kv_puts Nodes (sn_nodes s) (view t)" using put_batch_view [OF inv] by blast
  obtain t2 where 2: "put_batch V NodePlane (sn_node_plane s) t1 = (Inr (), t2)" "inv t2"
    "view t2 = kv_puts NodePlane (sn_node_plane s) (view t1)" using put_batch_view [OF 1(2)] by blast
  obtain t3 where 3: "put_batch V LabelIdx (sort_batch (sn_label_idx s)) t2 = (Inr (), t3)" "inv t3"
    "view t3 = kv_puts LabelIdx (sort_batch (sn_label_idx s)) (view t2)" using put_batch_view [OF 2(2)] by blast
  obtain t4 where 4: "put_batch V ExtKeys (sort_batch (sn_ext_keys s)) t3 = (Inr (), t4)" "inv t4"
    "view t4 = kv_puts ExtKeys (sort_batch (sn_ext_keys s)) (view t3)" using put_batch_view [OF 3(2)] by blast
  have "view t4 tb = fold (item_rows pc p) cs (view t) tb" for tb
  proof -
    have l: "map_of (rev (sort_batch (batch_labels p cs))) = map_of (rev (batch_labels p cs))"
      by (rule map_of_rev_sort) (auto dest: batch_labels_functional)
    have x: "map_of (rev (sort_batch (batch_ext p cs))) = map_of (rev (batch_ext p cs))"
      by (rule map_of_rev_sort) (rule batch_ext_functional [OF d])
    show ?thesis
      by (cases "tb \<in> {Nodes, NodePlane, LabelIdx, ExtKeys}")
         (auto simp: 4(3) 3(3) 2(3) 1(3) s kv_puts_same fold_item_rows l x)
  qed
  then show ?thesis using 1 2 3 4 by (auto simp: staged_write_def act_bind_def)
qed

end

section \<open>Representation of the loaded nodes\<close>

text \<open>An item as the abstract node it stores, under the label dictionary \<open>L\<close>.\<close>

definition item_ok :: "(u32 \<Rightarrow> str option) \<Rightarrow> u64 \<Rightarrow> nat \<Rightarrow> bulk_node \<Rightarrow> node_item \<Rightarrow> bool" where
  "item_ok L start pos b c \<longleftrightarrow> (case c of (n, ek, lids, ps) \<Rightarrow>
     n = start + of_nat pos \<and> ek = bn_external_key b \<and> ps = bn_props b \<and> map L lids = map Some (bn_labels b))"

text \<open>The items of the nodes a batch creates, in order.\<close>

fun items_ok ::
    "(u32 \<Rightarrow> str option) \<Rightarrow> (str \<rightharpoonup> node_id) \<Rightarrow> u64 \<Rightarrow> nat \<Rightarrow> bulk_node list \<Rightarrow> node_item list \<Rightarrow> bool" where
  "items_ok L own start pos [] cs \<longleftrightarrow> cs = []"
| "items_ok L own start pos (b # bs) cs \<longleftrightarrow>
     (if owned own b then items_ok L own start (Suc pos) bs cs
      else (\<exists>c cs'. cs = c # cs' \<and> item_ok L start pos b c \<and> items_ok L own start (Suc pos) bs cs'))"

lemma of_nat64_inj: "a < 2 ^ 64 \<Longrightarrow> b < 2 ^ 64 \<Longrightarrow> (of_nat a :: u64) = of_nat b \<Longrightarrow> a = b"
proof -
  assume "a < 2 ^ 64" "b < 2 ^ 64" "(of_nat a :: u64) = of_nat b"
  moreover have "unat (of_nat n :: u64) = n" if "n < 2 ^ 64" for n
    using that by (simp add: unsigned_of_nat take_bit_nat_eq_self)
  ultimately show "a = b" by metis
qed

lemma offset_apart:
  assumes "unat start + pos + Suc n < 2 ^ 64" "i < n"
  shows "start + of_nat (Suc pos + i) \<noteq> start + (of_nat pos :: u64)"
proof
  assume "start + of_nat (Suc pos + i) = start + (of_nat pos :: u64)"
  then have "(of_nat (Suc pos + i) :: u64) = of_nat pos" by simp
  then show False using of_nat64_inj [of "Suc pos + i" pos] assms by simp
qed

lemma reprD_items:
  assumes "reprD pc L T G m" "postcard_ok pc" "list_all node_fits bs" "items_ok L own start pos bs cs"
    and "m Meta META_NEXT_NODE_ID = Some (be64 c)" "\<forall>i < length bs. start + of_nat (pos + i) < c"
    and "\<forall>i < length bs. \<forall>q. (q, start + of_nat (pos + i)) \<notin> dom (ag_node G)"
    and "\<forall>k n. k \<in> set (batch_keys bs) \<longrightarrow> own k = None \<longrightarrow> \<not> has_key (ag_node G) p n k"
    and "distinct (batch_keys bs)" "unat start + pos + length bs < 2 ^ 64"
  shows "reprD pc L T (bulk_put p own start pos bs G) (fold (item_rows pc p) cs m)"
  using assms
proof (induction bs arbitrary: G m pos cs)
  case (Cons b bs)
  note keys = batch_keys_Cons [of b bs]
  have lt: "\<forall>i < length bs. start + of_nat (Suc pos + i) < c"
    and fresh: "\<forall>i < length bs. \<forall>q. (q, start + of_nat (Suc pos + i)) \<notin> dom (ag_node G)"
    using Cons.prems(6,7) by (metis Suc_less_eq add_Suc_shift length_Cons)+
  show ?case
  proof (cases "owned own b")
    case True
    then show ?thesis
      using Cons.prems lt fresh keys Cons.IH [of G m "Suc pos" cs] by (auto split: option.splits)
  next
    case False
    obtain c1 cs' where cs: "cs = c1 # cs'" "item_ok L start pos b c1" "items_ok L own start (Suc pos) bs cs'"
      using Cons.prems(4) False by auto
    obtain lids where c1: "c1 = (start + of_nat pos, bn_external_key b, lids, bn_props b)"
        "map L lids = map Some (bn_labels b)"
      using cs(2) by (cases c1) (auto simp: item_ok_def)
    let ?n = "start + of_nat pos" and ?r = "(bn_external_key b, bn_labels b, bn_props b)"
    have n: "?n < c" "\<And>q. (q, ?n) \<notin> dom (ag_node G)" using Cons.prems(6,7) by force+
    have free: "\<not> has_key (ag_node G) p j key" if "bn_external_key b = Some key" for key j
      using Cons.prems(8) False that keys by (auto simp: owned_def)
    have fit: "str_opt_ok (bn_external_key b)" "props_ok (bn_props b)"
      using Cons.prems(3) by (simp_all add: node_fits_def)
    have r: "reprD pc L T (put_node p ?n ?r G) (item_rows pc p c1 m)"
      unfolding c1(1) item_rows_def
      using reprD_add_node [OF Cons.prems(1,2) fit c1(2) Cons.prems(5) n free] by simp
    have meta: "item_rows pc p c1 m Meta = m Meta" by (simp add: c1(1) item_rows_def)
    have apart: "start + of_nat (Suc pos + i) \<noteq> ?n" if "i < length bs" for i
      by (rule offset_apart) (use Cons.prems(10) that in simp_all)
    have fresh': "\<forall>i < length bs. \<forall>q. (q, start + of_nat (Suc pos + i)) \<notin> dom (ag_node (put_node p ?n ?r G))"
      using fresh apart by (auto simp del: of_nat_add)
    have keys': "\<forall>k n. k \<in> set (batch_keys bs) \<longrightarrow> own k = None \<longrightarrow> \<not> has_key (ag_node (put_node p ?n ?r G)) p n k"
    proof (intro allI impI)
      fix k j assume k: "k \<in> set (batch_keys bs)" "own k = None"
      then have "bn_external_key b \<noteq> Some k" using Cons.prems(9) keys by auto
      moreover have "\<not> has_key (ag_node G) p j k" using Cons.prems(8) k keys by auto
      ultimately show "\<not> has_key (ag_node (put_node p ?n ?r G)) p j k" by (auto simp: has_key_def)
    qed
    have d: "distinct (batch_keys bs)" using Cons.prems(9) keys by simp
    have "reprD pc L T (bulk_put p own start (Suc pos) bs (put_node p ?n ?r G)) (fold (item_rows pc p) cs' (item_rows pc p c1 m))"
      using Cons.IH [OF r Cons.prems(2) _ cs(3) _ lt fresh' keys' d] Cons.prems(3,5,10) meta by simp
    then show ?thesis using False cs(1) by simp
  qed
qed simp

section \<open>Staging\<close>

definition cache_ok :: "(str \<rightharpoonup> u32) \<Rightarrow> (u32 \<Rightarrow> str option) \<Rightarrow> bool" where
  "cache_ok cache L \<longleftrightarrow> (\<forall>name i. cache name = Some i \<longrightarrow> L i = Some name)"

lemma cache_ok_grow: "cache_ok cache L \<Longrightarrow> L \<subseteq>\<^sub>m L' \<Longrightarrow> cache_ok cache L'"
  unfolding cache_ok_def map_le_def by (metis domI)

text \<open>A batch is refused for a key named twice, or owned already under the strict policy.\<close>

fun batch_clash :: "on_conflict \<Rightarrow> (str \<rightharpoonup> node_id) \<Rightarrow> str set \<Rightarrow> bulk_node list \<Rightarrow> bool" where
  "batch_clash oc own seen [] = False"
| "batch_clash oc own seen (b # bs) =
     (case bn_external_key b of
        None \<Rightarrow> batch_clash oc own seen bs
      | Some k \<Rightarrow> k \<in> seen \<or> (oc = OcError \<and> own k \<noteq> None) \<or> batch_clash oc own (insert k seen) bs)"

lemma batch_clash_iff:
  "batch_clash oc own seen bs \<longleftrightarrow>
     \<not> (distinct (batch_keys bs) \<and> set (batch_keys bs) \<inter> seen = {} \<and>
        (oc = OcError \<longrightarrow> (\<forall>k \<in> set (batch_keys bs). own k = None)))"
  by (induction bs arbitrary: seen)
     (auto simp: batch_keys_def map_filter_simps split: option.splits)

fun batch_map :: "(str \<rightharpoonup> node_id) \<Rightarrow> (str \<rightharpoonup> node_id) \<Rightarrow> u64 \<Rightarrow> nat \<Rightarrow> bulk_node list \<Rightarrow> (str \<rightharpoonup> node_id)" where
  "batch_map m own start pos [] = m"
| "batch_map m own start pos (b # bs) =
     batch_map (case bn_external_key b of None \<Rightarrow> m | Some k \<Rightarrow> m(k \<mapsto> bulk_id own start pos b)) own start (Suc pos) bs"

fun bulk_existing :: "(str \<rightharpoonup> node_id) \<Rightarrow> nat \<Rightarrow> bulk_node list \<Rightarrow> (nat \<times> node_id) list" where
  "bulk_existing own pos [] = []"
| "bulk_existing own pos (b # bs) =
     (case Option.bind (bn_external_key b) own of None \<Rightarrow> [] | Some n \<Rightarrow> [(pos, n)]) @ bulk_existing own (Suc pos) bs"

context kv_txn begin

lemma intern_cached_label:
  assumes "inv t" "reprD pc L T G (view t)" "cache_ok cache L" "utf8_ok name"
    "room META_NEXT_LABEL_ID (2 ^ 32) (Suc n) (view t)"
  shows "\<exists>i cache' t' L'. intern_cached (intern_label V) name cache t = (Inr (i, cache'), t') \<and> inv t' \<and>
    L \<subseteq>\<^sub>m L' \<and> L' i = Some name \<and> cache_ok cache' L' \<and> reprD pc L' T G (view t') \<and>
    label_frame (view t) (view t') \<and> room META_NEXT_LABEL_ID (2 ^ 32) n (view t')"
proof (cases "cache name")
  case (Some i)
  then show ?thesis using assms
    by (intro exI [of _ i] exI [of _ cache] exI [of _ t] exI [of _ L])
       (auto simp: intern_cached_def cache_ok_def elim: room_mono)
next
  case None
  obtain i t' L' where 1: "intern_label V name t = (Inr i, t')" "inv t'" "L \<subseteq>\<^sub>m L'" "L' i = Some name"
    "reprD pc L' T G (view t')" "label_frame (view t) (view t')" "room META_NEXT_LABEL_ID (2 ^ 32) n (view t')"
    using intern_label_run [OF assms(1,2,4,5)] by blast
  have "cache_ok (cache(name \<mapsto> i)) L'"
    using cache_ok_grow [OF assms(3) 1(3)] 1(4) by (simp add: cache_ok_def)
  with None 1 show ?thesis
    by (intro exI [of _ i] exI [of _ "cache(name \<mapsto> i)"] exI [of _ t'] exI [of _ L'])
       (simp add: intern_cached_def act_bind_def)
qed

lemma intern_cached_type:
  assumes "inv t" "reprD pc L T G (view t)" "cache_ok cache T" "utf8_ok name"
    "room META_NEXT_EDGE_TYPE_ID (2 ^ 32) (Suc n) (view t)"
  shows "\<exists>i cache' t' T'. intern_cached (intern_edge_type V) name cache t = (Inr (i, cache'), t') \<and> inv t' \<and>
    T \<subseteq>\<^sub>m T' \<and> T' i = Some name \<and> cache_ok cache' T' \<and> reprD pc L T' G (view t') \<and>
    type_frame (view t) (view t') \<and> room META_NEXT_EDGE_TYPE_ID (2 ^ 32) n (view t')"
proof (cases "cache name")
  case (Some i)
  then show ?thesis using assms
    by (intro exI [of _ i] exI [of _ cache] exI [of _ t] exI [of _ T])
       (auto simp: intern_cached_def cache_ok_def elim: room_mono)
next
  case None
  obtain i t' T' where 1: "intern_edge_type V name t = (Inr i, t')" "inv t'" "T \<subseteq>\<^sub>m T'" "T' i = Some name"
    "reprD pc L T' G (view t')" "type_frame (view t) (view t')" "room META_NEXT_EDGE_TYPE_ID (2 ^ 32) n (view t')"
    using intern_edge_type_run [OF assms(1,2,4,5)] by blast
  have "cache_ok (cache(name \<mapsto> i)) T'"
    using cache_ok_grow [OF assms(3) 1(3)] 1(4) by (simp add: cache_ok_def)
  with None 1 show ?thesis
    by (intro exI [of _ i] exI [of _ "cache(name \<mapsto> i)"] exI [of _ t'] exI [of _ T'])
       (simp add: intern_cached_def act_bind_def)
qed

lemma intern_all_run:
  assumes "inv t" "reprD pc L T G (view t)" "cache_ok cache L" "\<forall>name \<in> set names. utf8_ok name"
    "room META_NEXT_LABEL_ID (2 ^ 32) (length names + k) (view t)"
  shows "\<exists>ids cache' t' L'. intern_all (intern_label V) names cache t = (Inr (ids, cache'), t') \<and> inv t' \<and>
    L \<subseteq>\<^sub>m L' \<and> map L' ids = map Some names \<and> cache_ok cache' L' \<and> reprD pc L' T G (view t') \<and>
    label_frame (view t) (view t') \<and> room META_NEXT_LABEL_ID (2 ^ 32) k (view t')"
  using assms
proof (induction names arbitrary: t L cache)
  case Nil
  then show ?case by (auto intro!: exI [of _ L])
next
  case (Cons name names)
  from Cons.prems have "room META_NEXT_LABEL_ID (2 ^ 32) (Suc (length names + k)) (view t)" "utf8_ok name" by simp_all
  with intern_cached_label [OF Cons.prems(1-3)] obtain i cache1 t1 L1 where
    1: "intern_cached (intern_label V) name cache t = (Inr (i, cache1), t1)" "inv t1" "L \<subseteq>\<^sub>m L1" "L1 i = Some name"
      "cache_ok cache1 L1" "reprD pc L1 T G (view t1)" "label_frame (view t) (view t1)"
      "room META_NEXT_LABEL_ID (2 ^ 32) (length names + k) (view t1)" by blast
  from Cons.IH [OF 1(2,6,5) _ 1(8)] Cons.prems(4) obtain ids cache2 t2 L2 where
    2: "intern_all (intern_label V) names cache1 t1 = (Inr (ids, cache2), t2)" "inv t2" "L1 \<subseteq>\<^sub>m L2"
      "map L2 ids = map Some names" "cache_ok cache2 L2" "reprD pc L2 T G (view t2)"
      "label_frame (view t1) (view t2)" "room META_NEXT_LABEL_ID (2 ^ 32) k (view t2)" by auto
  have "L2 i = Some name" using 1(4) 2(3) by (metis domI map_le_def)
  moreover have "L \<subseteq>\<^sub>m L2" using 1(3) 2(3) by (rule map_le_trans)
  ultimately show ?case using 1 2 dict_frame_trans [OF 1(7) 2(7)]
    by (intro exI [of _ "i # ids"] exI [of _ cache2] exI [of _ t2] exI [of _ L2]) (simp add: act_bind_def)
qed

end

text \<open>The staged state after the nodes \<open>bs\<close> have been appended to \<open>s\<close> with items \<open>cs\<close>.\<close>

definition staged_as ::
    "postcard \<Rightarrow> plane_id \<Rightarrow> (str \<rightharpoonup> node_id) \<Rightarrow> u64 \<Rightarrow> nat \<Rightarrow> bulk_node list \<Rightarrow> node_item list \<Rightarrow>
     staged_nodes \<Rightarrow> staged_nodes \<Rightarrow> bool" where
  "staged_as pc p own start pos bs cs s s' \<longleftrightarrow>
     sn_nodes s' = sn_nodes s @ batch_nodes pc p cs \<and> sn_node_plane s' = sn_node_plane s @ batch_planes p cs \<and>
     sn_label_idx s' = sn_label_idx s @ batch_labels p cs \<and> sn_ext_keys s' = sn_ext_keys s @ batch_ext p cs \<and>
     sn_node_ids s' = sn_node_ids s @ bulk_ids own start pos bs \<and>
     sn_existing s' = sn_existing s @ bulk_existing own pos bs \<and>
     sn_key_to_id s' = batch_map (sn_key_to_id s) own start pos bs"

lemma staged_as_Cons:
  assumes "staged_as pc p own start pos [b] cs1 s s1" "staged_as pc p own start (Suc pos) bs cs2 s1 s2"
  shows "staged_as pc p own start pos (b # bs) (cs1 @ cs2) s s2"
  using assms by (simp add: staged_as_def batch_defs map_filter_def)

context kv_txn begin

lemma stage_node_run:
  assumes inv: "inv t" and r: "reprD pc L T G (view t)" and c: "cache_ok cache L" and b: "node_fits b"
    and room: "room META_NEXT_LABEL_ID (2 ^ 32) (length (bn_labels b) + k) (view t)"
    and own: "\<forall>key n. own key = Some n \<longleftrightarrow> has_key (ag_node G) p n key"
    and ok: "\<not> batch_clash oc own (dom (sn_key_to_id s)) [b]"
  shows "\<exists>s' cache' t' L' cs. stage_node V pc p oc start pos b (s, cache) t = (Inr (s', cache'), t') \<and> inv t' \<and>
    L \<subseteq>\<^sub>m L' \<and> cache_ok cache' L' \<and> reprD pc L' T G (view t') \<and> label_frame (view t) (view t') \<and>
    room META_NEXT_LABEL_ID (2 ^ 32) k (view t') \<and> items_ok L' own start pos [b] cs \<and>
    staged_as pc p own start pos [b] cs s s' \<and>
    dom (sn_key_to_id s') = dom (sn_key_to_id s) \<union> set (batch_keys [b])"
proof -
  let ?i = "start + of_nat pos"
  obtain lids cache' t' L' where 1: "intern_all (intern_label V) (bn_labels b) cache t = (Inr (lids, cache'), t')"
    "inv t'" "L \<subseteq>\<^sub>m L'" "map L' lids = map Some (bn_labels b)" "cache_ok cache' L'" "reprD pc L' T G (view t')"
    "label_frame (view t) (view t')" "room META_NEXT_LABEL_ID (2 ^ 32) k (view t')"
    using intern_all_run [OF inv r c _ room] b by (auto simp: node_fits_def)
  let ?item = "(?i, bn_external_key b, lids, bn_props b)"
  have item: "item_ok L' start pos b ?item" using 1(4) by (simp add: item_ok_def)
  show ?thesis
  proof (cases "bn_external_key b")
    case None
    let ?s = "stage_record pc p ?i b lids s"
    have "stage_node V pc p oc start pos b (s, cache) t = (Inr (?s, cache'), t')"
      using None 1(1) by (simp add: stage_node_def act_bind_def Let_def)
    moreover have "items_ok L' own start pos [b] [?item]" using item None by (simp add: owned_def)
    moreover have "staged_as pc p own start pos [b] [?item] s ?s"
      using None by (simp add: staged_as_def stage_record_def batch_defs map_filter_simps bulk_id_def)
    moreover have "dom (sn_key_to_id ?s) = dom (sn_key_to_id s) \<union> set (batch_keys [b])"
      using None by (simp add: stage_record_def batch_keys_def map_filter_simps)
    ultimately show ?thesis using 1 by blast
  next
    case (Some key)
    have seen: "sn_key_to_id s key = None" using ok Some by auto
    note look = node_id_by_external_key_run [OF inv reprD_D(9) [OF r], of p key]
    show ?thesis
    proof (cases "own key")
      case (Some n)
      then have l: "node_id_by_external_key V t p key = Inr (Some n)" using look(1) own by blast
      have oc: "oc \<noteq> OcError" using ok Some \<open>bn_external_key b = Some key\<close> by auto
      let ?s = "s\<lparr>sn_key_to_id := (sn_key_to_id s)(key \<mapsto> n), sn_node_ids := sn_node_ids s @ [n],
                  sn_existing := sn_existing s @ [(pos, n)]\<rparr>"
      have "stage_node V pc p oc start pos b (s, cache) t = (Inr (?s, cache), t)"
        using \<open>bn_external_key b = Some key\<close> seen l oc by (simp add: stage_node_def act_bind_reading Let_def)
      moreover have "items_ok L own start pos [b] []"
        using \<open>bn_external_key b = Some key\<close> Some by (simp add: owned_def)
      moreover have "staged_as pc p own start pos [b] [] s ?s"
        using \<open>bn_external_key b = Some key\<close> Some
        by (simp add: staged_as_def batch_defs map_filter_simps bulk_id_def)
      moreover have "room META_NEXT_LABEL_ID (2 ^ 32) k (view t)" using room by (rule room_mono) simp
      moreover have "dom (sn_key_to_id ?s) = dom (sn_key_to_id s) \<union> set (batch_keys [b])"
        using \<open>bn_external_key b = Some key\<close> by (simp add: batch_keys_def map_filter_simps)
      ultimately show ?thesis using inv r c
        by (intro exI [of _ ?s] exI [of _ cache] exI [of _ t] exI [of _ L] exI [of _ "[]"]) simp
    next
      case None
      then have l: "node_id_by_external_key V t p key = Inr None" using look(2) own by (metis option.distinct(1))
      let ?s0 = "s\<lparr>sn_key_to_id := (sn_key_to_id s)(key \<mapsto> ?i),
                    sn_ext_keys := sn_ext_keys s @ [(ext_key_key p key, be64 ?i)]\<rparr>"
      let ?s = "stage_record pc p ?i b lids ?s0"
      have "stage_node V pc p oc start pos b (s, cache) t = (Inr (?s, cache'), t')"
        using \<open>bn_external_key b = Some key\<close> seen l 1(1)
        by (simp add: stage_node_def act_bind_reading act_bind_def Let_def)
      moreover have "items_ok L' own start pos [b] [?item]"
        using item None \<open>bn_external_key b = Some key\<close> by (simp add: owned_def)
      moreover have "staged_as pc p own start pos [b] [?item] s ?s"
        using None \<open>bn_external_key b = Some key\<close>
        by (simp add: staged_as_def stage_record_def batch_defs map_filter_simps bulk_id_def)
      moreover have "dom (sn_key_to_id ?s) = dom (sn_key_to_id s) \<union> set (batch_keys [b])"
        using \<open>bn_external_key b = Some key\<close> by (simp add: stage_record_def batch_keys_def map_filter_simps)
      ultimately show ?thesis using 1 by blast
    qed
  qed
qed

lemma stage_node_clash:
  assumes inv: "inv t" and r: "reprD pc L T G (view t)"
    and own: "\<forall>key n. own key = Some n \<longleftrightarrow> has_key (ag_node G) p n key"
    and clash: "batch_clash oc own (dom (sn_key_to_id s)) [b]"
  shows "stage_node V pc p oc start pos b (s, cache) t = (Inl Conflict, t)"
proof -
  obtain key where k: "bn_external_key b = Some key" using clash by (auto split: option.splits)
  show ?thesis
  proof (cases "key \<in> dom (sn_key_to_id s)")
    case True
    then show ?thesis using k by (auto simp: stage_node_def Let_def)
  next
    case False
    then obtain n where n: "own key = Some n" "oc = OcError" using clash k by auto
    then have "node_id_by_external_key V t p key = Inr (Some n)"
      using node_id_by_external_key_run(1) [OF inv reprD_D(9) [OF r]] own by blast
    with False k n(2) show ?thesis by (auto simp: stage_node_def act_bind_reading Let_def)
  qed
qed

end

definition labels_total :: "bulk_node list \<Rightarrow> nat" where
  "labels_total bs = sum_list (map (length \<circ> bn_labels) bs)"

lemma items_ok_grow: "items_ok L own start pos bs cs \<Longrightarrow> L \<subseteq>\<^sub>m L' \<Longrightarrow> items_ok L' own start pos bs cs"
proof (induction L own start pos bs cs rule: items_ok.induct)
  case (2 L own start pos b bs cs)
  then show ?case by (auto simp: item_ok_def intro: map_le_map split: if_splits)
qed simp

lemma items_ok_Cons:
  "items_ok L own start pos [b] cs1 \<Longrightarrow> items_ok L own start (Suc pos) bs cs2 \<Longrightarrow>
   items_ok L own start pos (b # bs) (cs1 @ cs2)"
  by (auto split: if_splits)

context kv_txn begin

lemma stage_loop_run:
  assumes "inv t" "reprD pc L T G (view t)" "cache_ok cache L" "list_all node_fits bs"
    "room META_NEXT_LABEL_ID (2 ^ 32) (labels_total bs + k) (view t)"
    "\<forall>key n. own key = Some n \<longleftrightarrow> has_key (ag_node G) p n key"
    "\<not> batch_clash oc own (dom (sn_key_to_id s)) bs"
  shows "\<exists>s' t' L' cs. stage_loop V pc p oc start pos bs (s, cache) t = (Inr s', t') \<and> inv t' \<and>
    L \<subseteq>\<^sub>m L' \<and> reprD pc L' T G (view t') \<and> label_frame (view t) (view t') \<and>
    room META_NEXT_LABEL_ID (2 ^ 32) k (view t') \<and> items_ok L' own start pos bs cs \<and>
    staged_as pc p own start pos bs cs s s'"
  using assms
proof (induction bs arbitrary: t L cache s pos)
  case Nil
  then show ?case
    by (intro exI [of _ s] exI [of _ t] exI [of _ L] exI [of _ "[]"])
       (auto simp: staged_as_def batch_defs map_filter_simps labels_total_def)
next
  case (Cons b bs)
  have fit: "node_fits b" using Cons.prems(4) by simp
  have rm: "room META_NEXT_LABEL_ID (2 ^ 32) (length (bn_labels b) + (labels_total bs + k)) (view t)"
    using Cons.prems(5) by (simp add: labels_total_def add.assoc)
  have ok: "\<not> batch_clash oc own (dom (sn_key_to_id s)) [b]"
    "\<not> batch_clash oc own (dom (sn_key_to_id s) \<union> set (batch_keys [b])) bs"
    using Cons.prems(7) by (auto simp: batch_keys_def map_filter_simps split: option.splits)
  obtain s1 c1 t1 L1 cs1 where 1: "stage_node V pc p oc start pos b (s, cache) t = (Inr (s1, c1), t1)" "inv t1"
    "L \<subseteq>\<^sub>m L1" "cache_ok c1 L1" "reprD pc L1 T G (view t1)" "label_frame (view t) (view t1)"
    "room META_NEXT_LABEL_ID (2 ^ 32) (labels_total bs + k) (view t1)" "items_ok L1 own start pos [b] cs1"
    "staged_as pc p own start pos [b] cs1 s s1"
    "dom (sn_key_to_id s1) = dom (sn_key_to_id s) \<union> set (batch_keys [b])"
    using stage_node_run [where start = start and pos = pos, OF Cons.prems(1-3) fit rm Cons.prems(6) ok(1)] by blast
  obtain s2 t2 L2 cs2 where 2: "stage_loop V pc p oc start (Suc pos) bs (s1, c1) t1 = (Inr s2, t2)" "inv t2"
    "L1 \<subseteq>\<^sub>m L2" "reprD pc L2 T G (view t2)" "label_frame (view t1) (view t2)"
    "room META_NEXT_LABEL_ID (2 ^ 32) k (view t2)" "items_ok L2 own start (Suc pos) bs cs2"
    "staged_as pc p own start (Suc pos) bs cs2 s1 s2"
    using Cons.IH [OF 1(2,5,4) _ 1(7) Cons.prems(6), of s1 "Suc pos"] Cons.prems(4) ok(2) 1(10) by auto
  show ?case
    using 1(1) 2 map_le_trans [OF 1(3) 2(3)] dict_frame_trans [OF 1(6) 2(5)]
      items_ok_Cons [OF items_ok_grow [OF 1(8) 2(3)] 2(7)] staged_as_Cons [OF 1(9) 2(8)]
    by (intro exI [of _ s2] exI [of _ t2] exI [of _ L2] exI [of _ "cs1 @ cs2"]) (simp add: act_bind_def)
qed

lemma stage_loop_clash:
  assumes "inv t" "reprD pc L T G (view t)" "cache_ok cache L" "list_all node_fits bs"
    "room META_NEXT_LABEL_ID (2 ^ 32) (labels_total bs) (view t)"
    "\<forall>key n. own key = Some n \<longleftrightarrow> has_key (ag_node G) p n key"
    "batch_clash oc own (dom (sn_key_to_id s)) bs"
  shows "\<exists>t' L'. stage_loop V pc p oc start pos bs (s, cache) t = (Inl Conflict, t') \<and> inv t' \<and>
    reprD pc L' T G (view t')"
  using assms
proof (induction bs arbitrary: t L cache s pos)
  case (Cons b bs)
  have fit: "node_fits b" using Cons.prems(4) by simp
  have rm: "room META_NEXT_LABEL_ID (2 ^ 32) (length (bn_labels b) + labels_total bs) (view t)"
    using Cons.prems(5) by (simp add: labels_total_def)
  show ?case
  proof (cases "batch_clash oc own (dom (sn_key_to_id s)) [b]")
    case True
    then show ?thesis using stage_node_clash [OF Cons.prems(1,2,6) True] Cons.prems(1,2)
      by (auto simp: act_bind_def)
  next
    case False
    obtain s1 c1 t1 L1 where 1: "stage_node V pc p oc start pos b (s, cache) t = (Inr (s1, c1), t1)" "inv t1"
      "cache_ok c1 L1" "reprD pc L1 T G (view t1)"
      "room META_NEXT_LABEL_ID (2 ^ 32) (labels_total bs) (view t1)"
      "dom (sn_key_to_id s1) = dom (sn_key_to_id s) \<union> set (batch_keys [b])"
      using stage_node_run [where start = start and pos = pos, OF Cons.prems(1-3) fit rm Cons.prems(6) False] by blast
    have "batch_clash oc own (dom (sn_key_to_id s1)) bs"
      using Cons.prems(7) False unfolding 1(6) by (auto simp: batch_keys_def map_filter_simps split: option.splits)
    with Cons.IH [OF 1(2,4,3) _ 1(5) Cons.prems(6)] Cons.prems(4) 1(1) show ?thesis by (auto simp: act_bind_def)
  qed
qed simp

end

section \<open>Edges\<close>

type_synonym edge_item = "edge_id \<times> node_id \<times> node_id \<times> u32 \<times> props"

definition eitem_rows :: "postcard \<Rightarrow> plane_id \<Rightarrow> edge_item \<Rightarrow> kv \<Rightarrow> kv" where
  "eitem_rows pc p c m = (case c of (e, s, d, y, ps) \<Rightarrow> edge_rows pc p e s d y ps m)"

definition batch_edges :: "postcard \<Rightarrow> plane_id \<Rightarrow> edge_item list \<Rightarrow> batch" where
  "batch_edges pc p cs = map (\<lambda>(e, s, d, y, ps). (edge_key p e, encode_edge_record pc s d y ps)) cs"

definition batch_fwd :: "plane_id \<Rightarrow> edge_item list \<Rightarrow> batch" where
  "batch_fwd p cs = map (\<lambda>(e, s, d, y, ps). (adj_key p s y d e, [])) cs"

definition batch_rev :: "plane_id \<Rightarrow> edge_item list \<Rightarrow> batch" where
  "batch_rev p cs = map (\<lambda>(e, s, d, y, ps). (adj_key p d y s e, [])) cs"

lemmas ebatch_defs = batch_edges_def batch_fwd_def batch_rev_def

lemma fold_eitem_rows:
  "fold (eitem_rows pc p) cs m Edges = m Edges ++ map_of (rev (batch_edges pc p cs))"
  "fold (eitem_rows pc p) cs m AdjFwd = m AdjFwd ++ map_of (rev (batch_fwd p cs))"
  "fold (eitem_rows pc p) cs m AdjRev = m AdjRev ++ map_of (rev (batch_rev p cs))"
  "tb \<notin> {Edges, AdjFwd, AdjRev} \<Longrightarrow> fold (eitem_rows pc p) cs m tb = m tb"
proof (induction cs arbitrary: m)
  case Nil
  { case 1 show ?case by (simp add: ebatch_defs) next
    case 2 show ?case by (simp add: ebatch_defs) next
    case 3 show ?case by (simp add: ebatch_defs) next
    case 4 show ?case by simp }
next
  case (Cons c cs)
  obtain e s d y ps where c: "c = (e, s, d, y, ps)" by (metis prod_cases5)
  { case 1 show ?case using Cons(1) [of "eitem_rows pc p c m"] by (simp add: ebatch_defs c eitem_rows_def del: fun_upd_apply) next
    case 2 show ?case using Cons(2) [of "eitem_rows pc p c m"] by (simp add: ebatch_defs c eitem_rows_def del: fun_upd_apply) next
    case 3 show ?case using Cons(3) [of "eitem_rows pc p c m"] by (simp add: ebatch_defs c eitem_rows_def del: fun_upd_apply) next
    case 4 then show ?case using Cons(4) [of "eitem_rows pc p c m"] by (simp add: c eitem_rows_def del: fun_upd_apply) }
qed

definition edge_fits :: "bulk_edge \<Rightarrow> bool" where
  "edge_fits e \<longleftrightarrow> utf8_ok (be_ty e) \<and> props_ok (be_props e)"

text \<open>The items of a list of edges whose endpoints \<open>res\<close> resolves, under the type dictionary \<open>T\<close>.\<close>

fun eitems_ok ::
    "(u32 \<Rightarrow> str option) \<Rightarrow> (str \<rightharpoonup> node_id) \<Rightarrow> u64 \<Rightarrow> nat \<Rightarrow> bulk_edge list \<Rightarrow> edge_item list \<Rightarrow> bool" where
  "eitems_ok T res start pos [] cs \<longleftrightarrow> cs = []"
| "eitems_ok T res start pos (e # es) cs \<longleftrightarrow>
     (\<exists>y cs'. cs = (start + of_nat pos, the (res (be_src_key e)), the (res (be_dst_key e)), y, be_props e) # cs' \<and>
        T y = Some (be_ty e) \<and> eitems_ok T res start (Suc pos) es cs')"

lemma reprD_eitems:
  assumes "reprD pc L T G m" "postcard_ok pc" "list_all edge_fits es" "eitems_ok T res start pos es cs"
    and "m Meta META_NEXT_EDGE_ID = Some (be64 c)" "\<forall>i < length es. start + of_nat (pos + i) < c"
    and "\<forall>i < length es. (p, start + of_nat (pos + i)) \<notin> dom (ag_edge G)"
    and "unat start + pos + length es < 2 ^ 64"
  shows "reprD pc L T (bulk_put_edges p res start pos es G) (fold (eitem_rows pc p) cs m)"
  using assms
proof (induction es arbitrary: G m pos cs)
  case (Cons e es)
  obtain y cs' where cs: "cs = (start + of_nat pos, the (res (be_src_key e)), the (res (be_dst_key e)), y, be_props e) # cs'"
    "T y = Some (be_ty e)" "eitems_ok T res start (Suc pos) es cs'" using Cons.prems(4) by auto
  let ?n = "start + of_nat pos" and ?s = "the (res (be_src_key e))" and ?d = "the (res (be_dst_key e))"
  let ?G = "put_edge p ?n (?s, ?d, be_ty e, be_props e) G"
  have lt: "\<forall>i < length es. start + of_nat (Suc pos + i) < c"
    and fresh: "\<forall>i < length es. (p, start + of_nat (Suc pos + i)) \<notin> dom (ag_edge G)"
    using Cons.prems(6,7) by (metis Suc_less_eq add_Suc_shift length_Cons)+
  have n: "?n < c" "(p, ?n) \<notin> dom (ag_edge G)" using Cons.prems(6,7) by force+
  have ps: "props_ok (be_props e)" using Cons.prems(3) by (simp add: edge_fits_def)
  have r: "reprD pc L T ?G (edge_rows pc p ?n ?s ?d y (be_props e) m)"
    by (rule reprD_add_edge [OF Cons.prems(1,2) ps cs(2) Cons.prems(5) n])
  have apart: "start + of_nat (Suc pos + i) \<noteq> ?n" if "i < length es" for i
    by (rule offset_apart) (use Cons.prems(8) that in simp_all)
  have fresh': "\<forall>i < length es. (p, start + of_nat (Suc pos + i)) \<notin> dom (ag_edge ?G)"
    using fresh apart by (auto simp del: of_nat_add)
  have "reprD pc L T (bulk_put_edges p res start (Suc pos) es ?G)
      (fold (eitem_rows pc p) cs' (edge_rows pc p ?n ?s ?d y (be_props e) m))"
    using Cons.IH [OF r Cons.prems(2) _ cs(3) _ lt fresh'] Cons.prems(3,5,8) by simp
  then show ?case by (simp add: cs(1) eitem_rows_def [of pc p "(_, _)"])
qed simp

definition resolving :: "(str \<rightharpoonup> node_id) \<Rightarrow> (str \<rightharpoonup> node_id) \<Rightarrow> str \<rightharpoonup> node_id" where
  "resolving ids own key = (case ids key of None \<Rightarrow> own key | Some n \<Rightarrow> Some n)"

lemma eitems_ok_grow: "eitems_ok T res start pos es cs \<Longrightarrow> T \<subseteq>\<^sub>m T' \<Longrightarrow> eitems_ok T' res start pos es cs"
  by (induction T res start pos es cs rule: eitems_ok.induct) (auto simp: map_le_def dom_def)

context kv_txn begin

lemma edge_batches_write_run:
  assumes inv: "inv t"
    and b: "eb_edges b = batch_edges pc p cs" "eb_adj_fwd b = batch_fwd p cs" "eb_adj_rev b = batch_rev p cs"
  shows "\<exists>t'. edge_batches_write V b t = (Inr (), t') \<and> inv t' \<and> view t' = fold (eitem_rows pc p) cs (view t)"
proof -
  obtain t1 where 1: "put_batch V Edges (eb_edges b) t = (Inr (), t1)" "inv t1"
    "view t1 = kv_puts Edges (eb_edges b) (view t)" using put_batch_view [OF inv] by blast
  obtain t2 where 2: "put_batch V AdjFwd (sort_batch (eb_adj_fwd b)) t1 = (Inr (), t2)" "inv t2"
    "view t2 = kv_puts AdjFwd (sort_batch (eb_adj_fwd b)) (view t1)" using put_batch_view [OF 1(2)] by blast
  obtain t3 where 3: "put_batch V AdjRev (sort_batch (eb_adj_rev b)) t2 = (Inr (), t3)" "inv t3"
    "view t3 = kv_puts AdjRev (sort_batch (eb_adj_rev b)) (view t2)" using put_batch_view [OF 2(2)] by blast
  have f: "map_of (rev (sort_batch (batch_fwd p cs))) = map_of (rev (batch_fwd p cs))"
    by (rule map_of_rev_sort) (auto simp: batch_fwd_def)
  have r: "map_of (rev (sort_batch (batch_rev p cs))) = map_of (rev (batch_rev p cs))"
    by (rule map_of_rev_sort) (auto simp: batch_rev_def)
  have "view t3 tb = fold (eitem_rows pc p) cs (view t) tb" for tb
    by (cases "tb \<in> {Edges, AdjFwd, AdjRev}")
       (auto simp: 3(3) 2(3) 1(3) b kv_puts_same fold_eitem_rows f r)
  then show ?thesis using 1 2 3 by (auto simp: edge_batches_write_def act_bind_def)
qed

lemma resolve_run:
  assumes inv: "inv t" and r: "reprD pc L T G (view t)"
    and own: "\<forall>key n. own key = Some n \<longleftrightarrow> has_key (ag_node G) p n key"
  shows "resolve V ids t p key = (case resolving ids own key of None \<Rightarrow> Inl NotFound | Some n \<Rightarrow> Inr n)"
proof -
  note look = node_id_by_external_key_run [OF inv reprD_D(9) [OF r], of p key]
  have "node_id_by_external_key V t p key = Inr (own key)"
  proof (cases "own key")
    case None
    then have "\<forall>n. \<not> has_key (ag_node G) p n key" using own by (metis option.distinct(1))
    with None look(2) show ?thesis by simp
  next
    case (Some n)
    with own look(1) [of n] show ?thesis by metis
  qed
  then show ?thesis by (simp add: resolve_def resolving_def split: option.splits)
qed

lemma stage_edges_run:
  assumes "inv t" "reprD pc L T G (view t)" "cache_ok cache T" "list_all edge_fits es"
    "room META_NEXT_EDGE_TYPE_ID (2 ^ 32) (length es) (view t)"
    "\<forall>key n. own key = Some n \<longleftrightarrow> has_key (ag_node G) p n key"
  shows "if \<exists>e \<in> set es. resolving ids own (be_src_key e) = None \<or> resolving ids own (be_dst_key e) = None
    then \<exists>t' T'. stage_edges V pc p ids start pos es b cache t = (Inl NotFound, t') \<and> inv t' \<and> reprD pc L T' G (view t')
    else \<exists>b' t' T' cs. stage_edges V pc p ids start pos es b cache t = (Inr b', t') \<and> inv t' \<and>
      reprD pc L T' G (view t') \<and> T \<subseteq>\<^sub>m T' \<and> type_frame (view t) (view t') \<and>
      eitems_ok T' (resolving ids own) start pos es cs \<and> eb_edges b' = eb_edges b @ batch_edges pc p cs \<and>
      eb_adj_fwd b' = eb_adj_fwd b @ batch_fwd p cs \<and> eb_adj_rev b' = eb_adj_rev b @ batch_rev p cs"
  using assms
proof (induction es arbitrary: t T cache b pos)
  case Nil
  then show ?case
    by (auto simp: ebatch_defs intro!: exI [of _ T])
next
  case (Cons e es)
  let ?res = "resolving ids own"
  note rr = resolve_run [OF Cons.prems(1,2,6), of ids]
  show ?case
  proof (cases "?res (be_src_key e) = None \<or> ?res (be_dst_key e) = None")
    case True
    then have "stage_edges V pc p ids start pos (e # es) b cache t = (Inl NotFound, t)"
      using rr [of "be_src_key e"] rr [of "be_dst_key e"] by (auto simp: act_bind_reading split: option.splits)
    with True Cons.prems(1,2) show ?thesis by auto
  next
    case False
    then obtain s d where sd: "?res (be_src_key e) = Some s" "?res (be_dst_key e) = Some d" by auto
    have rm: "room META_NEXT_EDGE_TYPE_ID (2 ^ 32) (Suc (length es)) (view t)" using Cons.prems(5) by simp
    have ef: "utf8_ok (be_ty e)" "list_all edge_fits es"
      using Cons.prems(4) by (simp_all add: edge_fits_def [of e])
    obtain y c1 t1 T1 where 1: "intern_cached (intern_edge_type V) (be_ty e) cache t = (Inr (y, c1), t1)" "inv t1"
      "T \<subseteq>\<^sub>m T1" "T1 y = Some (be_ty e)" "cache_ok c1 T1" "reprD pc L T1 G (view t1)"
      "type_frame (view t) (view t1)" "room META_NEXT_EDGE_TYPE_ID (2 ^ 32) (length es) (view t1)"
      using intern_cached_type [OF Cons.prems(1-3) ef(1) rm] by blast
    let ?b = "edge_batches_push pc p (start + of_nat pos) s d y (be_props e) b"
    have step: "stage_edges V pc p ids start pos (e # es) b cache t =
        stage_edges V pc p ids start (Suc pos) es ?b c1 t1"
      using rr [of "be_src_key e"] rr [of "be_dst_key e"] sd 1(1) by (simp add: act_bind_reading act_bind_def)
    note IH = Cons.IH [OF 1(2,6,5) ef(2) 1(8) Cons.prems(6), of "Suc pos" ?b]
    show ?thesis
    proof (cases "\<exists>e \<in> set es. ?res (be_src_key e) = None \<or> ?res (be_dst_key e) = None")
      case True
      then show ?thesis using IH step by auto
    next
      case no: False
      from IH no obtain b' t' T' cs where 2: "stage_edges V pc p ids start (Suc pos) es ?b c1 t1 = (Inr b', t')"
        "inv t'" "reprD pc L T' G (view t')" "T1 \<subseteq>\<^sub>m T'" "type_frame (view t1) (view t')"
        "eitems_ok T' ?res start (Suc pos) es cs" "eb_edges b' = eb_edges ?b @ batch_edges pc p cs"
        "eb_adj_fwd b' = eb_adj_fwd ?b @ batch_fwd p cs" "eb_adj_rev b' = eb_adj_rev ?b @ batch_rev p cs" by auto
      have ty: "T' y = Some (be_ty e)" using 1(4) 2(4) by (metis domI map_le_def)
      let ?cs = "(start + of_nat pos, s, d, y, be_props e) # cs"
      have "eitems_ok T' ?res start pos (e # es) ?cs" using 2(6) ty sd by simp
      moreover have "eb_edges b' = eb_edges b @ batch_edges pc p ?cs"
        "eb_adj_fwd b' = eb_adj_fwd b @ batch_fwd p ?cs" "eb_adj_rev b' = eb_adj_rev b @ batch_rev p ?cs"
        using 2(7-9) by (simp_all add: edge_batches_push_def ebatch_defs)
      ultimately show ?thesis
        using False no step 2(1-3) map_le_trans [OF 1(3) 2(4)] dict_frame_trans [OF 1(7) 2(5)]
        by (auto simp del: eitems_ok.simps)
    qed
  qed
qed

end

section \<open>The whole load\<close>

lemma resolving_load:
  assumes "\<forall>key n. resolving m own key = Some n \<longleftrightarrow> has_key (ag_node G) p n key"
    and "distinct (batch_keys bs)" "\<forall>k \<in> set (batch_keys bs). m k = None"
    and "\<forall>i < length bs. (p, start + of_nat (pos + i)) \<notin> dom (ag_node G)" "unat start + pos + length bs < 2 ^ 64"
  shows "\<forall>key n. resolving (batch_map m own start pos bs) own key = Some n \<longleftrightarrow>
    has_key (ag_node (bulk_put p own start pos bs G)) p n key"
  using assms
proof (induction bs arbitrary: m G pos)
  case (Cons b bs)
  let ?n = "start + of_nat pos" and ?r = "(bn_external_key b, bn_labels b, bn_props b)"
  let ?G = "if owned own b then G else put_node p ?n ?r G"
  let ?m = "case bn_external_key b of None \<Rightarrow> m | Some k \<Rightarrow> m(k \<mapsto> bulk_id own start pos b)"
  note keys = batch_keys_Cons [of b bs]
  have new: "(p, ?n) \<notin> dom (ag_node G)" using Cons.prems(4) by force
  then have none: "\<not> has_key (ag_node G) p ?n key" for key using has_imp_dom(2) by blast
  have res: "\<forall>key n. resolving ?m own key = Some n \<longleftrightarrow> has_key (ag_node ?G) p n key"
  proof (cases "bn_external_key b")
    case None
    then show ?thesis using Cons.prems(1) none by (auto simp: owned_def has_key_def)
  next
    case (Some k)
    have mk: "m k = None" using Cons.prems(3) Some keys by simp
    show ?thesis
    proof (cases "own k")
      case (Some j)
      then have "resolving ?m own = resolving m own"
        using mk \<open>bn_external_key b = Some k\<close> by (auto simp: resolving_def bulk_id_def fun_eq_iff)
      then show ?thesis using Cons.prems(1) Some \<open>bn_external_key b = Some k\<close> by (simp add: owned_def)
    next
      case None
      then have "\<not> has_key (ag_node G) p n k" for n
        using Cons.prems(1) mk by (metis resolving_def option.distinct(1) option.simps(4))
      then show ?thesis
        using Cons.prems(1) None none \<open>bn_external_key b = Some k\<close>
        by (auto simp: owned_def bulk_id_def resolving_def has_key_def)
    qed
  qed
  have apart: "start + of_nat (Suc pos + i) \<noteq> ?n" if "i < length bs" for i
    by (rule offset_apart) (use Cons.prems(5) that in simp_all)
  have fresh: "\<forall>i < length bs. (p, start + of_nat (Suc pos + i)) \<notin> dom (ag_node ?G)"
    using Cons.prems(4) apart by (auto simp del: of_nat_add)
  have "\<forall>k \<in> set (batch_keys bs). ?m k = None"
    using Cons.prems(2,3) keys by (auto split: option.splits)
  with Cons.IH [OF res _ _ fresh] Cons.prems(2,5) keys show ?case by simp
qed (simp add: batch_keys_def map_filter_simps)

lemma reprD_advance:
  assumes "reprD pc L T G m" "ctr = META_NEXT_NODE_ID \<or> ctr = META_NEXT_EDGE_ID" "m Meta ctr = Some (be64 c)" "c \<le> c'"
  shows "reprD pc L T G (kv_put Meta ctr (be64 c') m)"
proof -
  note D = reprD_D [OF assms(1)]
  have ids: "ids_repr ctr N ((m Meta)(ctr \<mapsto> be64 c'))" if "ids_repr ctr N (m Meta)" for N :: "(plane_id \<times> u64) \<rightharpoonup> 'a"
    using that assms(3,4) by (fastforce simp: ids_repr_def)
  have "label_dict L ((m Meta)(ctr \<mapsto> be64 c'))" "type_dict T ((m Meta)(ctr \<mapsto> be64 c'))"
    using assms(2) by (auto intro!: dict_repr_other [OF D(1)] dict_repr_other [OF D(2)])
  moreover have "ids_repr META_NEXT_NODE_ID (ag_node G) ((m Meta)(ctr \<mapsto> be64 c'))"
    "ids_repr META_NEXT_EDGE_ID (ag_edge G) ((m Meta)(ctr \<mapsto> be64 c'))"
    using assms(2) ids [of "ag_node G"] ids [of "ag_edge G"] D(3,4) ids_repr_other [OF D(3), of ctr "Some (be64 c')"]
      ids_repr_other [OF D(4), of ctr "Some (be64 c')"] by (auto simp del: fun_upd_apply)
  ultimately show ?thesis using D by (simp add: reprD_def del: fun_upd_apply)
qed

lemma reserved_range:
  assumes "unat (c :: u64) + n < 2 ^ 64"
  shows "c \<le> c + of_nat n" "i < n \<Longrightarrow> c + of_nat i < c + of_nat n" "i < n \<Longrightarrow> c \<le> c + of_nat i"
proof -
  have u: "unat (c + of_nat j) = unat c + j" if "j \<le> n" for j
    using assms that by (simp add: unat_word_ariths unsigned_of_nat take_bit_nat_eq_self)
  show "c \<le> c + of_nat n" using u [of n] by (simp add: word_le_nat_alt)
  show "c + of_nat i < c + of_nat n" if "i < n" using u [of n] u [of i] that by (simp add: word_less_nat_alt)
  show "c \<le> c + of_nat i" if "i < n" using u [of i] that by (simp add: word_le_nat_alt)
qed

lemma items_ok_keys:
  "items_ok L own start pos bs cs \<Longrightarrow>
   set (item_keys cs) \<subseteq> set (batch_keys bs) \<and> (distinct (batch_keys bs) \<longrightarrow> distinct (item_keys cs))"
proof (induction L own start pos bs cs rule: items_ok.induct)
  case (2 L own start pos b bs cs)
  note keys = batch_keys_Cons [of b bs]
  show ?case
  proof (cases "owned own b")
    case True
    then show ?thesis using 2 keys by auto
  next
    case False
    then obtain c cs' where cs: "cs = c # cs'" "item_ok L start pos b c" "items_ok L own start (Suc pos) bs cs'"
      using 2(3) by auto
    have "item_keys cs = (case bn_external_key b of None \<Rightarrow> [] | Some k \<Rightarrow> [k]) @ item_keys cs'"
      using cs(1,2) by (cases c) (simp add: item_keys_def map_filter_simps item_ok_def split: option.splits)
    then show ?thesis using 2(2) [OF False cs(3)] keys by (auto split: option.splits)
  qed
qed (simp add: item_keys_def batch_keys_def map_filter_simps)

lemma bulk_put_edge [simp]: "ag_edge (bulk_put p own start pos bs G) = ag_edge G"
  by (induction bs arbitrary: G pos) auto

lemma bulk_put_ok: "ag_ok G \<Longrightarrow> ag_ok (bulk_put p own start pos bs G)"
  by (induction bs arbitrary: G pos) auto

lemma bulk_put_edges_ok:
  assumes "ag_ok G" "\<forall>e \<in> set es. \<forall>k \<in> {be_src_key e, be_dst_key e}. \<exists>n. res k = Some n \<and> (p, n) \<in> dom (ag_node G)"
  shows "ag_ok (bulk_put_edges p res start pos es G)"
  using assms
proof (induction es arbitrary: G pos)
  case (Cons e es)
  obtain s d where sd: "res (be_src_key e) = Some s" "(p, s) \<in> dom (ag_node G)"
    "res (be_dst_key e) = Some d" "(p, d) \<in> dom (ag_node G)" using Cons.prems(2) by auto
  then show ?case using Cons.IH [OF ag_ok_put_edge [OF Cons.prems(1) sd(2,4)]] Cons.prems(2) by simp
qed simp

context kv_txn begin

lemma reserve_run:
  assumes "inv t" "view t Meta ctr = Some (be64 c)"
  shows "reserve_id_batch V ctr n t = (Inr c, put1 V Meta ctr (be64 (c + n)) t)"
  using assms by (simp add: reserve_id_batch_def get_u64_def put_u64_def map_transpose_def decode_u64_def tx_simps
      act_bind_def)

lemma reserve_stage:
  assumes inv: "inv t" and r: "reprD pc L T G (view t)" and bs: "list_all node_fits bs"
    and room: "room META_NEXT_LABEL_ID (2 ^ 32) (labels_total bs) (view t)"
    and c: "view t Meta META_NEXT_NODE_ID = Some (be64 c)" "unat c + length bs < 2 ^ 64"
    and own: "\<forall>key n. own key = Some n \<longleftrightarrow> has_key (ag_node G) p n key"
  shows "if batch_clash oc own {} bs
    then \<exists>t' L'. stage_nodes V pc p bs oc t = (Inl Conflict, t') \<and> inv t' \<and> reprD pc L' T G (view t')
    else \<exists>s t' L' cs. stage_nodes V pc p bs oc t = (Inr (c, s), t') \<and> inv t' \<and> reprD pc L' T G (view t') \<and>
      label_frame (kv_put Meta META_NEXT_NODE_ID (be64 (c + of_nat (length bs))) (view t)) (view t') \<and>
      items_ok L' own c 0 bs cs \<and> staged_as pc p own c 0 bs cs staged_empty s"
proof -
  let ?c = "c + of_nat (length bs)"
  let ?t = "put1 V Meta META_NEXT_NODE_ID (be64 ?c) t"
  have t: "inv ?t" "view ?t = kv_put Meta META_NEXT_NODE_ID (be64 ?c) (view t)" using inv by (simp_all add: tx_simps)
  have res: "reserve_id_batch V META_NEXT_NODE_ID (of_nat (length bs)) t = (Inr c, ?t)"
    by (rule reserve_run [OF inv c(1)])
  have r1: "reprD pc L T G (view ?t)"
    unfolding t(2) by (rule reprD_advance [OF r _ c(1) reserved_range(1) [OF c(2)]]) simp
  have rm: "room META_NEXT_LABEL_ID (2 ^ 32) (labels_total bs) (view ?t)" using room by (simp add: room_def t(2))
  have c0: "cache_ok Map.empty L" by (simp add: cache_ok_def)
  have k0: "sn_key_to_id staged_empty = Map.empty" by (simp add: staged_empty_def)
  show ?thesis
  proof (cases "batch_clash oc own {} bs")
    case True
    then show ?thesis
      using stage_loop_clash [OF t(1) r1 c0 bs rm own, of oc staged_empty c 0] res k0
      by (auto simp: stage_nodes_def act_bind_def)
  next
    case False
    obtain s t' L' cs where "stage_loop V pc p oc c 0 bs (staged_empty, Map.empty) ?t = (Inr s, t')" "inv t'"
      "reprD pc L' T G (view t')" "label_frame (view ?t) (view t')" "items_ok L' own c 0 bs cs"
      "staged_as pc p own c 0 bs cs staged_empty s"
      using stage_loop_run [where k = 0, OF t(1) r1 c0 bs _ own, of oc staged_empty c 0] rm k0 False by auto
    then show ?thesis using False res unfolding t(2)
      by (auto simp: stage_nodes_def act_bind_def)
  qed
qed

lemma staged_edges_start:
  assumes t1: "inv t1" "reprD pc L1 T G (view t1)"
      "label_frame (kv_put Meta META_NEXT_NODE_ID n (view t)) (view t1)"
    and room: "room META_NEXT_EDGE_TYPE_ID (2 ^ 32) (length es) (view t)"
    and ce: "view t Meta META_NEXT_EDGE_ID = Some (be64 d)" "unat d + length es < 2 ^ 64"
  defines "t2 \<equiv> put1 V Meta META_NEXT_EDGE_ID (be64 (d + of_nat (length es))) t1"
  shows "inv t2" "reprD pc L1 T G (view t2)" "room META_NEXT_EDGE_TYPE_ID (2 ^ 32) (length es) (view t2)"
    "reserve_id_batch V META_NEXT_EDGE_ID (of_nat (length es)) t1 = (Inr d, t2)"
    "view t2 Meta META_NEXT_NODE_ID = Some n" "view t2 Meta META_NEXT_EDGE_ID = Some (be64 (d + of_nat (length es)))"
proof -
  note m1 = label_frame_meta(1-3) [OF t1(3)]
  have e1: "view t1 Meta META_NEXT_EDGE_ID = Some (be64 d)" using m1(2) ce(1) by simp
  have t2: "view t2 = kv_put Meta META_NEXT_EDGE_ID (be64 (d + of_nat (length es))) (view t1)"
    using t1(1) by (simp add: t2_def tx_simps)
  show "inv t2" using t1(1) by (simp add: t2_def tx_simps)
  show "reprD pc L1 T G (view t2)"
    unfolding t2 by (rule reprD_advance [OF t1(2) _ e1 reserved_range(1) [OF ce(2)]]) simp
  show "room META_NEXT_EDGE_TYPE_ID (2 ^ 32) (length es) (view t2)" using room m1(3) by (simp add: room_def t2)
  show "reserve_id_batch V META_NEXT_EDGE_ID (of_nat (length es)) t1 = (Inr d, t2)"
    unfolding t2_def by (rule reserve_run [OF t1(1) e1])
  show "view t2 Meta META_NEXT_NODE_ID = Some n" "view t2 Meta META_NEXT_EDGE_ID = Some (be64 (d + of_nat (length es)))"
    using m1(1) by (simp_all add: t2)
qed

lemma fresh_range:
  assumes "reprD pc L T G m"
  shows "m Meta META_NEXT_NODE_ID = Some (be64 c) \<Longrightarrow> unat c + n < 2 ^ 64 \<Longrightarrow> i < n \<Longrightarrow> (q, c + of_nat i) \<notin> dom (ag_node G)"
    and "m Meta META_NEXT_EDGE_ID = Some (be64 c) \<Longrightarrow> unat c + n < 2 ^ 64 \<Longrightarrow> i < n \<Longrightarrow> (q, c + of_nat i) \<notin> dom (ag_edge G)"
proof -
  have above: "c \<le> c + of_nat i" if "unat c + n < 2 ^ 64" "i < n" using reserved_range(3) [OF that] .
  have lt: "m Meta META_NEXT_NODE_ID = Some (be64 c) \<Longrightarrow> (q, x) \<in> dom (ag_node G) \<Longrightarrow> x < c"
    "m Meta META_NEXT_EDGE_ID = Some (be64 c) \<Longrightarrow> (q, x) \<in> dom (ag_edge G) \<Longrightarrow> x < c" for x
    using reprD_D(3,4) [OF assms] by (auto simp: ids_repr_def)
  then show "m Meta META_NEXT_NODE_ID = Some (be64 c) \<Longrightarrow> unat c + n < 2 ^ 64 \<Longrightarrow> i < n \<Longrightarrow> (q, c + of_nat i) \<notin> dom (ag_node G)"
    "m Meta META_NEXT_EDGE_ID = Some (be64 c) \<Longrightarrow> unat c + n < 2 ^ 64 \<Longrightarrow> i < n \<Longrightarrow> (q, c + of_nat i) \<notin> dom (ag_edge G)"
    using above by (meson leD)+
qed

lemma staged_resolving:
  assumes r: "reprD pc L T G (view t)"
    and cn: "view t Meta META_NEXT_NODE_ID = Some (be64 c)" "unat c + length bs < 2 ^ 64"
    and own: "\<forall>key n. own key = Some n \<longleftrightarrow> has_key (ag_node G) p n key"
    and own': "\<forall>key n. own' key = Some n \<longleftrightarrow> has_key (ag_node (bulk_put p own c 0 bs G)) p n key"
    and ok: "\<not> batch_clash oc own {} bs" and s: "staged_as pc p own c 0 bs cs staged_empty s"
  shows "resolving (sn_key_to_id s) own = own'"
proof -
  have keys: "distinct (batch_keys bs)" using ok by (simp add: batch_clash_iff)
  have ids: "sn_key_to_id s = batch_map Map.empty own c 0 bs" using s by (simp add: staged_as_def staged_empty_def)
  have "resolving Map.empty own = own" by (simp add: resolving_def fun_eq_iff)
  then have "\<forall>key n. resolving (sn_key_to_id s) own key = Some n \<longleftrightarrow> own' key = Some n"
    using resolving_load [of Map.empty own G p bs c 0] own own' keys fresh_range(1) [OF r cn] cn(2) ids by simp
  then show ?thesis by (metis not_None_eq ext)
qed

lemma bulk_load_run:
  assumes inv: "inv t" and r: "reprD pc L T G (view t)" and pc: "postcard_ok pc" and G: "ag_ok G"
    and bs: "list_all node_fits bs" and es: "list_all edge_fits es"
    and room: "room META_NEXT_LABEL_ID (2 ^ 32) (labels_total bs) (view t)"
      "room META_NEXT_EDGE_TYPE_ID (2 ^ 32) (length es) (view t)"
    and cn: "view t Meta META_NEXT_NODE_ID = Some (be64 c)" "unat c + length bs < 2 ^ 64"
    and ce: "view t Meta META_NEXT_EDGE_ID = Some (be64 d)" "unat d + length es < 2 ^ 64"
    and own: "\<forall>key n. own key = Some n \<longleftrightarrow> has_key (ag_node G) p n key"
    and own': "\<forall>key n. own' key = Some n \<longleftrightarrow> has_key (ag_node (bulk_put p own c 0 bs G)) p n key"
    and ok: "\<not> batch_clash oc own {} bs" "\<forall>e \<in> set es. own' (be_src_key e) \<noteq> None \<and> own' (be_dst_key e) \<noteq> None"
  shows "\<exists>st t' L' T'. bulk_load V pc p bs es oc t = (Inr st, t') \<and> inv t' \<and>
    reprD pc L' T' (bulk_put_edges p own' d 0 es (bulk_put p own c 0 bs G)) (view t') \<and>
    ag_ok (bulk_put_edges p own' d 0 es (bulk_put p own c 0 bs G)) \<and>
    bs_node_ids st = bulk_ids own c 0 bs \<and> bs_existing st = bulk_existing own 0 bs \<and> bs_node_start st = c \<and>
    bs_edges st = of_nat (length es)"
proof -
  obtain s t1 L1 cs where 1: "stage_nodes V pc p bs oc t = (Inr (c, s), t1)" "inv t1" "reprD pc L1 T G (view t1)"
    "label_frame (kv_put Meta META_NEXT_NODE_ID (be64 (c + of_nat (length bs))) (view t)) (view t1)"
    "items_ok L1 own c 0 bs cs" "staged_as pc p own c 0 bs cs staged_empty s"
    using reserve_stage [OF inv r bs room(1) cn own, of oc] ok(1) by auto
  let ?t2 = "put1 V Meta META_NEXT_EDGE_ID (be64 (d + of_nat (length es))) t1"
  note st = staged_edges_start [OF 1(2,3,4) room(2) ce]
  have res: "resolving (sn_key_to_id s) own = own'" by (rule staged_resolving [OF r cn own own' ok(1) 1(6)])
  have keys: "distinct (batch_keys bs)" using ok(1) by (simp add: batch_clash_iff)
  obtain b t3 T3 ces where 3: "stage_edges V pc p (sn_key_to_id s) d 0 es edge_batches_empty Map.empty ?t2 = (Inr b, t3)"
    "inv t3" "reprD pc L1 T3 G (view t3)" "type_frame (view ?t2) (view t3)"
    "eitems_ok T3 own' d 0 es ces" "eb_edges b = batch_edges pc p ces" "eb_adj_fwd b = batch_fwd p ces"
    "eb_adj_rev b = batch_rev p ces"
    using stage_edges_run [OF st(1,2) _ es st(3) own, of Map.empty "sn_key_to_id s" d 0 edge_batches_empty] ok(2)
    unfolding res by (auto simp: cache_ok_def edge_batches_empty_def)
  note m3 = type_frame_meta(1,2) [OF 3(4)]
  have ik: "set (item_keys cs) \<subseteq> set (batch_keys bs)" "distinct (item_keys cs)"
    using items_ok_keys [OF 1(5)] keys by simp_all
  obtain t4 where 4: "staged_write V s t3 = (Inr (), t4)" "inv t4" "view t4 = fold (item_rows pc p) cs (view t3)"
    using staged_write_run [OF 3(2) ik(2), of s pc p] 1(6) by (auto simp: staged_as_def staged_empty_def)
  obtain t5 where 5: "edge_batches_write V b t4 = (Inr (), t5)" "inv t5" "view t5 = fold (eitem_rows pc p) ces (view t4)"
    using edge_batches_write_run [OF 4(2) 3(6-8)] by blast
  have n3: "view t3 Meta META_NEXT_NODE_ID = Some (be64 (c + of_nat (length bs)))"
    "view t3 Meta META_NEXT_EDGE_ID = Some (be64 (d + of_nat (length es)))"
    using m3 st(5,6) by simp_all
  let ?G1 = "bulk_put p own c 0 bs G"
  have r4: "reprD pc L1 T3 ?G1 (view t4)"
    unfolding 4(3)
  proof (rule reprD_items [OF 3(3) pc bs 1(5) n3(1)])
    show "\<forall>k n. k \<in> set (batch_keys bs) \<longrightarrow> own k = None \<longrightarrow> \<not> has_key (ag_node G) p n k"
      using own by (metis option.distinct(1))
  qed (use reserved_range(2) [OF cn(2)] fresh_range(1) [OF r cn] keys cn(2) in auto)
  have e4: "view t4 Meta META_NEXT_EDGE_ID = Some (be64 (d + of_nat (length es)))"
    using n3(2) by (simp add: 4(3) fold_item_rows(5))
  have r5: "reprD pc L1 T3 (bulk_put_edges p own' d 0 es ?G1) (view t5)"
    unfolding 5(3) by (rule reprD_eitems [OF r4 pc es 3(5) e4])
      (use reserved_range(2) [OF ce(2)] fresh_range(2) [OF r ce] ce(2) in auto)
  have "ag_ok (bulk_put_edges p own' d 0 es ?G1)"
  proof (rule bulk_put_edges_ok [OF bulk_put_ok [OF G]], intro ballI)
    fix e k assume "e \<in> set es" "k \<in> {be_src_key e, be_dst_key e}"
    then obtain n where "own' k = Some n" using ok(2) by auto
    then show "\<exists>n. own' k = Some n \<and> (p, n) \<in> dom (ag_node ?G1)" using own' has_imp_dom(2) by blast
  qed
  moreover have "bulk_load V pc p bs es oc t = (Inr \<lparr>bs_nodes = of_nat (length (sn_nodes s)), bs_edges = of_nat (length es),
      bs_node_start = c, bs_node_ids = sn_node_ids s, bs_existing = sn_existing s\<rparr>, t5)"
    using 1(1) 3(1) 4(1) 5(1) st(4) by (simp add: bulk_load_def act_bind_def)
  ultimately show ?thesis using 1(6) 5(2) r5 by (auto simp: staged_as_def staged_empty_def)
qed

lemma bulk_load_clash:
  assumes inv: "inv t" and r: "reprD pc L T G (view t)" and bs: "list_all node_fits bs"
    and room: "room META_NEXT_LABEL_ID (2 ^ 32) (labels_total bs) (view t)"
    and cn: "view t Meta META_NEXT_NODE_ID = Some (be64 c)" "unat c + length bs < 2 ^ 64"
    and own: "\<forall>key n. own key = Some n \<longleftrightarrow> has_key (ag_node G) p n key"
    and clash: "batch_clash oc own {} bs"
  shows "\<exists>t' L'. bulk_load V pc p bs es oc t = (Inl Conflict, t') \<and> inv t' \<and> reprD pc L' T G (view t')"
  using reserve_stage [OF inv r bs room cn own, of oc] clash by (auto simp: bulk_load_def act_bind_def)

lemma bulk_load_missing:
  assumes inv: "inv t" and r: "reprD pc L T G (view t)"
    and bs: "list_all node_fits bs" and es: "list_all edge_fits es"
    and room: "room META_NEXT_LABEL_ID (2 ^ 32) (labels_total bs) (view t)"
      "room META_NEXT_EDGE_TYPE_ID (2 ^ 32) (length es) (view t)"
    and cn: "view t Meta META_NEXT_NODE_ID = Some (be64 c)" "unat c + length bs < 2 ^ 64"
    and ce: "view t Meta META_NEXT_EDGE_ID = Some (be64 d)" "unat d + length es < 2 ^ 64"
    and own: "\<forall>key n. own key = Some n \<longleftrightarrow> has_key (ag_node G) p n key"
    and own': "\<forall>key n. own' key = Some n \<longleftrightarrow> has_key (ag_node (bulk_put p own c 0 bs G)) p n key"
    and ok: "\<not> batch_clash oc own {} bs" "\<exists>e \<in> set es. own' (be_src_key e) = None \<or> own' (be_dst_key e) = None"
  shows "\<exists>t' L' T'. bulk_load V pc p bs es oc t = (Inl NotFound, t') \<and> inv t' \<and> reprD pc L' T' G (view t')"
proof -
  obtain s t1 L1 cs where 1: "stage_nodes V pc p bs oc t = (Inr (c, s), t1)" "inv t1" "reprD pc L1 T G (view t1)"
    "label_frame (kv_put Meta META_NEXT_NODE_ID (be64 (c + of_nat (length bs))) (view t)) (view t1)"
    "staged_as pc p own c 0 bs cs staged_empty s"
    using reserve_stage [OF inv r bs room(1) cn own, of oc] ok(1) by auto
  note st = staged_edges_start [OF 1(2,3,4) room(2) ce]
  have res: "resolving (sn_key_to_id s) own = own'" by (rule staged_resolving [OF r cn own own' ok(1) 1(5)])
  from stage_edges_run [OF st(1,2) _ es st(3) own, of Map.empty "sn_key_to_id s" d 0 edge_batches_empty] ok(2)
  obtain t' T' where "stage_edges V pc p (sn_key_to_id s) d 0 es edge_batches_empty Map.empty
      (put1 V Meta META_NEXT_EDGE_ID (be64 (d + of_nat (length es))) t1) = (Inl NotFound, t')"
      "inv t'" "reprD pc L1 T' G (view t')"
    unfolding res by (auto simp: cache_ok_def)
  then show ?thesis using 1(1) st(4) by (auto simp: bulk_load_def act_bind_def)
qed

end

end
