(* ===== verification/Graph_Bulk_Props.thy ===== *)
theory Graph_Bulk_Props
  imports Graph_Bulk_Run Graph_Demo
begin

text \<open>
  The bulk loader refines node by node, edge by edge creation.
\<close>

definition demo_nodes :: "bulk_node list" where
  "demo_nodes = [\<lparr>bn_external_key = Some ann, bn_labels = [person], bn_props = []\<rparr>,
                 \<lparr>bn_external_key = Some bob, bn_labels = [person], bn_props = []\<rparr>]"

definition demo_edges :: "bulk_edge list" where
  "demo_edges = [\<lparr>be_src_key = ann, be_dst_key = bob, be_ty = knows, be_props = []\<rparr>]"

text \<open>When a batch is refused.\<close>

definition bulk_clash :: "on_conflict \<Rightarrow> (str \<rightharpoonup> node_id) \<Rightarrow> bulk_node list \<Rightarrow> bool" where
  "bulk_clash oc own bs \<longleftrightarrow>
     \<not> distinct (batch_keys bs) \<or> (oc = OcError \<and> (\<exists>k \<in> set (batch_keys bs). own k \<noteq> None))"

definition bulk_missing :: "(str \<rightharpoonup> node_id) \<Rightarrow> bulk_edge list \<Rightarrow> bool" where
  "bulk_missing own es \<longleftrightarrow> (\<exists>e \<in> set es. own (be_src_key e) = None \<or> own (be_dst_key e) = None)"

text \<open>
  C5: A bulk load reserves one range of node ids and one of edge ids and stores exactly the graph that
  creating its nodes (skipping, under the lenient policies, those whose external key is owned) and
  then its edges one by one would store; no edge dangles. A batch that names a key twice, or an owned
  key under the strict policy, is a conflict; an edge whose endpoint is neither in the batch nor on
  the plane is reported as not found. A refused batch leaves the stored graph as it was.
\<close>

theorem bulk_load_correct:
  assumes "kv_txn V valid view" "postcard_ok pc" "db_ok valid view pc G t"
    "list_all node_fits bs" "list_all edge_fits es"
    "room META_NEXT_LABEL_ID (2 ^ 32) (labels_total bs) (view t)"
    "room META_NEXT_EDGE_TYPE_ID (2 ^ 32) (length es) (view t)"
    "view t Meta META_NEXT_NODE_ID = Some (be64 c)" "unat c + length bs < 2 ^ 64"
    "view t Meta META_NEXT_EDGE_ID = Some (be64 d)" "unat d + length es < 2 ^ 64"
    "\<forall>key n. own key = Some n \<longleftrightarrow> has_key (ag_node G) p n key"
    "\<forall>key n. own' key = Some n \<longleftrightarrow> has_key (ag_node (bulk_put p own c 0 bs G)) p n key"
  shows "(bulk_clash oc own bs \<longrightarrow> (\<exists>t'. bulk_load V pc p bs es oc t = (Inl Conflict, t') \<and> db_ok valid view pc G t')) \<and>
    (\<not> bulk_clash oc own bs \<longrightarrow> bulk_missing own' es \<longrightarrow> (\<exists>t'. bulk_load V pc p bs es oc t = (Inl NotFound, t') \<and> db_ok valid view pc G t')) \<and>
    (\<not> bulk_clash oc own bs \<longrightarrow> \<not> bulk_missing own' es \<longrightarrow>
      (\<exists>st t'. bulk_load V pc p bs es oc t = (Inr st, t') \<and>
         db_ok valid view pc (bulk_put_edges p own' d 0 es (bulk_put p own c 0 bs G)) t' \<and>
         bs_node_ids st = bulk_ids own c 0 bs \<and> bs_existing st = bulk_existing own 0 bs))"
proof -
  obtain L T where r: "valid t" "reprD pc L T G (view t)" "ag_ok G" using assms(3) by (auto simp: db_ok_def repr_def)
  have cl: "bulk_clash oc own bs \<longleftrightarrow> batch_clash oc own {} bs" by (auto simp: bulk_clash_def batch_clash_iff)
  have "\<exists>t'. bulk_load V pc p bs es oc t = (Inl Conflict, t') \<and> db_ok valid view pc G t'" if "bulk_clash oc own bs"
    using kv_txn.bulk_load_clash [OF assms(1) r(1,2) assms(4,6,8,9,12), of oc es] that cl r(3)
    by (auto simp: db_ok_def repr_def)
  moreover have "\<exists>t'. bulk_load V pc p bs es oc t = (Inl NotFound, t') \<and> db_ok valid view pc G t'"
    if "\<not> bulk_clash oc own bs" "bulk_missing own' es"
    using kv_txn.bulk_load_missing [OF assms(1) r(1,2) assms(4-13), of oc] that cl r(3)
    by (auto simp: db_ok_def repr_def bulk_missing_def)
  moreover have "\<exists>st t'. bulk_load V pc p bs es oc t = (Inr st, t') \<and>
      db_ok valid view pc (bulk_put_edges p own' d 0 es (bulk_put p own c 0 bs G)) t' \<and>
      bs_node_ids st = bulk_ids own c 0 bs \<and> bs_existing st = bulk_existing own 0 bs"
    if "\<not> bulk_clash oc own bs" "\<not> bulk_missing own' es"
    using kv_txn.bulk_load_run [OF assms(1) r(1,2) assms(2) r(3) assms(4-13), of oc] that cl
    by (auto simp: db_ok_def repr_def bulk_missing_def)
  ultimately show ?thesis by blast
qed

lemma demo_batch:
  "list_all node_fits demo_nodes" "list_all edge_fits demo_edges" "labels_total demo_nodes = 2"
  "length demo_nodes = 2" "length demo_edges = 1" "distinct (batch_keys demo_nodes)" "batch_keys demo_nodes = [ann, bob]"
  using ann_bob
  by (simp_all add: demo_nodes_def demo_edges_def node_fits_def edge_fits_def labels_total_def str_opt_ok_def
      batch_keys_def map_filter_simps)

theorem bulk_load_correct_witness:
  "\<exists>st t'. bulk_load mem_vtable ref_postcard STARTUP demo_nodes demo_edges OcError demo0 = (Inr st, t') \<and>
     db_ok mem_inv mem_view ref_postcard graph3 t' \<and> bs_node_ids st = [1, 2]"
proof -
  let ?own = "Map.empty :: str \<rightharpoonup> node_id" and ?own' = "[ann \<mapsto> 1, bob \<mapsto> 2] :: str \<rightharpoonup> node_id"
  have put: "bulk_put STARTUP ?own 1 0 demo_nodes empty_graph = graph2"
    by (simp add: demo_nodes_def owned_def graph2_def graph1_def)
  have g3: "bulk_put_edges STARTUP ?own' 1 0 demo_edges graph2 = graph3"
    using ann_bob by (simp add: demo_edges_def graph3_def)
  have own: "\<forall>key n. ?own key = Some n \<longleftrightarrow> has_key (ag_node empty_graph) STARTUP n key"
    by (simp add: empty_graph_def has_key_def)
  have own': "\<forall>key n. ?own' key = Some n \<longleftrightarrow> has_key (ag_node (bulk_put STARTUP ?own 1 0 demo_nodes empty_graph)) STARTUP n key"
    unfolding put using ann_bob by (auto simp: graph2_def graph1_def empty_graph_def has_key_def)
  have db: "db_ok mem_inv mem_view ref_postcard empty_graph demo0"
    using demo0_all ag_ok_empty by (auto simp: db_ok_def repr_def)
  have ctr: "mem_view demo0 Meta META_NEXT_NODE_ID = Some (be64 1)" "mem_view demo0 Meta META_NEXT_EDGE_ID = Some (be64 1)"
    using demo0_all by (simp_all add: ID_COUNTERS_def)
  have rooms: "room META_NEXT_LABEL_ID (2 ^ 32) (labels_total demo_nodes) (mem_view demo0)"
    "room META_NEXT_EDGE_TYPE_ID (2 ^ 32) (length demo_edges) (mem_view demo0)"
    using demo0_roomy demo_batch(3,5) by (auto simp: roomy_def elim: room_mono)
  have ids: "bulk_ids ?own 1 0 demo_nodes = [1, 2]" by (simp add: demo_nodes_def bulk_id_def)
  have "\<exists>st t'. bulk_load mem_vtable ref_postcard STARTUP demo_nodes demo_edges OcError demo0 = (Inr st, t') \<and>
      db_ok mem_inv mem_view ref_postcard (bulk_put_edges STARTUP ?own' 1 0 demo_edges (bulk_put STARTUP ?own 1 0 demo_nodes empty_graph)) t' \<and>
      bs_node_ids st = bulk_ids ?own 1 0 demo_nodes"
  proof -
    have n: "unat (1 :: u64) + length demo_nodes < 2 ^ 64" "unat (1 :: u64) + length demo_edges < 2 ^ 64"
      by (simp_all add: demo_batch(4,5))
    have "\<not> bulk_clash OcError ?own demo_nodes" "\<not> bulk_missing ?own' demo_edges"
      using demo_batch(6) by (simp_all add: bulk_clash_def bulk_missing_def demo_edges_def)
    with bulk_load_correct [OF mem.kv_txn_axioms ref_postcard_ok db, OF demo_batch(1,2) rooms ctr(1) n(1) ctr(2) n(2), OF own own',
        where oc = OcError] show ?thesis by blast
  qed
  then show ?thesis by (simp add: put g3 ids)
qed

end
