(* ===== verification/Crc32.thy ===== *)
theory Crc32
  imports Prelude
begin

text \<open>
  The checksum of the WAL and of every SST block (\<open>crc32\<close>, \<open>CRC32_TABLE\<close> and \<open>CRC32_SLICE8\<close> of
  \<open>storage/native/mod.rs\<close>): slice-by-eight tables, shown equal to the bit-at-a-time definition of the
  reflected IEEE 802.3 CRC.
\<close>

unbundle bit_operations_syntax

section \<open>The tables and the loop\<close>

definition crc_round :: "u32 \<Rightarrow> u32" where
  "crc_round crc = drop_bit 1 crc XOR (0xEDB88320 AND (- (crc AND 1)))"

definition CRC32_TABLE :: "u32 list" where
  "CRC32_TABLE = map (\<lambda>i. (crc_round ^^ 8) (of_nat i)) [0..<256]"

fun crc_slices :: "nat \<Rightarrow> u32 list \<Rightarrow> u32 list list" where
  "crc_slices 0 prev = []"
| "crc_slices (Suc k) prev =
     (let next = map (\<lambda>p. drop_bit 8 p XOR CRC32_TABLE ! unat (p AND 0xff)) prev
      in next # crc_slices k next)"

definition CRC32_SLICE8 :: "u32 list list" where
  "CRC32_SLICE8 = CRC32_TABLE # crc_slices 7 CRC32_TABLE"

text \<open>\<open>u32::from_le_bytes\<close> of four bytes.\<close>

definition le4 :: "byte \<Rightarrow> byte \<Rightarrow> byte \<Rightarrow> byte \<Rightarrow> u32" where
  "le4 a b c d =
     ucast a OR push_bit 8 (ucast b) OR push_bit 16 (ucast c) OR push_bit 24 (ucast d)"

abbreviation slice8 :: "nat \<Rightarrow> u32 \<Rightarrow> u32" where
  "slice8 k x \<equiv> CRC32_SLICE8 ! k ! unat (x AND 0xff)"

fun crc_tail :: "u32 \<Rightarrow> bytes \<Rightarrow> u32" where
  "crc_tail crc [] = crc"
| "crc_tail crc (b # bs) =
     crc_tail (drop_bit 8 crc XOR CRC32_TABLE ! unat ((crc XOR ucast b) AND 0xff)) bs"

fun crc_loop :: "u32 \<Rightarrow> bytes \<Rightarrow> u32" where
  "crc_loop crc (c0 # c1 # c2 # c3 # c4 # c5 # c6 # c7 # rest) =
     (let lo = le4 c0 c1 c2 c3 XOR crc; hi = le4 c4 c5 c6 c7 in
      crc_loop
        (slice8 7 lo XOR slice8 6 (drop_bit 8 lo) XOR slice8 5 (drop_bit 16 lo) XOR
         slice8 4 (drop_bit 24 lo) XOR slice8 3 hi XOR slice8 2 (drop_bit 8 hi) XOR
         slice8 1 (drop_bit 16 hi) XOR slice8 0 (drop_bit 24 hi)) rest)"
| "crc_loop crc tail = crc_tail crc tail"

definition crc32 :: "bytes \<Rightarrow> u32" where
  "crc32 bs = NOT (crc_loop (NOT 0) bs)"

section \<open>The reference: one bit at a time\<close>

definition crc_bits :: "u32 \<Rightarrow> u32" where
  "crc_bits = crc_round ^^ 8"

definition crc_ref :: "bytes \<Rightarrow> u32" where
  "crc_ref bs = NOT (foldl (\<lambda>crc b. crc_bits (crc XOR ucast b)) (NOT 0) bs)"

section \<open>Linearity\<close>

lemma neg_lsb: "- (x AND 1) = (if bit x 0 then NOT 0 else (0 :: u32))"
  by (cases "bit x 0") (simp_all add: and_one_eq mod_2_eq_odd bit_0)

lemma crc_round_alt: "crc_round x = drop_bit 1 x XOR (if bit x 0 then 0xEDB88320 else 0)"
  by (simp add: crc_round_def neg_lsb)

lemma drop_bit_xor: "drop_bit n (a XOR b :: u32) = drop_bit n a XOR drop_bit n b"
  by (rule bit_word_eqI) (simp add: bit_simps)

lemma crc_round_xor: "crc_round (a XOR b) = crc_round a XOR crc_round b"
  unfolding crc_round_alt drop_bit_xor
  by (cases "bit a 0"; cases "bit b 0") (simp_all add: bit_simps ac_simps)

lemma crc_rounds_xor: "(crc_round ^^ n) (a XOR b) = (crc_round ^^ n) a XOR (crc_round ^^ n) b"
  by (induction n) (simp_all add: crc_round_xor)

lemma crc_bits_xor: "crc_bits (a XOR b) = crc_bits a XOR crc_bits b"
  unfolding crc_bits_def by (rule crc_rounds_xor)

lemma crc_rounds_low:
  "(\<And>i. i < n \<Longrightarrow> \<not> bit x i) \<Longrightarrow> (crc_round ^^ n) x = drop_bit n x"
proof (induction n arbitrary: x)
  case (Suc n)
  have "crc_round x = drop_bit 1 x" using Suc.prems [of 0] by (simp add: crc_round_alt)
  moreover have "(crc_round ^^ n) (drop_bit 1 x) = drop_bit n (drop_bit 1 x)"
    by (rule Suc.IH) (use Suc.prems in \<open>simp add: bit_simps\<close>)
  ultimately show ?case by (simp add: funpow_swap1 ac_simps)
qed simp

lemma and_ff: "x AND 0xff = take_bit 8 x" for x :: u32
proof -
  have "(0xff :: u32) = mask 8" by (simp add: mask_eq_exp_minus_1)
  then show ?thesis by (simp add: take_bit_eq_mask)
qed

lemma crc_bits_push: "take_bit 24 y = y \<Longrightarrow> crc_bits (push_bit 8 y) = y"
proof -
  assume y: "take_bit 24 y = y"
  have "crc_bits (push_bit 8 y) = drop_bit 8 (push_bit 8 y)"
    unfolding crc_bits_def by (rule crc_rounds_low) (simp add: bit_simps)
  also have "\<dots> = take_bit 24 y" by (rule bit_word_eqI) (auto simp: bit_simps)
  finally show ?thesis using y by simp
qed

lemma split_low: "x = push_bit 8 (drop_bit 8 x) XOR (x AND 0xff)" for x :: u32
  unfolding and_ff by (rule bit_word_eqI) (auto simp: bit_simps)

lemma table_nth: "n < 256 \<Longrightarrow> CRC32_TABLE ! n = crc_bits (of_nat n)"
  by (simp add: CRC32_TABLE_def crc_bits_def)

lemma low_byte: "unat (x AND 0xff) < 256" for x :: u32
proof -
  have "unat (take_bit 8 x) = take_bit 8 (unat x)" by (simp add: unsigned_take_bit_eq)
  also have "\<dots> < 2 ^ 8" by (rule take_bit_nat_less_exp)
  finally show ?thesis unfolding and_ff by simp
qed

lemma table_low: "CRC32_TABLE ! unat (x AND 0xff) = crc_bits (x AND 0xff)"
  using table_nth [OF low_byte, of x] by simp

lemma crc_bits_table: "crc_bits x = drop_bit 8 x XOR CRC32_TABLE ! unat (x AND 0xff)"
proof -
  have "take_bit 24 (drop_bit 8 x) = drop_bit 8 x"
    by (rule bit_word_eqI) (auto simp: bit_simps dest: bit_imp_le_length)
  then show ?thesis
    using crc_bits_xor [of "push_bit 8 (drop_bit 8 x)" "x AND 0xff"] split_low [of x]
      crc_bits_push [of "drop_bit 8 x"]
    by (simp add: table_low)
qed

section \<open>The slices\<close>

lemma length_table [simp]: "length CRC32_TABLE = 256"
  by (simp add: CRC32_TABLE_def)

lemma crc_bits_pow_xor: "(crc_bits ^^ n) (a XOR b) = (crc_bits ^^ n) a XOR (crc_bits ^^ n) b"
  by (induction n) (simp_all add: crc_bits_xor)

lemma crc_slices_nth:
  "k < m \<Longrightarrow> crc_slices m prev ! k = map (crc_bits ^^ Suc k) prev"
proof (induction m prev arbitrary: k rule: crc_slices.induct)
  case (2 m prev)
  have step: "(\<lambda>p. drop_bit 8 p XOR CRC32_TABLE ! unat (p AND 0xff)) = crc_bits"
    by (simp add: fun_eq_iff crc_bits_table)
  show ?case
  proof (cases k)
    case (Suc j)
    with 2 show ?thesis
      by (auto simp: Let_def step comp_def funpow_swap1)
  qed (simp add: Let_def step)
qed simp

lemma slice8_bits: "k < 8 \<Longrightarrow> slice8 k x = (crc_bits ^^ Suc k) (x AND 0xff)"
  by (cases k) (simp_all add: CRC32_SLICE8_def crc_slices_nth low_byte table_low funpow_swap1)

lemma crc_bits_pow_push:
  assumes "take_bit 24 y = y"
  shows "(crc_bits ^^ Suc n) (push_bit 8 y) = (crc_bits ^^ n) y"
  unfolding funpow_Suc_right by (simp add: crc_bits_push assms)

lemma crc_bits_pow_bytes:
  assumes "take_bit 8 y = y"
  shows "(crc_bits ^^ Suc n) (push_bit 8 y) = (crc_bits ^^ n) y"
    and "(crc_bits ^^ Suc (Suc n)) (push_bit 16 y) = (crc_bits ^^ n) y"
    and "(crc_bits ^^ Suc (Suc (Suc n))) (push_bit 24 y) = (crc_bits ^^ n) y"
proof -
  have small: "take_bit 24 (push_bit j y) = push_bit j y" if "j \<le> 16" for j
  proof (rule bit_word_eqI)
    fix i
    have "bit y i \<Longrightarrow> i < 8" for i by (metis assms bit_take_bit_iff)
    then show "bit (take_bit 24 (push_bit j y)) i = bit (push_bit j y) i"
      using that by (fastforce simp: bit_simps)
  qed
  show 1: "(crc_bits ^^ Suc n) (push_bit 8 y) = (crc_bits ^^ n) y" for n
    using crc_bits_pow_push [of y] small [of 0] by simp
  have p: "push_bit 16 y = push_bit 8 (push_bit 8 y)" "push_bit 24 y = push_bit 8 (push_bit 16 y)"
    by simp_all
  show 2: "(crc_bits ^^ Suc (Suc n)) (push_bit 16 y) = (crc_bits ^^ n) y" for n
    unfolding p(1) using crc_bits_pow_push [of "push_bit 8 y" "Suc n"] small [of 8] 1 [of n]
    by simp
  show "(crc_bits ^^ Suc (Suc (Suc n))) (push_bit 24 y) = (crc_bits ^^ n) y"
    unfolding p(2) using crc_bits_pow_push [of "push_bit 16 y" "Suc (Suc n)"] small [of 16] 2 [of n]
    by simp
qed

lemma word_bytes:
  "x = (x AND 0xff) XOR push_bit 8 (drop_bit 8 x AND 0xff) XOR
       push_bit 16 (drop_bit 16 x AND 0xff) XOR push_bit 24 (drop_bit 24 x AND 0xff)"
  for x :: u32
  unfolding and_ff by (rule bit_word_eqI) (auto simp: bit_simps)

lemma le4_xor:
  "le4 a b c d =
     ucast a XOR push_bit 8 (ucast b) XOR push_bit 16 (ucast c) XOR push_bit 24 (ucast d)"
  unfolding le4_def
  by (rule bit_word_eqI) (auto simp: bit_simps dest: bit_imp_le_length)

lemma take_bit_ucast_byte: "take_bit 8 (ucast (b :: byte) :: u32) = ucast b"
  by (rule bit_word_eqI) (auto simp: bit_simps dest: bit_imp_le_length)

lemma take_bit_and_ff: "take_bit 8 (x AND 0xff) = x AND 0xff" for x :: u32
  unfolding and_ff by simp

text \<open>Four table lookups advance a word through \<open>n + 4\<close> byte steps at once.\<close>

lemma crc_word_steps:
  "(crc_bits ^^ (n + 4)) x =
     (crc_bits ^^ (n + 4)) (x AND 0xff) XOR (crc_bits ^^ (n + 3)) (drop_bit 8 x AND 0xff) XOR
     (crc_bits ^^ (n + 2)) (drop_bit 16 x AND 0xff) XOR
     (crc_bits ^^ (n + 1)) (drop_bit 24 x AND 0xff)"
proof -
  have e: "n + 4 = Suc (n + 3)" "n + 4 = Suc (Suc (n + 2))" "n + 4 = Suc (Suc (Suc (n + 1)))"
    by simp_all
  have "(crc_bits ^^ (n + 4)) x =
     (crc_bits ^^ (n + 4)) (x AND 0xff) XOR
     (crc_bits ^^ (n + 4)) (push_bit 8 (drop_bit 8 x AND 0xff)) XOR
     (crc_bits ^^ (n + 4)) (push_bit 16 (drop_bit 16 x AND 0xff)) XOR
     (crc_bits ^^ (n + 4)) (push_bit 24 (drop_bit 24 x AND 0xff))"
    using arg_cong [OF word_bytes [of x], of "crc_bits ^^ (n + 4)"]
    by (simp only: crc_bits_pow_xor)
  moreover have "(crc_bits ^^ (n + 4)) (push_bit 8 (drop_bit 8 x AND 0xff)) =
      (crc_bits ^^ (n + 3)) (drop_bit 8 x AND 0xff)"
    unfolding e(1) by (rule crc_bits_pow_bytes(1)) (rule take_bit_and_ff)
  moreover have "(crc_bits ^^ (n + 4)) (push_bit 16 (drop_bit 16 x AND 0xff)) =
      (crc_bits ^^ (n + 2)) (drop_bit 16 x AND 0xff)"
    unfolding e(2) by (rule crc_bits_pow_bytes(2)) (rule take_bit_and_ff)
  moreover have "(crc_bits ^^ (n + 4)) (push_bit 24 (drop_bit 24 x AND 0xff)) =
      (crc_bits ^^ (n + 1)) (drop_bit 24 x AND 0xff)"
    unfolding e(3) by (rule crc_bits_pow_bytes(3)) (rule take_bit_and_ff)
  ultimately show ?thesis by simp
qed

abbreviation crc_step :: "u32 \<Rightarrow> byte \<Rightarrow> u32" where
  "crc_step crc b \<equiv> crc_bits (crc XOR ucast b)"

text \<open>Feeding four bytes one by one is feeding their little-endian word at once.\<close>

lemma crc_four_steps:
  "crc_step (crc_step (crc_step (crc_step crc a) b) c) d = (crc_bits ^^ 4) (le4 a b c d XOR crc)"
proof -
  let ?T = "\<lambda>n. crc_bits ^^ n"
  have "?T 4 (push_bit 8 (ucast b)) = ?T 3 (ucast b)"
    using crc_bits_pow_bytes(1) [OF take_bit_ucast_byte, of 3 b] by (simp add: numeral_eq_Suc)
  moreover have "?T 4 (push_bit 16 (ucast c)) = ?T 2 (ucast c)"
    using crc_bits_pow_bytes(2) [OF take_bit_ucast_byte, of 2 c] by (simp add: numeral_eq_Suc)
  moreover have "?T 4 (push_bit 24 (ucast d)) = ?T 1 (ucast d)"
    using crc_bits_pow_bytes(3) [OF take_bit_ucast_byte, of 1 d] by (simp add: numeral_eq_Suc)
  ultimately have "?T 4 (le4 a b c d XOR crc) =
      ?T 4 (ucast a) XOR ?T 3 (ucast b) XOR ?T 2 (ucast c) XOR ?T 1 (ucast d) XOR ?T 4 crc"
    unfolding le4_xor crc_bits_pow_xor by (simp add: ac_simps)
  also have "\<dots> = crc_step (crc_step (crc_step (crc_step crc a) b) c) d"
    by (simp add: crc_bits_xor numeral_eq_Suc ac_simps)
  finally show ?thesis by simp
qed

lemma crc_tail_steps: "crc_tail crc bs = foldl crc_step crc bs"
proof (induction bs arbitrary: crc)
  case (Cons b bs)
  have "drop_bit 8 (ucast b :: u32) = 0"
    by (rule bit_word_eqI) (auto simp: bit_simps dest: bit_imp_le_length)
  then have "drop_bit 8 crc XOR CRC32_TABLE ! unat ((crc XOR ucast b) AND 0xff) = crc_step crc b"
    by (simp add: crc_bits_table drop_bit_xor)
  with Cons show ?case by simp
qed simp

lemma crc_block:
  "slice8 7 lo XOR slice8 6 (drop_bit 8 lo) XOR slice8 5 (drop_bit 16 lo) XOR
   slice8 4 (drop_bit 24 lo) XOR slice8 3 hi XOR slice8 2 (drop_bit 8 hi) XOR
   slice8 1 (drop_bit 16 hi) XOR slice8 0 (drop_bit 24 hi) =
   (crc_bits ^^ 8) lo XOR (crc_bits ^^ 4) hi"
  using crc_word_steps [of 4 lo] crc_word_steps [of 0 hi]
  by (simp only: slice8_bits ac_simps; simp add: slice8_bits ac_simps)

lemma crc_loop_steps: "crc_loop crc bs = foldl crc_step crc bs"
proof (induction crc bs rule: crc_loop.induct)
  case (1 crc c0 c1 c2 c3 c4 c5 c6 c7 rest)
  let ?lo = "le4 c0 c1 c2 c3 XOR crc" and ?hi = "le4 c4 c5 c6 c7"
  have "foldl crc_step crc [c0, c1, c2, c3, c4, c5, c6, c7] = (crc_bits ^^ 4) (?hi XOR (crc_bits ^^ 4) ?lo)"
    by (simp only: foldl.simps crc_four_steps)
  also have "\<dots> = (crc_bits ^^ 8) ?lo XOR (crc_bits ^^ 4) ?hi"
    unfolding crc_bits_pow_xor funpow_add [of 4 4, simplified] comp_apply by (simp add: ac_simps)
  finally have "foldl crc_step crc (c0 # c1 # c2 # c3 # c4 # c5 # c6 # c7 # rest) =
      foldl crc_step ((crc_bits ^^ 8) ?lo XOR (crc_bits ^^ 4) ?hi) rest"
    by simp
  with 1 show ?case by (simp only: crc_loop.simps(1) Let_def crc_block)
qed (simp_all add: crc_tail_steps)

text \<open>
  C14: the slice-by-eight checksum of a byte string is its bit-at-a-time reflected CRC-32.
\<close>

theorem crc32_reference: "crc32 bs = crc_ref bs"
  by (simp add: crc32_def crc_ref_def crc_loop_steps)

section \<open>Detection of short bursts\<close>

lemma xor_cancel [simp]: "a XOR c = b XOR c \<longleftrightarrow> a = b" for a b c :: u32
proof
  assume "a XOR c = b XOR c"
  then have "(a XOR c) XOR c = (b XOR c) XOR c" by simp
  then show "a = b" by (simp add: xor.assoc)
qed simp

lemma crc_round_inj: "inj crc_round"
proof (rule injI)
  fix x y assume eq: "crc_round x = crc_round y"
  have top: "bit (crc_round z) 31 = bit z 0" for z
    by (simp add: crc_round_alt bit_xor_iff bit_drop_bit_eq bit_numeral_word_iff)
       (auto simp: bit_word.rep_eq dest: bit_imp_le_length)
  have zero: "bit x 0 = bit y 0" using top [of x] top [of y] eq by simp
  then have "drop_bit 1 x = drop_bit 1 y" using eq
    by (auto simp: crc_round_alt split: if_splits)
  then have "bit x (Suc n) = bit y (Suc n)" for n
    by (metis bit_drop_bit_eq comp_apply plus_1_eq_Suc)
  with zero have "bit x n = bit y n" for n by (cases n) auto
  then show "x = y" by (intro bit_word_eqI) simp
qed

lemma crc_bits_inj: "inj crc_bits"
  unfolding crc_bits_def by (rule inj_fn [OF crc_round_inj])

lemma crc_step_inj: "crc_step c b = crc_step d b \<longleftrightarrow> c = d"
  using crc_bits_inj by (simp add: inj_eq)

lemma crc_steps_inj: "foldl crc_step c bs = foldl crc_step d bs \<longleftrightarrow> c = d"
  by (induction bs arbitrary: c d) (simp_all add: crc_step_inj)

lemma le4_inj: "le4 a b c d = le4 a' b' c' d' \<longleftrightarrow> a = a' \<and> b = b' \<and> c = c' \<and> d = d'"
proof -
  have parts: "ucast (le4 a b c d) = a" "ucast (drop_bit 8 (le4 a b c d)) = b"
      "ucast (drop_bit 16 (le4 a b c d)) = c" "ucast (drop_bit 24 (le4 a b c d)) = d" for a b c d
    unfolding le4_def by (rule bit_word_eqI; auto simp: bit_simps dest: bit_imp_le_length)+
  show ?thesis using parts [of a b c d] parts [of a' b' c' d'] by metis
qed

lemma four_bytes: "length bs = 4 \<Longrightarrow> \<exists>a b c d. bs = [a, b, c, d]"
  by (auto simp: numeral_eq_Suc length_Suc_conv)

lemma crc_four_inj:
  assumes "length u = 4" "length v = 4" "foldl crc_step s u = foldl crc_step s v"
  shows "u = v"
proof -
  obtain a b c d a' b' c' d' where u: "u = [a, b, c, d]" and v: "v = [a', b', c', d']"
    using four_bytes assms(1,2) by metis
  have "(crc_bits ^^ 4) (le4 a b c d XOR s) = (crc_bits ^^ 4) (le4 a' b' c' d' XOR s)"
    using assms(3) by (simp add: u v crc_four_steps)
  then have "le4 a b c d XOR s = le4 a' b' c' d' XOR s"
    using inj_fn [OF crc_bits_inj, of 4] by (simp add: inj_eq)
  then show ?thesis by (simp add: le4_inj u v)
qed

lemma crc32_burst:
  assumes "length u = length v" "length u \<le> 4" "u \<noteq> v"
  shows "crc32 (p @ u @ q) \<noteq> crc32 (p @ v @ q)"
proof
  assume "crc32 (p @ u @ q) = crc32 (p @ v @ q)"
  then have "NOT (NOT (foldl crc_step (NOT 0) (p @ u @ q))) = NOT (NOT (foldl crc_step (NOT 0) (p @ v @ q)))"
    by (simp only: crc32_def crc_loop_steps)
  then have eq: "foldl crc_step (foldl crc_step (NOT 0) p) u = foldl crc_step (foldl crc_step (NOT 0) p) v"
    by (simp add: crc_steps_inj)
  let ?z = "replicate (4 - length u) 0"
  have "u @ ?z = v @ ?z"
    by (rule crc_four_inj [of _ _ "foldl crc_step (NOT 0) p"]) (use assms eq in simp_all)
  with assms show False by simp
qed

end
