(* ===== verification/Ordering.thy ===== *)
theory Ordering
  imports Prelude
begin

text \<open>
  \<open>std::cmp::Ordering\<close>: the comparison of a linearly ordered type (\<open>Ord::cmp\<close>), \<open>then\<close> and \<open>reverse\<close>.
\<close>

datatype ordering = Less | Equal | Greater

definition cmp :: "'a::linorder \<Rightarrow> 'a \<Rightarrow> ordering" where
  "cmp a b = (if a < b then Less else if a = b then Equal else Greater)"

definition then_cmp :: "ordering \<Rightarrow> ordering \<Rightarrow> ordering" where
  "then_cmp a b = (if a = Equal then b else a)"

primrec rev_ord :: "ordering \<Rightarrow> ordering" where
  "rev_ord Less = Greater"
| "rev_ord Equal = Equal"
| "rev_ord Greater = Less"

lemma rev_ord_simps [simp]:
  "rev_ord (rev_ord o1) = o1" "rev_ord o1 = Equal \<longleftrightarrow> o1 = Equal"
  "rev_ord o1 = Less \<longleftrightarrow> o1 = Greater" "rev_ord o1 = Greater \<longleftrightarrow> o1 = Less"
  by (cases o1; simp)+

lemma then_cmp_simps [simp]:
  "then_cmp Equal o2 = o2" "then_cmp Less o2 = Less" "then_cmp Greater o2 = Greater"
  "then_cmp o1 Equal = o1"
  by (auto simp: then_cmp_def)

lemma then_cmp_eq_Equal [simp]: "then_cmp o1 o2 = Equal \<longleftrightarrow> o1 = Equal \<and> o2 = Equal"
  by (simp add: then_cmp_def)

lemma rev_then_cmp: "rev_ord (then_cmp o1 o2) = then_cmp (rev_ord o1) (rev_ord o2)"
  by (cases o1) auto

lemma cmp_iff:
  "cmp a b = Less \<longleftrightarrow> a < b" "cmp a b = Equal \<longleftrightarrow> a = b" "cmp a b = Greater \<longleftrightarrow> b < a"
  by (auto simp: cmp_def)

lemma cmp_refl: "cmp a a = Equal"
  by (simp add: cmp_iff)

lemma cmp_flip: "cmp b a = rev_ord (cmp a b)"
  by (auto simp: cmp_def)

end
