(* ===== verification/Sst.thy ===== *)
theory Sst
  imports Crc32 Ordering
begin

text \<open>
  Sorted string tables (\<open>storage/native/sst.rs\<close>): the byte format of a run, its Bloom filter, the
  streaming writer and the reader. A file is its byte string; a \<open>Cursor\<close> over a buffer is the
  unread rest of the buffer. Block reads go straight to the file: the block cache only ever holds
  what such a read returned.
\<close>

unbundle bit_operations_syntax

section \<open>Little-endian integers and cursors\<close>

definition put_u32_le :: "u32 \<Rightarrow> bytes" where
  "put_u32_le v = rev (be32 v)"

definition put_u64_le :: "u64 \<Rightarrow> bytes" where
  "put_u64_le v = rev (be64 v)"

type_synonym 'a cursor = "bytes \<Rightarrow> ('a \<times> bytes) option"

definition cursor_bytes :: "nat \<Rightarrow> bytes cursor" where
  "cursor_bytes n c = (if n \<le> length c then Some (take n c, drop n c) else None)"

definition cursor_u8 :: "byte cursor" where
  "cursor_u8 c = (case c of [] \<Rightarrow> None | b # r \<Rightarrow> Some (b, r))"

definition cursor_u32 :: "u32 cursor" where
  "cursor_u32 c = (case cursor_bytes 4 c of
      None \<Rightarrow> None
    | Some (x, r) \<Rightarrow> map_option (\<lambda>v. (v, r)) (from_be32 (rev x)))"

definition cursor_u64 :: "u64 cursor" where
  "cursor_u64 c = (case cursor_bytes 8 c of
      None \<Rightarrow> None
    | Some (x, r) \<Rightarrow> map_option (\<lambda>v. (v, r)) (from_be64 (rev x)))"

section \<open>Operations and entries\<close>

datatype op = Put bytes | Del

primrec into_value :: "op \<Rightarrow> bytes option" where
  "into_value (Put v) = Some v"
| "into_value Del = None"

primrec value_len :: "op \<Rightarrow> nat" where
  "value_len (Put v) = length v"
| "value_len Del = 0"

type_synonym MemKey = "byte \<times> bytes \<times> u64 Reverse"
type_synonym entry = "MemKey \<times> op"

record KeyPos =
  kp_table :: byte
  kp_key :: bytes
  kp_seq :: u64

definition KeyPos_cmp :: "KeyPos \<Rightarrow> byte \<Rightarrow> bytes \<Rightarrow> u64 \<Rightarrow> ordering" where
  "KeyPos_cmp p table key seq =
     then_cmp (cmp (kp_table p, kp_key p) (table, key)) (cmp seq (kp_seq p))"

definition encode_key_parts :: "byte \<Rightarrow> bytes \<Rightarrow> u64 \<Rightarrow> bytes" where
  "encode_key_parts table key seq = table # put_u32_le (of_nat (length key)) @ key @ put_u64_le seq"

definition encode_entry :: "byte \<Rightarrow> bytes \<Rightarrow> u64 \<Rightarrow> op \<Rightarrow> bytes" where
  "encode_entry table key seq op = encode_key_parts table key seq @
     (case op of
        Put v \<Rightarrow> 1 # put_u32_le (of_nat (length v)) @ v
      | Del \<Rightarrow> 0 # put_u32_le 0)"

definition encode_index_key :: "KeyPos \<Rightarrow> bytes" where
  "encode_index_key k = encode_key_parts (kp_table k) (kp_key k) (kp_seq k)"

text \<open>\<open>SstEntry::parts\<close>: the fields of a memtable or merge entry.\<close>

definition parts :: "entry \<Rightarrow> byte \<times> bytes \<times> u64 \<times> op" where
  "parts e = (case e of ((t, k, s), op) \<Rightarrow> (t, k, un_reverse s, op))"

record EntryRef =
  e_table :: byte
  e_key :: bytes
  e_seq :: u64
  e_put :: "bytes option"

definition e_op :: "EntryRef \<Rightarrow> op" where
  "e_op e = (case e_put e of Some v \<Rightarrow> Put v | None \<Rightarrow> Del)"

definition decode_entry :: "EntryRef cursor" where
  "decode_entry c =
     Option.bind (cursor_u8 c) (\<lambda>(table, c).
     Option.bind (cursor_u32 c) (\<lambda>(key_len, c).
     Option.bind (cursor_bytes (unat key_len) c) (\<lambda>(key, c).
     Option.bind (cursor_u64 c) (\<lambda>(seq, c).
     Option.bind (cursor_u8 c) (\<lambda>(flag, c).
     Option.bind (cursor_u32 c) (\<lambda>(val_len, c).
     Option.bind (cursor_bytes (unat val_len) c) (\<lambda>(val, c).
       Some (\<lparr>e_table = table, e_key = key, e_seq = seq,
              e_put = (if flag = 1 then Some val else None)\<rparr>, c))))))))"

definition next_entry :: "bytes \<Rightarrow> (EntryRef \<times> bytes) option res" where
  "next_entry c =
     (if c = [] then Inr None
      else case decode_entry c of None \<Rightarrow> Inl Corrupt | Some ec \<Rightarrow> Inr (Some ec))"

section \<open>The Bloom filter\<close>

record Bloom =
  bl_bits :: bytes
  bl_m_bits :: u64
  bl_k :: u32

definition BLOOM_BITS_PER_KEY :: nat where
  "BLOOM_BITS_PER_KEY = 10"

definition BLOOM_HASHES :: u32 where
  "BLOOM_HASHES = 7"

definition Bloom_new :: "nat \<Rightarrow> Bloom" where
  "Bloom_new n =
     (let m_bits = (of_nat (max n 1 * BLOOM_BITS_PER_KEY) + 7) AND NOT 7 in
      \<lparr>bl_bits = replicate (unat (m_bits div 8)) 0, bl_m_bits = m_bits, bl_k = BLOOM_HASHES\<rparr>)"

definition fnv_step :: "u64 \<Rightarrow> byte \<Rightarrow> u64" where
  "fnv_step h b = (h XOR ucast b) * 0x100000001b3"

definition Bloom_hashes :: "byte \<Rightarrow> bytes \<Rightarrow> u64 \<times> u64" where
  "Bloom_hashes table key =
     (let h = foldl fnv_step 0xcbf29ce484222325 (table # key)
      in (h, word_rotl 32 h OR 1))"

text \<open>One probed position: its byte and the mask of its bit; \<open>m_bits = 0\<close> would divide by zero.\<close>

definition bloom_slot :: "u64 \<Rightarrow> u64 \<Rightarrow> nat \<times> byte" where
  "bloom_slot h m = (unat (h mod m div 8), push_bit (unat (h mod m mod 8)) 1)"

fun add_loop :: "nat \<Rightarrow> u64 \<Rightarrow> u64 \<Rightarrow> u64 \<Rightarrow> bytes \<Rightarrow> bytes res" where
  "add_loop 0 h1 h2 m bits = Inr bits"
| "add_loop (Suc n) h1 h2 m bits =
     (if m = 0 then Inl Panic else
      case bloom_slot h1 m of (i, bitm) \<Rightarrow>
        if i < length bits then add_loop n (h1 + h2) h2 m (bits[i := bits ! i OR bitm])
        else Inl Panic)"

definition Bloom_add :: "byte \<Rightarrow> bytes \<Rightarrow> Bloom \<Rightarrow> Bloom res" where
  "Bloom_add table key b =
     (case Bloom_hashes table key of (h1, h2) \<Rightarrow>
        res_bind (add_loop (unat (bl_k b)) h1 h2 (bl_m_bits b) (bl_bits b))
          (\<lambda>bits. Inr (b\<lparr>bl_bits := bits\<rparr>)))"

fun probe_loop :: "nat \<Rightarrow> u64 \<Rightarrow> u64 \<Rightarrow> u64 \<Rightarrow> bytes \<Rightarrow> bool res" where
  "probe_loop 0 h1 h2 m bits = Inr True"
| "probe_loop (Suc n) h1 h2 m bits =
     (case bloom_slot h1 m of (i, bitm) \<Rightarrow>
        if i < length bits
        then if bits ! i AND bitm = 0 then Inr False else probe_loop n (h1 + h2) h2 m bits
        else Inl Panic)"

definition maybe_contains :: "Bloom \<Rightarrow> byte \<Rightarrow> bytes \<Rightarrow> bool res" where
  "maybe_contains b table key =
     (if bl_m_bits b = 0 then Inr True else
      case Bloom_hashes table key of (h1, h2) \<Rightarrow>
        probe_loop (unat (bl_k b)) h1 h2 (bl_m_bits b) (bl_bits b))"

definition Bloom_encode :: "Bloom \<Rightarrow> bytes" where
  "Bloom_encode b = put_u64_le (bl_m_bits b) @ put_u32_le (bl_k b) @ bl_bits b"

definition Bloom_decode :: "bytes \<Rightarrow> Bloom option" where
  "Bloom_decode buf =
     Option.bind (cursor_u64 buf) (\<lambda>(m_bits, c).
     Option.bind (cursor_u32 c) (\<lambda>(k, c).
     Option.bind (cursor_bytes (length c) c) (\<lambda>(bits, c).
       if of_nat (length bits) \<noteq> m_bits div 8 then None
       else Some \<lparr>bl_bits = bits, bl_m_bits = m_bits, bl_k = k\<rparr>)))"

section \<open>Writing a run\<close>

definition MAGIC_V1 :: u32 where "MAGIC_V1 = 0x53535244"

definition MAGIC_V2 :: u32 where "MAGIC_V2 = 0x32535244"

definition BLOCK_CRC_LEN :: nat where "BLOCK_CRC_LEN = 4"

definition FOOTER_LEN :: nat where "FOOTER_LEN = 56"

definition BLOCK_TARGET :: nat where "BLOCK_TARGET = 16 * 1024"

text \<open>The sealed block and its on-disk length.\<close>

definition seal_block :: "bytes \<Rightarrow> (u32 \<times> bytes) res" where
  "seal_block block =
     (let sealed = block @ put_u32_le (crc32 block) in
      if length sealed < 2 ^ 32 then Inr (of_nat (length sealed), sealed) else Inl InvalidArgument)"

record writer =
  w_file :: bytes
  w_index :: "(KeyPos \<times> u64 \<times> u32) list"
  w_cur :: "(KeyPos \<times> bytes) option"
  w_offset :: u64
  w_count :: u64
  w_bloom :: Bloom

definition flush_block :: "writer \<Rightarrow> writer res" where
  "flush_block w =
     (case w_cur w of
        None \<Rightarrow> Inr w
      | Some (first, block) \<Rightarrow>
          res_bind (seal_block block) (\<lambda>(len, sealed).
            Inr (w\<lparr>w_cur := None, w_file := w_file w @ sealed,
                   w_index := w_index w @ [(first, w_offset w, len)],
                   w_offset := w_offset w + ucast len\<rparr>)))"

definition write_entry :: "entry \<Rightarrow> writer \<Rightarrow> writer res" where
  "write_entry e w =
     (case parts e of (table, key, seq, op) \<Rightarrow>
      let (first, block) = (case w_cur w of
             Some cur \<Rightarrow> cur
           | None \<Rightarrow> (\<lparr>kp_table = table, kp_key = key, kp_seq = seq\<rparr>, []));
          block = block @ encode_entry table key seq op in
      res_bind (Bloom_add table key (w_bloom w)) (\<lambda>bloom.
        let w = w\<lparr>w_cur := Some (first, block), w_bloom := bloom, w_count := w_count w + 1\<rparr> in
        if length block \<ge> BLOCK_TARGET then flush_block w else Inr w))"

fun write_entries :: "entry res list \<Rightarrow> writer \<Rightarrow> writer res" where
  "write_entries [] w = Inr w"
| "write_entries (e # es) w =
     res_bind e (\<lambda>e. res_bind (write_entry e w) (write_entries es))"

definition encode_index :: "(KeyPos \<times> u64 \<times> u32) list \<Rightarrow> bytes" where
  "encode_index index =
     concat (map (\<lambda>(first, off, len). encode_index_key first @ put_u64_le off @ put_u32_le len) index)"

definition encode_footer :: "u64 \<Rightarrow> u64 \<Rightarrow> u64 \<Rightarrow> u64 \<Rightarrow> u64 \<Rightarrow> u64 \<Rightarrow> bytes" where
  "encode_footer index_offset index_len bloom_offset bloom_len count max_seq =
     (let footer = put_u64_le index_offset @ put_u64_le index_len @ put_u64_le bloom_offset @
            put_u64_le bloom_len @ put_u64_le count @ put_u64_le max_seq @ put_u32_le MAGIC_V2
      in footer @ put_u32_le (crc32 footer))"

text \<open>
  The content of the file that \<open>write_sorted\<close> renames into place, or the error that aborts it. A file
  cannot grow past the signed 64-bit offsets of the operating system: \<open>write_all\<close> fails there.
\<close>

definition write_all :: "bytes \<Rightarrow> bytes res" where
  "write_all data = (if length data < 2 ^ 63 then Inr data else Inl Io)"

definition write_sorted :: "entry res list \<Rightarrow> nat \<Rightarrow> u64 \<Rightarrow> bytes res" where
  "write_sorted entries count_hint max_seq =
     res_bind (write_entries entries
       \<lparr>w_file = [], w_index = [], w_cur = None, w_offset = 0, w_count = 0,
        w_bloom = Bloom_new count_hint\<rparr>) (\<lambda>w.
     res_bind (flush_block w) (\<lambda>w.
     res_bind (seal_block (encode_index (w_index w))) (\<lambda>(_, index_bytes).
     res_bind (seal_block (Bloom_encode (w_bloom w))) (\<lambda>(_, bloom_bytes).
       let index_offset = w_offset w;
           bloom_offset = index_offset + of_nat (length index_bytes)
       in write_all (w_file w @ index_bytes @ bloom_bytes @
            encode_footer index_offset (of_nat (length index_bytes)) bloom_offset
              (of_nat (length bloom_bytes)) (w_count w) max_seq)))))"

definition sst_write :: "(MemKey, op) btree \<Rightarrow> u64 \<Rightarrow> bytes res" where
  "sst_write entries max_seq = write_sorted (map Inr entries) (length entries) max_seq"

section \<open>Opening a run\<close>

datatype Version = V1 | V2

record BlockRef =
  br_first :: KeyPos
  br_offset :: u64
  br_len :: u32

text \<open>\<open>path\<close> is the number of the file \<open>sst-NNNNNN\<close>.\<close>

record Sst =
  s_file :: bytes
  s_version :: Version
  s_index :: "BlockRef list"
  s_bloom :: Bloom
  s_max_seq :: u64
  s_count :: u64
  s_path :: u64

definition read_at :: "bytes \<Rightarrow> nat \<Rightarrow> nat \<Rightarrow> bytes option" where
  "read_at file offset n =
     (if n = 0 then Some []
      else if offset + n \<le> length file then Some (take n (drop offset file)) else None)"

definition read_block_at :: "bytes \<Rightarrow> Version \<Rightarrow> u64 \<Rightarrow> nat \<Rightarrow> bytes res" where
  "read_block_at file version offset len =
     res_bind (ok_or Corrupt (read_at file (unat offset) len)) (\<lambda>buf.
     case version of
       V1 \<Rightarrow> Inr buf
     | V2 \<Rightarrow>
         if length buf < BLOCK_CRC_LEN then Inl Corrupt else
         let payload_len = length buf - BLOCK_CRC_LEN in
         res_bind (ok_or Corrupt (from_be32 (rev (drop payload_len buf)))) (\<lambda>stored.
           if crc32 (take payload_len buf) \<noteq> stored then Inl Corrupt
           else Inr (take payload_len buf)))"

definition checked_len :: "u64 \<Rightarrow> u64 \<Rightarrow> u64 \<Rightarrow> nat res" where
  "checked_len offset len file_len =
     (if unat offset + unat len < 2 ^ 64 \<and> offset + len \<le> file_len then Inr (unat len)
      else Inl Corrupt)"

definition decode_index_entry :: "BlockRef cursor" where
  "decode_index_entry c =
     Option.bind (cursor_u8 c) (\<lambda>(table, c).
     Option.bind (cursor_u32 c) (\<lambda>(key_len, c).
     Option.bind (cursor_bytes (unat key_len) c) (\<lambda>(key, c).
     Option.bind (cursor_u64 c) (\<lambda>(seq, c).
     Option.bind (cursor_u64 c) (\<lambda>(offset, c).
     Option.bind (cursor_u32 c) (\<lambda>(len, c).
       Some (\<lparr>br_first = \<lparr>kp_table = table, kp_key = key, kp_seq = seq\<rparr>,
              br_offset = offset, br_len = len\<rparr>, c)))))))"

lemma cursor_u8_length: "cursor_u8 c = Some (x, r) \<Longrightarrow> length r < length c"
  by (auto simp: cursor_u8_def split: list.splits)

lemma cursor_bytes_length: "cursor_bytes n c = Some (x, r) \<Longrightarrow> length r \<le> length c"
  by (auto simp: cursor_bytes_def split: if_splits)

lemma cursor_u32_length: "cursor_u32 c = Some (x, r) \<Longrightarrow> length r \<le> length c"
  by (auto simp: cursor_u32_def cursor_bytes_length split: option.splits)

lemma cursor_u64_length: "cursor_u64 c = Some (x, r) \<Longrightarrow> length r \<le> length c"
  by (auto simp: cursor_u64_def cursor_bytes_length split: option.splits)

lemmas cursor_length = cursor_u8_length cursor_bytes_length cursor_u32_length cursor_u64_length

lemma decode_entry_length: "decode_entry c = Some (x, r) \<Longrightarrow> length r < length c"
  unfolding decode_entry_def
  by (clarsimp simp: bind_eq_Some_conv) (drule cursor_length | linarith)+

lemma decode_index_entry_length: "decode_index_entry c = Some (x, r) \<Longrightarrow> length r < length c"
  unfolding decode_index_entry_def
  by (clarsimp simp: bind_eq_Some_conv) (drule cursor_length | linarith)+

lemma next_entry_length: "next_entry c = Inr (Some (x, r)) \<Longrightarrow> length r < length c"
  by (auto simp: next_entry_def decode_entry_length split: if_splits option.splits)

function decode_index :: "u64 \<Rightarrow> bytes \<Rightarrow> BlockRef list res" where
  "decode_index index_offset c =
     (if c = [] then Inr [] else
      case decode_index_entry c of
        None \<Rightarrow> Inl Corrupt
      | Some (b, c) \<Rightarrow>
          res_bind (checked_len (br_offset b) (ucast (br_len b)) index_offset) (\<lambda>_.
          res_bind (decode_index index_offset c) (\<lambda>bs. Inr (b # bs))))"
  by pat_completeness auto
termination
  by (relation "measure (\<lambda>(_, c). length c)") (auto simp: decode_index_entry_length)

text \<open>The footer's six integers and the version its magic names, once its checksum holds.\<close>

definition parse_footer :: "bytes \<Rightarrow> (u64 \<times> u64 \<times> u64 \<times> u64 \<times> u64 \<times> u64 \<times> Version) res" where
  "parse_footer footer =
     res_bind (ok_or Corrupt (cursor_u64 footer)) (\<lambda>(index_offset, c).
     res_bind (ok_or Corrupt (cursor_u64 c)) (\<lambda>(index_len, c).
     res_bind (ok_or Corrupt (cursor_u64 c)) (\<lambda>(bloom_offset, c).
     res_bind (ok_or Corrupt (cursor_u64 c)) (\<lambda>(bloom_len, c).
     res_bind (ok_or Corrupt (cursor_u64 c)) (\<lambda>(count, c).
     res_bind (ok_or Corrupt (cursor_u64 c)) (\<lambda>(max_seq, c).
     res_bind (ok_or Corrupt (cursor_u32 c)) (\<lambda>(magic, c).
     res_bind (ok_or Corrupt (cursor_u32 c)) (\<lambda>(crc, c).
     res_bind (if magic = MAGIC_V1 then Inr V1 else if magic = MAGIC_V2 then Inr V2
               else Inl Corrupt) (\<lambda>version.
     if crc32 (take (FOOTER_LEN - 4) footer) \<noteq> crc then Inl Corrupt
     else Inr (index_offset, index_len, bloom_offset, bloom_len, count, max_seq, version))))))))))"

definition sst_open :: "u64 \<Rightarrow> bytes \<Rightarrow> Sst res" where
  "sst_open path file =
     (if length file < FOOTER_LEN then Inl Corrupt else
      let file_len = (of_nat (length file) :: u64);
          footer = drop (length file - FOOTER_LEN) file in
      res_bind (parse_footer footer)
        (\<lambda>(index_offset, index_len, bloom_offset, bloom_len, count, max_seq, version).
      let data_end = file_len - of_nat FOOTER_LEN in
      res_bind (checked_len bloom_offset bloom_len data_end) (\<lambda>bloom_len.
      res_bind (read_block_at file version bloom_offset bloom_len) (\<lambda>bbuf.
      res_bind (ok_or Corrupt (Bloom_decode bbuf)) (\<lambda>bloom.
      res_bind (checked_len index_offset index_len data_end) (\<lambda>index_len.
      res_bind (read_block_at file version index_offset index_len) (\<lambda>ibuf.
      res_bind (decode_index index_offset ibuf) (\<lambda>index.
        Inr \<lparr>s_file = file, s_version = version, s_index = index, s_bloom = bloom,
             s_max_seq = max_seq, s_count = count, s_path = path\<rparr>))))))))"

definition is_legacy :: "Sst \<Rightarrow> bool" where
  "is_legacy s \<longleftrightarrow> s_version s = V1"

section \<open>Reading a run\<close>

definition read_block :: "Sst \<Rightarrow> BlockRef \<Rightarrow> bytes res" where
  "read_block s b = read_block_at (s_file s) (s_version s) (br_offset b) (unat (br_len b))"

text \<open>\<open>partition_point\<close> counts the leading blocks that satisfy the predicate.\<close>

definition start_block :: "Sst \<Rightarrow> byte \<Rightarrow> bytes \<Rightarrow> nat option" where
  "start_block s table key =
     (if s_index s = [] then None else
      Some (length (takeWhile (\<lambda>b. KeyPos_cmp (br_first b) table key (- 1) \<noteq> Greater) (s_index s)) - 1))"

text \<open>The inner loop of \<open>get\<close>: \<open>Some r\<close> is \<open>return Ok(r)\<close>, \<open>None\<close> the end of the block.\<close>

function get_block :: "byte \<Rightarrow> bytes \<Rightarrow> u64 \<Rightarrow> bytes \<Rightarrow> op option option res" where
  "get_block table key snapshot c =
     (case next_entry c of
        Inl e \<Rightarrow> Inl e
      | Inr None \<Rightarrow> Inr None
      | Inr (Some (e, c)) \<Rightarrow>
          (case cmp (e_table e, e_key e) (table, key) of
             Less \<Rightarrow> get_block table key snapshot c
           | Greater \<Rightarrow> Inr (Some None)
           | Equal \<Rightarrow>
               if e_seq e \<le> snapshot then Inr (Some (Some (e_op e)))
               else get_block table key snapshot c))"
  by pat_completeness auto
termination
  by (relation "measure (\<lambda>(_, _, _, c). length c)") (auto simp: next_entry_length)

fun get_blocks :: "Sst \<Rightarrow> byte \<Rightarrow> bytes \<Rightarrow> u64 \<Rightarrow> BlockRef list \<Rightarrow> op option res" where
  "get_blocks s table key snapshot [] = Inr None"
| "get_blocks s table key snapshot (b # bs) =
     res_bind (read_block s b) (\<lambda>buf.
     res_bind (get_block table key snapshot buf) (\<lambda>r.
       case r of Some found \<Rightarrow> Inr found | None \<Rightarrow> get_blocks s table key snapshot bs))"

definition sst_get :: "Sst \<Rightarrow> byte \<Rightarrow> bytes \<Rightarrow> u64 \<Rightarrow> op option res" where
  "sst_get s table key snapshot =
     res_bind (maybe_contains (s_bloom s) table key) (\<lambda>maybe.
     if \<not> maybe then Inr None else
     case start_block s table key of
       None \<Rightarrow> Inr None
     | Some start \<Rightarrow> get_blocks s table key snapshot (drop start (s_index s)))"

text \<open>
  The inner loop of \<open>range\<close>: the flag says that the sweep is over, \<open>cur\<close> is the key whose newest
  visible version was taken.
\<close>

type_synonym sweep = "bool \<times> bytes option \<times> (bytes, op) btree"

function range_block ::
    "byte \<Rightarrow> bytes \<Rightarrow> bytes option \<Rightarrow> u64 \<Rightarrow> bytes \<Rightarrow> bytes option \<Rightarrow> (bytes, op) btree \<Rightarrow> sweep res" where
  "range_block table start end snapshot c cur out =
     (case next_entry c of
        Inl e \<Rightarrow> Inl e
      | Inr None \<Rightarrow> Inr (False, cur, out)
      | Inr (Some (e, c)) \<Rightarrow>
          if e_table e \<noteq> table then
            (if e_table e > table then Inr (True, cur, out)
             else range_block table start end snapshot c cur out)
          else if e_key e < start then range_block table start end snapshot c cur out
          else if (case end of None \<Rightarrow> False | Some h \<Rightarrow> e_key e \<ge> h) then Inr (True, cur, out)
          else if cur = Some (e_key e) then range_block table start end snapshot c cur out
          else if e_seq e > snapshot then range_block table start end snapshot c cur out
          else range_block table start end snapshot c (Some (e_key e))
                 (bt_insert (e_key e) (e_op e) out))"
  by pat_completeness auto
termination
  by (relation "measure (\<lambda>(_, _, _, _, c, _, _). length c)") (auto simp: next_entry_length)

fun range_blocks ::
    "Sst \<Rightarrow> byte \<Rightarrow> bytes \<Rightarrow> bytes option \<Rightarrow> u64 \<Rightarrow> BlockRef list \<Rightarrow> bytes option \<Rightarrow> (bytes, op) btree
     \<Rightarrow> (bytes, op) btree res" where
  "range_blocks s table start end snapshot [] cur out = Inr out"
| "range_blocks s table start end snapshot (b # bs) cur out =
     res_bind (read_block s b) (\<lambda>buf.
     res_bind (range_block table start end snapshot buf cur out) (\<lambda>(over, cur, out).
       if over then Inr out else range_blocks s table start end snapshot bs cur out))"

definition sst_range ::
    "Sst \<Rightarrow> byte \<Rightarrow> bytes \<Rightarrow> bytes option \<Rightarrow> u64 \<Rightarrow> (bytes, op) btree \<Rightarrow> (bytes, op) btree res" where
  "sst_range s table start end snapshot out =
     (case start_block s table start of
        None \<Rightarrow> Inr out
      | Some i \<Rightarrow> range_blocks s table start end snapshot (drop i (s_index s)) None out)"

text \<open>
  \<open>Entries\<close>: the items a complete sweep of a run yields. An error is the last item.
\<close>

function block_items :: "bytes \<Rightarrow> entry res list" where
  "block_items c =
     (case next_entry c of
        Inl e \<Rightarrow> [Inl e]
      | Inr None \<Rightarrow> []
      | Inr (Some (e, c)) \<Rightarrow>
          Inr ((e_table e, e_key e, Reverse (e_seq e)), e_op e) # block_items c)"
  by pat_completeness auto
termination
  by (relation "measure length") (auto simp: next_entry_length)

fun entries_from :: "Sst \<Rightarrow> BlockRef list \<Rightarrow> entry res list" where
  "entries_from s [] = []"
| "entries_from s (b # bs) =
     (case read_block s b of
        Inl e \<Rightarrow> [Inl e]
      | Inr buf \<Rightarrow>
          (let items = block_items buf in
           if \<exists>i \<in> set items. isl i then items else items @ entries_from s bs))"

definition sst_entries :: "Sst \<Rightarrow> entry res list" where
  "sst_entries s = entries_from s (s_index s)"

declare decode_index.simps [simp del] get_block.simps [simp del] range_block.simps [simp del]
  block_items.simps [simp del]

section \<open>The directory\<close>

text \<open>
  The run files of a directory by their number. Only names \<open>sst-<n>\<close> count, so the LOCK, the WAL and
  half-written \<open>.tmp\<close> files are not part of it.
\<close>

type_synonym run_files = "(u64, bytes) btree"

definition next_number :: "run_files \<Rightarrow> u64" where
  "next_number d = foldl max 0 (map fst d) + 1"

definition sst_list :: "run_files \<Rightarrow> (u64 \<times> bytes) list" where
  "sst_list d = sort_key fst d"

end
