(* ===== verification/Sst_Read.thy ===== *)
theory Sst_Read
  imports Sst
begin

text \<open>
  What a run answers. A run whose blocks decode to the sorted entries \<open>es\<close> (\<open>sst_repr\<close>) returns, for a
  point lookup, the newest version of \<open>es\<close> visible at the snapshot (\<open>visible\<close>), for a range sweep the
  visible version of every key of the range, and for a full sweep \<open>es\<close> itself.
\<close>

section \<open>Versions\<close>

definition user_key :: "entry \<Rightarrow> byte \<times> bytes" where
  "user_key e = (fst (fst e), fst (snd (fst e)))"

definition entry_seq :: "entry \<Rightarrow> u64" where
  "entry_seq e = un_reverse (snd (snd (fst e)))"

definition sees :: "byte \<Rightarrow> bytes \<Rightarrow> u64 \<Rightarrow> entry \<Rightarrow> bool" where
  "sees t k snap e \<longleftrightarrow> user_key e = (t, k) \<and> entry_seq e \<le> snap"

definition visible :: "entry list \<Rightarrow> byte \<Rightarrow> bytes \<Rightarrow> u64 \<Rightarrow> op option" where
  "visible es t k snap = map_option snd (find (sees t k snap) es)"

lemma entry_cases:
  fixes e :: entry
  obtains (entry) t k s op where "e = ((t, k, Reverse s), op)"
  by (metis prod.exhaust_sel Reverse.exhaust_sel)

lemma entry_parts_simps [simp]:
  "user_key ((t, k, s), op) = (t, k)" "entry_seq ((t, k, s), op) = un_reverse s"
  by (simp_all add: user_key_def entry_seq_def)

lemma visible_Nil [simp]: "visible [] t k snap = None"
  by (simp add: visible_def)

lemma visible_Cons [simp]:
  "visible (e # es) t k snap = (if sees t k snap e then Some (snd e) else visible es t k snap)"
  by (simp add: visible_def)

lemma visible_none: "(\<And>e. e \<in> set es \<Longrightarrow> \<not> sees t k snap e) \<Longrightarrow> visible es t k snap = None"
  by (induction es) auto

lemma visible_append:
  "visible (es @ fs) t k snap =
     (case visible es t k snap of None \<Rightarrow> visible fs t k snap | Some op \<Rightarrow> Some op)"
  by (induction es) auto

lemma user_key_mono: "bt_ok (e # es) \<Longrightarrow> f \<in> set es \<Longrightarrow> user_key e \<le> user_key f"
  by (cases e; cases f) (fastforce simp: less_prod_def)

section \<open>Cursors read back what was put\<close>

lemma length_put_u32 [simp]: "length (put_u32_le v) = 4"
  by (simp add: put_u32_le_def)

lemma length_put_u64 [simp]: "length (put_u64_le v) = 8"
  by (simp add: put_u64_le_def)

lemma cursor_bytes_append [simp]: "n = length a \<Longrightarrow> cursor_bytes n (a @ r) = Some (a, r)"
  by (simp add: cursor_bytes_def)

lemma cursor_bytes_all [simp]: "cursor_bytes (length a) a = Some (a, [])"
  by (simp add: cursor_bytes_def)

lemma cursor_bytes_0 [simp]: "cursor_bytes 0 r = Some ([], r)"
  by (simp add: cursor_bytes_def)

lemma cursor_u8_Cons [simp]: "cursor_u8 (b # r) = Some (b, r)"
  by (simp add: cursor_u8_def)

lemma cursor_u32_put [simp]: "cursor_u32 (put_u32_le v @ r) = Some (v, r)"
  by (simp add: cursor_u32_def) (simp add: put_u32_le_def)

lemma cursor_u64_put [simp]: "cursor_u64 (put_u64_le v @ r) = Some (v, r)"
  by (simp add: cursor_u64_def) (simp add: put_u64_le_def)

lemma cursor_u32_put_end [simp]: "cursor_u32 (put_u32_le v) = Some (v, [])"
  using cursor_u32_put [of v "[]"] by simp

lemma unat_of_len [simp]: "n < 2 ^ 32 \<Longrightarrow> unat (of_nat n :: u32) = n"
  by (simp add: unsigned_of_nat take_bit_nat_eq_self)

lemma unat_of_len64 [simp]: "n < 2 ^ 64 \<Longrightarrow> unat (of_nat n :: u64) = n"
  by (simp add: unsigned_of_nat take_bit_nat_eq_self)

definition enc :: "entry \<Rightarrow> bytes" where
  "enc e = (case parts e of (t, k, s, op) \<Rightarrow> encode_entry t k s op)"

definition encs :: "entry list \<Rightarrow> bytes" where
  "encs es = concat (map enc es)"

definition entry_ok :: "entry \<Rightarrow> bool" where
  "entry_ok e \<longleftrightarrow> length (snd (user_key e)) < 2 ^ 32 \<and> value_len (snd e) < 2 ^ 32"

definition entry_ref :: "entry \<Rightarrow> EntryRef" where
  "entry_ref e = \<lparr>e_table = fst (user_key e), e_key = snd (user_key e), e_seq = entry_seq e,
                  e_put = into_value (snd e)\<rparr>"

lemma entry_ref_simps [simp]:
  "e_table (entry_ref e) = fst (user_key e)" "e_key (entry_ref e) = snd (user_key e)"
  "e_seq (entry_ref e) = entry_seq e" "e_op (entry_ref e) = snd e"
  by (cases "snd e"; simp add: entry_ref_def e_op_def)+

lemma encs_simps [simp]: "encs [] = []" "encs (e # es) = enc e @ encs es"
  "encs (es @ fs) = encs es @ encs fs"
  by (simp_all add: encs_def)

lemma decode_enc [simp]: "entry_ok e \<Longrightarrow> decode_entry (enc e @ r) = Some (entry_ref e, r)"
  by (cases e rule: entry_cases; cases "snd e")
     (simp_all add: enc_def parts_def encode_entry_def encode_key_parts_def decode_entry_def
        entry_ok_def entry_ref_def del: One_nat_def)

lemma enc_not_Nil [simp]: "enc e \<noteq> []"
  by (cases e rule: entry_cases) (simp add: enc_def parts_def encode_entry_def encode_key_parts_def)

lemma next_entry_enc [simp]:
  "entry_ok e \<Longrightarrow> next_entry (enc e @ r) = Inr (Some (entry_ref e, r))"
  by (simp add: next_entry_def)

lemma next_entry_Nil [simp]: "next_entry [] = Inr None"
  by (simp add: next_entry_def)

section \<open>The loops over one block\<close>

fun get_list :: "byte \<Rightarrow> bytes \<Rightarrow> u64 \<Rightarrow> entry list \<Rightarrow> op option option" where
  "get_list t k snap [] = None"
| "get_list t k snap (e # es) =
     (case cmp (user_key e) (t, k) of
        Less \<Rightarrow> get_list t k snap es
      | Greater \<Rightarrow> Some None
      | Equal \<Rightarrow> if entry_seq e \<le> snap then Some (Some (snd e)) else get_list t k snap es)"

fun range_list ::
    "byte \<Rightarrow> bytes \<Rightarrow> bytes option \<Rightarrow> u64 \<Rightarrow> entry list \<Rightarrow> bytes option \<Rightarrow> (bytes, op) btree \<Rightarrow> sweep" where
  "range_list t lo hi snap [] cur out = (False, cur, out)"
| "range_list t lo hi snap (e # es) cur out =
     (let k = snd (user_key e) in
      if fst (user_key e) \<noteq> t then
        (if fst (user_key e) > t then (True, cur, out) else range_list t lo hi snap es cur out)
      else if k < lo then range_list t lo hi snap es cur out
      else if (case hi of None \<Rightarrow> False | Some h \<Rightarrow> k \<ge> h) then (True, cur, out)
      else if cur = Some k then range_list t lo hi snap es cur out
      else if entry_seq e > snap then range_list t lo hi snap es cur out
      else range_list t lo hi snap es (Some k) (bt_insert k (snd e) out))"

lemma get_block_list:
  "list_all entry_ok es \<Longrightarrow> get_block t k snap (encs es) = Inr (get_list t k snap es)"
proof (induction es)
  case Nil
  show ?case by (subst get_block.simps) simp
next
  case (Cons e es)
  then show ?case by (subst encs_simps, subst get_block.simps) (simp split: ordering.splits)
qed

lemma range_block_list:
  "list_all entry_ok es \<Longrightarrow>
   range_block t lo hi snap (encs es) cur out = Inr (range_list t lo hi snap es cur out)"
proof (induction es arbitrary: cur out)
  case Nil
  show ?case by (subst range_block.simps) simp
next
  case (Cons e es)
  then show ?case
    by (subst encs_simps, subst range_block.simps, cases hi) (simp_all add: Let_def)
qed

lemma block_items_list: "list_all entry_ok es \<Longrightarrow> block_items (encs es) = map Inr es"
proof (induction es)
  case Nil
  show ?case by (subst block_items.simps) simp
next
  case (Cons e es)
  have "((fst (user_key e), snd (user_key e), Reverse (entry_seq e)), snd e) = e"
    by (cases e rule: entry_cases) simp
  with Cons show ?case by (subst encs_simps, subst block_items.simps) simp
qed

lemma get_list_append:
  "get_list t k snap (es @ fs) =
     (case get_list t k snap es of None \<Rightarrow> get_list t k snap fs | Some r \<Rightarrow> Some r)"
  by (induction es) (simp_all split: ordering.splits)

lemma range_list_append:
  "range_list t lo hi snap (es @ fs) cur out =
     (case range_list t lo hi snap es cur out of (over, cur, out) \<Rightarrow>
        if over then (True, cur, out) else range_list t lo hi snap fs cur out)"
  by (induction es arbitrary: cur out) (simp_all add: Let_def)

section \<open>The loops on sorted entries\<close>

lemma get_list_visible:
  "bt_ok es \<Longrightarrow> Option.bind (get_list t k snap es) id = visible es t k snap"
proof (induction es)
  case (Cons e es)
  have later: "visible es t k snap = None" if "(t, k) < user_key e"
    using that user_key_mono [OF Cons.prems] 
    by (intro visible_none) (metis leD sees_def)
  show ?case
    using Cons later by (cases "user_key e" "(t, k)" rule: linorder_cases) (auto simp: cmp_def sees_def)
qed simp

lemma visible_other: "user_key e \<noteq> (t, k) \<Longrightarrow> visible (e # es) t k snap = visible es t k snap"
  by (simp add: sees_def)

lemma visible_before:
  assumes "bt_ok (e # es)" "(t, k) < user_key e"
  shows "visible (e # es) t k snap = None"
  using assms user_key_mono [OF assms(1)] 
  by (intro visible_none) (metis leD order.irrefl set_ConsD sees_def)

definition overlay :: "bytes \<Rightarrow> bytes option \<Rightarrow> (bytes \<Rightarrow> op option) \<Rightarrow> (bytes \<rightharpoonup> op) \<Rightarrow> bytes \<rightharpoonup> op" where
  "overlay lo hi vis m =
     (\<lambda>k. if in_range lo hi k then case vis k of None \<Rightarrow> m k | Some op \<Rightarrow> Some op else m k)"

lemma range_list_visible:
  assumes "bt_ok es" "bt_ok out"
    and "\<And>k e. cur = Some k \<Longrightarrow> e \<in> set es \<Longrightarrow> fst (user_key e) = t \<Longrightarrow> k \<le> snd (user_key e)"
  shows "bt_ok (snd (snd (range_list t lo hi snap es cur out))) \<and>
    map_of (snd (snd (range_list t lo hi snap es cur out))) =
    overlay lo hi (\<lambda>k. if cur = Some k then None else visible es t k snap) (map_of out)"
  using assms
proof (induction es arbitrary: cur out)
  case Nil
  then show ?case by (simp add: overlay_def fun_eq_iff)
next
  case (Cons e es)
  obtain t' k' where uk: "user_key e = (t', k')" by fastforce
  have ok: "bt_ok es" using Cons.prems(1) by simp
  note IH = Cons.IH [OF ok]
  have cur: "cur = Some k \<Longrightarrow> f \<in> set es \<Longrightarrow> fst (user_key f) = t \<Longrightarrow> k \<le> snd (user_key f)" for k f
    using Cons.prems(3) [of k f] by simp
  have mono: "f \<in> set es \<Longrightarrow> fst (user_key f) = t' \<Longrightarrow> k' \<le> snd (user_key f)" for f
    using user_key_mono [OF Cons.prems(1), of f] uk by (cases "user_key f") auto
  have skip: ?case if "range_list t lo hi snap (e # es) cur out = range_list t lo hi snap es cur out"
    and "\<And>k. in_range lo hi k \<Longrightarrow> cur \<noteq> Some k \<Longrightarrow> \<not> sees t k snap e"
    using IH [OF Cons.prems(2) cur] that by (auto simp: overlay_def fun_eq_iff)
  have stop: ?case if "range_list t lo hi snap (e # es) cur out = (True, cur, out)"
    and "\<And>k. in_range lo hi k \<Longrightarrow> (t, k) < user_key e"
    using that visible_before [OF Cons.prems(1), of t _ snap] Cons.prems(2)
    by (auto simp: overlay_def fun_eq_iff simp del: visible_Cons)
  consider "t' \<noteq> t" "t < t'" | "t' < t" | "t' = t" "k' < lo"
    | "t' = t" "lo \<le> k'" "case hi of None \<Rightarrow> False | Some h \<Rightarrow> h \<le> k'"
    | "t' = t" "in_range lo hi k'" "cur = Some k'"
    | "t' = t" "in_range lo hi k'" "cur \<noteq> Some k'" "snap < entry_seq e"
    | "t' = t" "in_range lo hi k'" "cur \<noteq> Some k'" "entry_seq e \<le> snap"
    by (cases hi; simp add: in_range_def) (metis linorder_neqE not_less)+
  then show ?case
  proof cases
    case 7
    let ?out = "bt_insert k' (snd e) out"
    have step: "range_list t lo hi snap (e # es) cur out = range_list t lo hi snap es (Some k') ?out"
      using 7 uk by (auto simp: Let_def in_range_def split: option.splits)
    have gone: "visible es t k snap = None" if "cur = Some k" for k
    proof (rule visible_none)
      fix f assume f: "f \<in> set es"
      have "k < k'" using Cons.prems(3) [OF that, of e] uk 7 that by auto
      with mono [OF f] show "\<not> sees t k snap f" using 7 by (auto simp: sees_def)
    qed
    have "sees t k snap e \<longleftrightarrow> k = k'" for k using 7 uk by (auto simp: sees_def)
    moreover have "bt_ok (snd (snd (range_list t lo hi snap es (Some k') ?out))) \<and>
        map_of (snd (snd (range_list t lo hi snap es (Some k') ?out))) =
        overlay lo hi (\<lambda>k. if Some k' = Some k then None else visible es t k snap) (map_of ?out)"
      by (rule IH) (use mono 7 Cons.prems(2) in auto)
    ultimately show ?thesis using 7 gone unfolding step
      by (auto simp: overlay_def fun_eq_iff split: option.splits)
  qed (rule skip stop; use uk in \<open>auto simp: Let_def in_range_def sees_def split: option.splits\<close>)+
qed

section \<open>A run and its entries\<close>

definition key_pos :: "entry \<Rightarrow> KeyPos" where
  "key_pos e = \<lparr>kp_table = fst (user_key e), kp_key = snd (user_key e), kp_seq = entry_seq e\<rparr>"

definition block_repr :: "Sst \<Rightarrow> entry list \<Rightarrow> BlockRef \<Rightarrow> bool" where
  "block_repr s b r \<longleftrightarrow> b \<noteq> [] \<and> list_all entry_ok b \<and> br_first r = key_pos (hd b) \<and>
     read_block s r = Inr (encs b)"

definition bloom_covers :: "Bloom \<Rightarrow> entry list \<Rightarrow> bool" where
  "bloom_covers b es \<longleftrightarrow>
     (\<forall>t k. \<exists>r. maybe_contains b t k = Inr r) \<and>
     (\<forall>e \<in> set es. maybe_contains b (fst (user_key e)) (snd (user_key e)) = Inr True)"

definition sst_repr :: "Sst \<Rightarrow> entry list \<Rightarrow> bool" where
  "sst_repr s es \<longleftrightarrow> bt_ok es \<and> bloom_covers (s_bloom s) es \<and>
     (\<exists>bs. concat bs = es \<and> list_all2 (block_repr s) bs (s_index s))"

lemma get_blocks_list:
  "list_all2 (block_repr s) bs rs \<Longrightarrow>
   get_blocks s t k snap rs = Inr (Option.bind (get_list t k snap (concat bs)) id)"
  by (induction bs rs rule: list_all2_induct)
     (auto simp: block_repr_def get_block_list get_list_append split: option.splits)

lemma range_blocks_list:
  "list_all2 (block_repr s) bs rs \<Longrightarrow>
   range_blocks s t lo hi snap rs cur out =
     Inr (snd (snd (range_list t lo hi snap (concat bs) cur out)))"
  by (induction bs rs arbitrary: cur out rule: list_all2_induct)
     (auto simp: block_repr_def range_block_list range_list_append split: prod.splits)

lemma entries_from_list:
  "list_all2 (block_repr s) bs rs \<Longrightarrow> entries_from s rs = map Inr (concat bs)"
  by (induction bs rs rule: list_all2_induct)
     (auto simp: block_repr_def block_items_list Let_def)

text \<open>The binary search skips only blocks that end before the key.\<close>

lemma key_pos_cmp:
  "KeyPos_cmp (key_pos e) t k (- 1) \<noteq> Greater \<longleftrightarrow> fst e \<le> (t, k, Reverse (- 1))"
proof (cases e rule: entry_cases)
  case (entry t' k' s op)
  have "- 1 \<le> s \<longleftrightarrow> s = - 1" by (metis word_n1_ge word_order.extremum_uniqueI)
  then show ?thesis
    by (auto simp: entry KeyPos_cmp_def key_pos_def then_cmp_def cmp_def less_eq_prod_def
          word_order.not_eq_extremum)
qed

lemma entry_below:
  "fst f < (t, k, Reverse (- 1)) \<Longrightarrow> user_key f < (t, k)"
  by (cases f rule: entry_cases) auto

lemma skipped_blocks:
  assumes "bt_ok (concat bs)" "list_all2 (block_repr s) bs rs"
    and n: "n = length (takeWhile (\<lambda>r. KeyPos_cmp (br_first r) t k (- 1) \<noteq> Greater) rs) - 1"
    and e: "e \<in> set (concat (take n bs))"
  shows "user_key e < (t, k)"
proof -
  let ?P = "\<lambda>r. KeyPos_cmp (br_first r) t k (- 1) \<noteq> Greater"
  have len: "length bs = length rs" using assms(2) by (rule list_all2_lengthD)
  have "n \<noteq> 0" using e by (cases n) auto
  then have less: "n < length (takeWhile ?P rs)" using n by linarith
  then have nl: "n < length rs" using length_takeWhile_le [of ?P rs] by linarith
  have "takeWhile ?P rs ! n \<in> set (takeWhile ?P rs)" using less by (rule nth_mem)
  then have "?P (rs ! n)" using takeWhile_nth [OF less] by (auto dest: set_takeWhileD)
  moreover have r: "block_repr s (bs ! n) (rs ! n)" using assms(2) nl len by (simp add: list_all2_nthD)
  ultimately have first: "fst (hd (bs ! n)) \<le> (t, k, Reverse (- 1))"
    by (simp add: block_repr_def key_pos_cmp)
  have "concat bs = concat (take n bs) @ concat (drop n bs)"
    by (metis append_take_drop_id concat_append)
  moreover have "hd (bs ! n) \<in> set (concat (drop n bs))"
    using nl len r by (auto simp: block_repr_def Cons_nth_drop_Suc [symmetric])
  ultimately have "fst e < fst (hd (bs ! n))"
    using assms(1) e by (auto simp: sorted_wrt_append)
  then show ?thesis using first by (intro entry_below) (rule less_le_trans)
qed

lemma get_list_skip:
  "(\<And>e. e \<in> set es \<Longrightarrow> user_key e < (t, k)) \<Longrightarrow> get_list t k snap (es @ fs) = get_list t k snap fs"
  by (induction es) (auto simp: cmp_def)

lemma range_list_skip:
  "(\<And>e. e \<in> set es \<Longrightarrow> user_key e < (t, lo)) \<Longrightarrow>
   range_list t lo hi snap (es @ fs) cur out = range_list t lo hi snap fs cur out"
proof (induction es)
  case (Cons e es)
  have "user_key e < (t, lo)" using Cons.prems by simp
  then have "fst (user_key e) < t \<or> fst (user_key e) = t \<and> snd (user_key e) < lo"
    by (cases "user_key e") auto
  then show ?case using Cons by (auto simp: Let_def)
qed simp

lemma sst_get_visible:
  assumes "sst_repr s es"
  shows "sst_get s t k snap = Inr (visible es t k snap)"
proof -
  obtain bs where bs: "concat bs = es" "list_all2 (block_repr s) bs (s_index s)"
    and ok: "bt_ok es" and bloom: "bloom_covers (s_bloom s) es"
    using assms by (auto simp: sst_repr_def)
  obtain m where m: "maybe_contains (s_bloom s) t k = Inr m"
    using bloom unfolding bloom_covers_def by blast
  have absent: "visible es t k snap = None" if "\<not> m"
    using bloom m that by (intro visible_none) (force simp: bloom_covers_def sees_def)
  define n where "n = length (takeWhile (\<lambda>r. KeyPos_cmp (br_first r) t k (- 1) \<noteq> Greater) (s_index s)) - 1"
  have "list_all2 (block_repr s) (drop n bs) (drop n (s_index s))" using bs(2) by (rule list_all2_dropI)
  then have "get_blocks s t k snap (drop n (s_index s)) =
      Inr (Option.bind (get_list t k snap (concat (drop n bs))) id)"
    by (rule get_blocks_list)
  also have "get_list t k snap (concat (drop n bs)) = get_list t k snap (concat (take n bs) @ concat (drop n bs))"
    using skipped_blocks [OF _ bs(2) n_def] ok bs(1) by (intro get_list_skip [symmetric]) simp
  also have "concat (take n bs) @ concat (drop n bs) = es"
    using bs(1) by (metis append_take_drop_id concat_append)
  finally have found: "get_blocks s t k snap (drop n (s_index s)) = Inr (visible es t k snap)"
    by (simp only: get_list_visible [OF ok])
  show ?thesis
    using found absent m bs by (auto simp: sst_get_def start_block_def n_def)
qed

lemma sst_range_visible:
  assumes "sst_repr s es" "bt_ok out"
  shows "\<exists>out'. sst_range s t lo hi snap out = Inr out' \<and> bt_ok out' \<and>
           map_of out' = overlay lo hi (\<lambda>k. visible es t k snap) (map_of out)"
proof -
  obtain bs where bs: "concat bs = es" "list_all2 (block_repr s) bs (s_index s)" and ok: "bt_ok es"
    using assms by (auto simp: sst_repr_def)
  define n where "n = length (takeWhile (\<lambda>r. KeyPos_cmp (br_first r) t lo (- 1) \<noteq> Greater) (s_index s)) - 1"
  let ?run = "range_list t lo hi snap es None out"
  have "list_all2 (block_repr s) (drop n bs) (drop n (s_index s))" using bs(2) by (rule list_all2_dropI)
  then have "range_blocks s t lo hi snap (drop n (s_index s)) None out =
      Inr (snd (snd (range_list t lo hi snap (concat (drop n bs)) None out)))"
    by (rule range_blocks_list)
  also have "range_list t lo hi snap (concat (drop n bs)) None out =
      range_list t lo hi snap (concat (take n bs) @ concat (drop n bs)) None out"
    using skipped_blocks [OF _ bs(2) n_def] ok bs(1) by (intro range_list_skip [symmetric]) simp
  also have "concat (take n bs) @ concat (drop n bs) = es"
    using bs(1) by (metis append_take_drop_id concat_append)
  finally have "range_blocks s t lo hi snap (drop n (s_index s)) None out = Inr (snd (snd ?run))" .
  moreover have "es = []" if "s_index s = []" using bs that by simp
  ultimately have "sst_range s t lo hi snap out = Inr (snd (snd ?run))"
    by (auto simp: sst_range_def start_block_def n_def)
  then show ?thesis
    using range_list_visible [OF ok assms(2), of None t lo hi snap] by simp
qed

lemma sst_entries_repr: "sst_repr s es \<Longrightarrow> sst_entries s = map Inr es"
  by (auto simp: sst_repr_def sst_entries_def entries_from_list)

end
