(* ===== verification/Sst_Write.thy ===== *)
theory Sst_Write
  imports Sst_Read
begin

text \<open>
  The writer and the reader agree: the file that \<open>write_sorted\<close> produces for sorted entries opens
  as a run that represents exactly these entries, and its Bloom filter has no false negatives.
\<close>

unbundle bit_operations_syntax

section \<open>The Bloom filter\<close>

definition bloom_ok :: "Bloom \<Rightarrow> bool" where
  "bloom_ok b \<longleftrightarrow> 8 dvd unat (bl_m_bits b) \<and> length (bl_bits b) = unat (bl_m_bits b) div 8"

definition bits_sub :: "bytes \<Rightarrow> bytes \<Rightarrow> bool" where
  "bits_sub xs ys \<longleftrightarrow> length xs = length ys \<and> (\<forall>i < length xs. \<forall>j. bit (xs ! i) j \<longrightarrow> bit (ys ! i) j)"

lemma slot_bound:
  assumes "m \<noteq> 0" "8 dvd unat m" "bloom_slot h m = (i, b)"
  shows "i < unat m div 8" "\<exists>j < 8. b = push_bit j 1"
proof -
  have "unat (h mod m) < unat m" using assms(1) by (simp add: unat_mod unat_gt_0)
  then show "i < unat m div 8"
    using assms by (auto simp: bloom_slot_def unat_div elim!: dvdE)
  have "unat (h mod m mod 8) < 8" by (simp add: unat_mod)
  then show "\<exists>j < 8. b = push_bit j 1" using assms(3) by (auto simp: bloom_slot_def)
qed

lemma probe_total:
  assumes "m \<noteq> 0" "8 dvd unat m" "length bits = unat m div 8"
  shows "\<exists>r. probe_loop n h1 h2 m bits = Inr r"
proof (induction n arbitrary: h1)
  case (Suc n)
  show ?case
    using Suc [of "h1 + h2"] slot_bound(1) [OF assms(1,2), of h1] assms(3)
    by (auto split: prod.splits)
qed auto

lemma probe_mono:
  assumes "bits_sub xs ys" "probe_loop n h1 h2 m xs = Inr True"
  shows "probe_loop n h1 h2 m ys = Inr True"
  using assms(2)
proof (induction n arbitrary: h1)
  case (Suc n)
  obtain i j where s: "bloom_slot h1 m = (i, push_bit j 1)" by (simp add: bloom_slot_def)
  with Suc.prems have "i < length xs" "bit (xs ! i) j" "probe_loop n (h1 + h2) h2 m xs = Inr True"
    by (auto simp: bit_iff_and_push_bit_not_eq_0 split: if_splits)
  with Suc.IH assms(1) s show ?case by (auto simp: bits_sub_def bit_iff_and_push_bit_not_eq_0)
qed simp

lemma add_total:
  assumes "m \<noteq> 0" "8 dvd unat m" "length bits = unat m div 8"
  shows "\<exists>bits'. add_loop n h1 h2 m bits = Inr bits' \<and> bits_sub bits bits' \<and>
           probe_loop n h1 h2 m bits' = Inr True"
  using assms(3)
proof (induction n arbitrary: h1 bits)
  case 0
  then show ?case by (simp add: bits_sub_def)
next
  case (Suc n)
  obtain i b where s: "bloom_slot h1 m = (i, b)" by fastforce
  obtain j where i: "i < length bits" and j: "j < 8" "b = push_bit j 1"
    using slot_bound [OF assms(1,2) s] Suc.prems by auto
  let ?bits = "bits[i := bits ! i OR b]"
  obtain bits' where r: "add_loop n (h1 + h2) h2 m ?bits = Inr bits'" "bits_sub ?bits bits'"
      "probe_loop n (h1 + h2) h2 m bits' = Inr True"
    using Suc.IH [of ?bits "h1 + h2"] Suc.prems by auto
  have "bit (?bits ! i) j" using i j by (simp add: bit_simps)
  with r(2) i have "bit (bits' ! i) j" "i < length bits'" by (auto simp: bits_sub_def)
  moreover have "bits_sub bits ?bits"
    using i unfolding bits_sub_def by (simp add: nth_list_update bit_or_iff)
  then have "bits_sub bits bits'" using r(2) by (auto simp: bits_sub_def)
  ultimately show ?case using r s i j assms(1) by (auto simp: bit_iff_and_push_bit_not_eq_0)
qed

lemma Bloom_add_ok:
  assumes "bloom_ok b" "Bloom_add t k b = Inr b'" "bl_k b \<noteq> 0"
  shows "bloom_ok b' \<and> maybe_contains b' t k = Inr True \<and> bl_m_bits b' = bl_m_bits b \<and> bl_k b' = bl_k b \<and>
     (\<forall>t' k'. maybe_contains b t' k' = Inr True \<longrightarrow> maybe_contains b' t' k' = Inr True)"
proof -
  obtain h1 h2 where h: "Bloom_hashes t k = (h1, h2)" by fastforce
  have m: "bl_m_bits b \<noteq> 0"
    using assms(2,3) h by (cases "unat (bl_k b)") (auto simp: Bloom_add_def unat_eq_zero)
  obtain bits' where r: "add_loop (unat (bl_k b)) h1 h2 (bl_m_bits b) (bl_bits b) = Inr bits'"
      "bits_sub (bl_bits b) bits'" "probe_loop (unat (bl_k b)) h1 h2 (bl_m_bits b) bits' = Inr True"
    using add_total [OF m] assms(1) unfolding bloom_ok_def by blast
  have b': "b' = b\<lparr>bl_bits := bits'\<rparr>" using assms(2) h r(1) by (simp add: Bloom_add_def)
  have len: "length bits' = length (bl_bits b)" using r(2) by (simp add: bits_sub_def)
  show ?thesis
    using r h assms(1) len probe_mono [OF r(2)]
    by (auto simp: b' bloom_ok_def maybe_contains_def split: prod.splits)
qed

lemma Bloom_add_total:
  assumes "bloom_ok b" "bl_m_bits b \<noteq> 0"
  shows "\<exists>b'. Bloom_add t k b = Inr b'"
proof -
  obtain h1 h2 where h: "Bloom_hashes t k = (h1, h2)" by fastforce
  obtain bits where "add_loop (unat (bl_k b)) h1 h2 (bl_m_bits b) (bl_bits b) = Inr bits"
    using add_total [OF assms(2)] assms(1) unfolding bloom_ok_def by blast
  then show ?thesis by (simp add: Bloom_add_def h)
qed

lemma bloom_ok_total: "bloom_ok b \<Longrightarrow> \<exists>r. maybe_contains b t k = Inr r"
  using probe_total by (auto simp: maybe_contains_def bloom_ok_def split: prod.splits)

lemma unat_lt64: "unat (x :: u64) < 2 ^ 64"
  using unsigned_less [where ?'a = nat, of x] by simp

lemma of_nat_le64: "a \<le> b \<Longrightarrow> b < 2 ^ 64 \<Longrightarrow> (of_nat a :: u64) \<le> of_nat b"
  by (simp add: word_le_nat_alt)

lemma ucast_of_len: "n < 2 ^ 32 \<Longrightarrow> ucast (of_nat n :: u32) = (of_nat n :: u64)"
  by (intro word_unat_eq_iff [THEN iffD2])
     (simp add: unsigned_ucast_eq unsigned_of_nat take_bit_nat_eq_self)

lemma round_to_byte: "unat (x AND NOT 7) = unat x div 8 * 8" for x :: u64
proof -
  have x: "take_bit 64 (unat x) = unat x"
    using unat_lt64 [of x] by (simp add: take_bit_nat_eq_self)
  have seven: "(7 :: u64) = mask 3" by (simp add: mask_eq_exp_minus_1)
  have "x AND NOT 7 = push_bit 3 (drop_bit 3 x)"
    unfolding seven by (rule bit_word_eqI) (auto simp: bit_simps)
  moreover have "unat (push_bit 3 (drop_bit 3 x)) = take_bit 64 (unat x div 8 * 8)"
    by (subst unsigned_push_bit_eq, subst unsigned_drop_bit_eq)
       (simp add: push_bit_eq_mult drop_bit_eq_div x)
  moreover have "unat x div 8 * 8 < 2 ^ 64" using unat_lt64 [of x] by simp
  ultimately show ?thesis by (simp add: take_bit_nat_eq_self)
qed

lemma Bloom_new_ok: "bloom_ok (Bloom_new n)" "bl_k (Bloom_new n) \<noteq> 0"
proof -
  have "8 dvd unat (x AND NOT 7)" for x :: u64 by (simp only: round_to_byte dvd_triv_right)
  then show "bloom_ok (Bloom_new n)" "bl_k (Bloom_new n) \<noteq> 0"
    by (simp_all add: Bloom_new_def bloom_ok_def Let_def unat_div BLOOM_HASHES_def)
qed

lemma Bloom_new_size:
  assumes "n < 2 ^ 60"
  shows "bl_m_bits (Bloom_new n) \<noteq> 0"
    and "length (bl_bits (Bloom_new n)) = (max n 1 * 10 + 7) div 8"
proof -
  let ?x = "of_nat (max n 1 * 10) + 7 :: u64"
  have "?x = of_nat (max n 1 * 10 + 7)" by simp
  then have x: "unat ?x = max n 1 * 10 + 7"
    using assms by (simp only:) (rule unat_of_len64, simp add: max_def)
  then have m: "unat (?x AND NOT 7) = (max n 1 * 10 + 7) div 8 * 8" by (simp only: round_to_byte)
  then have "?x AND NOT 7 \<noteq> 0" by (auto simp: max_def simp flip: unat_eq_zero)
  with m show "bl_m_bits (Bloom_new n) \<noteq> 0"
      "length (bl_bits (Bloom_new n)) = (max n 1 * 10 + 7) div 8"
    by (simp_all add: Bloom_new_def BLOOM_BITS_PER_KEY_def Let_def unat_div)
qed

lemma Bloom_decode_encode: "bloom_ok b \<Longrightarrow> Bloom_decode (Bloom_encode b) = Some b"
proof -
  assume b: "bloom_ok b"
  have "of_nat (length (bl_bits b)) = bl_m_bits b div 8"
    using b unat_lt64 [of "bl_m_bits b"]
    by (intro word_unat_eq_iff [THEN iffD2], subst unat_of_len64) (simp_all add: bloom_ok_def unat_div)
  then show ?thesis by (simp add: Bloom_decode_def Bloom_encode_def)
qed

section \<open>Sealed blocks\<close>

definition seal :: "bytes \<Rightarrow> bytes" where
  "seal p = p @ put_u32_le (crc32 p)"

lemma length_seal [simp]: "length (seal p) = length p + 4"
  by (simp add: seal_def)

lemma seal_block_eq:
  "seal_block p =
     (if length (seal p) < 2 ^ 32 then Inr (of_nat (length (seal p)), seal p) else Inl InvalidArgument)"
  by (simp add: seal_block_def seal_def Let_def)

lemma read_sealed:
  assumes "length a < 2 ^ 64" "n = length (seal p)"
  shows "read_block_at (a @ seal p @ z) V2 (of_nat (length a)) n = Inr p"
  using assms
  by (simp add: read_block_at_def read_at_def BLOCK_CRC_LEN_def Let_def)
     (simp add: seal_def put_u32_le_def)

section \<open>The writer\<close>

fun layout :: "nat \<Rightarrow> entry list list \<Rightarrow> (KeyPos \<times> u64 \<times> u32) list" where
  "layout off [] = []"
| "layout off (b # bs) =
     (key_pos (hd b), of_nat off, of_nat (length (seal (encs b)))) #
     layout (off + length (seal (encs b))) bs"

definition data_region :: "entry list list \<Rightarrow> bytes" where
  "data_region bs = concat (map (\<lambda>b. seal (encs b)) bs)"

definition block_fits :: "entry list \<Rightarrow> bool" where
  "block_fits b \<longleftrightarrow> b \<noteq> [] \<and> length (seal (encs b)) < 2 ^ 32"

definition writer_inv :: "entry list list \<Rightarrow> entry list \<Rightarrow> writer \<Rightarrow> bool" where
  "writer_inv bs c w \<longleftrightarrow>
     w_file w = data_region bs \<and> w_index w = layout 0 bs \<and>
     w_offset w = of_nat (length (data_region bs)) \<and>
     w_cur w = (if c = [] then None else Some (key_pos (hd c), encs c)) \<and>
     w_count w = of_nat (length (concat bs @ c)) \<and> list_all block_fits bs \<and>
     bloom_ok (w_bloom w) \<and> bl_k (w_bloom w) \<noteq> 0 \<and> bloom_covers (w_bloom w) (concat bs @ c)"

lemma layout_append:
  "layout off (bs @ [b]) = layout off bs @
     [(key_pos (hd b), of_nat (off + length (data_region bs)), of_nat (length (seal (encs b))))]"
  by (induction bs arbitrary: off) (simp_all add: data_region_def ac_simps)

lemma flush_block_inv:
  assumes "writer_inv bs c w" "flush_block w = Inr w'"
  shows "\<exists>bs'. writer_inv bs' [] w' \<and> concat bs' = concat bs @ c \<and> w_bloom w' = w_bloom w"
proof (cases "c = []")
  case True
  then show ?thesis using assms by (auto simp: flush_block_def writer_inv_def)
next
  case False
  then have fits: "length (seal (encs c)) < 2 ^ 32"
    using assms by (auto simp: flush_block_def writer_inv_def seal_block_eq split: if_splits)
  have "ucast (of_nat (length (seal (encs c))) :: u32) = (of_nat (length (seal (encs c))) :: u64)"
    using fits by (rule ucast_of_len)
  then have "writer_inv (bs @ [c]) [] w' \<and> w_bloom w' = w_bloom w"
    using assms False fits
    by (auto simp: flush_block_def writer_inv_def seal_block_eq layout_append data_region_def
          block_fits_def)
  then show ?thesis by (intro exI [of _ "bs @ [c]"]) simp
qed

lemma bloom_covers_add:
  assumes "bloom_ok b" "bl_k b \<noteq> 0" "bloom_covers b es"
    and "Bloom_add (fst (user_key e)) (snd (user_key e)) b = Inr b'"
  shows "bloom_ok b'" "bl_k b' \<noteq> 0" "bloom_covers b' (es @ [e])"
  using Bloom_add_ok [OF assms(1,4,2)] assms(2,3) bloom_ok_total [of b']
  by (auto simp: bloom_covers_def)

lemma parts_entry: "parts e = (fst (user_key e), snd (user_key e), entry_seq e, snd e)"
  by (cases e rule: entry_cases) (simp add: parts_def)

lemma write_entry_inv:
  assumes w: "writer_inv bs c w" and r: "write_entry e w = Inr w'"
  shows "\<exists>bs' c'. writer_inv bs' c' w' \<and> concat bs' @ c' = concat bs @ c @ [e]"
proof -
  obtain bloom where bloom: "Bloom_add (fst (user_key e)) (snd (user_key e)) (w_bloom w) = Inr bloom"
    using r by (auto simp: write_entry_def parts_entry res_bind_eq_Inr split: prod.splits)
  let ?w = "w\<lparr>w_cur := Some (key_pos (hd (c @ [e])), encs (c @ [e])), w_bloom := bloom,
              w_count := w_count w + 1\<rparr>"
  have inv: "writer_inv bs (c @ [e]) ?w"
    using w bloom_covers_add [OF _ _ _ bloom, of "concat bs @ c"] by (auto simp: writer_inv_def)
  have "write_entry e w = (if length (encs (c @ [e])) \<ge> BLOCK_TARGET then flush_block ?w else Inr ?w)"
    using w bloom
    by (auto simp: write_entry_def parts_entry writer_inv_def enc_def key_pos_def Let_def)
  then consider "flush_block ?w = Inr w'" | "w' = ?w" using r by (auto split: if_splits)
  then show ?thesis
  proof cases
    case 1
    from flush_block_inv [OF inv this] show ?thesis
      by (metis append.assoc append_Nil2)
  next
    case 2
    with inv show ?thesis by (intro exI [of _ bs] exI [of _ "c @ [e]"]) simp
  qed
qed

lemma write_entries_inv:
  "writer_inv bs c w \<Longrightarrow> write_entries (map Inr es) w = Inr w' \<Longrightarrow>
   \<exists>bs' c'. writer_inv bs' c' w' \<and> concat bs' @ c' = concat bs @ c @ es"
proof (induction es arbitrary: bs c w)
  case (Cons e es)
  then obtain w1 where w1: "write_entry e w = Inr w1" "write_entries (map Inr es) w1 = Inr w'"
    by (auto simp: res_bind_eq_Inr)
  from write_entry_inv [OF Cons.prems(1) w1(1)]
  obtain bs1 c1 where "writer_inv bs1 c1 w1" "concat bs1 @ c1 = concat bs @ c @ [e]" by blast
  with Cons.IH [OF _ w1(2)] show ?case by (metis append.assoc append_Cons append_Nil)
qed auto

section \<open>Opening what was written\<close>

definition to_ref :: "KeyPos \<times> u64 \<times> u32 \<Rightarrow> BlockRef" where
  "to_ref i = (case i of (first, off, len) \<Rightarrow> \<lparr>br_first = first, br_offset = off, br_len = len\<rparr>)"

definition ref_ok :: "u64 \<Rightarrow> KeyPos \<times> u64 \<times> u32 \<Rightarrow> bool" where
  "ref_ok data_end i \<longleftrightarrow> (case i of (first, off, len) \<Rightarrow>
     length (kp_key first) < 2 ^ 32 \<and> (\<exists>n. checked_len off (ucast len) data_end = Inr n))"

lemma decode_encode_index:
  "list_all (ref_ok data_end) is \<Longrightarrow> decode_index data_end (encode_index is) = Inr (map to_ref is)"
proof (induction "is")
  case Nil
  show ?case by (subst decode_index.simps) (simp add: encode_index_def)
next
  case (Cons i "is")
  obtain first off len where i: "i = (first, off, len)" by (metis prod_cases3)
  let ?one = "encode_index_key first @ put_u64_le off @ put_u32_le len"
  have split: "encode_index (i # is) = ?one @ encode_index is" by (simp add: encode_index_def i)
  have "decode_index_entry (?one @ encode_index is) = Some (to_ref i, encode_index is)"
    using Cons.prems by (simp add: decode_index_entry_def encode_index_key_def encode_key_parts_def
        to_ref_def i ref_ok_def)
  moreover have "?one @ encode_index is \<noteq> []" by (simp add: encode_index_key_def encode_key_parts_def)
  ultimately show ?case
    using Cons unfolding split
    by (subst decode_index.simps) (auto simp: i ref_ok_def to_ref_def simp del: append_is_Nil_conv)
qed

lemma length_enc: "length (enc e) = 18 + length (snd (user_key e)) + value_len (snd e)"
  by (cases e rule: entry_cases; cases "snd e")
     (simp_all add: enc_def parts_def encode_entry_def encode_key_parts_def)

lemma enc_le_encs: "e \<in> set b \<Longrightarrow> length (enc e) \<le> length (encs b)"
  by (induction b) auto

lemma block_fits_entries: "block_fits b \<Longrightarrow> list_all entry_ok b"
  using enc_le_encs length_enc by (fastforce simp: block_fits_def list_all_iff entry_ok_def)

lemma layout_refs:
  assumes "list_all block_fits bs" "off + length (data_region bs) \<le> n" "n < 2 ^ 64"
  shows "list_all (ref_ok (of_nat n)) (layout off bs)"
  using assms
proof (induction bs arbitrary: off)
  case (Cons b bs)
  let ?l = "length (seal (encs b))"
  have fits: "block_fits b" and ends: "off + ?l + length (data_region bs) \<le> n"
    using Cons.prems by (simp_all add: data_region_def)
  have l: "?l < 2 ^ 32" using fits by (simp add: block_fits_def)
  have "entry_ok (hd b)" using block_fits_entries [OF fits] fits
    by (cases b) (simp_all add: block_fits_def)
  moreover have "off + ?l < 2 ^ 64" "off < 2 ^ 64" using ends Cons.prems(3) by simp_all
  moreover have "(of_nat off :: u64) + of_nat ?l \<le> of_nat n"
    using of_nat_le64 [of "off + ?l" n] ends Cons.prems(3) by simp
  ultimately have "ref_ok (of_nat n) (key_pos (hd b), of_nat off, of_nat ?l)"
    using l by (simp add: ref_ok_def checked_len_def key_pos_def entry_ok_def ucast_of_len
        del: length_seal of_nat_add)
  with Cons fits ends show ?case by simp
qed simp

lemma layout_repr:
  assumes "list_all block_fits bs" "s_version s = V2"
    and "s_file s = a @ data_region bs @ z" "length (a @ data_region bs) < 2 ^ 64"
  shows "list_all2 (block_repr s) bs (map to_ref (layout (length a) bs))"
  using assms
proof (induction bs arbitrary: a)
  case (Cons b bs)
  have whole: "s_file s = (a @ seal (encs b)) @ data_region bs @ z"
    and split: "s_file s = a @ seal (encs b) @ data_region bs @ z"
    using Cons.prems(3) by (simp_all add: data_region_def)
  have "list_all2 (block_repr s) bs (map to_ref (layout (length (a @ seal (encs b))) bs))"
    using Cons.prems by (intro Cons.IH [OF _ _ whole]) (simp_all add: data_region_def)
  moreover have "block_repr s b (to_ref (key_pos (hd b), of_nat (length a), of_nat (length (seal (encs b)))))"
    using Cons.prems block_fits_entries [of b] read_sealed [of a _ "encs b" "data_region bs @ z"]
    by (simp add: block_repr_def to_ref_def read_block_def split block_fits_def
        del: of_nat_add length_seal)
  ultimately show ?case by simp
qed simp

lemma length_encode_footer: "length (encode_footer a b c d e f) = FOOTER_LEN"
  by (simp add: encode_footer_def Let_def FOOTER_LEN_def)

lemma parse_encode_footer: "parse_footer (encode_footer a b c d e f) = Inr (a, b, c, d, e, f, V2)"
  by (simp add: parse_footer_def encode_footer_def Let_def FOOTER_LEN_def MAGIC_V1_def MAGIC_V2_def)

lemma checked_len_ok:
  assumes "a + n \<le> m" "m < 2 ^ 64"
  shows "checked_len (of_nat a) (of_nat n) (of_nat m) = Inr n"
  using assms of_nat_le64 [of "a + n" m] by (simp add: checked_len_def)

lemma open_sections:
  fixes index :: "(KeyPos \<times> u64 \<times> u32) list"
  defines "ib \<equiv> seal (encode_index index)"
  assumes bloom: "bloom_ok bloom"
    and refs: "list_all (ref_ok (of_nat (length d))) index"
    and bb: "bb = seal (Bloom_encode bloom)"
    and data: "data = d @ ib @ bb @
        encode_footer (of_nat (length d)) (of_nat (length ib)) (of_nat (length d + length ib))
          (of_nat (length bb)) count max_seq"
    and len: "length data < 2 ^ 64"
  shows "sst_open p data =
    Inr \<lparr>s_file = data, s_version = V2, s_index = map to_ref index, s_bloom = bloom,
         s_max_seq = max_seq, s_count = count, s_path = p\<rparr>"
proof -
  let ?f = "encode_footer (of_nat (length d)) (of_nat (length ib)) (of_nat (length d + length ib))
          (of_nat (length bb)) count max_seq"
  have total: "length data = length d + length ib + length bb + 56" by (simp add: data length_encode_footer FOOTER_LEN_def)
  have footer: "drop (length data - FOOTER_LEN) data = ?f"
    unfolding total by (simp add: data length_encode_footer FOOTER_LEN_def)
  have data_end: "(of_nat (length data) - of_nat FOOTER_LEN :: u64) =
      of_nat (length d + length ib + length bb)"
    by (simp add: total FOOTER_LEN_def)
  have idx: "read_block_at data V2 (of_nat (length d)) (length ib) = Inr (encode_index index)"
    unfolding data ib_def using len total by (intro read_sealed) (simp_all add: ib_def)
  have "data = (d @ ib) @ bb @ ?f" by (simp add: data)
  then have blo: "read_block_at data V2 (of_nat (length d + length ib)) (length bb) = Inr (Bloom_encode bloom)"
    using len total read_sealed [of "d @ ib" "length bb" "Bloom_encode bloom" ?f] by (simp add: bb)
  have c1: "checked_len (of_nat (length d + length ib)) (of_nat (length bb))
      (of_nat (length d + length ib + length bb)) = Inr (length bb)"
    and c2: "checked_len (of_nat (length d)) (of_nat (length ib))
      (of_nat (length d + length ib + length bb)) = Inr (length ib)"
    using len total by (auto intro!: checked_len_ok simp del: of_nat_add)
  have "\<not> length data < FOOTER_LEN" by (simp add: total FOOTER_LEN_def)
  then show ?thesis
    unfolding sst_open_def footer Let_def data_end
    by (simp add: parse_encode_footer Let_def c1 c2 blo idx
        Bloom_decode_encode [OF bloom] decode_encode_index [OF refs] del: of_nat_add)
qed

text \<open>Whatever the writer writes for sorted entries, the reader reads.\<close>

lemma write_sorted_repr:
  assumes ok: "bt_ok es" and wr: "write_sorted (map Inr es) hint max_seq = Inr data"
  shows "\<exists>s. sst_open p data = Inr s \<and> sst_repr s es \<and> s_max_seq s = max_seq \<and>
           s_count s = of_nat (length es) \<and> s_path s = p \<and> \<not> is_legacy s"
proof -
  let ?w0 = "\<lparr>w_file = [], w_index = [], w_cur = None, w_offset = 0, w_count = 0,
              w_bloom = Bloom_new hint\<rparr>"
  have w0: "writer_inv [] [] ?w0"
    using Bloom_new_ok [of hint] bloom_ok_total
    by (auto simp: writer_inv_def data_region_def bloom_covers_def)
  obtain w1 w2 where w1: "write_entries (map Inr es) ?w0 = Inr w1" and w2: "flush_block w1 = Inr w2"
    and seal: "length (seal (encode_index (w_index w2))) < 2 ^ 32"
       "length (seal (Bloom_encode (w_bloom w2))) < 2 ^ 32"
    and out: "data = w_file w2 @ seal (encode_index (w_index w2)) @ seal (Bloom_encode (w_bloom w2)) @
       encode_footer (w_offset w2) (of_nat (length (seal (encode_index (w_index w2)))))
         (w_offset w2 + of_nat (length (seal (encode_index (w_index w2)))))
         (of_nat (length (seal (Bloom_encode (w_bloom w2))))) (w_count w2) max_seq"
    and bound: "length data < 2 ^ 63"
    using wr unfolding write_sorted_def
    by (auto simp: res_bind_eq_Inr seal_block_eq write_all_def Let_def simp del: length_seal split: if_splits)
  obtain bs where inv: "writer_inv bs [] w2" and bs: "concat bs = es"
    using write_entries_inv [OF w0 w1] flush_block_inv [OF _ w2] by fastforce
  let ?d = "data_region bs"
  have pt: "w_file w2 = ?d" "w_index w2 = layout 0 bs" "w_offset w2 = of_nat (length ?d)"
      "w_count w2 = of_nat (length es)" "list_all block_fits bs" "bloom_ok (w_bloom w2)"
      "bloom_covers (w_bloom w2) es"
    using inv bs by (simp_all add: writer_inv_def)
  have len: "length ?d < 2 ^ 64" using bound by (simp add: out pt)
  have refs: "list_all (ref_ok (of_nat (length ?d))) (layout 0 bs)"
    by (rule layout_refs) (use pt len in simp_all)
  define s where "s = \<lparr>s_file = data, s_version = V2, s_index = map to_ref (layout 0 bs),
      s_bloom = w_bloom w2, s_max_seq = max_seq, s_count = of_nat (length es), s_path = p\<rparr>"
  have "sst_open p data = Inr s"
    unfolding s_def using bound
    by (intro open_sections [OF pt(6) refs refl]) (simp_all add: out pt)
  moreover have "list_all2 (block_repr s) bs (map to_ref (layout 0 bs))"
    using layout_repr [of bs s "[]" "drop (length ?d) data"] pt len by (simp add: s_def out)
  then have "sst_repr s es" using ok bs pt(7) by (auto simp: sst_repr_def s_def)
  ultimately show ?thesis by (simp add: s_def is_legacy_def)
qed

text \<open>A file of the writer, if it opens at all, opens as the current format.\<close>

lemma open_footer:
  assumes "sst_open p (x @ encode_footer a b c d e f) = Inr s"
  shows "s_version s = V2"
proof -
  let ?f = "encode_footer a b c d e f"
  have len: "length (x @ ?f) = length x + 56" by (simp add: length_encode_footer FOOTER_LEN_def)
  have "drop (length (x @ ?f) - FOOTER_LEN) (x @ ?f) = ?f"
    unfolding len by (simp add: FOOTER_LEN_def)
  with assms show ?thesis
    by (auto simp: sst_open_def parse_encode_footer res_bind_eq_Inr Let_def split: if_splits)
qed

lemma written_version:
  assumes "write_sorted es n m = Inr data" "sst_open p data = Inr s"
  shows "\<not> is_legacy s"
proof -
  obtain x a b c d e f where "data = x @ encode_footer a b c d e f"
    using assms(1)
    by (auto simp: write_sorted_def write_all_def res_bind_eq_Inr Let_def split: if_splits) (metis append.assoc)
  with open_footer assms(2) show ?thesis by (simp add: is_legacy_def)
qed

section \<open>When writing succeeds\<close>

text \<open>
  A run is writable when its index and every block stay below 4 GiB; half of that as a bound on the
  encoded entries is enough, and leaves the file far below the range of its 64-bit offsets.
\<close>

definition run_fits :: "nat \<Rightarrow> entry list \<Rightarrow> bool" where
  "run_fits hint es \<longleftrightarrow> 2 * length (encs es) + 4 < 2 ^ 32 \<and> hint < 2 ^ 31"

lemma flush_block_total:
  assumes "writer_inv bs c w" "length (encs c) + 4 < 2 ^ 32"
  shows "\<exists>w'. flush_block w = Inr w' \<and> w_bloom w' = w_bloom w"
  using assms by (simp add: flush_block_def writer_inv_def seal_block_eq)

lemma Bloom_add_m_bits: "Bloom_add t k b = Inr b' \<Longrightarrow> bl_m_bits b' = bl_m_bits b"
  by (auto simp: Bloom_add_def res_bind_eq_Inr split: prod.splits)

lemma write_entry_total:
  assumes w: "writer_inv bs c w" and len: "length (encs (c @ [e])) + 4 < 2 ^ 32"
    and m: "bl_m_bits (w_bloom w) \<noteq> 0"
  shows "\<exists>w'. write_entry e w = Inr w' \<and> bl_m_bits (w_bloom w') = bl_m_bits (w_bloom w)"
proof -
  obtain bloom where bloom: "Bloom_add (fst (user_key e)) (snd (user_key e)) (w_bloom w) = Inr bloom"
    using Bloom_add_total w m unfolding writer_inv_def by blast
  let ?w = "w\<lparr>w_cur := Some (key_pos (hd (c @ [e])), encs (c @ [e])), w_bloom := bloom,
              w_count := w_count w + 1\<rparr>"
  have "writer_inv bs (c @ [e]) ?w"
    using w bloom_covers_add [OF _ _ _ bloom, of "concat bs @ c"] by (auto simp: writer_inv_def)
  from flush_block_total [OF this len] obtain w' where
    "flush_block ?w = Inr w'" "w_bloom w' = bloom" by auto
  moreover have "write_entry e w =
      (if length (encs (c @ [e])) \<ge> BLOCK_TARGET then flush_block ?w else Inr ?w)"
    using w bloom
    by (auto simp: write_entry_def parts_entry writer_inv_def enc_def key_pos_def Let_def)
  ultimately show ?thesis using Bloom_add_m_bits [OF bloom] by auto
qed

lemma write_entries_total:
  "writer_inv bs c w \<Longrightarrow> length (encs (concat bs @ c @ es)) + 4 < 2 ^ 32 \<Longrightarrow>
   bl_m_bits (w_bloom w) \<noteq> 0 \<Longrightarrow>
   \<exists>w'. write_entries (map Inr es) w = Inr w' \<and> bl_m_bits (w_bloom w') = bl_m_bits (w_bloom w)"
proof (induction es arbitrary: bs c w)
  case (Cons e es)
  then obtain w1 where w1: "write_entry e w = Inr w1" "bl_m_bits (w_bloom w1) = bl_m_bits (w_bloom w)"
    using write_entry_total [OF Cons.prems(1), of e] by auto
  obtain bs1 c1 where inv: "writer_inv bs1 c1 w1" and eq: "concat bs1 @ c1 = concat bs @ c @ [e]"
    using write_entry_inv [OF Cons.prems(1) w1(1)] by blast
  have "concat bs1 @ c1 @ es = concat bs @ c @ e # es"
    using eq by (metis append.assoc append_Cons append_Nil)
  then have "length (encs (concat bs1 @ c1 @ es)) + 4 < 2 ^ 32" using Cons.prems(2) by (simp only:)
  from Cons.IH [OF inv this] show ?case using w1 Cons.prems(3) by auto
qed simp

lemma encode_index_Cons:
  "encode_index ((first, off, len) # is) =
     encode_index_key first @ put_u64_le off @ put_u32_le len @ encode_index is"
  by (simp add: encode_index_def)

lemma layout_length:
  assumes "list_all block_fits bs"
  shows "length (encode_index (layout off bs)) \<le> 2 * length (encs (concat bs))"
    and "length (data_region bs) \<le> 2 * length (encs (concat bs))"
proof -
  have first: "18 + length (kp_key (key_pos (hd b))) \<le> length (encs b)" if "block_fits b" for b
    using that by (cases b) (simp_all add: block_fits_def length_enc key_pos_def)
  show "length (encode_index (layout off bs)) \<le> 2 * length (encs (concat bs))"
    using assms
  proof (induction bs arbitrary: off)
    case (Cons b bs)
    have "length (encode_index (layout (off + length (seal (encs b))) bs)) \<le> 2 * length (encs (concat bs))"
      using Cons by simp
    with Cons.prems first [of b] show ?case
      by (simp add: encode_index_Cons encode_index_key_def encode_key_parts_def)
  qed (simp add: encode_index_def)
  show "length (data_region bs) \<le> 2 * length (encs (concat bs))"
    using assms by (induction bs) (fastforce simp: data_region_def dest: first)+
qed

lemma write_sorted_total:
  assumes "run_fits hint es"
  shows "\<exists>data. write_sorted (map Inr es) hint max_seq = Inr data"
proof -
  let ?w0 = "\<lparr>w_file = [], w_index = [], w_cur = None, w_offset = 0, w_count = 0,
              w_bloom = Bloom_new hint\<rparr>"
  have small: "hint < 2 ^ 60" using assms by (simp add: run_fits_def)
  have w0: "writer_inv [] [] ?w0"
    using Bloom_new_ok [of hint] bloom_ok_total
    by (auto simp: writer_inv_def data_region_def bloom_covers_def)
  obtain w1 where w1: "write_entries (map Inr es) ?w0 = Inr w1"
      "bl_m_bits (w_bloom w1) = bl_m_bits (Bloom_new hint)"
    using write_entries_total [OF w0, of es] assms Bloom_new_size(1) [OF small] by (auto simp: run_fits_def)
  obtain bs c where inv1: "writer_inv bs c w1" and es: "concat bs @ c = es"
    using write_entries_inv [OF w0 w1(1)] by auto
  have "length (encs c) \<le> length (encs es)" by (simp flip: es)
  then obtain w2 where w2: "flush_block w1 = Inr w2" "w_bloom w2 = w_bloom w1"
    using flush_block_total [OF inv1] assms by (auto simp: run_fits_def)
  obtain bs' where inv: "writer_inv bs' [] w2" and bs': "concat bs' = es"
    using flush_block_inv [OF inv1 w2(1)] es by auto
  have "length (bl_bits (w_bloom w2)) = length (bl_bits (Bloom_new hint))"
    using inv w1(2) w2(2) Bloom_new_ok(1) [of hint] by (simp add: writer_inv_def bloom_ok_def)
  then have b: "length (bl_bits (w_bloom w2)) < 2 ^ 32 - 16"
    using Bloom_new_size(2) [OF small] assms by (simp add: run_fits_def max_def less_mult_imp_div_less)
  have i: "length (encode_index (w_index w2)) \<le> 2 * length (encs es)"
     "length (w_file w2) \<le> 2 * length (encs es)"
    using layout_length(1) [of bs' 0] layout_length(2) [of bs'] inv bs' by (simp_all add: writer_inv_def)
  show ?thesis
    using w1(1) w2(1) b i assms
    by (simp add: write_sorted_def seal_block_eq run_fits_def Bloom_encode_def Let_def write_all_def
        length_encode_footer FOOTER_LEN_def)
qed

end
