(* ===== verification/Lsm_Merge.thy ===== *)
theory Lsm_Merge
  imports Sst_Read
begin

text \<open>
  Compaction's streams (\<open>storage/native/mod.rs\<close>): the k-way merge of the runs (\<open>MergeIter\<close>) and the
  version garbage collection (\<open>GcIter\<close>, \<open>emit_group\<close>). An iterator is the list of the items it yields;
  an error is the last of them. The merge yields the union of the runs, a later run overriding an
  earlier one; the collection changes no value visible at or above its floor.
\<close>

section \<open>The merge\<close>

record MergeHead =
  mh_key :: MemKey
  mh_run :: nat
  mh_op :: op

record MergeIter =
  mi_runs :: "entry res list list"
  mi_heap :: "MergeHead list"
  mi_last :: "MemKey option"
  mi_done :: bool

text \<open>
  The binary heap of \<open>Reverse<MergeHead>\<close> pops the least head; it is kept as a list in the order of
  \<open>MergeHead::cmp\<close>, by key and then by later run first.
\<close>

definition mh_rank :: "MergeHead \<Rightarrow> MemKey \<times> nat Reverse" where
  "mh_rank h = (mh_key h, Reverse (mh_run h))"

definition heap_push :: "MergeHead \<Rightarrow> MergeHead list \<Rightarrow> MergeHead list" where
  "heap_push h hs = insort_key mh_rank h hs"

definition MergeIter_new :: "entry res list list \<Rightarrow> MergeIter" where
  "MergeIter_new runs = \<lparr>mi_runs = runs, mi_heap = [], mi_last = None, mi_done = False\<rparr>"

definition advance :: "nat \<Rightarrow> MergeIter \<Rightarrow> unit res \<times> MergeIter" where
  "advance run m =
     (if run \<ge> length (mi_runs m) then (Inl Panic, m) else
      case mi_runs m ! run of
        [] \<Rightarrow> (Inr (), m)
      | i # rest \<Rightarrow>
          (let m = m\<lparr>mi_runs := (mi_runs m)[run := rest]\<rparr> in
           case i of
             Inl e \<Rightarrow> (Inl e, m)
           | Inr (key, op) \<Rightarrow>
               (Inr (), m\<lparr>mi_heap := heap_push \<lparr>mh_key = key, mh_run = run, mh_op = op\<rparr> (mi_heap m)\<rparr>)))"

definition merge_fail :: "MergeIter \<Rightarrow> MergeIter" where
  "merge_fail m = m\<lparr>mi_done := True, mi_heap := []\<rparr>"

definition merge_size :: "MergeIter \<Rightarrow> nat" where
  "merge_size m = sum_list (map length (mi_runs m)) + length (mi_heap m)"

lemma sum_list_update:
  fixes xs :: "nat list"
  shows "i < length xs \<Longrightarrow> sum_list (xs[i := v]) + xs ! i = sum_list xs + v"
  by (induction xs arbitrary: i) (auto split: nat.splits)

lemma advance_size: "merge_size (snd (advance run m)) \<le> merge_size m"
proof (cases "run < length (mi_runs m)")
  case True
  show ?thesis
  proof (cases "mi_runs m ! run")
    case (Cons i rest)
    have "sum_list (map length ((mi_runs m)[run := rest])) + Suc (length rest) =
        sum_list (map length (mi_runs m)) + length rest"
      using sum_list_update [of run "map length (mi_runs m)" "length rest"] True Cons
      by (simp add: map_update)
    then show ?thesis using True Cons
      by (auto simp: advance_def merge_size_def heap_push_def Let_def split: sum.splits)
  qed (use True in \<open>simp add: advance_def\<close>)
qed (simp add: advance_def)

function merge_loop :: "MergeIter \<Rightarrow> entry res option \<times> MergeIter" where
  "merge_loop m =
     (case mi_heap m of
        [] \<Rightarrow> (None, m)
      | h # hs \<Rightarrow>
          (case advance (mh_run h) (m\<lparr>mi_heap := hs\<rparr>) of
             (Inl e, m) \<Rightarrow> (Some (Inl e), merge_fail m)
           | (Inr _, m) \<Rightarrow>
               if mi_last m = Some (mh_key h) then merge_loop m
               else (Some (Inr (mh_key h, mh_op h)), m\<lparr>mi_last := Some (mh_key h)\<rparr>)))"
  by pat_completeness auto

lemma advance_pop_size:
  "mi_heap m = h # hs \<Longrightarrow> advance r (m\<lparr>mi_heap := hs\<rparr>) = (x, m') \<Longrightarrow> merge_size m' < merge_size m"
  using advance_size [of r "m\<lparr>mi_heap := hs\<rparr>"] by (simp add: merge_size_def)

termination merge_loop
  by (relation "measure merge_size") (auto dest: advance_pop_size [OF _ sym])

declare merge_loop.simps [simp del]

fun prime :: "nat list \<Rightarrow> MergeIter \<Rightarrow> unit res \<times> MergeIter" where
  "prime [] m = (Inr (), m)"
| "prime (r # rs) m =
     (case advance r m of (Inl e, m) \<Rightarrow> (Inl e, m) | (Inr _, m) \<Rightarrow> prime rs m)"

definition merge_next :: "MergeIter \<Rightarrow> entry res option \<times> MergeIter" where
  "merge_next m =
     (if mi_done m then (None, m)
      else if mi_last m = None \<and> mi_heap m = [] then
        (case prime [0..<length (mi_runs m)] m of
           (Inl e, m) \<Rightarrow> (Some (Inl e), merge_fail m)
         | (Inr _, m) \<Rightarrow> merge_loop m)
      else merge_loop m)"

lemma prime_size: "merge_size (snd (prime rs m)) \<le> merge_size m"
proof (induction rs arbitrary: m)
  case (Cons r rs)
  obtain x m' where a: "advance r m = (x, m')" by fastforce
  then have "merge_size m' \<le> merge_size m" using advance_size [of r m] by simp
  with Cons.IH [of m'] show ?case by (cases x) (simp_all add: a)
qed simp

lemma merge_loop_size:
  "merge_loop m = (Some i, m') \<Longrightarrow> mi_done m' \<or> merge_size m' < merge_size m"
proof (induction m rule: merge_loop.induct)
  case (1 m)
  show ?case
  proof (cases "mi_heap m")
    case (Cons h hs)
    obtain x m1 where a: "advance (mh_run h) (m\<lparr>mi_heap := hs\<rparr>) = (x, m1)" by fastforce
    note size = advance_pop_size [OF Cons a]
    show ?thesis
    proof (cases x)
      case (Inl e)
      with 1(2) Cons a show ?thesis
        by (subst (asm) merge_loop.simps) (auto simp: merge_fail_def)
    next
      case (Inr u)
      show ?thesis
      proof (cases "mi_last m1 = Some (mh_key h)")
        case True
        have "merge_loop m = merge_loop m1" using Cons a Inr True by (subst merge_loop.simps) simp
        with 1(1) [OF Cons a [symmetric] Inr True] 1(2) size show ?thesis by auto
      next
        case False
        with 1(2) Cons a Inr size show ?thesis
          by (subst (asm) merge_loop.simps) (auto simp: merge_size_def)
      qed
    qed
  qed (use 1(2) in \<open>subst (asm) merge_loop.simps, simp\<close>)
qed

lemma merge_next_size:
  assumes "merge_next m = (Some i, m')"
  shows "\<not> mi_done m" "mi_done m' \<or> merge_size m' < merge_size m"
proof -
  show nd: "\<not> mi_done m" using assms by (auto simp: merge_next_def)
  obtain x m1 where p: "prime [0..<length (mi_runs m)] m = (x, m1)" by fastforce
  have "merge_size m1 \<le> merge_size m" using prime_size [of "[0..<length (mi_runs m)]" m] p by simp
  then show "mi_done m' \<or> merge_size m' < merge_size m"
    using assms nd p merge_loop_size [of m1 i m'] merge_loop_size [of m i m']
    by (auto simp: merge_next_def merge_fail_def split: if_splits sum.splits)
qed

function merge_items :: "MergeIter \<Rightarrow> entry res list" where
  "merge_items m = (case merge_next m of (None, _) \<Rightarrow> [] | (Some i, m) \<Rightarrow> i # merge_items m)"
  by pat_completeness auto
termination
  by (relation "measure (\<lambda>m. if mi_done m then 0 else Suc (merge_size m))")
     (auto dest: merge_next_size [OF sym])

declare merge_items.simps [simp del]

section \<open>Garbage collection of versions\<close>

fun gc_keep :: "u64 \<Rightarrow> (u64 \<times> op) list \<Rightarrow> nat" where
  "gc_keep min_snapshot [] = 0"
| "gc_keep min_snapshot ((seq, _) # grp) =
     (if seq \<le> min_snapshot then 1 else Suc (gc_keep min_snapshot grp))"

definition emit_group :: "byte \<Rightarrow> bytes \<Rightarrow> (u64 \<times> op) list \<Rightarrow> u64 \<Rightarrow> entry list" where
  "emit_group table key grp min_snapshot =
     (let grp = take (gc_keep min_snapshot grp) grp in
      if (case grp of [(seq, Del)] \<Rightarrow> seq \<le> min_snapshot | _ \<Rightarrow> False) then []
      else map (\<lambda>(seq, op). ((table, key, Reverse seq), op)) grp)"

text \<open>
  \<open>GcIter\<close> over the merged stream: \<open>cur\<close> is the key whose versions \<open>group\<close> collects. The survivors of a
  closed group are yielded before more input is read; an input error discards the open group.
\<close>

fun gc_items :: "u64 \<Rightarrow> (byte \<times> bytes) option \<Rightarrow> (u64 \<times> op) list \<Rightarrow> entry res list \<Rightarrow> entry res list" where
  "gc_items min_snapshot cur grp [] =
     (case cur of None \<Rightarrow> [] | Some (t, k) \<Rightarrow> map Inr (emit_group t k grp min_snapshot))"
| "gc_items min_snapshot cur grp (Inl e # merged) = [Inl e]"
| "gc_items min_snapshot cur grp (Inr ((table, key, seq), op) # merged) =
     (if cur = Some (table, key)
      then gc_items min_snapshot cur (grp @ [(un_reverse seq, op)]) merged
      else (case cur of None \<Rightarrow> [] | Some (t, k) \<Rightarrow> map Inr (emit_group t k grp min_snapshot)) @
           gc_items min_snapshot (Some (table, key)) [(un_reverse seq, op)] merged)"

definition gc_versions :: "entry res list \<Rightarrow> u64 \<Rightarrow> entry res list" where
  "gc_versions merged min_snapshot = gc_items min_snapshot None [] merged"

section \<open>Correctness of the merge\<close>

definition heads :: "entry list list \<Rightarrow> MergeHead set" where
  "heads ps = {h. mh_run h < length ps \<and> (\<exists>r. ps ! mh_run h = (mh_key h, mh_op h) # r)}"

text \<open>The iterator has \<open>ps\<close> left to yield, run by run.\<close>

definition pending :: "MergeIter \<Rightarrow> entry list list \<Rightarrow> bool" where
  "pending m ps \<longleftrightarrow> mi_runs m = map (\<lambda>p. map Inr (tl p)) ps \<and> set (mi_heap m) = heads ps \<and>
     distinct (map mh_run (mi_heap m)) \<and> sorted (map mh_rank (mi_heap m)) \<and> \<not> mi_done m"

lemma heads_update:
  assumes "ps ! r = (k, op) # rest" "r < length ps"
  shows "heads (ps[r := rest]) =
     (heads ps - {\<lparr>mh_key = k, mh_run = r, mh_op = op\<rparr>}) \<union>
     (case rest of [] \<Rightarrow> {} | (k', op') # _ \<Rightarrow> {\<lparr>mh_key = k', mh_run = r, mh_op = op'\<rparr>})"
  using assms
  by (auto simp: heads_def nth_list_update MergeHead.equality split: list.splits if_splits)

lemma set_heap_push [simp]: "set (heap_push h hs) = insert h (set hs)"
  by (simp add: heap_push_def set_insort_key)

lemma sorted_heap_push [simp]: "sorted (map mh_rank (heap_push h hs)) = sorted (map mh_rank hs)"
  by (simp add: heap_push_def sorted_insort_key)

lemma distinct_heap_push [simp]:
  "distinct (map mh_run (heap_push h hs)) \<longleftrightarrow> mh_run h \<notin> mh_run ` set hs \<and> distinct (map mh_run hs)"
  unfolding heap_push_def by (induction hs) (auto simp: set_insort_key)

lemma advance_pending:
  assumes p: "pending m ps" and h: "mi_heap m = h # hs"
  shows "\<exists>m'. advance (mh_run h) (m\<lparr>mi_heap := hs\<rparr>) = (Inr (), m') \<and>
     pending m' (ps[mh_run h := tl (ps ! mh_run h)]) \<and> mi_last m' = mi_last m"
proof -
  let ?r = "mh_run h"
  have hd: "h \<in> heads ps" using p h by (auto simp: pending_def)
  then have r: "?r < length ps" by (simp add: heads_def)
  obtain rest where ps: "ps ! ?r = (mh_key h, mh_op h) # rest" using hd by (auto simp: heads_def)
  have hs: "set hs = heads ps - {h}" "?r \<notin> mh_run ` set hs"
    using p h by (auto simp: pending_def)
  have up: "heads (ps[?r := rest]) = set hs \<union>
     (case rest of [] \<Rightarrow> {} | (k', op') # _ \<Rightarrow> {\<lparr>mh_key = k', mh_run = ?r, mh_op = op'\<rparr>})"
    using heads_update [OF ps r] hs(1) by (cases h) simp
  have runs: "mi_runs m ! ?r = map Inr rest" using p r ps by (simp add: pending_def)
  show ?thesis
  proof (cases rest)
    case Nil
    then have "(map (\<lambda>p. map Inr (tl p)) ps)[?r := []] = (map (\<lambda>p. map Inr (tl p)) ps :: entry res list list)"
      using r ps by (simp add: list_update_same_conv)
    with Nil show ?thesis
      using p h hs up runs r ps by (auto simp: advance_def pending_def map_update)
  next
    case (Cons e rest')
    then show ?thesis
      using p h hs up runs r ps
      by (cases e) (auto simp: advance_def pending_def map_update Let_def)
  qed
qed

lemma bt_of_list_keys: "set (map fst (bt_of_list xs)) = set (map fst xs)"
proof -
  have "set (map fst (bt_of_list xs)) = dom (map_of (bt_of_list xs))" by (simp add: dom_map_of_conv_image_fst)
  also have "\<dots> = set (map fst xs)" by (simp add: bt_of_list_map_of dom_map_of_conv_image_fst)
  finally show ?thesis .
qed

lemma bt_of_list_min:
  fixes k :: "'k::linorder"
  assumes "\<forall>x \<in> set A. k \<le> fst x" "\<forall>x \<in> set B. k < fst x"
  shows "bt_of_list (A @ (k, v) # B) = (k, v) # filter (\<lambda>(k', _). k' \<noteq> k) (bt_of_list (A @ B))"
proof (rule bt_ext)
  have "k < fst x" if "x \<in> set (filter (\<lambda>(k', _). k' \<noteq> k) (bt_of_list (A @ B)))" for x
  proof -
    have "fst x \<in> set (map fst (bt_of_list (A @ B)))" "fst x \<noteq> k" using that by auto
    then have "fst x \<in> fst ` (set A \<union> set B)" unfolding bt_of_list_keys by auto
    with assms \<open>fst x \<noteq> k\<close> show ?thesis by force
  qed
  then show "bt_ok ((k, v) # filter (\<lambda>(k', _). k' \<noteq> k) (bt_of_list (A @ B)))"
    using bt_ok_filter [OF bt_ok_of_list] by auto
  have "map_of (rev B) k = None" using assms(2) by (force simp: map_of_eq_None_iff)
  then show "map_of (bt_of_list (A @ (k, v) # B)) =
      map_of ((k, v) # filter (\<lambda>(k', _). k' \<noteq> k) (bt_of_list (A @ B)))"
    by (auto simp: fun_eq_iff bt_of_list_map_of map_of_filter_key map_add_def split: option.splits)
qed simp

definition runs_ok :: "entry list list \<Rightarrow> bool" where
  "runs_ok ps \<longleftrightarrow> list_all bt_ok ps"

lemma least_head:
  assumes ok: "runs_ok ps" and h: "h \<in> heads ps" and least: "\<forall>h' \<in> heads ps. mh_rank h \<le> mh_rank h'"
    and i: "i < length ps" "x \<in> set (ps ! i)"
  shows "mh_key h \<le> fst x" "mh_run h < i \<Longrightarrow> mh_key h < fst x"
proof -
  obtain k op rest where p: "ps ! i = (k, op) # rest" using i(2) by (cases "ps ! i") auto
  have "\<lparr>mh_key = k, mh_run = i, mh_op = op\<rparr> \<in> heads ps" using p i(1) by (simp add: heads_def)
  then have rank: "mh_rank h \<le> (k, Reverse i)" using least by (force simp: mh_rank_def)
  have "bt_ok ((k, op) # rest)" using ok i(1) p by (metis list_all_length runs_ok_def)
  then have kx: "k \<le> fst x" using i(2) p by (auto intro: less_imp_le)
  show "mh_key h \<le> fst x" using rank kx by (auto simp: mh_rank_def)
  show "mh_run h < i \<Longrightarrow> mh_key h < fst x" using rank kx by (auto simp: mh_rank_def)
qed

lemma merge_step:
  assumes ok: "runs_ok ps" and h: "h \<in> heads ps" and least: "\<forall>h' \<in> heads ps. mh_rank h \<le> mh_rank h'"
    and ps': "ps' = ps[mh_run h := tl (ps ! mh_run h)]"
  shows "bt_of_list (concat ps) =
      (mh_key h, mh_op h) # filter (\<lambda>(k, _). k \<noteq> mh_key h) (bt_of_list (concat ps'))"
    and "length (concat ps') < length (concat ps)" and "runs_ok ps'"
    and "\<forall>x \<in> set (concat ps'). mh_key h \<le> fst x" and "\<forall>x \<in> set (concat ps). mh_key h \<le> fst x"
    and "(mh_key h, mh_op h) \<in> set (concat ps)"
proof -
  let ?r = "mh_run h"
  have r: "?r < length ps" using h by (simp add: heads_def)
  obtain rest where p: "ps ! ?r = (mh_key h, mh_op h) # rest" using h by (auto simp: heads_def)
  let ?A = "concat (take ?r ps)" and ?B = "rest @ concat (drop (Suc ?r) ps)"
  have split: "concat ps = ?A @ (mh_key h, mh_op h) # ?B"
    by (subst id_take_nth_drop [OF r], simp add: p)
  have split': "concat ps' = ?A @ ?B" unfolding ps' using r p by (simp add: upd_conv_take_nth_drop)
  note le = least_head [OF ok h least]
  have all: "mh_key h \<le> fst x" if x: "x \<in> set (concat ps)" for x
  proof -
    obtain p where "p \<in> set ps" "x \<in> set p" using x unfolding set_concat by blast
    then obtain i where "i < length ps" "x \<in> set (ps ! i)" by (metis in_set_conv_nth)
    then show ?thesis by (rule le(1))
  qed
  have A: "\<forall>x \<in> set ?A. mh_key h \<le> fst x" using all unfolding split by auto
  have "bt_ok ((mh_key h, mh_op h) # rest)" using ok r p by (metis list_all_length runs_ok_def)
  moreover have "mh_key h < fst x" if x: "x \<in> set (concat (drop (Suc ?r) ps))" for x
  proof -
    obtain p where "p \<in> set (drop (Suc ?r) ps)" "x \<in> set p"
      using x unfolding set_concat by blast
    then obtain i where "i < length (drop (Suc ?r) ps)" "x \<in> set (drop (Suc ?r) ps ! i)"
      by (metis in_set_conv_nth)
    then show ?thesis using le(2) [of "Suc ?r + i" x] r by simp
  qed
  ultimately have B: "\<forall>x \<in> set ?B. mh_key h < fst x" by (auto simp del: set_concat)
  show "bt_of_list (concat ps) =
      (mh_key h, mh_op h) # filter (\<lambda>(k, _). k \<noteq> mh_key h) (bt_of_list (concat ps'))"
    unfolding split split' using A B by (rule bt_of_list_min)
  show "(mh_key h, mh_op h) \<in> set (concat ps)" unfolding split by simp
  show "length (concat ps') < length (concat ps)" unfolding split split' by simp
  show "runs_ok ps'" using ok r p unfolding ps' runs_ok_def
    by (auto simp: list_all_length nth_list_update)
  show "\<forall>x \<in> set (concat ps). mh_key h \<le> fst x" using all by blast
  then show "\<forall>x \<in> set (concat ps'). mh_key h \<le> fst x" unfolding split split' by auto
qed

text \<open>What is left to yield: the merge of the pending entries without the key yielded last.\<close>

definition to_yield :: "MemKey option \<Rightarrow> entry list list \<Rightarrow> entry list" where
  "to_yield prev ps = filter (\<lambda>(k, _). prev \<noteq> Some k) (bt_of_list (concat ps))"

definition merge_inv :: "MergeIter \<Rightarrow> entry list list \<Rightarrow> bool" where
  "merge_inv m ps \<longleftrightarrow> pending m ps \<and> runs_ok ps \<and>
     (\<forall>k. mi_last m = Some k \<longrightarrow> (\<forall>x \<in> set (concat ps). k \<le> fst x))"

lemma pending_least:
  assumes "pending m ps" "mi_heap m = h # hs"
  shows "h \<in> heads ps" "\<forall>h' \<in> heads ps. mh_rank h \<le> mh_rank h'"
proof -
  have s: "heads ps = set (h # hs)" and sorted: "sorted (map mh_rank (h # hs))"
    using assms by (simp_all add: pending_def)
  show "h \<in> heads ps" using s by simp
  show "\<forall>h' \<in> heads ps. mh_rank h \<le> mh_rank h'" using sorted unfolding s by auto
qed

lemma pending_empty: "pending m ps \<Longrightarrow> mi_heap m = [] \<Longrightarrow> concat ps = []"
proof (rule ccontr)
  assume m: "pending m ps" "mi_heap m = []" and "concat ps \<noteq> []"
  then obtain p where "p \<in> set ps" "p \<noteq> []" unfolding concat_eq_Nil_conv by blast
  then obtain i k op rest where "i < length ps" "ps ! i = (k, op) # rest"
    by (metis in_set_conv_nth list.exhaust prod.exhaust)
  then have "\<lparr>mh_key = k, mh_run = i, mh_op = op\<rparr> \<in> heads ps" by (simp add: heads_def)
  with m show False by (simp add: pending_def)
qed

lemma merge_loop_inv:
  "merge_inv m ps \<Longrightarrow>
   (case to_yield (mi_last m) ps of
      [] \<Rightarrow> \<exists>m'. merge_loop m = (None, m')
    | x # xs \<Rightarrow> \<exists>m' ps'. merge_loop m = (Some (Inr x), m') \<and> merge_inv m' ps' \<and>
        to_yield (mi_last m') ps' = xs \<and> mi_last m' \<noteq> None \<and> length (concat ps') < length (concat ps))"
proof (induction "length (concat ps)" arbitrary: m ps rule: less_induct)
  case less
  note inv = less.prems
  show ?case
  proof (cases "mi_heap m")
    case Nil
    then have "concat ps = []" using inv pending_empty unfolding merge_inv_def by blast
    then have "to_yield (mi_last m) ps = []" by (simp add: to_yield_def bt_of_list_def del: concat_eq_Nil_conv)
    then show ?thesis using Nil by (subst merge_loop.simps) simp
  next
    case (Cons h hs)
    have pend: "pending m ps" and ok: "runs_ok ps" using inv by (simp_all add: merge_inv_def)
    define ps1 where "ps1 = ps[mh_run h := tl (ps ! mh_run h)]"
    note step = merge_step [OF ok pending_least [OF pend Cons] ps1_def]
    obtain m1 where adv: "advance (mh_run h) (m\<lparr>mi_heap := hs\<rparr>) = (Inr (), m1)"
      and m1: "pending m1 ps1" "mi_last m1 = mi_last m"
      using advance_pending [OF pend Cons] unfolding ps1_def by blast
    show ?thesis
    proof (cases "mi_last m = Some (mh_key h)")
      case True
      have loop: "merge_loop m = merge_loop m1"
        using Cons adv m1 True by (subst merge_loop.simps) simp
      have "merge_inv m1 ps1" using m1 step(3,4) True by (simp add: merge_inv_def)
      moreover have "to_yield (mi_last m) ps = to_yield (mi_last m1) ps1"
        unfolding to_yield_def step(1) m1(2) True
        by (auto intro: filter_cong)
      moreover note IH = less.hyps [OF step(2), of m1]
      ultimately show ?thesis
      proof (cases "to_yield (mi_last m1) ps1")
        case (Cons x xs)
        then obtain m' ps' where "merge_loop m1 = (Some (Inr x), m')" "merge_inv m' ps'"
          "to_yield (mi_last m') ps' = xs" "mi_last m' \<noteq> None" "length (concat ps') < length (concat ps1)"
          using IH [OF \<open>merge_inv m1 ps1\<close>] by auto
        then show ?thesis
          using step(2) Cons \<open>to_yield (mi_last m) ps = to_yield (mi_last m1) ps1\<close> unfolding loop
          by (auto intro!: exI [of _ m'] exI [of _ ps'])
      qed (auto simp: loop)
    next
      case False
      let ?m = "m1\<lparr>mi_last := Some (mh_key h)\<rparr>"
      have loop: "merge_loop m = (Some (Inr (mh_key h, mh_op h)), ?m)"
        using Cons adv m1 False by (subst merge_loop.simps) simp
      have "merge_inv ?m ps1" using m1(1) step(3,4) by (simp add: merge_inv_def pending_def)
      moreover have "mi_last m \<noteq> Some k" if "k \<in> fst ` set (bt_of_list (concat ps))" for k
      proof -
        have "k \<in> fst ` set (concat ps)" using that bt_of_list_keys [of "concat ps"] by simp
        then have "mh_key h \<le> k" using step(5) by auto
        moreover have "l < mh_key h" if "mi_last m = Some l" for l
        proof -
          have "l \<le> mh_key h" using inv that step(6) by (force simp: merge_inv_def)
          then show ?thesis using False that by auto
        qed
        ultimately show ?thesis by (metis leD)
      qed
      then have "\<forall>x \<in> set (bt_of_list (concat ps)). mi_last m \<noteq> Some (fst x)" by blast
      then have "to_yield (mi_last m) ps = bt_of_list (concat ps)"
        unfolding to_yield_def by (simp add: filter_id_conv case_prod_unfold)
      then have "to_yield (mi_last m) ps = (mh_key h, mh_op h) # to_yield (mi_last ?m) ps1"
        unfolding step(1) by (auto simp: to_yield_def intro: filter_cong)
      moreover have "mi_last ?m \<noteq> None" by simp
      ultimately show ?thesis using step(2) loop
        by (simp del: not_None_eq) (rule exI [of _ ps1], simp)
    qed
  qed
qed

lemma merge_items_inv:
  "merge_inv m ps \<Longrightarrow> mi_last m \<noteq> None \<or> mi_heap m \<noteq> [] \<Longrightarrow>
   merge_items m = map Inr (to_yield (mi_last m) ps)"
proof (induction "length (concat ps)" arbitrary: m ps rule: less_induct)
  case less
  have next_loop: "merge_next m = merge_loop m"
    using less.prems by (auto simp: merge_next_def merge_inv_def pending_def)
  show ?case
  proof (cases "to_yield (mi_last m) ps")
    case Nil
    then show ?thesis
      using merge_loop_inv [OF less.prems(1)] next_loop by (subst merge_items.simps) auto
  next
    case (Cons x xs)
    then obtain m' ps' where l: "merge_loop m = (Some (Inr x), m')" "merge_inv m' ps'"
        "to_yield (mi_last m') ps' = xs" "mi_last m' \<noteq> None" "length (concat ps') < length (concat ps)"
      using merge_loop_inv [OF less.prems(1)] by auto
    then show ?thesis
      using less.hyps [OF l(5,2)] Cons next_loop by (subst merge_items.simps) simp
  qed
qed

text \<open>Priming fills the heap with the head of every run.\<close>

definition primed :: "nat \<Rightarrow> MergeIter \<Rightarrow> entry list list \<Rightarrow> bool" where
  "primed j m ps \<longleftrightarrow>
     mi_runs m = map (\<lambda>i. map Inr (if i < j then tl (ps ! i) else ps ! i)) [0..<length ps] \<and>
     set (mi_heap m) = {h \<in> heads ps. mh_run h < j} \<and> distinct (map mh_run (mi_heap m)) \<and>
     sorted (map mh_rank (mi_heap m)) \<and> \<not> mi_done m \<and> mi_last m = None"

lemma prime_step:
  assumes "primed j m ps" "j < length ps"
  shows "\<exists>m'. advance j m = (Inr (), m') \<and> primed (Suc j) m' ps"
proof -
  have runs: "mi_runs m ! j = map Inr (ps ! j)" "length (mi_runs m) = length ps"
    using assms by (simp_all add: primed_def)
  have upd: "(map (\<lambda>i. map Inr (if i < j then tl (ps ! i) else ps ! i)) [0..<length ps])[j := map Inr (tl (ps ! j))]
      = (map (\<lambda>i. map Inr (if i < Suc j then tl (ps ! i) else ps ! i)) [0..<length ps] :: entry res list list)"
    by (rule nth_equalityI) (auto simp: nth_list_update less_Suc_eq)
  show ?thesis
  proof (cases "ps ! j")
    case Nil
    then have "{h \<in> heads ps. mh_run h < Suc j} = {h \<in> heads ps. mh_run h < j}"
      by (auto simp: heads_def less_Suc_eq)
    moreover have "mi_runs m = map (\<lambda>i. map Inr (if i < Suc j then tl (ps ! i) else ps ! i)) [0..<length ps]"
      using assms Nil by (auto simp: primed_def less_Suc_eq)
    ultimately show ?thesis using assms runs Nil by (auto simp: advance_def primed_def)
  next
    case (Cons e rest)
    obtain k op where e: "e = (k, op)" by fastforce
    let ?h = "\<lparr>mh_key = k, mh_run = j, mh_op = op\<rparr>"
    have "{h \<in> heads ps. mh_run h < Suc j} = insert ?h {h \<in> heads ps. mh_run h < j}"
      using assms(2) Cons e by (auto simp: heads_def less_Suc_eq MergeHead.equality)
    moreover have "j \<notin> mh_run ` {h \<in> heads ps. mh_run h < j}" by auto
    ultimately show ?thesis
      using assms runs Cons e upd by (auto simp: advance_def primed_def Let_def)
  qed
qed

lemma prime_all:
  "primed j m ps \<Longrightarrow> j \<le> length ps \<Longrightarrow>
   \<exists>m'. prime [j..<length ps] m = (Inr (), m') \<and> primed (length ps) m' ps"
proof (induction "length ps - j" arbitrary: j m)
  case 0
  then show ?case by auto
next
  case (Suc n)
  then have j: "j < length ps" by simp
  with prime_step [OF Suc.prems(1)] obtain m1 where
    "advance j m = (Inr (), m1)" "primed (Suc j) m1 ps" by blast
  with Suc.hyps(1) [of "Suc j" m1] Suc.hyps(2) j show ?case by (simp add: upt_conv_Cons)
qed

lemma merge_all:
  assumes "runs_ok runs"
  shows "merge_items (MergeIter_new (map (map Inr) runs)) = map Inr (bt_of_list (concat runs))"
proof -
  let ?m = "MergeIter_new (map (map Inr) runs)"
  have "primed 0 ?m runs"
    by (simp add: primed_def MergeIter_new_def) (rule nth_equalityI, simp_all)
  from prime_all [OF this] obtain m where p: "prime [0..<length runs] ?m = (Inr (), m)"
    and m: "primed (length runs) m runs" by auto
  have "{h \<in> heads runs. mh_run h < length runs} = heads runs" by (auto simp: heads_def)
  moreover have "map (\<lambda>i. map Inr (if i < length runs then tl (runs ! i) else runs ! i)) [0..<length runs]
      = (map (\<lambda>p. map Inr (tl p)) runs :: entry res list list)"
    by (rule nth_equalityI) simp_all
  ultimately have inv: "merge_inv m runs" and last: "mi_last m = None"
    using m assms by (auto simp: merge_inv_def primed_def pending_def)
  have loop: "merge_next ?m = merge_loop m" using p by (simp add: merge_next_def MergeIter_new_def)
  have all: "to_yield (mi_last m) runs = bt_of_list (concat runs)"
    by (simp add: to_yield_def last filter_id_conv)
  show ?thesis
  proof (cases "bt_of_list (concat runs)")
    case Nil
    then show ?thesis using merge_loop_inv [OF inv] all loop by (subst merge_items.simps) auto
  next
    case (Cons x xs)
    then obtain m' ps' where l: "merge_loop m = (Some (Inr x), m')" "merge_inv m' ps'"
        "to_yield (mi_last m') ps' = xs" "mi_last m' \<noteq> None"
      using merge_loop_inv [OF inv] all by auto
    then show ?thesis
      using merge_items_inv [OF l(2)] Cons loop by (subst merge_items.simps) simp
  qed
qed

section \<open>Correctness of the collection\<close>

definition versions :: "byte \<Rightarrow> bytes \<Rightarrow> (u64 \<times> op) list \<Rightarrow> entry list" where
  "versions t k grp = map (\<lambda>(seq, op). ((t, k, Reverse seq), op)) grp"

text \<open>The value a read makes of the newest visible version.\<close>

definition visible_value :: "entry list \<Rightarrow> byte \<Rightarrow> bytes \<Rightarrow> u64 \<Rightarrow> bytes option" where
  "visible_value es t k snap = Option.bind (visible es t k snap) into_value"

lemma user_key_versions: "e \<in> set (versions t k grp) \<Longrightarrow> user_key e = (t, k)"
  by (auto simp: versions_def)

lemma visible_keep:
  "min_snapshot \<le> snap \<Longrightarrow>
   visible (versions t k (take (gc_keep min_snapshot grp) grp)) t' k' snap =
   visible (versions t k grp) t' k' snap"
proof (induction grp)
  case (Cons v grp)
  obtain seq op where v: "v = (seq, op)" by fastforce
  have "visible (versions t k grp) t' k' snap = None" if "(t', k') \<noteq> (t, k)"
    by (rule visible_none) (use that user_key_versions in \<open>force simp: sees_def\<close>)
  with Cons show ?case by (auto simp: v versions_def sees_def)
qed simp

lemma lone_tombstone:
  "(case g of [(seq, Del)] \<Rightarrow> P seq | _ \<Rightarrow> False) \<longleftrightarrow> (\<exists>seq. g = [(seq, Del)] \<and> P seq)"
  by (auto split: list.splits op.splits)

lemma visible_emit_group:
  assumes "min_snapshot \<le> snap"
  shows "visible_value (emit_group t k grp min_snapshot) t' k' snap =
         visible_value (versions t k grp) t' k' snap"
proof (cases "case take (gc_keep min_snapshot grp) grp of [(seq, Del)] \<Rightarrow> seq \<le> min_snapshot | _ \<Rightarrow> False")
  case True
  then obtain seq where "take (gc_keep min_snapshot grp) grp = [(seq, Del)]"
    unfolding lone_tombstone by blast
  then have "visible (versions t k grp) t' k' snap = visible (versions t k [(seq, Del)]) t' k' snap"
    using visible_keep [OF assms, of t k grp t' k'] by simp
  then have "visible_value (versions t k grp) t' k' snap = None"
    by (simp add: visible_value_def) (simp add: versions_def)
  with True show ?thesis by (simp add: emit_group_def visible_value_def)
next
  case False
  then show ?thesis
    using visible_keep [OF assms, of t k grp t' k']
    by (simp add: emit_group_def visible_value_def versions_def)
qed

lemma emit_group_subseq: "subseq (emit_group t k grp min_snapshot) (versions t k grp)"
proof -
  have "subseq (take n grp) grp" for n :: nat and grp :: "(u64 \<times> op) list"
    by (metis append_take_drop_id list_emb_append2 subseq_order.refl subseq_append' append_Nil2 prefix_imp_subseq take_is_prefix)
  then show ?thesis by (auto simp: emit_group_def versions_def Let_def intro: subseq_map)
qed

lemma gc_items_spec:
  assumes "bt_ok (versions t k grp @ es)"
  shows "\<exists>out. gc_items min_snapshot (Some (t, k)) grp (map Inr es) = map Inr out \<and>
     subseq out (versions t k grp @ es) \<and>
     (\<forall>t' k' snap. min_snapshot \<le> snap \<longrightarrow>
        visible_value out t' k' snap = visible_value (versions t k grp @ es) t' k' snap)"
  using assms
proof (induction es arbitrary: t k grp)
  case Nil
  then show ?case using emit_group_subseq visible_emit_group by auto
next
  case (Cons e es)
  obtain t1 k1 s op where e: "e = ((t1, k1, Reverse s), op)" by (cases e rule: entry_cases)
  show ?case
  proof (cases "(t1, k1) = (t, k)")
    case True
    then have split: "versions t k grp @ e # es = versions t k (grp @ [(s, op)]) @ es"
      by (simp add: versions_def e)
    have "gc_items min_snapshot (Some (t, k)) grp (map Inr (e # es)) =
        gc_items min_snapshot (Some (t, k)) (grp @ [(s, op)]) (map Inr es)"
      using True by (simp add: e)
    then show ?thesis
      using Cons.IH [of t k "grp @ [(s, op)]"] Cons.prems unfolding split by simp
  next
    case False
    have split: "versions t1 k1 [(s, op)] @ es = e # es" by (simp add: versions_def e)
    have ok: "bt_ok (versions t1 k1 [(s, op)] @ es)"
      using Cons.prems by (simp add: split sorted_wrt_append)
    from Cons.IH [OF this] obtain out where out:
      "gc_items min_snapshot (Some (t1, k1)) [(s, op)] (map Inr es) = map Inr out"
      "subseq out (e # es)"
      "\<And>t' k' snap. min_snapshot \<le> snap \<Longrightarrow> visible_value out t' k' snap = visible_value (e # es) t' k' snap"
      unfolding split by blast
    have later: "user_key f \<noteq> (t, k)" if f: "f \<in> set (e # es)" "grp \<noteq> []" for f
    proof -
      obtain g where g: "g \<in> set (versions t k grp)" using f(2) by (cases grp) (auto simp: versions_def)
      have "bt_ok (g # e # es)" using Cons.prems g by (auto simp: sorted_wrt_append)
      then have "user_key g \<le> user_key e" "user_key e \<le> user_key f"
        using user_key_mono [of g "e # es" e] user_key_mono [of e es f] f(1) by auto
      with False g user_key_versions [OF g] show ?thesis by (auto simp: e)
    qed
    have vis: "visible_value (emit_group t k grp min_snapshot @ out) t' k' snap =
        visible_value (versions t k grp @ e # es) t' k' snap" if "min_snapshot \<le> snap" for t' k' snap
    proof (cases "(t', k') = (t, k) \<and> grp \<noteq> []")
      case True
      then have gone: "\<not> sees t' k' snap f" if "f \<in> set (e # es)" for f
        using later [OF that] by (auto simp: sees_def)
      have "f \<in> set (e # es)" if "f \<in> set out" for f using list_emb_set [OF out(2) that] by blast
      then have "visible (e # es) t' k' snap = None" "visible out t' k' snap = None"
        using gone by (auto intro!: visible_none simp del: visible_Cons)
      then show ?thesis using visible_emit_group [OF that, of t k grp t' k']
        by (auto simp: visible_value_def visible_append split: option.splits)
    next
      case other: False
      have gone: "\<not> sees t' k' snap f" if "f \<in> set (versions t k grp)" for f
        using other that user_key_versions [OF that] by (auto simp: sees_def versions_def)
      then have "visible (versions t k grp) t' k' snap = None" by (rule visible_none)
      moreover have "f \<in> set (versions t k grp)" if "f \<in> set (emit_group t k grp min_snapshot)" for f
        using list_emb_set [OF emit_group_subseq that] by blast
      then have "visible (emit_group t k grp min_snapshot) t' k' snap = None"
        using gone by (intro visible_none) blast
      ultimately show ?thesis using out(3) [OF that, of t' k']
        by (simp add: visible_value_def visible_append)
    qed
    show ?thesis
      using out(1) False vis list_emb_append_mono [OF emit_group_subseq [of t k grp min_snapshot] out(2)]
      by (intro exI [of _ "emit_group t k grp min_snapshot @ out"]) (auto simp: e)
  qed
qed

lemma gc_versions_spec:
  assumes "bt_ok es"
  shows "\<exists>out. gc_versions (map Inr es) min_snapshot = map Inr out \<and> subseq out es \<and>
     (\<forall>t k snap. min_snapshot \<le> snap \<longrightarrow> visible_value out t k snap = visible_value es t k snap)"
proof (cases es)
  case (Cons e es')
  obtain t k s op where e: "e = ((t, k, Reverse s), op)" by (cases e rule: entry_cases)
  show ?thesis
    using gc_items_spec [of t k "[(s, op)]" es' min_snapshot] assms
    by (simp add: gc_versions_def Cons e versions_def)
qed (simp add: gc_versions_def)

lemma bt_ok_subseq: "subseq out es \<Longrightarrow> bt_ok es \<Longrightarrow> bt_ok out"
proof (induction out es rule: list_emb.induct)
  case (list_emb_Cons2 x y xs ys)
  then show ?case using list_emb_set [OF list_emb_Cons2.hyps(2)] by auto
qed auto

end
