(* ===== verification/Sst_Props.thy ===== *)
theory Sst_Props
  imports Sst_Write Lsm_Merge
begin

text \<open>
  The properties of the run files, the merge and the version collection.
\<close>

section \<open>Write, open, read\<close>

text \<open>Three versions of two keys in the order a run has them.\<close>

definition demo_run :: "entry list" where
  "demo_run = [((0, [1], Reverse 5), Del), ((0, [1], Reverse 2), Put [7]), ((1, [4, 4], Reverse 3), Put [8, 9])]"

lemma demo_run_ok: "bt_ok demo_run" "run_fits 3 demo_run"
  by (simp_all add: demo_run_def run_fits_def length_enc)

text \<open>
  C12: A run file written from sorted entries (with encodings below two gigabytes) can be written, opens
  again, and answers every read exactly: a point read returns the newest version not newer than the
  snapshot, a range read overlays exactly these versions on the collector it is given, and a sweep
  yields the entries that were written, in order.
\<close>

theorem sst_roundtrip:
  assumes "bt_ok es" "run_fits hint es"
  shows "\<exists>data s. write_sorted (map Inr es) hint max_seq = Inr data \<and> sst_open path data = Inr s \<and>
    s_max_seq s = max_seq \<and> s_count s = of_nat (length es) \<and> \<not> is_legacy s \<and>
    sst_entries s = map Inr es \<and>
    (\<forall>t k snap. sst_get s t k snap = Inr (visible es t k snap)) \<and>
    (\<forall>t lo hi snap out. bt_ok out \<longrightarrow>
       (\<exists>out'. sst_range s t lo hi snap out = Inr out' \<and> bt_ok out' \<and>
          map_of out' = overlay lo hi (\<lambda>k. visible es t k snap) (map_of out)))"
proof -
  obtain data where data: "write_sorted (map Inr es) hint max_seq = Inr data"
    using write_sorted_total [OF assms(2)] by blast
  from write_sorted_repr [OF assms(1) data, of path] obtain s where
    s: "sst_open path data = Inr s" "sst_repr s es" "s_max_seq s = max_seq" "s_count s = of_nat (length es)"
      "\<not> is_legacy s" by blast
  with data show ?thesis using sst_get_visible [OF s(2)] sst_range_visible [OF s(2)] sst_entries_repr [OF s(2)]
    by blast
qed

theorem sst_roundtrip_witness:
  "\<exists>data s. write_sorted (map Inr demo_run) 3 5 = Inr data \<and> sst_open 1 data = Inr s \<and>
     sst_entries s = map Inr demo_run \<and> sst_get s 0 [1] 4 = Inr (Some (Put [7])) \<and>
     sst_get s 0 [1] 5 = Inr (Some Del) \<and> sst_get s 0 [2] 5 = Inr None"
proof -
  have "visible demo_run 0 [1] 4 = Some (Put [7])" "visible demo_run 0 [1] 5 = Some Del"
    "visible demo_run 0 [2] 5 = None"
    by (simp_all add: visible_def demo_run_def sees_def)
  then show ?thesis using sst_roundtrip [OF demo_run_ok, of 5 1] by metis
qed

section \<open>Bit rot\<close>

text \<open>
  C15: A change confined to at most four consecutive bytes of a block's payload, or to its stored
  checksum, is detected: reading the block is a corruption error, whatever surrounds it in the file.
\<close>

theorem corrupt_block_detected:
  assumes "length a < 2 ^ 64" "length u = length v" "length u \<le> 4" "u \<noteq> v"
  shows "read_block_at (a @ seal (x @ u @ y) @ z) V2 (of_nat (length a)) (length (seal (x @ u @ y))) = Inr (x @ u @ y) \<and>
    read_block_at (a @ (x @ v @ y) @ put_u32_le (crc32 (x @ u @ y)) @ z) V2 (of_nat (length a))
      (length (seal (x @ u @ y))) = Inl Corrupt \<and>
    (\<forall>c. length c = 4 \<longrightarrow> c \<noteq> put_u32_le (crc32 (x @ u @ y)) \<longrightarrow>
      read_block_at (a @ (x @ u @ y) @ c @ z) V2 (of_nat (length a)) (length (seal (x @ u @ y))) = Inl Corrupt)"
proof (intro conjI allI impI)
  show "read_block_at (a @ seal (x @ u @ y) @ z) V2 (of_nat (length a)) (length (seal (x @ u @ y))) = Inr (x @ u @ y)"
    by (rule read_sealed [OF assms(1) refl])
  have stored: "from_be32 (rev (put_u32_le w)) = Some w" for w by (simp add: put_u32_le_def)
  show "read_block_at (a @ (x @ v @ y) @ put_u32_le (crc32 (x @ u @ y)) @ z) V2 (of_nat (length a))
           (length (seal (x @ u @ y))) = Inl Corrupt"
    using assms(1,2) crc32_burst [OF assms(2,3,4), of x y] stored
    by (simp add: read_block_at_def read_at_def BLOCK_CRC_LEN_def Let_def)
  fix c assume c: "length c = 4" "c \<noteq> put_u32_le (crc32 (x @ u @ y))"
  have "from_be32 (rev c) \<noteq> Some (crc32 (x @ u @ y))"
    using c(2) by (auto simp: from_be32_iff put_u32_le_def rev_swap)
  then show "read_block_at (a @ (x @ u @ y) @ c @ z) V2 (of_nat (length a)) (length (seal (x @ u @ y))) = Inl Corrupt"
    using assms(1) c(1)
    by (cases "from_be32 (rev c)") (auto simp: read_block_at_def read_at_def BLOCK_CRC_LEN_def Let_def)
qed

theorem corrupt_block_detected_witness:
  "read_block_at ([9] @ seal [1, 2, 3] @ [5]) V2 1 7 = Inr [1, 2, 3] \<and>
   read_block_at ([9] @ [1, 0, 3] @ put_u32_le (crc32 [1, 2, 3]) @ [5]) V2 1 7 = Inl Corrupt"
  using corrupt_block_detected [of "[9]" "[2]" "[0]" "[1]" "[3]" "[5]"] by simp

section \<open>Merge and collection\<close>

text \<open>
  C13: The k-way merge of sorted runs over a binary heap yields exactly the sorted sequence of all their
  versions, where the run that comes last wins a position that several runs hold.
\<close>

theorem merge_reference:
  assumes "runs_ok runs"
  shows "merge_items (MergeIter_new (map (map Inr) runs)) = map Inr (bt_of_list (concat runs))"
  using assms by (rule merge_all)

theorem merge_reference_witness:
  "merge_items (MergeIter_new (map (map Inr) [demo_run, [((0, [1], Reverse 3), Put [6])]])) =
   map Inr [((0, [1], Reverse 5), Del), ((0, [1], Reverse 3), Put [6]), ((0, [1], Reverse 2), Put [7]),
     ((1, [4, 4], Reverse 3), Put [8, 9])]"
  using merge_reference [of "[demo_run, [((0, [1], Reverse 3), Put [6])]]"]
  by (simp add: runs_ok_def demo_run_def bt_of_list_def)

text \<open>
  C10: Collecting versions keeps a subsequence of the merged run and never changes what a snapshot at or
  above the floor reads, whatever the versions and tombstones are.
\<close>

theorem gc_keeps_views:
  assumes "bt_ok es"
  shows "\<exists>out. gc_versions (map Inr es) floor = map Inr out \<and> subseq out es \<and>
     (\<forall>t k snap. floor \<le> snap \<longrightarrow> visible_value out t k snap = visible_value es t k snap)"
  using assms by (rule gc_versions_spec)

theorem gc_keeps_views_witness:
  "\<exists>out. gc_versions (map Inr demo_run) 4 = map Inr out \<and> subseq out demo_run \<and>
     visible_value out 0 [1] 4 = Some [7] \<and> visible_value out 0 [1] 5 = None"
proof -
  have "visible_value demo_run 0 [1] 4 = Some [7]" "visible_value demo_run 0 [1] 5 = None"
    by (simp_all add: visible_value_def visible_def demo_run_def sees_def)
  then show ?thesis using gc_keeps_views [OF demo_run_ok(1), of 4] by fastforce
qed

end
