(* ===== verification/Native.thy ===== *)
theory Native
  imports Lsm_Merge Sst_Write Engine
begin

text \<open>
  The native LSM engine (\<open>storage/native/mod.rs\<close>): memtable, runs, write-ahead log, transactions,
  commit, flush, compaction, format upgrade and recovery. The engine's directory is part of its
  state: the run files by number and the bytes of the WAL. Disk failures are not modelled; every
  error the code itself produces is.
\<close>

section \<open>State\<close>

text \<open>\<open>table as u8\<close>.\<close>

primrec table_u8 :: "table_id \<Rightarrow> byte" where
  "table_u8 Meta = 0" | "table_u8 Planes = 1" | "table_u8 PlaneNames = 2" | "table_u8 Nodes = 3"
| "table_u8 Edges = 4" | "table_u8 AdjFwd = 5" | "table_u8 AdjRev = 6" | "table_u8 LabelIdx = 7"
| "table_u8 ExtKeys = 8" | "table_u8 PropIdx = 9" | "table_u8 NodePlane = 10"

record Store =
  st_mem :: "(MemKey, op) btree"
  st_mem_bytes :: nat
  st_committed_seq :: u64
  st_ssts :: "Sst list"
  st_next_sst :: u64

record ReplicatedOp =
  ro_table :: table_id
  ro_key :: bytes
  ro_value :: "bytes option"

record ReplicatedBatch =
  rb_seq :: u64
  rb_ops :: "ReplicatedOp list"

text \<open>
  \<open>ne_held\<close> is the flag of the write gate; \<open>ne_observed\<close> lists the batches handed to the registered
  replication observer, if there is one.
\<close>

record NativeEngine =
  ne_store :: Store
  ne_wal :: bytes
  ne_files :: run_files
  ne_held :: bool
  ne_write_timeout_ms :: u64
  ne_flush_threshold :: nat
  ne_readers :: "(u64, nat) btree"
  ne_retain_commits :: u64
  ne_read_only :: bool
  ne_observer :: bool
  ne_observed :: "ReplicatedBatch list"
  ne_last_maintenance_error :: "err option"

definition DEFAULT_FLUSH_THRESHOLD :: nat where
  "DEFAULT_FLUSH_THRESHOLD = 4 * 1024 * 1024"

definition COMPACTION_TRIGGER :: nat where
  "COMPACTION_TRIGGER = 4"

section \<open>The write gate\<close>

text \<open>
  \<open>WriteGate::acquire\<close>. The second argument is the time after which the current holder releases the
  slot (\<open>None\<close>: never), the third the limit; no result means that the call blocks forever.
\<close>

definition acquire :: "bool \<Rightarrow> nat option \<Rightarrow> nat option \<Rightarrow> unit res option" where
  "acquire held release timeout =
     (if \<not> held then Some (Inr ()) else
      case timeout of
        None \<Rightarrow> map_option (\<lambda>_. Inr ()) release
      | Some limit \<Rightarrow>
          (case release of
             None \<Rightarrow> Some (Inl Timeout)
           | Some d \<Rightarrow> if d \<le> limit then Some (Inr ()) else Some (Inl Timeout)))"

definition gate_timeout :: "NativeEngine \<Rightarrow> nat option" where
  "gate_timeout e = (if ne_write_timeout_ms e \<noteq> 0 then Some (unat (ne_write_timeout_ms e)) else None)"

text \<open>
  A call that finds the gate held waits. Its argument \<open>wait\<close> says what the holder does meanwhile: the
  time after which it releases the slot and the engine it leaves (\<open>None\<close>: it never does). What the
  call reads once it owns the slot, it reads from that engine.
\<close>

definition after_wait :: "(nat \<times> NativeEngine) option \<Rightarrow> NativeEngine \<Rightarrow> NativeEngine" where
  "after_wait wait e = (if ne_held e then (case wait of None \<Rightarrow> e | Some (_, e1) \<Rightarrow> e1) else e)"

text \<open>The timeout in nanoseconds; rounded up to one millisecond, capped at \<open>u64::MAX\<close>.\<close>

definition set_write_timeout :: "nat option \<Rightarrow> NativeEngine \<Rightarrow> NativeEngine" where
  "set_write_timeout timeout e =
     (let ms = (case timeout of
            None \<Rightarrow> 0
          | Some d \<Rightarrow> max (if d div 1000000 < 2 ^ 64 then of_nat (d div 1000000) else - 1) 1)
      in e\<lparr>ne_write_timeout_ms := ms\<rparr>)"

section \<open>Merged reads over memtable and runs\<close>

fun first_at :: "u64 \<Rightarrow> entry list \<Rightarrow> op option" where
  "first_at snapshot [] = None"
| "first_at snapshot ((k, op) # es) =
     (if un_reverse (snd (snd k)) \<le> snapshot then Some op else first_at snapshot es)"

definition mem_op :: "(MemKey, op) btree \<Rightarrow> byte \<Rightarrow> bytes \<Rightarrow> u64 \<Rightarrow> op option" where
  "mem_op mem table key snapshot =
     (let lo = (table, key, Reverse (- 1)); hi = (table, key, Reverse 0)
      in first_at snapshot (filter (\<lambda>(k, _). lo \<le> k \<and> k \<le> hi) mem))"

fun take_newest ::
    "u64 \<Rightarrow> entry list \<Rightarrow> bytes option \<Rightarrow> (bytes, op) btree \<Rightarrow> (bytes, op) btree" where
  "take_newest snapshot [] cur out = out"
| "take_newest snapshot (((_, user, seq), op) # es) cur out =
     (if cur = Some user then take_newest snapshot es cur out
      else if un_reverse seq > snapshot then take_newest snapshot es cur out
      else take_newest snapshot es (Some user) (bt_insert user op out))"

definition mem_range_ops ::
    "(MemKey, op) btree \<Rightarrow> byte \<Rightarrow> bytes \<Rightarrow> bytes option \<Rightarrow> u64 \<Rightarrow> (bytes, op) btree
     \<Rightarrow> (bytes, op) btree res" where
  "mem_range_ops mem table start end snapshot out =
     (let lo = (table, start, Reverse (- 1));
          hi = (case end of
                  Some e \<Rightarrow> (table, e, Reverse (- 1))
                | None \<Rightarrow> (table + 1, [], Reverse (- 1)))
      in res_bind (bt_range mem lo (Some hi)) (\<lambda>es. Inr (take_newest snapshot es None out)))"

fun ssts_get :: "Sst list \<Rightarrow> byte \<Rightarrow> bytes \<Rightarrow> u64 \<Rightarrow> bytes option res" where
  "ssts_get [] table key snapshot = Inr None"
| "ssts_get (s # ss) table key snapshot =
     res_bind (sst_get s table key snapshot) (\<lambda>r.
       case r of Some op \<Rightarrow> Inr (into_value op) | None \<Rightarrow> ssts_get ss table key snapshot)"

definition committed_get :: "Store \<Rightarrow> byte \<Rightarrow> bytes \<Rightarrow> u64 \<Rightarrow> bytes option res" where
  "committed_get store table key snapshot =
     (case mem_op (st_mem store) table key snapshot of
        Some op \<Rightarrow> Inr (into_value op)
      | None \<Rightarrow> ssts_get (rev (st_ssts store)) table key snapshot)"

fun ssts_range ::
    "Sst list \<Rightarrow> byte \<Rightarrow> bytes \<Rightarrow> bytes option \<Rightarrow> u64 \<Rightarrow> (bytes, op) btree \<Rightarrow> (bytes, op) btree res" where
  "ssts_range [] table start end snapshot out = Inr out"
| "ssts_range (s # ss) table start end snapshot out =
     res_bind (sst_range s table start end snapshot out) (ssts_range ss table start end snapshot)"

definition committed_values ::
    "Store \<Rightarrow> byte \<Rightarrow> bytes \<Rightarrow> bytes option \<Rightarrow> u64 \<Rightarrow> (bytes, bytes) btree res" where
  "committed_values store table start end snapshot =
     res_bind (ssts_range (st_ssts store) table start end snapshot []) (\<lambda>ops.
     res_bind (mem_range_ops (st_mem store) table start end snapshot ops) (\<lambda>ops.
       Inr (List.map_filter (\<lambda>(k, op). map_option (\<lambda>v. (k, v)) (into_value op)) ops)))"

section \<open>Transactions\<close>

definition rtx_get :: "NativeEngine \<Rightarrow> u64 \<Rightarrow> table_id \<Rightarrow> bytes \<Rightarrow> bytes option res" where
  "rtx_get e snapshot table key = committed_get (ne_store e) (table_u8 table) key snapshot"

definition rtx_range ::
    "NativeEngine \<Rightarrow> u64 \<Rightarrow> table_id \<Rightarrow> bytes \<Rightarrow> bytes option \<Rightarrow> kvpair list res" where
  "rtx_range e snapshot table start end =
     committed_values (ne_store e) (table_u8 table) start end snapshot"

text \<open>
  A write transaction holds the gate, so the store it reads does not change before its commit; it is
  a field of the transaction.
\<close>

record NativeWriteTxn =
  wt_store :: Store
  wt_snapshot :: u64
  wt_buf :: "(byte \<times> bytes, op) btree"

definition wtx_get :: "NativeWriteTxn \<Rightarrow> table_id \<Rightarrow> bytes \<Rightarrow> bytes option res" where
  "wtx_get t table key =
     (case map_of (wt_buf t) (table_u8 table, key) of
        Some op \<Rightarrow> Inr (into_value op)
      | None \<Rightarrow> committed_get (wt_store t) (table_u8 table) key (wt_snapshot t))"

fun overlay_buf ::
    "byte \<Rightarrow> bytes \<Rightarrow> bytes option \<Rightarrow> (byte \<times> bytes, op) btree \<Rightarrow> (bytes, bytes) btree
     \<Rightarrow> (bytes, bytes) btree" where
  "overlay_buf table start end [] out = out"
| "overlay_buf table start end (((t, user), op) # buf) out =
     (if t \<noteq> table \<or> \<not> in_range start end user then overlay_buf table start end buf out
      else overlay_buf table start end buf
             (case op of Put v \<Rightarrow> bt_insert user v out | Del \<Rightarrow> bt_remove user out))"

definition wtx_range ::
    "NativeWriteTxn \<Rightarrow> table_id \<Rightarrow> bytes \<Rightarrow> bytes option \<Rightarrow> kvpair list res" where
  "wtx_range t table start end =
     res_bind (committed_values (wt_store t) (table_u8 table) start end (wt_snapshot t)) (\<lambda>out.
       Inr (overlay_buf (table_u8 table) start end (wt_buf t) out))"

definition wtx_put :: "table_id \<Rightarrow> bytes \<Rightarrow> bytes \<Rightarrow> (NativeWriteTxn, unit) act" where
  "wtx_put table key value t =
     (Inr (), t\<lparr>wt_buf := bt_insert (table_u8 table, key) (Put value) (wt_buf t)\<rparr>)"

definition wtx_delete :: "table_id \<Rightarrow> bytes \<Rightarrow> (NativeWriteTxn, unit) act" where
  "wtx_delete table key t =
     (Inr (), t\<lparr>wt_buf := bt_insert (table_u8 table, key) Del (wt_buf t)\<rparr>)"

definition wtx_delete_prefix :: "table_id \<Rightarrow> bytes \<Rightarrow> (NativeWriteTxn, unit) act" where
  "wtx_delete_prefix table p t =
     (let tb = table_u8 table;
          buf = filter (\<lambda>((bt, k), _). \<not> (bt = tb \<and> prefix p k)) (wt_buf t);
          t = t\<lparr>wt_buf := buf\<rparr> in
      case committed_values (wt_store t) tb p (prefix_successor p) (wt_snapshot t) of
        Inl e \<Rightarrow> (Inl e, t)
      | Inr victims \<Rightarrow>
          (Inr (), t\<lparr>wt_buf := fold (\<lambda>k. bt_insert (tb, k) Del) (map fst victims) buf\<rparr>))"

definition native_vtable :: "NativeWriteTxn vtable" where
  "native_vtable = \<lparr>v_get = wtx_get, v_range = wtx_range, v_put = wtx_put,
                    v_delete = wtx_delete, v_delete_prefix = wtx_delete_prefix\<rparr>"

section \<open>Snapshots and retention\<close>

definition set_retention :: "u64 option \<Rightarrow> NativeEngine \<Rightarrow> NativeEngine" where
  "set_retention keep_commits e =
     e\<lparr>ne_retain_commits := (case keep_commits of None \<Rightarrow> 0 | Some n \<Rightarrow> n)\<rparr>"

abbreviation committed_seq :: "NativeEngine \<Rightarrow> u64" where
  "committed_seq e \<equiv> st_committed_seq (ne_store e)"

definition retention_floor :: "NativeEngine \<Rightarrow> u64 \<Rightarrow> u64" where
  "retention_floor e committed =
     (if ne_retain_commits e = 0 then 0
      else if ne_retain_commits e \<le> committed then committed - ne_retain_commits e else 0)"

definition retained_floor :: "NativeEngine \<Rightarrow> u64" where
  "retained_floor e = retention_floor e (committed_seq e)"

definition register_reader :: "u64 \<Rightarrow> NativeEngine \<Rightarrow> NativeEngine" where
  "register_reader snapshot e =
     e\<lparr>ne_readers := bt_insert snapshot
         (Suc (case map_of (ne_readers e) snapshot of None \<Rightarrow> 0 | Some n \<Rightarrow> n)) (ne_readers e)\<rparr>"

definition begin_read :: "NativeEngine \<Rightarrow> u64 res \<times> NativeEngine" where
  "begin_read e = (Inr (committed_seq e), register_reader (committed_seq e) e)"

definition begin_read_at :: "u64 \<Rightarrow> NativeEngine \<Rightarrow> u64 res \<times> NativeEngine" where
  "begin_read_at snapshot e =
     (if snapshot > committed_seq e then (Inl InvalidArgument, e)
      else if snapshot < retention_floor e (committed_seq e) then (Inl InvalidArgument, e)
      else (Inr snapshot, register_reader snapshot e))"

definition drop_read :: "u64 \<Rightarrow> NativeEngine \<Rightarrow> NativeEngine" where
  "drop_read snapshot e =
     (case map_of (ne_readers e) snapshot of
        None \<Rightarrow> e
      | Some n \<Rightarrow>
          if n - 1 = 0 then e\<lparr>ne_readers := bt_remove snapshot (ne_readers e)\<rparr>
          else e\<lparr>ne_readers := bt_insert snapshot (n - 1) (ne_readers e)\<rparr>)"

definition min_snapshot :: "NativeEngine \<Rightarrow> u64 \<Rightarrow> u64" where
  "min_snapshot e committed =
     (let reader_floor = min (case ne_readers e of [] \<Rightarrow> committed | (s, _) # _ \<Rightarrow> s) committed
      in min reader_floor (retention_floor e committed))"

section \<open>Flush, compaction, upgrade\<close>

definition maybe_flush :: "NativeEngine \<Rightarrow> unit res \<times> NativeEngine" where
  "maybe_flush e =
     (let store = ne_store e in
      if st_mem_bytes store < ne_flush_threshold e \<or> st_mem store = [] then (Inr (), e) else
      let n = st_next_sst store in
      case sst_write (st_mem store) (st_committed_seq store) of
        Inl er \<Rightarrow> (Inl er, e)
      | Inr data \<Rightarrow>
          (let e = e\<lparr>ne_files := bt_insert n data (ne_files e)\<rparr> in
           case sst_open n data of
             Inl er \<Rightarrow> (Inl er, e)
           | Inr s \<Rightarrow>
               (Inr (), e\<lparr>ne_store := store\<lparr>st_next_sst := n + 1, st_ssts := st_ssts store @ [s],
                                          st_mem := [], st_mem_bytes := 0\<rparr>,
                         ne_wal := []\<rparr>)))"

text \<open>The file numbers a compaction removes, in its order: newest run first.\<close>

definition unlink_order :: "Sst list \<Rightarrow> u64 list" where
  "unlink_order old = map s_path (rev old)"

definition maybe_compact :: "NativeEngine \<Rightarrow> unit res \<times> NativeEngine" where
  "maybe_compact e =
     (let store = ne_store e; runs = st_ssts store; next = st_next_sst store in
      if length runs \<le> COMPACTION_TRIGGER then (Inr (), e) else
      let min_snap = min_snapshot e (st_committed_seq store);
          max_seq = foldl max 0 (map s_max_seq runs);
          count_hint = unat (sum_list (map s_count runs));
          merged = merge_items (MergeIter_new (map sst_entries runs));
          kept = gc_versions merged min_snap in
      case write_sorted kept count_hint max_seq of
        Inl er \<Rightarrow> (Inl er, e)
      | Inr data \<Rightarrow>
          (let e = e\<lparr>ne_files := bt_insert next data (ne_files e)\<rparr> in
           case sst_open next data of
             Inl er \<Rightarrow> (Inl er, e)
           | Inr s \<Rightarrow>
               (Inr (), e\<lparr>ne_store := store\<lparr>st_ssts := s # drop (length runs) (st_ssts store),
                                          st_next_sst := next + 1\<rparr>,
                         ne_files := fold bt_remove (unlink_order runs) (ne_files e)\<rparr>)))"

definition legacy_runs :: "NativeEngine \<Rightarrow> nat" where
  "legacy_runs e = length (filter is_legacy (st_ssts (ne_store e)))"

text \<open>One turn of the loop of \<open>upgrade_runs\<close>; \<open>None\<close> when no legacy run is left.\<close>

definition upgrade_one :: "NativeEngine \<Rightarrow> (unit res \<times> NativeEngine) option" where
  "upgrade_one e =
     (let store = ne_store e; next = st_next_sst store in
      case position is_legacy (st_ssts store) of
        None \<Rightarrow> None
      | Some i \<Rightarrow>
          (let old = st_ssts store ! i in
           case write_sorted (sst_entries old) (unat (s_count old)) (s_max_seq old) of
             Inl er \<Rightarrow> Some (Inl er, e)
           | Inr data \<Rightarrow>
               (let e = e\<lparr>ne_files := bt_insert next data (ne_files e)\<rparr> in
                case sst_open next data of
                  Inl er \<Rightarrow> Some (Inl er, e)
                | Inr fresh \<Rightarrow>
                    Some (Inr (), e\<lparr>ne_store := store\<lparr>st_next_sst := next + 1,
                                                    st_ssts := (st_ssts store)[i := fresh]\<rparr>,
                                   ne_files := bt_remove (s_path old) (ne_files e)\<rparr>))))"

lemma position_Some: "position P xs = Some i \<Longrightarrow> i < length xs \<and> P (xs ! i)"
  by (induction xs arbitrary: i) (auto split: if_splits)

lemma length_filter_update:
  "i < length xs \<Longrightarrow> P (xs ! i) \<Longrightarrow> \<not> P v \<Longrightarrow> length (filter P (xs[i := v])) < length (filter P xs)"
  by (induction xs arbitrary: i) (auto split: nat.splits)

lemma upgrade_one_legacy:
  assumes "upgrade_one e = Some (Inr (), e')"
  shows "legacy_runs e' < legacy_runs e"
proof -
  let ?ss = "st_ssts (ne_store e)"
  obtain i data fresh where i: "position is_legacy ?ss = Some i"
    and w: "write_sorted (sst_entries (?ss ! i)) (unat (s_count (?ss ! i))) (s_max_seq (?ss ! i)) = Inr data"
    and f: "sst_open (st_next_sst (ne_store e)) data = Inr fresh"
    and e': "st_ssts (ne_store e') = ?ss[i := fresh]"
    using assms by (auto simp: upgrade_one_def Let_def split: option.splits sum.splits)
  show ?thesis
    using length_filter_update [of i ?ss is_legacy fresh] position_Some [OF i] written_version [OF w f]
    by (simp add: legacy_runs_def e')
qed

function upgrade_loop :: "nat \<Rightarrow> NativeEngine \<Rightarrow> nat res \<times> NativeEngine" where
  "upgrade_loop n e =
     (case upgrade_one e of
        None \<Rightarrow> (Inr n, e)
      | Some (Inl er, e) \<Rightarrow> (Inl er, e)
      | Some (Inr _, e) \<Rightarrow> upgrade_loop (Suc n) e)"
  by pat_completeness auto
termination
  by (relation "measure (\<lambda>(_, e). legacy_runs e)") (auto simp: upgrade_one_legacy)

declare upgrade_loop.simps [simp del]

text \<open>The pass holds the writer slot from before its first look at the runs to its end.\<close>

definition upgrade_runs :: "(nat \<times> NativeEngine) option \<Rightarrow> NativeEngine \<Rightarrow> (nat res \<times> NativeEngine) option" where
  "upgrade_runs wait e =
     map_option (\<lambda>_. upgrade_loop 0 (after_wait wait e)) (acquire (ne_held e) (map_option fst wait) None)"

section \<open>The write-ahead log\<close>

record WalOp =
  wo_table :: byte
  wo_key :: bytes
  wo_value :: "bytes option"

record WalBatch =
  wb_seq :: u64
  wb_ops :: "WalOp list"

text \<open>\<open>postcard::to_stdvec\<close> and \<open>postcard::from_bytes\<close> at \<open>WalBatch\<close>, a parameter of the model.\<close>

record wal_codec =
  wc_to :: "WalBatch \<Rightarrow> bytes"
  wc_from :: "bytes \<Rightarrow> WalBatch option"

definition wal_codec_ok :: "wal_codec \<Rightarrow> bool" where
  "wal_codec_ok wc \<longleftrightarrow> (\<forall>b. wc_from wc (wc_to wc b) = Some b)"

definition wal_record_len :: "nat \<Rightarrow> u32 res" where
  "wal_record_len n = (if n < 2 ^ 32 then Inr (of_nat n) else Inl InvalidArgument)"

text \<open>The log after the append.\<close>

definition append_batch :: "wal_codec \<Rightarrow> WalBatch \<Rightarrow> bytes \<Rightarrow> bytes res" where
  "append_batch wc batch wal =
     (let body = wc_to wc batch in
      res_bind (wal_record_len (length body)) (\<lambda>len.
        Inr (wal @ put_u32_le len @ put_u32_le (crc32 body) @ body)))"

definition op_of :: "bytes option \<Rightarrow> op" where
  "op_of v = (case v of None \<Rightarrow> Del | Some v \<Rightarrow> Put v)"

fun replay_ops :: "u64 \<Rightarrow> WalOp list \<Rightarrow> Store \<Rightarrow> Store" where
  "replay_ops seq [] store = store"
| "replay_ops seq (o1 # ops) store =
     (let entry = op_of (wo_value o1) in
      replay_ops seq ops
        (store\<lparr>st_mem_bytes := st_mem_bytes store + 1 + length (wo_key o1) + 8 + value_len entry,
               st_mem := bt_insert (wo_table o1, wo_key o1, Reverse seq) entry (st_mem store)\<rparr>))"

text \<open>The next intact record of the unread log and what follows it.\<close>

definition next_record :: "wal_codec \<Rightarrow> bytes \<Rightarrow> (WalBatch \<times> bytes) option" where
  "next_record wc c =
     Option.bind (cursor_u32 c) (\<lambda>(len, c).
     Option.bind (cursor_u32 c) (\<lambda>(crc, c).
     Option.bind (cursor_bytes (unat len) c) (\<lambda>(body, c).
       if crc32 body \<noteq> crc then None else
       map_option (\<lambda>b. (b, c)) (wc_from wc body))))"

lemma next_record_length: "next_record wc c = Some (b, r) \<Longrightarrow> length r < length c"
proof -
  assume "next_record wc c = Some (b, r)"
  then obtain l c1 v c2 x where c: "cursor_u32 c = Some (l, c1)" "cursor_u32 c1 = Some (v, c2)"
    "cursor_bytes (unat l) c2 = Some (x, r)"
    by (auto simp: next_record_def bind_eq_Some_conv split: if_splits)
  have "length c1 < length c"
    using c(1) by (auto simp: cursor_u32_def cursor_bytes_def split: if_splits option.splits)
  with cursor_length(3) [OF c(2)] cursor_length(2) [OF c(3)] show ?thesis by linarith
qed

text \<open>The rebuilt store and the length of the valid prefix.\<close>

function replay :: "wal_codec \<Rightarrow> bytes \<Rightarrow> nat \<Rightarrow> Store \<Rightarrow> nat \<times> Store" where
  "replay wc c valid store =
     (case next_record wc c of
        None \<Rightarrow> (valid, store)
      | Some (batch, r) \<Rightarrow>
          (let store = replay_ops (wb_seq batch) (wb_ops batch) store in
           replay wc r (valid + (length c - length r))
             (store\<lparr>st_committed_seq := max (st_committed_seq store) (wb_seq batch)\<rparr>)))"
  by pat_completeness auto
termination
  by (relation "measure (\<lambda>(_, c, _, _). length c)") (auto simp: next_record_length)

declare replay.simps [simp del]

section \<open>Opening\<close>

text \<open>A closed database directory; \<open>di_locked\<close> when a process holds its lock file.\<close>

record directory =
  di_files :: run_files
  di_wal :: bytes
  di_locked :: bool

definition lock_directory :: "directory \<Rightarrow> directory res" where
  "lock_directory d = (if di_locked d then Inl Conflict else Inr (d\<lparr>di_locked := True\<rparr>))"

fun load_ssts :: "(u64 \<times> bytes) list \<Rightarrow> Store \<Rightarrow> Store res" where
  "load_ssts [] store = Inr store"
| "load_ssts ((n, data) # fs) store =
     res_bind (sst_open n data) (\<lambda>s.
       load_ssts fs (store\<lparr>st_committed_seq := max (st_committed_seq store) (s_max_seq s),
                           st_ssts := st_ssts store @ [s]\<rparr>))"

definition open_with_options ::
    "wal_codec \<Rightarrow> directory \<Rightarrow> nat \<Rightarrow> bool \<Rightarrow> NativeEngine res" where
  "open_with_options wc d flush_threshold read_only =
     res_bind (lock_directory d) (\<lambda>d.
     res_bind (load_ssts (sst_list (di_files d))
       \<lparr>st_mem = [], st_mem_bytes = 0, st_committed_seq = 0, st_ssts = [],
        st_next_sst = next_number (di_files d)\<rparr>) (\<lambda>store.
       let (valid_len, store) = replay wc (di_wal d) 0 store in
       Inr \<lparr>ne_store = store, ne_wal = take valid_len (di_wal d), ne_files = di_files d,
            ne_held = False, ne_write_timeout_ms = 0, ne_flush_threshold = flush_threshold,
            ne_readers = [], ne_retain_commits = 0, ne_read_only = read_only,
            ne_observer = False, ne_observed = [], ne_last_maintenance_error = None\<rparr>))"

definition native_open :: "wal_codec \<Rightarrow> directory \<Rightarrow> NativeEngine res" where
  "native_open wc d = open_with_options wc d DEFAULT_FLUSH_THRESHOLD False"

definition open_read_only :: "wal_codec \<Rightarrow> directory \<Rightarrow> NativeEngine res" where
  "open_read_only wc d = open_with_options wc d DEFAULT_FLUSH_THRESHOLD True"

section \<open>Commit\<close>

type_synonym staged = "(byte \<times> bytes, op) btree"

definition wal_batch :: "u64 \<Rightarrow> staged \<Rightarrow> WalBatch" where
  "wal_batch seq ops =
     \<lparr>wb_seq = seq,
      wb_ops = map (\<lambda>((t, k), op). \<lparr>wo_table = t, wo_key = k, wo_value = into_value op\<rparr>) ops\<rparr>"

text \<open>\<open>TableId::from_index(..).expect(..)\<close> panics on an unknown table byte.\<close>

definition replicated_batch :: "u64 \<Rightarrow> staged \<Rightarrow> ReplicatedBatch res" where
  "replicated_batch seq ops =
     res_bind (res_map (\<lambda>((t, k), op).
       res_bind (ok_or Panic (table_from_index t)) (\<lambda>tb.
         Inr \<lparr>ro_table = tb, ro_key = k, ro_value = into_value op\<rparr>)) ops) (\<lambda>rs.
     Inr \<lparr>rb_seq = seq, rb_ops = rs\<rparr>)"

fun publish :: "u64 \<Rightarrow> staged \<Rightarrow> Store \<Rightarrow> Store" where
  "publish seq [] store = store"
| "publish seq (((t, k), op) # ops) store =
     publish seq ops
       (store\<lparr>st_mem_bytes := st_mem_bytes store + 1 + length k + 8 + value_len op,
              st_mem := bt_insert (t, k, Reverse seq) op (st_mem store)\<rparr>)"

definition record_maintenance :: "unit res \<Rightarrow> NativeEngine \<Rightarrow> NativeEngine" where
  "record_maintenance outcome e =
     e\<lparr>ne_last_maintenance_error := (case outcome of Inl er \<Rightarrow> Some er | Inr _ \<Rightarrow> None)\<rparr>"

text \<open>The registered observer sees the batch after it is durable and before it is published.\<close>

definition notify_observer :: "u64 \<Rightarrow> staged \<Rightarrow> NativeEngine \<Rightarrow> NativeEngine res" where
  "notify_observer seq ops e =
     (if ne_observer e
      then res_bind (replicated_batch seq ops) (\<lambda>b. Inr (e\<lparr>ne_observed := ne_observed e @ [b]\<rparr>))
      else Inr e)"

definition maintain :: "NativeEngine \<Rightarrow> unit res \<times> NativeEngine" where
  "maintain e =
     (case maybe_flush e of (Inl er, e) \<Rightarrow> (Inl er, e) | (Inr _, e) \<Rightarrow> maybe_compact e)"

definition durable_commit ::
    "wal_codec \<Rightarrow> u64 \<Rightarrow> staged \<Rightarrow> NativeEngine \<Rightarrow> u64 res \<times> NativeEngine" where
  "durable_commit wc seq ops e =
     (case append_batch wc (wal_batch seq ops) (ne_wal e) of
        Inl er \<Rightarrow> (Inl er, e)
      | Inr wal \<Rightarrow>
          (let e = e\<lparr>ne_wal := wal\<rparr> in
           case notify_observer seq ops e of
             Inl er \<Rightarrow> (Inl er, e)
           | Inr e \<Rightarrow>
               (case maintain (e\<lparr>ne_store := (publish seq ops (ne_store e))\<lparr>st_committed_seq := seq\<rparr>\<rparr>) of
                  (r, e) \<Rightarrow> (Inr seq, record_maintenance r e))))"

definition begin_write_unchecked ::
    "(nat \<times> NativeEngine) option \<Rightarrow> NativeEngine \<Rightarrow> (NativeWriteTxn res \<times> NativeEngine) option" where
  "begin_write_unchecked wait e =
     map_option (\<lambda>r. case r of
         Inl er \<Rightarrow> (Inl er, e)
       | Inr _ \<Rightarrow>
           (let e = after_wait wait e in
            (Inr \<lparr>wt_store = ne_store e, wt_snapshot = committed_seq e, wt_buf = []\<rparr>,
             e\<lparr>ne_held := True\<rparr>)))
       (acquire (ne_held e) (map_option fst wait) (gate_timeout e))"

definition begin_write ::
    "(nat \<times> NativeEngine) option \<Rightarrow> NativeEngine \<Rightarrow> (NativeWriteTxn res \<times> NativeEngine) option" where
  "begin_write wait e =
     (if ne_read_only e then Some (Inl ReadOnly, e) else begin_write_unchecked wait e)"

text \<open>Committing consumes the transaction and with it the gate.\<close>

definition release_gate :: "'a res \<times> NativeEngine \<Rightarrow> unit res \<times> NativeEngine" where
  "release_gate re = (case re of (r, e) \<Rightarrow>
     ((case r of Inl er \<Rightarrow> Inl er | Inr _ \<Rightarrow> Inr ()), e\<lparr>ne_held := False\<rparr>))"

definition native_commit ::
    "wal_codec \<Rightarrow> NativeWriteTxn \<Rightarrow> NativeEngine \<Rightarrow> unit res \<times> NativeEngine" where
  "native_commit wc t e =
     release_gate (if wt_buf t = [] then (Inr 0, e)
                   else durable_commit wc (wt_snapshot t + 1) (wt_buf t) e)"

definition commit_at_least ::
    "wal_codec \<Rightarrow> u64 \<Rightarrow> NativeWriteTxn \<Rightarrow> NativeEngine \<Rightarrow> unit res \<times> NativeEngine" where
  "commit_at_least wc floor t e =
     release_gate (if wt_buf t = [] then (Inr 0, e)
                   else durable_commit wc (max (wt_snapshot t + 1) floor) (wt_buf t) e)"

definition apply_replicated ::
    "wal_codec \<Rightarrow> (nat \<times> NativeEngine) option \<Rightarrow> ReplicatedBatch \<Rightarrow> NativeEngine \<Rightarrow>
       (unit res \<times> NativeEngine) option" where
  "apply_replicated wc wait batch e =
     (if rb_ops batch = [] then Some (Inr (), e) else
      map_option (\<lambda>r. case r of
          Inl er \<Rightarrow> (Inl er, e)
        | Inr _ \<Rightarrow>
            (let e = after_wait wait e in
             if rb_seq batch \<le> committed_seq e then (Inl Conflict, e\<lparr>ne_held := False\<rparr>)
             else
              (let ops = bt_of_list (map (\<lambda>o1. ((table_u8 (ro_table o1), ro_key o1), op_of (ro_value o1)))
                           (rb_ops batch))
               in release_gate (durable_commit wc (rb_seq batch) ops e))))
        (acquire (ne_held e) (map_option fst wait) (gate_timeout e)))"

definition set_wal_observer :: "bool \<Rightarrow> NativeEngine \<Rightarrow> NativeEngine" where
  "set_wal_observer f e = e\<lparr>ne_observer := f\<rparr>"

end
