(* ===== verification/Native_Reads.thy ===== *)
theory Native_Reads
  imports Native
begin

text \<open>
  What the engine's merged reads return. A source of versions (\<open>version_source\<close>) is the contract that
  the memtable and a run share: it answers from a sorted list of versions. A store is a stack of
  sources, oldest first; when every source supersedes the older ones, reading the newest source that
  has a visible version is reading the union of all versions, and the write transaction fulfils the
  contract \<open>kv_txn\<close> of the graph layer.
\<close>

section \<open>Visible versions\<close>

lemma visible_iff:
  assumes "bt_ok es"
  shows "visible es t k snap = Some op \<longleftrightarrow>
    (\<exists>s. ((t, k, Reverse s), op) \<in> set es \<and> s \<le> snap \<and>
         (\<forall>s' op'. ((t, k, Reverse s'), op') \<in> set es \<longrightarrow> s' \<le> snap \<longrightarrow> s' \<le> s))"
  using assms
proof (induction es)
  case (Cons e es)
  obtain t1 k1 s1 op1 where e: "e = ((t1, k1, Reverse s1), op1)" by (cases e rule: entry_cases)
  have later: "s' < s1" if "((t1, k1, Reverse s'), op') \<in> set es" for s' op'
    using Cons.prems that e by force
  show ?case
  proof (cases "sees t k snap e")
    case True
    then show ?thesis using later e by (fastforce simp: sees_def)
  next
    case False
    then show ?thesis using Cons e by (auto simp: sees_def)
  qed
qed simp

lemma visible_None_iff:
  "visible es t k snap = None \<longleftrightarrow> (\<forall>s op. ((t, k, Reverse s), op) \<in> set es \<longrightarrow> \<not> s \<le> snap)"
proof
  show "visible es t k snap = None \<Longrightarrow> \<forall>s op. ((t, k, Reverse s), op) \<in> set es \<longrightarrow> \<not> s \<le> snap"
    by (induction es) (auto simp: sees_def split: if_splits)
next
  assume a: "\<forall>s op. ((t, k, Reverse s), op) \<in> set es \<longrightarrow> \<not> s \<le> snap"
  show "visible es t k snap = None"
  proof (rule visible_none)
    fix e assume "e \<in> set es"
    with a show "\<not> sees t k snap e" by (cases e rule: entry_cases) (auto simp: sees_def)
  qed
qed

lemma visible_cong:
  assumes "bt_ok es" "bt_ok fs"
    and same: "\<And>s op. s \<le> snap \<Longrightarrow> ((t, k, Reverse s), op) \<in> set es \<longleftrightarrow> ((t, k, Reverse s), op) \<in> set fs"
  shows "visible es t k snap = visible fs t k snap"
proof -
  have "visible es t k snap = Some op \<longleftrightarrow> visible fs t k snap = Some op" for op
    unfolding visible_iff [OF assms(1)] visible_iff [OF assms(2)] using same by blast
  then show ?thesis by (metis not_None_eq)
qed

definition supersedes :: "entry list \<Rightarrow> entry list \<Rightarrow> bool" where
  "supersedes new old \<longleftrightarrow>
     (\<forall>e \<in> set old. e \<in> set new \<or> (\<forall>e' \<in> set new. entry_seq e < entry_seq e'))"

lemma supersedesD:
  "supersedes new old \<Longrightarrow> ((t, k, Reverse s), op) \<in> set old \<Longrightarrow> ((t', k', Reverse s'), op') \<in> set new \<Longrightarrow>
   s' \<le> s \<Longrightarrow> ((t, k, Reverse s), op) \<in> set new"
  unfolding supersedes_def by fastforce

lemma bt_unique: "bt_ok es \<Longrightarrow> (k, v) \<in> set es \<Longrightarrow> (k, v') \<in> set es \<Longrightarrow> v = v'"
  by (simp add: bt_in_set)

lemma map_of_rev_bt: "bt_ok m \<Longrightarrow> map_of (rev m) = map_of m"
  by (simp add: bt_ok_distinct map_of_inject_set [THEN iffD2] rev_map [symmetric] distinct_rev)

lemma set_merged:
  assumes "bt_ok old" "bt_ok new"
  shows "(k, v) \<in> set (bt_of_list (old @ new)) \<longleftrightarrow>
    (k, v) \<in> set new \<or> (k, v) \<in> set old \<and> (\<forall>v'. (k, v') \<notin> set new)"
proof -
  have "(k, v) \<in> set (bt_of_list (old @ new)) \<longleftrightarrow> (map_of old ++ map_of new) k = Some v"
    using assms by (simp add: bt_in_set bt_of_list_map_of map_of_rev_bt)
  then show ?thesis
    using assms by (auto simp: map_add_Some_iff bt_in_set)
qed

lemma merged_visible:
  assumes old: "bt_ok old" and new: "bt_ok new" and sup: "supersedes new old"
  shows "visible (bt_of_list (old @ new)) t k snap =
    (case visible new t k snap of None \<Rightarrow> visible old t k snap | Some op \<Rightarrow> Some op)"
proof (cases "visible new t k snap")
  case None
  then have none: "\<not> s \<le> snap" if "((t, k, Reverse s), op) \<in> set new" for s op
    using that by (auto simp: visible_None_iff)
  have "visible (bt_of_list (old @ new)) t k snap = visible old t k snap"
    by (rule visible_cong) (use none in \<open>auto simp: set_merged old new\<close>)
  with None show ?thesis by simp
next
  case (Some op)
  then obtain s where s: "((t, k, Reverse s), op) \<in> set new" "s \<le> snap"
    and top: "\<And>s' op'. ((t, k, Reverse s'), op') \<in> set new \<Longrightarrow> s' \<le> snap \<Longrightarrow> s' \<le> s"
    by (auto simp: visible_iff new)
  have "s' \<le> s" if "((t, k, Reverse s'), op') \<in> set old" "s' \<le> snap" for s' op'
    using supersedesD [OF sup that(1) s(1)] top that(2) by (metis linear)
  then have "visible (bt_of_list (old @ new)) t k snap = Some op"
    using s top by (auto simp: visible_iff set_merged old new)
  with Some show ?thesis by simp
qed

section \<open>Sources of versions\<close>

locale version_source =
  fixes get :: "'r \<Rightarrow> byte \<Rightarrow> bytes \<Rightarrow> u64 \<Rightarrow> op option res"
    and range :: "'r \<Rightarrow> byte \<Rightarrow> bytes \<Rightarrow> bytes option \<Rightarrow> u64 \<Rightarrow> (bytes, op) btree \<Rightarrow> (bytes, op) btree res"
    and repr :: "'r \<Rightarrow> entry list \<Rightarrow> bool"
  assumes repr_ok: "repr r es \<Longrightarrow> bt_ok es"
    and get_visible: "repr r es \<Longrightarrow> get r t k snap = Inr (visible es t k snap)"
    and range_visible: "repr r es \<Longrightarrow> bt_ok out \<Longrightarrow> unat t < 255 \<Longrightarrow>
          (case hi of None \<Rightarrow> True | Some h \<Rightarrow> lo \<le> h) \<Longrightarrow>
          \<exists>out'. range r t lo hi snap out = Inr out' \<and> bt_ok out' \<and>
                 map_of out' = overlay lo hi (\<lambda>k. visible es t k snap) (map_of out)"
begin

text \<open>Asking a newer source before an older content is asking their union.\<close>

lemma get_over:
  assumes "repr r es" "bt_ok old" "supersedes es old"
  shows "res_bind (get r t k snap) (\<lambda>o1. Inr (case o1 of None \<Rightarrow> visible_value old t k snap
           | Some op \<Rightarrow> into_value op)) =
         Inr (visible_value (bt_of_list (old @ es)) t k snap)"
  using assms repr_ok [OF assms(1)]
  by (auto simp: get_visible merged_visible visible_value_def split: option.splits)

text \<open>Sweeping a newer source over the sweep of an older content is sweeping their union.\<close>

lemma range_over:
  assumes "repr r es" "bt_ok old" "supersedes es old" "bt_ok out" "unat t < 255"
    and "case hi of None \<Rightarrow> True | Some h \<Rightarrow> lo \<le> h"
    and "map_of out = (\<lambda>k. if in_range lo hi k then visible old t k snap else None)"
  shows "\<exists>out'. range r t lo hi snap out = Inr out' \<and> bt_ok out' \<and>
    map_of out' = (\<lambda>k. if in_range lo hi k then visible (bt_of_list (old @ es)) t k snap else None)"
proof -
  obtain out' where "range r t lo hi snap out = Inr out'" "bt_ok out'"
      "map_of out' = overlay lo hi (\<lambda>k. visible es t k snap) (map_of out)"
    using range_visible [OF assms(1,4,5,6)] by blast
  then show ?thesis
    using assms repr_ok [OF assms(1)]
    by (auto simp: overlay_def merged_visible fun_eq_iff split: option.splits)
qed

end

section \<open>The memtable is a source\<close>

lemma first_at_visible:
  "\<forall>e \<in> set es. user_key e = (t, k) \<Longrightarrow> first_at snap es = visible es t k snap"
proof (induction es)
  case (Cons e es)
  then show ?case by (cases e rule: entry_cases) (auto simp: sees_def)
qed simp

lemma visible_filter:
  "(\<And>e. e \<in> set es \<Longrightarrow> sees t k snap e \<Longrightarrow> P e) \<Longrightarrow> visible (filter P es) t k snap = visible es t k snap"
  by (induction es) auto

lemma mem_window:
  "(t, k, Reverse (- 1)) \<le> fst e \<and> fst e \<le> (t, k, Reverse 0) \<longleftrightarrow> user_key e = (t, k)"
proof (cases e rule: entry_cases)
  case (entry t' k' s op)
  have "s \<le> - 1" "0 \<le> s" by simp_all
  then show ?thesis by (auto simp: entry less_eq_prod_def)
qed

lemma mem_op_visible: "mem_op mem t k snap = visible mem t k snap"
proof -
  let ?w = "filter (\<lambda>e. user_key e = (t, k)) mem"
  have "(\<lambda>(x, _). (t, k, Reverse (- 1)) \<le> x \<and> x \<le> (t, k, Reverse 0)) = (\<lambda>e. user_key e = (t, k))"
    using mem_window by (auto simp: fun_eq_iff case_prod_unfold)
  then have "mem_op mem t k snap = first_at snap ?w" by (simp add: mem_op_def)
  also have "\<dots> = visible ?w t k snap" by (rule first_at_visible) simp
  also have "\<dots> = visible mem t k snap" by (rule visible_filter) (simp add: sees_def)
  finally show ?thesis .
qed

lemma take_newest_range_list:
  "\<forall>e \<in> set es. fst (user_key e) = t \<and> in_range lo hi (snd (user_key e)) \<Longrightarrow>
   take_newest snap es cur out = snd (snd (range_list t lo hi snap es cur out))"
proof (induction es arbitrary: cur out)
  case (Cons e es)
  then show ?case
    by (cases e rule: entry_cases) (auto simp: Let_def in_range_def split: option.splits)
qed simp

definition range_bound :: "byte \<Rightarrow> bytes option \<Rightarrow> MemKey" where
  "range_bound t hi =
     (case hi of Some e \<Rightarrow> (t, e, Reverse (- 1)) | None \<Rightarrow> (t + 1, [], Reverse (- 1)))"

lemma table_not_max: "unat t < 255 \<Longrightarrow> t \<noteq> - 1" for t :: byte
  by (auto simp: unsigned_minus_1_eq_mask mask_eq_exp_minus_1)

lemma range_window:
  assumes "unat t < 255"
  shows "in_range (t, lo, Reverse (- 1)) (Some (range_bound t hi)) (fst e) \<longleftrightarrow>
     fst (user_key e) = t \<and> in_range lo hi (snd (user_key e))"
proof (cases e rule: entry_cases)
  case (entry t' k' s op)
  have "t \<noteq> - 1" using assms by (rule table_not_max)
  then have less: "t' < t + 1 \<longleftrightarrow> t' \<le> t" by (rule word_less_succ)
  have top: "s \<le> - 1" "\<not> - 1 < s" by (simp_all add: not_less)
  show ?thesis
  proof (cases hi)
    case None
    then show ?thesis
      using less top by (auto simp: entry range_bound_def in_range_def less_eq_prod_def)
  next
    case (Some h)
    then show ?thesis
      using top by (auto simp: entry range_bound_def in_range_def less_eq_prod_def)
  qed
qed

lemma mem_range_visible:
  assumes "bt_ok mem" "bt_ok out" "unat t < 255" and le: "case hi of None \<Rightarrow> True | Some h \<Rightarrow> lo \<le> h"
  shows "\<exists>out'. mem_range_ops mem t lo hi snap out = Inr out' \<and> bt_ok out' \<and>
           map_of out' = overlay lo hi (\<lambda>k. visible mem t k snap) (map_of out)"
proof -
  let ?P = "\<lambda>e. fst (user_key e) = t \<and> in_range lo hi (snd (user_key e))"
  let ?w = "filter ?P mem"
  have "t \<noteq> - 1" using assms(3) by (rule table_not_max)
  then have "t < t + 1" by (rule word_self_less_succ)
  with le have "\<not> range_bound t hi < (t, lo, Reverse (- 1))"
    by (auto simp: range_bound_def split: option.splits)
  then have "bt_range mem (t, lo, Reverse (- 1)) (Some (range_bound t hi)) = Inr ?w"
    using range_window [OF assms(3)] by (simp add: bt_range_def case_prod_unfold)
  then have "mem_range_ops mem t lo hi snap out = Inr (take_newest snap ?w None out)"
    by (simp add: mem_range_ops_def range_bound_def)
  moreover have "take_newest snap ?w None out = snd (snd (range_list t lo hi snap ?w None out))"
    by (rule take_newest_range_list) auto
  moreover have "bt_ok ?w" using assms(1) by simp
  moreover have "overlay lo hi (\<lambda>k. visible ?w t k snap) m = overlay lo hi (\<lambda>k. visible mem t k snap) m" for m
    unfolding overlay_def by (auto intro!: ext visible_filter arg_cong [where f = "case_option _ _"] simp: sees_def)
  ultimately show ?thesis using range_list_visible [of ?w out None t lo hi snap] assms(2) by simp
qed

interpretation mem_src: version_source "\<lambda>mem t k snap. Inr (mem_op mem t k snap)" mem_range_ops
  "\<lambda>mem es. mem = es \<and> bt_ok es"
  by unfold_locales (auto simp: mem_op_visible mem_range_visible)

interpretation sst_src: version_source sst_get sst_range sst_repr
  by unfold_locales (auto simp: sst_repr_def [THEN iffD1] sst_get_visible sst_range_visible)

section \<open>A store is a stack of sources\<close>

definition content :: "Sst \<Rightarrow> entry list" where
  "content s = map projr (sst_entries s)"

definition layers :: "Store \<Rightarrow> entry list list" where
  "layers st = map content (st_ssts st) @ [st_mem st]"

definition layered :: "entry list list \<Rightarrow> bool" where
  "layered ls \<longleftrightarrow> sorted_wrt (\<lambda>old new. supersedes new old) ls"

definition all_of :: "entry list list \<Rightarrow> entry list" where
  "all_of ls = bt_of_list (concat ls)"

definition store_ok :: "Store \<Rightarrow> bool" where
  "store_ok st \<longleftrightarrow> bt_ok (st_mem st) \<and> (\<forall>s \<in> set (st_ssts st). sst_repr s (content s)) \<and>
     layered (layers st)"

definition store_versions :: "Store \<Rightarrow> entry list" where
  "store_versions st = all_of (layers st)"

lemma content_repr: "sst_repr s es \<Longrightarrow> content s = es"
  by (simp add: content_def sst_entries_repr comp_def)

lemma bt_of_list_absorb: "bt_of_list (bt_of_list xs @ ys) = bt_of_list (xs @ ys)"
  by (rule bt_ext) (simp_all add: bt_of_list_map_of map_of_rev_bt)

lemma all_of_snoc: "all_of (ls @ [l]) = bt_of_list (all_of ls @ l)"
  by (simp add: all_of_def bt_of_list_absorb)

lemma bt_ok_all_of [simp]: "bt_ok (all_of ls)"
  by (simp add: all_of_def)

lemma bt_of_list_subset: "set (bt_of_list xs) \<subseteq> set xs"
proof
  fix x assume x: "x \<in> set (bt_of_list xs)"
  obtain k v where kv: "x = (k, v)" by fastforce
  with x have "map_of (rev xs) k = Some v" by (simp add: bt_in_set bt_of_list_map_of)
  then show "x \<in> set xs" using map_of_SomeD kv by fastforce
qed

lemma set_all_of: "e \<in> set (all_of ls) \<Longrightarrow> \<exists>l \<in> set ls. e \<in> set l"
  using bt_of_list_subset [of "concat ls"] by (auto simp: all_of_def)

lemma supersedes_all_of: "(\<And>l. l \<in> set ls \<Longrightarrow> supersedes n l) \<Longrightarrow> supersedes n (all_of ls)"
  using set_all_of by (fastforce simp: supersedes_def)

lemma layered_snoc: "layered (ls @ [l]) \<longleftrightarrow> layered ls \<and> (\<forall>o1 \<in> set ls. supersedes l o1)"
  by (auto simp: layered_def sorted_wrt_append)

lemma layered_supersedes: "layered (ls @ [l]) \<Longrightarrow> supersedes l (all_of ls)"
  by (auto simp: layered_snoc intro: supersedes_all_of)

lemma ssts_get_visible:
  "(\<And>s. s \<in> set ss \<Longrightarrow> sst_repr s (content s)) \<Longrightarrow> layered (map content ss) \<Longrightarrow>
   ssts_get (rev ss) t k snap = Inr (visible_value (all_of (map content ss)) t k snap)"
proof (induction ss rule: rev_induct)
  case Nil
  show ?case by (simp add: all_of_def bt_of_list_def visible_value_def)
next
  case (snoc s ss)
  have l: "layered (map content ss)" "supersedes (content s) (all_of (map content ss))"
    using snoc.prems(2) layered_supersedes by (auto simp: layered_snoc)
  have old: "ssts_get (rev ss) t k snap = Inr (visible_value (all_of (map content ss)) t k snap)"
    using snoc.IH snoc.prems(1) l(1) by simp
  have "(\<lambda>r. case r of None \<Rightarrow> ssts_get (rev ss) t k snap | Some op \<Rightarrow> Inr (into_value op)) =
      (\<lambda>r. Inr (case r of None \<Rightarrow> visible_value (all_of (map content ss)) t k snap
                 | Some op \<Rightarrow> into_value op))"
    by (auto simp: fun_eq_iff old split: option.splits)
  with sst_src.get_over [of s "content s" "all_of (map content ss)" t k snap] snoc.prems(1) l(2)
  show ?case by (simp add: all_of_snoc)
qed

lemma committed_get_visible:
  assumes "store_ok st"
  shows "committed_get st t k snap = Inr (visible_value (store_versions st) t k snap)"
proof -
  let ?old = "all_of (map content (st_ssts st))"
  have l: "layered (map content (st_ssts st))" "supersedes (st_mem st) ?old" and mem: "bt_ok (st_mem st)"
    using assms layered_supersedes by (auto simp: store_ok_def layers_def layered_snoc)
  have "ssts_get (rev (st_ssts st)) t k snap = Inr (visible_value ?old t k snap)"
    using assms l(1) by (intro ssts_get_visible) (auto simp: store_ok_def)
  then show ?thesis
    using mem_src.get_over [of "st_mem st" "st_mem st" ?old t k snap] mem l(2)
    by (auto simp: committed_get_def store_versions_def layers_def all_of_snoc split: option.splits)
qed

lemma ssts_range_append:
  "ssts_range (ss @ ss') t lo hi snap out =
     res_bind (ssts_range ss t lo hi snap out) (ssts_range ss' t lo hi snap)"
  by (induction ss arbitrary: out) (auto simp: res_bind_def split: sum.splits)

lemma ssts_range_visible:
  assumes "\<And>s. s \<in> set ss \<Longrightarrow> sst_repr s (content s)" "layered (map content ss)" "unat t < 255"
    and "case hi of None \<Rightarrow> True | Some h \<Rightarrow> lo \<le> h"
  shows "\<exists>out. ssts_range ss t lo hi snap [] = Inr out \<and> bt_ok out \<and>
    map_of out = (\<lambda>k. if in_range lo hi k then visible (all_of (map content ss)) t k snap else None)"
  using assms(1,2)
proof (induction ss rule: rev_induct)
  case Nil
  show ?case by (simp add: all_of_def bt_of_list_def fun_eq_iff)
next
  case (snoc s ss)
  have l: "layered (map content ss)" "supersedes (content s) (all_of (map content ss))"
    using snoc.prems(2) layered_supersedes by (auto simp: layered_snoc)
  obtain out where out: "ssts_range ss t lo hi snap [] = Inr out" "bt_ok out"
      "map_of out = (\<lambda>k. if in_range lo hi k then visible (all_of (map content ss)) t k snap else None)"
    using snoc.IH snoc.prems(1) l(1) by auto
  from sst_src.range_over [OF _ bt_ok_all_of l(2) out(2) assms(3,4) out(3), of s] snoc.prems(1)
  show ?case unfolding map_append list.map all_of_snoc by (auto simp: ssts_range_append out(1))
qed

lemma map_filter_values:
  fixes ops :: "(bytes, op) btree"
  assumes "bt_ok ops"
  shows "bt_ok (List.map_filter (\<lambda>(k, op). map_option (\<lambda>v. (k, v)) (into_value op)) ops)"
    and "map_of (List.map_filter (\<lambda>(k, op). map_option (\<lambda>v. (k, v)) (into_value op)) ops) =
         (\<lambda>k. Option.bind (map_of ops k) into_value)"
proof -
  let ?f = "List.map_filter (\<lambda>(k, op). map_option (\<lambda>v. (k, v)) (into_value op))"
  have keys: "fst ` set (?f ops) \<subseteq> fst ` set ops" for ops :: "(bytes \<times> op) list"
    by (force simp: map_filter_def image_iff)
  show "bt_ok (?f ops)" using assms
  proof (induction ops)
    case (Cons x ops)
    then show ?case using keys [of ops]
      by (cases x; cases "snd x") (auto simp: map_filter_simps split: option.splits, force)
  qed (simp add: map_filter_simps)
  show "map_of (?f ops) = (\<lambda>k. Option.bind (map_of ops k) into_value)" using assms
  proof (induction ops)
    case (Cons x ops)
    obtain k op where x: "x = (k, op)" by fastforce
    have "map_of (?f ops) k = None"
      using keys [of ops] Cons.prems by (force simp: x map_of_eq_None_iff)
    with Cons show ?case by (cases op) (auto simp: x map_filter_simps fun_eq_iff)
  qed (simp add: map_filter_simps fun_eq_iff)
qed

lemma committed_values_visible:
  assumes "store_ok st" "unat t < 255" and "case hi of None \<Rightarrow> True | Some h \<Rightarrow> lo \<le> h"
  shows "\<exists>out. committed_values st t lo hi snap = Inr out \<and> bt_ok out \<and>
    map_of out = (\<lambda>k. if in_range lo hi k then visible_value (store_versions st) t k snap else None)"
proof -
  let ?old = "all_of (map content (st_ssts st))"
  have l: "layered (map content (st_ssts st))" "supersedes (st_mem st) ?old" and mem: "bt_ok (st_mem st)"
    using assms layered_supersedes by (auto simp: store_ok_def layers_def layered_snoc)
  obtain ops where ops: "ssts_range (st_ssts st) t lo hi snap [] = Inr ops" "bt_ok ops"
      "map_of ops = (\<lambda>k. if in_range lo hi k then visible ?old t k snap else None)"
    using ssts_range_visible [OF _ l(1) assms(2,3)] assms(1) by (auto simp: store_ok_def)
  obtain all where all: "mem_range_ops (st_mem st) t lo hi snap ops = Inr all" "bt_ok all"
      "map_of all = (\<lambda>k. if in_range lo hi k then visible (bt_of_list (?old @ st_mem st)) t k snap else None)"
    using mem_src.range_over [OF _ bt_ok_all_of l(2) ops(2) assms(2,3) ops(3)] mem by auto
  show ?thesis
    using map_filter_values [OF all(2)] all(3)
    by (auto simp: committed_values_def ops(1) all(1) visible_value_def store_versions_def layers_def
        all_of_snoc fun_eq_iff)
qed

section \<open>The write transaction fulfils the contract\<close>

definition native_valid :: "NativeWriteTxn \<Rightarrow> bool" where
  "native_valid t \<longleftrightarrow> store_ok (wt_store t) \<and> bt_ok (wt_buf t)"

definition store_view :: "Store \<Rightarrow> u64 \<Rightarrow> kv" where
  "store_view st snap = (\<lambda>tb k. visible_value (store_versions st) (table_u8 tb) k snap)"

definition buffered :: "staged \<Rightarrow> kv \<Rightarrow> kv" where
  "buffered buf m = (\<lambda>tb k. case map_of buf (table_u8 tb, k) of
     Some op \<Rightarrow> into_value op | None \<Rightarrow> m tb k)"

definition native_view :: "NativeWriteTxn \<Rightarrow> kv" where
  "native_view t = buffered (wt_buf t) (store_view (wt_store t) (wt_snapshot t))"

lemma table_u8_inj [simp]: "table_u8 a = table_u8 b \<longleftrightarrow> a = b"
  by (cases a; cases b) simp_all

lemma table_u8_small: "unat (table_u8 tb) < 255"
  by (cases tb) simp_all

lemma overlay_buf_map:
  assumes "bt_ok buf" "bt_ok out"
  shows "bt_ok (overlay_buf t lo hi buf out) \<and>
    map_of (overlay_buf t lo hi buf out) =
    (\<lambda>k. if in_range lo hi k
         then case map_of buf (t, k) of Some op \<Rightarrow> into_value op | None \<Rightarrow> map_of out k
         else map_of out k)"
  using assms
proof (induction buf arbitrary: out)
  case Nil
  then show ?case by (simp add: fun_eq_iff)
next
  case (Cons x buf)
  obtain t1 k1 op where x: "x = ((t1, k1), op)" by (metis prod.exhaust)
  have gone: "map_of buf (t1, k1) = None" using Cons.prems(1) by (intro map_of_below) (auto simp: x)
  let ?out = "case op of Put v \<Rightarrow> bt_insert k1 v out | Del \<Rightarrow> bt_remove k1 out"
  have "bt_ok ?out" using Cons.prems(2) by (cases op) simp_all
  moreover have "map_of ?out k = (if k = k1 then into_value op else map_of out k)" for k
    using Cons.prems(2) by (cases op) auto
  ultimately show ?case
    using Cons.IH [of ?out] Cons.IH [of out] Cons.prems gone
    by (auto simp: x fun_eq_iff split: option.splits)
qed

lemma fold_tombstones:
  "bt_ok buf \<Longrightarrow> bt_ok (fold (\<lambda>k. bt_insert (tb, k) Del) ks buf) \<and>
   map_of (fold (\<lambda>k. bt_insert (tb, k) Del) ks buf) =
   (\<lambda>(t, k). if t = tb \<and> k \<in> set ks then Some Del else map_of buf (t, k))"
  by (induction ks arbitrary: buf) (auto simp: fun_eq_iff)

lemma map_of_dom: "bt_ok m \<Longrightarrow> k \<in> set (map fst m) \<longleftrightarrow> map_of m k \<noteq> None"
  by (simp add: map_of_eq_None_iff)

lemma committed_values_view:
  assumes "store_ok st" and "case hi of None \<Rightarrow> True | Some h \<Rightarrow> lo \<le> h"
  obtains out where "committed_values st (table_u8 tb) lo hi snap = Inr out" "bt_ok out"
    "map_of out = (\<lambda>k. if in_range lo hi k then store_view st snap tb k else None)"
  using committed_values_visible [OF assms(1) table_u8_small assms(2), of tb snap]
  unfolding store_view_def by blast

lemma native_delete_prefix:
  assumes "native_valid t"
  shows "\<exists>t'. wtx_delete_prefix tb p t = (Inr (), t') \<and> native_valid t' \<and>
     native_view t' = kv_delp tb p (native_view t)"
proof -
  let ?tb = "table_u8 tb" and ?st = "wt_store t" and ?snap = "wt_snapshot t"
  define buf where "buf = filter (\<lambda>((bt, k), _). \<not> (bt = ?tb \<and> prefix p k)) (wt_buf t)"
  have ok: "bt_ok buf" using assms by (simp add: native_valid_def buf_def)
  have kept: "map_of buf x = (if fst x = ?tb \<and> prefix p (snd x) then None else map_of (wt_buf t) x)" for x
    unfolding buf_def using map_of_filter_key [of "\<lambda>(bt, k). \<not> (bt = ?tb \<and> prefix p k)" "wt_buf t"]
    by (cases x) (simp add: fun_eq_iff case_prod_unfold)
  have "case prefix_successor p of None \<Rightarrow> True | Some h \<Rightarrow> p \<le> h"
    using prefix_successor_greater [of p] by (auto split: option.splits)
  with assms obtain victims where v: "committed_values ?st ?tb p (prefix_successor p) ?snap = Inr victims"
      "bt_ok victims"
      "map_of victims = (\<lambda>k. if in_range p (prefix_successor p) k then store_view ?st ?snap tb k else None)"
    unfolding native_valid_def by (blast elim: committed_values_view)
  have dom: "k \<in> set (map fst victims) \<longleftrightarrow> prefix p k \<and> store_view ?st ?snap tb k \<noteq> None" for k
    using map_of_dom [OF v(2), of k] v(3) by (auto simp: prefix_in_range)
  define buf' where "buf' = fold (\<lambda>k. bt_insert (?tb, k) Del) (map fst victims) buf"
  have buf': "bt_ok buf'"
    "map_of buf' = (\<lambda>(t, k). if t = ?tb \<and> k \<in> set (map fst victims) then Some Del else map_of buf (t, k))"
    using fold_tombstones [OF ok] unfolding buf'_def by blast+
  have step: "wtx_delete_prefix tb p t = (Inr (), t\<lparr>wt_buf := buf'\<rparr>)"
    by (simp add: wtx_delete_prefix_def Let_def v(1) buf_def buf'_def)
  have "buffered buf' (store_view ?st ?snap) tb' k = kv_delp tb p (native_view t) tb' k" for tb' k
    using dom [of k] by (auto simp: buffered_def native_view_def kv_apply kept buf'(2) simp del: set_map)
  then have "native_view (t\<lparr>wt_buf := buf'\<rparr>) = kv_delp tb p (native_view t)"
    by (simp add: native_view_def fun_eq_iff)
  with step buf'(1) assms show ?thesis by (simp add: native_valid_def)
qed

interpretation native: kv_txn native_vtable native_valid native_view
proof
  fix t :: NativeWriteTxn and tb :: table_id and k v p lo :: bytes and hi :: "bytes option"
  assume inv: "native_valid t"
  show "v_get native_vtable t tb k = Inr (native_view t tb k)"
    using inv committed_get_visible
    by (auto simp: native_vtable_def wtx_get_def native_view_def buffered_def store_view_def
        native_valid_def split: option.splits)
  show "\<exists>t'. v_put native_vtable tb k v t = (Inr (), t') \<and> native_valid t' \<and>
             native_view t' = kv_put tb k v (native_view t)"
    using inv by (auto simp: native_vtable_def wtx_put_def native_valid_def native_view_def buffered_def
        kv_apply fun_eq_iff split: option.splits)
  show "\<exists>t'. v_delete native_vtable tb k t = (Inr (), t') \<and> native_valid t' \<and>
             native_view t' = kv_del tb k (native_view t)"
    using inv by (auto simp: native_vtable_def wtx_delete_def native_valid_def native_view_def buffered_def
        kv_apply fun_eq_iff split: option.splits)
  show "\<exists>t'. v_delete_prefix native_vtable tb p t = (Inr (), t') \<and> native_valid t' \<and>
             native_view t' = kv_delp tb p (native_view t)"
    using native_delete_prefix [OF inv] by (simp add: native_vtable_def)
  show "case hi of None \<Rightarrow> True | Some h \<Rightarrow> lo \<le> h \<Longrightarrow>
        \<exists>xs. v_range native_vtable t tb lo hi = Inr xs \<and> bt_ok xs \<and>
             map_of xs = (\<lambda>k. if in_range lo hi k then native_view t tb k else None)"
  proof -
    assume le: "case hi of None \<Rightarrow> True | Some h \<Rightarrow> lo \<le> h"
    obtain out where out: "committed_values (wt_store t) (table_u8 tb) lo hi (wt_snapshot t) = Inr out"
        "bt_ok out" "map_of out = (\<lambda>k. if in_range lo hi k then store_view (wt_store t) (wt_snapshot t) tb k else None)"
      using inv le unfolding native_valid_def by (blast elim: committed_values_view)
    then show ?thesis
      using overlay_buf_map [of "wt_buf t" out "table_u8 tb" lo hi] inv
      by (auto simp: native_vtable_def wtx_range_def native_view_def buffered_def native_valid_def
          fun_eq_iff split: option.splits)
  qed
qed

end
