(* ===== verification/Native_Commit.thy ===== *)
theory Native_Commit
  imports Native_Reads
begin

text \<open>
  Publishing, flushing and compacting. A commit adds its versions on top of the store; a flush and a
  compaction rearrange the versions without changing what any snapshot at or above the collection
  floor sees. A registered reader is never below that floor, so its view is stable across every
  step of the engine.
\<close>

section \<open>The union of a layered store\<close>

lemma set_all_of_iff:
  "layered ls \<Longrightarrow> list_all bt_ok ls \<Longrightarrow> set (all_of ls) = (\<Union>l \<in> set ls. set l)"
proof (induction ls rule: rev_induct)
  case Nil
  show ?case by (simp add: all_of_def bt_of_list_def)
next
  case (snoc l ls)
  have IH: "set (all_of ls) = (\<Union>l \<in> set ls. set l)" and l: "bt_ok l"
    using snoc by (auto simp: layered_snoc)
  have sup: "supersedes l (all_of ls)" using snoc.prems(1) by (rule layered_supersedes)
  have "e \<in> set (all_of (ls @ [l])) \<longleftrightarrow> e \<in> set l \<or> e \<in> set (all_of ls)" for e
  proof -
    obtain t k s op where e: "e = ((t, k, Reverse s), op)" by (cases e rule: entry_cases)
    have "e \<in> set l" if "e \<in> set (all_of ls)" "((t, k, Reverse s), op') \<in> set l" for op'
      using supersedesD [OF sup _ that(2)] that(1) e by blast
    then show ?thesis unfolding all_of_snoc e by (auto simp: set_merged l)
  qed
  then show ?case using IH by auto
qed

definition all_layers_ok :: "Store \<Rightarrow> bool" where
  "all_layers_ok st \<longleftrightarrow> list_all bt_ok (layers st)"

lemma store_ok_layers: "store_ok st \<Longrightarrow> list_all bt_ok (layers st)"
  by (auto simp: store_ok_def layers_def list_all_iff sst_repr_def)

lemma set_store_versions:
  "store_ok st \<Longrightarrow> set (store_versions st) = (\<Union>l \<in> set (layers st). set l)"
  unfolding store_versions_def
  by (rule set_all_of_iff) (auto simp: store_ok_layers store_ok_def)

lemma bt_ok_store_versions [simp]: "bt_ok (store_versions st)"
  by (simp add: store_versions_def)

section \<open>Publishing\<close>

definition staged_entries :: "u64 \<Rightarrow> staged \<Rightarrow> entry list" where
  "staged_entries seq ops = map (\<lambda>((t, k), op). ((t, k, Reverse seq), op)) ops"

lemma publish_fields [simp]:
  "st_committed_seq (publish seq ops st) = st_committed_seq st"
  "st_ssts (publish seq ops st) = st_ssts st"
  "st_next_sst (publish seq ops st) = st_next_sst st"
  by (induction seq ops st rule: publish.induct) simp_all

lemma publish_mem:
  "bt_ok (st_mem st) \<Longrightarrow>
   bt_ok (st_mem (publish seq ops st)) \<and>
   map_of (st_mem (publish seq ops st)) = map_of (st_mem st) ++ map_of (rev (staged_entries seq ops))"
proof (induction seq ops st rule: publish.induct)
  case (2 seq t k op ops st)
  then show ?case
    by (auto simp: staged_entries_def fun_eq_iff map_add_def split: option.splits)
qed (simp add: staged_entries_def)

lemma staged_in: "((t, k, Reverse s), op) \<in> set (staged_entries seq ops) \<longleftrightarrow> s = seq \<and> ((t, k), op) \<in> set ops"
  by (force simp: staged_entries_def)

lemma staged_distinct: "bt_ok ops \<Longrightarrow> distinct (map fst (staged_entries seq ops))"
proof -
  assume "bt_ok ops"
  then have d: "distinct (map fst ops)" by (rule bt_ok_distinct)
  have eq: "map fst (staged_entries seq ops) = map (\<lambda>(t, k). (t, k, Reverse seq)) (map fst ops)"
    by (simp add: staged_entries_def case_prod_unfold)
  show ?thesis
    unfolding eq by (intro distinct_map [THEN iffD2] conjI d inj_onI) auto
qed

lemma set_publish_mem:
  assumes "bt_ok (st_mem st)" "bt_ok ops" "\<forall>e \<in> set (st_mem st). entry_seq e < seq"
  shows "set (st_mem (publish seq ops st)) = set (st_mem st) \<union> set (staged_entries seq ops)"
proof -
  have "e \<in> set (st_mem (publish seq ops st)) \<longleftrightarrow> e \<in> set (st_mem st) \<or> e \<in> set (staged_entries seq ops)" for e
  proof -
    obtain t k s op where e: "e = ((t, k, Reverse s), op)" by (cases e rule: entry_cases)
    have m: "map_of (rev (staged_entries seq ops)) (t, k, Reverse s) = Some op \<longleftrightarrow> e \<in> set (staged_entries seq ops)"
      using staged_distinct [OF assms(2), of seq] by (simp add: e rev_map [symmetric])
    have "map_of (rev (staged_entries seq ops)) (t, k, Reverse s) = None" if "s \<noteq> seq"
      using that by (auto simp: map_of_eq_None_iff staged_entries_def)
    moreover have "map_of (st_mem st) (t, k, Reverse s) = None" if "s = seq"
      using that assms(3) by (force simp: map_of_eq_None_iff)
    ultimately show ?thesis
      using publish_mem [OF assms(1), of seq ops] m staged_in [of t k s op seq ops]
      by (cases "s = seq") (auto simp: e bt_in_set assms(1) map_add_def split: option.splits)
  qed
  then show ?thesis by blast
qed

definition seqs_bounded :: "Store \<Rightarrow> bool" where
  "seqs_bounded st \<longleftrightarrow> (\<forall>l \<in> set (layers st). \<forall>e \<in> set l. entry_seq e \<le> st_committed_seq st)"

lemma publish_store:
  assumes ok: "store_ok st" "seqs_bounded st" and ops: "bt_ok ops" and seq: "st_committed_seq st < seq"
    and st': "st' = (publish seq ops st)\<lparr>st_committed_seq := seq\<rparr>"
  shows "store_ok st'" "seqs_bounded st'"
    and "set (store_versions st') = set (store_versions st) \<union> set (staged_entries seq ops)"
proof -
  have mem: "bt_ok (st_mem st)" using ok by (simp add: store_ok_def)
  have lt: "entry_seq e < seq" if "e \<in> set l" "l \<in> set (layers st)" for e l
    using ok(2) that seq unfolding seqs_bounded_def by (meson le_less_trans)
  have set_mem: "set (st_mem st') = set (st_mem st) \<union> set (staged_entries seq ops)"
    using set_publish_mem [OF mem ops, of seq] lt by (auto simp: st' layers_def)
  have layers': "layers st' = map content (st_ssts st) @ [st_mem st']" by (simp add: st' layers_def)
  have new: "entry_seq e = seq" if "e \<in> set (staged_entries seq ops)" for e
    using that by (auto simp: staged_entries_def)
  have "supersedes (st_mem st') l" if "l \<in> set (map content (st_ssts st))" for l
  proof -
    have "supersedes (st_mem st) l" using ok that by (auto simp: store_ok_def layers_def layered_snoc)
    moreover have "\<forall>e \<in> set l. entry_seq e < seq" using lt that by (auto simp: layers_def)
    ultimately show ?thesis using new by (auto simp: supersedes_def set_mem)
  qed
  moreover have "bt_ok (st_mem st')" using publish_mem [OF mem] by (simp add: st')
  moreover have "layered (map content (st_ssts st))" using ok by (simp add: store_ok_def layers_def layered_snoc)
  ultimately show ok': "store_ok st'"
    using ok layers' by (auto simp: store_ok_def layered_snoc st')
  show "seqs_bounded st'"
  proof -
    have "entry_seq e \<le> seq" if "e \<in> set l" "l \<in> set (layers st')" for e l
    proof -
      have "e \<in> set (staged_entries seq ops) \<or> (\<exists>l \<in> set (layers st). e \<in> set l)"
        using that set_mem unfolding layers' by (auto simp: layers_def)
      then show ?thesis using lt new by (metis less_imp_le order_refl)
    qed
    then show ?thesis by (auto simp: seqs_bounded_def st')
  qed
  show "set (store_versions st') = set (store_versions st) \<union> set (staged_entries seq ops)"
    unfolding set_store_versions [OF ok'] set_store_versions [OF ok(1)]
    unfolding layers' by (auto simp: set_mem layers_def)
qed

lemma publish_view:
  assumes ok: "store_ok st" "seqs_bounded st" and ops: "bt_ok ops" and seq: "st_committed_seq st < seq"
    and st': "st' = (publish seq ops st)\<lparr>st_committed_seq := seq\<rparr>"
  shows "snap < seq \<Longrightarrow> store_view st' snap = store_view st snap"
    and "store_view st' seq = buffered ops (store_view st (st_committed_seq st))"
proof -
  note sets = publish_store(3) [OF assms]
  show "snap < seq \<Longrightarrow> store_view st' snap = store_view st snap"
    unfolding store_view_def visible_value_def
    by (intro ext arg_cong [where f = "\<lambda>x. Option.bind x into_value"] visible_cong)
       (auto simp: sets staged_in)
  have old: "s \<le> st_committed_seq st" if "((t, k, Reverse s), op) \<in> set (store_versions st)" for t k s op
    using that ok by (force simp: set_store_versions seqs_bounded_def)
  show "store_view st' seq = buffered ops (store_view st (st_committed_seq st))"
  proof (intro ext)
    fix tb k
    let ?t = "table_u8 tb"
    show "store_view st' seq tb k = buffered ops (store_view st (st_committed_seq st)) tb k"
    proof (cases "map_of ops (?t, k)")
      case None
      then have none: "((?t, k), op) \<notin> set ops" for op using ops by (simp add: bt_in_set)
      have "visible (store_versions st') ?t k seq = visible (store_versions st) ?t k seq"
        by (rule visible_cong) (auto simp: sets staged_in none)
      also have "\<dots> = visible (store_versions st) ?t k (st_committed_seq st)"
        unfolding option.expand
      proof -
        have "visible (store_versions st) ?t k seq = Some op \<longleftrightarrow>
            visible (store_versions st) ?t k (st_committed_seq st) = Some op" for op
          using old seq by (auto simp: visible_iff) (meson le_less_trans less_imp_le)+
        then show ?thesis by (metis not_None_eq)
      qed
      finally show ?thesis by (simp add: store_view_def buffered_def visible_value_def None)
    next
      case (Some op)
      then have "((?t, k), op) \<in> set ops" using ops by (simp add: bt_in_set)
      then have "visible (store_versions st') ?t k seq = Some op"
        by (auto simp: visible_iff sets staged_in intro!: exI [of _ seq])
      then show ?thesis by (simp add: store_view_def buffered_def visible_value_def Some)
    qed
  qed
qed

section \<open>Flushing\<close>

lemma supersedes_Nil [simp]: "supersedes [] l"
  by (simp add: supersedes_def)

lemma flush_store:
  assumes ok: "store_ok st" "seqs_bounded st" and s: "sst_repr s (st_mem st)"
    and st': "st' = st\<lparr>st_next_sst := n, st_ssts := st_ssts st @ [s], st_mem := [], st_mem_bytes := 0\<rparr>"
  shows "store_ok st'" "seqs_bounded st'" "store_view st' = store_view st"
proof -
  have layers': "layers st' = layers st @ [[]]"
    by (simp add: layers_def st' content_repr [OF s])
  show "store_ok st'"
    using ok(1) s content_repr [OF s] unfolding store_ok_def layers' by (auto simp: st' layered_snoc)
  show "seqs_bounded st'" using ok(2) unfolding seqs_bounded_def layers' by (auto simp: st')
  show "store_view st' = store_view st"
    unfolding store_view_def store_versions_def layers' all_of_def by simp
qed

lemma maybe_flush_cases:
  assumes ok: "store_ok (ne_store e)" "seqs_bounded (ne_store e)" and r: "maybe_flush e = (r, e')"
  obtains (idle) "r = Inr ()" "e' = e"
  | (failed) er where "r = Inl er" "e' = e"
  | (flushed) data s where "r = Inr ()"
      "sst_write (st_mem (ne_store e)) (st_committed_seq (ne_store e)) = Inr data"
      "sst_open (st_next_sst (ne_store e)) data = Inr s" "sst_repr s (st_mem (ne_store e))"
      "s_max_seq s = st_committed_seq (ne_store e)" "s_path s = st_next_sst (ne_store e)"
      "e' = e\<lparr>ne_files := bt_insert (st_next_sst (ne_store e)) data (ne_files e),
             ne_store := (ne_store e)\<lparr>st_next_sst := st_next_sst (ne_store e) + 1,
                st_ssts := st_ssts (ne_store e) @ [s], st_mem := [], st_mem_bytes := 0\<rparr>,
             ne_wal := []\<rparr>"
proof (cases "st_mem_bytes (ne_store e) < ne_flush_threshold e \<or> st_mem (ne_store e) = []")
  case True
  then show ?thesis using r idle by (auto simp: maybe_flush_def)
next
  case False
  let ?st = "ne_store e"
  have mem: "bt_ok (st_mem ?st)" using ok by (simp add: store_ok_def)
  show ?thesis
  proof (cases "sst_write (st_mem ?st) (st_committed_seq ?st)")
    case (Inl er)
    then show ?thesis using r False failed by (auto simp: maybe_flush_def)
  next
    case (Inr data)
    from write_sorted_repr [OF mem Inr [unfolded sst_write_def], of "st_next_sst ?st"]
    obtain s where s: "sst_open (st_next_sst ?st) data = Inr s" "sst_repr s (st_mem ?st)"
      "s_max_seq s = st_committed_seq ?st" "s_path s = st_next_sst ?st" by blast
    then show ?thesis using r False Inr flushed [OF _ Inr s] by (auto simp: maybe_flush_def Let_def)
  qed
qed

lemma maybe_flush_store:
  assumes ok: "store_ok (ne_store e)" "seqs_bounded (ne_store e)" and r: "maybe_flush e = (r, e')"
  shows "store_ok (ne_store e') \<and> seqs_bounded (ne_store e') \<and> store_view (ne_store e') = store_view (ne_store e) \<and>
     committed_seq e' = committed_seq e \<and> ne_readers e' = ne_readers e \<and>
     ne_retain_commits e' = ne_retain_commits e"
  by (rule maybe_flush_cases [OF assms]) (use flush_store [OF ok] ok in auto)

section \<open>Compacting\<close>

lemma visible_value_over:
  assumes "bt_ok old" "bt_ok old'" "bt_ok new" "supersedes new old" "supersedes new old'"
    and "visible_value old t k snap = visible_value old' t k snap"
  shows "visible_value (bt_of_list (old @ new)) t k snap = visible_value (bt_of_list (old' @ new)) t k snap"
  using assms by (auto simp: visible_value_def merged_visible split: option.splits)

lemma compact_store:
  assumes ok: "store_ok st" "seqs_bounded st"
    and out: "subseq out (all_of (map content (st_ssts st)))" "sst_repr s out"
    and vis: "\<And>t k snap. min_snap \<le> snap \<Longrightarrow>
       visible_value out t k snap = visible_value (all_of (map content (st_ssts st))) t k snap"
    and st': "st' = st\<lparr>st_ssts := [s], st_next_sst := n\<rparr>"
  shows "store_ok st'" "seqs_bounded st'" "min_snap \<le> snap \<Longrightarrow> store_view st' snap = store_view st snap"
proof -
  let ?old = "all_of (map content (st_ssts st))"
  have layers': "layers st' = [out, st_mem st]" by (simp add: layers_def st' content_repr [OF out(2)])
  have mem: "bt_ok (st_mem st)" and sup: "supersedes (st_mem st) ?old"
    using ok layered_supersedes [of "map content (st_ssts st)" "st_mem st"] by (auto simp: store_ok_def layers_def)
  have sub: "e \<in> set ?old" if "e \<in> set out" for e using list_emb_set [OF out(1) that] by blast
  then have sup': "supersedes (st_mem st) out" using sup unfolding supersedes_def by blast
  have out_ok: "bt_ok out" using bt_ok_subseq [OF out(1)] by simp
  show "store_ok st'"
    using mem sup' out(2) unfolding store_ok_def layers'
    by (auto simp: st' layered_def content_repr [OF out(2)])
  have "entry_seq e \<le> st_committed_seq st" if "e \<in> set out" for e
    using set_all_of [OF sub [OF that]] ok(2) by (auto simp: seqs_bounded_def layers_def)
  then show "seqs_bounded st'"
    using ok(2) unfolding seqs_bounded_def layers' by (auto simp: st' layers_def)
  show "store_view st' snap = store_view st snap" if "min_snap \<le> snap"
  proof -
    have "store_versions st' = bt_of_list (out @ st_mem st)"
      by (simp add: store_versions_def layers' all_of_def)
    moreover have "store_versions st = bt_of_list (?old @ st_mem st)"
      by (simp add: store_versions_def layers_def all_of_snoc)
    ultimately show ?thesis
      using visible_value_over [OF bt_ok_all_of out_ok mem sup sup' vis [OF that, symmetric]]
      by (simp add: store_view_def)
  qed
qed

lemma maybe_compact_cases:
  assumes ok: "store_ok (ne_store e)" and r: "maybe_compact e = (r, e')"
  obtains (idle) "r = Inr ()" "e' = e"
  | (failed) er where "r = Inl er" "e' = e"
  | (compacted) out data s where "r = Inr ()"
      "gc_versions (map Inr (all_of (map content (st_ssts (ne_store e)))))
         (min_snapshot e (committed_seq e)) = map Inr out"
      "subseq out (all_of (map content (st_ssts (ne_store e))))" "sst_repr s out"
      "\<forall>t k snap. min_snapshot e (committed_seq e) \<le> snap \<longrightarrow>
         visible_value out t k snap = visible_value (all_of (map content (st_ssts (ne_store e)))) t k snap"
      "sst_open (st_next_sst (ne_store e)) data = Inr s" "s_path s = st_next_sst (ne_store e)"
      "s_max_seq s = foldl max 0 (map s_max_seq (st_ssts (ne_store e)))"
      "COMPACTION_TRIGGER < length (st_ssts (ne_store e))"
      "e' = e\<lparr>ne_store := (ne_store e)\<lparr>st_ssts := [s], st_next_sst := st_next_sst (ne_store e) + 1\<rparr>,
             ne_files := fold bt_remove (unlink_order (st_ssts (ne_store e)))
               (bt_insert (st_next_sst (ne_store e)) data (ne_files e))\<rparr>"
proof (cases "length (st_ssts (ne_store e)) \<le> COMPACTION_TRIGGER")
  case True
  then show ?thesis using r idle by (auto simp: maybe_compact_def)
next
  case False
  let ?st = "ne_store e" and ?ss = "st_ssts (ne_store e)"
  let ?all = "all_of (map content ?ss)" and ?min = "min_snapshot e (committed_seq e)"
  let ?hint = "unat (sum_list (map s_count ?ss))" and ?max = "foldl max 0 (map s_max_seq ?ss)"
  have repr: "sst_repr s (content s)" if "s \<in> set ?ss" for s using ok that by (simp add: store_ok_def)
  have ents: "map sst_entries ?ss = map (map Inr) (map content ?ss)"
    using repr by (auto simp: sst_entries_repr)
  have "runs_ok (map content ?ss)"
    using repr by (auto simp: runs_ok_def list_all_iff sst_repr_def)
  then have merged: "merge_items (MergeIter_new (map sst_entries ?ss)) = map Inr ?all"
    unfolding ents all_of_def by (rule merge_all)
  obtain out where out: "gc_versions (map Inr ?all) ?min = map Inr out" "subseq out ?all"
      "\<forall>t k snap. ?min \<le> snap \<longrightarrow> visible_value out t k snap = visible_value ?all t k snap"
    using gc_versions_spec [of ?all ?min] by auto
  have out_ok: "bt_ok out" using bt_ok_subseq [OF out(2)] by simp
  show ?thesis
  proof (cases "write_sorted (map Inr out) ?hint ?max")
    case (Inl er)
    then show ?thesis using r False failed merged out(1) by (auto simp: maybe_compact_def Let_def)
  next
    case (Inr data)
    from write_sorted_repr [OF out_ok Inr, of "st_next_sst ?st"]
    obtain s where s: "sst_open (st_next_sst ?st) data = Inr s" "sst_repr s out"
      "s_max_seq s = ?max" "s_path s = st_next_sst ?st" by blast
    show ?thesis
      by (rule compacted [OF _ out(1,2) s(2) out(3) s(1) s(4,3)])
         (use r False merged out(1) Inr s in \<open>auto simp: maybe_compact_def Let_def\<close>)
  qed
qed

lemma maybe_compact_store:
  assumes ok: "store_ok (ne_store e)" "seqs_bounded (ne_store e)" and r: "maybe_compact e = (r, e')"
  shows "store_ok (ne_store e') \<and> seqs_bounded (ne_store e') \<and>
     (\<forall>snap. min_snapshot e (committed_seq e) \<le> snap \<longrightarrow>
        store_view (ne_store e') snap = store_view (ne_store e) snap) \<and>
     committed_seq e' = committed_seq e \<and> ne_readers e' = ne_readers e \<and>
     ne_retain_commits e' = ne_retain_commits e"
proof (rule maybe_compact_cases [OF ok(1) r])
  fix out data s
  assume "subseq out (all_of (map content (st_ssts (ne_store e))))" "sst_repr s out"
    "\<forall>t k snap. min_snapshot e (committed_seq e) \<le> snap \<longrightarrow>
         visible_value out t k snap = visible_value (all_of (map content (st_ssts (ne_store e)))) t k snap"
    and "e' = e\<lparr>ne_store := (ne_store e)\<lparr>st_ssts := [s], st_next_sst := st_next_sst (ne_store e) + 1\<rparr>,
             ne_files := fold bt_remove (unlink_order (st_ssts (ne_store e)))
               (bt_insert (st_next_sst (ne_store e)) data (ne_files e))\<rparr>"
  then show ?thesis using compact_store [OF ok, of out s "min_snapshot e (committed_seq e)"] by auto
qed (use ok in auto)

end
