(* ===== verification/Native_Engine.thy ===== *)
theory Native_Engine
  imports Native_Commit
begin

text \<open>
  The engine as a state machine: its invariant, the effect of a commit on every snapshot, and
  snapshot isolation of registered readers across arbitrary interleavings of commits (with the
  flushes and compactions they trigger), replicated batches, reader registrations and changes of the
  retention window.
\<close>

section \<open>The invariant\<close>

definition readers_ok :: "NativeEngine \<Rightarrow> bool" where
  "readers_ok e \<longleftrightarrow> bt_ok (ne_readers e) \<and> (\<forall>(snap, n) \<in> set (ne_readers e). snap \<le> committed_seq e \<and> 0 < n)"

definition engine_ok :: "NativeEngine \<Rightarrow> bool" where
  "engine_ok e \<longleftrightarrow> store_ok (ne_store e) \<and> seqs_bounded (ne_store e) \<and> readers_ok e"

definition registered :: "u64 \<Rightarrow> NativeEngine \<Rightarrow> bool" where
  "registered snap e \<longleftrightarrow> map_of (ne_readers e) snap \<noteq> None"

definition view_at :: "NativeEngine \<Rightarrow> u64 \<Rightarrow> kv" where
  "view_at e snap = store_view (ne_store e) snap"

lemma rtx_get_view: "engine_ok e \<Longrightarrow> rtx_get e snap tb k = Inr (view_at e snap tb k)"
  by (simp add: rtx_get_def engine_ok_def committed_get_visible view_at_def store_view_def)

lemma min_snapshot_le: "min_snapshot e seq \<le> seq"
  by (simp add: min_snapshot_def Let_def min.coboundedI1)

lemma min_snapshot_registered:
  assumes "readers_ok e" "registered snap e"
  shows "min_snapshot e seq \<le> snap"
proof -
  obtain n where n: "(snap, n) \<in> set (ne_readers e)"
    using assms(2) map_of_SomeD unfolding registered_def by fastforce
  obtain s m rs where rs: "ne_readers e = (s, m) # rs" using n by (cases "ne_readers e") auto
  have "s \<le> snap" using assms(1) n unfolding readers_ok_def rs by (auto intro: less_imp_le)
  then show ?thesis by (simp add: min_snapshot_def rs Let_def min_le_iff_disj)
qed

lemma min_snapshot_retained: "min_snapshot e seq \<le> retention_floor e seq"
  by (simp add: min_snapshot_def Let_def)

section \<open>Commit\<close>

lemma min_snapshot_cong:
  "ne_readers e' = ne_readers e \<Longrightarrow> ne_retain_commits e' = ne_retain_commits e \<Longrightarrow>
   min_snapshot e' = min_snapshot e"
  by (auto simp: min_snapshot_def retention_floor_def fun_eq_iff)

lemma readers_ok_mono:
  "readers_ok e \<Longrightarrow> ne_readers e' = ne_readers e \<Longrightarrow> committed_seq e \<le> committed_seq e' \<Longrightarrow> readers_ok e'"
  unfolding readers_ok_def by (auto intro: order_trans)

text \<open>Why a commit may fail: nothing is published then.\<close>

definition commit_error :: "wal_codec \<Rightarrow> u64 \<Rightarrow> staged \<Rightarrow> NativeEngine \<Rightarrow> err option" where
  "commit_error wc seq ops e =
     (if 2 ^ 32 \<le> length (wc_to wc (wal_batch seq ops)) then Some InvalidArgument
      else if ne_observer e \<and> (\<exists>x \<in> set ops. table_from_index (fst (fst x)) = None) then Some Panic
      else None)"

lemma replicated_batch_cases:
  "(if \<exists>x \<in> set ops. table_from_index (fst (fst x)) = None then replicated_batch seq ops = Inl Panic
    else \<exists>b. replicated_batch seq ops = Inr b)"
proof -
  let ?f = "\<lambda>((t, k), op). res_bind (ok_or Panic (table_from_index t))
      (\<lambda>tb. Inr \<lparr>ro_table = tb, ro_key = k, ro_value = into_value op\<rparr>)"
  have "if \<exists>x \<in> set ops. table_from_index (fst (fst x)) = None then res_map ?f ops = Inl Panic
      else \<exists>ys. res_map ?f ops = Inr ys"
  proof (induction ops)
    case (Cons x ops)
    obtain t k op where x: "x = ((t, k), op)" by (metis prod.exhaust)
    show ?case
      using Cons by (cases "table_from_index t") (auto simp: x split: if_splits)
  qed simp
  then show ?thesis by (auto simp: replicated_batch_def split: if_splits)
qed

lemma maintain_store:
  assumes ok: "store_ok (ne_store e)" "seqs_bounded (ne_store e)" and r: "maintain e = (r, e')"
  shows "store_ok (ne_store e') \<and> seqs_bounded (ne_store e') \<and>
     (\<forall>snap. min_snapshot e (committed_seq e) \<le> snap \<longrightarrow>
        store_view (ne_store e') snap = store_view (ne_store e) snap) \<and>
     committed_seq e' = committed_seq e \<and> ne_readers e' = ne_readers e \<and>
     ne_retain_commits e' = ne_retain_commits e"
proof -
  obtain r1 e1 where f: "maybe_flush e = (r1, e1)" by fastforce
  note flush = maybe_flush_store [OF ok f]
  show ?thesis
  proof (cases r1)
    case (Inr u)
    with r f have "maybe_compact e1 = (r, e')" by (simp add: maintain_def)
    moreover have "min_snapshot e1 = min_snapshot e" using flush by (intro min_snapshot_cong) auto
    ultimately show ?thesis using maybe_compact_store [of e1 r e'] flush by auto
  qed (use r f flush in \<open>auto simp: maintain_def\<close>)
qed

lemma notify_observer_cases:
  assumes "notify_observer seq ops e = r"
  shows "(ne_observer e \<and> (\<exists>x \<in> set ops. table_from_index (fst (fst x)) = None) \<and> r = Inl Panic) \<or>
    (\<not> (ne_observer e \<and> (\<exists>x \<in> set ops. table_from_index (fst (fst x)) = None)) \<and>
     (\<exists>obs. r = Inr (e\<lparr>ne_observed := obs\<rparr>)))"
proof (cases "ne_observer e")
  case True
  then show ?thesis
    using assms replicated_batch_cases [of ops seq]
    by (cases "\<exists>x \<in> set ops. table_from_index (fst (fst x)) = None") (auto simp: notify_observer_def)
next
  case False
  then have "r = Inr (e\<lparr>ne_observed := ne_observed e\<rparr>)" using assms by (simp add: notify_observer_def)
  with False show ?thesis by blast
qed

lemma durable_commit_spec:
  assumes ok: "engine_ok e" and ops: "bt_ok ops" and seq: "committed_seq e < seq"
    and r: "durable_commit wc seq ops e = (r, e')"
  shows "engine_ok e' \<and> ne_readers e' = ne_readers e \<and> ne_retain_commits e' = ne_retain_commits e \<and>
    (case commit_error wc seq ops e of
       Some er \<Rightarrow> r = Inl er \<and> ne_store e' = ne_store e
     | None \<Rightarrow> r = Inr seq \<and> committed_seq e' = seq \<and>
         view_at e' seq = buffered ops (view_at e (committed_seq e)) \<and>
         (\<forall>snap. snap < seq \<longrightarrow> min_snapshot e seq \<le> snap \<longrightarrow> view_at e' snap = view_at e snap))"
proof (cases "commit_error wc seq ops e")
  case (Some er)
  have "r = Inl er \<and> ne_store e' = ne_store e \<and> ne_readers e' = ne_readers e \<and>
      ne_retain_commits e' = ne_retain_commits e"
  proof (cases "append_batch wc (wal_batch seq ops) (ne_wal e)")
    case (Inl er')
    with r Some show ?thesis
      by (auto simp: durable_commit_def commit_error_def append_batch_def wal_record_len_def Let_def
          split: if_splits)
  next
    case (Inr wal)
    then have "ne_observer e \<and> (\<exists>x \<in> set ops. table_from_index (fst (fst x)) = None)" "er = Panic"
      using Some by (auto simp: commit_error_def append_batch_def wal_record_len_def Let_def split: if_splits)
    then have "notify_observer seq ops (e\<lparr>ne_wal := wal\<rparr>) = Inl Panic"
      using notify_observer_cases [where seq = seq and ops = ops and e = "e\<lparr>ne_wal := wal\<rparr>", OF refl] by auto
    with Inr r \<open>er = Panic\<close> show ?thesis by (auto simp: durable_commit_def Let_def)
  qed
  with ok Some show ?thesis by (auto simp: engine_ok_def intro: readers_ok_mono)
next
  case None
  let ?st = "(publish seq ops (ne_store e))\<lparr>st_committed_seq := seq\<rparr>"
  obtain wal where wal: "append_batch wc (wal_batch seq ops) (ne_wal e) = Inr wal"
    using None by (auto simp: commit_error_def append_batch_def wal_record_len_def Let_def split: if_splits)
  obtain obs where obs: "notify_observer seq ops (e\<lparr>ne_wal := wal\<rparr>) =
      Inr (e\<lparr>ne_wal := wal, ne_observed := obs\<rparr>)"
    using notify_observer_cases [where seq = seq and ops = ops and e = "e\<lparr>ne_wal := wal\<rparr>", OF refl] None
    by (auto simp: commit_error_def split: if_splits)
  define e1 where "e1 = e\<lparr>ne_wal := wal, ne_observed := obs, ne_store := ?st\<rparr>"
  obtain r3 e3 where c: "maintain e1 = (r3, e3)" by fastforce
  have res: "r = Inr seq" "e' = record_maintenance r3 e3"
    using r wal obs c by (auto simp: durable_commit_def e1_def Let_def)
  have st: "store_ok ?st" "seqs_bounded ?st"
    using publish_store [OF _ _ ops seq refl] ok by (auto simp: engine_ok_def)
  have view: "\<And>snap. snap < seq \<Longrightarrow> store_view ?st snap = store_view (ne_store e) snap"
      "store_view ?st seq = buffered ops (store_view (ne_store e) (committed_seq e))"
    using publish_view [OF _ _ ops seq refl] ok by (auto simp: engine_ok_def)
  have min1: "min_snapshot e1 = min_snapshot e" by (intro min_snapshot_cong) (auto simp: e1_def)
  have e3: "store_ok (ne_store e3) \<and> seqs_bounded (ne_store e3) \<and>
     (\<forall>snap. min_snapshot e seq \<le> snap \<longrightarrow> store_view (ne_store e3) snap = store_view ?st snap) \<and>
     committed_seq e3 = seq \<and> ne_readers e3 = ne_readers e \<and> ne_retain_commits e3 = ne_retain_commits e"
    using maintain_store [OF _ _ c] st min1 by (simp add: e1_def)
  have "readers_ok e'"
    by (rule readers_ok_mono [of e]) (use ok seq e3 in \<open>auto simp: engine_ok_def res record_maintenance_def\<close>)
  then show ?thesis
    using None res e3 view min_snapshot_le [of e seq]
    by (auto simp: engine_ok_def record_maintenance_def view_at_def)
qed

section \<open>Readers\<close>

lemma register_reader_ok:
  assumes "engine_ok e" "snap \<le> committed_seq e"
  shows "engine_ok (register_reader snap e)" "registered snap (register_reader snap e)"
    and "registered s e \<Longrightarrow> registered s (register_reader snap e)"
    and "view_at (register_reader snap e) = view_at e"
  using assms
  by (auto simp: engine_ok_def readers_ok_def register_reader_def registered_def view_at_def bt_in_set
      split: if_splits)

lemma drop_read_ok:
  assumes "engine_ok e"
  shows "engine_ok (drop_read snap e)" "view_at (drop_read snap e) = view_at e"
proof -
  have r: "bt_ok (ne_readers e)" using assms by (simp add: engine_ok_def readers_ok_def)
  show "view_at (drop_read snap e) = view_at e"
    by (auto simp: drop_read_def view_at_def split: option.splits)
  show "engine_ok (drop_read snap e)"
  proof (cases "map_of (ne_readers e) snap")
    case (Some n)
    then have "snap \<le> committed_seq e" "0 < n"
      using assms by (auto simp: engine_ok_def readers_ok_def bt_in_set [symmetric])
    with assms r Some show ?thesis
      by (auto simp: engine_ok_def readers_ok_def drop_read_def bt_in_set split: if_splits)
  qed (use assms in \<open>simp add: drop_read_def\<close>)
qed

section \<open>The state machine\<close>

text \<open>
  One step of the engine. A commit comes from a transaction opened at the current state (the gate
  admits no other writer in between); \<open>snapshot + 1\<close> does not wrap. A call that waits for the gate
  and gets it is the holder's own steps followed by the call at the free gate (lemma \<open>waited_calls\<close>), so
  the steps need no waiting.
\<close>

lemma waited_calls:
  assumes "ne_held e" "\<not> ne_held e1" "ne_read_only e1 = ne_read_only e"
    and "case gate_timeout e of None \<Rightarrow> True | Some limit \<Rightarrow> d \<le> limit"
  shows "begin_write (Some (d, e1)) e = (if ne_read_only e then Some (Inl ReadOnly, e) else begin_write None e1)"
    and "rb_ops batch \<noteq> [] \<Longrightarrow> apply_replicated wc (Some (d, e1)) batch e = apply_replicated wc None batch e1"
    and "upgrade_runs (Some (d, e1)) e = upgrade_runs None e1"
  using assms
  by (auto simp: begin_write_def begin_write_unchecked_def apply_replicated_def upgrade_runs_def acquire_def
      after_wait_def Let_def split: option.splits)

inductive native_step :: "wal_codec \<Rightarrow> NativeEngine \<Rightarrow> NativeEngine \<Rightarrow> bool" for wc where
  step_read: "begin_read e = (r, e') \<Longrightarrow> native_step wc e e'"
| step_read_at: "begin_read_at snap e = (r, e') \<Longrightarrow> native_step wc e e'"
| step_drop: "native_step wc e (drop_read snap e)"
| step_retention: "native_step wc e (set_retention keep e)"
| step_timeout: "native_step wc e (set_write_timeout timeout e)"
| step_observer: "native_step wc e (set_wal_observer f e)"
| step_begin_write: "begin_write None e = Some (r, e') \<Longrightarrow> native_step wc e e'"
| step_commit: "wt_store t = ne_store e \<Longrightarrow> wt_snapshot t = committed_seq e \<Longrightarrow> bt_ok (wt_buf t) \<Longrightarrow>
    committed_seq e \<noteq> - 1 \<Longrightarrow> native_commit wc t e = (r, e') \<Longrightarrow> native_step wc e e'"
| step_commit_at_least: "wt_store t = ne_store e \<Longrightarrow> wt_snapshot t = committed_seq e \<Longrightarrow>
    bt_ok (wt_buf t) \<Longrightarrow> committed_seq e \<noteq> - 1 \<Longrightarrow> commit_at_least wc floor t e = (r, e') \<Longrightarrow>
    native_step wc e e'"
| step_replicated: "apply_replicated wc None batch e = Some (r, e') \<Longrightarrow> native_step wc e e'"

definition keeps_views :: "NativeEngine \<Rightarrow> NativeEngine \<Rightarrow> bool" where
  "keeps_views e e' \<longleftrightarrow> engine_ok e' \<and> committed_seq e \<le> committed_seq e' \<and>
     (\<forall>snap. registered snap e \<longrightarrow> view_at e' snap = view_at e snap)"

lemma keeps_views_same:
  "engine_ok e \<Longrightarrow> ne_store e' = ne_store e \<Longrightarrow> ne_readers e' = ne_readers e \<Longrightarrow> keeps_views e e'"
  by (simp add: keeps_views_def engine_ok_def readers_ok_def view_at_def)

lemma durable_commit_stable:
  assumes "engine_ok e" "bt_ok ops" "committed_seq e < seq" "durable_commit wc seq ops e = (r, e')"
  shows "keeps_views e e'"
proof -
  note spec = durable_commit_spec [OF assms]
  have reg: "snap < seq" "min_snapshot e seq \<le> snap" if "registered snap e" for snap
  proof -
    have "snap \<le> committed_seq e"
      using that assms(1) map_of_SomeD unfolding registered_def engine_ok_def readers_ok_def by fastforce
    then show "snap < seq" using assms(3) by (rule le_less_trans)
    show "min_snapshot e seq \<le> snap"
      using that assms(1) by (intro min_snapshot_registered) (auto simp: engine_ok_def)
  qed
  show ?thesis
    using spec reg assms(3) by (auto simp: keeps_views_def view_at_def split: option.splits)
qed

lemma keeps_views_release:
  "keeps_views e e' \<Longrightarrow> keeps_views e (e'\<lparr>ne_held := h\<rparr>)"
  by (simp add: keeps_views_def engine_ok_def readers_ok_def view_at_def)

lemma release_gate_stable:
  assumes "engine_ok e" "bt_ok ops" "ops \<noteq> [] \<Longrightarrow> committed_seq e < seq"
    and "release_gate (if ops = [] then (Inr 0, e) else durable_commit wc seq ops e) = (r, e')"
  shows "keeps_views e e'"
proof (cases "ops = []")
  case True
  then show ?thesis using assms by (auto simp: release_gate_def intro!: keeps_views_same)
next
  case False
  obtain r1 e1 where "durable_commit wc seq ops e = (r1, e1)" by fastforce
  with False assms durable_commit_stable [OF assms(1,2)] show ?thesis
    by (auto simp: release_gate_def intro: keeps_views_release)
qed

lemma native_step_stable: "native_step wc e e' \<Longrightarrow> engine_ok e \<Longrightarrow> keeps_views e e'"
proof (induction rule: native_step.induct)
  case (step_read e r e')
  then show ?case using register_reader_ok [of e "committed_seq e"]
    by (auto simp: begin_read_def keeps_views_def register_reader_def)
next
  case (step_read_at snap e r e')
  then show ?case using register_reader_ok [of e snap]
    by (auto simp: begin_read_at_def keeps_views_def not_less register_reader_def split: if_splits)
next
  case (step_drop e snap)
  then show ?case using drop_read_ok [of e snap]
    by (auto simp: keeps_views_def drop_read_def split: option.splits)
next
  case (step_begin_write e r e')
  then have "ne_store e' = ne_store e \<and> ne_readers e' = ne_readers e"
    by (cases "acquire (ne_held e) None (gate_timeout e)")
       (auto simp: begin_write_def begin_write_unchecked_def after_wait_def Let_def split: if_splits sum.splits)
  with step_begin_write show ?case by (auto intro: keeps_views_same)
next
  case (step_commit t e r e')
  show ?case
    using step_commit word_self_less_succ [of "committed_seq e"]
    by (intro release_gate_stable [where seq = "committed_seq e + 1" and ops = "wt_buf t" and wc = wc and r = r])
       (auto simp: native_commit_def)
next
  case (step_commit_at_least t e floor r e')
  show ?case
    using step_commit_at_least word_self_less_succ [of "committed_seq e"]
    by (intro release_gate_stable [where seq = "max (committed_seq e + 1) floor" and ops = "wt_buf t" and wc = wc and r = r])
       (auto simp: commit_at_least_def less_max_iff_disj)
next
  case (step_replicated batch e r e')
  have w: "after_wait None e = e" by (simp add: after_wait_def)
  let ?ops = "bt_of_list (map (\<lambda>o1. ((table_u8 (ro_table o1), ro_key o1), op_of (ro_value o1))) (rb_ops batch))"
  show ?case
  proof (cases "rb_ops batch = [] \<or> (acquire (ne_held e) None (gate_timeout e) = Some (Inr ()) \<longrightarrow>
      rb_seq batch \<le> committed_seq e)")
    case True
    then have "ne_store e' = ne_store e \<and> ne_readers e' = ne_readers e"
      using step_replicated
      by (cases "acquire (ne_held e) None (gate_timeout e)")
         (auto simp: apply_replicated_def w split: if_splits sum.splits)
    with step_replicated show ?thesis by (auto intro: keeps_views_same)
  next
    case False
    then have "release_gate (durable_commit wc (rb_seq batch) ?ops e) = (r, e')"
      using step_replicated by (auto simp: apply_replicated_def w)
    then obtain r1 e1 where "durable_commit wc (rb_seq batch) ?ops e = (r1, e1)" "e' = e1\<lparr>ne_held := False\<rparr>"
      by (auto simp: release_gate_def split: prod.splits)
    with durable_commit_stable [OF step_replicated(2) bt_ok_of_list] False show ?thesis
      by (auto simp: not_le intro: keeps_views_release)
  qed
qed (auto simp: set_retention_def set_write_timeout_def set_wal_observer_def Let_def intro!: keeps_views_same)

end
