(* ===== verification/Native_Recovery.thy ===== *)
theory Native_Recovery
  imports Native_Engine
begin

text \<open>
  Durability: the log replays exactly the batches that were appended in full, and a directory left
  behind by a crash reopens as the store that was running, whether the crash tears the last record of
  the log, falls between the rename of a flushed run and the truncation of the log, or between the
  rename of a merged run and the removal of its inputs.
\<close>

section \<open>The log\<close>

definition wal_record :: "wal_codec \<Rightarrow> WalBatch \<Rightarrow> bytes" where
  "wal_record wc b =
     (let body = wc_to wc b in put_u32_le (of_nat (length body)) @ put_u32_le (crc32 body) @ body)"

definition batch_fits :: "wal_codec \<Rightarrow> WalBatch \<Rightarrow> bool" where
  "batch_fits wc b \<longleftrightarrow> length (wc_to wc b) < 2 ^ 32"

definition wal_bytes :: "wal_codec \<Rightarrow> WalBatch list \<Rightarrow> bytes" where
  "wal_bytes wc bs = concat (map (wal_record wc) bs)"

definition apply_batch :: "Store \<Rightarrow> WalBatch \<Rightarrow> Store" where
  "apply_batch st b =
     (let st = replay_ops (wb_seq b) (wb_ops b) st
      in st\<lparr>st_committed_seq := max (st_committed_seq st) (wb_seq b)\<rparr>)"

lemma append_batch_record:
  "append_batch wc b wal = (if batch_fits wc b then Inr (wal @ wal_record wc b) else Inl InvalidArgument)"
  by (simp add: append_batch_def wal_record_len_def batch_fits_def wal_record_def Let_def)

lemma next_record_intact:
  "wal_codec_ok wc \<Longrightarrow> batch_fits wc b \<Longrightarrow> next_record wc (wal_record wc b @ r) = Some (b, r)"
  by (simp add: next_record_def wal_record_def batch_fits_def wal_codec_ok_def Let_def)

lemma cursor_u32_short: "length c < 4 \<Longrightarrow> cursor_u32 c = None"
  by (simp add: cursor_u32_def cursor_bytes_def)

text \<open>A record cut short is no record.\<close>

lemma next_record_torn:
  assumes fits: "batch_fits wc b" and torn: "strict_prefix p (wal_record wc b)"
  shows "next_record wc p = None"
proof -
  let ?body = "wc_to wc b"
  let ?h1 = "put_u32_le (of_nat (length ?body))" and ?h2 = "put_u32_le (crc32 ?body)"
  have rec: "wal_record wc b = ?h1 @ ?h2 @ ?body" by (simp add: wal_record_def Let_def)
  obtain z where z: "wal_record wc b = p @ z" "z \<noteq> []"
    using torn by (auto simp: strict_prefix_def prefix_def)
  have p: "p = take (length p) (?h1 @ ?h2 @ ?body)" using z rec by (metis append_eq_conv_conj)
  consider "length p < 4" | "4 \<le> length p" "length p < 8" | "8 \<le> length p" by linarith
  then show ?thesis
  proof cases
    case 1
    then show ?thesis by (simp add: next_record_def cursor_u32_short)
  next
    case 2
    then have "p = ?h1 @ take (length p - 4) ?h2" using p by simp
    then have "cursor_u32 p = Some (of_nat (length ?body), take (length p - 4) ?h2)"
      by (metis cursor_u32_put)
    then show ?thesis using 2 by (simp add: next_record_def cursor_u32_short)
  next
    case 3
    then have split: "p = ?h1 @ ?h2 @ take (length p - 8) ?body" using p by simp
    have "length p < length (wal_record wc b)" using z by simp
    then have short: "length p - 8 < length ?body" using rec 3 by simp
    have "cursor_u32 p = Some (of_nat (length ?body), ?h2 @ take (length p - 8) ?body)"
      using split by (metis cursor_u32_put)
    then show ?thesis
      using fits short by (simp add: next_record_def batch_fits_def cursor_bytes_def)
  qed
qed

lemma replay_records:
  assumes "wal_codec_ok wc" "list_all (batch_fits wc) bs" "next_record wc tail = None"
  shows "replay wc (wal_bytes wc bs @ tail) v st =
     (v + length (wal_bytes wc bs), foldl apply_batch st bs)"
  using assms(2)
proof (induction bs arbitrary: v st)
  case Nil
  show ?case by (subst replay.simps) (simp add: wal_bytes_def assms(3))
next
  case (Cons b bs)
  have bytes: "wal_bytes wc (b # bs) = wal_record wc b @ wal_bytes wc bs" by (simp add: wal_bytes_def)
  have "next_record wc (wal_bytes wc (b # bs) @ tail) = Some (b, wal_bytes wc bs @ tail)"
    using next_record_intact [OF assms(1)] Cons.prems by (simp add: bytes)
  then show ?case
    using Cons by (subst replay.simps) (simp add: apply_batch_def [of st b] Let_def bytes add.assoc)
qed

lemma op_of_into_value [simp]: "op_of (into_value op) = op"
  by (cases op) (simp_all add: op_of_def)

lemma replay_publish: "replay_ops seq (wb_ops (wal_batch seq ops)) st = publish seq ops st"
proof (induction seq ops st rule: publish.induct)
  case (2 seq t k op ops st)
  then show ?case by (simp add: wal_batch_def Let_def)
qed (simp add: wal_batch_def)

lemma apply_batch_publish:
  "st_committed_seq st < seq \<Longrightarrow>
   apply_batch st (wal_batch seq ops) = (publish seq ops st)\<lparr>st_committed_seq := seq\<rparr>"
  using replay_publish [of seq ops st] by (simp add: apply_batch_def wal_batch_def Let_def max_def)

lemma replay_ops_runs:
  "replay_ops seq os (st\<lparr>st_ssts := ss, st_next_sst := n\<rparr>) = (replay_ops seq os st)\<lparr>st_ssts := ss, st_next_sst := n\<rparr>"
proof (induction os arbitrary: st)
  case (Cons o1 os)
  show ?case by (cases st) (simp add: Let_def Cons [symmetric])
qed simp

lemma replay_ops_seq: "st_committed_seq (replay_ops seq os st) = st_committed_seq st"
  by (induction seq os st rule: replay_ops.induct) (simp_all add: Let_def)

lemma apply_batch_runs:
  "apply_batch (st\<lparr>st_ssts := ss, st_next_sst := n\<rparr>) b = (apply_batch st b)\<lparr>st_ssts := ss, st_next_sst := n\<rparr>"
  by (simp add: apply_batch_def Let_def replay_ops_runs)

lemma apply_batches_runs:
  "foldl apply_batch (st\<lparr>st_ssts := ss, st_next_sst := n\<rparr>) bs =
   (foldl apply_batch st bs)\<lparr>st_ssts := ss, st_next_sst := n\<rparr>"
  by (induction bs arbitrary: st) (simp_all add: apply_batch_runs)

lemma replay_ops_set_seq:
  "replay_ops seq os (st\<lparr>st_committed_seq := c\<rparr>) = (replay_ops seq os st)\<lparr>st_committed_seq := c\<rparr>"
proof (induction os arbitrary: st)
  case (Cons o1 os)
  show ?case by (cases st) (simp add: Let_def Cons [symmetric])
qed simp

text \<open>A higher sequence at the start only lifts the sequence at the end.\<close>

lemma apply_batches_seq:
  "foldl apply_batch (st\<lparr>st_committed_seq := max (st_committed_seq st) c\<rparr>) bs =
   (foldl apply_batch st bs)\<lparr>st_committed_seq := max (st_committed_seq (foldl apply_batch st bs)) c\<rparr>"
proof (induction bs arbitrary: st)
  case (Cons b bs)
  have "apply_batch (st\<lparr>st_committed_seq := max (st_committed_seq st) c\<rparr>) b =
      (apply_batch st b)\<lparr>st_committed_seq := max (st_committed_seq (apply_batch st b)) c\<rparr>"
    by (simp add: apply_batch_def Let_def replay_ops_set_seq replay_ops_seq ac_simps)
  with Cons [of "apply_batch st b"] show ?case by simp
qed simp

section \<open>The directory of a running engine\<close>

definition file_of :: "Sst \<Rightarrow> u64 \<times> bytes" where
  "file_of s = (s_path s, s_file s)"

definition max_of :: "Sst list \<Rightarrow> u64" where
  "max_of ss = foldl max 0 (map s_max_seq ss)"

definition loaded :: "Store \<Rightarrow> Store" where
  "loaded st = st\<lparr>st_mem := [], st_mem_bytes := 0, st_committed_seq := max_of (st_ssts st)\<rparr>"

definition disk_ok :: "wal_codec \<Rightarrow> NativeEngine \<Rightarrow> bool" where
  "disk_ok wc e \<longleftrightarrow>
     ne_files e = map file_of (st_ssts (ne_store e)) \<and> bt_ok (ne_files e) \<and>
     (\<forall>s \<in> set (st_ssts (ne_store e)). sst_open (s_path s) (s_file s) = Inr s \<and>
        s_path s < st_next_sst (ne_store e) \<and> s_max_seq s \<le> committed_seq e) \<and>
     (\<exists>bs. list_all (batch_fits wc) bs \<and> ne_wal e = wal_bytes wc bs \<and>
        foldl apply_batch (loaded (ne_store e)) bs = ne_store e)"

lemma disk_ok_cong:
  "ne_files e' = ne_files e \<Longrightarrow> ne_store e' = ne_store e \<Longrightarrow> ne_wal e' = ne_wal e \<Longrightarrow>
   disk_ok wc e' = disk_ok wc e"
  by (simp add: disk_ok_def)

lemma sst_open_fields: "sst_open p data = Inr s \<Longrightarrow> s_path s = p \<and> s_file s = data"
  by (auto simp: sst_open_def res_bind_eq_Inr Let_def split: if_splits)

lemma foldl_max: "foldl max (a :: u64) xs = max a (foldl max 0 xs)"
proof (induction xs arbitrary: a)
  case (Cons x xs)
  show ?case using Cons [of "max a x"] Cons [of x] by (simp add: max.assoc max_0L)
qed simp

lemma max_of_snoc: "max_of (ss @ [s]) = max (max_of ss) (s_max_seq s)"
  by (simp add: max_of_def)

lemma max_of_le: "(\<And>s. s \<in> set ss \<Longrightarrow> s_max_seq s \<le> c) \<Longrightarrow> max_of ss \<le> c"
  by (induction ss rule: rev_induct) (auto simp: max_of_def)

lemma load_ssts_files:
  "(\<And>s. s \<in> set ss \<Longrightarrow> sst_open (s_path s) (s_file s) = Inr s) \<Longrightarrow>
   load_ssts (map file_of ss) st =
     Inr (st\<lparr>st_committed_seq := foldl max (st_committed_seq st) (map s_max_seq ss),
             st_ssts := st_ssts st @ ss\<rparr>)"
  by (induction ss arbitrary: st) (simp_all add: file_of_def)

lemma sort_bt: "bt_ok m \<Longrightarrow> sort_key fst m = m"
  by (simp add: sorted_sort_id strict_sorted_iff sort_key_id_if_sorted sorted_map)

lemma open_files:
  assumes wc: "wal_codec_ok wc" and files: "bt_ok (map file_of ss)"
    and opens: "\<And>s. s \<in> set ss \<Longrightarrow> sst_open (s_path s) (s_file s) = Inr s"
    and wal: "list_all (batch_fits wc) bs" "next_record wc tail = None"
    and st0: "st0 = \<lparr>st_mem = [], st_mem_bytes = 0, st_committed_seq = max_of ss, st_ssts = ss,
                     st_next_sst = next_number (map file_of ss)\<rparr>"
  shows "\<exists>e. open_with_options wc \<lparr>di_files = map file_of ss, di_wal = wal_bytes wc bs @ tail, di_locked = False\<rparr>
       threshold ro = Inr e \<and> ne_store e = foldl apply_batch st0 bs \<and> ne_wal e = wal_bytes wc bs \<and>
     ne_files e = map file_of ss \<and> ne_readers e = [] \<and> ne_retain_commits e = 0 \<and> \<not> ne_observer e"
  using replay_records [OF wc wal] load_ssts_files [OF opens]
  by (simp add: open_with_options_def lock_directory_def sst_list_def sort_bt [OF files] st0 max_of_def
      split: prod.splits)

text \<open>A crash, possibly in the middle of an append: the directory reopens as the running store.\<close>

lemma recover:
  assumes wc: "wal_codec_ok wc" and d: "disk_ok wc e" and tail: "next_record wc tail = None"
  shows "\<exists>e'. open_with_options wc \<lparr>di_files = ne_files e, di_wal = ne_wal e @ tail, di_locked = False\<rparr>
       threshold ro = Inr e' \<and>
     ne_store e' = (ne_store e)\<lparr>st_next_sst := next_number (ne_files e)\<rparr> \<and>
     ne_wal e' = ne_wal e \<and> ne_files e' = ne_files e \<and> ne_readers e' = []"
proof -
  let ?st = "ne_store e" and ?ss = "st_ssts (ne_store e)"
  obtain bs where bs: "list_all (batch_fits wc) bs" "ne_wal e = wal_bytes wc bs"
      "foldl apply_batch (loaded ?st) bs = ?st"
    using d by (auto simp: disk_ok_def)
  have files: "ne_files e = map file_of ?ss" "bt_ok (map file_of ?ss)"
    and opens: "\<And>s. s \<in> set ?ss \<Longrightarrow> sst_open (s_path s) (s_file s) = Inr s"
    using d by (auto simp: disk_ok_def)
  let ?n = "next_number (map file_of ?ss)"
  have "foldl apply_batch ((loaded ?st)\<lparr>st_ssts := ?ss, st_next_sst := ?n\<rparr>) bs = ?st\<lparr>st_ssts := ?ss, st_next_sst := ?n\<rparr>"
    by (simp only: apply_batches_runs bs(3))
  then have "foldl apply_batch ((loaded ?st)\<lparr>st_next_sst := ?n\<rparr>) bs = ?st\<lparr>st_next_sst := ?n\<rparr>"
    by (cases ?st) (simp add: loaded_def)
  moreover have "\<lparr>st_mem = [], st_mem_bytes = 0, st_committed_seq = max_of ?ss, st_ssts = ?ss,
      st_next_sst = ?n\<rparr> = (loaded ?st)\<lparr>st_next_sst := ?n\<rparr>"
    by (cases ?st) (simp add: loaded_def)
  ultimately show ?thesis
    using open_files [OF wc files(2) opens bs(1) tail refl, of threshold ro] by (auto simp: files(1) bs(2))
qed

section \<open>The directory follows the engine\<close>

lemma bt_insert_last: "\<forall>x \<in> set m. fst x < k \<Longrightarrow> bt_insert k v m = m @ [(k, v)]"
  by (induction m) auto

definition room_for_runs :: "NativeEngine \<Rightarrow> bool" where
  "room_for_runs e \<longleftrightarrow> unat (st_next_sst (ne_store e)) + 2 < 2 ^ 64"

lemma next_sst_succ:
  assumes "unat (n :: u64) + 1 < 2 ^ 64"
  shows "unat (n + 1) = unat n + 1" "n < n + 1"
proof -
  have "n \<noteq> - 1" using assms by (auto simp: unsigned_minus_1_eq_mask mask_eq_exp_minus_1)
  then have "1 + n \<noteq> 0" by (metis add.commute eq_neg_iff_add_eq_0)
  then show "unat (n + 1) = unat n + 1" by (simp add: unatSuc add.commute)
  show "n < n + 1" using \<open>n \<noteq> - 1\<close> by (rule word_self_less_succ)
qed

lemma flush_disk:
  assumes ok: "store_ok (ne_store e)" "seqs_bounded (ne_store e)" and d: "disk_ok wc e"
    and room: "unat (st_next_sst (ne_store e)) + 1 < 2 ^ 64" and r: "maybe_flush e = (r, e')"
  shows "disk_ok wc e'" "unat (st_next_sst (ne_store e')) \<le> unat (st_next_sst (ne_store e)) + 1"
proof (atomize (full), rule maybe_flush_cases [OF ok r], goal_cases)
  case (3 data s)
  let ?st = "ne_store e" and ?n = "st_next_sst (ne_store e)"
  have old: "ne_files e = map file_of (st_ssts ?st)" "bt_ok (ne_files e)"
      "\<forall>x \<in> set (st_ssts ?st). sst_open (s_path x) (s_file x) = Inr x \<and> s_path x < ?n \<and> s_max_seq x \<le> committed_seq e"
    using d by (auto simp: disk_ok_def)
  have lt: "\<forall>x \<in> set (ne_files e). fst x < ?n" using old by (auto simp: file_of_def)
  have files: "bt_insert ?n data (ne_files e) = map file_of (st_ssts ?st @ [s])"
    using bt_insert_last [OF lt, of data] old(1) sst_open_fields [OF 3(3)] by (simp add: file_of_def)
  have "max_of (st_ssts ?st) \<le> committed_seq e" by (rule max_of_le) (use old(3) in blast)
  then have m: "max_of (st_ssts ?st @ [s]) = committed_seq e"
    by (simp add: max_of_snoc 3(5) max_def)
  have "foldl apply_batch (loaded (ne_store e')) [] = ne_store e'"
    by (simp add: 3(7) loaded_def m)
  moreover have "s_path s < ?n + 1" "\<And>x. x \<in> set (st_ssts ?st) \<Longrightarrow> s_path x < ?n + 1"
    using next_sst_succ(2) [OF room] old(3) 3(6) by (auto intro: less_trans)
  moreover have "bt_ok (bt_insert ?n data (ne_files e))" using old(2) by simp
  ultimately show ?case
    using old(3) 3(3,5,6) sst_open_fields [OF 3(3)] next_sst_succ(1) [OF room]
    by (auto simp: disk_ok_def 3(7) files wal_bytes_def intro!: exI [of _ "[]"])
qed (use d in auto)

lemma compact_disk:
  assumes ok: "store_ok (ne_store e)" and d: "disk_ok wc e"
    and room: "unat (st_next_sst (ne_store e)) + 1 < 2 ^ 64" and r: "maybe_compact e = (r, e')"
  shows "disk_ok wc e'"
proof (rule maybe_compact_cases [OF ok r], goal_cases)
  case (3 out data s)
  let ?st = "ne_store e" and ?n = "st_next_sst (ne_store e)" and ?ss = "st_ssts (ne_store e)"
  have old: "ne_files e = map file_of ?ss" "bt_ok (ne_files e)"
      "\<forall>x \<in> set ?ss. sst_open (s_path x) (s_file x) = Inr x \<and> s_path x < ?n \<and> s_max_seq x \<le> committed_seq e"
    using d by (auto simp: disk_ok_def)
  obtain bs where bs: "list_all (batch_fits wc) bs" "ne_wal e = wal_bytes wc bs"
      "foldl apply_batch (loaded ?st) bs = ?st"
    using d by (auto simp: disk_ok_def)
  have keys: "set (unlink_order ?ss) = fst ` set (ne_files e)"
    by (simp add: unlink_order_def old(1) file_of_def image_image)
  have lt: "\<forall>x \<in> set (ne_files e). fst x < ?n" using old by (auto simp: file_of_def)
  have n: "?n \<notin> fst ` set (ne_files e)" using lt by auto
  have "fold bt_remove (unlink_order ?ss) (bt_insert ?n data (ne_files e)) = [(?n, data)]"
  proof (rule bt_ext)
    show "map_of (fold bt_remove (unlink_order ?ss) (bt_insert ?n data (ne_files e))) = map_of [(?n, data)]"
      using old(2) n by (auto simp: map_of_fold_remove keys fun_eq_iff map_of_eq_None_iff)
  qed (use old(2) in simp_all)
  then have files: "ne_files e' = map file_of [s]"
    using sst_open_fields [OF 3(6)] by (simp add: 3(10) file_of_def)
  have m: "max_of [s] = max_of ?ss" by (simp add: max_of_def 3(8))
  have le: "s_max_seq s \<le> committed_seq e"
    using max_of_le [of ?ss "committed_seq e"] old(3) 3(8) by (simp add: max_of_def)
  have "loaded (ne_store e') = (loaded ?st)\<lparr>st_ssts := [s], st_next_sst := ?n + 1\<rparr>"
    by (simp add: loaded_def 3(10) m)
  then have "foldl apply_batch (loaded (ne_store e')) bs = ne_store e'"
    by (simp add: apply_batches_runs bs(3) 3(10))
  moreover have "s_path s < ?n + 1" using next_sst_succ(2) [OF room] 3(7) by simp
  ultimately show ?case
    using files 3(6,7) le bs sst_open_fields [OF 3(6)] by (auto simp: disk_ok_def 3(10))
qed (use d in auto)

lemma durable_commit_disk:
  assumes ok: "engine_ok e" and d: "disk_ok wc e" and ops: "bt_ok ops" and seq: "committed_seq e < seq"
    and room: "room_for_runs e" and known: "\<forall>x \<in> set ops. table_from_index (fst (fst x)) \<noteq> None"
    and r: "durable_commit wc seq ops e = (r, e')"
  shows "disk_ok wc e'"
proof (cases "append_batch wc (wal_batch seq ops) (ne_wal e)")
  case (Inl er)
  with r have "e' = e" by (simp add: durable_commit_def)
  with d show ?thesis by simp
next
  case (Inr wal)
  then have fits: "batch_fits wc (wal_batch seq ops)" and wal: "wal = ne_wal e @ wal_record wc (wal_batch seq ops)"
    by (auto simp: append_batch_record split: if_splits)
  obtain obs where obs: "notify_observer seq ops (e\<lparr>ne_wal := wal\<rparr>) = Inr (e\<lparr>ne_wal := wal, ne_observed := obs\<rparr>)"
    using notify_observer_cases [where seq = seq and ops = ops and e = "e\<lparr>ne_wal := wal\<rparr>", OF refl] known
    by auto
  let ?st = "(publish seq ops (ne_store e))\<lparr>st_committed_seq := seq\<rparr>"
  define e1 where "e1 = e\<lparr>ne_wal := wal, ne_observed := obs, ne_store := ?st\<rparr>"
  obtain r3 e3 where c: "maintain e1 = (r3, e3)" by fastforce
  have e': "e' = record_maintenance r3 e3"
    using r Inr obs c by (auto simp: durable_commit_def e1_def Let_def)
  have st: "store_ok (ne_store e1)" "seqs_bounded (ne_store e1)"
    using publish_store [OF _ _ ops seq refl] ok by (auto simp: engine_ok_def e1_def)
  obtain bs where bs: "list_all (batch_fits wc) bs" "ne_wal e = wal_bytes wc bs"
      "foldl apply_batch (loaded (ne_store e)) bs = ne_store e"
    using d by (auto simp: disk_ok_def)
  have "loaded ?st = loaded (ne_store e)"
  proof -
    have "(publish seq ops s)\<lparr>st_mem := [], st_mem_bytes := 0, st_committed_seq := c\<rparr> =
        s\<lparr>st_mem := [], st_mem_bytes := 0, st_committed_seq := c\<rparr>" for s c
      by (induction seq ops s rule: publish.induct) simp_all
    then show ?thesis by (simp add: loaded_def)
  qed
  then have "foldl apply_batch (loaded (ne_store e1)) (bs @ [wal_batch seq ops]) = ne_store e1"
    using bs(3) apply_batch_publish [of "ne_store e" seq ops] seq by (simp add: e1_def)
  moreover have "list_all (batch_fits wc) (bs @ [wal_batch seq ops])" using bs(1) fits by simp
  moreover have "ne_wal e1 = wal_bytes wc (bs @ [wal_batch seq ops])"
    by (simp add: e1_def wal bs(2) wal_bytes_def)
  ultimately have log: "\<exists>bs. list_all (batch_fits wc) bs \<and> ne_wal e1 = wal_bytes wc bs \<and>
      foldl apply_batch (loaded (ne_store e1)) bs = ne_store e1" by blast
  have "ne_files e1 = map file_of (st_ssts (ne_store e1)) \<and> bt_ok (ne_files e1) \<and>
     (\<forall>s \<in> set (st_ssts (ne_store e1)). sst_open (s_path s) (s_file s) = Inr s \<and>
        s_path s < st_next_sst (ne_store e1) \<and> s_max_seq s \<le> committed_seq e1)"
    using d seq unfolding disk_ok_def by (auto simp: e1_def intro: order_trans less_imp_le)
  with log have d1: "disk_ok wc e1" unfolding disk_ok_def by blast
  obtain r2 e2 where f: "maybe_flush e1 = (r2, e2)" by fastforce
  have room1: "unat (st_next_sst (ne_store e1)) + 2 < 2 ^ 64" using room by (simp add: e1_def room_for_runs_def)
  have d2: "disk_ok wc e2" "unat (st_next_sst (ne_store e2)) + 1 < 2 ^ 64"
    using flush_disk [OF st d1 _ f] room1 by auto
  have "disk_ok wc e3"
  proof (cases r2)
    case (Inr u)
    with c f have "maybe_compact e2 = (r3, e3)" by (simp add: maintain_def)
    moreover have "store_ok (ne_store e2)" using maybe_flush_store [OF st f] by simp
    ultimately show ?thesis using compact_disk d2 by blast
  qed (use c f d2 in \<open>auto simp: maintain_def\<close>)
  moreover have "disk_ok wc e' = disk_ok wc e3"
    by (rule disk_ok_cong) (simp_all add: e' record_maintenance_def)
  ultimately show ?thesis by simp
qed

section \<open>Crashes inside the maintenance\<close>

lemma reopened_store:
  assumes wc: "wal_codec_ok wc" and d: "disk_ok wc e" and files: "bt_ok (map file_of ss)"
    and opens: "\<And>s. s \<in> set ss \<Longrightarrow> sst_open (s_path s) (s_file s) = Inr s"
    and m: "max_of ss = max (max_of (st_ssts (ne_store e))) c" "c \<le> committed_seq e"
  shows "\<exists>e'. open_with_options wc \<lparr>di_files = map file_of ss, di_wal = ne_wal e, di_locked = False\<rparr>
       threshold ro = Inr e' \<and>
     ne_store e' = (ne_store e)\<lparr>st_ssts := ss, st_next_sst := next_number (map file_of ss)\<rparr> \<and>
     ne_readers e' = []"
proof -
  let ?st = "ne_store e" and ?n = "next_number (map file_of ss)"
  obtain bs where bs: "list_all (batch_fits wc) bs" "ne_wal e = wal_bytes wc bs"
      "foldl apply_batch (loaded ?st) bs = ?st"
    using d by (auto simp: disk_ok_def)
  have none: "next_record wc [] = None" by (simp add: next_record_def cursor_u32_short)
  let ?l = "(loaded ?st)\<lparr>st_committed_seq := max (st_committed_seq (loaded ?st)) c\<rparr>"
  have "foldl apply_batch ?l bs = ?st\<lparr>st_committed_seq := max (committed_seq e) c\<rparr>"
    unfolding apply_batches_seq bs(3) ..
  then have up: "foldl apply_batch ?l bs = ?st" using m(2) by (simp add: max_def)
  have "\<lparr>st_mem = [], st_mem_bytes = 0, st_committed_seq = max_of ss, st_ssts = ss, st_next_sst = ?n\<rparr> =
      ?l\<lparr>st_ssts := ss, st_next_sst := ?n\<rparr>"
    by (cases ?st) (simp add: loaded_def m(1))
  then have "foldl apply_batch \<lparr>st_mem = [], st_mem_bytes = 0, st_committed_seq = max_of ss, st_ssts = ss,
      st_next_sst = ?n\<rparr> bs = ?st\<lparr>st_ssts := ss, st_next_sst := ?n\<rparr>"
    by (simp only: apply_batches_runs up)
  then show ?thesis
    using open_files [OF wc files opens bs(1) none refl, of threshold ro] by (auto simp: bs(2))
qed

text \<open>After the rename of the flushed run, before the truncation of the log.\<close>

lemma recover_flush:
  assumes wc: "wal_codec_ok wc" and ok: "engine_ok e" and d: "disk_ok wc e"
    and w: "sst_write (st_mem (ne_store e)) (committed_seq e) = Inr data"
  shows "\<exists>e'. open_with_options wc \<lparr>di_files = bt_insert (st_next_sst (ne_store e)) data (ne_files e),
         di_wal = ne_wal e, di_locked = False\<rparr> threshold ro = Inr e' \<and>
     engine_ok e' \<and> committed_seq e' = committed_seq e \<and> view_at e' = view_at e"
proof -
  let ?st = "ne_store e" and ?ss = "st_ssts (ne_store e)" and ?n = "st_next_sst (ne_store e)"
  have st: "store_ok ?st" "seqs_bounded ?st" using ok by (auto simp: engine_ok_def)
  obtain s where s: "sst_open ?n data = Inr s" "sst_repr s (st_mem ?st)" "s_max_seq s = committed_seq e"
    using write_sorted_repr [OF _ w [unfolded sst_write_def], of ?n] st(1) by (auto simp: store_ok_def)
  note sf = sst_open_fields [OF s(1)]
  have old: "ne_files e = map file_of ?ss" "bt_ok (ne_files e)"
      "\<forall>x \<in> set ?ss. sst_open (s_path x) (s_file x) = Inr x \<and> s_path x < ?n \<and> s_max_seq x \<le> committed_seq e"
    using d by (auto simp: disk_ok_def)
  have files: "bt_insert ?n data (ne_files e) = map file_of (?ss @ [s])"
    using bt_insert_last [of "ne_files e" ?n data] old sf by (auto simp: file_of_def)
  have sorted: "bt_ok (map file_of (?ss @ [s]))" using bt_ok_insert [OF old(2), of ?n data] by (simp only: files)
  have opens: "sst_open (s_path x) (s_file x) = Inr x" if "x \<in> set (?ss @ [s])" for x
    using that old(3) s(1) sf by auto
  have m: "max_of (?ss @ [s]) = max (max_of ?ss) (committed_seq e)" by (simp add: max_of_snoc s(3))
  from reopened_store [OF wc d sorted opens m order_refl, of threshold ro]
  obtain e' where e': "open_with_options wc \<lparr>di_files = map file_of (?ss @ [s]), di_wal = ne_wal e,
         di_locked = False\<rparr> threshold ro = Inr e'"
    "ne_store e' = ?st\<lparr>st_ssts := ?ss @ [s], st_next_sst := next_number (map file_of (?ss @ [s]))\<rparr>"
    "ne_readers e' = []"
    by blast
  have l: "layers (ne_store e') = layers ?st @ [st_mem ?st]"
    by (simp add: e'(2) layers_def content_repr [OF s(2)])
  have "supersedes (st_mem ?st) x" if "x \<in> set (layers ?st)" for x
  proof (cases "x = st_mem ?st")
    case True
    then show ?thesis by (auto simp: supersedes_def)
  next
    case False
    then show ?thesis using st(1) that by (auto simp: store_ok_def layers_def layered_snoc)
  qed
  then have "store_ok (ne_store e')"
    using st(1) s(2) content_repr [OF s(2)] unfolding store_ok_def l
    by (auto simp: e'(2) layered_snoc)
  moreover have "seqs_bounded (ne_store e')"
    using st(2) unfolding seqs_bounded_def l by (auto simp: e'(2) layers_def)
  moreover have "all_of (layers ?st @ [st_mem ?st]) = all_of (layers ?st)"
    by (rule bt_ext) (auto simp: all_of_def layers_def bt_of_list_map_of map_add_def fun_eq_iff split: option.splits)
  then have "store_versions (ne_store e') = store_versions ?st"
    unfolding store_versions_def l by simp
  then have "view_at e' = view_at e" by (simp add: view_at_def store_view_def fun_eq_iff)
  moreover have "readers_ok e'" "committed_seq e' = committed_seq e" by (simp_all add: readers_ok_def e'(2,3))
  ultimately show ?thesis using e'(1) unfolding files engine_ok_def by blast
qed

text \<open>
  After the rename of a merged run, with the oldest \<open>j\<close> inputs already removed: removing the inputs
  oldest first would be safe at every point. The code removes them newest first.
\<close>

lemma merged_over_inputs:
  assumes repr: "\<And>x. x \<in> set ss \<Longrightarrow> sst_repr x (content x)" and lay: "layered (map content ss)"
    and s: "sst_repr s out"
    and vis: "visible_value out t k snap = visible_value (all_of (map content ss)) t k snap"
  shows "ssts_get (rev (drop j ss @ [s])) t k snap = Inr (visible_value (all_of (map content ss)) t k snap)"
proof (cases "visible out t k snap")
  case (Some op)
  then show ?thesis using sst_get_visible [OF s] vis by (simp add: visible_value_def)
next
  case None
  let ?new = "map content (drop j ss)" and ?old = "map content (take j ss)"
  have split: "map content ss = ?old @ ?new" by (metis append_take_drop_id map_append)
  have lay': "layered ?new" "layered ?old" "\<And>o1 n. o1 \<in> set ?old \<Longrightarrow> n \<in> set ?new \<Longrightarrow> supersedes n o1"
    using lay unfolding split layered_def sorted_wrt_append by auto
  have ok: "list_all bt_ok ?new" "list_all bt_ok (map content ss)"
    using repr by (auto simp: list_all_iff sst_repr_def dest!: in_set_dropD)
  have get: "ssts_get (rev (drop j ss)) t k snap = Inr (visible_value (all_of ?new) t k snap)"
    by (rule ssts_get_visible) (use repr lay' in \<open>auto dest: in_set_dropD\<close>)
  have none: "visible_value (all_of (map content ss)) t k snap = None"
    using vis None by (simp add: visible_value_def)
  have "visible (all_of (map content ss)) t k snap = Some op" if v: "visible (all_of ?new) t k snap = Some op" for op
  proof -
    have sets: "set (all_of ?new) \<subseteq> set (all_of (map content ss))"
      unfolding set_all_of_iff [OF lay'(1) ok(1)] set_all_of_iff [OF lay ok(2)] by (auto dest: in_set_dropD)
    obtain x where x: "((t, k, Reverse x), op) \<in> set (all_of ?new)" "x \<le> snap"
      and top: "\<And>s' op'. ((t, k, Reverse s'), op') \<in> set (all_of ?new) \<Longrightarrow> s' \<le> snap \<Longrightarrow> s' \<le> x"
      using v unfolding visible_iff [OF bt_ok_all_of] by blast
    obtain n where n: "n \<in> set ?new" "((t, k, Reverse x), op) \<in> set n" using set_all_of [OF x(1)] by blast
    have "s' \<le> x" if y: "((t, k, Reverse s'), op') \<in> set (all_of (map content ss))" "s' \<le> snap" for s' op'
    proof -
      obtain l where l: "l \<in> set ?old \<union> set ?new" "((t, k, Reverse s'), op') \<in> set l"
        using set_all_of [OF y(1)] unfolding split by auto
      show ?thesis
      proof (cases "l \<in> set ?new")
        case True
        then have "((t, k, Reverse s'), op') \<in> set (all_of ?new)"
          using l(2) unfolding set_all_of_iff [OF lay'(1) ok(1)] by blast
        then show ?thesis using top y(2) by blast
      next
        case False
        then have sup: "supersedes n l" using l(1) lay'(3) n(1) by blast
        have "((t, k, Reverse s'), op') \<in> set (all_of ?new)" if "x \<le> s'"
          using supersedesD [OF sup l(2) n(2) that] n(1) unfolding set_all_of_iff [OF lay'(1) ok(1)] by blast
        then show ?thesis using top y(2) by (metis linear)
      qed
    qed
    then show ?thesis using x sets unfolding visible_iff [OF bt_ok_all_of] by blast
  qed
  then have "visible_value (all_of ?new) t k snap = None"
    using none by (cases "visible (all_of ?new) t k snap") (auto simp: visible_value_def)
  then show ?thesis using get none None sst_get_visible [OF s] by simp
qed

end
