(* ===== verification/Native_Faults.thy ===== *)
theory Native_Faults
  imports Native_Recovery
begin

text \<open>
  Three places where the engine does not keep what its comments promise, each as a concrete run of
  the model: a crash inside a compaction's removals, the format upgrade followed by a reopen, and
  time travel after the retention window was widened.
\<close>

section \<open>Five runs and a lone tombstone\<close>

text \<open>
  The key \<open>[1]\<close> is put by commit 1 (oldest run) and deleted by commit 5 (newest run); commit 6 is the
  latest, and one commit of history is retained, so the tombstone lies at the collection floor.
\<close>

definition fault_runs :: "entry list list" where
  "fault_runs =
     [[((0, [1], Reverse 1), Put [7])], [((0, [2], Reverse 2), Put [7])], [((0, [3], Reverse 3), Put [7])],
      [((0, [4], Reverse 4), Put [7])],
      [((0, [1], Reverse 5), Del), ((0, [6], Reverse 6), Put [7])]]"

definition fault_kept :: "entry list" where
  "fault_kept = [((0, [2], Reverse 2), Put [7]), ((0, [3], Reverse 3), Put [7]),
     ((0, [4], Reverse 4), Put [7]), ((0, [6], Reverse 6), Put [7])]"

lemma fault_merge:
  "bt_of_list (concat fault_runs) =
     ((0, [1], Reverse 5), Del) # ((0, [1], Reverse 1), Put [7]) # fault_kept"
  by (simp add: fault_runs_def fault_kept_def bt_of_list_def)

lemma fault_gc: "gc_versions (map Inr (bt_of_list (concat fault_runs))) 5 = map Inr fault_kept"
  unfolding fault_merge by (simp add: gc_versions_def fault_kept_def emit_group_def)

lemma run_exists:
  assumes "bt_ok es" "run_fits (length es) es"
  shows "\<exists>s. sst_open n (s_file s) = Inr s \<and> sst_repr s es \<and> s_max_seq s = m \<and> s_path s = n \<and>
     s_count s = of_nat (length es) \<and> \<not> is_legacy s"
proof -
  obtain data where "write_sorted (map Inr es) (length es) m = Inr data"
    using write_sorted_total [OF assms(2)] by blast
  from write_sorted_repr [OF assms(1) this, of n] show ?thesis using sst_open_fields by metis
qed

lemma small_run:
  assumes "length (encs es) < 1000" "length es < 1000"
  shows "run_fits (length es) es"
  using assms by (simp add: run_fits_def)

section \<open>An engine over given runs\<close>

definition engine_over :: "Sst list \<Rightarrow> u64 \<Rightarrow> u64 \<Rightarrow> u64 \<Rightarrow> NativeEngine" where
  "engine_over ss committed next retain =
     \<lparr>ne_store = \<lparr>st_mem = [], st_mem_bytes = 0, st_committed_seq = committed, st_ssts = ss,
                  st_next_sst = next\<rparr>,
      ne_wal = [], ne_files = map file_of ss, ne_held = False, ne_write_timeout_ms = 0,
      ne_flush_threshold = DEFAULT_FLUSH_THRESHOLD, ne_readers = [], ne_retain_commits = retain,
      ne_read_only = False, ne_observer = False, ne_observed = [], ne_last_maintenance_error = None\<rparr>"

definition runs_repr :: "Sst list \<Rightarrow> entry list list \<Rightarrow> bool" where
  "runs_repr ss ess \<longleftrightarrow> list_all2 (\<lambda>s es. sst_repr s es \<and> sst_open (s_path s) (s_file s) = Inr s) ss ess"

lemma runs_repr_content: "runs_repr ss ess \<Longrightarrow> map content ss = ess"
  unfolding runs_repr_def by (induction ss ess rule: list_all2_induct) (auto simp: content_repr)

lemma runs_repr_mem:
  "runs_repr ss ess \<Longrightarrow> s \<in> set ss \<Longrightarrow> sst_repr s (content s) \<and> sst_open (s_path s) (s_file s) = Inr s"
  unfolding runs_repr_def by (induction ss ess rule: list_all2_induct) (auto simp: content_repr)

lemma engine_over_ok:
  assumes "runs_repr ss ess" "layered ess" "\<forall>es \<in> set ess. \<forall>e \<in> set es. entry_seq e \<le> committed"
  shows "engine_ok (engine_over ss committed next retain)"
    and "view_at (engine_over ss committed next retain) snap tb k =
         visible_value (bt_of_list (concat ess)) (table_u8 tb) k snap"
proof -
  let ?st = "ne_store (engine_over ss committed next retain)"
  have l: "layers ?st = ess @ [[]]" by (simp add: layers_def engine_over_def runs_repr_content [OF assms(1)])
  have "store_ok ?st"
    using assms(2) runs_repr_mem [OF assms(1)] unfolding store_ok_def l
    by (auto simp: layered_snoc engine_over_def)
  moreover have "seqs_bounded ?st" using assms(3) unfolding seqs_bounded_def l by (auto simp: engine_over_def)
  ultimately show "engine_ok (engine_over ss committed next retain)"
    by (auto simp: engine_ok_def readers_ok_def engine_over_def)
  show "view_at (engine_over ss committed next retain) snap tb k =
         visible_value (bt_of_list (concat ess)) (table_u8 tb) k snap"
    unfolding view_at_def store_view_def store_versions_def l by (simp add: all_of_def)
qed

lemma engine_over_disk:
  assumes "runs_repr ss ess" "bt_ok (map file_of ss)" "max_of ss = committed"
    and "\<forall>s \<in> set ss. s_path s < next"
  shows "disk_ok wc (engine_over ss committed next retain)"
proof -
  have le: "s_max_seq s \<le> max_of ss" if "s \<in> set ss" for s
    using that by (induction ss rule: rev_induct) (auto simp: max_of_snoc intro: max.coboundedI1)
  let ?e = "engine_over ss committed next retain"
  have "foldl apply_batch (loaded (ne_store ?e)) [] = ne_store ?e"
    using assms(3) by (simp add: engine_over_def loaded_def)
  moreover have "ne_wal ?e = wal_bytes wc []" by (simp add: engine_over_def wal_bytes_def)
  ultimately have "\<exists>bs. list_all (batch_fits wc) bs \<and> ne_wal ?e = wal_bytes wc bs \<and>
      foldl apply_batch (loaded (ne_store ?e)) bs = ne_store ?e"
    by (intro exI [of _ "[]"]) simp
  moreover have "ne_files ?e = map file_of ss" "st_ssts (ne_store ?e) = ss" "committed_seq ?e = committed"
      "st_next_sst (ne_store ?e) = next"
    by (simp_all add: engine_over_def)
  ultimately show ?thesis
    unfolding disk_ok_def using assms(2,3,4) runs_repr_mem [OF assms(1)] le by auto
qed

text \<open>Reopening a directory with an empty log.\<close>

lemma reopen_runs:
  assumes "runs_repr ss ess" "bt_ok (map file_of ss)"
  shows "\<exists>e. open_with_options wc \<lparr>di_files = map file_of ss, di_wal = [], di_locked = False\<rparr> threshold ro = Inr e \<and>
    ne_store e = \<lparr>st_mem = [], st_mem_bytes = 0, st_committed_seq = max_of ss, st_ssts = ss,
                  st_next_sst = next_number (map file_of ss)\<rparr>"
proof -
  have "replay wc [] 0 st = (0, st)" for st
    by (subst replay.simps) (simp add: next_record_def cursor_u32_short)
  then show ?thesis
    using load_ssts_files [of ss] runs_repr_mem [OF assms(1)]
    by (simp add: open_with_options_def lock_directory_def sst_list_def sort_bt [OF assms(2)] max_of_def)
qed

lemma fault_engine:
  obtains ss where "runs_repr ss fault_runs" "map s_path ss = [1, 2, 3, 4, 5]"
    "map s_max_seq ss = [1, 2, 3, 4, 6]" "map s_count ss = [1, 1, 1, 1, 2]"
proof -
  define mk where "mk n m es s \<longleftrightarrow> sst_open n (s_file s) = Inr s \<and> sst_repr s es \<and> s_max_seq s = m \<and>
     s_path s = n \<and> s_count s = of_nat (length es)" for n m es and s :: Sst
  have ex: "\<exists>s. mk n m es s" if "bt_ok es" "length (encs es) < 1000" "length es < 1000" for n m es
    unfolding mk_def using run_exists [OF that(1) small_run [OF that(2,3)], of n m] by blast
  have "\<exists>s. mk 1 1 (fault_runs ! 0) s" "\<exists>s. mk 2 2 (fault_runs ! 1) s" "\<exists>s. mk 3 3 (fault_runs ! 2) s"
    "\<exists>s. mk 4 4 (fault_runs ! 3) s" "\<exists>s. mk 5 6 (fault_runs ! 4) s"
    by (rule ex; simp add: fault_runs_def length_enc)+
  then obtain s1 s2 s3 s4 s5 where mks: "mk 1 1 (fault_runs ! 0) s1" "mk 2 2 (fault_runs ! 1) s2"
    "mk 3 3 (fault_runs ! 2) s3" "mk 4 4 (fault_runs ! 3) s4" "mk 5 6 (fault_runs ! 4) s5" by blast
  show thesis
    by (rule that [of "[s1, s2, s3, s4, s5]"])
       (use mks in \<open>simp_all add: mk_def runs_repr_def fault_runs_def\<close>)
qed

lemma fault_layered: "layered fault_runs"
  by (simp add: layered_def fault_runs_def supersedes_def)

lemma compaction_result:
  assumes ss: "runs_repr ss ess" and trig: "COMPACTION_TRIGGER < length ss"
    and kept: "gc_versions (map Inr (bt_of_list (concat ess))) (min_snapshot (engine_over ss c n rtn) c) = map Inr out"
    and out: "bt_ok out" and fits: "run_fits (unat (sum_list (map s_count ss))) out"
  obtains s where "sst_open n (s_file s) = Inr s" "sst_repr s out" "s_path s = n" "s_max_seq s = max_of ss"
    "maybe_compact (engine_over ss c n rtn) =
       (Inr (), (engine_over ss c n rtn)\<lparr>ne_store := (ne_store (engine_over ss c n rtn))\<lparr>st_ssts := [s], st_next_sst := n + 1\<rparr>,
          ne_files := fold bt_remove (unlink_order ss) (bt_insert n (s_file s) (map file_of ss))\<rparr>)"
proof -
  let ?e = "engine_over ss c n rtn"
  have c: "map content ss = ess" using ss by (rule runs_repr_content)
  have repr: "sst_repr s (content s)" if "s \<in> set ss" for s using runs_repr_mem [OF ss that] by simp
  have "map sst_entries ss = map (map Inr) ess"
    unfolding c [symmetric] using repr by (auto simp: sst_entries_repr)
  moreover have "runs_ok ess"
    unfolding c [symmetric] using repr by (auto simp: runs_ok_def list_all_iff sst_repr_def)
  ultimately have merged: "merge_items (MergeIter_new (map sst_entries ss)) = map Inr (bt_of_list (concat ess))"
    by (simp add: merge_all)
  obtain data where data: "write_sorted (map Inr out) (unat (sum_list (map s_count ss))) (max_of ss) = Inr data"
    using write_sorted_total [OF fits] by blast
  obtain s where s: "sst_open n data = Inr s" "sst_repr s out" "s_max_seq s = max_of ss" "s_path s = n"
    using write_sorted_repr [OF out data, of n] by blast
  have f: "s_file s = data" using s(1) sst_open_fields by metis
  have "maybe_compact ?e = (Inr (), ?e\<lparr>ne_store := (ne_store ?e)\<lparr>st_ssts := [s], st_next_sst := n + 1\<rparr>,
          ne_files := fold bt_remove (unlink_order ss) (bt_insert n data (map file_of ss))\<rparr>)"
    using trig data s(1) kept
    by (simp add: maybe_compact_def Let_def engine_over_def merged max_of_def)
  then show ?thesis using that [of s] s f by simp
qed

lemma fault_view:
  assumes "runs_repr ss fault_runs"
  shows "engine_ok (engine_over ss 6 6 1)" "view_at (engine_over ss 6 6 1) 6 Meta [1] = None"
proof -
  have b: "\<forall>es \<in> set fault_runs. \<forall>e \<in> set es. entry_seq e \<le> 6" by (simp add: fault_runs_def)
  show "engine_ok (engine_over ss 6 6 1)" by (rule engine_over_ok(1) [OF assms fault_layered b])
  show "view_at (engine_over ss 6 6 1) 6 Meta [1] = None"
    unfolding engine_over_ok(2) [OF assms fault_layered b] fault_merge
    by (simp add: visible_value_def visible_def fault_kept_def sees_def)
qed

lemma fault_compaction:
  assumes ss: "runs_repr ss fault_runs" "map s_path ss = [1, 2, 3, 4, 5]"
      "map s_max_seq ss = [1, 2, 3, 4, 6]" "map s_count ss = [1, 1, 1, 1, 2]"
  obtains s where "sst_open 6 (s_file s) = Inr s" "sst_repr s fault_kept" "s_path s = 6" "s_max_seq s = 6"
    "fst (maybe_compact (engine_over ss 6 6 1)) = Inr ()"
    "st_ssts (ne_store (snd (maybe_compact (engine_over ss 6 6 1)))) = [s]"
    "st_mem (ne_store (snd (maybe_compact (engine_over ss 6 6 1)))) = []"
proof (rule compaction_result [OF ss(1), of 6 6 1 fault_kept])
  show "COMPACTION_TRIGGER < length ss"
    using arg_cong [OF ss(2), of length] by (simp add: COMPACTION_TRIGGER_def)
  show "gc_versions (map Inr (bt_of_list (concat fault_runs))) (min_snapshot (engine_over ss 6 6 1) 6) = map Inr fault_kept"
    using fault_gc by (simp add: min_snapshot_def retention_floor_def engine_over_def)
  show "bt_ok fault_kept" by (simp add: fault_kept_def)
  show "run_fits (unat (sum_list (map s_count ss))) fault_kept"
    by (simp add: ss(4) run_fits_def fault_kept_def length_enc)
qed (use that in \<open>simp add: max_of_def ss(3) engine_over_def\<close>)

text \<open>The directory when the process dies after the compaction's first removal.\<close>

definition crashed_compaction :: "NativeEngine \<Rightarrow> Sst \<Rightarrow> nat \<Rightarrow> directory" where
  "crashed_compaction e s removed =
     \<lparr>di_files = fold bt_remove (take removed (unlink_order (st_ssts (ne_store e))))
                   (bt_insert (s_path s) (s_file s) (ne_files e)),
      di_wal = ne_wal e, di_locked = False\<rparr>"

lemma five_runs:
  assumes "map s_path ss = [1, 2, 3, 4, 5]"
  obtains a b c d f where "ss = [a, b, c, d, f]" "s_path a = 1" "s_path b = 2" "s_path c = 3" "s_path d = 4" "s_path f = 5"
  using assms by (auto simp: map_eq_Cons_conv)

text \<open>
  C24: A defect: a compaction unlinks its merged inputs newest first. In a state where a key was put in the
  oldest run and deleted in the newest, a crash after the first removal leaves the old put without its
  tombstone (the merged run has dropped both), so that the reopened database returns the deleted value.
\<close>

theorem compaction_crash_resurrects:
  "\<exists>e e1 s e'. engine_ok e \<and> disk_ok wc e \<and> rtx_get e (committed_seq e) Meta [1] = Inr None \<and>
     maybe_compact e = (Inr (), e1) \<and> st_ssts (ne_store e1) = [s] \<and>
     open_with_options wc (crashed_compaction e s 1) threshold False = Inr e' \<and>
     rtx_get e' (committed_seq e') Meta [1] = Inr (Some [7])"
proof -
  obtain ss where ss: "runs_repr ss fault_runs" "map s_path ss = [1, 2, 3, 4, 5]"
    "map s_max_seq ss = [1, 2, 3, 4, 6]" "map s_count ss = [1, 1, 1, 1, 2]" by (rule fault_engine)
  let ?e = "engine_over ss 6 6 1"
  obtain s where s: "sst_open 6 (s_file s) = Inr s" "sst_repr s fault_kept" "s_path s = 6" "s_max_seq s = 6"
    "fst (maybe_compact ?e) = Inr ()" "st_ssts (ne_store (snd (maybe_compact ?e))) = [s]"
    by (rule fault_compaction [OF ss])
  obtain a b c d f where five: "ss = [a, b, c, d, f]" "s_path a = 1" "s_path b = 2" "s_path c = 3"
    "s_path d = 4" "s_path f = 5" by (rule five_runs [OF ss(2)])
  let ?left = "[a, b, c, d, s]" and ?runs = "take 4 fault_runs @ [fault_kept]"
  have left: "runs_repr ?left ?runs"
    using ss(1) s(1,2,3) unfolding five(1) by (simp add: runs_repr_def fault_runs_def)
  have dir: "crashed_compaction ?e s 1 = \<lparr>di_files = map file_of ?left, di_wal = [], di_locked = False\<rparr>"
    by (simp add: crashed_compaction_def engine_over_def unlink_order_def five s(3) file_of_def)
  obtain e' where e': "open_with_options wc (crashed_compaction ?e s 1) threshold False = Inr e'"
    "ne_store e' = \<lparr>st_mem = [], st_mem_bytes = 0, st_committed_seq = max_of ?left, st_ssts = ?left,
                  st_next_sst = next_number (map file_of ?left)\<rparr>"
    using reopen_runs [OF left, of wc threshold False] unfolding dir by (auto simp: five s(3) file_of_def)
  have "rtx_get ?e (committed_seq ?e) Meta [1] = Inr None"
    using rtx_get_view fault_view [OF ss(1)] by (simp add: engine_over_def)
  moreover have "rtx_get e' (committed_seq e') Meta [1] = Inr (Some [7])"
  proof -
    have "sst_repr s fault_kept" "sst_repr d (fault_runs ! 3)" "sst_repr c (fault_runs ! 2)"
      "sst_repr b (fault_runs ! 1)" "sst_repr a (fault_runs ! 0)"
      using left by (simp_all add: runs_repr_def fault_runs_def)
    note gets = this [THEN sst_get_visible]
    have "s_max_seq a = 1" "s_max_seq b = 2" "s_max_seq c = 3" "s_max_seq d = 4"
      using ss(3) by (simp_all add: five(1))
    note seqs = this s(4)
    show ?thesis
      by (simp add: rtx_get_def committed_get_def e'(2) gets seqs max_of_def mem_op_def)
        (simp add: visible_def fault_runs_def fault_kept_def sees_def)
  qed
  moreover have "disk_ok wc ?e"
    using ss(3) by (intro engine_over_disk [OF ss(1)]) (simp_all add: five file_of_def max_of_def)
  moreover have "maybe_compact ?e = (Inr (), snd (maybe_compact ?e))" using s(5) by (metis prod.collapse)
  ultimately show ?thesis using fault_view(1) [OF ss(1)] s(6) e'(1) by blast
qed

section \<open>A run of the first format\<close>

text \<open>
  Format 1 has the same sections without their checksums and another magic number. A run with one
  entry is one block.
\<close>

definition footer_v1 :: "u64 \<Rightarrow> u64 \<Rightarrow> u64 \<Rightarrow> u64 \<Rightarrow> u64 \<Rightarrow> u64 \<Rightarrow> bytes" where
  "footer_v1 index_offset index_len bloom_offset bloom_len count max_seq =
     (let footer = put_u64_le index_offset @ put_u64_le index_len @ put_u64_le bloom_offset @
            put_u64_le bloom_len @ put_u64_le count @ put_u64_le max_seq @ put_u32_le MAGIC_V1
      in footer @ put_u32_le (crc32 footer))"

lemma read_plain:
  "length a < 2 ^ 64 \<Longrightarrow> n = length p \<Longrightarrow> read_block_at (a @ p @ z) V1 (of_nat (length a)) n = Inr p"
  by (simp add: read_block_at_def read_at_def)

lemma length_footer_v1: "length (footer_v1 a b c d e f) = FOOTER_LEN"
  by (simp add: footer_v1_def Let_def FOOTER_LEN_def)

lemma parse_footer_v1: "parse_footer (footer_v1 a b c d e f) = Inr (a, b, c, d, e, f, V1)"
  by (simp add: parse_footer_def footer_v1_def Let_def FOOTER_LEN_def)

lemma open_v1:
  assumes bloom: "bloom_ok bloom" and refs: "list_all (ref_ok (of_nat (length d))) index"
    and ib: "ib = encode_index index" and bb: "bb = Bloom_encode bloom"
    and data: "data = d @ ib @ bb @
        footer_v1 (of_nat (length d)) (of_nat (length ib)) (of_nat (length d + length ib))
          (of_nat (length bb)) count max_seq"
    and len: "length data < 2 ^ 64"
  shows "sst_open p data =
    Inr \<lparr>s_file = data, s_version = V1, s_index = map to_ref index, s_bloom = bloom,
         s_max_seq = max_seq, s_count = count, s_path = p\<rparr>"
proof -
  let ?f = "footer_v1 (of_nat (length d)) (of_nat (length ib)) (of_nat (length d + length ib))
          (of_nat (length bb)) count max_seq"
  have total: "length data = length d + length ib + length bb + 56"
    by (simp add: data length_footer_v1 FOOTER_LEN_def)
  have footer: "drop (length data - FOOTER_LEN) data = ?f"
    unfolding total by (simp add: data length_footer_v1 FOOTER_LEN_def)
  have data_end: "(of_nat (length data) - of_nat FOOTER_LEN :: u64) = of_nat (length d + length ib + length bb)"
    by (simp add: total FOOTER_LEN_def)
  have idx: "read_block_at data V1 (of_nat (length d)) (length ib) = Inr ib"
    unfolding data using len total by (intro read_plain) simp_all
  have blo: "read_block_at data V1 (of_nat (length d + length ib)) (length bb) = Inr bb"
    using len total read_plain [of "d @ ib" "length bb" bb ?f] by (simp add: data)
  have c: "checked_len (of_nat (length d + length ib)) (of_nat (length bb))
      (of_nat (length d + length ib + length bb)) = Inr (length bb)"
    "checked_len (of_nat (length d)) (of_nat (length ib))
      (of_nat (length d + length ib + length bb)) = Inr (length ib)"
    using len total by (auto intro!: checked_len_ok simp del: of_nat_add)
  have "\<not> length data < FOOTER_LEN" by (simp add: total FOOTER_LEN_def)
  moreover have "decode_index (of_nat (length d)) ib = Inr (map to_ref index)" "Bloom_decode bb = Some bloom"
    by (simp_all add: ib bb decode_encode_index [OF refs] Bloom_decode_encode [OF bloom])
  ultimately show ?thesis
    unfolding sst_open_def footer Let_def data_end
    by (simp add: parse_footer_v1 Let_def c blo idx del: of_nat_add)
qed

lemma legacy_run:
  assumes "length (enc e) < 1000"
  shows "\<exists>s. sst_open n (s_file s) = Inr s \<and> sst_repr s [e] \<and> s_max_seq s = m \<and> s_path s = n \<and>
     s_count s = 1 \<and> is_legacy s"
proof -
  obtain bloom where "Bloom_add (fst (user_key e)) (snd (user_key e)) (Bloom_new 1) = Inr bloom"
    using Bloom_add_total [OF Bloom_new_ok(1)] Bloom_new_size(1) [of 1] by fastforce
  moreover have "bloom_covers (Bloom_new 1) []"
    using bloom_ok_total [OF Bloom_new_ok(1)] by (simp add: bloom_covers_def)
  ultimately have bloom: "bloom_ok bloom" "bloom_covers bloom [e]" and "bl_m_bits bloom = bl_m_bits (Bloom_new 1)"
    using bloom_covers_add [OF Bloom_new_ok, of 1 "[]" e bloom] Bloom_add_m_bits by auto
  then have small: "length (Bloom_encode bloom) < 1000"
    using Bloom_new_size [of 1] Bloom_new_ok(1) [of 1] by (simp add: bloom_ok_def Bloom_encode_def)
  let ?r = "(key_pos e, 0 :: u64, of_nat (length (enc e)) :: u32)"
  let ?ib = "encode_index [?r]" and ?bb = "Bloom_encode bloom"
  have ok: "entry_ok e" using assms length_enc [of e] by (simp add: entry_ok_def)
  have ref: "list_all (ref_ok (of_nat (length (enc e)))) [?r]"
    using assms ok by (simp add: ref_ok_def checked_len_def key_pos_def entry_ok_def ucast_of_len)
  have "length ?ib < 2000" using assms length_enc [of e]
    by (simp add: encode_index_def encode_index_key_def encode_key_parts_def key_pos_def)
  then have open_ok: "sst_open n d = Inr \<lparr>s_file = d, s_version = V1, s_index = [to_ref ?r], s_bloom = bloom,
         s_max_seq = m, s_count = 1, s_path = n\<rparr>"
    if "d = enc e @ ?ib @ ?bb @ footer_v1 (of_nat (length (enc e))) (of_nat (length ?ib))
      (of_nat (length (enc e) + length ?ib)) (of_nat (length ?bb)) 1 m" for d
    using open_v1 [OF bloom(1) ref refl refl that] assms small by (simp add: that length_footer_v1 FOOTER_LEN_def)
  then obtain d s where s: "sst_open n d = Inr s" "s = \<lparr>s_file = d, s_version = V1, s_index = [to_ref ?r],
      s_bloom = bloom, s_max_seq = m, s_count = 1, s_path = n\<rparr>" and d: "\<exists>z. d = enc e @ z" by blast
  have "read_block s (to_ref ?r) = Inr (enc e)"
    using d assms read_plain [of "[]" "length (enc e)" "enc e"]
    by (auto simp: s(2) read_block_def to_ref_def unat_of_len)
  then have "sst_repr s [e]"
    using ok bloom(2) by (auto simp: sst_repr_def block_repr_def s(2) to_ref_def intro!: exI [of _ "[[e]]"])
  then show ?thesis using s by (auto simp: is_legacy_def intro!: exI [of _ s])
qed

section \<open>The upgrade changes which run is newest\<close>

definition old_version :: entry where "old_version = ((0, [1], Reverse 1), Put [7])"
definition new_version :: entry where "new_version = ((0, [1], Reverse 2), Put [8])"

lemma upgrade_pair:
  assumes a: "sst_open 1 (s_file a) = Inr a" "sst_repr a [old_version]" "s_max_seq a = 1" "s_path a = 1"
      "s_count a = 1" "is_legacy a"
    and b: "\<not> is_legacy b" "s_path b = 2"
  obtains f where "sst_open 3 (s_file f) = Inr f" "sst_repr f [old_version]" "s_path f = 3" "s_max_seq f = 1"
    "upgrade_runs None (engine_over [a, b] 2 3 0) =
       Some (Inr 1, (engine_over [a, b] 2 3 0)\<lparr>ne_store := (ne_store (engine_over [a, b] 2 3 0))\<lparr>st_next_sst := 4, st_ssts := [f, b]\<rparr>,
          ne_files := [file_of b, file_of f]\<rparr>)"
proof -
  have es: "sst_entries a = [Inr old_version]" using sst_entries_repr [OF a(2)] by simp
  have "run_fits 1 [old_version]" by (simp add: run_fits_def length_enc old_version_def)
  then obtain data where data: "write_sorted [Inr old_version] 1 1 = Inr data"
    using write_sorted_total [of 1 "[old_version]"] by auto
  obtain f where f: "sst_open 3 data = Inr f" "sst_repr f [old_version]" "s_max_seq f = 1" "s_path f = 3"
      "\<not> is_legacy f"
    using write_sorted_repr [of "[old_version]" 1 1 data 3] data by auto
  have df: "s_file f = data" using f(1) sst_open_fields by metis
  let ?e = "engine_over [a, b] 2 3 0"
  let ?e' = "?e\<lparr>ne_store := (ne_store ?e)\<lparr>st_next_sst := 4, st_ssts := [f, b]\<rparr>, ne_files := [file_of b, file_of f]\<rparr>"
  have "upgrade_one ?e = Some (Inr (), ?e')"
    using data f(1) by (simp add: upgrade_one_def engine_over_def a b es file_of_def f(4) df)
  moreover have "upgrade_one ?e' = None" using f(5) b by (simp add: upgrade_one_def Let_def)
  ultimately have "upgrade_loop 0 ?e = (Inr 1, ?e')"
    by (simp add: upgrade_loop.simps [of 0] upgrade_loop.simps [of "Suc 0"])
  moreover have "\<not> ne_held ?e" by (simp add: engine_over_def)
  ultimately show ?thesis using that [of f] f df by (simp add: upgrade_runs_def acquire_def after_wait_def)
qed

text \<open>A read from two runs, the second the newer by its position.\<close>

lemma pair_read:
  assumes "sst_repr x [((0, [1], Reverse m), Put v)]" "sst_repr y [((0, [1], Reverse n), Put w)]" "n \<le> snap"
    and "st_mem (ne_store e) = []" "st_ssts (ne_store e) = [x, y]"
  shows "rtx_get e snap Meta [1] = Inr (Some w)"
  using assms
  by (simp add: rtx_get_def committed_get_def mem_op_def sst_get_visible visible_def sees_def)

text \<open>
  C25: A defect: the upgrade of a legacy run writes it under a fresh file number, the highest, while the
  running engine keeps its place. Reopening orders the runs by number, so an old version then shadows
  the newer ones: a database that reads the value \<open>[8]\<close> before and after the upgrade reads the overwritten
  value \<open>[7]\<close> after a restart.
\<close>

theorem upgrade_reopen_stale:
  "\<exists>e e1 e2. engine_ok e \<and> disk_ok wc e \<and> rtx_get e (committed_seq e) Meta [1] = Inr (Some [8]) \<and>
     upgrade_runs None e = Some (Inr 1, e1) \<and> rtx_get e1 (committed_seq e1) Meta [1] = Inr (Some [8]) \<and>
     open_with_options wc \<lparr>di_files = ne_files e1, di_wal = ne_wal e1, di_locked = False\<rparr> threshold False = Inr e2 \<and>
     rtx_get e2 (committed_seq e2) Meta [1] = Inr (Some [7])"
proof -
  obtain a where a: "sst_open 1 (s_file a) = Inr a" "sst_repr a [old_version]" "s_max_seq a = 1" "s_path a = 1"
      "s_count a = 1" "is_legacy a"
    using legacy_run [of old_version 1 1] by (auto simp: length_enc old_version_def)
  have "run_fits (length [new_version]) [new_version]"
    by (rule small_run) (simp_all add: length_enc new_version_def)
  then obtain b where b: "sst_open 2 (s_file b) = Inr b" "sst_repr b [new_version]" "s_max_seq b = 2" "s_path b = 2"
      "\<not> is_legacy b"
    using run_exists [of "[new_version]" 2 2] by auto
  obtain f where f: "sst_open 3 (s_file f) = Inr f" "sst_repr f [old_version]" "s_path f = 3" "s_max_seq f = 1"
    "upgrade_runs None (engine_over [a, b] 2 3 0) =
       Some (Inr 1, (engine_over [a, b] 2 3 0)\<lparr>ne_store := (ne_store (engine_over [a, b] 2 3 0))\<lparr>st_next_sst := 4, st_ssts := [f, b]\<rparr>,
          ne_files := [file_of b, file_of f]\<rparr>)"
    by (rule upgrade_pair [OF a b(5,4)])
  let ?e = "engine_over [a, b] 2 3 0"
  let ?e1 = "?e\<lparr>ne_store := (ne_store ?e)\<lparr>st_next_sst := 4, st_ssts := [f, b]\<rparr>, ne_files := [file_of b, file_of f]\<rparr>"
  have ab: "runs_repr [a, b] [[old_version], [new_version]]" and bf: "runs_repr [b, f] [[new_version], [old_version]]"
    using a b f by (simp_all add: runs_repr_def)
  have "engine_ok ?e"
    by (rule engine_over_ok(1) [OF ab])
       (simp_all add: layered_def supersedes_def old_version_def new_version_def)
  moreover have "disk_ok wc ?e"
    by (rule engine_over_disk [OF ab]) (simp_all add: a b file_of_def max_of_def)
  moreover have "rtx_get ?e (committed_seq ?e) Meta [1] = Inr (Some [8])"
    by (rule pair_read [OF a(2) [unfolded old_version_def] b(2) [unfolded new_version_def]])
       (simp_all add: engine_over_def)
  moreover have "rtx_get ?e1 (committed_seq ?e1) Meta [1] = Inr (Some [8])"
    by (rule pair_read [OF f(2) [unfolded old_version_def] b(2) [unfolded new_version_def]])
       (simp_all add: engine_over_def)
  moreover obtain e2 where e2: "open_with_options wc \<lparr>di_files = map file_of [b, f], di_wal = [], di_locked = False\<rparr> threshold False = Inr e2"
      "ne_store e2 = \<lparr>st_mem = [], st_mem_bytes = 0, st_committed_seq = max_of [b, f], st_ssts = [b, f],
                  st_next_sst = next_number (map file_of [b, f])\<rparr>"
    using reopen_runs [OF bf, of wc threshold False] b(4) f(3) by (auto simp: file_of_def)
  moreover have "rtx_get e2 (committed_seq e2) Meta [1] = Inr (Some [7])"
    by (rule pair_read [OF b(2) [unfolded new_version_def] f(2) [unfolded old_version_def]])
       (simp_all add: e2(2) max_of_def b(3) f(4))
  moreover have "ne_files ?e1 = map file_of [b, f]" "ne_wal ?e1 = []" by (simp_all add: engine_over_def)
  ultimately show ?thesis using f(5) by metis
qed

section \<open>Time travel below what a compaction reclaimed\<close>

text \<open>
  C26: A defect: a read as of a snapshot below what an earlier compaction reclaimed is refused only by the
  current retention setting. After the window is lifted it is accepted and silently answers without the
  reclaimed versions: a key that had a value at sequence 1 reads as absent as of sequence 1.
\<close>

theorem widened_retention_stale:
  "\<exists>e e1 e2 e3. engine_ok e \<and> view_at e 1 Meta [1] = Some [7] \<and> maybe_compact e = (Inr (), e1) \<and>
     engine_ok e1 \<and> set_retention None e1 = e2 \<and> begin_read_at 1 e2 = (Inr 1, e3) \<and>
     rtx_get e3 1 Meta [1] = Inr None"
proof -
  obtain ss where ss: "runs_repr ss fault_runs" "map s_path ss = [1, 2, 3, 4, 5]"
    "map s_max_seq ss = [1, 2, 3, 4, 6]" "map s_count ss = [1, 1, 1, 1, 2]" by (rule fault_engine)
  let ?e = "engine_over ss 6 6 1"
  let ?e1 = "snd (maybe_compact ?e)"
  have ok: "engine_ok ?e" using fault_view(1) [OF ss(1)] .
  obtain s where s: "sst_repr s fault_kept" "fst (maybe_compact ?e) = Inr ()" "st_ssts (ne_store ?e1) = [s]"
      "st_mem (ne_store ?e1) = []"
    by (rule fault_compaction [OF ss])
  have m: "maybe_compact ?e = (Inr (), ?e1)" using s(2) by (metis prod.collapse)
  have e1: "engine_ok ?e1" "committed_seq ?e1 = 6"
    using maybe_compact_store [OF _ _ m] ok by (auto simp: engine_ok_def readers_ok_def engine_over_def)
  have "view_at ?e 1 Meta [1] = Some [7]"
    using engine_over_ok(2) [OF ss(1) fault_layered, of 6 6 1 1 Meta "[1]"] unfolding fault_merge
    by (simp add: visible_value_def visible_def fault_kept_def sees_def fault_runs_def word_le_nat_alt)
  moreover have "begin_read_at 1 (set_retention None ?e1) = (Inr 1, register_reader 1 (set_retention None ?e1))"
    using e1(2) by (simp add: begin_read_at_def retention_floor_def set_retention_def)
  moreover have "rtx_get (register_reader 1 (set_retention None ?e1)) 1 Meta [1] = Inr None"
    using s sst_get_visible [OF s(1)]
    by (simp add: rtx_get_def committed_get_def mem_op_def register_reader_def set_retention_def
        visible_def sees_def fault_kept_def word_le_nat_alt)
  ultimately show ?thesis using ok m e1(1) by blast
qed

end
