(* ===== verification/Native_Props.thy ===== *)
theory Native_Props
  imports Native_Faults Graph_Props
begin

text \<open>
  The properties of the native engine: exact reads, the effect of a commit, snapshot isolation,
  durability, the refusals, the format upgrade, and the graph operations over the native backend.
\<close>

section \<open>A concrete log codec and engine\<close>

definition ser_wal_op :: "WalOp \<Rightarrow> bytes" where
  "ser_wal_op o1 = wo_table o1 # ser_str (wo_key o1) @ ser_opt (wo_value o1)"

definition de_wal_op :: "bytes \<Rightarrow> (WalOp \<times> bytes) option" where
  "de_wal_op b =
     Option.bind (de_byte b) (\<lambda>(t, b).
     Option.bind (de_str b) (\<lambda>(k, b).
     map_option (\<lambda>(v, b). (\<lparr>wo_table = t, wo_key = k, wo_value = v\<rparr>, b)) (de_opt b)))"

definition ref_wal_codec :: wal_codec where
  "ref_wal_codec =
     \<lparr>wc_to = \<lambda>b. be64 (wb_seq b) @ ser_list ser_wal_op (wb_ops b),
      wc_from = \<lambda>b. Option.bind (de64 b) (\<lambda>(seq, b).
        map_option (\<lambda>(ops, _). \<lparr>wb_seq = seq, wb_ops = ops\<rparr>) (de_seq de_wal_op b))\<rparr>"

lemma ref_wal_codec_ok: "wal_codec_ok ref_wal_codec"
proof -
  have "de_wal_op (ser_wal_op o1 @ r) = Some (o1, r)" for o1 r
    by (simp add: de_wal_op_def ser_wal_op_def de_byte_def)
  then have "de_seq de_wal_op (ser_list ser_wal_op os @ []) = Some (os, [])" for os
    by (rule de_seq_ser_list)
  then show ?thesis by (simp add: wal_codec_ok_def ref_wal_codec_def)
qed

abbreviation fresh_engine :: NativeEngine where
  "fresh_engine \<equiv> engine_over [] 0 1 0"

lemma fresh_engine_ok:
  "engine_ok fresh_engine" "disk_ok wc fresh_engine" "view_at fresh_engine snap tb k = None"
    "committed_seq fresh_engine = 0" "room_for_runs fresh_engine"
proof -
  have r: "runs_repr [] []" by (simp add: runs_repr_def)
  show "engine_ok fresh_engine" using engine_over_ok(1) [OF r, of 0 1 0] by (simp add: layered_def)
  show "view_at fresh_engine snap tb k = None"
    using engine_over_ok(2) [OF r, of 0 1 0] by (simp add: layered_def visible_value_def visible_def bt_of_list_def)
  show "disk_ok wc fresh_engine" by (rule engine_over_disk [OF r]) (simp_all add: max_of_def)
qed (simp_all add: engine_over_def room_for_runs_def)

definition demo_ops :: staged where
  "demo_ops = [((0, [1]), Put [7]), ((0, [2]), Put [8])]"

lemma demo_ops_ok: "bt_ok demo_ops" "\<forall>x \<in> set demo_ops. table_from_index (fst (fst x)) \<noteq> None"
  by (simp_all add: demo_ops_def table_from_index_def ALL_TABLES_def)

lemma demo_ops_commits:
  assumes "\<not> ne_observer e"
  shows "commit_error ref_wal_codec seq demo_ops e = None"
  using assms
  by (simp add: commit_error_def demo_ops_def wal_batch_def ref_wal_codec_def ser_wal_op_def ser_opt_def)

section \<open>Reads\<close>

text \<open>
  C11: Every read at a snapshot is exact: whatever mixture of memtable and sorted runs holds the versions,
  a point read returns the value of the newest version not newer than the snapshot (nothing for a
  tombstone), and a range read returns exactly the live keys of the range with these values, in key
  order.
\<close>

theorem reads_at_snapshot:
  assumes "engine_ok e" "case hi of None \<Rightarrow> True | Some h \<Rightarrow> lo \<le> h"
  shows "rtx_get e snap tb k = Inr (visible_value (store_versions (ne_store e)) (table_u8 tb) k snap) \<and>
    (\<exists>out. rtx_range e snap tb lo hi = Inr out \<and> bt_ok out \<and>
       map_of out = (\<lambda>k. if in_range lo hi k
         then visible_value (store_versions (ne_store e)) (table_u8 tb) k snap else None))"
  using assms committed_get_visible committed_values_visible [where hi = hi and lo = lo and snap = snap and t = "table_u8 tb"] table_u8_small
  by (simp add: rtx_get_def rtx_range_def engine_ok_def)

theorem reads_at_snapshot_witness:
  "\<exists>e. rtx_get e 5 Meta [1] = Inr None \<and> rtx_get e 4 Meta [1] = Inr (Some [7]) \<and>
     (\<exists>out. rtx_range e 4 Meta [2] (Some [4]) = Inr out \<and> map_of out [3] = Some [7] \<and> map_of out [4] = None)"
proof -
  obtain ss where ss: "runs_repr ss fault_runs" by (rule fault_engine)
  let ?e = "engine_over ss 6 6 1"
  have v: "visible_value (store_versions (ne_store ?e)) (table_u8 Meta) k snap =
      visible_value (((0, [1], Reverse 5), Del) # ((0, [1], Reverse 1), Put [7]) # fault_kept) 0 k snap" for k snap
    using engine_over_ok(2) [OF ss fault_layered, of 6 6 1 snap Meta k] unfolding fault_merge
    by (simp add: view_at_def store_view_def fault_runs_def)
  note r = reads_at_snapshot [OF fault_view(1) [OF ss], where tb = Meta, unfolded v]
  have "rtx_get ?e 5 Meta [1] = Inr None" "rtx_get ?e 4 Meta [1] = Inr (Some [7])"
    using r [where hi = None and snap = 5 and k = "[1]"] r [where hi = None and snap = 4 and k = "[1]"]
    by (simp_all add: visible_value_def visible_def fault_kept_def sees_def)
  moreover have v3: "visible_value (((0, [1], Reverse 5), Del) # ((0, [1], Reverse 1), Put [7]) # fault_kept) 0 [3] 4 = Some [7]"
    by (simp add: visible_value_def visible_def fault_kept_def sees_def)
  moreover obtain out where "rtx_range ?e 4 Meta [2] (Some [4]) = Inr out"
    "map_of out [3] = Some [7]" "map_of out [4] = None"
    using r [where hi = "Some [4]" and lo = "[2]" and snap = 4 and k = "[]"] v3 by (auto simp: in_range_def)
  ultimately show ?thesis by blast
qed

section \<open>Commits\<close>

lemma native_commit_empty:
  "wt_buf t = [] \<Longrightarrow> native_commit wc t e = (Inr (), e\<lparr>ne_held := False\<rparr>)"
  by (simp add: native_commit_def release_gate_def)

lemma native_commit_spec:
  assumes "engine_ok e" "wt_store t = ne_store e" "wt_snapshot t = committed_seq e" "bt_ok (wt_buf t)"
    "wt_buf t \<noteq> []" "committed_seq e \<noteq> - 1" "native_commit wc t e = (r, e')"
  shows "engine_ok e' \<and> \<not> ne_held e' \<and>
    (case commit_error wc (committed_seq e + 1) (wt_buf t) e of
       Some er \<Rightarrow> r = Inl er \<and> ne_store e' = ne_store e
     | None \<Rightarrow> r = Inr () \<and> committed_seq e' = committed_seq e + 1 \<and>
         view_at e' (committed_seq e') = buffered (wt_buf t) (view_at e (committed_seq e)) \<and>
         (\<forall>snap \<le> committed_seq e. min_snapshot e (committed_seq e + 1) \<le> snap \<longrightarrow>
            view_at e' snap = view_at e snap))"
proof -
  let ?seq = "committed_seq e + 1"
  have seq: "committed_seq e < ?seq" using assms(6) by (rule word_self_less_succ)
  obtain r1 e1 where d: "durable_commit wc ?seq (wt_buf t) e = (r1, e1)" by fastforce
  then have res: "r = (case r1 of Inl er \<Rightarrow> Inl er | Inr _ \<Rightarrow> Inr ())" "e' = e1\<lparr>ne_held := False\<rparr>"
    using assms(3,5,7) by (auto simp: native_commit_def release_gate_def)
  show ?thesis
    using durable_commit_spec [OF assms(1,4) seq d] res seq
    by (auto simp: engine_ok_def readers_ok_def view_at_def split: option.splits)
qed

text \<open>
  C7: Committing a transaction opened at the current state that has buffered nothing succeeds and
  changes nothing but the writer slot: the log is not written and the sequence does not advance. One
  that has buffered writes either fails (a record of four gigabytes or more, or a table byte the
  observer cannot name) and changes nothing a reader sees, or advances the sequence by one, after which the latest view is the old one overlaid with the transaction's writes,
  while every snapshot that a reader or the retention window protects reads as before; this holds
  through the flush and the compaction the commit may trigger. The writer slot is free afterwards.
\<close>

theorem commit_effect:
  assumes "engine_ok e" "wt_store t = ne_store e" "wt_snapshot t = committed_seq e" "bt_ok (wt_buf t)"
    "committed_seq e \<noteq> - 1" "native_commit wc t e = (r, e')"
  shows "engine_ok e' \<and> \<not> ne_held e' \<and>
    (if wt_buf t = [] then r = Inr () \<and> e' = e\<lparr>ne_held := False\<rparr>
     else case commit_error wc (committed_seq e + 1) (wt_buf t) e of
       Some er \<Rightarrow> r = Inl er \<and> ne_store e' = ne_store e
     | None \<Rightarrow> r = Inr () \<and> committed_seq e' = committed_seq e + 1 \<and>
         view_at e' (committed_seq e') = buffered (wt_buf t) (view_at e (committed_seq e)) \<and>
         (\<forall>snap \<le> committed_seq e. min_snapshot e (committed_seq e + 1) \<le> snap \<longrightarrow>
            view_at e' snap = view_at e snap))"
proof (cases "wt_buf t = []")
  case True
  with assms(1,6) native_commit_empty [OF True] show ?thesis by (auto simp: engine_ok_def readers_ok_def)
next
  case False
  with native_commit_spec [OF assms(1-4) _ assms(5,6)] show ?thesis by simp
qed

theorem commit_effect_witness:
  "\<exists>r e'. native_commit ref_wal_codec \<lparr>wt_store = ne_store fresh_engine, wt_snapshot = 0, wt_buf = demo_ops\<rparr>
      fresh_engine = (r, e') \<and> r = Inr () \<and> engine_ok e' \<and> view_at e' (committed_seq e') Meta [1] = Some [7] \<and>
      view_at e' (committed_seq e') Meta [3] = None \<and> committed_seq e' = 1 \<and>
      (\<exists>e2. native_commit ref_wal_codec \<lparr>wt_store = ne_store e', wt_snapshot = 1, wt_buf = []\<rparr> e' = (Inr (), e2) \<and>
         committed_seq e2 = 1)"
proof -
  let ?t = "\<lparr>wt_store = ne_store fresh_engine, wt_snapshot = 0, wt_buf = demo_ops\<rparr>"
  obtain r e' where c: "native_commit ref_wal_codec ?t fresh_engine = (r, e')" by fastforce
  have ne: "commit_error ref_wal_codec 1 demo_ops fresh_engine = None"
    by (rule demo_ops_commits) (simp add: engine_over_def)
  have e': "engine_ok e' \<and> r = Inr () \<and> committed_seq e' = 1 \<and>
      view_at e' (committed_seq e') = buffered demo_ops (view_at fresh_engine 0)"
    using commit_effect [OF fresh_engine_ok(1) _ _ _ _ c] ne demo_ops_ok(1) fresh_engine_ok(4)
    by (auto simp: demo_ops_def)
  let ?t2 = "\<lparr>wt_store = ne_store e', wt_snapshot = 1, wt_buf = []\<rparr>"
  obtain r2 e2 where c2: "native_commit ref_wal_codec ?t2 e' = (r2, e2)" by fastforce
  have "r2 = Inr () \<and> committed_seq e2 = 1" using commit_effect [OF _ _ _ _ _ c2] e' by simp
  with c c2 e' show ?thesis by (auto simp: buffered_def demo_ops_def fresh_engine_ok(3))
qed

section \<open>Snapshot isolation\<close>

text \<open>The engine takes any steps while the reader at \<open>snap\<close> stays registered.\<close>

inductive pinned_run :: "wal_codec \<Rightarrow> u64 \<Rightarrow> NativeEngine \<Rightarrow> NativeEngine \<Rightarrow> bool" for wc snap where
  pinned_start: "registered snap e \<Longrightarrow> pinned_run wc snap e e"
| pinned_step: "pinned_run wc snap e e1 \<Longrightarrow> native_step wc e1 e2 \<Longrightarrow> registered snap e2 \<Longrightarrow> pinned_run wc snap e e2"

lemma pinned_run_view:
  assumes "pinned_run wc snap e e'" "engine_ok e"
  shows "engine_ok e' \<and> registered snap e' \<and> view_at e' snap = view_at e snap"
  using assms
proof (induction rule: pinned_run.induct)
  case (pinned_step e e1 e2)
  then show ?case using native_step_stable [OF pinned_step(2)] by (auto simp: keeps_views_def)
qed simp

text \<open>
  C3: Snapshot isolation: from the moment a read transaction begins and as long as it is not dropped,
  every read it makes returns the state committed when it began, whatever commits, replicated batches,
  flushes, compactions, retention changes and other readers come in between.
\<close>

theorem snapshot_isolation:
  assumes "engine_ok e" "begin_read e = (Inr snap, e1)" "pinned_run wc snap e1 e2"
  shows "engine_ok e2 \<and> rtx_get e2 snap tb k = rtx_get e (committed_seq e) tb k \<and>
     rtx_get e2 snap tb k = Inr (view_at e (committed_seq e) tb k)"
proof -
  have b: "snap = committed_seq e" "e1 = register_reader snap e"
    using assms(2) by (auto simp: begin_read_def)
  have "engine_ok e1" "view_at e1 = view_at e"
    using register_reader_ok [OF assms(1), of snap] b by auto
  with pinned_run_view [OF assms(3)] assms(1) b show ?thesis by (simp add: rtx_get_view)
qed

theorem snapshot_isolation_witness:
  "\<exists>e1 r e2. begin_read fresh_engine = (Inr 0, e1) \<and>
     native_commit ref_wal_codec \<lparr>wt_store = ne_store e1, wt_snapshot = 0, wt_buf = demo_ops\<rparr> e1 = (Inr r, e2) \<and>
     rtx_get e2 0 Meta [1] = Inr None \<and> rtx_get e2 1 Meta [1] = Inr (Some [7])"
proof -
  let ?e1 = "register_reader 0 fresh_engine"
  let ?t = "\<lparr>wt_store = ne_store ?e1, wt_snapshot = 0, wt_buf = demo_ops\<rparr>"
  have b: "begin_read fresh_engine = (Inr 0, ?e1)" by (simp add: begin_read_def fresh_engine_ok(4))
  have e1: "engine_ok ?e1" "registered 0 ?e1" "view_at ?e1 = view_at fresh_engine" "committed_seq ?e1 = 0"
    using register_reader_ok [OF fresh_engine_ok(1), of 0] by (simp_all add: fresh_engine_ok(4) register_reader_def)
  obtain r e2 where c: "native_commit ref_wal_codec ?t ?e1 = (r, e2)" by fastforce
  obtain r1 e1' where d: "durable_commit ref_wal_codec 1 demo_ops ?e1 = (r1, e1')" by fastforce
  have ne: "commit_error ref_wal_codec 1 demo_ops ?e1 = None"
    by (rule demo_ops_commits) (simp add: engine_over_def register_reader_def)
  have sp: "engine_ok e1'" "ne_readers e1' = ne_readers ?e1" "r1 = Inr 1"
      "view_at e1' 1 = buffered demo_ops (view_at ?e1 0)"
    using durable_commit_spec [OF e1(1) demo_ops_ok(1) _ d] e1(4) ne by auto
  have e2: "r = Inr ()" "e2 = e1'\<lparr>ne_held := False\<rparr>"
    using c d sp(3) by (auto simp: native_commit_def release_gate_def demo_ops_def)
  have "registered 0 e2" using e1(2) sp(2) by (simp add: registered_def e2(2))
  moreover have "native_step ref_wal_codec ?e1 e2"
    by (rule step_commit [OF _ _ _ _ c]) (simp_all add: e1(4) demo_ops_ok(1))
  ultimately have "pinned_run ref_wal_codec 0 ?e1 e2"
    using pinned_start [OF e1(2)] pinned_step by blast
  then have "rtx_get e2 0 Meta [1] = Inr None" "engine_ok e2"
    using snapshot_isolation [OF fresh_engine_ok(1) b, of ref_wal_codec e2 Meta "[1]"] fresh_engine_ok(3) by auto
  moreover have "view_at e2 1 Meta [1] = Some [7]"
    using sp(4) by (simp add: e2(2) view_at_def [of "_\<lparr>ne_held := _\<rparr>"] view_at_def [of e1', symmetric] buffered_def demo_ops_def)
  ultimately show ?thesis using b c e2(1) by (auto simp: rtx_get_view)
qed

section \<open>Durability\<close>

lemma store_next:
  "store_ok (st\<lparr>st_next_sst := n\<rparr>) = store_ok st" "seqs_bounded (st\<lparr>st_next_sst := n\<rparr>) = seqs_bounded st"
  "store_view (st\<lparr>st_next_sst := n\<rparr>) = store_view st"
  by (simp_all add: store_ok_def seqs_bounded_def store_view_def store_versions_def layers_def fun_eq_iff)

lemma next_number_above:
  assumes "\<forall>x \<in> set d. fst x < (bound :: u64)" "x \<in> set d"
  shows "fst x < next_number d"
proof -
  let ?m = "foldl max 0 (map fst d)"
  have le: "y \<le> foldl max 0 ys" if "y \<in> set ys" for y :: u64 and ys
    using that by (induction ys rule: rev_induct) (auto intro: max.coboundedI1)
  have "foldl max 0 ys < bound" if "\<forall>y \<in> set ys. y < bound" "0 < bound" for ys
    using that by (induction ys rule: rev_induct) auto
  moreover have "0 < bound" using assms by (metis word_neq_0_conv word_not_simps(1))
  ultimately have "?m < bound" using assms(1) by simp
  then have "?m \<noteq> - 1" by (metis word_order.extremum_strict)
  then have "?m < next_number d" unfolding next_number_def by (rule word_self_less_succ)
  with le [of "fst x" "map fst d"] assms(2) show ?thesis by (simp add: le_less_trans)
qed

lemma reopened_disk:
  assumes d: "disk_ok wc e" and st: "ne_store e2 = (ne_store e)\<lparr>st_next_sst := next_number (ne_files e)\<rparr>"
    "ne_wal e2 = ne_wal e" "ne_files e2 = ne_files e"
  shows "disk_ok wc e2"
proof -
  let ?n = "next_number (ne_files e)"
  obtain bs where bs: "list_all (batch_fits wc) bs" "ne_wal e = wal_bytes wc bs"
      "foldl apply_batch (loaded (ne_store e)) bs = ne_store e"
    using d by (auto simp: disk_ok_def)
  have "loaded (ne_store e2) = (loaded (ne_store e))\<lparr>st_ssts := st_ssts (ne_store e), st_next_sst := ?n\<rparr>"
    by (simp add: loaded_def st(1))
  then have "foldl apply_batch (loaded (ne_store e2)) bs = ne_store e2"
    unfolding apply_batches_runs st(1) using bs(3) by (simp add: apply_batches_runs)
  moreover have "s_path s < ?n" if "s \<in> set (st_ssts (ne_store e))" for s
    using next_number_above [of "ne_files e" "st_next_sst (ne_store e)" "file_of s"] d that
    by (auto simp: disk_ok_def file_of_def)
  ultimately show ?thesis using d bs unfolding disk_ok_def st by auto
qed

lemma reopen_after_commit:
  assumes "wal_codec_ok wc" "engine_ok e" "disk_ok wc e" "room_for_runs e"
    "bt_ok ops" "\<forall>x \<in> set ops. table_from_index (fst (fst x)) \<noteq> None" "committed_seq e < seq"
    "durable_commit wc seq ops e = (Inr n, e')"
    "batch_fits wc lost" "strict_prefix torn (wal_record wc lost)"
  shows "\<exists>e2. open_with_options wc \<lparr>di_files = ne_files e', di_wal = ne_wal e' @ torn, di_locked = False\<rparr>
       threshold read_only = Inr e2 \<and> engine_ok e2 \<and> disk_ok wc e2 \<and> committed_seq e2 = seq \<and>
     view_at e2 seq = buffered ops (view_at e (committed_seq e))"
proof -
  have d: "disk_ok wc e'"
    using durable_commit_disk [OF assms(2,3,5,7,4,6,8)] by simp
  have sp: "engine_ok e'" "committed_seq e' = seq" "view_at e' seq = buffered ops (view_at e (committed_seq e))"
    using durable_commit_spec [OF assms(2,5,7,8)] by (auto split: option.splits)
  obtain e2 where e2: "open_with_options wc \<lparr>di_files = ne_files e', di_wal = ne_wal e' @ torn, di_locked = False\<rparr>
       threshold read_only = Inr e2" "ne_store e2 = (ne_store e')\<lparr>st_next_sst := next_number (ne_files e')\<rparr>"
      "ne_wal e2 = ne_wal e'" "ne_files e2 = ne_files e'" "ne_readers e2 = []"
    using recover [OF assms(1) d next_record_torn [OF assms(9,10)]] by blast
  have same: "store_ok (ne_store e2)" "seqs_bounded (ne_store e2)" "view_at e2 = view_at e'"
    using sp(1) by (simp_all add: engine_ok_def e2(2) store_next view_at_def fun_eq_iff)
  then have "engine_ok e2" by (simp add: engine_ok_def readers_ok_def e2(5))
  with e2 same(3) sp reopened_disk [OF d e2(2-4)] show ?thesis by auto
qed

text \<open>
  C6: A commit that returned survives a crash: reopening the directory, even when the crash tore the
  record of a later batch at the end of the log, gives an engine whose latest sequence is the commit's
  and whose view is the state before the commit overlaid with its writes.
\<close>

theorem commit_survives_crash:
  assumes "wal_codec_ok wc" "engine_ok e" "disk_ok wc e" "room_for_runs e"
    "bt_ok ops" "\<forall>x \<in> set ops. table_from_index (fst (fst x)) \<noteq> None" "committed_seq e < seq"
    "durable_commit wc seq ops e = (Inr n, e')"
    "batch_fits wc lost" "strict_prefix torn (wal_record wc lost)"
  shows "\<exists>e2. open_with_options wc \<lparr>di_files = ne_files e', di_wal = ne_wal e' @ torn, di_locked = False\<rparr>
       threshold read_only = Inr e2 \<and> engine_ok e2 \<and> disk_ok wc e2 \<and> committed_seq e2 = seq \<and>
     view_at e2 seq = buffered ops (view_at e (committed_seq e))"
  using assms by (rule reopen_after_commit)

theorem commit_survives_crash_witness:
  "\<exists>e' e2. durable_commit ref_wal_codec 1 demo_ops fresh_engine = (Inr 1, e') \<and>
     open_with_options ref_wal_codec
       \<lparr>di_files = ne_files e', di_wal = ne_wal e' @ take 5 (wal_record ref_wal_codec (wal_batch 2 demo_ops)),
        di_locked = False\<rparr> 100 False = Inr e2 \<and>
     rtx_get e2 1 Meta [1] = Inr (Some [7]) \<and> rtx_get e2 1 Meta [3] = Inr None"
proof -
  let ?lost = "wal_batch 2 demo_ops"
  let ?rec = "wal_record ref_wal_codec ?lost"
  obtain r e' where r: "durable_commit ref_wal_codec 1 demo_ops fresh_engine = (r, e')" by fastforce
  have ne: "commit_error ref_wal_codec 1 demo_ops fresh_engine = None"
    by (rule demo_ops_commits) (simp add: engine_over_def)
  then have d: "durable_commit ref_wal_codec 1 demo_ops fresh_engine = (Inr 1, e')"
    using durable_commit_spec [OF fresh_engine_ok(1) demo_ops_ok(1) _ r] r by (simp add: fresh_engine_ok(4))
  have fits: "batch_fits ref_wal_codec ?lost"
    by (simp add: batch_fits_def demo_ops_def wal_batch_def ref_wal_codec_def ser_wal_op_def ser_opt_def)
  have "8 \<le> length ?rec" by (simp add: wal_record_def Let_def)
  then have "length (take 5 ?rec) \<noteq> length ?rec" by simp
  then have "take 5 ?rec \<noteq> ?rec" by metis
  then have torn: "strict_prefix (take 5 ?rec) ?rec" by (simp add: strict_prefix_def take_is_prefix)
  obtain e2 where e2: "open_with_options ref_wal_codec
       \<lparr>di_files = ne_files e', di_wal = ne_wal e' @ take 5 ?rec, di_locked = False\<rparr> 100 False = Inr e2"
      "engine_ok e2" "view_at e2 1 = buffered demo_ops (view_at fresh_engine 0)"
    using commit_survives_crash [OF ref_wal_codec_ok fresh_engine_ok(1,2,5) demo_ops_ok _ d fits torn, of 100 False]
    by (auto simp: fresh_engine_ok(4))
  then have "rtx_get e2 1 Meta [1] = Inr (Some [7])" "rtx_get e2 1 Meta [3] = Inr None"
    by (simp_all add: rtx_get_view buffered_def demo_ops_def fresh_engine_ok(3))
  with d e2(1) show ?thesis by blast
qed

section \<open>Refusals\<close>

lemma durable_commit_error:
  assumes "durable_commit wc seq ops e = (Inl er, e')"
  shows "ne_store e' = ne_store e \<and> ne_readers e' = ne_readers e \<and> ne_retain_commits e' = ne_retain_commits e"
proof (cases "append_batch wc (wal_batch seq ops) (ne_wal e)")
  case (Inr wal)
  then show ?thesis using assms by (auto simp: durable_commit_def Let_def split: sum.splits prod.splits)
qed (use assms in \<open>auto simp: durable_commit_def\<close>)

lemma acquire_cases:
  obtains (blocked) "acquire h release limit = None"
  | (timeout) "acquire h release limit = Some (Inl Timeout)" | (slot) "acquire h release limit = Some (Inr ())"
proof -
  have "acquire h release limit \<in> {None, Some (Inl Timeout), Some (Inr ())}"
    by (auto simp: acquire_def split: option.splits)
  then show ?thesis using that by blast
qed

lemma begin_write_error:
  "begin_write wait e = Some (Inl er, e1) \<Longrightarrow> e1 = e \<and> er = (if ne_read_only e then ReadOnly else Timeout)"
  by (cases rule: acquire_cases [of "ne_held e" "map_option fst wait" "gate_timeout e"])
     (auto simp: begin_write_def begin_write_unchecked_def Let_def split: if_splits)

lemma release_gate_error:
  "release_gate (r, e) = (Inl er, e') \<Longrightarrow> r = Inl er \<and> e' = e\<lparr>ne_held := False\<rparr>"
  by (auto simp: release_gate_def split: sum.splits)

lemma native_commit_error:
  assumes "native_commit wc t e = (Inl er, e')"
  shows "ne_store e' = ne_store e \<and> ne_readers e' = ne_readers e \<and> ne_retain_commits e' = ne_retain_commits e"
proof -
  obtain r1 e1 where d: "durable_commit wc (wt_snapshot t + 1) (wt_buf t) e = (r1, e1)" by fastforce
  then have "wt_buf t \<noteq> []" "r1 = Inl er" "e' = e1\<lparr>ne_held := False\<rparr>"
    using assms by (auto simp: native_commit_def dest: release_gate_error split: if_splits)
  with d durable_commit_error show ?thesis by fastforce
qed

lemma apply_replicated_error:
  assumes "apply_replicated wc wait batch e = Some (Inl er, e')"
  shows "e' = e \<and> er = Timeout \<or>
    ne_store e' = ne_store (after_wait wait e) \<and> ne_readers e' = ne_readers (after_wait wait e) \<and>
    ne_retain_commits e' = ne_retain_commits (after_wait wait e)"
proof -
  let ?ops = "bt_of_list (map (\<lambda>o1. ((table_u8 (ro_table o1), ro_key o1), op_of (ro_value o1))) (rb_ops batch))"
  obtain r1 e1 where d: "durable_commit wc (rb_seq batch) ?ops (after_wait wait e) = (r1, e1)" by fastforce
  show ?thesis
    using assms d durable_commit_error [of wc "rb_seq batch" ?ops "after_wait wait e" er e1]
    by (cases rule: acquire_cases [of "ne_held e" "map_option fst wait" "gate_timeout e"])
       (auto simp: apply_replicated_def Let_def split: if_splits dest!: release_gate_error)
qed

lemma apply_replicated_held_error:
  assumes "apply_replicated wc wait batch e = Some (Inl er, e')" "ne_held e"
  shows "e' = e \<and> er = Timeout \<or> (\<exists>d e1. wait = Some (d, e1) \<and> after_wait wait e = e1)"
  using assms by (cases wait) (auto simp: apply_replicated_def acquire_def after_wait_def split: if_splits option.splits)

text \<open>
  C21: A refused operation changes nothing a reader sees. A write is refused on a read-only engine or when
  the slot is not released within the configured limit; a read at a snapshot exactly in the future or
  below the retention floor; a replicated batch that is not newer than the latest commit is a conflict;
  and a batch or a commit that fails leaves the store, its readers and its retention as they were (when
  the batch had to wait for the slot: as the previous holder left them, unless the wait timed out).
\<close>

theorem refusals_keep_state:
  "(begin_write wait e = Some (Inl er, e1) \<longrightarrow>
      e1 = e \<and> er = (if ne_read_only e then ReadOnly else Timeout)) \<and>
   ((\<exists>er e2. begin_read_at snap e = (Inl er, e2)) \<longleftrightarrow> committed_seq e < snap \<or> snap < retained_floor e) \<and>
   (begin_read_at snap e = (Inl er, e2) \<longrightarrow> e2 = e \<and> er = InvalidArgument) \<and>
   (rb_ops batch \<noteq> [] \<longrightarrow> \<not> ne_held e \<longrightarrow> rb_seq batch \<le> committed_seq e \<longrightarrow>
      apply_replicated wc wait batch e = Some (Inl Conflict, e\<lparr>ne_held := False\<rparr>)) \<and>
   (\<not> ne_held e \<longrightarrow> apply_replicated wc wait batch e = Some (Inl er, e3) \<longrightarrow>
      ne_store e3 = ne_store e \<and> ne_readers e3 = ne_readers e \<and> ne_retain_commits e3 = ne_retain_commits e) \<and>
   (ne_held e \<longrightarrow> apply_replicated wc wait batch e = Some (Inl er, e3) \<longrightarrow>
      e3 = e \<and> er = Timeout \<or> (\<exists>d e1. wait = Some (d, e1) \<and>
        ne_store e3 = ne_store e1 \<and> ne_readers e3 = ne_readers e1 \<and> ne_retain_commits e3 = ne_retain_commits e1)) \<and>
   (native_commit wc t e = (Inl er, e4) \<longrightarrow>
      ne_store e4 = ne_store e \<and> ne_readers e4 = ne_readers e \<and> ne_retain_commits e4 = ne_retain_commits e)"
proof -
  have "rb_ops batch \<noteq> [] \<Longrightarrow> \<not> ne_held e \<Longrightarrow> rb_seq batch \<le> committed_seq e \<Longrightarrow>
      apply_replicated wc wait batch e = Some (Inl Conflict, e\<lparr>ne_held := False\<rparr>)"
    by (simp add: apply_replicated_def acquire_def after_wait_def)
  moreover have "((\<exists>er e2. begin_read_at snap e = (Inl er, e2)) \<longleftrightarrow> committed_seq e < snap \<or> snap < retained_floor e) \<and>
      (begin_read_at snap e = (Inl er, e2) \<longrightarrow> e2 = e \<and> er = InvalidArgument)"
    by (auto simp: begin_read_at_def retained_floor_def)
  ultimately show ?thesis
    using begin_write_error [of wait e er e1] apply_replicated_held_error [of wc wait batch e er e3]
      native_commit_error [of wc t e er e4] apply_replicated_error [of wc wait batch e er e3]
    by (auto simp: after_wait_def)
qed

theorem refusals_keep_state_witness:
  "begin_write None (fresh_engine\<lparr>ne_read_only := True\<rparr>) = Some (Inl ReadOnly, fresh_engine\<lparr>ne_read_only := True\<rparr>) \<and>
   (\<exists>er e2. begin_read_at 1 fresh_engine = (Inl er, e2)) \<and>
   apply_replicated ref_wal_codec None \<lparr>rb_seq = 0, rb_ops = [\<lparr>ro_table = Meta, ro_key = [1], ro_value = None\<rparr>]\<rparr>
     fresh_engine = Some (Inl Conflict, fresh_engine\<lparr>ne_held := False\<rparr>)"
  using refusals_keep_state [where e = fresh_engine and snap = 1 and
      batch = "\<lparr>rb_seq = 0, rb_ops = [\<lparr>ro_table = Meta, ro_key = [1], ro_value = None\<rparr>]\<rparr>"
      and wc = ref_wal_codec and wait = None]
  by (simp add: fresh_engine_ok(4) begin_write_def) (simp add: engine_over_def)

section \<open>The format upgrade\<close>

lemma position_None: "position P xs = None \<Longrightarrow> filter P xs = []"
  by (induction xs) (auto split: if_splits)

lemma filter_update_count:
  "i < length xs \<Longrightarrow> P (xs ! i) \<Longrightarrow> \<not> P v \<Longrightarrow> Suc (length (filter P (xs[i := v]))) = length (filter P xs)"
  by (induction xs arbitrary: i) (auto split: nat.splits)

lemma upgrade_one_keeps:
  assumes ok: "engine_ok e" and u: "upgrade_one e = Some (r, e')"
  shows "engine_ok e'" "view_at e' = view_at e" "r = Inr () \<Longrightarrow> Suc (legacy_runs e') = legacy_runs e"
proof (atomize (full))
  let ?st = "ne_store e" and ?ss = "st_ssts (ne_store e)"
  obtain i where i: "position is_legacy ?ss = Some i"
    using u by (auto simp: upgrade_one_def Let_def split: option.splits)
  note at = position_Some [OF i]
  have repr: "sst_repr (?ss ! i) (content (?ss ! i))"
    using ok at by (simp add: engine_ok_def store_ok_def)
  have bt: "bt_ok (content (?ss ! i))" using repr by (simp add: sst_repr_def)
  show "engine_ok e' \<and> view_at e' = view_at e \<and> (r = Inr () \<longrightarrow> Suc (legacy_runs e') = legacy_runs e)"
  proof (cases "write_sorted (map Inr (content (?ss ! i))) (unat (s_count (?ss ! i))) (s_max_seq (?ss ! i))")
    case (Inl er)
    then have "e' = e" "r = Inl er" using u i sst_entries_repr [OF repr] by (auto simp: upgrade_one_def Let_def)
    with ok show ?thesis by simp
  next
    case (Inr data)
    obtain f where f: "sst_open (st_next_sst ?st) data = Inr f" "sst_repr f (content (?ss ! i))" "\<not> is_legacy f"
      using write_sorted_repr [OF bt Inr, of "st_next_sst ?st"] by auto
    have e': "ne_store e' = ?st\<lparr>st_next_sst := st_next_sst ?st + 1, st_ssts := ?ss[i := f]\<rparr>"
        "ne_readers e' = ne_readers e" "r = Inr ()"
      using u i Inr f(1) sst_entries_repr [OF repr] by (auto simp: upgrade_one_def Let_def)
    have "map content (?ss[i := f]) = map content ?ss"
      using at by (simp add: map_update content_repr [OF f(2)] list_update_same_conv)
    then have lay: "layers (ne_store e') = layers ?st" by (simp add: layers_def e')
    have "store_ok (ne_store e')"
      using ok f(2) content_repr [OF f(2)] at unfolding store_ok_def lay
      by (auto simp: e' engine_ok_def store_ok_def dest!: set_update_subset_insert [THEN subsetD])
    moreover have "seqs_bounded (ne_store e')"
      using ok unfolding seqs_bounded_def lay by (simp add: engine_ok_def seqs_bounded_def e')
    moreover have "view_at e' = view_at e"
      unfolding view_at_def store_view_def store_versions_def lay fun_eq_iff by simp
    moreover have "Suc (legacy_runs e') = legacy_runs e"
      using filter_update_count [of i ?ss is_legacy f] at f(3) by (simp add: legacy_runs_def e')
    ultimately show ?thesis using ok by (auto simp: engine_ok_def readers_ok_def e')
  qed
qed

lemma upgrade_loop_keeps:
  "upgrade_loop m e = (r, e') \<Longrightarrow> engine_ok e \<Longrightarrow>
   engine_ok e' \<and> view_at e' = view_at e \<and> (\<forall>n. r = Inr n \<longrightarrow> n = m + legacy_runs e \<and> legacy_runs e' = 0)"
proof (induction m e arbitrary: r e' rule: upgrade_loop.induct)
  case (1 m e)
  show ?case
  proof (cases "upgrade_one e")
    case None
    then have "position is_legacy (st_ssts (ne_store e)) = None"
      by (auto simp: upgrade_one_def Let_def split: option.splits sum.splits)
    then have "legacy_runs e = 0" by (simp add: legacy_runs_def position_None)
    with None 1(2,3) show ?thesis by (auto simp: upgrade_loop.simps [of m])
  next
    case (Some p)
    obtain r1 e1 where p: "p = (r1, e1)" by fastforce
    note k = upgrade_one_keeps [OF 1(3) Some [unfolded p]]
    show ?thesis
    proof (cases r1)
      case (Inl er)
      with Some p 1(2) k show ?thesis by (auto simp: upgrade_loop.simps [of m])
    next
      case (Inr u)
      then have "upgrade_loop (Suc m) e1 = (r, e')" using Some p 1(2) by (simp add: upgrade_loop.simps [of m])
      with 1(1) [OF Some p [symmetric] Inr] k Inr show ?thesis by fastforce
    qed
  qed
qed

text \<open>
  C22: The upgrade of legacy runs ends: it either fails on a run it cannot write, or rewrites every one
  (the count it returns is the number of legacy runs there were, and none is left). Either way every
  view of the running engine is unchanged. (The order of the runs on disk is not: see below.)
\<close>

theorem upgrade_terminates:
  assumes "engine_ok e" "\<not> ne_held e"
  shows "\<exists>r e'. upgrade_runs wait e = Some (r, e') \<and> engine_ok e' \<and> view_at e' = view_at e \<and>
     (\<forall>n. r = Inr n \<longrightarrow> n = legacy_runs e \<and> legacy_runs e' = 0)"
proof -
  obtain r e' where u: "upgrade_loop 0 e = (r, e')" by fastforce
  then have "upgrade_runs wait e = Some (r, e')"
    using assms(2) by (simp add: upgrade_runs_def acquire_def after_wait_def)
  with upgrade_loop_keeps [OF u assms(1)] show ?thesis by auto
qed

theorem upgrade_terminates_witness:
  "\<exists>e e'. legacy_runs e = 1 \<and> upgrade_runs None e = Some (Inr 1, e') \<and> legacy_runs e' = 0 \<and> view_at e' = view_at e"
proof -
  obtain a where a: "sst_open 1 (s_file a) = Inr a" "sst_repr a [old_version]" "s_max_seq a = 1" "s_path a = 1"
      "s_count a = 1" "is_legacy a"
    using legacy_run [of old_version 1 1] by (auto simp: length_enc old_version_def)
  have "run_fits (length [new_version]) [new_version]"
    by (rule small_run) (simp_all add: length_enc new_version_def)
  then obtain b where b: "sst_open 2 (s_file b) = Inr b" "sst_repr b [new_version]" "s_path b = 2" "\<not> is_legacy b"
    using run_exists [of "[new_version]" 2 2] by auto
  let ?e = "engine_over [a, b] 2 3 0"
  have "runs_repr [a, b] [[old_version], [new_version]]" using a b by (simp add: runs_repr_def)
  then have ok: "engine_ok ?e"
    by (rule engine_over_ok(1)) (simp_all add: layered_def supersedes_def old_version_def new_version_def)
  have u: "\<exists>e'. upgrade_runs None ?e = Some (Inr 1, e')" by (rule upgrade_pair [OF a b(4,3)]) blast
  have "legacy_runs ?e = 1" using a(6) b(4) by (simp add: legacy_runs_def engine_over_def)
  moreover have "\<not> ne_held ?e" by (simp add: engine_over_def)
  ultimately show ?thesis using upgrade_terminates [OF ok, of None] u by fastforce
qed

section \<open>The graph over the native engine\<close>

text \<open>A write transaction opened at \<open>e\<close>, whatever it has staged so far.\<close>

definition txn_of :: "NativeEngine \<Rightarrow> NativeWriteTxn \<Rightarrow> bool" where
  "txn_of e t \<longleftrightarrow> native_valid t \<and> wt_store t = ne_store e \<and> wt_snapshot t = committed_seq e \<and>
     (\<forall>x \<in> set (wt_buf t). table_from_index (fst (fst x)) \<noteq> None)"

lemma table_u8_known: "table_from_index (table_u8 tb) \<noteq> None"
  by (cases tb) (simp_all add: table_from_index_def ALL_TABLES_def)

lemma bt_insert_set: "x \<in> set (bt_insert k v m) \<Longrightarrow> x = (k, v) \<or> x \<in> set m"
  by (induction m) (auto split: if_splits)

lemma fold_insert_known:
  "x \<in> set (fold (\<lambda>k. bt_insert (tb, k) Del) ks m) \<Longrightarrow> fst (fst x) = tb \<or> x \<in> set m"
  by (induction ks arbitrary: m) (auto, metis bt_insert_set fst_conv)

interpretation native_txn: kv_txn native_vtable "txn_of e" native_view for e
proof
  fix t :: NativeWriteTxn and tb :: table_id and k v p lo :: bytes and hi :: "bytes option"
  assume inv: "txn_of e t"
  then have valid: "native_valid t" by (simp add: txn_of_def)
  show "v_get native_vtable t tb k = Inr (native_view t tb k)" using native.get_law [OF valid] .
  show "\<exists>t'. v_put native_vtable tb k v t = (Inr (), t') \<and> txn_of e t' \<and>
             native_view t' = kv_put tb k v (native_view t)"
    using native.put_law [OF valid, of tb k v] inv table_u8_known
    by (auto simp: native_vtable_def wtx_put_def txn_of_def dest!: bt_insert_set)
  show "\<exists>t'. v_delete native_vtable tb k t = (Inr (), t') \<and> txn_of e t' \<and>
             native_view t' = kv_del tb k (native_view t)"
    using native.delete_law [OF valid, of tb k] inv table_u8_known
    by (auto simp: native_vtable_def wtx_delete_def txn_of_def dest!: bt_insert_set)
  show "\<exists>t'. v_delete_prefix native_vtable tb p t = (Inr (), t') \<and> txn_of e t' \<and>
             native_view t' = kv_delp tb p (native_view t)"
    using native.delete_prefix_law [OF valid, of tb p] inv table_u8_known
    by (auto simp: native_vtable_def wtx_delete_prefix_def txn_of_def Let_def split: sum.splits dest!: fold_insert_known)
  show "case hi of None \<Rightarrow> True | Some h \<Rightarrow> lo \<le> h \<Longrightarrow>
        \<exists>xs. v_range native_vtable t tb lo hi = Inr xs \<and> bt_ok xs \<and>
             map_of xs = (\<lambda>k. if in_range lo hi k then native_view t tb k else None)"
    using native.range_law [OF valid] .
qed

lemma open_flags: "open_with_options wc d threshold ro = Inr e \<Longrightarrow> \<not> ne_held e \<and> ne_read_only e = ro"
  by (auto simp: open_with_options_def res_bind_eq_Inr Let_def case_prod_beta)

text \<open>
  C1: The graph survives: when a transaction that has staged the graph \<open>G\<close> over the native engine
  commits and the process then crashes (perhaps while appending a later batch), the reopened engine
  hands out a write transaction that stores exactly \<open>G\<close>.
\<close>

theorem committed_graph_survives:
  assumes "wal_codec_ok wc" "engine_ok e" "disk_ok wc e" "room_for_runs e" "committed_seq e \<noteq> - 1"
    "db_ok (txn_of e) native_view pc G t" "wt_buf t \<noteq> []" "native_commit wc t e = (Inr (), e')"
    "batch_fits wc lost" "strict_prefix torn (wal_record wc lost)"
  shows "\<exists>e2 t2 e3. open_with_options wc \<lparr>di_files = ne_files e', di_wal = ne_wal e' @ torn, di_locked = False\<rparr>
       threshold False = Inr e2 \<and> begin_write None e2 = Some (Inr t2, e3) \<and>
     db_ok (txn_of e2) native_view pc G t2"
proof -
  let ?seq = "committed_seq e + 1"
  have t: "bt_ok (wt_buf t)" "wt_store t = ne_store e" "wt_snapshot t = committed_seq e"
      "\<forall>x \<in> set (wt_buf t). table_from_index (fst (fst x)) \<noteq> None"
    using assms(6) by (simp_all add: db_ok_def txn_of_def native_valid_def)
  have seq: "committed_seq e < ?seq" using assms(5) by (rule word_self_less_succ)
  obtain r1 e1 where d: "durable_commit wc ?seq (wt_buf t) e = (r1, e1)" by fastforce
  then obtain n where n: "r1 = Inr n" "e' = e1\<lparr>ne_held := False\<rparr>"
    using assms(7,8) t(3) by (auto simp: native_commit_def release_gate_def split: sum.splits)
  obtain e2 where e2: "open_with_options wc \<lparr>di_files = ne_files e1, di_wal = ne_wal e1 @ torn, di_locked = False\<rparr>
       threshold False = Inr e2" "engine_ok e2" "committed_seq e2 = ?seq"
      "view_at e2 ?seq = buffered (wt_buf t) (view_at e (committed_seq e))"
    using reopen_after_commit [OF assms(1-4) t(1,4) seq d [unfolded n(1)] assms(9,10)] by blast
  let ?t2 = "\<lparr>wt_store = ne_store e2, wt_snapshot = committed_seq e2, wt_buf = []\<rparr>"
  have "begin_write None e2 = Some (Inr ?t2, e2\<lparr>ne_held := True\<rparr>)"
    using open_flags [OF e2(1)] by (simp add: begin_write_def begin_write_unchecked_def acquire_def after_wait_def)
  moreover have "native_view ?t2 = native_view t"
    using e2(3,4) t(2,3) by (simp add: native_view_def buffered_def view_at_def fun_eq_iff)
  moreover have "txn_of e2 ?t2" using e2(2) by (simp add: txn_of_def native_valid_def engine_ok_def)
  ultimately show ?thesis using assms(6) e2(1) n(2) by (auto simp: db_ok_def)
qed

text \<open>A codec with a short form for one given batch.\<close>

definition short_codec :: "WalBatch \<Rightarrow> wal_codec" where
  "short_codec b0 =
     \<lparr>wc_to = \<lambda>b. if b = b0 then [0] else 1 # wc_to ref_wal_codec b,
      wc_from = \<lambda>x. case x of [] \<Rightarrow> None | h # r \<Rightarrow> if h = 0 then Some b0 else wc_from ref_wal_codec r\<rparr>"

lemma short_codec_ok: "wal_codec_ok (short_codec b0)"
  using ref_wal_codec_ok by (simp add: wal_codec_ok_def short_codec_def)

theorem committed_graph_survives_witness:
  "\<exists>wc t e' e2 t2 e3. init_db native_vtable ref_postcard
       \<lparr>wt_store = ne_store fresh_engine, wt_snapshot = 0, wt_buf = []\<rparr> = (Inr (), t) \<and>
     native_commit wc t fresh_engine = (Inr (), e') \<and>
     open_with_options wc \<lparr>di_files = ne_files e', di_wal = ne_wal e' @ [], di_locked = False\<rparr> 100 False = Inr e2 \<and>
     begin_write None e2 = Some (Inr t2, e3) \<and> db_ok (txn_of e2) native_view ref_postcard empty_graph t2"
proof -
  let ?t0 = "\<lparr>wt_store = ne_store fresh_engine, wt_snapshot = 0, wt_buf = []\<rparr>"
  have v0: "native_view ?t0 tb k = None" for tb k
    using fresh_engine_ok(3) [of 0 tb k] by (simp add: native_view_def buffered_def view_at_def)
  have "txn_of fresh_engine ?t0"
    using fresh_engine_ok(1) by (simp add: txn_of_def native_valid_def engine_ok_def fresh_engine_ok(4))
  from native_txn.init_db_run [OF this v0, of ref_postcard] obtain t where
    t: "init_db native_vtable ref_postcard ?t0 = (Inr (), t)" "txn_of fresh_engine t"
      "reprD ref_postcard Map.empty Map.empty empty_graph (native_view t)"
      "\<forall>ctr \<in> set ID_COUNTERS. native_view t Meta ctr = Some (be64 1)"
    by (auto simp: empty_graph_def)
  have db: "db_ok (txn_of fresh_engine) native_view ref_postcard empty_graph t"
    using t(2,3) ag_ok_empty by (auto simp: db_ok_def repr_def)
  have at: "wt_store t = ne_store fresh_engine" "wt_snapshot t = 0" "bt_ok (wt_buf t)"
    using t(2) by (simp_all add: txn_of_def native_valid_def fresh_engine_ok(4))
  have ne: "wt_buf t \<noteq> []"
  proof
    assume "wt_buf t = []"
    then have "t = ?t0" using at by (cases t) simp
    with t(4) v0 show False by (auto simp: ID_COUNTERS_def)
  qed
  let ?b = "wal_batch 1 (wt_buf t)"
  let ?wc = "short_codec ?b"
  obtain r e' where c: "native_commit ?wc t fresh_engine = (r, e')" by fastforce
  have "commit_error ?wc 1 (wt_buf t) fresh_engine = None"
    by (simp add: commit_error_def short_codec_def) (simp add: engine_over_def)
  then have "r = Inr ()"
    using native_commit_spec [OF fresh_engine_ok(1) _ _ at(3) ne _ c] at fresh_engine_ok(4) by simp
  moreover have "batch_fits ?wc ?b" "strict_prefix [] (wal_record ?wc ?b)"
    by (simp_all add: batch_fits_def short_codec_def wal_record_def strict_prefix_def Let_def)
  ultimately show ?thesis
    using committed_graph_survives [OF short_codec_ok fresh_engine_ok(1,2,5) _ db ne, of ?b e' ?b "[]" 100] c t(1)
      fresh_engine_ok(4) by fastforce
qed

end
