(* ===== verification/Comparison.thy ===== *)
theory Comparison
  imports Ordering "HOL-Library.Multiset"
begin

text \<open>
  What the standard library builds on a comparison function: the element-wise comparison of sequences,
  the stable \<open>sort_by\<close> and the ordered set. The locale \<open>comparison\<close> is the contract that \<open>sort_by\<close>,
  \<open>BTreeSet\<close> and \<open>BTreeMap\<close> demand of a comparison function: a total preorder. Under it the result of a
  stable sort is unique.
\<close>

text \<open>A loop over the zipped elements that returns the first difference, then the lengths.\<close>

fun lex_cmp :: "('a \<Rightarrow> 'a \<Rightarrow> ordering) \<Rightarrow> 'a list \<Rightarrow> 'a list \<Rightarrow> ordering" where
  "lex_cmp c (x # xs) (y # ys) = then_cmp (c x y) (lex_cmp c xs ys)"
| "lex_cmp c [] [] = Equal"
| "lex_cmp c [] (y # ys) = Less"
| "lex_cmp c (x # xs) [] = Greater"

fun ins_by :: "('a \<Rightarrow> 'a \<Rightarrow> ordering) \<Rightarrow> 'a \<Rightarrow> 'a list \<Rightarrow> 'a list" where
  "ins_by c x [] = [x]"
| "ins_by c x (y # ys) = (if c x y = Greater then y # ins_by c x ys else x # y # ys)"

text \<open>\<open>slice::sort_by\<close>: stable, so an element is put in front of the later elements equal to it.\<close>

definition sort_by :: "('a \<Rightarrow> 'a \<Rightarrow> ordering) \<Rightarrow> 'a list \<Rightarrow> 'a list" where
  "sort_by c xs = foldr (ins_by c) xs []"

text \<open>\<open>BTreeSet::insert\<close>: whether the key was new, and the set it leaves.\<close>

definition oset_mem :: "('a \<Rightarrow> 'a \<Rightarrow> ordering) \<Rightarrow> 'a \<Rightarrow> 'a list \<Rightarrow> bool" where
  "oset_mem c x s \<longleftrightarrow> (\<exists>y \<in> set s. c x y = Equal)"

definition oset_insert :: "('a \<Rightarrow> 'a \<Rightarrow> ordering) \<Rightarrow> 'a \<Rightarrow> 'a list \<Rightarrow> bool \<times> 'a list" where
  "oset_insert c x s = (if oset_mem c x s then (False, s) else (True, ins_by c x s))"

section \<open>Laws\<close>

declare cmp_iff [simp] cmp_refl [simp]

text \<open>
  The laws at one element, in the form that lifts through sequences: reflexivity, the flipped
  comparison, equal elements compare alike, and transitivity.
\<close>

definition cmp_laws :: "('a \<Rightarrow> 'a \<Rightarrow> ordering) \<Rightarrow> 'a \<Rightarrow> bool" where
  "cmp_laws c x \<longleftrightarrow> c x x = Equal \<and> (\<forall>y. c y x = rev_ord (c x y)) \<and>
     (\<forall>y z. c x y = Equal \<longrightarrow> c x z = c y z) \<and>
     (\<forall>y z. c x y = Less \<longrightarrow> c y z \<noteq> Greater \<longrightarrow> c x z = Less)"

lemma cmp_lawsI:
  assumes "c x x = Equal" "\<And>y. c y x = rev_ord (c x y)"
    "\<And>y z. c x y = Equal \<Longrightarrow> c x z = c y z"
    "\<And>y z. c x y = Less \<Longrightarrow> c y z \<noteq> Greater \<Longrightarrow> c x z = Less"
  shows "cmp_laws c x"
  using assms unfolding cmp_laws_def by blast

lemma cmp_lawsD:
  assumes "cmp_laws c x"
  shows "c x x = Equal" "c y x = rev_ord (c x y)" "c x y = Equal \<Longrightarrow> c x z = c y z"
    "c x y = Less \<Longrightarrow> c y z \<noteq> Greater \<Longrightarrow> c x z = Less"
  using assms unfolding cmp_laws_def by blast+

lemma cmp_not_Greater: "cmp a b \<noteq> Greater \<longleftrightarrow> a \<le> b"
  by (simp add: not_less)

lemma cmp_laws_cmp: "cmp_laws cmp x"
  by (rule cmp_lawsI) (simp, rule cmp_flip, simp, simp add: not_less)

lemma cmp_laws_embed:
  assumes "\<And>y z. c y z = d (f y) (f z)" "cmp_laws d (f x)"
  shows "cmp_laws c x"
proof (rule cmp_lawsI)
  show "c x x = Equal" using cmp_lawsD(1) [OF assms(2)] by (simp only: assms(1))
  show "c y x = rev_ord (c x y)" for y using cmp_lawsD(2) [OF assms(2)] by (simp only: assms(1))
  show "c x z = c y z" if "c x y = Equal" for y z
    using that cmp_lawsD(3) [OF assms(2)] by (simp only: assms(1))
  show "c x z = Less" if "c x y = Less" "c y z \<noteq> Greater" for y z
    using that cmp_lawsD(4) [OF assms(2)] by (simp only: assms(1)) blast
qed

lemma lex_refl: "(\<And>x. x \<in> set xs \<Longrightarrow> cmp_laws c x) \<Longrightarrow> lex_cmp c xs xs = Equal"
  by (induction xs) (auto simp: cmp_lawsD)

lemma lex_flip:
  "(\<And>x. x \<in> set xs \<Longrightarrow> cmp_laws c x) \<Longrightarrow> lex_cmp c ys xs = rev_ord (lex_cmp c xs ys)"
proof (induction c xs ys rule: lex_cmp.induct)
  case (1 c x xs y ys)
  then show ?case using cmp_lawsD(2) [of c x y] by (simp add: rev_then_cmp)
qed auto

lemma lex_equal:
  assumes "\<And>x. x \<in> set xs \<Longrightarrow> cmp_laws c x" "lex_cmp c xs ys = Equal"
  shows "lex_cmp c xs zs = lex_cmp c ys zs"
  using assms
proof (induction c xs ys arbitrary: zs rule: lex_cmp.induct)
  case (1 c x xs y ys)
  then show ?case using cmp_lawsD(3) [of c x y] by (cases zs) auto
qed auto

lemma lex_less:
  assumes "\<And>x. x \<in> set xs \<Longrightarrow> cmp_laws c x" "lex_cmp c xs ys = Less" "lex_cmp c ys zs \<noteq> Greater"
  shows "lex_cmp c xs zs = Less"
  using assms
proof (induction c xs ys arbitrary: zs rule: lex_cmp.induct)
  case (1 c x xs y ys)
  then obtain z zs' where zs: "zs = z # zs'" by (cases zs) auto
  have laws: "cmp_laws c x" using 1 by simp
  consider "c x y = Less" | "c x y = Equal" using 1 by (cases "c x y") auto
  then show ?case
  proof cases
    case 1
    moreover have "c y z \<noteq> Greater" using \<open>lex_cmp c (y # ys) zs \<noteq> Greater\<close> by (auto simp: zs)
    ultimately have "c x z = Less" by (rule cmp_lawsD(4) [OF laws])
    then show ?thesis by (simp add: zs)
  next
    case 2
    then have "c x z = c y z" by (rule cmp_lawsD(3) [OF laws])
    then show ?thesis using 1 2 by (cases "c y z") (auto simp: zs)
  qed
next
  case (3 c y ys)
  then show ?case by (cases zs) auto
qed auto

lemma lex_laws: "(\<And>x. x \<in> set xs \<Longrightarrow> cmp_laws c x) \<Longrightarrow> cmp_laws (lex_cmp c) xs"
  by (rule cmp_lawsI) (blast intro: lex_refl lex_flip lex_equal lex_less)+

lemma lex_cmp_cong [fundef_cong]:
  assumes "xs = xs'" "ys = ys'" "\<And>x y. x \<in> set xs' \<Longrightarrow> y \<in> set ys' \<Longrightarrow> c x y = c' x y"
  shows "lex_cmp c xs ys = lex_cmp c' xs' ys'"
  using assms(3) unfolding assms(1, 2) by (induction c xs' ys' rule: lex_cmp.induct) auto

text \<open>The lexicographic order on lists is the comparison of sequences.\<close>

lemma lex_cmp_cmp: "lex_cmp cmp xs ys = cmp xs ys"
proof (induction "cmp :: 'a \<Rightarrow> 'a \<Rightarrow> ordering" xs ys rule: lex_cmp.induct)
  case (1 x xs y ys)
  then show ?case by (cases x y rule: linorder_cases) (simp_all add: cmp_def then_cmp_def)
qed (auto simp: cmp_def)

section \<open>The contract of a comparison function\<close>

locale comparison =
  fixes c :: "'a \<Rightarrow> 'a \<Rightarrow> ordering"
  assumes laws: "cmp_laws c x"
begin

lemma self_equal [simp]: "c x x = Equal"
  and flip: "c y x = rev_ord (c x y)"
  and equal: "c x y = Equal \<Longrightarrow> c x z = c y z"
  and less: "c x y = Less \<Longrightarrow> c y z \<noteq> Greater \<Longrightarrow> c x z = Less"
  by (fact cmp_lawsD [OF laws])+

lemma greater_iff: "c x y = Greater \<longleftrightarrow> c y x = Less"
  using flip [of y x] by simp

lemma equal_sym: "c x y = Equal \<Longrightarrow> c y x = Equal"
  using flip [of y x] by simp

lemma trans: "c x y \<noteq> Greater \<Longrightarrow> c y z \<noteq> Greater \<Longrightarrow> c x z \<noteq> Greater"
  using less [of x y z] equal [of x y z] by (cases "c x y") auto

lemma total: "c x y \<noteq> Greater \<or> c y x \<noteq> Greater"
  using greater_iff [of x y] by auto

abbreviation le :: "'a \<Rightarrow> 'a \<Rightarrow> bool" where
  "le x y \<equiv> c x y \<noteq> Greater"

lemma mset_ins_by [simp]: "mset (ins_by c x xs) = add_mset x (mset xs)"
  by (induction xs) auto

lemma set_ins_by [simp]: "set (ins_by c x xs) = insert x (set xs)"
  by (induction xs) auto

lemma sorted_ins_by: "sorted_wrt le xs \<Longrightarrow> sorted_wrt le (ins_by c x xs)"
proof (induction xs)
  case (Cons y ys)
  show ?case
  proof (cases "c x y = Greater")
    case True
    then have "le y x" using greater_iff [of x y] by auto
    with True Cons show ?thesis by auto
  next
    case False
    then have "le x z" if "z \<in> set ys" for z using that Cons.prems trans [of x y z] by auto
    with False Cons show ?thesis by auto
  qed
qed simp

lemma mset_sort_by [simp]: "mset (sort_by c xs) = mset xs"
  by (induction xs) (simp_all add: sort_by_def)

lemma set_sort_by [simp]: "set (sort_by c xs) = set xs"
  using mset_sort_by [of xs] by (metis set_mset_mset)

lemma length_sort_by [simp]: "length (sort_by c xs) = length xs"
  using mset_sort_by [of xs] by (metis size_mset)

lemma sorted_sort_by: "sorted_wrt le (sort_by c xs)"
  by (induction xs) (simp_all add: sort_by_def sorted_ins_by)

lemma filter_ins_by:
  "sorted_wrt le xs \<Longrightarrow>
     filter (\<lambda>y. c a y = Equal) (ins_by c x xs) = filter (\<lambda>y. c a y = Equal) (x # xs)"
proof (induction xs)
  case (Cons y ys)
  show ?case
  proof (cases "c x y = Greater")
    case True
    then have "\<not> (c a x = Equal \<and> c a y = Equal)" using equal equal_sym by (metis ordering.distinct(5))
    with True Cons show ?thesis by auto
  qed simp
qed simp

lemma stable_sort_by: "filter (\<lambda>y. c a y = Equal) (sort_by c xs) = filter (\<lambda>y. c a y = Equal) xs"
proof (induction xs)
  case (Cons x xs)
  have "sort_by c (x # xs) = ins_by c x (sort_by c xs)" by (simp add: sort_by_def)
  with Cons show ?case by (simp add: filter_ins_by [OF sorted_sort_by])
qed (simp add: sort_by_def)

text \<open>A sorted rearrangement that keeps the order of equal elements is the result of the sort.\<close>

lemma sorted_head:
  assumes "sorted_wrt le (x # xs)" "sorted_wrt le (y # ys)"
    and eq: "\<And>a. filter (\<lambda>y. c a y = Equal) (x # xs) = filter (\<lambda>y. c a y = Equal) (y # ys)"
  shows "x = y"
proof -
  have mem: "z \<in> set (x # xs) \<longleftrightarrow> z \<in> set (y # ys)" for z
  proof -
    have "z \<in> set (filter (\<lambda>y. c z y = Equal) (x # xs)) \<longleftrightarrow> z \<in> set (filter (\<lambda>y. c z y = Equal) (y # ys))"
      by (simp only: eq)
    then show ?thesis unfolding set_filter by simp
  qed
  have "le x y" using mem [of y] assms(1) by auto
  moreover have "le y x" using mem [of x] assms(2) by auto
  ultimately have "c x y = Equal" using greater_iff [of y x] by (cases "c x y") auto
  then show ?thesis using eq [of x] by simp
qed

lemma sort_by_unique:
  assumes "sorted_wrt le ys" "\<And>a. filter (\<lambda>y. c a y = Equal) ys = filter (\<lambda>y. c a y = Equal) xs"
  shows "ys = sort_by c xs"
proof -
  have "ys = zs" if "sorted_wrt le zs" "\<And>a. filter (\<lambda>y. c a y = Equal) ys = filter (\<lambda>y. c a y = Equal) zs"
    for zs using assms(1) that
  proof (induction ys arbitrary: zs)
    case Nil
    have "z \<notin> set zs" for z using Nil(3) [of z] by (auto simp: filter_empty_conv eq_commute [of "[]"])
    then show ?case by (cases zs) auto
  next
    case (Cons y ys)
    obtain z zs' where zs: "zs = z # zs'"
      using Cons.prems(3) [of y] by (cases zs) auto
    have yz: "y = z" using sorted_head Cons.prems unfolding zs by metis
    have "ys = zs'"
    proof (rule Cons.IH)
      show "filter (\<lambda>y. c a y = Equal) ys = filter (\<lambda>y. c a y = Equal) zs'" for a
        using Cons.prems(3) [of a] by (auto simp: zs yz split: if_splits)
    qed (use Cons.prems zs in auto)
    with yz show ?case by (simp add: zs)
  qed
  then show ?thesis using sorted_sort_by stable_sort_by assms(2) by metis
qed

lemma oset_mem_ins: "oset_mem c x (ins_by c y s) \<longleftrightarrow> c x y = Equal \<or> oset_mem c x s"
  by (auto simp: oset_mem_def)

lemma oset_mem_cong: "c x y = Equal \<Longrightarrow> oset_mem c x s = oset_mem c y s"
  using equal [of x y] by (auto simp: oset_mem_def)

end

interpretation std_cmp: comparison "cmp :: 'a::linorder \<Rightarrow> 'a \<Rightarrow> ordering"
  by unfold_locales (rule cmp_laws_cmp)

end
