(* ===== verification/Floats.thy ===== *)
theory Floats
  imports Types Ordering
begin

text \<open>
  The IEEE-754 arithmetic that \<open>f32\<close> and \<open>f64\<close> have in Rust, on bit patterns. A format is its word length
  (32 or 64 bits), with 23 or 52 bits of significand. The finite number with magnitude bits \<open>m\<close> is the
  integer \<open>units m\<close> times the smallest positive number of the format, so sums, products and quotients are
  exact integer fractions, and every operation is one rounding, \<open>round_mag\<close>, to the nearest number with
  ties to even. Which bit pattern an operation without a numeric result produces is not specified by the
  language: it is the parameter \<open>nan\<close>.
\<close>

section \<open>Formats\<close>

definition fprec :: "'a::len itself \<Rightarrow> nat" where
  "fprec t = (if LENGTH('a) = 64 then 52 else 23)"

definition finf :: "'a::len itself \<Rightarrow> nat" where
  "finf t = (2 ^ (LENGTH('a) - 1 - fprec t) - 1) * 2 ^ fprec t"

text \<open>The smallest positive number of the format is two to the power of minus \<open>fscale\<close>.\<close>

definition fscale :: "'a::len itself \<Rightarrow> nat" where
  "fscale t = 2 ^ (LENGTH('a) - 2 - fprec t) - 2 + fprec t"

definition fsign :: "'a::len word \<Rightarrow> bool" where
  "fsign x \<longleftrightarrow> bit x (LENGTH('a) - 1)"

definition fmag :: "'a::len word \<Rightarrow> nat" where
  "fmag x = unat (take_bit (LENGTH('a) - 1) x)"

definition fmake :: "bool \<Rightarrow> nat \<Rightarrow> 'a::len word" where
  "fmake s m = of_nat (if s then m + 2 ^ (LENGTH('a) - 1) else m)"

definition is_nan :: "'a::len word \<Rightarrow> bool" where
  "is_nan x \<longleftrightarrow> finf TYPE('a) < fmag x"

definition is_inf :: "'a::len word \<Rightarrow> bool" where
  "is_inf x \<longleftrightarrow> fmag x = finf TYPE('a)"

definition is_finite :: "'a::len word \<Rightarrow> bool" where
  "is_finite x \<longleftrightarrow> fmag x < finf TYPE('a)"

section \<open>Rounding\<close>

fun bit_len :: "nat \<Rightarrow> nat" where
  "bit_len n = (if n = 0 then 0 else Suc (bit_len (n div 2)))"

declare bit_len.simps [simp del]

text \<open>The fraction \<open>p / q\<close> to the nearest integer, ties to even.\<close>

definition rne :: "nat \<Rightarrow> nat \<Rightarrow> nat" where
  "rne p q =
     (let d = p div q; r = p mod q in
      if q < 2 * r \<or> (2 * r = q \<and> odd d) then d + 1 else d)"

definition units :: "nat \<Rightarrow> nat \<Rightarrow> nat" where
  "units P m = (if m < 2 ^ P then m else (2 ^ P + m mod 2 ^ P) * 2 ^ (m div 2 ^ P - 1))"

text \<open>
  The magnitude bits of the number nearest to \<open>p / q\<close> units: \<open>s\<close> is the exponent above the subnormal
  range, and a significand that rounds up to the next power of two carries into the exponent.
\<close>

definition round_mag :: "nat \<Rightarrow> nat \<Rightarrow> nat \<Rightarrow> nat" where
  "round_mag P p q =
     (let s = bit_len (p div q) - (P + 1) in s * 2 ^ P + rne p (q * 2 ^ s))"

definition fround :: "bool \<Rightarrow> nat \<Rightarrow> nat \<Rightarrow> 'a::len word" where
  "fround s p q = fmake s (min (round_mag (fprec TYPE('a)) p q) (finf TYPE('a)))"

definition fval :: "'a::len word \<Rightarrow> int" where
  "fval x = (let u = int (units (fprec TYPE('a)) (fmag x)) in if fsign x then - u else u)"

section \<open>Arithmetic\<close>

datatype fop = FAdd | FSub | FMul | FDiv | FSqrt | FFma | FCast

type_synonym 'a nans = "fop \<Rightarrow> 'a word list \<Rightarrow> 'a word"

definition fneg :: "'a::len word \<Rightarrow> 'a word" where
  "fneg x = fmake (\<not> fsign x) (fmag x)"

definition fabs :: "'a::len word \<Rightarrow> 'a word" where
  "fabs x = fmake False (fmag x)"

definition fadd_with :: "'a::len word \<Rightarrow> 'a word \<Rightarrow> 'a word \<Rightarrow> 'a word" where
  "fadd_with n x y =
     (if is_nan x \<or> is_nan y then n
      else if is_inf x then (if is_inf y \<and> fsign x \<noteq> fsign y then n else x)
      else if is_inf y then y
      else
        let v = fval x + fval y in
        if v = 0 then fmake (fsign x \<and> fsign y) 0
        else fround (v < 0) (nat \<bar>v\<bar>) 1)"

definition fadd :: "'a::len nans \<Rightarrow> 'a word \<Rightarrow> 'a word \<Rightarrow> 'a word" where
  "fadd nan x y = fadd_with (nan FAdd [x, y]) x y"

definition fsub :: "'a::len nans \<Rightarrow> 'a word \<Rightarrow> 'a word \<Rightarrow> 'a word" where
  "fsub nan x y = fadd_with (nan FSub [x, y]) x (fneg y)"

definition fmul :: "'a::len nans \<Rightarrow> 'a word \<Rightarrow> 'a word \<Rightarrow> 'a word" where
  "fmul nan x y =
     (let s = (fsign x \<noteq> fsign y) in
      if is_nan x \<or> is_nan y then nan FMul [x, y]
      else if is_inf x \<or> is_inf y then
        (if fmag x = 0 \<or> fmag y = 0 then nan FMul [x, y] else fmake s (finf TYPE('a)))
      else fround s (nat \<bar>fval x * fval y\<bar>) (2 ^ fscale TYPE('a)))"

definition fdiv :: "'a::len nans \<Rightarrow> 'a word \<Rightarrow> 'a word \<Rightarrow> 'a word" where
  "fdiv nan x y =
     (let s = (fsign x \<noteq> fsign y) in
      if is_nan x \<or> is_nan y then nan FDiv [x, y]
      else if is_inf x then (if is_inf y then nan FDiv [x, y] else fmake s (finf TYPE('a)))
      else if is_inf y then fmake s 0
      else if fmag y = 0 then
        (if fmag x = 0 then nan FDiv [x, y] else fmake s (finf TYPE('a)))
      else fround s (nat \<bar>fval x\<bar> * 2 ^ fscale TYPE('a)) (nat \<bar>fval y\<bar>))"

text \<open>\<open>x * y + z\<close> with one rounding.\<close>

definition ffma :: "'a::len nans \<Rightarrow> 'a word \<Rightarrow> 'a word \<Rightarrow> 'a word \<Rightarrow> 'a word" where
  "ffma nan x y z =
     (let s = (fsign x \<noteq> fsign y); n = nan FFma [x, y, z] in
      if is_nan x \<or> is_nan y \<or> is_nan z then n
      else if is_inf x \<or> is_inf y then
        (if fmag x = 0 \<or> fmag y = 0 \<or> (is_inf z \<and> fsign z \<noteq> s) then n
         else fmake s (finf TYPE('a)))
      else if is_inf z then z
      else
        let v = fval x * fval y + fval z * 2 ^ fscale TYPE('a) in
        if v = 0 then fmake (s \<and> fsign z) 0
        else fround (v < 0) (nat \<bar>v\<bar>) (2 ^ fscale TYPE('a)))"

text \<open>The largest integer whose square is at most \<open>n\<close>, bit by bit from the top.\<close>

fun isqrt_bits :: "nat \<Rightarrow> nat \<Rightarrow> nat \<Rightarrow> nat" where
  "isqrt_bits 0 n r = r"
| "isqrt_bits (Suc b) n r =
     isqrt_bits b n (if (r + 2 ^ b) * (r + 2 ^ b) \<le> n then r + 2 ^ b else r)"

definition isqrt :: "nat \<Rightarrow> nat" where
  "isqrt n = isqrt_bits (bit_len n) n 0"

text \<open>
  The square root of \<open>n\<close>, rounded to \<open>P + 1\<close> significant bits: one extra bit of the integer root and
  whether it is exact decide the rounding.
\<close>

definition round_sqrt :: "nat \<Rightarrow> nat \<Rightarrow> nat" where
  "round_sqrt P n =
     (let s = bit_len (isqrt n) - (P + 1); t = isqrt (4 * n) in
      s * 2 ^ P + (if t * t = 4 * n then rne t (2 * 2 ^ s)
                   else rne (2 * t + 1) (4 * 2 ^ s)))"

definition fsqrt :: "'a::len nans \<Rightarrow> 'a word \<Rightarrow> 'a word" where
  "fsqrt nan x =
     (if is_nan x then nan FSqrt [x]
      else if fmag x = 0 then x
      else if fsign x then nan FSqrt [x]
      else if is_inf x then x
      else fmake False (round_sqrt (fprec TYPE('a)) (nat (fval x) * 2 ^ fscale TYPE('a))))"

section \<open>Comparison\<close>

text \<open>\<open>PartialOrd\<close>: nothing compares to a NaN, and the two zeros are equal.\<close>

definition fkey :: "'a::len word \<Rightarrow> int" where
  "fkey x = (if fsign x then - int (fmag x) else int (fmag x))"

definition fpartial_cmp :: "'a::len word \<Rightarrow> 'a word \<Rightarrow> ordering option" where
  "fpartial_cmp x y = (if is_nan x \<or> is_nan y then None else Some (cmp (fkey x) (fkey y)))"

definition feq :: "'a::len word \<Rightarrow> 'a word \<Rightarrow> bool" where
  "feq x y \<longleftrightarrow> fpartial_cmp x y = Some Equal"

definition flt :: "'a::len word \<Rightarrow> 'a word \<Rightarrow> bool" where
  "flt x y \<longleftrightarrow> fpartial_cmp x y = Some Less"

definition fle :: "'a::len word \<Rightarrow> 'a word \<Rightarrow> bool" where
  "fle x y \<longleftrightarrow> flt x y \<or> feq x y"

text \<open>\<open>f64::total_cmp\<close>: the bits of a negative number are flipped and all are compared as integers.\<close>

definition ftotal_key :: "'a::len word \<Rightarrow> int" where
  "ftotal_key x = (if fsign x then - 1 - int (fmag x) else int (fmag x))"

definition ftotal_cmp :: "'a::len word \<Rightarrow> 'a word \<Rightarrow> ordering" where
  "ftotal_cmp x y = cmp (ftotal_key x) (ftotal_key y)"

section \<open>Casts\<close>

text \<open>An integer \<open>as\<close> a float, and back: truncated towards zero and saturating, NaN as zero.\<close>

definition f_of_int :: "int \<Rightarrow> 'a::len word" where
  "f_of_int i = fround (i < 0) (nat \<bar>i\<bar> * 2 ^ fscale TYPE('a)) 1"

definition int_of_f :: "int \<Rightarrow> int \<Rightarrow> 'a::len word \<Rightarrow> int" where
  "int_of_f lo hi x =
     (if is_nan x then 0
      else if is_inf x then (if fsign x then lo else hi)
      else
        let t = int (nat \<bar>fval x\<bar> div 2 ^ fscale TYPE('a)) in
        max lo (min hi (if fsign x then - t else t)))"

definition f64_of_f32 :: "64 nans \<Rightarrow> f32 \<Rightarrow> f64" where
  "f64_of_f32 nan x =
     (if is_nan x then nan FCast [ucast x]
      else if is_inf x then fmake (fsign x) (finf TYPE(64))
      else fround (fsign x) (nat \<bar>fval x\<bar> * 2 ^ (fscale TYPE(64) - fscale TYPE(32))) 1)"

definition f32_of_f64 :: "32 nans \<Rightarrow> f64 \<Rightarrow> f32" where
  "f32_of_f64 nan x =
     (if is_nan x then nan FCast [ucast x]
      else if is_inf x then fmake (fsign x) (finf TYPE(32))
      else fround (fsign x) (nat \<bar>fval x\<bar>) (2 ^ (fscale TYPE(64) - fscale TYPE(32))))"

section \<open>Rounding is exact on representable values and monotone\<close>

lemma bit_len_0 [simp]: "bit_len 0 = 0"
  by (simp add: bit_len.simps)

lemma bit_len_pos: "0 < n \<Longrightarrow> bit_len n = Suc (bit_len (n div 2))"
  by (simp add: bit_len.simps [of n])

lemma bit_len_bounds: "0 < n \<Longrightarrow> 2 ^ (bit_len n - 1) \<le> n \<and> n < 2 ^ bit_len n"
proof (induction n rule: bit_len.induct)
  case (1 n)
  show ?case
  proof (cases "n div 2 = 0")
    case True
    then have "n = 1" using 1 by auto
    then show ?thesis by (simp add: bit_len_pos)
  next
    case False
    then have ih: "2 ^ (bit_len (n div 2) - 1) \<le> n div 2" "n div 2 < 2 ^ bit_len (n div 2)"
      and pos: "0 < bit_len (n div 2)"
      using 1 by (auto simp: bit_len_pos)
    have "2 * 2 ^ (bit_len (n div 2) - 1) \<le> n" using ih(1) by linarith
    moreover have "n < 2 * 2 ^ bit_len (n div 2)" using ih(2) by linarith
    ultimately show ?thesis using pos 1 by (cases "bit_len (n div 2)") (auto simp: bit_len_pos)
  qed
qed

lemma bit_len_le_iff: "bit_len n \<le> k \<longleftrightarrow> n < 2 ^ k"
proof (cases "n = 0")
  case False
  then have b: "2 ^ (bit_len n - 1) \<le> n" "n < 2 ^ bit_len n" using bit_len_bounds by auto
  have pos: "0 < bit_len n" using False by (simp add: bit_len_pos)
  show ?thesis
  proof
    assume "bit_len n \<le> k"
    then have "(2::nat) ^ bit_len n \<le> 2 ^ k" by simp
    with b(2) show "n < 2 ^ k" by linarith
  next
    assume "n < 2 ^ k"
    with b(1) have "(2::nat) ^ (bit_len n - 1) < 2 ^ k" by linarith
    then show "bit_len n \<le> k" using pos by simp
  qed
qed simp

lemma bit_len_mono: "m \<le> n \<Longrightarrow> bit_len m \<le> bit_len n"
  using bit_len_le_iff [of n "bit_len n"] bit_len_le_iff [of m "bit_len n"] by simp

lemma div_cross_mono:
  fixes p q :: nat
  assumes "0 < q" "0 < q'" "p * q' \<le> p' * q"
  shows "p div q \<le> p' div q'"
proof -
  have "p div q * q * q' \<le> p * q'" by (simp add: mult_right_mono)
  also have "\<dots> \<le> p' * q" by (rule assms)
  finally have "p div q * q' * q \<le> p' * q" by (simp add: mult.commute mult.left_commute)
  then have "p div q * q' \<le> p'" using assms by simp
  then show ?thesis using assms by (simp add: less_eq_div_iff_mult_less_eq)
qed

lemma rne_mono:
  assumes q: "0 < q" "0 < q'" and le: "p * q' \<le> p' * q"
  shows "rne p q \<le> rne p' q'"
proof (cases "p div q = p' div q'")
  case False
  then have "p div q < p' div q'" using div_cross_mono [OF assms] by simp
  moreover have "rne p q \<le> p div q + 1" "p' div q' \<le> rne p' q'" by (simp_all add: rne_def Let_def)
  ultimately show ?thesis by simp
next
  case True
  let ?d = "p div q" and ?r = "p mod q" and ?r' = "p' mod q'"
  have "p * q' = ?d * q * q' + ?r * q'" "p' * q = ?d * q * q' + ?r' * q"
    using div_mult_mod_eq [of p q] div_mult_mod_eq [of p' q'] True
    by (metis distrib_right mult.commute mult.left_commute)+
  with le have r: "?r * q' \<le> ?r' * q" by simp
  have up: "q' < 2 * ?r'" if "q < 2 * ?r"
  proof -
    have "q * q' < 2 * ?r * q'" using that q by simp
    also have "\<dots> \<le> 2 * ?r' * q" using r by simp
    finally show ?thesis using q by (simp add: mult.commute)
  qed
  have tie: "q' \<le> 2 * ?r'" if "2 * ?r = q"
  proof -
    have "q * q' = 2 * ?r * q'" using that by simp
    also have "\<dots> \<le> 2 * ?r' * q" using r by simp
    finally show ?thesis using q by (simp add: mult.commute)
  qed
  show ?thesis using up tie True by (fastforce simp: rne_def Let_def)
qed

lemma rne_exact [simp]: "0 < q \<Longrightarrow> rne (k * q) q = k"
  by (simp add: rne_def)

lemma rne_1 [simp]: "rne p (Suc 0) = p"
  by (simp add: rne_def)

lemma rne_le: "0 < q \<Longrightarrow> p \<le> k * q \<Longrightarrow> rne p q \<le> k"
  using rne_mono [of q q p "k * q"] by simp

lemma rne_ge: "0 < q \<Longrightarrow> k * q \<le> p \<Longrightarrow> k \<le> rne p q"
  using rne_mono [of q q "k * q" p] by simp

lemma round_mag_mono:
  assumes q: "0 < q" "0 < q'" and le: "p * q' \<le> p' * q"
  shows "round_mag P p q \<le> round_mag P p' q'"
proof -
  let ?n = "p div q" and ?n' = "p' div q'"
  define s where "s = bit_len ?n - (P + 1)"
  define s' where "s' = bit_len ?n' - (P + 1)"
  have ss: "s \<le> s'"
    using bit_len_mono [OF div_cross_mono [OF assms]] by (simp add: s_def s'_def)
  have out: "round_mag P p q = s * 2 ^ P + rne p (q * 2 ^ s)"
    "round_mag P p' q' = s' * 2 ^ P + rne p' (q' * 2 ^ s')"
    by (simp_all add: round_mag_def s_def s'_def Let_def)
  show ?thesis
  proof (cases "s = s'")
    case True
    have "rne p (q * 2 ^ s) \<le> rne p' (q' * 2 ^ s)"
      by (rule rne_mono) (use q le in \<open>simp_all add: mult.assoc [symmetric]\<close>)
    then show ?thesis by (simp add: out True)
  next
    case False
    then have lt: "Suc s \<le> s'" using ss by simp
    have "?n < 2 ^ (s + P + 1)" unfolding bit_len_le_iff [symmetric] by (simp add: s_def)
    then have "p < 2 ^ (s + P + 1) * q" using q by (simp add: div_less_iff_less_mult)
    then have lo: "rne p (q * 2 ^ s) \<le> 2 * 2 ^ P"
      by (intro rne_le) (use q in \<open>simp_all add: power_add mult.commute mult.left_commute\<close>)
    have "0 < s'" using lt by simp
    then have len: "bit_len ?n' = s' + P + 1" by (simp add: s'_def)
    then have "0 < ?n'" by (metis add_gr_0 bit_len_0 gr0I less_numeral_extra(1) not_less0)
    then have "2 ^ (s' + P) \<le> ?n'" using bit_len_bounds [of ?n'] by (simp add: len)
    then have "2 ^ (s' + P) * q' \<le> p'" using q by (simp add: less_eq_div_iff_mult_less_eq)
    then have hi: "2 ^ P \<le> rne p' (q' * 2 ^ s')"
      by (intro rne_ge) (use q in \<open>simp_all add: power_add mult.commute mult.left_commute\<close>)
    have "s * 2 ^ P + 2 * 2 ^ P = Suc s * 2 ^ P + 2 ^ P" by simp
    also have "\<dots> \<le> s' * 2 ^ P + 2 ^ P" using lt by (simp add: mult_right_mono del: mult_Suc)
    finally show ?thesis using lo hi by (simp add: out)
  qed
qed

lemma bit_len_eqI: "2 ^ k \<le> n \<Longrightarrow> n < 2 ^ Suc k \<Longrightarrow> bit_len n = Suc k"
  using bit_len_le_iff [of n k] bit_len_le_iff [of n "Suc k"] by linarith

lemma round_units: "round_mag P (units P m) (Suc 0) = m"
proof (cases "m < 2 ^ P")
  case True
  then have "bit_len m \<le> P" by (simp add: bit_len_le_iff)
  then show ?thesis using True by (simp add: units_def round_mag_def)
next
  case False
  define e where "e = m div 2 ^ P - 1"
  define f where "f = m mod 2 ^ P"
  have "1 \<le> m div 2 ^ P" using False by (simp add: less_eq_div_iff_mult_less_eq)
  then have "e + 1 = m div 2 ^ P" by (simp add: e_def)
  then have m: "m = (e + 1) * 2 ^ P + f" unfolding f_def by (metis div_mult_mod_eq)
  have f: "f < 2 ^ P" by (simp add: f_def)
  have u: "units P m = (2 ^ P + f) * 2 ^ e" using False by (simp add: units_def e_def f_def)
  have "bit_len (units P m) = Suc (P + e)"
  proof (rule bit_len_eqI)
    show "2 ^ (P + e) \<le> units P m" by (simp add: u power_add)
    have "units P m < (2 * 2 ^ P) * 2 ^ e" unfolding u using f by simp
    then show "units P m < 2 ^ Suc (P + e)" by (simp add: power_add)
  qed
  then have "round_mag P (units P m) (Suc 0) = e * 2 ^ P + rne ((2 ^ P + f) * 2 ^ e) (2 ^ e)"
    by (simp add: round_mag_def u Let_def)
  then show ?thesis by (simp add: m)
qed

lemma units_mono: "units P m \<le> units P n \<longleftrightarrow> m \<le> n"
proof
  assume "units P m \<le> units P n"
  then have "round_mag P (units P m) 1 \<le> round_mag P (units P n) 1" by (intro round_mag_mono) auto
  then show "m \<le> n" by (simp add: round_units)
next
  assume mn: "m \<le> n"
  show "units P m \<le> units P n"
  proof (rule ccontr)
    assume "\<not> ?thesis"
    then have "round_mag P (units P n) 1 \<le> round_mag P (units P m) 1" by (intro round_mag_mono) auto
    then have "n = m" using mn by (simp add: round_units)
    with \<open>\<not> ?thesis\<close> show False by simp
  qed
qed

lemma units_less: "units P m < units P n \<longleftrightarrow> m < n"
  using units_mono [of P n m] by (simp add: not_le [symmetric])

lemma units_0 [simp]: "units P 0 = 0"
  by (simp add: units_def)

lemma units_eq_0 [simp]: "units P m = 0 \<longleftrightarrow> m = 0"
  using units_less [of P 0 m] by auto

section \<open>Words as numbers\<close>

definition float_len :: "'a::len itself \<Rightarrow> bool" where
  "float_len t \<longleftrightarrow> LENGTH('a) = 32 \<or> LENGTH('a) = 64"

lemma float_lenD:
  assumes "float_len TYPE('a::len)"
  shows "finf TYPE('a) < 2 ^ (LENGTH('a) - 1)" "fprec TYPE('a) + 2 < LENGTH('a)" "2 \<le> LENGTH('a)"
  using assms by (auto simp: float_len_def finf_def fprec_def)

lemma float_len_simps [simp]: "float_len TYPE(32)" "float_len TYPE(64)"
  by (simp_all add: float_len_def)

lemma fmag_less: "fmag (x::'a::len word) < 2 ^ (LENGTH('a) - 1)"
  by (simp add: fmag_def unsigned_take_bit_eq take_bit_nat_less_exp)

lemma fsign_fmag: "unat (x::'a::len word) = fmag x + (if fsign x then 2 ^ (LENGTH('a) - 1) else 0)"
proof -
  let ?n = "LENGTH('a) - 1"
  have len: "Suc ?n = LENGTH('a)" by simp
  have "unat x = take_bit (Suc ?n) (unat x)" unfolding len by (simp add: take_bit_nat_eq_self)
  also have "\<dots> = take_bit ?n (unat x) + (if bit (unat x) ?n then 2 ^ ?n else 0)"
    by (simp only: take_bit_Suc_from_most of_bool_def) simp
  finally show ?thesis
    by (simp add: fmag_def fsign_def unsigned_take_bit_eq bit_unsigned_iff)
qed

lemma fmake_sign_mag [simp]: "fmake (fsign x) (fmag x) = (x::'a::len word)"
proof -
  have "fmake (fsign x) (fmag x) = (of_nat (unat x) :: 'a word)"
    unfolding fsign_fmag [of x] by (simp add: fmake_def)
  then show ?thesis by simp
qed

lemma float_eqI: "fsign x = fsign y \<Longrightarrow> fmag x = fmag y \<Longrightarrow> x = (y::'a::len word)"
  by (rule trans [OF fmake_sign_mag [symmetric]]) (simp only: fmake_sign_mag)

lemma fmake_parts:
  assumes "m < 2 ^ (LENGTH('a::len) - 1)"
  shows "fmag (fmake s m :: 'a word) = m" "fsign (fmake s m :: 'a word) = s"
proof -
  let ?N = "2 ^ (LENGTH('a) - 1) :: nat" and ?w = "fmake s m :: 'a word"
  have two: "2 * ?N = 2 ^ LENGTH('a)" by (metis One_nat_def len_gt_0 Suc_pred power_Suc)
  have "m + ?N < 2 ^ LENGTH('a)" using assms two by linarith
  then have "unat ?w = m + (if s then ?N else 0)"
    using assms by (auto simp: fmake_def unat_of_nat take_bit_nat_eq_self)
  moreover note fsign_fmag [of ?w] fmag_less [of ?w]
  ultimately show "fmag ?w = m" "fsign ?w = s"
    using assms by (auto split: if_splits)
qed

lemma fround_mag:
  assumes "float_len TYPE('a::len)"
  shows "fmag (fround s p q :: 'a word) = min (round_mag (fprec TYPE('a)) p q) (finf TYPE('a))"
    "fsign (fround s p q :: 'a word) = s"
  unfolding fround_def
  by (rule fmake_parts, use float_lenD(1) [OF assms] in simp)+

lemma ftotal_key_inj: "ftotal_key x = ftotal_key y \<Longrightarrow> x = (y::'a::len word)"
  by (rule float_eqI) (auto simp: ftotal_key_def split: if_splits)

lemma ftotal_cmp_Equal [simp]: "ftotal_cmp x y = Equal \<longleftrightarrow> x = y"
  by (auto simp: ftotal_cmp_def cmp_iff dest: ftotal_key_inj)

text \<open>An integer converts to a float monotonically, with respect to the total order of floats.\<close>

lemma f_of_int_sign:
  assumes "float_len TYPE('a::len)"
  shows "fsign (f_of_int i :: 'a word) \<longleftrightarrow> i < 0"
    "fmag (f_of_int i :: 'a word) =
       min (round_mag (fprec TYPE('a)) (nat \<bar>i\<bar> * 2 ^ fscale TYPE('a)) 1) (finf TYPE('a))"
  by (simp_all add: f_of_int_def fround_mag [OF assms])

lemma f_of_int_mono:
  assumes fl: "float_len TYPE('a::len)" and "i \<le> j"
  shows "ftotal_key (f_of_int i :: 'a word) \<le> ftotal_key (f_of_int j :: 'a word)"
proof -
  note sm = f_of_int_sign [OF fl]
  have mag: "fmag (f_of_int a :: 'a word) \<le> fmag (f_of_int b :: 'a word)"
    if "\<bar>a\<bar> \<le> \<bar>b\<bar>" for a b :: int
    unfolding sm by (intro min.mono round_mag_mono order_refl) (use that in \<open>auto intro!: nat_mono\<close>)
  have "\<bar>i\<bar> \<le> \<bar>j\<bar>" if "0 \<le> i" using that assms by simp
  moreover have "\<bar>j\<bar> \<le> \<bar>i\<bar>" if "j < 0" using that assms by simp
  ultimately show ?thesis
    using mag [of i j] mag [of j i] sm(1) [of i] sm(1) [of j] assms(2)
    by (auto simp: ftotal_key_def)
qed

section \<open>Values and their rounding\<close>

definition fround_int :: "int \<Rightarrow> 'a::len word" where
  "fround_int v = fround (v < 0) (nat \<bar>v\<bar>) 1"

lemma fround_int_mono:
  assumes fl: "float_len TYPE('a::len)" and "i \<le> j"
  shows "ftotal_key (fround_int i :: 'a word) \<le> ftotal_key (fround_int j :: 'a word)"
proof -
  note sm = fround_mag [OF fl]
  have mag: "fmag (fround_int a :: 'a word) \<le> fmag (fround_int b :: 'a word)"
    if "\<bar>a\<bar> \<le> \<bar>b\<bar>" for a b :: int
    unfolding fround_int_def sm
    by (intro min.mono round_mag_mono order_refl) (use that in \<open>auto intro!: nat_mono\<close>)
  have "\<bar>i\<bar> \<le> \<bar>j\<bar>" if "0 \<le> i" using that assms by simp
  moreover have "\<bar>j\<bar> \<le> \<bar>i\<bar>" if "j < 0" using that assms by simp
  ultimately show ?thesis
    using mag [of i j] mag [of j i] assms(2)
    by (auto simp: ftotal_key_def fround_int_def sm(2))
qed

lemma f_of_int_round: "f_of_int i = (fround_int (i * 2 ^ fscale TYPE('a)) :: 'a::len word)"
  by (simp add: f_of_int_def fround_int_def abs_mult nat_mult_distrib nat_power_eq mult_less_0_iff)

lemma fval_parts: "fval (x::'a::len word) = (if fsign x then -1 else 1) * int (units (fprec TYPE('a)) (fmag x))"
  by (simp add: fval_def Let_def)

lemma fround_int_fval:
  fixes y :: "'a::len word"
  assumes fl: "float_len TYPE('a)" and "is_finite y"
  shows "(fround_int (fval y) :: 'a word) = (if fmag y = 0 then fmake False 0 else y)"
proof -
  let ?u = "units (fprec TYPE('a)) (fmag y)"
  have "nat \<bar>fval y\<bar> = ?u" by (simp add: fval_parts)
  then have "fmag (fround_int (fval y) :: 'a word) = fmag y"
    using assms by (simp add: fround_int_def fround_mag [OF fl] round_units is_finite_def)
  moreover have "fsign (fround_int (fval y) :: 'a word) \<longleftrightarrow> fsign y \<and> fmag y \<noteq> 0"
    by (simp add: fround_int_def fround_mag [OF fl]) (simp add: fval_parts neq0_conv [symmetric] del: neq0_conv)
  moreover have "fmag (fmake False 0 :: 'a word) = 0" "\<not> fsign (fmake False 0 :: 'a word)"
    by (simp_all add: fmake_parts)
  ultimately show ?thesis by (auto intro: float_eqI)
qed

text \<open>Where the nearest float of a value lies decides how the value compares with another float.\<close>

lemma round_below:
  fixes y :: "'a::len word"
  assumes fl: "float_len TYPE('a)" and fin: "is_finite y"
    and lt: "ftotal_key (fround_int v :: 'a word) < ftotal_key y"
  shows "v < fval y"
proof (rule ccontr)
  assume "\<not> v < fval y"
  then have "ftotal_key (fround_int (fval y) :: 'a word) \<le> ftotal_key (fround_int v :: 'a word)"
    by (intro fround_int_mono fl) simp
  with lt have "ftotal_key (fround_int (fval y) :: 'a word) < ftotal_key y" by simp
  then show False
    by (auto simp: fround_int_fval [OF fl fin] ftotal_key_def fmake_parts split: if_splits)
qed

lemma round_above:
  fixes y :: "'a::len word"
  assumes fl: "float_len TYPE('a)" and fin: "is_finite y"
    and lt: "ftotal_key y < ftotal_key (fround_int v :: 'a word)"
  shows "fval y < v \<or> y = fmake True 0 \<and> v = 0"
proof (rule disjCI, rule ccontr)
  assume zero: "\<not> (y = fmake True 0 \<and> v = 0)" and "\<not> fval y < v"
  then have le: "ftotal_key (fround_int v :: 'a word) \<le> ftotal_key (fround_int (fval y) :: 'a word)"
    by (intro fround_int_mono fl) simp
  show False
  proof (cases "fmag y = 0 \<and> fsign y")
    case False
    then have "fround_int (fval y) = y"
      by (auto simp: fround_int_fval [OF fl fin] fmake_parts intro!: float_eqI)
    with le lt show False by simp
  next
    case True
    then have y: "y = fmake True 0" by (intro float_eqI) (simp_all add: fmake_parts)
    then have "fval y = 0" using True by (simp add: fval_parts)
    with \<open>\<not> fval y < v\<close> have "v \<le> 0" by simp
    moreover have "\<not> v < 0"
    proof
      assume "v < 0"
      then have "fsign (fround_int v :: 'a word)" by (simp add: fround_int_def fround_mag [OF fl])
      with lt True show False by (simp add: ftotal_key_def)
    qed
    ultimately show False using zero y by simp
  qed
qed

lemma units_round:
  "units P (round_mag P p 1) =
     (let s = bit_len p - (P + 1) in rne p (2 ^ s) * 2 ^ s)"
proof -
  define s where "s = bit_len p - (P + 1)"
  define k where "k = rne p (2 ^ s)"
  have m: "round_mag P p 1 = s * 2 ^ P + k" by (simp add: round_mag_def s_def k_def Let_def)
  have "p < 2 ^ (s + P + 1)" unfolding bit_len_le_iff [symmetric] by (simp add: s_def)
  then have hi: "k \<le> 2 * 2 ^ P"
    unfolding k_def by (intro rne_le) (simp_all add: power_add mult.commute mult.left_commute)
  have "units P (s * 2 ^ P + k) = k * 2 ^ s"
  proof (cases "s = 0")
    case True
    have "k = p" by (simp add: k_def True)
    moreover have "p < 2 * 2 ^ P" using \<open>p < 2 ^ (s + P + 1)\<close> by (simp add: True)
    ultimately show ?thesis
      by (auto simp: True units_def not_less le_mod_geq less_diff_conv2 div_if)
  next
    case False
    then have "bit_len p = s + P + 1" by (simp add: s_def)
    then have "2 ^ (s + P) \<le> p"
      using bit_len_bounds [of p] by (cases "p = 0") auto
    then have lo: "2 ^ P \<le> k"
      unfolding k_def by (intro rne_ge) (simp_all add: power_add mult.commute)
    show ?thesis
    proof (cases "k = 2 * 2 ^ P")
      case True
      have "s * 2 ^ P + k = (s + 2) * 2 ^ P" by (simp add: True algebra_simps)
      then show ?thesis by (simp add: units_def True)
    next
      case False
      define f where "f = k - 2 ^ P"
      have f: "f < 2 ^ P" "k = 2 ^ P + f" using lo hi False by (auto simp: f_def)
      have eq: "s * 2 ^ P + k = f + (s + 1) * 2 ^ P" by (simp add: f algebra_simps)
      have "(s * 2 ^ P + k) div 2 ^ P = s + 1" "(s * 2 ^ P + k) mod 2 ^ P = f"
        unfolding eq using f(1) by (simp_all del: add_Suc_right mult_Suc)
      then show ?thesis using f by (simp add: units_def)
    qed
  qed
  then show ?thesis by (simp only: m) (simp add: s_def k_def Let_def)
qed

lemma units_round_multiple:
  "\<exists>t. units P (round_mag P (n * 2 ^ S) 1) = t * 2 ^ S"
proof -
  define s where "s = bit_len (n * 2 ^ S) - (P + 1)"
  have u: "units P (round_mag P (n * 2 ^ S) 1) = rne (n * 2 ^ S) (2 ^ s) * 2 ^ s"
    using units_round [of P "n * 2 ^ S"] by (simp only: s_def Let_def)
  show ?thesis
  proof (cases "s \<le> S")
    case True
    then have "n * 2 ^ S = n * 2 ^ (S - s) * 2 ^ s" by (simp add: power_add [symmetric])
    then have "rne (n * 2 ^ S) (2 ^ s) = n * 2 ^ (S - s)" by (metis rne_exact zero_less_numeral zero_less_power)
    then have "rne (n * 2 ^ S) (2 ^ s) * 2 ^ s = n * 2 ^ S" using True by (simp add: power_add [symmetric])
    then show ?thesis unfolding u by blast
  next
    case False
    then have "rne (n * 2 ^ S) (2 ^ s) * 2 ^ s = rne (n * 2 ^ S) (2 ^ s) * 2 ^ (s - S) * 2 ^ S"
      by (simp add: power_add [symmetric])
    then show ?thesis unfolding u by metis
  qed
qed

lemma fkey_fval:
  fixes x y :: "'a::len word"
  shows "fkey x \<le> fkey y \<longleftrightarrow> fval x \<le> fval y"
proof -
  let ?P = "fprec TYPE('a)"
  have "- int (units ?P m) \<le> int (units ?P n)" "- int m \<le> int n" for m n by simp_all
  moreover have "int (units ?P m) \<le> - int (units ?P n) \<longleftrightarrow> m = 0 \<and> n = 0" for m n
    using units_eq_0 [of ?P m] units_eq_0 [of ?P n] by linarith
  moreover have "int m \<le> - int n \<longleftrightarrow> m = 0 \<and> n = 0" for m n by linarith
  ultimately show ?thesis by (auto simp: fkey_def fval_parts units_mono)
qed

end
