(* ===== verification/Vector_Metric.thy ===== *)
theory Vector_Metric
  imports Graph_Meta Comparison Floats
begin

text \<open>
  \<open>storage/vector.rs\<close>: the similarity metrics with their scalar, AVX2 and NEON kernels, the bounded-heap
  \<open>top_k\<close> and the exact \<open>BruteForceIndex\<close>. What the machine and the standard library leave open is the
  parameter \<open>fenv\<close>: the bit patterns of NaN results, the instruction set that is detected, the decimal
  rendering of a float, and which of several equally great elements a \<open>BinaryHeap\<close> removes first and the
  order in which it lists its elements.
\<close>

datatype simd = Avx2Fma | NeonFma | NoSimd

record fenv =
  fe_nan64 :: "64 nans"
  fe_nan32 :: "32 nans"
  fe_simd :: simd
  fe_display :: "f64 \<Rightarrow> str"
  fe_pick :: "(u64 \<times> f32) list \<Rightarrow> nat"
  fe_iter :: "(u64 \<times> f32) list \<Rightarrow> nat"

abbreviation fzero :: "'a::len word" where "fzero \<equiv> fmake False 0"
abbreviation fneg_zero :: "'a::len word" where "fneg_zero \<equiv> fmake True 0"
abbreviation fone :: "'a::len word" where "fone \<equiv> f_of_int 1"

section \<open>Kernels\<close>

text \<open>\<open>iter().sum()\<close> starts from the neutral element of addition, minus zero.\<close>

definition fsum :: "'a::len nans \<Rightarrow> 'a word list \<Rightarrow> 'a word" where
  "fsum nan xs = foldl (fadd nan) fneg_zero xs"

text \<open>
  Every kernel accumulates products \<open>u * v\<close> where \<open>(u, v) = f x y\<close>: the two elements for the dot product,
  their difference twice for the squared distance.
\<close>

type_synonym factors = "f32 \<Rightarrow> f32 \<Rightarrow> f32 \<times> f32"

definition dot_factors :: factors where
  "dot_factors x y = (x, y)"

definition l2_factors :: "fenv \<Rightarrow> factors" where
  "l2_factors E x y = (let d = fsub (fe_nan32 E) x y in (d, d))"

text \<open>A vector register is the list of its lanes.\<close>

definition lanes_fma :: "fenv \<Rightarrow> factors \<Rightarrow> f32 list \<Rightarrow> f32 list \<Rightarrow> f32 list \<Rightarrow> f32 list" where
  "lanes_fma E f xs ys acc =
     map2 (\<lambda>(x, y) c. case f x y of (u, v) \<Rightarrow> ffma (fe_nan32 E) u v c) (zip xs ys) acc"

definition lanes_add :: "fenv \<Rightarrow> f32 list \<Rightarrow> f32 list \<Rightarrow> f32 list" where
  "lanes_add E xs ys = map2 (fadd (fe_nan32 E)) xs ys"

text \<open>
  The main loop: while a full block of all accumulators is left, each accumulator takes its own lanes
  of the block.
\<close>

function kernel_main ::
    "fenv \<Rightarrow> factors \<Rightarrow> nat \<Rightarrow> f32 list list \<Rightarrow> f32 list \<Rightarrow> f32 list \<Rightarrow>
     f32 list list \<times> f32 list \<times> f32 list" where
  "kernel_main E f w accs a b =
     (let block = w * length accs in
      if 0 < block \<and> block \<le> length a then
        kernel_main E f w
          (map (\<lambda>(j, acc). lanes_fma E f (take w (drop (j * w) a)) (take w (drop (j * w) b)) acc)
            (enumerate 0 accs))
          (drop block a) (drop block b)
      else (accs, a, b))"
  by auto
termination by (relation "measure (\<lambda>(E, f, w, accs, a, b). length a)") (auto intro!: diff_less)

declare kernel_main.simps [simp del]

text \<open>Then the full registers that are left, on the folded accumulator.\<close>

function kernel_blocks ::
    "fenv \<Rightarrow> factors \<Rightarrow> nat \<Rightarrow> f32 list \<Rightarrow> f32 list \<Rightarrow> f32 list \<Rightarrow>
     f32 list \<times> f32 list \<times> f32 list" where
  "kernel_blocks E f w acc a b =
     (if 0 < w \<and> w \<le> length a then
        kernel_blocks E f w (lanes_fma E f (take w a) (take w b) acc) (drop w a) (drop w b)
      else (acc, a, b))"
  by auto
termination by (relation "measure (\<lambda>(E, f, w, acc, a, b). length a)") (auto intro!: diff_less)

declare kernel_blocks.simps [simp del]

text \<open>And the scalar tail.\<close>

definition kernel_tail :: "fenv \<Rightarrow> factors \<Rightarrow> f32 \<Rightarrow> f32 list \<Rightarrow> f32 list \<Rightarrow> f32" where
  "kernel_tail E f s0 a b =
     foldl (\<lambda>s (x, y). case f x y of (u, v) \<Rightarrow> fadd (fe_nan32 E) s (fmul (fe_nan32 E) u v)) s0 (zip a b)"

definition kernel_avx2 :: "fenv \<Rightarrow> factors \<Rightarrow> f32 list \<Rightarrow> f32 list \<Rightarrow> f32" where
  "kernel_avx2 E f a b =
     (let (accs, a1, b1) = kernel_main E f 8 (replicate 4 (replicate 8 fzero)) a b;
          acc = lanes_add E (lanes_add E (accs ! 0) (accs ! 1)) (lanes_add E (accs ! 2) (accs ! 3));
          (acc', a2, b2) = kernel_blocks E f 8 acc a1 b1
      in kernel_tail E f (fsum (fe_nan32 E) acc') a2 b2)"

definition kernel_neon :: "fenv \<Rightarrow> factors \<Rightarrow> f32 list \<Rightarrow> f32 list \<Rightarrow> f32" where
  "kernel_neon E f a b =
     (let add = lanes_add E;
          (accs, a1, b1) = kernel_main E f 4 (replicate 8 (replicate 4 fzero)) a b;
          folded = add (add (add (accs ! 0) (accs ! 1)) (add (accs ! 2) (accs ! 3)))
                       (add (add (accs ! 4) (accs ! 5)) (add (accs ! 6) (accs ! 7)));
          (acc, a2, b2) = kernel_blocks E f 4 folded a1 b1;
          plus = fadd (fe_nan32 E);
          s = plus (plus (acc ! 0) (acc ! 1)) (plus (acc ! 2) (acc ! 3))
      in kernel_tail E f s a2 b2)"

definition dot_scalar :: "fenv \<Rightarrow> f32 list \<Rightarrow> f32 list \<Rightarrow> f32" where
  "dot_scalar E a b = fsum (fe_nan32 E) (map2 (fmul (fe_nan32 E)) a b)"

definition dot_avx2 :: "fenv \<Rightarrow> f32 list \<Rightarrow> f32 list \<Rightarrow> f32" where
  "dot_avx2 E = kernel_avx2 E dot_factors"

definition dot_neon :: "fenv \<Rightarrow> f32 list \<Rightarrow> f32 list \<Rightarrow> f32" where
  "dot_neon E = kernel_neon E dot_factors"

definition dot :: "fenv \<Rightarrow> f32 list \<Rightarrow> f32 list \<Rightarrow> f32" where
  "dot E a b =
     (case fe_simd E of Avx2Fma \<Rightarrow> dot_avx2 E a b | NeonFma \<Rightarrow> dot_neon E a b | NoSimd \<Rightarrow> dot_scalar E a b)"

definition l2sq_scalar :: "fenv \<Rightarrow> f32 list \<Rightarrow> f32 list \<Rightarrow> f32" where
  "l2sq_scalar E a b =
     fsum (fe_nan32 E)
       (map2 (\<lambda>x y. fmul (fe_nan32 E) (fsub (fe_nan32 E) x y) (fsub (fe_nan32 E) x y)) a b)"

definition l2sq_avx2 :: "fenv \<Rightarrow> f32 list \<Rightarrow> f32 list \<Rightarrow> f32" where
  "l2sq_avx2 E = kernel_avx2 E (l2_factors E)"

definition l2sq_neon :: "fenv \<Rightarrow> f32 list \<Rightarrow> f32 list \<Rightarrow> f32" where
  "l2sq_neon E = kernel_neon E (l2_factors E)"

definition l2 :: "fenv \<Rightarrow> f32 list \<Rightarrow> f32 list \<Rightarrow> f32" where
  "l2 E a b =
     fsqrt (fe_nan32 E)
       (case fe_simd E of
          Avx2Fma \<Rightarrow> l2sq_avx2 E a b | NeonFma \<Rightarrow> l2sq_neon E a b | NoSimd \<Rightarrow> l2sq_scalar E a b)"

text \<open>\<open>f32::clamp\<close>; a NaN stays one.\<close>

definition fclamp :: "'a::len word \<Rightarrow> 'a word \<Rightarrow> 'a word \<Rightarrow> 'a word" where
  "fclamp lo hi x = (let y = if flt x lo then lo else x in if flt hi y then hi else y)"

definition cosine :: "fenv \<Rightarrow> f32 list \<Rightarrow> f32 list \<Rightarrow> f32" where
  "cosine E a b =
     (let na = fsqrt (fe_nan32 E) (dot E a a); nb = fsqrt (fe_nan32 E) (dot E b b) in
      if feq na fzero \<or> feq nb fzero then fzero
      else fclamp (f_of_int (- 1)) fone
             (fdiv (fe_nan32 E) (dot E a b) (fmul (fe_nan32 E) na nb)))"

section \<open>Metrics\<close>

definition metric_distance :: "fenv \<Rightarrow> metric \<Rightarrow> f32 list \<Rightarrow> f32 list \<Rightarrow> f32" where
  "metric_distance E m a b =
     (if length a \<noteq> length b then fmake False (finf TYPE(32))
      else case m of
        Cosine \<Rightarrow> fsub (fe_nan32 E) fone (cosine E a b)
      | Dot \<Rightarrow> fneg (dot E a b)
      | L2 \<Rightarrow> l2 E a b)"

definition metric_similarity :: "fenv \<Rightarrow> metric \<Rightarrow> f32 list \<Rightarrow> f32 list \<Rightarrow> f32" where
  "metric_similarity E m a b =
     (if length a \<noteq> length b then fmake True (finf TYPE(32))
      else case m of
        Cosine \<Rightarrow> cosine E a b
      | Dot \<Rightarrow> dot E a b
      | L2 \<Rightarrow> fneg (l2 E a b))"

definition similarity_from_distance :: "fenv \<Rightarrow> metric \<Rightarrow> f32 \<Rightarrow> f32" where
  "similarity_from_distance E m d =
     (case m of Cosine \<Rightarrow> fsub (fe_nan32 E) fone d | _ \<Rightarrow> fneg d)"

section \<open>The bounded heap\<close>

record hit =
  hit_id :: u64
  hit_distance :: f32

text \<open>\<open>HeapItem\<close> is ordered by its distance alone.\<close>

definition heap_cmp :: "u64 \<times> f32 \<Rightarrow> u64 \<times> f32 \<Rightarrow> ordering" where
  "heap_cmp a b = ftotal_cmp (snd a) (snd b)"

text \<open>
  \<open>BinaryHeap::pop\<close> removes one of the greatest elements, \<open>into_iter\<close> lists the elements in some order:
  \<open>fe_pick\<close> and \<open>fe_iter\<close> make the choices.
\<close>

definition remove_at :: "nat \<Rightarrow> 'a list \<Rightarrow> 'a list" where
  "remove_at i xs = take i xs @ drop (Suc i) xs"

definition greatest_at :: "(u64 \<times> f32) list \<Rightarrow> nat list" where
  "greatest_at h = filter (\<lambda>i. \<forall>x \<in> set h. heap_cmp x (h ! i) \<noteq> Greater) [0..<length h]"

definition heap_pop :: "fenv \<Rightarrow> (u64 \<times> f32) list \<Rightarrow> (u64 \<times> f32) list" where
  "heap_pop E h =
     (let g = greatest_at h in
      if g = [] then h else remove_at (g ! (fe_pick E h mod length g)) h)"

fun heap_list :: "fenv \<Rightarrow> nat \<Rightarrow> (u64 \<times> f32) list \<Rightarrow> (u64 \<times> f32) list" where
  "heap_list E 0 h = h"
| "heap_list E (Suc n) h =
     (if h = [] then []
      else let i = fe_iter E h mod length h in h ! i # heap_list E n (remove_at i h))"

definition heap_into_iter :: "fenv \<Rightarrow> (u64 \<times> f32) list \<Rightarrow> (u64 \<times> f32) list" where
  "heap_into_iter E h = heap_list E (length h) h"

definition top_k_step :: "fenv \<Rightarrow> nat \<Rightarrow> (u64 \<times> f32) list \<Rightarrow> u64 \<times> f32 \<Rightarrow> (u64 \<times> f32) list" where
  "top_k_step E k h x = (let h' = h @ [x] in if k < length h' then heap_pop E h' else h')"

text \<open>
  \<open>with_capacity(k + 1)\<close> panics when the requested items, sixteen bytes each, exceed what an allocation
  may have; the addition wraps.
\<close>

definition heap_capacity_ok :: "nat \<Rightarrow> bool" where
  "heap_capacity_ok k \<longleftrightarrow> 16 * ((k + 1) mod 2 ^ 64) < 2 ^ 63"

definition top_k :: "fenv \<Rightarrow> (u64 \<times> f32) list \<Rightarrow> nat \<Rightarrow> hit list res" where
  "top_k E items k =
     (if k = 0 then Inr []
      else if \<not> heap_capacity_ok k then Inl Panic
      else
        let heap = foldl (top_k_step E k) [] items;
            hits = map (\<lambda>(i, d). \<lparr>hit_id = i, hit_distance = d\<rparr>) (heap_into_iter E heap)
        in Inr (sort_by (\<lambda>a b. ftotal_cmp (hit_distance a) (hit_distance b)) hits))"

section \<open>The exact index\<close>

record brute_force_index =
  bf_metric :: metric
  bf_vectors :: "(u64 \<times> f32 list) list"

definition bf_new :: "metric \<Rightarrow> brute_force_index" where
  "bf_new m = \<lparr>bf_metric = m, bf_vectors = []\<rparr>"

fun upsert :: "'k \<Rightarrow> 'v \<Rightarrow> ('k \<times> 'v) list \<Rightarrow> ('k \<times> 'v) list" where
  "upsert k v [] = [(k, v)]"
| "upsert k v ((a, b) # m) = (if a = k then (a, v) # m else (a, b) # upsert k v m)"

definition bf_insert :: "u64 \<Rightarrow> f32 list \<Rightarrow> brute_force_index \<Rightarrow> brute_force_index" where
  "bf_insert i v ix = ix\<lparr>bf_vectors := upsert i v (bf_vectors ix)\<rparr>"

definition bf_remove :: "u64 \<Rightarrow> brute_force_index \<Rightarrow> brute_force_index" where
  "bf_remove i ix = ix\<lparr>bf_vectors := filter (\<lambda>(x, _). x \<noteq> i) (bf_vectors ix)\<rparr>"

definition bf_search ::
    "fenv \<Rightarrow> brute_force_index \<Rightarrow> f32 list \<Rightarrow> nat \<Rightarrow> (u64 \<Rightarrow> bool) option \<Rightarrow> hit list res" where
  "bf_search E ix query k idf =
     top_k E
       (map (\<lambda>(i, v). (i, metric_distance E (bf_metric ix) query v))
         (filter (\<lambda>(i, _). case idf of None \<Rightarrow> True | Some f \<Rightarrow> f i) (bf_vectors ix))) k"

section \<open>The k nearest\<close>

lemma ftotal_laws: "cmp_laws ftotal_cmp x"
  by (rule cmp_laws_embed [where d = cmp and f = ftotal_key]) (simp_all add: ftotal_cmp_def cmp_laws_cmp)

interpretation heap: comparison heap_cmp
  by unfold_locales (rule cmp_laws_embed [OF heap_cmp_def ftotal_laws])

interpretation by_distance: comparison "\<lambda>a b. ftotal_cmp (hit_distance a) (hit_distance b)"
  by unfold_locales (rule cmp_laws_embed [where f = hit_distance, OF _ ftotal_laws], simp)

lemma mset_remove_at:
  assumes "i < length xs"
  shows "add_mset (xs ! i) (mset (remove_at i xs)) = mset xs"
proof -
  have "mset xs = mset (take i xs @ xs ! i # drop (Suc i) xs)" using id_take_nth_drop [OF assms] by simp
  then show ?thesis by (simp add: remove_at_def)
qed

lemma length_remove_at: "i < length xs \<Longrightarrow> length (remove_at i xs) = length xs - 1"
  by (simp add: remove_at_def)

lemma greatest_at_nonempty:
  assumes "h \<noteq> []" shows "greatest_at h \<noteq> []"
proof -
  have "\<exists>y \<in> set h. \<forall>x \<in> set h. heap_cmp x y \<noteq> Greater"
    using assms
  proof (induction h rule: list_nonempty_induct)
    case (cons x xs)
    then obtain y where y: "y \<in> set xs" "\<forall>x \<in> set xs. heap_cmp x y \<noteq> Greater" by blast
    show ?case
    proof (cases "heap_cmp x y = Greater")
      case False
      then show ?thesis using y by auto
    next
      case True
      then have "heap_cmp y x \<noteq> Greater" using heap.total [of x y] by auto
      then have "\<forall>z \<in> set (x # xs). heap_cmp z x \<noteq> Greater" using y heap.trans [of _ y x] by auto
      then show ?thesis by (intro bexI [of _ x]) auto
    qed
  qed auto
  then obtain i where "i < length h" "\<forall>x \<in> set h. heap_cmp x (h ! i) \<noteq> Greater"
    by (metis in_set_conv_nth)
  then show ?thesis by (auto simp: greatest_at_def filter_empty_conv)
qed

lemma heap_pop_greatest:
  assumes "h \<noteq> []"
  obtains m where "m \<in> set h" "\<And>x. x \<in> set h \<Longrightarrow> heap_cmp x m \<noteq> Greater"
    "mset h = add_mset m (mset (heap_pop E h))" "length (heap_pop E h) = length h - 1"
proof -
  let ?g = "greatest_at h"
  let ?i = "?g ! (fe_pick E h mod length ?g)"
  have "?i \<in> set ?g" using greatest_at_nonempty [OF assms] by simp
  then have i: "?i < length h" "\<forall>x \<in> set h. heap_cmp x (h ! ?i) \<noteq> Greater"
    unfolding greatest_at_def by auto
  have pop: "heap_pop E h = remove_at ?i h"
    using greatest_at_nonempty [OF assms] by (simp add: heap_pop_def Let_def)
  show ?thesis
    by (rule that [of "h ! ?i"]) (use i in \<open>auto simp: pop mset_remove_at length_remove_at\<close>)
qed

text \<open>The heap holds the \<open>k\<close> nearest of the items seen: no item left out is nearer than one kept.\<close>

definition nearest :: "nat \<Rightarrow> (u64 \<times> f32) list \<Rightarrow> (u64 \<times> f32) list \<Rightarrow> bool" where
  "nearest k items h \<longleftrightarrow> mset h \<subseteq># mset items \<and> length h = min k (length items) \<and>
     (\<forall>x \<in># mset items - mset h. \<forall>y \<in> set h. heap_cmp y x \<noteq> Greater)"

lemma nearest_step:
  assumes n: "nearest k items h"
  shows "nearest k (items @ [x]) (top_k_step E k h x)"
proof (cases "k < length (h @ [x])")
  case False
  then have all: "length h = length items" "length h < k" using n by (auto simp: nearest_def)
  have "size (mset items - mset h) = 0" using n all by (simp add: nearest_def size_Diff_submset)
  moreover have "mset h \<subseteq># mset items" using n by (simp add: nearest_def)
  ultimately have "mset items = mset h" by (metis add.right_neutral size_eq_0_iff_empty subset_mset.add_diff_inverse)
  then show ?thesis using False all by (simp add: top_k_step_def nearest_def)
next
  case True
  let ?h = "h @ [x]"
  obtain m where m: "m \<in> set ?h" "\<And>y. y \<in> set ?h \<Longrightarrow> heap_cmp y m \<noteq> Greater"
    "mset ?h = add_mset m (mset (heap_pop E ?h))" "length (heap_pop E ?h) = length ?h - 1"
    by (rule heap_pop_greatest [of ?h E]) auto
  have step: "top_k_step E k h x = heap_pop E ?h" using True by (simp add: top_k_step_def)
  have sub: "mset ?h \<subseteq># mset (items @ [x])" using n by (simp add: nearest_def)
  then have sub': "mset (heap_pop E ?h) \<subseteq># mset (items @ [x])"
    unfolding m(3) by (rule mset_subset_eq_insertD [THEN conjunct2, THEN subset_mset.less_imp_le])
  have rest: "mset (items @ [x]) - mset (heap_pop E ?h) = add_mset m (mset items - mset h)"
  proof -
    have "mset (items @ [x]) = mset ?h + (mset items - mset h)"
      using n by (simp add: nearest_def)
    also have "\<dots> = mset (heap_pop E ?h) + add_mset m (mset items - mset h)" unfolding m(3) by simp
    finally show ?thesis by simp
  qed
  have sub_h: "set (heap_pop E ?h) \<subseteq> set ?h"
    using m(3) by (metis set_mset_add_mset_insert set_mset_mset subset_insertI)
  have old: "heap_cmp y z \<noteq> Greater"
    if z: "z \<in># mset items - mset h" and y: "y \<in> set (heap_pop E ?h)" for y z
  proof (cases "y \<in> set h")
    case True
    then show ?thesis using n z by (simp add: nearest_def)
  next
    case False
    then have "m \<noteq> x" using y m(3) sub_h by (metis add_mset_add_single add_mset_remove_trivial mset_append mset.simps set_mset_mset)
    then have "heap_cmp m z \<noteq> Greater" using m(1) n z by (simp add: nearest_def)
    then show ?thesis using m(2) [of y] y sub_h heap.trans [of y m z] by blast
  qed
  show ?thesis
    unfolding nearest_def step rest
  proof (intro conjI ballI)
    show "length (heap_pop E ?h) = min k (length (items @ [x]))"
      using m(4) n True by (auto simp: nearest_def)
    show "heap_cmp y z \<noteq> Greater"
      if "z \<in># add_mset m (mset items - mset h)" "y \<in> set (heap_pop E ?h)" for y z
      using that old [of z y] m(2) [of y] sub_h by auto
  qed (rule sub')
qed

lemma nearest_foldl: "nearest k items (foldl (top_k_step E k) [] items)"
proof (induction items rule: rev_induct)
  case (snoc x xs)
  then show ?case by (simp add: nearest_step)
qed (simp add: nearest_def)

lemma mset_heap_list: "length h = n \<Longrightarrow> mset (heap_list E n h) = mset h"
proof (induction n arbitrary: h)
  case (Suc n)
  let ?i = "fe_iter E h mod length h"
  have i: "?i < length h" using Suc.prems by (cases h) auto
  have "mset (heap_list E (Suc n) h) = add_mset (h ! ?i) (mset (remove_at ?i h))"
    using Suc.prems Suc.IH [of "remove_at ?i h"] i by (auto simp: length_remove_at Let_def)
  then show ?case using mset_remove_at [OF i] by simp
qed simp

definition hit_pair :: "hit \<Rightarrow> u64 \<times> f32" where
  "hit_pair h = (hit_id h, hit_distance h)"

lemma top_k_nearest:
  assumes "0 < k" "heap_capacity_ok k"
  obtains hits where "top_k E items k = Inr hits" "nearest k items (map hit_pair hits)"
    "sorted_wrt (\<lambda>a b. ftotal_cmp (hit_distance a) (hit_distance b) \<noteq> Greater) hits"
proof -
  define h where "h = foldl (top_k_step E k) [] items"
  define hs where "hs = map (\<lambda>(i, d). \<lparr>hit_id = i, hit_distance = d\<rparr>) (heap_into_iter E h)"
  let ?hits = "sort_by (\<lambda>a b. ftotal_cmp (hit_distance a) (hit_distance b)) hs"
  have out: "top_k E items k = Inr ?hits" using assms by (simp add: top_k_def Let_def h_def hs_def)
  have "mset (map hit_pair ?hits) = mset (map hit_pair hs)" by (simp only: mset_map by_distance.mset_sort_by)
  also have "map hit_pair hs = heap_into_iter E h"
    by (simp add: hs_def hit_pair_def case_prod_beta map_idI)
  also have "mset \<dots> = mset h" by (simp add: heap_into_iter_def mset_heap_list)
  finally have eq: "mset (map hit_pair ?hits) = mset h" .
  then have "set (map hit_pair ?hits) = set h" "length (map hit_pair ?hits) = length h"
    by (metis set_mset_mset, metis size_mset)
  with eq nearest_foldl [of k items E] have "nearest k items (map hit_pair ?hits)"
    unfolding nearest_def h_def by metis
  then show ?thesis by (rule that [OF out]) (rule by_distance.sorted_sort_by)
qed

lemma top_k_zero [simp]: "top_k E items 0 = Inr []"
  by (simp add: top_k_def)

end
