(* ===== verification/Expr.thy ===== *)
theory Expr
  imports Vector_Metric "HOL-Library.Signed_Division"
begin

text \<open>
  \<open>compute/expr.rs\<close>: the expression language of filters, sort keys and projections, its bindings and its
  evaluation. Evaluation is total: it returns a value on every branch. Two comparisons exist: \<open>partial_cmp\<close>
  behind the comparison operators and \<open>total_cmp\<close> behind sorting and grouping.
\<close>

section \<open>The language\<close>

datatype binding = BNode u32 | BEdge u32

datatype cmp_op = CEq | CNe | CLt | CLe | CGt | CGe

datatype logic_op = LAnd | LOr

datatype str_op = SContains | SStartsWith | SEndsWith

datatype arith_op = AAdd | ASub | AMul | ADiv

datatype expr =
    EProperty str
  | ELiteral prop_value
  | EHasLabel str
  | ENodeId
  | EAt binding expr
  | EEdgeType
  | EEdgeDir
  | EEdgeProperty str
  | EExternalKey
  | EScore
  | EHops
  | EDistance str "f32 list" metric
  | ESimilarity str "f32 list" metric
  | EIsNull expr
  | ENot expr
  | ECompare cmp_op expr expr
  | ELogic logic_op expr expr
  | EArith arith_op expr expr
  | EStringMatch str_op expr expr
  | EIn expr expr

section \<open>Bindings\<close>

record bindings =
  bn_nodes :: "node_record option list"
  bn_edges :: "(edge_record \<times> dir) option list"
  bn_edge :: "(edge_record \<times> dir) option"

definition bindings_default :: bindings where
  "bindings_default = \<lparr>bn_nodes = [], bn_edges = [], bn_edge = None\<rparr>"

text \<open>\<open>slice.get(i)\<close> on a slice of optional entries, flattened.\<close>

definition slot_at :: "'a option list \<Rightarrow> nat \<Rightarrow> 'a option" where
  "slot_at xs i = (if i < length xs then xs ! i else None)"

definition bindings_node :: "bindings \<Rightarrow> u32 \<Rightarrow> node_record option" where
  "bindings_node b slot = slot_at (bn_nodes b) (unat slot)"

definition bindings_edge_at :: "bindings \<Rightarrow> u32 \<Rightarrow> (edge_record \<times> dir) option" where
  "bindings_edge_at b hop = slot_at (bn_edges b) (unat hop)"

record binding_need =
  nd_nodes :: "u32 option"
  nd_edges :: "u32 option"
  nd_last_edge :: bool

definition need_default :: binding_need where
  "need_default = \<lparr>nd_nodes = None, nd_edges = None, nd_last_edge = False\<rparr>"

definition need_any :: "binding_need \<Rightarrow> bool" where
  "need_any n \<longleftrightarrow> nd_nodes n \<noteq> None \<or> nd_edges n \<noteq> None \<or> nd_last_edge n"

definition bump :: "u32 option \<Rightarrow> u32 \<Rightarrow> u32 option" where
  "bump slot v = Some (case slot of None \<Rightarrow> v | Some m \<Rightarrow> max m v)"

fun need_walk :: "expr \<Rightarrow> bool \<Rightarrow> binding_need \<Rightarrow> binding_need" where
  "need_walk (EAt b inner) in_edge_swap n =
     (case b of
        BNode slot \<Rightarrow> need_walk inner in_edge_swap (n\<lparr>nd_nodes := bump (nd_nodes n) slot\<rparr>)
      | BEdge hop \<Rightarrow> need_walk inner True (n\<lparr>nd_edges := bump (nd_edges n) hop\<rparr>))"
| "need_walk EEdgeType in_edge_swap n = (if in_edge_swap then n else n\<lparr>nd_last_edge := True\<rparr>)"
| "need_walk EEdgeDir in_edge_swap n = (if in_edge_swap then n else n\<lparr>nd_last_edge := True\<rparr>)"
| "need_walk (EEdgeProperty k) in_edge_swap n =
     (if in_edge_swap then n else n\<lparr>nd_last_edge := True\<rparr>)"
| "need_walk (EIsNull e) in_edge_swap n = need_walk e in_edge_swap n"
| "need_walk (ENot e) in_edge_swap n = need_walk e in_edge_swap n"
| "need_walk (ECompare _ l r) in_edge_swap n = need_walk r in_edge_swap (need_walk l in_edge_swap n)"
| "need_walk (ELogic _ l r) in_edge_swap n = need_walk r in_edge_swap (need_walk l in_edge_swap n)"
| "need_walk (EArith _ l r) in_edge_swap n = need_walk r in_edge_swap (need_walk l in_edge_swap n)"
| "need_walk (EStringMatch _ l r) in_edge_swap n =
     need_walk r in_edge_swap (need_walk l in_edge_swap n)"
| "need_walk (EIn x h) in_edge_swap n = need_walk h in_edge_swap (need_walk x in_edge_swap n)"
| "need_walk (EProperty _) in_edge_swap n = n"
| "need_walk (ELiteral _) in_edge_swap n = n"
| "need_walk (EHasLabel _) in_edge_swap n = n"
| "need_walk ENodeId in_edge_swap n = n"
| "need_walk EExternalKey in_edge_swap n = n"
| "need_walk EScore in_edge_swap n = n"
| "need_walk EHops in_edge_swap n = n"
| "need_walk (EDistance _ _ _) in_edge_swap n = n"
| "need_walk (ESimilarity _ _ _) in_edge_swap n = n"

definition need_add :: "expr \<Rightarrow> binding_need \<Rightarrow> binding_need" where
  "need_add e n = need_walk e False n"

section \<open>Values\<close>

text \<open>\<open>i64::to_string\<close>.\<close>

fun digits :: "nat \<Rightarrow> str" where
  "digits n = (if n < 10 then [of_nat (48 + n)] else digits (n div 10) @ [of_nat (48 + n mod 10)])"

declare digits.simps [simp del]

definition int_to_string :: "i64 \<Rightarrow> str" where
  "int_to_string i =
     (if sint i < 0 then bstr ''-'' @ digits (nat (- sint i)) else digits (nat (sint i)))"

definition as_text :: "fenv \<Rightarrow> prop_value \<Rightarrow> str option" where
  "as_text E v =
     (case v of
        PStr s \<Rightarrow> Some s
      | PInt i \<Rightarrow> Some (int_to_string i)
      | PFloat f \<Rightarrow> Some (fe_display E f)
      | PBool b \<Rightarrow> Some (if b then bstr ''true'' else bstr ''false'')
      | _ \<Rightarrow> None)"

definition string_match :: "fenv \<Rightarrow> str_op \<Rightarrow> prop_value \<Rightarrow> prop_value \<Rightarrow> bool" where
  "string_match E op lhs rhs =
     (case (as_text E lhs, as_text E rhs) of
        (Some hay, Some needle) \<Rightarrow>
          (case op of
             SContains \<Rightarrow> sublist needle hay
           | SStartsWith \<Rightarrow> prefix needle hay
           | SEndsWith \<Rightarrow> suffix needle hay)
      | _ \<Rightarrow> False)"

definition is_true :: "prop_value \<Rightarrow> bool" where
  "is_true v \<longleftrightarrow> v = PBool True"

definition f64_of_i64 :: "i64 \<Rightarrow> f64" where
  "f64_of_i64 i = f_of_int (sint i)"

definition partial_cmp :: "prop_value \<Rightarrow> prop_value \<Rightarrow> ordering option" where
  "partial_cmp a b =
     (case (a, b) of
        (PInt x, PInt y) \<Rightarrow> Some (cmp (sint x) (sint y))
      | (PFloat x, PFloat y) \<Rightarrow> fpartial_cmp x y
      | (PInt x, PFloat y) \<Rightarrow> fpartial_cmp (f64_of_i64 x) y
      | (PFloat x, PInt y) \<Rightarrow> fpartial_cmp x (f64_of_i64 y)
      | (PBool x, PBool y) \<Rightarrow> Some (cmp x y)
      | (PStr x, PStr y) \<Rightarrow> Some (cmp x y)
      | _ \<Rightarrow> None)"

definition type_rank :: "prop_value \<Rightarrow> nat" where
  "type_rank v =
     (case v of
        PNull \<Rightarrow> 0
      | PBool _ \<Rightarrow> 1
      | PInt _ \<Rightarrow> 2
      | PFloat _ \<Rightarrow> 2
      | PStr _ \<Rightarrow> 3
      | PBytes _ \<Rightarrow> 4
      | PVector _ \<Rightarrow> 5
      | PList _ \<Rightarrow> 6
      | PMap _ \<Rightarrow> 7)"

definition i64_of_f64 :: "f64 \<Rightarrow> int" where
  "i64_of_f64 y = int_of_f (- (2 ^ 63)) (2 ^ 63 - 1) y"

definition cmp_int_float :: "i64 \<Rightarrow> f64 \<Rightarrow> ordering" where
  "cmp_int_float x y =
     (let rounded = ftotal_cmp (f64_of_i64 x) y in
      if rounded \<noteq> Equal then rounded
      else if fle (f_of_int (2 ^ 63)) y then Less
      else cmp (sint x) (i64_of_f64 y))"

text \<open>\<open>Option<String>\<close>: nothing sorts first.\<close>

definition cmp_opt :: "'a::linorder option \<Rightarrow> 'a option \<Rightarrow> ordering" where
  "cmp_opt a b =
     (case (a, b) of
        (None, None) \<Rightarrow> Equal
      | (None, Some _) \<Rightarrow> Less
      | (Some _, None) \<Rightarrow> Greater
      | (Some x, Some y) \<Rightarrow> cmp x y)"

lemma pd_value_size [termination_simp]: "(k, d) \<in> set m \<Longrightarrow> size (pd_value d) < Suc (size_list (size_prod (\<lambda>x. 0) size) m)"
proof -
  assume "(k, d) \<in> set m"
  then have "size_prod (\<lambda>x. 0) size (k, d) \<le> size_list (size_prod (\<lambda>x. 0) size) m"
    by (rule size_list_estimation') simp
  then show ?thesis by (cases d) simp
qed

function total_cmp :: "prop_value \<Rightarrow> prop_value \<Rightarrow> ordering" where
  "total_cmp a b =
     (case (a, b) of
        (PInt x, PInt y) \<Rightarrow> cmp (sint x) (sint y)
      | (PFloat x, PFloat y) \<Rightarrow> ftotal_cmp x y
      | (PInt x, PFloat y) \<Rightarrow> cmp_int_float x y
      | (PFloat x, PInt y) \<Rightarrow> rev_ord (cmp_int_float y x)
      | (PBool x, PBool y) \<Rightarrow> cmp x y
      | (PStr x, PStr y) \<Rightarrow> cmp x y
      | (PBytes x, PBytes y) \<Rightarrow> cmp x y
      | (PVector x, PVector y) \<Rightarrow> lex_cmp ftotal_cmp x y
      | (PList x, PList y) \<Rightarrow> lex_cmp total_cmp x y
      | (PMap x, PMap y) \<Rightarrow>
          lex_cmp (\<lambda>p q.
            then_cmp (cmp (fst p) (fst q))
              (then_cmp (total_cmp (pd_value (snd p)) (pd_value (snd q)))
                (cmp_opt (pd_description (snd p)) (pd_description (snd q))))) x y
      | _ \<Rightarrow> cmp (type_rank a) (type_rank b))"
  by auto
termination
  by (relation "measure (size \<circ> fst)") (auto dest: pd_value_size intro: le_imp_less_Suc size_list_estimation' simp: less_Suc_eq_le)

declare total_cmp.simps [simp del]

lemma total_cmp_simps:
  "total_cmp (PInt i) (PInt j) = cmp (sint i) (sint j)"
  "total_cmp (PFloat f) (PFloat g) = ftotal_cmp f g"
  "total_cmp (PInt i) (PFloat g) = cmp_int_float i g"
  "total_cmp (PFloat f) (PInt j) = rev_ord (cmp_int_float j f)"
  "total_cmp (PBool b) (PBool c) = cmp b c"
  "total_cmp (PStr s) (PStr t) = cmp s t"
  "total_cmp (PBytes s) (PBytes t) = cmp s t"
  "total_cmp (PVector u) (PVector v) = lex_cmp ftotal_cmp u v"
  "total_cmp (PList xs) (PList ys) = lex_cmp total_cmp xs ys"
  "total_cmp (PMap m) (PMap m') =
     lex_cmp (\<lambda>p q.
       then_cmp (cmp (fst p) (fst q))
         (then_cmp (total_cmp (pd_value (snd p)) (pd_value (snd q)))
           (cmp_opt (pd_description (snd p)) (pd_description (snd q))))) m m'"
  "total_cmp PNull PNull = Equal"
  by (subst total_cmp.simps, simp add: cmp_def)+

text \<open>
  The derived equality of values: structural, with \<open>==\<close> on floats, so a NaN is not equal to itself and
  the zeros are equal.
\<close>

fun list_eq :: "('a \<Rightarrow> 'a \<Rightarrow> bool) \<Rightarrow> 'a list \<Rightarrow> 'a list \<Rightarrow> bool" where
  "list_eq e (x # xs) (y # ys) = (e x y \<and> list_eq e xs ys)"
| "list_eq e [] [] = True"
| "list_eq e _ _ = False"

lemma list_eq_cong [fundef_cong]:
  assumes "xs = xs'" "ys = ys'" "\<And>x y. x \<in> set xs' \<Longrightarrow> y \<in> set ys' \<Longrightarrow> e x y = e' x y"
  shows "list_eq e xs ys = list_eq e' xs' ys'"
  using assms(3) unfolding assms(1, 2) by (induction e xs' ys' rule: list_eq.induct) auto

function prop_eq :: "prop_value \<Rightarrow> prop_value \<Rightarrow> bool" where
  "prop_eq a b =
     (case (a, b) of
        (PFloat x, PFloat y) \<Rightarrow> feq x y
      | (PVector x, PVector y) \<Rightarrow> list_eq feq x y
      | (PList x, PList y) \<Rightarrow> list_eq prop_eq x y
      | (PMap x, PMap y) \<Rightarrow>
          list_eq (\<lambda>p q. fst p = fst q \<and> pd_description (snd p) = pd_description (snd q) \<and>
            prop_eq (pd_value (snd p)) (pd_value (snd q))) x y
      | _ \<Rightarrow> a = b)"
  by auto
termination
  by (relation "measure (size \<circ> fst)")
    (auto dest: pd_value_size intro: le_imp_less_Suc size_list_estimation' simp: less_Suc_eq_le)

declare prop_eq.simps [simp del]

definition values_eq :: "prop_value \<Rightarrow> prop_value \<Rightarrow> bool" where
  "values_eq a b =
     (case a of
        PInt _ \<Rightarrow> partial_cmp a b = Some Equal
      | PFloat _ \<Rightarrow> partial_cmp a b = Some Equal
      | _ \<Rightarrow> prop_eq a b)"

definition compare :: "cmp_op \<Rightarrow> prop_value \<Rightarrow> prop_value \<Rightarrow> bool" where
  "compare op a b =
     (case op of
        CEq \<Rightarrow> values_eq a b
      | CNe \<Rightarrow> \<not> values_eq a b
      | CLt \<Rightarrow> partial_cmp a b = Some Less
      | CLe \<Rightarrow> partial_cmp a b = Some Less \<or> partial_cmp a b = Some Equal
      | CGt \<Rightarrow> partial_cmp a b = Some Greater
      | CGe \<Rightarrow> partial_cmp a b = Some Greater \<or> partial_cmp a b = Some Equal)"

definition member_of :: "fenv \<Rightarrow> prop_value \<Rightarrow> prop_value \<Rightarrow> bool" where
  "member_of E needle haystack =
     (case haystack of
        PList items \<Rightarrow> (\<exists>item \<in> set items. compare CEq item needle)
      | PMap entries \<Rightarrow>
          (case as_text E needle of Some key \<Rightarrow> map_of entries key \<noteq> None | None \<Rightarrow> False)
      | _ \<Rightarrow> False)"

definition as_f64 :: "prop_value \<Rightarrow> f64" where
  "as_f64 v = (case v of PInt i \<Rightarrow> f64_of_i64 i | PFloat f \<Rightarrow> f | _ \<Rightarrow> 0x7FF8000000000000)"

fun is_num :: "prop_value \<Rightarrow> bool" where
  "is_num (PInt _) = True"
| "is_num (PFloat _) = True"
| "is_num _ = False"

definition int_arith :: "arith_op \<Rightarrow> i64 \<Rightarrow> i64 \<Rightarrow> prop_value" where
  "int_arith op x y =
     (case op of
        AAdd \<Rightarrow> PInt (x + y)
      | ASub \<Rightarrow> PInt (x - y)
      | AMul \<Rightarrow> PInt (x * y)
      | ADiv \<Rightarrow> if y = 0 then PNull else PInt (word_of_int (sint x sdiv sint y)))"

definition arith :: "fenv \<Rightarrow> arith_op \<Rightarrow> prop_value \<Rightarrow> prop_value \<Rightarrow> prop_value" where
  "arith E op a b =
     (case (a, b) of
        (PInt x, PInt y) \<Rightarrow> int_arith op x y
      | _ \<Rightarrow>
          if is_num a \<and> is_num b then
            let x = as_f64 a; y = as_f64 b; nan = fe_nan64 E in
            PFloat (case op of AAdd \<Rightarrow> fadd nan x y | ASub \<Rightarrow> fsub nan x y
                    | AMul \<Rightarrow> fmul nan x y | ADiv \<Rightarrow> fdiv nan x y)
          else PNull)"

section \<open>Evaluation\<close>

record eval_ctx =
  cx_node :: "node_record option"
  cx_score :: "f32 option"
  cx_hops :: nat
  cx_bindings :: bindings

definition ctx_of_node :: "node_record option \<Rightarrow> eval_ctx" where
  "ctx_of_node n = \<lparr>cx_node = n, cx_score = None, cx_hops = 0, cx_bindings = bindings_default\<rparr>"

definition prop_of :: "props \<Rightarrow> str \<Rightarrow> prop_value option" where
  "prop_of ps key = map_option pd_value (map_of ps key)"

definition vector_prop :: "eval_ctx \<Rightarrow> str \<Rightarrow> f32 list option" where
  "vector_prop ctx property =
     (case cx_node ctx of
        None \<Rightarrow> None
      | Some n \<Rightarrow> (case prop_of (nr_properties n) property of Some (PVector v) \<Rightarrow> Some v | _ \<Rightarrow> None))"

definition or_null :: "prop_value option \<Rightarrow> prop_value" where
  "or_null v = (case v of None \<Rightarrow> PNull | Some x \<Rightarrow> x)"

fun eval :: "fenv \<Rightarrow> expr \<Rightarrow> eval_ctx \<Rightarrow> prop_value" where
  "eval E (EProperty key) ctx =
     or_null (Option.bind (cx_node ctx) (\<lambda>n. prop_of (nr_properties n) key))"
| "eval E (ELiteral v) ctx = v"
| "eval E (EHasLabel label) ctx =
     PBool (case cx_node ctx of None \<Rightarrow> False | Some n \<Rightarrow> label \<in> set (nr_labels n))"
| "eval E EExternalKey ctx =
     or_null (map_option PStr (Option.bind (cx_node ctx) nr_external_key))"
| "eval E ENodeId ctx = or_null (map_option (\<lambda>n. PInt (nr_id n)) (cx_node ctx))"
| "eval E (EAt b inner) ctx =
     (case b of
        BNode slot \<Rightarrow> eval E inner (ctx\<lparr>cx_node := bindings_node (cx_bindings ctx) slot\<rparr>)
      | BEdge hop \<Rightarrow>
          eval E inner
            (ctx\<lparr>cx_bindings := (cx_bindings ctx)\<lparr>bn_edge := bindings_edge_at (cx_bindings ctx) hop\<rparr>\<rparr>))"
| "eval E EEdgeType ctx = or_null (map_option (\<lambda>(e, _). PStr (er_ty e)) (bn_edge (cx_bindings ctx)))"
| "eval E EEdgeDir ctx =
     or_null (map_option (\<lambda>(_, d). PStr (if d = In then bstr ''IN'' else bstr ''OUT''))
       (bn_edge (cx_bindings ctx)))"
| "eval E (EEdgeProperty key) ctx =
     or_null (Option.bind (bn_edge (cx_bindings ctx)) (\<lambda>(e, _). prop_of (er_properties e) key))"
| "eval E EScore ctx = or_null (map_option (\<lambda>s. PFloat (f64_of_f32 (fe_nan64 E) s)) (cx_score ctx))"
| "eval E EHops ctx = PInt (of_nat (cx_hops ctx))"
| "eval E (EDistance property query metric) ctx =
     or_null (map_option
       (\<lambda>v. PFloat (f64_of_f32 (fe_nan64 E) (metric_distance E metric query v))) (vector_prop ctx property))"
| "eval E (ESimilarity property query metric) ctx =
     or_null (map_option
       (\<lambda>v. PFloat (f64_of_f32 (fe_nan64 E) (metric_similarity E metric query v))) (vector_prop ctx property))"
| "eval E (EIsNull e) ctx = PBool (eval E e ctx = PNull)"
| "eval E (ENot e) ctx = PBool (\<not> is_true (eval E e ctx))"
| "eval E (ECompare op l r) ctx = PBool (compare op (eval E l ctx) (eval E r ctx))"
| "eval E (ELogic op l r) ctx =
     PBool (case op of
        LAnd \<Rightarrow> is_true (eval E l ctx) \<and> is_true (eval E r ctx)
      | LOr \<Rightarrow> is_true (eval E l ctx) \<or> is_true (eval E r ctx))"
| "eval E (EArith op l r) ctx = arith E op (eval E l ctx) (eval E r ctx)"
| "eval E (EStringMatch op l r) ctx = PBool (string_match E op (eval E l ctx) (eval E r ctx))"
| "eval E (EIn x h) ctx = PBool (member_of E (eval E x ctx) (eval E h ctx))"

section \<open>Building expressions\<close>

definition prop_expr :: "str \<Rightarrow> expr" where "prop_expr key = EProperty key"
definition lit_expr :: "prop_value \<Rightarrow> expr" where "lit_expr v = ELiteral v"
definition cmp_expr :: "cmp_op \<Rightarrow> expr \<Rightarrow> expr \<Rightarrow> expr" where "cmp_expr op l r = ECompare op l r"
definition eq_expr :: "expr \<Rightarrow> expr \<Rightarrow> expr" where "eq_expr l r = cmp_expr CEq l r"
definition ne_expr :: "expr \<Rightarrow> expr \<Rightarrow> expr" where "ne_expr l r = cmp_expr CNe l r"
definition lt_expr :: "expr \<Rightarrow> expr \<Rightarrow> expr" where "lt_expr l r = cmp_expr CLt l r"
definition le_expr :: "expr \<Rightarrow> expr \<Rightarrow> expr" where "le_expr l r = cmp_expr CLe l r"
definition gt_expr :: "expr \<Rightarrow> expr \<Rightarrow> expr" where "gt_expr l r = cmp_expr CGt l r"
definition ge_expr :: "expr \<Rightarrow> expr \<Rightarrow> expr" where "ge_expr l r = cmp_expr CGe l r"
definition and_expr :: "expr \<Rightarrow> expr \<Rightarrow> expr" where "and_expr l r = ELogic LAnd l r"
definition or_expr :: "expr \<Rightarrow> expr \<Rightarrow> expr" where "or_expr l r = ELogic LOr l r"
definition not_expr :: "expr \<Rightarrow> expr" where "not_expr e = ENot e"
definition is_null_expr :: "expr \<Rightarrow> expr" where "is_null_expr e = EIsNull e"
definition arith_expr :: "arith_op \<Rightarrow> expr \<Rightarrow> expr \<Rightarrow> expr" where "arith_expr op l r = EArith op l r"
definition add_expr :: "expr \<Rightarrow> expr \<Rightarrow> expr" where "add_expr l r = arith_expr AAdd l r"
definition sub_expr :: "expr \<Rightarrow> expr \<Rightarrow> expr" where "sub_expr l r = arith_expr ASub l r"
definition mul_expr :: "expr \<Rightarrow> expr \<Rightarrow> expr" where "mul_expr l r = arith_expr AMul l r"
definition div_expr :: "expr \<Rightarrow> expr \<Rightarrow> expr" where "div_expr l r = arith_expr ADiv l r"
definition match_expr :: "str_op \<Rightarrow> expr \<Rightarrow> expr \<Rightarrow> expr" where "match_expr op l r = EStringMatch op l r"
definition contains_expr :: "expr \<Rightarrow> expr \<Rightarrow> expr" where "contains_expr l r = match_expr SContains l r"
definition starts_with_expr :: "expr \<Rightarrow> expr \<Rightarrow> expr" where "starts_with_expr l r = match_expr SStartsWith l r"
definition ends_with_expr :: "expr \<Rightarrow> expr \<Rightarrow> expr" where "ends_with_expr l r = match_expr SEndsWith l r"
definition is_in_expr :: "expr \<Rightarrow> expr \<Rightarrow> expr" where "is_in_expr x h = EIn x h"
definition at_node :: "u32 \<Rightarrow> expr \<Rightarrow> expr" where "at_node slot inner = EAt (BNode slot) inner"
definition at_edge :: "u32 \<Rightarrow> expr \<Rightarrow> expr" where "at_edge hop inner = EAt (BEdge hop) inner"

end
