(* ===== verification/Plan.thy ===== *)
theory Plan
  imports Expr
begin

text \<open>
  \<open>compute/plan.rs\<close> and the query descriptions of \<open>compute/hybrid.rs\<close>: a plan is a source of rows, a
  chain of steps and an optional projection tail.
\<close>

section \<open>Hybrid queries\<close>

record hybrid_weights =
  hw_vector :: f32
  hw_keyword :: f32
  hw_graph :: f32

record vector_channel =
  vc_property :: str
  vc_query :: "f32 list"
  vc_metric :: metric

record keyword_channel =
  kc_property :: str
  kc_query :: str

record graph_channel =
  gc_hops :: u32
  gc_decay :: f32
  gc_seeds :: nat

record hybrid_spec =
  hs_label :: "str option"
  hs_vector :: "vector_channel option"
  hs_keyword :: "keyword_channel option"
  hs_graph :: "graph_channel option"
  hs_weights :: hybrid_weights
  hs_candidates :: nat
  hs_k :: nat

section \<open>Sources and steps\<close>

datatype node_ref = RefId node_id | RefKey str

datatype algo =
    PageRank f64 u32 f64
  | ConnectedComponents
  | Louvain u32 f64
  | ShortestPath node_ref node_ref dir "str option"

datatype source =
    ScanAll
  | ScanLabel str
  | SeekIds "node_id list"
  | SeekKeys "str list"
  | VectorTopK "str option" str "f32 list" metric u64
  | KeywordTopK str str str u64
  | Hybrid hybrid_spec
  | Algo "str option" algo

record sort_key =
  sk_expr :: expr
  sk_descending :: bool

datatype step =
    Expand dir "str option"
  | ExpandVar dir "str option" u32 u32
  | Filter expr
  | Skip u64
  | Limit u64
  | Distinct
  | Sort "sort_key list"
  | FrontierTopK str "f32 list" metric u64
  | ExpandBeam dir "str option" str "f32 list" metric u32 u32

section \<open>Projections\<close>

datatype agg_func = AggCount | AggSum | AggAvg | AggMin | AggMax | AggCollect

record agg =
  ag_func :: agg_func
  ag_arg :: "expr option"
  ag_distinct :: bool

datatype proj_expr = PValue expr | PAgg agg

record proj_item =
  pi_name :: str
  pi_expr :: proj_expr

record tuple_sort_key =
  ts_column :: nat
  ts_descending :: bool

record projection =
  pj_items :: "proj_item list"
  pj_distinct :: bool
  pj_order_by :: "tuple_sort_key list"
  pj_skip :: "u64 option"
  pj_limit :: "u64 option"

definition projection_default :: projection where
  "projection_default =
     \<lparr>pj_items = [], pj_distinct = False, pj_order_by = [], pj_skip = None, pj_limit = None\<rparr>"

record logical_plan =
  lp_source :: source
  lp_steps :: "step list"
  lp_project :: "projection option"

definition plan_new :: "source \<Rightarrow> logical_plan" where
  "plan_new s = \<lparr>lp_source = s, lp_steps = [], lp_project = None\<rparr>"

definition plan_push :: "step \<Rightarrow> logical_plan \<Rightarrow> logical_plan" where
  "plan_push st p = p\<lparr>lp_steps := lp_steps p @ [st]\<rparr>"

definition proj_item_value :: "str \<Rightarrow> expr \<Rightarrow> proj_item" where
  "proj_item_value name e = \<lparr>pi_name = name, pi_expr = PValue e\<rparr>"

definition proj_item_agg :: "str \<Rightarrow> agg \<Rightarrow> proj_item" where
  "proj_item_agg name a = \<lparr>pi_name = name, pi_expr = PAgg a\<rparr>"

definition agg_count :: agg where
  "agg_count = \<lparr>ag_func = AggCount, ag_arg = None, ag_distinct = False\<rparr>"

definition agg_of :: "agg_func \<Rightarrow> expr \<Rightarrow> agg" where
  "agg_of f e = \<lparr>ag_func = f, ag_arg = Some e, ag_distinct = False\<rparr>"

definition agg_with_distinct :: "agg \<Rightarrow> agg" where
  "agg_with_distinct a = a\<lparr>ag_distinct := True\<rparr>"

section \<open>Which bindings a plan names\<close>

fun step_exprs :: "step \<Rightarrow> expr list" where
  "step_exprs (Filter e) = [e]"
| "step_exprs (Sort keys) = map sk_expr keys"
| "step_exprs _ = []"

fun item_exprs :: "proj_item \<Rightarrow> expr list" where
  "item_exprs it = (case pi_expr it of PValue e \<Rightarrow> [e] | PAgg a \<Rightarrow> (case ag_arg a of None \<Rightarrow> [] | Some e \<Rightarrow> [e]))"

definition plan_exprs :: "logical_plan \<Rightarrow> expr list" where
  "plan_exprs p =
     concat (map step_exprs (lp_steps p)) @
     concat (map item_exprs (case lp_project p of None \<Rightarrow> [] | Some pj \<Rightarrow> pj_items pj))"

definition plan_need :: "logical_plan \<Rightarrow> binding_need" where
  "plan_need p = fold need_add (plan_exprs p) need_default"

section \<open>The need covers every expression\<close>

text \<open>
  An expression's needs are met by a high-water mark; \<open>s\<close> says that an enclosing edge binding has already
  replaced the edge channel.
\<close>

definition within :: "u32 \<Rightarrow> u32 option \<Rightarrow> bool" where
  "within v m \<longleftrightarrow> (case m of None \<Rightarrow> False | Some x \<Rightarrow> v \<le> x)"

fun need_met :: "expr \<Rightarrow> bool \<Rightarrow> binding_need \<Rightarrow> bool" where
  "need_met (EAt b inner) s n =
     (case b of
        BNode slot \<Rightarrow> within slot (nd_nodes n) \<and> need_met inner s n
      | BEdge hop \<Rightarrow> within hop (nd_edges n) \<and> need_met inner True n)"
| "need_met EEdgeType s n = (s \<or> nd_last_edge n)"
| "need_met EEdgeDir s n = (s \<or> nd_last_edge n)"
| "need_met (EEdgeProperty k) s n = (s \<or> nd_last_edge n)"
| "need_met (EIsNull e) s n = need_met e s n"
| "need_met (ENot e) s n = need_met e s n"
| "need_met (ECompare _ l r) s n = (need_met l s n \<and> need_met r s n)"
| "need_met (ELogic _ l r) s n = (need_met l s n \<and> need_met r s n)"
| "need_met (EArith _ l r) s n = (need_met l s n \<and> need_met r s n)"
| "need_met (EStringMatch _ l r) s n = (need_met l s n \<and> need_met r s n)"
| "need_met (EIn x h) s n = (need_met x s n \<and> need_met h s n)"
| "need_met _ s n = True"

definition need_le :: "binding_need \<Rightarrow> binding_need \<Rightarrow> bool" where
  "need_le n n' \<longleftrightarrow> (\<forall>v. within v (nd_nodes n) \<longrightarrow> within v (nd_nodes n')) \<and>
     (\<forall>v. within v (nd_edges n) \<longrightarrow> within v (nd_edges n')) \<and>
     (nd_last_edge n \<longrightarrow> nd_last_edge n')"

lemma need_le_refl [simp]: "need_le n n"
  by (simp add: need_le_def)

lemma need_le_trans: "need_le a b \<Longrightarrow> need_le b c \<Longrightarrow> need_le a c"
  by (auto simp: need_le_def)

lemma within_bump: "within v (bump m w) \<longleftrightarrow> v \<le> w \<or> within v m"
  by (auto simp: within_def bump_def le_max_iff_disj split: option.splits)

lemma need_met_mono: "need_met e s n \<Longrightarrow> need_le n n' \<Longrightarrow> (s \<longrightarrow> s') \<Longrightarrow> need_met e s' n'"
  by (induction e s n arbitrary: s' rule: need_met.induct) (auto simp: need_le_def split: binding.splits)

lemma need_walk_grows: "need_le n (need_walk e s n)"
proof (induction e s n rule: need_walk.induct)
  case (1 b inner s n)
  then show ?case
    by (cases b) (auto simp: need_le_def within_bump)
qed (auto simp: need_le_def)

lemma need_walk_meets: "need_met e s (need_walk e s n)"
proof (induction e s n rule: need_walk.induct)
  case (1 b inner s n)
  show ?case
  proof (cases b)
    case (BNode slot)
    let ?n = "n\<lparr>nd_nodes := bump (nd_nodes n) slot\<rparr>"
    have "within slot (nd_nodes ?n)" by (simp add: within_bump)
    then show ?thesis using 1 need_walk_grows [of ?n inner s] by (auto simp: BNode need_le_def)
  next
    case (BEdge hop)
    let ?n = "n\<lparr>nd_edges := bump (nd_edges n) hop\<rparr>"
    have "within hop (nd_edges ?n)" by (simp add: within_bump)
    then show ?thesis using 1 need_walk_grows [of ?n inner True] by (auto simp: BEdge need_le_def)
  qed
qed (auto intro: need_met_mono [OF _ need_walk_grows])

lemma fold_need_grows: "need_le n (fold need_add es n)"
proof (induction es arbitrary: n)
  case (Cons e es)
  have "need_le n (need_add e n)" unfolding need_add_def by (rule need_walk_grows)
  then show ?case using Cons need_le_trans by (metis fold_simps(2))
qed simp

lemma fold_need_meets: "e \<in> set es \<Longrightarrow> need_met e False (fold need_add es n)"
proof (induction es arbitrary: n)
  case (Cons a es)
  have "need_met a False (need_add a n)" unfolding need_add_def by (rule need_walk_meets)
  then have "need_met a False (fold need_add es (need_add a n))"
    using need_met_mono [OF _ fold_need_grows] by blast
  then show ?case using Cons by auto
qed simp

lemma plan_need_meets: "e \<in> set (plan_exprs p) \<Longrightarrow> need_met e False (plan_need p)"
  unfolding plan_need_def by (rule fold_need_meets)

text \<open>Evaluation reads no binding beyond the need.\<close>

definition bindings_agree :: "binding_need \<Rightarrow> bool \<Rightarrow> bindings \<Rightarrow> bindings \<Rightarrow> bool" where
  "bindings_agree n s b b' \<longleftrightarrow>
     (\<forall>v. within v (nd_nodes n) \<longrightarrow> bindings_node b v = bindings_node b' v) \<and>
     (\<forall>v. within v (nd_edges n) \<longrightarrow> bindings_edge_at b v = bindings_edge_at b' v) \<and>
     (s \<or> nd_last_edge n \<longrightarrow> bn_edge b = bn_edge b')"

lemma agree_edge: "bindings_agree n s b b' \<Longrightarrow> s \<or> nd_last_edge n \<Longrightarrow> bn_edge b = bn_edge b'"
  by (simp add: bindings_agree_def)

lemma ctx_commute: "ctx\<lparr>cx_bindings := b, cx_node := x\<rparr> = ctx\<lparr>cx_node := x, cx_bindings := b\<rparr>"
  by (cases ctx) simp

lemma eval_agree:
  assumes "need_met e s n" "bindings_agree n s b b'"
  shows "eval E e (ctx\<lparr>cx_bindings := b\<rparr>) = eval E e (ctx\<lparr>cx_bindings := b'\<rparr>)"
  using assms
proof (induction e s n arbitrary: ctx b b' rule: need_met.induct)
  case (1 bd inner s n)
  show ?case
  proof (cases bd)
    case (BNode slot)
    then have "bindings_node b slot = bindings_node b' slot" using 1 by (simp add: bindings_agree_def)
    moreover have "eval E inner (ctx\<lparr>cx_node := x, cx_bindings := b\<rparr>) =
        eval E inner (ctx\<lparr>cx_node := x, cx_bindings := b'\<rparr>)" for x
      using 1 BNode by simp
    ultimately show ?thesis by (simp add: BNode ctx_commute)
  next
    case (BEdge hop)
    then have "bindings_agree n True (b\<lparr>bn_edge := bindings_edge_at b hop\<rparr>) (b'\<lparr>bn_edge := bindings_edge_at b' hop\<rparr>)"
      using 1 by (auto simp: bindings_agree_def bindings_node_def bindings_edge_at_def)
    then show ?thesis using 1 BEdge by simp
  qed
next
  case (5 e s n)
  have "eval E e (ctx\<lparr>cx_bindings := b\<rparr>) = eval E e (ctx\<lparr>cx_bindings := b'\<rparr>)"
    by (rule 5(1)) (use 5 in simp_all)
  then show ?case by simp
next
  case (6 e s n)
  have "eval E e (ctx\<lparr>cx_bindings := b\<rparr>) = eval E e (ctx\<lparr>cx_bindings := b'\<rparr>)"
    by (rule 6(1)) (use 6 in simp_all)
  then show ?case by simp
next
  case (7 op l r s n)
  have "eval E l (ctx\<lparr>cx_bindings := b\<rparr>) = eval E l (ctx\<lparr>cx_bindings := b'\<rparr>)"
    "eval E r (ctx\<lparr>cx_bindings := b\<rparr>) = eval E r (ctx\<lparr>cx_bindings := b'\<rparr>)"
    by (rule 7(1), use 7 in simp_all)
  then show ?case by simp
next
  case (8 op l r s n)
  have "eval E l (ctx\<lparr>cx_bindings := b\<rparr>) = eval E l (ctx\<lparr>cx_bindings := b'\<rparr>)"
    "eval E r (ctx\<lparr>cx_bindings := b\<rparr>) = eval E r (ctx\<lparr>cx_bindings := b'\<rparr>)"
    by (rule 8(1), use 8 in simp_all)
  then show ?case by (cases op) simp_all
next
  case (9 op l r s n)
  have "eval E l (ctx\<lparr>cx_bindings := b\<rparr>) = eval E l (ctx\<lparr>cx_bindings := b'\<rparr>)"
    "eval E r (ctx\<lparr>cx_bindings := b\<rparr>) = eval E r (ctx\<lparr>cx_bindings := b'\<rparr>)"
    by (rule 9(1), use 9 in simp_all)
  then show ?case by simp
next
  case (10 op l r s n)
  have "eval E l (ctx\<lparr>cx_bindings := b\<rparr>) = eval E l (ctx\<lparr>cx_bindings := b'\<rparr>)"
    "eval E r (ctx\<lparr>cx_bindings := b\<rparr>) = eval E r (ctx\<lparr>cx_bindings := b'\<rparr>)"
    by (rule 10(1), use 10 in simp_all)
  then show ?case by simp
next
  case (11 l r s n)
  have "eval E l (ctx\<lparr>cx_bindings := b\<rparr>) = eval E l (ctx\<lparr>cx_bindings := b'\<rparr>)"
    "eval E r (ctx\<lparr>cx_bindings := b\<rparr>) = eval E r (ctx\<lparr>cx_bindings := b'\<rparr>)"
    by (rule 11(1), use 11 in simp_all)
  then show ?case by simp
qed (use agree_edge in \<open>simp_all add: vector_prop_def\<close>)

end
