(* ===== verification/Reader.thy ===== *)
theory Reader
  imports Plan Graph_Props
begin

text \<open>
  The read seam between storage and computation (\<open>api/cache/mod.rs\<close>): the trait \<open>GraphReader\<close> as a record
  of operations on one plane, exact similarity search by scanning, and the pass-through
  \<open>UncachedReader\<close>. The live index registries (\<open>VectorRegistry::search\<close>, BM25 scoring) are parameters.

  The locale \<open>graph_reader\<close> is what the executor relies on: every operation answers from one abstract
  graph. A stored graph read through \<open>UncachedReader\<close> provides it.
\<close>

record reader =
  rd_plane :: plane_id
  rd_node :: "node_id \<Rightarrow> node_record option res"
  rd_edge :: "edge_id \<Rightarrow> edge_record option res"
  rd_neighbors :: "node_id \<Rightarrow> dir \<Rightarrow> str option \<Rightarrow> neighbor list res"
  rd_scan_all :: "node_id list res"
  rd_scan_label :: "str \<Rightarrow> node_id list res"
  rd_node_id_by_key :: "str \<Rightarrow> node_id option res"
  rd_vector_search :: "str option \<Rightarrow> str \<Rightarrow> f32 list \<Rightarrow> metric \<Rightarrow> nat \<Rightarrow> hit list res"
  rd_keyword_search :: "str \<Rightarrow> str \<Rightarrow> str \<Rightarrow> nat \<Rightarrow> (node_id \<times> f32) list res"

section \<open>Similarity search\<close>

definition vector_of :: "node_record \<Rightarrow> str \<Rightarrow> f32 list option" where
  "vector_of node property =
     (case prop_of (nr_properties node) property of Some (PVector v) \<Rightarrow> Some v | _ \<Rightarrow> None)"

fun brute_items ::
    "fenv \<Rightarrow> reader \<Rightarrow> str \<Rightarrow> f32 list \<Rightarrow> metric \<Rightarrow> node_id list \<Rightarrow> (u64 \<times> f32) list res" where
  "brute_items E R property query metric [] = Inr []"
| "brute_items E R property query metric (i # ids) =
     res_bind (rd_node R i) (\<lambda>found.
     res_bind (brute_items E R property query metric ids) (\<lambda>items.
     Inr (case Option.bind found (\<lambda>node. vector_of node property) of
            None \<Rightarrow> items
          | Some v \<Rightarrow>
              let d = metric_distance E metric query v in
              if is_finite d then (i, d) # items else items)))"

definition brute_force_search ::
    "fenv \<Rightarrow> reader \<Rightarrow> str option \<Rightarrow> str \<Rightarrow> f32 list \<Rightarrow> metric \<Rightarrow> nat \<Rightarrow> hit list res" where
  "brute_force_search E R label property query metric k =
     res_bind (case label of Some l \<Rightarrow> rd_scan_label R l | None \<Rightarrow> rd_scan_all R) (\<lambda>candidates.
     res_bind (brute_items E R property query metric candidates) (\<lambda>items.
     top_k E items k))"

text \<open>\<open>VectorRegistry::search\<close>: nothing unless an index is declared for the label, property and metric.\<close>

type_synonym registry = "plane_id \<Rightarrow> str \<Rightarrow> str \<Rightarrow> f32 list \<Rightarrow> metric \<Rightarrow> nat \<Rightarrow> hit list res option"

definition indexed_or_brute ::
    "fenv \<Rightarrow> reader \<Rightarrow> registry option \<Rightarrow> plane_id \<Rightarrow> str option \<Rightarrow> str \<Rightarrow> f32 list \<Rightarrow> metric \<Rightarrow> nat \<Rightarrow>
     hit list res" where
  "indexed_or_brute E R registry plane label property query metric k =
     (case (registry, label) of
        (Some reg, Some l) \<Rightarrow>
          (case reg plane l property query metric k of
             Some result \<Rightarrow> result
           | None \<Rightarrow> brute_force_search E R label property query metric k)
      | _ \<Rightarrow> brute_force_search E R label property query metric k)"

fun visible_hits :: "reader \<Rightarrow> 'h list \<Rightarrow> str option \<Rightarrow> ('h \<Rightarrow> node_id) \<Rightarrow> 'h list res" where
  "visible_hits R [] label id_of = Inr []"
| "visible_hits R (h # hs) label id_of =
     res_bind (rd_node R (id_of h)) (\<lambda>found.
     res_bind (visible_hits R hs label id_of) (\<lambda>out.
     Inr (if (case found of
                Some node \<Rightarrow> (case label of None \<Rightarrow> True | Some l \<Rightarrow> l \<in> set (nr_labels node))
              | None \<Rightarrow> False)
          then h # out else out)))"

text \<open>
  \<open>KeywordRegistry::search_snapshot\<close>, scoring by BM25 over the snapshot, is the parameter \<open>score\<close>; \<open>live\<close>
  lists the declarations of the live registry, when there is one.
\<close>

type_synonym keyword_scan =
  "plane_id \<Rightarrow> str \<Rightarrow> str \<Rightarrow> language \<Rightarrow> str \<Rightarrow> nat \<Rightarrow> (node_id \<times> f32) list res"

definition snapshot_keyword_search ::
    "'t vtable \<Rightarrow> 't \<Rightarrow> keyword_scan \<Rightarrow> plane_id \<Rightarrow> (str \<times> str \<times> language) list option \<Rightarrow>
     str \<Rightarrow> str \<Rightarrow> str \<Rightarrow> nat \<Rightarrow> (node_id \<times> f32) list res" where
  "snapshot_keyword_search V t score plane live label property query k =
     res_bind (list_keyword_indexes V t) (\<lambda>decls.
     let declared =
           (case List.find (\<lambda>(p, l, prop, _). p = plane \<and> l = label \<and> prop = property) decls of
              Some (_, _, _, language) \<Rightarrow> Some language
            | None \<Rightarrow>
                (case live of
                   None \<Rightarrow> None
                 | Some ds \<Rightarrow>
                     map_option (\<lambda>(_, _, language). language)
                       (List.find (\<lambda>(l, prop, _). l = label \<and> prop = property) ds)))
     in case declared of
          Some language \<Rightarrow> score plane label property language query k
        | None \<Rightarrow> Inr [])"

section \<open>The pass-through reader\<close>

text \<open>Similarity search runs on the other operations, which \<open>uncached_base\<close> holds.\<close>

definition uncached_base :: "'t vtable \<Rightarrow> postcard \<Rightarrow> 't \<Rightarrow> plane_id \<Rightarrow> keyword_scan \<Rightarrow> reader" where
  "uncached_base V pc t plane score =
     \<lparr>rd_plane = plane,
      rd_node = get_node V pc t plane,
      rd_edge = get_edge V pc t plane,
      rd_neighbors = neighbors V t plane,
      rd_scan_all = scan_all V t plane,
      rd_scan_label = scan_label V t plane,
      rd_node_id_by_key = node_id_by_external_key V t plane,
      rd_vector_search = (\<lambda>label property query metric k. Inr []),
      rd_keyword_search = (\<lambda>label property query k.
        snapshot_keyword_search V t score plane None label property query k)\<rparr>"

definition uncached_reader ::
    "fenv \<Rightarrow> 't vtable \<Rightarrow> postcard \<Rightarrow> 't \<Rightarrow> plane_id \<Rightarrow> registry option \<Rightarrow> keyword_scan \<Rightarrow> reader" where
  "uncached_reader E V pc t plane registry score =
     (let base = uncached_base V pc t plane score in
      base\<lparr>rd_vector_search := (\<lambda>label property query metric k.
        res_bind (indexed_or_brute E base registry plane label property query metric k) (\<lambda>hits.
        visible_hits base hits label hit_id))\<rparr>)"

section \<open>What the executor relies on\<close>

locale graph_reader =
  fixes R :: reader and p :: plane_id and G :: agraph
  assumes node_law: "rd_node R n = Inr (map_option (node_rec p n) (ag_node G (p, n)))"
    and edge_law: "rd_edge R e = Inr (map_option (edge_rec p e) (ag_edge G (p, e)))"
    and scan_all_law: "rd_scan_all R = Inr (sorted_list_of_set {n. (p, n) \<in> dom (ag_node G)})"
    and scan_label_law: "rd_scan_label R l = Inr (sorted_list_of_set {n. has_label (ag_node G) p n l})"
    and key_law: "\<exists>r. rd_node_id_by_key R key = Inr r \<and> (\<forall>n. r = Some n \<longleftrightarrow> has_key (ag_node G) p n key)"
    and neighbors_law: "\<exists>outs ins. rd_neighbors R n Out ty = Inr outs \<and> rd_neighbors R n In ty = Inr ins \<and>
          rd_neighbors R n Both ty = Inr (outs @ ins) \<and> distinct outs \<and> distinct ins \<and>
          set outs = out_nbrs (ag_edge G) p n ty \<and> set ins = in_nbrs (ag_edge G) p n ty"
    and ends_law: "ag_ok G"
begin

lemma nbrs_total: "\<exists>ns. rd_neighbors R n d ty = Inr ns"
  using neighbors_law [of n ty] by (cases d) auto

end

lemma uncached_graph_reader:
  assumes "kv_txn V valid view" "db_ok valid view pc G t"
  shows "graph_reader (uncached_reader E V pc t p reg score) p G"
proof -
  obtain L T where d: "valid t" "reprD pc L T G (view t)" "ag_ok G" using assms(2) by (rule db_okE)
  note run = kv_txn.get_node_run [OF assms(1) d(1,2)] kv_txn.get_edge_run [OF assms(1) d(1,2)]
    kv_txn.scan_all_run [OF assms(1) d(1,2)] kv_txn.scan_label_run [OF assms(1) d(1,2)]
    kv_txn.neighbors_run [OF assms(1) d(1,2)]
  note key = kv_txn.node_id_by_external_key_run [OF assms(1) d(1) reprD_D(9) [OF d(2)], of p]
  have "\<exists>r. node_id_by_external_key V t p k = Inr r \<and> (\<forall>n. r = Some n \<longleftrightarrow> has_key (ag_node G) p n k)" for k
    using key(1) [of k] key(3) [of k] by auto
  then show ?thesis
    by unfold_locales
      (use run d(3) in \<open>simp_all add: uncached_reader_def uncached_base_def Let_def\<close>)
qed

text \<open>A stored graph is read through the pass-through reader.\<close>

locale stored_graph = kv_txn V valid view
  for V :: "'t vtable" and valid :: "'t \<Rightarrow> bool" and view :: "'t \<Rightarrow> kv" +
  fixes pc :: postcard and G :: agraph and t :: 't
    and E :: fenv and p :: plane_id and reg :: "registry option" and score :: keyword_scan
  assumes stored: "db_ok valid view pc G t"

sublocale stored_graph \<subseteq> rd: graph_reader "uncached_reader E V pc t p reg score" p G
  using uncached_graph_reader [OF kv_txn_axioms stored] .

interpretation mem_graph: stored_graph mem_vtable mem_inv mem_view ref_postcard graph3 demo3 E p reg score
  for E p reg score
  by unfold_locales (rule demo3_db)

section \<open>Exact search\<close>

text \<open>The nodes a search may return: in scope, with a vector at a finite distance.\<close>

definition in_scope :: "agraph \<Rightarrow> plane_id \<Rightarrow> str option \<Rightarrow> node_id \<Rightarrow> bool" where
  "in_scope G p label n \<longleftrightarrow>
     (case label of None \<Rightarrow> (p, n) \<in> dom (ag_node G) | Some l \<Rightarrow> has_label (ag_node G) p n l)"

definition near_at :: "fenv \<Rightarrow> agraph \<Rightarrow> plane_id \<Rightarrow> str \<Rightarrow> f32 list \<Rightarrow> metric \<Rightarrow> node_id \<Rightarrow> f32 option" where
  "near_at E G p property query metric n =
     (case Option.bind (map_option (node_rec p n) (ag_node G (p, n))) (\<lambda>node. vector_of node property) of
        None \<Rightarrow> None
      | Some v \<Rightarrow> let d = metric_distance E metric query v in if is_finite d then Some d else None)"

definition candidates :: "agraph \<Rightarrow> plane_id \<Rightarrow> str option \<Rightarrow> node_id list" where
  "candidates G p label = sorted_list_of_set {n. in_scope G p label n}"

context graph_reader begin

lemma brute_items_run:
  "brute_items E R property query metric ids =
     Inr (List.map_filter (\<lambda>n. map_option (Pair n) (near_at E G p property query metric n)) ids)"
proof (induction ids)
  case (Cons i ids)
  have step: "List.map_filter f (i # ids) = (case f i of None \<Rightarrow> List.map_filter f ids | Some x \<Rightarrow> x # List.map_filter f ids)"
    for f :: "node_id \<Rightarrow> (u64 \<times> f32) option"
    by (simp add: List.map_filter_def split: option.split)
  show ?case
    unfolding step near_at_def [of E G p property query metric i] using Cons
    by (simp add: node_law Let_def split: option.split)
qed (simp add: List.map_filter_def)

lemma brute_force_run:
  "brute_force_search E R label property query metric k =
     top_k E (List.map_filter (\<lambda>n. map_option (Pair n) (near_at E G p property query metric n))
       (candidates G p label)) k"
  by (cases label)
    (simp_all add: brute_force_search_def scan_all_law scan_label_law brute_items_run candidates_def in_scope_def)

end

end
