(* ===== verification/Algo.thy ===== *)
theory Algo
  imports Reader
begin

text \<open>
  \<open>compute/algo.rs\<close>: the compact frame of a plane (or of one label) and the whole-graph algorithms on it:
  PageRank, weakly connected components by union-find, and Dijkstra's shortest path. Nodes are renumbered
  to their positions in the scan.
\<close>

section \<open>The frame\<close>

type_synonym adjacency = "(nat \<times> edge_id) list list"

record frame =
  fr_nodes :: "node_id list"
  fr_out :: adjacency

definition frame_index :: "node_id list \<Rightarrow> node_id \<Rightarrow> nat option" where
  "frame_index nodes = map_of (rev (zip nodes [0..<length nodes]))"

definition frame_build :: "reader \<Rightarrow> str option \<Rightarrow> frame res" where
  "frame_build R label =
     res_bind (case label of Some l \<Rightarrow> rd_scan_label R l | None \<Rightarrow> rd_scan_all R) (\<lambda>nodes.
     res_bind (res_map (\<lambda>nid.
         res_bind (rd_neighbors R nid Out None) (\<lambda>ns.
         Inr (List.map_filter
           (\<lambda>nb. map_option (\<lambda>j. (j, nb_edge nb)) (frame_index nodes (nb_node nb))) ns))) nodes) (\<lambda>out.
     Inr \<lparr>fr_nodes = nodes, fr_out = out\<rparr>))"

definition transpose :: "adjacency \<Rightarrow> adjacency" where
  "transpose out =
     foldl (\<lambda>t (i, adj). foldl (\<lambda>t (j, e). t[j := t ! j @ [(i, e)]]) t adj)
       (replicate (length out) []) (enumerate 0 out)"

section \<open>PageRank\<close>

record pagerank_options =
  po_damping :: f64
  po_max_iters :: u32
  po_tolerance :: f64

definition pagerank_options_default :: pagerank_options where
  "pagerank_options_default =
     \<lparr>po_damping = 0x3FEB333333333333, po_max_iters = 20, po_tolerance = 0x3EB0C6F7A0B5ED8D\<rparr>"

text \<open>One iteration: the dangling mass, the base rank and the share of every edge.\<close>

definition pagerank_step :: "fenv \<Rightarrow> f64 \<Rightarrow> f64 \<Rightarrow> f64 \<Rightarrow> adjacency \<Rightarrow> f64 list \<Rightarrow> f64 list" where
  "pagerank_step E damping teleport nf out rank =
     (let plus = fadd (fe_nan64 E); times = fmul (fe_nan64 E); over = fdiv (fe_nan64 E);
          dangling = fsum (fe_nan64 E) (map snd (filter (\<lambda>(adj, r). adj = []) (zip out rank)));
          base = plus teleport (over (times damping dangling) nf);
          start = replicate (length rank) base
      in foldl (\<lambda>next (adj, r).
           if adj = [] then next
           else
             let share = over (times damping r) (f_of_int (int (length adj))) in
             foldl (\<lambda>next (j, _). next[j := plus (next ! j) share]) next adj)
           start (zip out rank))"

definition pagerank_delta :: "fenv \<Rightarrow> f64 list \<Rightarrow> f64 list \<Rightarrow> f64" where
  "pagerank_delta E next rank =
     fsum (fe_nan64 E) (map2 (\<lambda>a b. fabs (fsub (fe_nan64 E) a b)) next rank)"

fun pagerank_iter ::
    "fenv \<Rightarrow> f64 \<Rightarrow> f64 \<Rightarrow> f64 \<Rightarrow> f64 \<Rightarrow> adjacency \<Rightarrow> nat \<Rightarrow> f64 list \<Rightarrow> f64 list" where
  "pagerank_iter E damping teleport nf tol out 0 rank = rank"
| "pagerank_iter E damping teleport nf tol out (Suc k) rank =
     (let next = pagerank_step E damping teleport nf out rank in
      if flt (pagerank_delta E next rank) tol then next
      else pagerank_iter E damping teleport nf tol out k next)"

text \<open>Highest score first, ties by ascending id; scores that do not compare tie.\<close>

definition pagerank_cmp :: "node_id \<times> f64 \<Rightarrow> node_id \<times> f64 \<Rightarrow> ordering" where
  "pagerank_cmp a b =
     then_cmp (case fpartial_cmp (snd b) (snd a) of None \<Rightarrow> Equal | Some o' \<Rightarrow> o') (cmp (fst a) (fst b))"

definition pagerank :: "fenv \<Rightarrow> reader \<Rightarrow> str option \<Rightarrow> pagerank_options \<Rightarrow> (node_id \<times> f64) list res" where
  "pagerank E R label opts =
     res_bind (frame_build R label) (\<lambda>fr.
     let n = length (fr_nodes fr) in
     if n = 0 then Inr []
     else
       let nf = f_of_int (int n);
           rank = replicate n (fdiv (fe_nan64 E) fone nf);
           teleport = fdiv (fe_nan64 E) (fsub (fe_nan64 E) fone (po_damping opts)) nf;
           final = pagerank_iter E (po_damping opts) teleport nf (po_tolerance opts) (fr_out fr)
             (unat (po_max_iters opts)) rank
       in Inr (sort_by pagerank_cmp (zip (fr_nodes fr) final)))"

section \<open>Connected components\<close>

record union_find =
  uf_parent :: "nat list"
  uf_size :: "nat list"

definition uf_new :: "nat \<Rightarrow> union_find" where
  "uf_new n = \<lparr>uf_parent = [0..<n], uf_size = replicate n 1\<rparr>"

text \<open>
  \<open>find\<close> with path halving. The loop follows parents, so it ends within as many steps as there are
  nodes, the fuel it is given.
\<close>

fun uf_find_loop :: "nat \<Rightarrow> nat \<Rightarrow> nat list \<Rightarrow> nat \<times> nat list" where
  "uf_find_loop 0 x parent = (x, parent)"
| "uf_find_loop (Suc k) x parent =
     (if parent ! x = x then (x, parent)
      else
        let parent' = parent[x := parent ! (parent ! x)] in
        uf_find_loop k (parent' ! x) parent')"

definition uf_find :: "nat \<Rightarrow> union_find \<Rightarrow> nat \<times> union_find" where
  "uf_find x u =
     (case uf_find_loop (length (uf_parent u)) x (uf_parent u) of
        (r, parent) \<Rightarrow> (r, u\<lparr>uf_parent := parent\<rparr>))"

definition uf_union :: "nat \<Rightarrow> nat \<Rightarrow> union_find \<Rightarrow> union_find" where
  "uf_union a b u =
     (let (ra, u1) = uf_find a u; (rb, u2) = uf_find b u1 in
      if ra = rb then u2
      else
        let (big, small) = if uf_size u2 ! rb \<le> uf_size u2 ! ra then (ra, rb) else (rb, ra) in
        u2\<lparr>uf_parent := (uf_parent u2)[small := big],
           uf_size := (uf_size u2)[big := uf_size u2 ! big + uf_size u2 ! small]\<rparr>)"

definition cc_unions :: "adjacency \<Rightarrow> union_find" where
  "cc_unions out =
     foldl (\<lambda>u (i, adj). foldl (\<lambda>u (j, _). uf_union i j u) u adj) (uf_new (length out)) (enumerate 0 out)"

text \<open>The representative of a root is the smallest id of its set.\<close>

definition cc_rep_step ::
    "node_id option list \<times> union_find \<Rightarrow> nat \<times> node_id \<Rightarrow> node_id option list \<times> union_find" where
  "cc_rep_step s x =
     (case (s, x) of ((rep, u), (i, cur)) \<Rightarrow>
        let (r, u') = uf_find i u in
        (rep[r := Some (case rep ! r of Some existing \<Rightarrow> if existing \<le> cur then existing else cur | None \<Rightarrow> cur)], u'))"

fun uf_finds :: "nat list \<Rightarrow> union_find \<Rightarrow> nat list \<times> union_find" where
  "uf_finds [] u = ([], u)"
| "uf_finds (i # is) u =
     (let (r, u1) = uf_find i u; (rs, u2) = uf_finds is u1 in (r # rs, u2))"

definition connected_components :: "reader \<Rightarrow> str option \<Rightarrow> ((node_id \<times> node_id) list \<times> nat) res" where
  "connected_components R label =
     res_bind (frame_build R label) (\<lambda>fr.
     let n = length (fr_nodes fr);
         u0 = cc_unions (fr_out fr);
         (rep, u1) = foldl cc_rep_step (replicate n None, u0) (enumerate 0 (fr_nodes fr));
         (rs, u2) = uf_finds [0..<n] u1;
         count = length (filter (\<lambda>(i, r). r = i) (enumerate 0 rs));
         (rs', u3) = uf_finds [0..<n] u2
     in res_bind (res_map (\<lambda>(nid, r).
            res_bind (ok_or Panic (rep ! r)) (\<lambda>c. Inr (nid, c))) (zip (fr_nodes fr) rs')) (\<lambda>out.
        Inr (sort_by (\<lambda>a b. cmp (fst a) (fst b)) out, count)))"

section \<open>Shortest path\<close>

record sp_options =
  sp_dir :: dir
  sp_weight :: "str option"

definition sp_options_default :: sp_options where
  "sp_options_default = \<lparr>sp_dir = Out, sp_weight = None\<rparr>"

record path =
  pa_nodes :: "node_id list"
  pa_edges :: "edge_id list"
  pa_cost :: f64

definition succ_lists :: "dir \<Rightarrow> adjacency \<Rightarrow> adjacency" where
  "succ_lists d out =
     (case d of
        Out \<Rightarrow> out
      | In \<Rightarrow> transpose out
      | Both \<Rightarrow> map2 (@) out (transpose out))"

definition edge_weight :: "reader \<Rightarrow> edge_id \<Rightarrow> str option \<Rightarrow> f64 res" where
  "edge_weight R edge prop =
     (case prop of
        None \<Rightarrow> Inr fone
      | Some prop \<Rightarrow>
          res_bind (rd_edge R edge) (\<lambda>found.
          let w = (case found of
                     Some rec \<Rightarrow>
                       (case prop_of (er_properties rec) prop of
                          Some (PInt i) \<Rightarrow> f64_of_i64 i
                        | Some (PFloat f) \<Rightarrow> f
                        | _ \<Rightarrow> fone)
                   | None \<Rightarrow> fone)
          in Inr (if is_finite w \<and> fle fzero w then w else fzero)))"

text \<open>
  The heap holds pairs of a cost and a node; it pops the smallest cost, then the smallest node. Entries
  that compare equal are the same entry, so it does not matter which of them is popped.
\<close>

definition state_before :: "f64 \<times> nat \<Rightarrow> f64 \<times> nat \<Rightarrow> bool" where
  "state_before a b \<longleftrightarrow> (fkey (fst a), snd a) \<le> (fkey (fst b), snd b)"

fun pop_least :: "(f64 \<times> nat) list \<Rightarrow> ((f64 \<times> nat) \<times> (f64 \<times> nat) list) option" where
  "pop_least [] = None"
| "pop_least (x # xs) =
     (case pop_least xs of
        None \<Rightarrow> Some (x, [])
      | Some (m, rest) \<Rightarrow> if state_before x m then Some (x, xs) else Some (m, x # rest))"

record sp_state =
  ds_dist :: "f64 list"
  ds_prev :: "(nat \<times> edge_id) option list"
  ds_heap :: "(f64 \<times> nat) list"

fun relax ::
    "fenv \<Rightarrow> reader \<Rightarrow> str option \<Rightarrow> f64 \<Rightarrow> nat \<Rightarrow> (nat \<times> edge_id) list \<Rightarrow> sp_state \<Rightarrow> sp_state res" where
  "relax E R weight cost node [] s = Inr s"
| "relax E R weight cost node ((j, e) # es) s =
     res_bind (edge_weight R e weight) (\<lambda>w.
     let nd = fadd (fe_nan64 E) cost w in
     if length (ds_dist s) \<le> j then Inl Panic
     else if flt nd (ds_dist s ! j) then
       relax E R weight cost node es
         (s\<lparr>ds_dist := (ds_dist s)[j := nd], ds_prev := (ds_prev s)[j := Some (node, e)],
            ds_heap := ds_heap s @ [(nd, j)]\<rparr>)
     else relax E R weight cost node es s)"

text \<open>
  The loop ends: a pop that pushes nothing shrinks the heap, and every push strictly lowers a distance,
  of which there are finitely many floats.
\<close>

definition dist_measure :: "f64 list \<Rightarrow> nat" where
  "dist_measure ds = sum_list (map (\<lambda>d. nat (fkey d + 2 ^ 63)) ds)"

lemma fkey_bound: "0 \<le> fkey (x::f64) + 2 ^ 63"
  using fmag_less [of x] by (simp add: fkey_def)

lemma flt_key: "flt x y \<Longrightarrow> fkey x < fkey y"
  by (auto simp: flt_def fpartial_cmp_def cmp_iff split: if_splits)

lemma dist_measure_update:
  assumes "flt nd (ds ! j)" "j < length ds"
  shows "dist_measure (ds[j := nd]) < dist_measure ds"
proof -
  define f where "f d = nat (fkey (d::f64) + 2 ^ 63)" for d
  have "f nd < f (ds ! j)" unfolding f_def using flt_key [OF assms(1)] fkey_bound [of nd] by linarith
  moreover have "f (ds ! j) \<le> sum_list (map f ds)"
    using elem_le_sum_list [of j "map f ds"] assms(2) by simp
  ultimately show ?thesis
    unfolding dist_measure_def f_def [symmetric] using assms(2) by (simp add: map_update sum_list_update)
qed

lemma relax_measure:
  "relax E R weight cost node es s = Inr s' \<Longrightarrow> s' = s \<or> dist_measure (ds_dist s') < dist_measure (ds_dist s)"
proof (induction es arbitrary: s)
  case (Cons x es)
  obtain j e where x: "x = (j, e)" by (cases x)
  from Cons.prems obtain w where "edge_weight R e weight = Inr w" by (auto simp: x res_bind_eq_Inr)
  with Cons.prems Cons.IH show ?case
    by (fastforce simp: x Let_def not_le split: if_splits dest: dist_measure_update)
qed simp

lemma pop_least_None [simp]: "pop_least h = None \<longleftrightarrow> h = []"
  by (cases h) (auto split: option.splits)

lemma pop_least_length: "pop_least h = Some (m, rest) \<Longrightarrow> length h = Suc (length rest)"
  by (induction h arbitrary: m rest) (auto split: option.splits if_splits)

function dijkstra_loop ::
    "fenv \<Rightarrow> reader \<Rightarrow> str option \<Rightarrow> adjacency \<Rightarrow> nat \<Rightarrow> sp_state \<Rightarrow> sp_state res" where
  "dijkstra_loop E R weight succ t s =
     (case pop_least (ds_heap s) of
        None \<Rightarrow> Inr s
      | Some ((cost, node), rest) \<Rightarrow>
          let s1 = s\<lparr>ds_heap := rest\<rparr> in
          if node = t then Inr s1
          else if length (ds_dist s) \<le> node then Inl Panic
          else if flt (ds_dist s ! node) cost then dijkstra_loop E R weight succ t s1
          else
            case relax E R weight cost node (succ ! node) s1 of
              Inl e \<Rightarrow> Inl e
            | Inr s2 \<Rightarrow> dijkstra_loop E R weight succ t s2)"
  by pat_completeness auto
termination
proof (relation "inv_image (less_than <*lex*> less_than)
    (\<lambda>(E, R, weight, succ, t, s). (dist_measure (ds_dist s), length (ds_heap s)))", goal_cases)
  case (2 E R weight succ t s x m rest cost node s1)
  then show ?case using pop_least_length [of "ds_heap s"] by fastforce
next
  case (3 E R weight succ t s x m rest cost node s1 s2)
  then show ?case using pop_least_length [of "ds_heap s"] by (fastforce dest!: relax_measure)
qed auto

declare dijkstra_loop.simps [simp del]

text \<open>
  The predecessors from the target back to the source. The walk visits every node at most once, so as
  many steps as there are nodes are enough; \<open>None\<close> stands for a walk that does not end.
\<close>

fun trace_back :: "nat \<Rightarrow> (nat \<times> edge_id) option list \<Rightarrow> nat \<Rightarrow> (nat list \<times> edge_id list) option" where
  "trace_back 0 prev cur = None"
| "trace_back (Suc k) prev cur =
     (case prev ! cur of
        None \<Rightarrow> Some ([cur], [])
      | Some (p, e) \<Rightarrow> map_option (\<lambda>(ns, es). (cur # ns, e # es)) (trace_back k prev p))"

definition sp_start :: "nat \<Rightarrow> nat \<Rightarrow> sp_state" where
  "sp_start n s =
     \<lparr>ds_dist = (replicate n (fmake False (finf TYPE(64))))[s := fzero],
      ds_prev = replicate n None, ds_heap = [(fzero, s)]\<rparr>"

definition shortest_path ::
    "fenv \<Rightarrow> reader \<Rightarrow> str option \<Rightarrow> node_id \<Rightarrow> node_id \<Rightarrow> sp_options \<Rightarrow> path option res" where
  "shortest_path E R label src dst opts =
     res_bind (frame_build R label) (\<lambda>fr.
     case (frame_index (fr_nodes fr) src, frame_index (fr_nodes fr) dst) of
       (Some s, Some t) \<Rightarrow>
         let n = length (fr_nodes fr) in
         res_bind (dijkstra_loop E R (sp_weight opts) (succ_lists (sp_dir opts) (fr_out fr)) t (sp_start n s)) (\<lambda>d.
         if \<not> is_finite (ds_dist d ! t) then Inr None
         else
           res_bind (ok_or Panic (trace_back n (ds_prev d) t)) (\<lambda>(ns, es).
           Inr (Some \<lparr>pa_nodes = map ((!) (fr_nodes fr)) (rev ns), pa_edges = rev es,
                      pa_cost = ds_dist d ! t\<rparr>)))
     | _ \<Rightarrow> Inr None)"

end
