(* ===== verification/Louvain.thy ===== *)
theory Louvain
  imports Algo "HOL-Library.AList"
begin

text \<open>
  Louvain community detection (\<open>compute/algo.rs\<close>): an undirected weighted graph, greedy local moves and
  condensation of communities into super-nodes.

  A hash map from nodes to weights is an association list with distinct keys; the order in which the map
  is iterated is the parameter \<open>ho\<close>. The local moves are repeated while one of them improves, so the
  level is partial: \<open>None\<close> stands for a run that does not end.
\<close>

type_synonym weights = "(nat \<times> f64) list"

record wgraph =
  wg_adj :: "weights list"
  wg_self :: "f64 list"

record louvain_options =
  lo_max_levels :: u32
  lo_min_gain :: f64

definition louvain_options_default :: louvain_options where
  "louvain_options_default = \<lparr>lo_max_levels = 10, lo_min_gain = 0x3E112E0BE826D695\<rparr>"

text \<open>\<open>*map.entry(k).or_insert(0.0) += w\<close>.\<close>

definition entry_add :: "fenv \<Rightarrow> nat \<Rightarrow> f64 \<Rightarrow> weights \<Rightarrow> weights" where
  "entry_add E k w m =
     (case map_of m k of
        Some v \<Rightarrow> AList.update k (fadd (fe_nan64 E) v w) m
      | None \<Rightarrow> m @ [(k, fadd (fe_nan64 E) fzero w)])"

definition wgraph_of :: "fenv \<Rightarrow> adjacency \<Rightarrow> wgraph" where
  "wgraph_of E out =
     foldl (\<lambda>g (i, adj). foldl (\<lambda>g (j, _).
         if i = j then g\<lparr>wg_self := (wg_self g)[i := fadd (fe_nan64 E) (wg_self g ! i) fone]\<rparr>
         else
           let a1 = (wg_adj g)[i := entry_add E j fone (wg_adj g ! i)];
               a2 = a1[j := entry_add E i fone (a1 ! j)]
           in g\<lparr>wg_adj := a2\<rparr>) g adj)
       \<lparr>wg_adj = replicate (length out) [], wg_self = replicate (length out) fzero\<rparr> (enumerate 0 out)"

definition weight_sum :: "fenv \<Rightarrow> (weights \<Rightarrow> weights) \<Rightarrow> weights \<Rightarrow> f64" where
  "weight_sum E ho a = fsum (fe_nan64 E) (map snd (ho a))"

definition total_weight :: "fenv \<Rightarrow> (weights \<Rightarrow> weights) \<Rightarrow> wgraph \<Rightarrow> f64" where
  "total_weight E ho g =
     (let pairwise = fdiv (fe_nan64 E) (fsum (fe_nan64 E) (map (weight_sum E ho) (wg_adj g))) (f_of_int 2) in
      fadd (fe_nan64 E) pairwise (fsum (fe_nan64 E) (wg_self g)))"

definition degree :: "fenv \<Rightarrow> (weights \<Rightarrow> weights) \<Rightarrow> wgraph \<Rightarrow> nat \<Rightarrow> f64" where
  "degree E ho g i =
     fadd (fe_nan64 E) (weight_sum E ho (wg_adj g ! i)) (fmul (fe_nan64 E) (f_of_int 2) (wg_self g ! i))"

text \<open>The weight from a node into each neighbouring community.\<close>

definition weight_to :: "fenv \<Rightarrow> (weights \<Rightarrow> weights) \<Rightarrow> nat list \<Rightarrow> weights \<Rightarrow> weights" where
  "weight_to E ho comm a = foldl (\<lambda>m (j, w). entry_add E (comm ! j) w m) [] (ho a)"

definition gain_of :: "fenv \<Rightarrow> f64 \<Rightarrow> f64 \<Rightarrow> f64 \<Rightarrow> f64 \<Rightarrow> f64" where
  "gain_of E two_m w tot deg =
     fsub (fe_nan64 E) w (fdiv (fe_nan64 E) (fmul (fe_nan64 E) tot deg) two_m)"

definition best_move :: "fenv \<Rightarrow> f64 \<Rightarrow> f64 \<Rightarrow> f64 list \<Rightarrow> f64 \<Rightarrow> nat \<Rightarrow> weights \<Rightarrow> nat" where
  "best_move E min_gain two_m tot deg ci w_to =
     fst (foldl (\<lambda>(best_comm, best_gain) (c, w).
         let gain = gain_of E two_m w (tot ! c) deg in
         if flt (fadd (fe_nan64 E) best_gain min_gain) gain then (c, gain) else (best_comm, best_gain))
       (ci, gain_of E two_m (case map_of w_to ci of Some w \<Rightarrow> w | None \<Rightarrow> fzero) (tot ! ci) deg)
       (sort_by (\<lambda>a b. cmp (fst a) (fst b)) w_to))"

definition move_node ::
    "fenv \<Rightarrow> (weights \<Rightarrow> weights) \<Rightarrow> wgraph \<Rightarrow> f64 \<Rightarrow> f64 \<Rightarrow> f64 list \<Rightarrow>
     nat list \<times> f64 list \<times> bool \<Rightarrow> nat \<Rightarrow> nat list \<times> f64 list \<times> bool" where
  "move_node E ho g min_gain two_m deg st i =
     (case st of (comm, tot, improved) \<Rightarrow>
        let ci = comm ! i;
            w_to = weight_to E ho comm (wg_adj g ! i);
            tot1 = tot[ci := fsub (fe_nan64 E) (tot ! ci) (deg ! i)];
            best = best_move E min_gain two_m tot1 (deg ! i) ci w_to;
            tot2 = tot1[best := fadd (fe_nan64 E) (tot1 ! best) (deg ! i)]
        in if best \<noteq> ci then (comm[i := best], tot2, True) else (comm, tot2, improved))"

definition move_pass ::
    "fenv \<Rightarrow> (weights \<Rightarrow> weights) \<Rightarrow> wgraph \<Rightarrow> f64 \<Rightarrow> f64 \<Rightarrow> f64 list \<Rightarrow>
     nat list \<times> f64 list \<Rightarrow> nat list \<times> f64 list \<times> bool" where
  "move_pass E ho g min_gain two_m deg st =
     foldl (move_node E ho g min_gain two_m deg) (fst st, snd st, False) [0..<length (wg_adj g)]"

partial_function (option) move_loop ::
    "(nat list \<times> f64 list \<Rightarrow> nat list \<times> f64 list \<times> bool) \<Rightarrow> nat list \<times> f64 list \<Rightarrow> nat list option" where
  "move_loop pass st =
     (case pass st of (comm, tot, improved) \<Rightarrow>
        if improved then move_loop pass (comm, tot) else Some comm)"

definition renumber :: "nat list \<Rightarrow> nat list" where
  "renumber labels =
     snd (foldl (\<lambda>(m, out) l.
         case map_of m l of
           Some i \<Rightarrow> (m, out @ [i])
         | None \<Rightarrow> (m @ [(l, length m)], out @ [length m]))
       ([] :: (nat \<times> nat) list, []) labels)"

definition one_level :: "fenv \<Rightarrow> (weights \<Rightarrow> weights) \<Rightarrow> wgraph \<Rightarrow> f64 \<Rightarrow> nat list option" where
  "one_level E ho g min_gain =
     (let n = length (wg_adj g);
          two_m = fmul (fe_nan64 E) (f_of_int 2) (total_weight E ho g);
          deg = map (degree E ho g) [0..<n]
      in if feq two_m fzero then Some [0..<n]
         else map_option renumber (move_loop (move_pass E ho g min_gain two_m deg) ([0..<n], deg)))"

definition condense :: "fenv \<Rightarrow> (weights \<Rightarrow> weights) \<Rightarrow> wgraph \<Rightarrow> nat list \<Rightarrow> wgraph" where
  "condense E ho g membership =
     (let k = (if membership = [] then 0 else Suc (foldl max 0 membership)) in
      foldl (\<lambda>g' i.
          let ci = membership ! i;
              g1 = g'\<lparr>wg_self := (wg_self g')[ci := fadd (fe_nan64 E) (wg_self g' ! ci) (wg_self g ! i)]\<rparr>
          in foldl (\<lambda>g' (j, w).
               let cj = membership ! j in
               if ci = cj then
                 g'\<lparr>wg_self := (wg_self g')[ci := fadd (fe_nan64 E) (wg_self g' ! ci)
                      (fdiv (fe_nan64 E) w (f_of_int 2))]\<rparr>
               else g'\<lparr>wg_adj := (wg_adj g')[ci := entry_add E cj w (wg_adj g' ! ci)]\<rparr>)
             g1 (ho (wg_adj g ! i)))
        \<lparr>wg_adj = replicate k [], wg_self = replicate k fzero\<rparr> [0..<length (wg_adj g)])"

fun levels ::
    "fenv \<Rightarrow> (weights \<Rightarrow> weights) \<Rightarrow> f64 \<Rightarrow> nat \<Rightarrow> wgraph \<Rightarrow> nat list \<Rightarrow> nat list option" where
  "levels E ho min_gain 0 g community = Some community"
| "levels E ho min_gain (Suc k) g community =
     Option.bind (one_level E ho g min_gain) (\<lambda>membership.
     let moved = list_ex (\<lambda>(i, c). c \<noteq> i) (enumerate 0 membership);
         community' = map ((!) membership) community
     in if \<not> moved then Some community'
        else levels E ho min_gain k (condense E ho g membership) community')"

text \<open>The smallest id of every community.\<close>

definition community_reps :: "(node_id \<times> nat) list \<Rightarrow> (nat \<times> node_id) list" where
  "community_reps xs =
     foldl (\<lambda>rep (i, c).
         case map_of rep c of
           Some e \<Rightarrow> if i < e then AList.update c i rep else rep
         | None \<Rightarrow> rep @ [(c, i)]) [] xs"

definition louvain ::
    "fenv \<Rightarrow> (weights \<Rightarrow> weights) \<Rightarrow> reader \<Rightarrow> str option \<Rightarrow> louvain_options \<Rightarrow>
     ((node_id \<times> node_id) list \<times> nat) res option" where
  "louvain E ho R label opts =
     (case frame_build R label of
        Inl e \<Rightarrow> Some (Inl e)
      | Inr fr \<Rightarrow>
          let n = length (fr_nodes fr) in
          if n = 0 then Some (Inr ([], 0))
          else
            map_option (\<lambda>community.
                let placed = zip (fr_nodes fr) community;
                    rep = community_reps placed
                in res_bind (res_map (\<lambda>(i, c).
                     res_bind (ok_or Panic (map_of rep c)) (\<lambda>r. Inr (i, r))) placed) (\<lambda>out.
                   Inr (sort_by (\<lambda>a b. cmp (fst a) (fst b)) out, length rep)))
              (levels E ho (lo_min_gain opts) (unat (lo_max_levels opts))
                 (wgraph_of E (fr_out fr)) [0..<n]))"

end
