(* ===== verification/Fusion.thy ===== *)
theory Fusion
  imports Louvain
begin

text \<open>
  \<open>compute/hybrid.rs\<close>: hybrid retrieval. Up to three ranked channels (vector distance, keyword score,
  graph proximity) are normalised to a common range and fused by a weighted sum.

  The environment \<open>qenv\<close> holds what the query engine takes from elsewhere: floating point, \<open>f32::powi\<close>,
  and the order in which a hash map is iterated.
\<close>

record qenv =
  qe_float :: fenv
  qe_powi :: "f32 \<Rightarrow> 32 word \<Rightarrow> f32"
  qe_order :: "(node_id \<times> u32) list \<Rightarrow> (node_id \<times> u32) list"
  qe_weights :: "weights \<Rightarrow> weights"

record hybrid_hit =
  hh_node :: node_id
  hh_score :: f32
  hh_vector :: "f32 option"
  hh_keyword :: "f32 option"
  hh_graph :: "f32 option"

definition hybrid_weights_default :: hybrid_weights where
  "hybrid_weights_default = \<lparr>hw_vector = fone, hw_keyword = fone, hw_graph = 0x3F000000\<rparr>"

record channel =
  ch_hits :: "(node_id \<times> f32) list"
  ch_higher_better :: bool

section \<open>Normalisation\<close>

text \<open>\<open>f32::min\<close> and \<open>f32::max\<close>: a NaN loses; of two equal operands the first is kept.\<close>

definition fmin :: "'a::len word \<Rightarrow> 'a word \<Rightarrow> 'a word" where
  "fmin x y = (if is_nan x then y else if flt y x then y else x)"

definition fmax :: "'a::len word \<Rightarrow> 'a word \<Rightarrow> 'a word" where
  "fmax x y = (if is_nan x then y else if flt x y then y else x)"

definition channel_lo :: "channel \<Rightarrow> f32" where
  "channel_lo c = foldl (\<lambda>lo (_, s). fmin lo s) (fmake False (finf TYPE(32))) (ch_hits c)"

definition channel_hi :: "channel \<Rightarrow> f32" where
  "channel_hi c = foldl (\<lambda>hi (_, s). fmax hi s) (fmake True (finf TYPE(32))) (ch_hits c)"

definition norm_score :: "fenv \<Rightarrow> channel \<Rightarrow> f32 \<Rightarrow> f32" where
  "norm_score E c s =
     (let lo = channel_lo c; hi = channel_hi c; span = fsub (fe_nan32 E) hi lo in
      if fle span 0x34000000 then fone
      else if ch_higher_better c then fdiv (fe_nan32 E) (fsub (fe_nan32 E) s lo) span
      else fdiv (fe_nan32 E) (fsub (fe_nan32 E) hi s) span)"

text \<open>A hash map collected from pairs keeps the last value of a key.\<close>

definition normalized :: "fenv \<Rightarrow> channel \<Rightarrow> node_id \<rightharpoonup> f32" where
  "normalized E c = map_of (rev (map (\<lambda>(n, s). (n, norm_score E c s)) (ch_hits c)))"

definition raw :: "channel \<Rightarrow> node_id \<rightharpoonup> f32" where
  "raw c = map_of (rev (ch_hits c))"

section \<open>Fusion\<close>

definition finite_hits :: "channel \<Rightarrow> channel" where
  "finite_hits c = c\<lparr>ch_hits := filter (\<lambda>(_, s). is_finite s) (ch_hits c)\<rparr>"

definition contrib :: "fenv \<Rightarrow> channel option \<Rightarrow> f32 \<Rightarrow> node_id \<Rightarrow> f32" where
  "contrib E c w node =
     fmul (fe_nan32 E)
       (case Option.bind c (\<lambda>c. normalized E c node) of None \<Rightarrow> fzero | Some s \<Rightarrow> s) w"

definition channel_nodes :: "channel option \<Rightarrow> node_id list" where
  "channel_nodes c = (case c of None \<Rightarrow> [] | Some c \<Rightarrow> map fst (ch_hits c))"

definition hybrid_cmp :: "hybrid_hit \<Rightarrow> hybrid_hit \<Rightarrow> ordering" where
  "hybrid_cmp a b = then_cmp (ftotal_cmp (hh_score b) (hh_score a)) (cmp (hh_node a) (hh_node b))"

definition fuse_hit ::
    "fenv \<Rightarrow> channel option \<Rightarrow> channel option \<Rightarrow> channel option \<Rightarrow> hybrid_weights \<Rightarrow> node_id \<Rightarrow> hybrid_hit" where
  "fuse_hit E v k g w node =
     \<lparr>hh_node = node,
      hh_score =
        fadd (fe_nan32 E)
          (fadd (fe_nan32 E) (contrib E v (hw_vector w) node) (contrib E k (hw_keyword w) node))
          (contrib E g (hw_graph w) node),
      hh_vector = Option.bind v (\<lambda>c. raw c node),
      hh_keyword = Option.bind k (\<lambda>c. raw c node),
      hh_graph = Option.bind g (\<lambda>c. raw c node)\<rparr>"

definition fuse ::
    "fenv \<Rightarrow> channel option \<Rightarrow> channel option \<Rightarrow> channel option \<Rightarrow> hybrid_weights \<Rightarrow> nat \<Rightarrow> hybrid_hit list" where
  "fuse E vector keyword graph weights k =
     (let v = map_option finite_hits vector;
          kw = map_option finite_hits keyword;
          g = map_option finite_hits graph;
          nodes = sorted_list_of_set (set (channel_nodes v @ channel_nodes kw @ channel_nodes g))
      in take k (sort_by hybrid_cmp (map (fuse_hit E v kw g weights) nodes)))"

section \<open>Graph proximity\<close>

definition top_seeds :: "channel option \<Rightarrow> channel option \<Rightarrow> nat \<Rightarrow> node_id list" where
  "top_seeds vector keyword n =
     sorted_list_of_set (set (take n (channel_nodes vector) @ take n (channel_nodes keyword)))"

text \<open>One level of the breadth-first search: the distances, and the nodes newly reached.\<close>

fun prox_visit ::
    "u32 \<Rightarrow> neighbor list \<Rightarrow> (node_id \<times> u32) list \<times> node_id list \<Rightarrow> (node_id \<times> u32) list \<times> node_id list" where
  "prox_visit d [] s = s"
| "prox_visit d (nb # nbs) (dist, next) =
     prox_visit d nbs
       (if map_of dist (nb_node nb) = None then (dist @ [(nb_node nb, d)], next @ [nb_node nb])
        else (dist, next))"

fun prox_level ::
    "reader \<Rightarrow> u32 \<Rightarrow> node_id list \<Rightarrow> (node_id \<times> u32) list \<times> node_id list \<Rightarrow>
     ((node_id \<times> u32) list \<times> node_id list) res" where
  "prox_level R d [] s = Inr s"
| "prox_level R d (node # nodes) s =
     res_bind (rd_neighbors R node Both None) (\<lambda>nbs. prox_level R d nodes (prox_visit d nbs s))"

fun prox_loop ::
    "reader \<Rightarrow> nat \<Rightarrow> u32 \<Rightarrow> (node_id \<times> u32) list \<Rightarrow> node_id list \<Rightarrow> (node_id \<times> u32) list res" where
  "prox_loop R 0 d dist frontier = Inr dist"
| "prox_loop R (Suc k) d dist frontier =
     res_bind (prox_level R d frontier (dist, [])) (\<lambda>(dist', next).
     if next = [] then Inr dist' else prox_loop R k (d + 1) dist' next)"

fun prox_scores ::
    "qenv \<Rightarrow> reader \<Rightarrow> str option \<Rightarrow> f32 \<Rightarrow> (node_id \<times> u32) list \<Rightarrow> (node_id \<times> f32) list res" where
  "prox_scores Q R label decay [] = Inr []"
| "prox_scores Q R label decay ((node, d) # rest) =
     res_bind (case label of
         None \<Rightarrow> Inr True
       | Some l \<Rightarrow>
           res_bind (rd_node R node) (\<lambda>found.
           Inr (case found of None \<Rightarrow> False | Some n \<Rightarrow> l \<in> set (nr_labels n)))) (\<lambda>carries.
     res_bind (prox_scores Q R label decay rest) (\<lambda>out.
     Inr (if carries then (node, qe_powi Q decay d) # out else out)))"

definition graph_proximity ::
    "qenv \<Rightarrow> reader \<Rightarrow> str option \<Rightarrow> node_id list \<Rightarrow> u32 \<Rightarrow> f32 \<Rightarrow> (node_id \<times> f32) list res" where
  "graph_proximity Q R label seeds hops decay =
     (let dist = foldl (\<lambda>m s. if map_of m s = None then m @ [(s, 0)] else m) [] seeds;
          frontier = map fst (qe_order Q dist)
      in res_bind (prox_loop R (unat hops) 1 dist frontier) (\<lambda>dist'.
         prox_scores Q R label decay (qe_order Q dist')))"

section \<open>A hybrid query\<close>

definition hybrid_run :: "qenv \<Rightarrow> reader \<Rightarrow> hybrid_spec \<Rightarrow> hybrid_hit list res" where
  "hybrid_run Q R spec =
     res_bind (case hs_vector spec of
         None \<Rightarrow> Inr None
       | Some v \<Rightarrow>
           res_bind (rd_vector_search R (hs_label spec) (vc_property v) (vc_query v) (vc_metric v)
               (hs_candidates spec)) (\<lambda>hits.
           Inr (Some \<lparr>ch_hits = map (\<lambda>h. (hit_id h, hit_distance h)) hits, ch_higher_better = False\<rparr>)))
       (\<lambda>vector.
     res_bind (case hs_keyword spec of
         None \<Rightarrow> Inr None
       | Some kw \<Rightarrow>
           res_bind (ok_or InvalidArgument (hs_label spec)) (\<lambda>label.
           res_bind (rd_keyword_search R label (kc_property kw) (kc_query kw) (hs_candidates spec)) (\<lambda>hits.
           Inr (Some \<lparr>ch_hits = hits, ch_higher_better = True\<rparr>))))
       (\<lambda>keyword.
     res_bind (case hs_graph spec of
         None \<Rightarrow> Inr None
       | Some g \<Rightarrow>
           res_bind (graph_proximity Q R (hs_label spec) (top_seeds vector keyword (gc_seeds g))
               (gc_hops g) (gc_decay g)) (\<lambda>hits.
           Inr (Some \<lparr>ch_hits = hits, ch_higher_better = True\<rparr>)))
       (\<lambda>graph.
     Inr (fuse (qe_float Q) vector keyword graph (hs_weights spec) (hs_k spec)))))"

end
