(* ===== verification/Exec.thy ===== *)
theory Exec
  imports Fusion
begin

text \<open>
  \<open>compute/exec.rs\<close>, the rows: a plan runs as a chain of adapters over a stream of rows. A stream is the
  list of the items its consumer pulls, each a row or an error. A row holds its current node, where it
  started, the hops between them and an optional score.
\<close>

section \<open>Rows\<close>

text \<open>The trail is the list of hops, newest first.\<close>

record row =
  rw_head :: node_id
  rw_origin :: node_id
  rw_trail :: "(edge_id \<times> node_id) list"
  rw_hops :: u32
  rw_score :: "f32 option"

definition row_start :: "node_id \<Rightarrow> row" where
  "row_start head = \<lparr>rw_head = head, rw_origin = head, rw_trail = [], rw_hops = 0, rw_score = None\<rparr>"

definition row_scored :: "node_id \<Rightarrow> f32 \<Rightarrow> row" where
  "row_scored head score =
     \<lparr>rw_head = head, rw_origin = head, rw_trail = [], rw_hops = 0, rw_score = Some score\<rparr>"

definition row_step :: "row \<Rightarrow> edge_id \<Rightarrow> node_id \<Rightarrow> row" where
  "row_step r edge node =
     \<lparr>rw_head = node, rw_origin = rw_origin r, rw_trail = (edge, node) # rw_trail r,
      rw_hops = rw_hops r + 1, rw_score = rw_score r\<rparr>"

definition row_with_score :: "row \<Rightarrow> f32 \<Rightarrow> row" where
  "row_with_score r score = r\<lparr>rw_score := Some score\<rparr>"

definition row_path :: "row \<Rightarrow> (edge_id \<times> node_id) list" where
  "row_path r = rev (rw_trail r)"

definition row_ctx :: "row \<Rightarrow> node_record option \<Rightarrow> bindings \<Rightarrow> eval_ctx" where
  "row_ctx r node b =
     \<lparr>cx_node = node, cx_score = rw_score r, cx_hops = unat (rw_hops r), cx_bindings = b\<rparr>"

section \<open>Bindings of a row\<close>

definition hop_edge :: "reader \<Rightarrow> edge_id \<Rightarrow> node_id \<Rightarrow> node_id \<Rightarrow> (edge_record \<times> dir) option res" where
  "hop_edge R edge from to =
     res_bind (rd_edge R edge) (\<lambda>found.
     Inr (map_option (\<lambda>e. (e, if er_src e = from \<and> er_dst e = to then Out else In)) found))"

definition node_at :: "row \<Rightarrow> nat \<Rightarrow> node_id" where
  "node_at r slot = (if slot = 0 then rw_origin r else snd (row_path r ! (slot - 1)))"

definition resolve_nodes :: "reader \<Rightarrow> row \<Rightarrow> u32 option \<Rightarrow> node_record option list res" where
  "resolve_nodes R r need =
     (case need of
        None \<Rightarrow> Inr []
      | Some m \<Rightarrow>
          res_map (\<lambda>slot. if slot \<le> length (row_path r) then rd_node R (node_at r slot) else Inr None)
            [0..<Suc (unat m)])"

definition resolve_edges :: "reader \<Rightarrow> row \<Rightarrow> u32 option \<Rightarrow> (edge_record \<times> dir) option list res" where
  "resolve_edges R r need =
     (case need of
        None \<Rightarrow> Inr []
      | Some m \<Rightarrow>
          res_map (\<lambda>hop. if hop < length (row_path r)
              then hop_edge R (fst (row_path r ! hop)) (node_at r hop) (snd (row_path r ! hop))
              else Inr None)
            [0..<Suc (unat m)])"

definition resolve_last :: "reader \<Rightarrow> row \<Rightarrow> bool \<Rightarrow> (edge_record \<times> dir) option res" where
  "resolve_last R r need =
     (if need \<and> row_path r \<noteq> [] then
        let hop = length (row_path r) - 1 in
        hop_edge R (fst (row_path r ! hop)) (node_at r hop) (snd (row_path r ! hop))
      else Inr None)"

definition resolve_bindings :: "reader \<Rightarrow> row \<Rightarrow> binding_need \<Rightarrow> bindings res" where
  "resolve_bindings R r need =
     (if \<not> need_any need then Inr bindings_default
      else
        res_bind (resolve_nodes R r (nd_nodes need)) (\<lambda>nodes.
        res_bind (resolve_edges R r (nd_edges need)) (\<lambda>edges.
        res_bind (resolve_last R r (nd_last_edge need)) (\<lambda>l.
        Inr \<lparr>bn_nodes = nodes, bn_edges = edges, bn_edge = l\<rparr>))))"

definition row_values :: "fenv \<Rightarrow> reader \<Rightarrow> row \<Rightarrow> expr list \<Rightarrow> binding_need \<Rightarrow> prop_value list res" where
  "row_values E R r exprs need =
     res_bind (rd_node R (rw_head r)) (\<lambda>node.
     res_bind (resolve_bindings R r need) (\<lambda>bound.
     Inr (map (\<lambda>e. eval E e (row_ctx r node bound)) exprs)))"

definition matches_pred :: "fenv \<Rightarrow> reader \<Rightarrow> row \<Rightarrow> expr \<Rightarrow> binding_need \<Rightarrow> bool res" where
  "matches_pred E R r pred need =
     res_bind (rd_node R (rw_head r)) (\<lambda>node.
     res_bind (resolve_bindings R r need) (\<lambda>bound.
     Inr (is_true (eval E pred (row_ctx r node bound)))))"

section \<open>Streams and the deadline\<close>

type_synonym stream = "row res list"

text \<open>
  A stream with a deadline reads the clock before the first item and then every 1024 items; \<open>late i\<close>
  is whether the \<open>i\<close>-th reading of its clock is past the deadline.
\<close>

definition deadline_check_every :: nat where
  "deadline_check_every = 1024"

fun deadlined_items :: "(nat \<Rightarrow> bool) \<Rightarrow> nat \<Rightarrow> nat \<Rightarrow> stream \<Rightarrow> stream" where
  "deadlined_items late i since xs =
     (let due = (since = 0 \<or> deadline_check_every \<le> since) in
      if due \<and> late i then [Inl Timeout]
      else
        case xs of
          [] \<Rightarrow> []
        | x # xs' \<Rightarrow> x # deadlined_items late (if due then Suc i else i) (if due then 1 else Suc since) xs')"

declare deadlined_items.simps [simp del]

definition deadlined :: "(nat \<Rightarrow> bool) option \<Rightarrow> stream \<Rightarrow> stream" where
  "deadlined deadline xs =
     (case deadline of None \<Rightarrow> xs | Some late \<Rightarrow> deadlined_items late 0 0 xs)"

text \<open>\<open>collect\<close>: the first error, or every row.\<close>

definition drain :: "stream \<Rightarrow> row list res" where
  "drain xs = res_map (\<lambda>x. x) xs"

section \<open>Sources\<close>

definition clamp_usize :: "u64 \<Rightarrow> nat" where
  "clamp_usize n = unat n"

fun seek_ids :: "reader \<Rightarrow> node_id list \<Rightarrow> node_id list res" where
  "seek_ids R [] = Inr []"
| "seek_ids R (i # ids) =
     res_bind (rd_node R i) (\<lambda>found.
     res_bind (seek_ids R ids) (\<lambda>out. Inr (if found = None then out else i # out)))"

fun seek_keys :: "reader \<Rightarrow> str list \<Rightarrow> node_id list res" where
  "seek_keys R [] = Inr []"
| "seek_keys R (k # ks) =
     res_bind (rd_node_id_by_key R k) (\<lambda>found.
     res_bind (seek_keys R ks) (\<lambda>out. Inr (case found of None \<Rightarrow> out | Some i \<Rightarrow> i # out)))"

definition resolve_ref :: "reader \<Rightarrow> node_ref \<Rightarrow> node_id option res" where
  "resolve_ref R ref =
     (case ref of
        RefId i \<Rightarrow> res_bind (rd_node R i) (\<lambda>found. Inr (map_option (\<lambda>_. i) found))
      | RefKey key \<Rightarrow> rd_node_id_by_key R key)"

text \<open>Communities are numbered in the order in which they first appear.\<close>

definition group_step ::
    "(node_id \<times> nat) list \<times> (nat \<times> node_id) list \<Rightarrow> node_id \<times> node_id \<Rightarrow>
     (node_id \<times> nat) list \<times> (nat \<times> node_id) list" where
  "group_step s a =
     (case (s, a) of ((index, rows), (node, community)) \<Rightarrow>
        case map_of index community of
          Some i \<Rightarrow> (index, rows @ [(i, node)])
        | None \<Rightarrow> (index @ [(community, length index)], rows @ [(length index, node)]))"

definition grouped_rows :: "(node_id \<times> node_id) list \<Rightarrow> row list" where
  "grouped_rows assignments =
     map (\<lambda>(i, node). row_scored node (f_of_int (int i)))
       (sort_by (\<lambda>a b. then_cmp (cmp (fst a) (fst b)) (cmp (snd a) (snd b)))
         (snd (foldl group_step ([], []) assignments)))"

text \<open>\<open>None\<close> stands for an algorithm that does not end.\<close>

definition algo_rows :: "qenv \<Rightarrow> reader \<Rightarrow> str option \<Rightarrow> algo \<Rightarrow> row list res option" where
  "algo_rows Q R label spec =
     (let E = qe_float Q in
      case spec of
        PageRank damping max_iters tolerance \<Rightarrow>
          Some (res_bind (pagerank E R label
              \<lparr>po_damping = damping, po_max_iters = max_iters, po_tolerance = tolerance\<rparr>) (\<lambda>ranks.
            Inr (map (\<lambda>(i, rank). row_scored i (f32_of_f64 (fe_nan32 E) rank)) ranks)))
      | ConnectedComponents \<Rightarrow>
          Some (res_bind (connected_components R label) (\<lambda>(assignments, _). Inr (grouped_rows assignments)))
      | Louvain max_levels min_gain \<Rightarrow>
          map_option (\<lambda>r. res_bind r (\<lambda>(assignments, _). Inr (grouped_rows assignments)))
            (louvain E (qe_weights Q) R label \<lparr>lo_max_levels = max_levels, lo_min_gain = min_gain\<rparr>)
      | ShortestPath from to d weight \<Rightarrow>
          Some (res_bind (resolve_ref R from) (\<lambda>src.
            res_bind (resolve_ref R to) (\<lambda>dst.
            case (src, dst) of
              (Some s, Some t) \<Rightarrow>
                res_bind (shortest_path E R label s t \<lparr>sp_dir = d, sp_weight = weight\<rparr>) (\<lambda>found.
                Inr (case found of
                       None \<Rightarrow> []
                     | Some path \<Rightarrow> map (\<lambda>(i, n). row_scored n (f_of_int (int i))) (enumerate 0 (pa_nodes path))))
            | _ \<Rightarrow> Inr []))))"

definition source_rows :: "qenv \<Rightarrow> reader \<Rightarrow> source \<Rightarrow> row list res option" where
  "source_rows Q R src =
     (let starts = (\<lambda>ids. res_bind ids (\<lambda>ids. Inr (map row_start ids))) in
      case src of
        ScanAll \<Rightarrow> Some (starts (rd_scan_all R))
      | ScanLabel label \<Rightarrow> Some (starts (rd_scan_label R label))
      | SeekIds ids \<Rightarrow> Some (starts (seek_ids R ids))
      | SeekKeys keys \<Rightarrow> Some (starts (seek_keys R keys))
      | VectorTopK label property query metric k \<Rightarrow>
          Some (res_bind (rd_vector_search R label property query metric (clamp_usize k)) (\<lambda>hits.
            Inr (map (\<lambda>h. row_scored (hit_id h)
              (similarity_from_distance (qe_float Q) metric (hit_distance h))) hits)))
      | KeywordTopK label property query k \<Rightarrow>
          Some (res_bind (rd_keyword_search R label property query (clamp_usize k)) (\<lambda>hits.
            Inr (map (\<lambda>(i, s). row_scored i s) hits)))
      | Hybrid spec \<Rightarrow>
          Some (res_bind (hybrid_run Q R spec) (\<lambda>hits.
            Inr (map (\<lambda>h. row_scored (hh_node h) (hh_score h)) hits)))
      | Algo label a \<Rightarrow> algo_rows Q R label a)"

end
