(* ===== verification/Exec_Steps.thy ===== *)
theory Exec_Steps
  imports Exec
begin

text \<open>
  \<open>compute/exec.rs\<close>, the steps: expansion along edges, filtering, skipping, deduplication, and the
  barriers that drain their input. \<open>execute_with\<close> chains the steps of a plan over its source.
\<close>

section \<open>Expansion\<close>

definition expand_one :: "reader \<Rightarrow> row res \<Rightarrow> dir \<Rightarrow> str option \<Rightarrow> stream" where
  "expand_one R rr d ty =
     (case rr of
        Inl e \<Rightarrow> [Inl e]
      | Inr r \<Rightarrow>
          (case rd_neighbors R (rw_head r) d ty of
             Inl e \<Rightarrow> [Inl e]
           | Inr ns \<Rightarrow> map (\<lambda>n. Inr (row_step r (nb_edge n) (nb_node n))) ns))"

text \<open>
  Variable-length expansion: depth first, with an explicit stack whose top is the head of the list. An
  error of a row's expansion follows the row.
\<close>

definition var_children ::
    "reader \<Rightarrow> dir \<Rightarrow> str option \<Rightarrow> u32 \<Rightarrow> row \<Rightarrow> u32 \<Rightarrow> (row \<times> u32) list \<times> stream" where
  "var_children R d ty mx r depth =
     (if depth < mx then
        case rd_neighbors R (rw_head r) d ty of
          Inl e \<Rightarrow> ([], [Inl e])
        | Inr ns \<Rightarrow> (rev (map (\<lambda>n. (row_step r (nb_edge n) (nb_node n), depth + 1)) ns), [])
      else ([], []))"

lemma next_depth: "depth < (mx::u32) \<Longrightarrow> unat (depth + 1) = Suc (unat depth)"
proof -
  assume "depth < mx"
  moreover have "unat mx < 2 ^ LENGTH(32)" by (rule unsigned_less)
  ultimately show ?thesis by (simp add: word_less_nat_alt unat_word_ariths)
qed

function expand_var_items ::
    "reader \<Rightarrow> dir \<Rightarrow> str option \<Rightarrow> u32 \<Rightarrow> u32 \<Rightarrow> (row \<times> u32) list \<Rightarrow> stream" where
  "expand_var_items R d ty mn mx [] = []"
| "expand_var_items R d ty mn mx ((r, depth) # stack) =
     (let (children, owed) = var_children R d ty mx r depth in
      (if mn \<le> depth \<and> depth \<le> mx then [Inr r] else []) @ owed @
      expand_var_items R d ty mn mx (children @ stack))"
  by pat_completeness auto
termination
proof (relation "inv_image (mult less_than)
    (\<lambda>(R, d, ty, mn, mx, stack). mset (map (\<lambda>(r, depth). unat mx - unat depth) stack))", goal_cases)
  case (2 R d ty mn mx r depth stack x children owed)
  let ?f = "\<lambda>(r::row, depth::u32). unat mx - unat depth"
  have "(mset (map ?f stack) + mset (map ?f children), mset (map ?f stack) + {#unat mx - unat depth#}) \<in> mult less_than"
  proof (rule one_step_implies_mult)
    show "\<forall>k \<in> set_mset (mset (map ?f children)). \<exists>j \<in> set_mset {#unat mx - unat depth#}. (k, j) \<in> less_than"
      using 2 by (fastforce simp: var_children_def next_depth word_less_nat_alt
          split: if_splits sum.splits)
  qed simp
  then show ?case by (simp add: ac_simps)
qed (auto intro: wf_mult)

definition expand_var :: "reader \<Rightarrow> row res \<Rightarrow> dir \<Rightarrow> str option \<Rightarrow> u32 \<Rightarrow> u32 \<Rightarrow> stream" where
  "expand_var R rr d ty mn mx =
     (case rr of Inl e \<Rightarrow> [Inl e] | Inr r \<Rightarrow> expand_var_items R d ty mn mx [(r, 0)])"

section \<open>Filtering and sorting\<close>

definition filter_one :: "fenv \<Rightarrow> reader \<Rightarrow> row res \<Rightarrow> expr \<Rightarrow> binding_need \<Rightarrow> row res option" where
  "filter_one E R rr pred need =
     (case rr of
        Inl e \<Rightarrow> Some (Inl e)
      | Inr r \<Rightarrow>
          (case matches_pred E R r pred need of
             Inl e \<Rightarrow> Some (Inl e)
           | Inr True \<Rightarrow> Some (Inr r)
           | Inr False \<Rightarrow> None))"

fun distinct_items :: "node_id set \<Rightarrow> stream \<Rightarrow> stream" where
  "distinct_items seen [] = []"
| "distinct_items seen (Inl e # xs) = Inl e # distinct_items seen xs"
| "distinct_items seen (Inr r # xs) =
     (if rw_head r \<in> seen then distinct_items seen xs
      else Inr r # distinct_items (insert (rw_head r) seen) xs)"

fun cmp_keys :: "prop_value list \<Rightarrow> prop_value list \<Rightarrow> sort_key list \<Rightarrow> ordering" where
  "cmp_keys (a # as) (b # bs) (key # keys) =
     (let o' = total_cmp a b; o'' = if sk_descending key then rev_ord o' else o' in
      if o'' \<noteq> Equal then o'' else cmp_keys as bs keys)"
| "cmp_keys _ _ _ = Equal"

definition sort_rows ::
    "fenv \<Rightarrow> stream \<Rightarrow> sort_key list \<Rightarrow> reader \<Rightarrow> binding_need \<Rightarrow> row list res" where
  "sort_rows E xs keys R need =
     res_bind (res_map (\<lambda>rr.
         res_bind rr (\<lambda>r.
         res_bind (row_values E R r (map sk_expr keys) need) (\<lambda>vals. Inr (vals, r)))) xs) (\<lambda>decorated.
     Inr (map snd (sort_by (\<lambda>a b. cmp_keys (fst a) (fst b) keys) decorated)))"

section \<open>Similarity\<close>

definition row_vector :: "reader \<Rightarrow> node_id \<Rightarrow> str \<Rightarrow> f32 list option res" where
  "row_vector R head property =
     res_bind (rd_node R head) (\<lambda>found.
     Inr (case found of
            None \<Rightarrow> None
          | Some node \<Rightarrow>
              (case prop_of (nr_properties node) property of Some (PVector v) \<Rightarrow> Some v | _ \<Rightarrow> None)))"

fun frontier_items ::
    "fenv \<Rightarrow> reader \<Rightarrow> node_id list \<Rightarrow> str \<Rightarrow> f32 list \<Rightarrow> metric \<Rightarrow> (u64 \<times> f32) list res" where
  "frontier_items E R [] property query metric = Inr []"
| "frontier_items E R (i # ids) property query metric =
     res_bind (row_vector R i property) (\<lambda>found.
     res_bind (frontier_items E R ids property query metric) (\<lambda>items.
     Inr (case found of
            None \<Rightarrow> items
          | Some v \<Rightarrow>
              let dist = metric_distance E metric query v in
              if is_finite dist then (i, dist) # items else items)))"

definition vector_top_k_rows ::
    "fenv \<Rightarrow> reader \<Rightarrow> node_id list \<Rightarrow> str \<Rightarrow> f32 list \<Rightarrow> metric \<Rightarrow> nat \<Rightarrow> row list res" where
  "vector_top_k_rows E R ids property query metric k =
     res_bind (frontier_items E R ids property query metric) (\<lambda>items.
     res_bind (top_k E items k) (\<lambda>hits.
     Inr (map (\<lambda>h. row_scored (hit_id h) (similarity_from_distance E metric (hit_distance h))) hits)))"

text \<open>The first row that reached each node, in order.\<close>

definition first_rows :: "row list \<Rightarrow> (node_id \<times> row) list" where
  "first_rows rows =
     foldl (\<lambda>m r. if map_of m (rw_head r) = None then m @ [(rw_head r, r)] else m) [] rows"

fun reattach :: "(node_id \<times> row) list \<Rightarrow> row list \<Rightarrow> row list res" where
  "reattach by_head [] = Inr []"
| "reattach by_head (scored # rest) =
     res_bind (ok_or Panic (rw_score scored)) (\<lambda>score.
     let base = (case map_of by_head (rw_head scored) of None \<Rightarrow> scored | Some r \<Rightarrow> r) in
     res_bind (reattach (filter (\<lambda>(h, _). h \<noteq> rw_head scored) by_head) rest) (\<lambda>out.
     Inr (row_with_score base score # out)))"

definition frontier_top_k ::
    "fenv \<Rightarrow> reader \<Rightarrow> row list \<Rightarrow> str \<Rightarrow> f32 list \<Rightarrow> metric \<Rightarrow> nat \<Rightarrow> row list res" where
  "frontier_top_k E R rows property query metric k =
     (let by_head = first_rows rows in
      res_bind (vector_top_k_rows E R (map fst by_head) property query metric k) (\<lambda>ranked.
      reattach by_head ranked))"

fun beam_candidates ::
    "fenv \<Rightarrow> reader \<Rightarrow> dir \<Rightarrow> str option \<Rightarrow> str \<Rightarrow> f32 list \<Rightarrow> metric \<Rightarrow> row list \<Rightarrow> (f32 \<times> row) list res" where
  "beam_candidates E R d ty property query metric [] = Inr []"
| "beam_candidates E R d ty property query metric (r # rows) =
     res_bind (rd_neighbors R (rw_head r) d ty) (\<lambda>ns.
     res_bind (res_map (\<lambda>n.
         res_bind (row_vector R (nb_node n) property) (\<lambda>found.
         let sim = (case found of
                      Some v \<Rightarrow> metric_similarity E metric query v
                    | None \<Rightarrow> fmake True (finf TYPE(32)))
         in Inr (sim, row_with_score (row_step r (nb_edge n) (nb_node n)) sim))) ns) (\<lambda>here.
     res_bind (beam_candidates E R d ty property query metric rows) (\<lambda>rest.
     Inr (here @ rest))))"

fun expand_beam ::
    "fenv \<Rightarrow> reader \<Rightarrow> dir \<Rightarrow> str option \<Rightarrow> str \<Rightarrow> f32 list \<Rightarrow> metric \<Rightarrow> nat \<Rightarrow> nat \<Rightarrow> row list \<Rightarrow> row list res" where
  "expand_beam E R d ty property query metric width 0 frontier = Inr []"
| "expand_beam E R d ty property query metric width (Suc depth) frontier =
     res_bind (beam_candidates E R d ty property query metric frontier) (\<lambda>cands.
     if cands = [] then Inr []
     else
       let frontier' = map snd (take width (sort_by (\<lambda>a b. ftotal_cmp (fst b) (fst a)) cands)) in
       res_bind (expand_beam E R d ty property query metric width depth frontier') (\<lambda>emitted.
       Inr (frontier' @ emitted)))"

section \<open>Steps and plans\<close>

definition apply_step :: "fenv \<Rightarrow> stream \<Rightarrow> step \<Rightarrow> reader \<Rightarrow> binding_need \<Rightarrow> stream res" where
  "apply_step E xs st R need =
     (case st of
        Expand d ty \<Rightarrow> Inr (concat (map (\<lambda>rr. expand_one R rr d ty) xs))
      | ExpandVar d ty mn mx \<Rightarrow> Inr (concat (map (\<lambda>rr. expand_var R rr d ty mn mx) xs))
      | Filter pred \<Rightarrow> Inr (List.map_filter (\<lambda>rr. filter_one E R rr pred need) xs)
      | Skip n \<Rightarrow> Inr (drop (clamp_usize n) xs)
      | Limit n \<Rightarrow> Inr (take (clamp_usize n) xs)
      | Distinct \<Rightarrow> Inr (distinct_items {} xs)
      | Sort keys \<Rightarrow> res_bind (sort_rows E xs keys R need) (\<lambda>rows. Inr (map Inr rows))
      | FrontierTopK property query metric k \<Rightarrow>
          res_bind (drain xs) (\<lambda>rows.
          res_bind (frontier_top_k E R rows property query metric (clamp_usize k)) (\<lambda>out.
          Inr (map Inr out)))
      | ExpandBeam d ty property query metric width depth \<Rightarrow>
          res_bind (drain xs) (\<lambda>frontier.
          res_bind (expand_beam E R d ty property query metric (unat width) (unat depth) frontier) (\<lambda>out.
          Inr (map Inr out))))"

fun apply_steps :: "fenv \<Rightarrow> stream \<Rightarrow> step list \<Rightarrow> reader \<Rightarrow> binding_need \<Rightarrow> stream res" where
  "apply_steps E xs [] R need = Inr xs"
| "apply_steps E xs (st # sts) R need =
     res_bind (apply_step E xs st R need) (\<lambda>xs'. apply_steps E xs' sts R need)"

text \<open>
  The clock of the source and the clock of the finished stream. A deadline is given by both; without one
  neither is read.
\<close>

type_synonym clocks = "((nat \<Rightarrow> bool) \<times> (nat \<Rightarrow> bool)) option"

definition execute_with :: "qenv \<Rightarrow> logical_plan \<Rightarrow> reader \<Rightarrow> clocks \<Rightarrow> stream res option" where
  "execute_with Q plan R deadline =
     map_option (\<lambda>rows.
       res_bind rows (\<lambda>rows.
       let xs = deadlined (map_option fst deadline) (map Inr rows) in
       res_bind (apply_steps (qe_float Q) xs (lp_steps plan) R (plan_need plan)) (\<lambda>ys.
       Inr (deadlined (map_option snd deadline) ys))))
     (source_rows Q R (lp_source plan))"

definition execute :: "qenv \<Rightarrow> logical_plan \<Rightarrow> reader \<Rightarrow> stream res option" where
  "execute Q plan R = execute_with Q plan R None"

end
