(* ===== verification/Expr_Order.thy ===== *)
theory Expr_Order
  imports Expr
begin

text \<open>
  The canonical order of property values, \<open>total_cmp\<close>, is a total preorder, so the standard library's sort
  and ordered sets may use it; integers and floats share one exactly compared numeric line in it.
\<close>

section \<open>A comparison by type rank\<close>

lemma then_laws:
  assumes "cmp_laws c x" "cmp_laws d x"
  shows "cmp_laws (\<lambda>a b. then_cmp (c a b) (d a b)) x"
proof (rule cmp_lawsI)
  note c = cmp_lawsD [OF assms(1)] and d = cmp_lawsD [OF assms(2)]
  show "then_cmp (c x x) (d x x) = Equal" using c(1) d(1) by simp
  show "then_cmp (c y x) (d y x) = rev_ord (then_cmp (c x y) (d x y))" for y
    using c(2) [of y] d(2) [of y] by (simp only: rev_then_cmp)
  show "then_cmp (c x z) (d x z) = then_cmp (c y z) (d y z)"
    if "then_cmp (c x y) (d x y) = Equal" for y z
    using that c(3) [of y z] d(3) [of y z] by simp
  show "then_cmp (c x z) (d x z) = Less"
    if xy: "then_cmp (c x y) (d x y) = Less" and yz: "then_cmp (c y z) (d y z) \<noteq> Greater" for y z
  proof (cases "c x y")
    case Less
    then have "c x z = Less" by (rule c(4)) (use yz in auto)
    then show ?thesis by simp
  next
    case Equal
    then have xz: "c x z = c y z" by (rule c(3))
    show ?thesis using xy yz xz Equal d(4) [of y z] by (cases "c y z") auto
  qed (use xy in simp)
qed

lemma laws_by_rank:
  fixes r :: "'a \<Rightarrow> nat"
  assumes diff: "\<And>a b. r a \<noteq> r b \<Longrightarrow> c a b = cmp (r a) (r b)"
    and same: "\<And>a b. r a = r x \<Longrightarrow> r b = r x \<Longrightarrow> c a b = d (f a) (f b)"
    and laws: "cmp_laws d (f x)"
  shows "cmp_laws c x"
proof (rule cmp_lawsI)
  note d = cmp_lawsD [OF laws]
  show "c x x = Equal" by (simp only: same d(1))
  show "c y x = rev_ord (c x y)" for y
  proof (cases "r y = r x")
    case True
    then show ?thesis using d(2) [of "f y"] same by metis
  next
    case False
    then show ?thesis using diff [of x y] diff [of y x] cmp_flip by metis
  qed
  have rank: "r y = r x" if "c x y = Equal" for y using diff [of x y] that by (metis cmp_iff(2))
  show "c x z = c y z" if eq: "c x y = Equal" for y z
  proof (cases "r z = r x")
    case True
    then show ?thesis using rank [OF eq] eq d(3) [of "f y"] same by metis
  next
    case False
    then show ?thesis using rank [OF eq] diff [of x z] diff [of y z] by simp
  qed
  show "c x z = Less" if xy: "c x y = Less" and yz: "c y z \<noteq> Greater" for y z
  proof (cases "r y = r x \<and> r z = r x")
    case True
    then show ?thesis using xy yz d(4) [of "f y" "f z"] same by metis
  next
    case False
    have "r x \<le> r y" using xy diff [of x y] by (cases "r x = r y") auto
    moreover have "r y \<le> r z" using yz diff [of y z] by (cases "r y = r z") auto
    ultimately show ?thesis using False diff [of x z] by auto
  qed
qed

section \<open>The numeric line\<close>

text \<open>
  Numbers compare as pairs: the position of the nearest float in the total order of floats, then the
  integer itself.
\<close>

definition num_key :: "prop_value \<Rightarrow> int \<times> int" where
  "num_key v =
     (case v of
        PInt x \<Rightarrow> (ftotal_key (f64_of_i64 x), sint x)
      | PFloat y \<Rightarrow> (ftotal_key y, if fle (f_of_int (2 ^ 63)) y then 2 ^ 63 else i64_of_f64 y)
      | _ \<Rightarrow> (0, 0))"

lemma sint_i64_less: "sint (x::i64) < 2 ^ 63"
  using sint_lt [of x] by simp

lemma cmp_int_float_key: "cmp_int_float x y = cmp (num_key (PInt x)) (num_key (PFloat y))"
  using sint_i64_less [of x]
  by (auto simp: cmp_int_float_def num_key_def ftotal_cmp_def Let_def cmp_def less_prod_def)

lemma f64_of_i64_mono: "sint x < sint y \<Longrightarrow> ftotal_key (f64_of_i64 x) \<le> ftotal_key (f64_of_i64 y)"
  unfolding f64_of_i64_def by (rule f_of_int_mono) auto

lemma num_cmp:
  assumes "type_rank a = 2" "type_rank b = 2"
  shows "total_cmp a b = cmp (num_key a) (num_key b)"
proof -
  have ints: "cmp (sint x) (sint y) = cmp (num_key (PInt x)) (num_key (PInt y))" for x y
    using f64_of_i64_mono [of x y] f64_of_i64_mono [of y x]
    by (cases "sint x" "sint y" rule: linorder_cases)
      (auto simp: num_key_def cmp_def less_prod_def f64_of_i64_def)
  have floats: "ftotal_cmp x y = cmp (num_key (PFloat x)) (num_key (PFloat y))" for x y
    by (cases "x = y") (auto simp: ftotal_cmp_def num_key_def cmp_def less_prod_def dest: ftotal_key_inj)
  show ?thesis
    using assms
    by (cases a; cases b) (simp_all add: type_rank_def total_cmp_simps ints floats cmp_int_float_key cmp_flip [symmetric])
qed

section \<open>Totality\<close>

lemma cmp_opt_laws: "cmp_laws cmp_opt x"
  by (rule cmp_laws_embed [where d = cmp and f = "\<lambda>x. case x of None \<Rightarrow> [] | Some a \<Rightarrow> [a]"])
    (auto simp: cmp_opt_def cmp_def cmp_laws_cmp split: option.splits)

abbreviation entry_cmp :: "str \<times> prop_desc \<Rightarrow> str \<times> prop_desc \<Rightarrow> ordering" where
  "entry_cmp p q \<equiv>
     then_cmp (cmp (fst p) (fst q))
       (then_cmp (total_cmp (pd_value (snd p)) (pd_value (snd q)))
         (cmp_opt (pd_description (snd p)) (pd_description (snd q))))"

lemma entry_laws: "cmp_laws total_cmp (pd_value (snd p)) \<Longrightarrow> cmp_laws entry_cmp p"
proof (intro then_laws)
  show "cmp_laws (\<lambda>p q. cmp (fst p) (fst q)) p"
    by (rule cmp_laws_embed [where f = fst and d = cmp]) (simp_all add: cmp_laws_cmp)
  show "cmp_laws (\<lambda>p q. total_cmp (pd_value (snd p)) (pd_value (snd q))) p"
    if "cmp_laws total_cmp (pd_value (snd p))"
    by (rule cmp_laws_embed [where f = "\<lambda>p. pd_value (snd p)" and d = total_cmp]) (simp_all add: that)
  show "cmp_laws (\<lambda>p q. cmp_opt (pd_description (snd p)) (pd_description (snd q))) p"
    by (rule cmp_laws_embed [where f = "\<lambda>p. pd_description (snd p)" and d = cmp_opt])
      (simp_all add: cmp_opt_laws)
qed

lemma total_cmp_rank: "type_rank a \<noteq> type_rank b \<Longrightarrow> total_cmp a b = cmp (type_rank a) (type_rank b)"
  by (cases a; cases b; subst total_cmp.simps; simp add: type_rank_def)

lemma type_rank_simps [simp]:
  "type_rank PNull = 0" "type_rank (PBool b) = 1" "type_rank (PInt i) = 2" "type_rank (PFloat f) = 2"
  "type_rank (PStr s) = 3" "type_rank (PBytes s) = 4" "type_rank (PVector u) = 5"
  "type_rank (PList xs) = 6" "type_rank (PMap m) = 7"
  by (simp_all add: type_rank_def)

lemma type_rank_inv:
  "type_rank v = 0 \<Longrightarrow> v = PNull" "type_rank v = Suc 0 \<Longrightarrow> \<exists>b. v = PBool b"
  "type_rank v = 3 \<Longrightarrow> \<exists>s. v = PStr s" "type_rank v = 4 \<Longrightarrow> \<exists>s. v = PBytes s"
  "type_rank v = 5 \<Longrightarrow> \<exists>u. v = PVector u" "type_rank v = 6 \<Longrightarrow> \<exists>xs. v = PList xs"
  "type_rank v = 7 \<Longrightarrow> \<exists>m. v = PMap m"
  by (cases v; simp)+

lemmas rank_laws = laws_by_rank [where r = type_rank and c = total_cmp, OF total_cmp_rank]

lemma total_laws: "cmp_laws total_cmp v"
proof (induction v rule: measure_induct_rule [where f = size])
  case (less v)
  show ?case
  proof (cases v)
    case PNull
    show ?thesis
      by (rule rank_laws [where d = "\<lambda>_ _. Equal" and f = id])
        (auto simp: PNull cmp_laws_def total_cmp_simps dest!: type_rank_inv)
  next
    case (PBool b)
    show ?thesis
      by (rule rank_laws [where d = cmp and f = "\<lambda>v. case v of PBool b \<Rightarrow> b | _ \<Rightarrow> False"])
        (auto simp: PBool cmp_laws_cmp total_cmp_simps dest!: type_rank_inv)
  next
    case (PInt i)
    show ?thesis
      by (rule rank_laws [where d = cmp and f = num_key]) (simp_all add: PInt cmp_laws_cmp num_cmp)
  next
    case (PFloat f)
    show ?thesis
      by (rule rank_laws [where d = cmp and f = num_key]) (simp_all add: PFloat cmp_laws_cmp num_cmp)
  next
    case (PStr s)
    show ?thesis
      by (rule rank_laws [where d = cmp and f = "\<lambda>v. case v of PStr b \<Rightarrow> b | _ \<Rightarrow> []"])
        (auto simp: PStr cmp_laws_cmp total_cmp_simps dest!: type_rank_inv)
  next
    case (PBytes s)
    show ?thesis
      by (rule rank_laws [where d = cmp and f = "\<lambda>v. case v of PBytes b \<Rightarrow> b | _ \<Rightarrow> []"])
        (auto simp: PBytes cmp_laws_cmp total_cmp_simps dest!: type_rank_inv)
  next
    case (PVector s)
    show ?thesis
      by (rule rank_laws [where d = "lex_cmp ftotal_cmp" and f = "\<lambda>v. case v of PVector b \<Rightarrow> b | _ \<Rightarrow> []"])
        (auto simp: PVector lex_laws ftotal_laws total_cmp_simps dest!: type_rank_inv)
  next
    case (PList xs)
    have "cmp_laws total_cmp x" if "x \<in> set xs" for x
      by (rule less.IH) (use that in \<open>auto simp: PList intro: le_imp_less_Suc size_list_estimation'\<close>)
    then have "cmp_laws (lex_cmp total_cmp) xs" by (rule lex_laws)
    then show ?thesis
      by (intro rank_laws [where d = "lex_cmp total_cmp" and f = "\<lambda>v. case v of PList b \<Rightarrow> b | _ \<Rightarrow> []"])
        (auto simp: PList total_cmp_simps dest!: type_rank_inv)
  next
    case (PMap m)
    have "cmp_laws entry_cmp p" if "p \<in> set m" for p
    proof (rule entry_laws, rule less.IH)
      show "size (pd_value (snd p)) < size v" using that pd_value_size [of "fst p" "snd p" m] by (simp add: PMap)
    qed
    then have "cmp_laws (lex_cmp entry_cmp) m" by (rule lex_laws)
    then show ?thesis
      by (intro rank_laws [where d = "lex_cmp entry_cmp" and f = "\<lambda>v. case v of PMap b \<Rightarrow> b | _ \<Rightarrow> []"])
        (auto simp: PMap total_cmp_simps dest!: type_rank_inv)
  qed
qed

interpretation value_order: comparison total_cmp
  by unfold_locales (rule total_laws)

section \<open>Integers against floats\<close>

lemma fmag_i64: "fmag (f64_of_i64 x) = round_mag 52 (nat \<bar>sint x\<bar> * 2 ^ fscale TYPE(64)) 1"
  "fmag (f64_of_i64 x) < finf TYPE(64)"
proof -
  let ?p = "nat \<bar>sint x\<bar> * 2 ^ fscale TYPE(64)"
  have u: "units 52 (1086 * 2 ^ 52) = 2 ^ 63 * 2 ^ fscale TYPE(64)"
    by (simp add: units_def fscale_def fprec_def power_add [symmetric])
  have "nat \<bar>sint x\<bar> \<le> 2 ^ 63" using sint_i64_less [of x] sint_ge [of x] by (auto simp: nat_le_iff)
  then have "round_mag 52 ?p 1 \<le> round_mag 52 (units 52 (1086 * 2 ^ 52)) 1"
    unfolding u by (intro round_mag_mono) auto
  also have "\<dots> = 1086 * 2 ^ 52" using round_units [of 52 "1086 * 2 ^ 52"] by simp
  also have "\<dots> < finf TYPE(64)" by (simp add: finf_def fprec_def)
  finally have lt: "round_mag 52 ?p 1 < finf TYPE(64)" .
  then show "fmag (f64_of_i64 x) = round_mag 52 ?p 1" "fmag (f64_of_i64 x) < finf TYPE(64)"
    by (simp_all add: f64_of_i64_def f_of_int_sign fprec_def)
qed

lemma fval_i64: "\<exists>t. fval (f64_of_i64 x) = t * 2 ^ fscale TYPE(64)"
proof -
  obtain t where "units 52 (round_mag 52 (nat \<bar>sint x\<bar> * 2 ^ fscale TYPE(64)) 1) = t * 2 ^ fscale TYPE(64)"
    using units_round_multiple by blast
  then have "units 52 (fmag (f64_of_i64 x)) = t * 2 ^ fscale TYPE(64)" by (simp only: fmag_i64(1))
  then have "fval (f64_of_i64 x) = ((if fsign (f64_of_i64 x) then - 1 else 1) * int t) * 2 ^ fscale TYPE(64)"
    by (simp add: fval_parts fprec_def)
  then show ?thesis by blast
qed

lemma fval_f_of_int_63: "fval (f_of_int (2 ^ 63) :: f64) = 2 ^ 63 * 2 ^ fscale TYPE(64)"
  "is_finite (f_of_int (2 ^ 63) :: f64)"
proof -
  have u: "units 52 (1086 * 2 ^ 52) = 2 ^ 63 * 2 ^ fscale TYPE(64)"
    by (simp add: units_def fscale_def fprec_def power_add [symmetric])
  have "round_mag 52 (2 ^ 63 * 2 ^ fscale TYPE(64)) 1 = 1086 * 2 ^ 52"
    unfolding u [symmetric] using round_units [of 52 "1086 * 2 ^ 52"] by simp
  then have m: "fmag (f_of_int (2 ^ 63) :: f64) = 1086 * 2 ^ 52" "\<not> fsign (f_of_int (2 ^ 63) :: f64)"
    by (simp_all add: f_of_int_sign fprec_def finf_def)
  then show "is_finite (f_of_int (2 ^ 63) :: f64)" by (simp add: is_finite_def finf_def fprec_def)
  show "fval (f_of_int (2 ^ 63) :: f64) = 2 ^ 63 * 2 ^ fscale TYPE(64)"
    unfolding fval_parts m fprec_def using m(2) u by simp
qed

lemma cmp_scale: "0 < (k::int) \<Longrightarrow> cmp (a * k) (b * k) = cmp a b"
  by (simp add: cmp_def)

lemma i64_of_rounded:
  assumes y: "y = f64_of_i64 x" and below: "fval y < 2 ^ 63 * 2 ^ fscale TYPE(64)"
  shows "fval y = i64_of_f64 y * 2 ^ fscale TYPE(64)"
proof -
  let ?S = "2 ^ fscale TYPE(64) :: int"
  obtain t where t: "fval y = t * ?S" using fval_i64 y by blast
  have fin: "is_finite y" using fmag_i64(2) by (simp add: y is_finite_def)
  have "ftotal_key (f64_of_i64 (- (2 ^ 63))) \<le> ftotal_key y"
    unfolding y f64_of_i64_def by (rule f_of_int_mono) (use sint_ge [of x] in simp_all)
  then have "fkey (f64_of_i64 (- (2 ^ 63))) \<le> fkey y"
    by (auto simp: ftotal_key_def fkey_def split: if_splits)
  then have "fval (f64_of_i64 (- (2 ^ 63))) \<le> fval y" by (simp only: fkey_fval)
  moreover have "fval (f64_of_i64 (- (2 ^ 63))) = - (2 ^ 63) * ?S"
    using fval_f_of_int_63(1)
    by (simp add: f64_of_i64_def fval_parts f_of_int_sign)
  ultimately have t_range: "- (2 ^ 63) \<le> t" "t \<le> 2 ^ 63 - 1"
    using below unfolding t
    by (simp_all only: mult_le_cancel_right_pos mult_less_cancel_right_pos zero_less_power
      zero_less_numeral zle_diff1_eq)
  have abs: "nat \<bar>fval y\<bar> div 2 ^ fscale TYPE(64) = nat \<bar>t\<bar>"
    by (simp add: t abs_mult nat_mult_distrib nat_power_eq)
  have "fsign y \<Longrightarrow> t * ?S \<le> 0" "\<not> fsign y \<Longrightarrow> 0 \<le> t * ?S"
    unfolding t [symmetric] by (simp_all add: fval_parts)
  then have sg: "fsign y \<Longrightarrow> t \<le> 0" "\<not> fsign y \<Longrightarrow> 0 \<le> t"
    by (simp_all add: mult_le_0_iff zero_le_mult_iff)
  have "i64_of_f64 y = max (- (2 ^ 63)) (min (2 ^ 63 - 1) t)"
    using fin sg by (cases "fsign y")
      (simp_all add: i64_of_f64_def int_of_f_def abs is_finite_def is_nan_def is_inf_def Let_def)
  then have "i64_of_f64 y = t" using t_range by simp
  then show ?thesis by (simp add: t)
qed

text \<open>
  The comparison is exact: an integer and a finite float compare as the numbers they are, except that
  minus zero lies below the integer zero.
\<close>

lemma cmp_int_float_exact:
  assumes fin: "is_finite y"
  shows "cmp_int_float x y =
    (if x = 0 \<and> y = fneg_zero then Greater else cmp (sint x * 2 ^ fscale TYPE(64)) (fval y))"
proof -
  let ?v = "sint x * 2 ^ fscale TYPE(64)"
  have a: "f64_of_i64 x = fround_int ?v" unfolding f64_of_i64_def by (rule f_of_int_round)
  have zero: "x = 0 \<longleftrightarrow> ?v = 0" by (simp add: signed_eq_0_iff)
  consider "ftotal_key (f64_of_i64 x) < ftotal_key y" | "ftotal_key y < ftotal_key (f64_of_i64 x)"
    | "f64_of_i64 x = y"
    using ftotal_key_inj by fastforce
  then show ?thesis
  proof cases
    case 1
    then have lt: "?v < fval y" unfolding a by (intro round_below [OF _ fin]) simp_all
    then have "\<not> (x = 0 \<and> y = fneg_zero)" by (auto simp: fval_parts fmake_parts)
    with lt 1 show ?thesis by (auto simp: cmp_int_float_def ftotal_cmp_def cmp_def)
  next
    case 2
    then have "fval y < ?v \<or> y = fmake True 0 \<and> ?v = 0" unfolding a by (intro round_above [OF _ fin]) simp_all
    with 2 zero show ?thesis by (auto simp: cmp_int_float_def ftotal_cmp_def cmp_def)
  next
    case 3
    have nz: "\<not> (x = 0 \<and> y = fneg_zero)"
      using 3 f_of_int_sign(1) [of "sint x", where 'a = 64]
      by (auto simp: f64_of_i64_def fmake_parts)
    show ?thesis
    proof (cases "fle (f_of_int (2 ^ 63)) y")
      case True
      then have "fval (f_of_int (2 ^ 63) :: f64) \<le> fval y"
        unfolding fkey_fval [symmetric]
        by (auto simp: fle_def flt_def feq_def fpartial_cmp_def cmp_iff split: if_splits)
      moreover have "?v < 2 ^ 63 * 2 ^ fscale TYPE(64)" using sint_i64_less [of x] by simp
      ultimately have "?v < fval y" unfolding fval_f_of_int_63(1) by linarith
      then show ?thesis using True 3 nz by (simp add: cmp_int_float_def cmp_def)
    next
      case False
      then have "\<not> fkey (f_of_int (2 ^ 63) :: f64) \<le> fkey y"
        using fin fval_f_of_int_63(2)
        by (auto simp: fle_def flt_def feq_def fpartial_cmp_def cmp_iff is_nan_def is_finite_def)
      then have "fval y < 2 ^ 63 * 2 ^ fscale TYPE(64)" unfolding fkey_fval fval_f_of_int_63(1) by linarith
      then have "fval y = i64_of_f64 y * 2 ^ fscale TYPE(64)" by (rule i64_of_rounded [OF 3 [symmetric]])
      then show ?thesis using False 3 nz by (auto simp: cmp_int_float_def cmp_scale)
    qed
  qed
qed

end
