(* ===== verification/Exec_Table.thy ===== *)
theory Exec_Table
  imports Exec_Steps Expr_Order
begin

text \<open>
  \<open>compute/exec.rs\<close>, the projection tail: the rows of a plan become the tuples of a table, one per row or
  one per group, deduplicated, ordered and cut to size.
\<close>

section \<open>Tuples\<close>

type_synonym tuple = "prop_value list"

record result_table =
  tb_columns :: "str list"
  tb_rows :: "tuple list"

text \<open>\<open>TupleKey\<close>: the columns compare one after the other, then the lengths.\<close>

definition tuple_cmp :: "tuple \<Rightarrow> tuple \<Rightarrow> ordering" where
  "tuple_cmp = lex_cmp total_cmp"

definition value_exprs :: "projection \<Rightarrow> expr list" where
  "value_exprs pj =
     List.map_filter (\<lambda>it. case pi_expr it of PValue e \<Rightarrow> Some e | PAgg a \<Rightarrow> ag_arg a) (pj_items pj)"

fun tuple_loop ::
    "fenv \<Rightarrow> reader \<Rightarrow> stream \<Rightarrow> projection \<Rightarrow> binding_need \<Rightarrow> tuple list \<Rightarrow> tuple list res" where
  "tuple_loop E R [] pj need seen = Inr []"
| "tuple_loop E R (rr # rows) pj need seen =
     res_bind rr (\<lambda>r.
     res_bind (row_values E R r (value_exprs pj) need) (\<lambda>tup.
     let (fresh, seen') = (if pj_distinct pj then oset_insert tuple_cmp tup seen else (True, seen)) in
     res_bind (tuple_loop E R rows pj need seen') (\<lambda>out.
     Inr (if fresh then tup # out else out))))"

definition row_tuples :: "fenv \<Rightarrow> reader \<Rightarrow> stream \<Rightarrow> projection \<Rightarrow> binding_need \<Rightarrow> tuple list res" where
  "row_tuples E R rows pj need = tuple_loop E R rows pj need []"

section \<open>Aggregates\<close>

datatype acc =
    AKey
  | ACount i64
  | ASum i64 f64 bool
  | AAvg f64 u64
  | AMin "prop_value option"
  | AMax "prop_value option"
  | ACollect "prop_value list"
  | ADistinct "tuple list" acc

definition acc_new :: "agg_func \<Rightarrow> acc" where
  "acc_new f =
     (case f of
        AggCount \<Rightarrow> ACount 0
      | AggSum \<Rightarrow> ASum 0 fzero False
      | AggAvg \<Rightarrow> AAvg fzero 0
      | AggMin \<Rightarrow> AMin None
      | AggMax \<Rightarrow> AMax None
      | AggCollect \<Rightarrow> ACollect [])"

definition acc_for_item :: "proj_item \<Rightarrow> acc" where
  "acc_for_item it =
     (case pi_expr it of
        PValue _ \<Rightarrow> AKey
      | PAgg a \<Rightarrow>
          if ag_distinct a \<and> ag_arg a \<noteq> None then ADistinct [] (acc_new (ag_func a)) else acc_new (ag_func a))"

definition sat_add :: "i64 \<Rightarrow> i64 \<Rightarrow> i64" where
  "sat_add x y = word_of_int (max (- (2 ^ 63)) (min (2 ^ 63 - 1) (sint x + sint y)))"

definition numeric :: "prop_value \<Rightarrow> f64 option" where
  "numeric v = (case v of PInt i \<Rightarrow> Some (f64_of_i64 i) | PFloat f \<Rightarrow> Some f | _ \<Rightarrow> None)"

text \<open>Folding a value that is not null.\<close>

definition fold_value :: "fenv \<Rightarrow> acc \<Rightarrow> prop_value \<Rightarrow> acc" where
  "fold_value E acc v =
     (case acc of
        ACount n \<Rightarrow> ACount (n + 1)
      | ASum ints floats floated \<Rightarrow>
          (case v of
             PInt i \<Rightarrow> ASum (sat_add ints i) floats floated
           | PFloat f \<Rightarrow> ASum ints (fadd (fe_nan64 E) floats f) True
           | _ \<Rightarrow> acc)
      | AAvg sumf n \<Rightarrow>
          (case numeric v of Some x \<Rightarrow> AAvg (fadd (fe_nan64 E) sumf x) (n + 1) | None \<Rightarrow> acc)
      | AMin best \<Rightarrow>
          if (case best of None \<Rightarrow> True | Some b \<Rightarrow> total_cmp v b = Less) then AMin (Some v) else acc
      | AMax best \<Rightarrow>
          if (case best of None \<Rightarrow> True | Some b \<Rightarrow> total_cmp v b = Greater) then AMax (Some v) else acc
      | ACollect items \<Rightarrow> ACollect (items @ [v])
      | _ \<Rightarrow> acc)"

fun acc_take :: "fenv \<Rightarrow> acc \<Rightarrow> prop_value option \<Rightarrow> acc" where
  "acc_take E (ADistinct seen inner) v =
     (case v of
        None \<Rightarrow> ADistinct seen inner
      | Some x \<Rightarrow>
          (case oset_insert tuple_cmp [x] seen of
             (False, _) \<Rightarrow> ADistinct seen inner
           | (True, seen') \<Rightarrow> ADistinct seen' (acc_take E inner (Some x))))"
| "acc_take E acc v =
     (case v of
        None \<Rightarrow> (case acc of ACount n \<Rightarrow> ACount (n + 1) | _ \<Rightarrow> acc)
      | Some PNull \<Rightarrow> acc
      | Some x \<Rightarrow> fold_value E acc x)"

fun acc_finish :: "fenv \<Rightarrow> acc \<Rightarrow> prop_value" where
  "acc_finish E AKey = PNull"
| "acc_finish E (ACount n) = PInt n"
| "acc_finish E (ASum ints floats floated) =
     (if floated then PFloat (fadd (fe_nan64 E) (f64_of_i64 ints) floats) else PInt ints)"
| "acc_finish E (AAvg sumf n) =
     (if n = 0 then PNull else PFloat (fdiv (fe_nan64 E) sumf (f_of_int (uint n))))"
| "acc_finish E (AMin v) = or_null v"
| "acc_finish E (AMax v) = or_null v"
| "acc_finish E (ACollect items) = PList items"
| "acc_finish E (ADistinct _ inner) = acc_finish E inner"

section \<open>Groups\<close>

text \<open>Where each item reads its value of a row: an index into the evaluated expressions.\<close>

fun slots_from :: "nat \<Rightarrow> proj_item list \<Rightarrow> nat option list" where
  "slots_from next [] = []"
| "slots_from next (it # its) =
     (case pi_expr it of
        PValue _ \<Rightarrow> Some next # slots_from (Suc next) its
      | PAgg a \<Rightarrow>
          (case ag_arg a of
             Some _ \<Rightarrow> Some next # slots_from (Suc next) its
           | None \<Rightarrow> None # slots_from next its))"

definition is_agg :: "proj_item \<Rightarrow> bool" where
  "is_agg it \<longleftrightarrow> (case pi_expr it of PAgg _ \<Rightarrow> True | PValue _ \<Rightarrow> False)"

definition group_key :: "proj_item list \<Rightarrow> nat option list \<Rightarrow> tuple \<Rightarrow> tuple" where
  "group_key items slots vals =
     map (\<lambda>(_, slot). vals ! the slot) (filter (\<lambda>(it, _). \<not> is_agg it) (zip items slots))"

record groups =
  gs_groups :: "acc list list"
  gs_at :: "(tuple \<times> nat) list"

text \<open>\<open>BTreeMap::get\<close>: the entry whose key compares equal.\<close>

definition omap_get :: "('k \<Rightarrow> 'k \<Rightarrow> ordering) \<Rightarrow> 'k \<Rightarrow> ('k \<times> 'v) list \<Rightarrow> 'v option" where
  "omap_get c k m = map_option snd (List.find (\<lambda>(k', _). c k k' = Equal) m)"

definition omap_insert :: "('k \<Rightarrow> 'k \<Rightarrow> ordering) \<Rightarrow> 'k \<Rightarrow> 'v \<Rightarrow> ('k \<times> 'v) list \<Rightarrow> ('k \<times> 'v) list" where
  "omap_insert c k v m = ins_by (\<lambda>a b. c (fst a) (fst b)) (k, v) m"

definition take_row :: "fenv \<Rightarrow> proj_item list \<Rightarrow> nat option list \<Rightarrow> tuple \<Rightarrow> acc list \<Rightarrow> acc list" where
  "take_row E items slots vals accs =
     map (\<lambda>((acc, it), slot). if is_agg it then acc_take E acc (map_option ((!) vals) slot) else acc)
       (zip (zip accs items) slots)"

definition group_row :: "fenv \<Rightarrow> proj_item list \<Rightarrow> nat option list \<Rightarrow> tuple \<Rightarrow> groups \<Rightarrow> groups" where
  "group_row E items slots vals g =
     (let key = group_key items slots vals;
          (i, g1) = (case omap_get tuple_cmp key (gs_at g) of
              Some i \<Rightarrow> (i, g)
            | None \<Rightarrow>
                (length (gs_groups g),
                 \<lparr>gs_groups = gs_groups g @ [map acc_for_item items],
                  gs_at = omap_insert tuple_cmp key (length (gs_groups g)) (gs_at g)\<rparr>))
      in g1\<lparr>gs_groups := (gs_groups g1)[i := take_row E items slots vals (gs_groups g1 ! i)]\<rparr>)"

fun group_loop ::
    "fenv \<Rightarrow> reader \<Rightarrow> stream \<Rightarrow> projection \<Rightarrow> binding_need \<Rightarrow> groups \<Rightarrow> groups res" where
  "group_loop E R [] pj need g = Inr g"
| "group_loop E R (rr # rows) pj need g =
     res_bind rr (\<lambda>r.
     res_bind (row_values E R r (value_exprs pj) need) (\<lambda>vals.
     group_loop E R rows pj need (group_row E (pj_items pj) (slots_from 0 (pj_items pj)) vals g)))"

fun finish_row :: "fenv \<Rightarrow> tuple \<Rightarrow> acc list \<Rightarrow> tuple" where
  "finish_row E key [] = []"
| "finish_row E key (AKey # accs) =
     (case key of
        [] \<Rightarrow> PNull # finish_row E [] accs
      | k # key' \<Rightarrow> k # finish_row E key' accs)"
| "finish_row E key (acc # accs) = acc_finish E acc # finish_row E key accs"

definition grouped_tuples :: "fenv \<Rightarrow> reader \<Rightarrow> stream \<Rightarrow> projection \<Rightarrow> binding_need \<Rightarrow> tuple list res" where
  "grouped_tuples E R rows pj need =
     res_bind (group_loop E R rows pj need \<lparr>gs_groups = [], gs_at = []\<rparr>) (\<lambda>g.
     let g' = (if gs_groups g = [] \<and> list_all is_agg (pj_items pj)
               then \<lparr>gs_groups = [map acc_for_item (pj_items pj)], gs_at = [([], 0)]\<rparr> else g);
         keyed = sort_by (\<lambda>a b. cmp (fst a) (fst b)) (map (\<lambda>(k, i). (i, k)) (gs_at g'))
     in Inr (map (\<lambda>((_, key), accs). finish_row E key accs) (zip keyed (gs_groups g'))))"

section \<open>The table\<close>

definition column :: "tuple \<Rightarrow> nat \<Rightarrow> prop_value" where
  "column t i = (if i < length t then t ! i else PNull)"

fun cmp_columns :: "tuple \<Rightarrow> tuple \<Rightarrow> tuple_sort_key list \<Rightarrow> ordering" where
  "cmp_columns a b [] = Equal"
| "cmp_columns a b (key # keys) =
     (let o' = total_cmp (column a (ts_column key)) (column b (ts_column key));
          o'' = if ts_descending key then rev_ord o' else o'
      in if o'' \<noteq> Equal then o'' else cmp_columns a b keys)"

definition order_rows :: "projection \<Rightarrow> tuple list \<Rightarrow> tuple list" where
  "order_rows pj rows =
     (if pj_order_by pj = [] then rows else sort_by (\<lambda>a b. cmp_columns a b (pj_order_by pj)) rows)"

definition cut_rows :: "projection \<Rightarrow> tuple list \<Rightarrow> tuple list" where
  "cut_rows pj rows =
     (let rows1 = (case pj_skip pj of None \<Rightarrow> rows | Some n \<Rightarrow> drop (min (clamp_usize n) (length rows)) rows)
      in case pj_limit pj of None \<Rightarrow> rows1 | Some n \<Rightarrow> take (clamp_usize n) rows1)"

definition table_of :: "fenv \<Rightarrow> reader \<Rightarrow> stream \<Rightarrow> projection \<Rightarrow> binding_need \<Rightarrow> result_table res" where
  "table_of E R rows pj need =
     res_bind (if list_ex is_agg (pj_items pj) then grouped_tuples E R rows pj need
               else row_tuples E R rows pj need) (\<lambda>tuples.
     Inr \<lparr>tb_columns = map pi_name (pj_items pj), tb_rows = cut_rows pj (order_rows pj tuples)\<rparr>)"

definition execute_table :: "qenv \<Rightarrow> logical_plan \<Rightarrow> reader \<Rightarrow> clocks \<Rightarrow> result_table res option" where
  "execute_table Q plan R deadline =
     (let pj = (case lp_project plan of None \<Rightarrow> projection_default | Some pj \<Rightarrow> pj) in
      map_option (\<lambda>rows. res_bind rows (\<lambda>rows. table_of (qe_float Q) R rows pj (plan_need plan)))
        (execute_with Q plan R deadline))"

end
