(* ===== verification/Exec_Walks.thy ===== *)
theory Exec_Walks
  imports Exec_Table
begin

text \<open>
  Rows as walks: over a reader of an abstract graph, expansion follows the graph's edges, variable-length
  expansion lists exactly the walks of the admitted lengths, and the trail of every row a plan returns is
  a walk of the graph from the row's origin to its current node.
\<close>

section \<open>Walks\<close>

text \<open>The hops from a node along a direction and an optional type.\<close>

definition hops_from :: "agraph \<Rightarrow> plane_id \<Rightarrow> dir \<Rightarrow> str option \<Rightarrow> node_id \<Rightarrow> (edge_id \<times> node_id) set" where
  "hops_from G p d ty u =
     (\<lambda>nb. (nb_edge nb, nb_node nb)) `
       ((if d = In then {} else out_nbrs (ag_edge G) p u ty) \<union>
        (if d = Out then {} else in_nbrs (ag_edge G) p u ty))"

fun walk :: "(node_id \<Rightarrow> (edge_id \<times> node_id) set) \<Rightarrow> node_id \<Rightarrow> (edge_id \<times> node_id) list \<Rightarrow> bool" where
  "walk H u [] = True"
| "walk H u ((e, v) # hs) = ((e, v) \<in> H u \<and> walk H v hs)"

definition walk_end :: "node_id \<Rightarrow> (edge_id \<times> node_id) list \<Rightarrow> node_id" where
  "walk_end u hs = (if hs = [] then u else snd (last hs))"

definition row_along :: "row \<Rightarrow> (edge_id \<times> node_id) list \<Rightarrow> row" where
  "row_along r hs = foldl (\<lambda>r (e, v). row_step r e v) r hs"

lemma row_along_simps [simp]:
  "row_along r [] = r" "row_along r ((e, v) # hs) = row_along (row_step r e v) hs"
  by (simp_all add: row_along_def)

lemma row_step_simps [simp]:
  "rw_head (row_step r e v) = v" "rw_origin (row_step r e v) = rw_origin r"
  "row_path (row_step r e v) = row_path r @ [(e, v)]" "rw_hops (row_step r e v) = rw_hops r + 1"
  "rw_trail (row_step r e v) = (e, v) # rw_trail r" "rw_score (row_step r e v) = rw_score r"
  by (simp_all add: row_step_def row_path_def)

lemma walk_end_Cons [simp]: "walk_end u ((e, v) # hs) = walk_end v hs"
  by (simp add: walk_end_def)

lemma walk_end_Nil [simp]: "walk_end u [] = u"
  by (simp add: walk_end_def)

lemma walk_snoc [simp]: "walk H u (hs @ [(e, v)]) \<longleftrightarrow> walk H u hs \<and> (e, v) \<in> H (walk_end u hs)"
  by (induction H u hs rule: walk.induct) auto

lemma walk_end_snoc [simp]: "walk_end u (hs @ [(e, v)]) = v"
  by (simp add: walk_end_def)

lemma walk_mono: "walk H u hs \<Longrightarrow> (\<And>u. H u \<subseteq> H' u) \<Longrightarrow> walk H' u hs"
  by (induction H u hs rule: walk.induct) auto

lemma row_along_parts:
  "rw_trail (row_along r hs) = rev hs @ rw_trail r" "rw_head (row_along r hs) = walk_end (rw_head r) hs"
  "rw_score (row_along r hs) = rw_score r" "rw_origin (row_along r hs) = rw_origin r"
  by (induction hs arbitrary: r) auto

lemma row_along_inj: "row_along r hs = row_along r hs' \<longleftrightarrow> hs = hs'"
  by (auto dest: arg_cong [where f = rw_trail] simp: row_along_parts)

section \<open>Variable-length expansion\<close>

text \<open>The rows of a depth-first search to a bounded depth, in the order in which they are reported.\<close>

fun dfs :: "(node_id \<Rightarrow> (edge_id \<times> node_id) list) \<Rightarrow> nat \<Rightarrow> nat \<Rightarrow> nat \<Rightarrow> row \<Rightarrow> row list" where
  "dfs N mn 0 depth r = (if mn \<le> depth then [r] else [])"
| "dfs N mn (Suc k) depth r =
     (if mn \<le> depth then [r] else []) @
     concat (map (\<lambda>(e, v). dfs N mn k (Suc depth) (row_step r e v)) (rev (N (rw_head r))))"

lemma dfs_set:
  "set (dfs N mn k depth r) =
     row_along r ` {hs. walk (\<lambda>u. set (N u)) (rw_head r) hs \<and> length hs \<le> k \<and> mn \<le> depth + length hs}"
proof (induction k arbitrary: depth r)
  case 0
  have "{hs. walk (\<lambda>u. set (N u)) (rw_head r) hs \<and> length hs \<le> 0 \<and> mn \<le> depth + length hs} =
      (if mn \<le> depth then {[]} else {})"
    by auto
  then show ?case by (simp only: dfs.simps) simp
next
  case (Suc k)
  let ?W = "\<lambda>u k depth. {hs. walk (\<lambda>u. set (N u)) u hs \<and> length hs \<le> k \<and> mn \<le> depth + length hs}"
  have "set (dfs N mn (Suc k) depth r) =
      (if mn \<le> depth then {r} else {}) \<union>
      (\<Union>(e, v) \<in> set (N (rw_head r)). row_along (row_step r e v) ` ?W v k (Suc depth))"
    by (simp add: Suc split_beta)
  also have "\<dots> = row_along r ` ?W (rw_head r) (Suc k) depth"
  proof (intro equalityI subsetI)
    fix x
    assume "x \<in> (if mn \<le> depth then {r} else {}) \<union>
      (\<Union>(e, v) \<in> set (N (rw_head r)). row_along (row_step r e v) ` ?W v k (Suc depth))"
    then consider "mn \<le> depth" "x = r"
      | e v hs where "(e, v) \<in> set (N (rw_head r))" "hs \<in> ?W v k (Suc depth)" "x = row_along (row_step r e v) hs"
      by (auto split: if_splits)
    then show "x \<in> row_along r ` ?W (rw_head r) (Suc k) depth"
    proof cases
      case 1
      then show ?thesis by (intro image_eqI [of _ _ "[]"]) auto
    next
      case 2
      then show ?thesis by (intro image_eqI [of _ _ "(e, v) # hs"]) auto
    qed
  next
    fix x
    assume "x \<in> row_along r ` ?W (rw_head r) (Suc k) depth"
    then obtain hs where hs: "hs \<in> ?W (rw_head r) (Suc k) depth" "x = row_along r hs" by blast
    then show "x \<in> (if mn \<le> depth then {r} else {}) \<union>
      (\<Union>(e, v) \<in> set (N (rw_head r)). row_along (row_step r e v) ` ?W v k (Suc depth))"
    proof (cases hs)
      case (Cons h hs')
      obtain e v where h: "h = (e, v)" by (cases h)
      show ?thesis using hs by (intro UnI2 UN_I [of "(e, v)"]) (auto simp: Cons h)
    qed auto
  qed
  finally show ?case .
qed

lemma dfs_trail: "x \<in> set (dfs N mn k depth r) \<Longrightarrow> \<exists>hs. rw_trail x = hs @ rw_trail r"
  unfolding dfs_set by (auto simp: row_along_parts)

lemma dfs_distinct:
  assumes "\<And>u. distinct (N u)"
  shows "distinct (dfs N mn k depth r)"
proof (induction k arbitrary: depth r)
  case (Suc k)
  let ?f = "\<lambda>(e, v). dfs N mn k (Suc depth) (row_step r e v)"
  have trail: "x \<in> set (?f h) \<Longrightarrow> \<exists>hs. rw_trail x = hs @ h # rw_trail r" for x h
    by (auto simp: split_beta dest!: dfs_trail)
  have "distinct (concat (map ?f ns))" if "distinct ns" for ns
    using that
  proof (induction ns)
    case (Cons h ns)
    have "set (?f h) \<inter> set (?f h') = {}" if "h' \<in> set ns" for h'
    proof -
      have "h \<noteq> h'" using that Cons.prems by auto
      moreover have "hs @ h # t = hs' @ h' # t \<Longrightarrow> h = h'" for hs hs' t
        by (drule arg_cong [where f = rev]) simp
      ultimately show ?thesis using trail by (metis (lifting) disjoint_iff)
    qed
    then show ?case using Cons Suc by (auto simp: split_beta)
  qed simp
  then have "distinct (concat (map ?f (rev (N (rw_head r)))))" using assms by simp
  moreover have "r \<notin> set (?f h)" for h using trail [of r h] by fastforce
  ultimately show ?case by auto
qed simp

definition nbr_hops :: "reader \<Rightarrow> dir \<Rightarrow> str option \<Rightarrow> node_id \<Rightarrow> (edge_id \<times> node_id) list" where
  "nbr_hops R d ty u =
     (case rd_neighbors R u d ty of
        Inl _ \<Rightarrow> []
      | Inr ns \<Rightarrow> map (\<lambda>n. (nb_edge n, nb_node n)) ns)"

context graph_reader begin

lemma set_nbr_hops: "set (nbr_hops R d ty u) = hops_from G p d ty u"
  using neighbors_law [of u ty] by (cases d) (auto simp: nbr_hops_def hops_from_def)

lemma distinct_nbr_hops:
  assumes "d \<noteq> Both" shows "distinct (nbr_hops R d ty u)"
proof -
  have "inj_on (\<lambda>n::neighbor. (nb_edge n, nb_node n)) A" for A by (auto intro!: inj_onI neighbor.equality)
  then show ?thesis
    using assms neighbors_law [of u ty] by (cases d) (auto simp: nbr_hops_def distinct_map)
qed

lemma neighbors_hops:
  obtains ns where "rd_neighbors R u d ty = Inr ns" "map (\<lambda>n. (nb_edge n, nb_node n)) ns = nbr_hops R d ty u"
  using nbrs_total [of u d ty] by (auto simp: nbr_hops_def)

lemma expand_var_dfs:
  "R' = R \<Longrightarrow> (\<And>r dep. (r, dep) \<in> set stack \<Longrightarrow> dep \<le> mx) \<Longrightarrow>
   expand_var_items R' d ty mn mx stack =
     concat (map (\<lambda>(r, dep). map Inr (dfs (nbr_hops R d ty) (unat mn) (unat mx - unat dep) (unat dep) r)) stack)"
proof (induction R' d ty mn mx stack rule: expand_var_items.induct)
  case (2 R' d ty mn mx r dep stack)
  let ?dfs = "\<lambda>(r, dep). map (Inr :: row \<Rightarrow> row res) (dfs (nbr_hops R d ty) (unat mn) (unat mx - unat dep) (unat dep) r)"
  obtain ns where ns: "rd_neighbors R (rw_head r) d ty = Inr ns"
    "map (\<lambda>n. (nb_edge n, nb_node n)) ns = nbr_hops R d ty (rw_head r)"
    by (rule neighbors_hops)
  let ?ch = "fst (var_children R d ty mx r dep)"
  have owed: "snd (var_children R d ty mx r dep) = []" by (simp add: var_children_def ns)
  have le: "dep \<le> mx" using 2(3) [of r dep] by simp
  have ch: "(r', dep') \<in> set ?ch \<Longrightarrow> dep' \<le> mx" for r' dep'
    by (auto simp: var_children_def ns word_le_nat_alt word_less_nat_alt next_depth split: if_splits)
  have IH: "expand_var_items R d ty mn mx (?ch @ stack) = concat (map ?dfs (?ch @ stack))"
    using 2(1) [of _ ?ch "[]"] 2(2,3) ch owed
    by (metis (no_types, lifting) Un_iff prod.collapse list.set_intros(2) set_append)
  have "(if mn \<le> dep then [Inr r] else []) @ concat (map ?dfs ?ch) = ?dfs (r, dep)"
  proof (cases "dep < mx")
    case True
    then have "unat mx - unat dep = Suc (unat mx - unat (dep + 1))"
      by (simp add: next_depth [OF True] word_less_nat_alt Suc_diff_Suc)
    moreover have "concat (map ?dfs ?ch) =
        map Inr (concat (map (\<lambda>(e, v). dfs (nbr_hops R d ty) (unat mn) (unat mx - unat (dep + 1))
          (Suc (unat dep)) (row_step r e v)) (rev (nbr_hops R d ty (rw_head r)))))"
      by (simp add: var_children_def True ns(1) ns(2) [symmetric] rev_map map_concat comp_def next_depth [OF True])
    ultimately show ?thesis by (simp add: word_le_nat_alt)
  next
    case False
    then have "dep = mx" using le by simp
    then show ?thesis by (simp add: var_children_def word_le_nat_alt)
  qed
  then have "(if mn \<le> dep then [Inr r] else []) @ concat (map ?dfs (?ch @ stack)) =
      concat (map ?dfs ((r, dep) # stack))"
    by (simp only: map_append concat_append append_assoc [symmetric] list.map concat.simps)
  moreover have "expand_var_items R d ty mn mx ((r, dep) # stack) =
      (if mn \<le> dep then [Inr r] else []) @ expand_var_items R d ty mn mx (?ch @ stack)"
    using le owed by (simp add: split_beta)
  ultimately show ?case by (simp only: 2(2) IH)
qed simp

lemma expand_var_run:
  "expand_var R (Inr r) d ty mn mx =
     map Inr (dfs (nbr_hops R d ty) (unat mn) (unat mx) 0 r)"
  using expand_var_dfs [of R "[(r, 0)]" mx d ty mn] by (simp add: expand_var_def del: expand_var_items.simps)

lemma expand_var_walks:
  "\<exists>rows. expand_var R (Inr r) d ty mn mx = map Inr rows \<and>
    set rows = row_along r ` {hs. walk (hops_from G p d ty) (rw_head r) hs \<and>
      unat mn \<le> length hs \<and> length hs \<le> unat mx} \<and>
    (d \<noteq> Both \<longrightarrow> distinct rows)"
proof (intro exI conjI impI)
  let ?rows = "dfs (nbr_hops R d ty) (unat mn) (unat mx) 0 r"
  show "expand_var R (Inr r) d ty mn mx = map Inr ?rows" by (rule expand_var_run)
  show "set ?rows =
      row_along r ` {hs. walk (hops_from G p d ty) (rw_head r) hs \<and> unat mn \<le> length hs \<and> length hs \<le> unat mx}"
    unfolding dfs_set set_nbr_hops by (rule arg_cong [where f = "image (row_along r)"]) auto
  show "distinct ?rows" if "d \<noteq> Both"
    by (rule dfs_distinct) (rule distinct_nbr_hops [OF that])
qed

end

section \<open>Every row is a walk\<close>

definition row_ok :: "agraph \<Rightarrow> plane_id \<Rightarrow> row \<Rightarrow> bool" where
  "row_ok G p r \<longleftrightarrow>
     walk (hops_from G p Both None) (rw_origin r) (row_path r) \<and>
     walk_end (rw_origin r) (row_path r) = rw_head r \<and> rw_hops r = of_nat (length (row_path r))"

definition stream_ok :: "agraph \<Rightarrow> plane_id \<Rightarrow> stream \<Rightarrow> bool" where
  "stream_ok G p xs \<longleftrightarrow> (\<forall>r. Inr r \<in> set xs \<longrightarrow> row_ok G p r)"

lemma row_ok_start [simp]: "row_ok G p (row_start n)" "row_ok G p (row_scored n s)"
  by (simp_all add: row_ok_def row_start_def row_scored_def row_path_def)

lemma row_ok_score [simp]: "row_ok G p (row_with_score r s) = row_ok G p r"
  by (simp add: row_ok_def row_with_score_def row_path_def)

lemma hops_from_any: "hops_from G p d ty u \<subseteq> hops_from G p Both None u"
  by (auto simp: hops_from_def out_nbrs_def in_nbrs_def intro!: image_eqI [OF refl])

lemma row_ok_step: "row_ok G p r \<Longrightarrow> (e, v) \<in> hops_from G p d ty (rw_head r) \<Longrightarrow> row_ok G p (row_step r e v)"
  using hops_from_any [of G p d ty "rw_head r"] by (auto simp: row_ok_def)

lemma row_ok_along: "row_ok G p r \<Longrightarrow> walk (hops_from G p d ty) (rw_head r) hs \<Longrightarrow> row_ok G p (row_along r hs)"
  by (induction hs arbitrary: r) (auto dest: row_ok_step)

lemma set_ins_any [simp]: "set (ins_by c x xs) = insert x (set xs)"
  by (induction xs) auto

lemma set_sort_any [simp]: "set (sort_by c xs) = set xs"
  by (induction xs) (simp_all add: sort_by_def)

lemma res_map_mem: "res_map f xs = Inr ys \<Longrightarrow> y \<in> set ys \<Longrightarrow> \<exists>x \<in> set xs. f x = Inr y"
  by (induction xs arbitrary: ys) (auto simp: res_bind_eq_Inr)

lemma drain_ok: "stream_ok G p xs \<Longrightarrow> drain xs = Inr rows \<Longrightarrow> r \<in> set rows \<Longrightarrow> row_ok G p r"
  by (auto simp: drain_def stream_ok_def dest!: res_map_mem)

lemma distinct_items_subset: "set (distinct_items seen xs) \<subseteq> set xs"
  by (induction seen xs rule: distinct_items.induct) auto

lemma first_rows_mem: "(n, r) \<in> set (first_rows rows) \<Longrightarrow> r \<in> set rows"
proof -
  have "(n, r) \<in> set (foldl (\<lambda>m r. if map_of m (rw_head r) = None then m @ [(rw_head r, r)] else m) m rows) \<Longrightarrow>
      (n, r) \<in> set m \<or> r \<in> set rows" for m
  proof (induction rows arbitrary: m)
    case (Cons a rows)
    show ?case
      using Cons.IH [of "if map_of m (rw_head a) = None then m @ [(rw_head a, a)] else m"] Cons.prems
      by (auto split: if_splits)
  qed simp
  then show "(n, r) \<in> set (first_rows rows) \<Longrightarrow> r \<in> set rows" by (fastforce simp: first_rows_def)
qed

lemma reattach_ok:
  "reattach by_head ranked = Inr out \<Longrightarrow> (\<And>n r. (n, r) \<in> set by_head \<Longrightarrow> row_ok G p r) \<Longrightarrow>
   (\<And>r. r \<in> set ranked \<Longrightarrow> row_ok G p r) \<Longrightarrow> r \<in> set out \<Longrightarrow> row_ok G p r"
proof (induction by_head ranked arbitrary: out rule: reattach.induct)
  case (2 by_head scored rest)
  then show ?case
    by (fastforce simp: res_bind_eq_Inr Let_def dest: map_of_SomeD split: option.splits)
qed simp

lemma vector_top_k_ok: "vector_top_k_rows E R ids property query metric k = Inr rows \<Longrightarrow> r \<in> set rows \<Longrightarrow> row_ok G p r"
  by (auto simp: vector_top_k_rows_def res_bind_eq_Inr)

lemma algo_rows_ok:
  assumes "algo_rows Q R label a = Some (Inr rows)" "r \<in> set rows"
  shows "row_ok G p r"
proof (cases a)
  case (ShortestPath a1 a2 d weight)
  then obtain src dst where "resolve_ref R a1 = Inr src" "resolve_ref R a2 = Inr dst"
    using assms(1) by (auto simp: algo_rows_def Let_def res_bind_eq_Inr)
  then show ?thesis
    using assms ShortestPath
    by (cases src; cases dst) (auto simp: algo_rows_def Let_def res_bind_eq_Inr split: option.splits)
qed (use assms in \<open>auto simp: algo_rows_def Let_def res_bind_eq_Inr grouped_rows_def\<close>)

lemma source_rows_ok:
  assumes "source_rows Q R src = Some (Inr rows)" "r \<in> set rows"
  shows "row_ok G p r"
  using assms
  by (cases src) (auto simp: source_rows_def Let_def res_bind_eq_Inr dest: algo_rows_ok)

lemma deadlined_subset: "Inr r \<in> set (deadlined dl xs) \<Longrightarrow> Inr r \<in> set xs"
proof -
  have "Inr r \<in> set (deadlined_items late i since xs) \<Longrightarrow> Inr r \<in> set xs" for late i since
  proof (induction xs arbitrary: i since)
    case Nil
    then show ?case by (simp add: deadlined_items.simps [of _ _ _ "[]"] Let_def split: if_splits)
  next
    case (Cons x xs)
    then show ?case by (auto simp: deadlined_items.simps [of _ _ _ "x # xs"] Let_def split: if_splits)
  qed
  then show "Inr r \<in> set (deadlined dl xs) \<Longrightarrow> Inr r \<in> set xs" by (auto simp: deadlined_def split: option.splits)
qed

context graph_reader begin

lemma expand_one_ok:
  assumes "\<And>r. rr = Inr r \<Longrightarrow> row_ok G p r" "Inr r' \<in> set (expand_one R rr d ty)"
  shows "row_ok G p r'"
proof -
  obtain r where rr: "rr = Inr r" using assms(2) by (cases rr) (auto simp: expand_one_def)
  obtain ns where ns: "rd_neighbors R (rw_head r) d ty = Inr ns"
    "map (\<lambda>n. (nb_edge n, nb_node n)) ns = nbr_hops R d ty (rw_head r)"
    by (rule neighbors_hops)
  from assms(2) obtain n where n: "n \<in> set ns" "r' = row_step r (nb_edge n) (nb_node n)"
    by (auto simp: expand_one_def rr ns(1))
  have "(nb_edge n, nb_node n) \<in> set (nbr_hops R d ty (rw_head r))" using n(1) unfolding ns(2) [symmetric] by auto
  then show ?thesis
    using assms(1) unfolding n(2) by (intro row_ok_step) (simp_all add: set_nbr_hops rr)
qed

lemma expand_var_ok:
  assumes "\<And>r. rr = Inr r \<Longrightarrow> row_ok G p r" "Inr r' \<in> set (expand_var R rr d ty mn mx)"
  shows "row_ok G p r'"
proof -
  obtain r where rr: "rr = Inr r" using assms(2) by (cases rr) (auto simp: expand_var_def)
  from assms(2) obtain hs where "walk (hops_from G p d ty) (rw_head r) hs" "r' = row_along r hs"
    by (auto simp: rr expand_var_run dfs_set set_nbr_hops)
  then show ?thesis using assms(1) by (auto simp: rr intro: row_ok_along)
qed

lemma beam_candidates_ok:
  "beam_candidates E R d ty property query metric rows = Inr cs \<Longrightarrow> (\<And>r. r \<in> set rows \<Longrightarrow> row_ok G p r) \<Longrightarrow>
   (s, r) \<in> set cs \<Longrightarrow> row_ok G p r"
proof (induction rows arbitrary: cs)
  case (Cons r0 rows)
  obtain ns where ns: "rd_neighbors R (rw_head r0) d ty = Inr ns"
    "map (\<lambda>n. (nb_edge n, nb_node n)) ns = nbr_hops R d ty (rw_head r0)"
    by (rule neighbors_hops)
  obtain here rest where cs: "cs = here @ rest" "beam_candidates E R d ty property query metric rows = Inr rest"
    and here: "\<And>y. y \<in> set here \<Longrightarrow> \<exists>n \<in> set ns. \<exists>sim. y = (sim, row_with_score (row_step r0 (nb_edge n) (nb_node n)) sim)"
    using Cons.prems(1) by (fastforce simp: ns(1) res_bind_eq_Inr Let_def dest: res_map_mem)
  show ?case
  proof (cases "(s, r) \<in> set here")
    case True
    then obtain n where n: "n \<in> set ns" "r = row_with_score (row_step r0 (nb_edge n) (nb_node n)) s" using here by blast
    have "(nb_edge n, nb_node n) \<in> set (nbr_hops R d ty (rw_head r0))" using n(1) unfolding ns(2) [symmetric] by auto
    then show ?thesis using Cons.prems(2) by (auto simp: n(2) set_nbr_hops intro: row_ok_step)
  next
    case False
    then show ?thesis using Cons.IH [OF cs(2)] Cons.prems(2,3) by (auto simp: cs(1))
  qed
qed simp

lemma expand_beam_ok:
  "expand_beam E R d ty property query metric width depth rows = Inr out \<Longrightarrow>
   (\<And>r. r \<in> set rows \<Longrightarrow> row_ok G p r) \<Longrightarrow> r \<in> set out \<Longrightarrow> row_ok G p r"
proof (induction depth arbitrary: rows out)
  case (Suc depth)
  obtain cs where cs: "beam_candidates E R d ty property query metric rows = Inr cs"
    using Suc.prems(1) by (auto simp: res_bind_eq_Inr)
  show ?case
  proof (cases "cs = []")
    case False
    let ?f = "map snd (take width (sort_by (\<lambda>a b. ftotal_cmp (fst b) (fst a)) cs))"
    have f: "row_ok G p r" if "r \<in> set ?f" for r
      using that beam_candidates_ok [OF cs Suc.prems(2)] by (auto dest!: in_set_takeD)
    obtain out' where "out = ?f @ out'" "expand_beam E R d ty property query metric width depth ?f = Inr out'"
      using Suc.prems(1) False by (auto simp: cs res_bind_eq_Inr Let_def)
    then show ?thesis using Suc.IH [of ?f out'] Suc.prems(3) f by auto
  qed (use Suc.prems cs in simp)
qed simp

lemma apply_step_ok:
  assumes ok: "stream_ok G p xs" and run: "apply_step E xs st R need = Inr ys"
  shows "stream_ok G p ys"
proof -
  have one: "row_ok G p r" if "Inr r \<in> set xs" for r using ok that by (auto simp: stream_ok_def)
  have grow: "row_ok G p r" if "x \<in> set xs" "Inr r \<in> set (expand_one R x d ty)" for x r d ty
    by (rule expand_one_ok [OF _ that(2)]) (use one that(1) in blast)
  have grow_var: "row_ok G p r" if "x \<in> set xs" "Inr r \<in> set (expand_var R x d ty mn mx)" for x r d ty mn mx
    by (rule expand_var_ok [OF _ that(2)]) (use one that(1) in blast)
  show ?thesis
  proof (cases st)
    case (Expand d ty)
    then show ?thesis using run grow by (auto simp: apply_step_def stream_ok_def)
  next
    case (ExpandVar d ty mn mx)
    then show ?thesis using run grow_var by (auto simp: apply_step_def stream_ok_def)
  next
    case (Filter pred)
    have "filter_one E R x pred need = Some (Inr r) \<Longrightarrow> x = Inr r" for x r
      by (auto simp: filter_one_def split: sum.splits bool.splits)
    then have "stream_ok G p (List.map_filter (\<lambda>rr. filter_one E R rr pred need) xs)"
      using ok by (auto simp: stream_ok_def List.map_filter_def) (metis option.sel)
    then show ?thesis using run by (simp add: apply_step_def Filter)
  next
    case (Sort keys)
    from run obtain dec where dec: "res_map (\<lambda>rr. res_bind rr (\<lambda>r.
        res_bind (row_values E R r (map sk_expr keys) need) (\<lambda>vals. Inr (vals, r)))) xs = Inr dec"
      and ys: "ys = map Inr (map snd (sort_by (\<lambda>a b. cmp_keys (fst a) (fst b) keys) dec))"
      by (auto simp: apply_step_def Sort sort_rows_def res_bind_eq_Inr)
    have "row_ok G p (snd y)" if "y \<in> set dec" for y
      using res_map_mem [OF dec that] ok by (auto simp: res_bind_eq_Inr stream_ok_def)
    then show ?thesis by (auto simp: ys stream_ok_def)
  next
    case (FrontierTopK property query metric k)
    from run obtain rows ranked out where o: "drain xs = Inr rows" "ys = map Inr out"
      "vector_top_k_rows E R (map fst (first_rows rows)) property query metric (clamp_usize k) = Inr ranked"
      "reattach (first_rows rows) ranked = Inr out"
      by (auto simp: apply_step_def FrontierTopK frontier_top_k_def Let_def res_bind_eq_Inr)
    have "row_ok G p r" if "r \<in> set out" for r
      by (rule reattach_ok [OF o(4) _ _ that])
        (use vector_top_k_ok [OF o(3)] drain_ok [OF ok o(1)] in \<open>auto dest: first_rows_mem\<close>)
    then show ?thesis by (auto simp: o(2) stream_ok_def)
  next
    case (ExpandBeam d ty property query metric width depth)
    from run obtain rows out where o: "drain xs = Inr rows" "ys = map Inr out"
      "expand_beam E R d ty property query metric (unat width) (unat depth) rows = Inr out"
      by (auto simp: apply_step_def ExpandBeam res_bind_eq_Inr)
    then show ?thesis
      using expand_beam_ok [OF o(3)] drain_ok [OF ok o(1)] by (auto simp: stream_ok_def)
  qed (use ok run distinct_items_subset [of "{}" xs] in
    \<open>auto simp: apply_step_def stream_ok_def dest: in_set_takeD in_set_dropD\<close>)
qed

lemma apply_steps_ok:
  "apply_steps E xs sts R need = Inr ys \<Longrightarrow> stream_ok G p xs \<Longrightarrow> stream_ok G p ys"
  by (induction sts arbitrary: xs) (auto simp: res_bind_eq_Inr intro: apply_step_ok)

lemma execute_ok:
  assumes "execute_with Q plan R dl = Some (Inr xs)" "Inr r \<in> set xs"
  shows "row_ok G p r"
proof -
  obtain rows ys where run: "source_rows Q R (lp_source plan) = Some (Inr rows)"
      "apply_steps (qe_float Q) (deadlined (map_option fst dl) (map Inr rows)) (lp_steps plan) R (plan_need plan) = Inr ys"
      "xs = deadlined (map_option snd dl) ys"
    using assms(1) by (auto simp: execute_with_def res_bind_eq_Inr Let_def)
  have "row_ok G p r" if "r \<in> set rows" for r
    using run(1) that by (rule source_rows_ok)
  then have "stream_ok G p (deadlined (map_option fst dl) (map Inr rows))"
    by (auto simp: stream_ok_def dest!: deadlined_subset)
  then have "stream_ok G p ys" using run(2) by (rule apply_steps_ok [rotated])
  then show ?thesis using assms(2) run(3) by (auto simp: stream_ok_def dest!: deadlined_subset)
qed

end

end
