(* ===== verification/Exec_Spec.thy ===== *)
theory Exec_Spec
  imports Exec_Walks
begin

text \<open>
  The executor against the abstract graph. The plans over scans and seeks have a plain semantics on lists
  of rows: expressions see every binding of the row, streams carry no errors. \<open>execute\<close> implements it,
  though it loads only the bindings the plan names.
\<close>

section \<open>Expressions on a row of the graph\<close>

definition node_of :: "agraph \<Rightarrow> plane_id \<Rightarrow> node_id \<Rightarrow> node_record option" where
  "node_of G p n = map_option (node_rec p n) (ag_node G (p, n))"

definition edge_of :: "agraph \<Rightarrow> plane_id \<Rightarrow> row \<Rightarrow> nat \<Rightarrow> (edge_record \<times> dir) option" where
  "edge_of G p r hop =
     (case row_path r ! hop of (e, v) \<Rightarrow>
        map_option (\<lambda>x. let rec = edge_rec p e x in
            (rec, if er_src rec = node_at r hop \<and> er_dst rec = v then Out else In))
          (ag_edge G (p, e)))"

text \<open>Every binding of a row: the nodes of its slots and the edges of its hops.\<close>

definition all_bindings :: "agraph \<Rightarrow> plane_id \<Rightarrow> row \<Rightarrow> bindings" where
  "all_bindings G p r =
     (let n = length (row_path r) in
      \<lparr>bn_nodes = map (\<lambda>slot. node_of G p (node_at r slot)) [0..<Suc n],
       bn_edges = map (edge_of G p r) [0..<n],
       bn_edge = (if n = 0 then None else edge_of G p r (n - 1))\<rparr>)"

definition row_eval :: "fenv \<Rightarrow> agraph \<Rightarrow> plane_id \<Rightarrow> row \<Rightarrow> expr \<Rightarrow> prop_value" where
  "row_eval E G p r e = eval E e (row_ctx r (node_of G p (rw_head r)) (all_bindings G p r))"

lemma slot_at_map: "slot_at (map f [0..<n]) i = (if i < n then f i else None)"
  by (simp add: slot_at_def)

lemma within_unat: "within v (Some m) \<longleftrightarrow> unat v < Suc (unat m)"
  by (simp add: within_def word_le_nat_alt less_Suc_eq_le)

lemma ctx_bindings: "row_ctx r node b = (row_ctx r node b')\<lparr>cx_bindings := b\<rparr>"
  by (simp add: row_ctx_def)

context graph_reader begin

lemma hop_edge_run:
  "hop_edge R (fst (row_path r ! hop)) (node_at r hop) (snd (row_path r ! hop)) = Inr (edge_of G p r hop)"
  by (simp add: hop_edge_def edge_of_def edge_law split_beta option.map_comp comp_def Let_def)

lemma resolve_nodes_run:
  "resolve_nodes R r need = Inr (case need of None \<Rightarrow> [] | Some m \<Rightarrow>
     map (\<lambda>slot. if slot \<le> length (row_path r) then node_of G p (node_at r slot) else None) [0..<Suc (unat m)])"
  by (auto simp: resolve_nodes_def node_law node_of_def simp del: upt_Suc split: option.split intro!: res_map_Inr)

lemma resolve_edges_run:
  "resolve_edges R r need = Inr (case need of None \<Rightarrow> [] | Some m \<Rightarrow>
     map (\<lambda>hop. if hop < length (row_path r) then edge_of G p r hop else None) [0..<Suc (unat m)])"
  by (auto simp: resolve_edges_def hop_edge_run simp del: upt_Suc split: option.split intro!: res_map_Inr)

lemma resolve_last_run:
  "resolve_last R r need =
     Inr (if need \<and> row_path r \<noteq> [] then edge_of G p r (length (row_path r) - 1) else None)"
  by (simp add: resolve_last_def hop_edge_run Let_def)

lemma resolve_bindings_run:
  obtains b where "resolve_bindings R r need = Inr b" "bindings_agree need False b (all_bindings G p r)"
proof (cases "need_any need")
  case False
  then have "resolve_bindings R r need = Inr bindings_default" by (simp add: resolve_bindings_def)
  moreover have "bindings_agree need False bindings_default (all_bindings G p r)"
    using False by (simp add: bindings_agree_def need_any_def within_def)
  ultimately show ?thesis by (rule that)
next
  case True
  let ?ns = "case nd_nodes need of None \<Rightarrow> [] | Some m \<Rightarrow>
     map (\<lambda>slot. if slot \<le> length (row_path r) then node_of G p (node_at r slot) else None) [0..<Suc (unat m)]"
  let ?es = "case nd_edges need of None \<Rightarrow> [] | Some m \<Rightarrow>
     map (\<lambda>hop. if hop < length (row_path r) then edge_of G p r hop else None) [0..<Suc (unat m)]"
  let ?l = "if nd_last_edge need \<and> row_path r \<noteq> [] then edge_of G p r (length (row_path r) - 1) else None"
  let ?b = "\<lparr>bn_nodes = ?ns, bn_edges = ?es, bn_edge = ?l\<rparr>"
  have "resolve_bindings R r need = Inr ?b"
    using True by (simp add: resolve_bindings_def resolve_nodes_run resolve_edges_run resolve_last_run)
  moreover have "bindings_node ?b v = bindings_node (all_bindings G p r) v" if w: "within v (nd_nodes need)" for v
  proof -
    obtain m where m: "nd_nodes need = Some m" using w by (auto simp: within_def split: option.splits)
    show ?thesis using w unfolding m within_unat
      by (simp add: bindings_node_def all_bindings_def Let_def m slot_at_map less_Suc_eq_le del: upt_Suc)
  qed
  moreover have "bindings_edge_at ?b v = bindings_edge_at (all_bindings G p r) v" if w: "within v (nd_edges need)" for v
  proof -
    obtain m where m: "nd_edges need = Some m" using w by (auto simp: within_def split: option.splits)
    show ?thesis using w unfolding m within_unat
      by (simp add: bindings_edge_at_def all_bindings_def Let_def m slot_at_map del: upt_Suc)
  qed
  ultimately show ?thesis
    by (intro that [of ?b]) (auto simp: bindings_agree_def all_bindings_def Let_def)
qed

lemma row_values_run:
  assumes "\<And>e. e \<in> set es \<Longrightarrow> need_met e False need"
  shows "row_values E R r es need = Inr (map (row_eval E G p r) es)"
proof -
  obtain b where b: "resolve_bindings R r need = Inr b" "bindings_agree need False b (all_bindings G p r)"
    by (rule resolve_bindings_run)
  have "eval E e (row_ctx r (node_of G p (rw_head r)) b) = row_eval E G p r e" if "e \<in> set es" for e
    using eval_agree [OF assms [OF that] b(2), of E "row_ctx r (node_of G p (rw_head r)) b"]
    by (simp add: row_eval_def row_ctx_def)
  then show ?thesis by (simp add: row_values_def node_law b(1) node_of_def)
qed

lemma matches_pred_run:
  assumes "need_met e False need"
  shows "matches_pred E R r e need = Inr (is_true (row_eval E G p r e))"
proof -
  have "row_values E R r [e] need = Inr [row_eval E G p r e]" using assms by (subst row_values_run) auto
  then show ?thesis
    unfolding row_values_def matches_pred_def by (auto simp: res_bind_def split: sum.splits)
qed

end


section \<open>The list semantics of a plan\<close>

type_synonym hop_lists = "dir \<Rightarrow> str option \<Rightarrow> node_id \<Rightarrow> (edge_id \<times> node_id) list"

fun core_source :: "source \<Rightarrow> bool" where
  "core_source ScanAll = True"
| "core_source (ScanLabel _) = True"
| "core_source (SeekIds _) = True"
| "core_source (SeekKeys _) = True"
| "core_source _ = False"

fun core_step :: "step \<Rightarrow> bool" where
  "core_step (FrontierTopK _ _ _ _) = False"
| "core_step (ExpandBeam _ _ _ _ _ _ _) = False"
| "core_step _ = True"

definition plane_nodes :: "agraph \<Rightarrow> plane_id \<Rightarrow> node_id list" where
  "plane_nodes G p = sorted_list_of_set {n. (p, n) \<in> dom (ag_node G)}"

definition spec_source :: "agraph \<Rightarrow> plane_id \<Rightarrow> source \<Rightarrow> node_id list" where
  "spec_source G p src =
     (case src of
        ScanAll \<Rightarrow> plane_nodes G p
      | ScanLabel l \<Rightarrow> sorted_list_of_set {n. has_label (ag_node G) p n l}
      | SeekIds ids \<Rightarrow> filter (\<lambda>i. ag_node G (p, i) \<noteq> None) ids
      | SeekKeys ks \<Rightarrow>
          List.map_filter (\<lambda>k. if \<exists>n. has_key (ag_node G) p n k then Some (THE n. has_key (ag_node G) p n k) else None) ks
      | _ \<Rightarrow> [])"

fun first_of_head :: "node_id set \<Rightarrow> row list \<Rightarrow> row list" where
  "first_of_head seen [] = []"
| "first_of_head seen (r # rs) =
     (if rw_head r \<in> seen then first_of_head seen rs
      else r # first_of_head (insert (rw_head r) seen) rs)"

definition spec_step :: "fenv \<Rightarrow> agraph \<Rightarrow> plane_id \<Rightarrow> hop_lists \<Rightarrow> step \<Rightarrow> row list \<Rightarrow> row list" where
  "spec_step E G p N st rows =
     (case st of
        Expand d ty \<Rightarrow> concat (map (\<lambda>r. map (\<lambda>(e, v). row_step r e v) (N d ty (rw_head r))) rows)
      | ExpandVar d ty mn mx \<Rightarrow> concat (map (dfs (N d ty) (unat mn) (unat mx) 0) rows)
      | Filter pred \<Rightarrow> filter (\<lambda>r. is_true (row_eval E G p r pred)) rows
      | Skip n \<Rightarrow> drop (unat n) rows
      | Limit n \<Rightarrow> take (unat n) rows
      | Distinct \<Rightarrow> first_of_head {} rows
      | Sort keys \<Rightarrow>
          map snd (sort_by (\<lambda>a b. cmp_keys (fst a) (fst b) keys)
            (map (\<lambda>r. (map (\<lambda>k. row_eval E G p r (sk_expr k)) keys, r)) rows))
      | _ \<Rightarrow> rows)"

definition spec_rows :: "fenv \<Rightarrow> agraph \<Rightarrow> plane_id \<Rightarrow> hop_lists \<Rightarrow> logical_plan \<Rightarrow> row list" where
  "spec_rows E G p N plan =
     foldl (\<lambda>rows st. spec_step E G p N st rows) (map row_start (spec_source G p (lp_source plan))) (lp_steps plan)"

lemma distinct_items_rows: "distinct_items seen (map Inr rows) = map Inr (first_of_head seen rows)"
  by (induction seen rows rule: first_of_head.induct) auto

lemma res_map_map_Inr: "(\<And>x. x \<in> set xs \<Longrightarrow> f x = Inr (g x)) \<Longrightarrow> res_map (\<lambda>rr. res_bind rr f) (map Inr xs) = Inr (map g xs)"
  by (induction xs) auto

context graph_reader begin

lemma seek_ids_run: "seek_ids R ids = Inr (filter (\<lambda>i. ag_node G (p, i) \<noteq> None) ids)"
  by (induction ids) (auto simp: node_law)

lemma seek_keys_run:
  "seek_keys R ks = Inr (List.map_filter
     (\<lambda>k. if \<exists>n. has_key (ag_node G) p n k then Some (THE n. has_key (ag_node G) p n k) else None) ks)"
proof (induction ks)
  case (Cons k ks)
  obtain r where r: "rd_node_id_by_key R k = Inr r" "\<And>n. r = Some n \<longleftrightarrow> has_key (ag_node G) p n k"
    using key_law [of k] by blast
  have "r = (if \<exists>n. has_key (ag_node G) p n k then Some (THE n. has_key (ag_node G) p n k) else None)"
  proof (cases r)
    case (Some n)
    then have key: "has_key (ag_node G) p m k \<longleftrightarrow> m = n" for m using r(2) [of m] by auto
    show ?thesis unfolding key by (simp add: Some)
  qed (use r(2) in auto)
  then show ?case using Cons by (auto simp: r(1) List.map_filter_def split: option.split)
qed (simp add: List.map_filter_def)

lemma source_run:
  "core_source src \<Longrightarrow> source_rows Q R src = Some (Inr (map row_start (spec_source G p src)))"
  by (cases src)
    (simp_all add: source_rows_def spec_source_def plane_nodes_def scan_all_law scan_label_law seek_ids_run seek_keys_run)

lemma step_run:
  assumes core: "core_step st" and met: "\<And>e. e \<in> set (step_exprs st) \<Longrightarrow> need_met e False need"
  shows "apply_step E (map Inr rows) st R need = Inr (map Inr (spec_step E G p (nbr_hops R) st rows))"
proof (cases st)
  case (Expand d ty)
  have "expand_one R (Inr r) d ty = map Inr (map (\<lambda>(e, v). row_step r e v) (nbr_hops R d ty (rw_head r)))" for r
  proof -
    obtain ns where ns: "rd_neighbors R (rw_head r) d ty = Inr ns"
      "map (\<lambda>n. (nb_edge n, nb_node n)) ns = nbr_hops R d ty (rw_head r)"
      by (rule neighbors_hops)
    show ?thesis unfolding ns(2) [symmetric] by (simp add: expand_one_def ns(1))
  qed
  then show ?thesis by (simp add: Expand apply_step_def spec_step_def map_concat comp_def)
next
  case (ExpandVar d ty mn mx)
  then show ?thesis by (simp add: apply_step_def spec_step_def expand_var_run map_concat comp_def)
next
  case (Filter pred)
  have "filter_one E R (Inr r) pred need = (if is_true (row_eval E G p r pred) then Some (Inr r) else None)" for r
    using met by (auto simp: filter_one_def matches_pred_run Filter split: bool.split)
  then show ?thesis
    by (simp add: Filter apply_step_def spec_step_def List.map_filter_def filter_map comp_def)
next
  case (Sort keys)
  have "res_bind (row_values E R r (map sk_expr keys) need) (\<lambda>vals. Inr (vals, r)) =
      Inr (map (\<lambda>k. row_eval E G p r (sk_expr k)) keys, r)" for r
    by (subst row_values_run) (use met in \<open>auto simp: Sort\<close>)
  then show ?thesis
    by (simp add: Sort apply_step_def spec_step_def sort_rows_def res_map_map_Inr)
qed (use core in \<open>simp_all add: apply_step_def spec_step_def drop_map take_map clamp_usize_def distinct_items_rows\<close>)

lemma steps_run:
  "list_all core_step sts \<Longrightarrow> (\<forall>st \<in> set sts. \<forall>e \<in> set (step_exprs st). need_met e False need) \<Longrightarrow>
   apply_steps E (map Inr rows) sts R need =
     Inr (map Inr (foldl (\<lambda>rows st. spec_step E G p (nbr_hops R) st rows) rows sts))"
proof (induction sts arbitrary: rows)
  case (Cons st sts)
  have "apply_step E (map Inr rows) st R need = Inr (map Inr (spec_step E G p (nbr_hops R) st rows))"
    by (rule step_run) (use Cons.prems in auto)
  then show ?case using Cons by simp
qed simp

lemma execute_run:
  assumes "core_source (lp_source plan)" "list_all core_step (lp_steps plan)"
  shows "execute Q plan R = Some (Inr (map Inr (spec_rows (qe_float Q) G p (nbr_hops R) plan)))"
proof -
  have "\<forall>st \<in> set (lp_steps plan). \<forall>e \<in> set (step_exprs st). need_met e False (plan_need plan)"
    by (auto simp: plan_exprs_def intro!: plan_need_meets)
  then show ?thesis
    by (simp add: execute_def execute_with_def source_run [OF assms(1)] deadlined_def steps_run [OF assms(2)] spec_rows_def)
qed

end

end
