(* ===== verification/Exec_Groups.thy ===== *)
theory Exec_Groups
  imports Exec_Spec
begin

text \<open>
  The projection tail: what \<open>DISTINCT\<close>, \<open>ORDER BY\<close> and grouping with aggregates return, as list functions
  of the values of the rows.
\<close>

section \<open>The orders of tuples\<close>

interpretation tuple_order: comparison tuple_cmp
  by unfold_locales (auto simp: tuple_cmp_def intro: lex_laws total_laws)

lemma rev_laws: "cmp_laws c x \<Longrightarrow> (\<And>y. cmp_laws c y) \<Longrightarrow> cmp_laws (\<lambda>a b. rev_ord (c a b)) x"
proof (rule cmp_lawsI)
  assume all: "\<And>y. cmp_laws c y"
  note d = cmp_lawsD [OF all]
  show "rev_ord (c x x) = Equal" by (simp add: d(1))
  show "rev_ord (c y x) = rev_ord (rev_ord (c x y))" for y using d(2) [of y x] by simp
  show "rev_ord (c x z) = rev_ord (c y z)" if "rev_ord (c x y) = Equal" for y z
    using that d(3) [of x y z] by (cases "c x y") auto
  show "rev_ord (c x z) = Less" if "rev_ord (c x y) = Less" "rev_ord (c y z) \<noteq> Greater" for y z
  proof -
    have "c y x = Less" using that(1) d(2) [of y x] by (cases "c x y") auto
    moreover have "c z y \<noteq> Greater" using that(2) d(2) [of z y] by (cases "c y z") auto
    ultimately have "c z x = Less"
      using d(4) [of z y x] d(3) [of z y x] by (cases "c z y") auto
    then show ?thesis using d(2) [of z x] by (cases "c x z") auto
  qed
qed

lemma cmp_columns_laws: "cmp_laws (\<lambda>a b. cmp_columns a b keys) x"
proof (induction keys arbitrary: x)
  case Nil
  then show ?case by (simp add: cmp_laws_def)
next
  case (Cons key keys)
  let ?c = "\<lambda>a b. total_cmp (column a (ts_column key)) (column b (ts_column key))"
  have c: "cmp_laws ?c y" for y
    by (rule cmp_laws_embed [where f = "\<lambda>t. column t (ts_column key)", OF _ total_laws]) simp
  have "cmp_laws (\<lambda>a b. if ts_descending key then rev_ord (?c a b) else ?c a b) x"
    using c rev_laws [OF c c] by (cases "ts_descending key") auto
  then have "cmp_laws (\<lambda>a b. then_cmp (if ts_descending key then rev_ord (?c a b) else ?c a b) (cmp_columns a b keys)) x"
    using Cons.IH by (rule then_laws)
  moreover have "cmp_columns a b (key # keys) =
      then_cmp (if ts_descending key then rev_ord (?c a b) else ?c a b) (cmp_columns a b keys)" for a b
    by (simp add: Let_def then_cmp_def split: ordering.split)
  ultimately show ?case by simp
qed

interpretation column_order: comparison "\<lambda>a b. cmp_columns a b keys" for keys
  by unfold_locales (rule cmp_columns_laws)

section \<open>Distinct tuples\<close>

text \<open>The first of every class of equal elements, in order.\<close>

fun firsts :: "('a \<Rightarrow> 'a \<Rightarrow> ordering) \<Rightarrow> 'a list \<Rightarrow> 'a list \<Rightarrow> 'a list" where
  "firsts c seen [] = []"
| "firsts c seen (x # xs) =
     (if oset_mem c x seen then firsts c seen xs else x # firsts c (x # seen) xs)"

context comparison begin

lemma firsts_seen: "(\<And>x. oset_mem c x s = oset_mem c x s') \<Longrightarrow> firsts c s xs = firsts c s' xs"
proof (induction xs arbitrary: s s')
  case (Cons a xs)
  have "oset_mem c x (a # s) = oset_mem c x (a # s')" for x using Cons.prems [of x] by (auto simp: oset_mem_def)
  then have "firsts c (a # s) xs = firsts c (a # s') xs" by (rule Cons.IH)
  moreover have "firsts c s xs = firsts c s' xs" using Cons.prems by (rule Cons.IH)
  ultimately show ?case using Cons.prems [of a] by simp
qed simp

lemma firsts_fresh: "y \<in> set (firsts c s xs) \<Longrightarrow> \<not> oset_mem c y s"
  by (induction xs arbitrary: s) (auto simp: oset_mem_def split: if_splits)

lemma firsts_subset: "set (firsts c s xs) \<subseteq> set xs"
  by (induction xs arbitrary: s) auto

lemma firsts_apart: "sorted_wrt (\<lambda>x y. c x y \<noteq> Equal) (firsts c s xs)"
proof (induction xs arbitrary: s)
  case (Cons x xs)
  have "c x y \<noteq> Equal" if "y \<in> set (firsts c (x # s) xs)" for y
    using firsts_fresh [OF that] equal_sym [of x y] by (auto simp: oset_mem_def)
  then show ?case using Cons by auto
qed simp

lemma firsts_cover: "x \<in> set xs \<Longrightarrow> oset_mem c x s \<or> (\<exists>y \<in> set (firsts c s xs). c x y = Equal)"
proof (induction xs arbitrary: s)
  case (Cons a xs)
  show ?case
  proof (cases "x = a")
    case False
    then have "x \<in> set xs" using Cons.prems by simp
    then show ?thesis
      using Cons.IH [of s] Cons.IH [of "a # s"] equal_sym by (auto simp: oset_mem_def)
  qed auto
qed simp

lemma firsts_snoc: "firsts c s (xs @ [x]) = firsts c s xs @ (if oset_mem c x (s @ xs) then [] else [x])"
proof (induction xs arbitrary: s)
  case (Cons a xs)
  have "oset_mem c x (s @ a # xs) = oset_mem c x ((a # s) @ xs)" by (auto simp: oset_mem_def)
  moreover have "oset_mem c x (s @ xs) = oset_mem c x (s @ a # xs)" if "oset_mem c a s"
    using that oset_mem_cong [of x a s] by (auto simp: oset_mem_def)
  ultimately show ?case using Cons.IH [of s] Cons.IH [of "a # s"] by auto
qed simp

end


lemma oset_insert_mem: "oset_insert c x s = (b, s') \<Longrightarrow> b = (\<not> oset_mem c x s)"
  by (auto simp: oset_insert_def split: if_splits)

text \<open>The tuples of a projection without aggregates.\<close>

definition spec_tuples :: "fenv \<Rightarrow> agraph \<Rightarrow> plane_id \<Rightarrow> projection \<Rightarrow> row list \<Rightarrow> tuple list" where
  "spec_tuples E G p pj rows =
     (let ts = map (\<lambda>r. map (row_eval E G p r) (value_exprs pj)) rows in
      if pj_distinct pj then firsts tuple_cmp [] ts else ts)"

context graph_reader begin

lemma tuple_loop_run:
  assumes met: "\<And>e. e \<in> set (value_exprs pj) \<Longrightarrow> need_met e False need"
  shows "tuple_loop E R (map Inr rows) pj need seen =
    Inr (let ts = map (\<lambda>r. map (row_eval E G p r) (value_exprs pj)) rows in
      if pj_distinct pj then firsts tuple_cmp seen ts else ts)"
proof (induction rows arbitrary: seen)
  case (Cons r rows)
  let ?t = "map (row_eval E G p r) (value_exprs pj)"
  have v: "row_values E R r (value_exprs pj) need = Inr ?t" by (rule row_values_run) (rule met)
  show ?case
  proof (cases "pj_distinct pj \<and> \<not> oset_mem tuple_cmp ?t seen")
    case True
    have "firsts tuple_cmp (ins_by tuple_cmp ?t seen) ts = firsts tuple_cmp (?t # seen) ts" for ts
      by (rule tuple_order.firsts_seen) (auto simp: tuple_order.oset_mem_ins oset_mem_def)
    then show ?thesis using Cons True by (simp add: v oset_insert_def Let_def)
  next
    case False
    then show ?thesis using Cons by (auto simp: v oset_insert_def Let_def)
  qed
qed (simp add: Let_def)

end

section \<open>Groups\<close>

definition fold_rows :: "fenv \<Rightarrow> proj_item list \<Rightarrow> nat option list \<Rightarrow> tuple list \<Rightarrow> acc list" where
  "fold_rows E items slots vs = foldl (\<lambda>accs vals. take_row E items slots vals accs) (map acc_for_item items) vs"

text \<open>The rows of a group: those whose key compares equal to the group's.\<close>

definition members :: "proj_item list \<Rightarrow> nat option list \<Rightarrow> tuple \<Rightarrow> tuple list \<Rightarrow> tuple list" where
  "members items slots k vs = filter (\<lambda>v. tuple_cmp (group_key items slots v) k = Equal) vs"

definition group_keys :: "proj_item list \<Rightarrow> nat option list \<Rightarrow> tuple list \<Rightarrow> tuple list" where
  "group_keys items slots vs = firsts tuple_cmp [] (map (group_key items slots) vs)"

definition groups_ok :: "fenv \<Rightarrow> proj_item list \<Rightarrow> nat option list \<Rightarrow> tuple list \<Rightarrow> groups \<Rightarrow> bool" where
  "groups_ok E items slots vs g \<longleftrightarrow>
     (let ks = group_keys items slots vs in
      gs_groups g = map (\<lambda>k. fold_rows E items slots (members items slots k vs)) ks \<and>
      set (gs_at g) = set (zip ks [0..<length ks]) \<and> distinct (gs_at g))"

lemma zip_upt_mem: "(k, i) \<in> set (zip ks [0..<length ks]) \<longleftrightarrow> i < length ks \<and> ks ! i = k"
  by (auto simp: set_zip)

lemma apart_unique:
  assumes "i < length (group_keys items slots vs)" "j < length (group_keys items slots vs)"
    "tuple_cmp k (group_keys items slots vs ! i) = Equal" "tuple_cmp k (group_keys items slots vs ! j) = Equal"
  shows "i = j"
proof -
  let ?ks = "group_keys items slots vs"
  have "tuple_cmp (?ks ! i) (?ks ! j) = Equal" "tuple_cmp (?ks ! j) (?ks ! i) = Equal"
    using assms(3,4) tuple_order.equal tuple_order.equal_sym by metis+
  moreover have "sorted_wrt (\<lambda>x y. tuple_cmp x y \<noteq> Equal) ?ks"
    unfolding group_keys_def by (rule tuple_order.firsts_apart)
  ultimately show ?thesis
    using assms(1,2) sorted_wrt_nth_less [of _ ?ks i j] sorted_wrt_nth_less [of _ ?ks j i]
    by (cases i j rule: linorder_cases) auto
qed

lemma omap_get_group:
  assumes ok: "groups_ok E items slots vs g" and "i < length (group_keys items slots vs)"
    and eq: "tuple_cmp k (group_keys items slots vs ! i) = Equal"
  shows "omap_get tuple_cmp k (gs_at g) = Some i"
proof -
  let ?ks = "group_keys items slots vs" and ?P = "\<lambda>(k', _). tuple_cmp k k' = Equal"
  have at: "(k', j) \<in> set (gs_at g) \<longleftrightarrow> j < length ?ks \<and> ?ks ! j = k'" for k' j
    using ok by (simp only: groups_ok_def Let_def zip_upt_mem)
  have "\<exists>x \<in> set (gs_at g). ?P x" using at [of "?ks ! i" i] assms by (intro bexI [of _ "(?ks ! i, i)"]) auto
  then obtain x where x: "List.find ?P (gs_at g) = Some x" by (cases "List.find ?P (gs_at g)") (auto simp: find_None_iff)
  obtain k' j where kj: "x = (k', j)" by (cases x)
  have "x \<in> set (gs_at g)" "?P x" using x unfolding find_Some_iff by (metis nth_mem)+
  then have "j < length ?ks" "tuple_cmp k (?ks ! j) = Equal" using at [of k' j] by (auto simp: kj)
  then have "j = i" using assms by (intro apart_unique)
  then show ?thesis by (simp add: omap_get_def x kj)
qed

lemma omap_get_new:
  assumes ok: "groups_ok E items slots vs g" and "\<not> oset_mem tuple_cmp k (group_keys items slots vs)"
  shows "omap_get tuple_cmp k (gs_at g) = None"
proof -
  have "set (map fst (gs_at g)) \<subseteq> set (group_keys items slots vs)"
    using ok by (auto simp: groups_ok_def Let_def dest: set_zip_leftD)
  then show ?thesis using assms(2) by (auto simp: omap_get_def find_None_iff oset_mem_def)
qed

lemma group_keys_mem:
  "oset_mem tuple_cmp k (group_keys items slots vs) = oset_mem tuple_cmp k (map (group_key items slots) vs)"
proof
  show "oset_mem tuple_cmp k (group_keys items slots vs) \<Longrightarrow> oset_mem tuple_cmp k (map (group_key items slots) vs)"
    using tuple_order.firsts_subset unfolding group_keys_def oset_mem_def by blast
next
  assume "oset_mem tuple_cmp k (map (group_key items slots) vs)"
  then obtain x where x: "x \<in> set (map (group_key items slots) vs)" "tuple_cmp k x = Equal" by (auto simp: oset_mem_def)
  then obtain y where "y \<in> set (group_keys items slots vs)" "tuple_cmp x y = Equal"
    using tuple_order.firsts_cover [OF x(1), of "[]"] by (auto simp: group_keys_def oset_mem_def)
  then show "oset_mem tuple_cmp k (group_keys items slots vs)"
    using x(2) tuple_order.equal [of k x] by (auto simp: oset_mem_def)
qed

lemma group_keys_snoc:
  "group_keys items slots (vs @ [v]) = group_keys items slots vs @
     (if oset_mem tuple_cmp (group_key items slots v) (group_keys items slots vs) then [] else [group_key items slots v])"
  unfolding group_keys_mem by (simp add: group_keys_def tuple_order.firsts_snoc)

lemma members_snoc:
  "members items slots k (vs @ [v]) =
     members items slots k vs @ (if tuple_cmp (group_key items slots v) k = Equal then [v] else [])"
  by (simp add: members_def)

lemma fold_rows_snoc: "fold_rows E items slots (vs @ [v]) = take_row E items slots v (fold_rows E items slots vs)"
  by (simp add: fold_rows_def)

lemma mset_omap_insert: "mset (omap_insert c k v m) = add_mset (k, v) (mset m)"
  unfolding omap_insert_def by (induction m) auto

lemma group_row_ok:
  assumes ok: "groups_ok E items slots vs g"
  shows "groups_ok E items slots (vs @ [v]) (group_row E items slots v g)"
proof -
  let ?ks = "group_keys items slots vs" and ?k = "group_key items slots v"
  let ?f = "\<lambda>vs k. fold_rows E items slots (members items slots k vs)"
  have groups: "gs_groups g = map (?f vs) ?ks" and at: "set (gs_at g) = set (zip ?ks [0..<length ?ks])" "distinct (gs_at g)"
    using ok by (simp_all add: groups_ok_def Let_def)
  show ?thesis
  proof (cases "oset_mem tuple_cmp ?k ?ks")
    case False
    have keys: "group_keys items slots (vs @ [v]) = ?ks @ [?k]" using False by (simp add: group_keys_snoc)
    have "members items slots ?k vs = []"
      using False unfolding group_keys_mem
      by (auto simp: members_def filter_empty_conv oset_mem_def dest: tuple_order.equal_sym)
    then have new: "?f (vs @ [v]) ?k = take_row E items slots v (map acc_for_item items)"
      by (simp add: members_snoc fold_rows_def)
    have old: "?f (vs @ [v]) k = ?f vs k" if "k \<in> set ?ks" for k
      using that False by (simp add: members_snoc oset_mem_def)
    have fresh: "(?k, length ?ks) \<notin> set (gs_at g)" unfolding at by (auto simp: zip_upt_mem)
    have g': "group_row E items slots v g =
        \<lparr>gs_groups = map (?f vs) ?ks @ [take_row E items slots v (map acc_for_item items)],
         gs_at = omap_insert tuple_cmp ?k (length ?ks) (gs_at g)\<rparr>"
      using omap_get_new [OF ok False] by (simp add: group_row_def Let_def groups list_update_append nth_append)
    note mset_omap_insert [of tuple_cmp ?k "length ?ks" "gs_at g"]
    then have "set (omap_insert tuple_cmp ?k (length ?ks) (gs_at g)) = insert (?k, length ?ks) (set (gs_at g))"
      "distinct (omap_insert tuple_cmp ?k (length ?ks) (gs_at g))"
      using at(2) fresh by (metis set_mset_add_mset_insert set_mset_mset, metis distinct.simps(2) mset.simps(2) mset_eq_imp_distinct_iff)
    then show ?thesis
      by (simp add: groups_ok_def Let_def keys g' new old at zip_append1)
  next
    case True
    then obtain i where i: "i < length ?ks" "tuple_cmp ?k (?ks ! i) = Equal" by (auto simp: oset_mem_def in_set_conv_nth)
    have keys: "group_keys items slots (vs @ [v]) = ?ks" using True by (simp add: group_keys_snoc)
    have eq: "tuple_cmp ?k (?ks ! j) = Equal \<longleftrightarrow> j = i" if "j < length ?ks" for j
      using that i apart_unique [of j items slots vs i ?k] by auto
    have g': "group_row E items slots v g =
        g\<lparr>gs_groups := (map (?f vs) ?ks)[i := take_row E items slots v (?f vs (?ks ! i))]\<rparr>"
      using omap_get_group [OF ok i] i(1) by (simp add: group_row_def Let_def groups)
    have "(map (?f vs) ?ks)[i := take_row E items slots v (?f vs (?ks ! i))] = map (?f (vs @ [v])) ?ks"
      by (rule nth_equalityI) (auto simp: nth_list_update eq members_snoc fold_rows_snoc)
    then show ?thesis by (simp add: groups_ok_def Let_def keys g' at)
  qed
qed


lemma sort_by_sort_key: "sort_by (\<lambda>a b. cmp (f a) (f b)) xs = sort_key f xs"
proof -
  have "ins_by (\<lambda>a b. cmp (f a) (f b)) x xs = insort_key f x xs" for x xs by (induction xs) auto
  then have "ins_by (\<lambda>a b. cmp (f a) (f b)) = insort_key f" by blast
  then show ?thesis by (simp add: sort_by_def sort_key_def)
qed

lemma keyed_groups:
  assumes "groups_ok E items slots vs g"
  shows "sort_by (\<lambda>a b. cmp (fst a) (fst b)) (map (\<lambda>(k, i). (i, k)) (gs_at g)) =
    zip [0..<length (group_keys items slots vs)] (group_keys items slots vs)"
proof -
  let ?ks = "group_keys items slots vs"
  have at: "set (gs_at g) = set (zip ?ks [0..<length ?ks])" "distinct (gs_at g)"
    using assms by (simp_all add: groups_ok_def Let_def)
  have "distinct (zip ?ks [0..<length ?ks])" by (simp add: distinct_zipI2)
  then have m: "mset (gs_at g) = mset (zip ?ks [0..<length ?ks])" using at by (simp add: set_eq_iff_mset_eq_distinct)
  have sw: "map (\<lambda>(k, i). (i, k)) (zip ?ks [0..<length ?ks]) = zip [0..<length ?ks] ?ks"
    by (rule nth_equalityI) auto
  have "mset (map (\<lambda>(k, i). (i, k)) (gs_at g)) = mset (zip [0..<length ?ks] ?ks)"
    unfolding sw [symmetric] mset_map m ..
  moreover from this have "set (map (\<lambda>(k, i). (i, k)) (gs_at g)) = set (zip [0..<length ?ks] ?ks)"
    by (metis set_mset_mset)
  then have "inj_on fst (set (map (\<lambda>(k, i). (i, k)) (gs_at g)))"
    by (auto simp: inj_on_def set_zip)
  ultimately show ?thesis unfolding sort_by_sort_key by (intro sort_key_inj_key_eq) simp_all
qed

text \<open>The tuples of a projection with aggregates: one per group, in the order in which the groups appear.\<close>

definition spec_groups :: "fenv \<Rightarrow> agraph \<Rightarrow> plane_id \<Rightarrow> projection \<Rightarrow> row list \<Rightarrow> tuple list" where
  "spec_groups E G p pj rows =
     (let items = pj_items pj; slots = slots_from 0 items;
          vs = map (\<lambda>r. map (row_eval E G p r) (value_exprs pj)) rows
      in if vs = [] \<and> list_all is_agg items then [finish_row E [] (map acc_for_item items)]
         else map (\<lambda>k. finish_row E k (fold_rows E items slots (members items slots k vs)))
           (group_keys items slots vs))"

context graph_reader begin

lemma group_loop_run:
  assumes met: "\<And>e. e \<in> set (value_exprs pj) \<Longrightarrow> need_met e False need"
  shows "groups_ok E (pj_items pj) (slots_from 0 (pj_items pj)) vs g \<Longrightarrow>
    \<exists>g'. group_loop E R (map Inr rows) pj need g = Inr g' \<and>
      groups_ok E (pj_items pj) (slots_from 0 (pj_items pj))
        (vs @ map (\<lambda>r. map (row_eval E G p r) (value_exprs pj)) rows) g'"
proof (induction rows arbitrary: vs g)
  case (Cons r rows)
  let ?t = "map (row_eval E G p r) (value_exprs pj)"
  have "row_values E R r (value_exprs pj) need = Inr ?t" by (rule row_values_run) (rule met)
  then show ?case using Cons.IH [OF group_row_ok [OF Cons.prems, of ?t]] by simp
qed simp

lemma grouped_tuples_run:
  assumes met: "\<And>e. e \<in> set (value_exprs pj) \<Longrightarrow> need_met e False need"
  shows "grouped_tuples E R (map Inr rows) pj need = Inr (spec_groups E G p pj rows)"
proof -
  let ?items = "pj_items pj" and ?vs = "map (\<lambda>r. map (row_eval E G p r) (value_exprs pj)) rows"
  let ?slots = "slots_from 0 ?items"
  let ?ks = "group_keys ?items ?slots ?vs"
  have "groups_ok E ?items ?slots [] \<lparr>gs_groups = [], gs_at = []\<rparr>"
    by (simp add: groups_ok_def group_keys_def)
  then obtain g where g: "group_loop E R (map Inr rows) pj need \<lparr>gs_groups = [], gs_at = []\<rparr> = Inr g"
    and ok: "groups_ok E ?items ?slots ?vs g"
    using group_loop_run [OF met] by fastforce
  have groups: "gs_groups g = map (\<lambda>k. fold_rows E ?items ?slots (members ?items ?slots k ?vs)) ?ks"
    using ok by (simp add: groups_ok_def Let_def)
  have empty: "gs_groups g = [] \<longleftrightarrow> ?vs = []"
    using tuple_order.firsts_cover [of _ "map (group_key ?items ?slots) ?vs" "[]"]
    by (cases ?vs) (auto simp: groups group_keys_def oset_mem_def)
  show ?thesis
  proof (cases "?vs = [] \<and> list_all is_agg ?items")
    case True
    then show ?thesis using empty by (simp add: grouped_tuples_def g spec_groups_def Let_def sort_by_def)
  next
    case False
    then have "\<not> (gs_groups g = [] \<and> list_all is_agg ?items)" using empty by blast
    then have "grouped_tuples E R (map Inr rows) pj need =
        Inr (map (\<lambda>((_, key), accs). finish_row E key accs) (zip (zip [0..<length ?ks] ?ks) (gs_groups g)))"
      by (auto simp: grouped_tuples_def g Let_def keyed_groups [OF ok])
    also have "map (\<lambda>((_, key), accs). finish_row E key accs) (zip (zip [0..<length ?ks] ?ks) (gs_groups g)) =
        map (\<lambda>k. finish_row E k (fold_rows E ?items ?slots (members ?items ?slots k ?vs))) ?ks"
      unfolding groups by (rule nth_equalityI) auto
    finally show ?thesis using False by (auto simp: spec_groups_def Let_def)
  qed
qed

lemma execute_table_run:
  assumes "core_source (lp_source plan)" "list_all core_step (lp_steps plan)" "lp_project plan = Some pj"
  shows "execute_table Q plan R None = Some (Inr
    \<lparr>tb_columns = map pi_name (pj_items pj),
     tb_rows = cut_rows pj (order_rows pj
       (let rows = spec_rows (qe_float Q) G p (nbr_hops R) plan in
        if list_ex is_agg (pj_items pj) then spec_groups (qe_float Q) G p pj rows
        else spec_tuples (qe_float Q) G p pj rows))\<rparr>)"
proof -
  have met: "need_met e False (plan_need plan)" if e: "e \<in> set (value_exprs pj)" for e
  proof (rule plan_need_meets)
    obtain it where it: "it \<in> set (pj_items pj)"
      "(case pi_expr it of PValue e \<Rightarrow> Some e | PAgg a \<Rightarrow> ag_arg a) = Some e"
      using e by (auto simp: value_exprs_def List.map_filter_def)
    from it(2) have "e \<in> set (item_exprs it)" by (auto split: proj_expr.splits)
    with it(1) have "e \<in> set (concat (map item_exprs (pj_items pj)))" by (auto simp del: item_exprs.simps)
    then show "e \<in> set (plan_exprs plan)" by (simp add: plan_exprs_def assms(3))
  qed
  show ?thesis
    using execute_run [OF assms(1,2)] met
    by (simp add: execute_table_def execute_def assms(3) table_of_def grouped_tuples_run row_tuples_def
        tuple_loop_run spec_tuples_def Let_def)
qed

end

section \<open>What the aggregates compute\<close>

definition fold_column :: "fenv \<Rightarrow> acc \<Rightarrow> prop_value list \<Rightarrow> acc" where
  "fold_column E acc xs = foldl (\<lambda>a x. acc_take E a (Some x)) acc xs"

definition non_null :: "prop_value list \<Rightarrow> prop_value list" where
  "non_null xs = filter (\<lambda>x. x \<noteq> PNull) xs"

fun plain_acc :: "acc \<Rightarrow> bool" where
  "plain_acc (ADistinct _ _) = False"
| "plain_acc _ = True"

lemma fold_value_plain: "plain_acc a \<Longrightarrow> plain_acc (fold_value E a v)"
  by (cases a) (auto simp: fold_value_def split: prop_value.split option.split)

lemma acc_take_plain:
  "plain_acc a \<Longrightarrow> acc_take E a (Some x) = (if x = PNull then a else fold_value E a x)"
  by (cases a) (auto split: prop_value.split)

lemma fold_plain: "plain_acc a \<Longrightarrow> fold_column E a xs = foldl (fold_value E) a (non_null xs)"
  by (induction xs arbitrary: a) (auto simp: fold_column_def non_null_def acc_take_plain fold_value_plain)

lemma fold_count: "fold_column E (ACount n) xs = ACount (n + of_nat (length (non_null xs)))"
proof -
  have "foldl (fold_value E) (ACount n) ys = ACount (n + of_nat (length ys))" for ys
    by (induction ys arbitrary: n) (auto simp: fold_value_def algebra_simps)
  then show ?thesis by (simp add: fold_plain)
qed

lemma fold_count_rows: "foldl (\<lambda>a _. acc_take E a None) (ACount n) vs = ACount (n + of_nat (length vs))"
  by (induction vs arbitrary: n) (auto simp: algebra_simps)

lemma fold_collect: "fold_column E (ACollect ys) xs = ACollect (ys @ non_null xs)"
proof -
  have "foldl (fold_value E) (ACollect ys) zs = ACollect (ys @ zs)" for zs
    by (induction zs arbitrary: ys) (auto simp: fold_value_def)
  then show ?thesis by (simp add: fold_plain)
qed

text \<open>The first least element, and the first greatest.\<close>

definition extreme :: "ordering \<Rightarrow> prop_value list \<Rightarrow> prop_value option \<Rightarrow> bool" where
  "extreme o' ys m \<longleftrightarrow>
     (case m of None \<Rightarrow> ys = [] | Some x \<Rightarrow> x \<in> set ys \<and> (\<forall>y \<in> set ys. total_cmp y x \<noteq> o'))"

lemma extreme_snoc:
  assumes "extreme o' ys m" "o' \<noteq> Equal"
  shows "extreme o' (ys @ [v])
    (if (case m of None \<Rightarrow> True | Some b \<Rightarrow> total_cmp v b = o') then Some v else m)"
proof (cases m)
  case (Some b)
  show ?thesis
  proof (cases "total_cmp v b = o'")
    case True
    have "total_cmp y v \<noteq> o'" if "y \<in> set ys" for y
    proof
      assume yv: "total_cmp y v = o'"
      have "total_cmp y b = o'"
        using True yv assms(2) value_order.less [of y v b] value_order.less [of b v y]
          value_order.greater_iff [of y v] value_order.greater_iff [of v b] value_order.greater_iff [of y b]
        by (cases o') auto
      then show False using assms(1) that by (simp add: extreme_def Some)
    qed
    then show ?thesis using True assms(2) by (auto simp: extreme_def Some)
  next
    case False
    then show ?thesis using assms by (auto simp: extreme_def Some)
  qed
qed (use assms in \<open>auto simp: extreme_def\<close>)

lemma fold_value_extreme:
  "fold_value E (AMin m) v = AMin (if (case m of None \<Rightarrow> True | Some b \<Rightarrow> total_cmp v b = Less) then Some v else m)"
  "fold_value E (AMax m) v = AMax (if (case m of None \<Rightarrow> True | Some b \<Rightarrow> total_cmp v b = Greater) then Some v else m)"
  by (auto simp: fold_value_def)

lemma fold_min: "\<exists>m. fold_column E (AMin None) xs = AMin m \<and> extreme Less (non_null xs) m"
proof -
  have "\<exists>m. foldl (fold_value E) (AMin None) ys = AMin m \<and> extreme Less ys m" for ys
  proof (induction ys rule: rev_induct)
    case (snoc v ys)
    then obtain m where m: "foldl (fold_value E) (AMin None) ys = AMin m" "extreme Less ys m" by blast
    show ?case using extreme_snoc [OF m(2), of v] by (simp add: m(1) fold_value_extreme)
  qed (simp add: extreme_def)
  then show ?thesis by (simp add: fold_plain)
qed

lemma fold_max: "\<exists>m. fold_column E (AMax None) xs = AMax m \<and> extreme Greater (non_null xs) m"
proof -
  have "\<exists>m. foldl (fold_value E) (AMax None) ys = AMax m \<and> extreme Greater ys m" for ys
  proof (induction ys rule: rev_induct)
    case (snoc v ys)
    then obtain m where m: "foldl (fold_value E) (AMax None) ys = AMax m" "extreme Greater ys m" by blast
    show ?case using extreme_snoc [OF m(2), of v] by (simp add: m(1) fold_value_extreme)
  qed (simp add: extreme_def)
  then show ?thesis by (simp add: fold_plain)
qed

text \<open>A \<open>DISTINCT\<close> aggregate folds the first of every class of equal values.\<close>

lemma fold_distinct:
  "\<exists>seen'. fold_column E (ADistinct seen a) xs =
     ADistinct seen' (foldl (\<lambda>a x. acc_take E a (Some x)) a (map hd (firsts tuple_cmp seen (map (\<lambda>x. [x]) xs))))"
proof (induction xs arbitrary: seen a)
  case (Cons x xs)
  show ?case
  proof (cases "oset_mem tuple_cmp [x] seen")
    case True
    then show ?thesis using Cons [of seen a] by (simp add: fold_column_def oset_insert_def)
  next
    case False
    have "firsts tuple_cmp (ins_by tuple_cmp [x] seen) ts = firsts tuple_cmp ([x] # seen) ts" for ts
      by (rule tuple_order.firsts_seen) (auto simp: tuple_order.oset_mem_ins oset_mem_def)
    then show ?thesis
      using False Cons [of "ins_by tuple_cmp [x] seen" "acc_take E a (Some x)"]
      by (simp add: fold_column_def oset_insert_def)
  qed
qed (simp add: fold_column_def)

text \<open>A column of a group folds that column's values over the group's rows.\<close>

lemma fold_rows_column:
  assumes "j < length items" "length slots = length items" "is_agg (items ! j)"
  shows "length (fold_rows E items slots vs) = length items"
    and "fold_rows E items slots vs ! j =
      foldl (\<lambda>a v. acc_take E a (map_option ((!) v) (slots ! j))) (acc_for_item (items ! j)) vs"
proof -
  have "length (fold_rows E items slots vs) = length items \<and> fold_rows E items slots vs ! j =
      foldl (\<lambda>a v. acc_take E a (map_option ((!) v) (slots ! j))) (acc_for_item (items ! j)) vs"
    using assms by (induction vs rule: rev_induct) (auto simp: fold_rows_def take_row_def)
  then show "length (fold_rows E items slots vs) = length items"
    and "fold_rows E items slots vs ! j =
      foldl (\<lambda>a v. acc_take E a (map_option ((!) v) (slots ! j))) (acc_for_item (items ! j)) vs"
    by simp_all
qed

end
