(* ===== verification/Exec_Props.thy ===== *)
theory Exec_Props
  imports Exec_Groups
begin

text \<open>
  The properties of the query executor over a stored graph read through the pass-through reader.
\<close>

section \<open>The example graph through the reader\<close>

abbreviation demo_reader :: "fenv \<Rightarrow> registry option \<Rightarrow> keyword_scan \<Rightarrow> reader" where
  "demo_reader E reg score \<equiv> uncached_reader E mem_vtable ref_postcard demo3 STARTUP reg score"

lemma list_of_singleton: "distinct xs \<Longrightarrow> set xs = {x} \<Longrightarrow> xs = [x]"
  by (cases xs; cases "tl xs") auto

lemma demo_hops: "hops_from graph3 STARTUP Out (Some knows) 1 = {(1, 2)}"
  by (auto simp: hops_from_def out_nbrs_def has_edge_def demo_graph_defs image_iff split: if_splits
      intro!: exI [of _ "\<lparr>nb_node = 2, nb_edge = 1\<rparr>"])

lemmas demo_reads = uncached_graph_reader [OF demo_ctx(1,3)]

lemma demo_nbr_hops: "nbr_hops (demo_reader E reg score) Out (Some knows) 1 = [(1, 2)]"
  by (rule list_of_singleton)
    (simp_all add: graph_reader.set_nbr_hops [OF demo_reads] demo_hops graph_reader.distinct_nbr_hops [OF demo_reads])

definition demo_plan :: logical_plan where
  "demo_plan =
     \<lparr>lp_source = SeekIds [1], lp_steps = [Expand Out (Some knows), Filter (EHasLabel person)],
      lp_project = Some \<lparr>pj_items = [proj_item_value knows EExternalKey, proj_item_agg person agg_count],
        pj_distinct = False, pj_order_by = [], pj_skip = None, pj_limit = Some 5\<rparr>\<rparr>"

lemma demo_nodes: "ag_node graph3 (STARTUP, 1) = Some (Some ann, [person], [])"
  "ag_node graph3 (STARTUP, 2) \<noteq> None" "has_label (ag_node graph3) STARTUP 2 person"
  by (simp_all add: demo_graph_defs)

lemma demo_core: "core_source (lp_source demo_plan)" "list_all core_step (lp_steps demo_plan)"
  by (simp_all add: demo_plan_def)

lemma demo_spec_rows:
  assumes "N Out (Some knows) 1 = [(1, 2)]"
  shows "spec_rows E graph3 STARTUP N demo_plan = [row_step (row_start 1) 1 2]"
proof -
  have "row_eval E graph3 STARTUP (row_step (row_start 1) 1 2) (EHasLabel person) = PBool True"
    using demo_nodes(3)
    by (auto simp: row_eval_def row_ctx_def node_of_def has_label_def node_rec_def split: option.splits)
  then show ?thesis
    using assms demo_nodes(1)
    by (simp add: spec_rows_def demo_plan_def spec_source_def spec_step_def row_start_def is_true_def)
qed

section \<open>Rows\<close>

text \<open>
  C29: Every row a plan returns is a walk of the stored graph: its trail leads from its origin to its
  current node along edges of the graph, each in one of its directions, and the hop counter is the length
  of the trail (modulo the width of the counter). This holds for every source and every step, with or
  without a deadline.
\<close>

theorem rows_are_walks:
  assumes "kv_txn V valid view" "db_ok valid view pc G t"
    and "execute_with Q plan (uncached_reader E V pc t p reg score) dl = Some (Inr xs)" "Inr r \<in> set xs"
  shows "row_ok G p r"
  by (rule graph_reader.execute_ok [OF uncached_graph_reader [OF assms(1,2)] assms(3,4)])

theorem rows_are_walks_witness:
  "\<forall>Q E reg score. \<exists>xs r. execute_with Q demo_plan (demo_reader E reg score) None = Some (Inr xs) \<and> Inr r \<in> set xs \<and>
     row_path r = [(1, 2)] \<and> row_ok graph3 STARTUP r"
proof (intro allI)
  fix Q E reg score
  let ?r = "row_step (row_start 1) 1 2"
  have "execute Q demo_plan (demo_reader E reg score) = Some (Inr [Inr ?r])"
    using graph_reader.execute_run [OF demo_reads demo_core] by (simp add: demo_spec_rows demo_nbr_hops)
  then have run: "execute_with Q demo_plan (demo_reader E reg score) None = Some (Inr [Inr ?r])"
    by (simp add: execute_def)
  then have "row_ok graph3 STARTUP ?r" by (rule rows_are_walks [OF demo_ctx(1,3)]) simp
  with run show "\<exists>xs r. execute_with Q demo_plan (demo_reader E reg score) None = Some (Inr xs) \<and> Inr r \<in> set xs \<and>
     row_path r = [(1, 2)] \<and> row_ok graph3 STARTUP r"
    by (intro exI [of _ "[Inr ?r]"] exI [of _ ?r]) (simp add: row_start_def row_path_def row_step_def)
qed


text \<open>
  C30: Variable-length expansion returns, for a start row and a range of lengths, exactly the walks of the
  stored graph that follow the direction and the edge type and whose length lies in the range; along one
  direction each walk is returned once. The explicit stack always empties.
\<close>

theorem expand_var_exact:
  assumes "kv_txn V valid view" "db_ok valid view pc G t"
  shows "\<exists>rows. expand_var (uncached_reader E V pc t p reg score) (Inr r) d ty mn mx = map Inr rows \<and>
    set rows = row_along r ` {hs. walk (hops_from G p d ty) (rw_head r) hs \<and>
      unat mn \<le> length hs \<and> length hs \<le> unat mx} \<and>
    (d \<noteq> Both \<longrightarrow> distinct rows)"
  by (rule graph_reader.expand_var_walks [OF uncached_graph_reader [OF assms]])

theorem expand_var_exact_witness:
  "\<forall>E reg score. expand_var (demo_reader E reg score) (Inr (row_start 1)) Out (Some knows) 1 1 =
     [Inr (row_step (row_start 1) 1 2)]"
proof (intro allI)
  fix E reg score
  have walks: "{hs. walk (hops_from graph3 STARTUP Out (Some knows)) 1 hs \<and>
      unat (1::u32) \<le> length hs \<and> length hs \<le> unat (1::u32)} = {[(1, 2)]}"
    by (auto simp: demo_hops length_Suc_conv le_Suc_eq)
  obtain rows where rows: "expand_var (demo_reader E reg score) (Inr (row_start 1)) Out (Some knows) 1 1 = map Inr rows"
    "set rows = {row_step (row_start 1) 1 2}" "distinct rows"
    using expand_var_exact [OF demo_ctx(1,3), of E STARTUP reg score "row_start 1" Out "Some knows" 1 1] walks
    by (auto simp: row_start_def)
  then have "rows = [row_step (row_start 1) 1 2]" by (intro list_of_singleton)
  with rows(1) show "expand_var (demo_reader E reg score) (Inr (row_start 1)) Out (Some knows) 1 1 =
     [Inr (row_step (row_start 1) 1 2)]" by simp
qed

section \<open>Plans\<close>

text \<open>
  C27: The executor implements the list semantics of plans. A plan over a scan or a seek, with steps that
  expand, filter, skip, limit, deduplicate and sort, returns the rows of \<open>spec_rows\<close> and no error: the
  source's nodes in order, filters and sort keys evaluated in the abstract graph with every binding of the
  row at hand, although the executor resolves only the bindings the plan names.
\<close>

theorem execute_refines:
  assumes "kv_txn V valid view" "db_ok valid view pc G t"
    and "core_source (lp_source plan)" "list_all core_step (lp_steps plan)"
  shows "\<exists>N. (\<forall>d ty u. set (N d ty u) = hops_from G p d ty u \<and> (d \<noteq> Both \<longrightarrow> distinct (N d ty u))) \<and>
    execute Q plan (uncached_reader E V pc t p reg score) = Some (Inr (map Inr (spec_rows (qe_float Q) G p N plan)))"
proof -
  note rd = uncached_graph_reader [OF assms(1,2), of E p reg score]
  show ?thesis
    using graph_reader.set_nbr_hops [OF rd] graph_reader.distinct_nbr_hops [OF rd]
      graph_reader.execute_run [OF rd assms(3,4)]
    by (intro exI [of _ "nbr_hops (uncached_reader E V pc t p reg score)"]) blast
qed

theorem execute_refines_witness:
  "\<forall>Q E reg score. execute Q demo_plan (demo_reader E reg score) = Some (Inr [Inr (row_step (row_start 1) 1 2)])"
proof (intro allI)
  fix Q E reg score
  obtain N where N: "\<forall>d ty u. set (N d ty u) = hops_from graph3 STARTUP d ty u \<and> (d \<noteq> Both \<longrightarrow> distinct (N d ty u))"
    "execute Q demo_plan (demo_reader E reg score) = Some (Inr (map Inr (spec_rows (qe_float Q) graph3 STARTUP N demo_plan)))"
    using execute_refines [OF demo_ctx(1,3) demo_core] by blast
  have "N Out (Some knows) 1 = [(1, 2)]" using N(1) demo_hops by (intro list_of_singleton) auto
  then show "execute Q demo_plan (demo_reader E reg score) = Some (Inr [Inr (row_step (row_start 1) 1 2)])"
    using N(2) by (simp add: demo_spec_rows)
qed

text \<open>
  C28: The projection tail. The table of a plan holds, under the projection's columns, the tuples of the
  plan's rows: with aggregates one tuple per group, in the order in which the groups appear, otherwise one
  per row, of which \<open>DISTINCT\<close> keeps the first of every class of equal tuples. \<open>ORDER BY\<close> rearranges
  them into ascending order without exchanging tuples that compare equal, and \<open>SKIP\<close> and \<open>LIMIT\<close> cut
  the result.
\<close>

theorem table_exact:
  assumes "kv_txn V valid view" "db_ok valid view pc G t"
    and "core_source (lp_source plan)" "list_all core_step (lp_steps plan)" "lp_project plan = Some pj"
  shows "\<exists>N us ts. (\<forall>d ty u. set (N d ty u) = hops_from G p d ty u \<and> (d \<noteq> Both \<longrightarrow> distinct (N d ty u))) \<and>
    us = (let rows = spec_rows (qe_float Q) G p N plan in
      if list_ex is_agg (pj_items pj) then spec_groups (qe_float Q) G p pj rows
      else spec_tuples (qe_float Q) G p pj rows) \<and>
    mset ts = mset us \<and> sorted_wrt (\<lambda>a b. cmp_columns a b (pj_order_by pj) \<noteq> Greater) ts \<and>
    (\<forall>a. filter (\<lambda>b. cmp_columns a b (pj_order_by pj) = Equal) ts =
      filter (\<lambda>b. cmp_columns a b (pj_order_by pj) = Equal) us) \<and>
    execute_table Q plan (uncached_reader E V pc t p reg score) None =
      Some (Inr \<lparr>tb_columns = map pi_name (pj_items pj), tb_rows = cut_rows pj ts\<rparr>)"
proof -
  note rd = uncached_graph_reader [OF assms(1,2), of E p reg score]
  let ?N = "nbr_hops (uncached_reader E V pc t p reg score)"
  let ?us = "let rows = spec_rows (qe_float Q) G p ?N plan in
      if list_ex is_agg (pj_items pj) then spec_groups (qe_float Q) G p pj rows
      else spec_tuples (qe_float Q) G p pj rows"
  have id: "sort_by (\<lambda>a b. cmp_columns a b []) us = us" for us
    by (rule column_order.sort_by_unique [symmetric]) (simp_all add: sorted_wrt_true)
  have order: "order_rows pj ?us = sort_by (\<lambda>a b. cmp_columns a b (pj_order_by pj)) ?us"
    using id by (cases "pj_order_by pj = []") (simp_all add: order_rows_def)
  show ?thesis
    using graph_reader.set_nbr_hops [OF rd] graph_reader.distinct_nbr_hops [OF rd]
      graph_reader.execute_table_run [OF rd assms(3,4,5), of Q]
      column_order.mset_sort_by [of "pj_order_by pj" ?us] column_order.sorted_sort_by [of "pj_order_by pj" ?us]
      column_order.stable_sort_by [of _ "pj_order_by pj" ?us]
    unfolding order
    by (intro exI [of _ ?N] exI [of _ ?us] exI [of _ "sort_by (\<lambda>a b. cmp_columns a b (pj_order_by pj)) ?us"]) blast
qed


lemma demo_row_key:
  "row_eval E graph3 STARTUP (row_step (row_start 1) 1 2) EExternalKey = PStr bob"
  by (simp add: row_eval_def row_ctx_def node_of_def node_rec_def demo_graph_defs or_null_def)

lemma tuple_cmp_self: "tuple_cmp t t = Equal"
  by (rule tuple_order.self_equal)

theorem table_exact_witness:
  "\<forall>Q E reg score. execute_table Q demo_plan (demo_reader E reg score) None =
     Some (Inr \<lparr>tb_columns = [knows, person], tb_rows = [[PStr bob, PInt 1]]\<rparr>)"
proof (intro allI)
  fix Q E reg score
  let ?pj = "\<lparr>pj_items = [proj_item_value knows EExternalKey, proj_item_agg person agg_count],
        pj_distinct = False, pj_order_by = [], pj_skip = None, pj_limit = Some 5\<rparr>"
  obtain N us ts where N: "\<forall>d ty u. set (N d ty u) = hops_from graph3 STARTUP d ty u \<and> (d \<noteq> Both \<longrightarrow> distinct (N d ty u))"
    and us: "us = (let rows = spec_rows (qe_float Q) graph3 STARTUP N demo_plan in
      if list_ex is_agg (pj_items ?pj) then spec_groups (qe_float Q) graph3 STARTUP ?pj rows
      else spec_tuples (qe_float Q) graph3 STARTUP ?pj rows)" and ts: "mset ts = mset us"
    and run: "execute_table Q demo_plan (demo_reader E reg score) None =
      Some (Inr \<lparr>tb_columns = map pi_name (pj_items ?pj), tb_rows = cut_rows ?pj ts\<rparr>)"
    using table_exact [OF demo_ctx(1,3) demo_core, of ?pj STARTUP Q E reg score] by (auto simp: demo_plan_def)
  have "N Out (Some knows) 1 = [(1, 2)]" using N demo_hops by (intro list_of_singleton) auto
  then have rows: "spec_rows (qe_float Q) graph3 STARTUP N demo_plan = [row_step (row_start 1) 1 2]" by (rule demo_spec_rows)
  have "us = [[PStr bob, PInt 1]]"
    unfolding us rows
    by (simp add: Let_def spec_groups_def is_agg_def proj_item_value_def proj_item_agg_def agg_count_def
        value_exprs_def List.map_filter_def demo_row_key group_keys_def group_key_def members_def
        fold_rows_def take_row_def acc_for_item_def acc_new_def oset_mem_def tuple_cmp_self)
  then have "ts = [[PStr bob, PInt 1]]" using ts by (simp add: mset_single_iff)
  with run show "execute_table Q demo_plan (demo_reader E reg score) None =
     Some (Inr \<lparr>tb_columns = [knows, person], tb_rows = [[PStr bob, PInt 1]]\<rparr>)"
    by (simp add: proj_item_value_def proj_item_agg_def cut_rows_def Let_def clamp_usize_def)
qed


section \<open>Deadlines\<close>

text \<open>Items left until the clock is read again.\<close>

definition until_check :: "nat \<Rightarrow> nat" where
  "until_check since = (if since = 0 then 0 else 1024 - since)"

lemma deadlined_step:
  "deadlined_items late i since xs =
     (if until_check since = 0 then
        if late i then [Inl Timeout]
        else case xs of [] \<Rightarrow> [] | x # xs' \<Rightarrow> x # deadlined_items late (Suc i) 1 xs'
      else case xs of [] \<Rightarrow> [] | x # xs' \<Rightarrow> x # deadlined_items late i (Suc since) xs')"
  by (subst deadlined_items.simps) (auto simp: until_check_def deadline_check_every_def Let_def split: list.split)

lemma until_check_next:
  "until_check (Suc 0) = 1023" "until_check since \<noteq> 0 \<Longrightarrow> until_check (Suc since) = until_check since - 1"
  by (auto simp: until_check_def split: if_splits)

lemma deadlined_shape:
  "deadlined_items late i since xs = xs \<or> (\<exists>k \<le> length xs. deadlined_items late i since xs = take k xs @ [Inl Timeout])"
proof (induction xs arbitrary: i since)
  case (Cons x xs)
  have step: "x # deadlined_items late j m xs = x # xs \<or>
      (\<exists>k \<le> length (x # xs). x # deadlined_items late j m xs = take k (x # xs) @ [Inl Timeout])" for j m
    using Cons [of j m] by (auto intro: exI [of _ "Suc _"])
  show ?case
  proof (cases "until_check since = 0 \<and> late i")
    case True
    then show ?thesis by (subst (1 2) deadlined_step) (auto intro: exI [of _ 0])
  next
    case False
    then show ?thesis using step by (subst (1 2) deadlined_step) auto
  qed
qed (subst (1 2) deadlined_step, auto)

lemma deadlined_quiet: "(\<And>j. \<not> late j) \<Longrightarrow> deadlined_items late i since xs = xs"
  by (induction xs arbitrary: i since) (subst deadlined_step, simp)+

lemma deadlined_late:
  assumes "late n"
  shows "i \<le> n \<Longrightarrow> length (deadlined_items late i since xs) \<le> until_check since + 1024 * (n - i) + 1 \<and>
    (until_check since + 1024 * (n - i) \<le> length xs \<longrightarrow> Inl Timeout \<in> set (deadlined_items late i since xs))"
proof (induction xs arbitrary: i since)
  case Nil
  then show ?case using assms by (subst (1 2) deadlined_step) (auto simp: le_less)
next
  case (Cons x xs)
  show ?case
  proof (cases "until_check since = 0")
    case False
    have e: "deadlined_items late i since (x # xs) = x # deadlined_items late i (Suc since) xs"
      using False by (subst deadlined_step) simp
    have "until_check (Suc since) = until_check since - 1" using False by (rule until_check_next(2))
    then show ?thesis using Cons.IH [OF Cons.prems, of "Suc since"] False unfolding e by auto
  next
    case True
    show ?thesis
    proof (cases "late i")
      case True
      then show ?thesis using \<open>until_check since = 0\<close> by (subst (1 2) deadlined_step) simp
    next
      case False
      then have lt: "Suc i \<le> n" using assms Cons.prems by (metis Suc_leI le_less)
      have e: "deadlined_items late i since (x # xs) = x # deadlined_items late (Suc i) 1 xs"
        using True False by (subst deadlined_step) simp
      have "n - i = Suc (n - Suc i)" using lt by simp
      then show ?thesis using Cons.IH [OF lt, of 1] True unfolding e by (auto simp: until_check_next)
    qed
  qed
qed

text \<open>
  C32: A stream with a deadline is the stream itself, or a prefix of it followed by one timeout error. It
  is the stream itself when the clock never runs out. Once the clock has run out at the \<open>n\<close>-th reading,
  at most \<open>1024 n\<close> items are let through before the error, and the error is raised if the stream has
  that many.
\<close>

theorem deadline_bounds:
  "(deadlined (Some late) xs = xs \<or>
     (\<exists>k \<le> length xs. deadlined (Some late) xs = take k xs @ [Inl Timeout])) \<and>
   ((\<forall>j. \<not> late j) \<longrightarrow> deadlined (Some late) xs = xs) \<and>
   (late n \<longrightarrow> length (deadlined (Some late) xs) \<le> 1024 * n + 1 \<and>
     (1024 * n \<le> length xs \<longrightarrow> Inl Timeout \<in> set (deadlined (Some late) xs)))"
  using deadlined_shape [of late 0 0 xs] deadlined_quiet [of late 0 0 xs] deadlined_late [of late n 0 0 xs]
  by (simp add: deadlined_def until_check_def)

theorem deadline_bounds_witness:
  "deadlined (Some (\<lambda>j. False)) [Inl Io, Inr (row_start 1)] = [Inl Io, Inr (row_start 1)] \<and>
   length (deadlined (Some (\<lambda>j. j = 0)) [Inr (row_start 1)]) \<le> 1 \<and>
   Inl Timeout \<in> set (deadlined (Some (\<lambda>j. j = 0)) [Inr (row_start 1)])"
  using deadline_bounds [of "\<lambda>j. False" "[Inl Io, Inr (row_start 1)]" 0]
    deadline_bounds [of "\<lambda>j. j = 0" "[Inr (row_start 1)]" 0] by simp

section \<open>The order of values\<close>

text \<open>
  The order behind \<open>ORDER BY\<close>, \<open>DISTINCT\<close> and grouping is a total preorder on all property values,
  NaNs, nested lists and maps included: it is reflexive, reverses when its arguments are exchanged, equal
  values compare alike with every third one, and it is transitive. An integer and a finite float compare
  as the exact numbers they are, however large, except that minus zero lies below the integer zero.
\<close>

theorem value_order_total:
  "total_cmp a a = Equal \<and> total_cmp b a = rev_ord (total_cmp a b) \<and>
   (total_cmp a b = Equal \<longrightarrow> total_cmp a c = total_cmp b c) \<and>
   (total_cmp a b = Less \<longrightarrow> total_cmp b c \<noteq> Greater \<longrightarrow> total_cmp a c = Less) \<and>
   (is_finite y \<longrightarrow> total_cmp (PInt x) (PFloat y) =
     (if x = 0 \<and> y = fneg_zero then Greater else cmp (sint x * 2 ^ fscale TYPE(64)) (fval y)))"
  using value_order.flip [of b a] value_order.equal [of a b c] value_order.less [of a b c]
  by (simp add: total_cmp_simps cmp_int_float_exact)

theorem value_order_total_witness:
  "total_cmp (PInt 1) (PInt 3) = Less \<and> total_cmp PNull (PInt 1) = total_cmp PNull (PInt 1) \<and>
   total_cmp (PInt 0) (PFloat fneg_zero) = Greater"
proof -
  have "is_finite (fneg_zero :: f64)" by (simp add: is_finite_def fmake_parts finf_def fprec_def)
  moreover have "total_cmp (PInt 1) (PInt 2) = Less" "total_cmp (PInt 2) (PInt 3) \<noteq> Greater"
    "total_cmp PNull PNull = Equal"
    by (simp_all add: total_cmp_simps)
  ultimately show ?thesis
    using value_order_total [of "PInt 1" "PInt 2" "PInt 3" fneg_zero 0]
      value_order_total [of PNull PNull "PInt 1" fneg_zero 0] by simp
qed

section \<open>Exact similarity search\<close>

lemma base_graph_reader:
  "graph_reader (uncached_reader E V pc t p reg score) q G \<Longrightarrow> graph_reader (uncached_base V pc t p score) q G"
  by (simp add: graph_reader_def uncached_reader_def Let_def)

lemma in_scope_visible:
  assumes "graph_reader R p G" "in_scope G p label n"
  shows "\<exists>node. rd_node R n = Inr (Some node) \<and> (case label of None \<Rightarrow> True | Some l \<Rightarrow> l \<in> set (nr_labels node))"
  using assms(2) graph_reader.node_law [OF assms(1), of n]
  by (auto simp: in_scope_def has_label_def node_rec_def split: option.splits)

lemma visible_hits_all:
  assumes "graph_reader R p G"
  shows "(\<forall>h \<in> set hits. in_scope G p label (id_of h)) \<Longrightarrow> visible_hits R hits label id_of = Inr hits"
proof (induction hits)
  case (Cons h hits)
  then show ?case using in_scope_visible [OF assms, of label "id_of h"] by auto
qed simp

text \<open>
  C31: Without a declared index, similarity search is exact. It returns the \<open>k\<close> nearest of the nodes in
  scope that carry a vector at a finite distance, in ascending order of distance: no such node that is
  left out is nearer than one that is returned. This holds whichever of equally distant entries the heap
  drops and in whatever order it lists them.
\<close>

theorem search_exact:
  assumes "kv_txn V valid view" "db_ok valid view pc G t" "0 < k" "heap_capacity_ok k"
  shows "\<exists>hits. rd_vector_search (uncached_reader E V pc t p None score) label property query metric k = Inr hits \<and>
    nearest k (List.map_filter (\<lambda>n. map_option (Pair n) (near_at E G p property query metric n)) (candidates G p label))
      (map hit_pair hits) \<and>
    sorted_wrt (\<lambda>a b. ftotal_cmp (hit_distance a) (hit_distance b) \<noteq> Greater) hits"
proof -
  let ?items = "List.map_filter (\<lambda>n. map_option (Pair n) (near_at E G p property query metric n)) (candidates G p label)"
  note base = base_graph_reader [OF uncached_graph_reader [OF assms(1,2)], of p score]
  obtain hits where hits: "top_k E ?items k = Inr hits" "nearest k ?items (map hit_pair hits)"
    "sorted_wrt (\<lambda>a b. ftotal_cmp (hit_distance a) (hit_distance b) \<noteq> Greater) hits"
    using assms(3,4) by (rule top_k_nearest)
  have sub: "mset (map hit_pair hits) \<subseteq># mset ?items" using hits(2) by (simp add: nearest_def)
  have scoped: "in_scope G p label (hit_id h)" if "h \<in> set hits" for h
  proof -
    have "hit_pair h \<in># mset (map hit_pair hits)" using that by simp
    then have "hit_pair h \<in> set ?items" using mset_subset_eqD [OF sub] by simp
    then show ?thesis by (auto simp: List.map_filter_def hit_pair_def candidates_def)
  qed
  then have "\<forall>h \<in> set hits. in_scope G p label (hit_id h)" by blast
  then have "visible_hits (uncached_base V pc t p score) hits label hit_id = Inr hits" by (rule visible_hits_all [OF base])
  moreover have "brute_force_search E (uncached_base V pc t p score) label property query metric k = Inr hits"
    unfolding graph_reader.brute_force_run [OF base] by (rule hits(1))
  ultimately have "rd_vector_search (uncached_reader E V pc t p None score) label property query metric k = Inr hits"
    by (simp add: uncached_reader_def indexed_or_brute_def Let_def)
  with hits show ?thesis by blast
qed

theorem search_exact_witness:
  "\<forall>E score. rd_vector_search (uncached_reader E mem_vtable ref_postcard demo3 STARTUP None score)
     (Some person) knows [] L2 3 = Inr []"
proof (intro allI)
  fix E score
  have "near_at E graph3 STARTUP knows [] L2 n = None" for n
    by (auto simp: near_at_def vector_of_def prop_of_def node_rec_def demo_graph_defs split: option.splits)
  then have "List.map_filter (\<lambda>n. map_option (Pair n) (near_at E graph3 STARTUP knows [] L2 n))
      (candidates graph3 STARTUP (Some person)) = []"
    by (simp add: List.map_filter_def)
  then show "rd_vector_search (uncached_reader E mem_vtable ref_postcard demo3 STARTUP None score)
     (Some person) knows [] L2 3 = Inr []"
    using search_exact [OF demo_ctx(1,3), of 3 E STARTUP score "Some person" knows "[]" L2]
    by (auto simp: heap_capacity_ok_def nearest_def)
qed

end
