(* ===== verification/Algo_Components.thy ===== *)
theory Algo_Components
  imports Exec_Props
begin

text \<open>
  Connected components: the union-find structure represents the equivalence generated by the edges it was
  given, and \<open>connected_components\<close> maps every node in scope to the smallest node connected to it.
\<close>

section \<open>The parent forest\<close>

text \<open>Parents stay in range and strictly lower a measure, so every chain of parents ends in a root.\<close>

definition forest :: "(nat \<Rightarrow> nat) \<Rightarrow> nat list \<Rightarrow> bool" where
  "forest d ps \<longleftrightarrow> (\<forall>x < length ps. ps ! x < length ps \<and> (ps ! x \<noteq> x \<longrightarrow> d (ps ! x) < d x))"

definition rep :: "nat list \<Rightarrow> nat \<Rightarrow> nat" where
  "rep ps x = ((!) ps ^^ length ps) x"

definition rank_in :: "(nat \<Rightarrow> nat) \<Rightarrow> nat \<Rightarrow> nat \<Rightarrow> nat" where
  "rank_in d n x = card {y. y < n \<and> d y < d x}"

lemma rank_in_less: "x < n \<Longrightarrow> rank_in d n x < n"
proof -
  assume "x < n"
  then have "{y. y < n \<and> d y < d x} \<subset> {..<n}" by auto
  then have "rank_in d n x < card {..<n}" unfolding rank_in_def by (intro psubset_card_mono) auto
  then show ?thesis by simp
qed

lemma forest_rank: "forest d ps \<Longrightarrow> forest (rank_in d (length ps)) ps"
proof -
  assume f: "forest d ps"
  have "rank_in d (length ps) (ps ! x) < rank_in d (length ps) x" if "x < length ps" "ps ! x \<noteq> x" for x
  proof -
    have "d (ps ! x) < d x" "ps ! x < length ps" using f that by (auto simp: forest_def)
    then have "{y. y < length ps \<and> d y < d (ps ! x)} \<subset> {y. y < length ps \<and> d y < d x}" by fastforce
    then show ?thesis unfolding rank_in_def by (intro psubset_card_mono) auto
  qed
  then show ?thesis using f by (auto simp: forest_def)
qed

lemma forest_bounded:
  assumes "forest d ps"
  obtains d' where "forest d' ps" "\<And>x. x < length ps \<Longrightarrow> d' x < length ps"
  using that [OF forest_rank [OF assms]] rank_in_less by blast

lemma chain_range: "forest d ps \<Longrightarrow> x < length ps \<Longrightarrow> ((!) ps ^^ k) x < length ps"
  by (induction k) (auto simp: forest_def)

lemma chain_fixed: "ps ! x = x \<Longrightarrow> ((!) ps ^^ m) x = x"
  by (induction m) auto

lemma chain_root:
  assumes "forest d ps"
  shows "x < length ps \<Longrightarrow> d x \<le> k \<Longrightarrow> ps ! (((!) ps ^^ k) x) = ((!) ps ^^ k) x"
proof (induction k arbitrary: x)
  case 0
  then show ?case using assms by (auto simp: forest_def)
next
  case (Suc k)
  show ?case
  proof (cases "ps ! x = x")
    case True
    then show ?thesis by (simp only: chain_fixed)
  next
    case False
    then have "d (ps ! x) \<le> k" "ps ! x < length ps" using assms Suc.prems by (auto simp: forest_def)
    then show ?thesis using Suc.IH [of "ps ! x"] by (simp add: funpow_swap1)
  qed
qed

lemma rep_root: "forest d ps \<Longrightarrow> x < length ps \<Longrightarrow> ps ! rep ps x = rep ps x \<and> rep ps x < length ps"
proof -
  assume f: "forest d ps" and x: "x < length ps"
  obtain d' where "forest d' ps" "d' x < length ps" using forest_bounded [OF f] x by metis
  then show ?thesis using chain_root [of d' ps x "length ps"] chain_range [OF f x] x by (simp add: rep_def)
qed

lemma rep_fixed: "ps ! x = x \<Longrightarrow> rep ps x = x"
  by (simp add: rep_def chain_fixed)

lemma rep_parent: "forest d ps \<Longrightarrow> x < length ps \<Longrightarrow> rep ps (ps ! x) = rep ps x"
  using rep_root [of d ps x] by (simp add: rep_def funpow_swap1 [symmetric])

text \<open>The representative is the only function that is constant along parents and fixes roots.\<close>

lemma rep_unique:
  assumes f: "forest d ps" and par: "\<And>x. x < length ps \<Longrightarrow> g (ps ! x) = g x"
    and root: "\<And>x. x < length ps \<Longrightarrow> ps ! x = x \<Longrightarrow> g x = x"
  shows "x < length ps \<Longrightarrow> rep ps x = g x"
proof (induction "d x" arbitrary: x rule: less_induct)
  case less
  show ?case
  proof (cases "ps ! x = x")
    case True
    then show ?thesis using root [OF less.prems] by (simp add: rep_fixed)
  next
    case False
    then have "d (ps ! x) < d x" "ps ! x < length ps" using f less.prems by (auto simp: forest_def)
    then have "rep ps (ps ! x) = g (ps ! x)" by (rule less.hyps)
    then show ?thesis using rep_parent [OF f less.prems] par [OF less.prems] by simp
  qed
qed

section \<open>Find and union\<close>

lemma halve:
  assumes f: "forest d ps" and x: "x < length ps" "ps ! x \<noteq> x"
  shows "forest d (ps[x := ps ! (ps ! x)])" "y < length ps \<Longrightarrow> rep (ps[x := ps ! (ps ! x)]) y = rep ps y"
    "d (ps ! (ps ! x)) < d x" "ps ! (ps ! x) < length ps"
proof -
  let ?q = "ps[x := ps ! (ps ! x)]"
  have px: "ps ! x < length ps" "d (ps ! x) < d x" using f x by (auto simp: forest_def)
  then show d: "d (ps ! (ps ! x)) < d x" and r: "ps ! (ps ! x) < length ps"
    using f by (auto simp: forest_def)
  show q: "forest d ?q"
    unfolding forest_def
  proof (intro allI impI conjI)
    fix y assume y: "y < length ?q"
    show "?q ! y < length ?q" using f y r by (cases "y = x") (simp_all add: forest_def)
    assume "?q ! y \<noteq> y"
    then show "d (?q ! y) < d y" using f y d by (cases "y = x") (simp_all add: forest_def)
  qed
  have "rep ?q y = rep ps y" if "y < length ?q" for y
  proof (rule rep_unique [OF q _ _ that])
    show "rep ps (?q ! y) = rep ps y" if "y < length ?q" for y
      using that rep_parent [OF f] px x by (cases "y = x") simp_all
    show "rep ps y = y" if "y < length ?q" "?q ! y = y" for y
      using that d by (cases "y = x") (auto intro: rep_fixed)
  qed
  then show "y < length ps \<Longrightarrow> rep ?q y = rep ps y" by simp
qed

lemma find_loop_run:
  assumes "forest d ps" "x < length ps" "d x \<le> k"
  shows "\<exists>qs. uf_find_loop k x ps = (rep ps x, qs) \<and> length qs = length ps \<and> forest d qs \<and>
    (\<forall>y < length ps. rep qs y = rep ps y)"
  using assms
proof (induction k arbitrary: x ps)
  case 0
  then have "ps ! x = x" by (auto simp: forest_def)
  then show ?case using 0 by (simp add: rep_fixed)
next
  case (Suc k)
  show ?case
  proof (cases "ps ! x = x")
    case True
    then show ?thesis using Suc.prems by (simp add: rep_fixed)
  next
    case False
    let ?q = "ps[x := ps ! (ps ! x)]"
    note h = halve [OF Suc.prems(1,2) False]
    obtain qs where qs: "uf_find_loop k (ps ! (ps ! x)) ?q = (rep ?q (ps ! (ps ! x)), qs)"
      "length qs = length ps" "forest d qs" "\<forall>y < length ps. rep qs y = rep ?q y"
      using Suc.IH [OF h(1), of "ps ! (ps ! x)"] h(3,4) Suc.prems(3) by auto
    have "rep ?q (ps ! (ps ! x)) = rep ps x"
      using h(2) [OF h(4)] rep_parent [OF Suc.prems(1)] Suc.prems(1,2) by (auto simp: forest_def)
    then show ?thesis using qs h(2) False Suc.prems(2) by (simp add: Let_def)
  qed
qed

text \<open>
  The structure stands for a relation: it has \<open>n\<close> nodes, a forest of parents, and two nodes have the same
  representative exactly when the relation connects them.
\<close>

definition linked :: "(nat \<times> nat) set \<Rightarrow> (nat \<times> nat) set" where
  "linked S = (S \<union> S\<inverse>)\<^sup>*"

definition uf_ok :: "nat \<Rightarrow> (nat \<times> nat) set \<Rightarrow> union_find \<Rightarrow> bool" where
  "uf_ok n S u \<longleftrightarrow> length (uf_parent u) = n \<and> length (uf_size u) = n \<and> (\<exists>d. forest d (uf_parent u)) \<and>
     (\<forall>x < n. \<forall>y < n. rep (uf_parent u) x = rep (uf_parent u) y \<longleftrightarrow> (x, y) \<in> linked S)"

lemma find_run:
  assumes ok: "uf_ok n S u" and x: "x < n"
  obtains u' where "uf_find x u = (rep (uf_parent u) x, u')" "uf_ok n S u'" "uf_size u' = uf_size u"
    "\<And>y. y < n \<Longrightarrow> rep (uf_parent u') y = rep (uf_parent u) y"
proof -
  let ?p = "uf_parent u"
  obtain d where "forest d ?p" "length ?p = n" using ok by (auto simp: uf_ok_def)
  then obtain d' where d': "forest d' ?p" "d' x < n" using forest_bounded x by metis
  then obtain qs where qs: "uf_find_loop n x ?p = (rep ?p x, qs)" "length qs = n" "forest d' qs"
    "\<And>y. y < n \<Longrightarrow> rep qs y = rep ?p y"
    using find_loop_run [of d' ?p x n] x \<open>length ?p = n\<close> by auto
  show ?thesis
  proof (rule that [of "u\<lparr>uf_parent := qs\<rparr>"])
    show "uf_find x u = (rep ?p x, u\<lparr>uf_parent := qs\<rparr>)" using qs(1) \<open>length ?p = n\<close> by (simp add: uf_find_def)
    show "uf_ok n S (u\<lparr>uf_parent := qs\<rparr>)" using ok qs by (auto simp: uf_ok_def)
  qed (use qs in simp_all)
qed


lemma merge_roots:
  assumes f: "forest d ps" and s: "s < length ps" "ps ! s = s" and b: "b < length ps" "ps ! b = b" "b \<noteq> s"
  shows "\<exists>d'. forest d' (ps[s := b])"
    "y < length ps \<Longrightarrow> rep (ps[s := b]) y = (if rep ps y = s then b else rep ps y)"
proof -
  let ?q = "ps[s := b]" and ?d = "\<lambda>y. if rep ps y = s then d y + d b + 1 else d y"
  let ?g = "\<lambda>y. if rep ps y = s then b else rep ps y"
  have reps: "rep ps s = s" "rep ps b = b" using s b by (simp_all add: rep_fixed)
  have q: "forest ?d ?q"
    unfolding forest_def
  proof (intro allI impI conjI)
    fix x assume x: "x < length ?q"
    then show "?q ! x < length ?q" using f b by (cases "x = s") (simp_all add: forest_def)
    assume "?q ! x \<noteq> x"
    then show "?d (?q ! x) < ?d x"
      using x f s reps b rep_parent [OF f, of x] by (cases "x = s") (simp_all add: forest_def)
  qed
  then show "\<exists>d'. forest d' ?q" by blast
  have "rep ?q y = ?g y" if "y < length ?q" for y
  proof (rule rep_unique [OF q _ _ that])
    show "?g (?q ! y) = ?g y" if "y < length ?q" for y
      using that reps b s rep_parent [OF f, of y] by (cases "y = s") simp_all
    show "?g y = y" if "y < length ?q" "?q ! y = y" for y
      using that b reps rep_fixed [of ps y] by (cases "y = s") auto
  qed
  then show "y < length ps \<Longrightarrow> rep ?q y = ?g y" by simp
qed

lemma linked_sym: "(x, y) \<in> linked S \<Longrightarrow> (y, x) \<in> linked S"
proof -
  have "sym ((S \<union> S\<inverse>)\<^sup>*)" by (intro sym_rtrancl) (auto simp: sym_def)
  then show "(x, y) \<in> linked S \<Longrightarrow> (y, x) \<in> linked S" by (auto simp: linked_def dest: symD)
qed

lemma linked_mono: "S \<subseteq> T \<Longrightarrow> linked S \<subseteq> linked T"
  unfolding linked_def by (intro rtrancl_mono) auto

lemma linked_edge: "(i, j) \<in> S \<Longrightarrow> (i, j) \<in> linked S"
  by (auto simp: linked_def)

lemma linked_trans: "(x, y) \<in> linked S \<Longrightarrow> (y, z) \<in> linked S \<Longrightarrow> (x, z) \<in> linked S"
  unfolding linked_def by (rule rtrancl_trans)

lemma linked_insert:
  assumes "(i, j) \<in> linked S" shows "linked (insert (i, j) S) = linked S"
proof
  have "insert (i, j) S \<union> (insert (i, j) S)\<inverse> \<subseteq> (S \<union> S\<inverse>)\<^sup>*"
    using assms linked_sym [OF assms] by (auto simp: linked_def)
  then show "linked (insert (i, j) S) \<subseteq> linked S" unfolding linked_def by (rule rtrancl_subset_rtrancl)
  show "linked S \<subseteq> linked (insert (i, j) S)" by (rule linked_mono) auto
qed

text \<open>A labelling that is constant along the edges is constant on connected nodes.\<close>

lemma linked_label:
  assumes "(x, y) \<in> linked S" "\<And>i j. (i, j) \<in> S \<Longrightarrow> g i = g j"
  shows "g x = g y"
  using assms(1) unfolding linked_def by (induction rule: rtrancl_induct) (auto dest: assms(2))

lemma add_edge:
  assumes same: "\<And>x y. x < n \<Longrightarrow> y < n \<Longrightarrow> g x = g y \<longleftrightarrow> (x, y) \<in> linked S"
    and S: "S \<subseteq> {..<n} \<times> {..<n}" and ij: "i < n" "j < n"
    and h: "\<And>x. x < n \<Longrightarrow> h x = (if g x = a then b else g x)" and ab: "{a, b} = {g i, g j}" "a \<noteq> b"
    and xy: "x < n" "y < n"
  shows "h x = h y \<longleftrightarrow> (x, y) \<in> linked (insert (i, j) S)"
proof
  have "linked S \<subseteq> linked (insert (i, j) S)" by (rule linked_mono) auto
  then have up: "g u = g v \<Longrightarrow> (u, v) \<in> linked (insert (i, j) S)" if "u < n" "v < n" for u v
    using same that by blast
  have e: "(i, j) \<in> linked (insert (i, j) S)" by (rule linked_edge) simp
  assume "h x = h y"
  then consider "g x = g y" | "g x = g i" "g y = g j" | "g x = g j" "g y = g i"
    using h xy ab by (auto simp: doubleton_eq_iff split: if_splits)
  then show "(x, y) \<in> linked (insert (i, j) S)"
  proof cases
    case 1
    then show ?thesis using up xy by blast
  next
    case 2
    then show ?thesis using up [of x i] up [of j y] e xy ij linked_trans by metis
  next
    case 3
    then show ?thesis using up [of x j] up [of i y] linked_sym [OF e] xy ij linked_trans by metis
  qed
next
  assume l: "(x, y) \<in> linked (insert (i, j) S)"
  show "h x = h y"
  proof (rule linked_label [OF l])
    fix u v assume uv: "(u, v) \<in> insert (i, j) S"
    then have "u < n" "v < n" using S ij by auto
    moreover have "g u = g v \<or> (u, v) = (i, j)"
      using uv same calculation linked_edge by auto
    ultimately show "h u = h v" using h ab ij by (auto simp: doubleton_eq_iff)
  qed
qed

lemma union_run:
  assumes ok: "uf_ok n S u" and S: "S \<subseteq> {..<n} \<times> {..<n}" and ij: "i < n" "j < n"
  shows "uf_ok n (insert (i, j) S) (uf_union i j u)"
proof -
  obtain u1 where u1: "uf_find i u = (rep (uf_parent u) i, u1)" "uf_ok n S u1"
    "\<And>y. y < n \<Longrightarrow> rep (uf_parent u1) y = rep (uf_parent u) y"
    using find_run [OF ok ij(1)] by metis
  obtain u2 where u2: "uf_find j u1 = (rep (uf_parent u1) j, u2)" "uf_ok n S u2"
    "\<And>y. y < n \<Longrightarrow> rep (uf_parent u2) y = rep (uf_parent u1) y"
    using find_run [OF u1(2) ij(2)] by metis
  let ?p = "uf_parent u2"
  let ?ri = "rep ?p i" and ?rj = "rep ?p j"
  obtain d where f: "forest d ?p" and len: "length ?p = n" "length (uf_size u2) = n"
    and same: "\<And>x y. x < n \<Longrightarrow> y < n \<Longrightarrow> rep ?p x = rep ?p y \<longleftrightarrow> (x, y) \<in> linked S"
    using u2(2) by (auto simp: uf_ok_def)
  have finds: "uf_find i u = (?ri, u1)" "uf_find j u1 = (?rj, u2)" using u1 u2 ij by simp_all
  show ?thesis
  proof (cases "?ri = ?rj")
    case True
    then have "(i, j) \<in> linked S" using same ij by blast
    then have "linked (insert (i, j) S) = linked S" by (rule linked_insert)
    then show ?thesis using u2(2) True by (simp add: uf_union_def finds uf_ok_def)
  next
    case False
    have roots: "?ri < n" "?p ! ?ri = ?ri" "?rj < n" "?p ! ?rj = ?rj"
      using rep_root [OF f] ij by (simp_all add: len)
    define b s where "b = (if uf_size u2 ! ?rj \<le> uf_size u2 ! ?ri then ?ri else ?rj)"
      and "s = (if uf_size u2 ! ?rj \<le> uf_size u2 ! ?ri then ?rj else ?ri)"
    have bs: "s < length ?p" "?p ! s = s" "b < length ?p" "?p ! b = b" "b \<noteq> s" "{s, b} = {?ri, ?rj}"
      using roots False by (auto simp: b_def s_def len)
    have u': "uf_union i j u = u2\<lparr>uf_parent := ?p[s := b],
        uf_size := (uf_size u2)[b := uf_size u2 ! b + uf_size u2 ! s]\<rparr>"
      using False by (simp add: uf_union_def finds b_def s_def)
    note m = merge_roots [OF f bs(1-5)]
    have "rep (?p[s := b]) x = rep (?p[s := b]) y \<longleftrightarrow> (x, y) \<in> linked (insert (i, j) S)" if "x < n" "y < n" for x y
      by (rule add_edge [OF same S ij _ bs(6) bs(5) [symmetric] that]) (simp_all add: m(2) len)
    then show ?thesis using m(1) by (auto simp: u' uf_ok_def len)
  qed
qed


section \<open>Components of a frame\<close>

definition frame_edges :: "adjacency \<Rightarrow> (nat \<times> nat) set" where
  "frame_edges out = {(i, j). i < length out \<and> j \<in> fst ` set (out ! i)}"

lemma uf_new_ok: "uf_ok n {} (uf_new n)"
proof -
  have "forest (\<lambda>_. 0) [0..<n]" by (simp add: forest_def)
  moreover have "rep [0..<n] x = x" if "x < n" for x using that by (simp add: rep_fixed)
  ultimately show ?thesis by (auto simp: uf_ok_def uf_new_def linked_def)
qed

lemma unions_of_node:
  "uf_ok n S u \<Longrightarrow> S \<subseteq> {..<n} \<times> {..<n} \<Longrightarrow> i < n \<Longrightarrow> (\<And>j e. (j, e) \<in> set adj \<Longrightarrow> j < n) \<Longrightarrow>
   uf_ok n (S \<union> (\<lambda>(j, e). (i, j)) ` set adj) (foldl (\<lambda>u (j, _). uf_union i j u) u adj)"
proof (induction adj arbitrary: S u)
  case (Cons a adj)
  obtain j e where a: "a = (j, e)" by (cases a)
  have j: "j < n" using Cons.prems(4) [of j e] by (simp add: a)
  have "uf_ok n (insert (i, j) S \<union> (\<lambda>(j, e). (i, j)) ` set adj)
      (foldl (\<lambda>u (j, _). uf_union i j u) (uf_union i j u) adj)"
    by (rule Cons.IH [OF union_run]) (use Cons.prems j in auto)
  then show ?case by (simp add: a insert_commute)
qed simp

lemma unions_of_nodes:
  "uf_ok n S u \<Longrightarrow> S \<subseteq> {..<n} \<times> {..<n} \<Longrightarrow> (\<forall>(i, adj) \<in> set L. i < n \<and> (\<forall>(j, e) \<in> set adj. j < n)) \<Longrightarrow>
   uf_ok n (S \<union> {(i, j). \<exists>adj. (i, adj) \<in> set L \<and> j \<in> fst ` set adj})
     (foldl (\<lambda>u (i, adj). foldl (\<lambda>u (j, _). uf_union i j u) u adj) u L)"
proof (induction L arbitrary: S u)
  case (Cons a L)
  obtain i adj where a: "a = (i, adj)" by (cases a)
  have i: "i < n" "\<And>j e. (j, e) \<in> set adj \<Longrightarrow> j < n" using Cons.prems(3) by (auto simp: a)
  let ?S = "S \<union> (\<lambda>(j, e). (i, j)) ` set adj"
  have "uf_ok n (?S \<union> {(i, j). \<exists>adj. (i, adj) \<in> set L \<and> j \<in> fst ` set adj})
      (foldl (\<lambda>u (i, adj). foldl (\<lambda>u (j, _). uf_union i j u) u adj) (foldl (\<lambda>u (j, _). uf_union i j u) u adj) L)"
    by (rule Cons.IH [OF unions_of_node]) (use Cons.prems i in \<open>auto dest: i(2)\<close>)
  moreover have "?S \<union> {(i, j). \<exists>adj. (i, adj) \<in> set L \<and> j \<in> fst ` set adj} =
      S \<union> {(i, j). \<exists>adj. (i, adj) \<in> set (a # L) \<and> j \<in> fst ` set adj}"
    by (auto simp: a) (metis (no_types, lifting) fst_conv image_eqI)+
  ultimately show ?case by (simp add: a)
qed simp

lemma cc_unions_ok:
  assumes "\<And>i j e. i < length out \<Longrightarrow> (j, e) \<in> set (out ! i) \<Longrightarrow> j < length out"
  shows "uf_ok (length out) (frame_edges out) (cc_unions out)"
proof -
  have mem: "(i, adj) \<in> set (enumerate 0 out) \<longleftrightarrow> i < length out \<and> adj = out ! i" for i adj
    by (auto simp: in_set_enumerate_eq)
  have "uf_ok (length out) ({} \<union> {(i, j). \<exists>adj. (i, adj) \<in> set (enumerate 0 out) \<and> j \<in> fst ` set adj}) (cc_unions out)"
    unfolding cc_unions_def by (rule unions_of_nodes [OF uf_new_ok]) (use assms in \<open>auto simp: mem\<close>)
  then show ?thesis by (simp add: frame_edges_def mem)
qed

text \<open>Finding keeps the representatives.\<close>

definition uf_same :: "nat \<Rightarrow> (nat \<times> nat) set \<Rightarrow> (nat \<Rightarrow> nat) \<Rightarrow> union_find \<Rightarrow> bool" where
  "uf_same n S g u \<longleftrightarrow> uf_ok n S u \<and> (\<forall>x < n. rep (uf_parent u) x = g x)"

lemma find_same:
  assumes "uf_same n S g u" "x < n"
  obtains u' where "uf_find x u = (g x, u')" "uf_same n S g u'"
  using find_run [of n S u x] assms unfolding uf_same_def by metis

lemma finds_same:
  "uf_same n S g u \<Longrightarrow> (\<And>i. i \<in> set xs \<Longrightarrow> i < n) \<Longrightarrow> \<exists>u'. uf_finds xs u = (map g xs, u') \<and> uf_same n S g u'"
proof (induction xs arbitrary: u)
  case (Cons i xs)
  obtain u1 where u1: "uf_find i u = (g i, u1)" "uf_same n S g u1"
    using find_same [OF Cons.prems(1)] Cons.prems(2) by (metis list.set_intros(1))
  obtain u2 where "uf_finds xs u1 = (map g xs, u2)" "uf_same n S g u2" using Cons.IH [OF u1(2)] Cons.prems(2) by auto
  then show ?case by (simp add: u1(1))
qed simp

definition opt_min :: "node_id set \<Rightarrow> node_id option" where
  "opt_min M = (if M = {} then None else Some (Min M))"

lemma opt_min_insert:
  "opt_min (insert v M) = Some (case opt_min M of Some w \<Rightarrow> if w \<le> v then w else v | None \<Rightarrow> v)"
proof (cases "M = {}")
  case False
  then have "Min (insert v M) = min v (Min M)" by (intro Min_insert) simp_all
  also have "\<dots> = (if Min M \<le> v then Min M else v)" by (metis min.commute min_def)
  finally show ?thesis using False by (simp add: opt_min_def)
qed (simp add: opt_min_def)

definition least_in :: "(nat \<Rightarrow> nat) \<Rightarrow> (nat \<times> node_id) list \<Rightarrow> nat \<Rightarrow> node_id option" where
  "least_in g xs k = opt_min {v. \<exists>i. (i, v) \<in> set xs \<and> g i = k}"

lemma least_in_snoc:
  "least_in g (xs @ [(i, v)]) k =
     (if g i = k then Some (case least_in g xs k of Some w \<Rightarrow> if w \<le> v then w else v | None \<Rightarrow> v)
      else least_in g xs k)"
proof -
  let ?M = "{v. \<exists>i. (i, v) \<in> set xs \<and> g i = k}"
  have "{w. \<exists>j. (j, w) \<in> set (xs @ [(i, v)]) \<and> g j = k} = (if g i = k then insert v ?M else ?M)" by auto
  then show ?thesis by (simp only: least_in_def opt_min_insert split: if_split) simp
qed

lemma rep_fold:
  assumes "uf_same n S g u" "length rs = n" "\<And>i v. (i, v) \<in> set xs \<Longrightarrow> i < n \<and> g i < n"
  shows "\<exists>rs' u'. foldl cc_rep_step (replicate n None, u) xs = (rs', u') \<and> uf_same n S g u' \<and>
    length rs' = n \<and> (\<forall>k < n. rs' ! k = least_in g xs k)"
  using assms(3)
proof (induction xs rule: rev_induct)
  case Nil
  then show ?case using assms(1) by (auto simp: least_in_def opt_min_def)
next
  case (snoc x xs)
  obtain i v where x: "x = (i, v)" by (cases x)
  have i: "i < n" "g i < n" using snoc.prems [of i v] by (auto simp: x)
  obtain rs' u' where IH: "foldl cc_rep_step (replicate n None, u) xs = (rs', u')" "uf_same n S g u'"
    "length rs' = n" "\<forall>k < n. rs' ! k = least_in g xs k"
    using snoc by auto
  obtain u2 where "uf_find i u' = (g i, u2)" "uf_same n S g u2" using find_same [OF IH(2) i(1)] by metis
  then have "cc_rep_step (rs', u') x =
      (rs'[g i := Some (case rs' ! g i of Some w \<Rightarrow> if w \<le> v then w else v | None \<Rightarrow> v)], u2)" "uf_same n S g u2"
    by (simp_all add: x cc_rep_step_def)
  moreover have "rs'[g i := Some (case rs' ! g i of Some w \<Rightarrow> if w \<le> v then w else v | None \<Rightarrow> v)] ! k =
      least_in g (xs @ [x]) k" if "k < n" for k
    unfolding x least_in_snoc using IH(3,4) i that by (simp add: nth_list_update)
  ultimately show ?case using IH(1,3) by simp
qed


lemma sort_sorted: "sorted (map fst xs) \<Longrightarrow> distinct (map fst xs) \<Longrightarrow> sort_by (\<lambda>a b. cmp (fst a) (fst b)) xs = xs"
  unfolding sort_by_sort_key by (intro sort_key_inj_key_eq) (simp_all add: distinct_map)

text \<open>Where a node stands in a list without repetitions.\<close>

lemma frame_index_iff: "distinct nodes \<Longrightarrow> frame_index nodes v = Some j \<longleftrightarrow> j < length nodes \<and> nodes ! j = v"
proof -
  assume d: "distinct nodes"
  have m: "map fst (rev (zip nodes [0..<length nodes])) = rev nodes" by (simp add: rev_map [symmetric])
  have "map_of (rev (zip nodes [0..<length nodes])) v = Some j \<longleftrightarrow> (v, j) \<in> set (rev (zip nodes [0..<length nodes]))"
    by (rule map_of_eq_Some_iff) (use d in \<open>simp only: m distinct_rev\<close>)
  then show ?thesis by (auto simp: frame_index_def zip_upt_mem)
qed

text \<open>The edges between nodes in scope.\<close>

definition scope_links :: "agraph \<Rightarrow> plane_id \<Rightarrow> str option \<Rightarrow> (node_id \<times> node_id) set" where
  "scope_links G p label =
     {(u, v). in_scope G p label u \<and> in_scope G p label v \<and> (\<exists>e ty. has_edge (ag_edge G) p e u v ty)}"

definition connected :: "agraph \<Rightarrow> plane_id \<Rightarrow> str option \<Rightarrow> node_id \<Rightarrow> node_id \<Rightarrow> bool" where
  "connected G p label u v \<longleftrightarrow> (u, v) \<in> (scope_links G p label \<union> (scope_links G p label)\<inverse>)\<^sup>*"

lemma out_hops: "(e, v) \<in> hops_from G p Out None u \<longleftrightarrow> (\<exists>ty. has_edge (ag_edge G) p e u v ty)"
proof
  assume "\<exists>ty. has_edge (ag_edge G) p e u v ty"
  then have "\<lparr>nb_node = v, nb_edge = e\<rparr> \<in> out_nbrs (ag_edge G) p u None" by (simp add: out_nbrs_def)
  then show "(e, v) \<in> hops_from G p Out None u" by (force simp: hops_from_def)
qed (auto simp: hops_from_def out_nbrs_def)

context graph_reader begin

lemma candidates_facts: "distinct (candidates G p label)" "sorted (candidates G p label)"
  "set (candidates G p label) = {n. in_scope G p label n}"
  by (simp_all add: candidates_def)

lemma frame_run:
  obtains out where "frame_build R label = Inr \<lparr>fr_nodes = candidates G p label, fr_out = out\<rparr>"
    "length out = length (candidates G p label)"
    "\<And>i j e. i < length out \<Longrightarrow> (j, e) \<in> set (out ! i) \<longleftrightarrow> j < length out \<and>
       (\<exists>ty. has_edge (ag_edge G) p e (candidates G p label ! i) (candidates G p label ! j) ty)"
proof -
  let ?ns = "candidates G p label"
  let ?f = "\<lambda>u. List.map_filter (\<lambda>(e, v). map_option (\<lambda>j. (j, e)) (frame_index ?ns v)) (nbr_hops R Out None u)"
  have nodes: "(case label of Some l \<Rightarrow> rd_scan_label R l | None \<Rightarrow> rd_scan_all R) = Inr ?ns"
    by (cases label) (simp_all add: scan_all_law scan_label_law candidates_def in_scope_def)
  have node: "res_bind (rd_neighbors R u Out None) (\<lambda>ns. Inr (List.map_filter
      (\<lambda>nb. map_option (\<lambda>j. (j, nb_edge nb)) (frame_index ?ns (nb_node nb))) ns)) = Inr (?f u)" for u
  proof -
    obtain ns where ns: "rd_neighbors R u Out None = Inr ns"
      "map (\<lambda>n. (nb_edge n, nb_node n)) ns = nbr_hops R Out None u"
      by (rule neighbors_hops)
    show ?thesis
      unfolding ns(2) [symmetric] by (simp add: ns(1) List.map_filter_def filter_map comp_def)
  qed
  have edge: "(j, e) \<in> set (?f u) \<longleftrightarrow> j < length ?ns \<and> (\<exists>ty. has_edge (ag_edge G) p e u (?ns ! j) ty)" for u j e
  proof -
    have "(j, e) \<in> set (?f u) \<longleftrightarrow> (\<exists>v. (e, v) \<in> hops_from G p Out None u \<and> frame_index ?ns v = Some j)"
      unfolding set_nbr_hops [symmetric] by (fastforce simp: List.map_filter_def image_iff)
    also have "\<dots> \<longleftrightarrow> j < length ?ns \<and> (\<exists>ty. has_edge (ag_edge G) p e u (?ns ! j) ty)"
      by (auto simp: frame_index_iff candidates_facts out_hops)
    finally show ?thesis .
  qed
  show ?thesis
  proof (rule that [of "map ?f ?ns"])
    show "frame_build R label = Inr \<lparr>fr_nodes = ?ns, fr_out = map ?f ?ns\<rparr>"
      unfolding frame_build_def nodes res_bind_Inr node by (subst res_map_Inr [where g = ?f]) simp_all
  qed (simp_all add: edge)
qed

end

lemma index_connected:
  assumes E: "\<And>i j. (i, j) \<in> S \<longleftrightarrow> i < n \<and> j < n \<and> (c i, c j) \<in> L"
    and c: "\<And>u v. (u, v) \<in> L \<Longrightarrow> u \<in> c ` {..<n} \<and> v \<in> c ` {..<n}" and inj: "inj_on c {..<n}"
    and ij: "i < n" "j < n"
  shows "(i, j) \<in> linked S \<longleftrightarrow> (c i, c j) \<in> (L \<union> L\<inverse>)\<^sup>*"
proof
  assume "(i, j) \<in> linked S"
  then show "(c i, c j) \<in> (L \<union> L\<inverse>)\<^sup>*"
    unfolding linked_def
  proof (induction rule: rtrancl_induct)
    case (step y z)
    then have "(c y, c z) \<in> L \<union> L\<inverse>" by (auto simp: E)
    with step show ?case by (meson rtrancl.rtrancl_into_rtrancl)
  qed simp
next
  have "v \<in> c ` {..<n} \<and> (\<forall>k < n. c k = v \<longrightarrow> (i, k) \<in> linked S)" if "(c i, v) \<in> (L \<union> L\<inverse>)\<^sup>*" for v
    using that
  proof (induction rule: rtrancl_induct)
    case base
    have "k = i" if "k < n" "c k = c i" for k using inj ij that by (auto dest: inj_onD)
    then show ?case using ij by (auto simp: linked_def)
  next
    case (step v w)
    obtain kv where kv: "kv < n" "v = c kv" "(i, kv) \<in> linked S" using step.IH by auto
    have w: "w \<in> c ` {..<n}" using step.hyps(2) c by blast
    moreover have "(i, k) \<in> linked S" if "k < n" "c k = w" for k
    proof -
      have "(kv, k) \<in> S \<union> S\<inverse>" using step.hyps(2) that kv by (auto simp: E)
      then have "(kv, k) \<in> linked S" by (auto simp: linked_def)
      then show ?thesis using kv(3) linked_trans by blast
    qed
    ultimately show ?case by blast
  qed
  then show "(c i, c j) \<in> (L \<union> L\<inverse>)\<^sup>* \<Longrightarrow> (i, j) \<in> linked S" using ij by blast
qed

text \<open>The smallest node that a node is connected to.\<close>

definition class_min :: "agraph \<Rightarrow> plane_id \<Rightarrow> str option \<Rightarrow> node_id \<Rightarrow> node_id" where
  "class_min G p label u = Min {v. in_scope G p label v \<and> connected G p label u v}"

text \<open>
  The nodes of a frame with their representatives: equal representatives mean connected nodes, the
  smallest nodes of two classes differ, so classes, roots and smallest nodes are in bijection.
\<close>

locale labelled_frame =
  fixes ns :: "node_id list" and g :: "nat \<Rightarrow> nat" and G :: agraph and p :: plane_id and label :: "str option"
  assumes nodes: "set ns = {n. in_scope G p label n}" "distinct ns" "sorted ns"
    and root: "x < length ns \<Longrightarrow> g x < length ns" "x < length ns \<Longrightarrow> g (g x) = g x"
    and conn: "i < length ns \<Longrightarrow> j < length ns \<Longrightarrow> g i = g j \<longleftrightarrow> connected G p label (ns ! i) (ns ! j)"
begin

lemma nodes_nth: "in_scope G p label v \<longleftrightarrow> (\<exists>j < length ns. ns ! j = v)"
  using nodes(1) by (metis in_set_conv_nth mem_Collect_eq)

lemma members: "i < length ns \<Longrightarrow>
  {v. in_scope G p label v \<and> connected G p label (ns ! i) v} = {ns ! j | j. j < length ns \<and> g j = g i}"
  using conn [of i] unfolding nodes_nth by (auto simp: eq_commute)

lemma class_min_member: "i < length ns \<Longrightarrow> \<exists>j < length ns. g j = g i \<and> class_min G p label (ns ! i) = ns ! j"
proof -
  assume i: "i < length ns"
  have "class_min G p label (ns ! i) \<in> {ns ! j | j. j < length ns \<and> g j = g i}"
    unfolding class_min_def members [OF i] by (rule Min_in) (use i in auto)
  then show ?thesis by blast
qed

lemma class_min_root: "i < length ns \<Longrightarrow> class_min G p label (ns ! g i) = class_min G p label (ns ! i)"
  unfolding class_min_def by (simp add: members root)

lemma least_member: "i < length ns \<Longrightarrow> least_in g (enumerate 0 ns) (g i) = Some (class_min G p label (ns ! i))"
proof -
  assume i: "i < length ns"
  have "{v. \<exists>j. (j, v) \<in> set (enumerate 0 ns) \<and> g j = g i} = {ns ! j | j. j < length ns \<and> g j = g i}"
    by (auto simp: in_set_enumerate_eq)
  then show ?thesis using i by (auto simp: least_in_def opt_min_def class_min_def members)
qed

lemma roots_inj: "inj_on (\<lambda>i. class_min G p label (ns ! i)) {i. i < length ns \<and> g i = i}"
proof (rule inj_onI)
  fix i j
  assume i: "i \<in> {i. i < length ns \<and> g i = i}" and j: "j \<in> {i. i < length ns \<and> g i = i}"
    and eq: "class_min G p label (ns ! i) = class_min G p label (ns ! j)"
  obtain k l where "k < length ns" "l < length ns" "g k = g i" "g l = g j" "ns ! k = ns ! l"
    using class_min_member [of i] class_min_member [of j] i j eq by auto
  then show "i = j" using nodes(2) i j by (auto simp: nth_eq_iff_index_eq)
qed

lemma roots_image:
  "(\<lambda>i. class_min G p label (ns ! i)) ` {i. i < length ns \<and> g i = i} = class_min G p label ` {n. in_scope G p label n}"
proof (intro equalityI subsetI)
  fix x assume "x \<in> class_min G p label ` {n. in_scope G p label n}"
  then obtain i where "i < length ns" "x = class_min G p label (ns ! g i)"
    by (auto simp: nodes_nth class_min_root)
  then show "x \<in> (\<lambda>i. class_min G p label (ns ! i)) ` {i. i < length ns \<and> g i = i}"
    using root by blast
qed (auto simp: nodes_nth)

lemma count_roots:
  "length (filter (\<lambda>(i, r). r = i) (enumerate 0 (map g [0..<length ns]))) =
     card (class_min G p label ` {n. in_scope G p label n})"
proof -
  have en: "enumerate 0 (map g [0..<length ns]) = map (\<lambda>i. (i, g i)) [0..<length ns]"
    by (rule nth_equalityI) (simp_all add: nth_enumerate_eq)
  have "length (filter (\<lambda>(i, r). r = i) (enumerate 0 (map g [0..<length ns]))) = length (filter (\<lambda>i. g i = i) [0..<length ns])"
    unfolding en by (simp add: filter_map comp_def)
  also have "\<dots> = card (set (filter (\<lambda>i. g i = i) [0..<length ns]))" by (simp only: distinct_card distinct_filter distinct_upt)
  also have "set (filter (\<lambda>i. g i = i) [0..<length ns]) = {i. i < length ns \<and> g i = i}" by auto
  finally show ?thesis using card_image [OF roots_inj] by (simp only: roots_image)
qed

lemma component_rows:
  assumes "\<And>k. k < length ns \<Longrightarrow> rs ! k = least_in g (enumerate 0 ns) k"
  shows "res_map (\<lambda>(nid, r). res_bind (ok_or Panic (rs ! r)) (\<lambda>c. Inr (nid, c))) (zip ns (map g [0..<length ns])) =
    Inr (map (\<lambda>u. (u, class_min G p label u)) ns)"
proof -
  have reps: "rs ! g i = Some (class_min G p label (ns ! i))" if "i < length ns" for i
    using that by (simp add: assms root least_member)
  have "res_map (\<lambda>(nid, r). res_bind (ok_or Panic (rs ! r)) (\<lambda>c. Inr (nid, c))) (zip ns (map g [0..<length ns])) =
      Inr (map (\<lambda>(nid, r). (nid, the (rs ! r))) (zip ns (map g [0..<length ns])))"
    by (rule res_map_Inr) (auto simp: set_zip reps)
  also have "map (\<lambda>(nid, r). (nid, the (rs ! r))) (zip ns (map g [0..<length ns])) = map (\<lambda>u. (u, class_min G p label u)) ns"
    by (rule nth_equalityI) (auto simp: reps)
  finally show ?thesis .
qed

lemma components_of_frame:
  assumes fr: "frame_build R label = Inr \<lparr>fr_nodes = ns, fr_out = out\<rparr>"
    and u0: "uf_same (length ns) S g (cc_unions out)"
  shows "connected_components R label = Inr (map (\<lambda>u. (u, class_min G p label u)) ns,
    card (class_min G p label ` {n. in_scope G p label n}))"
proof -
  obtain rs u1 where fold: "foldl cc_rep_step (replicate (length ns) None, cc_unions out) (enumerate 0 ns) = (rs, u1)"
    and u1: "uf_same (length ns) S g u1" and rs: "\<And>k. k < length ns \<Longrightarrow> rs ! k = least_in g (enumerate 0 ns) k"
    using rep_fold [OF u0, of "replicate (length ns) None" "enumerate 0 ns"] root by (auto simp: in_set_enumerate_eq)
  obtain u2 where f1: "uf_finds [0..<length ns] u1 = (map g [0..<length ns], u2)" and u2: "uf_same (length ns) S g u2"
    using finds_same [OF u1, of "[0..<length ns]"] by auto
  obtain u3 where f2: "uf_finds [0..<length ns] u2 = (map g [0..<length ns], u3)"
    using finds_same [OF u2, of "[0..<length ns]"] by auto
  have "sort_by (\<lambda>a b. cmp (fst a) (fst b)) (map (\<lambda>u. (u, class_min G p label u)) ns) =
      map (\<lambda>u. (u, class_min G p label u)) ns"
    by (rule sort_sorted) (simp_all add: comp_def nodes)
  then show ?thesis
    unfolding connected_components_def fr res_bind_Inr
    by (simp add: fold f1 f2 component_rows [OF rs] count_roots)
qed

end

context graph_reader begin

lemma frame_labelled:
  assumes len: "length out = length (candidates G p label)"
    and edges: "\<And>i j e. i < length out \<Longrightarrow> (j, e) \<in> set (out ! i) \<longleftrightarrow> j < length out \<and>
       (\<exists>ty. has_edge (ag_edge G) p e (candidates G p label ! i) (candidates G p label ! j) ty)"
    and ok: "uf_ok (length out) (frame_edges out) u"
  shows "labelled_frame (candidates G p label) (rep (uf_parent u)) G p label"
proof
  let ?ns = "candidates G p label" and ?L = "scope_links G p label" and ?S = "frame_edges out"
  let ?n = "length ?ns" and ?g = "rep (uf_parent u)"
  show "set ?ns = {n. in_scope G p label n}" "distinct ?ns" "sorted ?ns" by (simp_all add: candidates_facts)
  show "?g x < ?n" "?g (?g x) = ?g x" if "x < ?n" for x
    using ok rep_root [of _ "uf_parent u" x] rep_fixed that by (auto simp: uf_ok_def len)
  have scope: "in_scope G p label (?ns ! i)" if "i < ?n" for i using candidates_facts(3) nth_mem [OF that] by blast
  have S: "(i, j) \<in> ?S \<longleftrightarrow> i < ?n \<and> j < ?n \<and> (?ns ! i, ?ns ! j) \<in> ?L" for i j
  proof -
    have "(i, j) \<in> ?S \<longleftrightarrow> i < ?n \<and> (\<exists>e. (j, e) \<in> set (out ! i))" by (force simp: frame_edges_def len)
    also have "\<dots> \<longleftrightarrow> i < ?n \<and> j < ?n \<and> (\<exists>e ty. has_edge (ag_edge G) p e (?ns ! i) (?ns ! j) ty)"
      using edges [of i j] unfolding len by metis
    finally show ?thesis using scope by (auto simp: scope_links_def)
  qed
  have img: "(!) ?ns ` {..<?n} = {n. in_scope G p label n}"
    using candidates_facts(3) [of label] by (metis atLeast0LessThan set_map set_upt map_nth)
  have inj: "inj_on ((!) ?ns) {..<?n}" using candidates_facts(1) by (simp add: inj_on_nth)
  show "?g i = ?g j \<longleftrightarrow> connected G p label (?ns ! i) (?ns ! j)" if "i < ?n" "j < ?n" for i j
  proof -
    have "?g i = ?g j \<longleftrightarrow> (i, j) \<in> linked ?S" using ok that by (auto simp: uf_ok_def len)
    also have "\<dots> \<longleftrightarrow> connected G p label (?ns ! i) (?ns ! j)"
      unfolding connected_def
      by (rule index_connected [where c = "(!) ?ns" and n = ?n]) (use S inj that in \<open>auto simp: img scope_links_def\<close>)
    finally show ?thesis .
  qed
qed

end

text \<open>The representatives that the union-find structure gives the nodes of a reader's frame.\<close>

definition frame_reps :: "reader \<Rightarrow> str option \<Rightarrow> nat \<Rightarrow> nat" where
  "frame_reps R label =
     (case frame_build R label of Inl _ \<Rightarrow> id | Inr fr \<Rightarrow> rep (uf_parent (cc_unions (fr_out fr))))"

context graph_reader begin

lemma frame_unions:
  "\<exists>out. frame_build R label = Inr \<lparr>fr_nodes = candidates G p label, fr_out = out\<rparr> \<and>
    uf_same (length (candidates G p label)) (frame_edges out) (frame_reps R label) (cc_unions out) \<and>
    labelled_frame (candidates G p label) (frame_reps R label) G p label"
proof -
  obtain out where fr: "frame_build R label = Inr \<lparr>fr_nodes = candidates G p label, fr_out = out\<rparr>"
    and len: "length out = length (candidates G p label)"
    and edges: "\<And>i j e. i < length out \<Longrightarrow> (j, e) \<in> set (out ! i) \<longleftrightarrow> j < length out \<and>
       (\<exists>ty. has_edge (ag_edge G) p e (candidates G p label ! i) (candidates G p label ! j) ty)"
    using frame_run by metis
  have ok: "uf_ok (length out) (frame_edges out) (cc_unions out)" using cc_unions_ok [of out] edges by simp
  have reps: "frame_reps R label = rep (uf_parent (cc_unions out))" by (simp add: frame_reps_def fr)
  have "labelled_frame (candidates G p label) (frame_reps R label) G p label"
    unfolding reps by (rule frame_labelled [OF len _ ok]) (rule edges)
  then show ?thesis using fr ok by (auto simp: uf_same_def len reps)
qed

end

sublocale graph_reader \<subseteq> frames: labelled_frame "candidates G p label" "frame_reps R label" G p label for label
  using frame_unions by blast

context graph_reader begin

lemma components_run:
  "connected_components R label =
     Inr (map (\<lambda>u. (u, class_min G p label u)) (candidates G p label),
       card (class_min G p label ` {n. in_scope G p label n}))"
  using frame_unions frames.components_of_frame by blast

end

end
