(* ===== verification/Algo_Paths.thy ===== *)
theory Algo_Paths
  imports Algo_Components
begin

text \<open>
  Shortest paths: Dijkstra's search with the floating-point sums the code computes. Rounding makes the
  sum of a path depend on the order of its terms, so costs are the sums folded from the source; adding a
  non-negative weight never lowers a cost and keeps the order of costs, which is all the search relies on.
\<close>

section \<open>Costs\<close>

definition cost_ok :: "f64 \<Rightarrow> bool" where
  "cost_ok c \<longleftrightarrow> \<not> fsign c \<and> fmag c \<le> finf TYPE(64)"

definition weight_ok :: "f64 \<Rightarrow> bool" where
  "weight_ok w \<longleftrightarrow> is_finite w \<and> (fsign w \<longrightarrow> fmag w = 0)"

lemma fzero_parts [simp]: "fmag (fzero :: f64) = 0" "\<not> fsign (fzero :: f64)"
  by (simp_all add: fmake_parts)

lemma cost_zero [simp]: "cost_ok fzero"
  by (simp add: cost_ok_def)

lemma fmag_fadd:
  assumes c: "cost_ok c" and w: "weight_ok w"
  shows "fmag (fadd nan c w) =
    (if fmag c = finf TYPE(64) then finf TYPE(64)
     else min (round_mag 52 (units 52 (fmag c) + units 52 (fmag w)) 1) (finf TYPE(64)))"
    "\<not> fsign (fadd nan c w)"
proof -
  let ?n = "nan FAdd [c, w]" and ?u = "units 52 (fmag c) + units 52 (fmag w)"
  have nan: "\<not> is_nan c" "\<not> is_nan w" "\<not> is_inf w"
    using c w by (auto simp: cost_ok_def weight_ok_def is_nan_def is_inf_def is_finite_def)
  have "fmag (fadd nan c w) = (if fmag c = finf TYPE(64) then finf TYPE(64) else min (round_mag 52 ?u 1) (finf TYPE(64))) \<and>
      \<not> fsign (fadd nan c w)"
  proof (cases "fmag c = finf TYPE(64)")
    case True
    then have "fadd nan c w = c" using nan by (simp add: fadd_def fadd_with_def is_inf_def)
    then show ?thesis using c True by (simp add: cost_ok_def)
  next
    case False
    have "fval c = int (units 52 (fmag c))" using c by (simp add: fval_parts cost_ok_def fprec_def)
    moreover have "fval w = int (units 52 (fmag w))" using w by (auto simp: fval_parts weight_ok_def fprec_def)
    ultimately have v: "fval c + fval w = int ?u" by simp
    show ?thesis
    proof (cases "?u = 0")
      case True
      then have "fadd nan c w = fzero"
        using nan False v c by (simp add: fadd_def fadd_with_def is_inf_def cost_ok_def)
      moreover have "round_mag 52 0 1 = 0" using round_units [of 52 0] by simp
      ultimately show ?thesis using False True by simp
    next
      case nz: False
      define v where "v = fval c + fval w"
      then have "v \<noteq> 0" "\<not> v < 0" "nat \<bar>v\<bar> = ?u" using v nz by linarith+
      then have "fadd nan c w = fround False ?u 1"
        using nan False by (simp add: fadd_def fadd_with_def is_inf_def Let_def v_def [symmetric])
      then show ?thesis using False by (simp add: fround_mag fprec_def)
    qed
  qed
  then show "fmag (fadd nan c w) =
    (if fmag c = finf TYPE(64) then finf TYPE(64)
     else min (round_mag 52 (units 52 (fmag c) + units 52 (fmag w)) 1) (finf TYPE(64)))"
    "\<not> fsign (fadd nan c w)" by blast+
qed

lemma cost_add [simp]: "cost_ok c \<Longrightarrow> weight_ok w \<Longrightarrow> cost_ok (fadd nan c w)"
  unfolding cost_ok_def [of "fadd nan c w"] by (simp add: fmag_fadd)

lemma cost_grows: "cost_ok c \<Longrightarrow> weight_ok w \<Longrightarrow> fmag c \<le> fmag (fadd nan c w)"
proof -
  assume c: "cost_ok c" and w: "weight_ok w"
  have "round_mag 52 (units 52 (fmag c)) 1 \<le> round_mag 52 (units 52 (fmag c) + units 52 (fmag w)) 1"
    by (rule round_mag_mono) simp_all
  then have "fmag c \<le> round_mag 52 (units 52 (fmag c) + units 52 (fmag w)) 1" by (simp add: round_units)
  then show ?thesis using c by (simp add: fmag_fadd [OF c w] cost_ok_def)
qed

lemma cost_mono: "cost_ok c \<Longrightarrow> cost_ok c' \<Longrightarrow> weight_ok w \<Longrightarrow> fmag c \<le> fmag c' \<Longrightarrow> fmag (fadd nan c w) \<le> fmag (fadd nan c' w)"
proof -
  assume c: "cost_ok c" "cost_ok c'" and w: "weight_ok w" and le: "fmag c \<le> fmag c'"
  have "round_mag 52 (units 52 (fmag c) + units 52 (fmag w)) 1 \<le> round_mag 52 (units 52 (fmag c') + units 52 (fmag w)) 1"
    by (rule round_mag_mono) (use le in \<open>simp_all add: units_mono\<close>)
  then show ?thesis using le c by (auto simp: fmag_fadd [OF _ w] cost_ok_def)
qed

lemma cost_eqI: "cost_ok c \<Longrightarrow> cost_ok c' \<Longrightarrow> fmag c = fmag c' \<Longrightarrow> c = c'"
  by (rule float_eqI) (simp_all add: cost_ok_def)

lemma cost_lt: "cost_ok c \<Longrightarrow> cost_ok c' \<Longrightarrow> flt c c' \<longleftrightarrow> fmag c < fmag c'"
  by (auto simp: flt_def fpartial_cmp_def cost_ok_def is_nan_def fkey_def)

lemma cost_le: "cost_ok c \<Longrightarrow> cost_ok c' \<Longrightarrow> fle c c' \<longleftrightarrow> fmag c \<le> fmag c'"
  by (auto simp: fle_def flt_def feq_def fpartial_cmp_def cost_ok_def is_nan_def fkey_def)

lemma weight_one: "weight_ok (fone :: f64)"
  using fmag_i64(2) [of 1] by (simp add: weight_ok_def is_finite_def f64_of_i64_def f_of_int_sign)

lemma edge_weight_ok: "edge_weight R e wp = Inr w \<Longrightarrow> weight_ok w"
proof -
  have pos: "weight_ok x" if "is_finite x" "fle fzero x" for x :: f64
    using that by (auto simp: weight_ok_def fle_def flt_def feq_def fpartial_cmp_def is_nan_def is_finite_def fkey_def
        split: if_splits)
  have "weight_ok (if is_finite x \<and> fle fzero x then x else fzero)" for x :: f64
    using pos [of x] by (auto simp: weight_ok_def is_finite_def finf_def fprec_def)
  moreover assume "edge_weight R e wp = Inr w"
  ultimately show "weight_ok w"
    using weight_one by (cases wp) (auto simp: edge_weight_def Let_def res_bind_eq_Inr)
qed


section \<open>The heap\<close>

lemma state_before_order:
  "state_before x x" "state_before x y \<or> state_before y x" "state_before x y \<Longrightarrow> state_before y z \<Longrightarrow> state_before x z"
  by (auto simp: state_before_def)

lemma pop_least_set:
  "pop_least h = Some (m, rest) \<Longrightarrow> set h = insert m (set rest) \<and> (\<forall>x \<in> set h. state_before m x)"
proof (induction h arbitrary: m rest)
  case (Cons x xs)
  show ?case
  proof (cases "pop_least xs")
    case None
    with Cons.prems show ?thesis by (simp add: state_before_order)
  next
    case (Some q)
    obtain m' rest' where q: "q = (m', rest')" by (cases q)
    note IH = Cons.IH [OF Some [unfolded q]]
    show ?thesis
      using Cons.prems IH state_before_order(2) [of x m'] state_before_order(3) [of x m']
      by (auto simp: Some q state_before_order(1) split: if_splits)
  qed
qed simp

lemma pop_least_cost:
  assumes "pop_least h = Some ((c, i), rest)" "(c', j) \<in> set h" "cost_ok c" "cost_ok c'"
  shows "fmag c \<le> fmag c'"
  using pop_least_set [OF assms(1)] assms(2-) by (force simp: state_before_def fkey_def cost_ok_def)

section \<open>Walks over positions\<close>

fun ipath :: "adjacency \<Rightarrow> nat \<Rightarrow> (edge_id \<times> nat) list \<Rightarrow> nat \<Rightarrow> bool" where
  "ipath succ i [] j \<longleftrightarrow> i = j"
| "ipath succ i ((e, k) # hs) j \<longleftrightarrow> (k, e) \<in> set (succ ! i) \<and> ipath succ k hs j"

lemma ipath_snoc: "ipath succ i (hs @ [(e, k)]) j \<longleftrightarrow> (\<exists>m. ipath succ i hs m \<and> (k, e) \<in> set (succ ! m)) \<and> k = j"
  by (induction hs arbitrary: i) auto

text \<open>The sum of the weights along a walk, in the order of the walk.\<close>

definition path_cost :: "64 nans \<Rightarrow> (edge_id \<Rightarrow> f64) \<Rightarrow> edge_id list \<Rightarrow> f64" where
  "path_cost nan W es = foldl (\<lambda>c e. fadd nan c (W e)) fzero es"

lemma path_cost_simps [simp]:
  "path_cost nan W [] = fzero" "path_cost nan W (es @ [e]) = fadd nan (path_cost nan W es) (W e)"
  by (simp_all add: path_cost_def)

section \<open>The invariant of the search\<close>

text \<open>
  The nodes settled so far, the latest first. Their distances are final; their predecessors were settled
  before them.
\<close>

fun chained :: "nat \<Rightarrow> (nat \<times> edge_id) option list \<Rightarrow> nat list \<Rightarrow> bool" where
  "chained s prev [] \<longleftrightarrow> True"
| "chained s prev (j # ds) \<longleftrightarrow>
     (case prev ! j of None \<Rightarrow> j = s | Some (i, e) \<Rightarrow> i \<in> set ds) \<and> chained s prev ds"

definition sp_core ::
    "64 nans \<Rightarrow> (edge_id \<Rightarrow> f64) \<Rightarrow> adjacency \<Rightarrow> nat \<Rightarrow> (nat \<times> nat \<times> edge_id) set \<Rightarrow> nat list \<Rightarrow> sp_state \<Rightarrow> bool" where
  "sp_core nan W succ s pend ds \<sigma> \<longleftrightarrow>
     length (ds_dist \<sigma>) = length succ \<and> length (ds_prev \<sigma>) = length succ \<and>
     (\<forall>j < length succ. cost_ok (ds_dist \<sigma> ! j)) \<and> ds_dist \<sigma> ! s = fzero \<and> ds_prev \<sigma> ! s = None \<and>
     distinct ds \<and> set ds \<subseteq> {..<length succ} \<and> chained s (ds_prev \<sigma>) ds \<and>
     (\<forall>i \<in> set ds. \<forall>(j, e) \<in> set (succ ! i). (i, j, e) \<notin> pend \<longrightarrow>
        fmag (ds_dist \<sigma> ! j) \<le> fmag (fadd nan (ds_dist \<sigma> ! i) (W e))) \<and>
     (\<forall>j < length succ. \<forall>i e. ds_prev \<sigma> ! j = Some (i, e) \<longrightarrow>
        i \<in> set ds \<and> (j, e) \<in> set (succ ! i) \<and> ds_dist \<sigma> ! j = fadd nan (ds_dist \<sigma> ! i) (W e)) \<and>
     (\<forall>j < length succ. is_finite (ds_dist \<sigma> ! j) \<and> ds_prev \<sigma> ! j = None \<longrightarrow> j = s)"

definition sp_frontier :: "nat list \<Rightarrow> sp_state \<Rightarrow> bool" where
  "sp_frontier ds \<sigma> \<longleftrightarrow>
     (\<forall>(c, j) \<in> set (ds_heap \<sigma>). j < length (ds_dist \<sigma>) \<and> cost_ok c \<and> is_finite c \<and>
        fmag (ds_dist \<sigma> ! j) \<le> fmag c \<and> (\<forall>i \<in> set ds. fmag (ds_dist \<sigma> ! i) \<le> fmag c)) \<and>
     (\<forall>j < length (ds_dist \<sigma>). j \<notin> set ds \<and> is_finite (ds_dist \<sigma> ! j) \<longrightarrow> (ds_dist \<sigma> ! j, j) \<in> set (ds_heap \<sigma>))"

lemma chained_update: "j \<notin> set ds \<Longrightarrow> j < length prev \<Longrightarrow> chained s (prev[j := x]) ds = chained s prev ds"
  by (induction ds) (auto split: option.splits)

text \<open>When the search stops, no node outside the settled ones is nearer than the target.\<close>

definition sp_done :: "nat \<Rightarrow> nat list \<Rightarrow> sp_state \<Rightarrow> bool" where
  "sp_done t ds \<sigma> \<longleftrightarrow> t \<notin> set ds \<and>
     (\<forall>j < length (ds_dist \<sigma>). j \<notin> set ds \<and> is_finite (ds_dist \<sigma> ! j) \<longrightarrow> fmag (ds_dist \<sigma> ! t) \<le> fmag (ds_dist \<sigma> ! j))"

text \<open>
  What the search needs of a graph: the lists of successors stay in range, and every edge has a weight.
\<close>

locale weighted_lists =
  fixes E :: fenv and R :: reader and wp :: "str option" and W :: "edge_id \<Rightarrow> f64" and succ :: adjacency
  assumes range: "i < length succ \<Longrightarrow> (j, e) \<in> set (succ ! i) \<Longrightarrow> j < length succ"
    and weight: "i < length succ \<Longrightarrow> (j, e) \<in> set (succ ! i) \<Longrightarrow> edge_weight R e wp = Inr (W e)"
begin

lemma weight_good: "i < length succ \<Longrightarrow> (j, e) \<in> set (succ ! i) \<Longrightarrow> weight_ok (W e)"
  by (rule edge_weight_ok [OF weight])

text \<open>Relaxing one edge that lowers a distance.\<close>

lemma core_lower:
  assumes core: "sp_core nan W succ s (insert (i, j, e) pend) ds \<sigma>" and i: "i \<in> set ds"
    and e: "(j, e) \<in> set (succ ! i)" "j < length succ" "j \<notin> set ds" "j \<noteq> s"
    and nd: "nd = fadd nan (ds_dist \<sigma> ! i) (W e)" "cost_ok nd" "fmag nd < fmag (ds_dist \<sigma> ! j)"
  shows "sp_core nan W succ s pend ds
    (\<sigma>\<lparr>ds_dist := (ds_dist \<sigma>)[j := nd], ds_prev := (ds_prev \<sigma>)[j := Some (i, e)], ds_heap := h\<rparr>)"
proof -
  let ?d = "ds_dist \<sigma>" and ?d' = "(ds_dist \<sigma>)[j := nd]" and ?p = "(ds_prev \<sigma>)[j := Some (i, e)]"
  have len: "length ?d = length succ" "length (ds_prev \<sigma>) = length succ" and ds: "set ds \<subseteq> {..<length succ}"
    using core by (auto simp: sp_core_def)
  have keep: "?d' ! k = ?d ! k" if "k \<in> set ds" for k using that e(3) by (cases "k = j") simp_all
  have low: "fmag (?d' ! k) \<le> fmag (?d ! k)" if "k < length succ" for k
    using that nd(3) len by (cases "k = j") simp_all
  have "fmag (?d' ! j') \<le> fmag (fadd nan (?d' ! k) (W e'))"
    if k: "k \<in> set ds" "(j', e') \<in> set (succ ! k)" "(k, j', e') \<notin> pend" for k j' e'
  proof (cases "(k, j', e') = (i, j, e)")
    case True
    then show ?thesis using nd(1) keep [OF k(1)] e(2) len by simp
  next
    case False
    then have "fmag (?d ! j') \<le> fmag (fadd nan (?d ! k) (W e'))" using core k by (fastforce simp: sp_core_def)
    moreover have "j' < length succ" using range k ds by blast
    ultimately show ?thesis using low [of j'] keep [OF k(1)] by simp
  qed
  moreover have "k \<in> set ds \<and> (j', e') \<in> set (succ ! k) \<and> ?d' ! j' = fadd nan (?d' ! k) (W e')"
    if j': "j' < length succ" "?p ! j' = Some (k, e')" for j' k e'
  proof (cases "j' = j")
    case True
    then have "k = i" "e' = e" using j' len by simp_all
    then show ?thesis using True e i nd(1) keep len by simp
  next
    case False
    then show ?thesis using core j' keep by (simp add: sp_core_def)
  qed
  moreover have "cost_ok (?d' ! j')" "is_finite (?d' ! j') \<and> ?p ! j' = None \<longrightarrow> j' = s" if "j' < length succ" for j'
    using that core nd(2) len by (cases "j' = j"; simp add: sp_core_def)+
  ultimately show ?thesis using core e len by (auto simp: sp_core_def chained_update)
qed

lemma frontier_lower:
  assumes fr: "sp_frontier ds \<sigma>" and j: "j < length (ds_dist \<sigma>)" "j \<notin> set ds"
    and nd: "cost_ok nd" "is_finite nd" "fmag nd < fmag (ds_dist \<sigma> ! j)"
    and low: "\<And>i. i \<in> set ds \<Longrightarrow> fmag (ds_dist \<sigma> ! i) \<le> fmag nd"
  shows "sp_frontier ds (\<sigma>\<lparr>ds_dist := (ds_dist \<sigma>)[j := nd], ds_prev := p, ds_heap := ds_heap \<sigma> @ [(nd, j)]\<rparr>)"
proof -
  let ?d = "ds_dist \<sigma>" and ?d' = "(ds_dist \<sigma>)[j := nd]"
  have keep: "?d' ! k = ?d ! k" if "k \<in> set ds" for k using that j by (cases "k = j") simp_all
  have "fmag (?d' ! k) \<le> fmag c" if "(c, k) \<in> set (ds_heap \<sigma>) \<or> (c, k) = (nd, j)" for c k
    using that fr j nd(3) by (cases "k = j") (fastforce simp: sp_frontier_def)+
  moreover have "(?d' ! k, k) \<in> set (ds_heap \<sigma> @ [(nd, j)])"
    if "k < length ?d" "k \<notin> set ds" "is_finite (?d' ! k)" for k
    using that fr j by (cases "k = j") (auto simp: sp_frontier_def)
  ultimately show ?thesis using fr j nd low by (auto simp: sp_frontier_def keep)
qed

lemma core_skip:
  assumes "sp_core nan W succ s (insert (i, j, e) pend) ds \<sigma>" "fmag (ds_dist \<sigma> ! j) \<le> fmag (fadd nan (ds_dist \<sigma> ! i) (W e))"
  shows "sp_core nan W succ s pend ds \<sigma>"
  using assms unfolding sp_core_def by fast

lemma relax_run:
  assumes "sp_core (fe_nan64 E) W succ s ({i} \<times> set es) ds \<sigma>" "sp_frontier ds \<sigma>" "ds_dist \<sigma> ! i = cost"
    and i: "i \<in> set ds" "set es \<subseteq> set (succ ! i)" and low: "\<forall>k \<in> set ds. fmag (ds_dist \<sigma> ! k) \<le> fmag cost"
  shows "\<exists>\<sigma>'. relax E R wp cost i es \<sigma> = Inr \<sigma>' \<and> sp_core (fe_nan64 E) W succ s {} ds \<sigma>' \<and> sp_frontier ds \<sigma>'"
  using assms
proof (induction es arbitrary: \<sigma>)
  case (Cons x es)
  obtain j e where x: "x = (j, e)" by (cases x)
  let ?nan = "fe_nan64 E" and ?d = "ds_dist \<sigma>"
  define nd where "nd = fadd ?nan cost (W e)"
  have core: "sp_core ?nan W succ s (insert (i, j, e) ({i} \<times> set es)) ds \<sigma>"
    using Cons.prems(1) by (simp add: x)
  then have len: "length ?d = length succ" and ok: "\<And>k. k < length succ \<Longrightarrow> cost_ok (?d ! k)"
    and n: "i < length succ" and s: "?d ! s = fzero" using Cons.prems(4) by (auto simp: sp_core_def)
  have e: "(j, e) \<in> set (succ ! i)" using Cons.prems(5) by (simp add: x)
  have j: "j < length succ" and w: "weight_ok (W e)" and ew: "edge_weight R e wp = Inr (W e)"
    using range [OF n e] weight_good [OF n e] weight [OF n e] by simp_all
  have c: "cost_ok cost" using ok [OF n] Cons.prems(3) by simp
  have nd: "cost_ok nd" "fmag cost \<le> fmag nd" using c w by (simp_all add: nd_def cost_grows)
  show ?case
  proof (cases "flt nd (?d ! j)")
    case True
    then have lt: "fmag nd < fmag (?d ! j)" using cost_lt [OF nd(1) ok [OF j]] by simp
    have js: "j \<notin> set ds" using Cons.prems(6) nd(2) lt by fastforce
    have fin: "is_finite nd" using lt ok [OF j] by (simp add: is_finite_def cost_ok_def)
    let ?\<sigma> = "\<sigma>\<lparr>ds_dist := ?d[j := nd], ds_prev := (ds_prev \<sigma>)[j := Some (i, e)], ds_heap := ds_heap \<sigma> @ [(nd, j)]\<rparr>"
    have keep: "?d[j := nd] ! k = ?d ! k" if "k \<in> set ds" for k using that js by (cases "k = j") simp_all
    have "sp_core ?nan W succ s ({i} \<times> set es) ds ?\<sigma>"
      by (rule core_lower [OF core Cons.prems(4) e j js]) (use lt s nd nd_def Cons.prems(3) in auto)
    moreover have "sp_frontier ds ?\<sigma>"
      by (rule frontier_lower [OF Cons.prems(2)]) (use j js len nd fin lt Cons.prems(6) in \<open>auto intro: le_trans\<close>)
    ultimately have "\<exists>\<sigma>'. relax E R wp cost i es ?\<sigma> = Inr \<sigma>' \<and> sp_core ?nan W succ s {} ds \<sigma>' \<and> sp_frontier ds \<sigma>'"
      by (rule Cons.IH) (use Cons.prems(3-6) keep in auto)
    then show ?thesis using True j len by (simp add: x ew nd_def [symmetric])
  next
    case False
    then have "fmag (?d ! j) \<le> fmag (fadd ?nan (?d ! i) (W e))"
      using cost_lt [OF nd(1) ok [OF j]] Cons.prems(3) by (simp add: nd_def)
    then have "sp_core ?nan W succ s ({i} \<times> set es) ds \<sigma>" by (rule core_skip [OF core])
    then have "\<exists>\<sigma>'. relax E R wp cost i es \<sigma> = Inr \<sigma>' \<and> sp_core ?nan W succ s {} ds \<sigma>' \<and> sp_frontier ds \<sigma>'"
      by (rule Cons.IH) (use Cons.prems(2-6) in auto)
    then show ?thesis using False j len by (simp add: x ew nd_def [symmetric])
  qed
qed simp

text \<open>Settling the node that was popped.\<close>

lemma core_settle:
  assumes core: "sp_core nan W succ s {} ds \<sigma>" and i: "i < length succ" "i \<notin> set ds" "is_finite (ds_dist \<sigma> ! i)"
  shows "sp_core nan W succ s ({i} \<times> set (succ ! i)) (i # ds) (\<sigma>\<lparr>ds_heap := h\<rparr>)"
  using assms by (auto simp: sp_core_def split: option.splits)

lemma frontier_settle:
  assumes fr: "sp_frontier ds \<sigma>" and pop: "pop_least (ds_heap \<sigma>) = Some ((cost, i), rest)"
    and cost: "ds_dist \<sigma> ! i = cost"
  shows "sp_frontier (if i \<in> set ds then ds else i # ds) (\<sigma>\<lparr>ds_heap := rest\<rparr>)"
proof -
  note heap = pop_least_set [OF pop]
  have ok: "cost_ok c" if "(c, j) \<in> set (ds_heap \<sigma>)" for c j using fr that by (auto simp: sp_frontier_def)
  have "fmag cost \<le> fmag c" if "(c, j) \<in> set rest" for c j
    by (rule pop_least_cost [OF pop]) (use that heap ok in auto)
  then show ?thesis using fr heap cost by (auto simp: sp_frontier_def)
qed

lemma frontier_stale:
  assumes fr: "sp_frontier ds \<sigma>" and pop: "pop_least (ds_heap \<sigma>) = Some ((cost, i), rest)"
    and cost: "ds_dist \<sigma> ! i \<noteq> cost"
  shows "sp_frontier ds (\<sigma>\<lparr>ds_heap := rest\<rparr>)"
  using fr pop_least_set [OF pop] cost by (auto simp: sp_frontier_def)

lemma done_empty: "sp_frontier ds \<sigma> \<Longrightarrow> ds_heap \<sigma> = [] \<Longrightarrow> t \<notin> set ds \<Longrightarrow> sp_done t ds \<sigma>"
  by (auto simp: sp_frontier_def sp_done_def)

lemma done_popped:
  assumes fr: "sp_frontier ds \<sigma>" and pop: "pop_least (ds_heap \<sigma>) = Some ((cost, t), rest)" and t: "t \<notin> set ds"
  shows "sp_done t ds (\<sigma>\<lparr>ds_heap := h\<rparr>)"
proof -
  have top: "(cost, t) \<in> set (ds_heap \<sigma>)" using pop_least_set [OF pop] by simp
  have "fmag (ds_dist \<sigma> ! t) \<le> fmag (ds_dist \<sigma> ! j)"
    if "j < length (ds_dist \<sigma>)" "j \<notin> set ds" "is_finite (ds_dist \<sigma> ! j)" for j
  proof -
    have "(ds_dist \<sigma> ! j, j) \<in> set (ds_heap \<sigma>)" using fr that by (simp add: sp_frontier_def)
    moreover from this top have "cost_ok cost" "cost_ok (ds_dist \<sigma> ! j)" "fmag (ds_dist \<sigma> ! t) \<le> fmag cost"
      using fr by (auto simp: sp_frontier_def)
    ultimately have "fmag cost \<le> fmag (ds_dist \<sigma> ! j)" "fmag (ds_dist \<sigma> ! t) \<le> fmag cost"
      using pop_least_cost [OF pop] by simp_all
    then show ?thesis by simp
  qed
  then show ?thesis using t by (simp add: sp_done_def)
qed

lemma pop_run:
  assumes core: "sp_core (fe_nan64 E) W succ s {} ds \<sigma>" and fr: "sp_frontier ds \<sigma>"
    and pop: "pop_least (ds_heap \<sigma>) = Some ((cost, i), rest)" and fresh: "\<not> flt (ds_dist \<sigma> ! i) cost"
  shows "\<exists>\<sigma>'. relax E R wp cost i (succ ! i) (\<sigma>\<lparr>ds_heap := rest\<rparr>) = Inr \<sigma>' \<and>
    sp_core (fe_nan64 E) W succ s {} (if i \<in> set ds then ds else i # ds) \<sigma>' \<and>
    sp_frontier (if i \<in> set ds then ds else i # ds) \<sigma>'"
proof -
  let ?ds = "if i \<in> set ds then ds else i # ds"
  have len: "length (ds_dist \<sigma>) = length succ" using core by (simp add: sp_core_def)
  have top: "(cost, i) \<in> set (ds_heap \<sigma>)" using pop_least_set [OF pop] by simp
  then have i: "i < length succ" "cost_ok cost" "is_finite cost" "fmag (ds_dist \<sigma> ! i) \<le> fmag cost"
    "\<forall>k \<in> set ds. fmag (ds_dist \<sigma> ! k) \<le> fmag cost"
    using fr len by (auto simp: sp_frontier_def)
  have ok: "cost_ok (ds_dist \<sigma> ! i)" using core i(1) by (simp add: sp_core_def)
  have eq: "ds_dist \<sigma> ! i = cost" using fresh i cost_lt [OF ok i(2)] by (intro cost_eqI ok) simp_all
  have "sp_core (fe_nan64 E) W succ s ({i} \<times> set (succ ! i)) ?ds (\<sigma>\<lparr>ds_heap := rest\<rparr>)"
  proof (cases "i \<in> set ds")
    case True
    then show ?thesis using core by (simp add: sp_core_def split_def)
  next
    case False
    then show ?thesis using core_settle [OF core i(1) False] i(3) eq by simp
  qed
  then show ?thesis
    by (rule relax_run [OF _ frontier_settle [OF fr pop eq]]) (use eq i in auto)
qed

lemma loop_run:
  assumes "E' = E" "R' = R" "wp' = wp" "succ' = succ"
    and "sp_core (fe_nan64 E) W succ s {} ds \<sigma>" "sp_frontier ds \<sigma>" "t \<notin> set ds"
  shows "\<exists>ds' \<sigma>'. dijkstra_loop E' R' wp' succ' t \<sigma> = Inr \<sigma>' \<and> sp_core (fe_nan64 E) W succ s {} ds' \<sigma>' \<and> sp_done t ds' \<sigma>'"
  using assms
proof (induction E' R' wp' succ' t \<sigma> arbitrary: ds rule: dijkstra_loop.induct)
  case (1 E' R' wp' succ' t \<sigma>)
  note eqs = "1.prems"(1-4) and core = "1.prems"(5) and fr = "1.prems"(6) and t = "1.prems"(7)
  show ?case
  proof (cases "pop_least (ds_heap \<sigma>)")
    case None
    then show ?thesis
      using core done_empty [OF fr _ t] by (subst dijkstra_loop.simps) auto
  next
    case (Some q)
    obtain cost i rest where q: "q = ((cost, i), rest)" by (metis prod.collapse)
    note pop = Some [unfolded q]
    let ?\<sigma> = "\<sigma>\<lparr>ds_heap := rest\<rparr>"
    have heap: "sp_core (fe_nan64 E) W succ s {} ds ?\<sigma>" using core by (simp add: sp_core_def)
    have i: "\<not> length (ds_dist \<sigma>) \<le> i" using fr pop_least_set [OF pop] by (auto simp: sp_frontier_def)
    consider "i = t" | "i \<noteq> t" "flt (ds_dist \<sigma> ! i) cost" | "i \<noteq> t" "\<not> flt (ds_dist \<sigma> ! i) cost" by blast
    then show ?thesis
    proof cases
      case 1
      then show ?thesis
        using heap done_popped [OF fr] pop t by (subst dijkstra_loop.simps) (auto simp: pop)
    next
      case 2
      then have "ds_dist \<sigma> ! i \<noteq> cost" using flt_key [of "ds_dist \<sigma> ! i" cost] by auto
      then have "\<exists>ds' \<sigma>'. dijkstra_loop E' R' wp' succ' t ?\<sigma> = Inr \<sigma>' \<and> sp_core (fe_nan64 E) W succ s {} ds' \<sigma>' \<and> sp_done t ds' \<sigma>'"
        by (intro "1.IH"(1) [OF pop refl refl refl]) (use 2 i eqs heap frontier_stale [OF fr pop] t in auto)
      then show ?thesis using 2 i by (subst dijkstra_loop.simps) (simp add: pop)
    next
      case 3
      let ?ds = "if i \<in> set ds then ds else i # ds"
      obtain \<sigma>' where \<sigma>': "relax E R wp cost i (succ ! i) ?\<sigma> = Inr \<sigma>'"
        "sp_core (fe_nan64 E) W succ s {} ?ds \<sigma>'" "sp_frontier ?ds \<sigma>'"
        using pop_run [OF core fr pop 3(2)] by blast
      then have "\<exists>ds' \<sigma>''. dijkstra_loop E' R' wp' succ' t \<sigma>' = Inr \<sigma>'' \<and> sp_core (fe_nan64 E) W succ s {} ds' \<sigma>'' \<and> sp_done t ds' \<sigma>''"
        by (intro "1.IH"(2) [OF pop refl refl refl, where ds = ?ds]) (use 3 i eqs t in auto)
      then show ?thesis using 3 i \<sigma>'(1) by (subst dijkstra_loop.simps) (simp add: pop eqs)
    qed
  qed
qed

text \<open>The distances that the search leaves are lower bounds of the cost of every walk to the target.\<close>

lemma lower_bound:
  assumes core: "sp_core nan W succ s {} ds \<sigma>" and fin: "sp_done t ds \<sigma>" and s: "s < length succ" and t: "t < length succ"
  shows "ipath succ s hs j \<Longrightarrow> j < length succ \<and> cost_ok (path_cost nan W (map fst hs)) \<and>
    (fmag (ds_dist \<sigma> ! t) \<le> fmag (path_cost nan W (map fst hs)) \<or>
     j \<in> set ds \<and> fmag (ds_dist \<sigma> ! j) \<le> fmag (path_cost nan W (map fst hs)))"
proof (induction hs arbitrary: j rule: rev_induct)
  case Nil
  have "ds_dist \<sigma> ! s = fzero" "length (ds_dist \<sigma>) = length succ" using core by (simp_all add: sp_core_def)
  moreover have "is_finite (fzero :: f64)" by (simp add: is_finite_def finf_def fprec_def)
  ultimately show ?case using Nil fin s by (auto simp: sp_done_def)
next
  case (snoc x hs)
  obtain e where x: "x = (e, j)" using snoc.prems ipath_snoc by (cases x) auto
  obtain i where i: "ipath succ s hs i" "(j, e) \<in> set (succ ! i)" using snoc.prems by (auto simp: x ipath_snoc)
  let ?d = "ds_dist \<sigma>" and ?c = "path_cost nan W (map fst hs)" and ?c' = "path_cost nan W (map fst (hs @ [x]))"
  have IH: "i < length succ" "cost_ok ?c"
    "fmag (?d ! t) \<le> fmag ?c \<or> i \<in> set ds \<and> fmag (?d ! i) \<le> fmag ?c" using snoc.IH [OF i(1)] by auto
  have w: "weight_ok (W e)" and j: "j < length succ" using weight_good range IH(1) i(2) by blast+
  have ok: "cost_ok (?d ! k)" if "k < length succ" for k using core that by (simp add: sp_core_def)
  have c': "?c' = fadd nan ?c (W e)" by (simp add: x)
  have "fmag ?c \<le> fmag ?c'" unfolding c' by (rule cost_grows [OF IH(2) w])
  moreover have "fmag (?d ! t) \<le> fmag ?c' \<or> j \<in> set ds \<and> fmag (?d ! j) \<le> fmag ?c'"
    if "i \<in> set ds" "fmag (?d ! i) \<le> fmag ?c"
  proof -
    have "fmag (?d ! j) \<le> fmag (fadd nan (?d ! i) (W e))" using core that(1) i(2) by (fastforce simp: sp_core_def)
    also have "\<dots> \<le> fmag ?c'" unfolding c' using cost_mono [OF ok IH(2) w that(2)] IH(1) by simp
    finally have le: "fmag (?d ! j) \<le> fmag ?c'" .
    have "fmag (?d ! t) \<le> fmag (?d ! j)" if "j \<notin> set ds"
      using fin that j core ok [OF t] by (cases "is_finite (?d ! j)") (auto simp: sp_done_def sp_core_def is_finite_def cost_ok_def)
    then show ?thesis using le by auto
  qed
  moreover have "cost_ok ?c'" unfolding c' using IH(2) w by simp
  ultimately show ?case using IH(3) j by auto
qed

lemma trace_settled:
  assumes core: "sp_core nan W succ s {} ds \<sigma>"
  shows "chained s (ds_prev \<sigma>) xs \<Longrightarrow> set xs \<subseteq> {..<length succ} \<Longrightarrow> j \<in> set xs \<Longrightarrow> length xs \<le> k \<Longrightarrow>
    \<exists>hs. trace_back k (ds_prev \<sigma>) j = Some (rev (s # map snd hs), rev (map fst hs)) \<and> ipath succ s hs j \<and>
      path_cost nan W (map fst hs) = ds_dist \<sigma> ! j"
proof (induction xs arbitrary: j k)
  case (Cons y xs)
  obtain k' where k: "k = Suc k'" "length xs \<le> k'" using Cons.prems(4) by (cases k) auto
  show ?case
  proof (cases "j \<in> set xs")
    case True
    then show ?thesis using Cons.IH [of j k] Cons.prems k by auto
  next
    case False
    then have y: "y = j" using Cons.prems(3) by simp
    show ?thesis
    proof (cases "ds_prev \<sigma> ! j")
      case None
      then have "j = s" using Cons.prems(1) y by simp
      then show ?thesis using None core k(1) by (intro exI [of _ "[]"]) (auto simp: sp_core_def)
    next
      case (Some p)
      obtain i e where p: "p = (i, e)" by (cases p)
      have i: "i \<in> set xs" using Cons.prems(1) y Some p by simp
      have e: "(j, e) \<in> set (succ ! i)" "ds_dist \<sigma> ! j = fadd nan (ds_dist \<sigma> ! i) (W e)"
        using core Some p Cons.prems(2) y by (auto simp: sp_core_def)
      obtain hs where hs: "trace_back k' (ds_prev \<sigma>) i = Some (rev (s # map snd hs), rev (map fst hs))"
        "ipath succ s hs i" "path_cost nan W (map fst hs) = ds_dist \<sigma> ! i"
        using Cons.IH [of i k'] Cons.prems i k by auto
      then show ?thesis
        using e by (intro exI [of _ "hs @ [(e, j)]"]) (auto simp: k(1) Some p ipath_snoc)
    qed
  qed
qed simp

lemma trace_target:
  assumes core: "sp_core nan W succ s {} ds \<sigma>" and t: "t < length succ" "t \<notin> set ds" "is_finite (ds_dist \<sigma> ! t)"
  shows "\<exists>hs. trace_back (length succ) (ds_prev \<sigma>) t = Some (rev (s # map snd hs), rev (map fst hs)) \<and> ipath succ s hs t \<and>
      path_cost nan W (map fst hs) = ds_dist \<sigma> ! t"
proof (rule trace_settled [OF core, of "t # ds"])
  show "chained s (ds_prev \<sigma>) (t # ds)" using core t by (auto simp: sp_core_def split: option.splits)
  show sub: "set (t # ds) \<subseteq> {..<length succ}" using core t by (auto simp: sp_core_def)
  have "card (set (t # ds)) \<le> card {..<length succ}" by (rule card_mono [OF _ sub]) simp
  moreover have "distinct (t # ds)" using core t(2) by (simp add: sp_core_def)
  ultimately show "length (t # ds) \<le> length succ" by (metis card_lessThan distinct_card)
qed simp

lemma start_ok:
  assumes s: "s < length succ"
  shows "sp_core nan W succ s {} [] (sp_start (length succ) s)" "sp_frontier [] (sp_start (length succ) s)"
proof -
  let ?inf = "fmake False (finf TYPE(64)) :: f64"
  have "fmag ?inf = finf TYPE(64)" "\<not> fsign ?inf"
    by (simp_all add: fmake_parts finf_def fprec_def)
  then have inf: "cost_ok ?inf" "\<not> is_finite ?inf" and zero: "is_finite (fzero :: f64)"
    by (simp_all add: cost_ok_def is_finite_def) (simp add: finf_def fprec_def)
  have d: "(replicate (length succ) ?inf)[s := fzero] ! j = (if j = s then fzero else ?inf)" if "j < length succ" for j
    using that by (simp add: nth_list_update)
  show "sp_core nan W succ s {} [] (sp_start (length succ) s)"
    using s inf by (auto simp: sp_core_def sp_start_def d)
  show "sp_frontier [] (sp_start (length succ) s)"
    using s inf zero by (auto simp: sp_frontier_def sp_start_def d split: if_splits)
qed

text \<open>
  The search from a node to another: the distance of the target is infinite when no walk has a finite
  cost, and otherwise the cost of a walk that the predecessors spell out, no greater than that of any other.
\<close>

lemma search_run:
  assumes s: "s < length succ" and t: "t < length succ"
  shows "\<exists>\<sigma>. dijkstra_loop E R wp succ t (sp_start (length succ) s) = Inr \<sigma> \<and>
    (\<forall>hs. ipath succ s hs t \<longrightarrow>
       (is_finite (path_cost (fe_nan64 E) W (map fst hs)) \<longrightarrow> is_finite (ds_dist \<sigma> ! t)) \<and>
       fle (ds_dist \<sigma> ! t) (path_cost (fe_nan64 E) W (map fst hs))) \<and>
    (is_finite (ds_dist \<sigma> ! t) \<longrightarrow> (\<exists>hs. ipath succ s hs t \<and>
       trace_back (length succ) (ds_prev \<sigma>) t = Some (rev (s # map snd hs), rev (map fst hs)) \<and>
       path_cost (fe_nan64 E) W (map fst hs) = ds_dist \<sigma> ! t))"
proof -
  let ?nan = "fe_nan64 E"
  obtain ds \<sigma> where \<sigma>: "dijkstra_loop E R wp succ t (sp_start (length succ) s) = Inr \<sigma>"
    "sp_core ?nan W succ s {} ds \<sigma>" "sp_done t ds \<sigma>"
    using loop_run [OF refl refl refl refl start_ok [OF s]] by fastforce
  have ok: "cost_ok (ds_dist \<sigma> ! t)" using \<sigma>(2) t by (simp add: sp_core_def)
  have td: "t \<notin> set ds" using \<sigma>(3) by (simp add: sp_done_def)
  have "(is_finite (path_cost ?nan W (map fst hs)) \<longrightarrow> is_finite (ds_dist \<sigma> ! t)) \<and>
      fle (ds_dist \<sigma> ! t) (path_cost ?nan W (map fst hs))" if "ipath succ s hs t" for hs
    using lower_bound [OF \<sigma>(2,3) s t that] cost_le [OF ok] td by (auto simp: is_finite_def)
  then show ?thesis using \<sigma>(1) trace_target [OF \<sigma>(2) t td] by blast
qed

end

end
