(* ===== verification/Algo_Routes.thy ===== *)
theory Algo_Routes
  imports Algo_Paths
begin

text \<open>
  The lists that Dijkstra's search follows, read as hops of the stored graph: walks over positions are the
  routes of the graph that stay in scope, in each of the three directions.
\<close>

section \<open>Transposing\<close>

lemma transpose_node:
  assumes "\<forall>(j, e) \<in> set adj. j < length t"
  shows "length (foldl (\<lambda>t (j, e). t[j := t ! j @ [(i, e)]]) t adj) = length t"
    "k < length t \<Longrightarrow> set (foldl (\<lambda>t (j, e). t[j := t ! j @ [(i, e)]]) t adj ! k) =
       set (t ! k) \<union> {(i, e) | e. (k, e) \<in> set adj}"
proof -
  have "length (foldl (\<lambda>t (j, e). t[j := t ! j @ [(i, e)]]) t adj) = length t \<and>
    (\<forall>k < length t. set (foldl (\<lambda>t (j, e). t[j := t ! j @ [(i, e)]]) t adj ! k) =
       set (t ! k) \<union> {(i, e) | e. (k, e) \<in> set adj})"
    using assms
  proof (induction adj arbitrary: t)
    case (Cons x adj)
    obtain j e where x: "x = (j, e)" by (cases x)
    have "set (t[j := t ! j @ [(i, e)]] ! k) = set (t ! k) \<union> (if k = j then {(i, e)} else {})" if "k < length t" for k
      using that by (cases "k = j") simp_all
    then show ?case using Cons.IH [of "t[j := t ! j @ [(i, e)]]"] Cons.prems by (auto simp: x)
  qed simp
  then show "length (foldl (\<lambda>t (j, e). t[j := t ! j @ [(i, e)]]) t adj) = length t"
    "k < length t \<Longrightarrow> set (foldl (\<lambda>t (j, e). t[j := t ! j @ [(i, e)]]) t adj ! k) =
       set (t ! k) \<union> {(i, e) | e. (k, e) \<in> set adj}" by blast+
qed

lemma transpose_nodes:
  assumes "\<forall>(i, adj) \<in> set L. \<forall>(j, e) \<in> set adj. j < n" "length t = n"
  shows "length (foldl (\<lambda>t (i, adj). foldl (\<lambda>t (j, e). t[j := t ! j @ [(i, e)]]) t adj) t L) = n \<and>
    (\<forall>k < n. set (foldl (\<lambda>t (i, adj). foldl (\<lambda>t (j, e). t[j := t ! j @ [(i, e)]]) t adj) t L ! k) =
       set (t ! k) \<union> {(i, e). \<exists>adj. (i, adj) \<in> set L \<and> (k, e) \<in> set adj})"
  using assms
proof (induction L arbitrary: t)
  case (Cons x L)
  obtain i adj where x: "x = (i, adj)" by (cases x)
  let ?t = "foldl (\<lambda>t (j, e). t[j := t ! j @ [(i, e)]]) t adj"
  have adj: "\<forall>(j, e) \<in> set adj. j < length t" using Cons.prems by (auto simp: x)
  note step = transpose_node [OF adj]
  show ?case using Cons.IH [of ?t] Cons.prems step by (auto simp: x)
qed simp

lemma transpose_mem:
  assumes "\<And>i j e. i < length out \<Longrightarrow> (j, e) \<in> set (out ! i) \<Longrightarrow> j < length out"
  shows "length (transpose out) = length out"
    "k < length out \<Longrightarrow> (i, e) \<in> set (transpose out ! k) \<longleftrightarrow> i < length out \<and> (k, e) \<in> set (out ! i)"
proof -
  have L: "\<forall>(i, adj) \<in> set (enumerate 0 out). \<forall>(j, e) \<in> set adj. j < length out"
    using assms by (auto simp: in_set_enumerate_eq)
  note all = transpose_nodes [OF L, of "replicate (length out) []"]
  show "length (transpose out) = length out" unfolding transpose_def using all by simp
  assume k: "k < length out"
  then have "set (transpose out ! k) = {(i, e). \<exists>adj. (i, adj) \<in> set (enumerate 0 out) \<and> (k, e) \<in> set adj}"
    unfolding transpose_def using all by simp
  then show "(i, e) \<in> set (transpose out ! k) \<longleftrightarrow> i < length out \<and> (k, e) \<in> set (out ! i)"
    by (auto simp: in_set_enumerate_eq)
qed

lemma succ_lists_mem:
  assumes "\<And>i j e. i < length out \<Longrightarrow> (j, e) \<in> set (out ! i) \<Longrightarrow> j < length out"
  shows "length (succ_lists d out) = length out"
    "i < length out \<Longrightarrow> (j, e) \<in> set (succ_lists d out ! i) \<longleftrightarrow>
       (d \<noteq> In \<and> (j, e) \<in> set (out ! i)) \<or> (d \<noteq> Out \<and> j < length out \<and> (i, e) \<in> set (out ! j))"
proof -
  have len: "length (transpose out) = length out" by (rule transpose_mem(1)) (rule assms)
  show "length (succ_lists d out) = length out" by (cases d) (simp_all add: succ_lists_def len)
  assume i: "i < length out"
  have "(j, e) \<in> set (transpose out ! i) \<longleftrightarrow> j < length out \<and> (i, e) \<in> set (out ! j)"
    by (rule transpose_mem(2) [OF _ i]) (rule assms)
  then show "(j, e) \<in> set (succ_lists d out ! i) \<longleftrightarrow>
       (d \<noteq> In \<and> (j, e) \<in> set (out ! i)) \<or> (d \<noteq> Out \<and> j < length out \<and> (i, e) \<in> set (out ! j))"
    using i by (cases d) (simp_all add: succ_lists_def len)
qed

section \<open>Routes\<close>

definition graph_weight :: "agraph \<Rightarrow> plane_id \<Rightarrow> str option \<Rightarrow> edge_id \<Rightarrow> f64" where
  "graph_weight G p wp e =
     (case wp of
        None \<Rightarrow> fone
      | Some k \<Rightarrow>
          let w = (case ag_edge G (p, e) of
                     None \<Rightarrow> fone
                   | Some (s, d, ty, ps) \<Rightarrow>
                       (case prop_of ps k of Some (PInt i) \<Rightarrow> f64_of_i64 i | Some (PFloat f) \<Rightarrow> f | _ \<Rightarrow> fone))
          in if is_finite w \<and> fle fzero w then w else fzero)"

definition scope_hops :: "agraph \<Rightarrow> plane_id \<Rightarrow> str option \<Rightarrow> dir \<Rightarrow> node_id \<Rightarrow> (edge_id \<times> node_id) set" where
  "scope_hops G p label d u = {(e, v). in_scope G p label u \<and> in_scope G p label v \<and> (e, v) \<in> hops_from G p d None u}"

definition route :: "agraph \<Rightarrow> plane_id \<Rightarrow> str option \<Rightarrow> dir \<Rightarrow> node_id \<Rightarrow> (edge_id \<times> node_id) list \<Rightarrow> node_id \<Rightarrow> bool" where
  "route G p label d src hs dst \<longleftrightarrow>
     in_scope G p label src \<and> walk (scope_hops G p label d) src hs \<and> walk_end src hs = dst"

lemma route_scope: "route G p label d src hs dst \<Longrightarrow> in_scope G p label src \<and> in_scope G p label dst"
proof (induction hs arbitrary: src)
  case (Cons x hs)
  obtain e v where x: "x = (e, v)" by (cases x)
  have "route G p label d v hs dst" using Cons.prems by (auto simp: x route_def scope_hops_def walk_end_def split: if_splits)
  then show ?case using Cons.IH Cons.prems by (auto simp: route_def)
qed (simp add: route_def walk_end_def)

lemma scope_hops_mem:
  "(e, v) \<in> scope_hops G p label d u \<longleftrightarrow> in_scope G p label u \<and> in_scope G p label v \<and> (e, v) \<in> hops_from G p d None u"
  by (simp add: scope_hops_def)

text \<open>What a shortest path is: a route of finite cost, spelled out, that no other route undercuts.\<close>

definition best_path ::
    "64 nans \<Rightarrow> agraph \<Rightarrow> plane_id \<Rightarrow> str option \<Rightarrow> sp_options \<Rightarrow> node_id \<Rightarrow> node_id \<Rightarrow> path \<Rightarrow> bool" where
  "best_path nan G p label opts src dst pa \<longleftrightarrow>
     (\<exists>hs. route G p label (sp_dir opts) src hs dst \<and>
        pa_nodes pa = src # map snd hs \<and> pa_edges pa = map fst hs \<and>
        pa_cost pa = path_cost nan (graph_weight G p (sp_weight opts)) (map fst hs) \<and> is_finite (pa_cost pa) \<and>
        (\<forall>hs'. route G p label (sp_dir opts) src hs' dst \<longrightarrow>
           fle (pa_cost pa) (path_cost nan (graph_weight G p (sp_weight opts)) (map fst hs'))))"

text \<open>The successors in the frame of a reader.\<close>

definition frame_succ :: "reader \<Rightarrow> str option \<Rightarrow> dir \<Rightarrow> adjacency" where
  "frame_succ R label d =
     (case frame_build R label of Inl _ \<Rightarrow> [] | Inr fr \<Rightarrow> succ_lists d (fr_out fr))"

lemma hops_dirs:
  "(e, v) \<in> hops_from G p d None u \<longleftrightarrow>
     (d \<noteq> In \<and> (\<exists>ty. has_edge (ag_edge G) p e u v ty)) \<or> (d \<noteq> Out \<and> (\<exists>ty. has_edge (ag_edge G) p e v u ty))"
proof -
  have "(e, v) \<in> (\<lambda>nb. (nb_edge nb, nb_node nb)) ` S \<longleftrightarrow> \<lparr>nb_node = v, nb_edge = e\<rparr> \<in> S" for S :: "neighbor set"
  proof
    assume "\<lparr>nb_node = v, nb_edge = e\<rparr> \<in> S"
    then show "(e, v) \<in> (\<lambda>nb. (nb_edge nb, nb_node nb)) ` S" by (rule rev_image_eqI) simp
  qed (auto simp: image_iff intro: back_subst [of "\<lambda>nb. nb \<in> S"])
  then show ?thesis by (auto simp: hops_from_def out_nbrs_def in_nbrs_def)
qed

context graph_reader begin

lemma edge_weight_run: "edge_weight R e wp = Inr (graph_weight G p wp e)"
  by (cases wp; cases "ag_edge G (p, e)")
    (auto simp: edge_weight_def graph_weight_def edge_law edge_rec_def Let_def split: prod.splits)

lemma frame_succ_run:
  "\<exists>out. frame_build R label = Inr \<lparr>fr_nodes = candidates G p label, fr_out = out\<rparr> \<and>
    frame_succ R label d = succ_lists d out"
  using frame_run [of label] by (metis frame_succ_def frame.select_convs(2) sum.case(2))

lemma frame_succ_mem:
  "length (frame_succ R label d) = length (candidates G p label)"
  "i < length (candidates G p label) \<Longrightarrow> (j, e) \<in> set (frame_succ R label d ! i) \<longleftrightarrow>
     j < length (candidates G p label) \<and> (e, candidates G p label ! j) \<in> hops_from G p d None (candidates G p label ! i)"
proof -
  let ?ns = "candidates G p label"
  obtain out where fr: "frame_build R label = Inr \<lparr>fr_nodes = ?ns, fr_out = out\<rparr>" "length out = length ?ns"
    "\<And>i j e. i < length out \<Longrightarrow> (j, e) \<in> set (out ! i) \<longleftrightarrow> j < length out \<and>
       (\<exists>ty. has_edge (ag_edge G) p e (?ns ! i) (?ns ! j) ty)"
    using frame_run [of label] by metis
  have succ: "frame_succ R label d = succ_lists d out" by (simp add: frame_succ_def fr(1))
  have rng: "i < length out \<Longrightarrow> (j, e) \<in> set (out ! i) \<Longrightarrow> j < length out" for i j e using fr(3) by blast
  show "length (frame_succ R label d) = length ?ns"
    unfolding succ using succ_lists_mem(1) [of out d] rng fr(2) by simp
  assume i: "i < length ?ns"
  show "(j, e) \<in> set (frame_succ R label d ! i) \<longleftrightarrow> j < length ?ns \<and> (e, ?ns ! j) \<in> hops_from G p d None (?ns ! i)"
    unfolding succ hops_dirs using succ_lists_mem(2) [of out i j e d] rng fr(2,3) i by auto
qed

end

sublocale graph_reader \<subseteq> lists: weighted_lists E R wp "graph_weight G p wp" "frame_succ R label d" for E wp label d
  by unfold_locales (use frame_succ_mem edge_weight_run in auto)

context graph_reader begin

lemma scope_nth: "i < length (candidates G p label) \<Longrightarrow> in_scope G p label (candidates G p label ! i)"
  using candidates_facts(3) nth_mem by blast

lemma nth_scope: "in_scope G p label v \<Longrightarrow> \<exists>i < length (candidates G p label). candidates G p label ! i = v"
  using candidates_facts(3) [of label] by (metis in_set_conv_nth mem_Collect_eq)

lemma ipath_walk:
  assumes "i < length (candidates G p label)" "ipath (frame_succ R label d) i hs j"
  shows "j < length (candidates G p label) \<and>
    route G p label d (candidates G p label ! i) (map (\<lambda>(e, k). (e, candidates G p label ! k)) hs) (candidates G p label ! j)"
  using assms
proof (induction hs arbitrary: i)
  case (Cons x hs)
  obtain e k where x: "x = (e, k)" by (cases x)
  have k: "k < length (candidates G p label)" "(e, candidates G p label ! k) \<in> hops_from G p d None (candidates G p label ! i)"
    "ipath (frame_succ R label d) k hs j"
    using Cons.prems frame_succ_mem(2) [of i label k e d] by (auto simp: x)
  then show ?case
    using Cons.IH [OF k(1,3)] Cons.prems(1) by (auto simp: x route_def scope_hops_mem scope_nth walk_end_def)
qed (simp add: route_def walk_end_def scope_nth)

lemma walk_ipath:
  assumes "i < length (candidates G p label)" "walk (scope_hops G p label d) (candidates G p label ! i) hs"
  shows "\<exists>ks j. ipath (frame_succ R label d) i ks j \<and> map fst ks = map fst hs \<and>
    j < length (candidates G p label) \<and> candidates G p label ! j = walk_end (candidates G p label ! i) hs"
  using assms
proof (induction hs arbitrary: i)
  case Nil
  then show ?case by (intro exI [of _ "[]"] exI [of _ i]) (simp add: walk_end_def)
next
  case (Cons x hs)
  obtain e v where x: "x = (e, v)" by (cases x)
  have v: "in_scope G p label v" "(e, v) \<in> hops_from G p d None (candidates G p label ! i)"
    "walk (scope_hops G p label d) v hs" using Cons.prems(2) by (simp_all add: x scope_hops_mem)
  obtain k where k: "k < length (candidates G p label)" "candidates G p label ! k = v" using nth_scope v(1) by blast
  obtain ks j where rest: "ipath (frame_succ R label d) k ks j" "map fst ks = map fst hs"
    "j < length (candidates G p label)" "candidates G p label ! j = walk_end v hs"
    using Cons.IH [OF k(1)] v(3) k(2) by auto
  then show ?case
    using frame_succ_mem(2) [OF Cons.prems(1), of k e d] k v(2)
    by (intro exI [of _ "(e, k) # ks"] exI [of _ j]) (auto simp: x walk_end_def)
qed

lemma shortest_path_run:
  "\<exists>r. shortest_path E R label src dst opts = Inr r \<and>
     (case r of
        None \<Rightarrow> \<forall>hs. route G p label (sp_dir opts) src hs dst \<longrightarrow>
          \<not> is_finite (path_cost (fe_nan64 E) (graph_weight G p (sp_weight opts)) (map fst hs))
      | Some pa \<Rightarrow> best_path (fe_nan64 E) G p label opts src dst pa)"
proof -
  let ?ns = "candidates G p label" and ?d = "sp_dir opts" and ?W = "graph_weight G p (sp_weight opts)"
  let ?succ = "frame_succ R label ?d" and ?cost = "\<lambda>hs. path_cost (fe_nan64 E) ?W (map fst hs)"
  obtain out where fr: "frame_build R label = Inr \<lparr>fr_nodes = ?ns, fr_out = out\<rparr>" and succ: "?succ = succ_lists ?d out"
    using frame_succ_run by blast
  have idx: "frame_index ?ns v = Some j \<longleftrightarrow> j < length ?ns \<and> ?ns ! j = v" for v j
    by (rule frame_index_iff) (rule candidates_facts)
  show ?thesis
  proof (cases "frame_index ?ns src = None \<or> frame_index ?ns dst = None")
    case True
    then have "\<not> in_scope G p label src \<or> \<not> in_scope G p label dst" using nth_scope idx by (metis option.distinct(1))
    moreover have "shortest_path E R label src dst opts = Inr None"
      using True by (auto simp: shortest_path_def fr split: option.splits)
    ultimately show ?thesis using route_scope by fastforce
  next
    case False
    then obtain s t where st: "frame_index ?ns src = Some s" "frame_index ?ns dst = Some t" by auto
    then have n: "s < length ?ns" "?ns ! s = src" "t < length ?ns" "?ns ! t = dst" using idx by auto
    obtain \<sigma> where run: "dijkstra_loop E R (sp_weight opts) ?succ t (sp_start (length ?ns) s) = Inr \<sigma>"
      and least: "\<And>hs. ipath ?succ s hs t \<Longrightarrow>
         (is_finite (?cost hs) \<longrightarrow> is_finite (ds_dist \<sigma> ! t)) \<and> fle (ds_dist \<sigma> ! t) (?cost hs)"
      and trace: "is_finite (ds_dist \<sigma> ! t) \<Longrightarrow> \<exists>hs. ipath ?succ s hs t \<and>
         trace_back (length ?ns) (ds_prev \<sigma>) t = Some (rev (s # map snd hs), rev (map fst hs)) \<and> ?cost hs = ds_dist \<sigma> ! t"
      using lists.search_run [of s label ?d t E "sp_weight opts"] n(1,3) by (auto simp: frame_succ_mem(1))
    have bound: "(is_finite (?cost hs) \<longrightarrow> is_finite (ds_dist \<sigma> ! t)) \<and> fle (ds_dist \<sigma> ! t) (?cost hs)"
      if r: "route G p label ?d src hs dst" for hs
    proof -
      obtain ks j where w: "ipath ?succ s ks j" "map fst ks = map fst hs" "j < length ?ns" "?ns ! j = dst"
        using walk_ipath [OF n(1), of ?d hs] r n(2) by (auto simp: route_def)
      then have "j = t" using n(3,4) candidates_facts(1) nth_eq_iff_index_eq by metis
      then show ?thesis using least [of ks] w by simp
    qed
    show ?thesis
    proof (cases "is_finite (ds_dist \<sigma> ! t)")
      case True
      obtain hs where hs: "ipath ?succ s hs t" "?cost hs = ds_dist \<sigma> ! t"
        "trace_back (length ?ns) (ds_prev \<sigma>) t = Some (rev (s # map snd hs), rev (map fst hs))" using trace [OF True] by blast
      let ?hs = "map (\<lambda>(e, k). (e, ?ns ! k)) hs"
      let ?pa = "\<lparr>pa_nodes = src # map snd ?hs, pa_edges = map fst ?hs, pa_cost = ds_dist \<sigma> ! t\<rparr>"
      have hs': "map fst ?hs = map fst hs" "map snd ?hs = map ((!) ?ns) (map snd hs)"
        by (simp_all add: split_def comp_def)
      have "route G p label ?d src ?hs dst" using ipath_walk [OF n(1) hs(1)] n by simp
      then have "best_path (fe_nan64 E) G p label opts src dst ?pa"
        using True hs(2) bound unfolding best_path_def by (intro exI [of _ ?hs]) (simp add: hs' del: map_map)
      moreover have "shortest_path E R label src dst opts = Inr (Some ?pa)"
        using True run hs(3) n(2) by (simp add: shortest_path_def fr st succ hs' rev_map del: map_map)
      ultimately show ?thesis by simp
    next
      case False
      then have "\<not> is_finite (?cost hs)" if "route G p label ?d src hs dst" for hs using bound [OF that] by blast
      moreover have "shortest_path E R label src dst opts = Inr None"
        using False run by (simp add: shortest_path_def fr st succ)
      ultimately show ?thesis by simp
    qed
  qed
qed

end

end
