(* ===== verification/Algo_Props.thy ===== *)
theory Algo_Props
  imports Algo_Routes
begin

text \<open>
  The properties of the graph algorithms over a stored graph read through the pass-through reader.
\<close>

section \<open>The example graph\<close>

lemma graph3_scope: "in_scope graph3 STARTUP None n \<longleftrightarrow> n = 1 \<or> n = 2"
  by (auto simp: in_scope_def demo_graph_defs)

lemma graph3_edges: "has_edge (ag_edge graph3) STARTUP e u v ty \<longleftrightarrow> e = 1 \<and> u = 1 \<and> v = 2 \<and> ty = knows"
  by (auto simp: has_edge_def demo_graph_defs)

lemma graph3_candidates: "candidates graph3 STARTUP None = [1, 2]"
proof -
  have "{n. in_scope graph3 STARTUP None n} = {1, 2}" by (auto simp: graph3_scope)
  then show ?thesis by (simp add: candidates_def)
qed

lemma graph3_class_min: "n = 1 \<or> n = 2 \<Longrightarrow> class_min graph3 STARTUP None n = 1"
proof -
  assume n: "n = 1 \<or> n = 2"
  have link: "(1, 2) \<in> scope_links graph3 STARTUP None" by (simp add: scope_links_def graph3_scope graph3_edges)
  then have "connected graph3 STARTUP None 1 2" "connected graph3 STARTUP None 2 1"
    by (auto simp: connected_def)
  then have "{v. in_scope graph3 STARTUP None v \<and> connected graph3 STARTUP None n v} = {1, 2}"
    using n by (auto simp: graph3_scope connected_def)
  then show ?thesis by (simp add: class_min_def)
qed

section \<open>Connected components\<close>

text \<open>
  C33: \<open>connected_components\<close> is exact: it lists every node in scope, in ascending order, with the smallest
  node it is connected to by edges between nodes in scope, whatever their directions, and the count it
  reports is the number of different components. The union-find structure with path halving and union by
  size, and the representatives read from it, never surface as anything else.
\<close>

theorem components_exact:
  assumes "kv_txn V valid view" "db_ok valid view pc G t"
  shows "connected_components (uncached_reader E V pc t p reg score) label =
    Inr (map (\<lambda>u. (u, class_min G p label u)) (candidates G p label),
         card (class_min G p label ` {n. in_scope G p label n}))"
  by (rule graph_reader.components_run [OF uncached_graph_reader [OF assms]])

theorem components_exact_witness:
  "\<forall>E reg score. connected_components (demo_reader E reg score) None = Inr ([(1, 1), (2, 1)], 1)"
proof (intro allI)
  fix E reg score
  have "class_min graph3 STARTUP None ` {n. in_scope graph3 STARTUP None n} = {1}"
    by (auto simp: graph3_scope graph3_class_min image_iff)
  then show "connected_components (demo_reader E reg score) None = Inr ([(1, 1), (2, 1)], 1)"
    using components_exact [OF demo_ctx(1,3), of E STARTUP reg score None]
    by (simp add: graph3_candidates graph3_class_min)
qed

section \<open>Shortest paths\<close>

text \<open>
  C34: \<open>shortest_path\<close> always answers, and the answer is right under the rounding of the machine's
  floating-point sums. A path it returns is a route of the stored graph from the source to the target in
  the chosen direction, all of whose nodes are in scope; its cost is the sum of the weights along it, from
  the source on, is finite, and is no greater than the sum along any other route. It returns no path
  exactly when no route of finite cost joins the two, which covers ends that are not in scope.
\<close>

theorem shortest_path_optimal:
  assumes "kv_txn V valid view" "db_ok valid view pc G t"
  shows "\<exists>r. shortest_path E (uncached_reader E V pc t p reg score) label src dst opts = Inr r \<and>
     (case r of
        None \<Rightarrow> \<forall>hs. route G p label (sp_dir opts) src hs dst \<longrightarrow>
          \<not> is_finite (path_cost (fe_nan64 E) (graph_weight G p (sp_weight opts)) (map fst hs))
      | Some pa \<Rightarrow> best_path (fe_nan64 E) G p label opts src dst pa)"
  by (rule graph_reader.shortest_path_run [OF uncached_graph_reader [OF assms]])

theorem shortest_path_optimal_witness:
  "\<forall>E reg score. \<exists>c. shortest_path E (demo_reader E reg score) None 1 2 sp_options_default =
     Inr (Some \<lparr>pa_nodes = [1, 2], pa_edges = [1], pa_cost = c\<rparr>) \<and> is_finite c"
proof (intro allI)
  fix E :: fenv and reg score
  have step: "route graph3 STARTUP None Out 1 hs 2 \<longleftrightarrow> hs = [(1, 2)]" for hs
  proof -
    have hop: "(e, v) \<in> scope_hops graph3 STARTUP None Out u \<longleftrightarrow> e = 1 \<and> u = 1 \<and> v = 2" for e u v
      by (auto simp: scope_hops_mem graph3_scope hops_dirs graph3_edges)
    show ?thesis
    proof (cases hs)
      case (Cons x hs')
      then show ?thesis by (cases x; cases hs') (auto simp: route_def hop walk_end_def graph3_scope)
    qed (simp add: route_def walk_end_def)
  qed
  have "is_finite (path_cost (fe_nan64 E) (graph_weight graph3 STARTUP None) [1])"
    using fmag_fadd(1) [OF cost_zero weight_one, of "fe_nan64 E"] weight_one
    by (simp add: path_cost_def graph_weight_def round_units weight_ok_def is_finite_def finf_def fprec_def)
  then obtain pa where "shortest_path E (demo_reader E reg score) None 1 2 sp_options_default = Inr (Some pa)"
    "best_path (fe_nan64 E) graph3 STARTUP None sp_options_default 1 2 pa"
    using shortest_path_optimal [OF demo_ctx(1,3), of E STARTUP reg score None 1 2 sp_options_default]
    by (auto simp: sp_options_default_def step split: option.splits)
  moreover from this(2) have "pa = \<lparr>pa_nodes = [1, 2], pa_edges = [1], pa_cost = pa_cost pa\<rparr>" "is_finite (pa_cost pa)"
    by (auto simp: best_path_def sp_options_default_def step intro!: path.equality)
  ultimately show "\<exists>c. shortest_path E (demo_reader E reg score) None 1 2 sp_options_default =
     Inr (Some \<lparr>pa_nodes = [1, 2], pa_edges = [1], pa_cost = c\<rparr>) \<and> is_finite c"
    by metis
qed

end
