(* ===== verification/Cache.thy ===== *)
theory Cache
  imports Reader
begin

text \<open>
  The cross-query cache (\<open>api/cache/store.rs\<close>) and the reader on top of it (\<open>CachedReader\<close> of
  \<open>api/cache/mod.rs\<close>): decoded records and adjacency lists stamped with the commit sequence they were read
  at, a generation that moves with every invalidation, and a per-query memo in front.

  The concurrent map \<open>moka\<close> is a third-party library and a parameter, with \<open>moka_ok\<close> for what it documents:
  it may forget any entry at any time, and otherwise returns what was inserted last.
\<close>

datatype cache_key =
    NodeKey plane_id u64
  | EdgeKey plane_id u64
  | AdjKey plane_id u64 dir "str option"

datatype payload =
    NodeP node_record
  | EdgeP edge_record
  | AdjP "neighbor list"

record stamped =
  st_seq :: u64
  st_payload :: payload

record 'c moka =
  mk_new :: "u64 \<Rightarrow> (stamped \<Rightarrow> u32) \<Rightarrow> 'c"
  mk_get :: "'c \<Rightarrow> cache_key \<Rightarrow> stamped option"
  mk_insert :: "'c \<Rightarrow> cache_key \<Rightarrow> stamped \<Rightarrow> 'c"
  mk_invalidate_all :: "'c \<Rightarrow> 'c"

definition moka_ok :: "'c moka \<Rightarrow> bool" where
  "moka_ok M \<longleftrightarrow>
     (\<forall>n w k. mk_get M (mk_new M n w) k = None) \<and>
     (\<forall>c k v k' v'. mk_get M (mk_insert M c k v) k' = Some v' \<longrightarrow>
        (if k' = k then v' = v else mk_get M c k' = Some v')) \<and>
     (\<forall>c k. mk_get M (mk_invalidate_all M c) k = None)"

section \<open>The shared cache\<close>

definition ENTRY_CAP_BYTES :: u32 where
  "ENTRY_CAP_BYTES = 4 * 1024 * 1024"

definition value_weight :: "prop_value \<Rightarrow> nat" where
  "value_weight v =
     (case v of
        PStr s \<Rightarrow> length s
      | PBytes b \<Rightarrow> length b
      | PVector v \<Rightarrow> length v * 4
      | PList l \<Rightarrow> length l * 8
      | _ \<Rightarrow> 8)"

definition props_weight :: "props \<Rightarrow> nat" where
  "props_weight p =
     sum_list (map (\<lambda>(k, d). length k + value_weight (pd_value d) +
       (case pd_description d of None \<Rightarrow> 0 | Some s \<Rightarrow> length s) + 32) p)"

definition stamped_weight :: "stamped \<Rightarrow> u32" where
  "stamped_weight v =
     (let body = (case st_payload v of
          NodeP n \<Rightarrow> 64 + sum_list (map (\<lambda>l. length l + 16) (nr_labels n)) + props_weight (nr_properties n)
        | EdgeP e \<Rightarrow> 64 + length (er_ty e) + props_weight (er_properties e)
        | AdjP a \<Rightarrow> 16 + length a * 16)
      in of_nat (min body (2 ^ 32 - 1)))"

record 'c graph_cache =
  gc_cache :: 'c
  gc_entry_cap :: u32
  gc_generation :: u64

definition GraphCache_new :: "'c moka \<Rightarrow> u64 \<Rightarrow> 'c graph_cache" where
  "GraphCache_new M max_bytes =
     \<lparr>gc_cache = mk_new M max_bytes stamped_weight,
      gc_entry_cap = min ENTRY_CAP_BYTES (of_nat (min (max (unat max_bytes div 16) 1) (2 ^ 32 - 1))),
      gc_generation = 0\<rparr>"

text \<open>
  \<open>insert\<close> loads the generation, compares, and inserts: two accesses to shared state with a test between.
\<close>

definition gc_admits :: "'c graph_cache \<Rightarrow> u64 \<Rightarrow> stamped \<Rightarrow> bool" where
  "gc_admits gc generation v \<longleftrightarrow> stamped_weight v \<le> gc_entry_cap gc \<and> generation = gc_generation gc"

definition gc_store :: "'c moka \<Rightarrow> cache_key \<Rightarrow> stamped \<Rightarrow> 'c graph_cache \<Rightarrow> 'c graph_cache" where
  "gc_store M k v gc = gc\<lparr>gc_cache := mk_insert M (gc_cache gc) k v\<rparr>"

definition gc_insert :: "'c moka \<Rightarrow> u64 \<Rightarrow> cache_key \<Rightarrow> stamped \<Rightarrow> 'c graph_cache \<Rightarrow> 'c graph_cache" where
  "gc_insert M generation k v gc = (if gc_admits gc generation v then gc_store M k v gc else gc)"

text \<open>\<open>invalidate_all\<close> moves the generation first, then drops every entry.\<close>

definition gc_bump :: "'c graph_cache \<Rightarrow> 'c graph_cache" where
  "gc_bump gc = gc\<lparr>gc_generation := gc_generation gc + 1\<rparr>"

definition gc_clear :: "'c moka \<Rightarrow> 'c graph_cache \<Rightarrow> 'c graph_cache" where
  "gc_clear M gc = gc\<lparr>gc_cache := mk_invalidate_all M (gc_cache gc)\<rparr>"

definition invalidate_all :: "'c moka \<Rightarrow> 'c graph_cache \<Rightarrow> 'c graph_cache" where
  "invalidate_all M gc = gc_clear M (gc_bump gc)"

definition gc_node :: "'c moka \<Rightarrow> 'c graph_cache \<Rightarrow> plane_id \<Rightarrow> u64 \<Rightarrow> u64 \<Rightarrow> node_record option" where
  "gc_node M gc plane i seq =
     (case mk_get M (gc_cache gc) (NodeKey plane i) of
        Some s \<Rightarrow> (case st_payload s of NodeP n \<Rightarrow> if st_seq s = seq then Some n else None | _ \<Rightarrow> None)
      | None \<Rightarrow> None)"

definition gc_edge :: "'c moka \<Rightarrow> 'c graph_cache \<Rightarrow> plane_id \<Rightarrow> u64 \<Rightarrow> u64 \<Rightarrow> edge_record option" where
  "gc_edge M gc plane i seq =
     (case mk_get M (gc_cache gc) (EdgeKey plane i) of
        Some s \<Rightarrow> (case st_payload s of EdgeP e \<Rightarrow> if st_seq s = seq then Some e else None | _ \<Rightarrow> None)
      | None \<Rightarrow> None)"

definition gc_adj ::
    "'c moka \<Rightarrow> 'c graph_cache \<Rightarrow> plane_id \<Rightarrow> u64 \<Rightarrow> dir \<Rightarrow> str option \<Rightarrow> u64 \<Rightarrow> neighbor list option" where
  "gc_adj M gc plane i d ty seq =
     (case mk_get M (gc_cache gc) (AdjKey plane i d ty) of
        Some s \<Rightarrow> (case st_payload s of AdjP a \<Rightarrow> if st_seq s = seq then Some a else None | _ \<Rightarrow> None)
      | None \<Rightarrow> None)"

section \<open>The memoizing reader\<close>

record l2_view =
  l2_seq :: u64
  l2_generation :: u64

record keyword_registry =
  kr_search :: "plane_id \<Rightarrow> str \<Rightarrow> str \<Rightarrow> str \<Rightarrow> nat \<Rightarrow> (node_id \<times> f32) list option"
  kr_declared :: "plane_id \<Rightarrow> (str \<times> str \<times> language) list"

record creader =
  cr_plane :: plane_id
  cr_registry :: "registry option"
  cr_keywords :: "keyword_registry option"
  cr_l2 :: "l2_view option"
  cr_historical :: bool
  cr_nodes :: "node_id \<rightharpoonup> node_record option"
  cr_edges :: "edge_id \<rightharpoonup> edge_record option"
  cr_adjacency :: "node_id \<times> dir \<times> str option \<rightharpoonup> neighbor list"

definition cr_build :: "plane_id \<Rightarrow> registry option \<Rightarrow> l2_view option \<Rightarrow> creader" where
  "cr_build plane registry lv =
     \<lparr>cr_plane = plane, cr_registry = registry, cr_keywords = None, cr_l2 = lv, cr_historical = False,
      cr_nodes = Map.empty, cr_edges = Map.empty, cr_adjacency = Map.empty\<rparr>"

definition with_cache :: "plane_id \<Rightarrow> registry \<Rightarrow> u64 \<Rightarrow> u64 \<Rightarrow> creader" where
  "with_cache plane registry seq generation =
     cr_build plane (Some registry) (Some \<lparr>l2_seq = seq, l2_generation = generation\<rparr>)"

definition with_cache_historical :: "plane_id \<Rightarrow> u64 \<Rightarrow> u64 \<Rightarrow> creader" where
  "with_cache_historical plane seq generation =
     (cr_build plane None (Some \<lparr>l2_seq = seq, l2_generation = generation\<rparr>))\<lparr>cr_historical := True\<rparr>"

definition with_keywords :: "keyword_registry \<Rightarrow> creader \<Rightarrow> creader" where
  "with_keywords keywords r = r\<lparr>cr_keywords := Some keywords\<rparr>"

text \<open>\<open>PlaneHandle::with_reader\<close> of \<open>api/mod.rs\<close>: the reader for a snapshot, given the generation captured before.\<close>

definition open_reader ::
    "'t vtable \<Rightarrow> plane_id \<Rightarrow> registry \<Rightarrow> keyword_registry \<Rightarrow> bool \<Rightarrow> u64 \<Rightarrow> 't \<Rightarrow> creader res" where
  "open_reader V plane registry keywords historical generation t =
     res_bind (read_commit_seq V t) (\<lambda>seq.
     Inr (with_keywords keywords
       (if historical then with_cache_historical plane seq generation
        else with_cache plane registry seq generation)))"

text \<open>
  A cached read in its accesses to shared state: the probe looks in the memo, then in the shared cache,
  then reads storage and says what to insert; the insertion follows.
\<close>

type_synonym cache_put = "(cache_key \<times> stamped) option"

definition put_of :: "l2_view option \<Rightarrow> cache_key \<Rightarrow> payload option \<Rightarrow> cache_put" where
  "put_of lv k p =
     (case (lv, p) of (Some l, Some p) \<Rightarrow> Some (k, \<lparr>st_seq = l2_seq l, st_payload = p\<rparr>) | _ \<Rightarrow> None)"

definition cr_node_probe ::
    "'c moka \<Rightarrow> 't vtable \<Rightarrow> postcard \<Rightarrow> 't \<Rightarrow> 'c graph_cache \<Rightarrow> node_id \<Rightarrow> creader \<Rightarrow>
     node_record option res \<times> creader \<times> cache_put" where
  "cr_node_probe M V pc t gc i r =
     (case cr_nodes r i of
        Some v \<Rightarrow> (Inr v, r, None)
      | None \<Rightarrow>
          (case Option.bind (cr_l2 r) (\<lambda>l. gc_node M gc (cr_plane r) i (l2_seq l)) of
             Some n \<Rightarrow> (Inr (Some n), r\<lparr>cr_nodes := (cr_nodes r)(i \<mapsto> Some n)\<rparr>, None)
           | None \<Rightarrow>
               (case get_node V pc t (cr_plane r) i of
                  Inl e \<Rightarrow> (Inl e, r, None)
                | Inr v \<Rightarrow>
                    (Inr v, r\<lparr>cr_nodes := (cr_nodes r)(i \<mapsto> v)\<rparr>,
                     put_of (cr_l2 r) (NodeKey (cr_plane r) i) (map_option NodeP v)))))"

definition cr_edge_probe ::
    "'c moka \<Rightarrow> 't vtable \<Rightarrow> postcard \<Rightarrow> 't \<Rightarrow> 'c graph_cache \<Rightarrow> edge_id \<Rightarrow> creader \<Rightarrow>
     edge_record option res \<times> creader \<times> cache_put" where
  "cr_edge_probe M V pc t gc i r =
     (case cr_edges r i of
        Some v \<Rightarrow> (Inr v, r, None)
      | None \<Rightarrow>
          (case Option.bind (cr_l2 r) (\<lambda>l. gc_edge M gc (cr_plane r) i (l2_seq l)) of
             Some n \<Rightarrow> (Inr (Some n), r\<lparr>cr_edges := (cr_edges r)(i \<mapsto> Some n)\<rparr>, None)
           | None \<Rightarrow>
               (case get_edge V pc t (cr_plane r) i of
                  Inl e \<Rightarrow> (Inl e, r, None)
                | Inr v \<Rightarrow>
                    (Inr v, r\<lparr>cr_edges := (cr_edges r)(i \<mapsto> v)\<rparr>,
                     put_of (cr_l2 r) (EdgeKey (cr_plane r) i) (map_option EdgeP v)))))"

definition cr_neighbors_probe ::
    "'c moka \<Rightarrow> 't vtable \<Rightarrow> 't \<Rightarrow> 'c graph_cache \<Rightarrow> node_id \<Rightarrow> dir \<Rightarrow> str option \<Rightarrow> creader \<Rightarrow>
     neighbor list res \<times> creader \<times> cache_put" where
  "cr_neighbors_probe M V t gc i d ty r =
     (case cr_adjacency r (i, d, ty) of
        Some a \<Rightarrow> (Inr a, r, None)
      | None \<Rightarrow>
          (case Option.bind (cr_l2 r) (\<lambda>l. gc_adj M gc (cr_plane r) i d ty (l2_seq l)) of
             Some a \<Rightarrow> (Inr a, r\<lparr>cr_adjacency := (cr_adjacency r)((i, d, ty) \<mapsto> a)\<rparr>, None)
           | None \<Rightarrow>
               (case neighbors V t (cr_plane r) i d ty of
                  Inl e \<Rightarrow> (Inl e, r, None)
                | Inr a \<Rightarrow>
                    (Inr a, r\<lparr>cr_adjacency := (cr_adjacency r)((i, d, ty) \<mapsto> a)\<rparr>,
                     put_of (cr_l2 r) (AdjKey (cr_plane r) i d ty) (Some (AdjP a))))))"

definition put_apply :: "'c moka \<Rightarrow> l2_view option \<Rightarrow> cache_put \<Rightarrow> 'c graph_cache \<Rightarrow> 'c graph_cache" where
  "put_apply M lv put gc =
     (case (lv, put) of (Some l, Some (k, v)) \<Rightarrow> gc_insert M (l2_generation l) k v gc | _ \<Rightarrow> gc)"

definition cached_read ::
    "'c moka \<Rightarrow> ('c graph_cache \<Rightarrow> creader \<Rightarrow> 'a res \<times> creader \<times> cache_put) \<Rightarrow> (creader \<times> 'c graph_cache, 'a) act" where
  "cached_read M probe s =
     (case s of (r, gc) \<Rightarrow>
        case probe gc r of (res, r', put) \<Rightarrow> (res, (r', put_apply M (cr_l2 r) put gc)))"

definition cr_node ::
    "'c moka \<Rightarrow> 't vtable \<Rightarrow> postcard \<Rightarrow> 't \<Rightarrow> node_id \<Rightarrow> (creader \<times> 'c graph_cache, node_record option) act" where
  "cr_node M V pc t i = cached_read M (\<lambda>gc. cr_node_probe M V pc t gc i)"

definition cr_edge ::
    "'c moka \<Rightarrow> 't vtable \<Rightarrow> postcard \<Rightarrow> 't \<Rightarrow> edge_id \<Rightarrow> (creader \<times> 'c graph_cache, edge_record option) act" where
  "cr_edge M V pc t i = cached_read M (\<lambda>gc. cr_edge_probe M V pc t gc i)"

definition cr_neighbors ::
    "'c moka \<Rightarrow> 't vtable \<Rightarrow> 't \<Rightarrow> node_id \<Rightarrow> dir \<Rightarrow> str option \<Rightarrow> (creader \<times> 'c graph_cache, neighbor list) act" where
  "cr_neighbors M V t i d ty = cached_read M (\<lambda>gc. cr_neighbors_probe M V t gc i d ty)"

section \<open>Searches through the memoizing reader\<close>

text \<open>The searches of the trait read nodes one by one, so they thread the reader and the cache.\<close>

fun cr_brute_items ::
    "fenv \<Rightarrow> 'c moka \<Rightarrow> 't vtable \<Rightarrow> postcard \<Rightarrow> 't \<Rightarrow> str \<Rightarrow> f32 list \<Rightarrow> metric \<Rightarrow> node_id list \<Rightarrow>
     (creader \<times> 'c graph_cache, (u64 \<times> f32) list) act" where
  "cr_brute_items E M V pc t property query metric [] = ret []"
| "cr_brute_items E M V pc t property query metric (i # ids) =
     act_bind (cr_node M V pc t i) (\<lambda>found.
     act_bind (cr_brute_items E M V pc t property query metric ids) (\<lambda>items.
     ret (case Option.bind found (\<lambda>node. vector_of node property) of
            None \<Rightarrow> items
          | Some v \<Rightarrow>
              let d = metric_distance E metric query v in
              if is_finite d then (i, d) # items else items)))"

definition cr_brute_force ::
    "fenv \<Rightarrow> 'c moka \<Rightarrow> 't vtable \<Rightarrow> postcard \<Rightarrow> 't \<Rightarrow> plane_id \<Rightarrow> str option \<Rightarrow> str \<Rightarrow> f32 list \<Rightarrow> metric \<Rightarrow> nat \<Rightarrow>
     (creader \<times> 'c graph_cache, hit list) act" where
  "cr_brute_force E M V pc t plane label property query metric k =
     act_bind (reading (\<lambda>_. case label of Some l \<Rightarrow> scan_label V t plane l | None \<Rightarrow> scan_all V t plane)) (\<lambda>candidates.
     act_bind (cr_brute_items E M V pc t property query metric candidates) (\<lambda>items.
     reading (\<lambda>_. top_k E items k)))"

fun cr_visible_hits ::
    "'c moka \<Rightarrow> 't vtable \<Rightarrow> postcard \<Rightarrow> 't \<Rightarrow> 'h list \<Rightarrow> str option \<Rightarrow> ('h \<Rightarrow> node_id) \<Rightarrow>
     (creader \<times> 'c graph_cache, 'h list) act" where
  "cr_visible_hits M V pc t [] label id_of = ret []"
| "cr_visible_hits M V pc t (h # hs) label id_of =
     act_bind (cr_node M V pc t (id_of h)) (\<lambda>found.
     act_bind (cr_visible_hits M V pc t hs label id_of) (\<lambda>out.
     ret (if (case found of
                Some node \<Rightarrow> (case label of None \<Rightarrow> True | Some l \<Rightarrow> l \<in> set (nr_labels node))
              | None \<Rightarrow> False)
          then h # out else out)))"

definition cr_vector_search ::
    "fenv \<Rightarrow> 'c moka \<Rightarrow> 't vtable \<Rightarrow> postcard \<Rightarrow> 't \<Rightarrow> str option \<Rightarrow> str \<Rightarrow> f32 list \<Rightarrow> metric \<Rightarrow> nat \<Rightarrow>
     (creader \<times> 'c graph_cache, hit list) act" where
  "cr_vector_search E M V pc t label property query metric k s =
     (let r = fst s;
          brute = cr_brute_force E M V pc t (cr_plane r) label property query metric k in
      act_bind
        (case (cr_registry r, label) of
           (Some reg, Some l) \<Rightarrow>
             (case reg (cr_plane r) l property query metric k of
                Some result \<Rightarrow> reading (\<lambda>_. result)
              | None \<Rightarrow> brute)
         | _ \<Rightarrow> brute)
        (\<lambda>hits. cr_visible_hits M V pc t hits label hit_id) s)"

definition cr_keyword_search ::
    "'c moka \<Rightarrow> 't vtable \<Rightarrow> postcard \<Rightarrow> keyword_scan \<Rightarrow> 't \<Rightarrow> str \<Rightarrow> str \<Rightarrow> str \<Rightarrow> nat \<Rightarrow>
     (creader \<times> 'c graph_cache, (node_id \<times> f32) list) act" where
  "cr_keyword_search M V pc score t label property query k s =
     (let r = fst s in
      if cr_historical r then
        reading (\<lambda>_. snapshot_keyword_search V t score (cr_plane r)
          (map_option (\<lambda>kw. kr_declared kw (cr_plane r)) (cr_keywords r)) label property query k) s
      else
        let hits = (case Option.bind (cr_keywords r) (\<lambda>kw. kr_search kw (cr_plane r) label property query k) of
              Some hs \<Rightarrow> hs | None \<Rightarrow> []) in
        cr_visible_hits M V pc t hits (Some label) fst s)"

end
