(* ===== verification/Cache_Reads.thy ===== *)
theory Cache_Reads
  imports Cache
begin

text \<open>
  A memoizing reader whose memo and shared cache agree with its snapshot answers every read as the
  pass-through reader does, and stays in that state.
\<close>

section \<open>Agreement with a snapshot\<close>

fun holds :: "'t vtable \<Rightarrow> postcard \<Rightarrow> 't \<Rightarrow> cache_key \<Rightarrow> payload \<Rightarrow> bool" where
  "holds V pc t (NodeKey p i) (NodeP n) \<longleftrightarrow> get_node V pc t p i = Inr (Some n)"
| "holds V pc t (EdgeKey p i) (EdgeP e) \<longleftrightarrow> get_edge V pc t p i = Inr (Some e)"
| "holds V pc t (AdjKey p i d ty) (AdjP a) \<longleftrightarrow> neighbors V t p i d ty = Inr a"
| "holds V pc t _ _ \<longleftrightarrow> False"

definition memo_ok :: "'t vtable \<Rightarrow> postcard \<Rightarrow> 't \<Rightarrow> creader \<Rightarrow> bool" where
  "memo_ok V pc t r \<longleftrightarrow>
     (\<forall>i v. cr_nodes r i = Some v \<longrightarrow> get_node V pc t (cr_plane r) i = Inr v) \<and>
     (\<forall>i v. cr_edges r i = Some v \<longrightarrow> get_edge V pc t (cr_plane r) i = Inr v) \<and>
     (\<forall>i d ty a. cr_adjacency r (i, d, ty) = Some a \<longrightarrow> neighbors V t (cr_plane r) i d ty = Inr a)"

definition cache_fits :: "'c moka \<Rightarrow> 't vtable \<Rightarrow> postcard \<Rightarrow> 't \<Rightarrow> u64 \<Rightarrow> 'c graph_cache \<Rightarrow> bool" where
  "cache_fits M V pc t seq gc \<longleftrightarrow>
     (\<forall>k v. mk_get M (gc_cache gc) k = Some v \<longrightarrow> st_seq v = seq \<longrightarrow> holds V pc t k (st_payload v))"

definition reader_fits :: "'c moka \<Rightarrow> 't vtable \<Rightarrow> postcard \<Rightarrow> 't \<Rightarrow> creader \<Rightarrow> 'c graph_cache \<Rightarrow> bool" where
  "reader_fits M V pc t r gc \<longleftrightarrow>
     memo_ok V pc t r \<and> (\<forall>l. cr_l2 r = Some l \<longrightarrow> cache_fits M V pc t (l2_seq l) gc)"

text \<open>What reading leaves alone: everything of a reader but its memo.\<close>

definition cr_fixed :: "creader \<Rightarrow> plane_id \<times> registry option \<times> keyword_registry option \<times> l2_view option \<times> bool" where
  "cr_fixed r = (cr_plane r, cr_registry r, cr_keywords r, cr_l2 r, cr_historical r)"

text \<open>What a probe may ask to insert: a payload of this snapshot under the reader's stamp.\<close>

definition put_ok :: "'t vtable \<Rightarrow> postcard \<Rightarrow> 't \<Rightarrow> l2_view option \<Rightarrow> cache_put \<Rightarrow> bool" where
  "put_ok V pc t lv put \<longleftrightarrow>
     (\<forall>k v. put = Some (k, v) \<longrightarrow> (\<exists>l. lv = Some l \<and> st_seq v = l2_seq l \<and> holds V pc t k (st_payload v)))"

definition probe_ok ::
    "'t vtable \<Rightarrow> postcard \<Rightarrow> 't \<Rightarrow> creader \<Rightarrow> 'a res \<Rightarrow> 'a res \<times> creader \<times> cache_put \<Rightarrow> bool" where
  "probe_ok V pc t r truth out \<longleftrightarrow>
     (case out of (res, r', put) \<Rightarrow>
        res = truth \<and> memo_ok V pc t r' \<and> cr_fixed r' = cr_fixed r \<and> put_ok V pc t (cr_l2 r) put)"

lemma put_of_ok [simp]:
  "put_ok V pc t lv (put_of lv k p) \<longleftrightarrow> (lv \<noteq> None \<longrightarrow> (\<forall>x. p = Some x \<longrightarrow> holds V pc t k x))"
  by (auto simp: put_ok_def put_of_def split: option.splits)

lemma put_none [simp]: "put_ok V pc t lv None"
  by (simp add: put_ok_def)

section \<open>Single reads\<close>

lemma cache_hits:
  "gc_node M gc p i seq = Some n \<Longrightarrow> \<exists>v. mk_get M (gc_cache gc) (NodeKey p i) = Some v \<and> st_seq v = seq \<and> st_payload v = NodeP n"
  "gc_edge M gc p i seq = Some e \<Longrightarrow> \<exists>v. mk_get M (gc_cache gc) (EdgeKey p i) = Some v \<and> st_seq v = seq \<and> st_payload v = EdgeP e"
  "gc_adj M gc p i d ty seq = Some a \<Longrightarrow>
   \<exists>v. mk_get M (gc_cache gc) (AdjKey p i d ty) = Some v \<and> st_seq v = seq \<and> st_payload v = AdjP a"
  by (auto simp: gc_node_def gc_edge_def gc_adj_def split: option.splits payload.splits if_splits)

lemma fits_holds:
  assumes "reader_fits M V pc t r gc" "cr_l2 r = Some l"
    "\<exists>v. mk_get M (gc_cache gc) k = Some v \<and> st_seq v = l2_seq l \<and> st_payload v = x"
  shows "holds V pc t k x"
  using assms by (auto simp: reader_fits_def cache_fits_def)

lemma gc_node_holds:
  "reader_fits M V pc t r gc \<Longrightarrow> Option.bind (cr_l2 r) (\<lambda>l. gc_node M gc (cr_plane r) i (l2_seq l)) = Some n \<Longrightarrow>
   get_node V pc t (cr_plane r) i = Inr (Some n)"
  using fits_holds [where k = "NodeKey (cr_plane r) i" and x = "NodeP n", OF _ _ cache_hits(1)] by (auto simp: bind_eq_Some_conv)

lemma gc_edge_holds:
  "reader_fits M V pc t r gc \<Longrightarrow> Option.bind (cr_l2 r) (\<lambda>l. gc_edge M gc (cr_plane r) i (l2_seq l)) = Some e \<Longrightarrow>
   get_edge V pc t (cr_plane r) i = Inr (Some e)"
  using fits_holds [where k = "EdgeKey (cr_plane r) i" and x = "EdgeP e", OF _ _ cache_hits(2)] by (auto simp: bind_eq_Some_conv)

lemma gc_adj_holds:
  "reader_fits M V pc t r gc \<Longrightarrow> Option.bind (cr_l2 r) (\<lambda>l. gc_adj M gc (cr_plane r) i d ty (l2_seq l)) = Some a \<Longrightarrow>
   neighbors V t (cr_plane r) i d ty = Inr a"
  using fits_holds [where k = "AdjKey (cr_plane r) i d ty" and x = "AdjP a", OF _ _ cache_hits(3)] by (auto simp: bind_eq_Some_conv)

lemma memo_ok_upd:
  "memo_ok V pc t r \<Longrightarrow> get_node V pc t (cr_plane r) i = Inr v \<Longrightarrow> memo_ok V pc t (r\<lparr>cr_nodes := (cr_nodes r)(i \<mapsto> v)\<rparr>)"
  "memo_ok V pc t r \<Longrightarrow> get_edge V pc t (cr_plane r) i = Inr w \<Longrightarrow> memo_ok V pc t (r\<lparr>cr_edges := (cr_edges r)(i \<mapsto> w)\<rparr>)"
  "memo_ok V pc t r \<Longrightarrow> neighbors V t (cr_plane r) i d ty = Inr a \<Longrightarrow>
   memo_ok V pc t (r\<lparr>cr_adjacency := (cr_adjacency r)((i, d, ty) \<mapsto> a)\<rparr>)"
  by (simp_all add: memo_ok_def)

lemma node_probe_ok:
  assumes fits: "reader_fits M V pc t r gc"
  shows "probe_ok V pc t r (get_node V pc t (cr_plane r) i) (cr_node_probe M V pc t gc i r)"
proof -
  have memo: "memo_ok V pc t r" using fits by (simp add: reader_fits_def)
  then have "cr_nodes r i = Some v \<Longrightarrow> get_node V pc t (cr_plane r) i = Inr v" for v by (simp add: memo_ok_def)
  then show ?thesis
    using memo gc_node_holds [OF fits, of i] memo_ok_upd(1) [OF memo, of i]
    by (auto simp: probe_ok_def cr_node_probe_def cr_fixed_def split: option.splits sum.splits)
qed

lemma edge_probe_ok:
  assumes fits: "reader_fits M V pc t r gc"
  shows "probe_ok V pc t r (get_edge V pc t (cr_plane r) i) (cr_edge_probe M V pc t gc i r)"
proof -
  have memo: "memo_ok V pc t r" using fits by (simp add: reader_fits_def)
  then have "cr_edges r i = Some v \<Longrightarrow> get_edge V pc t (cr_plane r) i = Inr v" for v by (simp add: memo_ok_def)
  then show ?thesis
    using memo gc_edge_holds [OF fits, of i] memo_ok_upd(2) [OF memo, of i]
    by (auto simp: probe_ok_def cr_edge_probe_def cr_fixed_def split: option.splits sum.splits)
qed

lemma neighbors_probe_ok:
  assumes fits: "reader_fits M V pc t r gc"
  shows "probe_ok V pc t r (neighbors V t (cr_plane r) i d ty) (cr_neighbors_probe M V t gc i d ty r)"
proof -
  have memo: "memo_ok V pc t r" using fits by (simp add: reader_fits_def)
  then have "cr_adjacency r (i, d, ty) = Some a \<Longrightarrow> neighbors V t (cr_plane r) i d ty = Inr a" for a
    by (simp add: memo_ok_def)
  then show ?thesis
    using memo gc_adj_holds [OF fits, of i d ty] memo_ok_upd(3) [OF memo, of i d ty]
    by (auto simp: probe_ok_def cr_neighbors_probe_def cr_fixed_def split: option.splits sum.splits)
qed

lemma moka_laws:
  assumes "moka_ok M"
  shows "mk_get M (mk_new M n w) k = None" "mk_get M (mk_invalidate_all M c) k = None"
    "mk_get M (mk_insert M c k v) k' = Some v' \<Longrightarrow> if k' = k then v' = v else mk_get M c k' = Some v'"
  using assms unfolding moka_ok_def by blast+

lemma store_get:
  assumes "moka_ok M" "mk_get M (gc_cache (gc_store M k v gc)) k' = Some v'"
  shows "(k' = k \<and> v' = v) \<or> mk_get M (gc_cache gc) k' = Some v'"
  using moka_laws(3) [OF assms(1), of "gc_cache gc" k v k' v'] assms(2) by (simp add: gc_store_def split: if_splits)

lemma store_fits:
  assumes "moka_ok M" "cache_fits M V pc t seq gc" "st_seq v = seq \<Longrightarrow> holds V pc t k (st_payload v)"
  shows "cache_fits M V pc t seq (gc_store M k v gc)"
  unfolding cache_fits_def
proof (intro allI impI)
  fix k' v'
  assume "mk_get M (gc_cache (gc_store M k v gc)) k' = Some v'" "st_seq v' = seq"
  then show "holds V pc t k' (st_payload v')"
    using store_get [OF assms(1)] assms(2,3) unfolding cache_fits_def by fastforce
qed

lemma put_apply_fits:
  assumes "moka_ok M" "cache_fits M V pc t (l2_seq l) gc" "cr_l2 r = Some l" "put_ok V pc t (cr_l2 r) put"
  shows "cache_fits M V pc t (l2_seq l) (put_apply M (cr_l2 r) put gc)"
proof (cases put)
  case None
  then show ?thesis using assms(2,3) by (simp add: put_apply_def)
next
  case (Some kv)
  obtain k v where kv: "kv = (k, v)" by (cases kv)
  have "holds V pc t k (st_payload v)" using assms(3,4) Some kv by (auto simp: put_ok_def)
  then have "cache_fits M V pc t (l2_seq l) (gc_store M k v gc)" by (intro store_fits assms(1,2))
  then show ?thesis using assms(2,3) Some kv by (simp add: put_apply_def gc_insert_def)
qed

section \<open>Whole operations\<close>

text \<open>An operation serves a result: it returns it and leaves the reader as good as it was.\<close>

definition serves ::
    "'c moka \<Rightarrow> 't vtable \<Rightarrow> postcard \<Rightarrow> 't \<Rightarrow> creader \<Rightarrow> (creader \<times> 'c graph_cache, 'a) act \<Rightarrow> 'a res \<Rightarrow> bool" where
  "serves M V pc t r0 act truth \<longleftrightarrow>
     (\<forall>r gc. cr_fixed r = cr_fixed r0 \<longrightarrow> reader_fits M V pc t r gc \<longrightarrow>
        (\<exists>r' gc'. act (r, gc) = (truth, (r', gc')) \<and> cr_fixed r' = cr_fixed r0 \<and> reader_fits M V pc t r' gc'))"

lemma serves_read:
  assumes M: "moka_ok M"
    and probe: "\<And>r gc. cr_fixed r = cr_fixed r0 \<Longrightarrow> reader_fits M V pc t r gc \<Longrightarrow> probe_ok V pc t r truth (probe gc r)"
  shows "serves M V pc t r0 (cached_read M probe) truth"
  unfolding serves_def
proof (intro allI impI)
  fix r gc
  assume r: "cr_fixed r = cr_fixed r0" "reader_fits M V pc t r gc"
  obtain res r' put where out: "probe gc r = (res, r', put)" by (cases "probe gc r")
  have ok: "res = truth" "memo_ok V pc t r'" "cr_fixed r' = cr_fixed r" "put_ok V pc t (cr_l2 r) put"
    using probe [OF r] by (auto simp: probe_ok_def out)
  then have "reader_fits M V pc t r' (put_apply M (cr_l2 r) put gc)"
    using r(2) put_apply_fits [OF M _ _ ok(4)] unfolding reader_fits_def cr_fixed_def by simp
  then show "\<exists>r' gc'. cached_read M probe (r, gc) = (truth, (r', gc')) \<and> cr_fixed r' = cr_fixed r0 \<and> reader_fits M V pc t r' gc'"
    using ok r(1) by (simp add: cached_read_def out)
qed

lemma serves_ret: "serves M V pc t r0 (ret x) (Inr x)"
  by (auto simp: serves_def ret_def)

lemma serves_reading: "serves M V pc t r0 (reading (\<lambda>_. x)) x"
  by (auto simp: serves_def reading_def)

lemma serves_bind:
  assumes "serves M V pc t r0 a x" "\<And>y. serves M V pc t r0 (f y) (g y)"
  shows "serves M V pc t r0 (act_bind a f) (res_bind x g)"
  unfolding serves_def
proof (intro allI impI)
  fix r gc
  assume r: "cr_fixed r = cr_fixed r0" "reader_fits M V pc t r gc"
  obtain r' gc' where s: "a (r, gc) = (x, (r', gc'))" "cr_fixed r' = cr_fixed r0" "reader_fits M V pc t r' gc'"
    using assms(1) r unfolding serves_def by blast
  show "\<exists>r'' gc''. act_bind a f (r, gc) = (res_bind x g, (r'', gc'')) \<and> cr_fixed r'' = cr_fixed r0 \<and> reader_fits M V pc t r'' gc''"
    using s assms(2) unfolding serves_def act_bind_def by (cases x) auto
qed

lemma fixed_plane: "cr_fixed r = cr_fixed r0 \<Longrightarrow> cr_plane r = cr_plane r0"
  by (simp add: cr_fixed_def)

lemma serves_node: "moka_ok M \<Longrightarrow> serves M V pc t r0 (cr_node M V pc t i) (get_node V pc t (cr_plane r0) i)"
  unfolding cr_node_def by (erule serves_read) (metis node_probe_ok fixed_plane)

lemma serves_edge: "moka_ok M \<Longrightarrow> serves M V pc t r0 (cr_edge M V pc t i) (get_edge V pc t (cr_plane r0) i)"
  unfolding cr_edge_def by (erule serves_read) (metis edge_probe_ok fixed_plane)

lemma serves_neighbors:
  "moka_ok M \<Longrightarrow> serves M V pc t r0 (cr_neighbors M V t i d ty) (neighbors V t (cr_plane r0) i d ty)"
  unfolding cr_neighbors_def by (erule serves_read) (metis neighbors_probe_ok fixed_plane)

lemma base_reads:
  "rd_node (uncached_base V pc t p score) = get_node V pc t p"
  "rd_scan_all (uncached_base V pc t p score) = scan_all V t p"
  "rd_scan_label (uncached_base V pc t p score) = scan_label V t p"
  by (simp_all add: uncached_base_def)

lemma serves_brute_items:
  "moka_ok M \<Longrightarrow> serves M V pc t r0 (cr_brute_items E M V pc t property query metric ids)
     (brute_items E (uncached_base V pc t (cr_plane r0) score) property query metric ids)"
proof (induction ids)
  case (Cons i ids)
  show ?case
    unfolding cr_brute_items.simps brute_items.simps base_reads
    by (intro serves_bind serves_node serves_ret Cons)
qed (simp add: serves_ret)

lemma serves_visible_hits:
  "moka_ok M \<Longrightarrow> serves M V pc t r0 (cr_visible_hits M V pc t hs label id_of)
     (visible_hits (uncached_base V pc t (cr_plane r0) score) hs label id_of)"
proof (induction hs)
  case (Cons h hs)
  show ?case
    unfolding cr_visible_hits.simps visible_hits.simps base_reads
    by (intro serves_bind serves_node serves_ret Cons)
qed (simp add: serves_ret)

lemma serves_brute_force:
  "moka_ok M \<Longrightarrow> serves M V pc t r0 (cr_brute_force E M V pc t (cr_plane r0) label property query metric k)
     (brute_force_search E (uncached_base V pc t (cr_plane r0) score) label property query metric k)"
  unfolding cr_brute_force_def brute_force_search_def base_reads
  by (intro serves_bind serves_reading serves_brute_items)

lemma serves_vector_search:
  assumes M: "moka_ok M"
  shows "serves M V pc t r0 (cr_vector_search E M V pc t label property query metric k)
     (rd_vector_search (uncached_reader E V pc t (cr_plane r0) (cr_registry r0) score) label property query metric k)"
proof -
  let ?base = "uncached_base V pc t (cr_plane r0) score"
  let ?brute = "cr_brute_force E M V pc t (cr_plane r0) label property query metric k"
  let ?find = "case (cr_registry r0, label) of
      (Some reg, Some l) \<Rightarrow>
        (case reg (cr_plane r0) l property query metric k of Some result \<Rightarrow> reading (\<lambda>_. result) | None \<Rightarrow> ?brute)
    | _ \<Rightarrow> ?brute"
  have "serves M V pc t r0 ?find (indexed_or_brute E ?base (cr_registry r0) (cr_plane r0) label property query metric k)"
    unfolding indexed_or_brute_def using serves_brute_force [OF M]
    by (auto split: option.splits intro: serves_reading)
  then have "serves M V pc t r0 (act_bind ?find (\<lambda>hits. cr_visible_hits M V pc t hits label hit_id))
      (res_bind (indexed_or_brute E ?base (cr_registry r0) (cr_plane r0) label property query metric k)
        (\<lambda>hits. visible_hits ?base hits label hit_id))"
    by (intro serves_bind serves_visible_hits M)
  moreover have "cr_vector_search E M V pc t label property query metric k (r, gc) =
      act_bind ?find (\<lambda>hits. cr_visible_hits M V pc t hits label hit_id) (r, gc)" if "cr_fixed r = cr_fixed r0" for r gc
  proof -
    have eqs: "cr_plane r = cr_plane r0" "cr_registry r = cr_registry r0" using that by (simp_all add: cr_fixed_def)
    show ?thesis unfolding cr_vector_search_def Let_def fst_conv eqs ..
  qed
  ultimately show ?thesis
    unfolding serves_def by (simp add: uncached_reader_def Let_def)
qed

text \<open>
  Keyword search: a reader pinned to a past snapshot scores that snapshot; any other keeps those hits of the
  live registry that its snapshot can see.
\<close>

definition keyword_truth ::
    "'t vtable \<Rightarrow> postcard \<Rightarrow> keyword_scan \<Rightarrow> 't \<Rightarrow> creader \<Rightarrow> str \<Rightarrow> str \<Rightarrow> str \<Rightarrow> nat \<Rightarrow> (node_id \<times> f32) list res" where
  "keyword_truth V pc score t r label property query k =
     (if cr_historical r then
        snapshot_keyword_search V t score (cr_plane r)
          (map_option (\<lambda>kw. kr_declared kw (cr_plane r)) (cr_keywords r)) label property query k
      else visible_hits (uncached_base V pc t (cr_plane r) score)
        (case Option.bind (cr_keywords r) (\<lambda>kw. kr_search kw (cr_plane r) label property query k) of
           Some hs \<Rightarrow> hs | None \<Rightarrow> []) (Some label) fst)"

lemma serves_keyword_search:
  assumes M: "moka_ok M"
  shows "serves M V pc t r0 (cr_keyword_search M V pc score t label property query k)
     (keyword_truth V pc score t r0 label property query k)"
proof -
  have "cr_keyword_search M V pc score t label property query k (r, gc) =
      (if cr_historical r0 then reading (\<lambda>_. keyword_truth V pc score t r0 label property query k) (r, gc)
       else cr_visible_hits M V pc t
         (case Option.bind (cr_keywords r0) (\<lambda>kw. kr_search kw (cr_plane r0) label property query k) of
            Some hs \<Rightarrow> hs | None \<Rightarrow> []) (Some label) fst (r, gc))" if "cr_fixed r = cr_fixed r0" for r gc
    using that unfolding cr_fixed_def by (simp add: cr_keyword_search_def keyword_truth_def Let_def)
  then show ?thesis
    using serves_visible_hits [OF M] serves_reading unfolding serves_def
    by (cases "cr_historical r0") (simp_all add: keyword_truth_def)
qed

end
