(* ===== verification/Engine_Writes.thy ===== *)
theory Engine_Writes
  imports Cache_Reads Graph_Spec
begin

text \<open>
  How \<open>Database\<close> commits (\<open>api/mod.rs\<close>): \<open>Engine::with_write\<close> stamps every commit with the next commit
  sequence and the time, \<open>Engine::with_write_unstamped\<close> does not. Only the query history is written
  unstamped; it answers every read of the graph as before, which is why the cache may stay warm.
\<close>

section \<open>Running a write\<close>

text \<open>
  A write at the committed state \<open>t\<close>: what \<open>begin_write\<close> and \<open>commit\<close> report are the arguments \<open>begun\<close>
  and \<open>ended\<close> (the engine decides them). The transaction is dropped, and the committed state kept, when
  one of them or the body fails.
\<close>

definition run_write :: "unit res \<Rightarrow> unit res \<Rightarrow> ('t, 'a) act \<Rightarrow> ('t, 'a) act" where
  "run_write begun ended body t =
     (case begun of
        Inl e \<Rightarrow> (Inl e, t)
      | Inr _ \<Rightarrow>
          (case body t of
             (Inl e, _) \<Rightarrow> (Inl e, t)
           | (Inr out, t') \<Rightarrow> (case ended of Inl e \<Rightarrow> (Inl e, t) | Inr _ \<Rightarrow> (Inr out, t'))))"

definition with_write :: "'t vtable \<Rightarrow> unit res \<Rightarrow> unit res \<Rightarrow> i64 \<Rightarrow> ('t, 'a) act \<Rightarrow> ('t, 'a) act" where
  "with_write V begun ended now f =
     run_write begun ended
       (act_bind f (\<lambda>out.
        act_bind (bump_commit_seq V) (\<lambda>_.
        act_bind (write_commit_time V now) (\<lambda>_. ret out))))"

definition with_write_unstamped :: "unit res \<Rightarrow> unit res \<Rightarrow> ('t, 'a) act \<Rightarrow> ('t, 'a) act" where
  "with_write_unstamped begun ended f = run_write begun ended f"

text \<open>\<open>Database::record_query\<close>.\<close>

definition db_record_query ::
    "'t vtable \<Rightarrow> postcard \<Rightarrow> unit res \<Rightarrow> unit res \<Rightarrow> i64 \<Rightarrow> str \<Rightarrow> str \<Rightarrow> nat \<Rightarrow> ('t, u64) act" where
  "db_record_query V pc begun ended at plane query keep =
     with_write_unstamped begun ended (record_query V pc plane query at keep)"

section \<open>What the query history leaves alone\<close>

definition history_row :: "table_id \<Rightarrow> bytes \<Rightarrow> bool" where
  "history_row tb k \<longleftrightarrow> tb = Meta \<and> prefix HISTORY_PREFIX k"

text \<open>An operation that writes rows of the query history only.\<close>

definition spares_graph :: "('t \<Rightarrow> bool) \<Rightarrow> ('t \<Rightarrow> kv) \<Rightarrow> ('t, 'a) act \<Rightarrow> bool" where
  "spares_graph I vw a \<longleftrightarrow>
     (\<forall>t. I t \<longrightarrow> I (snd (a t)) \<and> (\<forall>tb k. history_row tb k \<or> vw (snd (a t)) tb k = vw t tb k))"

named_theorems spares_intros \<open>operations that write rows of the query history only\<close>

lemma spares_pure [spares_intros]: "spares_graph I vw (ret x)" "spares_graph I vw (reading f)"
  by (simp_all add: spares_graph_def)

lemma spares_bind [spares_intros]:
  "spares_graph I vw a \<Longrightarrow> (\<And>x. spares_graph I vw (f x)) \<Longrightarrow> spares_graph I vw (act_bind a f)"
  unfolding spares_graph_def act_bind_def by (fastforce split: prod.splits sum.splits)

lemma spares_iter [spares_intros]: "(\<And>x. spares_graph I vw (f x)) \<Longrightarrow> spares_graph I vw (act_iter f xs)"
  by (induction xs) (simp_all add: spares_intros)

lemma spares_if [spares_intros]:
  "spares_graph I vw a \<Longrightarrow> spares_graph I vw b \<Longrightarrow> spares_graph I vw (if c then a else b)"
  by simp

lemma spares_run [spares_intros]:
  "spares_graph I vw a \<Longrightarrow> spares_graph I vw (run_write begun ended a)"
  unfolding spares_graph_def run_write_def by (fastforce split: prod.splits sum.splits)

lemma history_rows: "history_row Meta (history_key i)"
  by (simp add: history_row_def history_key_def)

lemma graph_rows:
  "\<not> history_row Nodes k" "\<not> history_row Edges k" "\<not> history_row Meta META_COMMIT_SEQ"
  "\<not> history_row Meta (dict_label_rev_key i)" "\<not> history_row Meta (dict_edge_type_rev_key i)"
  "\<not> history_row Meta (dict_edge_type_key n)" "tb \<in> set (dir_tables d) \<Longrightarrow> \<not> history_row tb k"
  by (auto simp: history_row_def meta_key_defs) (cases d; auto)

context kv_txn begin

lemma spares_put [spares_intros]: "spares_graph inv view (v_put V Meta (history_key i) v)"
  by (auto simp: spares_graph_def tx_simps kv_apply history_rows)

lemma spares_delete [spares_intros]: "spares_graph inv view (v_delete V Meta (history_key i))"
  by (auto simp: spares_graph_def tx_simps kv_apply history_rows)

lemma record_query_spares: "spares_graph inv view (db_record_query V pc begun ended at plane query keep)"
  unfolding db_record_query_def with_write_unstamped_def record_query_def write_history_def Let_def
  by (intro spares_intros)

text \<open>Two states that differ in the query history only answer every read of the graph alike.\<close>

lemma reads_alike:
  assumes t: "inv t" "inv u" and same: "\<And>tb k. history_row tb k \<or> view u tb k = view t tb k"
  shows "read_commit_seq V u = read_commit_seq V t" "get_node V pc u p n = get_node V pc t p n"
    "get_edge V pc u p e = get_edge V pc t p e" "neighbors V u p n d ty = neighbors V t p n d ty"
proof -
  have row: "v_get V u tb k = v_get V t tb k" if "\<not> history_row tb k" for tb k
    using same [of tb k] that t by (simp add: tx_simps)
  show "read_commit_seq V u = read_commit_seq V t"
    by (simp add: read_commit_seq_def get_u64_def row graph_rows)
  have "resolve_label V u = resolve_label V t"
    by (simp add: fun_eq_iff resolve_label_def row graph_rows)
  then show "get_node V pc u p n = get_node V pc t p n"
    by (simp add: get_node_def row graph_rows)
  show "get_edge V pc u p e = get_edge V pc t p e"
    by (simp add: get_edge_def row graph_rows)
  have ty: "lookup_edge_type V u = lookup_edge_type V t"
    by (simp add: fun_eq_iff lookup_edge_type_def get_u32_def row graph_rows)
  have scan: "adj_scan V u q tb = adj_scan V t q tb" if "tb \<in> set (dir_tables d)" for q tb
  proof -
    have "scan1 V u tb q = scan1 V t tb q"
      using t same graph_rows(7) [OF that] by (intro scan1_cong) auto
    then show ?thesis using t by (simp add: adj_scan_def tx_simps)
  qed
  have nb: "res_map (adj_scan V u q) (dir_tables d) = res_map (adj_scan V t q) (dir_tables d)" for q
    using scan by (cases d) simp_all
  show "neighbors V u p n d ty = neighbors V t p n d ty"
    unfolding neighbors_def ty nb ..
qed

lemma record_query_reads:
  assumes "inv t" "db_record_query V pc0 begun ended at plane query keep t = (r, u)"
  shows "inv u" "read_commit_seq V u = read_commit_seq V t" "get_node V pc u p n = get_node V pc t p n"
    "get_edge V pc u p e = get_edge V pc t p e" "neighbors V u p n d ty = neighbors V t p n d ty"
proof -
  have s: "inv u" "history_row tb k \<or> view u tb k = view t tb k" for tb k
    using record_query_spares [of pc0 begun ended at plane query keep, unfolded spares_graph_def, rule_format, OF assms(1)]
      assms(2) by auto
  then show "inv u" by simp
  show "read_commit_seq V u = read_commit_seq V t" "get_node V pc u p n = get_node V pc t p n"
    "get_edge V pc u p e = get_edge V pc t p e" "neighbors V u p n d ty = neighbors V t p n d ty"
    using reads_alike [OF assms(1) s] by blast+
qed

text \<open>A stamped write moves the commit sequence by one, whatever its body wrote to the other rows.\<close>

lemma with_write_stamps:
  assumes "inv t" "with_write V begun ended now f t = (Inr out, u)" "read_commit_seq V t = Inr q"
    and f: "inv (snd (f t))" "read_commit_seq V (snd (f t)) = read_commit_seq V t"
  shows "inv u \<and> read_commit_seq V u = Inr (q + 1)"
proof -
  obtain t1 where t1: "f t = (Inr out, t1)"
    using assms(2) by (auto simp: with_write_def run_write_def act_bind_def split: sum.splits prod.splits)
  have key: "META_COMMIT_TIME \<noteq> META_COMMIT_SEQ" by (simp add: meta_key_defs)
  have "inv t1" "read_commit_seq V t1 = Inr q" using f t1 assms(3) by simp_all
  then show ?thesis
    using assms(2) t1 key
    by (auto simp: with_write_def run_write_def act_bind_def bump_commit_seq_def put_u64_def write_commit_time_def
        Let_def tx_simps read_commit_seq_def get_u64_def kv_apply map_transpose_def decode_u64_def split: sum.splits)
qed

end

end
