(* ===== verification/Cache_Runs.thy ===== *)
theory Cache_Runs
  imports Engine_Writes
begin

text \<open>
  Many readers, writers and the cache: an interleaving of the atomic accesses that \<open>with_reader\<close>, the
  three cached reads, local commits (stamped, and the unstamped ones of the query history), foreign commits
  (\<open>restore\<close>, \<open>apply_replicated\<close>) and \<open>invalidate_all\<close> make to shared state. A foreign commit lands a
  commit sequence of its own choosing and is followed by an invalidation; the code orders it after the
  commit and synchronises it with nothing else.
\<close>

section \<open>The system\<close>

datatype request =
    ReqNode node_id
  | ReqEdge edge_id
  | ReqNeighbors node_id dir "str option"

datatype response =
    RespNode "node_record option res"
  | RespEdge "edge_record option res"
  | RespNeighbors "neighbor list res"

definition probe :: "'c moka \<Rightarrow> 't vtable \<Rightarrow> postcard \<Rightarrow> 't \<Rightarrow> 'c graph_cache \<Rightarrow> request \<Rightarrow> creader \<Rightarrow>
    response \<times> creader \<times> cache_put" where
  "probe M V pc t gc q r =
     (case q of
        ReqNode i \<Rightarrow> (case cr_node_probe M V pc t gc i r of (x, r', put) \<Rightarrow> (RespNode x, r', put))
      | ReqEdge i \<Rightarrow> (case cr_edge_probe M V pc t gc i r of (x, r', put) \<Rightarrow> (RespEdge x, r', put))
      | ReqNeighbors i d ty \<Rightarrow>
          (case cr_neighbors_probe M V t gc i d ty r of (x, r', put) \<Rightarrow> (RespNeighbors x, r', put)))"

text \<open>What storage answers at a snapshot.\<close>

definition storage_answer :: "'t vtable \<Rightarrow> postcard \<Rightarrow> 't \<Rightarrow> plane_id \<Rightarrow> request \<Rightarrow> response" where
  "storage_answer V pc t p q =
     (case q of
        ReqNode i \<Rightarrow> RespNode (get_node V pc t p i)
      | ReqEdge i \<Rightarrow> RespEdge (get_edge V pc t p i)
      | ReqNeighbors i d ty \<Rightarrow> RespNeighbors (neighbors V t p i d ty))"

text \<open>
  A query: it has captured the generation, or it reads its snapshot. Between reads it may be about to test
  an insertion, or past the test and about to store. The last component counts the foreign commits that
  had landed when its snapshot was opened.
\<close>

datatype phase =
    Idle
  | Checking cache_key stamped
  | Storing cache_key stamped

datatype 't session =
    Captured u64
  | Reading 't creader phase nat

text \<open>
  The committed states, oldest first, the cache and the sessions; invalidations that have yet to move the
  generation and those that have yet to clear; how many foreign commits there were, and the position of the
  state that the last of them landed.
\<close>

record ('t, 'c) cdb =
  cd_states :: "'t list"
  cd_cache :: "'c graph_cache"
  cd_sessions :: "nat \<rightharpoonup> 't session"
  cd_landed :: nat
  cd_bumped :: nat
  cd_lands :: nat
  cd_era :: nat

datatype event =
    Capture nat
  | Open nat nat
  | Read nat request response
  | Check nat
  | Store nat
  | Close nat
  | Commit
  | Record
  | Land
  | Bump
  | Clear
  | Evict

definition cdb_start :: "'c moka \<Rightarrow> u64 \<Rightarrow> 't \<Rightarrow> ('t, 'c) cdb" where
  "cdb_start M max_bytes t =
     \<lparr>cd_states = [t], cd_cache = GraphCache_new M max_bytes, cd_sessions = Map.empty,
      cd_landed = 0, cd_bumped = 0, cd_lands = 0, cd_era = 0\<rparr>"

text \<open>
  The steps. \<open>Open\<close> takes any committed state, the latest or, for a time-travelling handle, a past one, and
  reads its commit sequence. A local commit is a run of \<open>with_write\<close>, which moves the sequence by one
  (\<open>with_write_step\<close> below), or records a query, which commits through \<open>with_write_unstamped\<close> and leaves it
  where it is. The two counters of 64 bits do not wrap around.
\<close>

inductive cdb_step :: "'c moka \<Rightarrow> 't vtable \<Rightarrow> postcard \<Rightarrow> ('t, 'c) cdb \<Rightarrow> event \<Rightarrow> ('t, 'c) cdb \<Rightarrow> bool"
  for M V pc where
  capture: "cd_sessions s i = None \<Longrightarrow>
     cdb_step M V pc s (Capture i) (s\<lparr>cd_sessions := (cd_sessions s)(i \<mapsto> Captured (gc_generation (cd_cache s)))\<rparr>)"
| opens: "cd_sessions s i = Some (Captured g) \<Longrightarrow> k < length (cd_states s) \<Longrightarrow> t = cd_states s ! k \<Longrightarrow>
     hist \<or> Suc k = length (cd_states s) \<Longrightarrow> open_reader V p reg kw hist g t = Inr r \<Longrightarrow>
     cdb_step M V pc s (Open i k) (s\<lparr>cd_sessions := (cd_sessions s)(i \<mapsto> Reading t r Idle (cd_lands s))\<rparr>)"
| reads: "cd_sessions s i = Some (Reading t r Idle n) \<Longrightarrow> probe M V pc t (cd_cache s) q r = (x, r', put) \<Longrightarrow>
     ph = (case put of None \<Rightarrow> Idle | Some (k, v) \<Rightarrow> Checking k v) \<Longrightarrow>
     cdb_step M V pc s (Read i q x) (s\<lparr>cd_sessions := (cd_sessions s)(i \<mapsto> Reading t r' ph n)\<rparr>)"
| check: "cd_sessions s i = Some (Reading t r (Checking k v) n) \<Longrightarrow> cr_l2 r = Some l \<Longrightarrow>
     ph = (if gc_admits (cd_cache s) (l2_generation l) v then Storing k v else Idle) \<Longrightarrow>
     cdb_step M V pc s (Check i) (s\<lparr>cd_sessions := (cd_sessions s)(i \<mapsto> Reading t r ph n)\<rparr>)"
| stores: "cd_sessions s i = Some (Reading t r (Storing k v) n) \<Longrightarrow>
     cdb_step M V pc s (Store i) (s\<lparr>cd_cache := gc_store M k v (cd_cache s),
        cd_sessions := (cd_sessions s)(i \<mapsto> Reading t r Idle n)\<rparr>)"
| close: "cdb_step M V pc s (Close i) (s\<lparr>cd_sessions := (cd_sessions s)(i := None)\<rparr>)"
| commit: "read_commit_seq V (last (cd_states s)) = Inr seq \<Longrightarrow> seq + 1 \<noteq> 0 \<Longrightarrow> read_commit_seq V t = Inr (seq + 1) \<Longrightarrow>
     cdb_step M V pc s Commit (s\<lparr>cd_states := cd_states s @ [t]\<rparr>)"
| records: "db_record_query V pc (Inr ()) (Inr ()) at plane query keep (last (cd_states s)) = (Inr qid, t) \<Longrightarrow>
     cdb_step M V pc s Record (s\<lparr>cd_states := cd_states s @ [t]\<rparr>)"
| land: "read_commit_seq V t = Inr seq \<Longrightarrow>
     cdb_step M V pc s Land (s\<lparr>cd_states := cd_states s @ [t], cd_landed := Suc (cd_landed s),
        cd_lands := Suc (cd_lands s), cd_era := length (cd_states s)\<rparr>)"
| bump: "cd_landed s = Suc a \<Longrightarrow> gc_generation (cd_cache s) + 1 \<noteq> 0 \<Longrightarrow>
     cdb_step M V pc s Bump (s\<lparr>cd_cache := gc_bump (cd_cache s), cd_landed := a, cd_bumped := Suc (cd_bumped s)\<rparr>)"
| clear: "cd_bumped s = Suc b \<Longrightarrow>
     cdb_step M V pc s Clear (s\<lparr>cd_cache := gc_clear M (cd_cache s), cd_bumped := b\<rparr>)"
| evict: "(\<And>k v. mk_get M c k = Some v \<Longrightarrow> mk_get M (gc_cache (cd_cache s)) k = Some v) \<Longrightarrow>
     cdb_step M V pc s Evict (s\<lparr>cd_cache := (cd_cache s)\<lparr>gc_cache := c\<rparr>\<rparr>)"

inductive cdb_run :: "'c moka \<Rightarrow> 't vtable \<Rightarrow> postcard \<Rightarrow> (('t, 'c) cdb \<Rightarrow> event \<Rightarrow> bool) \<Rightarrow>
    ('t, 'c) cdb \<Rightarrow> event list \<Rightarrow> ('t, 'c) cdb \<Rightarrow> bool"
  for M V pc allowed where
  run_nil: "cdb_run M V pc allowed s [] s"
| run_snoc: "cdb_run M V pc allowed s es s' \<Longrightarrow> allowed s' e \<Longrightarrow> cdb_step M V pc s' e s'' \<Longrightarrow>
     cdb_run M V pc allowed s (es @ [e]) s''"

text \<open>
  The discipline under which the cache is coherent: no query opens between a foreign commit and its
  invalidation, none travels to a state before the last foreign commit, and no insertion is past its test
  when the generation moves.
\<close>

definition quiet :: "('t, 'c) cdb \<Rightarrow> event \<Rightarrow> bool" where
  "quiet s e =
     (case e of
        Open i k \<Rightarrow> cd_landed s = 0 \<and> cd_bumped s = 0 \<and> cd_era s \<le> k
      | Bump \<Rightarrow> \<forall>i t r k v n. cd_sessions s i \<noteq> Some (Reading t r (Storing k v) n)
      | _ \<Rightarrow> True)"

section \<open>The invariant\<close>

definition era_states :: "('t, 'c) cdb \<Rightarrow> 't list" where
  "era_states s = drop (cd_era s) (cd_states s)"

definition seq_before :: "'t vtable \<Rightarrow> 't \<Rightarrow> 't \<Rightarrow> bool" where
  "seq_before V t u \<longleftrightarrow> (\<exists>a b. read_commit_seq V t = Inr a \<and> read_commit_seq V u = Inr b \<and> a < b)"

text \<open>
  Two states of one sequence that answer alike, as a recorded query leaves them; and the order of the
  states since the last foreign commit.
\<close>

definition same_answers :: "'t vtable \<Rightarrow> postcard \<Rightarrow> 't \<Rightarrow> 't \<Rightarrow> bool" where
  "same_answers V pc t u \<longleftrightarrow> read_commit_seq V t = read_commit_seq V u \<and>
     (\<forall>p q. storage_answer V pc t p q = storage_answer V pc u p q)"

definition seq_upto :: "'t vtable \<Rightarrow> postcard \<Rightarrow> 't \<Rightarrow> 't \<Rightarrow> bool" where
  "seq_upto V pc t u \<longleftrightarrow> seq_before V t u \<or> same_answers V pc t u"

definition entries_ok :: "'c moka \<Rightarrow> 't vtable \<Rightarrow> postcard \<Rightarrow> ('t, 'c) cdb \<Rightarrow> bool" where
  "entries_ok M V pc s \<longleftrightarrow>
     (\<forall>k v. mk_get M (gc_cache (cd_cache s)) k = Some v \<longrightarrow>
        (\<exists>t \<in> set (era_states s). read_commit_seq V t = Inr (st_seq v) \<and> holds V pc t k (st_payload v)))"

definition put_phase :: "phase \<Rightarrow> cache_put" where
  "put_phase ph = (case ph of Idle \<Rightarrow> None | Checking k v \<Rightarrow> Some (k, v) | Storing k v \<Rightarrow> Some (k, v))"

definition storing :: "phase \<Rightarrow> bool" where
  "storing ph = (case ph of Storing k v \<Rightarrow> True | _ \<Rightarrow> False)"

definition fresh_session :: "'t vtable \<Rightarrow> postcard \<Rightarrow> ('t, 'c) cdb \<Rightarrow> 't \<Rightarrow> creader \<Rightarrow> phase \<Rightarrow> bool" where
  "fresh_session V pc s t r ph \<longleftrightarrow>
     cd_landed s = 0 \<and> cd_bumped s = 0 \<and> t \<in> set (era_states s) \<and> memo_ok V pc t r \<and>
     (\<exists>l. cr_l2 r = Some l \<and> read_commit_seq V t = Inr (l2_seq l)) \<and> put_ok V pc t (cr_l2 r) (put_phase ph)"

definition stale_session :: "('t, 'c) cdb \<Rightarrow> creader \<Rightarrow> phase \<Rightarrow> bool" where
  "stale_session s r ph \<longleftrightarrow>
     (cd_landed s = 0 \<longrightarrow> \<not> storing ph \<and> (\<forall>l. cr_l2 r = Some l \<longrightarrow> l2_generation l < gc_generation (cd_cache s)))"

fun session_ok :: "'t vtable \<Rightarrow> postcard \<Rightarrow> ('t, 'c) cdb \<Rightarrow> 't session \<Rightarrow> bool" where
  "session_ok V pc s (Captured g) \<longleftrightarrow> g \<le> gc_generation (cd_cache s)"
| "session_ok V pc s (Reading t r ph n) \<longleftrightarrow>
     (\<forall>l. cr_l2 r = Some l \<longrightarrow> l2_generation l \<le> gc_generation (cd_cache s)) \<and> n \<le> cd_lands s \<and>
     (if n = cd_lands s then fresh_session V pc s t r ph else stale_session s r ph)"

definition cdb_ok :: "'c moka \<Rightarrow> 't vtable \<Rightarrow> postcard \<Rightarrow> ('t, 'c) cdb \<Rightarrow> bool" where
  "cdb_ok M V pc s \<longleftrightarrow>
     cd_era s < length (cd_states s) \<and> sorted_wrt (seq_upto V pc) (era_states s) \<and>
     (cd_landed s = 0 \<and> cd_bumped s = 0 \<longrightarrow> entries_ok M V pc s) \<and>
     (\<forall>i x. cd_sessions s i = Some x \<longrightarrow> session_ok V pc s x)"

section \<open>Reads of a session\<close>

lemma probe_fixed: "probe M V pc t gc q r = (x, r', put) \<Longrightarrow> cr_fixed r' = cr_fixed r"
  by (auto simp: probe_def cr_node_probe_def cr_edge_probe_def cr_neighbors_probe_def cr_fixed_def
      split: request.splits option.splits sum.splits)

lemma probe_run:
  assumes "reader_fits M V pc t r gc" "probe M V pc t gc q r = (x, r', put)"
  shows "x = storage_answer V pc t (cr_plane r) q \<and> memo_ok V pc t r' \<and> put_ok V pc t (cr_l2 r) put"
proof (cases q)
  case (ReqNode i)
  then show ?thesis
    using node_probe_ok [OF assms(1), of i] assms(2) by (auto simp: probe_def probe_ok_def storage_answer_def split: prod.splits)
next
  case (ReqEdge i)
  then show ?thesis
    using edge_probe_ok [OF assms(1), of i] assms(2) by (auto simp: probe_def probe_ok_def storage_answer_def split: prod.splits)
next
  case (ReqNeighbors i d ty)
  then show ?thesis
    using neighbors_probe_ok [OF assms(1), of i d ty] assms(2) by (auto simp: probe_def probe_ok_def storage_answer_def split: prod.splits)
qed

lemma same_answers_equiv:
  "same_answers V pc t t" "same_answers V pc t u \<Longrightarrow> same_answers V pc u t"
  by (simp_all add: same_answers_def)

lemma same_answers_holds: "same_answers V pc t u \<Longrightarrow> holds V pc t k x = holds V pc u k x"
proof -
  assume same: "same_answers V pc t u"
  have "storage_answer V pc t p q = storage_answer V pc u p q" for p q
    using same by (simp add: same_answers_def)
  from this [where q = "ReqNode i" for i] this [where q = "ReqEdge i" for i]
    this [where q = "ReqNeighbors i d ty" for i d ty]
  show ?thesis by (cases "(V, pc, t, k, x)" rule: holds.cases) (simp_all add: storage_answer_def)
qed

lemma era_unique:
  assumes "sorted_wrt (seq_upto V pc) ts" "t \<in> set ts" "u \<in> set ts"
    "read_commit_seq V t = Inr a" "read_commit_seq V u = Inr a"
  shows "same_answers V pc t u"
proof -
  obtain i j where ij: "i < length ts" "t = ts ! i" "j < length ts" "u = ts ! j" using assms(2,3) by (auto simp: in_set_conv_nth)
  have no: "same_answers V pc v w"
    if "seq_upto V pc v w" "read_commit_seq V v = Inr a" "read_commit_seq V w = Inr a" for v w
    using that by (auto simp: seq_before_def seq_upto_def)
  show ?thesis
  proof (cases i j rule: linorder_cases)
    case less
    then show ?thesis using sorted_wrt_nth_less [OF assms(1), of i j] ij no assms(4,5) by blast
  next
    case greater
    then show ?thesis
      using sorted_wrt_nth_less [OF assms(1), of j i] ij no assms(4,5) same_answers_equiv(2) by metis
  qed (use ij same_answers_equiv(1) in simp)
qed

lemma session_fits:
  assumes ok: "cdb_ok M V pc s" and x: "cd_sessions s i = Some (Reading t r ph n)" "n = cd_lands s"
  shows "reader_fits M V pc t r (cd_cache s)"
proof -
  have "session_ok V pc s (Reading t r ph n)" using ok x(1) unfolding cdb_ok_def by blast
  then have fr: "fresh_session V pc s t r ph" using x(2) by simp
  then have en: "entries_ok M V pc s" and so: "sorted_wrt (seq_upto V pc) (era_states s)"
    using ok by (auto simp: cdb_ok_def fresh_session_def)
  obtain l where l: "cr_l2 r = Some l" "read_commit_seq V t = Inr (l2_seq l)" "t \<in> set (era_states s)" "memo_ok V pc t r"
    using fr by (auto simp: fresh_session_def)
  have "cache_fits M V pc t (l2_seq l) (cd_cache s)"
    unfolding cache_fits_def
  proof (intro allI impI)
    fix k v
    assume "mk_get M (gc_cache (cd_cache s)) k = Some v" "st_seq v = l2_seq l"
    then obtain u where "u \<in> set (era_states s)" "read_commit_seq V u = Inr (l2_seq l)" "holds V pc u k (st_payload v)"
      using en unfolding entries_ok_def by fastforce
    then show "holds V pc t k (st_payload v)" using era_unique [OF so] l same_answers_holds by metis
  qed
  then show ?thesis using l by (simp add: reader_fits_def)
qed


section \<open>Every step keeps the invariant\<close>

lemma cdb_okD:
  assumes "cdb_ok M V pc s"
  shows "cd_era s < length (cd_states s)" "sorted_wrt (seq_upto V pc) (era_states s)"
    "cd_landed s = 0 \<Longrightarrow> cd_bumped s = 0 \<Longrightarrow> entries_ok M V pc s" "cd_sessions s i = Some x \<Longrightarrow> session_ok V pc s x"
  using assms by (auto simp: cdb_ok_def)

text \<open>A step of one session that leaves the cache alone.\<close>

lemma ok_session:
  assumes ok: "cdb_ok M V pc s" and x: "session_ok V pc s x"
  shows "cdb_ok M V pc (s\<lparr>cd_sessions := (cd_sessions s)(i \<mapsto> x)\<rparr>)"
proof -
  let ?s = "s\<lparr>cd_sessions := (cd_sessions s)(i \<mapsto> x)\<rparr>"
  have same: "session_ok V pc ?s y = session_ok V pc s y" for y
    by (cases y) (simp_all add: fresh_session_def stale_session_def era_states_def)
  show ?thesis using cdb_okD [OF ok] x same by (auto simp: cdb_ok_def entries_ok_def era_states_def)
qed

lemma ok_close: "cdb_ok M V pc s \<Longrightarrow> cdb_ok M V pc (s\<lparr>cd_sessions := (cd_sessions s)(i := None)\<rparr>)"
proof -
  let ?s = "s\<lparr>cd_sessions := (cd_sessions s)(i := None)\<rparr>"
  assume ok: "cdb_ok M V pc s"
  have same: "session_ok V pc ?s y = session_ok V pc s y" for y
    by (cases y) (simp_all add: fresh_session_def stale_session_def era_states_def)
  show ?thesis using cdb_okD [OF ok] same by (auto simp: cdb_ok_def entries_ok_def era_states_def split: if_splits)
qed

lemma open_session:
  assumes "cd_landed s = 0" "cd_bumped s = 0" "cd_era s \<le> k" "k < length (cd_states s)"
    and r: "open_reader V p reg kw hist g (cd_states s ! k) = Inr r" and g: "g \<le> gc_generation (cd_cache s)"
  shows "session_ok V pc s (Reading (cd_states s ! k) r Idle (cd_lands s))"
proof -
  have "cd_states s ! k \<in> set (era_states s)"
    using assms(3,4) nth_mem [of "k - cd_era s" "era_states s"] by (simp add: era_states_def)
  moreover have "memo_ok V pc (cd_states s ! k) r" "\<exists>l. cr_l2 r = Some l \<and> read_commit_seq V (cd_states s ! k) = Inr (l2_seq l) \<and> l2_generation l = g"
    using r by (auto simp: open_reader_def res_bind_eq_Inr with_keywords_def with_cache_def with_cache_historical_def
        cr_build_def memo_ok_def split: if_splits)
  ultimately show ?thesis using assms(1,2) g by (auto simp: fresh_session_def put_phase_def)
qed

lemma read_session:
  assumes ok: "cdb_ok M V pc s" and x: "cd_sessions s i = Some (Reading t r Idle n)"
    and p: "probe M V pc t (cd_cache s) q r = (x, r', put)"
  shows "session_ok V pc s (Reading t r' (case put of None \<Rightarrow> Idle | Some (k, v) \<Rightarrow> Checking k v) n)"
proof -
  let ?ph = "case put of None \<Rightarrow> Idle | Some (k, v) \<Rightarrow> Checking k v"
  have ph: "put_phase ?ph = put" "\<not> storing ?ph" by (auto simp: put_phase_def storing_def split: option.splits)
  have l2: "cr_l2 r' = cr_l2 r" using probe_fixed [OF p] by (simp add: cr_fixed_def)
  have so: "session_ok V pc s (Reading t r Idle n)" by (rule cdb_okD(4) [OF ok x])
  show ?thesis
  proof (cases "n = cd_lands s")
    case True
    then show ?thesis
      using so probe_run [OF session_fits [OF ok x True] p] by (simp add: l2 fresh_session_def ph)
  next
    case False
    then show ?thesis using so by (simp add: l2 stale_session_def ph)
  qed
qed

lemma check_session:
  assumes "session_ok V pc s (Reading t r (Checking k v) n)" "cr_l2 r = Some l"
  shows "session_ok V pc s (Reading t r (if gc_admits (cd_cache s) (l2_generation l) v then Storing k v else Idle) n)"
  using assms by (auto simp: fresh_session_def stale_session_def put_phase_def storing_def gc_admits_def)


lemma word_succ_less: "(w :: u64) + 1 \<noteq> 0 \<Longrightarrow> w < w + 1"
  by (simp add: word_less_nat_alt unatSuc [of w] add.commute)

lemma seq_upto_trans: "seq_upto V pc t u \<Longrightarrow> seq_upto V pc u v \<Longrightarrow> seq_upto V pc t v"
  unfolding seq_upto_def seq_before_def same_answers_def by fastforce

lemma ok_store:
  assumes M: "moka_ok M" and ok: "cdb_ok M V pc s" and x: "cd_sessions s i = Some (Reading t r (Storing k v) n)"
  shows "cdb_ok M V pc (s\<lparr>cd_cache := gc_store M k v (cd_cache s), cd_sessions := (cd_sessions s)(i \<mapsto> Reading t r Idle n)\<rparr>)"
    (is "cdb_ok M V pc ?s")
proof -
  have same: "session_ok V pc ?s y = session_ok V pc s y" for y
    by (cases y) (simp_all add: fresh_session_def stale_session_def era_states_def gc_store_def)
  have so: "session_ok V pc s (Reading t r (Storing k v) n)" by (rule cdb_okD(4) [OF ok x])
  then have "session_ok V pc s (Reading t r Idle n)"
    by (auto simp: fresh_session_def stale_session_def put_phase_def storing_def)
  moreover have "entries_ok M V pc ?s" if quiet: "cd_landed s = 0" "cd_bumped s = 0"
  proof -
    have "n = cd_lands s" using so quiet by (auto simp: stale_session_def storing_def split: if_splits)
    then obtain l where l: "t \<in> set (era_states s)" "cr_l2 r = Some l" "read_commit_seq V t = Inr (l2_seq l)"
      "st_seq v = l2_seq l" "holds V pc t k (st_payload v)"
      using so by (auto simp: fresh_session_def put_ok_def put_phase_def)
    show ?thesis
      unfolding entries_ok_def
    proof (intro allI impI)
      fix k' v'
      assume "mk_get M (gc_cache (cd_cache ?s)) k' = Some v'"
      then have "(k' = k \<and> v' = v) \<or> mk_get M (gc_cache (cd_cache s)) k' = Some v'" using store_get [OF M] by simp
      then show "\<exists>t \<in> set (era_states ?s). read_commit_seq V t = Inr (st_seq v') \<and> holds V pc t k' (st_payload v')"
        using l cdb_okD(3) [OF ok quiet] by (auto simp: entries_ok_def era_states_def)
    qed
  qed
  ultimately show ?thesis
    using cdb_okD [OF ok] same by (auto simp: cdb_ok_def era_states_def)
qed

text \<open>A local commit, stamped or not, adds a state that comes after the last one.\<close>

lemma ok_append:
  assumes ok: "cdb_ok M V pc s" and nxt: "seq_upto V pc (last (cd_states s)) t"
  shows "cdb_ok M V pc (s\<lparr>cd_states := cd_states s @ [t]\<rparr>)" (is "cdb_ok M V pc ?s")
proof -
  have era: "era_states ?s = era_states s @ [t]" using cdb_okD(1) [OF ok] by (simp add: era_states_def)
  have same: "session_ok V pc s y \<Longrightarrow> session_ok V pc ?s y" for y
    by (cases y) (auto simp: fresh_session_def stale_session_def era)
  have last: "last (era_states s) = last (cd_states s)" "era_states s \<noteq> []"
    using cdb_okD(1) [OF ok] by (simp_all add: era_states_def last_drop)
  have "seq_upto V pc u t" if u: "u \<in> set (era_states s)" for u
  proof -
    obtain us where us: "era_states s = us @ [last (cd_states s)]" using last by (metis append_butlast_last_id)
    then consider "u = last (cd_states s)" | "seq_upto V pc u (last (cd_states s))"
      using u cdb_okD(2) [OF ok] by (auto simp: sorted_wrt_append)
    then show ?thesis
    proof cases
      case 1
      with nxt show ?thesis by simp
    next
      case 2
      then show ?thesis using nxt by (rule seq_upto_trans)
    qed
  qed
  then have "sorted_wrt (seq_upto V pc) (era_states ?s)"
    using cdb_okD(2) [OF ok] by (simp add: era sorted_wrt_append)
  then show ?thesis
    using cdb_okD [OF ok] same by (auto simp: cdb_ok_def entries_ok_def era)
qed

lemma ok_commit:
  assumes ok: "cdb_ok M V pc s" and seq: "read_commit_seq V (last (cd_states s)) = Inr q" "q + 1 \<noteq> 0"
    "read_commit_seq V t = Inr (q + 1)"
  shows "cdb_ok M V pc (s\<lparr>cd_states := cd_states s @ [t]\<rparr>)"
  using seq word_succ_less [OF seq(2)]
  by (intro ok_append [OF ok]) (auto simp: seq_upto_def seq_before_def)

lemma ok_record:
  assumes kv: "kv_txn V I vw" and ok: "cdb_ok M V pc s" and last: "I (last (cd_states s))"
    and rec: "db_record_query V pc begun ended at plane query keep (last (cd_states s)) = (r, t)"
  shows "cdb_ok M V pc (s\<lparr>cd_states := cd_states s @ [t]\<rparr>)"
proof (rule ok_append [OF ok])
  note same = kv_txn.record_query_reads [OF kv last rec]
  have "storage_answer V pc (last (cd_states s)) p q = storage_answer V pc t p q" for p q
    by (simp add: storage_answer_def same split: request.splits)
  then show "seq_upto V pc (last (cd_states s)) t" by (simp add: seq_upto_def same_answers_def same)
qed

lemma ok_land:
  assumes ok: "cdb_ok M V pc s"
  shows "cdb_ok M V pc (s\<lparr>cd_states := cd_states s @ [t], cd_landed := Suc (cd_landed s),
        cd_lands := Suc (cd_lands s), cd_era := length (cd_states s)\<rparr>)" (is "cdb_ok M V pc ?s")
proof -
  have "session_ok V pc s y \<Longrightarrow> session_ok V pc ?s y" for y
    by (cases y) (auto simp: stale_session_def)
  then show ?thesis using cdb_okD(4) [OF ok] by (auto simp: cdb_ok_def era_states_def)
qed

lemma ok_bump:
  assumes ok: "cdb_ok M V pc s" and s: "cd_landed s = Suc a" "gc_generation (cd_cache s) + 1 \<noteq> 0" "quiet s Bump"
  shows "cdb_ok M V pc (s\<lparr>cd_cache := gc_bump (cd_cache s), cd_landed := a, cd_bumped := Suc (cd_bumped s)\<rparr>)"
    (is "cdb_ok M V pc ?s")
proof -
  let ?g = "gc_generation (cd_cache s)"
  have g: "?g < ?g + 1" by (rule word_succ_less [OF s(2)])
  have "session_ok V pc ?s y" if "cd_sessions s i = Some y" for i y
  proof (cases y)
    case (Captured h)
    then show ?thesis using cdb_okD(4) [OF ok that] g by (auto simp: gc_bump_def)
  next
    case (Reading t r ph n)
    have "n \<noteq> cd_lands s" using cdb_okD(4) [OF ok that] s(1) Reading by (auto simp: fresh_session_def)
    moreover have "\<not> storing ph" using s(3) that Reading by (auto simp: quiet_def storing_def split: phase.splits)
    ultimately show ?thesis
      using cdb_okD(4) [OF ok that] g Reading by (auto simp: stale_session_def gc_bump_def)
  qed
  then show ?thesis using cdb_okD [OF ok] by (auto simp: cdb_ok_def era_states_def)
qed

lemma ok_clear:
  assumes M: "moka_ok M" and ok: "cdb_ok M V pc s" and s: "cd_bumped s = Suc b"
  shows "cdb_ok M V pc (s\<lparr>cd_cache := gc_clear M (cd_cache s), cd_bumped := b\<rparr>)" (is "cdb_ok M V pc ?s")
proof -
  have "session_ok V pc s y \<Longrightarrow> session_ok V pc ?s y" for y
    using s by (cases y) (auto simp: fresh_session_def stale_session_def gc_clear_def)
  moreover have "entries_ok M V pc ?s" by (simp add: entries_ok_def gc_clear_def moka_laws(2) [OF M])
  ultimately show ?thesis using cdb_okD [OF ok] by (auto simp: cdb_ok_def era_states_def)
qed

lemma ok_evict:
  assumes ok: "cdb_ok M V pc s" and c: "\<And>k v. mk_get M c k = Some v \<Longrightarrow> mk_get M (gc_cache (cd_cache s)) k = Some v"
  shows "cdb_ok M V pc (s\<lparr>cd_cache := (cd_cache s)\<lparr>gc_cache := c\<rparr>\<rparr>)" (is "cdb_ok M V pc ?s")
proof -
  have "session_ok V pc ?s y = session_ok V pc s y" for y
    by (cases y) (simp_all add: fresh_session_def stale_session_def era_states_def)
  moreover have "entries_ok M V pc s \<Longrightarrow> entries_ok M V pc ?s" using c by (auto simp: entries_ok_def era_states_def)
  ultimately show ?thesis using cdb_okD [OF ok] by (auto simp: cdb_ok_def era_states_def)
qed

lemma ok_start: "moka_ok M \<Longrightarrow> cdb_ok M V pc (cdb_start M n t)"
  by (simp add: cdb_ok_def cdb_start_def era_states_def entries_ok_def GraphCache_new_def moka_laws(1))

lemma step_states: "cdb_step M V pc s e s' \<Longrightarrow> prefix (cd_states s) (cd_states s')"
  by (induction rule: cdb_step.induct) simp_all

lemma step_ok:
  assumes M: "moka_ok M" and kv: "kv_txn V I vw" and step: "cdb_step M V pc s e s'" and ok: "cdb_ok M V pc s"
    and quiet: "quiet s e" and states: "\<forall>t \<in> set (cd_states s). I t"
  shows "cdb_ok M V pc s'"
  using step quiet ok
proof (cases rule: cdb_step.cases)
  case (opens i g k t hist p reg kw r)
  have "g \<le> gc_generation (cd_cache s)" using cdb_okD(4) [OF ok opens(3)] by simp
  then have "session_ok V pc s (Reading t r Idle (cd_lands s))"
    unfolding opens(5) using opens(1,4,5,7) quiet by (intro open_session) (auto simp: quiet_def)
  then show ?thesis unfolding opens(2) by (rule ok_session [OF ok])
next
  case (check i t r k v n l ph)
  have "session_ok V pc s (Reading t r ph n)"
    using check_session [OF cdb_okD(4) [OF ok check(3)] check(4)] check(5) by simp
  then show ?thesis unfolding check(2) by (rule ok_session [OF ok])
next
  case (reads i t r n q x r' put ph)
  have "session_ok V pc s (Reading t r' ph n)" using read_session [OF ok reads(3,4)] reads(5) by simp
  then show ?thesis unfolding reads(2) by (rule ok_session [OF ok])
next
  case (records at plane query keep qid t)
  have "cd_states s \<noteq> []" using cdb_okD(1) [OF ok] by auto
  then have "I (last (cd_states s))" using states by simp
  with records kv show ?thesis by (auto intro: ok_record [OF _ ok])
qed (use M ok_session [OF ok] ok_store [OF M ok] ok_close [OF ok] ok_commit [OF ok] ok_land [OF ok] ok_bump [OF ok]
    ok_clear [OF M ok] ok_evict [OF ok] in auto)

lemma run_ok:
  assumes M: "moka_ok M" and kv: "kv_txn V I vw" and run: "cdb_run M V pc quiet s es s'"
  shows "cdb_ok M V pc s \<Longrightarrow> \<forall>t \<in> set (cd_states s'). I t \<Longrightarrow> cdb_ok M V pc s'"
  using run
proof (induction rule: cdb_run.induct)
  case (run_snoc s es s' e s'')
  have "\<forall>t \<in> set (cd_states s'). I t"
    using run_snoc(6) set_mono_prefix [OF step_states [OF run_snoc(3)]] by blast
  with run_snoc show ?case by (blast intro: step_ok [OF M kv])
qed

text \<open>The stamped commit of the steps is what \<open>with_write\<close> does.\<close>

lemma with_write_step:
  assumes kv: "kv_txn V I vw" and t: "I (last (cd_states s))" "read_commit_seq V (last (cd_states s)) = Inr q" "q + 1 \<noteq> 0"
    and w: "with_write V begun ended now f (last (cd_states s)) = (Inr out, t)"
    and f: "I (snd (f (last (cd_states s))))"
      "read_commit_seq V (snd (f (last (cd_states s)))) = read_commit_seq V (last (cd_states s))"
  shows "cdb_step M V pc s Commit (s\<lparr>cd_states := cd_states s @ [t]\<rparr>)"
  using kv_txn.with_write_stamps [OF kv t(1) w t(2) f] t by (intro cdb_step.commit) auto

end
