(* ===== verification/Cache_Props.thy ===== *)
theory Cache_Props
  imports Cache_Runs Exec_Props
begin

text \<open>
  The properties of the cached read path, and the runs that its discipline excludes and the code does not.
\<close>

section \<open>A cache that never forgets\<close>

definition ref_moka :: "(cache_key \<rightharpoonup> stamped) moka" where
  "ref_moka = \<lparr>mk_new = (\<lambda>_ _. Map.empty), mk_get = (\<lambda>c k. c k), mk_insert = (\<lambda>c k v. c(k \<mapsto> v)),
     mk_invalidate_all = (\<lambda>_. Map.empty)\<rparr>"

lemma ref_moka_ok: "moka_ok ref_moka"
  by (simp add: moka_ok_def ref_moka_def)

lemma ref_moka_simps [simp]:
  "mk_get ref_moka c k = c k" "mk_insert ref_moka c k v = c(k \<mapsto> v)" "mk_invalidate_all ref_moka c = Map.empty"
  "mk_new ref_moka n w = Map.empty"
  by (simp_all add: ref_moka_def)

section \<open>Building runs\<close>

abbreviation run_to :: "'t vtable \<Rightarrow> postcard \<Rightarrow> u64 \<Rightarrow> 't \<Rightarrow> event list \<Rightarrow> ('t, cache_key \<rightharpoonup> stamped) cdb \<Rightarrow> bool" where
  "run_to V pc n t \<equiv> cdb_run ref_moka V pc (\<lambda>_ _. True) (cdb_start ref_moka n t)"

abbreviation cdb_at where
  "cdb_at ts gc ss a b m e \<equiv>
     \<lparr>cd_states = ts, cd_cache = gc, cd_sessions = ss, cd_landed = a, cd_bumped = b, cd_lands = m, cd_era = e\<rparr>"

abbreviation cache_at where
  "cache_at c cap g \<equiv> \<lparr>gc_cache = c, gc_entry_cap = cap, gc_generation = g\<rparr>"

lemma extend: "run_to V pc n t es s \<Longrightarrow> cdb_step ref_moka V pc s e s' \<Longrightarrow> run_to V pc n t (es @ [e]) s'"
  by (rule run_snoc) simp_all

lemma run_land:
  assumes "run_to V pc n t es (cdb_at ts gc ss a b m e)" "read_commit_seq V u = Inr q"
  shows "run_to V pc n t (es @ [Land]) (cdb_at (ts @ [u]) gc ss (Suc a) b (Suc m) (length ts))"
  using extend [OF assms(1) cdb_step.land [OF assms(2)]] by simp

lemma run_invalidate:
  assumes "run_to V pc n t es (cdb_at ts (cache_at c cap g) ss (Suc a) b m e)" "g + 1 \<noteq> 0"
  shows "run_to V pc n t (es @ [Bump, Clear]) (cdb_at ts (cache_at Map.empty cap (g + 1)) ss a b m e)"
proof -
  have one: "run_to V pc n t (es @ [Bump]) (cdb_at ts (cache_at c cap (g + 1)) ss a (Suc b) m e)"
    using extend [OF assms(1) cdb_step.bump] assms(2) by (simp add: gc_bump_def)
  show ?thesis using extend [OF one cdb_step.clear] by (simp add: gc_clear_def)
qed

lemma run_open:
  assumes "run_to V pc n t es (cdb_at ts (cache_at c cap g) ss a b m e)" "ss j = None" "k < length ts"
    "read_commit_seq V (ts ! k) = Inr q" "h \<or> Suc k = length ts"
  shows "run_to V pc n t (es @ [Capture j, Open j k]) (cdb_at ts (cache_at c cap g)
     (ss(j \<mapsto> Reading (ts ! k) (with_keywords kw (if h then with_cache_historical p q g else with_cache p reg q g)) Idle m)) a b m e)"
proof -
  have one: "run_to V pc n t (es @ [Capture j]) (cdb_at ts (cache_at c cap g) (ss(j \<mapsto> Captured g)) a b m e)"
    using extend [OF assms(1) cdb_step.capture [where i = j]] assms(2) by simp
  have r: "open_reader V p reg kw h g (ts ! k) =
      Inr (with_keywords kw (if h then with_cache_historical p q g else with_cache p reg q g))"
    using assms(4) by (simp add: open_reader_def)
  show ?thesis
    using extend [OF one cdb_step.opens [where i = j and k = k and g = g and hist = h and p = p and reg = reg and kw = kw,
          OF _ _ refl]] assms(3,5) r by simp
qed

lemma run_close:
  assumes "run_to V pc n t es (cdb_at ts gc ss a b m e)"
  shows "run_to V pc n t (es @ [Close j]) (cdb_at ts gc (ss(j := None)) a b m e)"
  using extend [OF assms cdb_step.close [where i = j]] by simp

lemma run_read:
  assumes "run_to V pc n t es (cdb_at ts gc ss a b m e)" "ss j = Some (Reading u r Idle k)"
    "probe ref_moka V pc u gc q r = (x, r', put)"
  shows "run_to V pc n t (es @ [Read j q x])
     (cdb_at ts gc (ss(j \<mapsto> Reading u r' (case put of None \<Rightarrow> Idle | Some (k, v) \<Rightarrow> Checking k v) k)) a b m e)"
  using extend [OF assms(1) cdb_step.reads [where i = j, OF _ _ refl]] assms(2,3) by simp

lemma run_check:
  assumes "run_to V pc n t es (cdb_at ts (cache_at c cap g) ss a b m e)" "ss j = Some (Reading u r (Checking ck v) k)"
    "cr_l2 r = Some l" "l2_generation l = g" "stamped_weight v \<le> cap"
  shows "run_to V pc n t (es @ [Check j]) (cdb_at ts (cache_at c cap g) (ss(j \<mapsto> Reading u r (Storing ck v) k)) a b m e)"
  using extend [OF assms(1) cdb_step.check [where i = j and t = u and l = l, OF _ _ refl]] assms(2-) by (simp add: gc_admits_def)

lemma run_store:
  assumes "run_to V pc n t es (cdb_at ts (cache_at c cap g) ss a b m e)" "ss j = Some (Reading u r (Storing ck v) k)"
  shows "run_to V pc n t (es @ [Store j]) (cdb_at ts (cache_at (c(ck \<mapsto> v)) cap g) (ss(j \<mapsto> Reading u r Idle k)) a b m e)"
  using extend [OF assms(1) cdb_step.stores [where i = j]] assms(2) by (simp add: gc_store_def)


text \<open>A fresh reader asks for neighbours: a miss reads storage and wants to insert, a hit does not.\<close>

abbreviation adj_entry :: "u64 \<Rightarrow> neighbor list \<Rightarrow> stamped" where
  "adj_entry q a \<equiv> \<lparr>st_seq = q, st_payload = AdjP a\<rparr>"

abbreviation fresh_reader where
  "fresh_reader h p reg kw q g \<equiv> with_keywords kw (if h then with_cache_historical p q g else with_cache p reg q g)"

abbreviation knows_reader where
  "knows_reader h p reg kw q g i d ty a \<equiv> (fresh_reader h p reg kw q g)\<lparr>cr_adjacency := [(i, d, ty) \<mapsto> a]\<rparr>"

lemmas reader_defs = with_keywords_def with_cache_def with_cache_historical_def cr_build_def

lemma probe_miss:
  assumes "c (AdjKey p i d ty) = None" "neighbors V u p i d ty = Inr a"
  shows "probe ref_moka V pc u (cache_at c cap g') (ReqNeighbors i d ty) (fresh_reader h p reg kw q g) =
    (RespNeighbors (Inr a), knows_reader h p reg kw q g i d ty a, Some (AdjKey p i d ty, adj_entry q a))"
  using assms by (simp add: probe_def cr_neighbors_probe_def gc_adj_def reader_defs put_of_def)

lemma probe_hit:
  assumes "c (AdjKey p i d ty) = Some (adj_entry q a)"
  shows "probe ref_moka V pc u (cache_at c cap g') (ReqNeighbors i d ty) (fresh_reader h p reg kw q g) =
    (RespNeighbors (Inr a), knows_reader h p reg kw q g i d ty a, None)"
  using assms by (simp add: probe_def cr_neighbors_probe_def gc_adj_def reader_defs)

lemma adj_weight: "length a \<le> 1000 \<Longrightarrow> 2 ^ 20 \<le> n \<Longrightarrow> stamped_weight (adj_entry q a) \<le> gc_entry_cap (GraphCache_new M n)"
proof -
  assume a: "length a \<le> 1000" and n: "(2 ^ 20 :: u64) \<le> n"
  have "2 ^ 20 \<le> unat n" using n by (simp add: word_le_nat_alt)
  then have cap: "2 ^ 16 \<le> min (max (unat n div 16) 1) (2 ^ 32 - 1 :: nat)" by (simp add: le_max_iff_disj)
  have u: "unat (of_nat m :: u32) = m" if "m < 2 ^ 32" for m using that by (simp add: unat_of_nat take_bit_nat_eq_self)
  have "unat (stamped_weight (adj_entry q a)) = 16 + length a * 16"
    unfolding stamped_weight_def using a u [of "16 + length a * 16"] by simp
  moreover have "unat (of_nat (min (max (unat n div 16) 1) (2 ^ 32 - 1)) :: u32) = min (max (unat n div 16) 1) (2 ^ 32 - 1)"
    by (rule u) simp
  moreover have "unat ENTRY_CAP_BYTES = 4194304" by (simp add: ENTRY_CAP_BYTES_def)
  ultimately show ?thesis
    using a cap by (simp add: GraphCache_new_def word_le_nat_alt min_def split: if_splits)
qed


definition no_registry :: registry where
  "no_registry = (\<lambda>_ _ _ _ _ _. None)"

definition no_keywords :: keyword_registry where
  "no_keywords = \<lparr>kr_search = (\<lambda>_ _ _ _ _. None), kr_declared = (\<lambda>_. [])\<rparr>"

section \<open>Runs that mix two states\<close>

text \<open>
  Two states with the same commit sequence, as a foreign commit can land them, and a node whose neighbours
  in the first are \<open>a\<close>. In each run a reader of one state is answered from the other.
\<close>

lemma start_at: "run_to V pc n t [] (cdb_at [t] (cache_at Map.empty (gc_entry_cap (GraphCache_new ref_moka n)) 0) Map.empty 0 0 0 0)"
  using run_nil [of ref_moka V pc "\<lambda>_ _. True" "cdb_start ref_moka n t"] by (simp add: cdb_start_def GraphCache_new_def)

lemma run_tried:
  assumes run: "run_to V pc n t es (cdb_at ts (cache_at c cap g) ss a b m e)"
    and j: "ss j = Some (Reading u (fresh_reader h p reg kw q g) Idle k)" "c (AdjKey p i d ty) = None"
    and x: "neighbors V u p i d ty = Inr x" "stamped_weight (adj_entry q x) \<le> cap"
  shows "run_to V pc n t (es @ [Read j (ReqNeighbors i d ty) (RespNeighbors (Inr x)), Check j])
    (cdb_at ts (cache_at c cap g) (ss(j \<mapsto> Reading u (knows_reader h p reg kw q g i d ty x) (Storing (AdjKey p i d ty) (adj_entry q x)) k)) a b m e)"
proof -
  let ?read = "Read j (ReqNeighbors i d ty) (RespNeighbors (Inr x))"
  have one: "run_to V pc n t (es @ [?read])
    (cdb_at ts (cache_at c cap g) (ss(j \<mapsto> Reading u (knows_reader h p reg kw q g i d ty x) (Checking (AdjKey p i d ty) (adj_entry q x)) k)) a b m e)"
    using run_read [OF run j(1) probe_miss [where c = c, OF j(2) x(1)]] by simp
  show ?thesis
    using run_check [where j = j and l = "\<lparr>l2_seq = q, l2_generation = g\<rparr>", OF one _ _ _ x(2)]
    by (simp add: reader_defs)
qed

lemma run_fill:
  assumes "run_to V pc n t es (cdb_at ts (cache_at c cap g) ss a b m e)"
    and "ss j = Some (Reading u (fresh_reader h p reg kw q g) Idle k)" "c (AdjKey p i d ty) = None"
    and "neighbors V u p i d ty = Inr x" "stamped_weight (adj_entry q x) \<le> cap"
  shows "run_to V pc n t (es @ [Read j (ReqNeighbors i d ty) (RespNeighbors (Inr x)), Check j, Store j])
    (cdb_at ts (cache_at (c(AdjKey p i d ty \<mapsto> adj_entry q x)) cap g) (ss(j \<mapsto> Reading u (knows_reader h p reg kw q g i d ty x) Idle k)) a b m e)"
  using run_store [OF run_tried [OF assms], of j] by simp

text \<open>A reader of the latest state that finds the entry of another state under its commit sequence.\<close>

lemma run_hit:
  assumes run: "run_to V pc n t es (cdb_at ts (cache_at c cap g) ss a b m e)"
    and "ss j = Some (Reading u (fresh_reader past p reg kw q h) Idle k)" "c (AdjKey p i d ty) = Some (adj_entry q x)"
  shows "\<exists>s r. run_to V pc n t (es @ [Read j (ReqNeighbors i d ty) (RespNeighbors (Inr x))]) s \<and>
    cd_sessions s j = Some (Reading u r Idle k) \<and> cd_lands s = m \<and> cr_plane r = p"
proof -
  have "\<exists>s. run_to V pc n t (es @ [Read j (ReqNeighbors i d ty) (RespNeighbors (Inr x))]) s \<and>
    cd_sessions s j = Some (Reading u (knows_reader past p reg kw q h i d ty x) Idle k) \<and> cd_lands s = m"
    by (rule exI, rule conjI, rule run_read [OF run assms(2) probe_hit]) (use assms(3) in simp_all)
  then show ?thesis by (auto simp: reader_defs)
qed

lemma run_served:
  assumes "run_to V pc n t es (cdb_at ts (cache_at c cap g) ss a b m e)" "ss j = None" "k < length ts"
    "read_commit_seq V (ts ! k) = Inr q" "Suc k = length ts" "c (AdjKey p i d ty) = Some (adj_entry q x)"
  shows "\<exists>s r. run_to V pc n t (es @ [Capture j, Open j k, Read j (ReqNeighbors i d ty) (RespNeighbors (Inr x))]) s \<and>
    cd_sessions s j = Some (Reading (ts ! k) r Idle (cd_lands s)) \<and> cr_plane r = p"
  using run_hit [where j = j and past = False and reg = no_registry and kw = no_keywords and i = i and d = d and ty = ty and x = x,
      OF run_open [where h = False and kw = no_keywords and p = p and reg = no_registry, OF assms(1-4) disjI2 [OF assms(5)]] _ assms(6)] assms(5) by fastforce

abbreviation cap_of :: "u64 \<Rightarrow> u32" where
  "cap_of n \<equiv> gc_entry_cap (GraphCache_new ref_moka n)"

text \<open>The invalidation is complete; a query travels back to before the foreign commit.\<close>

lemma travel_run:
  assumes q: "read_commit_seq V t0 = Inr q" "read_commit_seq V t1 = Inr q" and a: "neighbors V t0 p i d ty = Inr a"
    and fits: "length a \<le> 1000" "2 ^ 20 \<le> n"
  shows "\<exists>s r. run_to V pc n t0
      ([Land, Bump, Clear, Capture 0, Open 0 0, Read 0 (ReqNeighbors i d ty) (RespNeighbors (Inr a)), Check 0, Store 0, Close 0] @
       [Capture 1, Open 1 1, Read 1 (ReqNeighbors i d ty) (RespNeighbors (Inr a))]) s \<and>
     cd_sessions s 1 = Some (Reading t1 r Idle (cd_lands s)) \<and> cr_plane r = p"
proof -
  have landed: "run_to V pc n t0 [Land, Bump, Clear] (cdb_at [t0, t1] (cache_at Map.empty (cap_of n) 1) Map.empty 0 0 1 1)"
    using run_invalidate [OF run_land [OF start_at q(2)]] by simp
  have "run_to V pc n t0 [Land, Bump, Clear, Capture 0, Open 0 0] (cdb_at [t0, t1] (cache_at Map.empty (cap_of n) 1)
      [0 \<mapsto> Reading t0 (fresh_reader True p no_registry no_keywords q 1) Idle 1] 0 0 1 1)"
    using run_open [where j = 0 and k = 0 and h = True and kw = no_keywords and p = p and reg = no_registry, OF landed] q by simp
  from run_close [where j = 0, OF run_fill [where j = 0 and h = True and kw = no_keywords and reg = no_registry and q = q, OF this _ _ a adj_weight [OF fits]]]
  have "run_to V pc n t0
      [Land, Bump, Clear, Capture 0, Open 0 0, Read 0 (ReqNeighbors i d ty) (RespNeighbors (Inr a)), Check 0, Store 0, Close 0]
      (cdb_at [t0, t1] (cache_at [AdjKey p i d ty \<mapsto> adj_entry q a] (cap_of n) 1) Map.empty 0 0 1 1)" by simp
  from run_served [where j = 1 and k = 1 and x = a, OF this] q(2) show ?thesis by simp
qed

text \<open>A query opens after the foreign commit and before its invalidation.\<close>

lemma window_run:
  assumes q: "read_commit_seq V t0 = Inr q" "read_commit_seq V t1 = Inr q" and a: "neighbors V t0 p i d ty = Inr a"
    and fits: "length a \<le> 1000" "2 ^ 20 \<le> n"
  shows "\<exists>s r. run_to V pc n t0
      ([Capture 0, Open 0 0, Read 0 (ReqNeighbors i d ty) (RespNeighbors (Inr a)), Check 0, Store 0, Close 0, Land] @
       [Capture 1, Open 1 1, Read 1 (ReqNeighbors i d ty) (RespNeighbors (Inr a))]) s \<and>
     cd_sessions s 1 = Some (Reading t1 r Idle (cd_lands s)) \<and> cr_plane r = p"
proof -
  have "run_to V pc n t0 [Capture 0, Open 0 0] (cdb_at [t0] (cache_at Map.empty (cap_of n) 0)
      [0 \<mapsto> Reading t0 (fresh_reader False p no_registry no_keywords q 0) Idle 0] 0 0 0 0)"
    using run_open [where j = 0 and k = 0 and h = False and kw = no_keywords and p = p and reg = no_registry, OF start_at] q by simp
  from run_land [OF run_close [where j = 0, OF run_fill [where j = 0 and h = False and kw = no_keywords and reg = no_registry and q = q, OF this _ _ a adj_weight [OF fits]]] q(2)]
  have "run_to V pc n t0
      [Capture 0, Open 0 0, Read 0 (ReqNeighbors i d ty) (RespNeighbors (Inr a)), Check 0, Store 0, Close 0, Land]
      (cdb_at [t0, t1] (cache_at [AdjKey p i d ty \<mapsto> adj_entry q a] (cap_of n) 0) Map.empty 1 0 1 1)" by simp
  from run_served [where j = 1 and k = 1 and x = a, OF this] q(2) show ?thesis by simp
qed

text \<open>An insertion that passed its test before the generation moved is stored after the cache was cleared.\<close>

lemma late_store_run:
  assumes q: "read_commit_seq V t0 = Inr q" "read_commit_seq V t1 = Inr q" and a: "neighbors V t0 p i d ty = Inr a"
    and fits: "length a \<le> 1000" "2 ^ 20 \<le> n"
  shows "\<exists>s r. run_to V pc n t0
      ([Capture 0, Open 0 0, Read 0 (ReqNeighbors i d ty) (RespNeighbors (Inr a)), Check 0, Land, Bump, Clear, Store 0, Close 0] @
       [Capture 1, Open 1 1, Read 1 (ReqNeighbors i d ty) (RespNeighbors (Inr a))]) s \<and>
     cd_sessions s 1 = Some (Reading t1 r Idle (cd_lands s)) \<and> cr_plane r = p"
proof -
  have "run_to V pc n t0 [Capture 0, Open 0 0] (cdb_at [t0] (cache_at Map.empty (cap_of n) 0)
      [0 \<mapsto> Reading t0 (fresh_reader False p no_registry no_keywords q 0) Idle 0] 0 0 0 0)"
    using run_open [where j = 0 and k = 0 and h = False and kw = no_keywords and p = p and reg = no_registry, OF start_at] q by simp
  from run_invalidate [OF run_land [OF run_tried [where j = 0 and h = False and kw = no_keywords and reg = no_registry and q = q, OF this _ _ a adj_weight [OF fits]] q(2)]]
  have "run_to V pc n t0
      [Capture 0, Open 0 0, Read 0 (ReqNeighbors i d ty) (RespNeighbors (Inr a)), Check 0, Land, Bump, Clear]
      (cdb_at [t0, t1] (cache_at Map.empty (cap_of n) 1)
      [0 \<mapsto> Reading t0 (knows_reader False p no_registry no_keywords q 0 i d ty a) (Storing (AdjKey p i d ty) (adj_entry q a)) 0] 0 0 1 1)"
    by simp
  from run_close [where j = 0, OF run_store [where j = 0, OF this]]
  have "run_to V pc n t0
      [Capture 0, Open 0 0, Read 0 (ReqNeighbors i d ty) (RespNeighbors (Inr a)), Check 0, Land, Bump, Clear, Store 0, Close 0]
      (cdb_at [t0, t1] (cache_at [AdjKey p i d ty \<mapsto> adj_entry q a] (cap_of n) 1) Map.empty 0 0 1 1)" by simp
  from run_served [where j = 1 and k = 1 and x = a, OF this] q(2) show ?thesis by simp
qed


text \<open>A query that stays open across the foreign commit finds entries of the state that it landed.\<close>

lemma straddle_run:
  assumes q: "read_commit_seq V t0 = Inr q" "read_commit_seq V t1 = Inr q" and b: "neighbors V t1 p i d ty = Inr b"
    and fits: "length b \<le> 1000" "2 ^ 20 \<le> n"
  shows "\<exists>s r. run_to V pc n t0
      ([Capture 0, Open 0 0, Land, Bump, Clear, Capture 1, Open 1 1, Read 1 (ReqNeighbors i d ty) (RespNeighbors (Inr b)), Check 1, Store 1] @
       [Read 0 (ReqNeighbors i d ty) (RespNeighbors (Inr b))]) s \<and>
     cd_sessions s 0 = Some (Reading t0 r Idle 0) \<and> cr_plane r = p"
proof -
  let ?r = "fresh_reader False p no_registry no_keywords q"
  have "run_to V pc n t0 [Capture 0, Open 0 0] (cdb_at [t0] (cache_at Map.empty (cap_of n) 0) [0 \<mapsto> Reading t0 (?r 0) Idle 0] 0 0 0 0)"
    using run_open [where j = 0 and k = 0 and h = False and kw = no_keywords and p = p and reg = no_registry, OF start_at] q by simp
  from run_invalidate [OF run_land [OF this q(2)]]
  have "run_to V pc n t0 [Capture 0, Open 0 0, Land, Bump, Clear]
      (cdb_at [t0, t1] (cache_at Map.empty (cap_of n) 1) [0 \<mapsto> Reading t0 (?r 0) Idle 0] 0 0 1 1)" by simp
  from run_open [where j = 1 and k = 1 and h = False and kw = no_keywords and p = p and reg = no_registry and q = q, OF this]
  have "run_to V pc n t0 [Capture 0, Open 0 0, Land, Bump, Clear, Capture 1, Open 1 1]
      (cdb_at [t0, t1] (cache_at Map.empty (cap_of n) 1) [0 \<mapsto> Reading t0 (?r 0) Idle 0, 1 \<mapsto> Reading t1 (?r 1) Idle 1] 0 0 1 1)"
    using q(2) by simp
  from run_fill [where j = 1 and h = False and kw = no_keywords and reg = no_registry and q = q, OF this _ _ b adj_weight [OF fits]]
  have "run_to V pc n t0
      [Capture 0, Open 0 0, Land, Bump, Clear, Capture 1, Open 1 1, Read 1 (ReqNeighbors i d ty) (RespNeighbors (Inr b)), Check 1, Store 1]
      (cdb_at [t0, t1] (cache_at [AdjKey p i d ty \<mapsto> adj_entry q b] (cap_of n) 1)
        [0 \<mapsto> Reading t0 (?r 0) Idle 0, 1 \<mapsto> Reading t1 ((?r 1)\<lparr>cr_adjacency := [(i, d, ty) \<mapsto> b]\<rparr>) Idle 1] 0 0 1 1)" by simp
  from run_hit [where j = 0 and past = False and reg = no_registry and kw = no_keywords and i = i and d = d and ty = ty and x = b and p = p and q = q and h = 0, OF this] show ?thesis by fastforce
qed

section \<open>A run that keeps the cache warm\<close>

text \<open>Without foreign commits every run keeps to the discipline.\<close>

lemma calm_run:
  assumes "cdb_run M V pc allowed s es s'" "\<forall>e \<in> set es. e \<noteq> Land" "cd_landed s = 0 \<and> cd_bumped s = 0 \<and> cd_era s = 0"
  shows "cdb_run M V pc quiet s es s' \<and> cd_lands s' = cd_lands s \<and> cd_landed s' = 0 \<and> cd_bumped s' = 0 \<and> cd_era s' = 0"
  using assms
proof (induction rule: cdb_run.induct)
  case (run_nil s)
  then show ?case by (auto intro: cdb_run.run_nil)
next
  case (run_snoc s es s' e s'')
  then have ih: "cdb_run M V pc quiet s es s'" "cd_lands s' = cd_lands s" "cd_landed s' = 0" "cd_bumped s' = 0" "cd_era s' = 0"
    by simp_all
  have "cd_lands s'' = cd_lands s' \<and> cd_landed s'' = 0 \<and> cd_bumped s'' = 0 \<and> cd_era s'' = 0 \<and> e \<noteq> Bump"
    using run_snoc(3,5) ih(3-5) by (cases rule: cdb_step.cases) auto
  moreover from this have "quiet s' e" using ih(3-5) by (simp add: quiet_def split: event.splits)
  ultimately show ?case using ih cdb_run.run_snoc [OF ih(1) _ run_snoc(3)] by simp
qed

text \<open>
  A query fills the cache, then a query is recorded, and a query of the state after it is answered from
  the entry: the case for which \<open>record_query\<close> leaves the commit sequence alone.
\<close>

definition warming :: "plane_id \<Rightarrow> node_id \<Rightarrow> dir \<Rightarrow> str option \<Rightarrow> neighbor list \<Rightarrow> event list" where
  "warming p i d ty a = [Capture 0, Open 0 0, Read 0 (ReqNeighbors i d ty) (RespNeighbors (Inr a)), Check 0, Store 0, Close 0]"

lemma warm_run:
  assumes kv: "kv_txn V I vw" and t0: "I t0"
    and rec: "db_record_query V pc (Inr ()) (Inr ()) at plane query keep t0 = (Inr qid, t1)"
    and q: "read_commit_seq V t0 = Inr q" and a: "neighbors V t0 p i d ty = Inr a"
    and fits: "length a \<le> 1000" "2 ^ 20 \<le> n"
  shows "\<exists>s s' r. run_to V pc n t0 (warming p i d ty a @ [Record] @ [Capture 1, Open 1 1]) s \<and>
     cd_states s = [t0, t1] \<and> cd_sessions s 1 = Some (Reading t1 r Idle 0) \<and> cr_plane r = p \<and>
     gc_adj ref_moka (cd_cache s) p i d ty q = Some a \<and>
     cdb_step ref_moka V pc s (Read 1 (ReqNeighbors i d ty) (RespNeighbors (Inr a))) s'"
proof -
  let ?c = "[AdjKey p i d ty \<mapsto> adj_entry q a]" and ?r = "fresh_reader False p no_registry no_keywords q 0"
  have q1: "read_commit_seq V t1 = Inr q" using kv_txn.record_query_reads(2) [OF kv t0 rec] q by simp
  have "run_to V pc n t0 [Capture 0, Open 0 0] (cdb_at [t0] (cache_at Map.empty (cap_of n) 0) [0 \<mapsto> Reading t0 ?r Idle 0] 0 0 0 0)"
    using run_open [where j = 0 and k = 0 and h = False and kw = no_keywords and p = p and reg = no_registry, OF start_at] q by simp
  from run_close [where j = 0, OF run_fill [where j = 0 and h = False and kw = no_keywords and reg = no_registry and q = q, OF this _ _ a adj_weight [OF fits]]]
  have filled: "run_to V pc n t0 (warming p i d ty a) (cdb_at [t0] (cache_at ?c (cap_of n) 0) Map.empty 0 0 0 0)"
    by (simp add: warming_def)
  have recorded: "run_to V pc n t0 (warming p i d ty a @ [Record]) (cdb_at [t0, t1] (cache_at ?c (cap_of n) 0) Map.empty 0 0 0 0)"
    using extend [OF filled cdb_step.records] rec by simp
  let ?s = "cdb_at [t0, t1] (cache_at ?c (cap_of n) 0) [1 \<mapsto> Reading t1 ?r Idle 0] 0 0 0 0"
  have open1: "run_to V pc n t0 (warming p i d ty a @ [Record] @ [Capture 1, Open 1 1]) ?s"
    using run_open [where j = 1 and k = 1 and h = False and kw = no_keywords and p = p and reg = no_registry, OF recorded] q1 by simp
  have hit: "probe ref_moka V pc t1 (cache_at ?c (cap_of n) 0) (ReqNeighbors i d ty) ?r =
      (RespNeighbors (Inr a), knows_reader False p no_registry no_keywords q 0 i d ty a, None)"
    by (rule probe_hit) simp
  have "\<exists>s'. cdb_step ref_moka V pc ?s (Read 1 (ReqNeighbors i d ty) (RespNeighbors (Inr a))) s'"
    by (rule exI, rule cdb_step.reads [where i = 1 and r = ?r and t = t1 and n = 0 and q = "ReqNeighbors i d ty" and
          r' = "knows_reader False p no_registry no_keywords q 0 i d ty a" and put = None])
       (use hit in simp_all)
  then obtain s' where "cdb_step ref_moka V pc ?s (Read 1 (ReqNeighbors i d ty) (RespNeighbors (Inr a))) s'" ..
  with open1 show ?thesis
    by (intro exI [of _ ?s] exI [of _ s'] exI [of _ ?r]) (simp add: reader_defs gc_adj_def)
qed

section \<open>Two states of one commit sequence\<close>

definition linked_tables :: tables where
  "linked_tables = tables_new(AdjFwd := [(adj_key STARTUP 1 0 2 1, [])])"

lemma twin_tables:
  "read_commit_seq mem_vtable tables_new = Inr 0" "read_commit_seq mem_vtable linked_tables = Inr 0"
  "neighbors mem_vtable tables_new STARTUP 1 Out None = Inr []"
  "neighbors mem_vtable linked_tables STARTUP 1 Out None = Inr [\<lparr>nb_node = 2, nb_edge = 1\<rparr>]"
  by code_simp+

section \<open>Properties\<close>

text \<open>
  C35: Reading through the cache is reading storage. While the memo and the shared cache agree with the
  reader's snapshot, every node, edge and neighbour list, errors included, is what storage returns, a
  similarity search returns what the pass-through reader returns, a keyword search the hits visible in the
  snapshot (\<open>serves\<close>); and each of these leaves memo and cache in agreement with the snapshot.
\<close>

theorem cached_reads_exact:
  assumes "moka_ok M"
  shows "serves M V pc t r (cr_node M V pc t i) (get_node V pc t (cr_plane r) i) \<and>
    serves M V pc t r (cr_edge M V pc t e) (get_edge V pc t (cr_plane r) e) \<and>
    serves M V pc t r (cr_neighbors M V t i d ty) (neighbors V t (cr_plane r) i d ty) \<and>
    serves M V pc t r (cr_vector_search E M V pc t label property query metric k)
      (rd_vector_search (uncached_reader E V pc t (cr_plane r) (cr_registry r) score) label property query metric k) \<and>
    serves M V pc t r (cr_keyword_search M V pc score t l property words k)
      (keyword_truth V pc score t r l property words k)"
  by (intro conjI serves_node serves_edge serves_neighbors serves_vector_search serves_keyword_search assms)

theorem cached_reads_exact_witness:
  "\<exists>r' gc'. cr_node ref_moka mem_vtable ref_postcard demo3 1
       (fresh_reader False STARTUP no_registry no_keywords 0 0, GraphCache_new ref_moka 1048576) =
     (Inr (Some (node_rec STARTUP 1 (Some ann, [person], []))), (r', gc')) \<and> moka_ok ref_moka"
proof -
  let ?r = "fresh_reader False STARTUP no_registry no_keywords 0 0" and ?gc = "GraphCache_new ref_moka 1048576"
  have "reader_fits ref_moka mem_vtable ref_postcard demo3 ?r ?gc"
    by (simp add: reader_fits_def memo_ok_def cache_fits_def reader_defs GraphCache_new_def)
  moreover have "get_node mem_vtable ref_postcard demo3 STARTUP 1 = Inr (Some (node_rec STARTUP 1 (Some ann, [person], [])))"
    using graph_reader.node_law [OF demo_reads [where p = STARTUP], where n = 1] demo_nodes(1)
    by (simp add: uncached_reader_def uncached_base_def Let_def)
  moreover have "cr_plane ?r = STARTUP" by (simp add: reader_defs)
  ultimately show ?thesis
    using cached_reads_exact [OF ref_moka_ok, of mem_vtable ref_postcard demo3 ?r 1] ref_moka_ok unfolding serves_def by metis
qed

text \<open>
  C36: The shared cache is coherent. In every interleaving of queries (live or travelling in time), their
  lookups, tests and insertions, local commits, recorded queries (which commit without moving the
  sequence), foreign commits, the two halves of their invalidations and evictions that keeps to the
  discipline \<open>quiet\<close>, a query opened since the last foreign commit is answered what storage holds at its
  snapshot, whichever reader filled the cache, and from whichever state of its sequence. Queries opened
  before a foreign commit cannot poison it: the generation refuses their insertions.
\<close>

theorem cache_coherent:
  assumes "moka_ok M" "kv_txn V valid view" "cdb_run M V pc quiet (cdb_start M n t0) es s"
    and "\<forall>t \<in> set (cd_states s). valid t"
    and "cd_sessions s i = Some (Reading t r ph (cd_lands s))" "cdb_step M V pc s (Read i q x) s'"
  shows "x = storage_answer V pc t (cr_plane r) q"
proof -
  have fits: "reader_fits M V pc t r (cd_cache s)"
    by (rule session_fits [OF run_ok [OF assms(1-3) ok_start [OF assms(1)] assms(4)] assms(5) refl])
  from assms(6) show ?thesis
  proof cases
    case (reads t' r' n r'' put ph')
    then show ?thesis using assms(5) probe_run [OF fits] by auto
  qed
qed

theorem cache_coherent_witness:
  "\<exists>t1 s s' r. db_record_query mem_vtable ref_postcard (Inr ()) (Inr ()) 5 [112] [113] 10 linked_tables = (Inr 1, t1) \<and>
     cdb_run ref_moka mem_vtable ref_postcard quiet (cdb_start ref_moka 1048576 linked_tables)
       (warming STARTUP 1 Out None [\<lparr>nb_node = 2, nb_edge = 1\<rparr>] @ [Record] @ [Capture 1, Open 1 1]) s \<and>
     cd_states s = [linked_tables, t1] \<and> cd_sessions s 1 = Some (Reading t1 r Idle (cd_lands s)) \<and>
     gc_adj ref_moka (cd_cache s) STARTUP 1 Out None 0 = Some [\<lparr>nb_node = 2, nb_edge = 1\<rparr>] \<and>
     cdb_step ref_moka mem_vtable ref_postcard s
       (Read 1 (ReqNeighbors 1 Out None) (RespNeighbors (Inr [\<lparr>nb_node = 2, nb_edge = 1\<rparr>]))) s' \<and>
     RespNeighbors (Inr [\<lparr>nb_node = 2, nb_edge = 1\<rparr>]) =
       storage_answer mem_vtable ref_postcard t1 STARTUP (ReqNeighbors 1 Out None)"
proof -
  let ?x = "[\<lparr>nb_node = 2, nb_edge = 1\<rparr>]"
  have "fst (db_record_query mem_vtable ref_postcard (Inr ()) (Inr ()) 5 [112] [113] 10 linked_tables) = Inr 1" by code_simp
  then obtain t1 where t1: "db_record_query mem_vtable ref_postcard (Inr ()) (Inr ()) 5 [112] [113] 10 linked_tables = (Inr 1, t1)"
    by (metis prod.collapse)
  have inv: "mem_inv linked_tables" by (simp add: mem_inv_def linked_tables_def tables_new_def)
  have inv1: "mem_inv t1" by (rule mem.record_query_reads(1) [OF inv t1])
  obtain s s' r where s: "run_to mem_vtable ref_postcard 1048576 linked_tables
      (warming STARTUP 1 Out None ?x @ [Record] @ [Capture 1, Open 1 1]) s"
    "cd_states s = [linked_tables, t1]" "cd_sessions s 1 = Some (Reading t1 r Idle 0)" "cr_plane r = STARTUP"
    "gc_adj ref_moka (cd_cache s) STARTUP 1 Out None 0 = Some ?x"
    "cdb_step ref_moka mem_vtable ref_postcard s (Read 1 (ReqNeighbors 1 Out None) (RespNeighbors (Inr ?x))) s'"
    using warm_run [OF mem.kv_txn_axioms inv t1 twin_tables(2,4), of 1048576] by auto
  have calm: "cdb_run ref_moka mem_vtable ref_postcard quiet (cdb_start ref_moka 1048576 linked_tables)
      (warming STARTUP 1 Out None ?x @ [Record] @ [Capture 1, Open 1 1]) s" "cd_lands s = 0"
    using calm_run [OF s(1)] by (simp_all add: cdb_start_def warming_def)
  have "RespNeighbors (Inr ?x) = storage_answer mem_vtable ref_postcard t1 (cr_plane r) (ReqNeighbors 1 Out None)"
    by (rule cache_coherent [OF ref_moka_ok mem.kv_txn_axioms calm(1) _ _ s(6)]) (use s inv inv1 calm(2) in simp_all)
  with t1 calm s show ?thesis by auto
qed

text \<open>
  Without that discipline, which the code does not enforce, a foreign commit that lands a commit
  sequence in use mixes states. Given two states of one commit sequence that differ in the neighbours of a
  node, there are runs in which a query of the landed state is answered from the state before: when a
  query travels back to before the commit after the invalidation is complete; when a query opens between
  the commit and the invalidation; and when an insertion tested before the generation moved is stored
  after the cache was cleared. And a query that stays open across the commit is answered from the landed
  state.
\<close>

theorem foreign_commit_mixes_states:
  assumes "read_commit_seq V t0 = Inr q" "read_commit_seq V t1 = Inr q"
    and "neighbors V t0 p i d ty = Inr a" "neighbors V t1 p i d ty = Inr b" "a \<noteq> b"
    and "length a \<le> 1000" "length b \<le> 1000" "2 ^ 20 \<le> n"
  shows "(\<exists>s r. run_to V pc n t0
       ([Land, Bump, Clear, Capture 0, Open 0 0, Read 0 (ReqNeighbors i d ty) (RespNeighbors (Inr a)), Check 0, Store 0, Close 0] @
        [Capture 1, Open 1 1, Read 1 (ReqNeighbors i d ty) (RespNeighbors (Inr a))]) s \<and>
      cd_sessions s 1 = Some (Reading t1 r Idle (cd_lands s)) \<and> cr_plane r = p) \<and>
    (\<exists>s r. run_to V pc n t0
       ([Capture 0, Open 0 0, Read 0 (ReqNeighbors i d ty) (RespNeighbors (Inr a)), Check 0, Store 0, Close 0, Land] @
        [Capture 1, Open 1 1, Read 1 (ReqNeighbors i d ty) (RespNeighbors (Inr a))]) s \<and>
      cd_sessions s 1 = Some (Reading t1 r Idle (cd_lands s)) \<and> cr_plane r = p) \<and>
    (\<exists>s r. run_to V pc n t0
       ([Capture 0, Open 0 0, Read 0 (ReqNeighbors i d ty) (RespNeighbors (Inr a)), Check 0, Land, Bump, Clear, Store 0, Close 0] @
        [Capture 1, Open 1 1, Read 1 (ReqNeighbors i d ty) (RespNeighbors (Inr a))]) s \<and>
      cd_sessions s 1 = Some (Reading t1 r Idle (cd_lands s)) \<and> cr_plane r = p) \<and>
    (\<exists>s r. run_to V pc n t0
       ([Capture 0, Open 0 0, Land, Bump, Clear, Capture 1, Open 1 1, Read 1 (ReqNeighbors i d ty) (RespNeighbors (Inr b)), Check 1, Store 1] @
        [Read 0 (ReqNeighbors i d ty) (RespNeighbors (Inr b))]) s \<and>
      cd_sessions s 0 = Some (Reading t0 r Idle 0) \<and> cr_plane r = p) \<and>
    storage_answer V pc t1 p (ReqNeighbors i d ty) \<noteq> RespNeighbors (Inr a) \<and>
    storage_answer V pc t0 p (ReqNeighbors i d ty) \<noteq> RespNeighbors (Inr b)"
  using travel_run [OF assms(1-3,6,8)] window_run [OF assms(1-3,6,8)] late_store_run [OF assms(1-3,6,8)]
    straddle_run [OF assms(1,2,4,7,8)] assms(3-5)
  by (auto simp: storage_answer_def)

theorem foreign_commit_mixes_states_witness:
  "\<exists>s r. run_to mem_vtable ref_postcard 1048576 tables_new
     ([Land, Bump, Clear, Capture 0, Open 0 0, Read 0 (ReqNeighbors 1 Out None) (RespNeighbors (Inr [])), Check 0, Store 0, Close 0] @
      [Capture 1, Open 1 1, Read 1 (ReqNeighbors 1 Out None) (RespNeighbors (Inr []))]) s \<and>
    cd_sessions s 1 = Some (Reading linked_tables r Idle (cd_lands s)) \<and>
    storage_answer mem_vtable ref_postcard linked_tables STARTUP (ReqNeighbors 1 Out None) \<noteq> RespNeighbors (Inr [])"
  using foreign_commit_mixes_states [OF twin_tables, of 1048576 ref_postcard] by auto

end
