(* ===== verification/Catalog.thy ===== *)
theory Catalog
  imports Graph
begin

text \<open>
  The descriptive schema and the summary counters of a plane (\<open>compute/catalog.rs\<close>): what a scan of
  the plane tallies per label, property, edge type and pair of connected labels, the key prefixes per
  producer, and the row of totals that write transactions keep current. Counters are \<open>u64\<close> and wrap.
\<close>

text \<open>\<open>*map.entry(k).or_default()\<close> updated by \<open>f\<close>.\<close>

definition bt_entry :: "'k::linorder \<Rightarrow> 'v \<Rightarrow> ('v \<Rightarrow> 'v) \<Rightarrow> ('k, 'v) btree \<Rightarrow> ('k, 'v) btree" where
  "bt_entry k dflt f m = bt_insert k (f (case map_of m k of None \<Rightarrow> dflt | Some v \<Rightarrow> v)) m"

section \<open>Value types\<close>

datatype value_type = TNull | TBool | TInt | TFloat | TStr | TBytes | TVector | TList | TMap

fun vt_rank :: "value_type \<Rightarrow> nat" where
  "vt_rank TNull = 0"
| "vt_rank TBool = 1"
| "vt_rank TInt = 2"
| "vt_rank TFloat = 3"
| "vt_rank TStr = 4"
| "vt_rank TBytes = 5"
| "vt_rank TVector = 6"
| "vt_rank TList = 7"
| "vt_rank TMap = 8"

lemma vt_rank_inj: "vt_rank a = vt_rank b \<Longrightarrow> a = b"
  by (cases a; cases b) simp_all

text \<open>The derived order: by position in the enumeration.\<close>

instantiation value_type :: linorder
begin

definition less_eq_value_type :: "value_type \<Rightarrow> value_type \<Rightarrow> bool" where
  "a \<le> b \<longleftrightarrow> vt_rank a \<le> vt_rank b"

definition less_value_type :: "value_type \<Rightarrow> value_type \<Rightarrow> bool" where
  "a < b \<longleftrightarrow> vt_rank a < vt_rank b"

instance
  by standard (auto simp: less_eq_value_type_def less_value_type_def dest: vt_rank_inj)

end

fun value_type_of :: "prop_value \<Rightarrow> value_type" where
  "value_type_of PNull = TNull"
| "value_type_of (PBool b) = TBool"
| "value_type_of (PInt i) = TInt"
| "value_type_of (PFloat f) = TFloat"
| "value_type_of (PStr s) = TStr"
| "value_type_of (PBytes b) = TBytes"
| "value_type_of (PVector v) = TVector"
| "value_type_of (PList l) = TList"
| "value_type_of (PMap m) = TMap"

section \<open>Statistics\<close>

record prop_stats =
  ps_count :: u64
  ps_types :: "(value_type, u64) btree"
  ps_descriptions :: "(str, u64) btree"

definition prop_stats_default :: prop_stats where
  "prop_stats_default = \<lparr>ps_count = 0, ps_types = [], ps_descriptions = []\<rparr>"

record label_stats =
  ls_count :: u64
  ls_properties :: "(str, prop_stats) btree"

definition label_stats_default :: label_stats where
  "label_stats_default = \<lparr>ls_count = 0, ls_properties = []\<rparr>"

record connection =
  cn_src_label :: str
  cn_dst_label :: str
  cn_count :: u64

record edge_type_stats =
  es_count :: u64
  es_connections :: "connection list"

definition edge_type_stats_default :: edge_type_stats where
  "edge_type_stats_default = \<lparr>es_count = 0, es_connections = []\<rparr>"

text \<open>
  \<open>binary_search_by\<close> on a list sorted by key with every key once: the position of the key (\<open>Inr\<close>), or
  the position where it belongs (\<open>Inl\<close>).
\<close>

definition cn_key :: "connection \<Rightarrow> str \<times> str" where
  "cn_key c = (cn_src_label c, cn_dst_label c)"

definition es_probe :: "edge_type_stats \<Rightarrow> str \<Rightarrow> str \<Rightarrow> nat + nat" where
  "es_probe s src dst =
     (let i = length (takeWhile (\<lambda>c. cn_key c < (src, dst)) (es_connections s)) in
      if i < length (es_connections s) \<and> cn_key (es_connections s ! i) = (src, dst) then Inr i else Inl i)"

definition add_connection :: "str \<Rightarrow> str \<Rightarrow> u64 \<Rightarrow> edge_type_stats \<Rightarrow> edge_type_stats" where
  "add_connection src dst by_n s =
     (case es_probe s src dst of
        Inr i \<Rightarrow> s\<lparr>es_connections := (es_connections s)
                   [i := (es_connections s ! i)\<lparr>cn_count := cn_count (es_connections s ! i) + by_n\<rparr>]\<rparr>
      | Inl i \<Rightarrow> s\<lparr>es_connections := take i (es_connections s) @
                   [\<lparr>cn_src_label = src, cn_dst_label = dst, cn_count = by_n\<rparr>] @ drop i (es_connections s)\<rparr>)"

definition connection_count :: "edge_type_stats \<Rightarrow> str \<Rightarrow> str \<Rightarrow> u64" where
  "connection_count s src dst =
     (case es_probe s src dst of Inr i \<Rightarrow> cn_count (es_connections s ! i) | Inl _ \<Rightarrow> 0)"

definition UNATTRIBUTED :: str where
  "UNATTRIBUTED = bstr ''(no producer)''"

record catalog_snapshot =
  cat_node_count :: u64
  cat_edge_count :: u64
  cat_labels :: "(str, label_stats) btree"
  cat_edge_types :: "(str, edge_type_stats) btree"
  cat_key_prefixes :: "(str, (str, unit) btree) btree"

definition catalog_default :: catalog_snapshot where
  "catalog_default = \<lparr>cat_node_count = 0, cat_edge_count = 0, cat_labels = [], cat_edge_types = [],
     cat_key_prefixes = []\<rparr>"

text \<open>\<open>str::find\<close>: the byte position of the first occurrence.\<close>

fun str_find :: "str \<Rightarrow> str \<Rightarrow> nat option" where
  "str_find pat [] = (if pat = [] then Some 0 else None)"
| "str_find pat (c # s) =
     (if take (length pat) (c # s) = pat then Some 0 else map_option Suc (str_find pat s))"

definition key_prefix :: "str \<Rightarrow> str option" where
  "key_prefix key =
     (let at = (case (str_find (bstr ''/'') key, str_find (bstr ''::'') key) of
          (Some i, Some j) \<Rightarrow> Some (min i j)
        | (Some i, None) \<Rightarrow> Some i
        | (None, Some j) \<Rightarrow> Some j
        | (None, None) \<Rightarrow> None) in
      case at of None \<Rightarrow> None | Some n \<Rightarrow> if take n key = [] then None else Some (take n key))"

section \<open>Roll-up\<close>

definition merge_counts :: "('k::linorder, u64) btree \<Rightarrow> ('k, u64) btree \<Rightarrow> ('k, u64) btree" where
  "merge_counts dst src = fold (\<lambda>(k, v). bt_entry k 0 (\<lambda>c. c + v)) src dst"

definition merge_prop_stats :: "prop_stats \<Rightarrow> prop_stats \<Rightarrow> prop_stats" where
  "merge_prop_stats d s = \<lparr>ps_count = ps_count d + ps_count s, ps_types = merge_counts (ps_types d) (ps_types s),
     ps_descriptions = merge_counts (ps_descriptions d) (ps_descriptions s)\<rparr>"

definition merge_label_stats :: "label_stats \<Rightarrow> label_stats \<Rightarrow> label_stats" where
  "merge_label_stats d s = \<lparr>ls_count = ls_count d + ls_count s,
     ls_properties = fold (\<lambda>(k, ps). bt_entry k prop_stats_default (\<lambda>d. merge_prop_stats d ps))
       (ls_properties s) (ls_properties d)\<rparr>"

definition merge_edge_type_stats :: "edge_type_stats \<Rightarrow> edge_type_stats \<Rightarrow> edge_type_stats" where
  "merge_edge_type_stats d s =
     fold (\<lambda>c. add_connection (cn_src_label c) (cn_dst_label c) (cn_count c)) (es_connections s)
       (d\<lparr>es_count := es_count d + es_count s\<rparr>)"

definition catalog_merge :: "catalog_snapshot \<Rightarrow> catalog_snapshot \<Rightarrow> catalog_snapshot" where
  "catalog_merge a b =
     \<lparr>cat_node_count = cat_node_count a + cat_node_count b,
      cat_edge_count = cat_edge_count a + cat_edge_count b,
      cat_labels = fold (\<lambda>(l, s). bt_entry l label_stats_default (\<lambda>d. merge_label_stats d s)) (cat_labels b) (cat_labels a),
      cat_edge_types = fold (\<lambda>(ty, s). bt_entry ty edge_type_stats_default (\<lambda>d. merge_edge_type_stats d s))
        (cat_edge_types b) (cat_edge_types a),
      cat_key_prefixes = fold (\<lambda>(producer, prefixes). bt_entry producer [] (\<lambda>d. fold (\<lambda>(x, u). bt_insert x u) prefixes d))
        (cat_key_prefixes b) (cat_key_prefixes a)\<rparr>"

section \<open>Summary counters\<close>

record plane_counters =
  ct_nodes :: u64
  ct_edges :: u64
  ct_labels :: "(str, u64) btree"
  ct_edge_types :: "(str, u64) btree"

definition counters_default :: plane_counters where
  "counters_default = \<lparr>ct_nodes = 0, ct_edges = 0, ct_labels = [], ct_edge_types = []\<rparr>"

definition counters_merge :: "plane_counters \<Rightarrow> plane_counters \<Rightarrow> plane_counters" where
  "counters_merge a b =
     \<lparr>ct_nodes = ct_nodes a + ct_nodes b, ct_edges = ct_edges a + ct_edges b,
      ct_labels = merge_counts (ct_labels a) (ct_labels b),
      ct_edge_types = merge_counts (ct_edge_types a) (ct_edge_types b)\<rparr>"

text \<open>The serialisation of a counters row by the crate \<open>postcard\<close>, as a parameter.\<close>

record counters_codec =
  ser_counters :: "plane_counters \<Rightarrow> bytes"
  de_counters :: "bytes \<Rightarrow> (plane_counters \<times> bytes) option"

definition counters_encode :: "counters_codec \<Rightarrow> plane_counters \<Rightarrow> bytes" where
  "counters_encode cc c = ser_counters cc c"

definition counters_decode :: "counters_codec \<Rightarrow> bytes \<Rightarrow> plane_counters res" where
  "counters_decode cc b = ok_or Corrupt (map_option fst (de_counters cc b))"

text \<open>What holds of every value of the Rust type, and what the code relies on.\<close>

definition counters_ok :: "plane_counters \<Rightarrow> bool" where
  "counters_ok c \<longleftrightarrow> bt_ok (ct_labels c) \<and> bt_ok (ct_edge_types c) \<and>
     (\<forall>k \<in> set (map fst (ct_labels c)) \<union> set (map fst (ct_edge_types c)). utf8_ok k)"

definition counters_codec_ok :: "counters_codec \<Rightarrow> bool" where
  "counters_codec_ok cc \<longleftrightarrow> (\<forall>c r. counters_ok c \<longrightarrow> de_counters cc (ser_counters cc c @ r) = Some (c, r))"

lemma counters_decode_encode [simp]:
  assumes "counters_codec_ok cc" "counters_ok c"
  shows "counters_decode cc (counters_encode cc c) = Inr c"
proof -
  have "de_counters cc (ser_counters cc c @ []) = Some (c, [])"
    using assms unfolding counters_codec_ok_def by blast
  then show ?thesis by (simp add: counters_decode_def counters_encode_def)
qed

definition count_node :: "node_record \<Rightarrow> plane_counters \<Rightarrow> plane_counters" where
  "count_node node out =
     (out\<lparr>ct_nodes := ct_nodes out + 1\<rparr>)
       \<lparr>ct_labels := fold (\<lambda>l. bt_entry l 0 (\<lambda>c. c + 1)) (nr_labels node) (ct_labels out)\<rparr>"

definition count_edge :: "edge_record \<Rightarrow> plane_counters \<Rightarrow> plane_counters" where
  "count_edge edge out =
     (out\<lparr>ct_edges := ct_edges out + 1\<rparr>)
       \<lparr>ct_edge_types := bt_entry (er_ty edge) 0 (\<lambda>c. c + 1) (ct_edge_types out)\<rparr>"

text \<open>A loop over ids that loads each record, skips the missing ones and folds the others in.\<close>

fun fold_loaded :: "('i \<Rightarrow> 'r option res) \<Rightarrow> ('r \<Rightarrow> 's \<Rightarrow> 's) \<Rightarrow> 'i list \<Rightarrow> 's \<Rightarrow> 's res" where
  "fold_loaded load f [] s = Inr s"
| "fold_loaded load f (i # is) s =
     res_bind (load i) (\<lambda>found. fold_loaded load f is (case found of None \<Rightarrow> s | Some r \<Rightarrow> f r s))"

definition catalog_count :: "'t vtable \<Rightarrow> postcard \<Rightarrow> 't \<Rightarrow> plane_id \<Rightarrow> plane_counters res" where
  "catalog_count V pc t plane =
     res_bind (scan_all V t plane) (\<lambda>ids.
     res_bind (fold_loaded (get_node V pc t plane) count_node ids counters_default) (\<lambda>out.
     res_bind (scan_edges V t plane) (\<lambda>eids.
     fold_loaded (get_edge V pc t plane) count_edge eids out)))"

section \<open>The catalogue of a plane\<close>

text \<open>The state of the node pass: the catalogue, the interned label names and every node's label ids.\<close>

record node_pass =
  np_cat :: catalog_snapshot
  np_label_ids :: "str \<rightharpoonup> u32"
  np_label_names :: "str list"
  np_labels_of :: "node_id \<rightharpoonup> u32 list"

definition intern_name :: "str \<Rightarrow> node_pass \<Rightarrow> u32 \<times> node_pass" where
  "intern_name l st =
     (case np_label_ids st l of
        Some i \<Rightarrow> (i, st)
      | None \<Rightarrow>
          let names = np_label_names st @ [l]; i = of_nat (length names - 1) in
          (i, st\<lparr>np_label_names := names, np_label_ids := (np_label_ids st)(l \<mapsto> i)\<rparr>))"

fun intern_names :: "str list \<Rightarrow> node_pass \<Rightarrow> u32 list \<times> node_pass" where
  "intern_names [] st = ([], st)"
| "intern_names (l # ls) st =
     (let (i, st1) = intern_name l st; (is, st2) = intern_names ls st1 in (i # is, st2))"

definition producer_of :: "node_record \<Rightarrow> str" where
  "producer_of node =
     (case map_option pd_value (map_of (nr_properties node) (bstr ''_generated_by'')) of
        Some (PStr s) \<Rightarrow> s
      | _ \<Rightarrow> UNATTRIBUTED)"

definition note_prefix :: "node_record \<Rightarrow> catalog_snapshot \<Rightarrow> catalog_snapshot" where
  "note_prefix node cat =
     (case Option.bind (nr_external_key node) key_prefix of
        None \<Rightarrow> cat
      | Some x \<Rightarrow> cat\<lparr>cat_key_prefixes := bt_entry (producer_of node) [] (bt_insert x ()) (cat_key_prefixes cat)\<rparr>)"

definition note_prop :: "prop_desc \<Rightarrow> prop_stats \<Rightarrow> prop_stats" where
  "note_prop prop ps =
     \<lparr>ps_count = ps_count ps + 1,
      ps_types = bt_entry (value_type_of (pd_value prop)) 0 (\<lambda>c. c + 1) (ps_types ps),
      ps_descriptions = (case pd_description prop of
          None \<Rightarrow> ps_descriptions ps
        | Some d \<Rightarrow> bt_entry d 0 (\<lambda>c. c + 1) (ps_descriptions ps))\<rparr>"

definition note_label :: "props \<Rightarrow> label_stats \<Rightarrow> label_stats" where
  "note_label properties ls =
     \<lparr>ls_count = ls_count ls + 1,
      ls_properties = fold (\<lambda>(key, prop). bt_entry key prop_stats_default (note_prop prop)) properties (ls_properties ls)\<rparr>"

definition note_node :: "node_record \<Rightarrow> node_pass \<Rightarrow> node_pass" where
  "note_node node st =
     (let (interned, st1) = intern_names (nr_labels node)
            (st\<lparr>np_cat := (np_cat st)\<lparr>cat_node_count := cat_node_count (np_cat st) + 1\<rparr>\<rparr>);
          st2 = st1\<lparr>np_labels_of := (np_labels_of st1)(nr_id node \<mapsto> interned)\<rparr>;
          cat = note_prefix node (np_cat st2) in
      st2\<lparr>np_cat := cat\<lparr>cat_labels :=
        fold (\<lambda>l. bt_entry l label_stats_default (note_label (nr_properties node))) (nr_labels node) (cat_labels cat)\<rparr>\<rparr>)"

definition labels_at :: "node_pass \<Rightarrow> node_id \<Rightarrow> u32 list" where
  "labels_at st n = (case np_labels_of st n of None \<Rightarrow> [] | Some ls \<Rightarrow> ls)"

definition link_labels :: "str list \<Rightarrow> u32 list \<Rightarrow> u32 list \<Rightarrow> edge_type_stats \<Rightarrow> edge_type_stats" where
  "link_labels names srcs dsts ets =
     fold (\<lambda>sl. fold (\<lambda>dl. add_connection (names ! unat sl) (names ! unat dl) 1) dsts) srcs ets"

definition note_edge :: "node_pass \<Rightarrow> edge_record \<Rightarrow> catalog_snapshot \<Rightarrow> catalog_snapshot" where
  "note_edge st edge cat =
     cat\<lparr>cat_edge_count := cat_edge_count cat + 1,
       cat_edge_types := bt_entry (er_ty edge) edge_type_stats_default
         (\<lambda>ets. link_labels (np_label_names st) (labels_at st (er_src edge)) (labels_at st (er_dst edge))
            (ets\<lparr>es_count := es_count ets + 1\<rparr>)) (cat_edge_types cat)\<rparr>"

definition catalog_compute :: "'t vtable \<Rightarrow> postcard \<Rightarrow> 't \<Rightarrow> plane_id \<Rightarrow> catalog_snapshot res" where
  "catalog_compute V pc t plane =
     res_bind (scan_all V t plane) (\<lambda>ids.
     res_bind (fold_loaded (get_node V pc t plane) note_node ids
        \<lparr>np_cat = catalog_default, np_label_ids = Map.empty, np_label_names = [], np_labels_of = Map.empty\<rparr>) (\<lambda>st.
     res_bind (scan_edges V t plane) (\<lambda>eids.
     fold_loaded (get_edge V pc t plane) (note_edge st) eids (np_cat st))))"

end
