(* ===== verification/Write_Txn.thy ===== *)
theory Write_Txn
  imports Catalog Graph_Bulk
begin

text \<open>
  The plane-scoped write transaction of \<open>api/mod.rs\<close>. Besides staging rows through the graph layer it
  buffers what its commit has to bring in step: the change of the plane's summary counters, the events
  that mirror vectors and texts into the in-memory indexes, and the change feed. An operation that fails
  keeps what it did before, as in the source.
\<close>

section \<open>Counter changes\<close>

record counter_delta =
  dl_nodes :: i64
  dl_edges :: i64
  dl_labels :: "(str, i64) btree"
  dl_edge_types :: "(str, i64) btree"

definition delta_default :: counter_delta where
  "delta_default = \<lparr>dl_nodes = 0, dl_edges = 0, dl_labels = [], dl_edge_types = []\<rparr>"

definition delta_is_empty :: "counter_delta \<Rightarrow> bool" where
  "delta_is_empty d \<longleftrightarrow> dl_nodes d = 0 \<and> dl_edges d = 0 \<and>
     list_all (\<lambda>(k, v). v = 0) (dl_labels d) \<and> list_all (\<lambda>(k, v). v = 0) (dl_edge_types d)"

definition delta_labels :: "i64 \<Rightarrow> str list \<Rightarrow> counter_delta \<Rightarrow> counter_delta" where
  "delta_labels by_n labels d = d\<lparr>dl_labels := fold (\<lambda>l. bt_entry l 0 (\<lambda>c. c + by_n)) labels (dl_labels d)\<rparr>"

definition delta_type :: "i64 \<Rightarrow> str \<Rightarrow> counter_delta \<Rightarrow> counter_delta" where
  "delta_type by_n ty d = d\<lparr>dl_edge_types := bt_entry ty 0 (\<lambda>c. c + by_n) (dl_edge_types d)\<rparr>"

definition node_added :: "str list \<Rightarrow> counter_delta \<Rightarrow> counter_delta" where
  "node_added labels d = delta_labels 1 labels (d\<lparr>dl_nodes := dl_nodes d + 1\<rparr>)"

definition node_removed :: "str list \<Rightarrow> counter_delta \<Rightarrow> counter_delta" where
  "node_removed labels d = delta_labels (- 1) labels (d\<lparr>dl_nodes := dl_nodes d - 1\<rparr>)"

definition edge_added :: "str \<Rightarrow> counter_delta \<Rightarrow> counter_delta" where
  "edge_added ty d = delta_type 1 ty (d\<lparr>dl_edges := dl_edges d + 1\<rparr>)"

definition edge_removed :: "str \<Rightarrow> counter_delta \<Rightarrow> counter_delta" where
  "edge_removed ty d = delta_type (- 1) ty (d\<lparr>dl_edges := dl_edges d - 1\<rparr>)"

text \<open>\<open>u64::saturating_add_signed\<close>.\<close>

definition saturating_add_signed :: "u64 \<Rightarrow> i64 \<Rightarrow> u64" where
  "saturating_add_signed v d = word_of_int (min (2 ^ 64 - 1) (max 0 (uint v + sint d)))"

definition shift_counts :: "(str, i64) btree \<Rightarrow> (str, u64) btree \<Rightarrow> (str, u64) btree" where
  "shift_counts ds m =
     filter (\<lambda>(k, v). 0 < v) (fold (\<lambda>(k, d). bt_entry k 0 (\<lambda>v. saturating_add_signed v d)) ds m)"

definition delta_apply :: "counter_delta \<Rightarrow> plane_counters \<Rightarrow> plane_counters" where
  "delta_apply d stored =
     \<lparr>ct_nodes = saturating_add_signed (ct_nodes stored) (dl_nodes d),
      ct_edges = saturating_add_signed (ct_edges stored) (dl_edges d),
      ct_labels = shift_counts (dl_labels d) (ct_labels stored),
      ct_edge_types = shift_counts (dl_edge_types d) (ct_edge_types stored)\<rparr>"

section \<open>The change buffer\<close>

datatype change_kind = NodeKind | EdgeKind
datatype change_op = Created | Updated | Deleted

definition CHANGE_DETAIL_CAP :: nat where
  "CHANGE_DETAIL_CAP = 256"

record change_buffer =
  cb_entries :: "(change_kind \<times> u64 \<times> change_op) list"
  cb_tracked :: "(change_kind \<times> u64) set"
  cb_overflowed :: bool

definition change_buffer_default :: change_buffer where
  "change_buffer_default = \<lparr>cb_entries = [], cb_tracked = {}, cb_overflowed = False\<rparr>"

definition cb_push :: "change_kind \<Rightarrow> u64 \<Rightarrow> change_op \<Rightarrow> change_buffer \<Rightarrow> change_buffer" where
  "cb_push kind i op b =
     (if (kind, i) \<in> cb_tracked b then b\<lparr>cb_entries := cb_entries b @ [(kind, i, op)]\<rparr>
      else if card (cb_tracked b) < CHANGE_DETAIL_CAP
      then b\<lparr>cb_tracked := insert (kind, i) (cb_tracked b), cb_entries := cb_entries b @ [(kind, i, op)]\<rparr>
      else b\<lparr>cb_overflowed := True\<rparr>)"

definition cb_is_empty :: "change_buffer \<Rightarrow> bool" where
  "cb_is_empty b \<longleftrightarrow> cb_entries b = [] \<and> \<not> cb_overflowed b"

section \<open>Index events\<close>

text \<open>
  \<open>IndexEvent\<close> and \<open>KwEvent\<close> have the same shape, over vectors and over texts; a declared index looks at
  one label and one property. \<open>pick\<close> reads the indexable value of a property.
\<close>

datatype 'v mirror_event = Upsert str str node_id 'v | Remove str str node_id | RemoveNode node_id

type_synonym index_event = "f32 list mirror_event"
type_synonym kw_event = "str mirror_event"
type_synonym 'm decls = "(str \<times> str \<times> 'm) list"

fun pick_vector :: "prop_value \<Rightarrow> f32 list option" where
  "pick_vector (PVector v) = Some v"
| "pick_vector _ = None"

fun pick_text :: "prop_value \<Rightarrow> str option" where
  "pick_text (PStr s) = Some s"
| "pick_text _ = None"

definition picked :: "(prop_value \<Rightarrow> 'v option) \<Rightarrow> props \<Rightarrow> str \<Rightarrow> 'v option" where
  "picked pick ps property = Option.bind (map_of ps property) (\<lambda>d. pick (pd_value d))"

definition upsert_or_remove :: "str \<Rightarrow> str \<Rightarrow> node_id \<Rightarrow> 'v option \<Rightarrow> 'v mirror_event" where
  "upsert_or_remove label property node v =
     (case v of Some v \<Rightarrow> Upsert label property node v | None \<Rightarrow> Remove label property node)"

definition node_events ::
    "(prop_value \<Rightarrow> 'v option) \<Rightarrow> 'm decls \<Rightarrow> node_id \<Rightarrow> str list \<Rightarrow> props \<Rightarrow> 'v mirror_event list" where
  "node_events pick decls node labels ps =
     List.map_filter (\<lambda>(label, property, m).
       if label \<in> set labels then Some (upsert_or_remove label property node (picked pick ps property)) else None) decls"

definition labels_events ::
    "(prop_value \<Rightarrow> 'v option) \<Rightarrow> 'm decls \<Rightarrow> node_id \<Rightarrow> str list \<Rightarrow> str list \<Rightarrow> props \<Rightarrow> 'v mirror_event list" where
  "labels_events pick decls node old new ps =
     List.map_filter (\<lambda>(label, property, m).
       let had = (label \<in> set old); has = (label \<in> set new) in
       if had = has then None
       else case picked pick ps property of
              Some v \<Rightarrow> Some (if has then Upsert label property node v else Remove label property node)
            | None \<Rightarrow> None) decls"

definition prop_events_of ::
    "(prop_value \<Rightarrow> 'v option) \<Rightarrow> 'm decls \<Rightarrow> node_id \<Rightarrow> str list \<Rightarrow> str \<Rightarrow> prop_value option \<Rightarrow> 'v mirror_event list" where
  "prop_events_of pick decls node labels key value =
     List.map_filter (\<lambda>(label, property, m).
       if property = key \<and> label \<in> set labels
       then Some (upsert_or_remove label property node (Option.bind value pick)) else None) decls"

text \<open>A bulk load emits no event for a created node without an indexable value.\<close>

definition bulk_events ::
    "(prop_value \<Rightarrow> 'v option) \<Rightarrow> 'm decls \<Rightarrow> node_id \<Rightarrow> bulk_node \<Rightarrow> 'v mirror_event list" where
  "bulk_events pick decls node b =
     List.map_filter (\<lambda>(label, property, m).
       if label \<in> set (bn_labels b)
       then map_option (Upsert label property node) (picked pick (bn_props b) property) else None) decls"

section \<open>The transaction\<close>

record 't write_txn =
  wt_plane :: plane_id
  wt_inner :: 't
  wt_ids :: id_allocator
  wt_decls :: "metric decls"
  wt_events :: "index_event list"
  wt_kw_decls :: "language decls"
  wt_kw_events :: "kw_event list"
  wt_changes :: change_buffer
  wt_counters :: counter_delta

definition wt_write :: "plane_id \<Rightarrow> metric decls \<Rightarrow> language decls \<Rightarrow> 't \<Rightarrow> 't write_txn" where
  "wt_write plane decls kw_decls t =
     \<lparr>wt_plane = plane, wt_inner = t, wt_ids = id_allocator_new, wt_decls = decls, wt_events = [],
      wt_kw_decls = kw_decls, wt_kw_events = [], wt_changes = change_buffer_default, wt_counters = delta_default\<rparr>"

text \<open>A graph operation on the inner transaction, the allocator on it, and an update of the buffers.\<close>

definition on_txn :: "('t, 'a) act \<Rightarrow> ('t write_txn, 'a) act" where
  "on_txn a w = (case a (wt_inner w) of (r, t) \<Rightarrow> (r, w\<lparr>wt_inner := t\<rparr>))"

definition on_ids :: "(id_allocator \<Rightarrow> ('t, 'a \<times> id_allocator) act) \<Rightarrow> ('t write_txn, 'a) act" where
  "on_ids a w =
     (case a (wt_ids w) (wt_inner w) of
        (Inl e, t) \<Rightarrow> (Inl e, w\<lparr>wt_inner := t\<rparr>)
      | (Inr (x, ids), t) \<Rightarrow> (Inr x, w\<lparr>wt_inner := t, wt_ids := ids\<rparr>))"

definition modify :: "('s \<Rightarrow> 's) \<Rightarrow> ('s, unit) act" where
  "modify f s = (Inr (), f s)"

definition record_change :: "change_kind \<Rightarrow> u64 \<Rightarrow> change_op \<Rightarrow> 't write_txn \<Rightarrow> 't write_txn" where
  "record_change kind i op w = w\<lparr>wt_changes := cb_push kind i op (wt_changes w)\<rparr>"

definition record_node_events :: "node_id \<Rightarrow> str list \<Rightarrow> props \<Rightarrow> 't write_txn \<Rightarrow> 't write_txn" where
  "record_node_events node labels ps w =
     w\<lparr>wt_events := wt_events w @ node_events pick_vector (wt_decls w) node labels ps\<rparr>"

definition record_kw_node_events :: "node_id \<Rightarrow> str list \<Rightarrow> props \<Rightarrow> 't write_txn \<Rightarrow> 't write_txn" where
  "record_kw_node_events node labels ps w =
     w\<lparr>wt_kw_events := wt_kw_events w @ node_events pick_text (wt_kw_decls w) node labels ps\<rparr>"

definition record_labels_event :: "node_id \<Rightarrow> str list \<Rightarrow> str list \<Rightarrow> props \<Rightarrow> 't write_txn \<Rightarrow> 't write_txn" where
  "record_labels_event node old new ps w =
     w\<lparr>wt_events := wt_events w @ labels_events pick_vector (wt_decls w) node old new ps\<rparr>"

definition record_kw_labels_event :: "node_id \<Rightarrow> str list \<Rightarrow> str list \<Rightarrow> props \<Rightarrow> 't write_txn \<Rightarrow> 't write_txn" where
  "record_kw_labels_event node old new ps w =
     w\<lparr>wt_kw_events := wt_kw_events w @ labels_events pick_text (wt_kw_decls w) node old new ps\<rparr>"

text \<open>A single-property change: nothing is read unless a declared index names the property.\<close>

definition names_property :: "'m decls \<Rightarrow> str \<Rightarrow> bool" where
  "names_property decls key \<longleftrightarrow> list_ex (\<lambda>(l, property, m). property = key) decls"

definition record_prop_event ::
    "'t vtable \<Rightarrow> postcard \<Rightarrow> node_id \<Rightarrow> str \<Rightarrow> prop_value option \<Rightarrow> ('t write_txn, unit) act" where
  "record_prop_event V pc node key value w =
     (if \<not> names_property (wt_decls w) key then (Inr (), w)
      else act_bind (on_txn (reading (\<lambda>t. get_node V pc t (wt_plane w) node))) (\<lambda>found.
        case found of
          None \<Rightarrow> ret ()
        | Some n \<Rightarrow> modify (\<lambda>w. w\<lparr>wt_events := wt_events w @
            prop_events_of pick_vector (wt_decls w) node (nr_labels n) key value\<rparr>)) w)"

definition record_kw_prop_event ::
    "'t vtable \<Rightarrow> postcard \<Rightarrow> node_id \<Rightarrow> str \<Rightarrow> prop_value option \<Rightarrow> ('t write_txn, unit) act" where
  "record_kw_prop_event V pc node key value w =
     (if \<not> names_property (wt_kw_decls w) key then (Inr (), w)
      else act_bind (on_txn (reading (\<lambda>t. get_node V pc t (wt_plane w) node))) (\<lambda>found.
        case found of
          None \<Rightarrow> ret ()
        | Some n \<Rightarrow> modify (\<lambda>w. w\<lparr>wt_kw_events := wt_kw_events w @
            prop_events_of pick_text (wt_kw_decls w) node (nr_labels n) key value\<rparr>)) w)"

section \<open>Operations\<close>

definition on_counters :: "(counter_delta \<Rightarrow> counter_delta) \<Rightarrow> 't write_txn \<Rightarrow> 't write_txn" where
  "on_counters f w = w\<lparr>wt_counters := f (wt_counters w)\<rparr>"

definition wt_create_impl ::
    "'t vtable \<Rightarrow> postcard \<Rightarrow> str option \<Rightarrow> str list \<Rightarrow> props \<Rightarrow> ('t write_txn, node_id) act" where
  "wt_create_impl V pc external_key labels ps w =
     act_bind (on_ids (next_node_id V)) (\<lambda>i.
     act_bind (on_txn (insert_node V pc (wt_plane w) i external_key labels ps)) (\<lambda>_.
     act_bind (modify (on_counters (node_added labels))) (\<lambda>_.
     act_bind (modify (record_node_events i labels ps)) (\<lambda>_.
     act_bind (modify (record_kw_node_events i labels ps)) (\<lambda>_.
     act_bind (modify (record_change NodeKind i Created)) (\<lambda>_. ret i)))))) w"

definition wt_create_node :: "'t vtable \<Rightarrow> postcard \<Rightarrow> str list \<Rightarrow> props \<Rightarrow> ('t write_txn, node_id) act" where
  "wt_create_node V pc labels ps = wt_create_impl V pc None labels ps"

definition wt_create_node_with_key ::
    "'t vtable \<Rightarrow> postcard \<Rightarrow> str \<Rightarrow> str list \<Rightarrow> props \<Rightarrow> ('t write_txn, node_id) act" where
  "wt_create_node_with_key V pc external_key labels ps = wt_create_impl V pc (Some external_key) labels ps"

definition wt_create_edge ::
    "'t vtable \<Rightarrow> postcard \<Rightarrow> node_id \<Rightarrow> node_id \<Rightarrow> str \<Rightarrow> props \<Rightarrow> ('t write_txn, edge_id) act" where
  "wt_create_edge V pc src dst ty ps w =
     act_bind (on_ids (next_edge_id V)) (\<lambda>i.
     act_bind (on_txn (insert_edge V pc (wt_plane w) i src dst ty ps)) (\<lambda>_.
     act_bind (modify (on_counters (edge_added ty))) (\<lambda>_.
     act_bind (modify (record_change EdgeKind i Created)) (\<lambda>_. ret i)))) w"

text \<open>What a node deletion takes from the counters: the type of every incident edge, then the node.\<close>

definition uncount_edge :: "'t vtable \<Rightarrow> postcard \<Rightarrow> edge_id \<Rightarrow> ('t write_txn, unit) act" where
  "uncount_edge V pc e w =
     act_bind (on_txn (reading (\<lambda>t. get_edge V pc t (wt_plane w) e))) (\<lambda>found.
     modify (case found of None \<Rightarrow> (\<lambda>w. w) | Some edge \<Rightarrow> on_counters (edge_removed (er_ty edge)))) w"

definition uncount_node :: "'t vtable \<Rightarrow> postcard \<Rightarrow> node_id \<Rightarrow> ('t write_txn, unit) act" where
  "uncount_node V pc i w =
     act_bind (on_txn (reading (\<lambda>t. get_node V pc t (wt_plane w) i))) (\<lambda>found.
     case found of
       None \<Rightarrow> ret ()
     | Some node \<Rightarrow>
         act_bind (on_txn (reading (\<lambda>t. neighbors V t (wt_plane w) i Both None))) (\<lambda>ns.
         act_bind (act_iter (uncount_edge V pc) (sort_dedup (map nb_edge ns))) (\<lambda>_.
         modify (on_counters (node_removed (nr_labels node)))))) w"

definition wt_delete_node :: "'t vtable \<Rightarrow> postcard \<Rightarrow> node_id \<Rightarrow> ('t write_txn, unit) act" where
  "wt_delete_node V pc i w =
     act_bind (uncount_node V pc i) (\<lambda>_.
     act_bind (on_txn (delete_node V pc (wt_plane w) i)) (\<lambda>_.
     act_bind (modify (\<lambda>w. w\<lparr>wt_events := wt_events w @ [RemoveNode i], wt_kw_events := wt_kw_events w @ [RemoveNode i]\<rparr>)) (\<lambda>_.
     modify (record_change NodeKind i Deleted)))) w"

definition wt_delete_edge :: "'t vtable \<Rightarrow> postcard \<Rightarrow> edge_id \<Rightarrow> ('t write_txn, unit) act" where
  "wt_delete_edge V pc i w =
     act_bind (uncount_edge V pc i) (\<lambda>_.
     act_bind (on_txn (delete_edge V pc (wt_plane w) i)) (\<lambda>_.
     modify (record_change EdgeKind i Deleted))) w"

definition wt_set_prop :: "'t vtable \<Rightarrow> postcard \<Rightarrow> node_id \<Rightarrow> str \<Rightarrow> prop_desc \<Rightarrow> ('t write_txn, unit) act" where
  "wt_set_prop V pc i key prop w =
     act_bind (on_txn (set_node_prop V pc (wt_plane w) i key prop)) (\<lambda>_.
     act_bind (record_prop_event V pc i key (Some (pd_value prop))) (\<lambda>_.
     act_bind (record_kw_prop_event V pc i key (Some (pd_value prop))) (\<lambda>_.
     modify (record_change NodeKind i Updated)))) w"

definition wt_remove_prop :: "'t vtable \<Rightarrow> postcard \<Rightarrow> node_id \<Rightarrow> str \<Rightarrow> ('t write_txn, unit) act" where
  "wt_remove_prop V pc i key w =
     act_bind (on_txn (remove_node_prop V pc (wt_plane w) i key)) (\<lambda>_.
     act_bind (record_prop_event V pc i key None) (\<lambda>_.
     act_bind (record_kw_prop_event V pc i key None) (\<lambda>_.
     modify (record_change NodeKind i Updated)))) w"

definition wt_set_labels :: "'t vtable \<Rightarrow> postcard \<Rightarrow> node_id \<Rightarrow> str list \<Rightarrow> ('t write_txn, unit) act" where
  "wt_set_labels V pc i labels w =
     act_bind (on_txn (reading (\<lambda>t. res_bind (get_node V pc t (wt_plane w) i) (ok_or NotFound)))) (\<lambda>node.
     act_bind (on_txn (set_node_labels V pc (wt_plane w) i labels)) (\<lambda>_.
     act_bind (modify (on_counters (\<lambda>d. delta_labels 1 labels (delta_labels (- 1) (nr_labels node) d)))) (\<lambda>_.
     act_bind (modify (record_labels_event i (nr_labels node) labels (nr_properties node))) (\<lambda>_.
     act_bind (modify (record_kw_labels_event i (nr_labels node) labels (nr_properties node))) (\<lambda>_.
     modify (record_change NodeKind i Updated)))))) w"

definition wt_set_edge_prop :: "'t vtable \<Rightarrow> postcard \<Rightarrow> edge_id \<Rightarrow> str \<Rightarrow> prop_desc \<Rightarrow> ('t write_txn, unit) act" where
  "wt_set_edge_prop V pc i key prop w =
     act_bind (on_txn (set_edge_prop V pc (wt_plane w) i key prop)) (\<lambda>_.
     modify (record_change EdgeKind i Updated)) w"

definition wt_remove_edge_prop :: "'t vtable \<Rightarrow> postcard \<Rightarrow> edge_id \<Rightarrow> str \<Rightarrow> ('t write_txn, unit) act" where
  "wt_remove_edge_prop V pc i key w =
     act_bind (on_txn (remove_edge_prop V pc (wt_plane w) i key)) (\<lambda>_.
     modify (record_change EdgeKind i Updated)) w"

definition wt_set_edge_type :: "'t vtable \<Rightarrow> postcard \<Rightarrow> edge_id \<Rightarrow> str \<Rightarrow> ('t write_txn, unit) act" where
  "wt_set_edge_type V pc i ty w =
     act_bind (on_txn (reading (\<lambda>t. get_edge V pc t (wt_plane w) i))) (\<lambda>found.
     act_bind (modify (case found of
         Some edge \<Rightarrow> if er_ty edge \<noteq> ty then on_counters (\<lambda>d. delta_type 1 ty (delta_type (- 1) (er_ty edge) d)) else (\<lambda>w. w)
       | None \<Rightarrow> (\<lambda>w. w))) (\<lambda>_.
     act_bind (on_txn (set_edge_type V pc (wt_plane w) i ty)) (\<lambda>_.
     modify (record_change EdgeKind i Updated)))) w"

definition wt_bulk_load_edges :: "'t vtable \<Rightarrow> postcard \<Rightarrow> bulk_edge_by_id list \<Rightarrow> ('t write_txn, u64) act" where
  "wt_bulk_load_edges V pc edges w =
     act_bind (on_txn (bulk_load_edges V pc (wt_plane w) edges)) (\<lambda>n.
     act_bind (modify (on_counters (fold (\<lambda>e. edge_added (bi_ty e)) edges))) (\<lambda>_. ret n)) w"

section \<open>Bulk upsert\<close>

definition merge_existing :: "'t vtable \<Rightarrow> postcard \<Rightarrow> bulk_node list \<Rightarrow> nat \<times> node_id \<Rightarrow> ('t write_txn, unit) act" where
  "merge_existing V pc nodes = (\<lambda>(i, id).
     act_bind (act_iter (\<lambda>(key, prop). wt_set_prop V pc id key prop) (bn_props (nodes ! i))) (\<lambda>_.
     if bn_labels (nodes ! i) \<noteq> [] then wt_set_labels V pc id (bn_labels (nodes ! i)) else ret ()))"

text \<open>The created nodes with their ids: every input position that no live node kept.\<close>

definition bulk_created :: "bulk_stats \<Rightarrow> bulk_node list \<Rightarrow> (node_id \<times> bulk_node) list" where
  "bulk_created stats nodes =
     map (\<lambda>i. (bs_node_ids stats ! i, nodes ! i)) (filter (\<lambda>i. i \<notin> fst ` set (bs_existing stats)) [0 ..< length nodes])"

fun note_created :: "node_id list \<Rightarrow> change_buffer \<Rightarrow> change_buffer" where
  "note_created [] b = b"
| "note_created (i # is) b = (if cb_overflowed b then b else note_created is (cb_push NodeKind i Created b))"

definition wt_bulk_upsert ::
    "'t vtable \<Rightarrow> postcard \<Rightarrow> bulk_node list \<Rightarrow> bulk_edge list \<Rightarrow> on_conflict \<Rightarrow> ('t write_txn, bulk_stats) act" where
  "wt_bulk_upsert V pc nodes edges oc w =
     act_bind (on_txn (bulk_load V pc (wt_plane w) nodes edges oc)) (\<lambda>stats.
     act_bind (if oc = OcUpdate then act_iter (merge_existing V pc nodes) (bs_existing stats) else ret ()) (\<lambda>_.
     let created = bulk_created stats nodes in
     act_bind (modify (on_counters (\<lambda>d. fold (\<lambda>e. edge_added (be_ty e)) edges
        (fold (\<lambda>(i, n). node_added (bn_labels n)) created d)))) (\<lambda>_.
     act_bind (modify (\<lambda>w. w\<lparr>wt_changes := note_created (map fst created) (wt_changes w)\<rparr>)) (\<lambda>_.
     act_bind (modify (\<lambda>w. w\<lparr>wt_events := wt_events w @
        concat (map (\<lambda>(i, n). bulk_events pick_vector (wt_decls w) i n) created)\<rparr>)) (\<lambda>_.
     act_bind (modify (\<lambda>w. w\<lparr>wt_kw_events := wt_kw_events w @
        concat (map (\<lambda>(i, n). bulk_events pick_text (wt_kw_decls w) i n) created)\<rparr>)) (\<lambda>_.
     ret stats)))))) w"

definition wt_bulk_load ::
    "'t vtable \<Rightarrow> postcard \<Rightarrow> bulk_node list \<Rightarrow> bulk_edge list \<Rightarrow> ('t write_txn, bulk_stats) act" where
  "wt_bulk_load V pc nodes edges = wt_bulk_upsert V pc nodes edges OcError"

section \<open>Commit\<close>

text \<open>
  The rows a commit adds before the engine publishes the transaction: the plane's counters, the next
  commit sequence and the time. The result is the sequence.
\<close>

definition fold_counters :: "'t vtable \<Rightarrow> counters_codec \<Rightarrow> ('t write_txn, unit) act" where
  "fold_counters V cc w =
     (if delta_is_empty (wt_counters w) then (Inr (), w)
      else
        let key = counters_key (wt_plane w); d = wt_counters w in
        act_bind (modify (on_counters (\<lambda>_. delta_default))) (\<lambda>_.
        act_bind (on_txn (reading (\<lambda>t. res_bind (v_get V t Meta key) (\<lambda>found.
           case found of Some b \<Rightarrow> counters_decode cc b | None \<Rightarrow> Inr counters_default)))) (\<lambda>stored.
        on_txn (v_put V Meta key (counters_encode cc (delta_apply d stored))))) w)"

definition seal :: "'t vtable \<Rightarrow> counters_codec \<Rightarrow> i64 \<Rightarrow> ('t write_txn, u64) act" where
  "seal V cc now =
     act_bind (fold_counters V cc) (\<lambda>_.
     act_bind (on_txn (bump_commit_seq V)) (\<lambda>seq.
     act_bind (on_txn (write_commit_time V now)) (\<lambda>_. ret seq)))"

text \<open>The counters a reader of the plane is shown.\<close>

definition plane_counters_read :: "'t vtable \<Rightarrow> postcard \<Rightarrow> counters_codec \<Rightarrow> 't \<Rightarrow> plane_id \<Rightarrow> plane_counters res" where
  "plane_counters_read V pc cc t plane =
     res_bind (v_get V t Meta (counters_key plane)) (\<lambda>found.
     case found of Some b \<Rightarrow> counters_decode cc b | None \<Rightarrow> catalog_count V pc t plane)"

end
