(* ===== verification/Keyword.thy ===== *)
theory Keyword
  imports Write_Txn Vector_Metric Comparison "HOL-Library.AList"
begin

text \<open>
  The keyword index: text analysis (\<open>text.rs\<close>) and the registry of inverted indexes with Okapi BM25
  scoring (\<open>keyword.rs\<close>).

  Unicode classification and lowercasing, the Snowball stemmers and the Chinese segmenter are the
  parameter \<open>text_lib\<close>. A hash map is an association list with distinct keys; the order in which one is
  iterated, like the natural logarithm of the platform and its floating point, is in \<open>kw_env\<close>.
\<close>

section \<open>Text analysis\<close>

record text_lib =
  tl_split :: "str \<Rightarrow> str list"
  tl_lower :: "str \<Rightarrow> str"
  tl_stem :: "language \<Rightarrow> str \<Rightarrow> str"
  tl_cut :: "str \<Rightarrow> str list"
  tl_alnum :: "str \<Rightarrow> bool"

definition ENGLISH_STOPWORDS :: "str list" where
  "ENGLISH_STOPWORDS = map bstr [
     ''a'', ''about'', ''above'', ''after'', ''again'', ''against'', ''all'', ''am'', ''an'', ''and'', ''any'',
     ''are'', ''as'', ''at'', ''be'', ''because'', ''been'', ''before'', ''being'', ''below'', ''between'',
     ''both'', ''but'', ''by'', ''can'', ''did'', ''do'', ''does'', ''doing'', ''down'', ''during'', ''each'',
     ''few'', ''for'', ''from'', ''further'', ''had'', ''has'', ''have'', ''having'', ''he'', ''her'',
     ''here'', ''hers'', ''herself'', ''him'', ''himself'', ''his'', ''how'', ''i'', ''if'', ''in'', ''into'',
     ''is'', ''it'', ''its'', ''itself'', ''just'', ''me'', ''more'', ''most'', ''my'', ''myself'', ''no'',
     ''nor'', ''not'', ''now'', ''of'', ''off'', ''on'', ''once'', ''only'', ''or'', ''other'', ''our'',
     ''ours'', ''ourselves'', ''out'', ''over'', ''own'', ''same'', ''she'', ''should'', ''so'', ''some'',
     ''such'', ''than'', ''that'', ''the'', ''their'', ''theirs'', ''them'', ''themselves'', ''then'',
     ''there'', ''these'', ''they'', ''this'', ''those'', ''through'', ''to'', ''too'', ''under'', ''until'',
     ''up'', ''very'', ''was'', ''we'', ''were'', ''what'', ''when'', ''where'', ''which'', ''while'', ''who'',
     ''whom'', ''why'', ''will'', ''with'', ''you'', ''your'', ''yours'', ''yourself'', ''yourselves'']"

definition chinese_stopwords :: "str list" where
  "chinese_stopwords = [
     [0xE7, 0x9A, 0x84], [0xE4, 0xBA, 0x86], [0xE7, 0x9D, 0x80], [0xE6, 0x98, 0xAF], [0xE5, 0x9C, 0xA8],
     [0xE5, 0x92, 0x8C], [0xE4, 0xB8, 0x8E], [0xE6, 0x88, 0x96], [0xE5, 0x8F, 0x8A], [0xE5, 0xB0, 0xB1],
     [0xE9, 0x83, 0xBD], [0xE8, 0x80, 0x8C], [0xE4, 0xB9, 0x9F], [0xE5, 0x8F, 0x88], [0xE4, 0xBD, 0x86],
     [0xE5, 0xB9, 0xB6], [0xE8, 0xA2, 0xAB], [0xE6, 0x8A, 0x8A], [0xE8, 0xAE, 0xA9], [0xE5, 0x90, 0x91],
     [0xE4, 0xBB, 0x8E], [0xE5, 0xAF, 0xB9], [0xE4, 0xB8, 0xBA], [0xE4, 0xBB, 0xA5], [0xE4, 0xBA, 0x8E],
     [0xE4, 0xB9, 0x8B], [0xE8, 0xBF, 0x99], [0xE9, 0x82, 0xA3], [0xE4, 0xBA, 0x9B], [0xE4, 0xB8, 0xAA],
     [0xE6, 0x88, 0x91], [0xE4, 0xBD, 0xA0], [0xE4, 0xBB, 0x96], [0xE5, 0xA5, 0xB9], [0xE5, 0xAE, 0x83],
     [0xE6, 0x88, 0x91, 0xE4, 0xBB, 0xAC], [0xE4, 0xBD, 0xA0, 0xE4, 0xBB, 0xAC],
     [0xE4, 0xBB, 0x96, 0xE4, 0xBB, 0xAC], [0xE4, 0xBB, 0x80, 0xE4, 0xB9, 0x88],
     [0xE6, 0x80, 0x8E, 0xE4, 0xB9, 0x88], [0xE8, 0xBF, 0x99, 0xE6, 0xA0, 0xB7],
     [0xE9, 0x82, 0xA3, 0xE6, 0xA0, 0xB7], [0xE4, 0xB8, 0x80, 0xE4, 0xB8, 0xAA],
     [0xE6, 0xB2, 0xA1, 0xE6, 0x9C, 0x89], [0xE4, 0xB8, 0x8D], [0xE5, 0xBE, 0x88], [0xE4, 0xBC, 0x9A],
     [0xE8, 0x83, 0xBD], [0xE8, 0xA6, 0x81], [0xE5, 0x8E, 0xBB], [0xE6, 0x9D, 0xA5], [0xE5, 0x88, 0xB0],
     [0xE5, 0x90, 0x97], [0xE5, 0x91, 0xA2], [0xE5, 0x90, 0xA7], [0xE5, 0x95, 0x8A], [0xE5, 0x98, 0x9B]]"

definition is_stopword :: "language \<Rightarrow> str \<Rightarrow> bool" where
  "is_stopword language token \<longleftrightarrow> language = English \<and> token \<in> set ENGLISH_STOPWORDS"

definition analyze_stemmed :: "text_lib \<Rightarrow> language \<Rightarrow> str \<Rightarrow> str list" where
  "analyze_stemmed TL language text =
     List.map_filter (\<lambda>raw.
       if raw = [] then None
       else
         let lower = tl_lower TL raw in
         if is_stopword language lower then None
         else
           let term = tl_stem TL language lower in
           if term = [] then None else Some term) (tl_split TL text)"

definition analyze_chinese :: "text_lib \<Rightarrow> str \<Rightarrow> str list" where
  "analyze_chinese TL text =
     filter (\<lambda>tok. tok \<notin> set chinese_stopwords) (map (tl_lower TL) (filter (tl_alnum TL) (tl_cut TL text)))"

definition analyze :: "text_lib \<Rightarrow> language \<Rightarrow> str \<Rightarrow> str list" where
  "analyze TL language text =
     (if language = Chinese then analyze_chinese TL text else analyze_stemmed TL language text)"

section \<open>One inverted index\<close>

record kw_env =
  kw_float :: fenv
  kw_ln :: "f32 \<Rightarrow> f32"
  kw_terms :: "(str \<times> u32) list \<Rightarrow> (str \<times> u32) list"
  kw_scores :: "(u64 \<times> f32) list \<Rightarrow> (u64 \<times> f32) list"

text \<open>Iterating a hash map visits every entry once.\<close>

definition kw_env_ok :: "kw_env \<Rightarrow> bool" where
  "kw_env_ok K \<longleftrightarrow> (\<forall>xs. mset (kw_terms K xs) = mset xs) \<and> (\<forall>xs. mset (kw_scores K xs) = mset xs)"

definition BM25_K1 :: f32 where "BM25_K1 = 0x3F99999A"
definition BM25_B :: f32 where "BM25_B = 0x3F400000"

record doc_entry =
  de_len :: u32
  de_terms :: "str list"

record kw_entry =
  ke_language :: language
  ke_postings :: "(str \<times> (u64 \<times> u32) list) list"
  ke_docs :: "(u64 \<times> doc_entry) list"
  ke_total_len :: u64

definition entry_new :: "language \<Rightarrow> kw_entry" where
  "entry_new language = \<lparr>ke_language = language, ke_postings = [], ke_docs = [], ke_total_len = 0\<rparr>"

text \<open>\<open>*tf.entry(t).or_insert(0) += 1\<close> for every token.\<close>

definition term_freqs :: "str list \<Rightarrow> (str \<times> u32) list" where
  "term_freqs tokens = fold (\<lambda>t. AList.map_default t 1 (\<lambda>c. c + 1)) tokens []"

definition push_posting :: "u64 \<Rightarrow> str \<times> u32 \<Rightarrow> (str \<times> (u64 \<times> u32) list) list \<Rightarrow> (str \<times> (u64 \<times> u32) list) list" where
  "push_posting node = (\<lambda>(term, n). AList.map_default term [(node, n)] (\<lambda>l. l @ [(node, n)]))"

definition add_doc :: "kw_env \<Rightarrow> text_lib \<Rightarrow> u64 \<Rightarrow> str \<Rightarrow> kw_entry \<Rightarrow> kw_entry" where
  "add_doc K TL node text e =
     (let tokens = analyze TL (ke_language e) text in
      if tokens = [] then e
      else
        let len = of_nat (length tokens); tf = kw_terms K (term_freqs tokens) in
        e\<lparr>ke_postings := fold (push_posting node) tf (ke_postings e),
          ke_total_len := ke_total_len e + ucast (len :: u32),
          ke_docs := AList.update node \<lparr>de_len = len, de_terms = map fst tf\<rparr> (ke_docs e)\<rparr>)"

definition drop_posting :: "u64 \<Rightarrow> str \<Rightarrow> (str \<times> (u64 \<times> u32) list) list \<Rightarrow> (str \<times> (u64 \<times> u32) list) list" where
  "drop_posting node term P =
     (case map_of P term of
        None \<Rightarrow> P
      | Some l \<Rightarrow>
          let l' = filter (\<lambda>(n, _). n \<noteq> node) l in
          if l' = [] then AList.delete term P else AList.update term l' P)"

definition remove_doc :: "u64 \<Rightarrow> kw_entry \<Rightarrow> kw_entry" where
  "remove_doc node e =
     (case map_of (ke_docs e) node of
        None \<Rightarrow> e
      | Some doc \<Rightarrow>
          e\<lparr>ke_docs := AList.delete node (ke_docs e),
            ke_total_len := ke_total_len e - ucast (de_len doc),
            ke_postings := fold (drop_posting node) (de_terms doc) (ke_postings e)\<rparr>)"

text \<open>Scoring: \<open>n\<close> documents, \<open>df\<close> of them with the term; \<open>tf\<close> occurrences in a document of length \<open>dl\<close>.\<close>

definition bm25_idf :: "kw_env \<Rightarrow> nat \<Rightarrow> nat \<Rightarrow> f32" where
  "bm25_idf K n df =
     (let N = fe_nan32 (kw_float K); nf = f_of_int (int n); d = f_of_int (int df); half = 0x3F000000 in
      kw_ln K (fadd N (fdiv N (fadd N (fsub N nf d) half) (fadd N d half)) fone))"

definition bm25_term :: "kw_env \<Rightarrow> f32 \<Rightarrow> f32 \<Rightarrow> u32 \<Rightarrow> u32 \<Rightarrow> f32" where
  "bm25_term K avgdl idf dl tf =
     (let N = fe_nan32 (kw_float K); dlf = f_of_int (uint dl); tff = f_of_int (uint tf);
          denom = fadd N tff (fmul N BM25_K1 (fadd N (fsub N fone BM25_B) (fdiv N (fmul N BM25_B dlf) avgdl))) in
      fdiv N (fmul N idf (fmul N tff (fadd N BM25_K1 fone))) denom)"

definition doc_len :: "kw_entry \<Rightarrow> u64 \<Rightarrow> u32" where
  "doc_len e node = (case map_of (ke_docs e) node of None \<Rightarrow> 0 | Some d \<Rightarrow> de_len d)"

definition score_term :: "kw_env \<Rightarrow> kw_entry \<Rightarrow> f32 \<Rightarrow> str \<Rightarrow> (u64 \<times> f32) list \<Rightarrow> (u64 \<times> f32) list" where
  "score_term K e avgdl term scores =
     (case map_of (ke_postings e) term of
        None \<Rightarrow> scores
      | Some l \<Rightarrow>
          let idf = bm25_idf K (length (ke_docs e)) (length l) in
          fold (\<lambda>(node, tf).
            let x = bm25_term K avgdl idf (doc_len e node) tf; N = fe_nan32 (kw_float K) in
            AList.map_default node (fadd N fzero x) (\<lambda>s. fadd N s x)) l scores)"

definition hit_cmp :: "node_id \<times> f32 \<Rightarrow> node_id \<times> f32 \<Rightarrow> ordering" where
  "hit_cmp a b =
     then_cmp (case fpartial_cmp (snd b) (snd a) of None \<Rightarrow> Equal | Some c \<Rightarrow> c) (cmp (fst a) (fst b))"

definition all_scores :: "kw_env \<Rightarrow> text_lib \<Rightarrow> kw_entry \<Rightarrow> str \<Rightarrow> (u64 \<times> f32) list" where
  "all_scores K TL e query =
     (let qterms = sort_dedup (analyze TL (ke_language e) query);
          avgdl = fdiv (fe_nan32 (kw_float K)) (f_of_int (uint (ke_total_len e))) (f_of_int (int (length (ke_docs e)))) in
      fold (score_term K e avgdl) qterms [])"

definition entry_search :: "kw_env \<Rightarrow> text_lib \<Rightarrow> kw_entry \<Rightarrow> str \<Rightarrow> nat \<Rightarrow> (node_id \<times> f32) list" where
  "entry_search K TL e query k =
     (if ke_docs e = [] \<or> k = 0 then []
      else take k (sort_by hit_cmp (kw_scores K (all_scores K TL e query))))"

fun add_docs ::
    "kw_env \<Rightarrow> text_lib \<Rightarrow> 't vtable \<Rightarrow> postcard \<Rightarrow> 't \<Rightarrow> plane_id \<Rightarrow> str \<Rightarrow> node_id list \<Rightarrow> kw_entry \<Rightarrow> kw_entry res" where
  "add_docs K TL V pc t plane property [] e = Inr e"
| "add_docs K TL V pc t plane property (i # ids) e =
     res_bind (node_text V pc t plane i property) (\<lambda>found.
     add_docs K TL V pc t plane property ids (case found of None \<Rightarrow> e | Some text \<Rightarrow> add_doc K TL i text e))"

definition entry_from_snapshot ::
    "kw_env \<Rightarrow> text_lib \<Rightarrow> 't vtable \<Rightarrow> postcard \<Rightarrow> 't \<Rightarrow> plane_id \<Rightarrow> str \<Rightarrow> str \<Rightarrow> language \<Rightarrow> kw_entry res" where
  "entry_from_snapshot K TL V pc t plane label property language =
     res_bind (scan_label V t plane label) (\<lambda>ids.
     add_docs K TL V pc t plane property ids (entry_new language))"

section \<open>The registry\<close>

type_synonym kw_registry = "((plane_id \<times> str \<times> str) \<times> kw_entry) list"

definition kwr_build_entry ::
    "kw_env \<Rightarrow> text_lib \<Rightarrow> 't vtable \<Rightarrow> postcard \<Rightarrow> 't \<Rightarrow> plane_id \<times> str \<times> str \<times> language \<Rightarrow> kw_registry \<Rightarrow> kw_registry res" where
  "kwr_build_entry K TL V pc t = (\<lambda>(plane, label, property, language) R.
     res_bind (entry_from_snapshot K TL V pc t plane label property language) (\<lambda>e.
     Inr (AList.update (plane, label, property) e R)))"

fun kwr_build_all ::
    "kw_env \<Rightarrow> text_lib \<Rightarrow> 't vtable \<Rightarrow> postcard \<Rightarrow> 't \<Rightarrow> (plane_id \<times> str \<times> str \<times> language) list \<Rightarrow> kw_registry \<Rightarrow> kw_registry res" where
  "kwr_build_all K TL V pc t [] R = Inr R"
| "kwr_build_all K TL V pc t (d # ds) R = res_bind (kwr_build_entry K TL V pc t d R) (kwr_build_all K TL V pc t ds)"

definition kwr_rebuild_from :: "kw_env \<Rightarrow> text_lib \<Rightarrow> 't vtable \<Rightarrow> postcard \<Rightarrow> 't \<Rightarrow> kw_registry res" where
  "kwr_rebuild_from K TL V pc t = res_bind (list_keyword_indexes V t) (\<lambda>ds. kwr_build_all K TL V pc t ds [])"

definition search_snapshot ::
    "kw_env \<Rightarrow> text_lib \<Rightarrow> 't vtable \<Rightarrow> postcard \<Rightarrow> 't \<Rightarrow> plane_id \<Rightarrow> str \<Rightarrow> str \<Rightarrow> language \<Rightarrow> str \<Rightarrow> nat \<Rightarrow> (node_id \<times> f32) list res" where
  "search_snapshot K TL V pc t plane label property language query k =
     res_bind (entry_from_snapshot K TL V pc t plane label property language) (\<lambda>e.
     Inr (entry_search K TL e query k))"

definition kwr_declared :: "kw_registry \<Rightarrow> plane_id \<Rightarrow> language decls" where
  "kwr_declared R plane =
     List.map_filter (\<lambda>((p, l, prop), e). if p = plane then Some (l, prop, ke_language e) else None) R"

definition kwr_search ::
    "kw_env \<Rightarrow> text_lib \<Rightarrow> kw_registry \<Rightarrow> plane_id \<Rightarrow> str \<Rightarrow> str \<Rightarrow> str \<Rightarrow> nat \<Rightarrow> (node_id \<times> f32) list option" where
  "kwr_search K TL R plane label property query k =
     map_option (\<lambda>e. entry_search K TL e query k) (map_of R (plane, label, property))"

definition kwr_upsert :: "kw_env \<Rightarrow> text_lib \<Rightarrow> plane_id \<Rightarrow> str \<Rightarrow> str \<Rightarrow> node_id \<Rightarrow> str \<Rightarrow> kw_registry \<Rightarrow> kw_registry" where
  "kwr_upsert K TL plane label property node text R =
     AList.map_entry (plane, label, property) (\<lambda>e. add_doc K TL node text (remove_doc node e)) R"

definition kwr_remove_one :: "plane_id \<Rightarrow> str \<Rightarrow> str \<Rightarrow> node_id \<Rightarrow> kw_registry \<Rightarrow> kw_registry" where
  "kwr_remove_one plane label property node R = AList.map_entry (plane, label, property) (remove_doc node) R"

definition kwr_remove_node :: "node_id \<Rightarrow> kw_registry \<Rightarrow> kw_registry" where
  "kwr_remove_node node R = map (\<lambda>(k, e). (k, remove_doc node e)) R"

definition kwr_drop_plane :: "plane_id \<Rightarrow> kw_registry \<Rightarrow> kw_registry" where
  "kwr_drop_plane plane R = filter (\<lambda>((p, _, _), _). p \<noteq> plane) R"

section \<open>The sidecar file\<close>

text \<open>
  The whole registry as bytes; \<open>iter\<close> is the order in which the hash map of entries is iterated, and the
  serialisation of a \<open>Sidecar\<close> is the parameter \<open>sc\<close>.
\<close>

record kw_sidecar =
  sc_version :: u32
  sc_seq :: u64
  sc_entries :: "(plane_id \<times> str \<times> str \<times> kw_entry) list"

record sidecar_codec =
  ser_sidecar :: "kw_sidecar \<Rightarrow> bytes"
  de_sidecar :: "bytes \<Rightarrow> (kw_sidecar \<times> bytes) option"

definition sidecar_codec_ok :: "sidecar_codec \<Rightarrow> bool" where
  "sidecar_codec_ok sc \<longleftrightarrow> (\<forall>s rest. de_sidecar sc (ser_sidecar sc s @ rest) = Some (s, rest))"

definition KW_SIDECAR_MAGIC :: bytes where "KW_SIDECAR_MAGIC = bstr ''DRSK''"
definition KW_SIDECAR_VERSION :: u32 where "KW_SIDECAR_VERSION = 1"

definition kwr_to_bytes :: "sidecar_codec \<Rightarrow> (kw_registry \<Rightarrow> kw_registry) \<Rightarrow> kw_registry \<Rightarrow> u64 \<Rightarrow> bytes" where
  "kwr_to_bytes sc iter R seq =
     KW_SIDECAR_MAGIC @ ser_sidecar sc \<lparr>sc_version = KW_SIDECAR_VERSION, sc_seq = seq,
       sc_entries = map (\<lambda>((plane, label, property), e). (plane, label, property, e)) (iter R)\<rparr>"

definition kwr_from_bytes :: "sidecar_codec \<Rightarrow> bytes \<Rightarrow> u64 \<Rightarrow> kw_registry option" where
  "kwr_from_bytes sc b expected_seq =
     (if take (length KW_SIDECAR_MAGIC) b \<noteq> KW_SIDECAR_MAGIC then None
      else
        case de_sidecar sc (drop (length KW_SIDECAR_MAGIC) b) of
          None \<Rightarrow> None
        | Some (sidecar, _) \<Rightarrow>
            if sc_version sidecar \<noteq> KW_SIDECAR_VERSION \<or> sc_seq sidecar \<noteq> expected_seq then None
            else Some (fold (\<lambda>(plane, label, property, e). AList.update (plane, label, property) e) (sc_entries sidecar) []))"

section \<open>Applying events\<close>

fun apply_kw_event :: "kw_env \<Rightarrow> text_lib \<Rightarrow> plane_id \<Rightarrow> kw_event \<Rightarrow> kw_registry \<Rightarrow> kw_registry" where
  "apply_kw_event K TL plane (Upsert label property node text) R = kwr_upsert K TL plane label property node text R"
| "apply_kw_event K TL plane (Remove label property node) R = kwr_remove_one plane label property node R"
| "apply_kw_event K TL plane (RemoveNode node) R = kwr_remove_node node R"

end
