(* ===== verification/Keyword_Spec.thy ===== *)
theory Keyword_Spec
  imports Keyword
begin

text \<open>
  What an inverted index stores: the token lists of its documents. Adding and removing documents changes
  that collection as expected, and the result of a search depends on nothing else, in particular not on
  the order of postings and hash maps.
\<close>

section \<open>Association lists\<close>

lemma map_of_map_default_at:
  "map_of (AList.map_default k v f m) j = (if j = k then Some (case map_of m k of None \<Rightarrow> v | Some x \<Rightarrow> f x) else map_of m j)"
  by (induction m) (auto split: option.splits)

lemma fold_map_default_distinct: "distinct (map fst m) \<Longrightarrow> distinct (map fst (fold (\<lambda>x. AList.map_default (k x) (v x) (f x)) xs m))"
  by (induction xs arbitrary: m) (simp_all add: distinct_map_default)

lemma same_map_mset:
  assumes "distinct (map fst xs)" "distinct (map fst ys)" "map_of xs = map_of ys"
  shows "mset xs = mset ys"
proof -
  have "set xs = set ys" using map_of_inject_set [OF assms(1,2)] assms(3) by blast
  then show ?thesis using assms(1,2) by (simp add: set_eq_iff_mset_eq_distinct distinct_map)
qed

text \<open>The frequency of every term of a token list.\<close>

lemma term_freqs_at: "map_of (term_freqs tokens) t = (if t \<in> set tokens then Some (of_nat (count_list tokens t)) else None)"
proof -
  have "map_of (fold (\<lambda>t. AList.map_default t 1 (\<lambda>c. c + 1)) tokens m) t =
      (if t \<in> set tokens then Some ((case map_of m t of None \<Rightarrow> 0 | Some c \<Rightarrow> c) + of_nat (count_list tokens t)) else map_of m t)"
    for m :: "(str \<times> u32) list"
    by (induction tokens arbitrary: m) (auto simp: map_of_map_default_at count_notin split: option.splits)
  from this [of "[]"] show ?thesis by (simp add: term_freqs_def)
qed

lemma term_freqs_distinct: "distinct (map fst (term_freqs tokens))"
  unfolding term_freqs_def using fold_map_default_distinct [of "[]" id "\<lambda>_. 1" "\<lambda>_ c. c + 1" tokens] by simp

lemma kw_terms_at:
  assumes "kw_env_ok K"
  shows "distinct (map fst (kw_terms K (term_freqs tokens)))" "set (map fst (kw_terms K (term_freqs tokens))) = set tokens"
    "map_of (kw_terms K (term_freqs tokens)) = map_of (term_freqs tokens)"
proof -
  let ?xs = "kw_terms K (term_freqs tokens)"
  have m: "mset ?xs = mset (term_freqs tokens)" using assms by (simp add: kw_env_ok_def)
  then have s: "set ?xs = set (term_freqs tokens)" by (rule mset_eq_setD)
  have "mset (map fst ?xs) = mset (map fst (term_freqs tokens))" using m by simp
  then show d: "distinct (map fst ?xs)" using term_freqs_distinct mset_eq_imp_distinct_iff by blast
  have "t \<in> fst ` set (term_freqs tokens) \<longleftrightarrow> t \<in> set tokens" for t
    using term_freqs_at [of tokens t] map_of_eq_None_iff [of "term_freqs tokens" t] by (auto split: if_splits)
  then show "set (map fst ?xs) = set tokens" using s by auto
  show "map_of ?xs = map_of (term_freqs tokens)" by (rule map_of_inject_set [THEN iffD2, OF d term_freqs_distinct s])
qed

section \<open>The collection an index stores\<close>

type_synonym docs = "u64 \<Rightarrow> str list option"

text \<open>The postings of one term: the documents with it, each once with its frequency.\<close>

definition term_docs :: "docs \<Rightarrow> str \<Rightarrow> u64 \<Rightarrow> u32 option" where
  "term_docs D t n = (case D n of None \<Rightarrow> None | Some toks \<Rightarrow> if t \<in> set toks then Some (of_nat (count_list toks t)) else None)"

definition len32 :: "str list \<Rightarrow> u32" where
  "len32 toks = of_nat (length toks)"

definition total_of :: "docs \<Rightarrow> u64" where
  "total_of D = (\<Sum>n \<in> dom D. ucast (len32 (the (D n))))"

definition posting_ok :: "(u64 \<Rightarrow> u32 option) \<Rightarrow> (u64 \<times> u32) list option \<Rightarrow> bool" where
  "posting_ok T x \<longleftrightarrow> (case x of None \<Rightarrow> T = Map.empty | Some l \<Rightarrow> l \<noteq> [] \<and> distinct (map fst l) \<and> map_of l = T)"

definition doc_ok :: "str list option \<Rightarrow> doc_entry option \<Rightarrow> bool" where
  "doc_ok d x \<longleftrightarrow> (case d of None \<Rightarrow> x = None | Some toks \<Rightarrow> (case x of None \<Rightarrow> False
     | Some y \<Rightarrow> de_len y = len32 toks \<and> set (de_terms y) = set toks \<and> distinct (de_terms y)))"

definition postings_ok :: "docs \<Rightarrow> (str \<times> (u64 \<times> u32) list) list \<Rightarrow> bool" where
  "postings_ok D P \<longleftrightarrow> distinct (map fst P) \<and> (\<forall>t. posting_ok (term_docs D t) (map_of P t))"

definition index_ok :: "docs \<Rightarrow> kw_entry \<Rightarrow> bool" where
  "index_ok D e \<longleftrightarrow> postings_ok D (ke_postings e) \<and> distinct (map fst (ke_docs e)) \<and>
     (\<forall>n. doc_ok (D n) (map_of (ke_docs e) n)) \<and>
     ke_total_len e = total_of D"

lemma index_ok_new: "index_ok Map.empty (entry_new language)"
  by (simp add: index_ok_def entry_new_def postings_ok_def posting_ok_def doc_ok_def term_docs_def total_of_def fun_eq_iff)

lemma total_of_add: "D n = None \<Longrightarrow> total_of (D(n \<mapsto> toks)) = total_of D + ucast (len32 toks)"
proof -
  assume n: "D n = None"
  have "(\<Sum>x \<in> dom D. ucast (len32 (the ((D(n \<mapsto> toks)) x))) :: u64) = (\<Sum>x \<in> dom D. ucast (len32 (the (D x))))"
    using n by (intro sum.cong) auto
  moreover have "n \<notin> dom D" "finite (dom D)" using n by (auto intro: finite_subset [of _ UNIV])
  ultimately show ?thesis by (simp add: total_of_def add.commute)
qed

lemma total_of_remove: "D n = Some toks \<Longrightarrow> total_of (D(n := None)) = total_of D - ucast (len32 toks)"
proof -
  assume n: "D n = Some toks"
  have "(D(n := None))(n \<mapsto> toks) = D" using n by auto
  then show ?thesis using total_of_add [of "D(n := None)" n toks] by simp
qed

section \<open>Adding a document\<close>

lemma postings_add:
  assumes P: "postings_ok D P" and n: "D n = None"
    and tf: "distinct (map fst tf)" "\<And>t. map_of tf t = (if t \<in> set toks then Some (of_nat (count_list toks t)) else None)"
  shows "postings_ok (D(n \<mapsto> toks)) (fold (push_posting n) tf P)"
proof -
  have at: "map_of (fold (push_posting n) tf P) t = (case map_of tf t of None \<Rightarrow> map_of P t
      | Some c \<Rightarrow> Some ((case map_of P t of None \<Rightarrow> [] | Some l \<Rightarrow> l) @ [(n, c)]))" if "distinct (map fst tf)" for tf t
    using that
  proof (induction tf arbitrary: P)
    case (Cons x tf)
    obtain t' c where x: "x = (t', c)" by (cases x)
    have "map_of tf t' = None" using Cons.prems by (simp add: x map_of_eq_None_iff)
    then show ?case using Cons by (auto simp: x push_posting_def map_of_map_default_at split: option.splits)
  qed simp
  have dist: "distinct (map fst (fold (push_posting n) tf P))"
    using P fold_map_default_distinct [of P fst "\<lambda>x. [(n, snd x)]" "\<lambda>x l. l @ [(n, snd x)]" tf]
    by (simp add: push_posting_def split_def postings_ok_def)
  have td: "term_docs (D(n \<mapsto> toks)) t = (case map_of tf t of None \<Rightarrow> term_docs D t | Some c \<Rightarrow> (term_docs D t)(n \<mapsto> c))" for t
    using n by (auto simp: tf(2) term_docs_def fun_eq_iff)
  have nt: "term_docs D t n = None" for t using n by (simp add: term_docs_def)
  show ?thesis unfolding postings_ok_def
  proof (intro conjI allI dist)
    fix t
    have old: "posting_ok (term_docs D t) (map_of P t)" using P by (simp add: postings_ok_def)
    show "posting_ok (term_docs (D(n \<mapsto> toks)) t) (map_of (fold (push_posting n) tf P) t)"
    proof (cases "map_of tf t")
      case None
      then show ?thesis using old by (simp add: at [OF tf(1)] td)
    next
      case (Some c)
      show ?thesis
      proof (cases "map_of P t")
        case None
        then show ?thesis using old Some by (simp add: at [OF tf(1)] td posting_ok_def)
      next
        case l: (Some l)
        have "n \<notin> set (map fst l)" using old l nt [of t] map_of_eq_None_iff [of l n] by (simp add: posting_ok_def)
        moreover have "map_of (l @ [(n, c)]) = (map_of l)(n \<mapsto> c)" if "n \<notin> set (map fst l)"
          using map_of_eq_None_iff [of l n] that by (simp add: map_of_append map_add_def fun_eq_iff split: option.split)
        ultimately show ?thesis using old l Some by (simp add: at [OF tf(1)] td posting_ok_def del: map_of_append)
      qed
    qed
  qed
qed

definition with_doc :: "u64 \<Rightarrow> str list \<Rightarrow> docs \<Rightarrow> docs" where
  "with_doc n toks D = D(n := if toks = [] then None else Some toks)"

lemma add_doc_ok:
  assumes K: "kw_env_ok K" and e: "index_ok D e" and n: "D n = None"
  shows "index_ok (with_doc n (analyze TL (ke_language e) text) D) (add_doc K TL n text e)" "ke_language (add_doc K TL n text e) = ke_language e"
proof -
  let ?toks = "analyze TL (ke_language e) text"
  let ?tf = "kw_terms K (term_freqs ?toks)"
  show "ke_language (add_doc K TL n text e) = ke_language e" by (simp add: add_doc_def Let_def)
  show "index_ok (with_doc n ?toks D) (add_doc K TL n text e)"
  proof (cases "?toks = []")
    case True
    then have "with_doc n ?toks D = D" using n by (auto simp: with_doc_def)
    then show ?thesis using e True by (simp add: add_doc_def Let_def)
  next
    case False
    have D: "with_doc n ?toks D = D(n \<mapsto> ?toks)" using False by (simp add: with_doc_def)
    note tf = kw_terms_at [OF K, of ?toks]
    have "postings_ok (D(n \<mapsto> ?toks)) (fold (push_posting n) ?tf (ke_postings e))"
      by (rule postings_add [where D = D and n = n, OF _ n tf(1)]) (use e tf(3) term_freqs_at in \<open>simp_all add: index_ok_def\<close>)
    moreover have "distinct (map fst (AList.update n d (ke_docs e)))" for d
      using e by (auto simp: index_ok_def intro: distinct_update)
    moreover have "ke_total_len e = total_of D" using e by (simp add: index_ok_def)
    moreover have "doc_ok ((D(n \<mapsto> ?toks)) m) (map_of (AList.update n \<lparr>de_len = len32 ?toks, de_terms = map fst ?tf\<rparr> (ke_docs e)) m)" for m
      using e tf(1,2) by (simp add: index_ok_def update_conv' doc_ok_def)
    ultimately show ?thesis using False n total_of_add [of D n ?toks]
      unfolding D by (simp add: index_ok_def add_doc_def Let_def len32_def [symmetric])
  qed
qed

section \<open>Removing a document\<close>

lemma term_docs_remove: "term_docs (D(n := None)) t = (term_docs D t)(n := None)"
  by (auto simp: term_docs_def fun_eq_iff)

lemma drop_posting_at:
  assumes "posting_ok T (map_of P t)"
  shows "posting_ok (T(n := None)) (map_of (drop_posting n t P) t)"
proof (cases "map_of P t")
  case None
  then show ?thesis using assms by (simp add: drop_posting_def posting_ok_def)
next
  case (Some l)
  let ?l = "filter (\<lambda>(m, _). m \<noteq> n) l"
  have l: "distinct (map fst l)" "map_of l = T" using assms Some by (simp_all add: posting_ok_def)
  have d: "distinct (map fst ?l)" using l(1) by (rule distinct_map_filter)
  have m: "map_of ?l = T(n := None)" using map_of_filter_key [of "\<lambda>m. m \<noteq> n" l] l(2) by (auto simp: fun_eq_iff)
  show ?thesis
  proof (cases "?l = []")
    case True
    then have "T(n := None) = Map.empty" using m by simp
    then show ?thesis using Some True by (simp add: drop_posting_def posting_ok_def Let_def delete_conv')
  next
    case False
    then show ?thesis using Some d m by (simp add: drop_posting_def posting_ok_def Let_def update_conv')
  qed
qed

lemma drop_posting_other: "t' \<noteq> t \<Longrightarrow> map_of (drop_posting n t P) t' = map_of P t'"
  by (auto simp: drop_posting_def Let_def update_conv' split: option.splits)

lemma drop_posting_distinct: "distinct (map fst P) \<Longrightarrow> distinct (map fst (drop_posting n t P))"
  by (auto simp: drop_posting_def Let_def intro: distinct_update distinct_delete split: option.splits)

lemma fold_drop_distinct: "distinct (map fst P) \<Longrightarrow> distinct (map fst (fold (drop_posting n) ts P))"
  by (induction ts arbitrary: P) (simp_all add: drop_posting_distinct)

lemma postings_remove:
  assumes "postings_ok D P" "distinct ts" "D n = Some toks" "set ts = set toks"
  shows "postings_ok (D(n := None)) (fold (drop_posting n) ts P)"
proof -
  have at: "posting_ok (if t \<in> set ts then (T t)(n := None) else T t) (map_of (fold (drop_posting n) ts P) t)"
    if "\<And>t. posting_ok (T t) (map_of P t)" "distinct ts" for T ts t P
    using that
  proof (induction ts arbitrary: P T)
    case (Cons u ts)
    let ?T = "\<lambda>t. if t = u then (T t)(n := None) else T t"
    have "posting_ok (?T t) (map_of (drop_posting n u P) t)" for t
      using drop_posting_at [of "T u" P u n] drop_posting_other [of t u n P] Cons.prems(1) by simp
    from Cons.IH [of ?T, OF this] Cons.prems(2) show ?case by (cases "t = u"; cases "t \<in> set ts") (simp_all del: fun_upd_apply)
  qed simp
  have dist: "distinct (map fst (fold (drop_posting n) ts P))"
    using fold_drop_distinct assms(1) by (simp add: postings_ok_def)
  have "(term_docs D t)(n := None) = term_docs D t" if "t \<notin> set toks" for t
    using that assms(3) by (auto simp: term_docs_def fun_eq_iff)
  then have T: "(if t \<in> set ts then (term_docs D t)(n := None) else term_docs D t) = term_docs (D(n := None)) t" for t
    using assms(4) by (simp add: term_docs_remove)
  show ?thesis unfolding postings_ok_def
    using dist at [of "term_docs D" P ts, unfolded T] assms(1,2) by (simp add: postings_ok_def)
qed

lemma remove_doc_ok:
  assumes e: "index_ok D e"
  shows "index_ok (D(n := None)) (remove_doc n e)" "ke_language (remove_doc n e) = ke_language e"
proof -
  show "ke_language (remove_doc n e) = ke_language e" by (simp add: remove_doc_def split: option.splits)
  have dn: "doc_ok (D n) (map_of (ke_docs e) n)" using e by (simp add: index_ok_def)
  show "index_ok (D(n := None)) (remove_doc n e)"
  proof (cases "D n")
    case None
    then have "D(n := None) = D" "map_of (ke_docs e) n = None" using dn by (auto simp: doc_ok_def)
    then show ?thesis using e by (simp add: remove_doc_def)
  next
    case (Some toks)
    then obtain y where y: "map_of (ke_docs e) n = Some y" "de_len y = len32 toks" "set (de_terms y) = set toks" "distinct (de_terms y)"
      using dn by (auto simp: doc_ok_def split: option.splits)
    have "postings_ok (D(n := None)) (fold (drop_posting n) (de_terms y) (ke_postings e))"
      using e y(3,4) Some by (intro postings_remove) (simp_all add: index_ok_def)
    moreover have "distinct (map fst (AList.delete n (ke_docs e)))" using e by (auto simp: index_ok_def intro: distinct_delete)
    moreover have "doc_ok ((D(n := None)) m) (map_of (AList.delete n (ke_docs e)) m)" for m
      using e by (simp add: index_ok_def delete_conv' doc_ok_def)
    ultimately show ?thesis using e y total_of_remove [of D n toks] Some by (simp add: index_ok_def remove_doc_def)
  qed
qed

section \<open>Searching\<close>

text \<open>What a term adds to the score of a document, from the collection alone.\<close>

definition avg_len :: "kw_env \<Rightarrow> docs \<Rightarrow> f32" where
  "avg_len K D = fdiv (fe_nan32 (kw_float K)) (f_of_int (uint (total_of D))) (f_of_int (int (card (dom D))))"

definition term_gain :: "kw_env \<Rightarrow> docs \<Rightarrow> str \<Rightarrow> u64 \<Rightarrow> f32 option" where
  "term_gain K D t n = map_option (\<lambda>tf. bm25_term K (avg_len K D) (bm25_idf K (card (dom D)) (card (dom (term_docs D t))))
     (case D n of None \<Rightarrow> 0 | Some toks \<Rightarrow> len32 toks) tf) (term_docs D t n)"

definition add_gain :: "kw_env \<Rightarrow> f32 option \<Rightarrow> f32 option \<Rightarrow> f32 option" where
  "add_gain K s g = (case g of None \<Rightarrow> s
     | Some x \<Rightarrow> Some (fadd (fe_nan32 (kw_float K)) (case s of None \<Rightarrow> fzero | Some s \<Rightarrow> s) x))"

text \<open>The score of a document for a query: the gains of the query's terms, in order.\<close>

definition doc_score :: "kw_env \<Rightarrow> docs \<Rightarrow> str list \<Rightarrow> u64 \<Rightarrow> f32 option" where
  "doc_score K D terms n = fold (\<lambda>t s. add_gain K s (term_gain K D t n)) terms None"

lemma card_dom_alist: "distinct (map fst m) \<Longrightarrow> card (dom (map_of m)) = length m"
  by (metis distinct_card dom_map_of_conv_image_fst length_map set_map)

lemma index_sizes:
  assumes "index_ok D e"
  shows "length (ke_docs e) = card (dom D)" "doc_len e n = (case D n of None \<Rightarrow> 0 | Some toks \<Rightarrow> len32 toks)"
proof -
  have d: "doc_ok (D n) (map_of (ke_docs e) n)" for n using assms by (simp add: index_ok_def)
  have "map_of (ke_docs e) n = None \<longleftrightarrow> D n = None" for n using d [of n] by (auto simp: doc_ok_def split: option.splits)
  then have "dom (map_of (ke_docs e)) = dom D" by (auto simp: dom_def)
  then show "length (ke_docs e) = card (dom D)" using card_dom_alist [of "ke_docs e"] assms by (simp add: index_ok_def)
  show "doc_len e n = (case D n of None \<Rightarrow> 0 | Some toks \<Rightarrow> len32 toks)"
    using d [of n] by (auto simp: doc_len_def doc_ok_def split: option.splits)
qed

lemma score_list_at:
  assumes "distinct (map fst l)"
  shows "map_of (fold (\<lambda>(n, tf). AList.map_default n (fadd N fzero (g n tf)) (\<lambda>s. fadd N s (g n tf))) l S) m =
    (case map_of l m of None \<Rightarrow> map_of S m
     | Some tf \<Rightarrow> Some (fadd N (case map_of S m of None \<Rightarrow> fzero | Some s \<Rightarrow> s) (g m tf)))"
  using assms
proof (induction l arbitrary: S)
  case (Cons x l)
  obtain n tf where x: "x = (n, tf)" by (cases x)
  have "map_of l n = None" using Cons.prems map_of_eq_None_iff [of l n] by (simp add: x)
  then show ?case using Cons by (auto simp: x map_of_map_default_at split: option.splits)
qed simp

lemma score_term_at:
  assumes e: "index_ok D e"
  shows "map_of (score_term K e (avg_len K D) t S) n = add_gain K (map_of S n) (term_gain K D t n)"
    and "distinct (map fst S) \<Longrightarrow> distinct (map fst (score_term K e (avg_len K D) t S))"
proof -
  have p: "posting_ok (term_docs D t) (map_of (ke_postings e) t)" using e by (simp add: index_ok_def postings_ok_def)
  let ?g = "\<lambda>l n tf. bm25_term K (avg_len K D) (bm25_idf K (length (ke_docs e)) (length l)) (doc_len e n) tf"
  let ?N = "fe_nan32 (kw_float K)"
  have run: "score_term K e (avg_len K D) t S = (case map_of (ke_postings e) t of None \<Rightarrow> S
     | Some l \<Rightarrow> fold (\<lambda>(n, tf). AList.map_default n (fadd ?N fzero (?g l n tf)) (\<lambda>s. fadd ?N s (?g l n tf))) l S)"
    by (cases "map_of (ke_postings e) t") (simp_all add: score_term_def Let_def)
  show "map_of (score_term K e (avg_len K D) t S) n = add_gain K (map_of S n) (term_gain K D t n)"
  proof (cases "map_of (ke_postings e) t")
    case None
    then show ?thesis using p by (simp add: run posting_ok_def term_gain_def add_gain_def)
  next
    case (Some l)
    then have l: "distinct (map fst l)" "map_of l = term_docs D t" using p by (simp_all add: posting_ok_def)
    have "length l = card (dom (term_docs D t))" using card_dom_alist [OF l(1)] l(2) by simp
    then show ?thesis using score_list_at [OF l(1), of ?N "?g l" S n] Some l(2) index_sizes [OF e]
      by (auto simp: run term_gain_def add_gain_def split: option.splits)
  qed
  show "distinct (map fst (score_term K e (avg_len K D) t S))" if "distinct (map fst S)"
    using that fold_map_default_distinct [of S fst "\<lambda>x. fadd ?N fzero (?g l (fst x) (snd x))" "\<lambda>x s. fadd ?N s (?g l (fst x) (snd x))" l for l]
    by (auto simp: run split_def split: option.splits)
qed

lemma all_scores_at:
  assumes e: "index_ok D e"
  shows "map_of (all_scores K TL e query) n = doc_score K D (sort_dedup (analyze TL (ke_language e) query)) n"
    and "distinct (map fst (all_scores K TL e query))"
proof -
  have a: "avg_len K D = fdiv (fe_nan32 (kw_float K)) (f_of_int (uint (ke_total_len e))) (f_of_int (int (length (ke_docs e))))"
    using e index_sizes(1) [OF e] by (simp add: avg_len_def index_ok_def)
  have "map_of (fold (score_term K e (avg_len K D)) ts S) n = fold (\<lambda>t s. add_gain K s (term_gain K D t n)) ts (map_of S n)" for ts S
    by (induction ts arbitrary: S) (simp_all add: score_term_at(1) [OF e])
  then show "map_of (all_scores K TL e query) n = doc_score K D (sort_dedup (analyze TL (ke_language e) query)) n"
    by (simp add: all_scores_def Let_def a [symmetric] doc_score_def)
  have "distinct (map fst S) \<Longrightarrow> distinct (map fst (fold (score_term K e (avg_len K D)) ts S))" for ts S
    by (induction ts arbitrary: S) (simp_all add: score_term_at(2) [OF e])
  then show "distinct (map fst (all_scores K TL e query))" by (simp add: all_scores_def Let_def a [symmetric])
qed

section \<open>Ranking\<close>

text \<open>Where no score is a NaN, hits are ordered by descending score, then by id, which is a total order.\<close>

definition rank_cmp :: "node_id \<times> f32 \<Rightarrow> node_id \<times> f32 \<Rightarrow> ordering" where
  "rank_cmp a b = lex_cmp cmp [- fkey (snd a), uint (fst a)] [- fkey (snd b), uint (fst b)]"

interpretation rank: comparison rank_cmp
proof unfold_locales
  fix x :: "node_id \<times> f32"
  show "cmp_laws rank_cmp x"
    by (rule cmp_laws_embed [where d = "lex_cmp cmp" and f = "\<lambda>a. [- fkey (snd a), uint (fst a)]"])
      (simp_all add: rank_cmp_def lex_laws cmp_laws_cmp)
qed

lemma hit_cmp_rank:
  assumes "\<not> is_nan (snd a)" "\<not> is_nan (snd b)"
  shows "hit_cmp a b = rank_cmp a b"
proof -
  have "cmp (fkey (snd b)) (fkey (snd a)) = cmp (- fkey (snd a)) (- fkey (snd b))" by (simp add: cmp_def)
  moreover have "cmp (fst a) (fst b) = cmp (uint (fst a)) (uint (fst b))" by (simp add: cmp_def word_less_def word_uint_eq_iff)
  ultimately show ?thesis using assms
    by (auto simp: hit_cmp_def rank_cmp_def fpartial_cmp_def then_cmp_def word_uint_eq_iff [symmetric] split: ordering.split)
qed

lemma rank_Equal: "rank_cmp a b = Equal \<Longrightarrow> fst a = fst b"
  by (auto simp: rank_cmp_def then_cmp_def word_uint_eq_iff [symmetric] split: if_splits ordering.splits)

lemma sort_by_cong:
  assumes "\<And>x y. x \<in> set xs \<Longrightarrow> y \<in> set xs \<Longrightarrow> c x y = d x y"
  shows "sort_by c xs = sort_by d xs"
proof -
  have ins: "ins_by c x ys = ins_by d x ys" if "\<And>y. y \<in> set ys \<Longrightarrow> c x y = d x y" for x ys
    using that by (induction ys) auto
  have mem: "set (ins_by d x ys) = insert x (set ys)" for x ys by (induction ys) auto
  have sub: "set (foldr (ins_by d) ys []) = set ys" for ys by (induction ys) (auto simp: mem)
  have "foldr (ins_by c) ys [] = foldr (ins_by d) ys []" if "set ys \<subseteq> set xs" for ys
    using that
  proof (induction ys)
    case (Cons y ys)
    then show ?case using ins [of "foldr (ins_by d) ys []" y] assms by (auto simp: sub)
  qed simp
  then show ?thesis by (simp add: sort_by_def)
qed

lemma short_mset_eq: "mset xs = mset ys \<Longrightarrow> length xs \<le> 1 \<Longrightarrow> xs = ys"
  by (cases xs; cases ys) auto

lemma same_key_short:
  assumes "distinct (map f xs)" "\<And>x y. P x \<Longrightarrow> P y \<Longrightarrow> f x = f y"
  shows "length (filter P xs) \<le> 1"
  using assms(1)
proof (induction xs)
  case (Cons x xs)
  then show ?case using assms(2) by (auto simp: filter_empty_conv image_iff)
qed simp

text \<open>The order in which the hash map of scores is iterated does not matter.\<close>

lemma rank_order_free:
  assumes "mset xs = mset ys" "distinct (map fst xs)"
  shows "sort_by rank_cmp xs = sort_by rank_cmp ys"
proof (rule rank.sort_by_unique [OF rank.sorted_sort_by])
  fix a
  have "length (filter (\<lambda>y. rank_cmp a y = Equal) xs) \<le> 1"
    using assms(2) by (rule same_key_short) (metis rank_Equal)
  moreover have "mset (filter (\<lambda>y. rank_cmp a y = Equal) xs) = mset (filter (\<lambda>y. rank_cmp a y = Equal) ys)"
    using assms(1) by (simp add: mset_filter)
  ultimately have "filter (\<lambda>y. rank_cmp a y = Equal) xs = filter (\<lambda>y. rank_cmp a y = Equal) ys" by (metis short_mset_eq)
  then show "filter (\<lambda>y. rank_cmp a y = Equal) (sort_by rank_cmp xs) = filter (\<lambda>y. rank_cmp a y = Equal) ys"
    by (simp only: rank.stable_sort_by)
qed

definition scores_are_numbers :: "kw_env \<Rightarrow> docs \<Rightarrow> str list \<Rightarrow> bool" where
  "scores_are_numbers K D terms \<longleftrightarrow> (\<forall>n s. doc_score K D terms n = Some s \<longrightarrow> \<not> is_nan s)"

lemma kw_scores_parts:
  assumes "kw_env_ok K" "index_ok D e"
  shows "mset (kw_scores K (all_scores K TL e query)) = mset (all_scores K TL e query)"
    "distinct (map fst (kw_scores K (all_scores K TL e query)))"
proof -
  show m: "mset (kw_scores K (all_scores K TL e query)) = mset (all_scores K TL e query)"
    using assms(1) by (simp add: kw_env_ok_def)
  have "mset (map fst (kw_scores K (all_scores K TL e query))) = mset (map fst (all_scores K TL e query))" using m by simp
  then show "distinct (map fst (kw_scores K (all_scores K TL e query)))"
    using all_scores_at(2) [OF assms(2)] mset_eq_imp_distinct_iff by blast
qed

lemma scores_ranked:
  assumes K: "kw_env_ok K" and e: "index_ok D e"
    and num: "scores_are_numbers K D (sort_dedup (analyze TL (ke_language e) query))"
  shows "sort_by hit_cmp (kw_scores K (all_scores K TL e query)) = sort_by rank_cmp (all_scores K TL e query)"
proof -
  let ?S = "all_scores K TL e query"
  have s: "set (kw_scores K ?S) = set ?S" using kw_scores_parts(1) [OF K e] by (rule mset_eq_setD)
  have "\<not> is_nan (snd x)" if "x \<in> set ?S" for x
  proof -
    have "map_of ?S (fst x) = Some (snd x)" using that all_scores_at(2) [OF e] by simp
    then show ?thesis using num all_scores_at(1) [OF e] by (simp add: scores_are_numbers_def)
  qed
  then have "sort_by hit_cmp (kw_scores K ?S) = sort_by rank_cmp (kw_scores K ?S)"
    by (intro sort_by_cong hit_cmp_rank) (auto simp: s)
  also have "\<dots> = sort_by rank_cmp ?S" by (rule rank_order_free [OF kw_scores_parts [OF K e]])
  finally show ?thesis .
qed

text \<open>Two indexes of the same collection answer every query alike.\<close>

lemma search_determined:
  assumes K: "kw_env_ok K" and "index_ok D e" "index_ok D f" "ke_language e = ke_language f"
    and "scores_are_numbers K D (sort_dedup (analyze TL (ke_language e) query))"
  shows "entry_search K TL e query k = entry_search K TL f query k"
proof -
  have "map_of (all_scores K TL e query) = map_of (all_scores K TL f query)"
    using assms by (simp add: all_scores_at fun_eq_iff)
  then have "mset (all_scores K TL e query) = mset (all_scores K TL f query)"
    using assms by (intro same_map_mset all_scores_at(2))
  then have "sort_by rank_cmp (all_scores K TL e query) = sort_by rank_cmp (all_scores K TL f query)"
    using all_scores_at(2) [OF assms(2)] by (rule rank_order_free)
  then have "sort_by hit_cmp (kw_scores K (all_scores K TL e query)) = sort_by hit_cmp (kw_scores K (all_scores K TL f query))"
    using scores_ranked [of K D e TL query] scores_ranked [of K D f TL query] assms by simp
  moreover have "ke_docs e = [] \<longleftrightarrow> ke_docs f = []"
    using index_sizes(1) [OF assms(2)] index_sizes(1) [OF assms(3)] by (metis length_0_conv)
  ultimately show ?thesis by (simp add: entry_search_def)
qed

text \<open>What a search returns: the documents with a query term, best first, at most \<open>k\<close> of them.\<close>

lemma search_ranked:
  assumes K: "kw_env_ok K" and e: "index_ok D e"
    and num: "scores_are_numbers K D (sort_dedup (analyze TL (ke_language e) query))"
  defines "all \<equiv> sort_by rank_cmp (all_scores K TL e query)"
  shows "entry_search K TL e query k = take k all" "sorted_wrt (\<lambda>a b. rank_cmp a b \<noteq> Greater) all" "distinct (map fst all)"
    "map_of all = doc_score K D (sort_dedup (analyze TL (ke_language e) query))"
proof -
  have m: "mset all = mset (all_scores K TL e query)" by (simp add: all_def)
  then have "mset (map fst all) = mset (map fst (all_scores K TL e query))" by simp
  then show d: "distinct (map fst all)" using all_scores_at(2) [OF e] mset_eq_imp_distinct_iff by blast
  show "map_of all = doc_score K D (sort_dedup (analyze TL (ke_language e) query))"
    using map_of_inject_set [OF d all_scores_at(2) [OF e]] mset_eq_setD [OF m] all_scores_at(1) [OF e] by (auto simp: fun_eq_iff)
  show "sorted_wrt (\<lambda>a b. rank_cmp a b \<noteq> Greater) all" unfolding all_def by (rule rank.sorted_sort_by)
  have "all = []" if "ke_docs e = []"
  proof -
    have "D n = None" for n using that e by (auto simp: index_ok_def doc_ok_def split: option.splits)
    then have "term_gain K D t n = None" for t n by (simp add: term_gain_def term_docs_def)
    then have "doc_score K D ts n = None" for ts n by (induction ts) (simp_all add: doc_score_def add_gain_def)
    then have "map_of (all_scores K TL e query) = Map.empty" by (simp add: all_scores_at(1) [OF e] fun_eq_iff)
    then show ?thesis by (simp add: all_def sort_by_def)
  qed
  then show "entry_search K TL e query k = take k all"
    using scores_ranked [OF K e num] by (auto simp: all_def entry_search_def)
qed

end
