(* ===== verification/Keyword_Floats.thy ===== *)
theory Keyword_Floats
  imports Keyword_Spec
begin

text \<open>
  BM25 scores are numbers. All quantities of the formula are bounded by powers of two far below the
  overflow threshold, and no denominator is zero, so no step of the formula produces a NaN and ranking is
  the total order of \<open>Keyword_Spec\<close>. One is two to the power of 149 in units of the smallest positive
  \<open>f32\<close>, and infinity begins at two to the power of 277.
\<close>

section \<open>Rounding and powers of two\<close>

definition pow_mag :: "nat \<Rightarrow> nat" where
  "pow_mag K = (if K < 23 then 2 ^ K else (K - 22) * 2 ^ 23)"

lemma units_pow_mag: "units 23 (pow_mag K) = 2 ^ K"
proof (cases "K < 23")
  case True
  then have "(2::nat) ^ K < 2 ^ 23" by (rule power_strict_increasing) simp
  then show ?thesis using True by (simp add: pow_mag_def units_def)
next
  case False
  then obtain e where K: "K = e + 23" by (metis le_add_diff_inverse2 not_less)
  have m: "pow_mag K = Suc e * 2 ^ 23" by (simp add: K pow_mag_def)
  have "\<not> Suc e * 2 ^ 23 < (2::nat) ^ 23" by simp
  then show ?thesis unfolding m units_def by (simp add: K power_add)
qed

lemma round_pow: "round_mag 23 (2 ^ K) 1 = pow_mag K"
  using round_units [of 23 "pow_mag K"] by (simp add: units_pow_mag)

lemma round_le_pow:
  assumes "0 < q" "p \<le> 2 ^ K * q"
  shows "units 23 (round_mag 23 p q) \<le> 2 ^ K"
proof -
  have "round_mag 23 p q \<le> round_mag 23 (2 ^ K) 1" using assms by (intro round_mag_mono) simp_all
  then show ?thesis unfolding round_pow by (metis units_mono units_pow_mag)
qed

lemma round_ge_pow:
  assumes "0 < q" "2 ^ K * q \<le> p"
  shows "2 ^ K \<le> units 23 (round_mag 23 p q)"
proof -
  have "round_mag 23 (2 ^ K) 1 \<le> round_mag 23 p q" using assms by (intro round_mag_mono) simp_all
  then show ?thesis unfolding round_pow by (metis units_mono units_pow_mag)
qed

lemma f32_parts [simp]: "fprec TYPE(32) = 23" "fscale TYPE(32) = 149" "finf TYPE(32) = 255 * 2 ^ 23"
  by (simp_all add: fprec_def fscale_def finf_def)

lemma units_inf: "units 23 (finf TYPE(32)) = 2 ^ 277"
proof -
  have "finf TYPE(32) = pow_mag 277" by (simp add: pow_mag_def)
  then show ?thesis by (simp only: units_pow_mag)
qed

section \<open>Bounded numbers\<close>

text \<open>At most \<open>2 ^ K\<close> units, at least \<open>2 ^ K\<close> units, and any number or infinity; none of them negative.\<close>

definition at_most :: "nat \<Rightarrow> f32 \<Rightarrow> bool" where
  "at_most K x \<longleftrightarrow> \<not> fsign x \<and> units 23 (fmag x) \<le> 2 ^ K"

definition at_least :: "nat \<Rightarrow> f32 \<Rightarrow> bool" where
  "at_least K x \<longleftrightarrow> \<not> fsign x \<and> 2 ^ K \<le> units 23 (fmag x)"

definition number :: "f32 \<Rightarrow> bool" where
  "number x \<longleftrightarrow> \<not> fsign x \<and> \<not> is_nan x"

lemma at_most_mono: "at_most J x \<Longrightarrow> J \<le> K \<Longrightarrow> at_most K x"
  unfolding at_most_def by (meson order_trans power_increasing one_le_numeral)

lemma at_most_finite: "at_most K x \<Longrightarrow> K < 277 \<Longrightarrow> is_finite x \<and> \<not> is_inf x \<and> number x"
proof -
  assume x: "at_most K x" and "K < 277"
  then have "(2::nat) ^ K < 2 ^ 277" by (intro power_strict_increasing) simp_all
  then have "units 23 (fmag x) < units 23 (finf TYPE(32))" using x unfolding units_inf at_most_def by linarith
  then have "fmag x < finf TYPE(32)" by (simp only: units_less)
  then show ?thesis using x unfolding number_def is_nan_def is_inf_def is_finite_def at_most_def by linarith
qed

lemma fval_nonneg: "\<not> fsign x \<Longrightarrow> fval (x :: f32) = int (units 23 (fmag x))"
  by (simp add: fval_parts)

lemma round_number: "number (fround False p q)"
  by (simp add: number_def is_nan_def fround_mag)

lemma round_at_most: "0 < q \<Longrightarrow> p \<le> 2 ^ K * q \<Longrightarrow> at_most K (fround False p q)"
  using round_le_pow [of q p K] units_mono [of 23 "min (round_mag 23 p q) (finf TYPE(32))" "round_mag 23 p q"]
  by (simp add: at_most_def fround_mag)

lemma round_at_least: "0 < q \<Longrightarrow> 2 ^ K * q \<le> p \<Longrightarrow> K \<le> 277 \<Longrightarrow> at_least K (fround False p q)"
proof -
  assume "0 < q" "2 ^ K * q \<le> p" "K \<le> 277"
  then have "2 ^ K \<le> units 23 (round_mag 23 p q)" by (intro round_ge_pow)
  moreover have "(2::nat) ^ K \<le> units 23 (finf TYPE(32))"
    unfolding units_inf using \<open>K \<le> 277\<close> by (rule power_increasing) simp
  ultimately show ?thesis by (auto simp: at_least_def fround_mag min_def)
qed

lemma zero_bounds: "at_most K fzero" "number fzero" "fmag (fzero :: f32) = 0"
  by (simp_all add: at_most_def number_def is_nan_def fmake_parts)

lemma of_int_at_most: "0 \<le> i \<Longrightarrow> i \<le> 2 ^ k \<Longrightarrow> at_most (k + 149) (f_of_int i)"
proof -
  assume i: "0 \<le> i" "i \<le> 2 ^ k"
  then have "nat \<bar>i\<bar> \<le> 2 ^ k" by (simp add: nat_le_iff)
  then have "nat \<bar>i\<bar> * 2 ^ 149 \<le> 2 ^ (k + 149) * 1" by (simp only: power_add mult_1_right mult_le_mono1)
  then show ?thesis using i unfolding f_of_int_def by (simp add: round_at_most del: mult_1_right power_Suc)
qed

lemma of_int_at_least: "1 \<le> i \<Longrightarrow> at_least 149 (f_of_int i)"
proof -
  assume "1 \<le> i"
  then have "2 ^ 149 * 1 \<le> nat \<bar>i\<bar> * 2 ^ 149" by simp
  then show ?thesis using \<open>1 \<le> i\<close> unfolding f_of_int_def by (simp add: round_at_least)
qed

section \<open>Operations on bounded numbers\<close>

lemma add_at_most:
  assumes "at_most K x" "at_most K y" "K < 276"
  shows "at_most (Suc K) (fadd N x y)"
proof -
  let ?v = "units 23 (fmag x) + units 23 (fmag y)"
  note fin = at_most_finite [OF assms(1)] at_most_finite [OF assms(2)]
  have v: "fval x + fval y = int ?v" using assms by (simp add: fval_nonneg at_most_def)
  have s: "\<not> fsign x" "\<not> fsign y" using assms by (simp_all add: at_most_def)
  have "?v \<le> 2 ^ Suc K * 1" using assms by (simp add: at_most_def)
  then have "at_most (Suc K) (fround False ?v 1)" by (intro round_at_most) simp_all
  then show ?thesis using fin assms(3) s zero_bounds(1) [of "Suc K"]
    by (simp add: fadd_def fadd_with_def v Let_def number_def nat_int_add)
qed

lemma add_number:
  assumes "number x" "number y"
  shows "number (fadd N x y)"
proof -
  have s: "\<not> fsign x" "\<not> fsign y" "\<not> is_nan x" "\<not> is_nan y" using assms by (simp_all add: number_def)
  then have "\<not> fval x + fval y < 0" by (simp add: fval_nonneg)
  then show ?thesis using s assms zero_bounds(2) round_number by (auto simp: fadd_def fadd_with_def Let_def)
qed

lemma add_at_least:
  assumes "at_least K x \<or> at_least K y" "number x" "number y" "K \<le> 277"
  shows "at_least K (fadd N x y)"
proof -
  let ?v = "units 23 (fmag x) + units 23 (fmag y)"
  have s: "\<not> fsign x" "\<not> fsign y" "\<not> is_nan x" "\<not> is_nan y" using assms by (simp_all add: number_def)
  have inf: "at_least K z" if "is_inf z" "number z" for z
    using that assms(4) power_increasing [of K 277 "2::nat"] units_inf unfolding is_inf_def at_least_def number_def by simp
  have v: "fval x + fval y = int ?v" using s by (simp add: fval_nonneg)
  have sum: "2 ^ K \<le> ?v" using assms(1) by (auto simp: at_least_def)
  then have pos: "0 < ?v" by (meson less_le_trans zero_less_numeral zero_less_power)
  have "at_least K (fround False ?v 1)" using sum assms(4) by (intro round_at_least) simp_all
  then show ?thesis using s pos inf assms unfolding fadd_def fadd_with_def v Let_def by (auto simp: nat_int_add)
qed

lemma sub_at_most:
  assumes x: "at_most K x" and y: "at_most K y" and le: "fmag y \<le> fmag x" and "K < 277"
  shows "at_most K (fsub N x y)"
proof -
  have s: "\<not> fsign x" "\<not> fsign y" using x y by (simp_all add: at_most_def)
  have mag: "fmag (fneg y) = fmag y" "fsign (fneg y)" using s fmag_less [of y] by (simp_all add: fneg_def fmake_parts)
  define d where "d = units 23 (fmag x) - units 23 (fmag y)"
  have v: "fval x + fval (fneg y) = int d"
    using s mag le units_mono [of 23 "fmag y" "fmag x"] by (simp add: d_def fval_parts of_nat_diff)
  have "d \<le> 2 ^ K * 1" using x by (simp add: d_def at_most_def le_diff_conv trans_le_add1)
  then have "at_most K (fround False d 1)" by (intro round_at_most) simp_all
  moreover have "\<not> is_nan x \<and> \<not> is_inf x \<and> \<not> is_nan (fneg y) \<and> \<not> is_inf (fneg y)"
    using at_most_finite [OF x] at_most_finite [OF y] mag(1) assms(4) by (simp add: number_def is_nan_def is_inf_def)
  ultimately show ?thesis unfolding fsub_def fadd_with_def v using s(1) zero_bounds(1) [of K] by (simp add: Let_def)
qed

lemma mul_at_most:
  assumes "at_most J x" "at_most K y" "J < 277" "K < 277" "J + K \<le> M + 149"
  shows "at_most M (fmul N x y)"
proof -
  note fin = at_most_finite [OF assms(1,3)] at_most_finite [OF assms(2,4)]
  have s: "\<not> fsign x" "\<not> fsign y" using assms by (simp_all add: at_most_def)
  have "units 23 (fmag x) * units 23 (fmag y) \<le> 2 ^ J * 2 ^ K" using assms by (intro mult_le_mono) (simp_all add: at_most_def)
  also have "\<dots> \<le> 2 ^ M * 2 ^ 149" unfolding power_add [symmetric] using assms(5) by (intro power_increasing) simp_all
  finally have "at_most M (fround False (units 23 (fmag x) * units 23 (fmag y)) (2 ^ 149))" by (intro round_at_most) simp_all
  then show ?thesis using fin s by (simp add: fmul_def Let_def number_def fval_nonneg nat_mult_distrib flip: of_nat_mult)
qed

lemma mul_at_least:
  assumes "at_least J x" "at_least K y" "is_finite x" "is_finite y" "M + 149 \<le> J + K" "M \<le> 277"
  shows "at_least M (fmul N x y)"
proof -
  have s: "\<not> fsign x" "\<not> fsign y" using assms by (simp_all add: at_least_def)
  have fin: "\<not> is_nan x" "\<not> is_inf x" "\<not> is_nan y" "\<not> is_inf y" using assms(3,4) by (simp_all add: is_nan_def is_inf_def is_finite_def)
  have "(2::nat) ^ M * 2 ^ 149 \<le> 2 ^ J * 2 ^ K" unfolding power_add [symmetric] using assms(5) by (intro power_increasing) simp_all
  also have "\<dots> \<le> units 23 (fmag x) * units 23 (fmag y)" using assms by (intro mult_le_mono) (simp_all add: at_least_def)
  finally have "at_least M (fround False (units 23 (fmag x) * units 23 (fmag y)) (2 ^ 149))"
    using assms(6) by (intro round_at_least) simp_all
  then show ?thesis using fin s by (simp add: fmul_def Let_def fval_nonneg nat_mult_distrib flip: of_nat_mult)
qed

lemma mul_number: "number x \<Longrightarrow> number y \<Longrightarrow> \<not> is_inf x \<Longrightarrow> fmag x \<noteq> 0 \<Longrightarrow> (is_inf y \<longrightarrow> fmag y \<noteq> 0) \<Longrightarrow> number (fmul N x y)"
  using round_number by (auto simp: fmul_def Let_def number_def is_nan_def fmake_parts)

lemma div_at_most:
  assumes "at_most J x" "at_least K y" "is_finite y" "J < 277" "J + 149 \<le> M + K"
  shows "at_most M (fdiv N x y)"
proof -
  note fin = at_most_finite [OF assms(1,4)]
  have s: "\<not> fsign x" "\<not> fsign y" using assms by (simp_all add: at_most_def at_least_def)
  have y: "\<not> is_nan y" "\<not> is_inf y" using assms(3) by (simp_all add: is_nan_def is_inf_def is_finite_def)
  have pos: "0 < units 23 (fmag y)" using assms(2) unfolding at_least_def by (meson less_le_trans zero_less_numeral zero_less_power)
  have "units 23 (fmag x) * 2 ^ 149 \<le> 2 ^ J * 2 ^ 149" using assms by (simp add: at_most_def)
  also have "\<dots> \<le> 2 ^ M * 2 ^ K" unfolding power_add [symmetric] using assms(5) by (intro power_increasing) simp_all
  also have "\<dots> \<le> 2 ^ M * units 23 (fmag y)" using assms by (simp add: at_least_def)
  finally have "at_most M (fround False (units 23 (fmag x) * 2 ^ 149) (units 23 (fmag y)))" using pos by (intro round_at_most)
  moreover have "fmag y \<noteq> 0" using pos by (metis units_0 less_irrefl)
  ultimately show ?thesis using fin s y by (simp add: fdiv_def Let_def number_def fval_nonneg)
qed

lemma div_number:
  assumes "number x" "number y" "\<not> is_inf x" "fmag x \<noteq> 0 \<or> fmag y \<noteq> 0"
  shows "number (fdiv N x y)"
  using assms round_number zero_bounds(2) by (auto simp: fdiv_def Let_def number_def is_nan_def fmake_parts)

section \<open>The formula\<close>

lemma mag_bounds:
  "at_most K x \<longleftrightarrow> \<not> fsign x \<and> fmag x \<le> pow_mag K" "at_least K x \<longleftrightarrow> \<not> fsign x \<and> pow_mag K \<le> fmag x"
  unfolding at_most_def at_least_def units_pow_mag [symmetric] units_mono by (rule refl)+

lemma at_least_pos: "at_least K x \<Longrightarrow> fmag x \<noteq> 0"
  by (intro notI) (simp add: at_least_def)

lemma constants:
  "at_most 148 (0x3F000000 :: f32)" "at_least 148 (0x3F000000 :: f32)" "at_most 150 BM25_K1" "at_least 149 BM25_K1"
  "at_most 149 BM25_B" "at_least 148 BM25_B" "at_most 149 (fone :: f32)" "at_least 149 (fone :: f32)"
  using of_int_at_most [of 1 0] of_int_at_least [of 1]
  by (simp_all add: mag_bounds pow_mag_def BM25_K1_def BM25_B_def fmag_def fsign_def)

text \<open>The logarithm of a number from one on is a number between zero and it.\<close>

definition ln_ok :: "(f32 \<Rightarrow> f32) \<Rightarrow> bool" where
  "ln_ok f \<longleftrightarrow> (\<forall>x. is_finite x \<and> fle fone x \<longrightarrow> \<not> fsign (f x) \<and> fle (f x) x)"

lemma fle_mag: "number x \<Longrightarrow> number y \<Longrightarrow> fle x y \<longleftrightarrow> fmag x \<le> fmag y"
  by (auto simp: fle_def flt_def feq_def fpartial_cmp_def fkey_def number_def)

lemma sub_counts:
  assumes "df \<le> n" "n \<le> 2 ^ 64"
  shows "at_most 213 (fsub N (f_of_int (int n)) (f_of_int (int df)))"
proof -
  let ?x = "f_of_int (int n) :: f32" and ?y = "f_of_int (int df) :: f32"
  have "int n \<le> int (2 ^ 64)" "int df \<le> int (2 ^ 64)" using assms unfolding of_nat_le_iff by linarith+
  then have x: "at_most 213 ?x" and y: "at_most 213 ?y" using of_int_at_most [of "int n" 64] of_int_at_most [of "int df" 64] by simp_all
  have "ftotal_key ?y \<le> ftotal_key ?x" using assms(1) by (intro f_of_int_mono) simp_all
  then have "fmag ?y \<le> fmag ?x" using x y by (simp add: ftotal_key_def at_most_def)
  then show ?thesis using x y by (intro sub_at_most) simp_all
qed

lemma idf_bounds:
  assumes "ln_ok (kw_ln K)" "df \<le> n" "n \<le> 2 ^ 64"
  shows "at_most 216 (bm25_idf K n df)"
proof -
  let ?N = "fe_nan32 (kw_float K)"
  let ?a = "fadd ?N (fsub ?N (f_of_int (int n)) (f_of_int (int df))) 0x3F000000"
  let ?b = "fadd ?N (f_of_int (int df)) 0x3F000000"
  let ?x = "fadd ?N (fdiv ?N ?a ?b) fone"
  have a: "at_most 214 ?a" using add_at_most [OF sub_counts [OF assms(2,3)] at_most_mono [OF constants(1), of 213], of ?N ?N] by simp
  have "int df \<le> int (2 ^ 64)" using assms unfolding of_nat_le_iff by linarith
  then have d: "at_most 213 (f_of_int (int df))" using of_int_at_most [of "int df" 64] by simp
  have b: "at_most 214 ?b" using add_at_most [OF d at_most_mono [OF constants(1), of 213], of ?N] by simp
  have "number (f_of_int (int df) :: f32)" "number (0x3F000000 :: f32)"
    using at_most_finite [OF d] at_most_finite [OF constants(1)] by simp_all
  then have b': "at_least 148 ?b" using constants(2) by (intro add_at_least) simp_all
  have q: "at_most 215 (fdiv ?N ?a ?b)" using at_most_finite [OF b] by (intro div_at_most [OF a b']) simp_all
  have x: "at_most 216 ?x" using add_at_most [OF q at_most_mono [OF constants(7), of 215], of ?N] by simp
  have one: "number (fone :: f32)" "number (fdiv ?N ?a ?b)" using at_most_finite [OF constants(7)] at_most_finite [OF q] by simp_all
  then have "at_least 149 ?x" using constants(8) by (intro add_at_least) simp_all
  then have "fmag (fone :: f32) \<le> fmag ?x" using constants(7) by (simp add: mag_bounds)
  then have "fle fone ?x" "is_finite ?x" using fle_mag [OF one(1)] at_most_finite [OF x] by simp_all
  then have l: "\<not> fsign (kw_ln K ?x)" "fle (kw_ln K ?x) ?x" using assms(1) by (simp_all add: ln_ok_def)
  then have "number (kw_ln K ?x)" by (auto simp: number_def fle_def flt_def feq_def fpartial_cmp_def split: if_splits)
  then have "fmag (kw_ln K ?x) \<le> fmag ?x" using l fle_mag at_most_finite [OF x] by simp
  then show ?thesis using x l(1) by (auto simp: bm25_idf_def Let_def mag_bounds)
qed

text \<open>One term's contribution, for a document and a term that occur.\<close>

lemma term_number:
  assumes idf: "at_most 216 i" and avg: "at_most 213 avg" and "dl \<noteq> 0" "tf \<noteq> 0"
  shows "number (bm25_term K avg i dl tf)"
proof -
  let ?N = "fe_nan32 (kw_float K)" and ?d = "f_of_int (uint dl) :: f32" and ?t = "f_of_int (uint tf) :: f32"
  have u: "1 \<le> uint w \<and> uint w \<le> 2 ^ 32" if "w \<noteq> 0" for w :: u32
  proof -
    have "uint w \<noteq> 0" "uint w < 2 ^ 32" using that uint_lt2p [of w] by (simp_all add: word_uint_eq_iff)
    then show ?thesis using uint_ge_0 [of w] by linarith
  qed
  have d: "at_most 181 ?d" "at_least 149 ?d" and t: "at_most 181 ?t" "at_least 149 ?t"
    using u [OF assms(3)] u [OF assms(4)] of_int_at_most [of "uint dl" 32] of_int_at_most [of "uint tf" 32] of_int_at_least by simp_all
  let ?bd = "fmul ?N BM25_B ?d" and ?c = "fsub ?N fone BM25_B" and ?top = "fmul ?N i (fmul ?N ?t (fadd ?N BM25_K1 fone))"
  note fin = at_most_finite [OF d(1)] at_most_finite [OF t(1)] at_most_finite [OF constants(3)] at_most_finite [OF constants(5)]
  have bd: "at_most 181 ?bd" by (rule mul_at_most [OF constants(5) d(1)]) simp_all
  have "at_least 148 ?bd" by (rule mul_at_least [OF constants(6) d(2)]) (use fin in simp_all)
  then have q: "number (fdiv ?N ?bd avg)"
    using at_most_finite [OF bd] at_most_finite [OF avg] at_least_pos by (intro div_number) simp_all
  have "fmag BM25_B \<le> fmag (fone :: f32)" using constants(5,8) by (simp add: mag_bounds)
  then have "at_most 149 ?c" using constants(5,7) by (intro sub_at_most) simp_all
  then have "number (fadd ?N ?c (fdiv ?N ?bd avg))" using q at_most_finite by (intro add_number) simp_all
  then have k: "number (fmul ?N BM25_K1 (fadd ?N ?c (fdiv ?N ?bd avg)))"
    using fin at_least_pos [OF constants(4)] by (intro mul_number) (simp_all add: is_inf_def)
  have "at_most 151 (fadd ?N BM25_K1 fone)"
    using add_at_most [OF constants(3) at_most_mono [OF constants(7), of 150], of ?N] by simp
  then have "at_most 183 (fmul ?N ?t (fadd ?N BM25_K1 fone))" using mul_at_most [OF t(1), of 151 _ 183] by simp
  then have "at_most 250 ?top" using mul_at_most [OF idf, of 183 _ 250] by simp
  then have "number ?top" "\<not> is_inf ?top" using at_most_finite [of 250 ?top] by simp_all
  moreover have "at_least 149 (fadd ?N ?t (fmul ?N BM25_K1 (fadd ?N ?c (fdiv ?N ?bd avg))))"
    using t(2) k fin by (intro add_at_least) simp_all
  moreover have "number (fadd ?N ?t (fmul ?N BM25_K1 (fadd ?N ?c (fdiv ?N ?bd avg))))" using k fin by (intro add_number) simp_all
  ultimately show ?thesis unfolding bm25_term_def Let_def using at_least_pos by (intro div_number) simp_all
qed

section \<open>Scores\<close>

text \<open>A collection with documents of at least one and fewer than \<open>2 ^ 32\<close> tokens.\<close>

definition sized :: "docs \<Rightarrow> bool" where
  "sized D \<longleftrightarrow> (\<forall>n toks. D n = Some toks \<longrightarrow> toks \<noteq> [] \<and> length toks < 2 ^ 32)"

lemma of_nat_pos: "0 < n \<Longrightarrow> n < 2 ^ 32 \<Longrightarrow> (of_nat n :: u32) \<noteq> 0"
  using unat_of_nat [of n, where 'a = 32] by (auto simp: take_bit_nat_eq_self)

lemma avg_bound:
  assumes "D n \<noteq> None"
  shows "at_most 213 (avg_len K D)"
proof -
  have fin: "finite (dom D)" by (rule finite_subset [of _ UNIV]) auto
  then have n: "1 \<le> int (card (dom D))" using assms by (auto simp: Suc_le_eq card_gt_0_iff)
  have "card (dom D) \<le> 2 ^ 64" using card_mono [of "UNIV :: u64 set" "dom D"] by (simp add: card_word)
  then have "at_most 213 (f_of_int (int (card (dom D))))" using of_int_at_most [of "int (card (dom D))" 64] by simp
  then have "is_finite (f_of_int (int (card (dom D))) :: f32)" using at_most_finite [of 213] by simp
  moreover have "at_most 213 (f_of_int (uint (total_of D)))"
    using of_int_at_most [of "uint (total_of D)" 64] uint_lt2p [of "total_of D"] by simp
  ultimately show ?thesis unfolding avg_len_def using of_int_at_least [OF n] by (intro div_at_most [where J = 213 and K = 149]) simp_all
qed

lemma gain_number:
  assumes ln: "ln_ok (kw_ln K)" and D: "sized D" and g: "term_gain K D t n = Some x"
  shows "number x"
proof -
  obtain toks where n: "D n = Some toks" "t \<in> set toks"
    using g by (auto simp: term_gain_def term_docs_def split: option.splits if_splits)
  have len: "toks \<noteq> []" "length toks < 2 ^ 32" using D n(1) by (auto simp: sized_def)
  have "0 < count_list toks t" using n(2) by (metis count_list_0_iff gr0I)
  moreover have "count_list toks t \<le> length toks" by (rule count_le_length)
  ultimately have tf: "(of_nat (count_list toks t) :: u32) \<noteq> 0" using len(2) by (intro of_nat_pos) linarith+
  have dl: "len32 toks \<noteq> 0" unfolding len32_def using len by (intro of_nat_pos) simp_all
  have fin: "finite (dom D)" by (rule finite_subset [of _ UNIV]) auto
  have "dom (term_docs D t) \<subseteq> dom D" by (auto simp: term_docs_def split: option.splits)
  then have "card (dom (term_docs D t)) \<le> card (dom D)" using fin by (rule card_mono [rotated])
  moreover have "card (dom D) \<le> 2 ^ 64" using card_mono [of "UNIV :: u64 set" "dom D"] by (simp add: card_word)
  ultimately have "at_most 216 (bm25_idf K (card (dom D)) (card (dom (term_docs D t))))" by (rule idf_bounds [OF ln])
  moreover have "at_most 213 (avg_len K D)" using n by (intro avg_bound [of D n]) simp
  ultimately show ?thesis using g n term_number [OF _ _ dl tf] by (auto simp: term_gain_def term_docs_def)
qed

lemma scores_numbers:
  assumes "ln_ok (kw_ln K)" "sized D"
  shows "scores_are_numbers K D terms"
proof -
  have "pred_option number (fold (\<lambda>t s. add_gain K s (term_gain K D t n)) ts s)" if "pred_option number s" for ts s n
    using that
  proof (induction ts arbitrary: s)
    case (Cons t ts)
    have "pred_option number (add_gain K s (term_gain K D t n))"
      using Cons.prems gain_number [OF assms, of t n] zero_bounds(2) add_number
      by (cases s; cases "term_gain K D t n") (simp_all add: add_gain_def)
    then show ?case using Cons.IH by simp
  qed simp
  then have "pred_option number (doc_score K D terms n)" for n unfolding doc_score_def by simp
  then show ?thesis by (metis scores_are_numbers_def number_def option.pred_inject(2))
qed

end
