(* ===== verification/Txn_Frame.thy ===== *)
theory Txn_Frame
  imports Write_Txn Graph_Props Graph_Bulk_Run
begin

text \<open>
  What the graph operations leave alone in the metadata table, whether they succeed or fail. The rows of
  the summary counters, the commit sequence and the commit time are no row of the graph: graph operations
  keep them, and writing them keeps the graph.
\<close>

named_theorems keeps_intros \<open>operations that keep a metadata row\<close>

definition keeps :: "('t \<Rightarrow> bool) \<Rightarrow> ('t \<Rightarrow> kv) \<Rightarrow> bytes \<Rightarrow> ('t, 'a) act \<Rightarrow> bool" where
  "keeps I vw k a \<longleftrightarrow> (\<forall>t. I t \<longrightarrow> I (snd (a t)) \<and> vw (snd (a t)) Meta k = vw t Meta k)"

lemma keepsD: "keeps I vw k a \<Longrightarrow> I t \<Longrightarrow> a t = (r, t') \<Longrightarrow> I t' \<and> vw t' Meta k = vw t Meta k"
  unfolding keeps_def by (metis snd_conv)

lemma keeps_pure [keeps_intros]: "keeps I vw k (ret x)" "keeps I vw k (fail e)" "keeps I vw k (reading f)"
  by (simp_all add: keeps_def)

lemma keeps_bind [keeps_intros]: "keeps I vw k a \<Longrightarrow> (\<And>x. keeps I vw k (f x)) \<Longrightarrow> keeps I vw k (act_bind a f)"
  unfolding keeps_def act_bind_def by (auto split: prod.splits sum.splits)

lemma keeps_iter [keeps_intros]: "(\<And>x. keeps I vw k (f x)) \<Longrightarrow> keeps I vw k (act_iter f xs)"
  by (induction xs) (simp_all add: keeps_intros)

lemma keeps_map [keeps_intros]: "(\<And>x. keeps I vw k (f x)) \<Longrightarrow> keeps I vw k (act_map f xs)"
  by (induction xs) (simp_all add: keeps_intros)

lemma keeps_if [keeps_intros]: "keeps I vw k a \<Longrightarrow> keeps I vw k b \<Longrightarrow> keeps I vw k (if c then a else b)"
  by simp

lemma keeps_option [keeps_intros]:
  "keeps I vw k a \<Longrightarrow> (\<And>x. keeps I vw k (f x)) \<Longrightarrow> keeps I vw k (case z of None \<Rightarrow> a | Some x \<Rightarrow> f x)"
  by (cases z) simp_all

lemma keeps_pair [keeps_intros]: "(\<And>x y. keeps I vw k (f x y)) \<Longrightarrow> keeps I vw k (case z of (x, y) \<Rightarrow> f x y)"
  by (cases z) simp_all

text \<open>Metadata rows that neither a dictionary nor its counter uses.\<close>

definition dict_apart :: "bytes \<Rightarrow> bool" where
  "dict_apart k \<longleftrightarrow> k \<noteq> META_NEXT_LABEL_ID \<and> k \<noteq> META_NEXT_EDGE_TYPE_ID \<and>
     (\<forall>n. k \<noteq> dict_label_key n) \<and> (\<forall>n. k \<noteq> dict_edge_type_key n) \<and> (\<forall>i. k \<noteq> dict_label_rev_key i) \<and> (\<forall>i. k \<noteq> dict_edge_type_rev_key i)"

lemma bookkeeping_apart:
  "dict_apart (counters_key p)" "dict_apart META_COMMIT_SEQ" "dict_apart META_COMMIT_TIME"
  "dict_apart META_NEXT_NODE_ID" "dict_apart META_NEXT_EDGE_ID" "dict_apart META_NEXT_PLANE_ID"
  by (simp_all add: dict_apart_def meta_key_defs)

context kv_txn begin

lemma keeps_put [keeps_intros]: "tb \<noteq> Meta \<or> k' \<noteq> k \<Longrightarrow> keeps inv view k (v_put V tb k' v)"
  by (auto simp: keeps_def tx_simps kv_apply)

lemma keeps_delete [keeps_intros]: "tb \<noteq> Meta \<or> k' \<noteq> k \<Longrightarrow> keeps inv view k (v_delete V tb k')"
  by (auto simp: keeps_def tx_simps kv_apply)

lemma keeps_next_id [keeps_intros]: "ctr \<noteq> k \<Longrightarrow> keeps inv view k (next_id V ctr)"
  unfolding next_id_def put_u64_def by (intro keeps_intros) simp

lemma keeps_intern [keeps_intros]:
  "dict_apart k \<Longrightarrow> keeps inv view k (intern_label V name)" "dict_apart k \<Longrightarrow> keeps inv view k (intern_edge_type V name)"
  unfolding intern_label_def intern_edge_type_def intern_def by (intro keeps_intros; auto simp: dict_apart_def)+

lemma keeps_nodes [keeps_intros]:
  assumes "dict_apart k"
  shows "keeps inv view k (insert_node V pc p i ek labels ps)" "keeps inv view k (set_node_prop V pc p i key d)"
    "keeps inv view k (remove_node_prop V pc p i key)" "keeps inv view k (set_node_labels V pc p i labels)"
  unfolding insert_node_def set_node_prop_def remove_node_prop_def set_node_labels_def
  by (intro keeps_intros assms; simp)+

lemma keeps_edges [keeps_intros]:
  assumes "dict_apart k"
  shows "keeps inv view k (insert_edge V pc p e s d ty ps)" "keeps inv view k (set_edge_prop V pc p e key x)"
    "keeps inv view k (remove_edge_prop V pc p e key)" "keeps inv view k (set_edge_type V pc p e ty)"
    "keeps inv view k (delete_edge V pc p e)"
  unfolding insert_edge_def check_endpoint_def set_edge_prop_def remove_edge_prop_def set_edge_type_def delete_edge_def
  by (intro keeps_intros assms; simp)+

lemma keeps_delete_node [keeps_intros]: "dict_apart k \<Longrightarrow> keeps inv view k (delete_node V pc p i)"
  unfolding delete_node_def by (intro keeps_intros; simp)

lemma keeps_reserve [keeps_intros]: "ctr \<noteq> k \<Longrightarrow> keeps inv view k (reserve_id_batch V ctr n)"
  unfolding reserve_id_batch_def put_u64_def by (intro keeps_intros) simp

end

text \<open>Writing a bookkeeping row keeps the graph.\<close>

lemma reprD_bookkeeping:
  assumes "reprD pc L T G m" "dict_apart k" "k \<noteq> META_NEXT_NODE_ID" "k \<noteq> META_NEXT_EDGE_ID"
  shows "reprD pc L T G (kv_put Meta k v m)"
proof -
  note D = reprD_D [OF assms(1)]
  have "label_dict L ((m Meta)(k \<mapsto> v))" "type_dict T ((m Meta)(k \<mapsto> v))"
    using assms(2) by (auto simp: dict_apart_def intro!: dict_repr_other [OF D(1)] dict_repr_other [OF D(2)])
  moreover have "ids_repr META_NEXT_NODE_ID (ag_node G) ((m Meta)(k \<mapsto> v))" "ids_repr META_NEXT_EDGE_ID (ag_edge G) ((m Meta)(k \<mapsto> v))"
    using ids_repr_other [OF D(3), of k "Some v"] ids_repr_other [OF D(4), of k "Some v"] assms(3,4) by simp_all
  ultimately show ?thesis using D by (simp add: reprD_def del: fun_upd_apply)
qed

end
