(* ===== verification/Catalog_Spec.thy ===== *)
theory Catalog_Spec
  imports Catalog Graph_Props
begin

text \<open>
  What the scans of \<open>compute/catalog.rs\<close> tally. Every statistic of a catalogue is a number of
  occurrences among the records of the plane; the lookups below read them, and the roll-up adds them.
\<close>

section \<open>The records of a plane\<close>

definition plane_nodes :: "agraph \<Rightarrow> plane_id \<Rightarrow> node_record list" where
  "plane_nodes G p = map (\<lambda>n. node_rec p n (the (ag_node G (p, n)))) (sorted_list_of_set {n. (p, n) \<in> dom (ag_node G)})"

definition plane_edges :: "agraph \<Rightarrow> plane_id \<Rightarrow> edge_record list" where
  "plane_edges G p = map (\<lambda>e. edge_rec p e (the (ag_edge G (p, e)))) (sorted_list_of_set {e. (p, e) \<in> dom (ag_edge G)})"

lemma finite_ids [simp]: "finite {n. (p, n) \<in> dom (N :: (plane_id \<times> u64) \<Rightarrow> 'a option)}"
  by (rule finite_subset [of _ UNIV]) auto

lemma fold_loaded_all:
  "(\<And>i. i \<in> set is \<Longrightarrow> load i = Inr (Some (r i))) \<Longrightarrow> fold_loaded load f is s = Inr (fold f (map r is) s)"
  by (induction "is" arbitrary: s) simp_all

context kv_txn begin

lemma load_nodes:
  assumes "inv t" "reprD pc L T G (view t)"
  shows "fold_loaded (get_node V pc t p) f (sorted_list_of_set {n. (p, n) \<in> dom (ag_node G)}) s =
    Inr (fold f (plane_nodes G p) s)"
  unfolding plane_nodes_def by (rule fold_loaded_all) (auto simp: get_node_run [OF assms])

lemma load_edges:
  assumes "inv t" "reprD pc L T G (view t)"
  shows "fold_loaded (get_edge V pc t p) f (sorted_list_of_set {e. (p, e) \<in> dom (ag_edge G)}) s =
    Inr (fold f (plane_edges G p) s)"
  unfolding plane_edges_def by (rule fold_loaded_all) (auto simp: get_edge_run [OF assms])

lemma catalog_count_run:
  assumes "inv t" "reprD pc L T G (view t)"
  shows "catalog_count V pc t p = Inr (fold count_edge (plane_edges G p) (fold count_node (plane_nodes G p) counters_default))"
  by (simp add: catalog_count_def scan_all_run [OF assms] scan_edges_run [OF assms] load_nodes [OF assms] load_edges [OF assms])

end

section \<open>Tallies\<close>

text \<open>The value an ordered map holds, or zero.\<close>

definition bt_at :: "('k::linorder, u64) btree \<Rightarrow> 'k \<Rightarrow> u64" where
  "bt_at m k = (case map_of m k of None \<Rightarrow> 0 | Some v \<Rightarrow> v)"

lemma map_of_bt_entry [simp]:
  "map_of (bt_entry k d f m) = (map_of m)(k \<mapsto> f (case map_of m k of None \<Rightarrow> d | Some v \<Rightarrow> v))"
  by (simp add: bt_entry_def)

lemma bt_ok_entry [simp]: "bt_ok m \<Longrightarrow> bt_ok (bt_entry k d f m)"
  by (simp add: bt_entry_def)

lemma bt_at_entry [simp]: "bt_at (bt_entry k 0 f m) j = (if j = k then f (bt_at m k) else bt_at m j)"
  by (simp add: bt_at_def)

lemma bt_ok_fold_entry [simp]: "bt_ok m \<Longrightarrow> bt_ok (fold (\<lambda>x. bt_entry (k x) d (f x)) xs m)"
  by (induction xs arbitrary: m) simp_all

lemma dom_fold_entry: "dom (map_of (fold (\<lambda>x. bt_entry (k x) d (f x)) xs m)) = dom (map_of m) \<union> k ` set xs"
  by (induction xs arbitrary: m) (auto simp del: dom_map_of_conv_image_fst)

lemma bt_at_fold_tally:
  "bt_at (fold (\<lambda>x. bt_entry (k x) 0 (\<lambda>c. c + 1)) xs m) j = bt_at m j + of_nat (count_list (map k xs) j)"
  by (induction xs arbitrary: m) auto

lemma fold_tally_id: "fold (\<lambda>x. bt_entry x 0 (\<lambda>c. c + 1)) xs = fold (\<lambda>x. bt_entry (id x) 0 (\<lambda>c. c + 1)) xs"
  by simp

lemma bt_at_merge_counts: "distinct (map fst b) \<Longrightarrow> bt_at (merge_counts a b) k = bt_at a k + bt_at b k"
  unfolding merge_counts_def
proof (induction b arbitrary: a)
  case (Cons x b)
  obtain j v where x: "x = (j, v)" by (cases x)
  have "bt_at b j = 0" if "j \<notin> fst ` set b"
    using that by (auto simp: bt_at_def map_of_eq_None_iff [symmetric])
  then show ?case using Cons by (auto simp: x bt_at_def)
qed (simp add: bt_at_def)

section \<open>Summary counters\<close>

definition label_total :: "agraph \<Rightarrow> plane_id \<Rightarrow> str \<Rightarrow> nat" where
  "label_total G p l = (\<Sum>n | (p, n) \<in> dom (ag_node G). count_list (fst (snd (the (ag_node G (p, n))))) l)"

definition type_total :: "agraph \<Rightarrow> plane_id \<Rightarrow> str \<Rightarrow> nat" where
  "type_total G p ty = card {e. \<exists>s d ps. ag_edge G (p, e) = Some (s, d, ty, ps)}"

definition node_total :: "agraph \<Rightarrow> plane_id \<Rightarrow> nat" where
  "node_total G p = card {n. (p, n) \<in> dom (ag_node G)}"

definition edge_total :: "agraph \<Rightarrow> plane_id \<Rightarrow> nat" where
  "edge_total G p = card {e. (p, e) \<in> dom (ag_edge G)}"

text \<open>A row states the exact totals of the plane, and names nothing that does not occur.\<close>

definition counts :: "agraph \<Rightarrow> plane_id \<Rightarrow> plane_counters \<Rightarrow> bool" where
  "counts G p c \<longleftrightarrow> bt_ok (ct_labels c) \<and> bt_ok (ct_edge_types c) \<and>
     ct_nodes c = of_nat (node_total G p) \<and> ct_edges c = of_nat (edge_total G p) \<and>
     (\<forall>l. bt_at (ct_labels c) l = of_nat (label_total G p l)) \<and>
     (\<forall>ty. bt_at (ct_edge_types c) ty = of_nat (type_total G p ty)) \<and>
     dom (map_of (ct_labels c)) = {l. label_total G p l \<noteq> 0} \<and>
     dom (map_of (ct_edge_types c)) = {ty. type_total G p ty \<noteq> 0}"

lemma count_list_concat_map: "count_list (concat (map f xs)) l = (\<Sum>x\<leftarrow>xs. count_list (f x) l)"
  by (induction xs) simp_all

lemma label_total_list: "label_total G p l = count_list (concat (map nr_labels (plane_nodes G p))) l"
proof -
  let ?S = "{n. (p, n) \<in> dom (ag_node G)}"
  have "count_list (concat (map nr_labels (plane_nodes G p))) l =
      (\<Sum>n\<leftarrow>sorted_list_of_set ?S. count_list (fst (snd (the (ag_node G (p, n))))) l)"
    by (simp add: plane_nodes_def count_list_concat_map comp_def node_rec_def split_def)
  also have "\<dots> = (\<Sum>n\<in>?S. count_list (fst (snd (the (ag_node G (p, n))))) l)"
    by (subst sum_list_distinct_conv_sum_set) simp_all
  finally show ?thesis by (simp add: label_total_def)
qed

lemma type_total_list: "type_total G p ty = count_list (map er_ty (plane_edges G p)) ty"
proof -
  let ?S = "{e. (p, e) \<in> dom (ag_edge G)}"
  let ?f = "\<lambda>e. er_ty (edge_rec p e (the (ag_edge G (p, e))))"
  have "map er_ty (plane_edges G p) = map ?f (sorted_list_of_set ?S)"
    by (simp add: plane_edges_def)
  then have "count_list (map er_ty (plane_edges G p)) ty = length (filter (\<lambda>e. ty = ?f e) (sorted_list_of_set ?S))"
    by (simp add: count_list_eq_length_filter filter_map comp_def)
  also have "\<dots> = card {e \<in> ?S. ty = ?f e}"
    by (subst distinct_card [symmetric]) simp_all
  also have "{e \<in> ?S. ty = ?f e} = {e. \<exists>s d ps. ag_edge G (p, e) = Some (s, d, ty, ps)}"
  proof (rule set_eqI)
    fix e show "e \<in> {e \<in> ?S. ty = ?f e} \<longleftrightarrow> e \<in> {e. \<exists>s d ps. ag_edge G (p, e) = Some (s, d, ty, ps)}"
      by (cases "ag_edge G (p, e)") (auto simp: edge_rec_def split: prod.splits)
  qed
  finally show ?thesis by (simp add: type_total_def)
qed

lemma length_plane [simp]: "length (plane_nodes G p) = node_total G p" "length (plane_edges G p) = edge_total G p"
  by (simp_all add: plane_nodes_def plane_edges_def node_total_def edge_total_def)

lemma fold_count_node:
  "ct_nodes (fold count_node ns c) = ct_nodes c + of_nat (length ns)"
  "ct_edges (fold count_node ns c) = ct_edges c" "ct_edge_types (fold count_node ns c) = ct_edge_types c"
  "ct_labels (fold count_node ns c) = fold (\<lambda>l. bt_entry l 0 (\<lambda>c. c + 1)) (concat (map nr_labels ns)) (ct_labels c)"
  by (induction ns arbitrary: c) (simp_all add: count_node_def)

lemma fold_count_edge:
  "ct_edges (fold count_edge es c) = ct_edges c + of_nat (length es)"
  "ct_nodes (fold count_edge es c) = ct_nodes c" "ct_labels (fold count_edge es c) = ct_labels c"
  "ct_edge_types (fold count_edge es c) = fold (\<lambda>e. bt_entry (er_ty e) 0 (\<lambda>c. c + 1)) es (ct_edge_types c)"
  by (induction es arbitrary: c) (simp_all add: count_edge_def)

lemma count_list_0: "(count_list xs x \<noteq> 0) = (x \<in> set xs)"
  by (simp add: count_list_0_iff)

lemma scan_counts: "counts G p (fold count_edge (plane_edges G p) (fold count_node (plane_nodes G p) counters_default))"
proof -
  let ?ls = "concat (map nr_labels (plane_nodes G p))" and ?tys = "map er_ty (plane_edges G p)"
  have l: "bt_at (fold (\<lambda>l. bt_entry l 0 (\<lambda>c. c + 1)) xs []) k = of_nat (count_list xs k)" for xs k
    using bt_at_fold_tally [of id xs "[]" k] by (simp add: bt_at_def)
  have e: "bt_at (fold (\<lambda>e. bt_entry (er_ty e) 0 (\<lambda>c. c + 1)) xs []) k = of_nat (count_list (map er_ty xs) k)" for xs k
    using bt_at_fold_tally [of er_ty xs "[]" k] by (simp add: bt_at_def)
  have dl: "dom (map_of (fold (\<lambda>l. bt_entry l (0::u64) (\<lambda>c. c + 1)) xs [])) = set xs" for xs :: "str list"
    using dom_fold_entry [of id "0::u64" "\<lambda>_ c. c + 1" xs "[]"] by (simp del: dom_map_of_conv_image_fst)
  have de: "dom (map_of (fold (\<lambda>e. bt_entry (er_ty e) (0::u64) (\<lambda>c. c + 1)) xs [])) = set (map er_ty xs)" for xs
    using dom_fold_entry [of er_ty "0::u64" "\<lambda>_ c. c + 1" xs "[]"] by (simp del: dom_map_of_conv_image_fst)
  have oks: "bt_ok (fold (\<lambda>l. bt_entry l (0::u64) (\<lambda>c. c + 1)) ?ls [])"
    using bt_ok_fold_entry [of "[]" id "0::u64" "\<lambda>_ c. c + 1" ?ls] by simp
  show ?thesis
    unfolding counts_def fold_count_edge fold_count_node label_total_list type_total_list count_list_0
    by (simp add: counters_default_def l e oks dl de Collect_mem_eq del: dom_map_of_conv_image_fst set_concat set_map)
qed

text \<open>The roll-up over planes adds.\<close>

lemma counters_merge_adds:
  assumes "counters_ok b"
  shows "ct_nodes (counters_merge a b) = ct_nodes a + ct_nodes b" "ct_edges (counters_merge a b) = ct_edges a + ct_edges b"
    "bt_at (ct_labels (counters_merge a b)) l = bt_at (ct_labels a) l + bt_at (ct_labels b) l"
    "bt_at (ct_edge_types (counters_merge a b)) ty = bt_at (ct_edge_types a) ty + bt_at (ct_edge_types b) ty"
  using assms by (simp_all add: counters_merge_def bt_at_merge_counts bt_ok_distinct counters_ok_def)

section \<open>The catalogue\<close>

text \<open>The statistics of a catalogue by name, zero where it has no entry.\<close>

definition cat_label :: "catalog_snapshot \<Rightarrow> str \<Rightarrow> label_stats" where
  "cat_label cat l = (case map_of (cat_labels cat) l of None \<Rightarrow> label_stats_default | Some s \<Rightarrow> s)"

definition ls_prop :: "label_stats \<Rightarrow> str \<Rightarrow> prop_stats" where
  "ls_prop s k = (case map_of (ls_properties s) k of None \<Rightarrow> prop_stats_default | Some s \<Rightarrow> s)"

definition cat_type :: "catalog_snapshot \<Rightarrow> str \<Rightarrow> edge_type_stats" where
  "cat_type cat ty = (case map_of (cat_edge_types cat) ty of None \<Rightarrow> edge_type_stats_default | Some s \<Rightarrow> s)"

definition cat_prefixes :: "catalog_snapshot \<Rightarrow> str \<Rightarrow> str set" where
  "cat_prefixes cat producer = (case map_of (cat_key_prefixes cat) producer of None \<Rightarrow> {} | Some b \<Rightarrow> fst ` set b)"

text \<open>The same from the records: what occurs in the nodes and edges of a plane.\<close>

definition prop_events :: "node_record list \<Rightarrow> (str \<times> str \<times> prop_desc) list" where
  "prop_events ns = concat (map (\<lambda>n. concat (map (\<lambda>l. map (\<lambda>(k, d). (l, k, d)) (nr_properties n)) (nr_labels n))) ns)"

definition tally :: "('a \<Rightarrow> bool) \<Rightarrow> 'a list \<Rightarrow> u64" where
  "tally P xs = of_nat (length (filter P xs))"

lemma tally_simps [simp]: "tally P [] = 0" "tally P (x # xs) = (if P x then 1 else 0) + tally P xs"
  "tally P (xs @ ys) = tally P xs + tally P ys"
  by (simp_all add: tally_def)

definition node_stats_ok :: "node_record list \<Rightarrow> catalog_snapshot \<Rightarrow> bool" where
  "node_stats_ok ns cat \<longleftrightarrow>
     cat_node_count cat = of_nat (length ns) \<and> bt_ok (cat_labels cat) \<and>
     (\<forall>l. ls_count (cat_label cat l) = of_nat (count_list (concat (map nr_labels ns)) l) \<and>
        (\<forall>k. let ps = ls_prop (cat_label cat l) k; at = (\<lambda>Q. tally (\<lambda>(l', k', d). l' = l \<and> k' = k \<and> Q d) (prop_events ns)) in
           ps_count ps = at (\<lambda>_. True) \<and>
           (\<forall>y. bt_at (ps_types ps) y = at (\<lambda>d. value_type_of (pd_value d) = y)) \<and>
           (\<forall>x. bt_at (ps_descriptions ps) x = at (\<lambda>d. pd_description d = Some x)))) \<and>
     (\<forall>producer. cat_prefixes cat producer =
        {x. \<exists>n \<in> set ns. \<exists>key. nr_external_key n = Some key \<and> key_prefix key = Some x \<and> producer_of n = producer})"

text \<open>What a fold of entry updates leaves under one key.\<close>

lemma entry_at:
  "(case map_of (fold (\<lambda>x. bt_entry (k x) d (f x)) xs m) j of None \<Rightarrow> d | Some v \<Rightarrow> v) =
   fold f (filter (\<lambda>x. k x = j) xs) (case map_of m j of None \<Rightarrow> d | Some v \<Rightarrow> v)"
  by (induction xs arbitrary: m) auto

lemma stats_default [simp]:
  "ls_count label_stats_default = 0" "ls_prop label_stats_default k = prop_stats_default"
  "ps_count prop_stats_default = 0" "bt_at (ps_types prop_stats_default) y = 0"
  "bt_at (ps_descriptions prop_stats_default) x = 0"
  by (simp_all add: label_stats_default_def prop_stats_default_def ls_prop_def bt_at_def)

lemma fold_note_prop:
  "ps_count (fold note_prop ds s) = ps_count s + of_nat (length ds)"
  "bt_at (ps_types (fold note_prop ds s)) y = bt_at (ps_types s) y + tally (\<lambda>d. value_type_of (pd_value d) = y) ds"
  "bt_at (ps_descriptions (fold note_prop ds s)) x = bt_at (ps_descriptions s) x + tally (\<lambda>d. pd_description d = Some x) ds"
  by (induction ds arbitrary: s) (auto simp: note_prop_def split: option.splits)

lemma ls_prop_note:
  "ls_prop (note_label qs s) k = fold note_prop (map snd (filter (\<lambda>(k', d). k' = k) qs)) (ls_prop s k)"
proof -
  have "ls_prop (note_label qs s) k =
      fold (\<lambda>x. note_prop (snd x)) (filter (\<lambda>x. fst x = k) qs) (ls_prop s k)"
    using entry_at [where k = fst and d = prop_stats_default and f = "\<lambda>x. note_prop (snd x)" and xs = qs and m = "ls_properties s" and j = k]
    by (simp add: ls_prop_def note_label_def split_def)
  then show ?thesis by (simp add: fold_map comp_def split_def)
qed

lemma fold_note_label:
  "ls_count (fold note_label qss s) = ls_count s + of_nat (length qss)"
  "ls_prop (fold note_label qss s) k =
     fold note_prop (concat (map (\<lambda>qs. map snd (filter (\<lambda>(k', d). k' = k) qs)) qss)) (ls_prop s k)"
  by (induction qss arbitrary: s) (simp_all add: ls_prop_note, simp_all add: note_label_def)

definition label_events :: "node_record list \<Rightarrow> (str \<times> props) list" where
  "label_events ns = concat (map (\<lambda>n. map (\<lambda>l. (l, nr_properties n)) (nr_labels n)) ns)"

definition key_events :: "node_record list \<Rightarrow> (str \<times> str) list" where
  "key_events ns = concat (map (\<lambda>n. case Option.bind (nr_external_key n) key_prefix of
     None \<Rightarrow> [] | Some x \<Rightarrow> [(producer_of n, x)]) ns)"

lemma in_key_events:
  "(q, x) \<in> set (key_events ns) \<longleftrightarrow>
   (\<exists>n \<in> set ns. \<exists>key. nr_external_key n = Some key \<and> key_prefix key = Some x \<and> producer_of n = q)"
proof (induction ns)
  case (Cons n ns)
  have "key_events (n # ns) = key_events [n] @ key_events ns" by (simp add: key_events_def)
  moreover have "(q, x) \<in> set (key_events [n]) \<longleftrightarrow>
      (\<exists>key. nr_external_key n = Some key \<and> key_prefix key = Some x \<and> producer_of n = q)"
    by (cases "nr_external_key n") (auto simp: key_events_def split: option.splits)
  ultimately show ?case using Cons by simp
qed (simp add: key_events_def)

lemma intern_names_cat [simp]: "np_cat (snd (intern_names ls st)) = np_cat st"
proof (induction ls arbitrary: st)
  case (Cons l ls)
  have "np_cat (snd (intern_name l st)) = np_cat st" for st
    by (simp add: intern_name_def Let_def split: option.splits)
  then show ?case using Cons by (simp add: split_def Let_def)
qed simp

lemma note_node_cat:
  "cat_node_count (np_cat (note_node n st)) = cat_node_count (np_cat st) + 1"
  "cat_edge_count (np_cat (note_node n st)) = cat_edge_count (np_cat st)"
  "cat_edge_types (np_cat (note_node n st)) = cat_edge_types (np_cat st)"
  "cat_labels (np_cat (note_node n st)) =
     fold (\<lambda>l. bt_entry l label_stats_default (note_label (nr_properties n))) (nr_labels n) (cat_labels (np_cat st))"
  "cat_key_prefixes (np_cat (note_node n st)) =
     fold (\<lambda>(producer, x). bt_entry producer [] (bt_insert x ())) (key_events [n]) (cat_key_prefixes (np_cat st))"
  by (simp_all add: note_node_def split_def Let_def note_prefix_def key_events_def split: option.splits)

lemma fold_note_node_cat:
  "cat_node_count (np_cat (fold note_node ns st)) = cat_node_count (np_cat st) + of_nat (length ns)"
  "cat_edge_count (np_cat (fold note_node ns st)) = cat_edge_count (np_cat st)"
  "cat_edge_types (np_cat (fold note_node ns st)) = cat_edge_types (np_cat st)"
  "cat_labels (np_cat (fold note_node ns st)) =
     fold (\<lambda>e. bt_entry (fst e) label_stats_default (note_label (snd e))) (label_events ns) (cat_labels (np_cat st))"
  "cat_key_prefixes (np_cat (fold note_node ns st)) =
     fold (\<lambda>e. bt_entry (fst e) [] (bt_insert (snd e) ())) (key_events ns) (cat_key_prefixes (np_cat st))"
proof -
  show "cat_node_count (np_cat (fold note_node ns st)) = cat_node_count (np_cat st) + of_nat (length ns)"
    "cat_edge_count (np_cat (fold note_node ns st)) = cat_edge_count (np_cat st)"
    "cat_edge_types (np_cat (fold note_node ns st)) = cat_edge_types (np_cat st)"
    by (induction ns arbitrary: st) (simp_all add: note_node_cat)
  show "cat_labels (np_cat (fold note_node ns st)) =
     fold (\<lambda>e. bt_entry (fst e) label_stats_default (note_label (snd e))) (label_events ns) (cat_labels (np_cat st))"
    by (induction ns arbitrary: st) (simp_all add: note_node_cat label_events_def fold_map comp_def)
  show "cat_key_prefixes (np_cat (fold note_node ns st)) =
     fold (\<lambda>e. bt_entry (fst e) [] (bt_insert (snd e) ())) (key_events ns) (cat_key_prefixes (np_cat st))"
    by (induction ns arbitrary: st) (simp_all add: note_node_cat key_events_def split_def)
qed

lemma label_events_count: "length (filter (\<lambda>e. fst e = l) (label_events ns)) = count_list (concat (map nr_labels ns)) l"
proof (induction ns)
  case (Cons n ns)
  have "length (filter (\<lambda>x. x = l) xs) = count_list xs l" for xs by (induction xs) auto
  then show ?case using Cons by (simp add: label_events_def filter_map comp_def)
qed (simp add: label_events_def)

lemma label_events_props:
  "length (filter Q (concat (map (\<lambda>qs. map snd (filter (\<lambda>(k', d). k' = k) qs)) (map snd (filter (\<lambda>e. fst e = l) (label_events ns)))))) =
   length (filter (\<lambda>(l', k', d). l' = l \<and> k' = k \<and> Q d) (prop_events ns))"
proof (induction ns)
  case (Cons n ns)
  have one: "length (filter Q (concat (map (\<lambda>qs. map snd (filter (\<lambda>(k', d). k' = k) qs))
        (map snd (filter (\<lambda>e. fst e = l) (map (\<lambda>l. (l, qs)) ls)))))) =
      length (filter (\<lambda>(l', k', d). l' = l \<and> k' = k \<and> Q d) (concat (map (\<lambda>l. map (\<lambda>(k, d). (l, k, d)) qs) ls)))"
    for qs :: "(str \<times> prop_desc) list" and ls
    by (induction ls) (auto simp: filter_map comp_def split_def conj_commute)
  show ?case using Cons one [of "nr_properties n" "nr_labels n"]
    by (simp add: label_events_def prop_events_def)
qed (simp add: label_events_def prop_events_def)

definition pass_start :: node_pass where
  "pass_start = \<lparr>np_cat = catalog_default, np_label_ids = Map.empty, np_label_names = [], np_labels_of = Map.empty\<rparr>"

lemma node_pass_labels:
  "cat_label (np_cat (fold note_node ns pass_start)) l =
     fold note_label (map snd (filter (\<lambda>e. fst e = l) (label_events ns))) label_stats_default"
  using entry_at [where k = fst and d = label_stats_default and f = "\<lambda>e. note_label (snd e)" and xs = "label_events ns" and m = "[]" and j = l]
  by (simp add: cat_label_def fold_note_node_cat pass_start_def catalog_default_def fold_map comp_def)

lemma set_fold_bt_insert: "fst ` set (fold (\<lambda>e. bt_insert (g e) ()) es m) = fst ` set m \<union> g ` set es"
proof (induction es arbitrary: m)
  case (Cons e es)
  have "fst ` set (bt_insert (g e) () m) = insert (g e) (fst ` set m)"
    using set_fst_bt_insert [of "g e" "()" m] by simp
  then show ?case using Cons by auto
qed simp

lemma node_pass_ok: "node_stats_ok ns (np_cat (fold note_node ns pass_start))"
proof -
  let ?cat = "np_cat (fold note_node ns pass_start)"
  have prefixes: "cat_prefixes ?cat producer =
      {x. \<exists>n \<in> set ns. \<exists>key. nr_external_key n = Some key \<and> key_prefix key = Some x \<and> producer_of n = producer}" for producer
  proof -
    have "cat_prefixes ?cat producer = fst ` set (case map_of (cat_key_prefixes ?cat) producer of None \<Rightarrow> [] | Some b \<Rightarrow> b)"
      by (simp add: cat_prefixes_def split: option.splits)
    also have "\<dots> = snd ` set (filter (\<lambda>e. fst e = producer) (key_events ns))"
      using entry_at [where k = fst and d = "[]" and f = "\<lambda>e. bt_insert (snd e) ()" and xs = "key_events ns" and m = "[]" and j = producer]
      by (simp add: fold_note_node_cat pass_start_def catalog_default_def set_fold_bt_insert)
    also have "\<dots> = {x. (producer, x) \<in> set (key_events ns)}" by force
    finally show ?thesis by (auto simp: in_key_events)
  qed
  have "ls_count (cat_label ?cat l) = of_nat (count_list (concat (map nr_labels ns)) l)" for l
    by (simp add: node_pass_labels fold_note_label label_events_count label_stats_default_def)
  moreover have "ps_count (ls_prop (cat_label ?cat l) k) = tally (\<lambda>(l', k', d). l' = l \<and> k' = k \<and> True) (prop_events ns)" for l k
    using label_events_props [of "\<lambda>_. True" k l ns]
    by (simp add: node_pass_labels fold_note_label fold_note_prop tally_def)
  moreover have "bt_at (ps_types (ls_prop (cat_label ?cat l) k)) y =
      tally (\<lambda>(l', k', d). l' = l \<and> k' = k \<and> value_type_of (pd_value d) = y) (prop_events ns)" for l k y
    using label_events_props [of "\<lambda>d. value_type_of (pd_value d) = y" k l ns]
    by (simp add: node_pass_labels fold_note_label fold_note_prop tally_def)
  moreover have "bt_at (ps_descriptions (ls_prop (cat_label ?cat l) k)) x =
      tally (\<lambda>(l', k', d). l' = l \<and> k' = k \<and> pd_description d = Some x) (prop_events ns)" for l k x
    using label_events_props [of "\<lambda>d. pd_description d = Some x" k l ns]
    by (simp add: node_pass_labels fold_note_label fold_note_prop tally_def)
  moreover have "cat_node_count ?cat = of_nat (length ns)" "bt_ok (cat_labels ?cat)"
    by (simp_all add: fold_note_node_cat pass_start_def catalog_default_def)
  ultimately show ?thesis
    unfolding node_stats_ok_def Let_def by (simp add: prefixes)
qed

section \<open>Interned labels\<close>

definition names_ok :: "str set \<Rightarrow> node_pass \<Rightarrow> bool" where
  "names_ok U st \<longleftrightarrow> distinct (np_label_names st) \<and> set (np_label_names st) \<subseteq> U \<and>
     (\<forall>l i. np_label_ids st l = Some i \<longleftrightarrow> unat i < length (np_label_names st) \<and> np_label_names st ! unat i = l)"

definition spells :: "node_pass \<Rightarrow> u32 list \<Rightarrow> str list \<Rightarrow> bool" where
  "spells st is ls \<longleftrightarrow> length is = length ls \<and>
     (\<forall>j < length is. unat (is ! j) < length (np_label_names st) \<and> np_label_names st ! unat (is ! j) = ls ! j)"

lemma spells_Nil [simp]: "spells st [] []"
  by (simp add: spells_def)

lemma spells_Cons: "spells st (i # is) (l # ls) \<longleftrightarrow>
    unat i < length (np_label_names st) \<and> np_label_names st ! unat i = l \<and> spells st is ls"
  unfolding spells_def by (auto simp: nth_Cons split: nat.splits)

lemma spells_map: "spells st is ls \<Longrightarrow> map (\<lambda>i. np_label_names st ! unat i) is = ls"
  by (auto simp: spells_def intro: nth_equalityI)

lemma spells_grow: "spells st is ls \<Longrightarrow> np_label_names st' = np_label_names st @ ext \<Longrightarrow> spells st' is ls"
  unfolding spells_def by (auto simp: nth_append)

lemma intern_name_ok:
  assumes ok: "names_ok U st" and U: "finite U" "card U \<le> 2 ^ 32" "l \<in> U" and run: "intern_name l st = (i, st')"
  shows "names_ok U st' \<and> spells st' [i] [l] \<and> (\<exists>ext. np_label_names st' = np_label_names st @ ext) \<and>
    np_labels_of st' = np_labels_of st"
proof -
  have ids: "np_label_ids st x = Some k \<longleftrightarrow> unat k < length (np_label_names st) \<and> np_label_names st ! unat k = x" for x k
    using ok by (simp add: names_ok_def)
  have room: "length xs \<le> 2 ^ 32" if "distinct xs" "set xs \<subseteq> U" for xs
    using that card_mono [OF U(1) that(2)] U(2) by (simp add: distinct_card)
  show ?thesis
  proof (cases "np_label_ids st l")
    case (Some k)
    then show ?thesis using run ok ids [of l k] by (simp add: intern_name_def spells_Cons)
  next
    case None
    let ?n = "length (np_label_names st)"
    have small: "unat (of_nat j :: u32) = j" if "j < 2 ^ 32" for j
      using that by (simp add: unat_of_nat take_bit_nat_eq_self)
    have new: "l \<notin> set (np_label_names st)"
    proof
      assume "l \<in> set (np_label_names st)"
      then obtain j where j: "j < ?n" "np_label_names st ! j = l" by (auto simp: in_set_conv_nth)
      have "?n \<le> 2 ^ 32" using ok by (intro room) (simp_all add: names_ok_def)
      then show False using ids [of l "of_nat j"] small [of j] j None by simp
    qed
    have "length (np_label_names st @ [l]) \<le> 2 ^ 32" using ok new U(3) by (intro room) (simp_all add: names_ok_def)
    then have i: "unat (of_nat ?n :: u32) = ?n" by (intro small) simp
    have st': "i = of_nat ?n" "st' = st\<lparr>np_label_names := np_label_names st @ [l], np_label_ids := (np_label_ids st)(l \<mapsto> of_nat ?n)\<rparr>"
      using run None by (auto simp: intern_name_def Let_def)
    have "np_label_ids st' x = Some k \<longleftrightarrow> unat k < length (np_label_names st') \<and> np_label_names st' ! unat k = x" for x k
    proof (cases "unat k < ?n")
      case True
      then have "k \<noteq> of_nat ?n" using i by auto
      moreover have "l \<noteq> np_label_names st ! unat k" using new True by auto
      ultimately show ?thesis using True ids [of x k] by (auto simp: st' nth_append)
    next
      case False
      then show ?thesis using ids [of x k] i by (auto simp: st' nth_append word_unat_eq_iff)
    qed
    then have "names_ok U st'" using ok new U(3) by (simp add: names_ok_def st')
    then show ?thesis by (simp add: spells_Cons st' i)
  qed
qed

lemma intern_names_ok:
  assumes "names_ok U st" "finite U" "card U \<le> 2 ^ 32" "set ls \<subseteq> U" "intern_names ls st = (is, st')"
  shows "names_ok U st' \<and> spells st' is ls \<and> (\<exists>ext. np_label_names st' = np_label_names st @ ext) \<and>
    np_labels_of st' = np_labels_of st"
  using assms(1,4,5)
proof (induction ls arbitrary: st "is")
  case (Cons l ls)
  obtain i st1 where i: "intern_name l st = (i, st1)" by (cases "intern_name l st")
  obtain is2 where r: "intern_names ls st1 = (is2, st')" "is = i # is2"
    using Cons.prems(3) i by (auto simp: split_def Let_def prod_eq_iff)
  from intern_name_ok [OF Cons.prems(1) assms(2,3) _ i] Cons.prems(2)
  have 1: "names_ok U st1" "spells st1 [i] [l]" "\<exists>ext. np_label_names st1 = np_label_names st @ ext" "np_labels_of st1 = np_labels_of st"
    by simp_all
  from Cons.IH [OF 1(1) _ r(1)] Cons.prems(2)
  have 2: "names_ok U st'" "spells st' is2 ls" "\<exists>ext. np_label_names st' = np_label_names st1 @ ext" "np_labels_of st' = np_labels_of st1"
    by simp_all
  from 2(3) spells_grow [OF 1(2)] have "spells st' [i] [l]" by blast
  then show ?case using 1 2 r(2) by (auto simp: spells_Cons)
qed auto

text \<open>After the node pass the label names of every node can be read back.\<close>

definition pass_ok :: "str set \<Rightarrow> node_record list \<Rightarrow> node_pass \<Rightarrow> bool" where
  "pass_ok U ns st \<longleftrightarrow> names_ok U st \<and> dom (np_labels_of st) = nr_id ` set ns \<and>
     (\<forall>n \<in> set ns. spells st (the (np_labels_of st (nr_id n))) (nr_labels n))"

lemma note_node_pass:
  assumes ok: "pass_ok U ns st" and U: "finite U" "card U \<le> 2 ^ 32" "set (nr_labels n) \<subseteq> U"
    and new: "nr_id n \<notin> nr_id ` set ns"
  shows "pass_ok U (ns @ [n]) (note_node n st)"
proof -
  let ?st0 = "st\<lparr>np_cat := (np_cat st)\<lparr>cat_node_count := cat_node_count (np_cat st) + 1\<rparr>\<rparr>"
  obtain "is" st1 where run: "intern_names (nr_labels n) ?st0 = (is, st1)" by (cases "intern_names (nr_labels n) ?st0")
  have "names_ok U ?st0" using ok by (simp add: pass_ok_def names_ok_def)
  from intern_names_ok [OF this U run]
  have 1: "names_ok U st1" "spells st1 is (nr_labels n)" "\<exists>ext. np_label_names st1 = np_label_names st @ ext"
    "np_labels_of st1 = np_labels_of st" by simp_all
  let ?st' = "note_node n st"
  have st': "np_label_names ?st' = np_label_names st1" "np_label_ids ?st' = np_label_ids st1"
    "np_labels_of ?st' = (np_labels_of st)(nr_id n \<mapsto> is)"
    using run 1(4) by (simp_all add: note_node_def Let_def)
  have names: "names_ok U ?st'" using 1(1) by (simp add: names_ok_def st')
  have k: "spells ?st' x y \<longleftrightarrow> spells st1 x y" for x y by (simp add: spells_def st')
  have "spells st1 x y" if "spells st x y" for x y using spells_grow [OF that] 1(3) by blast
  moreover have "nr_id m \<noteq> nr_id n" if "m \<in> set ns" for m using imageI [OF that, of nr_id] new by metis
  ultimately have "\<forall>m \<in> set (ns @ [n]). spells ?st' (the (np_labels_of ?st' (nr_id m))) (nr_labels m)"
    using ok 1(2) by (auto simp: pass_ok_def st' k)
  then show ?thesis using names ok by (auto simp: pass_ok_def st')
qed

lemma node_pass_names:
  assumes U: "finite U" "card U \<le> 2 ^ 32" "\<forall>n \<in> set ns. set (nr_labels n) \<subseteq> U" and ids: "distinct (map nr_id ns)"
  shows "pass_ok U ns (fold note_node ns pass_start)"
  using U(3) ids
proof (induction ns rule: rev_induct)
  case Nil
  show ?case by (simp add: pass_ok_def names_ok_def pass_start_def)
next
  case (snoc n ns)
  then show ?case using note_node_pass [of U ns "fold note_node ns pass_start" n] U(1,2) by simp
qed

section \<open>Connections\<close>

text \<open>The sorted vector of connections behaves as an ordered map from label pairs to counts.\<close>

definition cn_assoc :: "edge_type_stats \<Rightarrow> (str \<times> str, u64) btree" where
  "cn_assoc s = map (\<lambda>c. (cn_key c, cn_count c)) (es_connections s)"

lemma sorted_probe:
  assumes "sorted_wrt (<) (map f cs)"
  shows "\<forall>c \<in> set (takeWhile (\<lambda>c. f c < k) cs). f c < k" "\<forall>c \<in> set (dropWhile (\<lambda>c. f c < k) cs). (k :: 'k::linorder) \<le> f c"
proof -
  show "\<forall>c \<in> set (takeWhile (\<lambda>c. f c < k) cs). f c < k" by (auto dest: set_takeWhileD)
  show "\<forall>c \<in> set (dropWhile (\<lambda>c. f c < k) cs). k \<le> f c"
    using assms
  proof (induction cs)
    case (Cons c cs)
    then show ?case by (cases "f c < k") (auto simp: not_less intro: order_trans less_imp_le)
  qed simp
qed

lemma bt_insert_split:
  "\<forall>x \<in> set (map fst a). x < k \<Longrightarrow> \<forall>x \<in> set (map fst b). k \<le> x \<Longrightarrow> sorted_wrt (<) (map fst b) \<Longrightarrow>
   bt_insert k v (a @ b) = a @ (k, v) # (case b of [] \<Rightarrow> [] | (j, u) # b' \<Rightarrow> if j = k then b' else b)"
proof (induction a)
  case Nil
  then show ?case by (cases b) (auto split: prod.splits)
qed auto

lemma map_of_split:
  "\<forall>x \<in> set (map fst a). x < (k :: 'k::linorder) \<Longrightarrow> map_of (a @ b) k = map_of b k"
  by (induction a) auto

lemma add_connection_assoc:
  assumes "bt_ok (cn_assoc s)"
  shows "cn_assoc (add_connection a b n s) = bt_entry (a, b) 0 (\<lambda>c. c + n) (cn_assoc s) \<and>
    connection_count s a b = bt_at (cn_assoc s) (a, b)"
proof -
  let ?P = "\<lambda>c. cn_key c < (a, b)" and ?g = "\<lambda>c. (cn_key c, cn_count c)"
  let ?lo = "takeWhile ?P (es_connections s)" and ?hi = "dropWhile ?P (es_connections s)"
  have conns: "es_connections s = ?lo @ ?hi" by simp
  have sorted: "sorted_wrt (<) (map cn_key (es_connections s))" using assms by (simp add: cn_assoc_def comp_def)
  have cut: "cn_assoc s = map ?g ?lo @ map ?g ?hi" unfolding cn_assoc_def by (subst conns) (simp only: map_append)
  have below: "\<forall>x \<in> set (map fst (map ?g ?lo)). x < (a, b)" using sorted_probe(1) [OF sorted, of "(a, b)"] by simp
  have above: "\<forall>x \<in> set (map fst (map ?g ?hi)). (a, b) \<le> x" using sorted_probe(2) [OF sorted, of "(a, b)"] by simp
  have "sorted_wrt (<) (map cn_key ?lo @ map cn_key ?hi)" using sorted by (subst (asm) conns) (simp only: map_append)
  then have sd: "sorted_wrt (<) (map fst (map ?g ?hi))" by (simp add: sorted_wrt_append comp_def)
  have at: "map_of (cn_assoc s) (a, b) = map_of (map ?g ?hi) (a, b)"
    unfolding cut by (rule map_of_split [OF below])
  have ins: "bt_insert (a, b) v (cn_assoc s) =
      map ?g ?lo @ ((a, b), v) # (case map ?g ?hi of [] \<Rightarrow> [] | (j, u) # m \<Rightarrow> if j = (a, b) then m else map ?g ?hi)" for v
    unfolding cut by (rule bt_insert_split [OF below above sd])
  have nth: "es_connections s ! length ?lo = hd ?hi" if "?hi \<noteq> []"
    using that by (subst conns) (simp add: nth_append hd_conv_nth del: takeWhile_dropWhile_id)
  have len: "length ?lo < length (es_connections s) \<longleftrightarrow> ?hi \<noteq> []"
    by (subst (2) conns) (simp del: takeWhile_dropWhile_id)
  show ?thesis
  proof (cases "?hi \<noteq> [] \<and> cn_key (hd ?hi) = (a, b)")
    case True
    then obtain c cs where hi: "?hi = c # cs" and c: "cn_key c = (a, b)" by (cases ?hi) auto
    have probe: "es_probe s a b = Inr (length ?lo)" using True nth len by (simp add: es_probe_def Let_def)
    have "(es_connections s)[length ?lo := c'] = ?lo @ c' # cs" for c'
      by (subst conns) (simp add: hi list_update_append del: takeWhile_dropWhile_id)
    then show ?thesis
      using probe nth hi c at ins
      by (simp add: add_connection_def connection_count_def bt_entry_def bt_at_def) (simp add: cn_assoc_def cn_key_def)
  next
    case False
    have "\<not> (length ?lo < length (es_connections s) \<and> cn_key (es_connections s ! length ?lo) = (a, b))"
      using False nth len by metis
    then have probe: "es_probe s a b = Inl (length ?lo)" unfolding es_probe_def Let_def by (rule if_not_P)
    have none: "map_of (map ?g ?hi) (a, b) = None"
    proof (cases ?hi)
      case (Cons c cs)
      then have "(a, b) < cn_key c" using False above by auto
      moreover have "\<forall>x \<in> set cs. cn_key c < cn_key x" using sd Cons by (simp add: comp_def)
      ultimately have "\<forall>x \<in> set (map fst (map ?g ?hi)). (a, b) < x" using Cons by auto
      then show ?thesis by (rule map_of_below)
    qed (simp only: list.map map_of.simps)
    have "(case map ?g ys of [] \<Rightarrow> [] | (j, u) # m \<Rightarrow> if j = (a, b) then m else map ?g ys) = map ?g ys"
      if "\<not> (ys \<noteq> [] \<and> cn_key (hd ys) = (a, b))" for ys using that by (cases ys) auto
    note tail = this [OF False]
    have take: "take (length ?lo) (es_connections s) = ?lo" "drop (length ?lo) (es_connections s) = ?hi"
      by (metis append_eq_conv_conj conns)+
    show ?thesis
      using probe at none ins tail take
      by (simp add: add_connection_def connection_count_def bt_entry_def bt_at_def cn_assoc_def cn_key_def)
  qed
qed

lemma fold_connections:
  assumes "bt_ok (cn_assoc s)"
  shows "bt_ok (cn_assoc (fold (\<lambda>(a, b). add_connection a b 1) ps s)) \<and>
    bt_at (cn_assoc (fold (\<lambda>(a, b). add_connection a b 1) ps s)) q = bt_at (cn_assoc s) q + of_nat (count_list ps q)"
  using assms
proof (induction ps arbitrary: s)
  case (Cons x ps)
  obtain a b where x: "x = (a, b)" by (cases x)
  have "cn_assoc (add_connection a b 1 s) = bt_entry (a, b) 0 (\<lambda>c. c + 1) (cn_assoc s)"
    using add_connection_assoc [OF Cons.prems] by simp
  then show ?case using Cons.IH [of "add_connection a b 1 s"] Cons.prems by (auto simp: x)
qed simp

text \<open>The edge pass links every label of the source with every label of the target.\<close>

definition labels_of :: "node_record list \<Rightarrow> node_id \<Rightarrow> str list" where
  "labels_of ns n = concat (map nr_labels (filter (\<lambda>r. nr_id r = n) ns))"

definition edge_links :: "node_record list \<Rightarrow> edge_record \<Rightarrow> (str \<times> str) list" where
  "edge_links ns e = List.product (labels_of ns (er_src e)) (labels_of ns (er_dst e))"

lemma labels_at_spells:
  assumes "pass_ok U ns st" "distinct (map nr_id ns)"
  shows "map (\<lambda>i. np_label_names st ! unat i) (labels_at st n) = labels_of ns n"
proof (cases "n \<in> nr_id ` set ns")
  case True
  then obtain r where r: "r \<in> set ns" "nr_id r = n" by auto
  have "filter (\<lambda>x. nr_id x = n) ns = [r]"
    using r assms(2) by (induction ns) (auto simp: filter_empty_conv image_iff)
  moreover have "n \<in> dom (np_labels_of st)" using assms(1) True by (simp add: pass_ok_def)
  moreover have "spells st (the (np_labels_of st n)) (nr_labels r)" using assms(1) r by (auto simp: pass_ok_def)
  ultimately show ?thesis by (auto simp: labels_at_def labels_of_def spells_map)
next
  case False
  then have "filter (\<lambda>x. nr_id x = n) ns = []" by (auto simp: filter_empty_conv)
  moreover have "n \<notin> dom (np_labels_of st)" using assms(1) False by (simp add: pass_ok_def)
  ultimately show ?thesis by (auto simp: labels_at_def labels_of_def domIff)
qed

lemma fold_product: "fold (\<lambda>x. fold (f x) ys) xs s = fold (\<lambda>(x, y). f x y) (List.product xs ys) s"
proof (induction xs arbitrary: s)
  case (Cons x xs)
  have "fold (f x) ys s = fold (\<lambda>(x, y). f x y) (map (Pair x) ys) s" for s by (simp add: fold_map comp_def)
  then show ?case using Cons by simp
qed simp

lemma link_labels_names:
  "link_labels names is js s = fold (\<lambda>(a, b). add_connection a b 1)
     (List.product (map (\<lambda>i. names ! unat i) is) (map (\<lambda>j. names ! unat j) js)) s"
  unfolding link_labels_def fold_product [symmetric] by (simp add: fold_map comp_def)

definition edge_stats_ok :: "node_record list \<Rightarrow> edge_record list \<Rightarrow> catalog_snapshot \<Rightarrow> bool" where
  "edge_stats_ok ns es cat \<longleftrightarrow>
     cat_edge_count cat = of_nat (length es) \<and> bt_ok (cat_edge_types cat) \<and>
     (\<forall>ty. let mine = filter (\<lambda>e. er_ty e = ty) es in
        es_count (cat_type cat ty) = of_nat (length mine) \<and>
        sorted_wrt (<) (map cn_key (es_connections (cat_type cat ty))) \<and>
        (\<forall>a b. connection_count (cat_type cat ty) a b = of_nat (count_list (concat (map (edge_links ns) mine)) (a, b))))"

lemma fold_note_edge:
  "cat_edge_count (fold (note_edge st) es cat) = cat_edge_count cat + of_nat (length es)"
  "cat_node_count (fold (note_edge st) es cat) = cat_node_count cat"
  "cat_labels (fold (note_edge st) es cat) = cat_labels cat"
  "cat_key_prefixes (fold (note_edge st) es cat) = cat_key_prefixes cat"
  "cat_edge_types (fold (note_edge st) es cat) =
     fold (\<lambda>e. bt_entry (er_ty e) edge_type_stats_default
       (\<lambda>ets. link_labels (np_label_names st) (labels_at st (er_src e)) (labels_at st (er_dst e)) (ets\<lparr>es_count := es_count ets + 1\<rparr>)))
       es (cat_edge_types cat)"
  by (induction es arbitrary: cat) (simp_all add: note_edge_def)

lemma fold_type_stats:
  assumes "pass_ok U ns st" "distinct (map nr_id ns)" "bt_ok (cn_assoc s)"
  shows "let s' = fold (\<lambda>e ets. link_labels (np_label_names st) (labels_at st (er_src e)) (labels_at st (er_dst e))
           (ets\<lparr>es_count := es_count ets + 1\<rparr>)) es s in
    es_count s' = es_count s + of_nat (length es) \<and> bt_ok (cn_assoc s') \<and>
    bt_at (cn_assoc s') q = bt_at (cn_assoc s) q + of_nat (count_list (concat (map (edge_links ns) es)) q)"
  using assms(3)
proof (induction es arbitrary: s)
  case (Cons e es)
  let ?s1 = "link_labels (np_label_names st) (labels_at st (er_src e)) (labels_at st (er_dst e)) (s\<lparr>es_count := es_count s + 1\<rparr>)"
  have s1: "?s1 = fold (\<lambda>(a, b). add_connection a b 1) (edge_links ns e) (s\<lparr>es_count := es_count s + 1\<rparr>)"
    by (simp add: link_labels_names labels_at_spells [OF assms(1,2)] edge_links_def)
  have ec: "es_count (fold (\<lambda>(a, b). add_connection a b 1) ps s) = es_count s" for ps s
    by (induction ps arbitrary: s) (auto simp: add_connection_def split: sum.splits)
  have "cn_assoc (s\<lparr>es_count := c\<rparr>) = cn_assoc s" for c by (simp add: cn_assoc_def)
  then have "bt_ok (cn_assoc ?s1) \<and> bt_at (cn_assoc ?s1) q = bt_at (cn_assoc s) q + of_nat (count_list (edge_links ns e) q)"
    using fold_connections [of "s\<lparr>es_count := es_count s + 1\<rparr>" "edge_links ns e" q] Cons.prems by (simp add: s1)
  then show ?case using Cons.IH [of ?s1] by (simp add: Let_def s1 ec)
qed (simp add: Let_def)

lemma edge_pass_ok:
  assumes "pass_ok U ns st" "distinct (map nr_id ns)" "cat_edge_count cat = 0" "cat_edge_types cat = []"
  shows "edge_stats_ok ns es (fold (note_edge st) es cat)"
proof -
  let ?cat = "fold (note_edge st) es cat"
  have ty: "es_count (cat_type ?cat ty) = of_nat (length (filter (\<lambda>e. er_ty e = ty) es)) \<and> bt_ok (cn_assoc (cat_type ?cat ty)) \<and>
      bt_at (cn_assoc (cat_type ?cat ty)) q = of_nat (count_list (concat (map (edge_links ns) (filter (\<lambda>e. er_ty e = ty) es))) q)" for ty q
  proof -
    have "cat_type ?cat ty = fold (\<lambda>e ets. link_labels (np_label_names st) (labels_at st (er_src e)) (labels_at st (er_dst e))
         (ets\<lparr>es_count := es_count ets + 1\<rparr>)) (filter (\<lambda>e. er_ty e = ty) es) edge_type_stats_default"
      unfolding cat_type_def fold_note_edge assms(4) by (subst entry_at) simp
    moreover have "bt_ok (cn_assoc edge_type_stats_default)" "bt_at (cn_assoc edge_type_stats_default) q = 0"
      "es_count edge_type_stats_default = 0"
      by (simp_all add: edge_type_stats_default_def cn_assoc_def bt_at_def)
    ultimately show ?thesis
      using fold_type_stats [OF assms(1,2), of edge_type_stats_default "filter (\<lambda>e. er_ty e = ty) es" q] by (simp add: Let_def)
  qed
  have "sorted_wrt (<) (map cn_key (es_connections (cat_type ?cat ty)))" for ty
    using ty [of ty] by (simp add: cn_assoc_def comp_def)
  moreover have "connection_count (cat_type ?cat ty) a b = bt_at (cn_assoc (cat_type ?cat ty)) (a, b)" for ty a b
    using add_connection_assoc [of "cat_type ?cat ty"] ty [of ty] by blast
  moreover have "bt_ok (cat_edge_types ?cat)" by (simp add: fold_note_edge assms(4))
  ultimately show ?thesis using ty assms(3) by (simp add: edge_stats_ok_def Let_def fold_note_edge)
qed

section \<open>The scans are exact\<close>

lemma card_names: "finite (ran L) \<and> card (ran (L :: u32 \<Rightarrow> str option)) \<le> 2 ^ 32"
proof -
  have sub: "ran L \<subseteq> (\<lambda>i. the (L i)) ` UNIV"
  proof
    fix x assume "x \<in> ran L"
    then obtain i where "L i = Some x" by (auto simp: ran_def)
    then have "x = the (L i)" by simp
    then show "x \<in> (\<lambda>i. the (L i)) ` UNIV" by blast
  qed
  have fin: "finite ((\<lambda>i. the (L i)) ` (UNIV :: u32 set))" by simp
  have "card (ran L) \<le> card ((\<lambda>i. the (L i)) ` (UNIV :: u32 set))" by (rule card_mono [OF fin sub])
  also have "\<dots> \<le> card (UNIV :: u32 set)" by (rule card_image_le) simp
  also have "\<dots> = 2 ^ 32" by (simp add: card_word)
  finally show ?thesis using finite_subset [OF sub fin] by simp
qed

lemma plane_nodes_ids: "distinct (map nr_id (plane_nodes G p))"
  by (simp add: plane_nodes_def comp_def node_rec_def split_def)

lemma plane_nodes_labels:
  assumes "reprD pc L T G m" "n \<in> set (plane_nodes G p)"
  shows "set (nr_labels n) \<subseteq> ran L"
proof -
  from assms(2) obtain i ek ls ps where i: "ag_node G (p, i) = Some (ek, ls, ps)" "nr_labels n = ls"
    by (auto simp: plane_nodes_def node_rec_def split_def)
  from nodes_repr_names [OF reprD_D(5) [OF assms(1)] i(1)]
  show ?thesis using i(2) by (auto simp: ran_def)
qed

context kv_txn begin

lemma catalog_compute_run:
  assumes "inv t" "reprD pc L T G (view t)"
  shows "\<exists>cat. catalog_compute V pc t p = Inr cat \<and> node_stats_ok (plane_nodes G p) cat \<and>
    edge_stats_ok (plane_nodes G p) (plane_edges G p) cat"
proof -
  let ?st = "fold note_node (plane_nodes G p) pass_start"
  have "catalog_compute V pc t p = Inr (fold (note_edge ?st) (plane_edges G p) (np_cat ?st))"
    by (simp add: catalog_compute_def scan_all_run [OF assms] scan_edges_run [OF assms] load_nodes [OF assms] load_edges [OF assms]
        pass_start_def)
  moreover have "node_stats_ok (plane_nodes G p) (fold (note_edge ?st) (plane_edges G p) (np_cat ?st))"
    using node_pass_ok [of "plane_nodes G p"]
    by (simp add: node_stats_ok_def cat_label_def cat_prefixes_def fold_note_edge)
  moreover have "pass_ok (ran L) (plane_nodes G p) ?st"
    using card_names [of L] plane_nodes_labels [OF assms(2)] by (intro node_pass_names) (auto simp: plane_nodes_ids)
  then have "edge_stats_ok (plane_nodes G p) (plane_edges G p) (fold (note_edge ?st) (plane_edges G p) (np_cat ?st))"
    by (rule edge_pass_ok [OF _ plane_nodes_ids]) (simp_all add: fold_note_node_cat pass_start_def catalog_default_def)
  ultimately show ?thesis by blast
qed

end

end
