(* ===== verification/Txn_Totals.thy ===== *)
theory Txn_Totals
  imports Txn_Frame Catalog_Spec
begin

text \<open>
  How the abstract updates change the totals of a plane, and that the counter changes a transaction
  buffers are exactly those changes. Buffered changes are machine integers: they are compared modulo the
  word size, and read back as signed numbers only when a commit applies them.
\<close>

section \<open>Totals under updates\<close>

lemma sum_upd:
  fixes f g :: "'a \<Rightarrow> nat"
  assumes "finite A" "\<And>x. x \<in> A \<Longrightarrow> x \<noteq> a \<Longrightarrow> g x = f x"
  shows "int (\<Sum>x \<in> insert a A. g x) = int (\<Sum>x \<in> A. f x) + int (g a) - (if a \<in> A then int (f a) else 0)"
proof -
  have "(\<Sum>x \<in> A - {a}. g x) = (\<Sum>x \<in> A - {a}. f x)" using assms(2) by (intro sum.cong) auto
  moreover have "(\<Sum>x \<in> insert a A. g x) = g a + (\<Sum>x \<in> A - {a}. g x)" by (rule sum.insert_remove [OF assms(1)])
  moreover have "(\<Sum>x \<in> A. f x) = (if a \<in> A then f a else 0) + (\<Sum>x \<in> A - {a}. f x)"
    using sum.remove [OF assms(1), of a f] by (cases "a \<in> A") simp_all
  ultimately show ?thesis by simp
qed

lemma node_ids_put: "{n'. (p, n') \<in> dom (ag_node (put_node p n r G))} = insert n {n'. (p, n') \<in> dom (ag_node G)}"
  by auto

lemma node_total_put:
  "int (node_total (put_node p n r G) p) = int (node_total G p) + (if (p, n) \<in> dom (ag_node G) then 0 else 1)"
  unfolding node_total_def node_ids_put by (auto simp: card_insert_if)

lemma label_total_put:
  "int (label_total (put_node p n (ek, ls, ps) G) p l) = int (label_total G p l) + int (count_list ls l) -
     (case ag_node G (p, n) of None \<Rightarrow> 0 | Some (ek', ls', ps') \<Rightarrow> int (count_list ls' l))"
  unfolding label_total_def node_ids_put
  by (subst sum_upd [where f = "\<lambda>n. count_list (fst (snd (the (ag_node G (p, n))))) l"])
     (auto split: option.splits)

lemma edge_totals_put_node [simp]: "edge_total (put_node p n r G) q = edge_total G q" "type_total (put_node p n r G) q ty = type_total G q ty"
  by (simp_all add: edge_total_def type_total_def)

lemma node_totals_put_edge [simp]: "node_total (put_edge p e r G) q = node_total G q" "label_total (put_edge p e r G) q l = label_total G q l"
  by (simp_all add: node_total_def label_total_def)

lemma edge_total_put:
  "int (edge_total (put_edge p e r G) p) = int (edge_total G p) + (if (p, e) \<in> dom (ag_edge G) then 0 else 1)"
proof -
  have "{e'. (p, e') \<in> dom (ag_edge (put_edge p e r G))} = insert e {e'. (p, e') \<in> dom (ag_edge G)}" by auto
  then show ?thesis by (auto simp: edge_total_def card_insert_if)
qed

abbreviation of_type :: "agraph \<Rightarrow> plane_id \<Rightarrow> str \<Rightarrow> edge_id set" where
  "of_type G p ty \<equiv> {e. \<exists>s d ps. ag_edge G (p, e) = Some (s, d, ty, ps)}"

lemma finite_of_type [simp]: "finite (of_type G p ty)"
  by (rule finite_subset [of _ UNIV]) auto

lemma card_move:
  assumes "finite A" "finite B" "A - {x} = B - {x}"
  shows "int (card B) = int (card A) + (if x \<in> B then 1 else 0) - (if x \<in> A then 1 else 0)"
proof -
  have "card A = (if x \<in> A then 1 else 0) + card (A - {x})" if "finite A" for A :: "'a set"
    using that card_Suc_Diff1 [of A x] by (cases "x \<in> A") auto
  from this [OF assms(1)] this [OF assms(2)] assms(3) show ?thesis by simp
qed

lemma type_total_put:
  "int (type_total (put_edge p e (s, d, ty, ps) G) p y) = int (type_total G p y) + (if ty = y then 1 else 0) -
     (case ag_edge G (p, e) of None \<Rightarrow> 0 | Some (s', d', ty', ps') \<Rightarrow> if ty' = y then 1 else 0)"
proof -
  let ?B = "of_type (put_edge p e (s, d, ty, ps) G) p y" and ?A = "of_type G p y"
  have "?A - {e} = ?B - {e}" by auto
  from card_move [OF _ _ this] show ?thesis by (auto simp: type_total_def split: option.splits)
qed

lemma edge_total_drop: "int (edge_total (drop_edge p e G) p) = int (edge_total G p) - (if (p, e) \<in> dom (ag_edge G) then 1 else 0)"
proof -
  let ?B = "{e'. (p, e') \<in> dom (ag_edge (drop_edge p e G))}" and ?A = "{e'. (p, e') \<in> dom (ag_edge G)}"
  have "?A - {e} = ?B - {e}" by auto
  from card_move [OF _ _ this] show ?thesis by (auto simp: edge_total_def)
qed

lemma type_total_drop:
  "int (type_total (drop_edge p e G) p y) = int (type_total G p y) -
     (case ag_edge G (p, e) of None \<Rightarrow> 0 | Some (s', d', ty', ps') \<Rightarrow> if ty' = y then 1 else 0)"
proof -
  let ?B = "of_type (drop_edge p e G) p y" and ?A = "of_type G p y"
  have "?A - {e} = ?B - {e}" by auto
  from card_move [OF _ _ this] show ?thesis by (auto simp: type_total_def split: option.splits)
qed

lemma node_totals_drop_edge [simp]:
  "node_total (drop_edge p e G) q = node_total G q" "label_total (drop_edge p e G) q l = label_total G q l"
  by (simp_all add: node_total_def label_total_def)

lemma edge_totals_drop_node [simp]:
  "edge_total (drop_node p n G) q = edge_total G q" "type_total (drop_node p n G) q ty = type_total G q ty"
  by (simp_all add: edge_total_def type_total_def)

lemma node_totals_drop:
  assumes "ag_node G (p, n) = Some (ek, ls, ps)"
  shows "int (node_total (drop_node p n G) p) = int (node_total G p) - 1"
    "int (label_total (drop_node p n G) p l) = int (label_total G p l) - int (count_list ls l)"
proof -
  let ?A = "{n'. (p, n') \<in> dom (ag_node G)}"
  have ids: "{n'. (p, n') \<in> dom (ag_node (drop_node p n G))} = ?A - {n}" by auto
  have n: "n \<in> ?A" using assms by auto
  show "int (node_total (drop_node p n G) p) = int (node_total G p) - 1"
    using card_move [of ?A "?A - {n}" n] n unfolding node_total_def ids by simp
  let ?f = "\<lambda>n'. count_list (fst (snd (the (ag_node G (p, n'))))) l"
  have "label_total (drop_node p n G) p l = sum ?f (?A - {n})"
    unfolding label_total_def ids by (intro sum.cong) auto
  moreover have "sum ?f ?A = ?f n + sum ?f (?A - {n})" by (rule sum.remove) (use n in auto)
  ultimately show "int (label_total (drop_node p n G) p l) = int (label_total G p l) - int (count_list ls l)"
    using assms by (simp add: label_total_def)
qed

section \<open>Buffered changes\<close>

record totals =
  tt_nodes :: int
  tt_edges :: int
  tt_labels :: "str \<Rightarrow> int"
  tt_types :: "str \<Rightarrow> int"

definition totals_of :: "agraph \<Rightarrow> plane_id \<Rightarrow> totals" where
  "totals_of G p = \<lparr>tt_nodes = int (node_total G p), tt_edges = int (edge_total G p),
     tt_labels = (\<lambda>l. int (label_total G p l)), tt_types = (\<lambda>ty. int (type_total G p ty))\<rparr>"

text \<open>The buffered change leads from the totals \<open>b\<close> to the totals \<open>c\<close>.\<close>

definition delta_fits :: "totals \<Rightarrow> totals \<Rightarrow> counter_delta \<Rightarrow> bool" where
  "delta_fits b c d \<longleftrightarrow> bt_ok (dl_labels d) \<and> bt_ok (dl_edge_types d) \<and>
     dl_nodes d = of_int (tt_nodes c - tt_nodes b) \<and> dl_edges d = of_int (tt_edges c - tt_edges b) \<and>
     (\<forall>l. bt_at (dl_labels d) l = of_int (tt_labels c l - tt_labels b l)) \<and>
     (\<forall>ty. bt_at (dl_edge_types d) ty = of_int (tt_types c ty - tt_types b ty))"

lemma delta_fits_default: "delta_fits b b delta_default"
  by (simp add: delta_fits_def delta_default_def bt_at_def)

lemma bt_at_fold_add:
  "bt_at (fold (\<lambda>l. bt_entry l 0 (\<lambda>c. c + x)) ls m) l = bt_at m l + of_nat (count_list ls l) * x"
  by (induction ls arbitrary: m) (auto simp: algebra_simps)

lemma bt_ok_fold_add: "bt_ok m \<Longrightarrow> bt_ok (fold (\<lambda>l. bt_entry l 0 (\<lambda>c. c + x)) ls m)"
  by (induction ls arbitrary: m) simp_all

definition count_int :: "str list \<Rightarrow> str \<Rightarrow> int" where
  "count_int ls l = int (count_list ls l)"

lemma fits_labels:
  assumes "delta_fits b c d" "c' = c\<lparr>tt_labels := (\<lambda>l. tt_labels c l + x * count_int ls l)\<rparr>"
  shows "delta_fits b c' (delta_labels (of_int x) ls d)"
  using assms by (simp add: delta_fits_def delta_labels_def bt_at_fold_add bt_ok_fold_add count_int_def algebra_simps)

lemma fits_type:
  assumes "delta_fits b c d" "c' = c\<lparr>tt_types := (\<lambda>y. tt_types c y + (if y = ty then x else 0))\<rparr>"
  shows "delta_fits b c' (delta_type (of_int x) ty d)"
  using assms by (auto simp: delta_fits_def delta_type_def algebra_simps)

lemma fits_nodes:
  "delta_fits b c d \<Longrightarrow> delta_fits b (c\<lparr>tt_nodes := tt_nodes c + x\<rparr>) (d\<lparr>dl_nodes := dl_nodes d + of_int x\<rparr>)"
  "delta_fits b c d \<Longrightarrow> delta_fits b (c\<lparr>tt_edges := tt_edges c + x\<rparr>) (d\<lparr>dl_edges := dl_edges d + of_int x\<rparr>)"
  by (auto simp: delta_fits_def algebra_simps)

lemma fits_node_added:
  assumes "delta_fits b c d"
  shows "delta_fits b (c\<lparr>tt_nodes := tt_nodes c + 1, tt_labels := (\<lambda>l. tt_labels c l + count_int ls l)\<rparr>) (node_added ls d)"
  using fits_labels [OF fits_nodes(1) [OF assms, of 1] refl, where x = 1 and ls = ls] by (simp add: node_added_def)

lemma fits_node_removed:
  assumes "delta_fits b c d"
  shows "delta_fits b (c\<lparr>tt_nodes := tt_nodes c - 1, tt_labels := (\<lambda>l. tt_labels c l - count_int ls l)\<rparr>) (node_removed ls d)"
  using fits_labels [OF fits_nodes(1) [OF assms, of "-1"] refl, where x = "-1" and ls = ls] by (simp add: node_removed_def)

lemma fits_edge_added:
  assumes "delta_fits b c d"
  shows "delta_fits b (c\<lparr>tt_edges := tt_edges c + 1, tt_types := (\<lambda>y. tt_types c y + (if y = ty then 1 else 0))\<rparr>) (edge_added ty d)"
  using fits_type [OF fits_nodes(2) [OF assms, of 1] refl, where x = 1 and ty = ty] by (simp add: edge_added_def)

lemma fits_edge_removed:
  assumes "delta_fits b c d"
  shows "delta_fits b (c\<lparr>tt_edges := tt_edges c - 1, tt_types := (\<lambda>y. tt_types c y + (if y = ty then - 1 else 0))\<rparr>) (edge_removed ty d)"
  using fits_type [OF fits_nodes(2) [OF assms, of "-1"] refl, where x = "-1" and ty = ty] by (simp add: edge_removed_def)

section \<open>Totals of updated graphs\<close>

lemma totals_put_new:
  "ag_node G (p, n) = None \<Longrightarrow> totals_of (put_node p n (ek, ls, ps) G) p =
     (totals_of G p)\<lparr>tt_nodes := tt_nodes (totals_of G p) + 1, tt_labels := (\<lambda>l. tt_labels (totals_of G p) l + count_int ls l)\<rparr>"
  using node_total_put [of p n "(ek, ls, ps)" G] label_total_put [of p n ek ls ps G]
  by (simp add: totals_of_def count_int_def domIff fun_eq_iff)

lemma totals_relabel:
  "ag_node G (p, n) = Some (ek', ls', ps') \<Longrightarrow> totals_of (put_node p n (ek, ls, ps) G) p =
     (totals_of G p)\<lparr>tt_labels := (\<lambda>l. (tt_labels (totals_of G p) l - count_int ls' l) + count_int ls l)\<rparr>"
  using node_total_put [of p n "(ek, ls, ps)" G] label_total_put [of p n ek ls ps G]
  by (simp add: totals_of_def count_int_def domIff fun_eq_iff)

lemma totals_reprop:
  "ag_node G (p, n) = Some (ek', ls, ps') \<Longrightarrow> totals_of (put_node p n (ek, ls, ps) G) p = totals_of G p"
  by (simp add: totals_relabel)

lemma totals_edge_new:
  "ag_edge G (p, e) = None \<Longrightarrow> totals_of (put_edge p e (s, d, ty, ps) G) p =
     (totals_of G p)\<lparr>tt_edges := tt_edges (totals_of G p) + 1, tt_types := (\<lambda>y. tt_types (totals_of G p) y + (if y = ty then 1 else 0))\<rparr>"
  using edge_total_put [of p e "(s, d, ty, ps)" G] type_total_put [of p e s d ty ps G]
  by (auto simp: totals_of_def domIff fun_eq_iff)

lemma totals_retype:
  "ag_edge G (p, e) = Some (s', d', ty', ps') \<Longrightarrow> totals_of (put_edge p e (s, d, ty, ps) G) p =
     (totals_of G p)\<lparr>tt_types := (\<lambda>y. (tt_types (totals_of G p) y + (if y = ty' then - 1 else 0)) + (if y = ty then 1 else 0))\<rparr>"
  using edge_total_put [of p e "(s, d, ty, ps)" G] type_total_put [of p e s d ty ps G]
  by (auto simp: totals_of_def domIff fun_eq_iff)

lemma totals_edge_same:
  "ag_edge G (p, e) = Some (s', d', ty, ps') \<Longrightarrow> totals_of (put_edge p e (s, d, ty, ps) G) p = totals_of G p"
proof -
  assume "ag_edge G (p, e) = Some (s', d', ty, ps')"
  moreover have "(\<lambda>y. (f y + (if y = ty then - 1 else 0)) + (if y = ty then 1 else 0)) = f" for f :: "str \<Rightarrow> int" by auto
  ultimately show ?thesis by (simp add: totals_retype)
qed

lemma totals_drop_edge:
  "ag_edge G (p, e) = Some (s, d, ty, ps) \<Longrightarrow> totals_of (drop_edge p e G) p =
     (totals_of G p)\<lparr>tt_edges := tt_edges (totals_of G p) - 1, tt_types := (\<lambda>y. tt_types (totals_of G p) y + (if y = ty then - 1 else 0))\<rparr>"
  using edge_total_drop [of p e G] type_total_drop [of p e G]
  by (auto simp: totals_of_def domIff fun_eq_iff)

lemma totals_drop_node:
  "ag_node G (p, n) = Some (ek, ls, ps) \<Longrightarrow> totals_of (drop_node p n G) p =
     (totals_of G p)\<lparr>tt_nodes := tt_nodes (totals_of G p) - 1, tt_labels := (\<lambda>l. tt_labels (totals_of G p) l - count_int ls l)\<rparr>"
  using node_totals_drop [of G p n ek ls ps] by (simp add: totals_of_def count_int_def fun_eq_iff)

section \<open>Applying the change\<close>

definition small_plane :: "agraph \<Rightarrow> plane_id \<Rightarrow> bool" where
  "small_plane G p \<longleftrightarrow> node_total G p < 2 ^ 63 \<and> edge_total G p < 2 ^ 63 \<and>
     (\<forall>l. label_total G p l < 2 ^ 63) \<and> (\<forall>ty. type_total G p ty < 2 ^ 63)"

lemma sint_small:
  assumes "a < 2 ^ 63" "b < 2 ^ 63"
  shows "sint (of_int (int b - int a) :: i64) = int b - int a"
proof -
  have "- (2 ^ 63) \<le> int b - int a" "int b - int a < 2 ^ 63" using assms by simp_all
  moreover have "sint (of_int x :: i64) = x" if "- (2 ^ 63) \<le> x" "x < 2 ^ 63" for x
    using that by (simp add: sint_sbintrunc' signed_take_bit_int_eq_self)
  ultimately show ?thesis by blast
qed

lemma saturating_exact:
  assumes "a < 2 ^ 63" "b < 2 ^ 63"
  shows "saturating_add_signed (of_nat a) (of_int (int b - int a)) = of_nat b"
proof -
  have "uint (of_nat a :: u64) = int a" using assms(1) by (simp add: uint_nat unat_of_nat take_bit_nat_eq_self)
  then have "saturating_add_signed (of_nat a) (of_int (int b - int a)) = of_int (min (2 ^ 64 - 1) (max 0 (int b)))"
    using sint_small [OF assms] by (simp add: saturating_add_signed_def)
  also have "min (2 ^ 64 - 1) (max 0 (int b)) = int b" using assms(2) by simp
  finally show ?thesis by simp
qed

lemma saturating_zero [simp]: "saturating_add_signed v 0 = v"
proof -
  have "uint v \<le> 2 ^ 64 - 1" using uint_bounded [of v] by simp
  then show ?thesis by (simp add: saturating_add_signed_def)
qed

lemma fold_shift:
  assumes "distinct (map fst ds)"
  shows "bt_at (fold (\<lambda>(k, d). bt_entry k 0 (\<lambda>v. saturating_add_signed v d)) ds m) k =
    saturating_add_signed (bt_at m k) (bt_at ds k)"
  using assms
proof (induction ds arbitrary: m)
  case (Cons x ds)
  obtain j d where x: "x = (j, d)" by (cases x)
  have "bt_at ds j = 0" using Cons.prems by (auto simp: x bt_at_def map_of_eq_None_iff [symmetric])
  then show ?case using Cons by (auto simp: x) (auto simp: bt_at_def)
qed (simp add: bt_at_def)

lemma map_of_shift:
  assumes "bt_ok ds" "bt_ok m"
  shows "map_of (shift_counts ds m) k =
    (let v = saturating_add_signed (bt_at m k) (bt_at ds k) in if v = 0 then None else Some v)"
    and "bt_ok (shift_counts ds m)"
proof -
  let ?m = "fold (\<lambda>(k, d). bt_entry k 0 (\<lambda>v. saturating_add_signed v d)) ds m"
  have ok: "bt_ok ?m"
    using bt_ok_fold_entry [of m fst 0 "\<lambda>x v. saturating_add_signed v (snd x)" ds] assms(2) by (simp add: split_def)
  then show "bt_ok (shift_counts ds m)" by (simp add: shift_counts_def)
  have f: "map_of (shift_counts ds m) k = (case map_of ?m k of None \<Rightarrow> None | Some v \<Rightarrow> if 0 < v then Some v else None)"
  proof -
    have "(k, v) \<in> set (shift_counts ds m) \<longleftrightarrow> (k, v) \<in> set ?m \<and> 0 < v" for v by (auto simp: shift_counts_def)
    moreover have "bt_ok (shift_counts ds m)" using ok by (simp add: shift_counts_def)
    ultimately have "map_of (shift_counts ds m) k = Some v \<longleftrightarrow> map_of ?m k = Some v \<and> 0 < v" for v
      using bt_in_set [OF ok, of k v] bt_in_set [of "shift_counts ds m" k v] by blast
    note some = this
    show ?thesis
    proof (cases "map_of ?m k")
      case None
      then have "map_of (shift_counts ds m) k = None" using some by (metis not_None_eq)
      then show ?thesis unfolding None by simp
    next
      case (Some u)
      then have "map_of (shift_counts ds m) k = (if 0 < u then Some u else None)"
        using some [of u] some by (metis not_None_eq option.inject)
      then show ?thesis unfolding Some by simp
    qed
  qed
  have at: "bt_at ?m k = saturating_add_signed (bt_at m k) (bt_at ds k)"
    by (rule fold_shift [OF bt_ok_distinct [OF assms(1)]])
  show "map_of (shift_counts ds m) k =
    (let v = saturating_add_signed (bt_at m k) (bt_at ds k) in if v = 0 then None else Some v)"
    unfolding f at [symmetric] by (auto simp: bt_at_def Let_def word_gt_0 split: option.splits)
qed

lemma small_of_nat: "a < 2 ^ 63 \<Longrightarrow> (of_nat a :: u64) = 0 \<longleftrightarrow> a = 0"
  by (simp add: word_unat_eq_iff unat_of_nat take_bit_nat_eq_self)

lemma delta_apply_counts:
  assumes c: "counts G p stored" and fits: "delta_fits (totals_of G p) (totals_of G' p) d"
    and small: "small_plane G p" "small_plane G' p"
  shows "counts G' p (delta_apply d stored)"
proof -
  note S = small [unfolded small_plane_def]
  have l: "map_of (shift_counts (dl_labels d) (ct_labels stored)) l =
      (if label_total G' p l = 0 then None else Some (of_nat (label_total G' p l)))" for l
    using map_of_shift(1) [of "dl_labels d" "ct_labels stored" l] c fits S
      saturating_exact [of "label_total G p l" "label_total G' p l"] small_of_nat [of "label_total G' p l"]
    by (simp add: counts_def delta_fits_def totals_of_def Let_def)
  have y: "map_of (shift_counts (dl_edge_types d) (ct_edge_types stored)) ty =
      (if type_total G' p ty = 0 then None else Some (of_nat (type_total G' p ty)))" for ty
    using map_of_shift(1) [of "dl_edge_types d" "ct_edge_types stored" ty] c fits S
      saturating_exact [of "type_total G p ty" "type_total G' p ty"] small_of_nat [of "type_total G' p ty"]
    by (simp add: counts_def delta_fits_def totals_of_def Let_def)
  have n: "saturating_add_signed (ct_nodes stored) (dl_nodes d) = of_nat (node_total G' p)"
    "saturating_add_signed (ct_edges stored) (dl_edges d) = of_nat (edge_total G' p)"
    using c fits S saturating_exact [of "node_total G p" "node_total G' p"] saturating_exact [of "edge_total G p" "edge_total G' p"]
    by (simp_all add: counts_def delta_fits_def totals_of_def)
  have "bt_ok (shift_counts (dl_labels d) (ct_labels stored))" "bt_ok (shift_counts (dl_edge_types d) (ct_edge_types stored))"
    using c fits by (auto intro!: map_of_shift(2) simp: counts_def delta_fits_def)
  then show ?thesis unfolding counts_def delta_apply_def by (simp add: n l y bt_at_def dom_def)
qed

lemma delta_empty_counts:
  assumes c: "counts G p stored" and fits: "delta_fits (totals_of G p) (totals_of G' p) d" and e: "delta_is_empty d"
    and small: "small_plane G p" "small_plane G' p"
  shows "counts G' p stored"
proof -
  note S = small [unfolded small_plane_def]
  have zero: "bt_at m k = 0" if "list_all (\<lambda>(k, v). v = 0) m" for m :: "(str, u64) btree" and k
    using that by (auto simp: bt_at_def list_all_iff dest!: map_of_SomeD split: option.splits)
  have same: "a = b" if "(of_int (int b - int a) :: i64) = 0" "a < 2 ^ 63" "b < 2 ^ 63" for a b
    using sint_small [OF that(2,3)] that(1) by simp
  have "node_total G' p = node_total G p" "edge_total G' p = edge_total G p"
    "label_total G' p l = label_total G p l" "type_total G' p ty = type_total G p ty" for l ty
    using fits e S zero [of "dl_labels d" l] zero [of "dl_edge_types d" ty]
    by (auto simp: delta_fits_def delta_is_empty_def totals_of_def intro!: same [symmetric])
  then show ?thesis using c by (simp add: counts_def)
qed

end
