(* ===== verification/Txn_Mirror.thy ===== *)
theory Txn_Mirror
  imports Txn_Totals
begin

text \<open>
  The buffered index events, replayed over what a declared index held, give what the index should hold:
  the value of its property for every node that carries its label. Both index families share the proofs.
\<close>

definition mirror :: "(prop_value \<Rightarrow> 'v option) \<Rightarrow> agraph \<Rightarrow> plane_id \<Rightarrow> str \<Rightarrow> str \<Rightarrow> node_id \<rightharpoonup> 'v" where
  "mirror pick G p l k n =
     (case ag_node G (p, n) of
        None \<Rightarrow> None
      | Some (ek, ls, ps) \<Rightarrow> if l \<in> set ls then picked pick ps k else None)"

fun replay1 :: "str \<Rightarrow> str \<Rightarrow> 'v mirror_event \<Rightarrow> (node_id \<rightharpoonup> 'v) \<Rightarrow> (node_id \<rightharpoonup> 'v)" where
  "replay1 l k (Upsert l' k' n v) m = (if l' = l \<and> k' = k then m(n \<mapsto> v) else m)"
| "replay1 l k (Remove l' k' n) m = (if l' = l \<and> k' = k then m(n := None) else m)"
| "replay1 l k (RemoveNode n) m = m(n := None)"

definition mirror_fits ::
    "(prop_value \<Rightarrow> 'v option) \<Rightarrow> 'm decls \<Rightarrow> agraph \<Rightarrow> agraph \<Rightarrow> plane_id \<Rightarrow> 'v mirror_event list \<Rightarrow> bool" where
  "mirror_fits pick decls G0 G p es \<longleftrightarrow>
     (\<forall>(l, k, m) \<in> set decls. fold (replay1 l k) es (mirror pick G0 p l k) = mirror pick G p l k)"

lemma mirror_fits_start: "mirror_fits pick decls G G p []"
  by (auto simp: mirror_fits_def)

lemma mirror_put:
  "mirror pick (put_node p n (ek, ls, ps) G) p l k = (mirror pick G p l k)(n := if l \<in> set ls then picked pick ps k else None)"
  by (auto simp: mirror_def fun_eq_iff)

lemma mirror_edges [simp]: "mirror pick (put_edge p e r G) q l k = mirror pick G q l k"
  "mirror pick (drop_edge p e G) q l k = mirror pick G q l k"
  by (simp_all add: mirror_def fun_eq_iff)

lemma mirror_cascade: "mirror pick (cascade p n G) p l k = (mirror pick G p l k)(n := None)"
  by (auto simp: mirror_def cascade_def fun_eq_iff)

text \<open>A run of events that all set one node to the same value, or do not concern the index.\<close>

lemma fold_replay:
  assumes "\<And>e m. e \<in> set es \<Longrightarrow> replay1 l k e m = (if rel e then m(n := x) else m)"
  shows "fold (replay1 l k) es m = (if \<exists>e \<in> set es. rel e then m(n := x) else m)"
  using assms by (induction es arbitrary: m) auto

lemma fits_step:
  assumes fits: "mirror_fits pick decls G0 G p es"
    and step: "\<And>l k m. (l, k, m) \<in> set decls \<Longrightarrow> fold (replay1 l k) es' (mirror pick G p l k) = mirror pick G' p l k"
  shows "mirror_fits pick decls G0 G' p (es @ es')"
  using assms unfolding mirror_fits_def by fastforce

lemma in_map_filter_iff: "y \<in> set (List.map_filter f xs) \<longleftrightarrow> (\<exists>x \<in> set xs. f x = Some y)"
  by (induction xs) (auto simp: List.map_filter_def split: option.splits)

text \<open>The events of a handler: one per declaration that concerns it.\<close>

lemma replay_filter:
  assumes d: "(l, k, m) \<in> set decls"
    and ev: "\<And>l' k' m' e M. f (l', k', m') = Some e \<Longrightarrow> replay1 l k e M = (if l' = l \<and> k' = k then M(n := x) else M)"
    and one: "\<And>m'. f (l, k, m') \<noteq> None \<longleftrightarrow> c"
  shows "fold (replay1 l k) (List.map_filter f decls) M = (if c then M(n := x) else M)"
proof -
  let ?rel = "\<lambda>e. \<exists>m'. f (l, k, m') = Some e"
  have "fold (replay1 l k) (List.map_filter f decls) M =
      (if \<exists>e \<in> set (List.map_filter f decls). (\<exists>M. replay1 l k e M \<noteq> M) then M(n := x) else M)"
  proof (rule fold_replay)
    fix e M assume "e \<in> set (List.map_filter f decls)"
    then obtain l' k' m' where e: "f (l', k', m') = Some e" by (auto simp: in_map_filter_iff)
    show "replay1 l k e M = (if \<exists>M. replay1 l k e M \<noteq> M then M(n := x) else M)"
    proof (cases "\<exists>M. replay1 l k e M \<noteq> M")
      case True
      then have "l' = l \<and> k' = k" using ev [OF e] by auto
      then show ?thesis using True ev [OF e] by simp
    next
      case False
      then show ?thesis by simp
    qed
  qed
  also have "\<dots> = (if c then M(n := x) else M)"
  proof (cases c)
    case True
    then obtain e where e: "f (l, k, m) = Some e" using one by blast
    then have "e \<in> set (List.map_filter f decls)" using d by (force simp: in_map_filter_iff)
    moreover have "\<exists>M. replay1 l k e M \<noteq> M"
    proof (cases x)
      case None
      have "replay1 l k e (\<lambda>_. Some undefined) n \<noteq> (\<lambda>_. Some undefined) n" using ev [OF e] None by simp
      then show ?thesis by metis
    next
      case (Some y)
      have "replay1 l k e Map.empty n \<noteq> Map.empty n" using ev [OF e] Some by simp
      then show ?thesis by metis
    qed
    ultimately show ?thesis using True by auto
  next
    case False
    have "replay1 l k e M = M" if mem: "e \<in> set (List.map_filter f decls)" for e M
    proof -
      obtain l' k' m' where e: "f (l', k', m') = Some e" using mem by (auto simp: in_map_filter_iff)
      then show ?thesis using ev [OF e] one [of m'] False by auto
    qed
    then show ?thesis using False by auto
  qed
  finally show ?thesis .
qed

lemma replay_upsert_or_remove: "replay1 l k (upsert_or_remove l' k' n v) m = (if l' = l \<and> k' = k then m(n := v) else m)"
  by (cases v) (simp_all add: upsert_or_remove_def)

lemma fits_create:
  assumes fits: "mirror_fits pick decls G0 G p es" and new: "ag_node G (p, n) = None"
  shows "mirror_fits pick decls G0 (put_node p n (ek, ls, ps) G) p (es @ node_events pick decls n ls ps)"
proof (rule fits_step [OF fits])
  fix l k m assume "(l, k, m) \<in> set decls"
  then have "fold (replay1 l k) (node_events pick decls n ls ps) M = (if l \<in> set ls then M(n := picked pick ps k) else M)" for M
    unfolding node_events_def by (rule replay_filter) (auto simp: replay_upsert_or_remove split: if_splits)
  then show "fold (replay1 l k) (node_events pick decls n ls ps) (mirror pick G p l k) = mirror pick (put_node p n (ek, ls, ps) G) p l k"
    unfolding mirror_put using new by (auto simp: mirror_def fun_eq_iff)
qed

lemma fits_set_prop:
  assumes fits: "mirror_fits pick decls G0 G p es" and n: "ag_node G (p, n) = Some (ek, ls, ps)"
    and newval: "\<And>k. picked pick ps' k = (if k = key then Option.bind value pick else picked pick ps k)"
  shows "mirror_fits pick decls G0 (put_node p n (ek, ls, ps') G) p (es @ prop_events_of pick decls n ls key value)"
proof (rule fits_step [OF fits])
  fix l k m assume "(l, k, m) \<in> set decls"
  then have "fold (replay1 l k) (prop_events_of pick decls n ls key value) M =
      (if k = key \<and> l \<in> set ls then M(n := Option.bind value pick) else M)" for M
    unfolding prop_events_of_def by (rule replay_filter) (auto simp: replay_upsert_or_remove split: if_splits)
  then show "fold (replay1 l k) (prop_events_of pick decls n ls key value) (mirror pick G p l k) =
      mirror pick (put_node p n (ek, ls, ps') G) p l k"
    unfolding mirror_put using n newval [of k] by (auto simp: mirror_def fun_eq_iff)
qed

lemma fits_relabel:
  assumes fits: "mirror_fits pick decls G0 G p es" and n: "ag_node G (p, n) = Some (ek, ls, ps)"
  shows "mirror_fits pick decls G0 (put_node p n (ek, ls', ps) G) p (es @ labels_events pick decls n ls ls' ps)"
proof (rule fits_step [OF fits])
  fix l k m assume "(l, k, m) \<in> set decls"
  then have "fold (replay1 l k) (labels_events pick decls n ls ls' ps) M =
      (if (l \<in> set ls) \<noteq> (l \<in> set ls') \<and> picked pick ps k \<noteq> None
       then M(n := if l \<in> set ls' then picked pick ps k else None) else M)" for M
    unfolding labels_events_def by (rule replay_filter) (auto simp: Let_def split: if_splits option.splits)
  then show "fold (replay1 l k) (labels_events pick decls n ls ls' ps) (mirror pick G p l k) =
      mirror pick (put_node p n (ek, ls', ps) G) p l k"
    unfolding mirror_put using n by (auto simp: mirror_def fun_eq_iff)
qed

lemma fits_delete: "mirror_fits pick decls G0 G p es \<Longrightarrow> mirror_fits pick decls G0 (cascade p n G) p (es @ [RemoveNode n])"
  by (rule fits_step) (auto simp: mirror_cascade)

lemma fits_edges: "mirror_fits pick decls G0 G p es \<Longrightarrow> mirror_fits pick decls G0 (put_edge p e r G) p es"
  "mirror_fits pick decls G0 G p es \<Longrightarrow> mirror_fits pick decls G0 (drop_edge p e G) p es"
  by (simp_all add: mirror_fits_def)

lemma fits_bulk:
  assumes fits: "mirror_fits pick decls G0 G p es" and new: "ag_node G (p, n) = None"
  shows "mirror_fits pick decls G0 (put_node p n (ek, bn_labels b, bn_props b) G) p (es @ bulk_events pick decls n b)"
proof (rule fits_step [OF fits])
  fix l k m assume "(l, k, m) \<in> set decls"
  then have "fold (replay1 l k) (bulk_events pick decls n b) M =
      (if l \<in> set (bn_labels b) \<and> picked pick (bn_props b) k \<noteq> None then M(n := picked pick (bn_props b) k) else M)" for M
    unfolding bulk_events_def by (rule replay_filter) (auto split: if_splits)
  then show "fold (replay1 l k) (bulk_events pick decls n b) (mirror pick G p l k) =
      mirror pick (put_node p n (ek, bn_labels b, bn_props b) G) p l k"
    unfolding mirror_put using new by (auto simp: mirror_def fun_eq_iff)
qed

lemma picked_insert: "picked pick (bt_insert key d ps) k = (if k = key then pick (pd_value d) else picked pick ps k)"
  by (simp add: picked_def)

lemma picked_remove: "bt_ok ps \<Longrightarrow> picked pick (bt_remove key ps) k = (if k = key then None else picked pick ps k)"
  by (simp add: picked_def)

end
