(* ===== verification/Txn_Alloc.thy ===== *)
theory Txn_Alloc
  imports Txn_Mirror
begin

text \<open>
  Batched id allocation inside a write transaction: the ids of a reserved batch lie below the stored
  counter and are in use on no plane, so an id drawn from the batch is fresh.
\<close>

definition batch_ok :: "bytes \<Rightarrow> ((plane_id \<times> u64) \<Rightarrow> 'a option) \<Rightarrow> kv \<Rightarrow> id_batch \<Rightarrow> bool" where
  "batch_ok ctr N m b \<longleftrightarrow>
     (\<exists>c. m Meta ctr = Some (be64 c) \<and> unat (ib_next b) + unat (ib_remaining b) \<le> unat c) \<and>
     (\<forall>q i. i < unat (ib_remaining b) \<longrightarrow> (q, ib_next b + of_nat i) \<notin> dom N)"

lemma batch_ok_empty: "m Meta ctr = Some (be64 c) \<Longrightarrow> batch_ok ctr N m \<lparr>ib_next = 0, ib_remaining = 0\<rparr>"
  by (simp add: batch_ok_def)

lemma batch_ok_mono:
  assumes "batch_ok ctr N m b" "dom N' \<subseteq> dom N" "m' Meta ctr = Some (be64 c')" "\<And>c. m Meta ctr = Some (be64 c) \<Longrightarrow> c \<le> c'"
  shows "batch_ok ctr N' m' b"
proof -
  obtain c where c: "m Meta ctr = Some (be64 c)" "unat (ib_next b) + unat (ib_remaining b) \<le> unat c"
    using assms(1) by (auto simp: batch_ok_def)
  have "unat c \<le> unat c'" using assms(4) [OF c(1)] by (simp add: word_le_nat_alt)
  then show ?thesis using c(2) assms(1-3) unfolding batch_ok_def by fastforce
qed

text \<open>Drawing an id from a non-empty batch.\<close>

lemma batch_draw:
  assumes ok: "batch_ok ctr N m b" and some: "ib_remaining b \<noteq> 0"
    and N': "\<And>q n. (q, n) \<in> dom N' \<Longrightarrow> (q, n) \<in> dom N \<or> n = ib_next b"
  shows "\<exists>c. m Meta ctr = Some (be64 c) \<and> ib_next b < c" "(q, ib_next b) \<notin> dom N"
    "batch_ok ctr N' m \<lparr>ib_next = ib_next b + 1, ib_remaining = ib_remaining b - 1\<rparr>"
proof -
  obtain c where c: "m Meta ctr = Some (be64 c)" "unat (ib_next b) + unat (ib_remaining b) \<le> unat c"
    and fresh: "\<And>q i. i < unat (ib_remaining b) \<Longrightarrow> (q, ib_next b + of_nat i) \<notin> dom N"
    using ok by (auto simp: batch_ok_def)
  have pos: "0 < unat (ib_remaining b)" using some by (simp add: unat_gt_0)
  show "\<exists>c. m Meta ctr = Some (be64 c) \<and> ib_next b < c" using c pos by (auto simp: word_less_nat_alt)
  show "(q, ib_next b) \<notin> dom N" using fresh [of 0 q] pos by simp
  have r: "unat (ib_remaining b - 1) = unat (ib_remaining b) - 1" using some by (simp add: unat_minus_one)
  have lt: "unat (ib_next b) + unat (ib_remaining b) < 2 ^ 64" using c(2) unsigned_less [of c, where ?'a = nat] by simp
  have n: "unat (ib_next b + of_nat i) = unat (ib_next b) + i" if "i \<le> unat (ib_remaining b)" for i
  proof -
    have "i < 2 ^ 64" using that lt by simp
    then have "unat (of_nat i :: u64) = i" by (simp add: unat_of_nat take_bit_nat_eq_self)
    then show ?thesis using that lt by (subst unat_add_lem [THEN iffD1]) simp_all
  qed
  have one: "unat (ib_next b + 1) = unat (ib_next b) + 1" using n [of 1] pos by simp
  have "(q, ib_next b + 1 + of_nat i) \<notin> dom N'" if i: "i < unat (ib_remaining b) - 1" for q i
  proof
    assume "(q, ib_next b + 1 + of_nat i) \<in> dom N'"
    moreover have "ib_next b + 1 + of_nat i = ib_next b + of_nat (Suc i)" by simp
    ultimately consider "(q, ib_next b + of_nat (Suc i)) \<in> dom N" | "ib_next b + of_nat (Suc i) = ib_next b"
      using N' by metis
    then show False
    proof cases
      case 1
      moreover have "Suc i < unat (ib_remaining b)" using i by linarith
      ultimately show False using fresh by blast
    next
      case 2
      moreover have "Suc i \<le> unat (ib_remaining b)" using i by linarith
      ultimately show False using n [of "Suc i"] by (metis Suc_neq_Zero add_eq_self_zero)
    qed
  qed
  then show "batch_ok ctr N' m \<lparr>ib_next = ib_next b + 1, ib_remaining = ib_remaining b - 1\<rparr>"
    using c pos by (auto simp: batch_ok_def r one)
qed

lemma ids_repr_advance:
  "ids_repr ctr N tab \<Longrightarrow> tab ctr = Some (be64 c) \<Longrightarrow> c \<le> c' \<Longrightarrow> ids_repr ctr N (tab(ctr \<mapsto> be64 c'))"
  by (fastforce simp: ids_repr_def)

context kv_txn begin

lemma reserve_batch:
  assumes "inv t" "view t Meta ctr = Some (be64 c)"
  shows "reserve_id_batch V ctr n t = (Inr c, put1 V Meta ctr (be64 (c + n)) t)"
  using assms by (simp add: reserve_id_batch_def get_u64_def put_u64_def map_transpose_def decode_u64_def tx_simps act_bind_def)

lemma id_batch_take_run:
  assumes inv: "inv t" and ids: "ids_repr ctr N (view t Meta)" and ok: "batch_ok ctr N (view t) b"
    and room: "room ctr (2 ^ 64 - 1) 64 (view t)"
  shows "\<exists>i b' t' c c'. id_batch_take V ctr b t = (Inr (i, b'), t') \<and> inv t' \<and> view t Meta ctr = Some (be64 c) \<and> c \<le> c' \<and>
    view t' = kv_put Meta ctr (be64 c') (view t) \<and> i < c' \<and> (\<forall>q. (q, i) \<notin> dom N) \<and>
    (\<forall>N'. (\<forall>q n. (q, n) \<in> dom N' \<longrightarrow> (q, n) \<in> dom N \<or> n = i) \<longrightarrow> batch_ok ctr N' (view t') b')"
proof -
  obtain c where c: "view t Meta ctr = Some (be64 c)" "unat c + 64 \<le> 2 ^ 64 - 1" using room by (rule roomE)
  show ?thesis
  proof (cases "ib_remaining b = 0")
    case False
    let ?b = "\<lparr>ib_next = ib_next b + 1, ib_remaining = ib_remaining b - 1\<rparr>"
    have "kv_put Meta ctr (be64 c) (view t) = view t" using c(1) by (auto simp: kv_put_def fun_eq_iff)
    moreover have "id_batch_take V ctr b t = (Inr (ib_next b, ?b), t)" using False by (simp add: id_batch_take_def)
    moreover have "ib_next b < c" using batch_draw(1) [OF ok False, of N] c(1) by auto
    ultimately show ?thesis
      using batch_draw(2) [OF ok False, of N] batch_draw(3) [OF ok False] inv c(1)
      by (intro exI [of _ "ib_next b"] exI [of _ ?b] exI [of _ t] exI [of _ c]) (auto simp: domIff)
  next
    case True
    let ?t = "put1 V Meta ctr (be64 (c + 64)) t" and ?full = "\<lparr>ib_next = c, ib_remaining = 64\<rparr>"
    let ?b = "\<lparr>ib_next = c + 1, ib_remaining = (63 :: u64)\<rparr>"
    have u: "unat (c + 64) = unat c + 64" using c(2) by (subst unat_add_lem [THEN iffD1]) simp_all
    have le: "c \<le> c + 64" by (simp add: word_le_nat_alt u)
    have v: "view ?t = kv_put Meta ctr (be64 (c + 64)) (view t)" using inv by (simp add: tx_simps)
    have lt: "(q, n) \<in> dom N \<Longrightarrow> n < c" for q n using ids c(1) by (auto simp: ids_repr_def)
    have ok0: "batch_ok ctr N (view ?t) ?full"
    proof -
      have "(q, c + of_nat i) \<notin> dom N" if "i < 64" for q i
      proof
        assume "(q, c + of_nat i) \<in> dom N"
        then have "unat (c + of_nat i) < unat c" using lt by (metis word_less_nat_alt)
        moreover have "unat (c + of_nat i) = unat c + i"
          using that c(2) by (subst unat_add_lem [THEN iffD1]) (simp_all add: unat_of_nat take_bit_nat_eq_self)
        ultimately show False by simp
      qed
      then show ?thesis by (simp add: batch_ok_def v u)
    qed
    have "id_batch_take V ctr b t = (Inr (c, ?b), ?t)"
      using True inv by (simp add: id_batch_take_def act_bind_def reserve_batch [OF inv c(1)] ID_BATCH_SIZE_def)
    moreover have "c < c + 64" by (simp add: word_less_nat_alt u)
    moreover have "(q, c) \<notin> dom N" for q using lt by auto
    moreover have "batch_ok ctr N' (view ?t) ?b" if "\<forall>q n. (q, n) \<in> dom N' \<longrightarrow> (q, n) \<in> dom N \<or> n = c" for N' :: "(plane_id \<times> u64) \<Rightarrow> 'b option"
      using batch_draw(3) [OF ok0, of N'] that by auto
    ultimately show ?thesis using v le inv c(1)
      by (intro exI [of _ c] exI [of _ ?b] exI [of _ ?t] exI [of _ c] exI [of _ "c + 64"]) (simp add: tx_simps)
  qed
qed

end

end
