(* ===== verification/Txn_Run.thy ===== *)
theory Txn_Run
  imports Txn_Alloc
begin

text \<open>
  The invariant of an open write transaction and that every operation keeps it, whatever it returns: the
  staged rows store a graph, reserved ids are fresh, the buffered counter change leads from the totals at
  the start to the totals of the staged graph, and the buffered events lead from what the declared indexes
  held to what they should hold.
\<close>

definition alloc_ok :: "id_allocator \<Rightarrow> agraph \<Rightarrow> kv \<Rightarrow> bool" where
  "alloc_ok a G m \<longleftrightarrow> batch_ok META_NEXT_NODE_ID (ag_node G) m (ia_node a) \<and> batch_ok META_NEXT_EDGE_ID (ag_edge G) m (ia_edge a)"

text \<open>The metadata rows that no graph operation touches.\<close>

definition side_row :: "bytes \<Rightarrow> bool" where
  "side_row k \<longleftrightarrow> dict_apart k \<and> k \<noteq> META_NEXT_NODE_ID \<and> k \<noteq> META_NEXT_EDGE_ID"

lemma side_rows: "side_row (counters_key p)" "side_row META_COMMIT_SEQ" "side_row META_COMMIT_TIME"
  by (simp_all add: side_row_def bookkeeping_apart) (simp_all add: meta_key_defs)

definition same_side :: "kv \<Rightarrow> kv \<Rightarrow> bool" where
  "same_side m m' \<longleftrightarrow> (\<forall>k. side_row k \<longrightarrow> m' Meta k = m Meta k)"

lemma same_side_refl [simp]: "same_side m m"
  and same_side_trans: "same_side m m' \<Longrightarrow> same_side m' m'' \<Longrightarrow> same_side m m''"
  by (simp_all add: same_side_def)

text \<open>Two graphs agree on every plane but one.\<close>

definition same_elsewhere :: "plane_id \<Rightarrow> agraph \<Rightarrow> agraph \<Rightarrow> bool" where
  "same_elsewhere p G G' \<longleftrightarrow> (\<forall>q x. q \<noteq> p \<longrightarrow> ag_node G' (q, x) = ag_node G (q, x) \<and> ag_edge G' (q, x) = ag_edge G (q, x))"

lemma same_elsewhere_refl [simp]: "same_elsewhere p G G"
  and same_elsewhere_trans: "same_elsewhere p G G' \<Longrightarrow> same_elsewhere p G' G'' \<Longrightarrow> same_elsewhere p G G''"
  by (simp_all add: same_elsewhere_def)

lemma same_elsewhere_updates [simp]:
  "same_elsewhere p G (put_node p n x G)" "same_elsewhere p G (put_edge p e y G)" "same_elsewhere p G (drop_edge p e G)"
  "same_elsewhere p G (cascade p n G)"
  by (simp_all add: same_elsewhere_def cascade_def)

text \<open>How much an operation can add to the totals of a plane.\<close>

definition plane_within :: "agraph \<Rightarrow> plane_id \<Rightarrow> nat \<Rightarrow> bool" where
  "plane_within G p N \<longleftrightarrow> node_total G p \<le> N \<and> edge_total G p \<le> N \<and> (\<forall>l. label_total G p l \<le> N) \<and> (\<forall>ty. type_total G p ty \<le> N)"

definition grows :: "plane_id \<Rightarrow> nat \<Rightarrow> agraph \<Rightarrow> agraph \<Rightarrow> bool" where
  "grows p k G G' \<longleftrightarrow> (\<forall>N. plane_within G p N \<longrightarrow> plane_within G' p (N + k))"

lemma plane_within_small: "plane_within G p N \<Longrightarrow> N < 2 ^ 63 \<Longrightarrow> small_plane G p"
  unfolding plane_within_def small_plane_def by (meson le_less_trans)

lemma plane_within_totals:
  "plane_within G p N \<longleftrightarrow> tt_nodes (totals_of G p) \<le> int N \<and> tt_edges (totals_of G p) \<le> int N \<and>
     (\<forall>l. tt_labels (totals_of G p) l \<le> int N) \<and> (\<forall>ty. tt_types (totals_of G p) ty \<le> int N)"
  by (simp add: plane_within_def totals_of_def)

lemma grows_refl [simp]: "grows p k G G"
  by (auto simp: grows_def plane_within_def trans_le_add1)

lemma grows_same: "totals_of G' p = totals_of G p \<Longrightarrow> grows p k G G'"
  by (auto simp: grows_def plane_within_totals intro: order_trans)

lemma count_int_bounds: "0 \<le> count_int ls l" "count_int ls l \<le> int (length ls)"
  by (simp_all add: count_int_def count_le_length)

lemma grows_node:
  "ag_node G (p, n) = None \<Longrightarrow> grows p (1 + length ls) G (put_node p n (ek, ls, ps) G)"
  "ag_node G (p, n) = Some (ek', ls', ps') \<Longrightarrow> grows p (length ls) G (put_node p n (ek, ls, ps) G)"
  using count_int_bounds [of ls] count_int_bounds [of ls']
  by (auto simp: grows_def plane_within_totals totals_put_new totals_relabel add_increasing2 intro: order_trans add_mono)
    (smt (verit))+

lemma grows_edge:
  "ag_edge G (p, e) = None \<Longrightarrow> grows p 1 G (put_edge p e (s, d, ty, ps) G)"
  "ag_edge G (p, e) = Some (s', d', ty', ps') \<Longrightarrow> grows p 1 G (put_edge p e (s, d, ty, ps) G)"
  by (auto simp: grows_def plane_within_totals totals_edge_new totals_retype) (smt (verit))+

lemma grows_drop:
  assumes "ag_node G' \<subseteq>\<^sub>m ag_node G" "ag_edge G' \<subseteq>\<^sub>m ag_edge G"
  shows "grows p k G G'"
proof -
  have n: "{n. (p, n) \<in> dom (ag_node G')} \<subseteq> {n. (p, n) \<in> dom (ag_node G)}" and e: "{e. (p, e) \<in> dom (ag_edge G')} \<subseteq> {e. (p, e) \<in> dom (ag_edge G)}"
    using map_le_implies_dom_le [OF assms(1)] map_le_implies_dom_le [OF assms(2)] by blast+
  have t: "{e. \<exists>s d ps. ag_edge G' (p, e) = Some (s, d, ty, ps)} \<subseteq> {e. \<exists>s d ps. ag_edge G (p, e) = Some (s, d, ty, ps)}" for ty
  proof
    fix e assume "e \<in> of_type G' p ty"
    then obtain s d ps where y: "ag_edge G' (p, e) = Some (s, d, ty, ps)" by blast
    then have "(p, e) \<in> dom (ag_edge G')" by (rule domI)
    then have "ag_edge G' (p, e) = ag_edge G (p, e)" using assms(2) unfolding map_le_def by (rule bspec [rotated])
    then have "ag_edge G (p, e) = Some (s, d, ty, ps)" using y by simp
    then show "e \<in> of_type G p ty" by blast
  qed
  have "node_total G' p \<le> node_total G p" "edge_total G' p \<le> edge_total G p" "type_total G' p ty \<le> type_total G p ty" for ty
    unfolding node_total_def edge_total_def type_total_def by (rule card_mono [OF _ n], simp) (rule card_mono [OF _ e], simp, rule card_mono [OF _ t], simp)
  moreover have "label_total G' p l \<le> label_total G p l" for l
  proof -
    have "label_total G' p l = (\<Sum>n | (p, n) \<in> dom (ag_node G'). count_list (fst (snd (the (ag_node G (p, n))))) l)"
      unfolding label_total_def using assms(1) by (intro sum.cong) (auto simp: map_le_def)
    also have "\<dots> \<le> label_total G p l" unfolding label_total_def by (rule sum_mono2) (use n in auto)
    finally show ?thesis .
  qed
  ultimately show ?thesis unfolding grows_def plane_within_def by (meson le_add1 order_trans)
qed

lemma grows_gone [simp]: "grows p k G (drop_edge p e G)" "grows p k G (cascade p n G)"
  by (rule grows_drop; auto simp: map_le_def cascade_def split: if_splits)+

definition txn_ok ::
    "('t \<Rightarrow> bool) \<Rightarrow> ('t \<Rightarrow> kv) \<Rightarrow> postcard \<Rightarrow> agraph \<Rightarrow> totals \<Rightarrow> kv \<Rightarrow> agraph \<Rightarrow> 't write_txn \<Rightarrow> bool" where
  "txn_ok I vw pc G0 b m0 G w \<longleftrightarrow>
     db_ok I vw pc G (wt_inner w) \<and> alloc_ok (wt_ids w) G (vw (wt_inner w)) \<and> same_side m0 (vw (wt_inner w)) \<and>
     delta_fits b (totals_of G (wt_plane w)) (wt_counters w) \<and>
     mirror_fits pick_vector (wt_decls w) G0 G (wt_plane w) (wt_events w) \<and>
     mirror_fits pick_text (wt_kw_decls w) G0 G (wt_plane w) (wt_kw_events w) \<and> same_elsewhere (wt_plane w) G0 G"

lemma txn_okI:
  assumes "db_ok I vw pc G (wt_inner w)" "alloc_ok (wt_ids w) G (vw (wt_inner w))" "same_side m0 (vw (wt_inner w))"
    "delta_fits b (totals_of G (wt_plane w)) (wt_counters w)"
    "mirror_fits pick_vector (wt_decls w) G0 G (wt_plane w) (wt_events w)"
    "mirror_fits pick_text (wt_kw_decls w) G0 G (wt_plane w) (wt_kw_events w)" "same_elsewhere (wt_plane w) G0 G"
  shows "txn_ok I vw pc G0 b m0 G w"
  using assms by (simp add: txn_ok_def)

lemma txn_okD:
  assumes "txn_ok I vw pc G0 b m0 G w"
  shows "db_ok I vw pc G (wt_inner w)" "alloc_ok (wt_ids w) G (vw (wt_inner w))" "same_side m0 (vw (wt_inner w))"
    "delta_fits b (totals_of G (wt_plane w)) (wt_counters w)"
    "mirror_fits pick_vector (wt_decls w) G0 G (wt_plane w) (wt_events w)"
    "mirror_fits pick_text (wt_kw_decls w) G0 G (wt_plane w) (wt_kw_events w)" "same_elsewhere (wt_plane w) G0 G"
  using assms by (simp_all add: txn_ok_def)

lemma txn_ok_start:
  assumes "db_ok I vw pc G t"
  shows "txn_ok I vw pc G (totals_of G p) (vw t) G (wt_write p decls kw t)"
proof -
  obtain L T where r: "reprD pc L T G (vw t)" using assms by (rule db_okE)
  have "alloc_ok id_allocator_new G (vw t)"
    using reprD_D(3,4) [OF r] by (auto simp: alloc_ok_def id_allocator_new_def ids_repr_def intro!: batch_ok_empty)
  then show ?thesis using assms
    by (simp add: txn_ok_def wt_write_def delta_fits_default mirror_fits_start)
qed

lemma record_change_simps [simp]:
  "wt_plane (record_change kd i op w) = wt_plane w" "wt_inner (record_change kd i op w) = wt_inner w"
  "wt_ids (record_change kd i op w) = wt_ids w" "wt_decls (record_change kd i op w) = wt_decls w"
  "wt_events (record_change kd i op w) = wt_events w" "wt_kw_decls (record_change kd i op w) = wt_kw_decls w"
  "wt_kw_events (record_change kd i op w) = wt_kw_events w" "wt_counters (record_change kd i op w) = wt_counters w"
  by (simp_all add: record_change_def)

lemma on_counters_simps [simp]:
  "wt_plane (on_counters f w) = wt_plane w" "wt_inner (on_counters f w) = wt_inner w"
  "wt_ids (on_counters f w) = wt_ids w" "wt_decls (on_counters f w) = wt_decls w"
  "wt_events (on_counters f w) = wt_events w" "wt_kw_decls (on_counters f w) = wt_kw_decls w"
  "wt_kw_events (on_counters f w) = wt_kw_events w" "wt_counters (on_counters f w) = f (wt_counters w)"
  by (simp_all add: on_counters_def)

text \<open>Programs over the transaction.\<close>

lemma bind_modify [simp]: "act_bind (modify f) g w = g () (f w)"
  by (simp add: act_bind_def modify_def)

lemma modify_apply [simp]: "modify f w = (Inr (), f w)"
  by (simp add: modify_def)

lemma bind_on_reading:
  "act_bind (on_txn (reading r)) f w = (case r (wt_inner w) of Inl e \<Rightarrow> (Inl e, w) | Inr x \<Rightarrow> f x w)"
  by (simp add: act_bind_def on_txn_def split: sum.splits)

lemma bind_on_txn:
  "a (wt_inner w) = (r, t) \<Longrightarrow> act_bind (on_txn a) f w =
     (case r of Inl e \<Rightarrow> (Inl e, w\<lparr>wt_inner := t\<rparr>) | Inr x \<Rightarrow> f x (w\<lparr>wt_inner := t\<rparr>))"
  by (simp add: act_bind_def on_txn_def split: sum.splits)

lemma bind_on_ids:
  "a (wt_ids w) (wt_inner w) = (Inr (x, ids), t) \<Longrightarrow> act_bind (on_ids a) f w = f x (w\<lparr>wt_inner := t, wt_ids := ids\<rparr>)"
  by (simp add: act_bind_def on_ids_def)

lemma alloc_ok_shrink:
  assumes "alloc_ok a G m" "dom (ag_node G') \<subseteq> dom (ag_node G)" "dom (ag_edge G') \<subseteq> dom (ag_edge G)"
    "m' Meta META_NEXT_NODE_ID = m Meta META_NEXT_NODE_ID" "m' Meta META_NEXT_EDGE_ID = m Meta META_NEXT_EDGE_ID"
  shows "alloc_ok a G' m'"
  using assms unfolding alloc_ok_def batch_ok_def by (auto 0 4)

context kv_txn begin

text \<open>An update of the inner transaction that draws no id.\<close>

lemma keeps_rows:
  assumes "a t = (r, t')" "inv t" "\<forall>k. dict_apart k \<longrightarrow> keeps inv view k a"
  shows "inv t'" "same_side (view t) (view t')" "view t' Meta META_NEXT_NODE_ID = view t Meta META_NEXT_NODE_ID"
    "view t' Meta META_NEXT_EDGE_ID = view t Meta META_NEXT_EDGE_ID"
proof -
  have "inv t' \<and> view t' Meta k = view t Meta k" if "dict_apart k" for k
    using keepsD [of inv view k a, OF _ assms(2,1)] assms(3) that by blast
  then show "inv t'" "same_side (view t) (view t')" "view t' Meta META_NEXT_NODE_ID = view t Meta META_NEXT_NODE_ID"
    "view t' Meta META_NEXT_EDGE_ID = view t Meta META_NEXT_EDGE_ID"
    using bookkeeping_apart by (auto simp: same_side_def side_row_def)
qed

lemma txn_ok_inner:
  assumes ok: "txn_ok inv view pc G0 b m0 G w" and a: "a (wt_inner w) = (r, t')" "\<forall>k. dict_apart k \<longrightarrow> keeps inv view k a"
    and db: "db_ok inv view pc G' t'" and dom: "dom (ag_node G') \<subseteq> dom (ag_node G)" "dom (ag_edge G') \<subseteq> dom (ag_edge G)"
    and off: "same_elsewhere (wt_plane w) G G'"
    and w': "wt_inner w' = t'" "wt_ids w' = wt_ids w" "wt_plane w' = wt_plane w" "wt_decls w' = wt_decls w" "wt_kw_decls w' = wt_kw_decls w"
    and d: "delta_fits b (totals_of G' (wt_plane w)) (wt_counters w')"
    and e: "mirror_fits pick_vector (wt_decls w) G0 G' (wt_plane w) (wt_events w')"
      "mirror_fits pick_text (wt_kw_decls w) G0 G' (wt_plane w) (wt_kw_events w')"
  shows "txn_ok inv view pc G0 b m0 G' w'"
proof -
  have "inv (wt_inner w)" using txn_okD(1) [OF ok] by (auto elim: db_okE)
  note rows = keeps_rows [OF a(1) this a(2)]
  show ?thesis
    using alloc_ok_shrink [where m' = "view t'", OF txn_okD(2) [OF ok] dom rows(3,4)] same_side_trans [OF txn_okD(3) [OF ok] rows(2)]
      same_elsewhere_trans [OF txn_okD(7) [OF ok] off] db d e
    by (simp add: txn_ok_def w')
qed

text \<open>Failing without an effect on the graph.\<close>

lemma txn_ok_failed:
  assumes ok: "txn_ok inv view pc G0 b m0 G w" and a: "a (wt_inner w) = (r, t')" "\<forall>k. dict_apart k \<longrightarrow> keeps inv view k a"
    and db: "db_ok inv view pc G t'"
  shows "txn_ok inv view pc G0 b m0 G (w\<lparr>wt_inner := t'\<rparr>)"
  by (rule txn_ok_inner [where a = a, OF ok a db]) (use txn_okD [OF ok] in auto)

section \<open>Edge updates\<close>

lemma txn_ok_edge:
  assumes ok: "txn_ok inv view pc G0 b m0 G w" and a: "a (wt_inner w) = (Inr (), t')" "\<forall>k. dict_apart k \<longrightarrow> keeps inv view k a"
    and r: "inv t'" "reprD pc L T (put_edge (wt_plane w) e (s, d, ty, ps) G) (view t')"
    and e: "ag_edge G (wt_plane w, e) = Some (s, d, ty', ps')"
    and w': "wt_inner w' = t'" "wt_ids w' = wt_ids w" "wt_plane w' = wt_plane w" "wt_decls w' = wt_decls w" "wt_kw_decls w' = wt_kw_decls w"
      "wt_events w' = wt_events w" "wt_kw_events w' = wt_kw_events w"
    and d: "delta_fits b (totals_of (put_edge (wt_plane w) e (s, d, ty, ps) G) (wt_plane w)) (wt_counters w')"
  shows "txn_ok inv view pc G0 b m0 (put_edge (wt_plane w) e (s, d, ty, ps) G) w'"
proof -
  have "ag_ok G" using txn_okD(1) [OF ok] by (auto elim: db_okE)
  moreover have "has_edge (ag_edge G) (wt_plane w) e s d ty'" using e by (simp add: has_edge_def)
  ultimately have "ag_ok (put_edge (wt_plane w) e (s, d, ty, ps) G)" unfolding ag_ok_def by (intro ag_ok_put_edge [unfolded ag_ok_def]) blast+
  then have db: "db_ok inv view pc (put_edge (wt_plane w) e (s, d, ty, ps) G) t'" using r by (intro db_okI)
  show ?thesis
    by (rule txn_ok_inner [where a = a, OF ok a db _ _ _ w'(1-5) d]) (use e w'(6,7) fits_edges(1) [OF txn_okD(5) [OF ok]] fits_edges(1) [OF txn_okD(6) [OF ok]] in auto)
qed

lemma edge_cases:
  assumes "txn_ok inv view pc G0 b m0 G w"
  obtains (absent) L T where "inv (wt_inner w)" "reprD pc L T G (view (wt_inner w))" "ag_edge G (wt_plane w, e) = None"
      "load_edge V pc (wt_inner w) (wt_plane w) e = Inl NotFound" "get_edge V pc (wt_inner w) (wt_plane w) e = Inr None"
  | (present) L T s d ty ps where "inv (wt_inner w)" "reprD pc L T G (view (wt_inner w))"
      "ag_edge G (wt_plane w, e) = Some (s, d, ty, ps)"
      "get_edge V pc (wt_inner w) (wt_plane w) e = Inr (Some (edge_rec (wt_plane w) e (s, d, ty, ps)))"
proof -
  obtain L T where r: "inv (wt_inner w)" "reprD pc L T G (view (wt_inner w))" using txn_okD(1) [OF assms] by (rule db_okE)
  show thesis
  proof (cases "ag_edge G (wt_plane w, e)")
    case None
    then show thesis using absent [OF r] load_edge_missing [OF r, of "wt_plane w" e] get_edge_run [OF r, of "wt_plane w" e] by (simp add: domIff)
  next
    case (Some y)
    obtain s d ty ps where "y = (s, d, ty, ps)" by (cases y)
    then show thesis using present [OF r] Some get_edge_run [OF r, of "wt_plane w" e] by simp
  qed
qed

lemma wt_set_edge_prop_ok:
  assumes ok: "txn_ok inv view pc G0 b m0 G w" and pc: "postcard_ok pc" and v: "utf8_ok key" "desc_ok x"
  shows "\<exists>G'. txn_ok inv view pc G0 b m0 G' (snd (wt_set_edge_prop V pc e key x w)) \<and> grows (wt_plane w) 0 G G'"
proof (rule edge_cases [OF ok, of e])
  fix L T assume "load_edge V pc (wt_inner w) (wt_plane w) e = Inl NotFound"
  then have "set_edge_prop V pc (wt_plane w) e key x (wt_inner w) = (Inl NotFound, wt_inner w)"
    by (simp add: set_edge_prop_def act_bind_reading)
  then show ?thesis using ok by (auto simp: wt_set_edge_prop_def bind_on_txn)
next
  fix L T s d ty ps assume r: "inv (wt_inner w)" "reprD pc L T G (view (wt_inner w))" and e: "ag_edge G (wt_plane w, e) = Some (s, d, ty, ps)"
  obtain t' where t': "set_edge_prop V pc (wt_plane w) e key x (wt_inner w) = (Inr (), t')" "inv t'"
    "reprD pc L T (put_edge (wt_plane w) e (s, d, ty, bt_insert key x ps) G) (view t')"
    using set_edge_prop_run [OF r pc e v] by blast
  have "txn_ok inv view pc G0 b m0 (put_edge (wt_plane w) e (s, d, ty, bt_insert key x ps) G) (record_change EdgeKind e Updated (w\<lparr>wt_inner := t'\<rparr>))"
    by (rule txn_ok_edge [where a = "set_edge_prop V pc (wt_plane w) e key x", OF ok t'(1) _ t'(2,3) e]) (use txn_okD(4) [OF ok] in \<open>simp_all add: totals_edge_same [OF e] keeps_edges\<close>)
  moreover have "grows (wt_plane w) 0 G (put_edge (wt_plane w) e (s, d, ty, bt_insert key x ps) G)" by (rule grows_same [OF totals_edge_same [OF e]])
  ultimately show ?thesis using t'(1) by (auto simp: wt_set_edge_prop_def bind_on_txn)
qed

lemma wt_remove_edge_prop_ok:
  assumes ok: "txn_ok inv view pc G0 b m0 G w" and pc: "postcard_ok pc"
  shows "\<exists>G'. txn_ok inv view pc G0 b m0 G' (snd (wt_remove_edge_prop V pc e key w)) \<and> grows (wt_plane w) 0 G G'"
proof (rule edge_cases [OF ok, of e])
  fix L T assume "load_edge V pc (wt_inner w) (wt_plane w) e = Inl NotFound"
  then have "remove_edge_prop V pc (wt_plane w) e key (wt_inner w) = (Inl NotFound, wt_inner w)"
    by (simp add: remove_edge_prop_def act_bind_reading)
  then show ?thesis using ok by (auto simp: wt_remove_edge_prop_def bind_on_txn)
next
  fix L T s d ty ps assume r: "inv (wt_inner w)" "reprD pc L T G (view (wt_inner w))" and e: "ag_edge G (wt_plane w, e) = Some (s, d, ty, ps)"
  obtain t' where t': "remove_edge_prop V pc (wt_plane w) e key (wt_inner w) = (Inr (), t')" "inv t'"
    "reprD pc L T (put_edge (wt_plane w) e (s, d, ty, bt_remove key ps) G) (view t')"
    using remove_edge_prop_run [OF r pc e] by blast
  have "txn_ok inv view pc G0 b m0 (put_edge (wt_plane w) e (s, d, ty, bt_remove key ps) G) (record_change EdgeKind e Updated (w\<lparr>wt_inner := t'\<rparr>))"
    by (rule txn_ok_edge [where a = "remove_edge_prop V pc (wt_plane w) e key", OF ok t'(1) _ t'(2,3) e]) (use txn_okD(4) [OF ok] in \<open>simp_all add: totals_edge_same [OF e] keeps_edges\<close>)
  moreover have "grows (wt_plane w) 0 G (put_edge (wt_plane w) e (s, d, ty, bt_remove key ps) G)" by (rule grows_same [OF totals_edge_same [OF e]])
  ultimately show ?thesis using t'(1) by (auto simp: wt_remove_edge_prop_def bind_on_txn)
qed

lemma wt_set_edge_type_ok:
  assumes ok: "txn_ok inv view pc G0 b m0 G w" and pc: "postcard_ok pc" and v: "utf8_ok ty" "roomy 1 (view (wt_inner w))"
  shows "\<exists>G'. txn_ok inv view pc G0 b m0 G' (snd (wt_set_edge_type V pc e ty w)) \<and> grows (wt_plane w) 1 G G'"
proof (rule edge_cases [OF ok, of e])
  fix L T assume a: "load_edge V pc (wt_inner w) (wt_plane w) e = Inl NotFound" "get_edge V pc (wt_inner w) (wt_plane w) e = Inr None"
  then have "set_edge_type V pc (wt_plane w) e ty (wt_inner w) = (Inl NotFound, wt_inner w)"
    by (simp add: set_edge_type_def act_bind_reading)
  then show ?thesis using ok a(2) by (auto simp: wt_set_edge_type_def bind_on_txn bind_on_reading)
next
  fix L T s d oty ps assume r: "inv (wt_inner w)" "reprD pc L T G (view (wt_inner w))" and e: "ag_edge G (wt_plane w, e) = Some (s, d, oty, ps)"
    and get: "get_edge V pc (wt_inner w) (wt_plane w) e = Inr (Some (edge_rec (wt_plane w) e (s, d, oty, ps)))"
  obtain t' T' where t': "set_edge_type V pc (wt_plane w) e ty (wt_inner w) = (Inr (), t')" "inv t'"
    "reprD pc L T' (put_edge (wt_plane w) e (s, d, ty, ps) G) (view t')"
    using set_edge_type_run [OF r pc e v] by blast
  let ?f = "if oty \<noteq> ty then on_counters (\<lambda>d. delta_type 1 ty (delta_type (- 1) oty d)) else (\<lambda>w. w)"
  let ?w = "record_change EdgeKind e Updated ((?f w)\<lparr>wt_inner := t'\<rparr>)"
  have d: "delta_fits b (totals_of (put_edge (wt_plane w) e (s, d, ty, ps) G) (wt_plane w)) (wt_counters ?w)"
  proof (cases "oty = ty")
    case True
    then show ?thesis using txn_okD(4) [OF ok] totals_edge_same [of G "wt_plane w" e s d ty ps] e by simp
  next
    case False
    from fits_type [OF fits_type [OF txn_okD(4) [OF ok] refl, where x = "- 1" and ty = oty] refl, where x = 1 and ty = ty]
    show ?thesis using False by (simp add: totals_retype [OF e])
  qed
  have "txn_ok inv view pc G0 b m0 (put_edge (wt_plane w) e (s, d, ty, ps) G) ?w"
    by (rule txn_ok_edge [where a = "set_edge_type V pc (wt_plane w) e ty", OF ok t'(1) _ t'(2,3) e]) (use d in \<open>simp_all add: keeps_edges\<close>)
  moreover have "wt_set_edge_type V pc e ty w = (Inr (), ?w)"
    using t'(1) get by (simp add: wt_set_edge_type_def bind_on_txn bind_on_reading edge_rec_def)
  moreover have "grows (wt_plane w) 1 G (put_edge (wt_plane w) e (s, d, ty, ps) G)" by (rule grows_edge(2) [OF e])
  ultimately show ?thesis by auto
qed

lemma uncount_edge_run:
  assumes "txn_ok inv view pc G0 b m0 G w"
  shows "uncount_edge V pc e w = (Inr (), on_counters (case ag_edge G (wt_plane w, e) of
     None \<Rightarrow> (\<lambda>d. d) | Some (s, d, ty, ps) \<Rightarrow> edge_removed ty) w)"
  by (rule edge_cases [OF assms, of e]) (simp_all add: uncount_edge_def bind_on_reading on_counters_def edge_rec_def)

lemma wt_delete_edge_ok:
  assumes ok: "txn_ok inv view pc G0 b m0 G w"
  shows "\<exists>G'. txn_ok inv view pc G0 b m0 G' (snd (wt_delete_edge V pc e w)) \<and> grows (wt_plane w) 0 G G'"
proof -
  obtain L T where r: "inv (wt_inner w)" "reprD pc L T G (view (wt_inner w))" "ag_ok G" using txn_okD(1) [OF ok] by (rule db_okE)
  obtain t' where t': "delete_edge V pc (wt_plane w) e (wt_inner w) = (Inr (), t')" "inv t'" "reprD pc L T (drop_edge (wt_plane w) e G) (view t')"
    using delete_edge_run [OF r(1,2)] by blast
  let ?c = "case ag_edge G (wt_plane w, e) of None \<Rightarrow> (\<lambda>d. d) | Some (s, d, ty, ps) \<Rightarrow> edge_removed ty"
  let ?w = "record_change EdgeKind e Deleted ((on_counters ?c w)\<lparr>wt_inner := t'\<rparr>)"
  have "drop_edge (wt_plane w) e G = G" if "ag_edge G (wt_plane w, e) = None" using that by (intro agraph.equality) auto
  then have d: "delta_fits b (totals_of (drop_edge (wt_plane w) e G) (wt_plane w)) (wt_counters ?w)"
    using txn_okD(4) [OF ok] fits_edge_removed [OF txn_okD(4) [OF ok]]
    by (auto simp: totals_drop_edge split: option.splits)
  have db: "db_ok inv view pc (drop_edge (wt_plane w) e G) t'" by (rule db_okI [where valid = inv and view = view, OF t'(2,3)]) (simp add: r)
  have "txn_ok inv view pc G0 b m0 (drop_edge (wt_plane w) e G) ?w"
    by (rule txn_ok_inner [where a = "delete_edge V pc (wt_plane w) e", OF ok t'(1) _ db])
       (use d fits_edges(2) [OF txn_okD(5) [OF ok]] fits_edges(2) [OF txn_okD(6) [OF ok]] in \<open>auto simp: keeps_edges\<close>)
  moreover have "wt_delete_edge V pc e w = (Inr (), ?w)"
    using t'(1) by (simp add: wt_delete_edge_def act_bind_def uncount_edge_run [OF ok] on_txn_def)
  ultimately show ?thesis by auto
qed

section \<open>Node updates\<close>

lemma node_cases:
  assumes "txn_ok inv view pc G0 b m0 G w"
  obtains (absent) L T where "inv (wt_inner w)" "reprD pc L T G (view (wt_inner w))" "ag_node G (wt_plane w, n) = None"
      "load_node V pc (wt_inner w) (wt_plane w) n = Inl NotFound" "get_node V pc (wt_inner w) (wt_plane w) n = Inr None"
  | (present) L T ek ls ps where "inv (wt_inner w)" "reprD pc L T G (view (wt_inner w))"
      "ag_node G (wt_plane w, n) = Some (ek, ls, ps)"
      "get_node V pc (wt_inner w) (wt_plane w) n = Inr (Some (node_rec (wt_plane w) n (ek, ls, ps)))"
proof -
  obtain L T where r: "inv (wt_inner w)" "reprD pc L T G (view (wt_inner w))" using txn_okD(1) [OF assms] by (rule db_okE)
  show thesis
  proof (cases "ag_node G (wt_plane w, n)")
    case None
    then show thesis using absent [OF r] load_node_missing [OF r, of "wt_plane w" n] get_node_run [OF r, of "wt_plane w" n] by (simp add: domIff)
  next
    case (Some y)
    obtain ek ls ps where "y = (ek, ls, ps)" by (cases y)
    then show thesis using present [OF r] Some get_node_run [OF r, of "wt_plane w" n] by simp
  qed
qed

lemma txn_ok_node:
  assumes ok: "txn_ok inv view pc G0 b m0 G w" and a: "a (wt_inner w) = (Inr (), t')" "\<forall>k. dict_apart k \<longrightarrow> keeps inv view k a"
    and r: "inv t'" "reprD pc L T (put_node (wt_plane w) n (ek, ls', ps') G) (view t')"
    and n: "ag_node G (wt_plane w, n) = Some (ek, ls, ps)"
    and w': "wt_inner w' = t'" "wt_ids w' = wt_ids w" "wt_plane w' = wt_plane w" "wt_decls w' = wt_decls w" "wt_kw_decls w' = wt_kw_decls w"
    and d: "delta_fits b (totals_of (put_node (wt_plane w) n (ek, ls', ps') G) (wt_plane w)) (wt_counters w')"
    and e: "mirror_fits pick_vector (wt_decls w) G0 (put_node (wt_plane w) n (ek, ls', ps') G) (wt_plane w) (wt_events w')"
      "mirror_fits pick_text (wt_kw_decls w) G0 (put_node (wt_plane w) n (ek, ls', ps') G) (wt_plane w) (wt_kw_events w')"
  shows "txn_ok inv view pc G0 b m0 (put_node (wt_plane w) n (ek, ls', ps') G) w'"
proof -
  have "ag_ok G" using txn_okD(1) [OF ok] by (auto elim: db_okE)
  then have db: "db_ok inv view pc (put_node (wt_plane w) n (ek, ls', ps') G) t'" using r by (intro db_okI) auto
  show ?thesis by (rule txn_ok_inner [where a = a, OF ok a db _ _ _ w' d e]) (use n in auto)
qed

text \<open>The events of a property update: a declaration that names the property has them computed from the node.\<close>

lemma no_declaration: "\<not> names_property decls key \<Longrightarrow> prop_events_of pick decls n ls key value = []"
  by (induction decls) (auto simp: names_property_def prop_events_of_def List.map_filter_def)

lemma record_prop_event_run:
  assumes "get_node V pc (wt_inner w) (wt_plane w) n = Inr (Some node)"
  shows "record_prop_event V pc n key value w =
    (Inr (), w\<lparr>wt_events := wt_events w @ prop_events_of pick_vector (wt_decls w) n (nr_labels node) key value\<rparr>)"
    "record_kw_prop_event V pc n key value w =
    (Inr (), w\<lparr>wt_kw_events := wt_kw_events w @ prop_events_of pick_text (wt_kw_decls w) n (nr_labels node) key value\<rparr>)"
  using assms by (simp_all add: record_prop_event_def record_kw_prop_event_def bind_on_reading no_declaration)

lemma wt_prop_ok:
  assumes ok: "txn_ok inv view pc G0 b m0 G w" and n: "ag_node G (wt_plane w, n) = Some (ek, ls, ps)"
    and a: "a (wt_inner w) = (Inr (), t')" "\<forall>k. dict_apart k \<longrightarrow> keeps inv view k a"
    and r: "inv t'" "reprD pc L T (put_node (wt_plane w) n (ek, ls, ps') G) (view t')"
    and v: "\<And>k. picked pick_vector ps' k = (if k = key then Option.bind value pick_vector else picked pick_vector ps k)"
      "\<And>k. picked pick_text ps' k = (if k = key then Option.bind value pick_text else picked pick_text ps k)"
  shows "\<exists>w'. act_bind (on_txn a) (\<lambda>_. act_bind (record_prop_event V pc n key value) (\<lambda>_.
     act_bind (record_kw_prop_event V pc n key value) (\<lambda>_. modify (record_change NodeKind n Updated)))) w = (Inr (), w') \<and>
     txn_ok inv view pc G0 b m0 (put_node (wt_plane w) n (ek, ls, ps') G) w'"
proof -
  let ?G = "put_node (wt_plane w) n (ek, ls, ps') G"
  let ?e = "prop_events_of pick_vector (wt_decls w) n ls key value" and ?k = "prop_events_of pick_text (wt_kw_decls w) n ls key value"
  let ?w = "record_change NodeKind n Updated (w\<lparr>wt_inner := t', wt_events := wt_events w @ ?e, wt_kw_events := wt_kw_events w @ ?k\<rparr>)"
  have get: "get_node V pc t' (wt_plane w) n = Inr (Some (node_rec (wt_plane w) n (ek, ls, ps')))"
    using get_node_run [OF r, of "wt_plane w" n] by simp
  have "act_bind (on_txn a) (\<lambda>_. act_bind (record_prop_event V pc n key value) (\<lambda>_.
     act_bind (record_kw_prop_event V pc n key value) (\<lambda>_. modify (record_change NodeKind n Updated)))) w = (Inr (), ?w)"
    using get by (simp add: act_bind_def on_txn_def a(1) record_prop_event_run node_rec_def)
  moreover have "txn_ok inv view pc G0 b m0 ?G ?w"
  proof (rule txn_ok_node [where a = a, OF ok a r n])
    show "mirror_fits pick_vector (wt_decls w) G0 ?G (wt_plane w) (wt_events ?w)"
      using fits_set_prop [OF txn_okD(5) [OF ok] n v(1)] by simp
    show "mirror_fits pick_text (wt_kw_decls w) G0 ?G (wt_plane w) (wt_kw_events ?w)"
      using fits_set_prop [OF txn_okD(6) [OF ok] n v(2)] by simp
  qed (use txn_okD(4) [OF ok] in \<open>simp_all add: totals_reprop [OF n]\<close>)
  ultimately show ?thesis by blast
qed

lemma wt_set_prop_ok:
  assumes ok: "txn_ok inv view pc G0 b m0 G w" and pc: "postcard_ok pc" and v: "utf8_ok key" "desc_ok d"
  shows "\<exists>G'. txn_ok inv view pc G0 b m0 G' (snd (wt_set_prop V pc n key d w)) \<and> grows (wt_plane w) 0 G G'"
proof (rule node_cases [OF ok, of n])
  fix L T assume "load_node V pc (wt_inner w) (wt_plane w) n = Inl NotFound"
  then have "set_node_prop V pc (wt_plane w) n key d (wt_inner w) = (Inl NotFound, wt_inner w)"
    by (simp add: set_node_prop_def act_bind_reading)
  then show ?thesis using ok by (auto simp: wt_set_prop_def bind_on_txn)
next
  fix L T ek ls ps assume r: "inv (wt_inner w)" "reprD pc L T G (view (wt_inner w))" and n: "ag_node G (wt_plane w, n) = Some (ek, ls, ps)"
  obtain t' where t': "set_node_prop V pc (wt_plane w) n key d (wt_inner w) = (Inr (), t')" "inv t'"
    "reprD pc L T (put_node (wt_plane w) n (ek, ls, bt_insert key d ps) G) (view t')"
    using set_node_prop_run [OF r pc n v] by blast
  have "\<exists>w'. wt_set_prop V pc n key d w = (Inr (), w') \<and> txn_ok inv view pc G0 b m0 (put_node (wt_plane w) n (ek, ls, bt_insert key d ps) G) w'"
    unfolding wt_set_prop_def
    by (rule wt_prop_ok [where a = "set_node_prop V pc (wt_plane w) n key d", OF ok n t'(1) _ t'(2,3)])
       (simp_all add: keeps_nodes picked_insert)
  moreover have "grows (wt_plane w) 0 G (put_node (wt_plane w) n (ek, ls, bt_insert key d ps) G)" by (rule grows_same [OF totals_reprop [OF n]])
  ultimately show ?thesis by auto
qed

lemma wt_remove_prop_ok:
  assumes ok: "txn_ok inv view pc G0 b m0 G w" and pc: "postcard_ok pc"
  shows "\<exists>G'. txn_ok inv view pc G0 b m0 G' (snd (wt_remove_prop V pc n key w)) \<and> grows (wt_plane w) 0 G G'"
proof (rule node_cases [OF ok, of n])
  fix L T assume "load_node V pc (wt_inner w) (wt_plane w) n = Inl NotFound"
  then have "remove_node_prop V pc (wt_plane w) n key (wt_inner w) = (Inl NotFound, wt_inner w)"
    by (simp add: remove_node_prop_def act_bind_reading)
  then show ?thesis using ok by (auto simp: wt_remove_prop_def bind_on_txn)
next
  fix L T ek ls ps assume r: "inv (wt_inner w)" "reprD pc L T G (view (wt_inner w))" and n: "ag_node G (wt_plane w, n) = Some (ek, ls, ps)"
  have "bt_ok ps" by (rule rows_repr_row [OF reprD_D(5) [OF r(2)] n]) (simp add: node_row_def props_ok_def)
  moreover obtain t' where t': "remove_node_prop V pc (wt_plane w) n key (wt_inner w) = (Inr (), t')" "inv t'"
    "reprD pc L T (put_node (wt_plane w) n (ek, ls, bt_remove key ps) G) (view t')"
    using remove_node_prop_run [OF r pc n] by blast
  ultimately have "\<exists>w'. wt_remove_prop V pc n key w = (Inr (), w') \<and> txn_ok inv view pc G0 b m0 (put_node (wt_plane w) n (ek, ls, bt_remove key ps) G) w'"
    unfolding wt_remove_prop_def
    by (intro wt_prop_ok [where a = "remove_node_prop V pc (wt_plane w) n key", OF ok n t'(1) _ t'(2,3)])
       (simp_all add: keeps_nodes picked_remove)
  moreover have "grows (wt_plane w) 0 G (put_node (wt_plane w) n (ek, ls, bt_remove key ps) G)" by (rule grows_same [OF totals_reprop [OF n]])
  ultimately show ?thesis by auto
qed

lemma wt_set_labels_ok:
  assumes ok: "txn_ok inv view pc G0 b m0 G w" and pc: "postcard_ok pc"
    and v: "\<forall>name \<in> set labels. utf8_ok name" "roomy (length labels) (view (wt_inner w))"
  shows "\<exists>G'. txn_ok inv view pc G0 b m0 G' (snd (wt_set_labels V pc n labels w)) \<and> grows (wt_plane w) (length labels) G G'"
proof (rule node_cases [OF ok, of n])
  fix L T assume "get_node V pc (wt_inner w) (wt_plane w) n = Inr None"
  then show ?thesis using ok by (auto simp: wt_set_labels_def bind_on_reading)
next
  fix L T ek ls ps assume r: "inv (wt_inner w)" "reprD pc L T G (view (wt_inner w))" and n: "ag_node G (wt_plane w, n) = Some (ek, ls, ps)"
    and get: "get_node V pc (wt_inner w) (wt_plane w) n = Inr (Some (node_rec (wt_plane w) n (ek, ls, ps)))"
  obtain t' L' where t': "set_node_labels V pc (wt_plane w) n labels (wt_inner w) = (Inr (), t')" "inv t'"
    "reprD pc L' T (put_node (wt_plane w) n (ek, labels, ps) G) (view t')"
    using set_node_labels_run [OF r pc n v] by blast
  let ?G = "put_node (wt_plane w) n (ek, labels, ps) G"
  let ?w = "record_change NodeKind n Updated (record_kw_labels_event n ls labels ps (record_labels_event n ls labels ps
     (on_counters (\<lambda>d. delta_labels 1 labels (delta_labels (- 1) ls d)) (w\<lparr>wt_inner := t'\<rparr>))))"
  have run: "wt_set_labels V pc n labels w = (Inr (), ?w)"
    using get t'(1) by (simp add: wt_set_labels_def bind_on_reading bind_on_txn node_rec_def)
  have d: "delta_fits b (totals_of ?G (wt_plane w)) (wt_counters ?w)"
    using fits_labels [OF fits_labels [OF txn_okD(4) [OF ok] refl, where x = "- 1" and ls = ls] refl, where x = 1 and ls = labels]
    by (simp add: record_labels_event_def record_kw_labels_event_def totals_relabel [OF n])
  have "txn_ok inv view pc G0 b m0 ?G ?w"
    by (rule txn_ok_node [where a = "set_node_labels V pc (wt_plane w) n labels", OF ok t'(1) _ t'(2,3) n])
       (use d fits_relabel [OF txn_okD(5) [OF ok] n] fits_relabel [OF txn_okD(6) [OF ok] n] in
         \<open>simp_all add: record_labels_event_def record_kw_labels_event_def keeps_nodes\<close>)
  moreover have "grows (wt_plane w) (length labels) G ?G" by (rule grows_node(2) [OF n])
  ultimately show ?thesis using run by auto
qed

end

end
