(* ===== verification/Txn_Create.thy ===== *)
theory Txn_Create
  imports Txn_Run
begin

text \<open>
  Creating nodes and edges and deleting a node keep the invariant of the write transaction: a drawn id is
  fresh on every plane, and a deletion takes from the counters what its cascade takes from the graph.
\<close>

section \<open>Drawing an id\<close>

definition node_ids_ready :: "id_allocator \<Rightarrow> agraph \<Rightarrow> kv \<Rightarrow> node_id \<Rightarrow> bool" where
  "node_ids_ready a G m i \<longleftrightarrow> (\<exists>c. m Meta META_NEXT_NODE_ID = Some (be64 c) \<and> i < c) \<and> (\<forall>q. (q, i) \<notin> dom (ag_node G)) \<and>
     (\<forall>G'. (\<forall>q n. (q, n) \<in> dom (ag_node G') \<longrightarrow> (q, n) \<in> dom (ag_node G) \<or> n = i) \<longrightarrow> ag_edge G' = ag_edge G \<longrightarrow> alloc_ok a G' m)"

definition edge_ids_ready :: "id_allocator \<Rightarrow> agraph \<Rightarrow> kv \<Rightarrow> edge_id \<Rightarrow> bool" where
  "edge_ids_ready a G m i \<longleftrightarrow> (\<exists>c. m Meta META_NEXT_EDGE_ID = Some (be64 c) \<and> i < c) \<and> (\<forall>q. (q, i) \<notin> dom (ag_edge G)) \<and>
     (\<forall>G'. (\<forall>q n. (q, n) \<in> dom (ag_edge G') \<longrightarrow> (q, n) \<in> dom (ag_edge G) \<or> n = i) \<longrightarrow> ag_node G' = ag_node G \<longrightarrow> alloc_ok a G' m)"

lemma same_side_advance: "ctr \<in> {META_NEXT_NODE_ID, META_NEXT_EDGE_ID} \<Longrightarrow> same_side m (kv_put Meta ctr x m)"
  by (auto simp: same_side_def side_row_def)

lemma batch_ok_other: "batch_ok ctr N m b \<Longrightarrow> m' Meta ctr = m Meta ctr \<Longrightarrow> batch_ok ctr N m' b"
  by (simp add: batch_ok_def)

lemma distinct_sort_dedup [simp]: "distinct (sort_dedup xs)"
proof -
  have "distinct (remdups_adj ys)" if "sorted ys" for ys :: "'a::linorder list"
    using that by (induction ys rule: remdups_adj.induct) auto
  then show ?thesis by (simp add: sort_dedup_def)
qed

lemma dom_edge_cascade: "dom (ag_edge (cascade p n G)) \<subseteq> dom (ag_edge G)"
  by (auto simp: cascade_def split: if_splits)

lemma incident_of_neighbors:
  assumes "set outs = out_nbrs (ag_edge G) p n None" "set ins = in_nbrs (ag_edge G) p n None"
  shows "nb_edge ` set outs \<union> nb_edge ` set ins = {e. incident G p n e}"
proof -
  have nb: "e \<in> nb_edge ` S \<longleftrightarrow> (\<exists>m. \<lparr>nb_node = m, nb_edge = e\<rparr> \<in> S)" for e and S :: "neighbor set"
  proof
    assume "e \<in> nb_edge ` S"
    then obtain nb where "nb \<in> S" "e = nb_edge nb" by blast
    then show "\<exists>m. \<lparr>nb_node = m, nb_edge = e\<rparr> \<in> S" by (cases nb) auto
  qed force
  show ?thesis unfolding assms image_Un [symmetric] set_eq_iff nb by (auto simp: out_nbrs_def in_nbrs_def incident_def)
qed

context kv_txn begin

lemma draw_node_id:
  assumes ok: "txn_ok inv view pc G0 b m0 G w" and room: "room META_NEXT_NODE_ID (2 ^ 64 - 1) 64 (view (wt_inner w))"
  obtains i t ids where "next_node_id V (wt_ids w) (wt_inner w) = (Inr (i, ids), t)"
    "txn_ok inv view pc G0 b m0 G (w\<lparr>wt_inner := t, wt_ids := ids\<rparr>)" "node_ids_ready ids G (view t) i"
    "view t Meta META_NEXT_LABEL_ID = view (wt_inner w) Meta META_NEXT_LABEL_ID"
proof -
  obtain L T where r: "inv (wt_inner w)" "reprD pc L T G (view (wt_inner w))" "ag_ok G" using txn_okD(1) [OF ok] by (rule db_okE)
  have al: "batch_ok META_NEXT_NODE_ID (ag_node G) (view (wt_inner w)) (ia_node (wt_ids w))"
    "batch_ok META_NEXT_EDGE_ID (ag_edge G) (view (wt_inner w)) (ia_edge (wt_ids w))"
    using txn_okD(2) [OF ok] by (simp_all add: alloc_ok_def)
  obtain i b' t c c' where t: "id_batch_take V META_NEXT_NODE_ID (ia_node (wt_ids w)) (wt_inner w) = (Inr (i, b'), t)" "inv t"
    "view (wt_inner w) Meta META_NEXT_NODE_ID = Some (be64 c)" "c \<le> c'"
    "view t = kv_put Meta META_NEXT_NODE_ID (be64 c') (view (wt_inner w))" "i < c'" "\<forall>q. (q, i) \<notin> dom (ag_node G)"
    "\<forall>N' :: (plane_id \<times> node_id) \<Rightarrow> (str option \<times> str list \<times> props) option. (\<forall>q n. (q, n) \<in> dom N' \<longrightarrow> (q, n) \<in> dom (ag_node G) \<or> n = i) \<longrightarrow> batch_ok META_NEXT_NODE_ID N' (view t) b'"
    using id_batch_take_run [OF r(1) reprD_D(3) [OF r(2)] al(1) room] by (elim exE conjE) (rule that; assumption)
  let ?ids = "(wt_ids w)\<lparr>ia_node := b'\<rparr>"
  have rdy: "node_ids_ready ?ids G (view t) i"
  proof -
    have "batch_ok META_NEXT_NODE_ID (ag_node G') (view t) b'" if "\<forall>q n. (q, n) \<in> dom (ag_node G') \<longrightarrow> (q, n) \<in> dom (ag_node G) \<or> n = i" for G'
      using t(8) [THEN spec, of "ag_node G'"] that by simp
    moreover have "\<exists>c. view t Meta META_NEXT_NODE_ID = Some (be64 c) \<and> i < c" using t(6) by (simp add: t(5))
    moreover have "batch_ok META_NEXT_EDGE_ID (ag_edge G) (view t) (ia_edge (wt_ids w))" by (rule batch_ok_other [OF al(2)]) (simp add: t(5))
    ultimately show ?thesis using t(7) unfolding node_ids_ready_def alloc_ok_def by (intro conjI allI impI) (simp_all del: domIff)
  qed
  have "reprD pc L T G (view t)" unfolding t(5) by (rule reprD_advance [OF r(2) _ t(3,4)]) simp
  then have "db_ok inv view pc G t" by (rule db_okI [where valid = inv and view = view, OF t(2) _ r(3)])
  moreover have "alloc_ok ?ids G (view t)" using rdy by (simp add: node_ids_ready_def)
  moreover have "same_side m0 (view t)" using same_side_trans [OF txn_okD(3) [OF ok] same_side_advance] by (simp add: t(5))
  ultimately have "txn_ok inv view pc G0 b m0 G (w\<lparr>wt_inner := t, wt_ids := ?ids\<rparr>)" using txn_okD(4-) [OF ok] by (simp add: txn_ok_def)
  then show thesis using rdy by (intro that [of i ?ids t]) (simp_all add: next_node_id_def act_bind_def t(1,5))
qed

lemma draw_edge_id:
  assumes ok: "txn_ok inv view pc G0 b m0 G w" and room: "room META_NEXT_EDGE_ID (2 ^ 64 - 1) 64 (view (wt_inner w))"
  obtains i t ids where "next_edge_id V (wt_ids w) (wt_inner w) = (Inr (i, ids), t)"
    "txn_ok inv view pc G0 b m0 G (w\<lparr>wt_inner := t, wt_ids := ids\<rparr>)" "edge_ids_ready ids G (view t) i"
    "view t Meta META_NEXT_EDGE_TYPE_ID = view (wt_inner w) Meta META_NEXT_EDGE_TYPE_ID"
proof -
  obtain L T where r: "inv (wt_inner w)" "reprD pc L T G (view (wt_inner w))" "ag_ok G" using txn_okD(1) [OF ok] by (rule db_okE)
  have al: "batch_ok META_NEXT_NODE_ID (ag_node G) (view (wt_inner w)) (ia_node (wt_ids w))"
    "batch_ok META_NEXT_EDGE_ID (ag_edge G) (view (wt_inner w)) (ia_edge (wt_ids w))"
    using txn_okD(2) [OF ok] by (simp_all add: alloc_ok_def)
  obtain i b' t c c' where t: "id_batch_take V META_NEXT_EDGE_ID (ia_edge (wt_ids w)) (wt_inner w) = (Inr (i, b'), t)" "inv t"
    "view (wt_inner w) Meta META_NEXT_EDGE_ID = Some (be64 c)" "c \<le> c'"
    "view t = kv_put Meta META_NEXT_EDGE_ID (be64 c') (view (wt_inner w))" "i < c'" "\<forall>q. (q, i) \<notin> dom (ag_edge G)"
    "\<forall>N' :: (plane_id \<times> edge_id) \<Rightarrow> (node_id \<times> node_id \<times> str \<times> props) option. (\<forall>q n. (q, n) \<in> dom N' \<longrightarrow> (q, n) \<in> dom (ag_edge G) \<or> n = i) \<longrightarrow> batch_ok META_NEXT_EDGE_ID N' (view t) b'"
    using id_batch_take_run [OF r(1) reprD_D(4) [OF r(2)] al(2) room] by (elim exE conjE) (rule that; assumption)
  let ?ids = "(wt_ids w)\<lparr>ia_edge := b'\<rparr>"
  have rdy: "edge_ids_ready ?ids G (view t) i"
  proof -
    have "batch_ok META_NEXT_EDGE_ID (ag_edge G') (view t) b'" if "\<forall>q n. (q, n) \<in> dom (ag_edge G') \<longrightarrow> (q, n) \<in> dom (ag_edge G) \<or> n = i" for G'
      using t(8) [THEN spec, of "ag_edge G'"] that by simp
    moreover have "\<exists>c. view t Meta META_NEXT_EDGE_ID = Some (be64 c) \<and> i < c" using t(6) by (simp add: t(5))
    moreover have "batch_ok META_NEXT_NODE_ID (ag_node G) (view t) (ia_node (wt_ids w))" by (rule batch_ok_other [OF al(1)]) (simp add: t(5))
    ultimately show ?thesis using t(7) unfolding edge_ids_ready_def alloc_ok_def by (intro conjI allI impI) (simp_all del: domIff)
  qed
  have "reprD pc L T G (view t)" unfolding t(5) by (rule reprD_advance [OF r(2) _ t(3,4)]) simp
  then have "db_ok inv view pc G t" by (rule db_okI [where valid = inv and view = view, OF t(2) _ r(3)])
  moreover have "alloc_ok ?ids G (view t)" using rdy by (simp add: edge_ids_ready_def)
  moreover have "same_side m0 (view t)" using same_side_trans [OF txn_okD(3) [OF ok] same_side_advance] by (simp add: t(5))
  ultimately have "txn_ok inv view pc G0 b m0 G (w\<lparr>wt_inner := t, wt_ids := ?ids\<rparr>)" using txn_okD(4-) [OF ok] by (simp add: txn_ok_def)
  then show thesis using rdy by (intro that [of i ?ids t]) (simp_all add: next_edge_id_def act_bind_def t(1,5))
qed

section \<open>Creation\<close>

lemma insert_node_taken:
  assumes "inv t" "reprD pc L T G (view t)" "has_key (ag_node G) p j key"
  shows "insert_node V pc p n (Some key) labels ps t = (Inl Conflict, t)"
proof -
  have "node_id_by_external_key V t p key = Inr (Some j)"
    using node_id_by_external_key_run(1) [OF assms(1) reprD_D(9) [OF assms(2)]] assms(3) by simp
  then show ?thesis by (simp add: insert_node_def act_bind_def)
qed

lemma txn_ok_added:
  assumes ok: "txn_ok inv view pc G0 b m0 G w" and a: "a (wt_inner w) = (r, t')" "\<forall>k. dict_apart k \<longrightarrow> keeps inv view k a"
    and db: "db_ok inv view pc G' t'" and al: "alloc_ok (wt_ids w) G' (view (wt_inner w))"
    and off: "same_elsewhere (wt_plane w) G G'"
    and w': "wt_inner w' = t'" "wt_ids w' = wt_ids w" "wt_plane w' = wt_plane w" "wt_decls w' = wt_decls w" "wt_kw_decls w' = wt_kw_decls w"
    and d: "delta_fits b (totals_of G' (wt_plane w)) (wt_counters w')"
    and e: "mirror_fits pick_vector (wt_decls w) G0 G' (wt_plane w) (wt_events w')"
      "mirror_fits pick_text (wt_kw_decls w) G0 G' (wt_plane w) (wt_kw_events w')"
  shows "txn_ok inv view pc G0 b m0 G' w'"
proof -
  have "inv (wt_inner w)" using txn_okD(1) [OF ok] by (auto elim: db_okE)
  note rows = keeps_rows [OF a(1) this a(2)]
  have "alloc_ok (wt_ids w) G' (view t')" by (rule alloc_ok_shrink [where m' = "view t'", OF al _ _ rows(3,4)]) simp_all
  then show ?thesis using same_side_trans [OF txn_okD(3) [OF ok] rows(2)] same_elsewhere_trans [OF txn_okD(7) [OF ok] off] db d e by (simp add: txn_ok_def w')
qed

lemma wt_create_impl_ok:
  assumes ok: "txn_ok inv view pc G0 b m0 G w" and pc: "postcard_ok pc" "str_opt_ok ek" "props_ok ps" "\<forall>name \<in> set labels. utf8_ok name"
    and room: "roomy (64 + length labels) (view (wt_inner w))"
  shows "\<exists>G'. txn_ok inv view pc G0 b m0 G' (snd (wt_create_impl V pc ek labels ps w)) \<and> grows (wt_plane w) (1 + length labels) G G'"
proof -
  have rm: "room META_NEXT_NODE_ID (2 ^ 64 - 1) 64 (view (wt_inner w))" "room META_NEXT_LABEL_ID (2 ^ 32) (length labels + 0) (view (wt_inner w))"
    using room unfolding roomy_def by (blast intro: room_mono le_add1 add.right_neutral [THEN eq_refl, THEN order_trans] le_add2)+
  obtain i t ids where t: "next_node_id V (wt_ids w) (wt_inner w) = (Inr (i, ids), t)"
    "txn_ok inv view pc G0 b m0 G (w\<lparr>wt_inner := t, wt_ids := ids\<rparr>)" "node_ids_ready ids G (view t) i"
    "view t Meta META_NEXT_LABEL_ID = view (wt_inner w) Meta META_NEXT_LABEL_ID"
    by (rule draw_node_id [OF ok rm(1)])
  let ?w = "w\<lparr>wt_inner := t, wt_ids := ids\<rparr>" and ?p = "wt_plane w"
  obtain L T where r: "inv t" "reprD pc L T G (view t)" "ag_ok G" using txn_okD(1) [OF t(2)] by (auto elim: db_okE)
  note bind = wt_create_impl_def bind_on_ids [where a = "next_node_id V", OF t(1)]
  show ?thesis
  proof (cases "\<exists>key j. ek = Some key \<and> has_key (ag_node G) ?p j key")
    case True
    then obtain key j where k: "ek = Some key" "has_key (ag_node G) ?p j key" by blast
    have "wt_create_impl V pc ek labels ps w = (Inl Conflict, ?w)"
      using insert_node_taken [OF r(1,2) k(2)] by (simp add: bind bind_on_txn k(1))
    then show ?thesis using t(2) by auto
  next
    case False
    obtain c where c: "view t Meta META_NEXT_NODE_ID = Some (be64 c)" "i < c" and fresh: "\<And>q. (q, i) \<notin> dom (ag_node G)"
      using t(3) unfolding node_ids_ready_def by blast
    have rl: "room META_NEXT_LABEL_ID (2 ^ 32) (length labels + 0) (view t)" using rm(2) t(4) by (simp add: room_def)
    let ?G = "put_node ?p i (ek, labels, ps) G"
    obtain t' L' where t': "insert_node V pc ?p i ek labels ps t = (Inr (), t')" "inv t'" "reprD pc L' T ?G (view t')"
      using insert_node_run [OF r(1,2) pc rl c fresh] False by blast
    let ?w' = "record_change NodeKind i Created (record_kw_node_events i labels ps (record_node_events i labels ps
       (on_counters (node_added labels) (?w\<lparr>wt_inner := t'\<rparr>))))"
    have new: "ag_node G (?p, i) = None" using fresh by auto
    have "wt_create_impl V pc ek labels ps w = (Inr i, ?w')" using t'(1) by (simp add: bind bind_on_txn)
    moreover have "txn_ok inv view pc G0 b m0 ?G ?w'"
    proof (rule txn_ok_added [where a = "insert_node V pc ?p i ek labels ps" and w = ?w, OF t(2)])
      show "db_ok inv view pc ?G t'" by (rule db_okI [where valid = inv and view = view, OF t'(2,3)]) (use r(3) in simp)
      show "alloc_ok (wt_ids ?w) ?G (view (wt_inner ?w))" using t(3) unfolding node_ids_ready_def by auto
      show "delta_fits b (totals_of ?G (wt_plane ?w)) (wt_counters ?w')"
        using fits_node_added [OF txn_okD(4) [OF t(2)], of labels]
        by (simp add: record_node_events_def record_kw_node_events_def totals_put_new [OF new])
      show "mirror_fits pick_vector (wt_decls ?w) G0 ?G (wt_plane ?w) (wt_events ?w')"
        using fits_create [OF txn_okD(5) [OF ok] new] by (simp add: record_node_events_def record_kw_node_events_def)
      show "mirror_fits pick_text (wt_kw_decls ?w) G0 ?G (wt_plane ?w) (wt_kw_events ?w')"
        using fits_create [OF txn_okD(6) [OF ok] new] by (simp add: record_node_events_def record_kw_node_events_def)
    qed (use t'(1) in \<open>simp_all add: keeps_nodes record_node_events_def record_kw_node_events_def\<close>)
    moreover have "grows ?p (1 + length labels) G ?G" by (rule grows_node(1) [OF new])
    ultimately show ?thesis by auto
  qed
qed

lemma wt_create_edge_ok:
  assumes ok: "txn_ok inv view pc G0 b m0 G w" and pc: "postcard_ok pc" "props_ok ps" "utf8_ok ty"
    and room: "roomy 64 (view (wt_inner w))"
  shows "\<exists>G'. txn_ok inv view pc G0 b m0 G' (snd (wt_create_edge V pc s d ty ps w)) \<and> grows (wt_plane w) 1 G G'"
proof -
  have rm: "room META_NEXT_EDGE_ID (2 ^ 64 - 1) 64 (view (wt_inner w))" "room META_NEXT_EDGE_TYPE_ID (2 ^ 32) (Suc 0) (view (wt_inner w))"
    using room unfolding roomy_def by (auto elim: room_mono)
  obtain i t ids where t: "next_edge_id V (wt_ids w) (wt_inner w) = (Inr (i, ids), t)"
    "txn_ok inv view pc G0 b m0 G (w\<lparr>wt_inner := t, wt_ids := ids\<rparr>)" "edge_ids_ready ids G (view t) i"
    "view t Meta META_NEXT_EDGE_TYPE_ID = view (wt_inner w) Meta META_NEXT_EDGE_TYPE_ID"
    by (rule draw_edge_id [OF ok rm(1)])
  let ?w = "w\<lparr>wt_inner := t, wt_ids := ids\<rparr>" and ?p = "wt_plane w"
  obtain L T where r: "inv t" "reprD pc L T G (view t)" "ag_ok G" using txn_okD(1) [OF t(2)] by (auto elim: db_okE)
  note bind = wt_create_edge_def bind_on_ids [where a = "next_edge_id V", OF t(1)]
  show ?thesis
  proof (cases "(?p, s) \<in> dom (ag_node G) \<and> (?p, d) \<in> dom (ag_node G)")
    case False
    then have "wt_create_edge V pc s d ty ps w = (Inl PlaneMismatch, ?w)"
      using insert_edge_mismatch [OF r(1,2), of ?p s d] by (simp add: bind bind_on_txn del: domIff)
    then show ?thesis using t(2) by auto
  next
    case True
    obtain c where c: "view t Meta META_NEXT_EDGE_ID = Some (be64 c)" "i < c" and fresh: "(?p, i) \<notin> dom (ag_edge G)"
      using t(3) unfolding edge_ids_ready_def by blast
    have rt: "room META_NEXT_EDGE_TYPE_ID (2 ^ 32) (Suc 0) (view t)" using rm(2) t(4) by (simp add: room_def)
    let ?G = "put_edge ?p i (s, d, ty, ps) G"
    obtain t' T' where t': "insert_edge V pc ?p i s d ty ps t = (Inr (), t')" "inv t'" "reprD pc L T' ?G (view t')"
      using insert_edge_run [OF r(1,2) pc rt conjunct1 [OF True] conjunct2 [OF True] c fresh] by blast
    let ?w' = "record_change EdgeKind i Created (on_counters (edge_added ty) (?w\<lparr>wt_inner := t'\<rparr>))"
    have new: "ag_edge G (?p, i) = None" using fresh by auto
    have "wt_create_edge V pc s d ty ps w = (Inr i, ?w')" using t'(1) by (simp add: bind bind_on_txn)
    moreover have "txn_ok inv view pc G0 b m0 ?G ?w'"
    proof (rule txn_ok_added [where a = "insert_edge V pc ?p i s d ty ps" and w = ?w, OF t(2)])
      show "db_ok inv view pc ?G t'"
        by (rule db_okI [where valid = inv and view = view, OF t'(2,3)]) (rule ag_ok_put_edge [OF r(3)], use True in simp_all)
      show "alloc_ok (wt_ids ?w) ?G (view (wt_inner ?w))" using t(3) unfolding edge_ids_ready_def by auto
      show "delta_fits b (totals_of ?G (wt_plane ?w)) (wt_counters ?w')"
        using fits_edge_added [OF txn_okD(4) [OF t(2)], of ty] by (simp add: totals_edge_new [OF new])
      show "mirror_fits pick_vector (wt_decls ?w) G0 ?G (wt_plane ?w) (wt_events ?w')"
        using fits_edges(1) [OF txn_okD(5) [OF ok]] by simp
      show "mirror_fits pick_text (wt_kw_decls ?w) G0 ?G (wt_plane ?w) (wt_kw_events ?w')"
        using fits_edges(1) [OF txn_okD(6) [OF ok]] by simp
    qed (use t'(1) in \<open>simp_all add: keeps_edges\<close>)
    moreover have "grows ?p 1 G ?G" by (rule grows_edge(1) [OF new])
    ultimately show ?thesis by auto
  qed
qed

section \<open>Deleting a node\<close>

lemma uncount_edges_run:
  assumes "txn_ok inv view pc G0 b m0 G w" "distinct es" "delta_fits b (totals_of (fold (drop_edge (wt_plane w)) ds G) (wt_plane w)) (wt_counters w')"
    "w' = w\<lparr>wt_counters := dl\<rparr>" "set es \<inter> set ds = {}"
  shows "\<exists>dl'. act_iter (uncount_edge V pc) es w' = (Inr (), w\<lparr>wt_counters := dl'\<rparr>) \<and>
    delta_fits b (totals_of (fold (drop_edge (wt_plane w)) (ds @ es) G) (wt_plane w)) dl'"
  using assms
proof (induction es arbitrary: ds w' dl)
  case Nil
  then show ?case by auto
next
  case (Cons e es)
  let ?D = "fold (drop_edge (wt_plane w)) ds G"
  let ?f = "case ag_edge G (wt_plane w, e) of None \<Rightarrow> (\<lambda>d. d) | Some (s, d, ty, ps) \<Rightarrow> edge_removed ty"
  have same: "ag_edge ?D (wt_plane w, e) = ag_edge G (wt_plane w, e)" using Cons.prems(5) by (simp add: fold_drop_edge)
  have run: "uncount_edge V pc e w' = (Inr (), on_counters ?f w')"
    using edge_cases [OF Cons.prems(1), of e]
    by cases (simp_all add: Cons.prems(4) uncount_edge_def bind_on_reading on_counters_def edge_rec_def)
  have fits: "delta_fits b (totals_of (fold (drop_edge (wt_plane w)) (ds @ [e]) G) (wt_plane w)) (wt_counters (on_counters ?f w'))"
  proof (cases "ag_edge G (wt_plane w, e)")
    case None
    then have "drop_edge (wt_plane w) e ?D = ?D" using same by (intro agraph.equality) auto
    then show ?thesis using Cons.prems(3) None by simp
  next
    case (Some y)
    obtain s d ty ps where y: "y = (s, d, ty, ps)" by (cases y)
    then show ?thesis using fits_edge_removed [OF Cons.prems(3), of ty] Some totals_drop_edge [of ?D "wt_plane w" e s d ty ps] same by simp
  qed
  have "on_counters ?f w' = w\<lparr>wt_counters := ?f dl\<rparr>" by (simp add: on_counters_def Cons.prems(4))
  from Cons.IH [OF Cons.prems(1) _ fits this] Cons.prems(2,5) run show ?case by (simp add: act_bind_def)
qed

lemma txn_ok_deleted:
  assumes ok: "txn_ok inv view pc G0 b m0 G w" and r: "inv (wt_inner w)" "reprD pc L T G (view (wt_inner w))" "ag_ok G"
    and t': "delete_node V pc (wt_plane w) n (wt_inner w) = (Inr (), t')" "inv t'" "reprD pc L T (cascade (wt_plane w) n G) (view t')"
    and d: "delta_fits b (totals_of (cascade (wt_plane w) n G) (wt_plane w)) dl"
  shows "txn_ok inv view pc G0 b m0 (cascade (wt_plane w) n G)
    (w\<lparr>wt_counters := dl, wt_inner := t', wt_events := wt_events w @ [RemoveNode n], wt_kw_events := wt_kw_events w @ [RemoveNode n], wt_changes := ch\<rparr>)"
proof (rule txn_ok_inner [where a = "delete_node V pc (wt_plane w) n", OF ok t'(1)])
  show "db_ok inv view pc (cascade (wt_plane w) n G) t'"
    by (rule db_okI [where valid = inv and view = view, OF t'(2,3) ag_ok_cascade [OF r(3)]])
qed (use d fits_delete [OF txn_okD(5) [OF ok]] fits_delete [OF txn_okD(6) [OF ok]] dom_edge_cascade in \<open>auto simp: keeps_delete_node dom_cascade\<close>)

lemma wt_delete_node_ok:
  assumes ok: "txn_ok inv view pc G0 b m0 G w"
  shows "\<exists>G'. txn_ok inv view pc G0 b m0 G' (snd (wt_delete_node V pc n w)) \<and> grows (wt_plane w) 0 G G'"
proof (rule node_cases [OF ok, of n])
  fix L T assume r: "inv (wt_inner w)" "reprD pc L T G (view (wt_inner w))" and none: "ag_node G (wt_plane w, n) = None"
    and get: "get_node V pc (wt_inner w) (wt_plane w) n = Inr None"
  have G: "ag_ok G" using txn_okD(1) [OF ok] by (auto elim: db_okE)
  have same: "cascade (wt_plane w) n G = G" by (rule cascade_absent [OF G]) (use none in auto)
  have del: "delete_node V pc (wt_plane w) n (wt_inner w) = (Inr (), wt_inner w)" by (rule delete_node_missing [OF r]) (use none in auto)
  have "txn_ok inv view pc G0 b m0 (cascade (wt_plane w) n G) (snd (wt_delete_node V pc n w))"
    using txn_ok_deleted [OF ok r G del r(1), of "wt_counters w"] r(2) txn_okD(4) [OF ok] get del
    by (simp add: same wt_delete_node_def uncount_node_def act_bind_def on_txn_def record_change_def)
  then show ?thesis using grows_gone(2) by blast
next
  fix L T ek ls ps assume r: "inv (wt_inner w)" "reprD pc L T G (view (wt_inner w))" and n: "ag_node G (wt_plane w, n) = Some (ek, ls, ps)"
    and get: "get_node V pc (wt_inner w) (wt_plane w) n = Inr (Some (node_rec (wt_plane w) n (ek, ls, ps)))"
  have G: "ag_ok G" using txn_okD(1) [OF ok] by (auto elim: db_okE)
  let ?p = "wt_plane w"
  obtain outs ins where nb: "neighbors V (wt_inner w) ?p n Both None = Inr (outs @ ins)"
    "set outs = out_nbrs (ag_edge G) ?p n None" "set ins = in_nbrs (ag_edge G) ?p n None"
    using neighbors_run [OF r, of ?p n None] by blast
  let ?es = "sort_dedup (map nb_edge (outs @ ins))"
  have es: "set ?es = {e. incident G ?p n e}" using incident_of_neighbors [OF nb(2,3)] by (simp add: image_Un)
  obtain dl where dl: "act_iter (uncount_edge V pc) ?es w = (Inr (), w\<lparr>wt_counters := dl\<rparr>)"
    "delta_fits b (totals_of (fold (drop_edge ?p) ?es G) ?p) dl"
    using uncount_edges_run [OF ok, of ?es "[]" w "wt_counters w"] txn_okD(4) [OF ok] by (auto simp: distinct_sort_dedup)
  obtain t' where t': "delete_node V pc ?p n (wt_inner w) = (Inr (), t')" "inv t'" "reprD pc L T (cascade ?p n G) (view t')"
    using delete_node_run [OF r n] by blast
  have "delta_fits b (totals_of (cascade ?p n G) ?p) (node_removed ls dl)"
    using fits_node_removed [OF dl(2), of ls] totals_drop_node [of "fold (drop_edge ?p) ?es G" ?p n ek ls ps] n
    unfolding cascade_fold [OF es, symmetric] by (simp add: fold_drop_edge)
  from txn_ok_deleted [OF ok r G t' this] show ?thesis using get nb(1) dl(1) t'(1)
    by (intro exI [of _ "cascade ?p n G"])
       (simp add: wt_delete_node_def uncount_node_def act_bind_def on_txn_def record_change_def on_counters_def node_rec_def)
qed

end

end
