(* ===== verification/Txn_Seal.thy ===== *)
theory Txn_Seal
  imports Txn_Create
begin

text \<open>
  Sequences of operations on one write transaction, and its commit: whatever the operations returned, the
  committed state stores a graph, the summary row of every plane states that graph's totals, and the
  buffered events bring the declared indexes in step with it.
\<close>

section \<open>Sequences of operations\<close>

datatype txn_op =
    OpCreateNode "str option" "str list" props
  | OpCreateEdge node_id node_id str props
  | OpDeleteNode node_id
  | OpDeleteEdge edge_id
  | OpSetProp node_id str prop_desc
  | OpRemoveProp node_id str
  | OpSetLabels node_id "str list"
  | OpSetEdgeProp edge_id str prop_desc
  | OpRemoveEdgeProp edge_id str
  | OpSetEdgeType edge_id str

text \<open>The transaction after an operation, whether the operation succeeded or not.\<close>

fun run_op :: "'t vtable \<Rightarrow> postcard \<Rightarrow> txn_op \<Rightarrow> 't write_txn \<Rightarrow> 't write_txn" where
  "run_op V pc (OpCreateNode ek labels ps) w = snd (wt_create_impl V pc ek labels ps w)"
| "run_op V pc (OpCreateEdge s d ty ps) w = snd (wt_create_edge V pc s d ty ps w)"
| "run_op V pc (OpDeleteNode n) w = snd (wt_delete_node V pc n w)"
| "run_op V pc (OpDeleteEdge e) w = snd (wt_delete_edge V pc e w)"
| "run_op V pc (OpSetProp n key x) w = snd (wt_set_prop V pc n key x w)"
| "run_op V pc (OpRemoveProp n key) w = snd (wt_remove_prop V pc n key w)"
| "run_op V pc (OpSetLabels n labels) w = snd (wt_set_labels V pc n labels w)"
| "run_op V pc (OpSetEdgeProp e key x) w = snd (wt_set_edge_prop V pc e key x w)"
| "run_op V pc (OpRemoveEdgeProp e key) w = snd (wt_remove_edge_prop V pc e key w)"
| "run_op V pc (OpSetEdgeType e ty) w = snd (wt_set_edge_type V pc e ty w)"

text \<open>Its arguments are values of their Rust types and no id counter is about to run out.\<close>

fun op_fits :: "txn_op \<Rightarrow> kv \<Rightarrow> bool" where
  "op_fits (OpCreateNode ek labels ps) m \<longleftrightarrow> str_opt_ok ek \<and> props_ok ps \<and> (\<forall>l \<in> set labels. utf8_ok l) \<and> roomy (64 + length labels) m"
| "op_fits (OpCreateEdge s d ty ps) m \<longleftrightarrow> props_ok ps \<and> utf8_ok ty \<and> roomy 64 m"
| "op_fits (OpSetProp n key x) m \<longleftrightarrow> utf8_ok key \<and> desc_ok x"
| "op_fits (OpSetLabels n labels) m \<longleftrightarrow> (\<forall>l \<in> set labels. utf8_ok l) \<and> roomy (length labels) m"
| "op_fits (OpSetEdgeProp e key x) m \<longleftrightarrow> utf8_ok key \<and> desc_ok x"
| "op_fits (OpSetEdgeType e ty) m \<longleftrightarrow> utf8_ok ty \<and> roomy 1 m"
| "op_fits _ m \<longleftrightarrow> True"

text \<open>The most it adds to any total of the plane.\<close>

fun op_weight :: "txn_op \<Rightarrow> nat" where
  "op_weight (OpCreateNode ek labels ps) = 1 + length labels"
| "op_weight (OpCreateEdge s d ty ps) = 1"
| "op_weight (OpSetLabels n labels) = length labels"
| "op_weight (OpSetEdgeType e ty) = 1"
| "op_weight _ = 0"

definition script_weight :: "txn_op list \<Rightarrow> nat" where
  "script_weight xs = sum_list (map op_weight xs)"

fun script_fits :: "'t vtable \<Rightarrow> ('t \<Rightarrow> kv) \<Rightarrow> postcard \<Rightarrow> txn_op list \<Rightarrow> 't write_txn \<Rightarrow> bool" where
  "script_fits V vw pc [] w \<longleftrightarrow> True"
| "script_fits V vw pc (x # xs) w \<longleftrightarrow> op_fits x (vw (wt_inner w)) \<and> script_fits V vw pc xs (run_op V pc x w)"

abbreviation run_ops :: "'t vtable \<Rightarrow> postcard \<Rightarrow> txn_op list \<Rightarrow> 't write_txn \<Rightarrow> 't write_txn" where
  "run_ops V pc xs w \<equiv> fold (run_op V pc) xs w"

section \<open>What a transaction never changes\<close>

named_theorems fixes_intros \<open>operations that keep plane and declarations\<close>

definition setup_of :: "'t write_txn \<Rightarrow> plane_id \<times> metric decls \<times> language decls" where
  "setup_of w = (wt_plane w, wt_decls w, wt_kw_decls w)"

definition fixes_setup :: "('t write_txn, 'a) act \<Rightarrow> bool" where
  "fixes_setup a \<longleftrightarrow> (\<forall>w. setup_of (snd (a w)) = setup_of w)"

lemma fixes_setupD: "fixes_setup a \<Longrightarrow> a w = (r, w') \<Longrightarrow> setup_of w' = setup_of w"
  unfolding fixes_setup_def by (metis snd_conv)

lemma fixes_bind [fixes_intros]:
  assumes "fixes_setup a" "\<And>x. fixes_setup (f x)"
  shows "fixes_setup (act_bind a f)"
  using fixes_setupD [OF assms(1)] assms(2) unfolding fixes_setup_def act_bind_def by (auto split: prod.splits sum.splits)

lemma fixes_at: "(\<And>w. fixes_setup (a w)) \<Longrightarrow> fixes_setup (\<lambda>w. a w w)"
  by (simp add: fixes_setup_def)

lemma fixes_pure [fixes_intros]:
  "fixes_setup (ret x)" "fixes_setup (on_txn b)" "fixes_setup (on_ids c)" "fixes_setup (modify (\<lambda>w. w))"
  "fixes_setup (modify (on_counters f))" "fixes_setup (modify (record_change kd i chg))"
  "fixes_setup (modify (record_node_events i ls ps))" "fixes_setup (modify (record_kw_node_events i ls ps))"
  "fixes_setup (modify (record_labels_event i old new ps))" "fixes_setup (modify (record_kw_labels_event i old new ps))"
  "fixes_setup (modify (wt_events_update ev))" "fixes_setup (modify (wt_kw_events_update kv))"
  "fixes_setup (modify (\<lambda>w. w\<lparr>wt_events := f1 w, wt_kw_events := f2 w\<rparr>))"
  "fixes_setup (modify (\<lambda>w. w\<lparr>wt_events := f1 w\<rparr>))" "fixes_setup (modify (\<lambda>w. w\<lparr>wt_kw_events := f2 w\<rparr>))"
  "fixes_setup (modify (\<lambda>w. w\<lparr>wt_changes := f3 w\<rparr>))"
  by (auto simp: fixes_setup_def setup_of_def ret_def on_txn_def on_ids_def modify_def record_node_events_def record_kw_node_events_def
      record_labels_event_def record_kw_labels_event_def split: prod.splits sum.splits)

lemma fixes_iter [fixes_intros]: "(\<And>x. fixes_setup (f x)) \<Longrightarrow> fixes_setup (act_iter f xs)"
  by (induction xs) (simp_all add: fixes_intros)

lemma fixes_option [fixes_intros]:
  "fixes_setup a \<Longrightarrow> (\<And>x. fixes_setup (f x)) \<Longrightarrow> fixes_setup (case z of None \<Rightarrow> a | Some x \<Rightarrow> f x)"
  "fixes_setup (modify g) \<Longrightarrow> (\<And>x. fixes_setup (modify (h x))) \<Longrightarrow> fixes_setup (modify (case z of None \<Rightarrow> g | Some x \<Rightarrow> h x))"
  "fixes_setup (modify g) \<Longrightarrow> fixes_setup (modify g') \<Longrightarrow> fixes_setup (modify (if c then g else g'))"
  "fixes_setup a \<Longrightarrow> fixes_setup a' \<Longrightarrow> fixes_setup (if c then a else a')"
  by (auto split: option.split)

lemma fixes_prop_events [fixes_intros]: "fixes_setup (record_prop_event V pc n key v)" "fixes_setup (record_kw_prop_event V pc n key v)"
proof -
  let ?f = "\<lambda>w. if \<not> names_property (wt_decls w) key then ret () else act_bind (on_txn (reading (\<lambda>t. get_node V pc t (wt_plane w) n)))
    (\<lambda>found. case found of None \<Rightarrow> ret () | Some x \<Rightarrow> modify (\<lambda>w. w\<lparr>wt_events := wt_events w @ prop_events_of pick_vector (wt_decls w) n (nr_labels x) key v\<rparr>))"
  let ?g = "\<lambda>w. if \<not> names_property (wt_kw_decls w) key then ret () else act_bind (on_txn (reading (\<lambda>t. get_node V pc t (wt_plane w) n)))
    (\<lambda>found. case found of None \<Rightarrow> ret () | Some x \<Rightarrow> modify (\<lambda>w. w\<lparr>wt_kw_events := wt_kw_events w @ prop_events_of pick_text (wt_kw_decls w) n (nr_labels x) key v\<rparr>))"
  have e: "record_prop_event V pc n key v = (\<lambda>w. ?f w w)" "record_kw_prop_event V pc n key v = (\<lambda>w. ?g w w)"
    by (simp_all add: fun_eq_iff record_prop_event_def record_kw_prop_event_def ret_def)
  have f: "fixes_setup (?f w)" "fixes_setup (?g w)" for w by (intro fixes_intros)+
  show "fixes_setup (record_prop_event V pc n key v)" unfolding e by (rule fixes_at [of ?f]) (rule f)
  show "fixes_setup (record_kw_prop_event V pc n key v)" unfolding e by (rule fixes_at [of ?g]) (rule f)
qed

lemma fixes_ops [fixes_intros]:
  "fixes_setup (uncount_edge V pc e)" "fixes_setup (wt_create_impl V pc ek ls ps)" "fixes_setup (wt_create_edge V pc s d ty ps)"
  "fixes_setup (wt_delete_edge V pc e)" "fixes_setup (wt_set_prop V pc n key x)" "fixes_setup (wt_remove_prop V pc n key)"
  "fixes_setup (wt_set_labels V pc n ls)" "fixes_setup (wt_set_edge_prop V pc e key x)" "fixes_setup (wt_remove_edge_prop V pc e key)"
  "fixes_setup (wt_set_edge_type V pc e ty)" "fixes_setup (uncount_node V pc n)" "fixes_setup (wt_delete_node V pc n)"
proof -
  show un: "fixes_setup (uncount_edge V pc e)" for e unfolding uncount_edge_def [abs_def] by (rule fixes_at, intro fixes_intros)
  show "fixes_setup (wt_create_impl V pc ek ls ps)" unfolding wt_create_impl_def [abs_def] by (rule fixes_at, intro fixes_intros)
  show "fixes_setup (wt_create_edge V pc s d ty ps)" unfolding wt_create_edge_def [abs_def] by (rule fixes_at, intro fixes_intros)
  show "fixes_setup (wt_delete_edge V pc e)" unfolding wt_delete_edge_def [abs_def] by (rule fixes_at, intro fixes_intros un)
  show "fixes_setup (wt_set_prop V pc n key x)" unfolding wt_set_prop_def [abs_def] by (rule fixes_at, intro fixes_intros)
  show "fixes_setup (wt_remove_prop V pc n key)" unfolding wt_remove_prop_def [abs_def] by (rule fixes_at, intro fixes_intros)
  show "fixes_setup (wt_set_labels V pc n ls)" unfolding wt_set_labels_def [abs_def] by (rule fixes_at, intro fixes_intros)
  show "fixes_setup (wt_set_edge_prop V pc e key x)" unfolding wt_set_edge_prop_def [abs_def] by (rule fixes_at, intro fixes_intros)
  show "fixes_setup (wt_remove_edge_prop V pc e key)" unfolding wt_remove_edge_prop_def [abs_def] by (rule fixes_at, intro fixes_intros)
  show "fixes_setup (wt_set_edge_type V pc e ty)" unfolding wt_set_edge_type_def [abs_def] by (rule fixes_at, intro fixes_intros)
  show un': "fixes_setup (uncount_node V pc n)" unfolding uncount_node_def [abs_def] by (rule fixes_at, intro fixes_intros un)
  show "fixes_setup (wt_delete_node V pc n)" unfolding wt_delete_node_def [abs_def] by (rule fixes_at, intro fixes_intros un')
qed

lemma run_op_setup: "setup_of (run_op V pc x w) = setup_of w"
  by (cases x) (simp_all add: fixes_ops [unfolded fixes_setup_def, rule_format])

lemma run_ops_setup: "setup_of (run_ops V pc xs w) = setup_of w"
  by (induction xs arbitrary: w) (simp_all add: run_op_setup)

context kv_txn begin

lemma run_op_ok:
  assumes "txn_ok inv view pc G0 b m0 G w" "postcard_ok pc" "op_fits x (view (wt_inner w))"
  shows "\<exists>G'. txn_ok inv view pc G0 b m0 G' (run_op V pc x w) \<and> grows (wt_plane w) (op_weight x) G G'"
  using assms
  by (cases x) (simp_all add: wt_create_impl_ok wt_create_edge_ok wt_delete_node_ok wt_delete_edge_ok wt_set_prop_ok wt_remove_prop_ok
      wt_set_labels_ok wt_set_edge_prop_ok wt_remove_edge_prop_ok wt_set_edge_type_ok del: One_nat_def plus_1_eq_Suc)

lemma run_ops_ok:
  assumes "txn_ok inv view pc G0 b m0 G w" "postcard_ok pc" "script_fits V view pc xs w" "plane_within G (wt_plane w) N"
  shows "\<exists>G'. txn_ok inv view pc G0 b m0 G' (run_ops V pc xs w) \<and> plane_within G' (wt_plane w) (N + script_weight xs)"
  using assms
proof (induction xs arbitrary: G w N)
  case (Cons x xs)
  obtain G' where G': "txn_ok inv view pc G0 b m0 G' (run_op V pc x w)" "grows (wt_plane w) (op_weight x) G G'"
    using run_op_ok [OF Cons.prems(1,2)] Cons.prems(3) by auto
  have p: "wt_plane (run_op V pc x w) = wt_plane w" using run_op_setup [of V pc x w] by (simp add: setup_of_def)
  have "plane_within G' (wt_plane w) (N + op_weight x)" using G'(2) Cons.prems(4) by (simp add: grows_def)
  from Cons.IH [OF G'(1) Cons.prems(2) _ this [folded p]] Cons.prems(3) show ?case by (simp add: p script_weight_def add.assoc)
qed (auto simp: script_weight_def)

end

section \<open>Summary rows\<close>

text \<open>A plane without a row is empty: opening a database counts every plane that has none.\<close>

definition counters_row :: "counters_codec \<Rightarrow> agraph \<Rightarrow> plane_id \<Rightarrow> kv \<Rightarrow> bool" where
  "counters_row cc G p m \<longleftrightarrow>
     (case m Meta (counters_key p) of
        None \<Rightarrow> counts G p counters_default
      | Some b \<Rightarrow> \<exists>c. counters_ok c \<and> counts G p c \<and> b = counters_encode cc c)"

lemma totals_elsewhere:
  assumes "same_elsewhere p G G'" "q \<noteq> p"
  shows "counts G' q c \<longleftrightarrow> counts G q c"
proof -
  have n: "(q, n) \<in> dom (ag_node G') \<longleftrightarrow> (q, n) \<in> dom (ag_node G)" "(q, n) \<in> dom (ag_edge G') \<longleftrightarrow> (q, n) \<in> dom (ag_edge G)" for n
    using assms by (simp_all add: same_elsewhere_def domIff)
  have v: "ag_node G' (q, n) = ag_node G (q, n)" "ag_edge G' (q, n) = ag_edge G (q, n)" for n
    using assms by (simp_all add: same_elsewhere_def)
  show ?thesis by (simp add: counts_def node_total_def edge_total_def label_total_def type_total_def n v del: domIff)
qed

lemma counts_encodable:
  assumes "reprD pc L T G m" "counts G p c"
  shows "counters_ok c"
proof -
  have "utf8_ok l" if l: "l \<in> dom (map_of (ct_labels c))" for l
  proof -
    have "label_total G p l \<noteq> 0" using l assms(2) unfolding counts_def by blast
    then obtain n where "(p, n) \<in> dom (ag_node G)" "count_list (fst (snd (the (ag_node G (p, n))))) l \<noteq> 0"
      unfolding label_total_def by (metis (mono_tags, lifting) mem_Collect_eq sum.neutral)
    then have "has_label (ag_node G) p n l" by (auto simp: has_label_def count_list_0_iff)
    then obtain i where "L i = Some l" using reprD_label_names [OF assms(1)] by blast
    then show ?thesis using reprD_D(1) [OF assms(1)] by (simp add: dict_repr_def)
  qed
  moreover have "utf8_ok ty" if ty: "ty \<in> dom (map_of (ct_edge_types c))" for ty
  proof -
    have "type_total G p ty \<noteq> 0" using ty assms(2) unfolding counts_def by blast
    then obtain e s d ps where "ag_edge G (p, e) = Some (s, d, ty, ps)" unfolding type_total_def by (auto simp: card_gt_0_iff)
    then have "has_edge (ag_edge G) p e s d ty" by (simp add: has_edge_def)
    then obtain i where "T i = Some ty" using reprD_type_names [OF assms(1)] by blast
    then show ?thesis using reprD_D(2) [OF assms(1)] by (simp add: dict_repr_def)
  qed
  ultimately show ?thesis using assms(2) by (simp add: counters_ok_def counts_def dom_map_of_conv_image_fst ball_Un)
qed

context kv_txn begin

text \<open>The row a commit leaves.\<close>

lemma fold_counters_run:
  assumes ok: "txn_ok inv view pc G0 (totals_of G0 (wt_plane w)) m0 G w" and cc: "counters_codec_ok cc"
    and row: "counters_row cc G0 (wt_plane w) m0" and small: "small_plane G0 (wt_plane w)" "small_plane G (wt_plane w)"
  shows "\<exists>w' m'. fold_counters V cc w = (Inr (), w') \<and> db_ok inv view pc G (wt_inner w') \<and> same_side m' (view (wt_inner w')) \<and>
    (m' = m0 \<or> (\<exists>x. m' = kv_put Meta (counters_key (wt_plane w)) x m0)) \<and> counters_row cc G (wt_plane w) m' \<and>
    w' = w\<lparr>wt_inner := wt_inner w', wt_counters := wt_counters w'\<rparr>"
proof -
  let ?k = "counters_key (wt_plane w)" and ?p = "wt_plane w"
  obtain L T where r: "inv (wt_inner w)" "reprD pc L T G (view (wt_inner w))" "ag_ok G" using txn_okD(1) [OF ok] by (rule db_okE)
  note side = txn_okD(3) [OF ok] and fits = txn_okD(4) [OF ok]
  have k: "view (wt_inner w) Meta ?k = m0 Meta ?k" using side side_rows(1) [of ?p] by (simp add: same_side_def)
  obtain c where c: "counts G0 ?p c" "(case m0 Meta ?k of Some b \<Rightarrow> counters_decode cc b | None \<Rightarrow> Inr counters_default) = Inr c"
    "\<And>b. m0 Meta ?k = Some b \<Longrightarrow> counters_ok c \<and> b = counters_encode cc c" "m0 Meta ?k = None \<Longrightarrow> c = counters_default"
    using row counters_decode_encode [OF cc] by (cases "m0 Meta ?k") (auto simp: counters_row_def)
  show ?thesis
  proof (cases "delta_is_empty (wt_counters w)")
    case True
    have "counts G ?p c" by (rule delta_empty_counts [OF c(1) fits True small])
    then have "counters_row cc G ?p m0" using c(3,4) by (auto simp: counters_row_def split: option.splits)
    then show ?thesis using True txn_okD(1) [OF ok] side by (intro exI [of _ w] exI [of _ m0]) (simp add: fold_counters_def)
  next
    case False
    let ?c = "delta_apply (wt_counters w) c"
    let ?t = "put1 V Meta ?k (counters_encode cc ?c) (wt_inner w)" and ?m = "kv_put Meta ?k (counters_encode cc ?c) m0"
    have cnt: "counts G ?p ?c" by (rule delta_apply_counts [OF c(1) fits small])
    have v: "view ?t = kv_put Meta ?k (counters_encode cc ?c) (view (wt_inner w))" "inv ?t" using r(1) by (simp_all add: tx_simps)
    have "reprD pc L T G (view ?t)"
      unfolding v by (rule reprD_bookkeeping [OF r(2)]) (use side_rows(1) [of ?p] in \<open>simp_all add: side_row_def\<close>)
    then have "db_ok inv view pc G ?t" by (rule db_okI [where valid = inv and view = view, OF v(2) _ r(3)])
    moreover have "same_side ?m (view ?t)" using side by (simp add: same_side_def v kv_apply)
    moreover have "counters_row cc G ?p ?m" using cnt counts_encodable [OF r(2) cnt] by (auto simp: counters_row_def)
    moreover have "fold_counters V cc w = (Inr (), w\<lparr>wt_counters := delta_default, wt_inner := ?t\<rparr>)"
      using False c(2) r(1) k by (simp add: fold_counters_def Let_def bind_on_reading tx_simps on_txn_def on_counters_def)
    ultimately show ?thesis by (intro exI [of _ "w\<lparr>wt_counters := delta_default, wt_inner := ?t\<rparr>"] exI [of _ ?m]) auto
  qed
qed

lemma counters_row_cong: "m' Meta (counters_key q) = m Meta (counters_key q) \<Longrightarrow> counters_row cc G q m' = counters_row cc G q m"
  by (simp add: counters_row_def)

lemma read_row:
  assumes inv: "inv t" and r: "reprD pc L T G (view t)" and cc: "counters_codec_ok cc" and row: "counters_row cc G q (view t)"
  shows "\<exists>c. plane_counters_read V pc cc t q = Inr c \<and> counts G q c"
proof (cases "view t Meta (counters_key q)")
  case None
  then show ?thesis using inv catalog_count_run [OF inv r, of q] scan_counts [of G q] by (simp add: plane_counters_read_def tx_simps)
next
  case (Some x)
  then obtain c where "counters_ok c" "counts G q c" "x = counters_encode cc c" using row by (auto simp: counters_row_def)
  then show ?thesis using inv Some counters_decode_encode [OF cc] by (auto simp: plane_counters_read_def tx_simps)
qed

lemma seal_run:
  assumes ok: "txn_ok inv view pc G0 (totals_of G0 (wt_plane w)) m0 G w" and cc: "counters_codec_ok cc"
    and rows: "\<forall>q. counters_row cc G0 q m0" and small: "small_plane G0 (wt_plane w)" "small_plane G (wt_plane w)"
    and seq: "m0 Meta META_COMMIT_SEQ = Some (be64 s) \<or> m0 Meta META_COMMIT_SEQ = None \<and> s = 0"
  shows "\<exists>w'. seal V cc now w = (Inr (s + 1), w') \<and> db_ok inv view pc G (wt_inner w') \<and>
    (\<forall>q. counters_row cc G q (view (wt_inner w'))) \<and> view (wt_inner w') Meta META_COMMIT_SEQ = Some (be64 (s + 1)) \<and>
    view (wt_inner w') Meta META_COMMIT_TIME = Some (be64 now) \<and> wt_events w' = wt_events w \<and> wt_kw_events w' = wt_kw_events w"
proof -
  let ?p = "wt_plane w"
  obtain w1 m1 where 1: "fold_counters V cc w = (Inr (), w1)" "db_ok inv view pc G (wt_inner w1)" "same_side m1 (view (wt_inner w1))"
    "m1 = m0 \<or> (\<exists>x. m1 = kv_put Meta (counters_key ?p) x m0)" "counters_row cc G ?p m1"
    "w1 = w\<lparr>wt_inner := wt_inner w1, wt_counters := wt_counters w1\<rparr>"
    using fold_counters_run [OF ok cc _ small] rows by blast
  obtain L T where r: "inv (wt_inner w1)" "reprD pc L T G (view (wt_inner w1))" "ag_ok G" using 1(2) by (rule db_okE)
  have side: "view (wt_inner w1) Meta k = m1 Meta k" if "side_row k" for k using 1(3) that by (simp add: same_side_def)
  have rows1: "counters_row cc G q (view (wt_inner w1))" for q
  proof (cases "q = ?p")
    case True
    then show ?thesis using 1(5) side [OF side_rows(1), of ?p] by (simp add: counters_row_def)
  next
    case False
    have "m1 Meta (counters_key q) = m0 Meta (counters_key q)" using 1(4) False by (auto simp: kv_apply counters_key_def)
    then have "counters_row cc G0 q (view (wt_inner w1))" using rows side [OF side_rows(1), of q] by (simp add: counters_row_def)
    then show ?thesis by (auto simp: counters_row_def totals_elsewhere [OF txn_okD(7) [OF ok] False] split: option.splits)
  qed
  let ?t2 = "put1 V Meta META_COMMIT_SEQ (be64 (s + 1)) (wt_inner w1)" and ?now = "be64 now"
  let ?t3 = "put1 V Meta META_COMMIT_TIME ?now ?t2" and ?m = "kv_put Meta META_COMMIT_SEQ (be64 (s + 1)) (view (wt_inner w1))"
  have "m1 Meta META_COMMIT_SEQ = m0 Meta META_COMMIT_SEQ" using 1(4) by (auto simp: kv_apply meta_key_defs)
  then have "read_commit_seq V (wt_inner w1) = Inr s"
    using seq side [OF side_rows(2)] r(1) by (auto simp: read_commit_seq_def get_u64_def map_transpose_def decode_u64_def tx_simps)
  then have run: "seal V cc now w = (Inr (s + 1), w1\<lparr>wt_inner := ?t3\<rparr>)"
    using 1(1) r(1) by (simp add: seal_def act_bind_def on_txn_def bump_commit_seq_def put_u64_def write_commit_time_def Let_def tx_simps)
  have v: "view ?t3 = kv_put Meta META_COMMIT_TIME ?now ?m" "inv ?t3" using r(1) by (simp_all add: tx_simps)
  have "reprD pc L T G (view ?t3)"
    unfolding v using side_rows(2,3) by (intro reprD_bookkeeping r(2)) (simp_all add: side_row_def)
  then have "db_ok inv view pc G ?t3" by (rule db_okI [where valid = inv and view = view, OF v(2) _ r(3)])
  moreover have "counters_row cc G q (view ?t3)" for q
  proof -
    have "counters_key q \<noteq> META_COMMIT_SEQ" "counters_key q \<noteq> META_COMMIT_TIME" by (simp_all add: meta_key_defs)
    then have "view ?t3 Meta (counters_key q) = view (wt_inner w1) Meta (counters_key q)" unfolding v by (simp add: kv_apply)
    then show ?thesis using rows1 [of q] by (simp add: counters_row_def)
  qed
  moreover have "view ?t3 Meta META_COMMIT_SEQ = Some (be64 (s + 1))" "view ?t3 Meta META_COMMIT_TIME = Some ?now"
    unfolding v by (simp_all add: kv_apply META_COMMIT_SEQ_def META_COMMIT_TIME_def bstr_def)
  moreover have "wt_events w1 = wt_events w" "wt_kw_events w1 = wt_kw_events w" by (subst 1(6), simp)+
  ultimately show ?thesis using run by (intro exI [of _ "w1\<lparr>wt_inner := ?t3\<rparr>"]) simp
qed

lemma read_commit_seq_iff:
  "inv t \<Longrightarrow> read_commit_seq V t = Inr s \<longleftrightarrow>
     view t Meta META_COMMIT_SEQ = Some (be64 s) \<or> view t Meta META_COMMIT_SEQ = None \<and> s = 0"
proof (cases "view t Meta META_COMMIT_SEQ")
  case (Some x)
  assume "inv t"
  then show ?thesis using Some from_be64_iff [of x]
    by (cases "from_be64 x") (auto simp: read_commit_seq_def get_u64_def map_transpose_def decode_u64_def tx_simps)
qed (auto simp: read_commit_seq_def get_u64_def map_transpose_def tx_simps)

lemma read_commit_time_run: "inv t \<Longrightarrow> view t Meta META_COMMIT_TIME = Some (be64 x) \<Longrightarrow> read_commit_time V t = Inr (Some x)"
  by (simp add: read_commit_time_def map_transpose_def decode_u64_def tx_simps)

text \<open>A whole transaction: what its operations leave and what its commit leaves.\<close>

lemma script_run:
  assumes "postcard_ok pc" "db_ok inv view pc G t" "script_fits V view pc xs (wt_write p decls kw t)" "plane_within G p N"
  obtains G' where "txn_ok inv view pc G (totals_of G p) (view t) G' (run_ops V pc xs (wt_write p decls kw t))"
    "setup_of (run_ops V pc xs (wt_write p decls kw t)) = (p, decls, kw)" "plane_within G' p (N + script_weight xs)"
proof -
  have "setup_of (run_ops V pc xs (wt_write p decls kw t)) = (p, decls, kw)"
    using run_ops_setup [of V pc xs "wt_write p decls kw t"] by (simp add: setup_of_def wt_write_def)
  moreover have "wt_plane (wt_write p decls kw t) = p" by (simp add: wt_write_def)
  ultimately show thesis using run_ops_ok [OF txn_ok_start [OF assms(2)] assms(1,3), of N] assms(4) that by auto
qed

lemma commit_run:
  assumes "postcard_ok pc" "counters_codec_ok cc" "db_ok inv view pc G t" "\<forall>q. counters_row cc G q (view t)"
    "plane_within G p N" "N + script_weight xs < 2 ^ 63"
    "read_commit_seq V t = Inr s" "script_fits V view pc xs (wt_write p decls kw t)"
  defines "w0 \<equiv> run_ops V pc xs (wt_write p decls kw t)"
  shows "\<exists>G' w. db_ok inv view pc G' (wt_inner w0) \<and> seal V cc now w0 = (Inr (s + 1), w) \<and>
    db_ok inv view pc G' (wt_inner w) \<and> (\<forall>q. counters_row cc G' q (view (wt_inner w))) \<and>
    (\<forall>q. \<exists>c. plane_counters_read V pc cc (wt_inner w) q = Inr c \<and> counts G' q c) \<and>
    read_commit_seq V (wt_inner w) = Inr (s + 1) \<and> read_commit_time V (wt_inner w) = Inr (Some now)"
proof -
  obtain G' where ok: "txn_ok inv view pc G (totals_of G p) (view t) G' w0" "setup_of w0 = (p, decls, kw)" "plane_within G' p (N + script_weight xs)"
    unfolding w0_def by (rule script_run [OF assms(1,3,8,5)])
  have p: "wt_plane w0 = p" using ok(2) by (simp add: setup_of_def)
  have small: "small_plane G p" "small_plane G' p"
    using plane_within_small [OF assms(5)] plane_within_small [OF ok(3) assms(6)] assms(6) by auto
  have "inv t" using assms(3) by (auto elim: db_okE)
  then have seq: "view t Meta META_COMMIT_SEQ = Some (be64 s) \<or> view t Meta META_COMMIT_SEQ = None \<and> s = 0"
    using assms(7) read_commit_seq_iff by blast
  obtain w where w: "seal V cc now w0 = (Inr (s + 1), w)" "db_ok inv view pc G' (wt_inner w)"
    "\<forall>q. counters_row cc G' q (view (wt_inner w))" "view (wt_inner w) Meta META_COMMIT_SEQ = Some (be64 (s + 1))"
    "view (wt_inner w) Meta META_COMMIT_TIME = Some (be64 now)"
    using seal_run [of pc G w0 "view t" G' cc s now] ok(1) assms(2,4) seq small unfolding p by blast
  obtain L T where r: "inv (wt_inner w)" "reprD pc L T G' (view (wt_inner w))" using w(2) by (rule db_okE)
  show ?thesis
    using w r(1) read_commit_seq_iff [OF r(1)] read_commit_time_run [OF r(1)] read_row [OF r assms(2)] txn_okD(1) [OF ok(1)] by blast
qed

lemma within_any: "\<exists>N. plane_within G p N"
proof -
  have "label_total G p l \<le> (\<Sum>n | (p, n) \<in> dom (ag_node G). length (fst (snd (the (ag_node G (p, n))))))" for l
    unfolding label_total_def by (rule sum_mono) (simp add: count_le_length)
  moreover have "type_total G p ty \<le> edge_total G p" for ty
    unfolding type_total_def edge_total_def by (rule card_mono) auto
  ultimately show ?thesis unfolding plane_within_def by (meson max.cobounded1 max.coboundedI2 order_trans)
qed

lemma script_mirror:
  assumes "postcard_ok pc" "db_ok inv view pc G t" "script_fits V view pc xs (wt_write p decls kw t)"
  defines "w0 \<equiv> run_ops V pc xs (wt_write p decls kw t)"
  shows "\<exists>G'. db_ok inv view pc G' (wt_inner w0) \<and>
    (\<forall>(l, k, m) \<in> set decls. fold (replay1 l k) (wt_events w0) (mirror pick_vector G p l k) = mirror pick_vector G' p l k) \<and>
    (\<forall>(l, k, m) \<in> set kw. fold (replay1 l k) (wt_kw_events w0) (mirror pick_text G p l k) = mirror pick_text G' p l k)"
proof -
  obtain N where "plane_within G p N" using within_any by blast
  with assms(1-3) obtain G' where ok: "txn_ok inv view pc G (totals_of G p) (view t) G' w0" "setup_of w0 = (p, decls, kw)"
    unfolding w0_def by (rule script_run)
  then show ?thesis using txn_okD(1,5,6) [OF ok(1)] by (auto simp: setup_of_def mirror_fits_def)
qed

end

end
