(* ===== verification/Keyword_Run.thy ===== *)
theory Keyword_Run
  imports Keyword_Floats Txn_Seal Reader
begin

text \<open>
  Building a keyword index from a stored graph and keeping it in step with the events of a write
  transaction: both give an index of the analysed texts that the declared label and property select.
\<close>

section \<open>The collection a declaration selects\<close>

definition analysed :: "text_lib \<Rightarrow> language \<Rightarrow> (node_id \<Rightarrow> str option) \<Rightarrow> docs" where
  "analysed TL language M n =
     (case M n of None \<Rightarrow> None
      | Some text \<Rightarrow> let toks = analyze TL language text in if toks = [] then None else Some toks)"

lemma analysed_upd:
  "analysed TL language (M(n \<mapsto> text)) = with_doc n (analyze TL language text) (analysed TL language M)"
  "analysed TL language (M(n := None)) = (analysed TL language M)(n := None)"
  by (auto simp: analysed_def with_doc_def fun_eq_iff Let_def)

lemma with_doc_upd: "with_doc n toks (D(n := x)) = with_doc n toks D"
  by (simp add: with_doc_def)

lemma analysed_empty: "analysed TL language Map.empty = Map.empty"
  by (simp add: analysed_def fun_eq_iff)

section \<open>Building from a snapshot\<close>

context kv_txn begin

lemma node_text_run:
  assumes "inv t" "reprD pc L T G (view t)"
  shows "node_text V pc t p n k = Inr (case ag_node G (p, n) of None \<Rightarrow> None | Some (ek, ls, ps) \<Rightarrow> picked pick_text ps k)"
proof (cases "ag_node G (p, n)")
  case None
  then show ?thesis by (simp add: node_text_def get_node_run [OF assms])
next
  case (Some y)
  obtain ek ls ps where "y = (ek, ls, ps)" by (cases y)
  then show ?thesis using Some
    by (cases "map_of ps k") (auto simp: node_text_def get_node_run [OF assms] node_rec_def picked_def split: prop_value.splits)
qed

lemma add_docs_run:
  assumes K: "kw_env_ok K" and t: "inv t" "reprD pc L T G (view t)"
  shows "\<lbrakk>index_ok D e; ke_language e = language; distinct ids; \<And>i. i \<in> set ids \<Longrightarrow> D i = None\<rbrakk> \<Longrightarrow>
    \<exists>f. add_docs K TL V pc t p k ids e = Inr f \<and> ke_language f = language \<and>
      index_ok (\<lambda>n. if n \<in> set ids
        then analysed TL language (\<lambda>n. case ag_node G (p, n) of None \<Rightarrow> None | Some (ek, ls, ps) \<Rightarrow> picked pick_text ps k) n else D n) f"
proof (induction ids arbitrary: D e)
  case (Cons i ids)
  let ?M = "\<lambda>n. case ag_node G (p, n) of None \<Rightarrow> None | Some (ek, ls, ps) \<Rightarrow> picked pick_text ps k"
  let ?D = "D(i := analysed TL language ?M i)"
  let ?e = "case ?M i of None \<Rightarrow> e | Some text \<Rightarrow> add_doc K TL i text e"
  have i: "D i = None" using Cons.prems by simp
  have step: "index_ok ?D ?e \<and> ke_language ?e = language"
  proof (cases "?M i")
    case None
    then have "?D = D" using i by (auto simp: analysed_def)
    then show ?thesis using None Cons.prems by simp
  next
    case (Some u)
    then have "?D = with_doc i (analyze TL language u) D" using i by (auto simp: analysed_def with_doc_def Let_def)
    then show ?thesis using Some add_doc_ok [OF K Cons.prems(1) i, of TL u] Cons.prems(2) by simp
  qed
  have "\<exists>f. add_docs K TL V pc t p k ids ?e = Inr f \<and> ke_language f = language \<and>
      index_ok (\<lambda>n. if n \<in> set ids then analysed TL language ?M n else ?D n) f"
    by (rule Cons.IH [OF conjunct1 [OF step] conjunct2 [OF step]]) (use Cons.prems in auto)
  moreover have "(\<lambda>n. if n \<in> set ids then analysed TL language ?M n else ?D n) =
      (\<lambda>n. if n \<in> set (i # ids) then analysed TL language ?M n else D n)" using Cons.prems by auto
  ultimately show ?case by (simp add: node_text_run [OF t])
qed simp

lemma from_snapshot_run:
  assumes K: "kw_env_ok K" and t: "inv t" "reprD pc L T G (view t)"
  shows "\<exists>e. entry_from_snapshot K TL V pc t p l k language = Inr e \<and> ke_language e = language \<and>
    index_ok (analysed TL language (mirror pick_text G p l k)) e"
proof -
  let ?ids = "sorted_list_of_set {n. has_label (ag_node G) p n l}"
  let ?M = "\<lambda>n. case ag_node G (p, n) of None \<Rightarrow> None | Some (ek, ls, ps) \<Rightarrow> picked pick_text ps k"
  have fin: "finite {n. has_label (ag_node G) p n l}" by (rule finite_subset [of _ UNIV]) auto
  have "\<exists>f. add_docs K TL V pc t p k ?ids (entry_new language) = Inr f \<and> ke_language f = language \<and>
      index_ok (\<lambda>n. if n \<in> set ?ids then analysed TL language ?M n else Map.empty n) f"
    by (rule add_docs_run [OF K t index_ok_new]) (simp_all add: entry_new_def)
  moreover have "(\<lambda>n. if n \<in> set ?ids then analysed TL language ?M n else Map.empty n) = analysed TL language (mirror pick_text G p l k)"
    using fin by (auto simp: fun_eq_iff analysed_def mirror_def has_label_def split: option.splits)
  ultimately show ?thesis by (simp add: entry_from_snapshot_def scan_label_run [OF t])
qed

end

section \<open>A registry in step with a graph\<close>

definition in_step :: "text_lib \<Rightarrow> agraph \<Rightarrow> plane_id \<Rightarrow> str \<times> str \<times> language \<Rightarrow> kw_registry \<Rightarrow> bool" where
  "in_step TL G p = (\<lambda>(l, k, language) R. \<exists>e. map_of R (p, l, k) = Some e \<and> ke_language e = language \<and>
     index_ok (analysed TL language (mirror pick_text G p l k)) e)"

context kv_txn begin

lemma build_all_run:
  assumes K: "kw_env_ok K" and t: "inv t" "reprD pc L T G (view t)"
  shows "distinct (map (\<lambda>(p, l, k, m). (p, l, k)) ds) \<Longrightarrow>
    \<exists>R'. kwr_build_all K TL V pc t ds R = Inr R' \<and> (\<forall>(p, l, k, m) \<in> set ds. in_step TL G p (l, k, m) R') \<and>
      (\<forall>x. x \<notin> set (map (\<lambda>(p, l, k, m). (p, l, k)) ds) \<longrightarrow> map_of R' x = map_of R x)"
proof (induction ds arbitrary: R)
  case (Cons d ds)
  obtain p l k m where d: "d = (p, l, k, m)" by (cases d)
  obtain e where e: "entry_from_snapshot K TL V pc t p l k m = Inr e" "ke_language e = m"
    "index_ok (analysed TL m (mirror pick_text G p l k)) e" using from_snapshot_run [OF K t] by blast
  have distinct: "distinct (map (\<lambda>(p, l, k, m). (p, l, k)) ds)" using Cons.prems by simp
  obtain R' where R': "kwr_build_all K TL V pc t ds (AList.update (p, l, k) e R) = Inr R'"
    "\<forall>(p, l, k, m) \<in> set ds. in_step TL G p (l, k, m) R'"
    "\<forall>x. x \<notin> set (map (\<lambda>(p, l, k, m). (p, l, k)) ds) \<longrightarrow> map_of R' x = map_of (AList.update (p, l, k) e R) x"
    using Cons.IH [of "AList.update (p, l, k) e R", OF distinct] by blast
  have new: "(p, l, k) \<notin> set (map (\<lambda>(p, l, k, m). (p, l, k)) ds)" using Cons.prems by (simp add: d)
  then have "map_of R' (p, l, k) = Some e" using R'(3) by (simp add: update_conv')
  then have "in_step TL G p (l, k, m) R'" using e(2,3) by (simp add: in_step_def)
  moreover have "kwr_build_all K TL V pc t (d # ds) R = Inr R'" using R'(1) e(1) by (simp add: d kwr_build_entry_def)
  ultimately show ?case using R'(2,3) by (intro exI [of _ R']) (auto simp: d update_conv')
qed simp

end

section \<open>Applying the events of a transaction\<close>

fun apply_entry :: "kw_env \<Rightarrow> text_lib \<Rightarrow> str \<Rightarrow> str \<Rightarrow> kw_event \<Rightarrow> kw_entry \<Rightarrow> kw_entry" where
  "apply_entry K TL l k (Upsert l' k' n text) e = (if l' = l \<and> k' = k then add_doc K TL n text (remove_doc n e) else e)"
| "apply_entry K TL l k (Remove l' k' n) e = (if l' = l \<and> k' = k then remove_doc n e else e)"
| "apply_entry K TL l k (RemoveNode n) e = remove_doc n e"

lemma apply_kw_event_at: "map_of (apply_kw_event K TL p ev R) (p, l, k) = map_option (apply_entry K TL l k ev) (map_of R (p, l, k))"
  by (cases ev; cases "map_of R (p, l, k)")
    (auto simp: kwr_upsert_def kwr_remove_one_def kwr_remove_node_def map_of_map_entry map_of_map)

lemma apply_entry_ok:
  assumes K: "kw_env_ok K" and e: "index_ok (analysed TL m M) e" "ke_language e = m"
  shows "index_ok (analysed TL m (replay1 l k ev M)) (apply_entry K TL l k ev e) \<and> ke_language (apply_entry K TL l k ev e) = m"
proof (cases ev)
  case (Upsert l' k' n x)
  note r = remove_doc_ok [OF e(1), of n]
  have "index_ok (with_doc n (analyze TL m x) ((analysed TL m M)(n := None))) (add_doc K TL n x (remove_doc n e))"
    using add_doc_ok(1) [OF K r(1), of n TL x] r(2) e(2) by simp
  then show ?thesis using e r(2) add_doc_ok(2) [OF K r(1), of n TL x] by (simp add: Upsert analysed_upd with_doc_upd)
next
  case (Remove l' k' n)
  then show ?thesis using e remove_doc_ok [OF e(1), of n] by (simp add: analysed_upd)
next
  case (RemoveNode n)
  then show ?thesis using e remove_doc_ok [OF e(1), of n] by (simp add: analysed_upd)
qed

lemma apply_entries_ok:
  assumes "kw_env_ok K"
  shows "index_ok (analysed TL m M) e \<Longrightarrow> ke_language e = m \<Longrightarrow>
    index_ok (analysed TL m (fold (replay1 l k) es M)) (fold (apply_entry K TL l k) es e) \<and>
    ke_language (fold (apply_entry K TL l k) es e) = m"
proof (induction es arbitrary: M e)
  case (Cons ev es)
  note step = apply_entry_ok [OF assms Cons.prems, of l k ev]
  show ?case using Cons.IH [OF conjunct1 [OF step] conjunct2 [OF step]] by simp
qed simp

lemma apply_events_at:
  "map_of (fold (apply_kw_event K TL p) es R) (p, l, k) = map_option (fold (apply_entry K TL l k) es) (map_of R (p, l, k))"
proof (induction es arbitrary: R)
  case Nil
  show ?case by (cases "map_of R (p, l, k)") simp_all
next
  case (Cons ev es)
  then show ?case by (cases "map_of R (p, l, k)") (simp_all add: apply_kw_event_at)
qed

lemma apply_events_step:
  assumes "kw_env_ok K" "in_step TL G p (l, k, m) R"
    "fold (replay1 l k) es (mirror pick_text G p l k) = mirror pick_text G' p l k"
  shows "in_step TL G' p (l, k, m) (fold (apply_kw_event K TL p) es R)"
proof -
  obtain e where e: "map_of R (p, l, k) = Some e" "ke_language e = m" "index_ok (analysed TL m (mirror pick_text G p l k)) e"
    using assms(2) by (auto simp: in_step_def)
  then show ?thesis using apply_entries_ok [OF assms(1) e(3,2), of l k es] assms(3) by (simp add: in_step_def apply_events_at)
qed

section \<open>Searching a registry in step\<close>

text \<open>
  What a search is to return for a collection: the documents that have a query term, with their scores,
  best first and by id among equals, cut off after \<open>j\<close> hits.
\<close>

definition best_hits :: "kw_env \<Rightarrow> docs \<Rightarrow> str list \<Rightarrow> nat \<Rightarrow> (node_id \<times> f32) list \<Rightarrow> bool" where
  "best_hits K D terms j hits \<longleftrightarrow> (\<exists>all. hits = take j all \<and> sorted_wrt (\<lambda>a b. rank_cmp a b \<noteq> Greater) all \<and>
     distinct (map fst all) \<and> map_of all = doc_score K D terms)"

text \<open>The length of a document is a \<open>u32\<close>: the texts of the collection have fewer tokens than that.\<close>

definition few_tokens :: "text_lib \<Rightarrow> language \<Rightarrow> (node_id \<Rightarrow> str option) \<Rightarrow> bool" where
  "few_tokens TL m M \<longleftrightarrow> (\<forall>n text. M n = Some text \<longrightarrow> length (analyze TL m text) < 2 ^ 32)"

lemma analysed_sized: "few_tokens TL m M \<Longrightarrow> sized (analysed TL m M)"
  by (auto simp: sized_def analysed_def few_tokens_def Let_def split: option.splits if_splits)

lemma search_best:
  assumes "kw_env_ok K" "ln_ok (kw_ln K)" "sized D" "index_ok D e"
  shows "best_hits K D (sort_dedup (analyze TL (ke_language e) query)) j (entry_search K TL e query j)"
  using search_ranked [OF assms(1,4) scores_numbers [OF assms(2,3)], of TL query]
  unfolding best_hits_def by (intro exI [of _ "sort_by rank_cmp (all_scores K TL e query)"]) simp

text \<open>Every hit is a document of the collection.\<close>

lemma score_doc: "doc_score K D terms n = Some s \<Longrightarrow> D n \<noteq> None"
proof (rule notI)
  assume s: "doc_score K D terms n = Some s" and "D n = None"
  then have "term_gain K D t n = None" for t by (simp add: term_gain_def term_docs_def)
  then have "doc_score K D terms n = None" by (induction terms) (simp_all add: doc_score_def add_gain_def)
  then show False using s by simp
qed

lemma best_hits_docs:
  assumes "best_hits K D terms j hits" "h \<in> set hits"
  shows "D (fst h) \<noteq> None"
proof -
  obtain all where all: "hits = take j all" "distinct (map fst all)" "map_of all = doc_score K D terms"
    using assms(1) by (auto simp: best_hits_def)
  then have "(fst h, snd h) \<in> set all" using assms(2) by (auto dest: in_set_takeD)
  then have "map_of all (fst h) = Some (snd h)" by (rule map_of_is_SomeI [OF all(2)])
  then show ?thesis unfolding all(3) by (rule score_doc)
qed

context kv_txn begin

lemma hits_visible:
  assumes t: "inv t" "reprD pc L T G (view t)"
    and "\<And>h. h \<in> set hits \<Longrightarrow> analysed TL m (mirror pick_text G p l k) (fst h) \<noteq> None"
  shows "visible_hits (uncached_base V pc t p score) hits (Some l) fst = Inr hits"
  using assms(3)
proof (induction hits)
  case (Cons h hits)
  have "analysed TL m (mirror pick_text G p l k) (fst h) \<noteq> None" using Cons.prems by simp
  then obtain ek ls ps where "ag_node G (p, fst h) = Some (ek, ls, ps)" "l \<in> set ls"
    by (auto simp: analysed_def mirror_def split: option.splits if_splits)
  then show ?case using Cons by (simp add: uncached_base_def get_node_run [OF t] node_rec_def)
qed simp

lemma search_in_step:
  assumes K: "kw_env_ok K" "ln_ok (kw_ln K)" and few: "few_tokens TL m (mirror pick_text G p l k)"
    and t: "inv t" "reprD pc L T G (view t)" and s: "in_step TL G p (l, k, m) R"
  shows "\<exists>hits. kwr_search K TL R p l k query j = Some hits \<and> search_snapshot K TL V pc t p l k m query j = Inr hits \<and>
    best_hits K (analysed TL m (mirror pick_text G p l k)) (sort_dedup (analyze TL m query)) j hits \<and>
    visible_hits (uncached_base V pc t p score) hits (Some l) fst = Inr hits"
proof -
  let ?D = "analysed TL m (mirror pick_text G p l k)"
  obtain e where e: "map_of R (p, l, k) = Some e" "ke_language e = m" "index_ok ?D e"
    using s by (auto simp: in_step_def)
  obtain f where f: "entry_from_snapshot K TL V pc t p l k m = Inr f" "ke_language f = m" "index_ok ?D f"
    using from_snapshot_run [OF K(1) t] by blast
  note D = analysed_sized [OF few]
  have eq: "entry_search K TL e query j = entry_search K TL f query j"
    using search_determined [OF K(1) e(3) f(3) _ scores_numbers [OF K(2) D]] e(2) f(2) by simp
  have best: "best_hits K ?D (sort_dedup (analyze TL m query)) j (entry_search K TL e query j)"
    using search_best [OF K(1,2) D e(3), of TL query j] e(2) by simp
  then have "visible_hits (uncached_base V pc t p score) (entry_search K TL e query j) (Some l) fst = Inr (entry_search K TL e query j)"
    by (intro hits_visible [OF t] best_hits_docs)
  then show ?thesis using e(1) f(1) eq best by (simp add: kwr_search_def search_snapshot_def)
qed

end

end
