(* ===== verification/Txn_Props.thy ===== *)
theory Txn_Props
  imports Txn_Seal
begin

text \<open>
  The promises of a plane-scoped write transaction (\<open>WriteTxn\<close> of \<open>api/mod.rs\<close>): its commit keeps the
  summary counters of every plane exact and buffers exactly the events the in-memory indexes need.
\<close>

section \<open>A concrete codec and a concrete transaction\<close>

text \<open>A codec for counters rows that fulfils the hypothesis; no property depends on its layout.\<close>

definition ser_tally :: "(str, u64) btree \<Rightarrow> bytes" where
  "ser_tally = ser_list (\<lambda>(k, v). ser_str k @ be64 v)"

definition de_tally :: "bytes \<Rightarrow> ((str, u64) btree \<times> bytes) option" where
  "de_tally = de_seq (\<lambda>b. case de_str b of None \<Rightarrow> None | Some (k, r) \<Rightarrow> map_option (\<lambda>(v, r'). ((k, v), r')) (de64 r))"

definition ref_counters :: counters_codec where
  "ref_counters = \<lparr>ser_counters = (\<lambda>c. be64 (ct_nodes c) @ be64 (ct_edges c) @ ser_tally (ct_labels c) @ ser_tally (ct_edge_types c)),
     de_counters = (\<lambda>b. case de64 b of None \<Rightarrow> None | Some (n, b) \<Rightarrow>
       case de64 b of None \<Rightarrow> None | Some (e, b) \<Rightarrow>
       case de_tally b of None \<Rightarrow> None | Some (ls, b) \<Rightarrow>
       map_option (\<lambda>(ts, b). (\<lparr>ct_nodes = n, ct_edges = e, ct_labels = ls, ct_edge_types = ts\<rparr>, b)) (de_tally b))\<rparr>"

lemma de_tally_ser [simp]: "de_tally (ser_tally m @ r) = Some (m, r)"
  unfolding de_tally_def ser_tally_def by (rule de_seq_ser_list) auto

lemma ref_counters_ok: "counters_codec_ok ref_counters"
  by (simp add: counters_codec_ok_def ref_counters_def)

text \<open>
  On a fresh database a node is created and gets a text that a declared keyword index wants; updates of
  records that do not exist fail, deletions of such records do nothing.
\<close>

definition bio :: str where "bio = bstr ''bio''"

definition demo_decls :: "metric decls" where "demo_decls = [(person, bio, Cosine)]"
definition demo_kw :: "language decls" where "demo_kw = [(person, bio, English)]"

definition demo_script :: "txn_op list" where
  "demo_script = [OpCreateNode (Some ann) [person] [], OpSetProp 1 bio (PropDesc None (PStr ann)),
     OpSetProp 9 bio (PropDesc None PNull), OpDeleteEdge 5, OpRemoveProp 1 bio, OpDeleteNode 7]"

lemma demo_script_fits: "script_fits mem_vtable mem_view ref_postcard demo_script (wt_write STARTUP demo_decls demo_kw demo0)"
proof -
  have "roomy (64 + length [person]) (mem_view demo0)" using demo0_roomy by (rule roomy_mono) simp
  then show ?thesis
    by (simp add: demo_script_def wt_write_def str_opt_ok_def bio_def bstr_def)
qed

lemma demo_script_weight: "script_weight demo_script = 2"
  by (simp add: script_weight_def demo_script_def)

lemma counts_empty: "counts empty_graph q counters_default"
  by (simp add: counts_def counters_default_def bt_at_def node_total_def edge_total_def label_total_def type_total_def empty_graph_def)

lemma within_empty: "plane_within empty_graph q 0"
  by (simp add: plane_within_def node_total_def edge_total_def label_total_def type_total_def empty_graph_def)

context kv_txn begin

lemma init_keeps_rows: "keeps inv view (counters_key q) (init_db V pc)"
  unfolding init_db_def write_plane_def put_u64_def put_u32_def migrate_step_def
  by (intro keeps_intros; simp add: meta_key_defs)

lemma init_seq:
  assumes "inv t" "\<And>tb k. view t tb k = None"
  shows "view (snd (init_db V pc t)) Meta META_COMMIT_SEQ = Some (be64 0)"
proof -
  have len: "length DEFAULT_PLANE_NAME < 2 ^ 32" by (simp add: DEFAULT_PLANE_NAME_def bstr_def)
  show ?thesis using assms len
    by (simp add: init_db_def act_bind_def tx_simps put_u32_def put_u64_def write_plane_def kv_apply)
qed

end

lemma demo0_rows: "counters_row ref_counters empty_graph q (mem_view demo0)"
proof -
  have "mem_view demo0 Meta (counters_key q) = mem_view tables_new Meta (counters_key q)"
    using mem.init_keeps_rows [of q ref_postcard] unfolding keeps_def demo0_def by (simp add: mem_inv_def tables_new_def)
  then show ?thesis using counts_empty by (simp add: counters_row_def mem_view_def tables_new_def)
qed

lemma demo0_seq: "read_commit_seq mem_vtable demo0 = Inr 0"
proof -
  have "mem_view demo0 Meta META_COMMIT_SEQ = Some (be64 0)"
    unfolding demo0_def by (rule mem.init_seq) (simp_all add: mem_inv_def mem_view_def tables_new_def)
  then show ?thesis using mem.read_commit_seq_iff [of demo0 0] demo0_all by simp
qed

lemma demo0_db: "db_ok mem_inv mem_view ref_postcard empty_graph demo0"
  using demo0_all ag_ok_empty by (blast intro: db_okI)

section \<open>Occurrences and carriers\<close>

text \<open>
  Labels are counted by occurrence: a node that was given the same label twice counts twice. The
  documentation speaks of the nodes that carry a label. The two agree as long as no node repeats a label
  (\<open>names_once\<close>; the keys of a property map do not repeat anyway).
\<close>

definition names_once :: "node_record list \<Rightarrow> bool" where
  "names_once ns \<longleftrightarrow> (\<forall>n \<in> set ns. distinct (nr_labels n) \<and> distinct (map fst (nr_properties n)))"

definition label_carriers :: "node_record list \<Rightarrow> str \<Rightarrow> nat" where
  "label_carriers ns l = length (filter (\<lambda>n. l \<in> set (nr_labels n)) ns)"

definition prop_carriers :: "node_record list \<Rightarrow> str \<Rightarrow> str \<Rightarrow> nat" where
  "prop_carriers ns l k = length (filter (\<lambda>n. l \<in> set (nr_labels n) \<and> k \<in> fst ` set (nr_properties n)) ns)"

lemma count_list_once: "distinct xs \<Longrightarrow> count_list xs x = (if x \<in> set xs then 1 else 0)"
  by (induction xs) auto

lemma filter_concat: "filter P (concat xss) = concat (map (filter P) xss)"
  by (induction xss) simp_all

lemma labels_once:
  "names_once ns \<Longrightarrow> count_list (concat (map nr_labels ns)) l = label_carriers ns l"
  by (induction ns) (simp_all add: names_once_def label_carriers_def count_list_once)

lemma keys_at:
  "distinct (map fst xs) \<Longrightarrow> length (filter (\<lambda>x. fst x = k) xs) = (if k \<in> fst ` set xs then 1 else 0)"
  by (induction xs) (force simp: filter_empty_conv)+

lemma label_props_at:
  assumes "distinct (map fst xs)"
  shows "distinct ls \<Longrightarrow> length (filter (\<lambda>e. fst e = l \<and> fst (snd e) = k) (concat (map (\<lambda>l. map (Pair l) xs) ls))) =
    (if l \<in> set ls \<and> k \<in> fst ` set xs then 1 else 0)"
proof (induction ls)
  case (Cons l0 ls)
  have "length (filter (\<lambda>e. fst e = l \<and> fst (snd e) = k) (map (Pair l0) xs)) =
      (if l0 = l then length (filter (\<lambda>x. fst x = k) xs) else 0)"
    by (simp add: filter_map comp_def)
  with Cons keys_at [OF assms, of k] show ?case by auto
qed simp

lemma prop_events_cons:
  "prop_events [] = []"
  "prop_events (n # ns) = concat (map (\<lambda>l. map (Pair l) (nr_properties n)) (nr_labels n)) @ prop_events ns"
  by (simp_all add: prop_events_def)

lemma events_once:
  "names_once ns \<Longrightarrow> length (filter (\<lambda>e. fst e = l \<and> fst (snd e) = k) (prop_events ns)) = prop_carriers ns l k"
proof (induction ns)
  case (Cons n ns)
  then have "distinct (map fst (nr_properties n))" "distinct (nr_labels n)" "names_once ns"
    by (simp_all add: names_once_def)
  with Cons.IH label_props_at [of "nr_properties n" "nr_labels n" l k] show ?case
    by (simp add: prop_events_cons prop_carriers_def)
qed (simp add: prop_events_cons prop_carriers_def)

lemma props_once:
  assumes "names_once ns"
  shows "tally (\<lambda>(l', k', d). l' = l \<and> k' = k \<and> True) (prop_events ns) = of_nat (prop_carriers ns l k)"
proof -
  have "(\<lambda>(l', k', d :: prop_desc). l' = l \<and> k' = k \<and> True) = (\<lambda>e. fst e = l \<and> fst (snd e) = k)" by (simp add: split_def)
  with events_once [OF assms, of l k] show ?thesis by (simp only: tally_def)
qed

lemma node_stats_once:
  assumes "node_stats_ok ns cat" "names_once ns"
  shows "ls_count (cat_label cat l) = of_nat (label_carriers ns l)"
    "ps_count (ls_prop (cat_label cat l) k) = of_nat (prop_carriers ns l k)"
proof -
  from assms(1) have "ls_count (cat_label cat l) = of_nat (count_list (concat (map nr_labels ns)) l)"
    "ps_count (ls_prop (cat_label cat l) k) = tally (\<lambda>(l', k', d). l' = l \<and> k' = k \<and> True) (prop_events ns)"
    unfolding node_stats_ok_def Let_def by blast+
  then show "ls_count (cat_label cat l) = of_nat (label_carriers ns l)"
    "ps_count (ls_prop (cat_label cat l) k) = of_nat (prop_carriers ns l k)"
    using labels_once [OF assms(2)] props_once [OF assms(2)] by simp_all
qed

lemma counts_once:
  "counts G p c \<Longrightarrow> names_once (plane_nodes G p) \<Longrightarrow> bt_at (ct_labels c) l = of_nat (label_carriers (plane_nodes G p) l)"
  by (simp add: counts_def label_total_list labels_once)

section \<open>Properties\<close>

text \<open>
  C37: The summary counters are exact. Whatever sequence of record operations (create, delete, set and
  remove properties, relabel, retype) runs on a write transaction of one plane, and whatever each of them
  returns, the staged state stores a graph, and committing it leaves in every plane a counters row that
  states that graph's totals (so \<open>Plane::counters\<close> returns them), advances the commit sequence by one and
  stamps the time. Labels are counted by occurrence; where no node of the plane repeats a label, the row
  states how many nodes carry each. The bulk operations of the transaction, which move the counters too,
  are not among the operations of the sequence. The totals must stay below 2^63, the range of the signed
  buffered changes.
\<close>

theorem counters_exact:
  assumes "kv_txn V valid view" "postcard_ok pc" "counters_codec_ok cc" "db_ok valid view pc G t"
    "\<forall>q. counters_row cc G q (view t)" "plane_within G p N" "N + script_weight xs < 2 ^ 63"
    "read_commit_seq V t = Inr s" "script_fits V view pc xs (wt_write p decls kw t)"
  shows "\<exists>G' w. db_ok valid view pc G' (wt_inner (run_ops V pc xs (wt_write p decls kw t))) \<and>
    seal V cc now (run_ops V pc xs (wt_write p decls kw t)) = (Inr (s + 1), w) \<and>
    db_ok valid view pc G' (wt_inner w) \<and> (\<forall>q. counters_row cc G' q (view (wt_inner w))) \<and>
    (\<forall>q. \<exists>c. plane_counters_read V pc cc (wt_inner w) q = Inr c \<and> counts G' q c \<and>
       (names_once (plane_nodes G' q) \<longrightarrow>
         (\<forall>l. bt_at (ct_labels c) l = of_nat (label_carriers (plane_nodes G' q) l)))) \<and>
    read_commit_seq V (wt_inner w) = Inr (s + 1) \<and> read_commit_time V (wt_inner w) = Inr (Some now)"
proof -
  let ?run = "run_ops V pc xs (wt_write p decls kw t)"
  obtain G' w where w: "db_ok valid view pc G' (wt_inner ?run)" "seal V cc now ?run = (Inr (s + 1), w)"
      "db_ok valid view pc G' (wt_inner w)" "\<forall>q. counters_row cc G' q (view (wt_inner w))"
      "\<forall>q. \<exists>c. plane_counters_read V pc cc (wt_inner w) q = Inr c \<and> counts G' q c"
      "read_commit_seq V (wt_inner w) = Inr (s + 1)" "read_commit_time V (wt_inner w) = Inr (Some now)"
    using kv_txn.commit_run [OF assms, where now = now] by (elim exE conjE) (rule that)
  have "\<exists>c. plane_counters_read V pc cc (wt_inner w) q = Inr c \<and> counts G' q c \<and>
      (names_once (plane_nodes G' q) \<longrightarrow> (\<forall>l. bt_at (ct_labels c) l = of_nat (label_carriers (plane_nodes G' q) l)))" for q
    using spec [OF w(5), of q] counts_once [of G' q] by blast
  then show ?thesis by (intro exI [of _ G'] exI [of _ w] conjI allI w [rule_format])
qed

theorem counters_exact_witness:
  "\<exists>G' w. db_ok mem_inv mem_view ref_postcard G'
      (wt_inner (run_ops mem_vtable ref_postcard demo_script (wt_write STARTUP demo_decls demo_kw demo0))) \<and>
    seal mem_vtable ref_counters 7 (run_ops mem_vtable ref_postcard demo_script (wt_write STARTUP demo_decls demo_kw demo0)) = (Inr 1, w) \<and>
    (\<forall>q. \<exists>c. plane_counters_read mem_vtable ref_postcard ref_counters (wt_inner w) q = Inr c \<and> counts G' q c) \<and>
    read_commit_time mem_vtable (wt_inner w) = Inr (Some 7)"
  using counters_exact [OF mem.kv_txn_axioms ref_postcard_ok ref_counters_ok demo0_db _ within_empty _ demo0_seq demo_script_fits, of 7]
    demo0_rows demo_script_weight by (simp del: split_paired_Ex) blast

text \<open>
  C38: The in-memory indexes are kept in step. Whatever sequence of record operations runs on a write
  transaction, applying its buffered vector events in order to what a declared vector index held (the
  vectors of the nodes of the plane that carry its label) gives what the index should hold for the staged
  graph, and the same holds of the buffered text events and every declared keyword index.
\<close>

theorem index_mirror_exact:
  assumes "kv_txn V valid view" "postcard_ok pc" "db_ok valid view pc G t" "script_fits V view pc xs (wt_write p decls kw t)"
  shows "\<exists>G'. db_ok valid view pc G' (wt_inner (run_ops V pc xs (wt_write p decls kw t))) \<and>
    (\<forall>(l, k, m) \<in> set decls. fold (replay1 l k) (wt_events (run_ops V pc xs (wt_write p decls kw t))) (mirror pick_vector G p l k) =
       mirror pick_vector G' p l k) \<and>
    (\<forall>(l, k, m) \<in> set kw. fold (replay1 l k) (wt_kw_events (run_ops V pc xs (wt_write p decls kw t))) (mirror pick_text G p l k) =
       mirror pick_text G' p l k)"
  by (rule kv_txn.script_mirror [OF assms])

theorem index_mirror_exact_witness:
  "\<exists>G'. db_ok mem_inv mem_view ref_postcard G'
      (wt_inner (run_ops mem_vtable ref_postcard demo_script (wt_write STARTUP demo_decls demo_kw demo0))) \<and>
    fold (replay1 person bio) (wt_kw_events (run_ops mem_vtable ref_postcard demo_script (wt_write STARTUP demo_decls demo_kw demo0)))
      (mirror pick_text empty_graph STARTUP person bio) = mirror pick_text G' STARTUP person bio"
  using index_mirror_exact [OF mem.kv_txn_axioms ref_postcard_ok demo0_db demo_script_fits] unfolding demo_kw_def by auto

text \<open>
  C39: The descriptive catalogue and the full count are exact. On a stored graph both scans succeed; the
  catalogue states how many nodes and edges the plane has, how often each label and edge type occurs, for
  every label and property how often it occurs, with which types and descriptions, which key prefixes each
  producer uses, and for every edge type how many edges lead from a node of one label to a node of
  another; the full count states the totals that the summary row is to hold. Label and property counts are
  occurrences, not nodes as the documentation has it: a node that was given a label twice counts twice,
  and so do its properties under that label. Where no node of the plane repeats a label they are what the
  documentation says, the nodes carrying the label and those of them carrying the property.
\<close>

theorem catalog_exact:
  assumes "kv_txn V valid view" "db_ok valid view pc G t"
  shows "\<exists>cat c. catalog_compute V pc t p = Inr cat \<and> node_stats_ok (plane_nodes G p) cat \<and>
    edge_stats_ok (plane_nodes G p) (plane_edges G p) cat \<and> catalog_count V pc t p = Inr c \<and> counts G p c \<and>
    (names_once (plane_nodes G p) \<longrightarrow> (\<forall>l.
       ls_count (cat_label cat l) = of_nat (label_carriers (plane_nodes G p) l) \<and>
       bt_at (ct_labels c) l = of_nat (label_carriers (plane_nodes G p) l) \<and>
       (\<forall>k. ps_count (ls_prop (cat_label cat l) k) = of_nat (prop_carriers (plane_nodes G p) l k))))"
proof -
  obtain L T where r: "valid t" "reprD pc L T G (view t)" using assms(2) by (rule db_okE)
  obtain cat where cat: "catalog_compute V pc t p = Inr cat" "node_stats_ok (plane_nodes G p) cat"
      "edge_stats_ok (plane_nodes G p) (plane_edges G p) cat"
    using kv_txn.catalog_compute_run [OF assms(1) r] by blast
  from cat node_stats_once [OF cat(2)] counts_once [OF scan_counts]
  show ?thesis
    by (intro exI [of _ cat] exI conjI) (auto simp: kv_txn.catalog_count_run [OF assms(1) r] scan_counts)
qed

theorem catalog_exact_witness:
  "\<exists>cat c. catalog_compute mem_vtable ref_postcard demo3 STARTUP = Inr cat \<and> cat_node_count cat = 2 \<and> cat_edge_count cat = 1 \<and>
    catalog_count mem_vtable ref_postcard demo3 STARTUP = Inr c \<and> ct_nodes c = 2 \<and>
    names_once (plane_nodes graph3 STARTUP) \<and> ls_count (cat_label cat person) = 2"
proof -
  have n: "{n. (STARTUP, n) \<in> dom (ag_node graph3)} = {1, 2}" and e: "{e. (STARTUP, e) \<in> dom (ag_edge graph3)} = {1}"
    by (auto simp: graph3_def graph2_def graph1_def empty_graph_def)
  have nodes: "plane_nodes graph3 STARTUP = [node_rec STARTUP 1 (Some ann, [person], []), node_rec STARTUP 2 (Some bob, [person], [])]"
    by (simp add: plane_nodes_def n) (simp add: graph3_def graph2_def graph1_def empty_graph_def)
  have once: "names_once (plane_nodes graph3 STARTUP)" "label_carriers (plane_nodes graph3 STARTUP) person = 2"
    by (simp_all add: nodes names_once_def label_carriers_def node_rec_def)
  have "length (plane_nodes graph3 STARTUP) = 2" "length (plane_edges graph3 STARTUP) = 1" "node_total graph3 STARTUP = 2"
    by (simp_all add: plane_nodes_def plane_edges_def node_total_def n e)
  note size = this
  obtain cat c where c: "catalog_compute mem_vtable ref_postcard demo3 STARTUP = Inr cat"
      "catalog_count mem_vtable ref_postcard demo3 STARTUP = Inr c" "node_stats_ok (plane_nodes graph3 STARTUP) cat"
      "edge_stats_ok (plane_nodes graph3 STARTUP) (plane_edges graph3 STARTUP) cat" "counts graph3 STARTUP c"
      "ls_count (cat_label cat person) = of_nat (label_carriers (plane_nodes graph3 STARTUP) person)"
    using catalog_exact [OF mem.kv_txn_axioms demo3_db, of STARTUP] once(1) by blast
  have "cat_node_count cat = 2" "cat_edge_count cat = 1" "ct_nodes c = 2"
    using c(3-5) size by (simp_all add: node_stats_ok_def edge_stats_ok_def counts_def)
  with c once show ?thesis by simp
qed

end
