(* ===== verification/Keyword_Props.thy ===== *)
theory Keyword_Props
  imports Keyword_Run Txn_Props
begin

text \<open>
  The promise of the keyword index: searching the live registry, kept up to date by the events of write
  transactions, is searching the committed texts.
\<close>

section \<open>A concrete platform\<close>

text \<open>An environment and an analysis that fulfil the hypotheses; no property depends on them.\<close>

definition ref_fenv :: fenv where
  "ref_fenv = \<lparr>fe_nan64 = (\<lambda>_ _. 0x7FF8000000000000), fe_nan32 = (\<lambda>_ _. 0x7FC00000), fe_simd = NoSimd,
     fe_display = (\<lambda>_. []), fe_pick = (\<lambda>_. 0), fe_iter = (\<lambda>_. 0)\<rparr>"

definition ref_kw :: kw_env where
  "ref_kw = \<lparr>kw_float = ref_fenv, kw_ln = (\<lambda>x. x), kw_terms = rev, kw_scores = rev\<rparr>"

text \<open>
  Words are runs of ASCII letters, digits and bytes above 127 (the parts of wider characters), lowercased
  byte by byte; English words of more than three letters lose a final \<open>s\<close>.
\<close>

definition word_byte :: "byte \<Rightarrow> bool" where
  "word_byte b \<longleftrightarrow> 48 \<le> b \<and> b \<le> 57 \<or> 65 \<le> b \<and> b \<le> 90 \<or> 97 \<le> b \<and> b \<le> 122 \<or> 128 \<le> b"

fun split_words :: "str \<Rightarrow> str \<Rightarrow> str list" where
  "split_words cur [] = [cur]"
| "split_words cur (b # bs) = (if word_byte b then split_words (cur @ [b]) bs else cur # split_words [] bs)"

definition ascii_text :: text_lib where
  "ascii_text = \<lparr>tl_split = split_words [], tl_lower = map (\<lambda>b. if 65 \<le> b \<and> b \<le> 90 then b + 32 else b),
     tl_stem = (\<lambda>m x. if m = English \<and> 3 < length x \<and> last x = 115 then butlast x else x),
     tl_cut = split_words [], tl_alnum = (\<lambda>x. \<exists>b \<in> set x. word_byte b)\<rparr>"

lemma ref_kw_ok: "kw_env_ok ref_kw" "ln_ok (kw_ln ref_kw)"
proof -
  show "kw_env_ok ref_kw" by (simp add: kw_env_ok_def ref_kw_def)
  have "\<not> fsign x \<and> fle x x" if "is_finite x" "fle fone x" for x :: f32
  proof -
    have n: "\<not> is_nan x" using that(1) by (simp add: is_finite_def is_nan_def)
    have "fkey (fone :: f32) \<le> fkey x" using that(2) by (auto simp: fle_def flt_def feq_def fpartial_cmp_def split: if_splits)
    moreover have "0 < fkey (fone :: f32)"
      using at_least_pos [OF constants(8)] at_most_finite [OF constants(7)] by (simp add: fkey_def number_def)
    ultimately have "\<not> fsign x" by (auto simp: fkey_def split: if_splits)
    then show ?thesis using n by (simp add: fle_def feq_def fpartial_cmp_def)
  qed
  then show "ln_ok (kw_ln ref_kw)" by (simp add: ln_ok_def ref_kw_def)
qed

definition the_text :: str where "the_text = bstr ''The boats and the sea''"
definition the_query :: str where "the_query = bstr ''Boat, BOATS!''"

lemma demo_tokens:
  "analyze ascii_text English the_text = [bstr ''boat'', bstr ''sea'']"
  "sort_dedup (analyze ascii_text English the_query) = [bstr ''boat'']"
  by code_simp+

lemma empty_in_step:
  assumes "mirror pick_text G p l k = Map.empty"
  shows "in_step TL G p (l, k, m) [((p, l, k), entry_new m)]"
proof -
  have "analysed TL m (mirror pick_text G p l k) = Map.empty" by (simp add: assms analysed_empty)
  then show ?thesis using index_ok_new [of m] by (simp add: in_step_def entry_new_def)
qed

section \<open>Rebuilding\<close>

text \<open>Rebuilding the registry on opening a database brings every declared index in step.\<close>

theorem rebuild_in_step:
  assumes "kv_txn V valid view" "kw_env_ok K" "db_ok valid view pc G t" "list_keyword_indexes V t = Inr ds"
    "distinct (map (\<lambda>(p, l, k, m). (p, l, k)) ds)"
  shows "\<exists>R. kwr_rebuild_from K TL V pc t = Inr R \<and> (\<forall>(p, l, k, m) \<in> set ds. in_step TL G p (l, k, m) R)"
proof -
  obtain L T where "valid t" "reprD pc L T G (view t)" using assms(3) by (rule db_okE)
  then show ?thesis using kv_txn.build_all_run [OF assms(1,2) _ _ assms(5), of t pc L T G TL "[]"] assms(4)
    by (auto simp: kwr_rebuild_from_def)
qed

text \<open>
  A registry reloaded from the sidecar of the same commit sequence holds the same indexes, so it is in step
  with whatever the saved one was in step with; a sidecar of another sequence is refused.
\<close>

lemma fold_update_map:
  "map_of (fold (\<lambda>(k, v). AList.update k v) xs m) = map_of m ++ map_of (rev xs)"
proof (induction xs arbitrary: m)
  case (Cons x xs)
  then show ?case by (cases x) (simp add: update_conv' map_add_def fun_eq_iff split: option.splits)
qed simp

theorem sidecar_roundtrip:
  assumes "sidecar_codec_ok sc" "\<And>R. mset (iter R) = mset R" "distinct (map fst R)"
  shows "\<exists>R'. kwr_from_bytes sc (kwr_to_bytes sc iter R seq) seq = Some R' \<and> map_of R' = map_of R"
    and "expected \<noteq> seq \<Longrightarrow> kwr_from_bytes sc (kwr_to_bytes sc iter R seq) expected = None"
proof -
  let ?R' = "fold (\<lambda>(k, v). AList.update k v) (iter R) []"
  have m: "mset (rev (iter R)) = mset R" using assms(2) by simp
  then have "mset (map fst (rev (iter R))) = mset (map fst R)" by (metis mset_map)
  then have "distinct (map fst (rev (iter R)))" using assms(3) mset_eq_imp_distinct_iff by blast
  then have "map_of ?R' = map_of R"
    unfolding fold_update_map using map_of_inject_set [of "rev (iter R)" R] mset_eq_setD [OF m] assms(3) by simp
  moreover have "fold (\<lambda>(plane, label, property, e). AList.update (plane, label, property) e)
      (map (\<lambda>((plane, label, property), e). (plane, label, property, e)) (iter R)) [] = ?R'"
    unfolding fold_map by (rule fold_cong) (auto simp: fun_eq_iff)
  moreover have "de_sidecar sc (ser_sidecar sc s) = Some (s, [])" for s
    using assms(1) append_Nil2 unfolding sidecar_codec_ok_def by metis
  ultimately show "\<exists>R'. kwr_from_bytes sc (kwr_to_bytes sc iter R seq) seq = Some R' \<and> map_of R' = map_of R"
    "expected \<noteq> seq \<Longrightarrow> kwr_from_bytes sc (kwr_to_bytes sc iter R seq) expected = None"
    by (simp_all add: kwr_from_bytes_def kwr_to_bytes_def)
qed

section \<open>Deleting through another plane\<close>

lemma index_ok_dom: "index_ok D e \<Longrightarrow> index_ok D' e \<Longrightarrow> D n = None \<longleftrightarrow> D' n = None"
  by (auto simp: index_ok_def doc_ok_def split: option.splits dest!: spec [of _ n])

text \<open>
  Deleting a node that does not exist on the transaction's plane leaves the graph as it was, but its event
  takes the node of that id out of the indexes of every other plane.
\<close>

theorem foreign_delete_unindexes:
  assumes "in_step TL G q (l, k, m) R" "analysed TL m (mirror pick_text G q l k) n \<noteq> None" "ag_node G (p, n) = None" "ag_ok G"
  shows "cascade p n G = G \<and> \<not> in_step TL G q (l, k, m) (apply_kw_event K TL p (RemoveNode n) R)"
proof -
  let ?D = "analysed TL m (mirror pick_text G q l k)"
  obtain e where e: "map_of R (q, l, k) = Some e" "index_ok ?D e" using assms(1) by (auto simp: in_step_def)
  then have "map_of (apply_kw_event K TL p (RemoveNode n) R) (q, l, k) = Some (remove_doc n e)"
    by (simp add: kwr_remove_node_def map_of_map)
  moreover have "\<not> index_ok ?D (remove_doc n e)" using index_ok_dom [OF remove_doc_ok(1) [OF e(2), of n], of ?D n] assms(2) by auto
  moreover have "cascade p n G = G" using assms(3) by (intro cascade_absent [OF assms(4)]) auto
  ultimately show ?thesis by (auto simp: in_step_def)
qed

section \<open>A transaction that writes a text\<close>

text \<open>Two graphs that one state stores have the same nodes.\<close>

lemma stored_nodes:
  assumes "kv_txn V valid view" "db_ok valid view pc G t" "db_ok valid view pc G' t"
  shows "ag_node G = ag_node G'"
proof (rule ext)
  fix x :: "plane_id \<times> node_id"
  obtain p n where x: "x = (p, n)" by (cases x)
  obtain L T where one: "valid t" "reprD pc L T G (view t)" using assms(2) by (rule db_okE)
  obtain L' T' where two: "valid t" "reprD pc L' T' G' (view t)" using assms(3) by (rule db_okE)
  have "map_option (node_rec p n) (ag_node G (p, n)) = map_option (node_rec p n) (ag_node G' (p, n))"
    using kv_txn.get_node_run [OF assms(1) one, of p n] kv_txn.get_node_run [OF assms(1) two, of p n] by simp
  moreover have "inj (node_rec p n)" by (auto simp: inj_def node_rec_def)
  ultimately show "ag_node G x = ag_node G' x" unfolding x by (simp add: option.inj_map [THEN inj_eq])
qed

lemma set_prop_stores:
  assumes "kv_txn V valid view" "db_ok valid view pc G' t'" "ag_node G' (p, n) \<noteq> None"
    and a: "set_node_prop V pc p n key d t = (Inr (), t')"
  shows "wt_inner (run_ops V pc [OpSetProp n key d] (wt_write p decls kw t)) = t'"
proof -
  let ?w = "(wt_write p decls kw t)\<lparr>wt_inner := t'\<rparr>"
  obtain L T where "valid t'" "reprD pc L T G' (view t')" using assms(2) by (rule db_okE)
  with assms(3) obtain node where "get_node V pc t' p n = Inr (Some node)"
    using kv_txn.get_node_run [OF assms(1)] by fastforce
  then show ?thesis using a
    by (simp add: wt_set_prop_def wt_write_def act_bind_def on_txn_def kv_txn.record_prop_event_run [OF assms(1)])
qed

definition text_script :: "txn_op list" where
  "text_script = [OpSetProp 1 bio (PropDesc None (PStr the_text))]"

abbreviation text_run :: "tables write_txn" where
  "text_run \<equiv> run_ops mem_vtable ref_postcard text_script (wt_write STARTUP demo_decls demo_kw demo3)"

abbreviation text_graph :: agraph where
  "text_graph \<equiv> put_node STARTUP 1 (Some ann, [person], [(bio, PropDesc None (PStr the_text))]) graph3"

lemma text_script_fits: "script_fits mem_vtable mem_view ref_postcard text_script (wt_write STARTUP demo_decls demo_kw demo3)"
  by (simp add: text_script_def bio_def the_text_def bstr_def)

lemma text_run_db: "db_ok mem_inv mem_view ref_postcard text_graph (wt_inner text_run)"
proof -
  have n: "ag_node graph3 (STARTUP, 1) = Some (Some ann, [person], [])"
    by (simp add: graph3_def graph2_def graph1_def empty_graph_def)
  have v: "utf8_ok bio" "desc_ok (PropDesc None (PStr the_text))"
    by (simp_all add: bio_def the_text_def bstr_def)
  obtain L T where r: "mem_inv demo3" "reprD ref_postcard L T graph3 (mem_view demo3)" "ag_ok graph3"
    using demo3_db by (rule db_okE)
  obtain t' where "set_node_prop mem_vtable ref_postcard STARTUP 1 bio (PropDesc None (PStr the_text)) demo3 = (Inr (), t')"
    "mem_inv t'" "reprD ref_postcard L T text_graph (mem_view t')"
    using mem.set_node_prop_run [OF r(1,2) ref_postcard_ok n v] by auto
  then have t': "set_node_prop mem_vtable ref_postcard STARTUP 1 bio (PropDesc None (PStr the_text)) demo3 = (Inr (), t')"
    "db_ok mem_inv mem_view ref_postcard text_graph t'"
    using n r(3) by (auto intro: db_okI ag_ok_put_node)
  then show ?thesis unfolding text_script_def using set_prop_stores [OF mem.kv_txn_axioms t'(2) _ t'(1)] by simp
qed

text \<open>The hits of a query that one document answers.\<close>

lemma distinct_singleton: "distinct xs \<Longrightarrow> set xs = {i} \<Longrightarrow> xs = [i]"
proof (cases xs)
  case (Cons y ys)
  assume d: "distinct xs" "set xs = {i}"
  then have "y = i" "set ys \<subseteq> {i}" "i \<notin> set ys" using Cons by auto
  then have "ys = []" by (cases ys) auto
  with Cons \<open>y = i\<close> show ?thesis by simp
qed simp

lemma single_hit:
  assumes "best_hits K D terms j hits" "j \<noteq> 0" "\<And>n. doc_score K D terms n \<noteq> None \<longleftrightarrow> n = i"
  shows "map fst hits = [i]"
proof -
  obtain all where all: "hits = take j all" "distinct (map fst all)" "map_of all = doc_score K D terms"
    using assms(1) by (auto simp: best_hits_def)
  have "set (map fst all) = dom (map_of all)" by (simp add: dom_map_of_conv_image_fst)
  also have "\<dots> = {i}" unfolding all(3) dom_def using assms(3) by blast
  finally have "set (map fst all) = {i}" .
  with all(2) have "map fst all = [i]" by (rule distinct_singleton)
  then show ?thesis using all(1) assms(2) by (cases j) (auto simp: take_map [symmetric])
qed

lemma graph3_texts: "mirror pick_text graph3 STARTUP person bio = Map.empty"
  by (auto simp: mirror_def picked_def graph3_def graph2_def graph1_def empty_graph_def fun_eq_iff)

lemma text_graph_texts: "mirror pick_text text_graph STARTUP person bio = [1 \<mapsto> the_text]"
  by (auto simp: mirror_def picked_def graph3_def graph2_def graph1_def empty_graph_def fun_eq_iff)

lemma boat_score:
  "doc_score K (analysed ascii_text English [1 \<mapsto> the_text]) [bstr ''boat''] n \<noteq> None \<longleftrightarrow> n = 1"
  by (simp add: doc_score_def add_gain_def term_gain_def term_docs_def analysed_def demo_tokens split: option.splits)

section \<open>Properties\<close>

text \<open>
  C40: The live keyword index answers as the committed texts do. Let a registry hold an index of the
  analysed texts of a plane for every declaration. Whatever record operations run on a write transaction of
  the plane, applying its buffered events to the registry gives indexes of the texts of the staged graph,
  and, when each of the texts that a declaration selects has fewer than 2^32 tokens (the range of a
  document's length), in every state that stores this graph a search of the live registry returns what building a throwaway
  index from the state's own records and searching that returns: the documents with a query term, best
  BM25 score first and by id among equal scores, all of them visible in the state, so that a reader's check
  of the hits against its snapshot drops none.
\<close>

theorem keyword_index_exact:
  fixes R :: kw_registry
  assumes "kv_txn V valid view" "postcard_ok pc" "kw_env_ok K" "ln_ok (kw_ln K)" "db_ok valid view pc G t"
    "script_fits V view pc xs (wt_write p decls kw t)" "\<forall>d \<in> set kw. in_step TL G p d R"
  defines "w \<equiv> run_ops V pc xs (wt_write p decls kw t)"
  defines "R' \<equiv> fold (apply_kw_event K TL p) (wt_kw_events w) R"
  shows "\<exists>G'. db_ok valid view pc G' (wt_inner w) \<and> (\<forall>d \<in> set kw. in_step TL G' p d R') \<and>
    (\<forall>(l, k, m) \<in> set kw. few_tokens TL m (mirror pick_text G' p l k) \<longrightarrow> (\<forall>t' query j. db_ok valid view pc G' t' \<longrightarrow>
       (\<exists>hits. kwr_search K TL R' p l k query j = Some hits \<and> search_snapshot K TL V pc t' p l k m query j = Inr hits \<and>
         best_hits K (analysed TL m (mirror pick_text G' p l k)) (sort_dedup (analyze TL m query)) j hits \<and>
         visible_hits (uncached_base V pc t' p score) hits (Some l) fst = Inr hits)))"
proof -
  obtain G' where G': "db_ok valid view pc G' (wt_inner w)"
    "\<forall>(l, k, m) \<in> set kw. fold (replay1 l k) (wt_kw_events w) (mirror pick_text G p l k) = mirror pick_text G' p l k"
    using kv_txn.script_mirror [OF assms(1,2,5,6)] unfolding w_def by blast
  have step: "in_step TL G' p (l, k, m) R'" if "(l, k, m) \<in> set kw" for l k m
    unfolding R'_def using that assms(7) G'(2) by (intro apply_events_step [OF assms(3)]) auto
  have "\<exists>hits. kwr_search K TL R' p l k query j = Some hits \<and> search_snapshot K TL V pc t' p l k m query j = Inr hits \<and>
      best_hits K (analysed TL m (mirror pick_text G' p l k)) (sort_dedup (analyze TL m query)) j hits \<and>
      visible_hits (uncached_base V pc t' p score) hits (Some l) fst = Inr hits"
    if "(l, k, m) \<in> set kw" and few: "few_tokens TL m (mirror pick_text G' p l k)"
      and t': "db_ok valid view pc G' t'" for l k m t' query j
    using t' by (rule db_okE) (rule kv_txn.search_in_step [OF assms(1,3,4) few _ _ step [OF that(1)]])
  then show ?thesis using G'(1) step by (intro exI [of _ G']) auto
qed

theorem keyword_index_exact_witness:
  "\<exists>R' hits. R' = fold (apply_kw_event ref_kw ascii_text STARTUP) (wt_kw_events text_run) [((STARTUP, person, bio), entry_new English)] \<and>
    kwr_search ref_kw ascii_text R' STARTUP person bio the_query 10 = Some hits \<and> map fst hits = [1] \<and>
    search_snapshot ref_kw ascii_text mem_vtable ref_postcard (wt_inner text_run) STARTUP person bio English the_query 10 = Inr hits"
proof -
  let ?R = "fold (apply_kw_event ref_kw ascii_text STARTUP) (wt_kw_events text_run) [((STARTUP, person, bio), entry_new English)]"
  have "\<forall>d \<in> set demo_kw. in_step ascii_text graph3 STARTUP d [((STARTUP, person, bio), entry_new English)]"
    using empty_in_step [of graph3 STARTUP person bio] graph3_texts by (simp add: demo_kw_def)
  from keyword_index_exact [where score = "\<lambda>_ _ _ _ _ _. Inr []", OF mem.kv_txn_axioms ref_postcard_ok ref_kw_ok demo3_db text_script_fits this]
  obtain G' where G': "db_ok mem_inv mem_view ref_postcard G' (wt_inner text_run)"
    "\<forall>(l, k, m) \<in> set demo_kw. few_tokens ascii_text m (mirror pick_text G' STARTUP l k) \<longrightarrow>
       (\<forall>t' query j. db_ok mem_inv mem_view ref_postcard G' t' \<longrightarrow>
       (\<exists>hits. kwr_search ref_kw ascii_text ?R STARTUP l k query j = Some hits \<and>
         search_snapshot ref_kw ascii_text mem_vtable ref_postcard t' STARTUP l k m query j = Inr hits \<and>
         best_hits ref_kw (analysed ascii_text m (mirror pick_text G' STARTUP l k)) (sort_dedup (analyze ascii_text m query)) j hits \<and>
         visible_hits (uncached_base mem_vtable ref_postcard t' STARTUP (\<lambda>_ _ _ _ _ _. Inr [])) hits (Some l) fst = Inr hits))"
    by (elim exE conjE)
  have texts: "mirror pick_text G' STARTUP person bio = [1 \<mapsto> the_text]"
    using stored_nodes [OF mem.kv_txn_axioms G'(1) text_run_db] text_graph_texts by (simp add: mirror_def fun_eq_iff)
  have mem: "(person, bio, English) \<in> set demo_kw" by (simp add: demo_kw_def)
  have few: "few_tokens ascii_text English (mirror pick_text G' STARTUP person bio)"
    by (simp add: few_tokens_def texts demo_tokens)
  from bspec [OF G'(2) mem, unfolded prod.case, THEN mp, OF few, THEN spec, THEN spec, THEN spec, THEN mp, OF G'(1), of the_query 10]
  obtain hits where hits: "kwr_search ref_kw ascii_text ?R STARTUP person bio the_query 10 = Some hits"
    "search_snapshot ref_kw ascii_text mem_vtable ref_postcard (wt_inner text_run) STARTUP person bio English the_query 10 = Inr hits"
    "best_hits ref_kw (analysed ascii_text English [1 \<mapsto> the_text]) [bstr ''boat''] 10 hits"
    unfolding texts demo_tokens(2) by (elim exE conjE)
  have "map fst hits = [1]" by (rule single_hit [OF hits(3) _ boat_score]) simp
  with hits(1,2) show ?thesis by (intro exI [of _ ?R] exI [of _ hits] conjI refl)
qed

end
