(* ===== verification/Spec2Isabelle.thy ===== *)
theory Spec2Isabelle
  imports Graph_Props Graph_Bulk_Props Sst_Props Native_Props Algo_Props Cache_Props Keyword_Props
begin

text \<open>
  \<^bold>\<open>The program.\<close> \<open>dr-strange\<close> is an embedded property-graph database in Rust. Its core crate,
  \<open>crates/dr-strange-core\<close>, has an ordered key-value layer with interchangeable backends
  (\<open>storage/engine.rs\<close>, \<open>storage/memory.rs\<close>, \<open>storage/native\<close>, \<open>storage/redb_backend.rs\<close>), a graph layer
  that stores nodes, edges, planes, dictionaries and catalogues in eleven tables of that layer
  (\<open>storage/keys.rs\<close>, \<open>storage/codec.rs\<close>, \<open>storage/graph\<close>), and above it the API with its
  write transactions and caches, a query engine with graph algorithms and hybrid retrieval, and in-memory
  indexes. This development models the two storage layers, the query engine over them, the cached read
  path, the write transactions of the API and the keyword index they maintain, and how they compose: the graph layer runs over either
  backend through one contract (\<open>kv_txn\<close>), the query engine and the algorithms over any reader of one graph
  (\<open>graph_reader\<close>), and the API's transactions over the graph layer.

  \<^bold>\<open>The theories.\<close>
  \<^item> \<open>Prelude\<close>: bytes and words, ordered maps as sorted association lists (\<open>bt_insert\<close>, \<open>bt_range\<close>, with
    \<open>bt_ok\<close> for sortedness), results \<open>err + 'a\<close>, stateful fallible actions (\<open>act_bind\<close>, \<open>act_iter\<close>).
  \<^item> \<open>Keys\<close>: table ids, key builders and parsers of \<open>storage/keys.rs\<close>, \<open>prefix_successor\<close>.
  \<^item> \<open>Engine\<close>: the transaction traits of \<open>storage/engine.rs\<close> as a record of operations (\<open>vtable\<close>); the
    locale \<open>kv_txn\<close> is the contract every backend owes the graph layer: each operation acts on the view
    \<open>table \<Rightarrow> key \<rightharpoonup> value\<close> of the transaction as the obvious function.
  \<^item> \<open>Memory\<close>: \<open>storage/memory.rs\<close>, an interpretation of \<open>kv_txn\<close>.
  \<^item> \<open>Types\<close>: \<open>types.rs\<close>, \<open>storage/codec.rs\<close>; the serialisation library \<open>postcard\<close> is the parameter
    \<open>pc\<close> with the hypothesis \<open>postcard_ok\<close> (decoding an encoding gives the value and the rest);
    \<open>Postcard_Ref\<close> is a concrete instance.
  \<^item> \<open>Graph_Meta\<close>, \<open>Graph\<close>, \<open>Graph_Bulk\<close>: the operations of \<open>storage/graph/meta.rs\<close>, \<open>node.rs\<close>,
    \<open>edge.rs\<close> and \<open>bulk.rs\<close>, each a function over an arbitrary \<open>vtable\<close>.
  \<^item> \<open>Graph_Spec\<close>: the abstract property graph \<open>agraph\<close> and \<open>reprD\<close>, the relation that a view stores a
    graph (records, label and key indexes, both adjacency tables, dictionaries, counters).
    \<open>Graph_Dict\<close>, \<open>Graph_Nodes\<close>, \<open>Graph_Edges\<close>, \<open>Graph_Planes\<close> prove inside \<open>kv_txn\<close> that each operation
    refines its abstract effect; \<open>Graph_Demo\<close> builds a small database; \<open>Graph_Props\<close> states the results.
    \<open>Graph_Bulk_Run\<close> and \<open>Graph_Bulk_Props\<close> show that the bulk loader stores what creating the same nodes
    and edges one by one would store.
  \<^item> \<open>Crc32\<close>: the slicing-by-8 checksum of \<open>native/mod.rs\<close>, equal to the bitwise definition; changes of up
    to four consecutive bytes always change it.
  \<^item> \<open>Sst\<close>: the sorted run files of \<open>native/sst.rs\<close>, writer and reader of both format versions over the
    exact bytes. \<open>Sst_Read\<close> proves reads exact for any file that represents a list of entries,
    \<open>Sst_Write\<close> that the writer's files do; \<open>Lsm_Merge\<close> is the heap merge and the version collection with
    their specifications; \<open>Sst_Props\<close> states the results.
  \<^item> \<open>Native\<close>: the engine of \<open>native/mod.rs\<close>: the store (memtable, runs, sequence), read and write
    transactions, snapshots and retention, the writer gate, the log, opening, flush, compaction,
    upgrade, commit and replication. The serialisation of a log batch is the parameter \<open>wc\<close> with
    hypothesis \<open>wal_codec_ok\<close>.
  \<^item> \<open>Native_Reads\<close>: layered stores and exact reads (locale \<open>version_source\<close>, interpreted for the memtable
    and for run files), and the write transaction as an interpretation of \<open>kv_txn\<close>, so that every graph
    theorem holds over the native engine. \<open>Native_Commit\<close>: publishing, flushing and compacting keep the
    protected views. \<open>Native_Engine\<close>: the invariant, the step relation \<open>native_step\<close> and that every step
    keeps the views of registered readers. \<open>Native_Recovery\<close>: the directory always reopens as the
    running store, also after a torn log record or a crash inside a flush. \<open>Native_Faults\<close>: three
    concrete runs in which the engine does not keep what its comments promise. \<open>Native_Props\<close>: results.
  \<^item> \<open>Ordering\<close>, \<open>Comparison\<close>: \<open>std::cmp::Ordering\<close>, stable sorting and ordered sets over a comparison
    function; the locale \<open>comparison\<close> is the total preorder they demand, interpreted for the orders the
    executor uses. \<open>Floats\<close>: IEEE-754 arithmetic on bit patterns, one rounding per operation.
    \<open>Vector_Metric\<close>: \<open>storage/vector.rs\<close>, metrics with their SIMD kernels, \<open>top_k\<close>, the exact index.
  \<^item> \<open>Expr\<close>, \<open>Expr_Order\<close>, \<open>Plan\<close>: the expressions of \<open>compute/expr.rs\<close>, that the order of values is a total
    preorder, and the plans of \<open>compute/plan.rs\<close>. \<open>Reader\<close>: the read seam of \<open>api/cache/mod.rs\<close>, the locale
    \<open>graph_reader\<close> and its interpretation by a stored graph.
  \<^item> \<open>Exec\<close>, \<open>Exec_Steps\<close>, \<open>Exec_Table\<close>: the executor of \<open>compute/exec.rs\<close>: rows, steps, the projection tail.
    \<open>Exec_Walks\<close> shows that rows are walks, \<open>Exec_Spec\<close> that plans compute a list semantics on the abstract
    graph, \<open>Exec_Groups\<close> what distinct, sorted and grouped tables hold; \<open>Exec_Props\<close> states the results.
    \<open>Fusion\<close>: hybrid retrieval (\<open>compute/hybrid.rs\<close>).
  \<^item> \<open>Algo\<close>, \<open>Louvain\<close>: \<open>compute/algo.rs\<close>. \<open>Algo_Components\<close> proves union-find correct, \<open>Algo_Paths\<close> and
    \<open>Algo_Routes\<close> prove Dijkstra's search optimal for the rounded sums the machine computes; \<open>Algo_Props\<close>
    states the results. PageRank and Louvain are modelled without properties.
  \<^item> \<open>Cache\<close>: the cross-query cache of \<open>api/cache/store.rs\<close> and the reader on it; the map library is the
    parameter \<open>moka\<close> with hypothesis \<open>moka_ok\<close>. \<open>Cache_Reads\<close>: reads through memo and cache equal storage
    reads. \<open>Engine_Writes\<close>: how \<open>Database\<close> commits, stamped (\<open>with_write\<close>) or not (\<open>with_write_unstamped\<close>, for
    the query history), and that the history leaves every read of the graph as it was. \<open>Cache_Runs\<close>: the step
    relation \<open>cdb_step\<close> of readers, writers and invalidations on shared state, each step one access that a
    function above models, and its coherence invariant. \<open>Cache_Props\<close>: the results, and runs in which the code leaves the
    discipline they need.
  \<^item> \<open>Catalog\<close>: \<open>compute/catalog.rs\<close>, the soft-schema catalogue and the summary counters; the serialisation
    of a counters row is the parameter \<open>cc\<close> with hypothesis \<open>counters_codec_ok\<close>. \<open>Catalog_Spec\<close>: every
    statistic is a number of occurrences among the stored records (of nodes where none repeats a label).
  \<^item> \<open>Write_Txn\<close>: the plane-scoped \<open>WriteTxn\<close> of \<open>api/mod.rs\<close>: every operation with the counter changes,
    index events and change entries it buffers, and the rows its commit adds (\<open>seal\<close>). \<open>Txn_Frame\<close> (what
    graph operations leave alone), \<open>Txn_Totals\<close> (buffered changes are the changes of the totals),
    \<open>Txn_Mirror\<close> (buffered events are the changes of the indexes' content) and \<open>Txn_Alloc\<close> (drawn ids are
    fresh) carry \<open>Txn_Run\<close> and \<open>Txn_Create\<close>, where \<open>txn_ok\<close> is kept by every record operation whatever it
    returns; \<open>Txn_Seal\<close> is the commit and \<open>Txn_Props\<close> the results.
  \<^item> \<open>Keyword\<close>: the text analysis of \<open>text.rs\<close> and the keyword registry of \<open>keyword.rs\<close> (inverted indexes, BM25
    search, events, sidecar); Unicode, stemming and segmentation are the parameter \<open>text_lib\<close>, hash order and
    the platform's logarithm are in \<open>kw_env\<close>. \<open>Keyword_Spec\<close>: an index holds a collection of token lists
    (\<open>index_ok\<close>) and a search depends on nothing else. \<open>Keyword_Floats\<close>: no BM25 score is a NaN.
    \<open>Keyword_Run\<close>: building from a snapshot and applying a transaction's events both give the index of the
    declared texts. \<open>Keyword_Props\<close>: the result, that a search of the live registry equals a search of the
    committed texts, and the deletion through another plane that breaks it.

  \<^bold>\<open>State and steps.\<close> Operations are functions on explicit states. The engine's locks make each of them
  atomic with respect to the others (writers are serialised by the gate, publication happens under the
  store lock), so a concurrent execution is modelled as a sequence of \<open>native_step\<close>s. Waiting for the
  gate is modelled by the time after which its holder releases it and the engine the holder leaves, from
  which the caller then reads (\<open>after_wait\<close>); a call that would block forever has no result. The cached read path has finer steps (\<open>cdb_step\<close>): one per access to shared state. A write
  transaction is a sequence of operations (\<open>run_op\<close>), each of which may fail and keep what it did before.

  \<^bold>\<open>Bounds.\<close> Integers have their width (\<open>u32\<close>, \<open>u64\<close> as words); where the code could wrap, theorems name
  the room they need (\<open>roomy\<close>: counters below their maximum; \<open>room_for_runs\<close>: two free file numbers;
  \<open>run_fits\<close>: encodings below two gigabytes; \<open>few_tokens\<close>: fewer than 2^32 tokens in an indexed text;
  \<open>plane_within\<close>: totals below 2^63, the range of the signed buffered changes). Loops are total functions with termination proofs; the way back of a shortest path
  and the parent chain of union-find are bounded by the number of nodes, which the results show to be
  enough, and the local moves of Louvain, which may repeat forever, are partial.

  \<^bold>\<open>Not modelled.\<close> The block cache of the run reader (transparent), \<open>fsync\<close> ordering below the level of
  whole-file renames and log appends, error messages, test hooks, and I/O errors other than those the
  format or a size limit causes. The \<open>redb\<close> backend is an adapter to a third-party store. The approximate
  vector index (\<open>storage/hnsw.rs\<close>, \<open>index.rs\<close>) is a parameter of the readers, so that a write transaction is
  shown to emit the events that keep it in step and not what its searches return. The bulk operations of a write transaction are modelled; the results on counters and
  events are for its record operations. Not modelled either: the change feed after a commit, time travel by
  wall clock, dumps and restores, the query language, and the command-line, server, language-model,
  \<open>MCP\<close> and binding crates, which are glue and I/O around the core.
\<close>

end
